(* ===== verification/Prelude.thy ===== *)
theory Prelude
  imports Main "HOL-Library.Word" "HOL-Library.AList" "HOL-Library.Monad_Syntax"
begin

unbundle bit_operations_syntax

text \<open>
  What every component of the ChiffonDB model shares: the integer types of the Rust code, the
  error type of \<^verbatim>\<open>chiffondb-core/src/error.rs\<close>, the outcome of a call (a value, an
  error, a panic or no return at all), the state-passing operations built on it, and the byte-array
  primitives (little-endian integers, reading and overwriting a slice) with the lemmas the page
  formats are proved with.

  Conventions. A Rust \<open>u8\<close>, \<open>u16\<close>, \<open>u32\<close>, \<open>u64\<close> is a word of that width,
  \<open>usize\<close> is \<open>nat\<close> (a 64-bit target: no size computed by the code reaches \<open>2 ^ 64\<close>),
  a byte array is a list of 8-bit words whose length the lemmas require, and \<open>+\<close> on words wraps, as
  it does in the release profile.
\<close>

section \<open>Types of the Rust code\<close>

type_synonym byte = "8 word"
type_synonym u16 = "16 word"
type_synonym u32 = "32 word"
type_synonym u64 = "64 word"
type_synonym bytes = "byte list"

section \<open>Errors and outcomes\<close>

datatype io_kind = UnexpectedEof | WouldBlock | AlreadyExists | NotFound | OtherIo

datatype graph_error =
    NodeNotFound string
  | EdgeNotFound string
  | SchemaError string
  | StorageCorrupted u32
  | PropertySlotFreed
  | UnsupportedVersion u32 u32
  | InvalidCommand string
  | TypeMismatch string string
  | ValidationError string
  | UniqueViolation string string
  | IoError io_kind

text \<open>
  The ways a call can fail to return a value: a \<open>Result::Err\<close>, a panic (a slice or an index
  out of range), or a loop that never ends.
\<close>

datatype abort = Failed graph_error | Panicked | Diverged

type_synonym 'a res = "abort + 'a"

abbreviation Ok :: "'a \<Rightarrow> 'a res" where "Ok x \<equiv> Inr x"
abbreviation Err :: "graph_error \<Rightarrow> 'a res" where "Err e \<equiv> Inl (Failed e)"
abbreviation Panic :: "'a res" where "Panic \<equiv> Inl Panicked"

text \<open>The \<open>?\<close> operator on a pure result.\<close>

definition try_res :: "'a res \<Rightarrow> ('a \<Rightarrow> 'b res) \<Rightarrow> 'b res" where
  "try_res r f = (case r of Inl e \<Rightarrow> Inl e | Inr x \<Rightarrow> f x)"

lemma try_res_simps [simp]:
  "try_res (Inl e) f = Inl e"
  "try_res (Inr x) f = f x"
  by (simp_all add: try_res_def)

lemma try_res_eq_Ok: "try_res r f = Inr y \<longleftrightarrow> (\<exists>x. r = Inr x \<and> f x = Inr y)"
  by (cases r) auto

text \<open>
  An operation on a state: what a method taking \<open>&mut self\<close> does. The state is returned on
  the error paths too, as the Rust object keeps whatever was written before the error.
\<close>

type_synonym ('s, 'a) op = "'s \<Rightarrow> 'a res \<times> 's"

definition ret :: "'a \<Rightarrow> ('s, 'a) op" where
  "ret x = (\<lambda>s. (Inr x, s))"

definition fail :: "abort \<Rightarrow> ('s, 'a) op" where
  "fail e = (\<lambda>s. (Inl e, s))"

definition bnd :: "('s, 'a) op \<Rightarrow> ('a \<Rightarrow> ('s, 'b) op) \<Rightarrow> ('s, 'b) op" where
  "bnd m f = (\<lambda>s. case m s of (r, s') \<Rightarrow> (case r of Inl e \<Rightarrow> (Inl e, s') | Inr x \<Rightarrow> f x s'))"

definition gets :: "('s \<Rightarrow> 'a) \<Rightarrow> ('s, 'a) op" where
  "gets f = (\<lambda>s. (Inr (f s), s))"

definition modify :: "('s \<Rightarrow> 's) \<Rightarrow> ('s, unit) op" where
  "modify f = (\<lambda>s. (Inr (), f s))"

definition lift_res :: "'a res \<Rightarrow> ('s, 'a) op" where
  "lift_res r = (\<lambda>s. (r, s))"

text \<open>Looking at the \<open>Result\<close> of a call instead of passing an error on; a panic is not a \<open>Result\<close>.\<close>

definition attempt :: "('s, 'a) op \<Rightarrow> ('s, graph_error + 'a) op" where
  "attempt m = (\<lambda>s. case m s of
     (Inr x, s') \<Rightarrow> (Inr (Inr x), s')
   | (Inl (Failed e), s') \<Rightarrow> (Inr (Inl e), s')
   | (Inl Panicked, s') \<Rightarrow> (Inl Panicked, s')
   | (Inl Diverged, s') \<Rightarrow> (Inl Diverged, s'))"

abbreviation err :: "graph_error \<Rightarrow> ('s, 'a) op" where
  "err e \<equiv> fail (Failed e)"

lemma op_simps [simp]:
  "ret x s = (Inr x, s)"
  "fail e s = (Inl e, s)"
  "gets f s = (Inr (f s), s)"
  "modify g s = (Inr (), g s)"
  "lift_res r s = (r, s)"
  by (simp_all add: ret_def fail_def gets_def modify_def lift_res_def)

lemma bnd_Ok: "m s = (Inr x, s') \<Longrightarrow> bnd m f s = f x s'"
  by (simp add: bnd_def)

lemma bnd_Inl: "m s = (Inl e, s') \<Longrightarrow> bnd m f s = (Inl e, s')"
  by (simp add: bnd_def)

lemma bnd_ret [simp]: "bnd (ret x) f = f x"
  by (simp add: bnd_def ret_def fun_eq_iff)

lemma bnd_fail [simp]: "bnd (fail e) f = fail e"
  by (simp add: bnd_def fail_def fun_eq_iff)

lemma bnd_gets [simp]: "bnd (gets g) f s = f (g s) s"
  by (simp add: bnd_def gets_def)

lemma bnd_modify [simp]: "bnd (modify h) f s = f () (h s)"
  by (simp add: bnd_def modify_def)

lemma bnd_lift_Ok [simp]: "bnd (lift_res (Inr x)) f = f x"
  by (simp add: bnd_def lift_res_def fun_eq_iff)

lemma bnd_lift_Inl [simp]: "bnd (lift_res (Inl e)) f = fail e"
  by (simp add: bnd_def lift_res_def fail_def fun_eq_iff)

lemma bnd_assoc: "bnd (bnd m f) g = bnd m (\<lambda>x. bnd (f x) g)"
  by (auto simp: bnd_def fun_eq_iff split: prod.splits sum.splits)

lemma bnd_eq_Ok:
  "bnd m f s = (Inr y, s'') \<longleftrightarrow> (\<exists>x s'. m s = (Inr x, s') \<and> f x s' = (Inr y, s''))"
  by (auto simp: bnd_def split: prod.splits sum.splits)

section \<open>Little-endian integers\<close>

text \<open>\<open>to_le_bytes\<close> and \<open>from_le_bytes\<close>: the first byte is the least significant.\<close>

primrec to_le :: "nat \<Rightarrow> 'a::len word \<Rightarrow> bytes" where
  "to_le 0 w = []"
| "to_le (Suc n) w = ucast w # to_le n (drop_bit 8 w)"

primrec from_le :: "bytes \<Rightarrow> 'a::len word" where
  "from_le [] = 0"
| "from_le (b # bs) = ucast b OR push_bit 8 (from_le bs)"

abbreviation le16 :: "u16 \<Rightarrow> bytes" where "le16 \<equiv> to_le 2"
abbreviation le32 :: "u32 \<Rightarrow> bytes" where "le32 \<equiv> to_le 4"
abbreviation le64 :: "u64 \<Rightarrow> bytes" where "le64 \<equiv> to_le 8"

lemma length_to_le [simp]: "length (to_le n w) = n"
  by (induction n arbitrary: w) auto

lemma bit_from_to_le:
  "bit (from_le (to_le n w) :: 'a::len word) i \<longleftrightarrow> i < 8 * n \<and> bit (w :: 'a word) i"
proof (induction n arbitrary: w i)
  case 0
  then show ?case by simp
next
  case (Suc n)
  show ?case
  proof (cases "i < LENGTH('a)")
    case True
    show ?thesis
      using True Suc.IH [of "drop_bit 8 w" "i - 8"]
      by (cases "i < 8")
        (auto simp: bit_or_iff bit_push_bit_iff bit_ucast_iff bit_drop_bit_eq
          dest: bit_imp_le_length)
  next
    case False
    then show ?thesis by (auto dest: bit_imp_le_length)
  qed
qed

lemma from_to_le:
  assumes "LENGTH('a) \<le> 8 * n"
  shows "from_le (to_le n w) = (w :: 'a::len word)"
  by (rule bit_word_eqI) (use assms in \<open>auto simp: bit_from_to_le\<close>)

lemma from_le16 [simp]: "from_le (le16 w) = w"
  by (rule from_to_le) simp

lemma from_le32 [simp]: "from_le (le32 w) = w"
  by (rule from_to_le) simp

lemma from_le64 [simp]: "from_le (le64 w) = w"
  by (rule from_to_le) simp

lemma to_from_le:
  assumes "8 * length bs \<le> LENGTH('a)"
  shows "to_le (length bs) (from_le bs :: 'a::len word) = bs"
  using assms
proof (induction bs)
  case Nil
  then show ?case by simp
next
  case (Cons b bs)
  have low: "ucast (from_le (b # bs) :: 'a word) = b"
    using Cons.prems
    by (intro bit_word_eqI) (auto simp: bit_ucast_iff bit_or_iff bit_push_bit_iff)
  have high: "drop_bit 8 (from_le (b # bs) :: 'a word) =
      take_bit (LENGTH('a) - 8) (from_le bs)"
    using Cons.prems
    by (intro bit_word_eqI)
      (auto simp: bit_drop_bit_eq bit_or_iff bit_push_bit_iff bit_ucast_iff bit_take_bit_iff
        dest: bit_imp_le_length)
  have small: "take_bit (LENGTH('a) - 8) (from_le bs :: 'a word) = from_le bs"
  proof -
    have "\<not> bit (from_le bs :: 'a word) i" if "LENGTH('a) - 8 \<le> i" for i
      using Cons.IH Cons.prems that bit_from_to_le [of "length bs" "from_le bs :: 'a word" i]
      by auto
    then show ?thesis
      by (intro bit_word_eqI) (auto simp: bit_take_bit_iff, meson not_less)
  qed
  show ?case
    using Cons.IH Cons.prems low high small by simp
qed

section \<open>Slices of a byte array\<close>

text \<open>
  \<open>get_bytes off n p\<close> is \<open>p[off..off + n]\<close>; \<open>put_bytes off xs p\<close> is
  \<open>p[off..off + xs.len()].copy_from_slice(xs)\<close>. Both are used only where the range lies inside
  the array; a range the code does not check is guarded by a \<open>Panic\<close> branch in the model.
\<close>

definition get_bytes :: "nat \<Rightarrow> nat \<Rightarrow> bytes \<Rightarrow> bytes" where
  "get_bytes off n p = take n (drop off p)"

text \<open>A slice \<open>&bs[a..b]\<close>, which panics out of range, and the access \<open>xs.get(i)\<close>, which does not.\<close>

definition slice_res :: "nat \<Rightarrow> nat \<Rightarrow> bytes \<Rightarrow> bytes res" where
  "slice_res a b bs = (if a \<le> b \<and> b \<le> length bs then Ok (get_bytes a (b - a) bs) else Panic)"

definition slice_get :: "'a list \<Rightarrow> nat \<Rightarrow> 'a option" where
  "slice_get xs i = (if i < length xs then Some (xs ! i) else None)"

definition put_bytes :: "nat \<Rightarrow> bytes \<Rightarrow> bytes \<Rightarrow> bytes" where
  "put_bytes off xs p = take off p @ xs @ drop (off + length xs) p"

lemma length_get_bytes [simp]: "off + n \<le> length p \<Longrightarrow> length (get_bytes off n p) = n"
  by (simp add: get_bytes_def)

lemma length_put_bytes [simp]: "off + length xs \<le> length p \<Longrightarrow> length (put_bytes off xs p) = length p"
  by (simp add: put_bytes_def)

lemma get_put_same:
  "off + length xs \<le> length p \<Longrightarrow> n = length xs \<Longrightarrow> get_bytes off n (put_bytes off xs p) = xs"
  by (simp add: get_bytes_def put_bytes_def)

lemma nth_put_bytes:
  assumes "off + length xs \<le> length p" "i < length p"
  shows "put_bytes off xs p ! i =
    (if off \<le> i \<and> i < off + length xs then xs ! (i - off) else p ! i)"
  using assms by (auto simp: put_bytes_def nth_append)

lemma get_bytes_eqI:
  assumes "off + n \<le> length p" "length q = length p"
    and "\<And>i. off \<le> i \<Longrightarrow> i < off + n \<Longrightarrow> p ! i = q ! i"
  shows "get_bytes off n p = get_bytes off n q"
  using assms by (intro nth_equalityI) (auto simp: get_bytes_def)

lemma get_put_disjoint:
  assumes "off + length xs \<le> length p" "o' + n \<le> length p"
    and "o' + n \<le> off \<or> off + length xs \<le> o'"
  shows "get_bytes o' n (put_bytes off xs p) = get_bytes o' n p"
  using assms by (intro get_bytes_eqI) (auto simp: nth_put_bytes)

lemma get_bytes_put_sub:
  assumes "off + length xs \<le> length p" "off \<le> o'" "o' + n \<le> off + length xs"
  shows "get_bytes o' n (put_bytes off xs p) = get_bytes (o' - off) n xs"
  using assms by (auto simp: get_bytes_def put_bytes_def min_def)

lemma put_get_id: "off + n \<le> length p \<Longrightarrow> put_bytes off (get_bytes off n p) p = p"
  by (rule nth_equalityI) (auto simp: nth_put_bytes get_bytes_def)

lemma put_bytes_Nil [simp]: "off \<le> length p \<Longrightarrow> put_bytes off [] p = p"
  by (simp add: put_bytes_def)

lemma get_bytes_all: "get_bytes 0 (length p) p = p"
  by (simp add: get_bytes_def)

abbreviation get16 :: "nat \<Rightarrow> bytes \<Rightarrow> u16" where "get16 off p \<equiv> from_le (get_bytes off 2 p)"
abbreviation get32 :: "nat \<Rightarrow> bytes \<Rightarrow> u32" where "get32 off p \<equiv> from_le (get_bytes off 4 p)"
abbreviation get64 :: "nat \<Rightarrow> bytes \<Rightarrow> u64" where "get64 off p \<equiv> from_le (get_bytes off 8 p)"
abbreviation put16 :: "nat \<Rightarrow> u16 \<Rightarrow> bytes \<Rightarrow> bytes" where "put16 off w \<equiv> put_bytes off (le16 w)"
abbreviation put32 :: "nat \<Rightarrow> u32 \<Rightarrow> bytes \<Rightarrow> bytes" where "put32 off w \<equiv> put_bytes off (le32 w)"
abbreviation put64 :: "nat \<Rightarrow> u64 \<Rightarrow> bytes \<Rightarrow> bytes" where "put64 off w \<equiv> put_bytes off (le64 w)"

text \<open>
  A buffer filled by a sequence of \<open>buf[a..b].copy_from_slice(..)\<close> statements, in their order.
\<close>

definition write_fields :: "(nat \<times> bytes) list \<Rightarrow> bytes \<Rightarrow> bytes" where
  "write_fields fs buf = fold (\<lambda>(off, xs). put_bytes off xs) fs buf"

lemma write_fields_simps [simp]:
  "write_fields [] buf = buf"
  "write_fields ((off, xs) # fs) buf = write_fields fs (put_bytes off xs buf)"
  by (simp_all add: write_fields_def)

named_theorems slice_simps \<open>reading back a slice of an updated byte array\<close>

declare get_put_same [slice_simps] get_put_disjoint [slice_simps]

end
