(* ===== verification/Page.thy ===== *)
theory Page
  imports Prelude
begin

text \<open>
  The fixed-slot page of \<^verbatim>\<open>storage/page.rs\<close>: record identifiers, and a 4096-byte page
  that starts with a bitmap of used slots, followed by \<open>slot_count\<close> slots of \<open>slot_size\<close> bytes.
  Node and edge records live in such pages with \<open>slot_size = 64\<close>.

  The lemmas show that the slots and the bitmap fit in the page, that the bitmap implements a set
  of used slot numbers (\<open>used_slots\<close>) on which \<open>alloc_slot\<close> and \<open>free_slot\<close> act as insertion of
  the least free number and as removal, and that the slots are an array independent of the bitmap.
\<close>

definition PAGE_SIZE :: nat where
  "PAGE_SIZE = 4096"

section \<open>Record identifiers\<close>

record record_id =
  page_id :: u32
  slot_id :: u16

definition rid_new :: "u32 \<Rightarrow> u16 \<Rightarrow> record_id" where
  "rid_new p s = \<lparr>page_id = p, slot_id = s\<rparr>"

lemma rid_new_sel [simp]: "page_id (rid_new p s) = p" "slot_id (rid_new p s) = s"
  by (simp_all add: rid_new_def)

lemma rid_new_eq_iff [simp]: "rid_new p s = r \<longleftrightarrow> page_id r = p \<and> slot_id r = s"
  by (cases r) (auto simp: rid_new_def)

text \<open>The typed wrappers that keep node and edge identifiers apart.\<close>

datatype node_rid = NodeRid (node_record_id: record_id)
datatype edge_rid = EdgeRid (edge_record_id: record_id)

definition node_rid_new :: "u32 \<Rightarrow> u16 \<Rightarrow> node_rid" where
  "node_rid_new p s = NodeRid (rid_new p s)"

definition edge_rid_new :: "u32 \<Rightarrow> u16 \<Rightarrow> edge_rid" where
  "edge_rid_new p s = EdgeRid (rid_new p s)"

section \<open>The page\<close>

definition bitmap_bytes :: "nat \<Rightarrow> nat" where
  "bitmap_bytes slot_count = (slot_count + 7) div 8"

record rpage =
  pg_data :: bytes
  pg_slot_size :: nat
  pg_slot_count :: nat

text \<open>The loop of \<open>compute_slot_count\<close>: \<open>n\<close> goes down until bitmap and slots fit.\<close>

lemma shrink_slot_count_pos: "bitmap_bytes n + n * s > PAGE_SIZE \<Longrightarrow> 0 < n"
  by (cases n) (simp_all add: bitmap_bytes_def)

function shrink_slot_count :: "nat \<Rightarrow> nat \<Rightarrow> nat" where
  "shrink_slot_count slot_size n =
     (if bitmap_bytes n + n * slot_size > PAGE_SIZE then shrink_slot_count slot_size (n - 1) else n)"
  by pat_completeness auto
termination
  by (relation "measure snd") (auto dest: shrink_slot_count_pos)

declare shrink_slot_count.simps [simp del]

definition compute_slot_count :: "nat \<Rightarrow> nat" where
  "compute_slot_count slot_size = shrink_slot_count slot_size (PAGE_SIZE div (slot_size + 1))"

text \<open>\<open>Page::new\<close> and \<open>Page::from_bytes\<close> assert a positive slot size.\<close>

definition page_from_bytes :: "bytes \<Rightarrow> nat \<Rightarrow> rpage res" where
  "page_from_bytes bs slot_size =
     (if slot_size > 0
      then Ok \<lparr>pg_data = bs, pg_slot_size = slot_size, pg_slot_count = compute_slot_count slot_size\<rparr>
      else Panic)"

definition page_new :: "nat \<Rightarrow> rpage res" where
  "page_new slot_size = page_from_bytes (replicate PAGE_SIZE 0) slot_size"

definition slot_offset :: "rpage \<Rightarrow> nat \<Rightarrow> nat" where
  "slot_offset p idx = bitmap_bytes (pg_slot_count p) + idx * pg_slot_size p"

definition is_used :: "rpage \<Rightarrow> u16 \<Rightarrow> bool" where
  "is_used p slot =
     (let idx = unat slot in
      if idx \<ge> pg_slot_count p then False
      else drop_bit (idx mod 8) (pg_data p ! (idx div 8)) AND 1 = 1)"

definition set_bitmap :: "nat \<Rightarrow> bool \<Rightarrow> rpage \<Rightarrow> rpage" where
  "set_bitmap idx used p =
     (let k = idx div 8; b = idx mod 8; old = pg_data p ! k in
      if used then p\<lparr>pg_data := (pg_data p)[k := old OR push_bit b 1]\<rparr>
      else p\<lparr>pg_data := (pg_data p)[k := old AND NOT (push_bit b 1)]\<rparr>)"

definition alloc_slot :: "rpage \<Rightarrow> u16 option \<times> rpage" where
  "alloc_slot p =
     (case find (\<lambda>i. \<not> is_used p (of_nat i)) [0..<pg_slot_count p] of
        Some i \<Rightarrow> (Some (of_nat i), set_bitmap i True p)
      | None \<Rightarrow> (None, p))"

definition free_slot :: "u16 \<Rightarrow> rpage \<Rightarrow> unit res \<times> rpage" where
  "free_slot slot p =
     (let idx = unat slot in
      if idx \<ge> pg_slot_count p then (Err (StorageCorrupted 0), p)
      else (Ok (), set_bitmap idx False p))"

definition write_slot :: "u16 \<Rightarrow> bytes \<Rightarrow> rpage \<Rightarrow> unit res \<times> rpage" where
  "write_slot slot d p =
     (let idx = unat slot in
      if length d \<noteq> pg_slot_size p then (Err (StorageCorrupted 0), p)
      else if idx \<ge> pg_slot_count p then (Err (StorageCorrupted 0), p)
      else (Ok (), p\<lparr>pg_data := put_bytes (slot_offset p idx) d (pg_data p)\<rparr>))"

definition read_slot :: "rpage \<Rightarrow> u16 \<Rightarrow> bytes res" where
  "read_slot p slot =
     (let idx = unat slot in
      if idx \<ge> pg_slot_count p then Err (StorageCorrupted 0)
      else Ok (get_bytes (slot_offset p idx) (pg_slot_size p) (pg_data p)))"

section \<open>Sizes\<close>

lemma shrink_slot_count_fits:
  "bitmap_bytes (shrink_slot_count s n) + shrink_slot_count s n * s \<le> PAGE_SIZE"
  by (induction s n rule: shrink_slot_count.induct)
    (subst (1 2) shrink_slot_count.simps, auto simp: not_less)

lemma shrink_slot_count_le: "shrink_slot_count s n \<le> n"
proof (induction s n rule: shrink_slot_count.induct)
  case (1 s n)
  then show ?case by (subst shrink_slot_count.simps) auto
qed

lemma compute_slot_count_fits:
  "bitmap_bytes (compute_slot_count s) + compute_slot_count s * s \<le> PAGE_SIZE"
  by (simp add: compute_slot_count_def shrink_slot_count_fits)

lemma compute_slot_count_less:
  assumes "0 < s"
  shows "compute_slot_count s < 65536"
proof -
  have "compute_slot_count s \<le> PAGE_SIZE div (s + 1)"
    by (simp add: compute_slot_count_def shrink_slot_count_le)
  also have "\<dots> \<le> PAGE_SIZE" by (rule div_le_dividend)
  finally show ?thesis by (simp add: PAGE_SIZE_def)
qed

lemma compute_slot_count_64: "compute_slot_count 64 = 63"
  by (simp add: compute_slot_count_def PAGE_SIZE_def shrink_slot_count.simps bitmap_bytes_def)

section \<open>The invariant and what the bitmap stands for\<close>

definition page_ok :: "rpage \<Rightarrow> bool" where
  "page_ok p \<longleftrightarrow> length (pg_data p) = PAGE_SIZE \<and> 0 < pg_slot_size p \<and>
     pg_slot_count p = compute_slot_count (pg_slot_size p)"

definition used_slots :: "rpage \<Rightarrow> nat set" where
  "used_slots p = {i. i < pg_slot_count p \<and> is_used p (of_nat i)}"

definition slot_bytes :: "rpage \<Rightarrow> nat \<Rightarrow> bytes" where
  "slot_bytes p i = get_bytes (slot_offset p i) (pg_slot_size p) (pg_data p)"

lemma page_okD:
  assumes "page_ok p"
  shows "length (pg_data p) = PAGE_SIZE" "0 < pg_slot_size p"
    "pg_slot_count p < 65536"
    "bitmap_bytes (pg_slot_count p) + pg_slot_count p * pg_slot_size p \<le> PAGE_SIZE"
  using assms compute_slot_count_less compute_slot_count_fits
  by (auto simp: page_ok_def)

lemma unat_of_nat_u16 [simp]: "i < 65536 \<Longrightarrow> unat (of_nat i :: u16) = i"
  by (simp add: unat_of_nat take_bit_nat_eq_self)

lemma drop_bit_AND_1: "drop_bit n w AND 1 = 1 \<longleftrightarrow> bit (w :: byte) n"
  by (simp add: bit_iff_odd_drop_bit and_one_eq odd_iff_mod_2_eq_one)

lemma is_used_bit:
  "is_used p s \<longleftrightarrow> unat s < pg_slot_count p \<and> bit (pg_data p ! (unat s div 8)) (unat s mod 8)"
  by (simp add: is_used_def Let_def drop_bit_AND_1 not_le)

lemma div_8_less_bitmap: "i < n \<Longrightarrow> i div 8 < bitmap_bytes n"
  by (simp add: bitmap_bytes_def)

lemma slot_offset_bound:
  assumes "page_ok p" "i < pg_slot_count p"
  shows "slot_offset p i + pg_slot_size p \<le> PAGE_SIZE"
proof -
  have "Suc i * pg_slot_size p \<le> pg_slot_count p * pg_slot_size p"
    using assms(2) by (intro mult_le_mono1) simp
  then show ?thesis
    using page_okD(4) [OF assms(1)] by (simp add: slot_offset_def)
qed

lemma bitmap_in_page:
  assumes "page_ok p" "i < pg_slot_count p"
  shows "i div 8 < length (pg_data p)" "i div 8 < bitmap_bytes (pg_slot_count p)"
  using page_okD [OF assms(1)] div_8_less_bitmap [OF assms(2)] by auto

lemma slot_offset_disjoint:
  assumes "i \<noteq> j"
  shows "slot_offset p i + pg_slot_size p \<le> slot_offset p j \<or>
    slot_offset p j + pg_slot_size p \<le> slot_offset p i"
proof -
  have *: "a * s + s \<le> b * s" if "a < b" for a b s :: nat
    using mult_le_mono1 [of "Suc a" b s] that by simp
  from assms consider "i < j" | "j < i" by linarith
  then show ?thesis
    by cases (auto simp: slot_offset_def dest: *)
qed

lemma slot_offset_data [simp]: "slot_offset (p\<lparr>pg_data := d\<rparr>) = slot_offset p"
  by (simp add: slot_offset_def fun_eq_iff)

subsection \<open>Bitmap updates\<close>

lemma set_bitmap_sel [simp]:
  "pg_slot_size (set_bitmap i u p) = pg_slot_size p"
  "pg_slot_count (set_bitmap i u p) = pg_slot_count p"
  "length (pg_data (set_bitmap i u p)) = length (pg_data p)"
  "slot_offset (set_bitmap i u p) = slot_offset p"
  by (simp_all add: set_bitmap_def Let_def slot_offset_def fun_eq_iff)

lemma set_bitmap_ok [simp]: "page_ok (set_bitmap i u p) = page_ok p"
  by (simp add: page_ok_def)

lemma bit_set_bitmap:
  assumes "i div 8 < length (pg_data p)"
  shows "bit (pg_data (set_bitmap i u p) ! (j div 8)) (j mod 8) \<longleftrightarrow>
    (if j = i then u else bit (pg_data p ! (j div 8)) (j mod 8))"
proof -
  have "j = i \<longleftrightarrow> j div 8 = i div 8 \<and> j mod 8 = i mod 8"
    by (metis div_mult_mod_eq)
  then show ?thesis
    using assms
    by (cases u)
      (auto simp: set_bitmap_def Let_def nth_list_update bit_or_iff bit_and_iff bit_not_iff
        bit_push_bit_iff bit_1_iff bit_exp_iff)
qed

lemma used_slots_set_bitmap:
  assumes "page_ok p" "i < pg_slot_count p"
  shows "used_slots (set_bitmap i u p) = (if u then insert i (used_slots p) else used_slots p - {i})"
proof -
  note bits = bit_set_bitmap [OF bitmap_in_page(1) [OF assms], of u]
  show ?thesis
    using assms page_okD(3) [OF assms(1)]
    by (auto simp: used_slots_def is_used_bit bits split: if_splits)
qed

lemma slot_bytes_set_bitmap:
  assumes "page_ok p" "i < pg_slot_count p" "j < pg_slot_count p"
  shows "slot_bytes (set_bitmap i u p) j = slot_bytes p j"
proof -
  have "pg_data (set_bitmap i u p) ! k = pg_data p ! k" if "slot_offset p j \<le> k" for k
  proof -
    have "i div 8 \<noteq> k"
      using that bitmap_in_page(2) [OF assms(1,2)] by (auto simp: slot_offset_def)
    then show ?thesis by (simp add: set_bitmap_def Let_def)
  qed
  then show ?thesis
    using slot_offset_bound [OF assms(1,3)] page_okD(1) [OF assms(1)]
    by (auto simp: slot_bytes_def intro!: get_bytes_eqI)
qed

section \<open>The interface of a slot page\<close>

text \<open>
  What the topology store relies on: a page is an array of slots of one width together with the set
  of slots in use, allocation takes an unused slot (or reports that there is none), freeing gives it
  back, and neither touches the bytes of any slot.
\<close>

locale slot_array =
  fixes ok :: "'p \<Rightarrow> bool"
    and cap :: "'p \<Rightarrow> nat"
    and width :: "'p \<Rightarrow> nat"
    and used :: "'p \<Rightarrow> nat set"
    and content :: "'p \<Rightarrow> nat \<Rightarrow> bytes"
    and alloc :: "'p \<Rightarrow> u16 option \<times> 'p"
    and release :: "u16 \<Rightarrow> 'p \<Rightarrow> unit res \<times> 'p"
    and wr :: "u16 \<Rightarrow> bytes \<Rightarrow> 'p \<Rightarrow> unit res \<times> 'p"
    and rd :: "'p \<Rightarrow> u16 \<Rightarrow> bytes res"
  assumes used_cap: "ok p \<Longrightarrow> used p \<subseteq> {..<cap p}"
    and alloc_full: "ok p \<Longrightarrow> alloc p = (None, p') \<Longrightarrow> p' = p \<and> used p = {..<cap p}"
    and alloc_slot: "ok p \<Longrightarrow> alloc p = (Some s, p') \<Longrightarrow>
      ok p' \<and> cap p' = cap p \<and> width p' = width p \<and> unat s < cap p \<and> unat s \<notin> used p \<and>
      used p' = insert (unat s) (used p) \<and> (\<forall>j<cap p. content p' j = content p j)"
    and release_slot: "ok p \<Longrightarrow> unat s < cap p \<Longrightarrow> \<exists>p'. release s p = (Inr (), p') \<and>
      ok p' \<and> cap p' = cap p \<and> width p' = width p \<and> used p' = used p - {unat s} \<and>
      (\<forall>j<cap p. content p' j = content p j)"
    and write_slot: "ok p \<Longrightarrow> unat s < cap p \<Longrightarrow> length d = width p \<Longrightarrow>
      \<exists>p'. wr s d p = (Inr (), p') \<and> ok p' \<and> cap p' = cap p \<and> width p' = width p \<and>
        used p' = used p \<and> (\<forall>j<cap p. content p' j = (if j = unat s then d else content p j))"
    and read_slot: "ok p \<Longrightarrow> unat s < cap p \<Longrightarrow> rd p s = Inr (content p (unat s))"
begin

lemma finite_used: "ok p \<Longrightarrow> finite (used p)"
  using used_cap finite_subset by blast

lemma alloc_None_iff_full: "ok p \<Longrightarrow> fst (alloc p) = None \<longleftrightarrow> card (used p) = cap p"
proof
  assume ok: "ok p"
  show "card (used p) = cap p" if "fst (alloc p) = None"
    using alloc_full [OF ok] that by (cases "alloc p") auto
  show "fst (alloc p) = None" if full: "card (used p) = cap p"
  proof (rule ccontr)
    assume "fst (alloc p) \<noteq> None"
    then obtain s p' where a: "alloc p = (Some s, p')"
      by (cases "alloc p") auto
    then have "unat s < cap p" "unat s \<notin> used p"
      using alloc_slot [OF ok a] by auto
    moreover have "used p = {..<cap p}"
      using used_cap [OF ok] full by (intro card_subset_eq) auto
    ultimately show False by auto
  qed
qed

lemma alloc_write_read:
  assumes "ok p" "alloc p = (Some s, p')" "length d = width p"
  shows "\<exists>p''. wr s d p' = (Inr (), p'') \<and> ok p'' \<and> rd p'' s = Inr d \<and>
    used p'' = insert (unat s) (used p) \<and> (\<forall>j\<in>used p. content p'' j = content p j)"
proof -
  note a = alloc_slot [OF assms(1,2)]
  then obtain p'' where w: "wr s d p' = (Inr (), p'')" "ok p''" "cap p'' = cap p'"
      "used p'' = used p'"
      "\<forall>j<cap p'. content p'' j = (if j = unat s then d else content p' j)"
    using write_slot [of p' s d] assms(3) by auto
  have "rd p'' s = Inr d"
    using read_slot [of p'' s] w a by auto
  moreover have "\<forall>j\<in>used p. content p'' j = content p j"
    using w(5) a used_cap [OF assms(1)] by auto
  ultimately show ?thesis using w a by auto
qed

lemma release_alloc_succeeds:
  assumes "ok p" "unat s < cap p" "release s p = (r, p')"
  shows "fst (alloc p') \<noteq> None"
proof -
  have "ok p'" "cap p' = cap p" "used p' = used p - {unat s}"
    using release_slot [OF assms(1,2)] assms(3) by auto
  moreover have "card (used p - {unat s}) < cap p"
  proof -
    have "used p - {unat s} \<subset> {..<cap p}"
      using used_cap [OF assms(1)] assms(2) by auto
    then show ?thesis
      using psubset_card_mono [of "{..<cap p}"] by simp
  qed
  ultimately show ?thesis
    using alloc_None_iff_full [of p'] by auto
qed

end

section \<open>The page provides the interface\<close>

lemma find_upt_Some:
  "find P [0..<n] = Some i \<longleftrightarrow> i < n \<and> P i \<and> (\<forall>j<i. \<not> P j)"
  by (auto simp: find_Some_iff)

lemma alloc_slot_None:
  assumes "page_ok p" "alloc_slot p = (None, p')"
  shows "p' = p \<and> used_slots p = {..<pg_slot_count p}"
  using assms by (auto simp: alloc_slot_def used_slots_def find_None_iff split: option.splits)

lemma alloc_slot_Some:
  assumes "page_ok p" "alloc_slot p = (Some s, p')"
  shows "unat s < pg_slot_count p" "unat s \<notin> used_slots p" "{..<unat s} \<subseteq> used_slots p"
    "p' = set_bitmap (unat s) True p"
proof -
  from assms(2) obtain i where i: "find (\<lambda>i. \<not> is_used p (of_nat i)) [0..<pg_slot_count p] = Some i"
      "s = of_nat i" "p' = set_bitmap i True p"
    by (auto simp: alloc_slot_def split: option.splits)
  moreover from i(1) have "i < pg_slot_count p" "\<not> is_used p (of_nat i)" "\<forall>j<i. is_used p (of_nat j)"
    by (auto simp: find_upt_Some)
  moreover from this have "unat s = i"
    using i(2) page_okD(3) [OF assms(1)] by simp
  ultimately show "unat s < pg_slot_count p" "unat s \<notin> used_slots p" "{..<unat s} \<subseteq> used_slots p"
    "p' = set_bitmap (unat s) True p"
    by (auto simp: used_slots_def)
qed

lemma free_slot_Ok:
  assumes "unat s < pg_slot_count p"
  shows "free_slot s p = (Inr (), set_bitmap (unat s) False p)"
  using assms by (simp add: free_slot_def)

lemma read_slot_Ok:
  assumes "unat s < pg_slot_count p"
  shows "read_slot p s = Inr (slot_bytes p (unat s))"
  using assms by (simp add: read_slot_def slot_bytes_def)

lemma write_slot_Ok:
  assumes "page_ok p" "unat s < pg_slot_count p" "length d = pg_slot_size p"
  shows "\<exists>p'. write_slot s d p = (Inr (), p') \<and> page_ok p' \<and> pg_slot_count p' = pg_slot_count p \<and>
    pg_slot_size p' = pg_slot_size p \<and> used_slots p' = used_slots p \<and>
    (\<forall>j<pg_slot_count p. slot_bytes p' j = (if j = unat s then d else slot_bytes p j))"
proof -
  define p' where "p' = p\<lparr>pg_data := put_bytes (slot_offset p (unat s)) d (pg_data p)\<rparr>"
  have room: "slot_offset p (unat s) + length d \<le> length (pg_data p)"
    using slot_offset_bound [OF assms(1,2)] page_okD(1) [OF assms(1)] assms(3) by simp
  have bits: "pg_data p' ! (j div 8) = pg_data p ! (j div 8)" if "j < pg_slot_count p" for j
    using room bitmap_in_page [OF assms(1) that]
    by (simp add: p'_def nth_put_bytes) (simp add: slot_offset_def)
  have slots: "slot_bytes p' j = (if j = unat s then d else slot_bytes p j)"
    if "j < pg_slot_count p" for j
    using room slot_offset_bound [OF assms(1) that] slot_offset_disjoint [of "j" "unat s" p]
      page_okD(1) [OF assms(1)] assms(3)
    by (auto simp: slot_bytes_def p'_def get_put_same intro!: get_put_disjoint)
  have "used_slots p' = used_slots p"
    using bits page_okD(3) [OF assms(1)] by (auto simp: used_slots_def is_used_bit p'_def)
  moreover have "page_ok p'"
    using assms(1) room by (simp add: page_ok_def p'_def)
  moreover have "write_slot s d p = (Inr (), p')"
    using assms by (simp add: write_slot_def p'_def)
  ultimately show ?thesis
    using slots by (auto simp: p'_def)
qed

interpretation pg: slot_array page_ok pg_slot_count pg_slot_size used_slots slot_bytes
  alloc_slot free_slot write_slot read_slot
proof unfold_locales
  fix p s p' assume ok: "page_ok p" and a: "alloc_slot p = (Some s, p')"
  show "page_ok p' \<and> pg_slot_count p' = pg_slot_count p \<and> pg_slot_size p' = pg_slot_size p \<and>
      unat s < pg_slot_count p \<and> unat s \<notin> used_slots p \<and>
      used_slots p' = insert (unat s) (used_slots p) \<and>
      (\<forall>j<pg_slot_count p. slot_bytes p' j = slot_bytes p j)"
    using alloc_slot_Some [OF ok a] ok by (auto simp: used_slots_set_bitmap slot_bytes_set_bitmap)
next
  fix p s assume ok: "page_ok p" and s: "unat (s :: u16) < pg_slot_count p"
  show "\<exists>p'. free_slot s p = (Inr (), p') \<and> page_ok p' \<and> pg_slot_count p' = pg_slot_count p \<and>
      pg_slot_size p' = pg_slot_size p \<and> used_slots p' = used_slots p - {unat s} \<and>
      (\<forall>j<pg_slot_count p. slot_bytes p' j = slot_bytes p j)"
    using ok s by (simp add: free_slot_Ok used_slots_set_bitmap slot_bytes_set_bitmap)
qed (use alloc_slot_None write_slot_Ok read_slot_Ok in \<open>auto simp: used_slots_def\<close>)

section \<open>Properties\<close>

definition blank_page :: rpage where
  "blank_page = \<lparr>pg_data = replicate PAGE_SIZE 0, pg_slot_size = 64, pg_slot_count = 63\<rparr>"

lemma blank_page_new: "page_new 64 = Inr blank_page"
  by (simp add: page_new_def page_from_bytes_def blank_page_def compute_slot_count_64)

lemma blank_page_ok: "page_ok blank_page"
  by (simp add: page_ok_def blank_page_def compute_slot_count_64)

lemma blank_page_unused: "used_slots blank_page = {}"
  using bitmap_in_page(1) [OF blank_page_ok]
  by (auto simp: used_slots_def is_used_bit blank_page_def)

text \<open>
  The slot count computed for any slot size leaves room for the bitmap and every slot, and for
  the 64-byte node and edge records it is 63, the largest number for which both fit.
\<close>

theorem slot_count_fits_and_is_63:
  "bitmap_bytes (compute_slot_count s) + compute_slot_count s * s \<le> PAGE_SIZE \<and>
   compute_slot_count 64 = 63 \<and> \<not> bitmap_bytes (63 + 1) + (63 + 1) * 64 \<le> PAGE_SIZE"
  by (simp add: compute_slot_count_fits compute_slot_count_64) (simp add: bitmap_bytes_def PAGE_SIZE_def)

text \<open>
  Allocation on a page takes the least unused slot and fails only when every slot is used; it
  marks exactly that slot and leaves the bytes of every slot alone.
\<close>

theorem alloc_slot_takes_least_free:
  assumes "page_ok p" "alloc_slot p = (r, p')"
  shows "case r of
      None \<Rightarrow> p' = p \<and> used_slots p = {..<pg_slot_count p}
    | Some s \<Rightarrow> page_ok p' \<and> unat s < pg_slot_count p \<and> unat s \<notin> used_slots p \<and>
        {..<unat s} \<subseteq> used_slots p \<and> used_slots p' = insert (unat s) (used_slots p) \<and>
        (\<forall>j<pg_slot_count p. slot_bytes p' j = slot_bytes p j)"
proof (cases r)
  case None
  then show ?thesis using pg.alloc_full assms by simp
next
  case (Some s)
  then show ?thesis
    using pg.alloc_slot [of p s p'] alloc_slot_Some(3) [of p s p'] assms by simp
qed

lemma alloc_slot_takes_least_free_witness:
  "page_ok blank_page \<and> alloc_slot blank_page = (Some 0, set_bitmap 0 True blank_page) \<and>
   used_slots (set_bitmap 0 True blank_page) = {0}"
proof -
  have "find (\<lambda>i. \<not> is_used blank_page (of_nat i)) [0..<63] = Some 0"
    by (simp add: find_upt_Some is_used_bit blank_page_def) (simp add: PAGE_SIZE_def)
  then have a: "alloc_slot blank_page = (Some 0, set_bitmap 0 True blank_page)"
    by (simp add: alloc_slot_def blank_page_def)
  show ?thesis
    using alloc_slot_takes_least_free [OF blank_page_ok a] a blank_page_ok blank_page_unused
    by simp
qed

text \<open>
  A slot allocated, written and read back gives the bytes written, while the slots already in
  use keep theirs, and freeing a slot makes the next allocation on that page succeed.
\<close>

theorem slot_roundtrip_and_reuse:
  assumes "page_ok p" "alloc_slot p = (Some s, p')" "length d = pg_slot_size p"
  shows "\<exists>p''. write_slot s d p' = (Inr (), p'') \<and> page_ok p'' \<and> read_slot p'' s = Inr d \<and>
    (\<forall>t. unat t \<in> used_slots p \<longrightarrow> read_slot p'' t = read_slot p t) \<and>
    fst (alloc_slot (snd (free_slot s p''))) \<noteq> None"
proof -
  obtain p'' where w: "write_slot s d p' = (Inr (), p'')" "page_ok p''" "read_slot p'' s = Inr d"
      "used_slots p'' = insert (unat s) (used_slots p)"
      "\<forall>j\<in>used_slots p. slot_bytes p'' j = slot_bytes p j"
    using pg.alloc_write_read [OF assms] by blast
  have used: "j < pg_slot_count p''" if "j \<in> used_slots p''" for j
    using pg.used_cap [OF w(2)] that by auto
  have "read_slot p'' t = read_slot p t" if t: "unat t \<in> used_slots p" for t
    using pg.read_slot [OF w(2), of t] pg.read_slot [OF assms(1), of t] w(4,5) t
      used [of "unat t"] pg.used_cap [OF assms(1)] by auto
  moreover have "fst (alloc_slot (snd (free_slot s p''))) \<noteq> None"
    using pg.release_alloc_succeeds [OF w(2), of s] used [of "unat s"] w(4) by (simp add: prod_eq_iff)
  ultimately show ?thesis using w by blast
qed

lemma slot_roundtrip_and_reuse_witness:
  "\<exists>p''. write_slot 0 (replicate 64 7) (set_bitmap 0 True blank_page) = (Inr (), p'') \<and>
    read_slot p'' 0 = Inr (replicate 64 7)"
proof -
  have "find (\<lambda>i. \<not> is_used blank_page (of_nat i)) [0..<63] = Some 0"
    by (simp add: find_upt_Some is_used_bit blank_page_def) (simp add: PAGE_SIZE_def)
  then have "alloc_slot blank_page = (Some 0, set_bitmap 0 True blank_page)"
    by (simp add: alloc_slot_def blank_page_def)
  from slot_roundtrip_and_reuse [OF blank_page_ok this, of "replicate 64 7"]
  show ?thesis by (auto simp: blank_page_def)
qed

text \<open>
  The comment on \<open>compute_slot_count\<close> calls the result the maximum number of slots that fit. It is
  not for small slots: the starting point \<open>PAGE_SIZE / (slot_size + 1)\<close> already charges a whole byte
  of bitmap per slot.
\<close>

lemma compute_slot_count_not_maximal:
  "compute_slot_count 1 = 2048 \<and> bitmap_bytes 3640 + 3640 * 1 \<le> PAGE_SIZE"
proof -
  have "PAGE_SIZE div (1 + 1) = 2048" by (simp add: PAGE_SIZE_def numeral_2_eq_2 [symmetric])
  then show ?thesis
    by (simp only: compute_slot_count_def)
      (simp add: shrink_slot_count.simps [of 1 2048] shrink_slot_count.simps [of "Suc 0" 2048] bitmap_bytes_def PAGE_SIZE_def)
qed

end
