(* ===== verification/Record_Format.thy ===== *)
theory Record_Format
  imports Page
begin

text \<open>
  The node and edge records of \<^verbatim>\<open>storage/record.rs\<close> and their 64-byte encodings, with the
  7-byte encoding of an optional record identifier (all bytes \<open>0xFF\<close> for none) and the 6-byte one
  of an identifier that is always there. The lemmas are the round trips, for every record: no value
  of a field, the sentinel page number included, is misread.
\<close>

section \<open>Record identifiers\<close>

definition NULL_RECORD :: bytes where
  "NULL_RECORD = replicate 7 0xFF"

definition encode_record_id :: "record_id option \<Rightarrow> bytes" where
  "encode_record_id rid =
     (case rid of
        None \<Rightarrow> NULL_RECORD
      | Some r \<Rightarrow>
          write_fields [(0, le32 (page_id r)), (4, le16 (slot_id r)), (6, [0])] (replicate 7 0))"

definition decode_record_id :: "bytes \<Rightarrow> record_id option" where
  "decode_record_id buf =
     (if buf = NULL_RECORD then None
      else Some \<lparr>page_id = from_le (get_bytes 0 4 buf), slot_id = from_le (get_bytes 4 2 buf)\<rparr>)"

definition encode_record_id_6 :: "record_id \<Rightarrow> bytes" where
  "encode_record_id_6 rid = write_fields [(0, le32 (page_id rid)), (4, le16 (slot_id rid))] (replicate 6 0)"

definition decode_record_id_6 :: "bytes \<Rightarrow> record_id" where
  "decode_record_id_6 buf =
     \<lparr>page_id = from_le (get_bytes 0 4 buf), slot_id = from_le (get_bytes 4 2 buf)\<rparr>"

lemma length_encode_record_id [simp]: "length (encode_record_id r) = 7"
  by (simp add: encode_record_id_def NULL_RECORD_def split: option.split)

lemma length_encode_record_id_6 [simp]: "length (encode_record_id_6 r) = 6"
  by (simp add: encode_record_id_6_def)

lemma encode_record_id_6_append: "encode_record_id_6 r = le32 (page_id r) @ le16 (slot_id r)"
  by (simp add: encode_record_id_6_def put_bytes_def)

lemma decode_encode_6 [simp]: "decode_record_id_6 (encode_record_id_6 r) = r"
  by (simp add: decode_record_id_6_def encode_record_id_6_def slice_simps)

lemma decode_encode_record_id [simp]: "decode_record_id (encode_record_id r) = r"
proof (cases r)
  case None
  then show ?thesis by (simp add: decode_record_id_def encode_record_id_def)
next
  case (Some x)
  have "encode_record_id r ! 6 \<noteq> NULL_RECORD ! 6"
    using Some by (simp add: encode_record_id_def NULL_RECORD_def nth_put_bytes)
  then have "encode_record_id r \<noteq> NULL_RECORD" by metis
  then show ?thesis
    using Some by (simp add: decode_record_id_def encode_record_id_def slice_simps)
qed

lemma encode_decode_6:
  assumes "length bs = 6"
  shows "encode_record_id_6 (decode_record_id_6 bs) = bs"
proof -
  have a: "to_le (length (get_bytes 0 4 bs)) (from_le (get_bytes 0 4 bs) :: u32) = get_bytes 0 4 bs"
    using assms by (intro to_from_le) simp
  have b: "to_le (length (get_bytes 4 2 bs)) (from_le (get_bytes 4 2 bs) :: u16) = get_bytes 4 2 bs"
    using assms by (intro to_from_le) simp
  have "get_bytes 0 4 bs @ get_bytes 4 2 bs = bs"
    using assms by (simp add: get_bytes_def)
  then show ?thesis
    using a b assms by (simp add: encode_record_id_6_append decode_record_id_6_def)
qed

section \<open>Node records\<close>

definition NODE_RECORD_SIZE :: nat where
  "NODE_RECORD_SIZE = 64"

record node_record =
  n_id :: record_id
  node_type_id :: u16
  first_out_edge :: "record_id option"
  first_in_edge :: "record_id option"
  n_property_ref :: "record_id option"
  n_label_ref :: "record_id option"
  n_flags :: byte

definition node_serialize :: "node_record \<Rightarrow> bytes" where
  "node_serialize n = write_fields
     [(0, encode_record_id_6 (n_id n)),
      (6, le16 (node_type_id n)),
      (8, encode_record_id (first_out_edge n)),
      (15, encode_record_id (first_in_edge n)),
      (22, encode_record_id (n_property_ref n)),
      (29, encode_record_id (n_label_ref n)),
      (36, [n_flags n])]
     (replicate NODE_RECORD_SIZE 0)"

definition node_deserialize :: "bytes \<Rightarrow> node_record res" where
  "node_deserialize buf = Ok
     \<lparr>n_id = decode_record_id_6 (get_bytes 0 6 buf),
      node_type_id = from_le (get_bytes 6 2 buf),
      first_out_edge = decode_record_id (get_bytes 8 7 buf),
      first_in_edge = decode_record_id (get_bytes 15 7 buf),
      n_property_ref = decode_record_id (get_bytes 22 7 buf),
      n_label_ref = decode_record_id (get_bytes 29 7 buf),
      n_flags = buf ! 36\<rparr>"

lemma length_node_serialize [simp]: "length (node_serialize n) = NODE_RECORD_SIZE"
  by (simp add: node_serialize_def NODE_RECORD_SIZE_def)

lemma node_deserialize_serialize: "node_deserialize (node_serialize n) = Inr n"
  by (simp add: node_deserialize_def node_serialize_def NODE_RECORD_SIZE_def slice_simps nth_put_bytes)

section \<open>Edge records\<close>

definition EDGE_RECORD_SIZE :: nat where
  "EDGE_RECORD_SIZE = 64"

record edge_record =
  e_id :: record_id
  edge_type_id :: u16
  from_node :: record_id
  to_node :: record_id
  next_out_edge :: "record_id option"
  next_in_edge :: "record_id option"
  e_property_ref :: "record_id option"
  e_flags :: byte
  e_label_ref :: "record_id option"

definition edge_serialize :: "edge_record \<Rightarrow> bytes" where
  "edge_serialize e = write_fields
     [(0, encode_record_id_6 (e_id e)),
      (6, le16 (edge_type_id e)),
      (8, encode_record_id_6 (from_node e)),
      (14, encode_record_id_6 (to_node e)),
      (20, encode_record_id (next_out_edge e)),
      (27, encode_record_id (next_in_edge e)),
      (34, encode_record_id (e_property_ref e)),
      (41, [e_flags e]),
      (42, encode_record_id (e_label_ref e))]
     (replicate EDGE_RECORD_SIZE 0)"

definition edge_deserialize :: "bytes \<Rightarrow> edge_record res" where
  "edge_deserialize buf = Ok
     \<lparr>e_id = decode_record_id_6 (get_bytes 0 6 buf),
      edge_type_id = from_le (get_bytes 6 2 buf),
      from_node = decode_record_id_6 (get_bytes 8 6 buf),
      to_node = decode_record_id_6 (get_bytes 14 6 buf),
      next_out_edge = decode_record_id (get_bytes 20 7 buf),
      next_in_edge = decode_record_id (get_bytes 27 7 buf),
      e_property_ref = decode_record_id (get_bytes 34 7 buf),
      e_flags = buf ! 41,
      e_label_ref = decode_record_id (get_bytes 42 7 buf)\<rparr>"

lemma length_edge_serialize [simp]: "length (edge_serialize e) = EDGE_RECORD_SIZE"
  by (simp add: edge_serialize_def EDGE_RECORD_SIZE_def)

lemma edge_deserialize_serialize: "edge_deserialize (edge_serialize e) = Inr e"
  by (simp add: edge_deserialize_def edge_serialize_def EDGE_RECORD_SIZE_def slice_simps nth_put_bytes)

section \<open>Properties\<close>

text \<open>
  A node record and an edge record survive the trip through their 64-byte slot, whatever their
  fields hold.
\<close>

theorem record_roundtrip:
  "length (node_serialize n) = 64 \<and> node_deserialize (node_serialize n) = Inr n \<and>
   length (edge_serialize e) = 64 \<and> edge_deserialize (edge_serialize e) = Inr e"
  by (simp add: node_deserialize_serialize edge_deserialize_serialize NODE_RECORD_SIZE_def
      EDGE_RECORD_SIZE_def)

end
