(* ===== verification/Slotted_Page.thy ===== *)
theory Slotted_Page
  imports Page
begin

text \<open>
  The slotted page of \<^verbatim>\<open>storage/property.rs\<close>, which holds property values of different
  lengths: a slot directory that grows from the front and a data area packed from the end.

  The invariant (\<open>sp_inv\<close>) says that the directory and the live values fit, do not overlap, and that
  \<open>live_count\<close> counts the live slots. The lemmas show that writing, freeing and reading keep it
  and implement a map from slot numbers to values; the last section states where the page behaves
  otherwise than its comments say.
\<close>

section \<open>The operations\<close>

definition SP_HEADER_SIZE :: nat where
  "SP_HEADER_SIZE = 4"

definition SLOT_ENTRY_SIZE :: nat where
  "SLOT_ENTRY_SIZE = 4"

definition TOMBSTONE_OFF :: u16 where
  "TOMBSTONE_OFF = 0xFFFF"

definition FREE_PAGE_MARKER :: u16 where
  "FREE_PAGE_MARKER = 0xFFFF"

text \<open>A \<open>SlottedPage\<close> has one field, its 4096 bytes.\<close>

type_synonym slotted = bytes

definition sp_slot_count :: "slotted \<Rightarrow> u16" where
  "sp_slot_count p = get16 0 p"

definition sp_live_count :: "slotted \<Rightarrow> u16" where
  "sp_live_count p = get16 2 p"

definition set_slot_count :: "u16 \<Rightarrow> slotted \<Rightarrow> slotted" where
  "set_slot_count c p = put16 0 c p"

definition set_live_count :: "u16 \<Rightarrow> slotted \<Rightarrow> slotted" where
  "set_live_count c p = put16 2 c p"

definition slotted_new :: slotted where
  "slotted_new = set_live_count 0 (set_slot_count 0 (replicate PAGE_SIZE 0))"

definition dir_offset :: "nat \<Rightarrow> nat" where
  "dir_offset i = SP_HEADER_SIZE + i * SLOT_ENTRY_SIZE"

definition entry_off :: "slotted \<Rightarrow> nat \<Rightarrow> u16" where
  "entry_off p i = get16 (dir_offset i) p"

definition entry_len :: "slotted \<Rightarrow> nat \<Rightarrow> u16" where
  "entry_len p i = get16 (dir_offset i + 2) p"

definition sp_is_valid :: "slotted \<Rightarrow> bool" where
  "sp_is_valid p =
     (let count = unat (sp_slot_count p) in
      if count = unat FREE_PAGE_MARKER then False
      else if SP_HEADER_SIZE + count * SLOT_ENTRY_SIZE > PAGE_SIZE then False
      else list_all (\<lambda>i. entry_off p i = TOMBSTONE_OFF \<or>
             unat (entry_off p i) + unat (entry_len p i) \<le> PAGE_SIZE) [0..<count])"

text \<open>
  \<open>data_end\<close> reads every directory entry; on a page whose slot count is too large for the page
  the slice of an entry is out of range and the call panics.
\<close>

definition data_end :: "slotted \<Rightarrow> nat res" where
  "data_end p =
     (let count = unat (sp_slot_count p) in
      if count = 0 then Ok PAGE_SIZE
      else if SP_HEADER_SIZE + count * SLOT_ENTRY_SIZE > PAGE_SIZE then Panic
      else Ok (Min (set (map (\<lambda>i. unat (entry_off p i)) [0..<count]))))"

definition write_property :: "bytes \<Rightarrow> slotted \<Rightarrow> u16 res \<times> slotted" where
  "write_property v p =
     (let len = length v;
          count = unat (sp_slot_count p);
          dir_end = SP_HEADER_SIZE + (count + 1) * SLOT_ENTRY_SIZE in
      case data_end p of
        Inl e \<Rightarrow> (Inl e, p)
      | Inr de \<Rightarrow>
          if dir_end + len > de then (Err (StorageCorrupted 0), p)
          else
            let new_data_end = de - len in
            if new_data_end + len > PAGE_SIZE then (Panic, p)
            else
              let p1 = put_bytes new_data_end v p;
                  p2 = put16 (dir_offset count) (of_nat new_data_end) p1;
                  p3 = put16 (dir_offset count + 2) (of_nat len) p2;
                  p4 = set_slot_count (of_nat count + 1) p3;
                  p5 = set_live_count (sp_live_count p4 + 1) p4
              in (Ok (of_nat count), p5))"

definition sp_free_slot :: "u16 \<Rightarrow> slotted \<Rightarrow> unit res \<times> slotted" where
  "sp_free_slot slot p =
     (let idx = unat slot in
      if idx \<ge> unat (sp_slot_count p) then (Err (StorageCorrupted 0), p)
      else if dir_offset idx + 2 > PAGE_SIZE then (Panic, p)
      else if entry_off p idx = TOMBSTONE_OFF then (Ok (), p)
      else
        let p1 = put16 (dir_offset idx) TOMBSTONE_OFF p;
            p2 = put16 (dir_offset idx + 2) 0 p1;
            live = sp_live_count p2
        in (Ok (), set_live_count (if live = 0 then 0 else live - 1) p2))"

definition free_space :: "slotted \<Rightarrow> nat res" where
  "free_space p =
     (let count = unat (sp_slot_count p);
          dir_end = SP_HEADER_SIZE + (count + 1) * SLOT_ENTRY_SIZE
      in try_res (data_end p) (\<lambda>de. Ok (de - dir_end)))"

definition read_property :: "slotted \<Rightarrow> u16 \<Rightarrow> bytes res" where
  "read_property p slot =
     (let idx = unat slot in
      if idx \<ge> unat (sp_slot_count p) then Err (StorageCorrupted 0)
      else if dir_offset idx + 4 > PAGE_SIZE then Panic
      else if entry_off p idx = TOMBSTONE_OFF then Err PropertySlotFreed
      else
        let off = unat (entry_off p idx); len = unat (entry_len p idx) in
        if off + len > PAGE_SIZE then Err (StorageCorrupted 0)
        else Ok (get_bytes off len p))"

section \<open>The invariant\<close>

definition live_slots :: "slotted \<Rightarrow> nat set" where
  "live_slots p = {i. i < unat (sp_slot_count p) \<and> entry_off p i \<noteq> TOMBSTONE_OFF}"

definition sp_inv :: "slotted \<Rightarrow> bool" where
  "sp_inv p \<longleftrightarrow> length p = PAGE_SIZE \<and> dir_offset (unat (sp_slot_count p)) \<le> PAGE_SIZE \<and>
     unat (sp_live_count p) = card (live_slots p) \<and>
     (\<forall>i\<in>live_slots p. dir_offset (unat (sp_slot_count p)) \<le> unat (entry_off p i) \<and>
        unat (entry_off p i) + unat (entry_len p i) \<le> PAGE_SIZE) \<and>
     (\<forall>i\<in>live_slots p. \<forall>j\<in>live_slots p. i \<noteq> j \<longrightarrow>
        unat (entry_off p i) + unat (entry_len p i) \<le> unat (entry_off p j) \<or>
        unat (entry_off p j) + unat (entry_len p j) \<le> unat (entry_off p i))"

text \<open>
  The value of a live slot. A page \<^emph>\<open>in use\<close> is one the store still writes to: a page whose last
  live slot is freed goes to the free-page list and is overwritten before its next use.
\<close>

definition slot_value :: "slotted \<Rightarrow> nat \<Rightarrow> bytes option" where
  "slot_value p i =
     (if i \<in> live_slots p then Some (get_bytes (unat (entry_off p i)) (unat (entry_len p i)) p) else None)"

definition in_use :: "slotted \<Rightarrow> bool" where
  "in_use p \<longleftrightarrow> sp_slot_count p = 0 \<or> live_slots p \<noteq> {}"

lemmas sp_consts = SP_HEADER_SIZE_def SLOT_ENTRY_SIZE_def PAGE_SIZE_def

lemma finite_live_slots [simp]: "finite (live_slots p)"
  by (rule finite_subset [of _ "{..<unat (sp_slot_count p)}"]) (auto simp: live_slots_def)

lemma live_slots_less: "i \<in> live_slots p \<Longrightarrow> i < unat (sp_slot_count p)"
  by (simp add: live_slots_def)

lemma sp_invD:
  assumes "sp_inv p"
  shows "length p = PAGE_SIZE" "dir_offset (unat (sp_slot_count p)) \<le> PAGE_SIZE"
    "unat (sp_live_count p) = card (live_slots p)"
    "i \<in> live_slots p \<Longrightarrow> dir_offset (unat (sp_slot_count p)) \<le> unat (entry_off p i)"
    "i \<in> live_slots p \<Longrightarrow> unat (entry_off p i) + unat (entry_len p i) \<le> PAGE_SIZE"
    "i \<in> live_slots p \<Longrightarrow> j \<in> live_slots p \<Longrightarrow> i \<noteq> j \<Longrightarrow>
      unat (entry_off p i) + unat (entry_len p i) \<le> unat (entry_off p j) \<or>
      unat (entry_off p j) + unat (entry_len p j) \<le> unat (entry_off p i)"
  using assms by (auto simp: sp_inv_def)

lemma unat_u16_less: "unat (w :: u16) < 65536"
  using unsigned_less [of w] by simp

lemma dir_offset_mono: "i < j \<Longrightarrow> dir_offset i + 4 \<le> dir_offset j"
  by (simp add: dir_offset_def sp_consts)

lemma dir_offset_ge: "4 \<le> dir_offset i"
  by (simp add: dir_offset_def sp_consts)

lemma dir_offset_Suc: "dir_offset (Suc i) = dir_offset i + 4"
  by (simp add: dir_offset_def sp_consts)

lemma read_property_value:
  assumes "sp_inv p"
  shows "read_property p s =
    (case slot_value p (unat s) of
       Some v \<Rightarrow> Inr v
     | None \<Rightarrow> if unat s < unat (sp_slot_count p) then Err PropertySlotFreed
               else Err (StorageCorrupted 0))"
proof (cases "unat s < unat (sp_slot_count p)")
  case True
  then have "dir_offset (unat s) + 4 \<le> PAGE_SIZE"
    using dir_offset_mono sp_invD(2) [OF assms] le_trans by blast
  moreover have "entry_off p (unat s) = TOMBSTONE_OFF \<or>
      unat (entry_off p (unat s)) + unat (entry_len p (unat s)) \<le> PAGE_SIZE"
    using True sp_invD(5) [OF assms, of "unat s"] by (auto simp: live_slots_def)
  ultimately show ?thesis
    using True by (auto simp: read_property_def slot_value_def live_slots_def Let_def not_le)
qed (auto simp: read_property_def slot_value_def live_slots_def)

lemma slotted_new_inv: "sp_inv slotted_new" "sp_slot_count slotted_new = 0" "live_slots slotted_new = {}"
proof -
  have z: "sp_slot_count slotted_new = 0" "sp_live_count slotted_new = 0"
    by (simp_all add: slotted_new_def set_slot_count_def set_live_count_def sp_slot_count_def
        sp_live_count_def PAGE_SIZE_def slice_simps)
  then show "sp_slot_count slotted_new = 0" by simp
  show e: "live_slots slotted_new = {}" using z by (simp add: live_slots_def)
  have "length slotted_new = PAGE_SIZE"
    by (simp add: slotted_new_def set_slot_count_def set_live_count_def PAGE_SIZE_def)
  then show "sp_inv slotted_new"
    using z e by (simp add: sp_inv_def) (simp add: dir_offset_def sp_consts)
qed

section \<open>Writing\<close>

lemma data_end_ok:
  assumes "sp_inv p" "in_use p"
  shows "\<exists>de. data_end p = Inr de \<and> de \<le> PAGE_SIZE \<and> dir_offset (unat (sp_slot_count p)) \<le> de \<and>
    (\<forall>i\<in>live_slots p. de \<le> unat (entry_off p i))"
proof (cases "sp_slot_count p = 0")
  case True
  then show ?thesis
    using sp_invD(2) [OF assms(1)] by (simp add: data_end_def live_slots_def)
next
  case False
  define offs where "offs = set (map (\<lambda>i. unat (entry_off p i)) [0..<unat (sp_slot_count p)])"
  have "data_end p = Inr (Min offs)"
    using False sp_invD(2) [OF assms(1)]
    by (simp add: data_end_def offs_def dir_offset_def Let_def unat_eq_zero)
  moreover obtain i where i: "i \<in> live_slots p"
    using assms(2) False by (auto simp: in_use_def)
  moreover have mem: "unat (entry_off p j) \<in> offs" if "j \<in> live_slots p" for j
    using that by (auto simp: offs_def live_slots_def)
  moreover have "dir_offset (unat (sp_slot_count p)) \<le> x" if x: "x \<in> offs" for x
  proof -
    obtain j where j: "j < unat (sp_slot_count p)" "x = unat (entry_off p j)"
      using x by (auto simp: offs_def)
    show ?thesis
    proof (cases "entry_off p j = TOMBSTONE_OFF")
      case True
      then show ?thesis
        using j sp_invD(2) [OF assms(1)] by (simp add: TOMBSTONE_OFF_def PAGE_SIZE_def)
    next
      case False
      then show ?thesis
        using j sp_invD(4) [OF assms(1), of j] by (simp add: live_slots_def)
    qed
  qed
  moreover have "finite offs" by (simp add: offs_def)
  moreover from this have below: "Min offs \<le> x" if "x \<in> offs" for x
    using that by (rule Min_le)
  moreover have "Min offs \<in> offs"
    using mem [OF i] \<open>finite offs\<close> by (intro Min_in) auto
  moreover have "Min offs \<le> PAGE_SIZE"
    using below [OF mem [OF i]] sp_invD(5) [OF assms(1) i] by linarith
  ultimately show ?thesis
    by (intro exI [of _ "Min offs"]) blast
qed

text \<open>The page after a successful write, field by field.\<close>

definition written :: "nat \<Rightarrow> bytes \<Rightarrow> slotted \<Rightarrow> slotted" where
  "written de v p =
     (let c = unat (sp_slot_count p);
          p4 = set_slot_count (of_nat c + 1)
            (put16 (dir_offset c + 2) (of_nat (length v))
              (put16 (dir_offset c) (of_nat (de - length v)) (put_bytes (de - length v) v p)))
      in set_live_count (sp_live_count p4 + 1) p4)"

lemma write_property_eq:
  assumes "sp_inv p" "in_use p" "data_end p = Inr de"
  shows "write_property v p =
    (if dir_offset (unat (sp_slot_count p)) + 4 + length v \<le> de
     then (Inr (sp_slot_count p), written de v p) else (Err (StorageCorrupted 0), p))"
  using data_end_ok [OF assms(1,2)] assms(3)
  by (auto simp: write_property_def written_def Let_def dir_offset_def SP_HEADER_SIZE_def
      SLOT_ENTRY_SIZE_def)

lemma written_fields:
  assumes inv: "sp_inv p" and fit: "dir_offset (unat (sp_slot_count p)) + 4 + length v \<le> de"
    and de: "de \<le> PAGE_SIZE" "\<forall>i\<in>live_slots p. de \<le> unat (entry_off p i)"
  defines "c \<equiv> unat (sp_slot_count p)" and "q \<equiv> written de v p"
  shows "length q = PAGE_SIZE" "unat (sp_slot_count q) = Suc c"
    "sp_live_count q = sp_live_count p + 1"
    "unat (entry_off q c) = de - length v" "unat (entry_len q c) = length v"
    "i < c \<Longrightarrow> entry_off q i = entry_off p i" "i < c \<Longrightarrow> entry_len q i = entry_len p i"
    "get_bytes (de - length v) (length v) q = v"
    "de \<le> off \<Longrightarrow> off + len \<le> PAGE_SIZE \<Longrightarrow> get_bytes off len q = get_bytes off len p"
proof -
  have len: "length p = 4096" using sp_invD(1) [OF inv] by (simp add: PAGE_SIZE_def)
  have fit': "dir_offset c + 4 + length v \<le> de" "de \<le> 4096"
    using fit de(1) by (simp_all add: c_def PAGE_SIZE_def)
  have ge: "4 \<le> dir_offset c" by (rule dir_offset_ge)
  have c: "c < 1024" using fit' by (simp add: dir_offset_def sp_consts)
  have unats: "unat (of_nat (de - length v) :: u16) = de - length v"
      "unat (of_nat (length v) :: u16) = length v" "unat (of_nat c + 1 :: u16) = Suc c"
    using fit' c unat_of_nat_u16 [of "de - length v"] unat_of_nat_u16 [of "Suc c"]
    by (simp_all add: add.commute del: of_nat_diff)
  note defs = q_def written_def Let_def set_slot_count_def set_live_count_def sp_slot_count_def
    sp_live_count_def c_def [symmetric, unfolded sp_slot_count_def]
  show "length q = PAGE_SIZE" "unat (sp_slot_count q) = Suc c"
      "sp_live_count q = sp_live_count p + 1"
      "unat (entry_off q c) = de - length v" "unat (entry_len q c) = length v"
      "get_bytes (de - length v) (length v) q = v"
    using fit' len ge
    by (simp_all add: defs entry_off_def entry_len_def slice_simps unats PAGE_SIZE_def
        del: of_nat_diff)
  show "entry_off q i = entry_off p i" "entry_len q i = entry_len p i" if "i < c"
    using fit' len ge dir_offset_ge [of i] dir_offset_mono [OF that]
    by (simp_all add: defs entry_off_def entry_len_def slice_simps)
  show "get_bytes off len q = get_bytes off len p" if "de \<le> off" "off + len \<le> PAGE_SIZE"
    using fit' len ge that by (simp add: defs slice_simps PAGE_SIZE_def)
qed

lemma written_live:
  assumes inv: "sp_inv p" and fit: "dir_offset (unat (sp_slot_count p)) + 4 + length v \<le> de"
    and de: "de \<le> PAGE_SIZE" "\<forall>i\<in>live_slots p. de \<le> unat (entry_off p i)"
  shows "live_slots (written de v p) = insert (unat (sp_slot_count p)) (live_slots p)"
proof -
  note f = written_fields [OF assms]
  have "unat (entry_off (written de v p) (unat (sp_slot_count p))) \<noteq> unat TOMBSTONE_OFF"
    using f(4) de(1) by (simp add: TOMBSTONE_OFF_def PAGE_SIZE_def)
  then show ?thesis
    using f(2) f(6) by (auto simp: live_slots_def less_Suc_eq)
qed

lemma written_ok:
  assumes inv: "sp_inv p" and fit: "dir_offset (unat (sp_slot_count p)) + 4 + length v \<le> de"
    and de: "de \<le> PAGE_SIZE" "\<forall>i\<in>live_slots p. de \<le> unat (entry_off p i)"
  shows "sp_inv (written de v p)" "in_use (written de v p)"
    "slot_value (written de v p) = (slot_value p)(unat (sp_slot_count p) \<mapsto> v)"
proof -
  note f = written_fields [OF assms] and l = written_live [OF assms]
  define c where "c = unat (sp_slot_count p)"
  have old: "i < c" if "i \<in> live_slots p" for i using live_slots_less [OF that] by (simp add: c_def)
  have cnot: "c \<notin> live_slots p" using old by auto
  have "card (live_slots p) < 65535"
    using card_mono [of "{..<c}" "live_slots p"] old f(2) unat_u16_less [of "sp_slot_count (written de v p)"]
    by (force simp: c_def)
  then have "unat (sp_live_count p + 1) = Suc (card (live_slots p))"
    using sp_invD(3) [OF inv] by (simp add: unat_word_ariths)
  then show "sp_inv (written de v p)"
    using f l old cnot sp_invD(4-6) [OF inv] fit de
    by (auto simp: sp_inv_def c_def [symmetric] dir_offset_Suc)
  show "in_use (written de v p)" using l by (auto simp: in_use_def)
  show "slot_value (written de v p) = (slot_value p)(unat (sp_slot_count p) \<mapsto> v)"
    using f l old cnot sp_invD(5) [OF inv] de(2)
    by (auto simp: slot_value_def c_def [symmetric] fun_eq_iff)
qed

section \<open>Freeing\<close>

definition freed :: "nat \<Rightarrow> slotted \<Rightarrow> slotted" where
  "freed i p = set_live_count (sp_live_count p - 1) (put16 (dir_offset i + 2) 0 (put16 (dir_offset i) TOMBSTONE_OFF p))"

lemma freed_fields:
  assumes inv: "sp_inv p" and i: "i < unat (sp_slot_count p)"
  shows "length (freed i p) = PAGE_SIZE" "sp_slot_count (freed i p) = sp_slot_count p"
    "sp_live_count (freed i p) = sp_live_count p - 1"
    "entry_off (freed i p) i = TOMBSTONE_OFF"
    "j \<noteq> i \<Longrightarrow> j < unat (sp_slot_count p) \<Longrightarrow> entry_off (freed i p) j = entry_off p j"
    "j \<noteq> i \<Longrightarrow> j < unat (sp_slot_count p) \<Longrightarrow> entry_len (freed i p) j = entry_len p j"
    "dir_offset (unat (sp_slot_count p)) \<le> off \<Longrightarrow> off + len \<le> PAGE_SIZE \<Longrightarrow>
      get_bytes off len (freed i p) = get_bytes off len p"
proof -
  have len: "length p = 4096" using sp_invD(1) [OF inv] by (simp add: PAGE_SIZE_def)
  have ge: "4 \<le> dir_offset i" by (rule dir_offset_ge)
  have le: "dir_offset i + 4 \<le> dir_offset (unat (sp_slot_count p))"
      "dir_offset (unat (sp_slot_count p)) \<le> 4096"
    using dir_offset_mono [OF i] sp_invD(2) [OF inv] by (simp_all add: PAGE_SIZE_def)
  note defs = freed_def set_live_count_def sp_slot_count_def sp_live_count_def
  show "length (freed i p) = PAGE_SIZE" "sp_slot_count (freed i p) = sp_slot_count p"
      "sp_live_count (freed i p) = sp_live_count p - 1" "entry_off (freed i p) i = TOMBSTONE_OFF"
    using len ge le by (simp_all add: defs entry_off_def slice_simps PAGE_SIZE_def)
  show "entry_off (freed i p) j = entry_off p j" "entry_len (freed i p) j = entry_len p j"
    if j: "j \<noteq> i" "j < unat (sp_slot_count p)"
  proof -
    have "dir_offset j + 4 \<le> dir_offset i \<or> dir_offset i + 4 \<le> dir_offset j"
      using j(1) dir_offset_mono by (metis linorder_neqE_nat)
    moreover have "dir_offset j + 4 \<le> 4096"
      using dir_offset_mono [OF j(2)] le by linarith
    ultimately show "entry_off (freed i p) j = entry_off p j" "entry_len (freed i p) j = entry_len p j"
      using len ge le dir_offset_ge [of j]
      by (auto simp: defs entry_off_def entry_len_def slice_simps)
  qed
  show "get_bytes off len (freed i p) = get_bytes off len p"
    if "dir_offset (unat (sp_slot_count p)) \<le> off" "off + len \<le> PAGE_SIZE"
    using that \<open>length p = 4096\<close> ge le by (simp add: defs slice_simps PAGE_SIZE_def)
qed

lemma sp_free_slot_eq:
  assumes inv: "sp_inv p" and i: "unat s < unat (sp_slot_count p)"
  shows "sp_free_slot s p = (Inr (), if unat s \<in> live_slots p then freed (unat s) p else p)"
proof -
  have le: "dir_offset (unat s) + 4 \<le> 4096" and len: "length p = 4096"
    using dir_offset_mono [OF i] sp_invD(1,2) [OF inv] by (simp_all add: PAGE_SIZE_def)
  have "sp_live_count p \<noteq> 0" if "unat s \<in> live_slots p"
    using that sp_invD(3) [OF inv] by (auto simp: unat_eq_zero)
  moreover have "sp_live_count (put16 (dir_offset (unat s) + 2) 0 (put16 (dir_offset (unat s)) TOMBSTONE_OFF p))
      = sp_live_count p"
    using le len dir_offset_ge [of "unat s"] by (simp add: sp_live_count_def slice_simps)
  ultimately show ?thesis
    using i le by (auto simp: sp_free_slot_def freed_def Let_def live_slots_def PAGE_SIZE_def)
qed

lemma freed_ok:
  assumes inv: "sp_inv p" and i: "i \<in> live_slots p"
  shows "sp_inv (freed i p)" "slot_value (freed i p) = (slot_value p)(i := None)"
    "live_slots (freed i p) = live_slots p - {i}"
proof -
  note less = live_slots_less [OF i]
  note f = freed_fields [OF inv less]
  show live: "live_slots (freed i p) = live_slots p - {i}"
  proof (rule set_eqI)
    fix j
    show "j \<in> live_slots (freed i p) \<longleftrightarrow> j \<in> live_slots p - {i}"
      using f(2,4) f(5) [of j] by (cases "j = i") (auto simp: live_slots_def)
  qed
  have "0 < card (live_slots p)" using i by (auto simp: card_gt_0_iff)
  then have "unat (sp_live_count p - 1) = card (live_slots p) - 1"
    using sp_invD(3) [OF inv] by (simp add: unat_minus_one unat_gt_0 [symmetric])
  then show "sp_inv (freed i p)"
    using f live sp_invD(2-6) [OF inv] i by (auto simp: sp_inv_def live_slots_less)
  show "slot_value (freed i p) = (slot_value p)(i := None)"
    using f live sp_invD(4,5) [OF inv] by (auto simp: slot_value_def fun_eq_iff live_slots_less)
qed

section \<open>The interface of a value page\<close>

text \<open>
  What the property store relies on: a page is a finite map from slot numbers to values, a write
  either adds a value under a new number or reports that there is no room and changes nothing, and
  freeing removes one value.
\<close>

locale value_page =
  fixes inv :: "'p \<Rightarrow> bool"
    and writable :: "'p \<Rightarrow> bool"
    and vals :: "'p \<Rightarrow> nat \<rightharpoonup> bytes"
    and next_slot :: "'p \<Rightarrow> nat"
    and wr :: "bytes \<Rightarrow> 'p \<Rightarrow> u16 res \<times> 'p"
    and release :: "u16 \<Rightarrow> 'p \<Rightarrow> unit res \<times> 'p"
    and rd :: "'p \<Rightarrow> u16 \<Rightarrow> bytes res"
  assumes dom_vals: "inv p \<Longrightarrow> i \<in> dom (vals p) \<Longrightarrow> i < next_slot p"
    and write_cases: "inv p \<Longrightarrow> writable p \<Longrightarrow> wr v p = (r, p') \<Longrightarrow>
      (r = Inl (Failed (StorageCorrupted 0)) \<and> p' = p) \<or>
      (\<exists>s. r = Inr s \<and> unat s = next_slot p \<and> inv p' \<and> writable p' \<and>
         vals p' = (vals p)(next_slot p \<mapsto> v) \<and> next_slot p' = Suc (next_slot p))"
    and release_live: "inv p \<Longrightarrow> unat s < next_slot p \<Longrightarrow>
      \<exists>p'. release s p = (Inr (), p') \<and> inv p' \<and> vals p' = (vals p)(unat s := None) \<and>
        next_slot p' = next_slot p"
    and read_value: "inv p \<Longrightarrow> rd p s =
      (case vals p (unat s) of Some v \<Rightarrow> Inr v
       | None \<Rightarrow> Inl (Failed (if unat s < next_slot p then PropertySlotFreed else StorageCorrupted 0)))"
begin

lemma write_read:
  assumes "inv p" "writable p" "wr v p = (Inr s, p')"
  shows "rd p' s = Inr v" "vals p (unat t) = Some w \<Longrightarrow> rd p' t = rd p t"
proof -
  note w = write_cases [OF assms]
  show "rd p' s = Inr v" using w read_value [of p' s] by auto
  assume t: "vals p (unat t) = Some w"
  then have "unat t \<noteq> next_slot p" using dom_vals [OF assms(1)] by (metis domI less_irrefl)
  then show "rd p' t = rd p t" using w t read_value [of p' t] read_value [OF assms(1), of t] by auto
qed

lemma release_read:
  assumes "inv p" "unat s < next_slot p" "release s p = (r, p')"
  shows "r = Inr ()" "inv p'" "rd p' s = Inl (Failed PropertySlotFreed)" "t \<noteq> s \<Longrightarrow> rd p' t = rd p t"
    "\<exists>p''. release s p' = (Inr (), p'') \<and> vals p'' = vals p'"
proof -
  have p': "r = Inr ()" "inv p'" "vals p' = (vals p)(unat s := None)" "next_slot p' = next_slot p"
    using release_live [OF assms(1,2)] assms(3) by auto
  then show "r = Inr ()" "inv p'" by simp_all
  show "rd p' s = Inl (Failed PropertySlotFreed)"
    using read_value [of p' s] p' assms(2) by simp
  show "rd p' t = rd p t" if "t \<noteq> s"
    using read_value [of p' t] read_value [OF assms(1), of t] p' that by (simp add: word_unat_eq_iff)
  show "\<exists>p''. release s p' = (Inr (), p'') \<and> vals p'' = vals p'"
    using release_live [of p' s] p' assms(2) by (auto simp: fun_eq_iff)
qed

end

lemma write_property_cases:
  assumes "sp_inv p" "in_use p" "write_property v p = (r, p')"
  shows "(r = Inl (Failed (StorageCorrupted 0)) \<and> p' = p) \<or>
    (\<exists>s. r = Inr s \<and> unat s = unat (sp_slot_count p) \<and> sp_inv p' \<and> in_use p' \<and>
       slot_value p' = (slot_value p)(unat (sp_slot_count p) \<mapsto> v) \<and>
       unat (sp_slot_count p') = Suc (unat (sp_slot_count p)))"
proof -
  obtain de where de: "data_end p = Inr de" "de \<le> PAGE_SIZE" "\<forall>i\<in>live_slots p. de \<le> unat (entry_off p i)"
    using data_end_ok [OF assms(1,2)] by blast
  show ?thesis
    using write_property_eq [OF assms(1,2) de(1), of v] assms(3) written_ok [OF assms(1) _ de(2,3), of v]
      written_fields(2) [OF assms(1) _ de(2,3), of v]
    by (auto split: if_splits)
qed

interpretation sp: value_page sp_inv in_use slot_value "\<lambda>p. unat (sp_slot_count p)"
  write_property sp_free_slot read_property
proof unfold_locales
  fix p i assume "sp_inv p" "i \<in> dom (slot_value p)"
  then show "i < unat (sp_slot_count p)"
    by (auto simp: slot_value_def live_slots_less split: if_splits)
next
  fix p s assume inv: "sp_inv p" and s: "unat (s :: u16) < unat (sp_slot_count p)"
  show "\<exists>p'. sp_free_slot s p = (Inr (), p') \<and> sp_inv p' \<and> slot_value p' = (slot_value p)(unat s := None) \<and>
      unat (sp_slot_count p') = unat (sp_slot_count p)"
    using sp_free_slot_eq [OF inv s] freed_ok [OF inv, of "unat s"] freed_fields(2) [OF inv s] inv
    by (auto simp: slot_value_def fun_eq_iff)
qed (use write_property_cases read_property_value in \<open>auto split: option.split\<close>)

section \<open>Properties\<close>

text \<open>
  A value that fits is read back unchanged from the slot the write returns, every other live
  value of the page keeps its bytes, and a value that does not fit is refused without changing the
  page.
\<close>

theorem write_property_then_read:
  assumes "sp_inv p" "in_use p" "write_property v p = (r, p')"
  shows "case r of
      Inr s \<Rightarrow> sp_inv p' \<and> read_property p' s = Inr v \<and> unat s = unat (sp_slot_count p) \<and>
        unat (sp_live_count p') = Suc (unat (sp_live_count p)) \<and>
        (\<forall>t w. read_property p t = Inr w \<longrightarrow> read_property p' t = Inr w)
    | Inl e \<Rightarrow> e = Failed (StorageCorrupted 0) \<and> p' = p"
proof (cases r)
  case (Inl e)
  then show ?thesis using sp.write_cases [OF assms] by auto
next
  case (Inr s)
  note w = sp.write_cases [OF assms]
  have rd: "read_property p' s = Inr v" using sp.write_read(1) assms Inr by blast
  have keep: "read_property p' t = Inr w" if "read_property p t = Inr w" for t w
  proof -
    have "slot_value p (unat t) = Some w"
      using that read_property_value [OF assms(1), of t] by (auto split: option.splits if_splits)
    then show ?thesis using sp.write_read(2) [of p v s p' t w] assms Inr that by auto
  qed
  have "live_slots p' = insert (unat (sp_slot_count p)) (live_slots p)"
    using w Inr by (fastforce simp: slot_value_def fun_eq_iff set_eq_iff split: if_splits)
  moreover have "unat (sp_slot_count p) \<notin> live_slots p" using live_slots_less by blast
  ultimately have "card (live_slots p') = Suc (card (live_slots p))" by simp
  then show ?thesis
    using w Inr rd keep sp_invD(3) assms(1) by auto
qed

lemma small_write_slotted_new:
  assumes "length v \<le> 4088"
  shows "write_property v slotted_new = (Inr 0, written PAGE_SIZE v slotted_new)"
proof -
  have "data_end slotted_new = Inr PAGE_SIZE"
    by (simp add: data_end_def slotted_new_inv)
  then show ?thesis
    using write_property_eq [OF slotted_new_inv(1), of PAGE_SIZE v] assms
    by (simp add: in_use_def slotted_new_inv dir_offset_def sp_consts)
qed

lemma write_property_then_read_witness:
  "read_property (written PAGE_SIZE [1, 2, 3] slotted_new) 0 = Inr [1, 2, 3]"
  using write_property_then_read [OF slotted_new_inv(1) _ small_write_slotted_new [of "[1, 2, 3]"]]
  by (simp add: in_use_def slotted_new_inv)

text \<open>
  Freeing a slot makes reads of it report that it was freed, as opposed to corruption, leaves
  every other slot as it was, lowers \<open>live_count\<close> only if the slot was live, and a second free of the
  same slot changes nothing; a slot number the page never handed out is an error.
\<close>

theorem free_slot_tombstones:
  assumes "sp_inv p" "sp_free_slot s p = (r, p')"
  shows "if unat s < unat (sp_slot_count p)
    then r = Inr () \<and> sp_inv p' \<and> read_property p' s = Err PropertySlotFreed \<and>
      (\<forall>t. t \<noteq> s \<longrightarrow> read_property p' t = read_property p t) \<and>
      unat (sp_live_count p') = unat (sp_live_count p) - (if unat s \<in> live_slots p then 1 else 0) \<and>
      sp_free_slot s p' = (Inr (), p')
    else r = Err (StorageCorrupted 0) \<and> p' = p"
proof (cases "unat s < unat (sp_slot_count p)")
  case True
  note rd = sp.release_read [OF assms(1) True assms(2)]
  have p': "p' = (if unat s \<in> live_slots p then freed (unat s) p else p)"
    using sp_free_slot_eq [OF assms(1) True] assms(2) by simp
  then have gone: "unat s \<notin> live_slots p'" "unat s < unat (sp_slot_count p')"
    using freed_ok(3) [OF assms(1)] freed_fields(2) [OF assms(1) True] True by auto
  have "sp_free_slot s p' = (Inr (), p')"
    using sp_free_slot_eq [OF rd(2) gone(2)] gone(1) by simp
  moreover have "unat (sp_live_count p') = unat (sp_live_count p) - (if unat s \<in> live_slots p then 1 else 0)"
    using p' freed_ok(3) [OF assms(1)] sp_invD(3) [OF rd(2)] sp_invD(3) [OF assms(1)]
    by (simp add: card_Diff_singleton)
  ultimately show ?thesis using True rd by simp
next
  case False
  then show ?thesis using assms(2) by (simp add: sp_free_slot_def)
qed

lemma free_slot_tombstones_witness:
  "\<exists>p'. sp_free_slot 0 (written PAGE_SIZE [1, 2, 3] slotted_new) = (Inr (), p') \<and>
    read_property p' 0 = Err PropertySlotFreed"
proof -
  have inv: "sp_inv (written PAGE_SIZE [1, 2, 3] slotted_new)"
    "0 < unat (sp_slot_count (written PAGE_SIZE [1, 2, 3] slotted_new))"
    using write_property_cases [OF slotted_new_inv(1) _ small_write_slotted_new [of "[1, 2, 3]"]]
    by (auto simp: in_use_def slotted_new_inv)
  obtain r p' where f: "sp_free_slot 0 (written PAGE_SIZE [1, 2, 3] slotted_new) = (r, p')"
    by (cases "sp_free_slot 0 (written PAGE_SIZE [1, 2, 3] slotted_new)")
  show ?thesis
    using free_slot_tombstones [OF inv(1) f] inv(2) f by auto
qed

text \<open>
  The free space reported is exact for every value of at least one byte: a write succeeds if and
  only if the value is no longer than \<open>free_space\<close>.
\<close>

theorem free_space_exact:
  assumes "sp_inv p" "in_use p" "v \<noteq> []"
  shows "\<exists>n. free_space p = Inr n \<and>
    ((\<exists>s. fst (write_property v p) = Inr s) \<longleftrightarrow> length v \<le> n)"
proof -
  obtain de where de: "data_end p = Inr de"
    using data_end_ok [OF assms(1,2)] by blast
  then show ?thesis
    using write_property_eq [OF assms(1,2) de, of v] assms(3)
    by (auto simp: free_space_def dir_offset_def SP_HEADER_SIZE_def SLOT_ENTRY_SIZE_def Let_def
        neq_Nil_conv)
qed

lemma free_space_exact_witness:
  "\<exists>n. free_space slotted_new = Inr n \<and> ((\<exists>s. fst (write_property [1, 2, 3] slotted_new) = Inr s) \<longleftrightarrow> 3 \<le> n)"
  using free_space_exact [OF slotted_new_inv(1), of "[1, 2, 3]"]
  by (simp add: in_use_def slotted_new_inv numeral_3_eq_3)

section \<open>Where the page departs from its comments\<close>

text \<open>
  The comment on \<open>free_space\<close> says that a write succeeds iff the length is at most the free space.
  The empty value is an exception: a page with less than four bytes left has no room for another
  directory entry, the saturating subtraction reports 0 bytes, and a write of 0 bytes is refused.
\<close>

lemma free_space_empty_value_counterexample:
  defines "p \<equiv> written PAGE_SIZE (replicate 4088 7) slotted_new"
  shows "free_space p = Inr 0 \<and> fst (write_property [] p) = Err (StorageCorrupted 0)"
proof -
  have fit: "dir_offset (unat (sp_slot_count slotted_new)) + 4 + length (replicate 4088 (7 :: byte)) \<le> PAGE_SIZE"
      "PAGE_SIZE \<le> PAGE_SIZE" "\<forall>i\<in>live_slots slotted_new. PAGE_SIZE \<le> unat (entry_off slotted_new i)"
    by (simp_all add: slotted_new_inv dir_offset_def sp_consts)
  note f = written_fields [OF slotted_new_inv(1) fit, folded p_def]
  note ok = written_ok [OF slotted_new_inv(1) fit, folded p_def]
  have c: "unat (sp_slot_count p) = 1" using f(2) by (simp add: slotted_new_inv)
  then have de: "data_end p = Inr 8"
    using f(4) by (simp add: data_end_def slotted_new_inv sp_consts)
  then show ?thesis
    using write_property_eq [OF ok(1,2) de, of "[]"] c
    by (simp add: free_space_def dir_offset_def SP_HEADER_SIZE_def SLOT_ENTRY_SIZE_def)
qed

text \<open>
  \<open>read_property\<close> is meant to survive a corrupt page with an error. A slot count larger than the
  page's directory can hold gets past its check, and the slice of the directory entry panics.
\<close>

lemma read_property_panics_on_corrupt_count:
  "read_property (set_slot_count 2000 slotted_new) 1500 = Panic"
proof -
  have "sp_slot_count (set_slot_count 2000 slotted_new) = 2000"
    using sp_invD(1) [OF slotted_new_inv(1)]
    by (simp add: sp_slot_count_def set_slot_count_def slice_simps PAGE_SIZE_def)
  then show ?thesis
    by (simp add: read_property_def dir_offset_def sp_consts)
qed

end
