(* ===== verification/Blob_Chain.thy ===== *)
theory Blob_Chain
  imports Page
begin

text \<open>
  The page chain of \<^verbatim>\<open>storage/property.rs\<close> that holds a value longer than a page: each
  page starts with the number of the next page and the length of its chunk. \<open>write_blob_chain\<close> links
  the pages by their position in the slice; \<open>read_blob_chain\<close> follows the links with a step bound, so
  it ends on every input, and returns what was written.
\<close>

definition CHAIN_HEADER_SIZE :: nat where
  "CHAIN_HEADER_SIZE = 8"

definition NO_NEXT_PAGE :: u32 where
  "NO_NEXT_PAGE = 0xFFFFFFFF"

definition CHAIN_DATA_PER_PAGE :: nat where
  "CHAIN_DATA_PER_PAGE = PAGE_SIZE - CHAIN_HEADER_SIZE"

definition pages_needed :: "nat \<Rightarrow> nat" where
  "pages_needed data_len = max ((data_len + CHAIN_DATA_PER_PAGE - 1) div CHAIN_DATA_PER_PAGE) 1"

text \<open>The body of the loop of \<open>write_blob_chain\<close>, for page number \<open>i\<close> of \<open>needed\<close>.\<close>

definition chain_next :: "nat \<Rightarrow> nat \<Rightarrow> u32" where
  "chain_next needed i = (if i + 1 < needed then of_nat (i + 1) else NO_NEXT_PAGE)"

definition chain_page :: "u32 \<Rightarrow> bytes \<Rightarrow> bytes \<Rightarrow> bytes" where
  "chain_page next chunk page =
     put_bytes CHAIN_HEADER_SIZE chunk (put32 4 (of_nat (length chunk)) (put32 0 next page))"

fun write_chain_loop :: "nat \<Rightarrow> bytes \<Rightarrow> nat \<Rightarrow> nat \<Rightarrow> bytes list \<Rightarrow> bytes list" where
  "write_chain_loop needed d i offset [] = []"
| "write_chain_loop needed d i offset (page # pages) =
     (if i < needed then
        let chunk_end = min (offset + CHAIN_DATA_PER_PAGE) (length d);
            chunk = get_bytes offset (chunk_end - offset) d
        in chain_page (chain_next needed i) chunk page
             # write_chain_loop needed d (i + 1) chunk_end pages
      else page # pages)"

definition write_blob_chain :: "bytes list \<Rightarrow> bytes \<Rightarrow> unit res \<times> bytes list" where
  "write_blob_chain pages d =
     (let needed = pages_needed (length d) in
      if length pages < needed then (Err (StorageCorrupted 0), pages)
      else (Ok (), write_chain_loop needed d 0 0 pages))"

text \<open>
  The loop of \<open>read_blob_chain\<close>; \<open>left\<close> is \<open>pages.len() - steps\<close>, the number of links it may still
  follow. Slicing a page panics out of its range.
\<close>

fun read_chain_loop :: "bytes list \<Rightarrow> nat \<Rightarrow> nat \<Rightarrow> bytes \<Rightarrow> bytes res" where
  "read_chain_loop pages left page_idx result =
     (case slice_get pages page_idx of
        None \<Rightarrow> Err (StorageCorrupted (of_nat page_idx))
      | Some page \<Rightarrow>
          let next = get32 0 page;
              chunk_len = unat (get32 4 page)
          in
          if chunk_len > CHAIN_DATA_PER_PAGE then Err (StorageCorrupted (of_nat page_idx))
          else
            try_res (slice_res CHAIN_HEADER_SIZE (CHAIN_HEADER_SIZE + chunk_len) page) (\<lambda>chunk.
            let result' = result @ chunk in
            if next = NO_NEXT_PAGE then Ok result'
            else (case left of
                    0 \<Rightarrow> Err (StorageCorrupted (of_nat page_idx))
                  | Suc left' \<Rightarrow> read_chain_loop pages left' (unat next) result')))"

declare read_chain_loop.simps [simp del]

definition read_blob_chain :: "bytes list \<Rightarrow> bytes res" where
  "read_blob_chain pages = read_chain_loop pages (length pages) 0 []"

section \<open>Reading back a chain\<close>

lemmas chain_consts = CHAIN_HEADER_SIZE_def CHAIN_DATA_PER_PAGE_def PAGE_SIZE_def

lemma chain_page_fields:
  assumes "length page = PAGE_SIZE" "length chunk \<le> CHAIN_DATA_PER_PAGE"
  shows "get32 0 (chain_page nx chunk page) = nx"
    "unat (get32 4 (chain_page nx chunk page)) = length chunk"
    "get_bytes CHAIN_HEADER_SIZE (length chunk) (chain_page nx chunk page) = chunk"
    "length (chain_page nx chunk page) = PAGE_SIZE"
  using assms by (simp_all add: chain_page_def slice_simps chain_consts unat_of_nat take_bit_nat_eq_self)

lemma length_write_chain_loop [simp]: "length (write_chain_loop n d i off pages) = length pages"
  by (induction n d i off pages rule: write_chain_loop.induct) (auto simp: Let_def)

text \<open>Page \<open>k\<close> of the written chain holds chunk number \<open>k\<close> and the link to page \<open>k + 1\<close>.\<close>

lemma write_chain_loop_nth:
  assumes "off = min (i * CHAIN_DATA_PER_PAGE) (length d)" "k < length pages" "i + k < needed"
  shows "write_chain_loop needed d i off pages ! k =
    chain_page (chain_next needed (i + k))
      (take CHAIN_DATA_PER_PAGE (drop ((i + k) * CHAIN_DATA_PER_PAGE) d)) (pages ! k)"
  using assms
proof (induction pages arbitrary: i off k)
  case Nil
  then show ?case by simp
next
  case (Cons page pages)
  have chunk: "get_bytes off (min (off + CHAIN_DATA_PER_PAGE) (length d) - off) d =
      take CHAIN_DATA_PER_PAGE (drop (i * CHAIN_DATA_PER_PAGE) d)"
    using Cons.prems(1) by (simp add: get_bytes_def min_def)
  have next_off: "min (off + CHAIN_DATA_PER_PAGE) (length d) = min (Suc i * CHAIN_DATA_PER_PAGE) (length d)"
    using Cons.prems(1) by (simp add: min_def)
  show ?case
  proof (cases k)
    case 0
    then show ?thesis using Cons.prems chunk by (simp add: Let_def)
  next
    case (Suc k')
    then show ?thesis
      using Cons.prems Cons.IH [OF next_off, of k'] by (simp add: Let_def)
  qed
qed

lemma pages_needed_bounds:
  "0 < pages_needed n" "n \<le> pages_needed n * CHAIN_DATA_PER_PAGE"
proof -
  show "0 < pages_needed n" by (simp add: pages_needed_def)
  show "n \<le> pages_needed n * CHAIN_DATA_PER_PAGE"
    unfolding pages_needed_def by (simp add: chain_consts)
qed

lemma read_chain_step:
  assumes "k < length ps" "ps ! k = chain_page nx chunk page" "length page = PAGE_SIZE"
    "length chunk \<le> CHAIN_DATA_PER_PAGE"
  shows "read_chain_loop ps left k acc =
    (if nx = NO_NEXT_PAGE then Inr (acc @ chunk)
     else (case left of 0 \<Rightarrow> Err (StorageCorrupted (of_nat k))
           | Suc left' \<Rightarrow> read_chain_loop ps left' (unat nx) (acc @ chunk)))"
  using assms chain_page_fields [OF assms(3,4), of nx]
  by (subst read_chain_loop.simps) (simp add: slice_get_def slice_res_def chain_consts Let_def split: nat.split)

lemma read_chain_loop_written:
  assumes needed: "needed = pages_needed (length d)" "needed \<le> length pages" "length pages < 2 ^ 32 - 1"
    and pages: "\<forall>p\<in>set pages. length p = PAGE_SIZE"
    and k: "k < needed" "needed \<le> left + k + 1"
  shows "read_chain_loop (write_chain_loop needed d 0 0 pages) left k acc =
    Inr (acc @ drop (k * CHAIN_DATA_PER_PAGE) d)"
  using k
proof (induction left arbitrary: k acc)
  have page: "write_chain_loop needed d 0 0 pages ! k = chain_page (chain_next needed k)
      (take CHAIN_DATA_PER_PAGE (drop (k * CHAIN_DATA_PER_PAGE) d)) (pages ! k)"
      "length (pages ! k) = PAGE_SIZE"
    if "k < needed" for k
    using that needed(2) pages write_chain_loop_nth [of 0 0 d k pages needed] by auto
  have last: "drop (Suc k * CHAIN_DATA_PER_PAGE) d = []" if "needed \<le> k + 1" for k
  proof -
    have "needed * CHAIN_DATA_PER_PAGE \<le> Suc k * CHAIN_DATA_PER_PAGE"
      using that by (intro mult_le_mono1) simp
    then show ?thesis using pages_needed_bounds(2) [of "length d"] needed(1) by simp
  qed
  have split: "take CHAIN_DATA_PER_PAGE (drop (k * CHAIN_DATA_PER_PAGE) d) @ drop (Suc k * CHAIN_DATA_PER_PAGE) d =
      drop (k * CHAIN_DATA_PER_PAGE) d" for k
    by (simp add: drop_drop [symmetric] del: drop_drop)
  have step: "read_chain_loop (write_chain_loop needed d 0 0 pages) left k acc =
    (if k + 1 < needed then
       (case left of 0 \<Rightarrow> Err (StorageCorrupted (of_nat k))
        | Suc left' \<Rightarrow> read_chain_loop (write_chain_loop needed d 0 0 pages) left' (Suc k)
            (acc @ take CHAIN_DATA_PER_PAGE (drop (k * CHAIN_DATA_PER_PAGE) d)))
     else Inr (acc @ drop (k * CHAIN_DATA_PER_PAGE) d))" if k: "k < needed" for left k acc
  proof -
    have "unat (of_nat (k + 1) :: u32) = k + 1" if "k + 1 < needed"
      using that needed by (simp add: unat_of_nat take_bit_nat_eq_self del: of_nat_add of_nat_Suc)
    then have nx: "chain_next needed k \<noteq> NO_NEXT_PAGE" "unat (chain_next needed k) = Suc k" if "k + 1 < needed"
      using that needed by (auto simp: chain_next_def NO_NEXT_PAGE_def word_unat_eq_iff simp del: of_nat_add of_nat_Suc)
    have "k < length (write_chain_loop needed d 0 0 pages)" using k needed(2) by simp
    from read_chain_step [OF this page [OF k]] show ?thesis
      using nx last [of k] split [of k] by (auto simp: chain_next_def simp del: of_nat_add of_nat_Suc split: nat.split)
  qed
  {
    case 0
    then show ?case using step [of k 0 acc] by simp
  next
    case (Suc left)
    then show ?case
      using step [of k "Suc left" acc] Suc.IH [of "Suc k"] split [of k] by auto
  }
qed

section \<open>Properties\<close>

text \<open>
  A value of any length, the empty one included, written as a chain over enough pages is read
  back byte for byte, whatever the pages held before; with too few pages the write is refused and
  leaves them alone.
\<close>

theorem blob_chain_roundtrip:
  assumes "\<forall>p\<in>set pages. length p = PAGE_SIZE" "length pages < 2 ^ 32 - 1"
  shows "if pages_needed (length d) \<le> length pages
    then (\<exists>pages'. write_blob_chain pages d = (Inr (), pages') \<and> length pages' = length pages \<and>
      read_blob_chain pages' = Inr d)
    else write_blob_chain pages d = (Err (StorageCorrupted 0), pages)"
  using read_chain_loop_written [OF refl _ assms(2,1), of d 0 "length pages" "[]"] pages_needed_bounds(1)
  by (auto simp: write_blob_chain_def read_blob_chain_def)

lemma blob_chain_roundtrip_witness:
  "\<exists>pages'. write_blob_chain [replicate PAGE_SIZE 1, replicate PAGE_SIZE 2] (replicate 5000 9) = (Inr (), pages') \<and>
    read_blob_chain pages' = Inr (replicate 5000 9)"
  using blob_chain_roundtrip [of "[replicate PAGE_SIZE 1, replicate PAGE_SIZE 2]" "replicate 5000 9"]
  by (auto simp: pages_needed_def chain_consts)

lemma read_chain_loop_ends:
  assumes "\<forall>p\<in>set pages. length p = PAGE_SIZE"
  shows "(\<exists>d. read_chain_loop pages left k acc = Ok d \<and> length d \<le> length acc + Suc left * CHAIN_DATA_PER_PAGE \<and>
      (\<exists>p\<in>set pages. get32 0 p = NO_NEXT_PAGE)) \<or>
    (\<exists>i. read_chain_loop pages left k acc = Err (StorageCorrupted i))"
proof (induction left arbitrary: k acc)
  case 0
  show ?case
    using assms by (subst (1 2) read_chain_loop.simps)
      (auto simp: Let_def slice_get_def slice_res_def chain_consts get_bytes_def not_less)
next
  case (Suc left)
  show ?case
  proof (cases "k < length pages \<and> unat (get32 4 (pages ! k)) \<le> CHAIN_DATA_PER_PAGE")
    case True
    let ?p = "pages ! k" and ?chunk = "get_bytes CHAIN_HEADER_SIZE (unat (get32 4 (pages ! k))) (pages ! k)"
    have p: "?p \<in> set pages" "length ?p = PAGE_SIZE" using True assms by simp_all
    have len: "length ?chunk \<le> CHAIN_DATA_PER_PAGE" using True unfolding get_bytes_def by (simp add: le_trans [OF min.cobounded2])
    have step: "read_chain_loop pages (Suc left) k acc =
        (if get32 0 ?p = NO_NEXT_PAGE then Ok (acc @ ?chunk) else read_chain_loop pages left (unat (get32 0 ?p)) (acc @ ?chunk))"
      using True p(2) by (subst read_chain_loop.simps) (simp add: Let_def slice_get_def slice_res_def chain_consts)
    show ?thesis
    proof (cases "get32 0 ?p = NO_NEXT_PAGE")
      case True
      then show ?thesis using step p(1) len by auto
    next
      case False
      then show ?thesis using step Suc.IH [of "unat (get32 0 ?p)" "acc @ ?chunk"] len by auto
    qed
  next
    case False
    then show ?thesis by (subst (1 2) read_chain_loop.simps) (auto simp: Let_def slice_get_def)
  qed
qed

text \<open>
  C40: reading a chain ends on every slice of pages, whatever they hold: it returns a value or a
  corruption error and never panics, so neither a link outside the slice nor a chunk that runs past its
  page is followed. A value has at most one chunk for each link that may be followed, and links that
  never end, such as those of a cycle, are an error.
\<close>

theorem read_blob_chain_total:
  assumes "\<forall>p\<in>set pages. length p = PAGE_SIZE"
  shows "((\<exists>d. read_blob_chain pages = Ok d \<and> length d \<le> Suc (length pages) * CHAIN_DATA_PER_PAGE) \<or>
      (\<exists>i. read_blob_chain pages = Err (StorageCorrupted i))) \<and>
    ((\<forall>p\<in>set pages. get32 0 p \<noteq> NO_NEXT_PAGE) \<longrightarrow> (\<exists>i. read_blob_chain pages = Err (StorageCorrupted i)))"
  using read_chain_loop_ends [OF assms, of "length pages" 0 "[]"] unfolding read_blob_chain_def by auto

text \<open>A page that links to itself.\<close>

theorem read_blob_chain_total_witness:
  "\<exists>i. read_blob_chain [put32 0 0 (replicate PAGE_SIZE 0)] = Err (StorageCorrupted i)"
proof -
  have p: "length (put32 0 0 (replicate PAGE_SIZE 0)) = PAGE_SIZE" "get32 0 (put32 0 0 (replicate PAGE_SIZE 0)) \<noteq> NO_NEXT_PAGE"
    by (simp_all add: PAGE_SIZE_def slice_simps NO_NEXT_PAGE_def)
  show ?thesis using read_blob_chain_total [of "[put32 0 0 (replicate PAGE_SIZE 0)]"] p by simp
qed

end
