(* ===== verification/Page_Cache.thy ===== *)
theory Page_Cache
  imports Page "HOL-Library.Multiset"
begin

text \<open>
  The bounded LRU page cache of \<^verbatim>\<open>storage/buffer.rs\<close>: frames in a slab, linked into a doubly
  linked list by slab index, with a hash map from page number to frame and a stack of vacated
  frames. The model keeps the slab, the links and the stack as the code has them; an index out of
  range, where the code would panic, is \<open>None\<close>.

  The abstract cache is a list of \<open>(page number, bytes, dirty)\<close> entries, least recently used first
  (the naive model of the code's own property tests). The lemmas show that every operation returns
  (no index is ever out of range) and does to that list what an LRU cache does, and the locale
  \<open>bounded_cache\<close> states what the storage backend relies on.
\<close>

section \<open>The cache\<close>

definition NIL :: nat where
  "NIL = 2 ^ 64 - 1"

record frame =
  fr_page_id :: u32
  fr_data :: bytes
  fr_dirty :: bool
  fr_prev :: nat
  fr_next :: nat

record dirty_victim =
  dv_page_id :: u32
  dv_data :: bytes

record page_cache =
  pc_capacity :: nat
  pc_slab :: "frame list"
  pc_free :: "nat list"
  pc_index :: "(u32 \<times> nat) list"
  lru_head :: nat
  mru_tail :: nat

definition cache_new :: "nat \<Rightarrow> page_cache" where
  "cache_new cap = \<lparr>pc_capacity = max cap 1, pc_slab = [], pc_free = [], pc_index = [],
     lru_head = NIL, mru_tail = NIL\<rparr>"

definition cache_len :: "page_cache \<Rightarrow> nat" where
  "cache_len c = length (pc_index c)"

definition cache_is_empty :: "page_cache \<Rightarrow> bool" where
  "cache_is_empty c \<longleftrightarrow> pc_index c = []"

definition slab_get :: "page_cache \<Rightarrow> nat \<Rightarrow> frame option" where
  "slab_get c i = (if i < length (pc_slab c) then Some (pc_slab c ! i) else None)"

definition slab_upd :: "nat \<Rightarrow> (frame \<Rightarrow> frame) \<Rightarrow> page_cache \<Rightarrow> page_cache option" where
  "slab_upd i f c =
     (if i < length (pc_slab c) then Some (c\<lparr>pc_slab := (pc_slab c)[i := f (pc_slab c ! i)]\<rparr>) else None)"

definition unlink :: "nat \<Rightarrow> page_cache \<Rightarrow> page_cache option" where
  "unlink slot c = do {
     fr \<leftarrow> slab_get c slot;
     let prev = fr_prev fr;
     let next = fr_next fr;
     c \<leftarrow> (if prev = NIL then Some (c\<lparr>lru_head := next\<rparr>)
          else slab_upd prev (\<lambda>f. f\<lparr>fr_next := next\<rparr>) c);
     c \<leftarrow> (if next = NIL then Some (c\<lparr>mru_tail := prev\<rparr>)
          else slab_upd next (\<lambda>f. f\<lparr>fr_prev := prev\<rparr>) c);
     slab_upd slot (\<lambda>f. f\<lparr>fr_prev := NIL, fr_next := NIL\<rparr>) c
   }"

definition push_mru :: "nat \<Rightarrow> page_cache \<Rightarrow> page_cache option" where
  "push_mru slot c = do {
     c \<leftarrow> slab_upd slot (\<lambda>f. f\<lparr>fr_prev := mru_tail c, fr_next := NIL\<rparr>) c;
     c \<leftarrow> (if mru_tail c = NIL then Some (c\<lparr>lru_head := slot\<rparr>)
          else slab_upd (mru_tail c) (\<lambda>f. f\<lparr>fr_next := slot\<rparr>) c);
     Some (c\<lparr>mru_tail := slot\<rparr>)
   }"

definition touch :: "nat \<Rightarrow> page_cache \<Rightarrow> page_cache option" where
  "touch slot c =
     (if mru_tail c \<noteq> slot then do { c \<leftarrow> unlink slot c; push_mru slot c } else Some c)"

definition cache_get :: "u32 \<Rightarrow> page_cache \<Rightarrow> (bytes option \<times> page_cache) option" where
  "cache_get pid c =
     (case map_of (pc_index c) pid of
        None \<Rightarrow> Some (None, c)
      | Some slot \<Rightarrow> do {
          c \<leftarrow> touch slot c;
          fr \<leftarrow> slab_get c slot;
          Some (Some (fr_data fr), c)
        })"

definition evict_lru :: "page_cache \<Rightarrow> (dirty_victim option \<times> page_cache) option" where
  "evict_lru c =
     (let slot = lru_head c in
      if slot = NIL then Some (None, c)
      else do {
        c \<leftarrow> unlink slot c;
        let c = c\<lparr>pc_free := pc_free c @ [slot]\<rparr>;
        fr \<leftarrow> slab_get c slot;
        let c = c\<lparr>pc_index := AList.delete (fr_page_id fr) (pc_index c)\<rparr>;
        Some (if fr_dirty fr then Some \<lparr>dv_page_id = fr_page_id fr, dv_data = fr_data fr\<rparr> else None, c)
      })"

definition cache_put :: "u32 \<Rightarrow> bytes \<Rightarrow> bool \<Rightarrow> page_cache \<Rightarrow> (dirty_victim option \<times> page_cache) option" where
  "cache_put pid d dirty c =
     (case map_of (pc_index c) pid of
        Some slot \<Rightarrow> do {
          c \<leftarrow> slab_upd slot (\<lambda>f. f\<lparr>fr_data := d, fr_dirty := fr_dirty f \<or> dirty\<rparr>) c;
          c \<leftarrow> touch slot c;
          Some (None, c)
        }
      | None \<Rightarrow> do {
          (victim, c) \<leftarrow> (if cache_len c \<ge> pc_capacity c then evict_lru c else Some (None, c));
          let fr = \<lparr>fr_page_id = pid, fr_data = d, fr_dirty = dirty, fr_prev = NIL, fr_next = NIL\<rparr>;
          (slot, c) \<leftarrow> (if pc_free c = []
                  then Some (length (pc_slab c), c\<lparr>pc_slab := pc_slab c @ [fr]\<rparr>)
                  else do {
                    let slot = last (pc_free c);
                    c \<leftarrow> slab_upd slot (\<lambda>_. fr) (c\<lparr>pc_free := butlast (pc_free c)\<rparr>);
                    Some (slot, c)
                  });
          let c = c\<lparr>pc_index := AList.update pid slot (pc_index c)\<rparr>;
          c \<leftarrow> push_mru slot c;
          Some (victim, c)
        })"

definition cache_remove :: "u32 \<Rightarrow> page_cache \<Rightarrow> page_cache option" where
  "cache_remove pid c =
     (case map_of (pc_index c) pid of
        None \<Rightarrow> Some c
      | Some slot \<Rightarrow> do {
          let c = c\<lparr>pc_index := AList.delete pid (pc_index c)\<rparr>;
          c \<leftarrow> unlink slot c;
          Some (c\<lparr>pc_free := pc_free c @ [slot]\<rparr>)
        })"

definition cache_clear :: "page_cache \<Rightarrow> page_cache" where
  "cache_clear c = c\<lparr>pc_slab := [], pc_free := [], pc_index := [], lru_head := NIL, mru_tail := NIL\<rparr>"

section \<open>The linked list in the slab\<close>

definition first_of :: "nat list \<Rightarrow> nat \<Rightarrow> nat" where
  "first_of xs n = (case xs of [] \<Rightarrow> n | y # _ \<Rightarrow> y)"

definition last_of :: "nat \<Rightarrow> nat list \<Rightarrow> nat" where
  "last_of p xs = (if xs = [] then p else last xs)"

lemma first_of_simps [simp]: "first_of [] n = n" "first_of (x # xs) n = x"
  "first_of (xs @ ys) n = first_of xs (first_of ys n)"
  by (auto simp: first_of_def split: list.split)

lemma last_of_simps [simp]: "last_of p [] = p" "last_of p (x # xs) = last_of x xs"
  "last_of p (xs @ ys) = last_of (last_of p xs) ys"
  by (auto simp: last_of_def)

text \<open>A segment of the list: frames \<open>xs\<close> in order, preceded by \<open>p\<close> and followed by \<open>n\<close>.\<close>

fun dseg :: "frame list \<Rightarrow> nat \<Rightarrow> nat list \<Rightarrow> nat \<Rightarrow> bool" where
  "dseg sl p [] n \<longleftrightarrow> True"
| "dseg sl p (x # xs) n \<longleftrightarrow> fr_prev (sl ! x) = p \<and> fr_next (sl ! x) = first_of xs n \<and> dseg sl x xs n"

lemma dseg_append [simp]:
  "dseg sl p (xs @ ys) n \<longleftrightarrow> dseg sl p xs (first_of ys n) \<and> dseg sl (last_of p xs) ys n"
  by (induction xs arbitrary: p) auto

lemma dseg_frame: "y \<notin> set xs \<Longrightarrow> dseg (sl[y := f]) p xs n = dseg sl p xs n"
  by (induction xs arbitrary: p) auto

lemma dseg_cong:
  assumes "\<And>x. x \<in> set xs \<Longrightarrow> fr_prev (sl ! x) = fr_prev (sl' ! x) \<and> fr_next (sl ! x) = fr_next (sl' ! x)"
  shows "dseg sl p xs n = dseg sl' p xs n"
  using assms by (induction xs arbitrary: p) auto

text \<open>Redirecting the end of a segment, or its start.\<close>

lemma dseg_upd_last:
  assumes "dseg sl p (xs @ [a]) m" "a \<notin> set xs" "a < length sl"
  shows "dseg (sl[a := (sl ! a)\<lparr>fr_next := n\<rparr>]) p (xs @ [a]) n"
  using assms by (simp add: dseg_frame)

lemma dseg_upd_first:
  assumes "dseg sl p (b # xs) n" "b \<notin> set xs" "b < length sl"
  shows "dseg (sl[b := (sl ! b)\<lparr>fr_prev := q\<rparr>]) q (b # xs) n"
  using assms by (simp add: dseg_frame)

definition links :: "page_cache \<Rightarrow> nat list \<Rightarrow> bool" where
  "links c xs \<longleftrightarrow> dseg (pc_slab c) NIL xs NIL \<and> lru_head c = first_of xs NIL \<and>
     mru_tail c = last_of NIL xs \<and> distinct xs \<and> set xs \<subseteq> {..<length (pc_slab c)} \<and>
     length (pc_slab c) \<le> NIL"

definition payload :: "frame \<Rightarrow> u32 \<times> bytes \<times> bool" where
  "payload f = (fr_page_id f, fr_data f, fr_dirty f)"

text \<open>Two caches that differ in the links only.\<close>

definition same_content :: "page_cache \<Rightarrow> page_cache \<Rightarrow> bool" where
  "same_content c c' \<longleftrightarrow> map payload (pc_slab c') = map payload (pc_slab c) \<and>
     pc_free c' = pc_free c \<and> pc_index c' = pc_index c \<and> pc_capacity c' = pc_capacity c"

lemma same_content_length: "same_content c c' \<Longrightarrow> length (pc_slab c') = length (pc_slab c)"
  unfolding same_content_def by (metis length_map)

lemma same_content_payload:
  "same_content c c' \<Longrightarrow> i < length (pc_slab c) \<Longrightarrow> payload (pc_slab c' ! i) = payload (pc_slab c ! i)"
  unfolding same_content_def by (metis length_map nth_map)

lemma same_content_trans: "same_content a b \<Longrightarrow> same_content b c \<Longrightarrow> same_content a c"
  by (simp add: same_content_def)

lemma map_payload_upd:
  "i < length sl \<Longrightarrow> payload f = payload (sl ! i) \<Longrightarrow> map payload (sl[i := f]) = map payload sl"
  by (simp add: map_update list_update_same_conv)

lemma links_less:
  assumes "links c xs" "x \<in> set xs"
  shows "x < length (pc_slab c)" "x \<noteq> NIL" "x < NIL"
  using assms by (auto simp: links_def)

lemma unlink_links:
  assumes l: "links c (as @ x # bs)"
  shows "\<exists>c'. unlink x c = Some c' \<and> links c' (as @ bs) \<and> same_content c c'"
proof -
  have less: "y < length (pc_slab c)" "y \<noteq> NIL" if "y \<in> set (as @ x # bs)" for y
    using links_less [OF l that] by simp_all
  have dist: "distinct (as @ x # bs)" using l by (simp add: links_def)
  define p n where "p = last_of NIL as" and "n = first_of bs NIL"
  have prev_next: "fr_prev (pc_slab c ! x) = p" "fr_next (pc_slab c ! x) = n"
    using l by (simp_all add: links_def p_def n_def)
  have segs: "dseg (pc_slab c) NIL as x" "dseg (pc_slab c) x bs NIL"
    using l by (simp_all add: links_def)
  have p: "p = NIL \<longleftrightarrow> as = []" "as \<noteq> [] \<Longrightarrow> p \<in> set as"
    using less by (auto simp: p_def last_of_def)
  have n: "n = NIL \<longleftrightarrow> bs = []" "bs \<noteq> [] \<Longrightarrow> n \<in> set bs"
    using less by (auto simp: n_def first_of_def split: list.splits)
  \<comment> \<open>first step: the predecessor, or the head\<close>
  define c1 where "c1 = (if p = NIL then c\<lparr>lru_head := n\<rparr>
    else c\<lparr>pc_slab := (pc_slab c)[p := (pc_slab c ! p)\<lparr>fr_next := n\<rparr>]\<rparr>)"
  have c1: "(if p = NIL then Some (c\<lparr>lru_head := n\<rparr>) else slab_upd p (\<lambda>f. f\<lparr>fr_next := n\<rparr>) c) = Some c1"
    using p less by (auto simp: c1_def slab_upd_def)
  have s1: "dseg (pc_slab c1) NIL as n" "dseg (pc_slab c1) x bs NIL"
      "length (pc_slab c1) = length (pc_slab c)" "map payload (pc_slab c1) = map payload (pc_slab c)"
  proof -
    show "dseg (pc_slab c1) x bs NIL"
      using segs(2) p dist by (auto simp: c1_def disjoint_iff intro: dseg_frame [THEN iffD2])
    show "dseg (pc_slab c1) NIL as n"
    proof (cases as rule: rev_cases)
      case (snoc ys a)
      then have "p = a" by (simp add: p_def)
      then show ?thesis
        using snoc segs(1) dist p less dseg_upd_last [of "pc_slab c" NIL ys a x n]
        by (simp add: c1_def)
    qed simp
    show "length (pc_slab c1) = length (pc_slab c)" by (simp add: c1_def)
    show "map payload (pc_slab c1) = map payload (pc_slab c)"
      using p less by (auto simp: c1_def payload_def intro!: map_payload_upd)
  qed
  \<comment> \<open>second step: the successor, or the tail\<close>
  define c2 where "c2 = (if n = NIL then c1\<lparr>mru_tail := p\<rparr>
    else c1\<lparr>pc_slab := (pc_slab c1)[n := (pc_slab c1 ! n)\<lparr>fr_prev := p\<rparr>]\<rparr>)"
  have c2: "(if n = NIL then Some (c1\<lparr>mru_tail := p\<rparr>) else slab_upd n (\<lambda>f. f\<lparr>fr_prev := p\<rparr>) c1) = Some c2"
    using n less s1(3) by (auto simp: c2_def slab_upd_def)
  have s2: "dseg (pc_slab c2) NIL as n" "dseg (pc_slab c2) p bs NIL"
      "length (pc_slab c2) = length (pc_slab c)" "map payload (pc_slab c2) = map payload (pc_slab c)"
  proof -
    show "dseg (pc_slab c2) NIL as n"
      using s1(1) n dist by (auto simp: c2_def disjoint_iff intro: dseg_frame [THEN iffD2])
    show "dseg (pc_slab c2) p bs NIL"
    proof (cases bs)
      case (Cons b ys)
      then have "n = b" by (simp add: n_def)
      then show ?thesis
        using Cons s1(2,3) dist n less dseg_upd_first [of "pc_slab c1" x b ys NIL p]
        by (simp add: c2_def)
    qed simp
    show "length (pc_slab c2) = length (pc_slab c)" using s1(3) by (simp add: c2_def)
    show "map payload (pc_slab c2) = map payload (pc_slab c)"
      using n less s1(3,4) by (auto simp: c2_def payload_def intro!: map_payload_upd [THEN trans])
  qed
  define c3 where "c3 = c2\<lparr>pc_slab := (pc_slab c2)[x := (pc_slab c2 ! x)\<lparr>fr_prev := NIL, fr_next := NIL\<rparr>]\<rparr>"
  have "unlink x c = Some c3"
    using c1 c2 less [of x] s2(3) by (simp add: unlink_def slab_get_def prev_next slab_upd_def c3_def)
  moreover have "links c3 (as @ bs)"
  proof -
    have "dseg (pc_slab c3) NIL (as @ bs) NIL"
      using s2(1,2) dist by (simp add: c3_def dseg_frame n_def p_def)
    moreover have "lru_head c3 = first_of (as @ bs) NIL"
      using l p n by (cases as) (auto simp: c3_def c2_def c1_def links_def n_def)
    moreover have "mru_tail c3 = last_of NIL (as @ bs)"
      using l p n by (cases bs rule: rev_cases) (auto simp: c3_def c2_def c1_def links_def p_def)
    ultimately show ?thesis
      using l dist s2(3) by (auto simp: links_def c3_def)
  qed
  moreover have "same_content c c3"
  proof -
    have "map payload (pc_slab c3) = map payload (pc_slab c)"
      using s2(3,4) less [of x] by (simp add: c3_def map_payload_upd payload_def)
    moreover have "pc_free c3 = pc_free c" "pc_index c3 = pc_index c" "pc_capacity c3 = pc_capacity c"
      by (simp_all add: c3_def c2_def c1_def)
    ultimately show ?thesis by (simp add: same_content_def)
  qed
  ultimately show ?thesis by blast
qed

lemma push_links:
  assumes l: "links c xs" and x: "x < length (pc_slab c)" "x \<notin> set xs"
  shows "\<exists>c'. push_mru x c = Some c' \<and> links c' (xs @ [x]) \<and> same_content c c'"
proof -
  define t where "t = mru_tail c"
  have t: "t = last_of NIL xs" "t = NIL \<longleftrightarrow> xs = []" "xs \<noteq> [] \<Longrightarrow> t \<in> set xs"
    using l links_less [OF l] by (auto simp: links_def t_def last_of_def)
  define c1 where "c1 = c\<lparr>pc_slab := (pc_slab c)[x := (pc_slab c ! x)\<lparr>fr_prev := t, fr_next := NIL\<rparr>]\<rparr>"
  have c1: "slab_upd x (\<lambda>f. f\<lparr>fr_prev := t, fr_next := NIL\<rparr>) c = Some c1"
    using x by (simp add: slab_upd_def c1_def)
  define c2 where "c2 = (if t = NIL then c1\<lparr>lru_head := x\<rparr>
    else c1\<lparr>pc_slab := (pc_slab c1)[t := (pc_slab c1 ! t)\<lparr>fr_next := x\<rparr>]\<rparr>)"
  have c2: "(if t = NIL then Some (c1\<lparr>lru_head := x\<rparr>) else slab_upd t (\<lambda>f. f\<lparr>fr_next := x\<rparr>) c1) = Some c2"
    using t links_less [OF l] by (auto simp: slab_upd_def c2_def c1_def)
  have tail: "mru_tail c1 = t" by (simp add: c1_def t_def)
  have "push_mru x c = Some (c2\<lparr>mru_tail := x\<rparr>)"
    using c1 c2 by (auto simp: push_mru_def t_def [symmetric] tail split: if_splits)
  moreover have "links (c2\<lparr>mru_tail := x\<rparr>) (xs @ [x])"
  proof (cases xs rule: rev_cases)
    case Nil
    then show ?thesis
      using l x t by (auto simp: links_def c2_def c1_def)
  next
    case (snoc ys a)
    then have a: "t = a" "a < length (pc_slab c)" "a \<noteq> NIL" "a \<noteq> x" "a \<notin> set ys"
      using t links_less [OF l, of a] x l by (auto simp: links_def)
    have "dseg (pc_slab c1) NIL (ys @ [a]) NIL"
      using l snoc x by (simp add: links_def c1_def dseg_frame)
    from dseg_upd_last [OF this a(5), of x]
    have "dseg (pc_slab c2) NIL (ys @ [a]) x"
      using a by (simp add: c2_def c1_def)
    moreover have "fr_prev (pc_slab c2 ! x) = a" "fr_next (pc_slab c2 ! x) = NIL"
      using a x by (simp_all add: c2_def c1_def)
    ultimately show ?thesis
      using l snoc x a by (auto simp: links_def c2_def c1_def)
  qed
  moreover have "same_content c (c2\<lparr>mru_tail := x\<rparr>)"
    using x t links_less [OF l]
    by (auto simp: same_content_def c2_def c1_def payload_def nth_list_update
        intro!: map_payload_upd [THEN trans])
  ultimately show ?thesis by blast
qed

lemma touch_links:
  assumes l: "links c (as @ x # bs)"
  shows "\<exists>c'. touch x c = Some c' \<and> links c' (as @ bs @ [x]) \<and> same_content c c'"
proof (cases "mru_tail c = x")
  case True
  then have "bs = []"
    using l by (cases bs rule: rev_cases) (auto simp: links_def)
  then show ?thesis using True l by (auto simp: touch_def same_content_def)
next
  case False
  obtain c1 where c1: "unlink x c = Some c1" "links c1 (as @ bs)" "same_content c c1"
    using unlink_links [OF l] by blast
  have "x < length (pc_slab c1)" "x \<notin> set (as @ bs)"
    using links_less(1) [OF l, of x] same_content_length [OF c1(3)] l by (auto simp: links_def)
  from push_links [OF c1(2) this] show ?thesis
    using c1 False same_content_trans by (fastforce simp: touch_def)
qed

section \<open>The abstract cache: a recency list\<close>

type_synonym lru = "(u32 \<times> bytes \<times> bool) list"

definition lru_drop :: "u32 \<Rightarrow> lru \<Rightarrow> lru" where
  "lru_drop pid l = filter (\<lambda>e. fst e \<noteq> pid) l"

definition lru_get :: "u32 \<Rightarrow> lru \<Rightarrow> bytes option \<times> lru" where
  "lru_get pid l =
     (case map_of l pid of None \<Rightarrow> (None, l) | Some (d, b) \<Rightarrow> (Some d, lru_drop pid l @ [(pid, d, b)]))"

definition lru_victim :: "u32 \<times> bytes \<times> bool \<Rightarrow> dirty_victim option" where
  "lru_victim e = (case e of (k, d, b) \<Rightarrow> if b then Some \<lparr>dv_page_id = k, dv_data = d\<rparr> else None)"

definition lru_put :: "nat \<Rightarrow> u32 \<Rightarrow> bytes \<Rightarrow> bool \<Rightarrow> lru \<Rightarrow> dirty_victim option \<times> lru" where
  "lru_put cap pid d b l =
     (case map_of l pid of
        Some (_, b0) \<Rightarrow> (None, lru_drop pid l @ [(pid, d, b0 \<or> b)])
      | None \<Rightarrow> if length l \<ge> cap then (lru_victim (hd l), tl l @ [(pid, d, b)])
                else (None, l @ [(pid, d, b)]))"

section \<open>The cache implements it\<close>

definition slot_key :: "page_cache \<Rightarrow> nat \<Rightarrow> u32" where
  "slot_key c s = fr_page_id (pc_slab c ! s)"

definition entries :: "page_cache \<Rightarrow> nat list \<Rightarrow> lru" where
  "entries c xs = map (\<lambda>s. payload (pc_slab c ! s)) xs"

definition cache_rep :: "page_cache \<Rightarrow> nat list \<Rightarrow> bool" where
  "cache_rep c xs \<longleftrightarrow> links c xs \<and> 1 \<le> pc_capacity c \<and> length (pc_slab c) \<le> pc_capacity c \<and>
     pc_capacity c \<le> NIL \<and> distinct (xs @ pc_free c) \<and> set (xs @ pc_free c) = {..<length (pc_slab c)} \<and>
     distinct (map fst (pc_index c)) \<and> set (pc_index c) = (\<lambda>s. (slot_key c s, s)) ` set xs \<and>
     distinct (map (slot_key c) xs)"

lemma fst_payload [simp]: "fst (payload f) = fr_page_id f"
  by (simp add: payload_def)

lemma cache_repD:
  assumes "cache_rep c xs"
  shows "links c xs" "distinct (xs @ pc_free c)" "set (xs @ pc_free c) = {..<length (pc_slab c)}"
    "distinct (map fst (pc_index c))" "set (pc_index c) = (\<lambda>s. (slot_key c s, s)) ` set xs"
    "distinct (map (slot_key c) xs)" "1 \<le> pc_capacity c" "length (pc_slab c) \<le> pc_capacity c"
    "pc_capacity c \<le> NIL"
  using assms by (auto simp: cache_rep_def)

lemma index_lookup:
  assumes "cache_rep c xs"
  shows "map_of (pc_index c) pid = Some s \<longleftrightarrow> s \<in> set xs \<and> slot_key c s = pid"
    "map_of (pc_index c) pid = None \<longleftrightarrow> pid \<notin> slot_key c ` set xs"
  using cache_repD [OF assms] by (auto simp: map_of_eq_None_iff image_iff)

lemma length_index:
  assumes "cache_rep c xs"
  shows "length (pc_index c) = length xs"
proof -
  have "length (pc_index c) = card (set (pc_index c))"
    using cache_repD(4) [OF assms] by (simp add: distinct_card distinct_map)
  also have "\<dots> = card (set xs)"
    using cache_repD(5) [OF assms] by (simp add: card_image inj_on_def)
  finally show ?thesis using cache_repD(2) [OF assms] by (simp add: distinct_card)
qed

text \<open>A cache with the same content whose links are a permutation of the old ones.\<close>

lemma same_content_slot:
  assumes "same_content c c'" "i < length (pc_slab c)"
  shows "slot_key c' i = slot_key c i" "payload (pc_slab c' ! i) = payload (pc_slab c ! i)"
  using same_content_payload [OF assms] by (simp_all add: slot_key_def payload_def)

lemma same_content_entries:
  assumes "same_content c c'" "set xs \<subseteq> {..<length (pc_slab c)}"
  shows "entries c' xs = entries c xs"
  using assms same_content_slot(2) [OF assms(1)] by (auto simp: entries_def)

lemma cache_rep_relink:
  assumes rep: "cache_rep c xs" and c': "links c' ys" "same_content c c'" "mset ys = mset xs"
  shows "cache_rep c' ys" "entries c' ys = entries c ys"
proof -
  have sets: "set ys = set xs" using c'(3) by (rule mset_eq_setD)
  have dist: "distinct ys"
    using mset_eq_imp_distinct_iff [OF c'(3)] cache_repD(2) [OF rep] by simp
  have sub: "set xs \<subseteq> {..<length (pc_slab c)}" using cache_repD(1) [OF rep] by (simp add: links_def)
  have keys: "slot_key c' s = slot_key c s" if "s \<in> set xs" for s
    using same_content_slot(1) [OF c'(2)] sub that by auto
  have "distinct (map (slot_key c') ys)"
    using cache_repD(6) [OF rep] keys dist sets by (auto simp: distinct_map inj_on_def)
  moreover have "set (pc_index c') = (\<lambda>s. (slot_key c' s, s)) ` set ys"
    using cache_repD(5) [OF rep] c'(2) keys sets by (simp add: same_content_def)
  moreover have "distinct (ys @ pc_free c')" "set (ys @ pc_free c') = {..<length (pc_slab c')}"
    using cache_repD(2,3) [OF rep] c'(2) dist sets same_content_length [OF c'(2)]
    by (auto simp: same_content_def)
  ultimately show "cache_rep c' ys"
    using rep c'(1,2) same_content_length [OF c'(2)] by (simp add: cache_rep_def same_content_def)
  show "entries c' ys = entries c ys"
    using same_content_entries [OF c'(2)] sets sub by auto
qed

lemma drop_entries:
  assumes "distinct (map (slot_key c) (as @ x # bs))"
  shows "lru_drop (slot_key c x) (entries c (as @ x # bs)) = entries c (as @ bs)"
    "map_of (entries c (as @ x # bs)) (slot_key c x) = Some (snd (payload (pc_slab c ! x)))"
proof -
  have "slot_key c s \<noteq> slot_key c x" if "s \<in> set as \<or> s \<in> set bs" for s
    using assms that by (force simp: image_iff)
  then show "lru_drop (slot_key c x) (entries c (as @ x # bs)) = entries c (as @ bs)"
    by (auto simp: lru_drop_def entries_def slot_key_def filter_id_conv intro!: filter_True)
  have "map_of (entries c as) (slot_key c x) = None"
    using assms by (auto simp: map_of_eq_None_iff entries_def slot_key_def image_iff)
  then show "map_of (entries c (as @ x # bs)) (slot_key c x) = Some (snd (payload (pc_slab c ! x)))"
    by (simp add: entries_def map_add_def slot_key_def payload_def)
qed

lemma entries_None:
  "pid \<notin> slot_key c ` set xs \<Longrightarrow> map_of (entries c xs) pid = None"
  by (auto simp: map_of_eq_None_iff entries_def slot_key_def image_iff)

lemma entries_simps [simp]:
  "entries c [] = []" "entries c (xs @ ys) = entries c xs @ entries c ys"
  "entries c (x # xs) = payload (pc_slab c ! x) # entries c xs" "length (entries c xs) = length xs"
  by (simp_all add: entries_def)

lemma touch_rep:
  assumes rep: "cache_rep c xs" and x: "x \<in> set xs"
  shows "\<exists>c' ys. touch x c = Some c' \<and> cache_rep c' ys \<and> same_content c c' \<and>
    entries c' ys = lru_drop (slot_key c x) (entries c xs) @ [payload (pc_slab c ! x)]"
proof -
  obtain as bs where xs: "xs = as @ x # bs" using x by (auto simp: in_set_conv_decomp)
  obtain c' where c': "touch x c = Some c'" "links c' (as @ bs @ [x])" "same_content c c'"
    using touch_links cache_repD(1) [OF rep] xs by blast
  have "mset (as @ bs @ [x]) = mset xs" by (simp add: xs)
  from cache_rep_relink [OF rep c'(2,3) this] show ?thesis
    using c' drop_entries(1) [of c as x bs] cache_repD(6) [OF rep] xs by (intro exI conjI) auto
qed

lemma cache_get_refines:
  assumes rep: "cache_rep c xs"
  shows "\<exists>c' ys. cache_get pid c = Some (fst (lru_get pid (entries c xs)), c') \<and> cache_rep c' ys \<and>
    entries c' ys = snd (lru_get pid (entries c xs)) \<and> pc_capacity c' = pc_capacity c"
proof (cases "map_of (pc_index c) pid")
  case None
  then have "map_of (entries c xs) pid = None"
    using index_lookup(2) [OF rep] by (simp add: entries_None)
  then show ?thesis using None rep by (auto simp: cache_get_def lru_get_def)
next
  case (Some x)
  then have x: "x \<in> set xs" "slot_key c x = pid" using index_lookup(1) [OF rep] by auto
  then obtain as bs where xs: "xs = as @ x # bs" by (auto simp: in_set_conv_decomp)
  have less: "x < length (pc_slab c)" using links_less(1) [OF cache_repD(1) [OF rep] x(1)] .
  obtain c' ys where c': "touch x c = Some c'" "cache_rep c' ys" "same_content c c'"
      "entries c' ys = lru_drop pid (entries c xs) @ [payload (pc_slab c ! x)]"
    using touch_rep [OF rep x(1)] x(2) by blast
  have "map_of (entries c xs) pid = Some (snd (payload (pc_slab c ! x)))"
    using drop_entries(2) [of c as x bs] cache_repD(6) [OF rep] xs x(2) by simp
  moreover have "slab_get c' x = Some (pc_slab c' ! x)" "fr_data (pc_slab c' ! x) = fr_data (pc_slab c ! x)"
    using less same_content_length [OF c'(3)] same_content_payload [OF c'(3) less]
    by (simp_all add: slab_get_def payload_def)
  ultimately show ?thesis
    using Some c' x(2) by (auto simp: cache_get_def lru_get_def payload_def slot_key_def same_content_def)
qed

text \<open>Taking a frame out of the list: eviction and removal.\<close>

lemma set_alist_delete: "set (AList.delete k al) = {p \<in> set al. fst p \<noteq> k}"
  by (auto simp: AList.delete_eq)

lemma unlinked_rep:
  assumes rep: "cache_rep c (as @ x # bs)"
  shows "\<exists>c1. unlink x c = Some c1 \<and> pc_index c1 = pc_index c \<and> pc_free c1 = pc_free c \<and>
    x < length (pc_slab c1) \<and> payload (pc_slab c1 ! x) = payload (pc_slab c ! x) \<and>
    pc_capacity c1 = pc_capacity c \<and>
    cache_rep (c1\<lparr>pc_free := pc_free c @ [x], pc_index := AList.delete (slot_key c x) (pc_index c)\<rparr>) (as @ bs) \<and>
    entries (c1\<lparr>pc_free := pc_free c @ [x], pc_index := AList.delete (slot_key c x) (pc_index c)\<rparr>) (as @ bs)
      = entries c (as @ bs)"
proof -
  note D = cache_repD [OF rep]
  obtain c1 where c1: "unlink x c = Some c1" "links c1 (as @ bs)" "same_content c c1"
    using unlink_links [OF D(1)] by blast
  define c2 where "c2 = c1\<lparr>pc_free := pc_free c @ [x], pc_index := AList.delete (slot_key c x) (pc_index c)\<rparr>"
  have less: "s < length (pc_slab c)" if "s \<in> set (as @ x # bs)" for s
    using links_less(1) [OF D(1) that] .
  have key: "slot_key c2 s = slot_key c s" if "s \<in> set (as @ x # bs)" for s
    using same_content_slot(1) [OF c1(3) less [OF that]] by (simp add: c2_def slot_key_def)
  have other: "slot_key c s \<noteq> slot_key c x" if "s \<in> set (as @ bs)" for s
    using D(6) that by (force simp: image_iff)
  have "set (pc_index c2) = (\<lambda>s. (slot_key c2 s, s)) ` set (as @ bs)"
    using D(5) key other by (auto simp: c2_def set_alist_delete image_iff)
  moreover have "distinct (map (slot_key c2) (as @ bs))"
  proof -
    have same: "map (slot_key c2) (as @ bs) = map (slot_key c) (as @ bs)" using key by auto
    show ?thesis using D(6) by (simp only: same) auto
  qed
  moreover have "distinct (as @ bs @ pc_free c2)" "set (as @ bs @ pc_free c2) = {..<length (pc_slab c2)}"
    using D(2,3) same_content_length [OF c1(3)] by (auto simp: c2_def)
  moreover have "links c2 (as @ bs)" using c1(2) by (simp add: links_def c2_def)
  ultimately have "cache_rep c2 (as @ bs)"
    using rep same_content_length [OF c1(3)] c1(3)
    by (simp add: cache_rep_def same_content_def c2_def distinct_delete)
  moreover have "entries c2 (as @ bs) = entries c (as @ bs)"
    using same_content_payload [OF c1(3)] less by (simp add: entries_def c2_def)
  ultimately show ?thesis
    using c1 less [of x] same_content_length [OF c1(3)] same_content_payload [OF c1(3), of x]
    unfolding c2_def by (simp add: same_content_def)
qed

lemma evict_refines:
  assumes rep: "cache_rep c xs" and ne: "xs \<noteq> []"
  shows "\<exists>c'. evict_lru c = Some (lru_victim (hd (entries c xs)), c') \<and> cache_rep c' (tl xs) \<and>
    entries c' (tl xs) = tl (entries c xs) \<and> pc_capacity c' = pc_capacity c"
proof -
  obtain x bs where xs: "xs = [] @ x # bs" using ne by (cases xs) auto
  have head: "lru_head c = x" "x \<noteq> NIL"
    using cache_repD(1) [OF rep] links_less(2) [OF cache_repD(1) [OF rep], of x] xs
    by (auto simp: links_def)
  from unlinked_rep [of c "[]" x bs] rep xs show ?thesis
    using head by (auto simp: evict_lru_def slab_get_def lru_victim_def payload_def slot_key_def)
qed

lemma cache_remove_refines:
  assumes rep: "cache_rep c xs"
  shows "\<exists>c' ys. cache_remove pid c = Some c' \<and> cache_rep c' ys \<and>
    entries c' ys = lru_drop pid (entries c xs) \<and> pc_capacity c' = pc_capacity c"
proof (cases "map_of (pc_index c) pid")
  case None
  then have "pid \<notin> slot_key c ` set xs" using index_lookup(2) [OF rep] by simp
  then have "lru_drop pid (entries c xs) = entries c xs"
    by (force simp: lru_drop_def entries_def slot_key_def filter_id_conv)
  then show ?thesis using None rep by (auto simp: cache_remove_def)
next
  case (Some x)
  then have x: "x \<in> set xs" "slot_key c x = pid" using index_lookup(1) [OF rep] by auto
  then obtain as bs where xs: "xs = as @ x # bs" by (auto simp: in_set_conv_decomp)
  have unlink_index: "unlink x (c\<lparr>pc_index := i\<rparr>) = map_option (\<lambda>c'. c'\<lparr>pc_index := i\<rparr>) (unlink x c)" for i
    by (auto simp: unlink_def slab_get_def slab_upd_def Let_def split: if_splits)
  obtain c1 where c1: "unlink x c = Some c1" "pc_index c1 = pc_index c" "pc_free c1 = pc_free c"
      "pc_capacity c1 = pc_capacity c"
      "cache_rep (c1\<lparr>pc_free := pc_free c @ [x], pc_index := AList.delete pid (pc_index c)\<rparr>) (as @ bs)"
      "entries (c1\<lparr>pc_free := pc_free c @ [x], pc_index := AList.delete pid (pc_index c)\<rparr>) (as @ bs)
        = entries c (as @ bs)"
    using unlinked_rep [of c as x bs] rep xs x(2) by blast
  have "cache_remove pid c = Some (c1\<lparr>pc_free := pc_free c @ [x], pc_index := AList.delete pid (pc_index c)\<rparr>)"
    using Some c1(1,3) by (simp add: cache_remove_def unlink_index)
  then show ?thesis
    using c1 drop_entries(1) [of c as x bs] cache_repD(6) [OF rep] xs x(2) by auto
qed

text \<open>Adding a frame.\<close>

lemma alist_update_new: "k \<notin> fst ` set al \<Longrightarrow> AList.update k v al = al @ [(k, v)]"
  by (induction al) auto

definition new_frame :: "u32 \<Rightarrow> bytes \<Rightarrow> bool \<Rightarrow> frame" where
  "new_frame pid d dirty = \<lparr>fr_page_id = pid, fr_data = d, fr_dirty = dirty, fr_prev = NIL, fr_next = NIL\<rparr>"

lemma placed_rep:
  assumes rep: "cache_rep c ys" and new: "pid \<notin> slot_key c ` set ys"
    and c1: "links c1 ys" "s < length (pc_slab c1)" "s \<notin> set ys" "length (pc_slab c) \<le> length (pc_slab c1)"
      "length (pc_slab c1) \<le> pc_capacity c" "pc_capacity c1 = pc_capacity c"
      "payload (pc_slab c1 ! s) = (pid, d, b)"
      "\<And>i. i \<in> set ys \<Longrightarrow> payload (pc_slab c1 ! i) = payload (pc_slab c ! i)"
      "distinct (ys @ [s] @ pc_free c1)" "set (ys @ [s] @ pc_free c1) = {..<length (pc_slab c1)}"
      "pc_index c1 = pc_index c"
  shows "\<exists>c'. push_mru s (c1\<lparr>pc_index := AList.update pid s (pc_index c)\<rparr>) = Some c' \<and>
    cache_rep c' (ys @ [s]) \<and> entries c' (ys @ [s]) = entries c ys @ [(pid, d, b)] \<and>
    pc_capacity c' = pc_capacity c"
proof -
  note D = cache_repD [OF rep]
  have keys1: "slot_key c1 i = slot_key c i" if "i \<in> set ys" for i
    using c1(8) [OF that] by (simp add: slot_key_def payload_def)
  have upd: "AList.update pid s (pc_index c) = pc_index c @ [(pid, s)]"
    using new D(5) by (intro alist_update_new) (auto simp: image_iff)
  define c2 where "c2 = c1\<lparr>pc_index := pc_index c @ [(pid, s)]\<rparr>"
  have "links c2 ys" using c1(1) by (simp add: links_def c2_def)
  then obtain c' where c': "push_mru s c2 = Some c'" "links c' (ys @ [s])" "same_content c2 c'"
    using push_links [of c2 ys s] c1(2,3) by (auto simp: c2_def)
  have pay: "payload (pc_slab c' ! i) = payload (pc_slab c1 ! i)" if "i < length (pc_slab c1)" for i
    using same_content_payload [OF c'(3), of i] that by (simp add: c2_def)
  have sub: "i < length (pc_slab c1)" if "i \<in> set ys" for i using c1(1) that by (auto simp: links_def)
  have keys: "slot_key c' i = slot_key c i" if "i \<in> set ys" for i
    using pay [OF sub [OF that]] c1(8) [OF that] by (simp add: slot_key_def payload_def)
  have key_s: "slot_key c' s = pid"
    using pay [OF c1(2)] c1(7) by (simp add: slot_key_def payload_def)
  have content: "pc_index c' = pc_index c @ [(pid, s)]" "pc_free c' = pc_free c1"
      "pc_capacity c' = pc_capacity c" "length (pc_slab c') = length (pc_slab c1)"
    using c'(3) c1(6) same_content_length [OF c'(3)] by (simp_all add: same_content_def c2_def)
  have "set (pc_index c') = (\<lambda>i. (slot_key c' i, i)) ` set (ys @ [s])"
    using D(5) keys key_s content(1) by (auto simp: image_iff)
  moreover have "distinct (map fst (pc_index c'))"
    using D(4,5) new content(1) by (auto simp: image_iff)
  moreover have "distinct (map (slot_key c') (ys @ [s]))"
    using D(6) keys key_s new by (auto simp: distinct_map inj_on_def image_iff)
  ultimately have "cache_rep c' (ys @ [s])"
    using c'(2) c1(5,9,10) D(7-9) content by (simp add: cache_rep_def)
  moreover have "entries c' (ys @ [s]) = entries c ys @ [(pid, d, b)]"
    using pay sub c1(2,7,8) by (simp add: entries_def)
  ultimately show ?thesis using c'(1) content(3) by (simp add: upd c2_def)
qed

lemma insert_frame:
  fixes d :: bytes and b :: bool
  assumes rep: "cache_rep c ys" and new: "pid \<notin> slot_key c ` set ys" and room: "length ys < pc_capacity c"
  defines "fr \<equiv> \<lparr>fr_page_id = pid, fr_data = d, fr_dirty = b, fr_prev = NIL, fr_next = NIL\<rparr>"
  shows "\<exists>slot c1 c' zs.
    (if pc_free c = [] then Some (length (pc_slab c), c\<lparr>pc_slab := pc_slab c @ [fr]\<rparr>)
     else do { let slot = last (pc_free c);
               c \<leftarrow> slab_upd slot (\<lambda>_. fr) (c\<lparr>pc_free := butlast (pc_free c)\<rparr>);
               Some (slot, c) }) = Some (slot, c1) \<and>
    push_mru slot (c1\<lparr>pc_index := AList.update pid slot (pc_index c1)\<rparr>) = Some c' \<and>
    cache_rep c' zs \<and> entries c' zs = entries c ys @ [(pid, d, b)] \<and> pc_capacity c' = pc_capacity c"
proof (cases "pc_free c = []")
  note D = cache_repD [OF rep]
  case True
  let ?s = "length (pc_slab c)" and ?c1 = "c\<lparr>pc_slab := pc_slab c @ [fr]\<rparr>"
  have "length (pc_slab c) = length ys"
    using D(2,3) True distinct_card [of ys] by simp
  then have "Suc ?s \<le> pc_capacity c" using room by simp
  moreover have "dseg (pc_slab c @ [fr]) NIL ys NIL = dseg (pc_slab c) NIL ys NIL"
    using D(1) by (intro dseg_cong) (auto simp: links_def nth_append)
  then have "links ?c1 ys"
    using D(1,9) \<open>Suc ?s \<le> pc_capacity c\<close> by (auto simp: links_def)
  moreover have "i < ?s" if "i \<in> set ys" for i using D(1) that by (auto simp: links_def)
  then have "?s \<notin> set ys" "\<And>i. i \<in> set ys \<Longrightarrow> payload ((pc_slab c @ [fr]) ! i) = payload (pc_slab c ! i)"
    by (auto simp: nth_append)
  moreover have "set ys = {..<?s}" "distinct ys" using D(2,3) True by simp_all
  ultimately have "\<exists>c'. push_mru ?s (?c1\<lparr>pc_index := AList.update pid ?s (pc_index c)\<rparr>) = Some c' \<and>
      cache_rep c' (ys @ [?s]) \<and> entries c' (ys @ [?s]) = entries c ys @ [(pid, d, b)] \<and>
      pc_capacity c' = pc_capacity c"
    using True by (intro placed_rep [OF rep new]) (simp_all add: fr_def payload_def lessThan_Suc)
  then obtain c' where c': "push_mru ?s (?c1\<lparr>pc_index := AList.update pid ?s (pc_index c)\<rparr>) = Some c'"
      "cache_rep c' (ys @ [?s])" "entries c' (ys @ [?s]) = entries c ys @ [(pid, d, b)]"
      "pc_capacity c' = pc_capacity c"
    by blast
  show ?thesis
    by (rule exI [of _ ?s], rule exI [of _ ?c1], rule exI [of _ c'], rule exI [of _ "ys @ [?s]"],
      use c' True in simp)
next
  note D = cache_repD [OF rep]
  case False
  let ?s = "last (pc_free c)"
  let ?c1 = "c\<lparr>pc_free := butlast (pc_free c), pc_slab := (pc_slab c)[?s := fr]\<rparr>"
  have free: "pc_free c = butlast (pc_free c) @ [?s]" using False by simp
  then have mem: "?s \<in> set (pc_free c)" using False by simp
  then have s: "?s < length (pc_slab c)" "?s \<notin> set ys"
    using D(2,3) by auto
  have "distinct (ys @ butlast (pc_free c) @ [?s])" "set (ys @ butlast (pc_free c) @ [?s]) = {..<length (pc_slab c)}"
    using D(2,3) free by simp_all
  then have "distinct (ys @ [?s] @ butlast (pc_free c))"
      "set (ys @ [?s] @ butlast (pc_free c)) = {..<length (pc_slab c)}"
    by auto
  moreover have "links ?c1 ys"
    using D(1) s by (auto simp: links_def dseg_frame)
  moreover have "payload ((pc_slab c)[?s := fr] ! i) = payload (pc_slab c ! i)" if "i \<in> set ys" for i
    using s that by (cases "i = ?s") auto
  ultimately have "\<exists>c'. push_mru ?s (?c1\<lparr>pc_index := AList.update pid ?s (pc_index c)\<rparr>) = Some c' \<and>
      cache_rep c' (ys @ [?s]) \<and> entries c' (ys @ [?s]) = entries c ys @ [(pid, d, b)] \<and>
      pc_capacity c' = pc_capacity c"
    using s D(8) by (intro placed_rep [OF rep new]) (simp_all add: fr_def payload_def)
  then obtain c' where c': "push_mru ?s (?c1\<lparr>pc_index := AList.update pid ?s (pc_index c)\<rparr>) = Some c'"
      "cache_rep c' (ys @ [?s])" "entries c' (ys @ [?s]) = entries c ys @ [(pid, d, b)]"
      "pc_capacity c' = pc_capacity c"
    by blast
  show ?thesis
    by (rule exI [of _ ?s], rule exI [of _ ?c1], rule exI [of _ c'], rule exI [of _ "ys @ [?s]"],
      use c' False s(1) in \<open>simp add: slab_upd_def Let_def\<close>)
qed

lemma cache_put_refines:
  assumes rep: "cache_rep c xs"
  shows "\<exists>c' ys. cache_put pid d b c = Some (fst (lru_put (pc_capacity c) pid d b (entries c xs)), c') \<and>
    cache_rep c' ys \<and> entries c' ys = snd (lru_put (pc_capacity c) pid d b (entries c xs)) \<and>
    pc_capacity c' = pc_capacity c"
proof (cases "map_of (pc_index c) pid")
  case (Some x)
  then have x: "x \<in> set xs" "slot_key c x = pid" using index_lookup(1) [OF rep] by auto
  then obtain as bs where xs: "xs = as @ x # bs" by (auto simp: in_set_conv_decomp)
  have less: "x < length (pc_slab c)" using links_less(1) [OF cache_repD(1) [OF rep] x(1)] .
  let ?f = "\<lambda>f. f\<lparr>fr_data := d, fr_dirty := fr_dirty f \<or> b\<rparr>"
  define c1 where "c1 = c\<lparr>pc_slab := (pc_slab c)[x := ?f (pc_slab c ! x)]\<rparr>"
  have keys: "slot_key c1 = slot_key c"
    using less by (auto simp: slot_key_def c1_def fun_eq_iff nth_list_update)
  have "dseg (pc_slab c1) NIL xs NIL = dseg (pc_slab c) NIL xs NIL"
    using less by (intro dseg_cong) (simp add: c1_def nth_list_update)
  then have "cache_rep c1 xs"
    using rep keys unfolding cache_rep_def links_def by (simp add: c1_def)
  from touch_rep [OF this x(1)] obtain c' ys where c': "touch x c1 = Some c'" "cache_rep c' ys"
      "same_content c1 c'"
      "entries c' ys = lru_drop pid (entries c1 xs) @ [payload (pc_slab c1 ! x)]"
    using keys x(2) by auto
  have "lru_drop pid (entries c1 xs) = lru_drop pid (entries c xs)"
  proof -
    have "entries c1 (as @ bs) = entries c (as @ bs)"
    proof -
      have "pc_slab c1 ! i = pc_slab c ! i" if "i \<in> set (as @ bs)" for i
      proof -
        have "x \<noteq> i" using cache_repD(2) [OF rep] xs that by auto
        then show ?thesis by (simp add: c1_def)
      qed
      then show ?thesis by (simp add: entries_def)
    qed
    then show ?thesis
      using drop_entries(1) [of c as x bs] drop_entries(1) [of c1 as x bs] cache_repD(6) [OF rep] keys xs x(2)
      by simp
  qed
  moreover have "payload (pc_slab c1 ! x) = (pid, d, fr_dirty (pc_slab c ! x) \<or> b)"
    using less x(2) by (simp add: c1_def payload_def slot_key_def)
  moreover have "map_of (entries c xs) pid = Some (snd (payload (pc_slab c ! x)))"
    using drop_entries(2) [of c as x bs] cache_repD(6) [OF rep] xs x(2) by simp
  moreover have "slab_upd x ?f c = Some c1" using less by (simp add: slab_upd_def c1_def)
  moreover have "pc_capacity c' = pc_capacity c" using c'(3) by (simp add: same_content_def c1_def)
  ultimately show ?thesis
    using Some c' by (auto simp: cache_put_def lru_put_def payload_def)
next
  case None
  then have new: "pid \<notin> slot_key c ` set xs" using index_lookup(2) [OF rep] by simp
  then have absent: "map_of (entries c xs) pid = None" by (rule entries_None)
  obtain v c0 ys where c0: "(if cache_len c \<ge> pc_capacity c then evict_lru c else Some (None, c)) = Some (v, c0)"
      "cache_rep c0 ys" "length ys < pc_capacity c" "pc_capacity c0 = pc_capacity c"
      "lru_put (pc_capacity c) pid d b (entries c xs) = (v, entries c0 ys @ [(pid, d, b)])"
      "fst ` set (entries c0 ys) \<subseteq> fst ` set (entries c xs)"
  proof (cases "cache_len c \<ge> pc_capacity c")
    case True
    then have len: "pc_capacity c \<le> length xs" "xs \<noteq> []"
      using length_index [OF rep] cache_repD(7) [OF rep] by (auto simp: cache_len_def)
    obtain c0 where c0: "evict_lru c = Some (lru_victim (hd (entries c xs)), c0)" "cache_rep c0 (tl xs)"
        "entries c0 (tl xs) = tl (entries c xs)" "pc_capacity c0 = pc_capacity c"
      using evict_refines [OF rep len(2)] by blast
    have "length xs \<le> pc_capacity c"
      using cache_repD(2,3,8) [OF rep] distinct_card [of "xs @ pc_free c"] by simp
    then have "length xs = pc_capacity c" using len by simp
    moreover from this have "length (tl xs) < pc_capacity c" using cache_repD(7) [OF rep] by simp
    moreover have "fst ` set (tl (entries c xs)) \<subseteq> fst ` set (entries c xs)"
      by (cases "entries c xs") auto
    ultimately show ?thesis
      using c0 True len absent
      by (intro that [of "lru_victim (hd (entries c xs))" c0 "tl xs"]) (simp_all add: lru_put_def)
  next
    case False
    then show ?thesis
      using that [of None c xs] rep length_index [OF rep] absent by (auto simp: cache_len_def lru_put_def)
  qed
  have "slot_key c0 ` set ys = fst ` set (entries c0 ys)" "slot_key c ` set xs = fst ` set (entries c xs)"
    by (auto simp: entries_def slot_key_def image_iff)
  then have "pid \<notin> slot_key c0 ` set ys" using new c0(6) by auto
  from insert_frame [OF c0(2) this, of d b] c0 None show ?thesis
    by (fastforce simp: cache_put_def)
qed

lemma cache_new_rep:
  assumes "cap \<le> NIL"
  shows "cache_rep (cache_new cap) []" "pc_capacity (cache_new cap) = max cap 1"
  using assms by (auto simp: cache_rep_def cache_new_def links_def NIL_def)

lemma cache_clear_rep:
  assumes "cache_rep c xs"
  shows "cache_rep (cache_clear c) []" "pc_capacity (cache_clear c) = pc_capacity c"
  using cache_repD [OF assms] by (auto simp: cache_rep_def cache_clear_def links_def)

section \<open>What the storage backend relies on\<close>

text \<open>
  The backend never looks at the recency order, and puts only clean pages (it writes through to the
  log). It relies on this: a hit returns what was put last for that page, an operation on one page
  never changes what is cached for another (at most it drops it), a clean put into a cache of clean
  pages hands back no victim, and a cleared cache holds nothing.
\<close>

locale bounded_cache =
  fixes ok :: "'c \<Rightarrow> bool"
    and holds :: "'c \<Rightarrow> u32 \<Rightarrow> bytes option"
    and get :: "u32 \<Rightarrow> 'c \<Rightarrow> (bytes option \<times> 'c) option"
    and put :: "u32 \<Rightarrow> bytes \<Rightarrow> bool \<Rightarrow> 'c \<Rightarrow> (dirty_victim option \<times> 'c) option"
    and clear :: "'c \<Rightarrow> 'c"
  assumes get_law: "ok c \<Longrightarrow> \<exists>c'. get p c = Some (holds c p, c') \<and> ok c' \<and> holds c' = holds c"
    and put_law: "ok c \<Longrightarrow> \<exists>c'. put p d False c = Some (None, c') \<and> ok c' \<and>
      holds c' p = Some d \<and> holds c' \<subseteq>\<^sub>m (holds c)(p \<mapsto> d)"
    and clear_law: "ok c \<Longrightarrow> ok (clear c) \<and> holds (clear c) = Map.empty"
begin

text \<open>A coherent cache holds nothing but what the pages are.\<close>

definition coherent :: "'c \<Rightarrow> (u32 \<Rightarrow> bytes option) \<Rightarrow> bool" where
  "coherent c view \<longleftrightarrow> ok c \<and> holds c \<subseteq>\<^sub>m view"

lemma get_hit:
  assumes "coherent c view" "holds c p = Some d"
  shows "\<exists>c'. get p c = Some (Some d, c') \<and> coherent c' view \<and> view p = Some d"
  using assms get_law [of c p] by (auto simp: coherent_def map_le_def dom_def)

lemma get_miss:
  assumes "coherent c view" "holds c p = None"
  shows "\<exists>c'. get p c = Some (None, c') \<and> coherent c' view"
  using assms get_law [of c p] by (auto simp: coherent_def)

lemma get_any:
  assumes "coherent c view"
  obtains (hit) d c' where "get p c = Some (Some d, c')" "coherent c' view" "view p = Some d"
    | (miss) c' where "get p c = Some (None, c')" "coherent c' view"
  using get_hit [OF assms] get_miss [OF assms] by (cases "holds c p") blast+

lemma map_le_upd_both: "m \<subseteq>\<^sub>m n(p \<mapsto> d) \<Longrightarrow> n \<subseteq>\<^sub>m v \<Longrightarrow> m \<subseteq>\<^sub>m v(p \<mapsto> d)"
  by (force simp: map_le_def dom_def split: if_splits)

lemma put_write:
  assumes "coherent c view"
  shows "\<exists>c'. put p d False c = Some (None, c') \<and> coherent c' (view(p \<mapsto> d))"
  using assms put_law [of c p d] map_le_upd_both [of _ "holds c" p d view]
  by (auto simp: coherent_def)

lemma put_load:
  assumes "coherent c view" "view p = Some d"
  shows "\<exists>c'. put p d False c = Some (None, c') \<and> coherent c' view"
  using put_write [OF assms(1), of p d] assms(2) by (simp add: fun_upd_idem)

lemma coherent_mono: "coherent c view \<Longrightarrow> view \<subseteq>\<^sub>m view' \<Longrightarrow> coherent c view'"
  unfolding coherent_def using map_le_trans by blast

lemma coherent_ok: "coherent c view \<Longrightarrow> ok c"
  by (simp add: coherent_def)

lemma clear_coherent: "ok c \<Longrightarrow> coherent (clear c) view"
  using clear_law [of c] by (simp add: coherent_def)

end

definition cache_ok :: "page_cache \<Rightarrow> bool" where
  "cache_ok c \<longleftrightarrow> (\<exists>xs. cache_rep c xs)"

definition cache_holds :: "page_cache \<Rightarrow> u32 \<Rightarrow> bytes option" where
  "cache_holds c pid = map_option (\<lambda>s. fr_data (pc_slab c ! s)) (map_of (pc_index c) pid)"

lemma cache_holds_entries:
  assumes "cache_rep c xs"
  shows "cache_holds c pid = map_option fst (map_of (entries c xs) pid)"
proof (cases "map_of (pc_index c) pid")
  case None
  then show ?thesis
    using entries_None [of pid c xs] index_lookup(2) [OF assms] by (simp add: cache_holds_def)
next
  case (Some x)
  then have x: "x \<in> set xs" "slot_key c x = pid" using index_lookup(1) [OF assms] by auto
  then obtain as bs where xs: "xs = as @ x # bs" by (auto simp: in_set_conv_decomp)
  show ?thesis
    using Some drop_entries(2) [of c as x bs] cache_repD(6) [OF assms] xs x(2)
    by (simp add: cache_holds_def payload_def)
qed

lemma map_of_drop: "map_of (lru_drop pid l) = (map_of l)(pid := None)"
  unfolding lru_drop_def by (induction l) (auto simp: fun_eq_iff)

lemma distinct_entries:
  assumes "cache_rep c xs"
  shows "distinct (map fst (entries c xs))"
  using cache_repD(6) [OF assms] by (simp add: entries_def slot_key_def [abs_def] comp_def)

lemma lru_get_content: "map_of (snd (lru_get pid l)) = map_of l" "fst (lru_get pid l) = map_option fst (map_of l pid)"
  by (auto simp: lru_get_def map_of_drop map_add_def fun_eq_iff split: option.splits)

lemma lru_put_content:
  assumes "distinct (map fst l)"
  shows "map_option fst (map_of (snd (lru_put cap pid d b l)) pid) = Some d"
    "q \<noteq> pid \<Longrightarrow> map_of (snd (lru_put cap pid d b l)) q \<in> {None, map_of l q}"
proof -
  have tl: "map_of (tl l) q \<in> {None, map_of l q}" for q
    using assms by (cases l) (auto simp: map_of_eq_None_iff)
  have tl_None: "map_of l pid = None \<Longrightarrow> map_of (tl l) pid = None"
    using tl [of pid] by auto
  show "map_option fst (map_of (snd (lru_put cap pid d b l)) pid) = Some d"
    using tl_None by (auto simp: lru_put_def map_of_drop map_add_def split: option.splits)
  show "q \<noteq> pid \<Longrightarrow> map_of (snd (lru_put cap pid d b l)) q \<in> {None, map_of l q}"
    using tl [of q] by (auto simp: lru_put_def map_of_drop map_add_def split: option.splits)
qed

lemma cache_get_law:
  assumes "cache_ok c"
  shows "\<exists>c'. cache_get p c = Some (cache_holds c p, c') \<and> cache_ok c' \<and> cache_holds c' = cache_holds c"
proof -
  obtain xs where rep: "cache_rep c xs" using assms by (auto simp: cache_ok_def)
  from cache_get_refines [OF rep, of p] show ?thesis
    using rep by (force simp: cache_ok_def fun_eq_iff cache_holds_entries lru_get_content)
qed

lemma cache_put_law:
  assumes "cache_ok c"
  shows "\<exists>v c'. cache_put p d b c = Some (v, c') \<and> cache_ok c' \<and>
    cache_holds c' p = Some d \<and> cache_holds c' \<subseteq>\<^sub>m (cache_holds c)(p \<mapsto> d)"
proof -
  obtain xs where rep: "cache_rep c xs" using assms by (auto simp: cache_ok_def)
  obtain v c' ys where c': "cache_put p d b c = Some (v, c')" "cache_rep c' ys"
      "entries c' ys = snd (lru_put (pc_capacity c) p d b (entries c xs))"
    using cache_put_refines [OF rep, of p d b] by blast
  note content = lru_put_content [OF distinct_entries [OF rep], where cap = "pc_capacity c" and pid = p and d = d and b = b]
  have p: "cache_holds c' p = Some d"
    using content(1) c'(2,3) by (simp add: cache_holds_entries)
  have "cache_holds c' q = None \<or> cache_holds c' q = cache_holds c q" if "q \<noteq> p" for q
    using content(2) [OF that] c'(2,3) rep by (auto simp: cache_holds_entries)
  then have "cache_holds c' \<subseteq>\<^sub>m (cache_holds c)(p \<mapsto> d)"
    using p by (force simp: map_le_def)
  then show ?thesis using c' p by (auto simp: cache_ok_def)
qed

lemma cache_clear_law: "cache_ok c \<Longrightarrow> cache_ok (cache_clear c) \<and> cache_holds (cache_clear c) = Map.empty"
  using cache_clear_rep(1) by (auto simp: cache_ok_def cache_holds_def cache_clear_def fun_eq_iff)

text \<open>A cache whose pages are all clean.\<close>

definition cache_clean :: "page_cache \<Rightarrow> bool" where
  "cache_clean c \<longleftrightarrow> (\<exists>xs. cache_rep c xs \<and> (\<forall>e \<in> set (entries c xs). \<not> snd (snd e)))"

lemma clean_ok: "cache_clean c \<Longrightarrow> cache_ok c"
  by (auto simp: cache_clean_def cache_ok_def)

lemma lru_drop_sub: "set (lru_drop p l) \<subseteq> set l"
  by (auto simp: lru_drop_def)

lemma cache_get_clean:
  assumes "cache_clean c"
  shows "\<exists>c'. cache_get p c = Some (cache_holds c p, c') \<and> cache_clean c' \<and> cache_holds c' = cache_holds c"
proof -
  obtain xs where rep: "cache_rep c xs" and clean: "\<forall>e \<in> set (entries c xs). \<not> snd (snd e)"
    using assms by (auto simp: cache_clean_def)
  obtain c' ys where c': "cache_get p c = Some (fst (lru_get p (entries c xs)), c')" "cache_rep c' ys"
      "entries c' ys = snd (lru_get p (entries c xs))"
    using cache_get_refines [OF rep, of p] by blast
  have "set (entries c' ys) \<subseteq> set (entries c xs)"
    using lru_drop_sub [of p "entries c xs"] unfolding c'(3)
    by (auto simp: lru_get_def split: option.splits dest: map_of_SomeD)
  then have "cache_clean c'" using c'(2) clean unfolding cache_clean_def by blast
  moreover have "\<exists>c'. cache_get p c = Some (cache_holds c p, c') \<and> cache_ok c' \<and> cache_holds c' = cache_holds c"
    using cache_get_law [OF clean_ok [OF assms]] .
  ultimately show ?thesis using c'(1) by auto
qed

lemma cache_put_clean:
  assumes "cache_clean c"
  shows "\<exists>c'. cache_put p d False c = Some (None, c') \<and> cache_clean c' \<and>
    cache_holds c' p = Some d \<and> cache_holds c' \<subseteq>\<^sub>m (cache_holds c)(p \<mapsto> d)"
proof -
  obtain xs where rep: "cache_rep c xs" and clean: "\<forall>e \<in> set (entries c xs). \<not> snd (snd e)"
    using assms by (auto simp: cache_clean_def)
  let ?put = "lru_put (pc_capacity c) p d False (entries c xs)"
  obtain c' ys where c': "cache_put p d False c = Some (fst ?put, c')" "cache_rep c' ys" "entries c' ys = snd ?put"
    using cache_put_refines [OF rep, of p d False] by blast
  have tl: "set (tl (entries c xs)) \<subseteq> set (entries c xs)" by (cases "entries c xs") auto
  have "\<forall>e \<in> set (snd ?put). \<not> snd (snd e)"
  proof (cases "map_of (entries c xs) p")
    case None
    then show ?thesis using clean tl by (auto simp: lru_put_def)
  next
    case (Some e)
    then have "(p, e) \<in> set (entries c xs)" by (rule map_of_SomeD)
    then show ?thesis
      using Some clean lru_drop_sub [of p "entries c xs"] by (cases e) (auto simp: lru_put_def)
  qed
  then have "cache_clean c'" unfolding cache_clean_def c'(3) [symmetric] using c'(2) by (intro exI [of _ ys]) simp
  moreover have "fst ?put = None"
  proof (cases "entries c xs")
    case Nil
    then show ?thesis using cache_repD(7) [OF rep] by (simp add: lru_put_def)
  next
    case (Cons e es)
    then have "\<not> snd (snd (hd (entries c xs)))" using clean by simp
    then show ?thesis by (auto simp: lru_put_def lru_victim_def split: option.splits prod.splits)
  qed
  moreover have "\<exists>v c'. cache_put p d False c = Some (v, c') \<and> cache_ok c' \<and>
      cache_holds c' p = Some d \<and> cache_holds c' \<subseteq>\<^sub>m (cache_holds c)(p \<mapsto> d)"
    using cache_put_law [OF clean_ok [OF assms]] .
  ultimately show ?thesis using c'(1) by auto
qed

lemma cache_clear_clean: "cache_clean c \<Longrightarrow> cache_clean (cache_clear c) \<and> cache_holds (cache_clear c) = Map.empty"
  using cache_clear_rep(1) cache_clear_law [OF clean_ok] unfolding cache_clean_def by fastforce

interpretation lru_cache: bounded_cache cache_clean cache_holds cache_get cache_put cache_clear
  by unfold_locales (simp_all add: cache_get_clean cache_put_clean cache_clear_clean)

lemma cache_new_clean: "cap \<le> NIL \<Longrightarrow> cache_clean (cache_new cap)"
  using cache_new_rep(1) [of cap] unfolding cache_clean_def by fastforce

lemma cache_new_ok: "cap \<le> NIL \<Longrightarrow> cache_ok (cache_new cap)" "cache_holds (cache_new cap) = Map.empty"
  using cache_new_rep(1) [of cap] by (auto simp: cache_ok_def cache_holds_def cache_new_def fun_eq_iff)

section \<open>Traces\<close>

text \<open>A sequence of calls on a cache, and on the recency list that specifies it.\<close>

datatype cache_call = CGet u32 | CPut u32 bytes bool | CRemove u32 | CClear

datatype cache_reply = Found "bytes option" | Victim "dirty_victim option" | Done

fun cache_step :: "cache_call \<Rightarrow> page_cache \<Rightarrow> (cache_reply \<times> page_cache) option" where
  "cache_step (CGet p) c = map_option (\<lambda>(r, c). (Found r, c)) (cache_get p c)"
| "cache_step (CPut p d b) c = map_option (\<lambda>(v, c). (Victim v, c)) (cache_put p d b c)"
| "cache_step (CRemove p) c = map_option (\<lambda>c. (Done, c)) (cache_remove p c)"
| "cache_step CClear c = Some (Done, cache_clear c)"

fun lru_step :: "nat \<Rightarrow> cache_call \<Rightarrow> lru \<Rightarrow> cache_reply \<times> lru" where
  "lru_step cap (CGet p) l = (Found (fst (lru_get p l)), snd (lru_get p l))"
| "lru_step cap (CPut p d b) l = (Victim (fst (lru_put cap p d b l)), snd (lru_put cap p d b l))"
| "lru_step cap (CRemove p) l = (Done, lru_drop p l)"
| "lru_step cap CClear l = (Done, [])"

fun cache_run :: "cache_call list \<Rightarrow> page_cache \<Rightarrow> (cache_reply list \<times> page_cache) option" where
  "cache_run [] c = Some ([], c)"
| "cache_run (k # ks) c = do { (r, c) \<leftarrow> cache_step k c; (rs, c) \<leftarrow> cache_run ks c; Some (r # rs, c) }"

fun lru_run :: "nat \<Rightarrow> cache_call list \<Rightarrow> lru \<Rightarrow> cache_reply list \<times> lru" where
  "lru_run cap [] l = ([], l)"
| "lru_run cap (k # ks) l =
     (let (r, l) = lru_step cap k l; (rs, l) = lru_run cap ks l in (r # rs, l))"

lemma cache_step_refines:
  assumes rep: "cache_rep c xs"
  shows "\<exists>c' ys. cache_step k c = Some (fst (lru_step (pc_capacity c) k (entries c xs)), c') \<and>
    cache_rep c' ys \<and> entries c' ys = snd (lru_step (pc_capacity c) k (entries c xs)) \<and>
    pc_capacity c' = pc_capacity c"
proof (cases k)
  case (CGet p)
  then show ?thesis using cache_get_refines [OF rep, of p] by fastforce
next
  case (CPut p d b)
  then show ?thesis using cache_put_refines [OF rep, of p d b] by fastforce
next
  case (CRemove p)
  then show ?thesis using cache_remove_refines [OF rep, of p] by fastforce
next
  case CClear
  then show ?thesis using cache_clear_rep [OF rep] by fastforce
qed

lemma cache_run_refines:
  assumes "cache_rep c xs"
  shows "\<exists>c' ys. cache_run ks c = Some (fst (lru_run (pc_capacity c) ks (entries c xs)), c') \<and>
    cache_rep c' ys \<and> entries c' ys = snd (lru_run (pc_capacity c) ks (entries c xs)) \<and>
    pc_capacity c' = pc_capacity c"
  using assms
proof (induction ks arbitrary: c xs)
  case Nil
  then show ?case by auto
next
  case (Cons k ks)
  obtain c1 ys where step: "cache_step k c = Some (fst (lru_step (pc_capacity c) k (entries c xs)), c1)"
      "cache_rep c1 ys" "entries c1 ys = snd (lru_step (pc_capacity c) k (entries c xs))"
      "pc_capacity c1 = pc_capacity c"
    using cache_step_refines [OF Cons.prems, of k] by blast
  from Cons.IH [OF step(2)] obtain c2 zs where
      "cache_run ks c1 = Some (fst (lru_run (pc_capacity c) ks (entries c1 ys)), c2)" "cache_rep c2 zs"
      "entries c2 zs = snd (lru_run (pc_capacity c) ks (entries c1 ys))" "pc_capacity c2 = pc_capacity c"
    unfolding step(4) by blast
  then show ?case
    using step by (intro exI [of _ c2] exI [of _ zs]) (simp add: case_prod_beta Let_def)
qed

lemma cache_len_entries: "cache_rep c xs \<Longrightarrow> cache_len c = length (entries c xs) \<and> cache_len c \<le> pc_capacity c"
  using length_index [of c xs] cache_repD(2,3,8) [of c xs] distinct_card [of "xs @ pc_free c"]
  by (simp add: cache_len_def)

text \<open>
  C28: the cache is an LRU cache, on every sequence of calls. From a new cache of any capacity, no
  call panics (no slab index is ever out of range, in \<open>get\<close>, \<open>put\<close>, \<open>remove\<close> or the
  eviction), the replies (the bytes of a hit, the misses, the dirty victim handed back by a put) are
  those of the recency-list specification with capacity \<open>max(capacity, 1)\<close>, the number of cached
  pages is the length of that list, and it never exceeds the capacity.
\<close>

theorem cache_trace_is_lru:
  fixes capacity :: u64 and calls :: "cache_call list"
  defines "cap \<equiv> max (unat capacity) 1"
  shows "\<exists>c. cache_run calls (cache_new (unat capacity)) = Some (fst (lru_run cap calls []), c) \<and>
    cache_len c = length (snd (lru_run cap calls [])) \<and> cache_len c \<le> cap \<and>
    (\<forall>pid. cache_holds c pid = map_option fst (map_of (snd (lru_run cap calls [])) pid))"
proof -
  have "unat capacity \<le> NIL" using unsigned_less [of capacity, where ?'a = nat] by (simp add: NIL_def)
  note new = cache_new_rep [OF this]
  from cache_run_refines [OF new(1), of calls] show ?thesis
    using cache_len_entries cache_holds_entries new(2) by (fastforce simp: cap_def)
qed

text \<open>
  What a hit returns. In a cache reached by any calls, a page just put is found with the bytes
  put, whatever was evicted to make room; the entry for any other page is unchanged or was evicted;
  looking a page up changes no content.
\<close>

theorem cache_put_then_get:
  assumes "cache_ok c"
  shows "\<exists>v c1 c2. cache_put p d b c = Some (v, c1) \<and> cache_get p c1 = Some (Some d, c2) \<and>
    cache_ok c2 \<and> cache_holds c2 = cache_holds c1 \<and>
    (\<forall>q. q \<noteq> p \<longrightarrow> cache_holds c1 q \<in> {None, cache_holds c q})"
proof -
  obtain v c1 where c1: "cache_put p d b c = Some (v, c1)" "cache_ok c1" "cache_holds c1 p = Some d"
      "cache_holds c1 \<subseteq>\<^sub>m (cache_holds c)(p \<mapsto> d)"
    using cache_put_law [OF assms, of p d b] by blast
  have "cache_holds c1 q \<in> {None, cache_holds c q}" if "q \<noteq> p" for q
    using c1(4) that by (cases "cache_holds c1 q") (force simp: map_le_def dom_def)+
  then show ?thesis using c1 cache_get_law [OF c1(2), of p] by force
qed

theorem cache_put_then_get_witness:
  "\<exists>v c1 c2. cache_put 7 [1, 2] True (cache_new 2) = Some (v, c1) \<and> cache_get 7 c1 = Some (Some [1, 2], c2) \<and>
    cache_ok c2 \<and> cache_holds c2 = cache_holds c1 \<and>
    (\<forall>q. q \<noteq> 7 \<longrightarrow> cache_holds c1 q \<in> {None, cache_holds (cache_new 2) q})"
  by (rule cache_put_then_get) (simp add: cache_new_ok NIL_def)

end
