(* ===== verification/Wal.thy ===== *)
theory Wal
  imports Page
begin

text \<open>
  The write-ahead log of \<^verbatim>\<open>storage/wal.rs\<close>. The log file and the database file are byte
  arrays; \<open>read_exact\<close>, \<open>write_all\<close> at a seek position and \<open>set_len\<close> are modelled on them,
  the operating system never failing otherwise (a short read is the end-of-file error of the
  standard library). The in-memory index is the association list of the page numbers to offsets.

  The abstract log is the list of the \<open>(page number, bytes)\<close> pairs written since the last checkpoint.
  The lemmas show that the open, read, write, checkpoint and truncate operations implement it, and
  what recovery finds in any byte array, a torn last entry included.
\<close>

section \<open>Files\<close>

definition file_read_exact :: "nat \<Rightarrow> nat \<Rightarrow> bytes \<Rightarrow> bytes res" where
  "file_read_exact off n f =
     (if off + n \<le> length f then Ok (get_bytes off n f) else Err (IoError UnexpectedEof))"

definition file_write_all :: "nat \<Rightarrow> bytes \<Rightarrow> bytes \<Rightarrow> bytes" where
  "file_write_all off xs f = put_bytes off xs (f @ replicate (off + length xs - length f) 0)"

definition file_set_len :: "nat \<Rightarrow> bytes \<Rightarrow> bytes" where
  "file_set_len n f = take n f @ replicate (n - length f) 0"

lemma length_file_write_all [simp]: "length (file_write_all off xs f) = max (length f) (off + length xs)"
  by (simp add: file_write_all_def)

lemma length_file_set_len [simp]: "length (file_set_len n f) = n"
  by (simp add: file_set_len_def)

lemma get_file_write_same: "n = length xs \<Longrightarrow> get_bytes off n (file_write_all off xs f) = xs"
  by (simp add: file_write_all_def get_put_same)

lemma get_bytes_append1: "off + n \<le> length f \<Longrightarrow> get_bytes off n (f @ g) = get_bytes off n f"
  by (simp add: get_bytes_def)

lemma get_bytes_append2: "length f \<le> off \<Longrightarrow> get_bytes off n (f @ g) = get_bytes (off - length f) n g"
  by (simp add: get_bytes_def)

lemma get_file_write_other:
  assumes "o' + n \<le> length f" "o' + n \<le> off \<or> off + length xs \<le> o'"
  shows "get_bytes o' n (file_write_all off xs f) = get_bytes o' n f"
  using assms by (simp add: file_write_all_def get_put_disjoint get_bytes_append1)

lemma take_file_write: "n \<le> off \<Longrightarrow> n \<le> length f \<Longrightarrow> take n (file_write_all off xs f) = take n f"
  by (simp add: file_write_all_def put_bytes_def)

section \<open>The log file\<close>

definition WAL_ENTRY_SIZE :: nat where
  "WAL_ENTRY_SIZE = 4 + 4 + PAGE_SIZE"

definition checksum :: "u32 \<Rightarrow> bytes \<Rightarrow> u32" where
  "checksum pid d = fold (\<lambda>b sum. sum + ucast b) d pid"

record wal_file =
  wal_bytes :: bytes
  wal_offsets :: "(u32 \<times> nat) list"
  wal_len :: nat

definition wal_entry :: "u32 \<Rightarrow> bytes \<Rightarrow> bytes" where
  "wal_entry pid d =
     write_fields [(0, le32 pid), (4, le32 (checksum pid d)), (8, d)] (replicate WAL_ENTRY_SIZE 0)"

function load_loop :: "bytes \<Rightarrow> nat \<Rightarrow> (u32 \<times> nat) list \<Rightarrow> (u32 \<times> nat) list \<times> nat" where
  "load_loop f offset offsets =
     (case file_read_exact offset WAL_ENTRY_SIZE f of
        Inl _ \<Rightarrow> (offsets, offset)
      | Inr entry \<Rightarrow>
          let pid = get32 0 entry; stored = get32 4 entry; d = get_bytes 8 PAGE_SIZE entry in
          if stored \<noteq> checksum pid d then (offsets, offset)
          else load_loop f (offset + WAL_ENTRY_SIZE) (AList.update pid offset offsets))"
  by pat_completeness auto
termination
  by (relation "measure (\<lambda>(f, offset, _). length f - offset)")
    (auto simp: file_read_exact_def WAL_ENTRY_SIZE_def split: if_splits)

definition load_index :: "wal_file \<Rightarrow> wal_file" where
  "load_index w =
     (case load_loop (wal_bytes w) 0 (wal_offsets w) of
        (offsets, len) \<Rightarrow> w\<lparr>wal_offsets := offsets, wal_len := len\<rparr>)"

definition wal_open :: "bytes \<Rightarrow> wal_file" where
  "wal_open f = load_index \<lparr>wal_bytes = f, wal_offsets = [], wal_len = 0\<rparr>"

definition wal_contains :: "u32 \<Rightarrow> wal_file \<Rightarrow> bool" where
  "wal_contains pid w \<longleftrightarrow> map_of (wal_offsets w) pid \<noteq> None"

definition wal_read :: "u32 \<Rightarrow> wal_file \<Rightarrow> bytes option res" where
  "wal_read pid w =
     (case map_of (wal_offsets w) pid of
        None \<Rightarrow> Ok None
      | Some offset \<Rightarrow>
          try_res (file_read_exact offset WAL_ENTRY_SIZE (wal_bytes w))
            (\<lambda>entry. Ok (Some (get_bytes 8 (WAL_ENTRY_SIZE - 8) entry))))"

definition wal_write :: "u32 \<Rightarrow> bytes \<Rightarrow> wal_file \<Rightarrow> wal_file" where
  "wal_write pid d w =
     (let offset = wal_len w in
      w\<lparr>wal_bytes := file_write_all offset (wal_entry pid d) (wal_bytes w),
        wal_offsets := AList.update pid offset (wal_offsets w),
        wal_len := offset + WAL_ENTRY_SIZE\<rparr>)"

definition wal_is_empty :: "wal_file \<Rightarrow> bool" where
  "wal_is_empty w \<longleftrightarrow> wal_offsets w = []"

definition wal_page_ids :: "wal_file \<Rightarrow> u32 list" where
  "wal_page_ids w = map fst (wal_offsets w)"

definition wal_current_len :: "wal_file \<Rightarrow> nat" where
  "wal_current_len w = wal_len w"

fun checkpoint_loop :: "(u32 \<times> nat) list \<Rightarrow> bytes \<Rightarrow> bytes \<Rightarrow> unit res \<times> bytes" where
  "checkpoint_loop [] f db = (Ok (), db)"
| "checkpoint_loop ((pid, offset) # es) f db =
     (case file_read_exact offset WAL_ENTRY_SIZE f of
        Inl e \<Rightarrow> (Inl e, db)
      | Inr entry \<Rightarrow>
          checkpoint_loop es f
            (file_write_all (unat pid * PAGE_SIZE) (get_bytes 8 (WAL_ENTRY_SIZE - 8) entry) db))"

definition wal_checkpoint :: "wal_file \<Rightarrow> bytes \<Rightarrow> unit res \<times> wal_file \<times> bytes" where
  "wal_checkpoint w db =
     (case checkpoint_loop (wal_offsets w) (wal_bytes w) db of
        (Inl e, db) \<Rightarrow> (Inl e, w, db)
      | (Inr _, db) \<Rightarrow>
          (Ok (), w\<lparr>wal_bytes := file_set_len 0 (wal_bytes w), wal_offsets := [], wal_len := 0\<rparr>, db))"

definition truncate_to :: "nat \<Rightarrow> wal_file \<Rightarrow> wal_file" where
  "truncate_to target_len w =
     load_index (w\<lparr>wal_bytes := file_set_len target_len (wal_bytes w), wal_offsets := [], wal_len := 0\<rparr>)"

text \<open>A path: its directory and its last component, if it has one.\<close>

record path =
  path_dir :: string
  path_name :: "string option"

definition wal_path :: "path \<Rightarrow> path" where
  "wal_path p = p\<lparr>path_name := Some (case path_name p of Some n \<Rightarrow> n @ ''-wal'' | None \<Rightarrow> ''db-wal'')\<rparr>"

section \<open>The abstract log\<close>

type_synonym log = "(u32 \<times> bytes) list"

definition enc :: "u32 \<times> bytes \<Rightarrow> bytes" where
  "enc e = le32 (fst e) @ le32 (checksum (fst e) (snd e)) @ snd e"

abbreviation enc_log :: "log \<Rightarrow> bytes" where
  "enc_log log \<equiv> concat (map enc log)"

definition log_ok :: "log \<Rightarrow> bool" where
  "log_ok log \<longleftrightarrow> (\<forall>e \<in> set log. length (snd e) = PAGE_SIZE)"

text \<open>The last bytes logged for a page.\<close>

definition latest :: "log \<Rightarrow> u32 \<Rightarrow> bytes option" where
  "latest log = map_of (rev log)"

lemma latest_simps [simp]: "latest [] = Map.empty" "latest (log @ [(p, d)]) = (latest log)(p \<mapsto> d)"
  by (simp_all add: latest_def fun_eq_iff)

lemma log_ok_simps [simp]: "log_ok []" "log_ok (e # l) \<longleftrightarrow> length (snd e) = PAGE_SIZE \<and> log_ok l"
  "log_ok (l @ l') \<longleftrightarrow> log_ok l \<and> log_ok l'"
  by (auto simp: log_ok_def)

lemma latest_length: "log_ok log \<Longrightarrow> latest log p = Some d \<Longrightarrow> length d = PAGE_SIZE"
  by (fastforce simp: log_ok_def latest_def dest: map_of_SomeD)

lemma wal_entry_enc: "length d = PAGE_SIZE \<Longrightarrow> wal_entry p d = enc (p, d)"
  by (simp add: wal_entry_def put_bytes_def WAL_ENTRY_SIZE_def enc_def)

lemma length_enc [simp]: "length (snd e) = PAGE_SIZE \<Longrightarrow> length (enc e) = WAL_ENTRY_SIZE"
  by (simp add: WAL_ENTRY_SIZE_def enc_def)

lemma length_enc_log: "log_ok log \<Longrightarrow> length (enc_log log) = WAL_ENTRY_SIZE * length log"
  by (induction log) auto

lemma enc_fields:
  assumes "length (snd e) = PAGE_SIZE"
  shows "get_bytes 0 4 (enc e @ r) = le32 (fst e)" "get_bytes 4 4 (enc e @ r) = le32 (checksum (fst e) (snd e))"
    "get_bytes 8 PAGE_SIZE (enc e @ r) = snd e"
  using assms by (simp_all add: get_bytes_def enc_def)

lemma enc_log_slice:
  assumes "log_ok log" "i < length log"
  shows "get_bytes (WAL_ENTRY_SIZE * i) WAL_ENTRY_SIZE (enc_log log @ r) = enc (log ! i)"
  using assms
proof (induction log arbitrary: i)
  case (Cons e log)
  have len: "length (enc e) = WAL_ENTRY_SIZE" using Cons.prems by simp
  show ?case
  proof (cases i)
    case 0
    then show ?thesis using len by (simp add: get_bytes_def)
  next
    case (Suc j)
    have "get_bytes (WAL_ENTRY_SIZE * i) WAL_ENTRY_SIZE (enc e @ enc_log log @ r) =
        get_bytes (WAL_ENTRY_SIZE * j) WAL_ENTRY_SIZE (enc_log log @ r)"
      using Suc len by (simp add: get_bytes_append2)
    then show ?thesis using Cons.IH [of j] Cons.prems Suc by simp
  qed
qed simp

text \<open>The index of a log: where the last entry for each page starts.\<close>

fun offsets_from :: "nat \<Rightarrow> log \<Rightarrow> (u32 \<times> nat) list \<Rightarrow> (u32 \<times> nat) list" where
  "offsets_from k [] al = al"
| "offsets_from k ((p, _) # log) al = offsets_from (Suc k) log (AList.update p (WAL_ENTRY_SIZE * k) al)"

lemma offsets_from_snoc:
  "offsets_from k (log @ [(p, d)]) al = AList.update p (WAL_ENTRY_SIZE * (k + length log)) (offsets_from k log al)"
  by (induction k log al rule: offsets_from.induct) auto

lemma offsets_distinct: "distinct (map fst al) \<Longrightarrow> distinct (map fst (offsets_from k log al))"
  by (induction k log al rule: offsets_from.induct) (auto simp: distinct_update)

lemma offsets_Some:
  assumes "map_of (offsets_from 0 log []) p = Some off"
  shows "\<exists>i < length log. off = WAL_ENTRY_SIZE * i \<and> fst (log ! i) = p \<and> latest log p = Some (snd (log ! i))"
  using assms
proof (induction log rule: rev_induct)
  case (snoc e log)
  obtain q d where e: "e = (q, d)" by force
  show ?case
  proof (cases "q = p")
    case True
    then show ?thesis using snoc.prems
      by (auto simp: e offsets_from_snoc update_conv' intro!: exI [of _ "length log"])
  next
    case False
    then obtain i where "i < length log" "off = WAL_ENTRY_SIZE * i" "fst (log ! i) = p" "latest log p = Some (snd (log ! i))"
      using snoc by (auto simp: e offsets_from_snoc update_conv')
    then show ?thesis using False by (auto simp: e nth_append intro!: exI [of _ i])
  qed
qed simp

lemma offsets_None: "map_of (offsets_from 0 log []) p = None \<longleftrightarrow> latest log p = None"
proof (induction log rule: rev_induct)
  case (snoc e log)
  obtain q d where "e = (q, d)" by force
  then show ?case using snoc by (simp add: offsets_from_snoc update_conv')
qed simp

section \<open>The log file implements it\<close>

definition wal_rep :: "wal_file \<Rightarrow> log \<Rightarrow> bool" where
  "wal_rep w log \<longleftrightarrow> log_ok log \<and> wal_len w = WAL_ENTRY_SIZE * length log \<and>
     (\<exists>rest. wal_bytes w = enc_log log @ rest) \<and> wal_offsets w = offsets_from 0 log []"

lemma read_entry_rep:
  assumes "wal_rep w log" "map_of (wal_offsets w) p = Some off"
  shows "\<exists>d. file_read_exact off WAL_ENTRY_SIZE (wal_bytes w) = Ok (enc (p, d)) \<and> latest log p = Some d \<and>
    length d = PAGE_SIZE"
proof -
  obtain i where i: "i < length log" "off = WAL_ENTRY_SIZE * i" "fst (log ! i) = p" "latest log p = Some (snd (log ! i))"
    using offsets_Some [of log p off] assms by (auto simp: wal_rep_def)
  obtain rest where rest: "wal_bytes w = enc_log log @ rest" "log_ok log" using assms by (auto simp: wal_rep_def)
  have "WAL_ENTRY_SIZE * Suc i \<le> WAL_ENTRY_SIZE * length log" using i by (intro mult_le_mono2) simp
  then have "off + WAL_ENTRY_SIZE \<le> length (wal_bytes w)"
    using i rest by (simp add: length_enc_log)
  moreover have "enc (log ! i) = enc (p, snd (log ! i))" using i by (simp add: enc_def)
  moreover have "length (snd (log ! i)) = PAGE_SIZE" using rest(2) i(1) by (simp add: log_ok_def)
  ultimately show ?thesis
    using enc_log_slice [OF rest(2) i(1), of rest] i rest(1)
    by (intro exI [of _ "snd (log ! i)"]) (simp add: file_read_exact_def)
qed

lemma enc_payload: "length d = PAGE_SIZE \<Longrightarrow> get_bytes 8 (WAL_ENTRY_SIZE - 8) (enc (p, d)) = d"
  by (simp add: get_bytes_def WAL_ENTRY_SIZE_def enc_def)

lemma wal_read_rep:
  assumes "wal_rep w log"
  shows "wal_read p w = Ok (latest log p)"
proof (cases "map_of (wal_offsets w) p")
  case None
  then show ?thesis using assms offsets_None [of log p] by (simp add: wal_read_def wal_rep_def)
next
  case (Some off)
  then show ?thesis
    using read_entry_rep [OF assms Some] by (auto simp: wal_read_def enc_payload)
qed

lemma wal_write_rep:
  assumes "wal_rep w log" "length d = PAGE_SIZE"
  shows "wal_rep (wal_write p d w) (log @ [(p, d)])"
proof -
  obtain rest where rest: "wal_bytes w = enc_log log @ rest" "log_ok log" using assms by (auto simp: wal_rep_def)
  have len: "length (enc_log log) = wal_len w" using assms by (simp add: wal_rep_def length_enc_log)
  have "file_write_all (wal_len w) (wal_entry p d) (wal_bytes w) =
      enc_log (log @ [(p, d)]) @ drop (length (enc (p, d))) rest"
    by (simp add: rest(1) file_write_all_def put_bytes_def wal_entry_enc assms(2) flip: len)
  then show ?thesis
    using assms by (auto simp: wal_rep_def wal_write_def Let_def offsets_from_snoc)
qed

lemma update_not_Nil: "AList.update k v al \<noteq> []"
  by (cases al) auto

lemma wal_empty_rep: "wal_rep w log \<Longrightarrow> wal_is_empty w \<longleftrightarrow> log = []"
  by (cases log rule: rev_cases)
    (auto simp: wal_rep_def wal_is_empty_def offsets_from_snoc update_not_Nil)

section \<open>Recovery\<close>

lemma get_bytes_join: "get_bytes a m p @ get_bytes (a + m) n p = get_bytes a (m + n) p"
  by (simp add: get_bytes_def take_add add.commute)

text \<open>The longest prefix of a file that is a sequence of entries with a correct checksum.\<close>

definition starts_valid :: "bytes \<Rightarrow> bool" where
  "starts_valid r \<longleftrightarrow> WAL_ENTRY_SIZE \<le> length r \<and> get32 4 r = checksum (get32 0 r) (get_bytes 8 PAGE_SIZE r)"

function valid_prefix :: "bytes \<Rightarrow> log" where
  "valid_prefix r =
     (if starts_valid r then (get32 0 r, get_bytes 8 PAGE_SIZE r) # valid_prefix (drop WAL_ENTRY_SIZE r) else [])"
  by pat_completeness auto
termination
  by (relation "measure length") (auto simp: starts_valid_def WAL_ENTRY_SIZE_def)

declare load_loop.simps [simp del] valid_prefix.simps [simp del]

lemma starts_valid_enc [simp]: "length (snd e) = PAGE_SIZE \<Longrightarrow> starts_valid (enc e @ r)"
  using length_enc [of e] by (simp add: starts_valid_def enc_fields)

lemma starts_valid_decode:
  assumes "starts_valid r"
  shows "r = enc (get32 0 r, get_bytes 8 PAGE_SIZE r) @ drop WAL_ENTRY_SIZE r"
proof -
  have len: "8 + PAGE_SIZE \<le> length r" using assms by (simp add: starts_valid_def WAL_ENTRY_SIZE_def)
  have word: "le32 (get32 o' r) = get_bytes o' 4 r" if "o' + 4 \<le> length r" for o'
    using to_from_le [of "get_bytes o' 4 r", where 'a = 32] that by simp
  have "enc (get32 0 r, get_bytes 8 PAGE_SIZE r) = get_bytes 0 4 r @ get_bytes 4 4 r @ get_bytes 8 PAGE_SIZE r"
    using assms word [of 0] word [of 4] len by (simp add: enc_def starts_valid_def)
  also have "\<dots> = get_bytes 0 (4 + (4 + PAGE_SIZE)) r"
    using get_bytes_join [of 4 4 r PAGE_SIZE] get_bytes_join [of 0 4 r "4 + PAGE_SIZE"] by simp
  also have "\<dots> = take WAL_ENTRY_SIZE r" by (simp add: get_bytes_def WAL_ENTRY_SIZE_def)
  finally show ?thesis by simp
qed

lemma valid_prefix_ok: "log_ok (valid_prefix r)"
proof (induction r rule: valid_prefix.induct)
  case (1 r)
  then show ?case
    by (subst valid_prefix.simps) (auto simp: starts_valid_def WAL_ENTRY_SIZE_def)
qed

lemma valid_prefix_split: "\<exists>rest. r = enc_log (valid_prefix r) @ rest \<and> \<not> starts_valid rest"
proof (induction r rule: valid_prefix.induct)
  case (1 r)
  show ?case
  proof (cases "starts_valid r")
    case True
    obtain rest where rest: "drop WAL_ENTRY_SIZE r = enc_log (valid_prefix (drop WAL_ENTRY_SIZE r)) @ rest"
        "\<not> starts_valid rest"
      using 1 [OF True] by blast
    have "r = enc (get32 0 r, get_bytes 8 PAGE_SIZE r) @ enc_log (valid_prefix (drop WAL_ENTRY_SIZE r)) @ rest"
      by (rule trans [OF starts_valid_decode [OF True]
          arg_cong [OF rest(1), of "\<lambda>x. enc (get32 0 r, get_bytes 8 PAGE_SIZE r) @ x"]])
    moreover have "valid_prefix r = (get32 0 r, get_bytes 8 PAGE_SIZE r) # valid_prefix (drop WAL_ENTRY_SIZE r)"
      using True by (simp add: valid_prefix.simps [of r])
    ultimately show ?thesis
      using rest(2) by (intro exI [of _ rest]) simp
  next
    case False
    then show ?thesis by (subst valid_prefix.simps) simp
  qed
qed

lemma valid_prefix_enc_log:
  assumes "log_ok log" "\<not> starts_valid rest"
  shows "valid_prefix (enc_log log @ rest) = log"
  using assms
proof (induction log)
  case Nil
  then show ?case by (simp add: valid_prefix.simps)
next
  case (Cons e log)
  then show ?case
    using length_enc [of e] by (subst valid_prefix.simps) (simp add: enc_fields)
qed

lemma load_loop_enc_log:
  assumes "log_ok pre" "log_ok log" "\<not> starts_valid rest"
  shows "load_loop (enc_log pre @ enc_log log @ rest) (WAL_ENTRY_SIZE * length pre) al =
    (offsets_from (length pre) log al, WAL_ENTRY_SIZE * (length pre + length log))"
  using assms
proof (induction log arbitrary: pre al)
  case Nil
  let ?n = "WAL_ENTRY_SIZE * length pre"
  show ?case
  proof (cases "WAL_ENTRY_SIZE \<le> length rest")
    case True
    let ?entry = "get_bytes ?n WAL_ENTRY_SIZE (enc_log pre @ rest)"
    have entry: "?entry = get_bytes 0 WAL_ENTRY_SIZE rest"
      using Nil.prems by (simp add: get_bytes_append2 length_enc_log)
    have "get_bytes o' n ?entry = get_bytes o' n rest" if "o' + n \<le> WAL_ENTRY_SIZE" for o' n
      using that unfolding entry by (simp add: get_bytes_def drop_take min_def)
    then show ?thesis
      using Nil.prems True
      by (subst load_loop.simps)
        (simp add: file_read_exact_def length_enc_log starts_valid_def WAL_ENTRY_SIZE_def)
  next
    case False
    then show ?thesis
      using Nil.prems by (subst load_loop.simps) (simp add: file_read_exact_def length_enc_log)
  qed
next
  case (Cons e log)
  let ?n = "WAL_ENTRY_SIZE * length pre"
  have len: "length (snd e) = PAGE_SIZE" using Cons.prems by simp
  have entry: "file_read_exact ?n WAL_ENTRY_SIZE (enc_log pre @ enc e @ enc_log log @ rest) = Ok (enc e)"
    using Cons.prems length_enc [OF len] enc_log_slice [of "pre @ [e]" "length pre" "enc_log log @ rest"]
    by (simp add: file_read_exact_def length_enc_log)
  have "load_loop (enc_log pre @ enc e @ enc_log log @ rest) ?n al =
      load_loop (enc_log (pre @ [e]) @ enc_log log @ rest) (WAL_ENTRY_SIZE * length (pre @ [e])) (AList.update (fst e) ?n al)"
    using enc_fields [OF len, of "[]"] entry
    by (subst load_loop.simps) (simp add: add.commute)
  also have "\<dots> = (offsets_from (length (pre @ [e])) log (AList.update (fst e) ?n al),
      WAL_ENTRY_SIZE * (length (pre @ [e]) + length log))"
    using Cons.prems by (intro Cons.IH) auto
  finally show ?case by (cases e) simp
qed

lemma load_index_rep:
  assumes "wal_bytes w = enc_log log @ rest" "log_ok log" "\<not> starts_valid rest" "wal_offsets w = []"
  shows "wal_rep (load_index w) log" "wal_bytes (load_index w) = wal_bytes w"
  using assms load_loop_enc_log [of "[]" log rest "[]"]
  by (simp_all add: load_index_def wal_rep_def)

lemma wal_open_rep: "wal_rep (wal_open f) (valid_prefix f)" "wal_bytes (wal_open f) = f"
proof -
  obtain rest where "f = enc_log (valid_prefix f) @ rest" "\<not> starts_valid rest"
    using valid_prefix_split [of f] by blast
  then show "wal_rep (wal_open f) (valid_prefix f)" "wal_bytes (wal_open f) = f"
    unfolding wal_open_def using valid_prefix_ok
      load_index_rep [of "\<lparr>wal_bytes = f, wal_offsets = [], wal_len = 0\<rparr>" "valid_prefix f" rest]
    by simp_all
qed

lemma short_not_valid: "length r < WAL_ENTRY_SIZE \<Longrightarrow> \<not> starts_valid r"
  by (simp add: starts_valid_def)

lemma enc_log_take:
  assumes "log_ok log" "n \<le> length (enc_log log)"
  shows "\<exists>rest. take n (enc_log log) = enc_log (take (n div WAL_ENTRY_SIZE) log) @ rest \<and> length rest < WAL_ENTRY_SIZE"
proof -
  let ?k = "n div WAL_ENTRY_SIZE"
  have pos: "0 < WAL_ENTRY_SIZE" by (simp add: WAL_ENTRY_SIZE_def)
  have n: "n \<le> WAL_ENTRY_SIZE * length log" using assms by (simp add: length_enc_log)
  then have k: "?k \<le> length log" using pos by (metis div_le_mono nonzero_mult_div_cancel_left not_gr_zero)
  have ok: "log_ok (take ?k log)" using assms(1) by (auto simp: log_ok_def dest: in_set_takeD)
  have split: "enc_log log = enc_log (take ?k log) @ enc_log (drop ?k log)"
    by (metis append_take_drop_id concat_append map_append)
  have len: "length (enc_log (take ?k log)) = n - n mod WAL_ENTRY_SIZE"
    using k ok by (simp add: length_enc_log minus_mod_eq_mult_div)
  have "take n (enc_log log) = enc_log (take ?k log) @ take (n mod WAL_ENTRY_SIZE) (enc_log (drop ?k log))"
    unfolding split by (simp add: len)
  moreover have "length (take (n mod WAL_ENTRY_SIZE) (enc_log (drop ?k log))) < WAL_ENTRY_SIZE"
    using pos mod_less_divisor [OF pos, of n] by (simp del: mod_less_divisor)
  ultimately show ?thesis by blast
qed

lemma truncate_to_rep:
  assumes "wal_rep w log" "k \<le> length log"
  shows "wal_rep (truncate_to (WAL_ENTRY_SIZE * k) w) (take k log)"
proof -
  obtain rest where rest: "wal_bytes w = enc_log log @ rest" "log_ok log" using assms by (auto simp: wal_rep_def)
  have ok: "log_ok (take k log)" using rest(2) by (auto simp: log_ok_def dest: in_set_takeD)
  have split: "enc_log log = enc_log (take k log) @ enc_log (drop k log)"
    by (metis append_take_drop_id concat_append map_append)
  have "file_set_len (WAL_ENTRY_SIZE * k) (wal_bytes w) = enc_log (take k log) @ []"
    using assms(2) ok unfolding rest(1) split by (simp add: file_set_len_def length_enc_log)
  then show ?thesis
    unfolding truncate_to_def using ok
    by (intro load_index_rep [of _ _ "[]"]) (simp_all add: starts_valid_def WAL_ENTRY_SIZE_def)
qed

section \<open>Checkpoint\<close>

text \<open>The pages of a database file.\<close>

definition file_page :: "bytes \<Rightarrow> u32 \<Rightarrow> bytes option" where
  "file_page db p = (if unat p * PAGE_SIZE + PAGE_SIZE \<le> length db then Some (get_bytes (unat p * PAGE_SIZE) PAGE_SIZE db) else None)"

lemma file_page_length: "file_page db p = Some d \<Longrightarrow> length d = PAGE_SIZE"
  by (auto simp: file_page_def split: if_splits)

lemma file_page_write_same:
  "length d = PAGE_SIZE \<Longrightarrow> file_page (file_write_all (unat p * PAGE_SIZE) d db) p = Some d"
  by (simp add: file_page_def get_file_write_same)

lemma page_ranges_disjoint:
  assumes "p \<noteq> (q :: u32)"
  shows "unat p * PAGE_SIZE + PAGE_SIZE \<le> unat q * PAGE_SIZE \<or> unat q * PAGE_SIZE + PAGE_SIZE \<le> unat p * PAGE_SIZE"
proof -
  have "unat p \<noteq> unat q" using assms by (simp add: word_unat_eq_iff)
  then have "Suc (unat p) \<le> unat q \<or> Suc (unat q) \<le> unat p" by arith
  then show ?thesis
    using mult_le_mono1 [of "Suc (unat p)" "unat q" PAGE_SIZE] mult_le_mono1 [of "Suc (unat q)" "unat p" PAGE_SIZE]
    by (elim disjE) (simp_all add: add.commute)
qed

lemma file_page_write_other:
  assumes "length d = PAGE_SIZE" "q \<noteq> p" "file_page db q = Some e"
  shows "file_page (file_write_all (unat p * PAGE_SIZE) d db) q = Some e"
  using assms page_ranges_disjoint [OF assms(2)]
  by (auto simp: file_page_def get_file_write_other split: if_splits)

text \<open>\<open>n\<close> bytes are enough for a file that holds these pages.\<close>

definition fits_pages :: "u32 set \<Rightarrow> nat \<Rightarrow> bool" where
  "fits_pages P n \<longleftrightarrow> (\<forall>p \<in> P. unat p * PAGE_SIZE + PAGE_SIZE \<le> n)"

lemma checkpoint_loop_pages:
  assumes "distinct (map fst es)"
    and "\<And>p off. (p, off) \<in> set es \<Longrightarrow> file_read_exact off WAL_ENTRY_SIZE f = Ok (enc (p, D p)) \<and> length (D p) = PAGE_SIZE"
  shows "\<exists>db'. checkpoint_loop es f db = (Ok (), db') \<and>
    (\<forall>p \<in> fst ` set es. file_page db' p = Some (D p)) \<and>
    (\<forall>p e. p \<notin> fst ` set es \<and> file_page db p = Some e \<longrightarrow> file_page db' p = Some e) \<and>
    (\<forall>n. length db' \<le> n \<longleftrightarrow> length db \<le> n \<and> fits_pages (fst ` set es) n)"
  using assms
proof (induction es arbitrary: db)
  case Nil
  then show ?case by (simp add: fits_pages_def)
next
  case (Cons e es)
  obtain p off where e: "e = (p, off)" by force
  have entry: "file_read_exact off WAL_ENTRY_SIZE f = Ok (enc (p, D p))" "length (D p) = PAGE_SIZE"
    using Cons.prems(2) [of p off] e by auto
  have p: "p \<notin> fst ` set es" and d: "distinct (map fst es)" using Cons.prems(1) e by auto
  let ?db = "file_write_all (unat p * PAGE_SIZE) (D p) db"
  have tail: "file_read_exact o' WAL_ENTRY_SIZE f = Ok (enc (q, D q)) \<and> length (D q) = PAGE_SIZE"
    if "(q, o') \<in> set es" for q o'
    using Cons.prems(2) [of q o'] that by simp
  obtain db' where db': "checkpoint_loop es f ?db = (Ok (), db')"
      "\<forall>q \<in> fst ` set es. file_page db' q = Some (D q)"
      "\<forall>q e. q \<notin> fst ` set es \<and> file_page ?db q = Some e \<longrightarrow> file_page db' q = Some e"
      "\<forall>n. length db' \<le> n \<longleftrightarrow> length ?db \<le> n \<and> fits_pages (fst ` set es) n"
    using Cons.IH [OF d tail, of ?db] by blast
  have "checkpoint_loop (e # es) f db = (Ok (), db')"
    using db'(1) entry by (simp add: e enc_payload)
  moreover have "file_page db' p = Some (D p)"
    using db'(3) p entry(2) by (simp add: file_page_write_same)
  then have "\<forall>q \<in> fst ` set (e # es). file_page db' q = Some (D q)"
    using db'(2) by (simp add: e)
  moreover have "file_page db' q = Some e'" if "q \<noteq> p" "q \<notin> fst ` set es" "file_page db q = Some e'" for q e'
    using db'(3) that file_page_write_other [OF entry(2) that(1,3)] by blast
  then have "\<forall>q e'. q \<notin> fst ` set (e # es) \<and> file_page db q = Some e' \<longrightarrow> file_page db' q = Some e'"
    by (simp add: e)
  moreover have "\<forall>n. length db' \<le> n \<longleftrightarrow> length db \<le> n \<and> fits_pages (fst ` set (e # es)) n"
    using db'(4) entry(2) by (simp add: e fits_pages_def)
  ultimately show ?case by blast
qed

lemma offsets_keys: "map_of (offsets_from 0 log []) p \<noteq> None \<longleftrightarrow> p \<in> fst ` set (offsets_from 0 log [])"
  by (metis map_of_eq_None_iff)

lemma checkpoint_rep:
  assumes "wal_rep w log"
  shows "\<exists>w' db'. wal_checkpoint w db = (Ok (), w', db') \<and> wal_rep w' [] \<and> wal_bytes w' = [] \<and>
    (\<forall>p d. latest log p = Some d \<longrightarrow> file_page db' p = Some d) \<and>
    (\<forall>p d. latest log p = None \<and> file_page db p = Some d \<longrightarrow> file_page db' p = Some d) \<and>
    (\<forall>n. length db' \<le> n \<longleftrightarrow> length db \<le> n \<and> fits_pages (dom (latest log)) n)"
proof -
  have off: "wal_offsets w = offsets_from 0 log []" using assms by (simp add: wal_rep_def)
  have dist: "distinct (map fst (wal_offsets w))" unfolding off by (rule offsets_distinct) simp
  have entry: "file_read_exact o' WAL_ENTRY_SIZE (wal_bytes w) = Ok (enc (p, the (latest log p))) \<and>
      length (the (latest log p)) = PAGE_SIZE" if "(p, o') \<in> set (wal_offsets w)" for p o'
    using read_entry_rep [OF assms, of p o'] dist that by auto
  have keys: "fst ` set (wal_offsets w) = dom (latest log)"
    using offsets_keys [of log] offsets_None [of log] unfolding off by (auto simp: dom_def)
  obtain db' where db': "checkpoint_loop (wal_offsets w) (wal_bytes w) db = (Ok (), db')"
      "\<forall>p \<in> dom (latest log). file_page db' p = Some (the (latest log p))"
      "\<forall>p e. p \<notin> dom (latest log) \<and> file_page db p = Some e \<longrightarrow> file_page db' p = Some e"
      "\<forall>n. length db' \<le> n \<longleftrightarrow> length db \<le> n \<and> fits_pages (dom (latest log)) n"
    using checkpoint_loop_pages [OF dist entry, of db] unfolding keys by blast
  let ?w = "w\<lparr>wal_bytes := [], wal_offsets := [], wal_len := 0\<rparr>"
  have "wal_checkpoint w db = (Ok (), ?w, db')"
    using db'(1) by (simp add: wal_checkpoint_def file_set_len_def)
  moreover have "wal_rep ?w []" by (simp add: wal_rep_def)
  ultimately show ?thesis using db'(2-4) by (intro exI [of _ ?w] exI [of _ db']) force
qed

text \<open>
  The log file has no complete entry behind the indexed ones. This holds from a fresh or a recovered
  log on, and every operation keeps it.
\<close>

definition wal_tidy :: "wal_file \<Rightarrow> bool" where
  "wal_tidy w \<longleftrightarrow> length (wal_bytes w) < wal_len w + WAL_ENTRY_SIZE"

lemma WAL_ENTRY_SIZE_pos [simp]: "0 < WAL_ENTRY_SIZE"
  by (simp add: WAL_ENTRY_SIZE_def)

lemma wal_tidy_write: "wal_tidy w \<Longrightarrow> length d = PAGE_SIZE \<Longrightarrow> wal_tidy (wal_write p d w)"
  by (simp add: wal_tidy_def wal_write_def wal_entry_enc Let_def)

lemma wal_tidy_checkpoint: "wal_tidy w \<Longrightarrow> wal_checkpoint w f = (r, w', f') \<Longrightarrow> wal_tidy w'"
  by (auto simp: wal_tidy_def wal_checkpoint_def split: prod.splits sum.splits)

lemma tidy_valid_prefix:
  assumes "wal_rep w log" "wal_tidy w"
  shows "valid_prefix (wal_bytes w) = log"
proof -
  obtain rest where "wal_bytes w = enc_log log @ rest" using assms by (auto simp: wal_rep_def)
  moreover from this have "length rest < WAL_ENTRY_SIZE"
    using assms by (simp add: wal_tidy_def wal_rep_def length_enc_log)
  ultimately show ?thesis
    using assms(1) valid_prefix_enc_log [of log rest] short_not_valid by (simp add: wal_rep_def)
qed

section \<open>What the storage backend relies on\<close>

text \<open>
  A log of page writes: reading returns what was written last, and cutting the log back to an
  earlier length undoes exactly the writes made since.
\<close>

locale page_log =
  fixes rep :: "'w \<Rightarrow> log \<Rightarrow> bool"
    and read :: "u32 \<Rightarrow> 'w \<Rightarrow> bytes option res"
    and log_page :: "u32 \<Rightarrow> bytes \<Rightarrow> 'w \<Rightarrow> 'w"
    and len :: "'w \<Rightarrow> nat"
    and truncate :: "nat \<Rightarrow> 'w \<Rightarrow> 'w"
  assumes read_law: "rep w log \<Longrightarrow> read p w = Ok (latest log p)"
    and write_law: "rep w log \<Longrightarrow> length d = PAGE_SIZE \<Longrightarrow> rep (log_page p d w) (log @ [(p, d)])"
    and truncate_law: "rep w (log @ later) \<Longrightarrow> rep w0 log \<Longrightarrow> rep (truncate (len w0) w) log"
begin

lemma read_after_write:
  assumes "rep w log" "length d = PAGE_SIZE"
  shows "read q (log_page p d w) = (if q = p then Ok (Some d) else read q w)"
  using read_law [OF write_law [OF assms]] read_law [OF assms(1)] by simp

lemma writes_rep:
  assumes "rep w log" "log_ok es"
  shows "rep (fold (\<lambda>(p, d). log_page p d) es w) (log @ es)"
  using assms
proof (induction es arbitrary: w log)
  case (Cons e es)
  then show ?case
    using Cons.IH [of "log_page (fst e) (snd e) w" "log @ [e]"] write_law [of w log "snd e" "fst e"]
    by (simp add: case_prod_beta)
qed simp

text \<open>Rolling back to a length recorded before a batch of writes.\<close>

lemma rollback:
  assumes "rep w log" "log_ok es"
  shows "rep (truncate (len w) (fold (\<lambda>(p, d). log_page p d) es w)) log"
  using truncate_law [OF writes_rep [OF assms] assms(1)] .

end

lemma wal_truncate_law:
  assumes "wal_rep w (log @ later)" "wal_rep w0 log"
  shows "wal_rep (truncate_to (wal_current_len w0) w) log"
  using truncate_to_rep [OF assms(1), of "length log"] assms(2)
  by (simp add: wal_rep_def wal_current_len_def)

interpretation wal: page_log wal_rep wal_read wal_write wal_current_len truncate_to
  by unfold_locales (simp_all add: wal_read_rep wal_write_rep wal_truncate_law)

section \<open>Properties\<close>

text \<open>
  Recovery of an arbitrary log file. Whatever bytes the file holds, opening it succeeds and
  reads, for every page, the last entry for it in the longest prefix of the file that consists of
  complete entries with a correct checksum; the bytes behind that prefix do not start with such an
  entry, and the append position is the end of the prefix.
\<close>

theorem wal_open_recovers_valid_prefix:
  "wal_read p (wal_open f) = Ok (latest (valid_prefix f) p) \<and>
   wal_current_len (wal_open f) = WAL_ENTRY_SIZE * length (valid_prefix f) \<and>
   (\<exists>rest. f = enc_log (valid_prefix f) @ rest \<and> \<not> starts_valid rest)"
  using wal_open_rep(1) [of f] valid_prefix_split [of f]
  by (simp add: wal_read_rep) (simp add: wal_rep_def wal_current_len_def)

text \<open>
  C39: crash recovery. If the log file is cut at any byte while the log holds \<open>log\<close> (a torn append,
  or a lost tail), reopening it finds exactly the complete entries before the cut: the first
  \<open>n / WAL_ENTRY_SIZE\<close> writes, in order, and nothing of a later one.
\<close>

theorem wal_crash_keeps_prefix:
  assumes "wal_rep w log" "n \<le> wal_current_len w"
  shows "wal_rep (wal_open (take n (wal_bytes w))) (take (n div WAL_ENTRY_SIZE) log) \<and>
    wal_read p (wal_open (take n (wal_bytes w))) = Ok (latest (take (n div WAL_ENTRY_SIZE) log) p)"
proof -
  obtain rest where w: "wal_bytes w = enc_log log @ rest" "log_ok log" using assms by (auto simp: wal_rep_def)
  have "n \<le> length (enc_log log)" using assms w by (simp add: wal_rep_def wal_current_len_def length_enc_log)
  from enc_log_take [OF w(2) this] obtain r where
      r: "take n (wal_bytes w) = enc_log (take (n div WAL_ENTRY_SIZE) log) @ r" "length r < WAL_ENTRY_SIZE"
    using w(1) \<open>n \<le> length (enc_log log)\<close> by auto
  have "log_ok (take (n div WAL_ENTRY_SIZE) log)" using w(2) by (auto simp: log_ok_def dest: in_set_takeD)
  then have "valid_prefix (take n (wal_bytes w)) = take (n div WAL_ENTRY_SIZE) log"
    using r short_not_valid by (simp add: valid_prefix_enc_log)
  then have "wal_rep (wal_open (take n (wal_bytes w))) (take (n div WAL_ENTRY_SIZE) log)"
    using wal_open_rep(1) [of "take n (wal_bytes w)"] by simp
  then show ?thesis by (simp add: wal_read_rep)
qed

lemma wal_open_empty: "wal_rep (wal_open []) []"
  using wal_open_rep(1) [of "[]"] valid_prefix_enc_log [of "[]" "[]"]
  by (simp add: short_not_valid WAL_ENTRY_SIZE_def)

lemma two_writes: "wal_rep (wal_write 4 (replicate PAGE_SIZE 9) (wal_write 3 (replicate PAGE_SIZE 7) (wal_open [])))
    [(3, replicate PAGE_SIZE 7), (4, replicate PAGE_SIZE 9)]"
  using wal_write_rep [OF wal_write_rep [OF wal_open_empty, of "replicate PAGE_SIZE 7" 3], of "replicate PAGE_SIZE 9" 4]
  by simp

theorem wal_crash_keeps_prefix_witness:
  "wal_read 3 (wal_open (take (WAL_ENTRY_SIZE + 100)
      (wal_bytes (wal_write 4 (replicate PAGE_SIZE 9) (wal_write 3 (replicate PAGE_SIZE 7) (wal_open []))))))
    = Ok (Some (replicate PAGE_SIZE 7))"
proof -
  have n: "WAL_ENTRY_SIZE + 100 \<le> wal_current_len
      (wal_write 4 (replicate PAGE_SIZE 9) (wal_write 3 (replicate PAGE_SIZE 7) (wal_open [])))"
    using two_writes by (simp add: wal_rep_def wal_current_len_def WAL_ENTRY_SIZE_def PAGE_SIZE_def)
  have "(WAL_ENTRY_SIZE + 100) div WAL_ENTRY_SIZE = 1" by (simp add: WAL_ENTRY_SIZE_def PAGE_SIZE_def)
  then show ?thesis
    using wal_crash_keeps_prefix [OF two_writes n, of 3] by (simp add: latest_def)
qed

text \<open>
  Rollback. Truncating the log back to the length recorded before a batch of page writes
  undoes the batch: every page reads as it did, and the log accepts new writes at the recorded
  position.
\<close>

theorem wal_rollback_undoes_writes:
  assumes "wal_rep w log" "log_ok batch"
  defines "w' \<equiv> truncate_to (wal_current_len w) (fold (\<lambda>(p, d). wal_write p d) batch w)"
  shows "wal_read p w' = wal_read p w \<and> wal_current_len w' = wal_current_len w \<and> wal_offsets w' = wal_offsets w"
  using wal.rollback [OF assms(1,2)] assms(1) unfolding w'_def
  by (simp add: wal_read_rep) (simp add: wal_rep_def wal_current_len_def)

theorem wal_rollback_undoes_writes_witness:
  "wal_read 3 (truncate_to (wal_current_len (wal_open []))
     (fold (\<lambda>(p, d). wal_write p d) [(3, replicate PAGE_SIZE 7)] (wal_open []))) = Ok None"
  using wal_rollback_undoes_writes [OF wal_open_empty, of "[(3, replicate PAGE_SIZE 7)]" 3]
    wal_read_rep [OF wal_open_empty, of 3] by simp

text \<open>
  Checkpoint. Checkpointing succeeds; afterwards every logged page has its last logged bytes in
  the database file, every other page of the file is unchanged, the file grows only as far as the
  logged pages need, and the log file and its index are empty.
\<close>

theorem wal_checkpoint_installs_latest:
  assumes "wal_rep w log"
  shows "\<exists>w' db'. wal_checkpoint w db = (Ok (), w', db') \<and> wal_is_empty w' \<and> wal_bytes w' = [] \<and>
    (\<forall>p. case latest log p of Some d \<Rightarrow> file_page db' p = Some d
         | None \<Rightarrow> file_page db p = None \<or> file_page db' p = file_page db p) \<and>
    (\<forall>n. length db' \<le> n \<longleftrightarrow> length db \<le> n \<and> fits_pages (dom (latest log)) n)"
proof -
  obtain w' db' where c: "wal_checkpoint w db = (Ok (), w', db')" "wal_rep w' []" "wal_bytes w' = []"
      "\<forall>p d. latest log p = Some d \<longrightarrow> file_page db' p = Some d"
      "\<forall>p d. latest log p = None \<and> file_page db p = Some d \<longrightarrow> file_page db' p = Some d"
      "\<forall>n. length db' \<le> n \<longleftrightarrow> length db \<le> n \<and> fits_pages (dom (latest log)) n"
    using checkpoint_rep [OF assms, of db] by blast
  have "case latest log p of Some d \<Rightarrow> file_page db' p = Some d
      | None \<Rightarrow> file_page db p = None \<or> file_page db' p = file_page db p" for p
    using c(4,5) by (cases "latest log p"; cases "file_page db p") auto
  then show ?thesis using c(1-3,6) wal_empty_rep [OF c(2)] by (intro exI [of _ w'] exI [of _ db']) blast
qed

theorem wal_checkpoint_installs_latest_witness:
  "\<exists>w' db'. wal_checkpoint (wal_write 4 (replicate PAGE_SIZE 9) (wal_write 3 (replicate PAGE_SIZE 7) (wal_open []))) []
      = (Ok (), w', db') \<and> wal_is_empty w' \<and> file_page db' 3 = Some (replicate PAGE_SIZE 7)"
proof -
  obtain w' db' where c: "wal_checkpoint (wal_write 4 (replicate PAGE_SIZE 9) (wal_write 3 (replicate PAGE_SIZE 7) (wal_open []))) []
      = (Ok (), w', db')" "wal_is_empty w'"
      "\<forall>p. case latest [(3, replicate PAGE_SIZE 7), (4, replicate PAGE_SIZE 9)] p of Some d \<Rightarrow> file_page db' p = Some d
         | None \<Rightarrow> file_page [] p = None \<or> file_page db' p = file_page [] p"
    using wal_checkpoint_installs_latest [OF two_writes, of "[]"] by blast
  from c(3) [THEN spec, of 3] have "file_page db' 3 = Some (replicate PAGE_SIZE 7)" by (simp add: latest_def)
  then show ?thesis using c(1,2) by blast
qed

section \<open>A divergence\<close>

text \<open>
  Opening a log whose first entry is damaged finds it empty but leaves the bytes behind it in the
  file. The next write goes to offset 0, and makes the entries behind the damaged one valid again:
  a reopen after a crash replays a write that the running database did not have.
\<close>

theorem wal_stale_entry_resurrected:
  assumes "length bad = WAL_ENTRY_SIZE" "\<not> starts_valid (bad @ enc (q, old))"
    and "length old = PAGE_SIZE" "length d = PAGE_SIZE" "q \<noteq> p"
  defines "w \<equiv> wal_open (bad @ enc (q, old))"
  shows "wal_is_empty w \<and> wal_read q (wal_write p d w) = Ok None \<and>
    wal_read q (wal_open (wal_bytes (wal_write p d w))) = Ok (Some old)"
proof -
  have "valid_prefix (bad @ enc (q, old)) = []"
    using assms(2) valid_prefix_enc_log [of "[]" "bad @ enc (q, old)"] by simp
  then have w: "wal_rep w []" "wal_bytes w = bad @ enc (q, old)"
    using wal_open_rep [of "bad @ enc (q, old)"] by (simp_all add: w_def)
  have "wal_bytes (wal_write p d w) = enc_log [(p, d), (q, old)] @ []"
    using w assms(1,3,4) by (simp add: wal_write_def wal_rep_def file_write_all_def put_bytes_def wal_entry_enc)
  moreover have "valid_prefix (enc_log [(p, d), (q, old)] @ []) = [(p, d), (q, old)]"
    using assms(3,4) by (intro valid_prefix_enc_log) (simp_all add: short_not_valid WAL_ENTRY_SIZE_def)
  ultimately have "wal_rep (wal_open (wal_bytes (wal_write p d w))) [(p, d), (q, old)]"
    using wal_open_rep(1) [of "wal_bytes (wal_write p d w)"] by simp
  then show ?thesis
    using w(1) wal_empty_rep [OF w(1)] wal.read_after_write [OF w(1) assms(4)] assms(5)
    by (simp add: wal_read_rep latest_def)
qed

end
