(* ===== verification/File_Header.thy ===== *)
theory File_Header
  imports Page
begin

text \<open>
  The header page of a database file (\<^verbatim>\<open>storage/file.rs\<close>, \<open>FileHeader\<close>): its fields, the
  values of a fresh database, its layout on page 0, and the checks made when it is read back.
\<close>

definition MAGIC :: bytes where
  "MAGIC = [0x43, 0x48, 0x49, 0x46, 0x46, 0x4F, 0x4E, 0x00]"

definition VERSION :: u32 where
  "VERSION = 10"

definition NO_DIR_ROOT :: u32 where
  "NO_DIR_ROOT = 0xFFFFFFFF"

definition NO_FREE_PAGE :: u32 where
  "NO_FREE_PAGE = 0xFFFFFFFF"

record file_header =
  version :: u32
  label_index_root :: u32
  property_index_root :: u32
  schema_root :: u32
  schema_version :: u32
  node_page_count :: u32
  edge_page_count :: u32
  property_dir_root :: u32
  property_dir_len :: u32
  node_dir_root :: u32
  edge_dir_root :: u32
  node_first_free_page :: u32
  edge_first_free_page :: u32
  property_first_free_page :: u32
  property_free_list_head :: u32

definition header_new :: file_header where
  "header_new = \<lparr>
     version = VERSION,
     label_index_root = NO_DIR_ROOT,
     property_index_root = NO_DIR_ROOT,
     schema_root = 0,
     schema_version = 0,
     node_page_count = 0,
     edge_page_count = 0,
     property_dir_root = NO_DIR_ROOT,
     property_dir_len = 0,
     node_dir_root = NO_DIR_ROOT,
     edge_dir_root = NO_DIR_ROOT,
     node_first_free_page = 0,
     edge_first_free_page = 0,
     property_first_free_page = 0,
     property_free_list_head = NO_FREE_PAGE\<rparr>"

definition header_serialize :: "file_header \<Rightarrow> bytes" where
  "header_serialize h = write_fields
     [(0, MAGIC),
      (8, le32 (version h)),
      (12, le32 (of_nat PAGE_SIZE)),
      (16, le32 (label_index_root h)),
      (20, le32 (property_index_root h)),
      (32, le32 (schema_root h)),
      (36, le32 (schema_version h)),
      (40, le32 (node_page_count h)),
      (44, le32 (edge_page_count h)),
      (48, le32 (property_dir_root h)),
      (52, le32 (property_dir_len h)),
      (56, le32 (node_dir_root h)),
      (60, le32 (edge_dir_root h)),
      (64, le32 (node_first_free_page h)),
      (68, le32 (edge_first_free_page h)),
      (72, le32 (property_first_free_page h)),
      (76, le32 (property_free_list_head h))]
     (replicate PAGE_SIZE 0)"

definition header_deserialize :: "bytes \<Rightarrow> file_header res" where
  "header_deserialize buf =
     (if get_bytes 0 8 buf \<noteq> MAGIC then Err (SchemaError ''invalid magic number'')
      else if get32 8 buf \<noteq> VERSION then Err (UnsupportedVersion (get32 8 buf) VERSION)
      else Ok \<lparr>
        version = get32 8 buf,
        label_index_root = get32 16 buf,
        property_index_root = get32 20 buf,
        schema_root = get32 32 buf,
        schema_version = get32 36 buf,
        node_page_count = get32 40 buf,
        edge_page_count = get32 44 buf,
        property_dir_root = get32 48 buf,
        property_dir_len = get32 52 buf,
        node_dir_root = get32 56 buf,
        edge_dir_root = get32 60 buf,
        node_first_free_page = get32 64 buf,
        edge_first_free_page = get32 68 buf,
        property_first_free_page = get32 72 buf,
        property_free_list_head = get32 76 buf\<rparr>)"

text \<open>The serialised header as a concatenation.\<close>

lemma write_fields_seq:
  assumes "length pre \<le> off" "off - length pre + length xs \<le> n"
  shows "write_fields ((off, xs) # fs) (pre @ replicate n 0) =
    write_fields fs ((pre @ replicate (off - length pre) 0 @ xs) @ replicate (n - (off - length pre) - length xs) 0)"
  using assms by (simp add: put_bytes_def)

definition header_prefix :: "file_header \<Rightarrow> bytes" where
  "header_prefix h = MAGIC @ le32 (version h) @ le32 (of_nat PAGE_SIZE) @ le32 (label_index_root h) @
     le32 (property_index_root h) @ replicate 8 0 @
     le32 (schema_root h) @
     le32 (schema_version h) @
     le32 (node_page_count h) @
     le32 (edge_page_count h) @
     le32 (property_dir_root h) @
     le32 (property_dir_len h) @
     le32 (node_dir_root h) @
     le32 (edge_dir_root h) @
     le32 (node_first_free_page h) @
     le32 (edge_first_free_page h) @
     le32 (property_first_free_page h) @
     le32 (property_free_list_head h)"

lemma length_MAGIC [simp]: "length MAGIC = 8"
  by (simp add: MAGIC_def)

lemma header_serialize_prefix: "header_serialize h = header_prefix h @ replicate (PAGE_SIZE - 80) 0"
proof -
  have "80 \<le> PAGE_SIZE" by (simp add: PAGE_SIZE_def)
  then show ?thesis
    unfolding header_serialize_def header_prefix_def
    using write_fields_seq [where pre = "[]" and off = 0 and n = PAGE_SIZE]
    by (simp add: write_fields_seq del: write_fields_simps(2) append_assoc)
qed

lemma length_header_prefix: "length (header_prefix h) = 80"
  by (simp add: header_prefix_def)

lemma length_header_serialize [simp]: "length (header_serialize h) = PAGE_SIZE"
  by (simp add: header_serialize_prefix length_header_prefix PAGE_SIZE_def)

lemma header_fields:
  "get_bytes 0 8 (header_serialize h) = MAGIC"
  "get32 8 (header_serialize h) = version h"
  "get32 16 (header_serialize h) = label_index_root h"
  "get32 20 (header_serialize h) = property_index_root h"
  "get32 32 (header_serialize h) = schema_root h"
  "get32 36 (header_serialize h) = schema_version h"
  "get32 40 (header_serialize h) = node_page_count h"
  "get32 44 (header_serialize h) = edge_page_count h"
  "get32 48 (header_serialize h) = property_dir_root h"
  "get32 52 (header_serialize h) = property_dir_len h"
  "get32 56 (header_serialize h) = node_dir_root h"
  "get32 60 (header_serialize h) = edge_dir_root h"
  "get32 64 (header_serialize h) = node_first_free_page h"
  "get32 68 (header_serialize h) = edge_first_free_page h"
  "get32 72 (header_serialize h) = property_first_free_page h"
  "get32 76 (header_serialize h) = property_free_list_head h"
  by (simp_all add: header_serialize_prefix header_prefix_def get_bytes_def)

lemma header_roundtrip_eq: "version h = VERSION \<Longrightarrow> header_deserialize (header_serialize h) = Ok h"
  by (simp add: header_deserialize_def header_fields)

text \<open>
  The header survives the disk. A header of the current version is read back from the page it
  is written to, every field included; a header of any other version is rejected with the version
  found, not misread.
\<close>

theorem header_roundtrip:
  "header_deserialize (header_serialize h) =
     (if version h = VERSION then Ok h else Err (UnsupportedVersion (version h) VERSION))"
  by (simp add: header_deserialize_def header_fields)

lemma header_new_version [simp]: "version header_new = VERSION"
  by (simp add: header_new_def)

end
