(* ===== verification/Paged_Store.thy ===== *)
theory Paged_Store
  imports File_Header
begin

text \<open>
  What the layers above the storage backend rely on: a store of fixed-size pages that can be read,
  overwritten and appended, with a header kept in memory beside them. The abstract state is a
  \<open>vol\<close>: the page contents, their number and the header. The judgement \<open>does\<close> says that an
  operation returns a given outcome and leaves a given abstract state whenever it starts in a given
  abstract state, whichever concrete store represents it; the page directory, the property store and
  the topology are verified with it over the interface \<open>paged_store\<close>.
\<close>

section \<open>Abstract state and judgement\<close>

record vol =
  vpage :: "u32 \<Rightarrow> bytes"
  vcount :: nat
  vhdr :: file_header

abbreviation mapped :: "vol \<Rightarrow> u32 \<Rightarrow> bool" where
  "mapped v p \<equiv> unat p < vcount v"

definition vol_ok :: "vol \<Rightarrow> bool" where
  "vol_ok v \<longleftrightarrow> vcount v < 2 ^ 32 \<and> (\<forall>p. mapped v p \<longrightarrow> length (vpage v p) = PAGE_SIZE)"

definition vput :: "u32 \<Rightarrow> bytes \<Rightarrow> vol \<Rightarrow> vol" where
  "vput p d v = v\<lparr>vpage := (vpage v)(p := d)\<rparr>"

definition vappend :: "bytes \<Rightarrow> vol \<Rightarrow> vol" where
  "vappend d v = v\<lparr>vpage := (vpage v)(of_nat (vcount v) := d), vcount := Suc (vcount v)\<rparr>"

lemma vput_simps [simp]:
  "vpage (vput p d v) = (vpage v)(p := d)" "vcount (vput p d v) = vcount v" "vhdr (vput p d v) = vhdr v"
  by (simp_all add: vput_def)

lemma vappend_simps [simp]:
  "vpage (vappend d v) = (vpage v)(of_nat (vcount v) := d)" "vcount (vappend d v) = Suc (vcount v)"
  "vhdr (vappend d v) = vhdr v"
  by (simp_all add: vappend_def)

lemma unat_of_nat_small: "n < 2 ^ 32 \<Longrightarrow> unat (of_nat n :: u32) = n"
  by (simp add: unat_of_nat take_bit_nat_eq_self)

lemma fresh_page: "vcount v < 2 ^ 32 \<Longrightarrow> mapped v p \<Longrightarrow> p \<noteq> of_nat (vcount v)"
  using unat_of_nat_small [of "vcount v"] by auto

lemma vol_ok_vput: "vol_ok v \<Longrightarrow> length d = PAGE_SIZE \<Longrightarrow> vol_ok (vput p d v)"
  by (simp add: vol_ok_def)

lemma vol_ok_vappend:
  assumes "vol_ok v" "Suc (vcount v) < 2 ^ 32" "length d = PAGE_SIZE"
  shows "vol_ok (vappend d v)"
proof -
  have "length (((vpage v)(of_nat (vcount v) := d)) p) = PAGE_SIZE" if "unat p < Suc (vcount v)" for p
  proof (cases "p = of_nat (vcount v)")
    case False
    moreover have "unat (of_nat (vcount v) :: u32) = vcount v"
      using assms(1) by (simp add: unat_of_nat_small vol_ok_def)
    ultimately have "unat p \<noteq> vcount v" by (auto simp: word_unat_eq_iff)
    then show ?thesis using assms(1) that False by (simp add: vol_ok_def)
  qed (use assms(3) in simp)
  then show ?thesis using assms(2) by (simp add: vol_ok_def)
qed

lemma vol_ok_hdr: "vol_ok (v\<lparr>vhdr := h\<rparr>) = vol_ok v"
  by (simp add: vol_ok_def)

text \<open>
  \<open>rep f v\<close>: the store \<open>f\<close> represents \<open>v\<close>; \<open>R f f'\<close>: \<open>f'\<close> was reached from \<open>f\<close> by operations that a
  rollback can undo.
\<close>

definition does :: "('s \<Rightarrow> 'v \<Rightarrow> bool) \<Rightarrow> ('s \<Rightarrow> 's \<Rightarrow> bool) \<Rightarrow> ('s, 'a) op \<Rightarrow> 'v \<Rightarrow> 'a res \<Rightarrow> 'v \<Rightarrow> bool" where
  "does rep R m v r v' \<longleftrightarrow> (\<forall>f. rep f v \<longrightarrow> (\<exists>f'. m f = (r, f') \<and> rep f' v' \<and> R f f'))"

section \<open>The interface\<close>

locale paged_store =
  fixes rep :: "'s \<Rightarrow> vol \<Rightarrow> bool"
    and R :: "'s \<Rightarrow> 's \<Rightarrow> bool"
    and read_page :: "u32 \<Rightarrow> ('s, bytes) op"
    and write_page :: "u32 \<Rightarrow> bytes \<Rightarrow> ('s, unit) op"
    and append_page :: "bytes \<Rightarrow> ('s, u32) op"
    and get_header :: "'s \<Rightarrow> file_header"
    and set_header :: "file_header \<Rightarrow> 's \<Rightarrow> 's"
  assumes R_refl: "R f f"
    and R_trans: "R f g \<Longrightarrow> R g k \<Longrightarrow> R f k"
    and rep_ok: "rep f v \<Longrightarrow> vol_ok v"
    and read_law: "rep f v \<Longrightarrow> mapped v p \<Longrightarrow>
      \<exists>f'. read_page p f = (Ok (vpage v p), f') \<and> rep f' v \<and> R f f'"
    and write_law: "rep f v \<Longrightarrow> mapped v p \<Longrightarrow> length d = PAGE_SIZE \<Longrightarrow>
      \<exists>f'. write_page p d f = (Ok (), f') \<and> rep f' (vput p d v) \<and> R f f'"
    and append_law: "rep f v \<Longrightarrow> Suc (vcount v) < 2 ^ 32 \<Longrightarrow> length d = PAGE_SIZE \<Longrightarrow>
      \<exists>f'. append_page d f = (Ok (of_nat (vcount v)), f') \<and> rep f' (vappend d v) \<and> R f f'"
    and get_header_law: "rep f v \<Longrightarrow> get_header f = vhdr v"
    and set_header_law: "rep f v \<Longrightarrow> rep (set_header h f) (v\<lparr>vhdr := h\<rparr>) \<and> R f (set_header h f)"
begin

abbreviation dz :: "('s, 'a) op \<Rightarrow> vol \<Rightarrow> 'a res \<Rightarrow> vol \<Rightarrow> bool" where
  "dz \<equiv> does rep R"

lemma does_ok: "(vol_ok v \<Longrightarrow> dz m v r v') \<Longrightarrow> dz m v r v'"
  using rep_ok by (auto simp: does_def)

lemma does_vol_ok:
  assumes "dz m v r v'" "rep f v"
  shows "vol_ok v'"
  using assms rep_ok by (force simp: does_def)

lemma does_pair [simp]: "dz (Pair r) v r v"
  using R_refl by (simp add: does_def)

lemma does_ret [simp]: "dz (ret x) v (Ok x) v"
  using R_refl by (simp add: does_def)

lemma does_fail [simp]: "dz (fail e) v (Inl e) v"
  using R_refl by (simp add: does_def)

lemma does_lift: "dz (lift_res r) v r v"
  using R_refl by (simp add: does_def)

lemma does_bnd:
  assumes "dz m v (Ok x) v1" "dz (k x) v1 r v2"
  shows "dz (bnd m k) v r v2"
  using assms R_trans unfolding does_def bnd_def by fastforce

lemma does_bnd_Inl: "dz m v (Inl e) v1 \<Longrightarrow> dz (bnd m k) v (Inl e) v1"
  unfolding does_def bnd_def by fastforce

lemma does_read: "mapped v p \<Longrightarrow> dz (read_page p) v (Ok (vpage v p)) v"
  using read_law by (simp add: does_def)

lemma does_write: "mapped v p \<Longrightarrow> length d = PAGE_SIZE \<Longrightarrow> dz (write_page p d) v (Ok ()) (vput p d v)"
  using write_law by (simp add: does_def)

lemma does_append:
  "Suc (vcount v) < 2 ^ 32 \<Longrightarrow> length d = PAGE_SIZE \<Longrightarrow>
   dz (append_page d) v (Ok (of_nat (vcount v))) (vappend d v)"
  using append_law by (simp add: does_def)

lemma does_gets: "dz (gets get_header) v (Ok (vhdr v)) v"
  using R_refl get_header_law by (simp add: does_def)

lemma does_gets_with: "dz (k (vhdr v)) v r v' \<Longrightarrow> dz (\<lambda>f. k (get_header f) f) v r v'"
  using get_header_law by (simp add: does_def)

lemma does_set_header: "dz (modify (set_header h)) v (Ok ()) (v\<lparr>vhdr := h\<rparr>)"
  using set_header_law by (simp add: does_def)

text \<open>A page written is a page read, and reads commute with writes to other pages.\<close>

lemma read_after_write:
  assumes "mapped v p" "mapped v q" "length d = PAGE_SIZE"
  shows "dz (bnd (write_page p d) (\<lambda>_. read_page q)) v (Ok (if q = p then d else vpage v q)) (vput p d v)"
  using does_bnd [OF does_write [OF assms(1,3)] does_read [of q "vput p d v"]] assms(2) by simp

lemma read_after_append:
  assumes "Suc (vcount v) < 2 ^ 32" "length d = PAGE_SIZE"
  shows "dz (bnd (append_page d) (\<lambda>p. read_page p)) v (Ok d) (vappend d v)"
proof -
  have "mapped (vappend d v) (of_nat (vcount v))" using assms(1) by (simp add: unat_of_nat_small)
  from does_bnd [where k = read_page, OF does_append [OF assms] does_read [OF this]] show ?thesis by simp
qed

end

end
