(* ===== verification/Database_File.thy ===== *)
theory Database_File
  imports Paged_Store Page_Cache Wal
begin

text \<open>
  The storage layer of \<^verbatim>\<open>storage/file.rs\<close>: the two backends (a file behind the log and the
  cache, or a byte vector in memory), the operations of \<open>DatabaseFile\<close> on pages and on the header,
  and the snapshot and restore operations that a transaction rollback uses.

  Both backends implement \<open>paged_store\<close>; so does \<open>DatabaseFile\<close>. The consequence is that the two
  backends are indistinguishable through it, and that rolling back is exact.
\<close>

section \<open>The backends\<close>

record file_backend =
  fb_file :: bytes
  fb_path :: path
  fb_wal :: wal_file
  fb_cache :: page_cache

datatype storage_backend = FileB file_backend | MemoryB bytes

definition file_read_page :: "u32 \<Rightarrow> (file_backend, bytes) op" where
  "file_read_page pid fb =
     (case cache_get pid (fb_cache fb) of
        None \<Rightarrow> (Panic, fb)
      | Some (Some cached, c) \<Rightarrow> (Ok cached, fb\<lparr>fb_cache := c\<rparr>)
      | Some (None, c) \<Rightarrow>
          let fb = fb\<lparr>fb_cache := c\<rparr>;
            data = try_res (wal_read pid (fb_wal fb)) (\<lambda>from_wal.
              case from_wal of
                Some d \<Rightarrow> Ok d
              | None \<Rightarrow> file_read_exact (unat pid * PAGE_SIZE) PAGE_SIZE (fb_file fb))
          in (case data of
                Inl e \<Rightarrow> (Inl e, fb)
              | Inr d \<Rightarrow>
                  (case cache_put pid d False (fb_cache fb) of
                     Some (None, c) \<Rightarrow> (Ok d, fb\<lparr>fb_cache := c\<rparr>)
                   | _ \<Rightarrow> (Panic, fb))))"

definition file_write_page :: "u32 \<Rightarrow> bytes \<Rightarrow> (file_backend, unit) op" where
  "file_write_page pid d fb =
     (let fb = fb\<lparr>fb_wal := wal_write pid d (fb_wal fb)\<rparr> in
      case cache_put pid d False (fb_cache fb) of
        Some (None, c) \<Rightarrow> (Ok (), fb\<lparr>fb_cache := c\<rparr>)
      | _ \<Rightarrow> (Panic, fb))"

definition memory_read_page :: "u32 \<Rightarrow> (bytes, bytes) op" where
  "memory_read_page pid data =
     (let offset = unat pid * PAGE_SIZE in
      if offset + PAGE_SIZE > length data then (Err (StorageCorrupted pid), data)
      else (Ok (get_bytes offset PAGE_SIZE data), data))"

definition memory_write_page :: "u32 \<Rightarrow> bytes \<Rightarrow> (bytes, unit) op" where
  "memory_write_page pid d data =
     (let offset = unat pid * PAGE_SIZE in
      if offset + PAGE_SIZE > length data then (Err (StorageCorrupted pid), data)
      else (Ok (), put_bytes offset d data))"

definition on_file :: "(file_backend, 'a) op \<Rightarrow> file_backend \<Rightarrow> 'a res \<times> storage_backend" where
  "on_file m fb = (case m fb of (r, fb) \<Rightarrow> (r, FileB fb))"

definition on_memory :: "(bytes, 'a) op \<Rightarrow> bytes \<Rightarrow> 'a res \<times> storage_backend" where
  "on_memory m data = (case m data of (r, data) \<Rightarrow> (r, MemoryB data))"

definition backend_read_page :: "u32 \<Rightarrow> (storage_backend, bytes) op" where
  "backend_read_page pid b =
     (case b of FileB fb \<Rightarrow> on_file (file_read_page pid) fb
              | MemoryB data \<Rightarrow> on_memory (memory_read_page pid) data)"

definition backend_write_page :: "u32 \<Rightarrow> bytes \<Rightarrow> (storage_backend, unit) op" where
  "backend_write_page pid d b =
     (case b of FileB fb \<Rightarrow> on_file (file_write_page pid d) fb
              | MemoryB data \<Rightarrow> on_memory (memory_write_page pid d) data)"

definition backend_append_page :: "bytes \<Rightarrow> u32 \<Rightarrow> (storage_backend, unit) op" where
  "backend_append_page d logical_page_count b =
     (case b of FileB fb \<Rightarrow> on_file (file_write_page logical_page_count d) fb
              | MemoryB data \<Rightarrow> (Ok (), MemoryB (data @ d)))"

definition file_flush :: "u32 \<Rightarrow> (file_backend, unit) op" where
  "file_flush logical_page_count fb =
     (if wal_is_empty (fb_wal fb) then (Ok (), fb)
      else
        let file_pages = of_nat (length (fb_file fb) div PAGE_SIZE) :: u32;
          file = (if logical_page_count > file_pages
                  then fb_file fb @ concat (replicate (unat logical_page_count - unat file_pages) (replicate PAGE_SIZE 0))
                  else fb_file fb)
        in (case wal_checkpoint (fb_wal fb) file of
              (r, wal, file) \<Rightarrow> (r, fb\<lparr>fb_file := file, fb_wal := wal\<rparr>)))"

definition backend_flush :: "u32 \<Rightarrow> (storage_backend, unit) op" where
  "backend_flush logical_page_count b =
     (case b of FileB fb \<Rightarrow> on_file (file_flush logical_page_count) fb
              | MemoryB data \<Rightarrow> (Ok (), MemoryB data))"

definition backend_wal_is_empty :: "storage_backend \<Rightarrow> bool" where
  "backend_wal_is_empty b = (case b of FileB fb \<Rightarrow> wal_is_empty (fb_wal fb) | MemoryB _ \<Rightarrow> True)"

section \<open>DatabaseFile\<close>

record database_file =
  backend :: storage_backend
  header :: file_header
  logical_page_count :: u32

definition on_backend :: "(storage_backend, 'a) op \<Rightarrow> (database_file, 'a) op" where
  "on_backend m db = (case m (backend db) of (r, b) \<Rightarrow> (r, db\<lparr>backend := b\<rparr>))"

definition create_in_memory :: database_file where
  "create_in_memory = \<lparr>backend = MemoryB (header_serialize header_new), header = header_new, logical_page_count = 1\<rparr>"

definition read_page :: "u32 \<Rightarrow> (database_file, bytes) op" where
  "read_page pid = on_backend (backend_read_page pid)"

definition write_page :: "u32 \<Rightarrow> bytes \<Rightarrow> (database_file, unit) op" where
  "write_page pid d = on_backend (backend_write_page pid d)"

definition append_page :: "bytes \<Rightarrow> (database_file, u32) op" where
  "append_page d db =
     (let page_id = logical_page_count db in
      bnd (on_backend (backend_append_page d page_id))
        (\<lambda>_. bnd (modify (\<lambda>db. db\<lparr>logical_page_count := logical_page_count db + 1\<rparr>))
        (\<lambda>_. ret page_id)) db)"

definition page_count :: "(database_file, u32) op" where
  "page_count = gets logical_page_count"

definition flush :: "(database_file, unit) op" where
  "flush db = on_backend (backend_flush (logical_page_count db)) db"

definition write_header :: "(database_file, unit) op" where
  "write_header db = write_page 0 (header_serialize (header db)) db"

definition db_wal_is_empty :: "database_file \<Rightarrow> bool" where
  "db_wal_is_empty db = backend_wal_is_empty (backend db)"

definition is_in_memory :: "database_file \<Rightarrow> bool" where
  "is_in_memory db = (case backend db of FileB _ \<Rightarrow> False | MemoryB _ \<Rightarrow> True)"

definition cache_stats :: "database_file \<Rightarrow> (nat \<times> nat) option" where
  "cache_stats db =
     (case backend db of
        FileB fb \<Rightarrow> Some (cache_len (fb_cache fb), pc_capacity (fb_cache fb))
      | MemoryB _ \<Rightarrow> None)"

section \<open>Snapshot and restore\<close>

record file_snapshot =
  snap_wal_len :: nat
  snap_page_count :: u32
  snap_header :: file_header
  snap_memory :: "bytes option"

definition snapshot :: "database_file \<Rightarrow> file_snapshot" where
  "snapshot db =
     (case backend db of
        FileB fb \<Rightarrow> \<lparr>snap_wal_len = wal_current_len (fb_wal fb), snap_page_count = logical_page_count db,
          snap_header = header db, snap_memory = None\<rparr>
      | MemoryB data \<Rightarrow> \<lparr>snap_wal_len = 0, snap_page_count = logical_page_count db,
          snap_header = header db, snap_memory = Some data\<rparr>)"

definition restore :: "file_snapshot \<Rightarrow> database_file \<Rightarrow> database_file" where
  "restore snap db =
     (let db = db\<lparr>logical_page_count := snap_page_count snap, header := snap_header snap\<rparr> in
      case backend db of
        FileB fb \<Rightarrow>
          db\<lparr>backend := FileB (fb\<lparr>fb_cache := cache_clear (fb_cache fb),
              fb_wal := truncate_to (snap_wal_len snap) (fb_wal fb)\<rparr>)\<rparr>
      | MemoryB data \<Rightarrow>
          (case snap_memory snap of Some saved \<Rightarrow> db\<lparr>backend := MemoryB saved\<rparr> | None \<Rightarrow> db))"

section \<open>The file backend represents a store\<close>

definition disk_view :: "log \<Rightarrow> bytes \<Rightarrow> u32 \<Rightarrow> bytes option" where
  "disk_view log file p = (case latest log p of Some d \<Rightarrow> Some d | None \<Rightarrow> file_page file p)"

definition file_log_rep :: "file_backend \<Rightarrow> log \<Rightarrow> (u32 \<Rightarrow> bytes) \<Rightarrow> nat \<Rightarrow> bool" where
  "file_log_rep fb log pages n \<longleftrightarrow>
     wal_rep (fb_wal fb) log \<and> lru_cache.coherent (fb_cache fb) (disk_view log (fb_file fb)) \<and>
     PAGE_SIZE dvd length (fb_file fb) \<and> length (fb_file fb) \<le> n * PAGE_SIZE \<and>
     (\<forall>p \<in> dom (latest log). unat p < n) \<and>
     (\<forall>p. unat p < n \<longrightarrow> disk_view log (fb_file fb) p = Some (pages p))"

lemma latest_snoc: "latest (log @ [(p, d)]) = (latest log)(p \<mapsto> d)"
  by simp

lemma disk_view_write: "disk_view (log @ [(p, d)]) file = (disk_view log file)(p \<mapsto> d)"
  by (auto simp: disk_view_def fun_eq_iff)

lemma disk_view_length: "log_ok log \<Longrightarrow> disk_view log file p = Some d \<Longrightarrow> length d = PAGE_SIZE"
  by (auto simp: disk_view_def latest_length file_page_length split: option.splits)

lemma file_read_page_rep:
  assumes rep: "file_log_rep fb log pages n" and p: "unat p < n"
  shows "\<exists>fb'. file_read_page p fb = (Ok (pages p), fb') \<and> file_log_rep fb' log pages n \<and>
    fb_file fb' = fb_file fb \<and> fb_path fb' = fb_path fb \<and> fb_wal fb' = fb_wal fb"
proof -
  let ?view = "disk_view log (fb_file fb)"
  have wal: "wal_rep (fb_wal fb) log" and coh: "lru_cache.coherent (fb_cache fb) ?view"
    and view: "?view p = Some (pages p)"
    using rep p by (auto simp: file_log_rep_def)
  have keep: "file_log_rep (fb\<lparr>fb_cache := c\<rparr>) log pages n" if "lru_cache.coherent c ?view" for c
    using rep that by (simp add: file_log_rep_def)
  show ?thesis
  proof (rule lru_cache.get_any [OF coh, of p])
    fix d c' assume hit: "cache_get p (fb_cache fb) = Some (Some d, c')" "lru_cache.coherent c' ?view" "?view p = Some d"
    then show ?thesis using keep [OF hit(2)] view by (simp add: file_read_page_def)
  next
    fix c' assume miss: "cache_get p (fb_cache fb) = Some (None, c')" "lru_cache.coherent c' ?view"
    obtain c'' where put: "cache_put p (pages p) False c' = Some (None, c'')" "lru_cache.coherent c'' ?view"
      using lru_cache.put_load [OF miss(2) view] by blast
    have "try_res (wal_read p (fb_wal fb)) (\<lambda>from_wal. case from_wal of Some d \<Rightarrow> Ok d
        | None \<Rightarrow> file_read_exact (unat p * PAGE_SIZE) PAGE_SIZE (fb_file fb)) = Ok (pages p)"
      using view by (auto simp: wal_read_rep [OF wal] disk_view_def file_page_def file_read_exact_def
          split: option.splits if_splits)
    then show ?thesis
      using miss(1) put keep [OF put(2)] by (simp add: file_read_page_def)
  qed
qed

lemma file_write_page_rep:
  assumes rep: "file_log_rep fb log pages n" and p: "unat p < n'" "n \<le> n'" "n' \<le> Suc n" "n' = Suc n \<longrightarrow> unat p = n"
    and d: "length d = PAGE_SIZE"
  shows "\<exists>fb'. file_write_page p d fb = (Ok (), fb') \<and> file_log_rep fb' (log @ [(p, d)]) (pages(p := d)) n' \<and>
    fb_file fb' = fb_file fb \<and> fb_wal fb' = wal_write p d (fb_wal fb)"
proof -
  let ?view = "disk_view log (fb_file fb)"
  have wal: "wal_rep (wal_write p d (fb_wal fb)) (log @ [(p, d)])" and coh: "lru_cache.coherent (fb_cache fb) ?view"
    using rep wal_write_rep [OF _ d] by (auto simp: file_log_rep_def)
  obtain c where c: "cache_put p d False (fb_cache fb) = Some (None, c)" "lru_cache.coherent c (?view(p \<mapsto> d))"
    using lru_cache.put_write [OF coh] by blast
  have others: "?view q = Some (pages q)" if "unat q < n'" "q \<noteq> p" for q
  proof -
    have "unat q \<noteq> unat p" using that(2) by (simp add: word_unat_eq_iff)
    then have "unat q < n" using that p by auto
    then show ?thesis using rep by (simp add: file_log_rep_def)
  qed
  have "length (fb_file fb) \<le> n' * PAGE_SIZE"
    using rep mult_le_mono1 [OF p(2), of PAGE_SIZE] by (auto simp: file_log_rep_def intro: le_trans)
  moreover have "\<forall>q \<in> dom (latest (log @ [(p, d)])). unat q < n'"
  proof -
    have "\<forall>q \<in> dom (latest log). unat q < n'"
      using rep p(2) unfolding file_log_rep_def by (meson less_le_trans)
    then show ?thesis using p(1) by simp
  qed
  ultimately show ?thesis
    using rep wal c others
    by (simp add: file_write_page_def file_log_rep_def disk_view_write del: latest_simps(2))
qed

lemma page_end_le: "unat (p :: u32) < n \<Longrightarrow> unat p * PAGE_SIZE + PAGE_SIZE \<le> n * PAGE_SIZE"
  using mult_le_mono1 [of "Suc (unat p)" n PAGE_SIZE] by simp

lemma disk_view_eq:
  assumes "file_log_rep fb log pages n"
  shows "disk_view log (fb_file fb) = (\<lambda>p. if unat p < n then Some (pages p) else None)"
proof
  fix p
  show "disk_view log (fb_file fb) p = (if unat p < n then Some (pages p) else None)"
  proof (cases "unat p < n")
    case True
    then show ?thesis using assms by (simp add: file_log_rep_def)
  next
    case False
    then have "latest log p = None" using assms by (auto simp: file_log_rep_def)
    moreover have "n * PAGE_SIZE < unat p * PAGE_SIZE + PAGE_SIZE"
      using False mult_le_mono1 [of n "unat p" PAGE_SIZE] by (simp add: PAGE_SIZE_def)
    then have "file_page (fb_file fb) p = None"
      using assms by (simp add: file_log_rep_def file_page_def)
    ultimately show ?thesis using False by (simp add: disk_view_def)
  qed
qed

text \<open>Flushing empties the log and leaves every page as it was; the file then holds them all.\<close>

lemma file_flush_rep:
  assumes rep: "file_log_rep fb log pages n" and n: "n < 2 ^ 32" "unat lc = n"
  shows "\<exists>fb'. file_flush lc fb = (Ok (), fb') \<and> file_log_rep fb' [] pages n \<and> wal_is_empty (fb_wal fb') \<and>
    (wal_is_empty (fb_wal fb) \<or> length (fb_file fb') = n * PAGE_SIZE)"
proof (cases "wal_is_empty (fb_wal fb)")
  case True
  then show ?thesis using rep wal_empty_rep [of "fb_wal fb" log] by (auto simp: file_flush_def file_log_rep_def)
next
  case False
  have wal: "wal_rep (fb_wal fb) log" using rep by (simp add: file_log_rep_def)
  obtain k where k: "length (fb_file fb) = k * PAGE_SIZE" "k \<le> n"
    using rep by (auto simp: file_log_rep_def PAGE_SIZE_def dvd_def mult.commute)
  then have fp: "unat (of_nat (length (fb_file fb) div PAGE_SIZE) :: u32) = k"
    using n(1) by (simp add: PAGE_SIZE_def unat_of_nat_small)
  define padded where "padded = fb_file fb @ concat (replicate (n - k) (replicate PAGE_SIZE 0))"
  have pad: "(if lc > of_nat (length (fb_file fb) div PAGE_SIZE)
      then fb_file fb @ concat (replicate (unat lc - unat (of_nat (length (fb_file fb) div PAGE_SIZE) :: u32)) (replicate PAGE_SIZE 0))
      else fb_file fb) = padded"
    using n(2) k(2) by (simp add: fp word_less_nat_alt padded_def)
  have len: "length padded = n * PAGE_SIZE"
    using k by (simp add: padded_def length_concat sum_list_replicate add_mult_distrib [symmetric])
  obtain wal' file' where ck: "wal_checkpoint (fb_wal fb) padded = (Ok (), wal', file')" "wal_rep wal' []"
      "\<And>p d. latest log p = Some d \<Longrightarrow> file_page file' p = Some d"
      "\<And>p d. latest log p = None \<Longrightarrow> file_page padded p = Some d \<Longrightarrow> file_page file' p = Some d"
      "\<And>m. length file' \<le> m \<longleftrightarrow> length padded \<le> m \<and> fits_pages (dom (latest log)) m"
    using checkpoint_rep [OF wal, of padded] by blast
  have "fits_pages (dom (latest log)) (n * PAGE_SIZE)"
    using rep page_end_le unfolding file_log_rep_def fits_pages_def by blast
  then have len': "length file' = n * PAGE_SIZE"
    using ck(5) [of "n * PAGE_SIZE"] ck(5) [of "length file'"] len by simp
  have pages: "file_page file' p = Some (pages p)" if "unat p < n" for p
  proof (cases "latest log p")
    case None
    then have "file_page (fb_file fb) p = Some (pages p)"
      using rep that by (auto simp: file_log_rep_def disk_view_def)
    then have "file_page padded p = Some (pages p)"
      by (auto simp: file_page_def padded_def get_bytes_append1 split: if_splits)
    then show ?thesis using ck(4) None by blast
  next
    case (Some d)
    then show ?thesis using rep that ck(3) [OF Some] by (auto simp: file_log_rep_def disk_view_def)
  qed
  have "disk_view log (fb_file fb) \<subseteq>\<^sub>m disk_view [] file'"
    unfolding disk_view_eq [OF rep] using pages by (auto simp: map_le_def disk_view_def split: if_splits)
  then have coh: "lru_cache.coherent (fb_cache fb) (disk_view [] file')"
    using rep lru_cache.coherent_mono by (auto simp: file_log_rep_def)
  let ?fb = "fb\<lparr>fb_file := file', fb_wal := wal'\<rparr>"
  have "file_flush lc fb = (Ok (), ?fb)"
    using False ck(1) pad by (simp add: file_flush_def Let_def)
  moreover have "file_log_rep ?fb [] pages n"
    using ck(2) coh len' pages by (simp add: file_log_rep_def disk_view_def)
  moreover have "wal_is_empty wal'" using wal_empty_rep [OF ck(2)] by simp
  ultimately show ?thesis using len' by (intro exI [of _ ?fb]) simp
qed

section \<open>The memory backend represents a store\<close>

definition memory_rep :: "bytes \<Rightarrow> (u32 \<Rightarrow> bytes) \<Rightarrow> nat \<Rightarrow> bool" where
  "memory_rep data pages n \<longleftrightarrow> length data = n * PAGE_SIZE \<and>
     (\<forall>p. unat p < n \<longrightarrow> file_page data p = Some (pages p))"

lemma memory_read_page_rep:
  assumes "memory_rep data pages n" "unat p < n"
  shows "memory_read_page p data = (Ok (pages p), data)"
  using assms by (auto simp: memory_read_page_def memory_rep_def file_page_def split: if_splits)

lemma memory_write_page_rep:
  assumes "memory_rep data pages n" "unat p < n" "length d = PAGE_SIZE"
  shows "\<exists>data'. memory_write_page p d data = (Ok (), data') \<and> memory_rep data' (pages(p := d)) n"
proof -
  let ?data = "put_bytes (unat p * PAGE_SIZE) d data"
  have fits: "unat p * PAGE_SIZE + PAGE_SIZE \<le> length data"
    using page_end_le [OF assms(2)] assms(1) by (simp add: memory_rep_def)
  have as_file: "?data = file_write_all (unat p * PAGE_SIZE) d data"
    using fits assms(3) by (simp add: file_write_all_def)
  have "file_page ?data q = Some ((pages(p := d)) q)" if "unat q < n" for q
  proof (cases "q = p")
    case True
    then show ?thesis using assms(3) by (simp add: as_file file_page_write_same)
  next
    case False
    then show ?thesis
      using assms(1,3) that unfolding as_file by (simp add: file_page_write_other memory_rep_def)
  qed
  then show ?thesis
    using fits assms by (simp add: memory_write_page_def memory_rep_def)
qed

lemma memory_append_page_rep:
  assumes "memory_rep data pages n" "Suc n < 2 ^ 32" "length d = PAGE_SIZE"
  shows "memory_rep (data @ d) (pages(of_nat n := d)) (Suc n)"
proof -
  have n: "unat (of_nat n :: u32) = n" using assms(2) by (simp add: unat_of_nat_small)
  have len: "length data = n * PAGE_SIZE" using assms(1) by (simp add: memory_rep_def)
  have "file_page (data @ d) q = Some ((pages(of_nat n := d)) q)" if "unat q < Suc n" for q
  proof (cases "q = of_nat n")
    case True
    then show ?thesis using n len assms(3) by (simp add: file_page_def get_bytes_def)
  next
    case False
    then have q: "unat q < n" using that n by (auto simp: word_unat_eq_iff less_Suc_eq)
    then have "file_page data q = Some (pages q)" using assms(1) by (simp add: memory_rep_def)
    then show ?thesis using False by (auto simp: file_page_def get_bytes_append1 split: if_splits)
  qed
  then show ?thesis using len assms(3) by (simp add: memory_rep_def)
qed

section \<open>DatabaseFile represents a store\<close>

definition backend_rep :: "storage_backend \<Rightarrow> (u32 \<Rightarrow> bytes) \<Rightarrow> nat \<Rightarrow> bool" where
  "backend_rep b pages n =
     (case b of FileB fb \<Rightarrow> \<exists>log. file_log_rep fb log pages n | MemoryB data \<Rightarrow> memory_rep data pages n)"

definition db_rep :: "database_file \<Rightarrow> vol \<Rightarrow> bool" where
  "db_rep db v \<longleftrightarrow> vol_ok v \<and> header db = vhdr v \<and> unat (logical_page_count db) = vcount v \<and>
     backend_rep (backend db) (vpage v) (vcount v)"

text \<open>What a rollback can undo: only appends to the log, for the file backend.\<close>

definition wal_extends :: "wal_file \<Rightarrow> wal_file \<Rightarrow> bool" where
  "wal_extends w w' \<longleftrightarrow> (wal_tidy w \<longrightarrow> wal_tidy w') \<and>
     (\<forall>log. wal_rep w log \<longrightarrow> (\<exists>later. wal_rep w' (log @ later)))"

lemma wal_extends_refl: "wal_extends w w"
  unfolding wal_extends_def by (metis append_Nil2)

lemma wal_extends_trans: "wal_extends a b \<Longrightarrow> wal_extends b c \<Longrightarrow> wal_extends a c"
  unfolding wal_extends_def by (metis append.assoc)

lemma wal_extends_write: "length d = PAGE_SIZE \<Longrightarrow> wal_extends w (wal_write p d w)"
  unfolding wal_extends_def using wal_write_rep wal_tidy_write by blast

definition backend_since :: "storage_backend \<Rightarrow> storage_backend \<Rightarrow> bool" where
  "backend_since b b' =
     (case (b, b') of
        (FileB fb, FileB fb') \<Rightarrow> fb_file fb' = fb_file fb \<and> fb_path fb' = fb_path fb \<and>
          wal_extends (fb_wal fb) (fb_wal fb')
      | (MemoryB _, MemoryB _) \<Rightarrow> True
      | _ \<Rightarrow> False)"

definition db_since :: "database_file \<Rightarrow> database_file \<Rightarrow> bool" where
  "db_since db db' = backend_since (backend db) (backend db')"

lemma backend_since_refl: "backend_since b b"
  by (simp add: backend_since_def wal_extends_refl split: storage_backend.split)

lemma backend_since_trans: "backend_since a b \<Longrightarrow> backend_since b c \<Longrightarrow> backend_since a c"
  by (auto simp: backend_since_def split: storage_backend.splits intro: wal_extends_trans)

lemma file_write_handle:
  "fb_path (snd (file_write_page q d fb)) = fb_path fb \<and> fb_wal (snd (file_write_page q d fb)) = wal_write q d (fb_wal fb)"
  by (auto simp: file_write_page_def Let_def split: option.splits prod.splits)

lemma backend_since_same:
  assumes "fb_file fb' = fb_file fb" "fb_path fb' = fb_path fb" "fb_wal fb' = fb_wal fb"
  shows "backend_since (FileB fb) (FileB fb')"
  using assms by (simp add: backend_since_def wal_extends_refl)

lemma backend_read_rep:
  assumes "backend_rep b pages n" "unat p < n"
  shows "\<exists>b'. backend_read_page p b = (Ok (pages p), b') \<and> backend_rep b' pages n \<and> backend_since b b'"
proof (cases b)
  case (FileB fb)
  then obtain log where "file_log_rep fb log pages n" using assms(1) by (auto simp: backend_rep_def)
  from file_read_page_rep [OF this assms(2)] show ?thesis
    using backend_since_same by (fastforce simp: FileB backend_read_page_def on_file_def backend_rep_def)
next
  case (MemoryB data)
  then show ?thesis
    using assms memory_read_page_rep [of data pages n p]
    by (auto simp: backend_read_page_def on_memory_def backend_rep_def backend_since_def)
qed

lemma file_write_since:
  assumes "file_write_page p d fb = (r, fb')" "fb_file fb' = fb_file fb" "length d = PAGE_SIZE"
  shows "backend_since (FileB fb) (FileB fb')"
  using assms wal_extends_write [OF assms(3)] file_write_handle [of p d fb]
  by (simp add: backend_since_def)

lemma backend_write_rep:
  assumes "backend_rep b pages n" "unat p < n" "length d = PAGE_SIZE"
  shows "\<exists>b'. backend_write_page p d b = (Ok (), b') \<and> backend_rep b' (pages(p := d)) n \<and> backend_since b b'"
proof (cases b)
  case (FileB fb)
  then obtain log where "file_log_rep fb log pages n" using assms(1) by (auto simp: backend_rep_def)
  from file_write_page_rep [OF this assms(2) _ _ _ assms(3)] obtain fb' where
      "file_write_page p d fb = (Ok (), fb')" "file_log_rep fb' (log @ [(p, d)]) (pages(p := d)) n"
      "fb_file fb' = fb_file fb" "fb_wal fb' = wal_write p d (fb_wal fb)"
    by auto
  then show ?thesis
    using file_write_since [of p d fb "Ok ()" fb'] assms(3)
    by (auto simp: FileB backend_write_page_def on_file_def backend_rep_def)
next
  case (MemoryB data)
  then show ?thesis
    using assms memory_write_page_rep [of data pages n p d]
    by (auto simp: backend_write_page_def on_memory_def backend_rep_def backend_since_def)
qed

lemma backend_append_rep:
  assumes "backend_rep b pages n" "Suc n < 2 ^ 32" "length d = PAGE_SIZE"
  shows "\<exists>b'. backend_append_page d (of_nat n) b = (Ok (), b') \<and> backend_rep b' (pages(of_nat n := d)) (Suc n) \<and>
    backend_since b b'"
proof (cases b)
  case (FileB fb)
  have n: "unat (of_nat n :: u32) = n" using assms(2) by (simp add: unat_of_nat_small)
  obtain log where "file_log_rep fb log pages n" using FileB assms(1) by (auto simp: backend_rep_def)
  from file_write_page_rep [OF this, of "of_nat n" "Suc n" d] n assms(3) obtain fb' where
      "file_write_page (of_nat n) d fb = (Ok (), fb')"
      "file_log_rep fb' (log @ [(of_nat n, d)]) (pages(of_nat n := d)) (Suc n)"
      "fb_file fb' = fb_file fb" "fb_wal fb' = wal_write (of_nat n) d (fb_wal fb)"
    by auto
  then show ?thesis
    using file_write_since [of "of_nat n" d fb "Ok ()" fb'] assms(3)
    by (auto simp: FileB backend_append_page_def on_file_def backend_rep_def)
next
  case (MemoryB data)
  then show ?thesis
    using assms memory_append_page_rep [of data pages n d]
    by (auto simp: backend_append_page_def backend_rep_def backend_since_def)
qed

lemma backend_flush_rep:
  assumes "backend_rep b pages n" "n < 2 ^ 32" "unat lc = n"
  shows "\<exists>b'. backend_flush lc b = (Ok (), b') \<and> backend_rep b' pages n \<and> backend_wal_is_empty b'"
proof (cases b)
  case (FileB fb)
  then obtain log where "file_log_rep fb log pages n" using assms(1) by (auto simp: backend_rep_def)
  from file_flush_rep [OF this assms(2,3)] show ?thesis
    by (auto simp: FileB backend_flush_def on_file_def backend_rep_def backend_wal_is_empty_def)
qed (use assms in \<open>auto simp: backend_flush_def backend_rep_def backend_wal_is_empty_def\<close>)

lemma db_read_rep:
  assumes "db_rep db v" "mapped v p"
  shows "\<exists>db'. read_page p db = (Ok (vpage v p), db') \<and> db_rep db' v \<and> db_since db db'"
proof -
  obtain b where "backend_read_page p (backend db) = (Ok (vpage v p), b)" "backend_rep b (vpage v) (vcount v)"
      "backend_since (backend db) b"
    using backend_read_rep [of "backend db" "vpage v" "vcount v" p] assms by (auto simp: db_rep_def)
  then show ?thesis using assms by (auto simp: read_page_def on_backend_def db_rep_def db_since_def)
qed

lemma db_write_rep:
  assumes "db_rep db v" "mapped v p" "length d = PAGE_SIZE"
  shows "\<exists>db'. write_page p d db = (Ok (), db') \<and> db_rep db' (vput p d v) \<and> db_since db db'"
proof -
  obtain b where "backend_write_page p d (backend db) = (Ok (), b)"
      "backend_rep b ((vpage v)(p := d)) (vcount v)" "backend_since (backend db) b"
    using backend_write_rep [of "backend db" "vpage v" "vcount v" p d] assms by (auto simp: db_rep_def)
  then show ?thesis
    using assms vol_ok_vput [of v d p] by (auto simp: write_page_def on_backend_def db_rep_def db_since_def)
qed

lemma db_append_rep:
  assumes "db_rep db v" "Suc (vcount v) < 2 ^ 32" "length d = PAGE_SIZE"
  shows "\<exists>db'. append_page d db = (Ok (of_nat (vcount v)), db') \<and> db_rep db' (vappend d v) \<and> db_since db db'"
proof -
  have lc: "logical_page_count db = of_nat (vcount v)"
    using assms(1) unat_of_nat_small [of "vcount v"] by (simp add: db_rep_def vol_ok_def word_unat_eq_iff)
  obtain b where b: "backend_append_page d (of_nat (vcount v)) (backend db) = (Ok (), b)"
      "backend_rep b ((vpage v)(of_nat (vcount v) := d)) (Suc (vcount v))" "backend_since (backend db) b"
    using backend_append_rep [of "backend db" "vpage v" "vcount v" d] assms by (auto simp: db_rep_def)
  have "unat (of_nat (vcount v) + 1 :: u32) = Suc (vcount v)"
    using unat_of_nat_small [OF assms(2)] by (simp add: add.commute)
  then show ?thesis
    using assms vol_ok_vappend [of v d] b lc
    by (auto simp: append_page_def Let_def bnd_def on_backend_def db_rep_def db_since_def)
qed

definition set_header :: "file_header \<Rightarrow> database_file \<Rightarrow> database_file" where
  "set_header h db = db\<lparr>header := h\<rparr>"

lemma db_set_header_rep:
  "db_rep db v \<Longrightarrow> db_rep (set_header h db) (v\<lparr>vhdr := h\<rparr>) \<and> db_since db (set_header h db)"
  by (simp add: db_rep_def vol_ok_hdr set_header_def db_since_def backend_since_refl)

interpretation db: paged_store db_rep db_since read_page write_page append_page header set_header
proof unfold_locales
  show "db_since db db" for db by (simp add: db_since_def backend_since_refl)
  show "db_since a b \<Longrightarrow> db_since b c \<Longrightarrow> db_since a c" for a b c
    by (auto simp: db_since_def intro: backend_since_trans)
  show "db_rep db v \<Longrightarrow> vol_ok v" for db v by (simp add: db_rep_def)
  show "db_rep db v \<Longrightarrow> header db = vhdr v" for db v by (simp add: db_rep_def)
qed (auto simp: db_read_rep db_write_rep db_append_rep db_set_header_rep)

abbreviation db_does :: "(database_file, 'a) op \<Rightarrow> vol \<Rightarrow> 'a res \<Rightarrow> vol \<Rightarrow> bool" where
  "db_does \<equiv> does db_rep db_since"

text \<open>Writing the header back installs its serialisation on page 0.\<close>

definition vsave_header :: "file_header \<Rightarrow> vol \<Rightarrow> vol" where
  "vsave_header h v = vput 0 (header_serialize h) (v\<lparr>vhdr := h\<rparr>)"

lemma does_write_header: "0 < vcount v \<Longrightarrow> db_does write_header v (Ok ()) (vput 0 (header_serialize (vhdr v)) v)"
  unfolding write_header_def
  by (rule db.does_gets_with [where k = "\<lambda>h. write_page 0 (header_serialize h)"]) (simp add: db.does_write)

lemma does_save_header:
  assumes "0 < vcount v"
  shows "db_does (bnd (modify (\<lambda>db. db\<lparr>header := g (header db)\<rparr>)) (\<lambda>_. write_header)) v (Ok ())
    (vsave_header (g (vhdr v)) v)"
proof -
  have "db_does (modify (\<lambda>db. db\<lparr>header := g (header db)\<rparr>)) v (Ok ()) (v\<lparr>vhdr := g (vhdr v)\<rparr>)"
    using db_set_header_rep [of _ v "g (vhdr v)"] by (auto simp: does_def set_header_def db_rep_def)
  moreover have "db_does write_header (v\<lparr>vhdr := g (vhdr v)\<rparr>) (Ok ()) (vsave_header (g (vhdr v)) v)"
    using does_write_header [of "v\<lparr>vhdr := g (vhdr v)\<rparr>"] assms by (simp add: vsave_header_def)
  ultimately show ?thesis by (rule db.does_bnd)
qed

section \<open>Rollback\<close>

lemma backend_restore_rep:
  assumes "backend_rep b pages n" "backend_since b b'" "backend_rep b' pages' n'"
  shows "backend_rep (backend (restore (snapshot \<lparr>backend = b, header = h, logical_page_count = c\<rparr>)
    \<lparr>backend = b', header = h', logical_page_count = c'\<rparr>)) pages n"
proof (cases b)
  case (FileB fb)
  then obtain fb' where b': "b' = FileB fb'" using assms(2) by (cases b') (auto simp: backend_since_def)
  obtain log where log: "file_log_rep fb log pages n" using assms(1) FileB by (auto simp: backend_rep_def)
  then have wal: "wal_rep (fb_wal fb) log" by (simp add: file_log_rep_def)
  then obtain later where later: "wal_rep (fb_wal fb') (log @ later)" "fb_file fb' = fb_file fb"
    using assms(2) FileB b' by (auto simp: backend_since_def wal_extends_def)
  have "wal_rep (truncate_to (wal_current_len (fb_wal fb)) (fb_wal fb')) log"
    using wal.truncate_law [OF later(1) wal] .
  moreover have "cache_clean (fb_cache fb')"
    using assms(3) b' lru_cache.coherent_ok by (auto simp: backend_rep_def file_log_rep_def)
  then have "lru_cache.coherent (cache_clear (fb_cache fb')) (disk_view log (fb_file fb))"
    by (rule lru_cache.clear_coherent)
  ultimately show ?thesis
    using log later(2) FileB b' by (auto simp: backend_rep_def restore_def snapshot_def file_log_rep_def)
next
  case (MemoryB data)
  then obtain data' where "b' = MemoryB data'" using assms(2) by (cases b') (auto simp: backend_since_def)
  then show ?thesis using assms(1) MemoryB by (simp add: backend_rep_def restore_def snapshot_def)
qed

lemma restore_rep:
  assumes "db_rep db v" "db_since db db'" "db_rep db' v'"
  shows "db_rep (restore (snapshot db) db') v"
proof -
  obtain b h c where db: "db = \<lparr>backend = b, header = h, logical_page_count = c\<rparr>" by (cases db) simp
  obtain b' h' c' where db': "db' = \<lparr>backend = b', header = h', logical_page_count = c'\<rparr>" by (cases db') simp
  have "backend_rep (backend (restore (snapshot db) db')) (vpage v) (vcount v)"
    using assms backend_restore_rep [of b "vpage v" "vcount v" b' "vpage v'" "vcount v'" h c h' c']
    by (simp add: db db' db_rep_def db_since_def)
  moreover have "header (restore (snapshot db) db') = header db"
      "logical_page_count (restore (snapshot db) db') = logical_page_count db"
    using assms(2) by (auto simp: restore_def snapshot_def db_since_def backend_since_def Let_def
        split: storage_backend.splits)
  ultimately show ?thesis using assms(1) by (simp add: db_rep_def)
qed

section \<open>Sequences of calls\<close>

text \<open>The calls that the upper layers make on the storage layer, and their effect on a store.\<close>

datatype db_call =
    ReadPage u32
  | WritePage u32 bytes
  | AppendPage bytes
  | SetHeader file_header
  | WriteHeader
  | Flush

datatype db_reply = Page bytes | PageId u32 | Unit

fun exec_call :: "db_call \<Rightarrow> (database_file, db_reply) op" where
  "exec_call (ReadPage p) = bnd (read_page p) (\<lambda>d. ret (Page d))"
| "exec_call (WritePage p d) = bnd (write_page p d) (\<lambda>_. ret Unit)"
| "exec_call (AppendPage d) = bnd (append_page d) (\<lambda>p. ret (PageId p))"
| "exec_call (SetHeader h) = bnd (modify (set_header h)) (\<lambda>_. ret Unit)"
| "exec_call WriteHeader = bnd write_header (\<lambda>_. ret Unit)"
| "exec_call Flush = bnd flush (\<lambda>_. ret Unit)"

fun vol_call :: "db_call \<Rightarrow> vol \<Rightarrow> db_reply \<times> vol" where
  "vol_call (ReadPage p) v = (Page (vpage v p), v)"
| "vol_call (WritePage p d) v = (Unit, vput p d v)"
| "vol_call (AppendPage d) v = (PageId (of_nat (vcount v)), vappend d v)"
| "vol_call (SetHeader h) v = (Unit, v\<lparr>vhdr := h\<rparr>)"
| "vol_call WriteHeader v = (Unit, vput 0 (header_serialize (vhdr v)) v)"
| "vol_call Flush v = (Unit, v)"

text \<open>The calls are made on mapped pages, with whole pages, and do not outgrow the page numbers.\<close>

fun call_ok :: "db_call \<Rightarrow> vol \<Rightarrow> bool" where
  "call_ok (ReadPage p) v \<longleftrightarrow> mapped v p"
| "call_ok (WritePage p d) v \<longleftrightarrow> mapped v p \<and> length d = PAGE_SIZE"
| "call_ok (AppendPage d) v \<longleftrightarrow> Suc (vcount v) < 2 ^ 32 \<and> length d = PAGE_SIZE"
| "call_ok (SetHeader h) v \<longleftrightarrow> True"
| "call_ok WriteHeader v \<longleftrightarrow> 0 < vcount v"
| "call_ok Flush v \<longleftrightarrow> True"

fun db_run :: "db_call list \<Rightarrow> database_file \<Rightarrow> db_reply list res \<times> database_file" where
  "db_run [] db = (Ok [], db)"
| "db_run (k # ks) db = bnd (exec_call k) (\<lambda>r. bnd (db_run ks) (\<lambda>rs. ret (r # rs))) db"

fun vol_run :: "db_call list \<Rightarrow> vol \<Rightarrow> db_reply list \<times> vol" where
  "vol_run [] v = ([], v)"
| "vol_run (k # ks) v = (let (r, v) = vol_call k v; (rs, v) = vol_run ks v in (r # rs, v))"

fun calls_ok :: "db_call list \<Rightarrow> vol \<Rightarrow> bool" where
  "calls_ok [] v \<longleftrightarrow> True"
| "calls_ok (k # ks) v \<longleftrightarrow> call_ok k v \<and> calls_ok ks (snd (vol_call k v))"

lemma flush_rep:
  assumes "db_rep db v"
  shows "\<exists>db'. flush db = (Ok (), db') \<and> db_rep db' v \<and> db_wal_is_empty db'"
proof -
  have n: "vcount v < 2 ^ 32" "unat (logical_page_count db) = vcount v"
      "backend_rep (backend db) (vpage v) (vcount v)"
    using assms by (auto simp: db_rep_def vol_ok_def)
  from backend_flush_rep [OF n(3,1,2)] show ?thesis
    using assms by (auto simp: flush_def on_backend_def db_rep_def db_wal_is_empty_def)
qed

lemma memory_flush_since: "is_in_memory db \<Longrightarrow> db_since db (snd (flush db))"
  by (simp add: is_in_memory_def flush_def on_backend_def backend_flush_def db_since_def backend_since_def
      split: storage_backend.splits)

lemma since_in_memory: "db_since db db' \<Longrightarrow> is_in_memory db' = is_in_memory db"
  by (auto simp: is_in_memory_def db_since_def backend_since_def split: storage_backend.splits)

lemma db_call_rep:
  assumes "db_rep db v" "call_ok k v"
  shows "\<exists>db'. exec_call k db = (Ok (fst (vol_call k v)), db') \<and> db_rep db' (snd (vol_call k v)) \<and>
    (k \<noteq> Flush \<or> is_in_memory db \<longrightarrow> db_since db db')"
proof (cases k)
  case (ReadPage p)
  then show ?thesis using assms db_read_rep [of db v p] by (auto simp: bnd_def)
next
  case (WritePage p d)
  then show ?thesis using assms db_write_rep [of db v p d] by (auto simp: bnd_def)
next
  case (AppendPage d)
  then show ?thesis using assms db_append_rep [of db v d] by (auto simp: bnd_def)
next
  case (SetHeader h)
  then show ?thesis using assms db_set_header_rep [of db v h] by (auto simp: bnd_def)
next
  case WriteHeader
  then show ?thesis using assms does_write_header [of v] by (auto simp: bnd_def does_def)
next
  case Flush
  then show ?thesis using flush_rep [OF assms(1)] memory_flush_since [of db] by (auto simp: bnd_def)
qed

lemma db_run_rep:
  assumes "db_rep db v" "calls_ok ks v"
  shows "\<exists>db'. db_run ks db = (Ok (fst (vol_run ks v)), db') \<and> db_rep db' (snd (vol_run ks v)) \<and>
    (Flush \<notin> set ks \<or> is_in_memory db \<longrightarrow> db_since db db')"
  using assms
proof (induction ks arbitrary: db v)
  case Nil
  then show ?case by (auto intro: db.R_refl)
next
  case (Cons k ks)
  obtain db1 where step: "exec_call k db = (Ok (fst (vol_call k v)), db1)" "db_rep db1 (snd (vol_call k v))"
      "k \<noteq> Flush \<or> is_in_memory db \<longrightarrow> db_since db db1"
    using db_call_rep [of db v k] Cons.prems by auto
  obtain db2 where rest: "db_run ks db1 = (Ok (fst (vol_run ks (snd (vol_call k v)))), db2)"
      "db_rep db2 (snd (vol_run ks (snd (vol_call k v))))" "Flush \<notin> set ks \<or> is_in_memory db1 \<longrightarrow> db_since db1 db2"
    using Cons.IH [OF step(2)] Cons.prems by auto
  have "db_run (k # ks) db = (Ok (fst (vol_run (k # ks) v)), db2)"
    using step(1) rest(1) by (simp add: bnd_def case_prod_beta Let_def)
  moreover have "snd (vol_run (k # ks) v) = snd (vol_run ks (snd (vol_call k v)))"
    by (simp add: case_prod_beta Let_def)
  moreover have "Flush \<notin> set (k # ks) \<or> is_in_memory db \<longrightarrow> db_since db db2"
    using step(3) rest(3) db.R_trans since_in_memory by (metis list.set_intros)
  ultimately show ?case using rest(2) by auto
qed

section \<open>Properties\<close>

text \<open>
  C27: DatabaseFile implements the abstract store. From any state that represents a store, with the
  file backend or the memory backend, every sequence of calls on mapped pages (reads, writes,
  appends, header updates and flushes) succeeds without a panic or an error, returns what the store
  holds, and ends in a state that represents the resulting store. So the cache, the log and the
  checkpoints are invisible.
\<close>

theorem database_file_implements_store:
  assumes "db_rep db v" "calls_ok calls v"
  shows "\<exists>db'. db_run calls db = (Ok (fst (vol_run calls v)), db') \<and> db_rep db' (snd (vol_run calls v))"
  using db_run_rep [OF assms] by blast

definition fresh_vol :: vol where
  "fresh_vol = \<lparr>vpage = (\<lambda>_. header_serialize header_new), vcount = 1, vhdr = header_new\<rparr>"

lemma fresh_vol_ok: "vol_ok fresh_vol"
  by (simp add: vol_ok_def fresh_vol_def)

lemma create_in_memory_rep: "db_rep create_in_memory fresh_vol"
proof -
  have "backend_rep (MemoryB (header_serialize header_new)) (\<lambda>_. header_serialize header_new) 1"
    using get_bytes_all [of "header_serialize header_new"]
    by (simp add: backend_rep_def memory_rep_def file_page_def)
  then show ?thesis
    using fresh_vol_ok by (simp add: db_rep_def create_in_memory_def) (simp add: fresh_vol_def)
qed

theorem database_file_implements_store_witness:
  "\<exists>db'. db_run [AppendPage (replicate PAGE_SIZE 7), WritePage 0 (replicate PAGE_SIZE 9), Flush, ReadPage 1] create_in_memory
     = (Ok [PageId 1, Unit, Unit, Page (replicate PAGE_SIZE 7)], db')"
  using database_file_implements_store [OF create_in_memory_rep,
      of "[AppendPage (replicate PAGE_SIZE 7), WritePage 0 (replicate PAGE_SIZE 9), Flush, ReadPage 1]"]
  by (auto simp: fresh_vol_def Let_def)

text \<open>
  C25: rollback is exact. After any sequence of calls on mapped pages, restoring the snapshot taken before
  it gives back the store as it was: every page, the number of pages and the header, cached pages and
  logged pages included. In memory the calls may include flushes; on a file they may not, since a flush
  moves the log into the file, and with it what the snapshot would have to undo.
\<close>

theorem restore_undoes_calls:
  assumes "db_rep db v" "calls_ok calls v" "is_in_memory db \<or> Flush \<notin> set calls"
  shows "\<exists>db'. db_run calls db = (Ok (fst (vol_run calls v)), db') \<and> db_rep (restore (snapshot db) db') v"
  using db_run_rep [OF assms(1,2)] assms(3) restore_rep [OF assms(1)] by blast

theorem restore_undoes_calls_witness:
  "\<exists>db'. db_run [AppendPage (replicate PAGE_SIZE 7), Flush, WritePage 0 (replicate PAGE_SIZE 9)] create_in_memory
     = (Ok [PageId 1, Unit, Unit], db') \<and> db_rep (restore (snapshot create_in_memory) db') fresh_vol"
  using restore_undoes_calls [OF create_in_memory_rep,
      of "[AppendPage (replicate PAGE_SIZE 7), Flush, WritePage 0 (replicate PAGE_SIZE 9)]"]
  by (auto simp: fresh_vol_def Let_def is_in_memory_def create_in_memory_def)

end
