(* ===== verification/Database_Open.thy ===== *)
theory Database_Open
  imports Database_File
begin

text \<open>
  Creating, opening and closing a database file (\<^verbatim>\<open>storage/file.rs\<close>): the process-wide registry of
  open paths, the lock file, the recovery that checkpoints a leftover log before the header is read,
  and what closing gives back. The file system is a map from file identities to contents; the
  function that takes a path to the file it names (symbolic links and relative paths resolved) is a
  parameter. While a database is open its two files live in its handle; closing it, or a crash,
  leaves their bytes in the file system.
\<close>

section \<open>The file system and the registry\<close>

record world =
  disk :: "path \<Rightarrow> bytes option"
  locks :: "path set"
  open_files :: "path set"

definition lock_path :: "path \<Rightarrow> path" where
  "lock_path p = p\<lparr>path_name := Some (case path_name p of Some n \<Rightarrow> n @ ''-lock'' | None \<Rightarrow> ''db-lock'')\<rparr>"

definition canonicalize :: "(path \<Rightarrow> path) \<Rightarrow> path \<Rightarrow> world \<Rightarrow> path option" where
  "canonicalize real p w = (if disk w (real p) = None then None else Some (real p))"

definition registry_key :: "(path \<Rightarrow> path) \<Rightarrow> path \<Rightarrow> world \<Rightarrow> path" where
  "registry_key real p w = (case canonicalize real p w of Some c \<Rightarrow> c | None \<Rightarrow> p)"

definition register_path :: "(path \<Rightarrow> path) \<Rightarrow> path \<Rightarrow> (world, unit) op" where
  "register_path real p w =
     (let canonical = registry_key real p w in
      if canonical \<in> open_files w then (Err (IoError WouldBlock), w)
      else (Ok (), w\<lparr>open_files := insert canonical (open_files w)\<rparr>))"

definition unregister_path :: "(path \<Rightarrow> path) \<Rightarrow> path \<Rightarrow> world \<Rightarrow> world" where
  "unregister_path real p w = w\<lparr>open_files := open_files w - {registry_key real p w}\<rparr>"

definition acquire_lock :: "(path \<Rightarrow> path) \<Rightarrow> path \<Rightarrow> (world, path) op" where
  "acquire_lock real p w =
     (let lp = real (lock_path p);
        w = w\<lparr>disk := (disk w)(lp \<mapsto> (case disk w lp of Some f \<Rightarrow> f | None \<Rightarrow> []))\<rparr> in
      if lp \<in> locks w then (Err (IoError WouldBlock), w)
      else (Ok lp, w\<lparr>locks := insert lp (locks w)\<rparr>))"

definition release_lock :: "path \<Rightarrow> world \<Rightarrow> world" where
  "release_lock lp w = w\<lparr>locks := locks w - {lp}\<rparr>"

section \<open>Create, open, close\<close>

definition cache_capacity :: "nat \<Rightarrow> nat" where
  "cache_capacity max_memory_bytes = max (max_memory_bytes div PAGE_SIZE) 1"

definition DEFAULT_MAX_MEMORY_BYTES :: nat where
  "DEFAULT_MAX_MEMORY_BYTES = 4 * 1024 * 1024"

definition wal_file_open :: "(path \<Rightarrow> path) \<Rightarrow> path \<Rightarrow> world \<Rightarrow> wal_file \<times> world" where
  "wal_file_open real p w =
     (let wp = real (wal_path p); f = (case disk w wp of Some f \<Rightarrow> f | None \<Rightarrow> []) in
      (wal_open f, w\<lparr>disk := (disk w)(wp \<mapsto> f)\<rparr>))"

definition create_inner :: "(path \<Rightarrow> path) \<Rightarrow> path \<Rightarrow> nat \<Rightarrow> (world, database_file) op" where
  "create_inner real p opts =
     bnd (acquire_lock real p) (\<lambda>lock w.
       if disk w (real p) \<noteq> None then (Err (IoError AlreadyExists), release_lock lock w)
       else
         let header_bytes = header_serialize header_new;
           w = w\<lparr>disk := (disk w)(real p \<mapsto> header_bytes)\<rparr>;
           (wal, w) = wal_file_open real p w
         in (Ok \<lparr>backend = FileB \<lparr>fb_file = header_bytes, fb_path = p, fb_wal = wal,
                   fb_cache = cache_new (cache_capacity opts)\<rparr>,
                 header = header_new, logical_page_count = 1\<rparr>, w))"

definition create_with_options :: "(path \<Rightarrow> path) \<Rightarrow> path \<Rightarrow> nat \<Rightarrow> (world, database_file) op" where
  "create_with_options real p opts =
     bnd (register_path real p) (\<lambda>_ w.
       case create_inner real p opts w of
         (Inr db, w) \<Rightarrow> (Ok db, w)
       | (Inl e, w) \<Rightarrow> (Inl e, unregister_path real p w))"

definition create :: "(path \<Rightarrow> path) \<Rightarrow> path \<Rightarrow> (world, database_file) op" where
  "create real p = create_with_options real p DEFAULT_MAX_MEMORY_BYTES"

definition open_inner :: "(path \<Rightarrow> path) \<Rightarrow> path \<Rightarrow> nat \<Rightarrow> (world, database_file) op" where
  "open_inner real p opts =
     bnd (acquire_lock real p) (\<lambda>lock w.
       case disk w (real p) of
         None \<Rightarrow> (Err (IoError NotFound), release_lock lock w)
       | Some f \<Rightarrow>
           let (wal, w) = wal_file_open real p w;
             (r, wal, f) = (if wal_is_empty wal then (Ok (), wal, f) else wal_checkpoint wal f);
             w = w\<lparr>disk := (disk w)(real p \<mapsto> f, real (wal_path p) \<mapsto> wal_bytes wal)\<rparr>;
             opened = try_res r (\<lambda>_.
               try_res (file_read_exact 0 PAGE_SIZE f) (\<lambda>buf.
               try_res (header_deserialize buf) (\<lambda>h.
                 Ok \<lparr>backend = FileB \<lparr>fb_file = f, fb_path = p, fb_wal = wal,
                       fb_cache = cache_new (cache_capacity opts)\<rparr>,
                     header = h, logical_page_count = of_nat (length f div PAGE_SIZE)\<rparr>)))
           in (case opened of Inr db \<Rightarrow> (Ok db, w) | Inl e \<Rightarrow> (Inl e, release_lock lock w)))"

definition open_with_options :: "(path \<Rightarrow> path) \<Rightarrow> path \<Rightarrow> nat \<Rightarrow> (world, database_file) op" where
  "open_with_options real p opts =
     bnd (register_path real p) (\<lambda>_ w.
       case open_inner real p opts w of
         (Inr db, w) \<Rightarrow> (Ok db, w)
       | (Inl e, w) \<Rightarrow> (Inl e, unregister_path real p w))"

definition open_default :: "(path \<Rightarrow> path) \<Rightarrow> path \<Rightarrow> (world, database_file) op" where
  "open_default real p = open_with_options real p DEFAULT_MAX_MEMORY_BYTES"

text \<open>Dropping a handle: the path is unregistered, then the file handles and the lock are released.\<close>

definition drop_database :: "(path \<Rightarrow> path) \<Rightarrow> database_file \<Rightarrow> world \<Rightarrow> world" where
  "drop_database real db w =
     (case backend db of
        MemoryB _ \<Rightarrow> w
      | FileB fb \<Rightarrow>
          let p = fb_path fb;
            w = w\<lparr>disk := (disk w)(real p \<mapsto> fb_file fb, real (wal_path p) \<mapsto> wal_bytes (fb_wal fb))\<rparr>
          in release_lock (real (lock_path p)) (unregister_path real p w))"

text \<open>A crash of the process: the operating system drops the locks, the registry is gone.\<close>

definition crash :: "(path \<Rightarrow> path) \<Rightarrow> database_file \<Rightarrow> world \<Rightarrow> world" where
  "crash real db w = (drop_database real db w)\<lparr>locks := {}, open_files := {}\<rparr>"

section \<open>Facts\<close>

text \<open>The three files of a database are different files.\<close>

definition separate :: "(path \<Rightarrow> path) \<Rightarrow> path \<Rightarrow> bool" where
  "separate real p \<longleftrightarrow> distinct [real p, real (wal_path p), real (lock_path p)]"

lemma capacity_fits:
  assumes "opts < 2 ^ 64"
  shows "cache_capacity opts \<le> NIL"
proof -
  have "opts div PAGE_SIZE < 2 ^ 64" using div_le_dividend assms by (rule le_less_trans)
  then show ?thesis by (simp add: cache_capacity_def NIL_def)
qed

lemma fresh_cache:
  assumes "opts < 2 ^ 64"
  shows "lru_cache.coherent (cache_new (cache_capacity opts)) view"
  using cache_new_clean [OF capacity_fits [OF assms]] cache_new_ok(2)
  by (simp add: lru_cache.coherent_def)

text \<open>What recovery finds in the two files of a database.\<close>

lemma recovered_rep:
  assumes rep: "file_log_rep fb log pages n" and n: "0 < n" "n < 2 ^ 32" and opts: "opts < 2 ^ 64"
    and wal: "wal_rep wal log"
  shows "\<exists>wal' f'. (if wal_is_empty wal then (Ok (), wal, fb_file fb) else wal_checkpoint wal (fb_file fb)) = (Ok (), wal', f') \<and>
    length f' = n * PAGE_SIZE \<and>
    file_log_rep \<lparr>fb_file = f', fb_path = p, fb_wal = wal', fb_cache = cache_new (cache_capacity opts)\<rparr> [] pages n"
proof -
  have pages: "disk_view log (fb_file fb) q = Some (pages q)" if "unat q < n" for q
    using rep that by (simp add: file_log_rep_def)
  have len: "length (fb_file fb) \<le> n * PAGE_SIZE" using rep by (simp add: file_log_rep_def)
  have last: "unat (of_nat (n - 1) :: u32) = n - 1" by (rule unat_of_nat_small) (use n in simp)
  have n_size: "(n - 1) * PAGE_SIZE + PAGE_SIZE = n * PAGE_SIZE"
    using n(1) mult_Suc [of "n - 1" PAGE_SIZE] by simp
  have full: "n * PAGE_SIZE \<le> length f" if "file_page f (of_nat (n - 1)) \<noteq> None" for f
    using that n_size last by (auto simp: file_page_def simp del: One_nat_def split: if_splits)
  have fin: "file_log_rep \<lparr>fb_file = f', fb_path = p, fb_wal = wal', fb_cache = cache_new (cache_capacity opts)\<rparr> [] pages n"
    if "wal_rep wal' []" "length f' = n * PAGE_SIZE" "\<And>q. unat q < n \<Longrightarrow> file_page f' q = Some (pages q)" for wal' f'
    using that fresh_cache [OF opts] by (simp add: file_log_rep_def disk_view_def)
  show ?thesis
  proof (cases "wal_is_empty wal")
    case True
    then have log: "log = []" using wal_empty_rep [OF wal] by simp
    then have "file_page (fb_file fb) q = Some (pages q)" if "unat q < n" for q
      using pages [OF that] by (simp add: disk_view_def)
    moreover from this [of "of_nat (n - 1)"] have "length (fb_file fb) = n * PAGE_SIZE"
      using full [of "fb_file fb"] len n(1) last by simp
    ultimately show ?thesis using True fin wal log by simp
  next
    case False
    obtain wal' f' where ck: "wal_checkpoint wal (fb_file fb) = (Ok (), wal', f')" "wal_rep wal' []"
        "\<And>q d. latest log q = Some d \<Longrightarrow> file_page f' q = Some d"
        "\<And>q d. latest log q = None \<Longrightarrow> file_page (fb_file fb) q = Some d \<Longrightarrow> file_page f' q = Some d"
        "\<And>m. length f' \<le> m \<longleftrightarrow> length (fb_file fb) \<le> m \<and> fits_pages (dom (latest log)) m"
      using checkpoint_rep [OF wal, of "fb_file fb"] by blast
    have got: "file_page f' q = Some (pages q)" if "unat q < n" for q
      using pages [OF that] ck(3) [of q] ck(4) [of q] by (auto simp: disk_view_def split: option.splits)
    have "fits_pages (dom (latest log)) (n * PAGE_SIZE)"
      using rep page_end_le unfolding file_log_rep_def fits_pages_def by blast
    then have "length f' \<le> n * PAGE_SIZE" using ck(5) len by simp
    moreover have "n * PAGE_SIZE \<le> length f'" using got [of "of_nat (n - 1)"] full n(1) last by simp
    ultimately show ?thesis using False fin [OF ck(2) _ got] ck(1) by simp
  qed
qed

text \<open>The version and the header of a store are those of its page 0.\<close>

definition header_saved :: "vol \<Rightarrow> bool" where
  "header_saved v \<longleftrightarrow> 0 < vcount v \<and> vpage v 0 = header_serialize (vhdr v) \<and> version (vhdr v) = VERSION"

lemma unregister_simps [simp]:
  "disk (unregister_path real p w) = disk w" "locks (unregister_path real p w) = locks w"
  "disk (release_lock lp w) = disk w" "open_files (release_lock lp w) = open_files w"
  by (simp_all add: unregister_path_def release_lock_def)

lemma open_inner_recovers:
  assumes rep: "db_rep db v" and saved: "header_saved v" and fb: "backend db = FileB fb"
    and w: "disk w (real p) = Some (fb_file fb)" "disk w (real (wal_path p)) = Some log_bytes"
      "real (lock_path p) \<notin> locks w"
    and log: "\<exists>log. file_log_rep fb log (vpage v) (vcount v) \<and> valid_prefix log_bytes = log"
    and sep: "separate real p" and opts: "opts < 2 ^ 64"
  shows "\<exists>db' w'. open_inner real p opts w = (Ok db', w') \<and> db_rep db' v \<and>
    locks w' = insert (real (lock_path p)) (locks w) \<and> open_files w' = open_files w"
proof -
  obtain log where log: "file_log_rep fb log (vpage v) (vcount v)" "valid_prefix log_bytes = log"
    using log by blast
  have wal: "wal_rep (wal_open log_bytes) log" using wal_open_rep(1) [of log_bytes] log(2) by simp
  have ok: "vol_ok v" "0 < vcount v" "vcount v < 2 ^ 32" using rep saved
    by (auto simp: db_rep_def vol_ok_def header_saved_def)
  obtain wal' f' where r: "(if wal_is_empty (wal_open log_bytes) then (Ok (), wal_open log_bytes, fb_file fb)
        else wal_checkpoint (wal_open log_bytes) (fb_file fb)) = (Ok (), wal', f')"
      "length f' = vcount v * PAGE_SIZE"
      "file_log_rep \<lparr>fb_file = f', fb_path = p, fb_wal = wal', fb_cache = cache_new (cache_capacity opts)\<rparr> []
        (vpage v) (vcount v)"
    using recovered_rep [OF log(1) ok(2,3) opts wal] by blast
  have "file_page f' 0 = Some (header_serialize (vhdr v))"
    using r(3) ok(2) saved by (auto simp: file_log_rep_def disk_view_def header_saved_def)
  then have hdr: "file_read_exact 0 PAGE_SIZE f' = Ok (header_serialize (vhdr v))"
    by (simp add: file_page_def file_read_exact_def split: if_splits)
  have deser: "header_deserialize (header_serialize (vhdr v)) = Ok (vhdr v)"
    using saved by (simp add: header_roundtrip_eq header_saved_def)
  have count: "of_nat (length f' div PAGE_SIZE) = (of_nat (vcount v) :: u32)"
    using r(2) by (simp add: PAGE_SIZE_def)
  let ?db = "\<lparr>backend = FileB \<lparr>fb_file = f', fb_path = p, fb_wal = wal', fb_cache = cache_new (cache_capacity opts)\<rparr>,
      header = vhdr v, logical_page_count = of_nat (vcount v)\<rparr>"
  have "db_rep ?db v"
    using ok r(3) by (auto simp: db_rep_def backend_rep_def unat_of_nat_small)
  moreover have "\<exists>w'. open_inner real p opts w = (Ok ?db, w') \<and>
      locks w' = insert (real (lock_path p)) (locks w) \<and> open_files w' = open_files w"
    using w sep r(1) hdr deser count
    by (simp add: open_inner_def acquire_lock_def separate_def bnd_def wal_file_open_def Let_def)
  ultimately show ?thesis by blast
qed

definition handle_ok :: "path \<Rightarrow> database_file \<Rightarrow> bool" where
  "handle_ok p db \<longleftrightarrow> (\<exists>fb. backend db = FileB fb \<and> fb_path fb = p \<and> wal_tidy (fb_wal fb))"

lemma handle_read:
  assumes "handle_ok p db" shows "handle_ok p (snd (read_page q db))"
proof -
  have "fb_path (snd (file_read_page q fb)) = fb_path fb \<and> fb_wal (snd (file_read_page q fb)) = fb_wal fb" for fb
    by (auto simp: file_read_page_def Let_def split: option.splits sum.splits prod.splits)
  then show ?thesis
    using assms by (auto simp: handle_ok_def read_page_def on_backend_def backend_read_page_def on_file_def
        split: prod.splits) (metis snd_conv)+
qed

lemma handle_write:
  assumes "handle_ok p db" "length d = PAGE_SIZE" shows "handle_ok p (snd (write_page q d db))"
  using assms file_write_handle [of q d] wal_tidy_write [of _ d q]
  by (auto simp: handle_ok_def write_page_def on_backend_def backend_write_page_def on_file_def
      split: prod.splits) (metis snd_conv)+

lemma handle_append:
  assumes "handle_ok p db" "length d = PAGE_SIZE" shows "handle_ok p (snd (append_page d db))"
  using assms file_write_handle [of _ d] wal_tidy_write [of _ d]
  by (auto simp: handle_ok_def append_page_def Let_def bnd_def on_backend_def backend_append_page_def on_file_def
      split: prod.splits sum.splits) (metis snd_conv)+

lemma handle_flush:
  assumes "handle_ok p db" shows "handle_ok p (snd (flush db))"
proof -
  have "fb_path (snd (file_flush lc fb)) = fb_path fb \<and> wal_tidy (fb_wal (snd (file_flush lc fb)))"
    if "wal_tidy (fb_wal fb)" for lc fb
    using that by (auto simp: file_flush_def Let_def split: prod.splits intro: wal_tidy_checkpoint)
  then show ?thesis
    using assms by (auto simp: handle_ok_def flush_def on_backend_def backend_flush_def on_file_def
        split: prod.splits) (metis snd_conv)+
qed

lemma snd_bnd_ret: "snd (bnd m (\<lambda>x. ret (g x)) s) = snd (m s)"
  by (auto simp: bnd_def split: prod.splits sum.splits)

lemma handle_call:
  assumes "handle_ok p db" "call_ok k v"
  shows "handle_ok p (snd (exec_call k db))"
proof (cases k)
  case (SetHeader h)
  then show ?thesis using assms(1) by (simp add: handle_ok_def set_header_def)
next
  case WriteHeader
  then show ?thesis
    using assms(1) by (simp add: snd_bnd_ret write_header_def handle_write)
qed (use assms in \<open>simp_all add: snd_bnd_ret handle_read handle_write handle_append handle_flush\<close>)

lemma handle_run:
  assumes "db_rep db v" "handle_ok p db" "calls_ok ks v"
  shows "handle_ok p (snd (db_run ks db))"
  using assms
proof (induction ks arbitrary: db v)
  case (Cons k ks)
  obtain db1 where step: "exec_call k db = (Ok (fst (vol_call k v)), db1)" "db_rep db1 (snd (vol_call k v))"
    using db_call_rep [of db v k] Cons.prems by auto
  moreover have "handle_ok p db1" using handle_call [of p db k v] Cons.prems step(1) by simp
  ultimately have "handle_ok p (snd (db_run ks db1))"
    using Cons.prems(3) by (intro Cons.IH) auto
  then show ?case using step(1) by (simp add: bnd_Ok snd_bnd_ret)
qed simp

lemma fresh_file_rep:
  assumes "opts < 2 ^ 64" "wal_rep wal []"
  shows "db_rep \<lparr>backend = FileB \<lparr>fb_file = header_serialize header_new, fb_path = p, fb_wal = wal,
      fb_cache = cache_new (cache_capacity opts)\<rparr>, header = header_new, logical_page_count = 1\<rparr> fresh_vol"
proof -
  have "file_page (header_serialize header_new) q = Some (header_serialize header_new)" if "unat q < 1" for q
    using that get_bytes_all [of "header_serialize header_new"] by (simp add: file_page_def)
  then have "file_log_rep \<lparr>fb_file = header_serialize header_new, fb_path = p, fb_wal = wal,
      fb_cache = cache_new (cache_capacity opts)\<rparr> [] (\<lambda>_. header_serialize header_new) 1"
    using assms fresh_cache [OF assms(1)] by (simp add: file_log_rep_def disk_view_def)
  then have "backend_rep (FileB \<lparr>fb_file = header_serialize header_new, fb_path = p, fb_wal = wal,
      fb_cache = cache_new (cache_capacity opts)\<rparr>) (\<lambda>_. header_serialize header_new) 1"
    by (auto simp: backend_rep_def)
  then show ?thesis using fresh_vol_ok by (simp add: db_rep_def) (simp add: fresh_vol_def)
qed

lemma valid_prefix_Nil [simp]: "valid_prefix [] = []"
  using valid_prefix_enc_log [of "[]" "[]"] by (simp add: short_not_valid)

definition can_create :: "(path \<Rightarrow> path) \<Rightarrow> path \<Rightarrow> nat \<Rightarrow> world \<Rightarrow> bool" where
  "can_create real p opts w \<longleftrightarrow> separate real p \<and> opts < 2 ^ 64 \<and> disk w (real p) = None \<and>
     disk w (real (wal_path p)) \<in> {None, Some []} \<and> real (lock_path p) \<notin> locks w \<and> p \<notin> open_files w"

lemma create_fresh:
  assumes "can_create real p opts w"
  shows "\<exists>db w'. create_with_options real p opts w = (Ok db, w') \<and> db_rep db fresh_vol \<and> handle_ok p db \<and>
    locks w' = insert (real (lock_path p)) (locks w) \<and> open_files w' = insert p (open_files w)"
proof -
  let ?wal = "wal_open []"
  let ?db = "\<lparr>backend = FileB \<lparr>fb_file = header_serialize header_new, fb_path = p, fb_wal = ?wal,
      fb_cache = cache_new (cache_capacity opts)\<rparr>, header = header_new, logical_page_count = 1\<rparr>"
  have wal: "wal_rep ?wal []" using wal_open_rep(1) [of "[]"] by simp
  have "\<exists>w'. create_with_options real p opts w = (Ok ?db, w') \<and>
      locks w' = insert (real (lock_path p)) (locks w) \<and> open_files w' = insert p (open_files w)"
    using assms
    by (auto simp: can_create_def create_with_options_def create_inner_def register_path_def registry_key_def
        canonicalize_def acquire_lock_def separate_def bnd_def wal_file_open_def Let_def)
  moreover have "handle_ok p ?db"
    using wal wal_open_rep(2) [of "[]"] by (simp add: handle_ok_def wal_tidy_def)
  ultimately show ?thesis using fresh_file_rep [OF _ wal] assms by (auto simp: can_create_def)
qed

lemma reopen_rep:
  assumes "db_rep db v" "handle_ok p db" "header_saved v" "separate real p" "opts < 2 ^ 64"
    and w: "\<And>fb. backend db = FileB fb \<Longrightarrow> disk w (real p) = Some (fb_file fb) \<and>
      disk w (real (wal_path p)) = Some (wal_bytes (fb_wal fb))"
      "real (lock_path p) \<notin> locks w" "real p \<notin> open_files w"
  shows "\<exists>db' w'. open_with_options real p opts w = (Ok db', w') \<and> db_rep db' v"
proof -
  obtain fb where fb: "backend db = FileB fb" "fb_path fb = p" "wal_tidy (fb_wal fb)"
    using assms(2) by (auto simp: handle_ok_def)
  obtain log where log: "file_log_rep fb log (vpage v) (vcount v)"
    using assms(1) fb(1) by (auto simp: db_rep_def backend_rep_def)
  then have "valid_prefix (wal_bytes (fb_wal fb)) = log"
    using tidy_valid_prefix [OF _ fb(3)] by (simp add: file_log_rep_def)
  with log have log: "\<exists>log. file_log_rep fb log (vpage v) (vcount v) \<and> valid_prefix (wal_bytes (fb_wal fb)) = log"
    by blast
  let ?w = "w\<lparr>open_files := insert (real p) (open_files w)\<rparr>"
  have "\<exists>db' w'. open_inner real p opts ?w = (Ok db', w') \<and> db_rep db' v \<and>
      locks w' = insert (real (lock_path p)) (locks ?w) \<and> open_files w' = open_files ?w"
    using w(1) [OF fb(1)] w(2) assms(4,5)
    by (intro open_inner_recovers [OF assms(1,3) fb(1) _ _ _ log]) auto
  moreover have "registry_key real p w = real p"
    using w(1) [OF fb(1)] by (simp add: registry_key_def canonicalize_def)
  ultimately show ?thesis
    using w(3) by (auto simp: open_with_options_def register_path_def bnd_def Let_def)
qed

lemma dropped_disk:
  assumes "backend db = FileB fb" "fb_path fb = p" "separate real p"
  shows "disk (drop_database real db w) (real p) = Some (fb_file fb) \<and>
    disk (drop_database real db w) (real (wal_path p)) = Some (wal_bytes (fb_wal fb)) \<and>
    real (lock_path p) \<notin> locks (drop_database real db w) \<and> real p \<notin> open_files (drop_database real db w)"
  using assms
  by (simp add: drop_database_def Let_def separate_def release_lock_def unregister_path_def registry_key_def
      canonicalize_def)

section \<open>Properties\<close>

text \<open>
  C26: durability. Create a database file, run any sequence of valid calls on it, and then close it or
  crash, at a moment when page 0 holds the header in memory: opening the file again succeeds, whatever
  had been flushed to the main file, and gives the same store, every page, the page count and the
  header. (The parameter resolves paths to files; its only law is that the database, its log and its
  lock are three files.)
\<close>

theorem store_survives_close_and_crash:
  assumes "can_create real p opts w" "calls_ok calls fresh_vol" "header_saved (snd (vol_run calls fresh_vol))"
    and "opts' < 2 ^ 64"
  shows "\<exists>db0 w0 db. create_with_options real p opts w = (Ok db0, w0) \<and>
    db_run calls db0 = (Ok (fst (vol_run calls fresh_vol)), db) \<and>
    (\<exists>db1 w1. open_with_options real p opts' (drop_database real db w0) = (Ok db1, w1) \<and>
      db_rep db1 (snd (vol_run calls fresh_vol))) \<and>
    (\<exists>db1 w1. open_with_options real p opts' (crash real db w0) = (Ok db1, w1) \<and>
      db_rep db1 (snd (vol_run calls fresh_vol)))"
proof -
  let ?v = "snd (vol_run calls fresh_vol)"
  obtain db0 w0 where c: "create_with_options real p opts w = (Ok db0, w0)" "db_rep db0 fresh_vol" "handle_ok p db0"
    using create_fresh [OF assms(1)] by blast
  obtain db where run: "db_run calls db0 = (Ok (fst (vol_run calls fresh_vol)), db)" "db_rep db ?v"
    using db_run_rep [OF c(2) assms(2)] by blast
  have handle: "handle_ok p db" using handle_run [OF c(2,3) assms(2)] run(1) by simp
  then obtain fb where fb: "backend db = FileB fb" "fb_path fb = p" by (auto simp: handle_ok_def)
  have sep: "separate real p" using assms(1) by (simp add: can_create_def)
  note d = dropped_disk [OF fb sep, of w0]
  have "\<exists>db1 w1. open_with_options real p opts' (drop_database real db w0) = (Ok db1, w1) \<and> db_rep db1 ?v"
    using d fb(1) by (intro reopen_rep [OF run(2) handle assms(3) sep assms(4)]) auto
  moreover have "\<exists>db1 w1. open_with_options real p opts' (crash real db w0) = (Ok db1, w1) \<and> db_rep db1 ?v"
    using d fb(1) by (intro reopen_rep [OF run(2) handle assms(3) sep assms(4)]) (auto simp: crash_def)
  ultimately show ?thesis using c(1) run(1) by blast
qed

definition demo_path :: path where
  "demo_path = \<lparr>path_dir = ''/data'', path_name = Some ''g.chiffon''\<rparr>"

definition empty_world :: world where
  "empty_world = \<lparr>disk = Map.empty, locks = {}, open_files = {}\<rparr>"

lemma can_create_demo: "can_create id demo_path 4096 empty_world"
  by (simp add: can_create_def separate_def demo_path_def empty_world_def wal_path_def lock_path_def)

theorem store_survives_close_and_crash_witness:
  "\<exists>db0 w0 db. create_with_options id demo_path 4096 empty_world = (Ok db0, w0) \<and>
    db_run [AppendPage (replicate PAGE_SIZE 7), WriteHeader] db0 = (Ok [PageId 1, Unit], db) \<and>
    (\<exists>db1 w1. open_with_options id demo_path 8192 (crash id db w0) = (Ok db1, w1) \<and>
      db_rep db1 (snd (vol_run [AppendPage (replicate PAGE_SIZE 7), WriteHeader] fresh_vol)))"
proof -
  let ?calls = "[AppendPage (replicate PAGE_SIZE 7), WriteHeader]"
  have "calls_ok ?calls fresh_vol" "header_saved (snd (vol_run ?calls fresh_vol))"
      "fst (vol_run ?calls fresh_vol) = [PageId 1, Unit]"
    by (simp_all add: fresh_vol_def header_saved_def)
  then show ?thesis
    using store_survives_close_and_crash [OF can_create_demo, of ?calls 8192] by auto
qed

text \<open>
  A database is open at most once. While a database opened through some path is open, another
  open through any path that resolves to the same file fails with \<open>WouldBlock\<close>, before touching the
  file system, the locks or the registry.
\<close>

theorem open_excludes_second_open:
  assumes "disk w (real p) = Some f" "open_with_options real p opts w = (Ok db, w')" "real q = real p"
  shows "open_with_options real q opts' w' = (Err (IoError WouldBlock), w')"
proof -
  have reg: "registry_key real p w = real p" using assms(1) by (simp add: registry_key_def canonicalize_def)
  have keep: "open_files w2 = open_files w1 \<and> disk w2 (real p) \<noteq> None"
    if "open_inner real p opts w1 = (Inr db2, w2)" for w1 w2 db2
    using that
    by (auto simp: open_inner_def acquire_lock_def bnd_def wal_file_open_def Let_def
        split: if_splits option.splits sum.splits prod.splits)
  have "real p \<in> open_files w' \<and> disk w' (real p) \<noteq> None"
    using assms(2) reg
    by (auto simp: open_with_options_def register_path_def bnd_def Let_def
        split: prod.splits sum.splits if_splits dest: keep)
  then have "real p \<in> open_files w'" "registry_key real q w' = real p"
    using assms(3) by (auto simp: registry_key_def canonicalize_def)
  then show ?thesis
    by (simp add: open_with_options_def register_path_def bnd_def)
qed

theorem open_excludes_second_open_witness:
  "\<exists>w db w'. open_with_options id demo_path 8192 w = (Ok db, w') \<and>
    open_with_options id demo_path 4096 w' = (Err (IoError WouldBlock), w')"
proof -
  obtain db0 w0 where c: "create_with_options id demo_path 4096 empty_world = (Ok db0, w0)"
      "db_rep db0 fresh_vol" "handle_ok demo_path db0"
    using create_fresh [OF can_create_demo] by blast
  obtain fb where fb: "backend db0 = FileB fb" "fb_path fb = demo_path" using c(3) by (auto simp: handle_ok_def)
  have sep: "separate id demo_path" using can_create_demo by (simp add: can_create_def)
  let ?w = "drop_database id db0 w0"
  have d: "disk ?w (id demo_path) = Some (fb_file fb)" using dropped_disk [OF fb sep, of w0] by simp
  have "header_saved fresh_vol" by (simp add: header_saved_def fresh_vol_def)
  then obtain db w' where "open_with_options id demo_path 8192 ?w = (Ok db, w')"
    using reopen_rep [OF c(2,3) _ sep, where opts = 8192 and w = ?w] dropped_disk [OF fb sep, of w0] fb(1) by auto
  then show ?thesis
    using open_excludes_second_open [where real = id and p = demo_path and q = demo_path and opts' = 4096, OF d]
    by blast
qed

section \<open>Divergences\<close>

text \<open>
  Creating a database beside the leftover log of a deleted one does not discard the log: the new
  database, closed at once and opened again, has the header of the deleted database.
\<close>

theorem create_replays_stale_log:
  assumes "separate real p" "disk w (real p) = None" "disk w (real (wal_path p)) = Some old"
    and "real (lock_path p) \<notin> locks w" "p \<notin> open_files w" "real p \<notin> open_files w"
    and stale: "latest (valid_prefix old) 0 = Some (header_serialize h)" "version h = VERSION"
  shows "\<exists>db w1 db' w2. create_with_options real p opts w = (Ok db, w1) \<and> header db = header_new \<and>
    open_with_options real p opts (drop_database real db w1) = (Ok db', w2) \<and> header db' = h"
proof -
  let ?wal = "wal_open old"
  have wal: "wal_rep ?wal (valid_prefix old)" and bytes: "wal_bytes ?wal = old" by (fact wal_open_rep)+
  let ?fb = "\<lparr>fb_file = header_serialize header_new, fb_path = p, fb_wal = ?wal,
      fb_cache = cache_new (cache_capacity opts)\<rparr>"
  let ?db = "\<lparr>backend = FileB ?fb, header = header_new, logical_page_count = 1\<rparr>"
  obtain w1 where c: "create_with_options real p opts w = (Ok ?db, w1)" "open_files w1 = insert p (open_files w)"
    using assms
    by (auto simp: create_with_options_def create_inner_def register_path_def registry_key_def
        canonicalize_def acquire_lock_def separate_def bnd_def wal_file_open_def Let_def)
  let ?w = "drop_database real ?db w1"
  have d: "disk ?w (real p) = Some (header_serialize header_new)" "disk ?w (real (wal_path p)) = Some old"
      "real (lock_path p) \<notin> locks ?w" "real p \<notin> open_files ?w"
    using dropped_disk [of ?db ?fb p real w1] assms(1) bytes by simp_all
  have nonempty: "\<not> wal_is_empty ?wal" using wal_empty_rep [OF wal] stale(1) by auto
  obtain wal' f' where ck: "wal_checkpoint ?wal (header_serialize header_new) = (Ok (), wal', f')"
      "file_page f' 0 = Some (header_serialize h)"
    using checkpoint_rep [OF wal, of "header_serialize header_new"] stale(1) by blast
  have "file_read_exact 0 PAGE_SIZE f' = Ok (header_serialize h)"
    using ck(2) by (simp add: file_page_def file_read_exact_def split: if_splits)
  moreover have "registry_key real p ?w = real p" using d(1) by (simp add: registry_key_def canonicalize_def)
  ultimately have "\<exists>db' w2. open_with_options real p opts ?w = (Ok db', w2) \<and> header db' = h"
    using d assms(1) nonempty ck(1) header_roundtrip_eq [OF stale(2)]
    by (simp add: open_with_options_def open_inner_def register_path_def acquire_lock_def separate_def
        bnd_def wal_file_open_def Let_def)
  then show ?thesis using c(1) by auto
qed

text \<open>
  A path is registered before the file exists, uncanonicalised, and unregistered after, canonicalised.
  For a path that differs from its canonical form the registration leaks: after the database is closed
  and its files deleted, creating it again in the same process fails.
\<close>

theorem create_leaks_registration:
  assumes "can_create real p opts w" "real p \<noteq> p"
  shows "\<exists>db w1. create_with_options real p opts w = (Ok db, w1) \<and>
    (let w2 = drop_database real db w1; w3 = w2\<lparr>disk := (disk w2)(real p := None, real (wal_path p) := None)\<rparr>
     in create_with_options real p opts w3 = (Err (IoError WouldBlock), w3))"
proof -
  obtain db w1 where c: "create_with_options real p opts w = (Ok db, w1)" "handle_ok p db"
      "open_files w1 = insert p (open_files w)"
    using create_fresh [OF assms(1)] by blast
  then obtain fb where fb: "backend db = FileB fb" "fb_path fb = p" by (auto simp: handle_ok_def)
  have "p \<in> open_files (drop_database real db w1)"
    using c(3) assms fb
    by (auto simp: drop_database_def Let_def unregister_path_def registry_key_def canonicalize_def can_create_def
        separate_def)
  then show ?thesis
    using c(1) assms(1)
    by (auto simp: Let_def create_with_options_def register_path_def registry_key_def canonicalize_def bnd_def
        can_create_def separate_def)
qed

end
