(* ===== verification/Page_Directory.thy ===== *)
theory Page_Directory
  imports Database_File
begin

text \<open>
  The logical-to-physical page directory of \<^verbatim>\<open>storage/page_directory.rs\<close>: a chain of directory
  pages, each a link and 1023 entries, faulted through the database file. The abstract directory is
  the list of the physical page numbers, indexed by logical number; the lemmas show that \<open>resolve\<close>
  reads it, that \<open>push\<close> extends it by one, and that no page outside the chain changes.
\<close>

section \<open>The directory\<close>

definition UNMAPPED :: u32 where
  "UNMAPPED = 0xFFFFFFFF"

definition LINK_SIZE :: nat where
  "LINK_SIZE = 4"

definition ENTRIES_PER_DIR_PAGE :: nat where
  "ENTRIES_PER_DIR_PAGE = (PAGE_SIZE - LINK_SIZE) div 4"

record page_directory =
  dir_root :: u32
  dir_len :: nat

definition dir_new :: page_directory where
  "dir_new = \<lparr>dir_root = UNMAPPED, dir_len = 0\<rparr>"

definition dir_with_root :: "u32 \<Rightarrow> nat \<Rightarrow> page_directory" where
  "dir_with_root root len = \<lparr>dir_root = root, dir_len = len\<rparr>"

definition read_link :: "bytes \<Rightarrow> u32" where
  "read_link page = get32 0 page"

definition write_link :: "u32 \<Rightarrow> bytes \<Rightarrow> bytes" where
  "write_link pid page = put32 0 pid page"

definition entry_offset :: "nat \<Rightarrow> nat" where
  "entry_offset slot = LINK_SIZE + slot * 4"

definition read_entry :: "nat \<Rightarrow> bytes \<Rightarrow> u32" where
  "read_entry slot page = get32 (entry_offset slot) page"

definition write_entry :: "nat \<Rightarrow> u32 \<Rightarrow> bytes \<Rightarrow> bytes" where
  "write_entry slot physical page = put32 (entry_offset slot) physical page"

definition blank_dir_page :: bytes where
  "blank_dir_page =
     fold (\<lambda>slot. write_entry slot UNMAPPED) [0..<ENTRIES_PER_DIR_PAGE]
       (write_link UNMAPPED (replicate PAGE_SIZE 0))"

definition append_blank_dir_page :: "(database_file, u32) op" where
  "append_blank_dir_page = append_page blank_dir_page"

fun dir_page_loop :: "nat \<Rightarrow> u32 \<Rightarrow> (database_file, u32 option) op" where
  "dir_page_loop 0 pid = ret (Some pid)"
| "dir_page_loop (Suc k) pid =
     bnd (read_page pid) (\<lambda>page.
       let next = read_link page in
       if next = UNMAPPED then ret None else dir_page_loop k next)"

definition dir_page_pid :: "nat \<Rightarrow> page_directory \<Rightarrow> (database_file, u32 option) op" where
  "dir_page_pid dir_index dir =
     (if dir_root dir = UNMAPPED then ret None else dir_page_loop dir_index (dir_root dir))"

definition dir_resolve :: "nat \<Rightarrow> page_directory \<Rightarrow> (database_file, u32 option) op" where
  "dir_resolve logical dir =
     (if logical \<ge> dir_len dir then ret None
      else
        let dir_index = logical div ENTRIES_PER_DIR_PAGE; slot = logical mod ENTRIES_PER_DIR_PAGE in
        bnd (dir_page_pid dir_index dir) (\<lambda>found.
          case found of
            None \<Rightarrow> ret None
          | Some dir_pid \<Rightarrow>
              bnd (read_page dir_pid) (\<lambda>page.
                let physical = read_entry slot page in
                ret (if physical = UNMAPPED then None else Some physical))))"

fun ensure_dir_loop :: "nat \<Rightarrow> u32 \<Rightarrow> (database_file, u32) op" where
  "ensure_dir_loop 0 pid = ret pid"
| "ensure_dir_loop (Suc k) pid =
     bnd (read_page pid) (\<lambda>page.
       let next = read_link page in
       if next \<noteq> UNMAPPED then ensure_dir_loop k next
       else
         bnd append_blank_dir_page (\<lambda>new_pid.
         bnd (write_page pid (write_link new_pid page)) (\<lambda>_.
         ensure_dir_loop k new_pid)))"

definition ensure_dir_page :: "nat \<Rightarrow> page_directory \<Rightarrow> (database_file, u32 \<times> page_directory) op" where
  "ensure_dir_page dir_index dir =
     bnd (if dir_root dir = UNMAPPED
          then bnd append_blank_dir_page (\<lambda>root. ret (dir\<lparr>dir_root := root\<rparr>))
          else ret dir)
       (\<lambda>dir. bnd (ensure_dir_loop dir_index (dir_root dir)) (\<lambda>pid. ret (pid, dir)))"

definition dir_set :: "nat \<Rightarrow> u32 \<Rightarrow> page_directory \<Rightarrow> (database_file, page_directory) op" where
  "dir_set logical physical dir =
     (if logical > dir_len dir then err (StorageCorrupted (of_nat logical))
      else
        let dir_index = logical div ENTRIES_PER_DIR_PAGE; slot = logical mod ENTRIES_PER_DIR_PAGE in
        bnd (ensure_dir_page dir_index dir) (\<lambda>(dir_pid, dir).
        bnd (read_page dir_pid) (\<lambda>page.
        bnd (write_page dir_pid (write_entry slot physical page)) (\<lambda>_.
        ret dir))))"

definition dir_push :: "u32 \<Rightarrow> page_directory \<Rightarrow> (database_file, nat \<times> page_directory) op" where
  "dir_push physical dir =
     (if physical = UNMAPPED then err (StorageCorrupted physical)
      else
        let logical = dir_len dir in
        bnd (dir_set logical physical dir) (\<lambda>dir.
        ret (logical, dir\<lparr>dir_len := logical + 1\<rparr>)))"

section \<open>Directory pages\<close>

lemma entries_value: "ENTRIES_PER_DIR_PAGE = 1023"
  by (simp add: ENTRIES_PER_DIR_PAGE_def PAGE_SIZE_def LINK_SIZE_def)

lemma entry_fits: "slot < ENTRIES_PER_DIR_PAGE \<Longrightarrow> entry_offset slot + 4 \<le> PAGE_SIZE"
  by (simp add: entries_value entry_offset_def LINK_SIZE_def PAGE_SIZE_def)

lemma length_write_link [simp]: "length page = PAGE_SIZE \<Longrightarrow> length (write_link pid page) = PAGE_SIZE"
  by (simp add: write_link_def PAGE_SIZE_def)

lemma length_write_entry [simp]:
  "length page = PAGE_SIZE \<Longrightarrow> slot < ENTRIES_PER_DIR_PAGE \<Longrightarrow> length (write_entry slot ph page) = PAGE_SIZE"
  using entry_fits [of slot] by (simp add: write_entry_def)

lemma link_entry_simps [simp]:
  assumes "length page = PAGE_SIZE"
  shows "read_link (write_link pid page) = pid"
    "slot < ENTRIES_PER_DIR_PAGE \<Longrightarrow> read_link (write_entry slot ph page) = read_link page"
    "slot < ENTRIES_PER_DIR_PAGE \<Longrightarrow> read_entry slot (write_link pid page) = read_entry slot page"
    "slot < ENTRIES_PER_DIR_PAGE \<Longrightarrow> slot' < ENTRIES_PER_DIR_PAGE \<Longrightarrow>
      read_entry slot' (write_entry slot ph page) = (if slot' = slot then ph else read_entry slot' page)"
proof -
  have four: "4 \<le> PAGE_SIZE" by (simp add: PAGE_SIZE_def)
  show "read_link (write_link pid page) = pid"
    using assms four by (simp add: read_link_def write_link_def slice_simps)
  show "slot < ENTRIES_PER_DIR_PAGE \<Longrightarrow> read_link (write_entry slot ph page) = read_link page"
    using assms four entry_fits [of slot]
    by (simp add: read_link_def write_entry_def slice_simps entry_offset_def LINK_SIZE_def)
  show "slot < ENTRIES_PER_DIR_PAGE \<Longrightarrow> read_entry slot (write_link pid page) = read_entry slot page"
    using assms four entry_fits [of slot]
    by (simp add: read_entry_def write_link_def slice_simps entry_offset_def LINK_SIZE_def)
  show "slot < ENTRIES_PER_DIR_PAGE \<Longrightarrow> slot' < ENTRIES_PER_DIR_PAGE \<Longrightarrow>
      read_entry slot' (write_entry slot ph page) = (if slot' = slot then ph else read_entry slot' page)"
    using assms entry_fits [of slot] entry_fits [of slot']
    by (cases slot slot' rule: linorder_cases)
      (simp_all add: read_entry_def write_entry_def slice_simps entry_offset_def)
qed

lemma length_blank_dir_page [simp]: "length blank_dir_page = PAGE_SIZE"
proof -
  have "length (fold (\<lambda>slot. write_entry slot UNMAPPED) xs page) = PAGE_SIZE"
    if "length page = PAGE_SIZE" "\<forall>x \<in> set xs. x < ENTRIES_PER_DIR_PAGE" for xs page
    using that by (induction xs arbitrary: page) auto
  then show ?thesis by (simp add: blank_dir_page_def)
qed

lemma read_link_blank [simp]: "read_link blank_dir_page = UNMAPPED"
proof -
  have "read_link (fold (\<lambda>slot. write_entry slot UNMAPPED) xs page) = read_link page"
    if "length page = PAGE_SIZE" "\<forall>x \<in> set xs. x < ENTRIES_PER_DIR_PAGE" for xs page
    using that by (induction xs arbitrary: page) auto
  then show ?thesis by (simp add: blank_dir_page_def)
qed

section \<open>The chain and what it maps\<close>

fun dir_chain :: "vol \<Rightarrow> u32 \<Rightarrow> u32 list \<Rightarrow> bool" where
  "dir_chain v pid [] \<longleftrightarrow> pid = UNMAPPED"
| "dir_chain v pid (q # qs) \<longleftrightarrow> pid = q \<and> mapped v q \<and> dir_chain v (read_link (vpage v q)) qs"

definition dir_rep :: "vol \<Rightarrow> page_directory \<Rightarrow> u32 list \<Rightarrow> u32 list \<Rightarrow> bool" where
  "dir_rep v dir pids phys \<longleftrightarrow>
     dir_chain v (dir_root dir) pids \<and> distinct pids \<and> length phys = dir_len dir \<and>
     length phys \<le> ENTRIES_PER_DIR_PAGE * length pids \<and>
     (\<forall>i < length phys. phys ! i \<noteq> UNMAPPED \<and>
        read_entry (i mod ENTRIES_PER_DIR_PAGE) (vpage v (pids ! (i div ENTRIES_PER_DIR_PAGE))) = phys ! i)"

lemma mapped_not_UNMAPPED: "vol_ok v \<Longrightarrow> mapped v p \<Longrightarrow> p \<noteq> UNMAPPED"
  by (auto simp: vol_ok_def UNMAPPED_def)

lemma dir_chain_mapped: "dir_chain v pid pids \<Longrightarrow> q \<in> set pids \<Longrightarrow> mapped v q"
  by (induction pids arbitrary: pid) auto

lemma dir_chain_cong:
  assumes "dir_chain v pid pids" "\<And>q. q \<in> set pids \<Longrightarrow> mapped w q \<and> read_link (vpage w q) = read_link (vpage v q)"
  shows "dir_chain w pid pids"
  using assms by (induction pids arbitrary: pid) auto

lemma dir_rep_cong:
  assumes "dir_rep v dir pids phys" "\<And>q. q \<in> set pids \<Longrightarrow> mapped w q \<and> vpage w q = vpage v q"
  shows "dir_rep w dir pids phys"
proof -
  have "vpage w (pids ! (i div ENTRIES_PER_DIR_PAGE)) = vpage v (pids ! (i div ENTRIES_PER_DIR_PAGE))"
    if "i < length phys" for i
  proof -
    have "i < ENTRIES_PER_DIR_PAGE * length pids" using assms(1) that by (simp add: dir_rep_def)
    then have "i div ENTRIES_PER_DIR_PAGE < length pids" by (simp add: less_mult_imp_div_less mult.commute)
    then show ?thesis using assms(2) by simp
  qed
  moreover have "dir_chain w (dir_root dir) pids"
    using assms dir_chain_cong [of v "dir_root dir" pids w] by (simp add: dir_rep_def)
  ultimately show ?thesis using assms(1) by (simp add: dir_rep_def)
qed

lemma dir_page_loop_finds:
  assumes "dir_chain v pid pids" "k < length pids" "vol_ok v"
  shows "db_does (dir_page_loop k pid) v (Ok (Some (pids ! k))) v"
  using assms
proof (induction k arbitrary: pid pids)
  case 0
  then show ?case by (cases pids) auto
next
  case (Suc k)
  then obtain q qs where pids: "pids = q # qs" "k < length qs" by (cases pids) auto
  then have chain: "pid = q" "mapped v q" "dir_chain v (read_link (vpage v q)) qs" using Suc.prems by auto
  have next_: "read_link (vpage v q) \<noteq> UNMAPPED"
    using chain(3) pids(2) Suc.prems(3) mapped_not_UNMAPPED by (cases qs) auto
  have "db_does (dir_page_loop k (read_link (vpage v q))) v (Ok (Some (qs ! k))) v"
    using Suc.IH [OF chain(3) pids(2) Suc.prems(3)] .
  then have "db_does (bnd (read_page q) (\<lambda>page. let next = read_link page in
      if next = UNMAPPED then ret None else dir_page_loop k next)) v (Ok (Some (qs ! k))) v"
    using next_ by (intro db.does_bnd [OF db.does_read [OF chain(2)]]) simp
  then show ?case using pids chain(1) by simp
qed

lemma dir_resolve_does:
  assumes rep: "dir_rep v dir pids phys"
  shows "db_does (dir_resolve i dir) v (Ok (if i < length phys then Some (phys ! i) else None)) v"
proof (rule db.does_ok)
  assume ok: "vol_ok v"
  let ?d = "i div ENTRIES_PER_DIR_PAGE" and ?s = "i mod ENTRIES_PER_DIR_PAGE"
  show ?thesis
  proof (cases "i < length phys")
    case False
    then show ?thesis using rep by (simp add: dir_resolve_def dir_rep_def db.does_ret)
  next
    case True
    then have "i < ENTRIES_PER_DIR_PAGE * length pids" using rep by (simp add: dir_rep_def)
    then have d: "?d < length pids" by (simp add: less_mult_imp_div_less mult.commute)
    then have pid: "mapped v (pids ! ?d)"
      using rep dir_chain_mapped [of v "dir_root dir" pids "pids ! ?d"] by (simp add: dir_rep_def)
    have root: "dir_root dir \<noteq> UNMAPPED"
      using rep d ok mapped_not_UNMAPPED by (cases pids) (auto simp: dir_rep_def)
    have found: "db_does (dir_page_pid ?d dir) v (Ok (Some (pids ! ?d))) v"
      using rep d ok dir_page_loop_finds root by (simp add: dir_page_pid_def dir_rep_def)
    have entry: "read_entry ?s (vpage v (pids ! ?d)) = phys ! i" "phys ! i \<noteq> UNMAPPED"
      using rep True by (auto simp: dir_rep_def)
    have "db_does (bnd (read_page (pids ! ?d)) (\<lambda>page. let physical = read_entry ?s page in
        ret (if physical = UNMAPPED then None else Some physical))) v (Ok (Some (phys ! i))) v"
      using entry by (intro db.does_bnd [OF db.does_read [OF pid]]) (simp add: db.does_ret)
    then have "db_does (bnd (dir_page_pid ?d dir) (\<lambda>found. case found of None \<Rightarrow> ret None
        | Some dir_pid \<Rightarrow> bnd (read_page dir_pid) (\<lambda>page. let physical = read_entry ?s page in
            ret (if physical = UNMAPPED then None else Some physical)))) v (Ok (Some (phys ! i))) v"
      by (intro db.does_bnd [OF found]) simp
    then show ?thesis using True rep unfolding dir_resolve_def Let_def by (simp add: dir_rep_def)
  qed
qed

section \<open>Extending the chain\<close>

text \<open>
  What an extension of the directory may do to the store: it keeps the header and every page that is
  not in the chain, appends at most \<open>k\<close> pages, and the chain grows by appended pages only.
\<close>

definition dir_frame :: "nat \<Rightarrow> vol \<Rightarrow> u32 list \<Rightarrow> vol \<Rightarrow> u32 list \<Rightarrow> bool" where
  "dir_frame k v pids w pids' \<longleftrightarrow> vhdr w = vhdr v \<and> vcount v \<le> vcount w \<and> vcount w \<le> vcount v + k \<and>
     (\<forall>p. mapped v p \<and> p \<notin> set pids \<longrightarrow> vpage w p = vpage v p) \<and>
     (\<forall>p \<in> set pids'. p \<in> set pids \<or> \<not> mapped v p)"

lemma ensure_dir_loop_does:
  assumes "dir_chain v pid pids" "distinct pids" "k \<le> length pids" "pids \<noteq> []"
    and "Suc (vcount v) < 2 ^ 32" "vol_ok v"
  shows "\<exists>w pids'. db_does (ensure_dir_loop k pid) v (Ok (pids' ! k)) w \<and> dir_chain w pid pids' \<and> distinct pids' \<and>
    k < length pids' \<and> (\<exists>qs. pids' = pids @ qs) \<and> dir_frame 1 v pids w pids' \<and> vol_ok w \<and>
    (\<forall>q \<in> set pids. \<forall>i < ENTRIES_PER_DIR_PAGE. read_entry i (vpage w q) = read_entry i (vpage v q))"
  using assms
proof (induction k arbitrary: pid pids)
  case 0
  then show ?case
    by (intro exI [of _ v] exI [of _ pids]) (cases pids, auto simp: dir_frame_def)
next
  case (Suc k)
  obtain q qs where pids: "pids = q # qs" using Suc.prems(4) by (cases pids) auto
  then have chain: "pid = q" "mapped v q" "dir_chain v (read_link (vpage v q)) qs" "q \<notin> set qs" "distinct qs" "k \<le> length qs"
    using Suc.prems by auto
  let ?next = "read_link (vpage v q)"
  have len: "length (vpage v q) = PAGE_SIZE" using chain(2) Suc.prems(6) by (simp add: vol_ok_def)
  show ?case
  proof (cases "qs = []")
    case False
    then have next_: "?next \<noteq> UNMAPPED"
      using chain(3) Suc.prems(6) mapped_not_UNMAPPED by (cases qs) auto
    obtain w pids' where IH: "db_does (ensure_dir_loop k ?next) v (Ok (pids' ! k)) w" "dir_chain w ?next pids'"
        "distinct pids'" "k < length pids'" "\<exists>rs. pids' = qs @ rs" "dir_frame 1 v qs w pids'" "vol_ok w"
        "\<forall>q \<in> set qs. \<forall>i < ENTRIES_PER_DIR_PAGE. read_entry i (vpage w q) = read_entry i (vpage v q)"
      using Suc.IH [OF chain(3,5,6) False Suc.prems(5,6)] by blast
    have same: "vpage w q = vpage v q" "mapped w q" using IH(6) chain(2,4) by (auto simp: dir_frame_def)
    have "q \<notin> set pids'" using IH(6) chain(2,4) by (auto simp: dir_frame_def)
    moreover have "db_does (ensure_dir_loop (Suc k) q) v (Ok (pids' ! k)) w"
      using next_ IH(1) unfolding ensure_dir_loop.simps Let_def
      by (intro db.does_bnd [OF db.does_read [OF chain(2)]]) simp
    moreover have "dir_frame 1 v (q # qs) w (q # pids')" using IH(6) by (auto simp: dir_frame_def)
    ultimately show ?thesis
      using IH same chain(1) pids by (intro exI [of _ w] exI [of _ "q # pids'"]) auto
  next
    case True
    then have k: "k = 0" and next_: "?next = UNMAPPED" using chain(3,6) by simp_all
    let ?new = "of_nat (vcount v) :: u32"
    let ?v1 = "vappend blank_dir_page v"
    let ?w = "vput q (write_link ?new (vpage v q)) ?v1"
    have q_new: "q \<noteq> ?new" using fresh_page [of v q] chain(2) Suc.prems(5) by simp
    have new: "mapped ?v1 ?new" using Suc.prems(5) by (simp add: unat_of_nat_small)
    have step: "db_does (ensure_dir_loop (Suc 0) q) v (Ok ?new) ?w"
    proof -
      have "db_does (bnd append_blank_dir_page (\<lambda>new_pid. bnd (write_page q (write_link new_pid (vpage v q))) (\<lambda>_.
          ensure_dir_loop 0 new_pid))) v (Ok ?new) ?w"
        unfolding append_blank_dir_page_def
        by (rule db.does_bnd [OF db.does_append [OF Suc.prems(5)]], simp,
            rule db.does_bnd [OF db.does_write]) (use len chain(2) in simp_all)
      then show ?thesis
        using next_ unfolding ensure_dir_loop.simps Let_def
        by (intro db.does_bnd [OF db.does_read [OF chain(2)]]) simp
    qed
    have "dir_chain ?w q [q, ?new]"
      using q_new len new chain(2) by simp
    moreover have "dir_frame 1 v [q] ?w [q, ?new]"
      using Suc.prems(5) fresh_page [of v] by (auto simp: dir_frame_def unat_of_nat_small)
    moreover have "read_entry i (vpage ?w q) = read_entry i (vpage v q)" if "i < ENTRIES_PER_DIR_PAGE" for i
      using that len by simp
    moreover have "vol_ok ?w"
      using vol_ok_vput [OF vol_ok_vappend [OF Suc.prems(6,5)]] len by simp
    ultimately show ?thesis
      using step q_new chain(1) pids True k by (intro exI [of _ ?w] exI [of _ "[q, ?new]"]) auto
  qed
qed

lemma ensure_dir_page_does:
  assumes rep: "dir_rep v dir pids phys" and k: "k \<le> length pids"
    and room: "Suc (vcount v) < 2 ^ 32" and ok: "vol_ok v"
  shows "\<exists>w pids' root. db_does (ensure_dir_page k dir) v (Ok (pids' ! k, dir\<lparr>dir_root := root\<rparr>)) w \<and>
    dir_rep w (dir\<lparr>dir_root := root\<rparr>) pids' phys \<and> k < length pids' \<and> dir_frame 1 v pids w pids' \<and> vol_ok w"
proof (cases "pids = []")
  case True
  then have root: "dir_root dir = UNMAPPED" and k: "k = 0" and phys: "phys = []"
    using rep k by (simp_all add: dir_rep_def)
  let ?new = "of_nat (vcount v) :: u32"
  let ?w = "vappend blank_dir_page v"
  have new: "mapped ?w ?new" using room by (simp add: unat_of_nat_small)
  have "db_does (ensure_dir_page k dir) v (Ok ([?new] ! k, dir\<lparr>dir_root := ?new\<rparr>)) ?w"
  proof -
    have "db_does (bnd (append_page blank_dir_page) (\<lambda>root. ret (dir\<lparr>dir_root := root\<rparr>))) v
        (Ok (dir\<lparr>dir_root := ?new\<rparr>)) ?w"
      by (rule db.does_bnd [OF db.does_append [OF room]]) simp_all
    from db.does_bnd [where k = "\<lambda>dir. bnd (ensure_dir_loop 0 (dir_root dir)) (\<lambda>pid. ret (pid, dir))", OF this]
    show ?thesis using root by (simp add: ensure_dir_page_def append_blank_dir_page_def k)
  qed
  moreover have "dir_rep ?w (dir\<lparr>dir_root := ?new\<rparr>) [?new] phys"
    using rep new phys by (simp add: dir_rep_def)
  moreover have "dir_frame 1 v pids ?w [?new]"
    using True room fresh_page [of v] by (auto simp: dir_frame_def unat_of_nat_small)
  moreover have "vol_ok ?w" by (rule vol_ok_vappend [OF ok room]) simp
  ultimately show ?thesis using k by (intro exI [of _ ?w] exI [of _ "[?new]"] exI [of _ ?new]) simp
next
  case False
  have chain: "dir_chain v (dir_root dir) pids" "distinct pids" using rep by (simp_all add: dir_rep_def)
  have root: "dir_root dir \<noteq> UNMAPPED"
    using chain(1) False ok mapped_not_UNMAPPED by (cases pids) auto
  obtain w pids' where e: "db_does (ensure_dir_loop k (dir_root dir)) v (Ok (pids' ! k)) w"
      "dir_chain w (dir_root dir) pids'" "distinct pids'" "k < length pids'" "\<exists>qs. pids' = pids @ qs"
      "dir_frame 1 v pids w pids'" "vol_ok w"
      "\<forall>q \<in> set pids. \<forall>i < ENTRIES_PER_DIR_PAGE. read_entry i (vpage w q) = read_entry i (vpage v q)"
    using ensure_dir_loop_does [OF chain k False room ok] by blast
  obtain qs where qs: "pids' = pids @ qs" using e(5) by blast
  have same: "pids' ! (i div ENTRIES_PER_DIR_PAGE) = pids ! (i div ENTRIES_PER_DIR_PAGE) \<and>
      pids ! (i div ENTRIES_PER_DIR_PAGE) \<in> set pids" if "i < length phys" for i
  proof -
    have "i < ENTRIES_PER_DIR_PAGE * length pids" using rep that by (simp add: dir_rep_def)
    then have "i div ENTRIES_PER_DIR_PAGE < length pids" by (simp add: less_mult_imp_div_less mult.commute)
    then show ?thesis using qs by (simp add: nth_append)
  qed
  have "length phys \<le> ENTRIES_PER_DIR_PAGE * length pids'" using rep qs by (simp add: dir_rep_def entries_value)
  moreover have "read_entry (i mod ENTRIES_PER_DIR_PAGE) (vpage w (pids' ! (i div ENTRIES_PER_DIR_PAGE))) = phys ! i"
    if "i < length phys" for i
    using same [OF that] e(8) rep that by (simp add: dir_rep_def entries_value)
  ultimately have "dir_rep w dir pids' phys"
    using rep e(2,3) by (simp add: dir_rep_def)
  moreover have "db_does (ensure_dir_page k dir) v (Ok (pids' ! k, dir)) w"
    unfolding ensure_dir_page_def using root
    by (simp del: op_simps) (rule db.does_bnd [OF e(1)], simp)
  moreover have "dir\<lparr>dir_root := dir_root dir\<rparr> = dir" by simp
  ultimately show ?thesis using e(4,6,7) by (metis (no_types))
qed

text \<open>Setting an entry of a directory page.\<close>

lemma dir_rep_write_entry:
  assumes rep: "dir_rep w dir pids phys" and k: "length phys div ENTRIES_PER_DIR_PAGE < length pids"
    and ph: "ph \<noteq> UNMAPPED" and ok: "vol_ok w"
  defines "q \<equiv> pids ! (length phys div ENTRIES_PER_DIR_PAGE)"
  shows "dir_rep (vput q (write_entry (length phys mod ENTRIES_PER_DIR_PAGE) ph (vpage w q)) w)
    (dir\<lparr>dir_len := length phys + 1\<rparr>) pids (phys @ [ph])"
proof -
  let ?d = "length phys div ENTRIES_PER_DIR_PAGE" and ?s = "length phys mod ENTRIES_PER_DIR_PAGE"
  let ?w = "vput q (write_entry ?s ph (vpage w q)) w"
  have slot: "i mod ENTRIES_PER_DIR_PAGE < ENTRIES_PER_DIR_PAGE" for i by (simp add: entries_value)
  have q: "q \<in> set pids" "mapped w q" using k rep dir_chain_mapped by (auto simp: q_def dir_rep_def)
  then have len: "length (vpage w q) = PAGE_SIZE" using ok by (simp add: vol_ok_def)
  have chain: "dir_chain w (dir_root dir) pids" using rep by (simp add: dir_rep_def)
  have "dir_chain ?w (dir_root dir) pids"
    using dir_chain_cong [OF chain, of ?w] dir_chain_mapped [OF chain] len slot by simp
  moreover have "read_entry (i mod ENTRIES_PER_DIR_PAGE) (vpage ?w (pids ! (i div ENTRIES_PER_DIR_PAGE))) = (phys @ [ph]) ! i"
    if i: "i < Suc (length phys)" for i
  proof (cases "i = length phys")
    case True
    then show ?thesis using len slot by (simp add: q_def)
  next
    case False
    then have i': "i < length phys" using i by simp
    have old: "read_entry (i mod ENTRIES_PER_DIR_PAGE) (vpage w (pids ! (i div ENTRIES_PER_DIR_PAGE))) = phys ! i"
      using rep i' by (simp add: dir_rep_def)
    have d: "i div ENTRIES_PER_DIR_PAGE \<le> ?d" using i' by (intro div_le_mono) simp
    show ?thesis
    proof (cases "i div ENTRIES_PER_DIR_PAGE = ?d")
      case True
      then have "i mod ENTRIES_PER_DIR_PAGE \<noteq> ?s"
        using False div_mult_mod_eq [of i ENTRIES_PER_DIR_PAGE] div_mult_mod_eq [of "length phys" ENTRIES_PER_DIR_PAGE] by metis
      then show ?thesis using True old len slot i' by (simp add: q_def nth_append)
    next
      case False
      then have "pids ! (i div ENTRIES_PER_DIR_PAGE) \<noteq> q"
        using rep k d by (simp add: q_def dir_rep_def nth_eq_iff_index_eq)
      then show ?thesis using old i' by (simp add: nth_append)
    qed
  qed
  moreover have "Suc (length phys) \<le> ENTRIES_PER_DIR_PAGE * length pids"
    using k by (simp add: entries_value)
  moreover have "(phys @ [ph]) ! i \<noteq> UNMAPPED" if "i < Suc (length phys)" for i
    using rep ph that by (auto simp: nth_append dir_rep_def less_Suc_eq)
  ultimately show ?thesis
    using rep unfolding dir_rep_def by (intro conjI allI impI) simp_all
qed

lemma dir_frame_vput:
  assumes "dir_frame k v pids w pids'" "q \<in> set pids'"
  shows "dir_frame k v pids (vput q d w) pids'"
  using assms by (auto simp: dir_frame_def)

lemma dir_push_does:
  assumes rep: "dir_rep v dir pids phys" and ph: "ph \<noteq> UNMAPPED"
    and room: "Suc (vcount v) < 2 ^ 32" and ok: "vol_ok v"
  shows "\<exists>w pids' dir'. db_does (dir_push ph dir) v (Ok (length phys, dir')) w \<and>
    dir_rep w dir' pids' (phys @ [ph]) \<and> dir_frame 1 v pids w pids' \<and> vol_ok w"
proof -
  let ?d = "length phys div ENTRIES_PER_DIR_PAGE" and ?s = "length phys mod ENTRIES_PER_DIR_PAGE"
  have len: "dir_len dir = length phys" using rep by (simp add: dir_rep_def)
  have d: "?d \<le> length pids"
    using rep div_le_mono [of "length phys" "1023 * length pids" 1023] by (simp add: dir_rep_def entries_value)
  have slot: "?s < ENTRIES_PER_DIR_PAGE" by (simp add: entries_value)
  obtain w pids' root where e: "db_does (ensure_dir_page ?d dir) v (Ok (pids' ! ?d, dir\<lparr>dir_root := root\<rparr>)) w"
      "dir_rep w (dir\<lparr>dir_root := root\<rparr>) pids' phys" "?d < length pids'" "dir_frame 1 v pids w pids'" "vol_ok w"
    using ensure_dir_page_does [OF rep d room ok] by blast
  let ?q = "pids' ! ?d" and ?dir = "dir\<lparr>dir_root := root\<rparr>"
  have q: "?q \<in> set pids'" "mapped w ?q" using e(2,3) dir_chain_mapped by (auto simp: dir_rep_def)
  then have plen: "length (vpage w ?q) = PAGE_SIZE" using e(5) by (simp add: vol_ok_def)
  let ?page = "write_entry ?s ph (vpage w ?q)" and ?w = "vput ?q (write_entry ?s ph (vpage w ?q)) w"
  have wr: "db_does (write_page ?q ?page) w (Ok ()) ?w" using q plen slot by (intro db.does_write) simp_all
  have "db_does (bnd (ensure_dir_page ?d dir) (\<lambda>(dir_pid, dir). bnd (read_page dir_pid) (\<lambda>page.
      bnd (write_page dir_pid (write_entry ?s ph page)) (\<lambda>_. ret dir)))) v (Ok ?dir) ?w"
    by (rule db.does_bnd [OF e(1)], simp, rule db.does_bnd [OF db.does_read [OF q(2)]],
        rule db.does_bnd [OF wr]) simp
  then have set: "db_does (dir_set (length phys) ph dir) v (Ok ?dir) ?w"
    using len unfolding dir_set_def Let_def by simp
  have "db_does (dir_push ph dir) v (Ok (length phys, ?dir\<lparr>dir_len := length phys + 1\<rparr>)) ?w"
    using ph len unfolding dir_push_def Let_def by (simp add: db.does_bnd [OF set])
  moreover have "dir_rep ?w (?dir\<lparr>dir_len := length phys + 1\<rparr>) pids' (phys @ [ph])"
    using dir_rep_write_entry [OF e(2,3) ph e(5)] .
  moreover have "vol_ok ?w" using e(5) plen slot by (intro vol_ok_vput) simp_all
  ultimately show ?thesis using dir_frame_vput [OF e(4) q(1)] by blast
qed

lemma dir_rep_new: "dir_rep v dir_new [] []"
  by (simp add: dir_rep_def dir_new_def)

section \<open>Properties\<close>

text \<open>
  The directory is a growable array of page numbers. On any store where a directory maps the
  numbers \<open>phys\<close>, resolving a logical number gives exactly its entry, and none beyond the mapped
  length; pushing a number (any but the sentinel) returns the next logical number and maps the list
  extended by it, appending at most one page, keeping the header, and changing no page outside the
  directory's own chain.
\<close>

theorem directory_is_growable_array:
  assumes "db_rep db v" "dir_rep v dir pids phys" "ph \<noteq> UNMAPPED" "Suc (vcount v) < 2 ^ 32"
  shows "\<exists>db1 db2 dir' w pids'.
    dir_resolve i dir db = (Ok (if i < length phys then Some (phys ! i) else None), db1) \<and> db_rep db1 v \<and>
    dir_push ph dir db = (Ok (length phys, dir'), db2) \<and> db_rep db2 w \<and>
    dir_rep w dir' pids' (phys @ [ph]) \<and> vhdr w = vhdr v \<and> vcount w \<le> Suc (vcount v) \<and>
    (\<forall>p. mapped v p \<and> p \<notin> set pids \<longrightarrow> vpage w p = vpage v p)"
proof -
  have "vol_ok v" using assms(1) by (simp add: db_rep_def)
  obtain w pids' dir' where p: "db_does (dir_push ph dir) v (Ok (length phys, dir')) w"
      "dir_rep w dir' pids' (phys @ [ph])" "dir_frame 1 v pids w pids'"
    using dir_push_does [OF assms(2,3,4) \<open>vol_ok v\<close>] by blast
  obtain db1 where db1: "dir_resolve i dir db = (Ok (if i < length phys then Some (phys ! i) else None), db1)" "db_rep db1 v"
    using dir_resolve_does [OF assms(2), of i] assms(1) unfolding does_def by blast
  obtain db2 where db2: "dir_push ph dir db = (Ok (length phys, dir'), db2)" "db_rep db2 w"
    using p(1) assms(1) unfolding does_def by blast
  show ?thesis
    using db1 db2 p(2,3) by (intro exI [of _ db1] exI [of _ db2] exI [of _ dir'] exI [of _ w] exI [of _ pids'])
      (simp add: dir_frame_def)
qed

theorem directory_is_growable_array_witness:
  "\<exists>db2 dir' w pids'. dir_push 5 dir_new create_in_memory = (Ok (0, dir'), db2) \<and> db_rep db2 w \<and>
    dir_rep w dir' pids' [5]"
  using directory_is_growable_array [OF create_in_memory_rep dir_rep_new, of 5 0]
  by (auto simp: UNMAPPED_def fresh_vol_def)

end
