(* ===== verification/Page_Spaces.thy ===== *)
theory Page_Spaces
  imports Page_Directory Slotted_Page Database_Open
begin

text \<open>
  The three logical page spaces of \<^verbatim>\<open>storage/file.rs\<close> (property, node and edge pages), each behind
  its own page directory whose root and length live in the header, with the free-slot hints and the
  free-page list of the property space. The abstract state holds, for each space, the list of its
  pages by logical number; the layout invariant says that the header page, the directory pages and
  the data pages of the three spaces never share a physical page.
\<close>

section \<open>Operations\<close>

datatype topology_kind = Node | Edge

definition property_dir :: "file_header \<Rightarrow> page_directory" where
  "property_dir h =
     (if property_dir_root h = NO_DIR_ROOT then dir_new
      else dir_with_root (property_dir_root h) (unat (property_dir_len h)))"

definition store_property_dir :: "page_directory \<Rightarrow> (database_file, unit) op" where
  "store_property_dir dir =
     bnd (modify (\<lambda>db. db\<lparr>header := (header db)\<lparr>property_dir_root := dir_root dir,
         property_dir_len := of_nat (dir_len dir)\<rparr>\<rparr>))
       (\<lambda>_. write_header)"

definition property_page_count :: "file_header \<Rightarrow> nat" where
  "property_page_count h = unat (property_dir_len h)"

definition property_first_free_hint :: "file_header \<Rightarrow> nat" where
  "property_first_free_hint h = unat (min (property_first_free_page h) (property_dir_len h))"

definition set_property_first_free_hint :: "nat \<Rightarrow> (database_file, unit) op" where
  "set_property_first_free_hint hint =
     bnd (modify (\<lambda>db. db\<lparr>header := (header db)\<lparr>property_first_free_page := of_nat hint\<rparr>\<rparr>))
       (\<lambda>_. write_header)"

definition resolved :: "nat \<Rightarrow> u32 option \<Rightarrow> (database_file, u32) op" where
  "resolved logical r = (case r of Some p \<Rightarrow> ret p | None \<Rightarrow> err (StorageCorrupted (of_nat logical)))"

definition resolve_property_page :: "nat \<Rightarrow> (database_file, u32) op" where
  "resolve_property_page logical =
     (\<lambda>db. bnd (dir_resolve logical (property_dir (header db))) (resolved logical) db)"

definition write_property_page :: "nat \<Rightarrow> bytes \<Rightarrow> (database_file, unit) op" where
  "write_property_page logical d =
     bnd (resolve_property_page logical) (\<lambda>physical. write_page physical d)"

definition read_property_page :: "nat \<Rightarrow> (database_file, bytes) op" where
  "read_property_page logical = bnd (resolve_property_page logical) (\<lambda>physical. read_page physical)"

definition property_free_head :: "file_header \<Rightarrow> nat option" where
  "property_free_head h =
     (let head = property_free_list_head h in if head = NO_FREE_PAGE then None else Some (unat head))"

definition set_property_free_list_head :: "u32 \<Rightarrow> (database_file, unit) op" where
  "set_property_free_list_head p =
     bnd (modify (\<lambda>db. db\<lparr>header := (header db)\<lparr>property_free_list_head := p\<rparr>\<rparr>)) (\<lambda>_. write_header)"

definition pop_free_head :: "nat option \<Rightarrow> (database_file, nat option) op" where
  "pop_free_head found =
     (case found of
        None \<Rightarrow> ret None
      | Some head \<Rightarrow>
          bnd (read_property_page head) (\<lambda>page.
            let marker = get16 0 page in
            if marker \<noteq> FREE_PAGE_MARKER
            then bnd (set_property_free_list_head NO_FREE_PAGE) (\<lambda>_. ret None)
            else
              let next = get32 4 page in
              bnd (set_property_free_list_head next) (\<lambda>_. ret (Some head))))"

definition pop_property_free_page :: "(database_file, nat option) op" where
  "pop_property_free_page = (\<lambda>db. pop_free_head (property_free_head (header db)) db)"

definition alloc_property_page :: "bytes \<Rightarrow> (database_file, nat) op" where
  "alloc_property_page d =
     bnd pop_property_free_page (\<lambda>popped.
       case popped of
         Some logical \<Rightarrow> bnd (write_property_page logical d) (\<lambda>_. ret logical)
       | None \<Rightarrow>
           bnd (append_page d) (\<lambda>physical.
           bnd (gets (\<lambda>db. property_dir (header db))) (\<lambda>dir.
           bnd (dir_push physical dir) (\<lambda>(logical, dir).
           bnd (store_property_dir dir) (\<lambda>_.
           ret logical)))))"

definition free_page_image :: "u32 \<Rightarrow> bytes" where
  "free_page_image prev_head =
     write_fields [(0, le16 FREE_PAGE_MARKER), (4, le32 prev_head)] (replicate PAGE_SIZE 0)"

definition free_property_page :: "nat \<Rightarrow> (database_file, unit) op" where
  "free_property_page logical =
     (\<lambda>db. let prev_head = property_free_list_head (header db) in
       bnd (write_property_page logical (free_page_image prev_head))
         (\<lambda>_. set_property_free_list_head (of_nat logical)) db)"

definition topology_dir :: "topology_kind \<Rightarrow> file_header \<Rightarrow> page_directory" where
  "topology_dir kind h =
     (let (root, len) = (case kind of Node \<Rightarrow> (node_dir_root h, node_page_count h)
                                   | Edge \<Rightarrow> (edge_dir_root h, edge_page_count h))
      in if root = NO_DIR_ROOT then dir_new else dir_with_root root (unat len))"

definition store_topology_dir :: "topology_kind \<Rightarrow> page_directory \<Rightarrow> (database_file, unit) op" where
  "store_topology_dir kind dir =
     bnd (modify (\<lambda>db. db\<lparr>header :=
         (case kind of
            Node \<Rightarrow> (header db)\<lparr>node_dir_root := dir_root dir, node_page_count := of_nat (dir_len dir)\<rparr>
          | Edge \<Rightarrow> (header db)\<lparr>edge_dir_root := dir_root dir, edge_page_count := of_nat (dir_len dir)\<rparr>)\<rparr>))
       (\<lambda>_. write_header)"

definition topology_first_free_hint :: "topology_kind \<Rightarrow> file_header \<Rightarrow> nat" where
  "topology_first_free_hint kind h =
     (let (hint, count) = (case kind of Node \<Rightarrow> (node_first_free_page h, node_page_count h)
                                     | Edge \<Rightarrow> (edge_first_free_page h, edge_page_count h))
      in unat (min hint count))"

definition set_topology_first_free_hint :: "topology_kind \<Rightarrow> nat \<Rightarrow> (database_file, unit) op" where
  "set_topology_first_free_hint kind hint =
     bnd (modify (\<lambda>db. db\<lparr>header :=
         (case kind of Node \<Rightarrow> (header db)\<lparr>node_first_free_page := of_nat hint\<rparr>
                     | Edge \<Rightarrow> (header db)\<lparr>edge_first_free_page := of_nat hint\<rparr>)\<rparr>))
       (\<lambda>_. write_header)"

definition resolve_topology_page :: "topology_kind \<Rightarrow> nat \<Rightarrow> (database_file, u32) op" where
  "resolve_topology_page kind logical =
     (\<lambda>db. bnd (dir_resolve logical (topology_dir kind (header db))) (resolved logical) db)"

definition alloc_topology_page :: "topology_kind \<Rightarrow> bytes \<Rightarrow> (database_file, nat) op" where
  "alloc_topology_page kind d =
     bnd (append_page d) (\<lambda>physical.
     bnd (gets (\<lambda>db. topology_dir kind (header db))) (\<lambda>dir.
     bnd (dir_push physical dir) (\<lambda>(logical, dir).
     bnd (store_topology_dir kind dir) (\<lambda>_.
     ret logical))))"

definition write_topology_page :: "topology_kind \<Rightarrow> nat \<Rightarrow> bytes \<Rightarrow> (database_file, unit) op" where
  "write_topology_page kind logical d =
     bnd (resolve_topology_page kind logical) (\<lambda>physical. write_page physical d)"

definition read_topology_page :: "topology_kind \<Rightarrow> nat \<Rightarrow> (database_file, bytes) op" where
  "read_topology_page kind logical = bnd (resolve_topology_page kind logical) (\<lambda>physical. read_page physical)"

section \<open>The abstract spaces\<close>

datatype space = PropertyS | NodeS | EdgeS

definition space_of :: "topology_kind \<Rightarrow> space" where
  "space_of kind = (case kind of Node \<Rightarrow> NodeS | Edge \<Rightarrow> EdgeS)"

record spaces =
  sp_pages :: "space \<Rightarrow> bytes list"
  sp_hdr :: file_header
  sp_other :: "u32 \<Rightarrow> bytes option"
  sp_room :: nat

text \<open>The part of the header that is not the physical roots of the directories.\<close>

definition hide_roots :: "file_header \<Rightarrow> file_header" where
  "hide_roots h = h\<lparr>property_dir_root := 0, node_dir_root := 0, edge_dir_root := 0\<rparr>"

definition dir_of :: "space \<Rightarrow> file_header \<Rightarrow> page_directory" where
  "dir_of k h = (case k of PropertyS \<Rightarrow> property_dir h | NodeS \<Rightarrow> topology_dir Node h | EdgeS \<Rightarrow> topology_dir Edge h)"

definition space_len :: "space \<Rightarrow> file_header \<Rightarrow> u32" where
  "space_len k h = (case k of PropertyS \<Rightarrow> property_dir_len h | NodeS \<Rightarrow> node_page_count h | EdgeS \<Rightarrow> edge_page_count h)"

definition set_space_dir :: "space \<Rightarrow> page_directory \<Rightarrow> file_header \<Rightarrow> file_header" where
  "set_space_dir k dir h =
     (case k of
        PropertyS \<Rightarrow> h\<lparr>property_dir_root := dir_root dir, property_dir_len := of_nat (dir_len dir)\<rparr>
      | NodeS \<Rightarrow> h\<lparr>node_dir_root := dir_root dir, node_page_count := of_nat (dir_len dir)\<rparr>
      | EdgeS \<Rightarrow> h\<lparr>edge_dir_root := dir_root dir, edge_page_count := of_nat (dir_len dir)\<rparr>)"

definition set_space_len :: "space \<Rightarrow> nat \<Rightarrow> file_header \<Rightarrow> file_header" where
  "set_space_len k n h =
     (case k of PropertyS \<Rightarrow> h\<lparr>property_dir_len := of_nat n\<rparr> | NodeS \<Rightarrow> h\<lparr>node_page_count := of_nat n\<rparr>
              | EdgeS \<Rightarrow> h\<lparr>edge_page_count := of_nat n\<rparr>)"

text \<open>Who owns a physical page.\<close>

datatype owner = HeaderPage | DirPage space | DataPage space nat

definition layout ::
  "vol \<Rightarrow> spaces \<Rightarrow> (u32 \<Rightarrow> owner option) \<Rightarrow> (space \<Rightarrow> u32 list) \<Rightarrow> (space \<Rightarrow> u32 list) \<Rightarrow> bool" where
  "layout v S own pids phys \<longleftrightarrow>
     vol_ok v \<and> 0 < vcount v \<and> vpage v 0 = header_serialize (vhdr v) \<and> version (vhdr v) = VERSION \<and>
     (\<forall>k. dir_rep v (dir_of k (vhdr v)) (pids k) (phys k) \<and>
        unat (space_len k (vhdr v)) = length (phys k) \<and> length (phys k) < vcount v) \<and>
     own 0 = Some HeaderPage \<and>
     (\<forall>k. \<forall>q \<in> set (pids k). own q = Some (DirPage k)) \<and>
     (\<forall>k i. i < length (phys k) \<longrightarrow> own (phys k ! i) = Some (DataPage k i)) \<and>
     (\<forall>p. own p \<noteq> None \<longrightarrow> mapped v p) \<and>
     (\<forall>k. sp_pages S k = map (vpage v) (phys k)) \<and>
     (\<forall>p d. sp_other S p = Some d \<longrightarrow> own p = None \<and> mapped v p \<and> vpage v p = d) \<and>
     sp_hdr S = hide_roots (vhdr v) \<and> vcount v + sp_room S < 2 ^ 32"

definition space_rep :: "database_file \<Rightarrow> spaces \<Rightarrow> bool" where
  "space_rep db S \<longleftrightarrow> (\<exists>v own pids phys. db_rep db v \<and> layout v S own pids phys)"

abbreviation space_does :: "(database_file, 'a) op \<Rightarrow> spaces \<Rightarrow> 'a res \<Rightarrow> spaces \<Rightarrow> bool" where
  "space_does \<equiv> does space_rep db_since"

lemma layoutD:
  assumes "layout v S own pids phys"
  shows "vol_ok v" "0 < vcount v" "vpage v 0 = header_serialize (vhdr v)"
    "dir_rep v (dir_of k (vhdr v)) (pids k) (phys k)" "unat (space_len k (vhdr v)) = length (phys k)"
    "own 0 = Some HeaderPage" "q \<in> set (pids k) \<Longrightarrow> own q = Some (DirPage k)"
    "i < length (phys k) \<Longrightarrow> own (phys k ! i) = Some (DataPage k i)"
    "own p \<noteq> None \<Longrightarrow> mapped v p" "sp_pages S k = map (vpage v) (phys k)"
    "sp_other S p = Some d \<Longrightarrow> own p = None \<and> mapped v p \<and> vpage v p = d"
    "sp_hdr S = hide_roots (vhdr v)" "vcount v + sp_room S < 2 ^ 32" "version (vhdr v) = VERSION"
    "length (phys k) < vcount v"
proof -
  note L = assms [unfolded layout_def]
  show "vol_ok v" "0 < vcount v" "vpage v 0 = header_serialize (vhdr v)" "own 0 = Some HeaderPage"
      "sp_hdr S = hide_roots (vhdr v)" "vcount v + sp_room S < 2 ^ 32" "version (vhdr v) = VERSION"
    using L by - (elim conjE, assumption)+
  show "dir_rep v (dir_of k (vhdr v)) (pids k) (phys k)" "unat (space_len k (vhdr v)) = length (phys k)"
      "sp_pages S k = map (vpage v) (phys k)" "length (phys k) < vcount v"
    using L by - (elim conjE, simp only:)+
  show "own q = Some (DirPage k)" if "q \<in> set (pids k)" using L that by (elim conjE) simp
  show "own (phys k ! i) = Some (DataPage k i)" if "i < length (phys k)" using L that by (elim conjE) simp
  show "mapped v p" if "own p \<noteq> None" using L that by (elim conjE) metis
  show "own p = None \<and> mapped v p \<and> vpage v p = d" if "sp_other S p = Some d" using L that by (elim conjE) metis
qed

lemma layout_data:
  assumes "layout v S own pids phys" "i < length (phys k)"
  shows "mapped v (phys k ! i)" "phys k ! i \<noteq> 0" "phys k ! i \<notin> set (pids k')" "sp_other S (phys k ! i) = None"
    "length (vpage v (phys k ! i)) = PAGE_SIZE"
proof -
  note D = layoutD [OF assms(1)]
  have own: "own (phys k ! i) = Some (DataPage k i)" using D(8) assms(2) .
  show m: "mapped v (phys k ! i)" using D(9) [of "phys k ! i"] own by simp
  show "phys k ! i \<noteq> 0" using D(6) own by auto
  show "phys k ! i \<notin> set (pids k')" using D(7) [of "phys k ! i" k'] own by auto
  show "sp_other S (phys k ! i) = None" using D(11) [of "phys k ! i"] own by (cases "sp_other S (phys k ! i)") auto
  show "length (vpage v (phys k ! i)) = PAGE_SIZE" using D(1) m by (simp add: vol_ok_def)
qed

lemma data_page_inj:
  assumes "layout v S own pids phys" "i < length (phys k)" "j < length (phys k')"
  shows "phys k ! i = phys k' ! j \<longleftrightarrow> k = k' \<and> i = j"
proof
  assume "phys k ! i = phys k' ! j"
  then have "Some (DataPage k i) = Some (DataPage k' j)"
    using layoutD(8) [OF assms(1,2)] layoutD(8) [OF assms(1,3)] by (simp only:)
  then show "k = k' \<and> i = j" by simp
qed simp

text \<open>The length of a directory is that of its space, the root being a sentinel or not.\<close>

lemma dir_of_len:
  assumes "layout v S own pids phys"
  shows "length (phys k) = length (sp_pages S k)"
  unfolding layoutD(10) [OF assms] by simp

text \<open>A data page is overwritten.\<close>

lemma layout_write:
  assumes L: "layout v S own pids phys" and i: "i < length (phys k)" and d: "length d = PAGE_SIZE"
  shows "layout (vput (phys k ! i) d v) (S\<lparr>sp_pages := (sp_pages S)(k := (sp_pages S k)[i := d])\<rparr>) own pids phys"
proof -
  note D = layoutD [OF L] and P = layout_data [OF L i]
  let ?v = "vput (phys k ! i) d v"
  have "dir_rep ?v (dir_of k' (vhdr v)) (pids k') (phys k')" for k'
    using D(4) [of k'] P(3) [of k'] dir_chain_mapped
    by (intro dir_rep_cong [OF D(4) [of k']]) (auto simp: dir_rep_def)
  moreover have "map ((vpage v)(phys k ! i := d)) (phys k') = ((sp_pages S)(k := (sp_pages S k)[i := d])) k'" for k'
  proof (rule nth_equalityI)
    fix j assume j: "j < length (map ((vpage v)(phys k ! i := d)) (phys k'))"
    then have "phys k' ! j = phys k ! i \<longleftrightarrow> k' = k \<and> j = i"
      using data_page_inj [OF L _ i, of j k'] by simp
    then show "map ((vpage v)(phys k ! i := d)) (phys k') ! j = ((sp_pages S)(k := (sp_pages S k)[i := d])) k' ! j"
      using j D(10) [of k'] by (auto simp: nth_list_update)
  qed (use D(10) [of k'] in auto)
  ultimately show ?thesis
    using L P(2,4) vol_ok_vput [OF D(1) d, of "phys k ! i"] unfolding layout_def by auto
qed

text \<open>The header changes in the fields that are not the directories'.\<close>

definition keeps_dirs :: "(file_header \<Rightarrow> file_header) \<Rightarrow> bool" where
  "keeps_dirs g \<longleftrightarrow> (\<forall>h. hide_roots (g h) = g (hide_roots h) \<and> version (g h) = version h \<and>
     (\<forall>k. dir_of k (g h) = dir_of k h \<and> space_len k (g h) = space_len k h))"

lemma layout_header:
  assumes L: "layout v S own pids phys" and g: "keeps_dirs g"
  shows "layout (vsave_header (g (vhdr v)) v) (S\<lparr>sp_hdr := g (sp_hdr S)\<rparr>) own pids phys"
proof -
  note D = layoutD [OF L]
  let ?v = "vsave_header (g (vhdr v)) v"
  have other: "vpage ?v p = vpage v p" if "p \<noteq> 0" for p using that by (simp add: vsave_header_def)
  have not0: "0 \<notin> set (pids k)" "i < length (phys k) \<Longrightarrow> phys k ! i \<noteq> 0" for k i
    using D(6,7,8) by (metis option.inject owner.distinct(1,3))+
  have "dir_rep ?v (dir_of k (vhdr v)) (pids k) (phys k)" for k
    using D(4) [of k] not0(1) [of k] dir_chain_mapped other
    by (intro dir_rep_cong [OF D(4) [of k]]) (auto simp: dir_rep_def vsave_header_def)
  moreover have "map (vpage ?v) (phys k) = map (vpage v) (phys k)" for k
    using not0(2) [of _ k] other by (intro nth_equalityI) auto
  moreover have "vol_ok ?v"
    unfolding vsave_header_def by (intro vol_ok_vput) (simp_all add: vol_ok_hdr D(1))
  moreover have "sp_other S 0 = None" using D(6) D(11) [of 0] by (cases "sp_other S 0") auto
  ultimately show ?thesis
    using L g unfolding layout_def keeps_dirs_def
    by (auto simp: vsave_header_def)
qed

section \<open>The operations on a space\<close>

text \<open>The property and the topology operations are the same operations on different directories.\<close>

definition resolve_in :: "space \<Rightarrow> nat \<Rightarrow> (database_file, u32) op" where
  "resolve_in k i = (\<lambda>db. bnd (dir_resolve i (dir_of k (header db))) (resolved i) db)"

definition read_in :: "space \<Rightarrow> nat \<Rightarrow> (database_file, bytes) op" where
  "read_in k i = bnd (resolve_in k i) (\<lambda>physical. read_page physical)"

definition write_in :: "space \<Rightarrow> nat \<Rightarrow> bytes \<Rightarrow> (database_file, unit) op" where
  "write_in k i d = bnd (resolve_in k i) (\<lambda>physical. write_page physical d)"

definition store_in :: "space \<Rightarrow> page_directory \<Rightarrow> (database_file, unit) op" where
  "store_in k dir = bnd (modify (\<lambda>db. db\<lparr>header := set_space_dir k dir (header db)\<rparr>)) (\<lambda>_. write_header)"

definition alloc_in :: "space \<Rightarrow> bytes \<Rightarrow> (database_file, nat) op" where
  "alloc_in k d =
     bnd (append_page d) (\<lambda>physical.
     bnd (gets (\<lambda>db. dir_of k (header db))) (\<lambda>dir.
     bnd (dir_push physical dir) (\<lambda>(logical, dir).
     bnd (store_in k dir) (\<lambda>_.
     ret logical))))"

lemma space_ops:
  "resolve_property_page i = resolve_in PropertyS i" "resolve_topology_page kind i = resolve_in (space_of kind) i"
  "read_property_page i = read_in PropertyS i" "read_topology_page kind i = read_in (space_of kind) i"
  "write_property_page i d = write_in PropertyS i d" "write_topology_page kind i d = write_in (space_of kind) i d"
  "store_property_dir dir = store_in PropertyS dir" "store_topology_dir kind dir = store_in (space_of kind) dir"
  "alloc_topology_page kind d = alloc_in (space_of kind) d"
  by (cases kind; simp add: fun_eq_iff resolve_property_page_def resolve_topology_page_def resolve_in_def read_property_page_def
      read_topology_page_def read_in_def write_property_page_def write_topology_page_def write_in_def
      store_property_dir_def store_topology_dir_def store_in_def alloc_topology_page_def alloc_in_def
      dir_of_def set_space_dir_def space_of_def)+

lemma space_doesI:
  assumes "\<And>v own pids phys. layout v S own pids phys \<Longrightarrow>
    \<exists>v' own' pids' phys'. db_does m v r v' \<and> layout v' S' own' pids' phys'"
  shows "space_does m S r S'"
  using assms unfolding does_def space_rep_def by blast

lemma resolve_in_does:
  assumes "layout v S own pids phys"
  shows "db_does (resolve_in k i) v
    (if i < length (sp_pages S k) then Ok (phys k ! i) else Err (StorageCorrupted (of_nat i))) v"
proof -
  note r = dir_resolve_does [OF layoutD(4) [OF assms], of i k]
  have "db_does (bnd (dir_resolve i (dir_of k (vhdr v))) (resolved i)) v
      (if i < length (phys k) then Ok (phys k ! i) else Err (StorageCorrupted (of_nat i))) v"
    by (rule db.does_bnd [OF r]) (simp add: resolved_def)
  then show ?thesis
    unfolding resolve_in_def dir_of_len [OF assms, symmetric]
    by (rule db.does_gets_with [where k = "\<lambda>h. bnd (dir_resolve i (dir_of k h)) (resolved i)"])
qed

lemma read_in_does:
  assumes "i < length (sp_pages S k)"
  shows "space_does (read_in k i) S (Ok (sp_pages S k ! i)) S"
proof (rule space_doesI)
  fix v own pids phys assume L: "layout v S own pids phys"
  have i: "i < length (phys k)" using assms dir_of_len [OF L] by simp
  have "db_does (read_in k i) v (Ok (vpage v (phys k ! i))) v"
    unfolding read_in_def using resolve_in_does [OF L, of k i] assms layout_data(1) [OF L i]
    by (intro db.does_bnd [where k = read_page]) (auto intro: db.does_read)
  moreover have "vpage v (phys k ! i) = sp_pages S k ! i" using i layoutD(10) [OF L, of k] by simp
  ultimately show "\<exists>v' own' pids' phys'. db_does (read_in k i) v (Ok (sp_pages S k ! i)) v' \<and> layout v' S own' pids' phys'"
    using L by auto
qed

lemma read_in_beyond:
  assumes "\<not> i < length (sp_pages S k)"
  shows "space_does (read_in k i) S (Err (StorageCorrupted (of_nat i))) S"
proof (rule space_doesI)
  fix v own pids phys assume L: "layout v S own pids phys"
  have "db_does (read_in k i) v (Err (StorageCorrupted (of_nat i))) v"
    unfolding read_in_def using resolve_in_does [OF L, of k i] assms by (intro db.does_bnd_Inl) simp
  then show "\<exists>v' own' pids' phys'. db_does (read_in k i) v (Err (StorageCorrupted (of_nat i))) v' \<and> layout v' S own' pids' phys'"
    using L by blast
qed

definition sp_set :: "space \<Rightarrow> nat \<Rightarrow> bytes \<Rightarrow> spaces \<Rightarrow> spaces" where
  "sp_set k i d S = S\<lparr>sp_pages := (sp_pages S)(k := (sp_pages S k)[i := d])\<rparr>"

lemma sp_set_simps [simp]:
  "sp_pages (sp_set k i d S) = (sp_pages S)(k := (sp_pages S k)[i := d])" "sp_hdr (sp_set k i d S) = sp_hdr S"
  "sp_room (sp_set k i d S) = sp_room S" "sp_other (sp_set k i d S) = sp_other S"
  by (simp_all add: sp_set_def)

lemma write_in_does:
  assumes "i < length (sp_pages S k)" "length d = PAGE_SIZE"
  shows "space_does (write_in k i d) S (Ok ()) (sp_set k i d S)"
proof (rule space_doesI)
  fix v own pids phys assume L: "layout v S own pids phys"
  have i: "i < length (phys k)" using assms dir_of_len [OF L] by simp
  have "db_does (write_in k i d) v (Ok ()) (vput (phys k ! i) d v)"
    unfolding write_in_def using resolve_in_does [OF L, of k i] assms layout_data(1) [OF L i]
    by (intro db.does_bnd [where k = "\<lambda>p. write_page p d"]) (auto intro: db.does_write)
  then show "\<exists>v' own' pids' phys'. db_does (write_in k i d) v (Ok ()) v' \<and> layout v' (sp_set k i d S) own' pids' phys'"
    using layout_write [OF L i assms(2)] unfolding sp_set_def by blast
qed

text \<open>Header updates.\<close>

lemma header_update_does:
  assumes "keeps_dirs g"
  shows "space_does (bnd (modify (\<lambda>db. db\<lparr>header := g (header db)\<rparr>)) (\<lambda>_. write_header)) S (Ok ())
    (S\<lparr>sp_hdr := g (sp_hdr S)\<rparr>)"
proof (rule space_doesI)
  fix v own pids phys assume L: "layout v S own pids phys"
  show "\<exists>v' own' pids' phys'. db_does (bnd (modify (\<lambda>db. db\<lparr>header := g (header db)\<rparr>)) (\<lambda>_. write_header)) v (Ok ()) v' \<and>
      layout v' (S\<lparr>sp_hdr := g (sp_hdr S)\<rparr>) own' pids' phys'"
    using does_save_header [OF layoutD(2) [OF L], of g] layout_header [OF L assms] by blast
qed

lemma dir_of_simps:
  "dir_of k (h\<lparr>property_first_free_page := x\<rparr>) = dir_of k h" "dir_of k (h\<lparr>node_first_free_page := x\<rparr>) = dir_of k h"
  "dir_of k (h\<lparr>edge_first_free_page := x\<rparr>) = dir_of k h" "dir_of k (h\<lparr>property_free_list_head := x\<rparr>) = dir_of k h"
  by (cases k; simp add: dir_of_def property_dir_def topology_dir_def)+

lemma keeps_dirs_updates:
  "keeps_dirs (property_first_free_page_update f)" "keeps_dirs (node_first_free_page_update f)"
  "keeps_dirs (edge_first_free_page_update f)" "keeps_dirs (property_free_list_head_update f)"
  by (auto simp: keeps_dirs_def hide_roots_def dir_of_def property_dir_def topology_dir_def space_len_def
      split: space.splits)

lemma set_hint_does:
  "space_does (set_property_first_free_hint n) S (Ok ()) (S\<lparr>sp_hdr := (sp_hdr S)\<lparr>property_first_free_page := of_nat n\<rparr>\<rparr>)"
  "space_does (set_property_free_list_head p) S (Ok ()) (S\<lparr>sp_hdr := (sp_hdr S)\<lparr>property_free_list_head := p\<rparr>\<rparr>)"
  "space_does (set_topology_first_free_hint Node n) S (Ok ()) (S\<lparr>sp_hdr := (sp_hdr S)\<lparr>node_first_free_page := of_nat n\<rparr>\<rparr>)"
  "space_does (set_topology_first_free_hint Edge n) S (Ok ()) (S\<lparr>sp_hdr := (sp_hdr S)\<lparr>edge_first_free_page := of_nat n\<rparr>\<rparr>)"
  unfolding set_property_first_free_hint_def set_property_free_list_head_def set_topology_first_free_hint_def
  using header_update_does [OF keeps_dirs_updates(1), of "\<lambda>_. of_nat n" S]
    header_update_does [OF keeps_dirs_updates(4), of "\<lambda>_. p" S]
    header_update_does [OF keeps_dirs_updates(2), of "\<lambda>_. of_nat n" S]
    header_update_does [OF keeps_dirs_updates(3), of "\<lambda>_. of_nat n" S]
  by simp_all

section \<open>Allocation\<close>

definition sp_add :: "space \<Rightarrow> bytes \<Rightarrow> spaces \<Rightarrow> spaces" where
  "sp_add k d S = S\<lparr>sp_pages := (sp_pages S)(k := sp_pages S k @ [d]),
     sp_hdr := set_space_len k (Suc (length (sp_pages S k))) (sp_hdr S), sp_room := sp_room S - 2\<rparr>"

lemma sp_add_simps [simp]:
  "sp_pages (sp_add k d S) = (sp_pages S)(k := sp_pages S k @ [d])"
  "sp_hdr (sp_add k d S) = set_space_len k (Suc (length (sp_pages S k))) (sp_hdr S)"
  "sp_room (sp_add k d S) = sp_room S - 2" "sp_other (sp_add k d S) = sp_other S"
  by (simp_all add: sp_add_def)

text \<open>
  What an operation on the spaces leaves alone: the pages of the other components, and the header
  fields of the indexes and of the schema. An operation on property pages also keeps the fields of the
  topology.
\<close>

definition index_part :: "file_header \<Rightarrow> u32 \<times> u32 \<times> u32 \<times> u32" where
  "index_part h = (label_index_root h, property_index_root h, schema_root h, schema_version h)"

definition topo_part :: "file_header \<Rightarrow> u32 \<times> u32 \<times> u32 \<times> u32" where
  "topo_part h = (node_first_free_page h, edge_first_free_page h, node_page_count h, edge_page_count h)"

definition same_rest :: "spaces \<Rightarrow> spaces \<Rightarrow> bool" where
  "same_rest S S' \<longleftrightarrow> sp_other S' = sp_other S \<and> index_part (sp_hdr S') = index_part (sp_hdr S)"

definition only_props :: "spaces \<Rightarrow> spaces \<Rightarrow> bool" where
  "only_props S S' \<longleftrightarrow> same_rest S S' \<and> topo_part (sp_hdr S') = topo_part (sp_hdr S)"

lemma header_part_simps [simp]:
  "index_part (set_space_len k n h) = index_part h" "topo_part (set_space_len PropertyS n h) = topo_part h"
  "index_part (h\<lparr>property_free_list_head := x\<rparr>) = index_part h" "topo_part (h\<lparr>property_free_list_head := x\<rparr>) = topo_part h"
  "index_part (h\<lparr>property_first_free_page := x\<rparr>) = index_part h" "topo_part (h\<lparr>property_first_free_page := x\<rparr>) = topo_part h"
  "index_part (h\<lparr>node_first_free_page := x\<rparr>) = index_part h" "index_part (h\<lparr>edge_first_free_page := x\<rparr>) = index_part h"
  "index_part (hide_roots h) = index_part h" "topo_part (hide_roots h) = topo_part h"
  by (cases k; simp add: index_part_def topo_part_def set_space_len_def hide_roots_def)+

lemma same_rest_simps [simp]:
  "same_rest S S" "only_props S S"
  "same_rest S (sp_set k l d S') = same_rest S S'" "same_rest S (sp_add k d S') = same_rest S S'"
  "only_props S (sp_set k l d S') = only_props S S'" "only_props S (sp_add PropertyS d S') = only_props S S'"
  by (simp_all add: same_rest_def only_props_def)

lemma same_rest_trans: "same_rest S S' \<Longrightarrow> same_rest S' S'' \<Longrightarrow> same_rest S S''"
  by (simp add: same_rest_def)

lemma dir_of_set_same:
  assumes "dir_root dir \<noteq> UNMAPPED" "dir_len dir < 2 ^ 32"
  shows "dir_of k (set_space_dir k dir h) = dir" "unat (space_len k (set_space_dir k dir h)) = dir_len dir"
proof -
  have "unat (of_nat (dir_len dir) :: u32) = dir_len dir" using assms(2) by (rule unat_of_nat_small)
  then show "dir_of k (set_space_dir k dir h) = dir" "unat (space_len k (set_space_dir k dir h)) = dir_len dir"
    using assms(1) by (cases k; simp add: dir_of_def set_space_dir_def property_dir_def topology_dir_def dir_with_root_def
        NO_DIR_ROOT_def UNMAPPED_def space_len_def)+
qed

lemma dir_of_set_other:
  assumes "k' \<noteq> k"
  shows "dir_of k' (set_space_dir k dir h) = dir_of k' h" "space_len k' (set_space_dir k dir h) = space_len k' h"
  using assms by (cases k; cases k'; simp add: dir_of_def set_space_dir_def property_dir_def topology_dir_def space_len_def)+

lemma hide_roots_set: "hide_roots (set_space_dir k dir h) = set_space_len k (dir_len dir) (hide_roots h)"
  by (cases k; simp add: hide_roots_def set_space_dir_def set_space_len_def)

lemma version_set [simp]: "version (set_space_dir k dir h) = version h"
  by (cases k; simp add: set_space_dir_def)

lemma store_in_does: "0 < vcount w \<Longrightarrow> db_does (store_in k dir) w (Ok ()) (vsave_header (set_space_dir k dir (vhdr w)) w)"
  unfolding store_in_def by (rule does_save_header)

lemma alloc_in_does:
  assumes room: "2 \<le> sp_room S" and d: "length d = PAGE_SIZE"
  shows "space_does (alloc_in k d) S (Ok (length (sp_pages S k))) (sp_add k d S)"
proof (rule space_doesI)
  fix v own pids phys assume L: "layout v S own pids phys"
  note D = layoutD [OF L]
  let ?n = "length (phys k)" and ?ph = "of_nat (vcount v) :: u32" and ?v1 = "vappend d v"
  have lens: "Suc (vcount v) < 2 ^ 32" "Suc (vcount ?v1) < 2 ^ 32" using D(13) room by simp_all
  have ok1: "vol_ok ?v1" by (rule vol_ok_vappend [OF D(1) lens(1) d])
  have ph: "unat ?ph = vcount v" "mapped ?v1 ?ph" "\<not> mapped v ?ph" using lens(1) by (simp_all add: unat_of_nat_small)
  have ph_ne: "?ph \<noteq> UNMAPPED" using mapped_not_UNMAPPED [OF ok1 ph(2)] .
  have own_ph: "own ?ph = None" using D(9) [of ?ph] ph(3) by blast
  have keep1: "mapped ?v1 p \<and> vpage ?v1 p = vpage v p" if "mapped v p" for p
    using that fresh_page [of v p] lens(1) by auto
  have dir1: "dir_rep ?v1 (dir_of k' (vhdr v)) (pids k') (phys k')" for k'
  proof (rule dir_rep_cong [OF D(4) [of k']])
    fix q assume "q \<in> set (pids k')"
    then have "mapped v q" using D(7) [of q k'] D(9) [of q] by simp
    then show "mapped ?v1 q \<and> vpage ?v1 q = vpage v q" by (rule keep1)
  qed
  obtain w pids' dir' where p: "db_does (dir_push ?ph (dir_of k (vhdr v))) ?v1 (Ok (?n, dir')) w"
      "dir_rep w dir' pids' (phys k @ [?ph])" "dir_frame 1 ?v1 (pids k) w pids'" "vol_ok w"
    using dir_push_does [OF dir1 [of k] ph_ne lens(2) ok1] by blast
  have count_w: "Suc (vcount v) \<le> vcount w" "vcount w \<le> vcount v + 2" "vhdr w = vhdr v"
    using p(3) by (simp_all add: dir_frame_def)
  let ?h = "set_space_dir k dir' (vhdr v)" and ?v3 = "vsave_header (set_space_dir k dir' (vhdr v)) w"
  have done3: "db_does (alloc_in k d) v (Ok ?n) ?v3"
  proof -
    have "db_does (gets (\<lambda>db. dir_of k (header db))) ?v1 (Ok (dir_of k (vhdr v))) ?v1"
      using db.does_gets_with [where k = "\<lambda>h. ret (dir_of k h)"] by (simp add: gets_def ret_def)
    then show ?thesis
      unfolding alloc_in_def
      by (rule db.does_bnd [OF db.does_append [OF lens(1) d] db.does_bnd])
        (rule db.does_bnd [OF p(1)], use store_in_does [of w k dir'] count_w in \<open>auto intro: db.does_bnd\<close>)
  qed
  \<comment> \<open>what changed\<close>
  have page_w: "vpage w p = vpage ?v1 p" if "mapped ?v1 p" "p \<notin> set (pids k)" for p
    using p(3) that by (auto simp: dir_frame_def)
  have page3: "mapped ?v3 p \<and> vpage ?v3 p = vpage v p" if "mapped v p" "p \<notin> set (pids k)" "p \<noteq> 0" for p
    using that keep1 [OF that(1)] page_w [of p] count_w(1) by (simp add: vsave_header_def)
  have ph_page: "vpage ?v3 ?ph = d"
  proof -
    have "?ph \<noteq> 0" using D(2) ph(1) by auto
    moreover have "?ph \<notin> set (pids k)" using D(7) [of ?ph k] own_ph by auto
    ultimately show ?thesis using page_w [OF ph(2)] by (simp add: vsave_header_def)
  qed
  have pids': "own q = Some (DirPage k) \<or> own q = None \<and> q \<noteq> ?ph" "q \<noteq> 0" if "q \<in> set pids'" for q
  proof -
    have "q \<in> set (pids k) \<or> \<not> mapped ?v1 q" using p(3) that by (auto simp: dir_frame_def)
    then show "own q = Some (DirPage k) \<or> own q = None \<and> q \<noteq> ?ph"
      using D(7) [of q k] D(9) [of q] keep1 [of q] ph(2) by blast
    then show "q \<noteq> 0" using D(6) by auto
  qed
  define own' where "own' p = (if p \<in> set pids' then Some (DirPage k) else if p = ?ph then Some (DataPage k ?n) else own p)" for p
  have own_keep: "own' p = own p" if "own p \<noteq> None" for p
    using that pids'(1) [of p] own_ph by (auto simp: own'_def)
  have root: "dir_root dir' \<noteq> UNMAPPED" "dir_len dir' = Suc ?n"
    using p(2) mapped_not_UNMAPPED [OF p(4)] by (cases pids'; auto simp: dir_rep_def)+
  have small: "dir_len dir' < 2 ^ 32" using root(2) D(15) [of k] lens(1) by simp
  let ?S = "sp_add k d S" and ?pids = "pids(k := pids')" and ?phys = "phys(k := phys k @ [?ph])"
  have not0: "p \<noteq> 0" if "own p = Some (DirPage k') \<or> own p = Some (DataPage k' i)" for p k' i
    using that D(6) by auto
  have "layout ?v3 ?S own' ?pids ?phys"
    unfolding layout_def
  proof (intro conjI allI impI ballI)
    show "vol_ok ?v3" unfolding vsave_header_def by (intro vol_ok_vput) (simp_all add: vol_ok_hdr p(4))
    show "0 < vcount ?v3" using count_w by (simp add: vsave_header_def)
    show "vpage ?v3 0 = header_serialize (vhdr ?v3)" "version (vhdr ?v3) = VERSION"
      using D(14) by (simp_all add: vsave_header_def)
    show "own' 0 = Some HeaderPage" using own_keep [of 0] D(6) by simp
    fix k'
    show "dir_rep ?v3 (dir_of k' (vhdr ?v3)) (?pids k') (?phys k')"
    proof (cases "k' = k")
      case True
      have "dir_rep ?v3 dir' pids' (phys k @ [?ph])"
        using p(2) pids'(2) dir_chain_mapped [of w "dir_root dir'" pids']
        by (intro dir_rep_cong [OF p(2)]) (auto simp: vsave_header_def dir_rep_def)
      then show ?thesis using True dir_of_set_same(1) [OF root(1) small] by (simp add: vsave_header_def)
    next
      case False
      have "mapped ?v3 q \<and> vpage ?v3 q = vpage v q" if "q \<in> set (pids k')" for q
        using page3 [of q] D(7) [OF that] D(7) [of q k] D(9) [of q] not0 [of q k'] False by auto
      then have "dir_rep ?v3 (dir_of k' (vhdr v)) (pids k') (phys k')" by (intro dir_rep_cong [OF D(4) [of k']])
      then show ?thesis using False by (simp add: vsave_header_def dir_of_set_other)
    qed
    show "unat (space_len k' (vhdr ?v3)) = length (?phys k')"
      using dir_of_set_same(2) [OF root(1) small, of k] root(2) D(5) [of k']
      by (cases "k' = k") (simp_all add: vsave_header_def dir_of_set_other)
    show "length (?phys k') < vcount ?v3"
      using D(15) [of k'] D(15) [of k] count_w(1) by (cases "k' = k") (simp_all add: vsave_header_def)
    show "own' q = Some (DirPage k')" if "q \<in> set (?pids k')" for q
      using that D(7) [of q k'] own_keep [of q] by (cases "k' = k") (simp_all add: own'_def)
    show "own' (?phys k' ! i) = Some (DataPage k' i)" if "i < length (?phys k')" for i
    proof (cases "k' = k \<and> i = ?n")
      case True
      then show ?thesis using pids'(1) [of ?ph] own_ph by (auto simp: own'_def)
    next
      case False
      then have i: "i < length (phys k')" using that by (auto split: if_splits)
      have "?phys k' ! i = phys k' ! i" using i by (cases "k' = k") (simp_all add: nth_append)
      then show ?thesis using D(8) [OF i] own_keep [of "phys k' ! i"] by simp
    qed
    show "sp_pages ?S k' = map (vpage ?v3) (?phys k')"
    proof -
      have "map (vpage ?v3) (phys k') = map (vpage v) (phys k')"
      proof (rule nth_equalityI)
        fix i assume "i < length (map (vpage ?v3) (phys k'))"
        then have i: "i < length (phys k')" by simp
        then show "map (vpage ?v3) (phys k') ! i = map (vpage v) (phys k') ! i"
          using page3 [of "phys k' ! i"] layout_data(1,2) [OF L i] layout_data(3) [OF L i, of k] by simp
      qed simp
      then show ?thesis using D(10) [of k'] ph_page by (cases "k' = k") simp_all
    qed
    show "sp_hdr ?S = hide_roots (vhdr ?v3)"
      using D(12) root(2) dir_of_len [OF L, of k] by (simp add: vsave_header_def hide_roots_set)
    show "vcount ?v3 + sp_room ?S < 2 ^ 32" using D(13) room count_w(2) by (simp add: vsave_header_def)
  next
    fix q assume "own' q \<noteq> None"
    then have "q \<in> set pids' \<or> q = ?ph \<or> own q \<noteq> None" by (auto simp: own'_def)
    then have "mapped w q"
      using p(2) dir_chain_mapped [of w "dir_root dir'" pids' q] D(9) [of q] count_w(1) ph(1)
      by (auto simp: dir_rep_def)
    then show "mapped ?v3 q" by (simp add: vsave_header_def)
  next
    fix q e assume "sp_other ?S q = Some e"
    then have q: "own q = None" "mapped v q" "vpage v q = e" using D(11) [of q e] by simp_all
    have "q \<notin> set pids'" "q \<noteq> ?ph"
      using q(1,2) ph(3) p(3) D(7) [of q k] keep1 [OF q(2)] by (auto simp: dir_frame_def)
    moreover have "q \<notin> set (pids k)" "q \<noteq> 0" using q(1) D(7) [of q k] D(6) by auto
    ultimately show "own' q = None" "mapped ?v3 q" "vpage ?v3 q = e"
      using q page3 [of q] by (simp_all add: own'_def)
  qed
  then show "\<exists>v' own' pids' phys'. db_does (alloc_in k d) v (Ok (length (sp_pages S k))) v' \<and> layout v' (sp_add k d S) own' pids' phys'"
    using done3 dir_of_len [OF L, of k] by metis
qed

section \<open>Recycling property pages\<close>

definition sp_free_head :: "u32 \<Rightarrow> spaces \<Rightarrow> spaces" where
  "sp_free_head p S = S\<lparr>sp_hdr := (sp_hdr S)\<lparr>property_free_list_head := p\<rparr>\<rparr>"

lemma sp_free_head_simps [simp]:
  "sp_pages (sp_free_head p S) = sp_pages S" "sp_room (sp_free_head p S) = sp_room S"
  "sp_other (sp_free_head p S) = sp_other S" "sp_hdr (sp_free_head p S) = (sp_hdr S)\<lparr>property_free_list_head := p\<rparr>"
  by (simp_all add: sp_free_head_def)

lemma sp_free_head_rest [simp]:
  "same_rest S (sp_free_head p S') = same_rest S S'" "only_props S (sp_free_head p S') = only_props S S'"
  by (simp_all add: same_rest_def only_props_def)

text \<open>The free-page list: the logical numbers on it, most recently freed first.\<close>

fun free_list :: "bytes list \<Rightarrow> u32 \<Rightarrow> nat list \<Rightarrow> bool" where
  "free_list pages head [] \<longleftrightarrow> head = NO_FREE_PAGE"
| "free_list pages head (x # xs) \<longleftrightarrow> head \<noteq> NO_FREE_PAGE \<and> unat head = x \<and> x < length pages \<and>
     get16 0 (pages ! x) = FREE_PAGE_MARKER \<and> free_list pages (get32 4 (pages ! x)) xs"

abbreviation free_pages :: "spaces \<Rightarrow> nat list \<Rightarrow> bool" where
  "free_pages S xs \<equiv> free_list (sp_pages S PropertyS) (property_free_list_head (sp_hdr S)) xs \<and> distinct xs"

lemma length_free_page_image [simp]: "length (free_page_image p) = PAGE_SIZE"
  by (simp add: free_page_image_def PAGE_SIZE_def)

lemma free_page_image_fields:
  "get16 0 (free_page_image p) = FREE_PAGE_MARKER" "get32 4 (free_page_image p) = p"
proof -
  have "8 \<le> PAGE_SIZE" by (simp add: PAGE_SIZE_def)
  then show "get16 0 (free_page_image p) = FREE_PAGE_MARKER" "get32 4 (free_page_image p) = p"
    by (simp_all add: free_page_image_def slice_simps)
qed

lemma space_does_bnd: "space_does m S (Ok x) S1 \<Longrightarrow> space_does (k x) S1 r S2 \<Longrightarrow> space_does (bnd m k) S r S2"
  using db.R_trans unfolding does_def bnd_def by fastforce

lemma space_does_bnd_Inl: "space_does m S (Inl e) S1 \<Longrightarrow> space_does (bnd m k) S (Inl e) S1"
  unfolding does_def bnd_def by fastforce

lemma space_does_pair [simp]: "space_does (Pair r) S r S"
  using db.R_refl by (simp add: does_def)

lemma space_does_ret [simp]: "space_does (ret x) S (Ok x) S"
  using db.R_refl by (simp add: does_def)

lemma space_does_fail [simp]: "space_does (fail e) S (Inl e) S"
  using db.R_refl by (simp add: does_def)

text \<open>Reading the header: anything that does not depend on the roots of the directories.\<close>

lemma space_does_header:
  assumes "\<And>h. k (hide_roots h) = k h" "space_does (k (sp_hdr S)) S r S'"
  shows "space_does (\<lambda>db. k (header db) db) S r S'"
proof -
  have "k (header db) = k (sp_hdr S)" if rep: "space_rep db S" for db
  proof -
    obtain v own pids phys where "db_rep db v" "layout v S own pids phys" using rep by (auto simp: space_rep_def)
    then have "sp_hdr S = hide_roots (header db)" using layoutD(12) by (simp add: db_rep_def)
    then show ?thesis using assms(1) by simp
  qed
  then show ?thesis using assms(2) unfolding does_def by simp
qed

lemma free_head_hide [simp]: "property_free_head (hide_roots h) = property_free_head h"
  "property_free_list_head (hide_roots h) = property_free_list_head h"
  by (simp_all add: property_free_head_def hide_roots_def)

lemma set_free_head_does: "space_does (set_property_free_list_head p) S (Ok ()) (sp_free_head p S)"
  using set_hint_does(2) [of p S] by (simp add: sp_free_head_def)

lemma pop_does:
  assumes "space_does (pop_free_head (property_free_head (sp_hdr S))) S r S'"
  shows "space_does pop_property_free_page S r S'"
  unfolding pop_property_free_page_def
  by (rule space_does_header [where k = "\<lambda>h. pop_free_head (property_free_head h)"]) (simp_all add: assms)

lemma pop_empty:
  assumes "property_free_list_head (sp_hdr S) = NO_FREE_PAGE"
  shows "space_does pop_property_free_page S (Ok None) S"
  by (rule pop_does) (simp add: assms property_free_head_def pop_free_head_def)

lemma pop_first:
  assumes "free_pages S (x # xs)"
  shows "space_does pop_property_free_page S (Ok (Some x)) (sp_free_head (get32 4 (sp_pages S PropertyS ! x)) S)"
proof (rule pop_does)
  have head: "property_free_head (sp_hdr S) = Some x"
    using assms by (simp add: property_free_head_def Let_def)
  have x: "x < length (sp_pages S PropertyS)" and marker: "get16 0 (sp_pages S PropertyS ! x) = FREE_PAGE_MARKER"
    using assms by auto
  show "space_does (pop_free_head (property_free_head (sp_hdr S))) S (Ok (Some x))
      (sp_free_head (get32 4 (sp_pages S PropertyS ! x)) S)"
    unfolding head pop_free_head_def space_ops option.case Let_def
    by (rule space_does_bnd [OF read_in_does [OF x]])
      (simp add: marker space_does_bnd [OF set_free_head_does])
qed

lemma pop_corrupt:
  assumes "property_free_head (sp_hdr S) = Some x" "x < length (sp_pages S PropertyS)"
    and "get16 0 (sp_pages S PropertyS ! x) \<noteq> FREE_PAGE_MARKER"
  shows "space_does pop_property_free_page S (Ok None) (sp_free_head NO_FREE_PAGE S)"
proof (rule pop_does)
  show "space_does (pop_free_head (property_free_head (sp_hdr S))) S (Ok None) (sp_free_head NO_FREE_PAGE S)"
    unfolding assms(1) pop_free_head_def space_ops option.case Let_def
    by (rule space_does_bnd [OF read_in_does [OF assms(2)]])
      (simp add: assms(3) space_does_bnd [OF set_free_head_does])
qed

lemma alloc_append_does:
  assumes "space_does pop_property_free_page S (Ok None) S1" "2 \<le> sp_room S1" "length d = PAGE_SIZE"
  shows "space_does (alloc_property_page d) S (Ok (length (sp_pages S1 PropertyS))) (sp_add PropertyS d S1)"
  unfolding alloc_property_page_def
  by (rule space_does_bnd [OF assms(1)])
    (use alloc_in_does [OF assms(2,3), of PropertyS] in \<open>simp add: alloc_in_def space_ops dir_of_def\<close>)

text \<open>With an empty free list a page is appended; otherwise the most recently freed page is reused.\<close>

lemma alloc_property_grow:
  assumes "free_pages S []" "2 \<le> sp_room S" "length d = PAGE_SIZE"
  shows "space_does (alloc_property_page d) S (Ok (length (sp_pages S PropertyS))) (sp_add PropertyS d S)"
  using alloc_append_does [OF pop_empty assms(2,3)] assms(1) by simp

lemma alloc_property_reuse:
  assumes "free_pages S (x # xs)" "length d = PAGE_SIZE"
  shows "space_does (alloc_property_page d) S (Ok x)
    (sp_set PropertyS x d (sp_free_head (get32 4 (sp_pages S PropertyS ! x)) S))"
proof -
  let ?S = "sp_free_head (get32 4 (sp_pages S PropertyS ! x)) S"
  have "x < length (sp_pages ?S PropertyS)" using assms(1) by simp
  then have w: "space_does (write_in PropertyS x d) ?S (Ok ()) (sp_set PropertyS x d ?S)"
    using assms(2) by (rule write_in_does)
  show ?thesis
    unfolding alloc_property_page_def
    by (rule space_does_bnd [OF pop_first [OF assms(1)]]) (simp add: space_ops space_does_bnd [OF w])
qed

lemma free_list_cong:
  assumes "free_list pages head xs" "\<And>x. x \<in> set xs \<Longrightarrow> x < length pages' \<and> pages' ! x = pages ! x"
  shows "free_list pages' head xs"
  using assms by (induction xs arbitrary: head) auto

lemma free_list_bound: "free_list pages head xs \<Longrightarrow> x \<in> set xs \<Longrightarrow> x < length pages"
  by (induction xs arbitrary: head) auto

lemma free_list_update:
  assumes "free_list pages head xs" "i \<notin> set xs"
  shows "free_list (pages[i := d]) head xs"
proof (rule free_list_cong [OF assms(1)])
  fix x assume x: "x \<in> set xs"
  then have "i \<noteq> x" using assms(2) by auto
  then show "x < length (pages[i := d]) \<and> pages[i := d] ! x = pages ! x"
    using free_list_bound [OF assms(1) x] by simp
qed

lemma free_pages_reuse:
  assumes "free_pages S (x # xs)"
  shows "free_pages (sp_set PropertyS x d (sp_free_head (get32 4 (sp_pages S PropertyS ! x)) S)) xs"
  using assms free_list_update [of "sp_pages S PropertyS" "get32 4 (sp_pages S PropertyS ! x)" xs x d]
  by simp

lemma free_property_does:
  assumes "i < length (sp_pages S PropertyS)"
  shows "space_does (free_property_page i) S (Ok ())
    (sp_free_head (of_nat i) (sp_set PropertyS i (free_page_image (property_free_list_head (sp_hdr S))) S))"
proof -
  have "space_does (bnd (write_property_page i (free_page_image (property_free_list_head (sp_hdr S))))
      (\<lambda>_. set_property_free_list_head (of_nat i))) S (Ok ())
      (sp_free_head (of_nat i) (sp_set PropertyS i (free_page_image (property_free_list_head (sp_hdr S))) S))"
    unfolding space_ops by (rule space_does_bnd [OF write_in_does [OF assms] set_free_head_does]) simp
  then show ?thesis
    unfolding free_property_page_def Let_def
    by (intro space_does_header [where k = "\<lambda>h. bnd (write_property_page i (free_page_image (property_free_list_head h)))
        (\<lambda>_. set_property_free_list_head (of_nat i))"]) simp_all
qed

lemma free_pages_free:
  assumes "free_pages S xs" "i < length (sp_pages S PropertyS)" "i < 2 ^ 32 - 1" "i \<notin> set xs"
  shows "free_pages (sp_free_head (of_nat i) (sp_set PropertyS i (free_page_image (property_free_list_head (sp_hdr S))) S)) (i # xs)"
proof -
  have i: "unat (of_nat i :: u32) = i" using assms(3) by (intro unat_of_nat_small) simp
  then have "(of_nat i :: u32) \<noteq> NO_FREE_PAGE" using assms(3) by (auto simp: NO_FREE_PAGE_def)
  then show ?thesis
    using assms i free_list_update [of "sp_pages S PropertyS" "property_free_list_head (sp_hdr S)" xs i]
    by (simp add: free_page_image_fields)
qed

section \<open>What the record stores rely on\<close>

text \<open>
  The property store and the topology see an array of pages: reading a page in range returns it,
  writing one replaces it, adding one appends it. A read-modify-write of a page is an update of the
  array at one index.
\<close>

locale logical_pages =
  fixes pages :: "spaces \<Rightarrow> bytes list"
    and put :: "nat \<Rightarrow> bytes \<Rightarrow> spaces \<Rightarrow> spaces"
    and read :: "nat \<Rightarrow> (database_file, bytes) op"
    and store :: "nat \<Rightarrow> bytes \<Rightarrow> (database_file, unit) op"
  assumes read_law: "i < length (pages S) \<Longrightarrow> space_does (read i) S (Ok (pages S ! i)) S"
    and read_beyond_law: "\<not> i < length (pages S) \<Longrightarrow> space_does (read i) S (Err (StorageCorrupted (of_nat i))) S"
    and store_law: "i < length (pages S) \<Longrightarrow> length d = PAGE_SIZE \<Longrightarrow> space_does (store i d) S (Ok ()) (put i d S)"
    and put_law: "pages (put i d S) = (pages S)[i := d]"
begin

lemma read_then:
  assumes "i < length (pages S)" "space_does (k (pages S ! i)) S r S'"
  shows "space_does (bnd (read i) k) S r S'"
  by (rule space_does_bnd [OF read_law [OF assms(1)]]) (rule assms(2))

lemma store_then:
  assumes "i < length (pages S)" "length d = PAGE_SIZE" "space_does k (put i d S) r S'"
  shows "space_does (bnd (store i d) (\<lambda>_. k)) S r S'"
  using space_does_bnd [OF store_law [OF assms(1,2)], of "\<lambda>_. k"] assms(3) by simp

lemma read_beyond_then:
  assumes "\<not> i < length (pages S)"
  shows "space_does (bnd (read i) k) S (Err (StorageCorrupted (of_nat i))) S"
  using space_does_bnd_Inl [OF read_beyond_law [OF assms]] .

lemma update_page:
  assumes "i < length (pages S)" "length (f (pages S ! i)) = PAGE_SIZE"
  shows "space_does (bnd (read i) (\<lambda>page. bnd (store i (f page)) (\<lambda>_. ret x))) S (Ok x) (put i (f (pages S ! i)) S)"
  using assms by (intro read_then store_then) simp_all

lemma store_then_read:
  assumes "i < length (pages S)" "j < length (pages S)" "length d = PAGE_SIZE"
  shows "space_does (bnd (store i d) (\<lambda>_. read j)) S (Ok (if j = i then d else pages S ! j)) (put i d S)"
  using assms read_law [of j "put i d S"] by (intro store_then) (auto simp: put_law)

end

interpretation property_pages: logical_pages "\<lambda>S. sp_pages S PropertyS" "sp_set PropertyS" read_property_page write_property_page
  by unfold_locales (simp_all add: space_ops read_in_does read_in_beyond write_in_does)

interpretation node_pages: logical_pages "\<lambda>S. sp_pages S NodeS" "sp_set NodeS"
  "read_topology_page Node" "write_topology_page Node"
  by unfold_locales (simp_all add: space_ops space_of_def read_in_does read_in_beyond write_in_does)

interpretation edge_pages: logical_pages "\<lambda>S. sp_pages S EdgeS" "sp_set EdgeS"
  "read_topology_page Edge" "write_topology_page Edge"
  by unfold_locales (simp_all add: space_ops space_of_def read_in_does read_in_beyond write_in_does)

text \<open>Facts about every represented store.\<close>

definition sp_wf :: "spaces \<Rightarrow> bool" where
  "sp_wf S \<longleftrightarrow> (\<forall>k. unat (space_len k (sp_hdr S)) = length (sp_pages S k) \<and>
     (\<forall>p \<in> set (sp_pages S k). length p = PAGE_SIZE))"

lemma space_len_hide [simp]: "space_len k (hide_roots h) = space_len k h"
  by (cases k; simp add: space_len_def hide_roots_def)

lemma space_rep_wf: "space_rep db S \<Longrightarrow> sp_wf S"
proof -
  assume "space_rep db S"
  then obtain v own pids phys where L: "layout v S own pids phys" by (auto simp: space_rep_def)
  have "length p = PAGE_SIZE" if p: "p \<in> set (sp_pages S k)" for p k
  proof -
    obtain i where "i < length (phys k)" "p = vpage v (phys k ! i)"
      using p unfolding layoutD(10) [OF L] by (auto simp: in_set_conv_nth)
    then show ?thesis using layout_data(5) [OF L] by simp
  qed
  then show ?thesis
    using layoutD(5) [OF L] dir_of_len [OF L] by (simp add: sp_wf_def layoutD(12) [OF L])
qed

lemma space_does_wf: "(sp_wf S \<Longrightarrow> space_does m S r S') \<Longrightarrow> space_does m S r S'"
  using space_rep_wf unfolding does_def by blast

lemma sp_wfD:
  assumes "sp_wf S"
  shows "property_page_count (sp_hdr S) = length (sp_pages S PropertyS)"
    "i < length (sp_pages S k) \<Longrightarrow> length (sp_pages S k ! i) = PAGE_SIZE" "length (sp_pages S k) < 2 ^ 32"
proof -
  have "unat (space_len PropertyS (sp_hdr S)) = length (sp_pages S PropertyS)" using assms by (simp add: sp_wf_def)
  then show "property_page_count (sp_hdr S) = length (sp_pages S PropertyS)"
    by (simp add: property_page_count_def space_len_def)
  show "length (sp_pages S k ! i) = PAGE_SIZE" if "i < length (sp_pages S k)"
    using assms nth_mem [OF that] unfolding sp_wf_def by blast
  have "length (sp_pages S k) = unat (space_len k (sp_hdr S))" using assms by (simp add: sp_wf_def)
  then show "length (sp_pages S k) < 2 ^ 32" using unsigned_less [of "space_len k (sp_hdr S)", where ?'a = nat] by simp
qed

section \<open>Durability\<close>

lemma since_handle_ok: "handle_ok p db \<Longrightarrow> db_since db db' \<Longrightarrow> handle_ok p db'"
  by (auto simp: handle_ok_def db_since_def backend_since_def wal_extends_def split: storage_backend.splits)

lemma layout_header_saved: "layout v S own pids phys \<Longrightarrow> header_saved v"
  using layoutD(2,3,14) [of v S own pids phys] by (simp add: header_saved_def)

lemma space_reopen:
  assumes "space_rep db S" "handle_ok p db" "separate real p" "opts < 2 ^ 64"
  shows "\<exists>db' w'. open_with_options real p opts (crash real db w) = (Ok db', w') \<and> space_rep db' S"
proof -
  obtain v own pids phys where v: "db_rep db v" "layout v S own pids phys" using assms(1) by (auto simp: space_rep_def)
  obtain fb where fb: "backend db = FileB fb" "fb_path fb = p" using assms(2) by (auto simp: handle_ok_def)
  note d = dropped_disk [OF fb assms(3), of w]
  have "\<exists>db' w'. open_with_options real p opts (crash real db w) = (Ok db', w') \<and> db_rep db' v"
    using d fb(1) by (intro reopen_rep [OF v(1) assms(2) layout_header_saved [OF v(2)] assms(3,4)]) (auto simp: crash_def)
  then show ?thesis unfolding space_rep_def using v(2) by blast
qed

definition fresh_spaces :: "nat \<Rightarrow> spaces" where
  "fresh_spaces room = \<lparr>sp_pages = (\<lambda>_. []), sp_hdr = hide_roots header_new, sp_other = Map.empty, sp_room = room\<rparr>"

lemma fresh_layout:
  assumes "room < 2 ^ 32 - 1"
  shows "layout fresh_vol (fresh_spaces room) [0 \<mapsto> HeaderPage] (\<lambda>_. []) (\<lambda>_. [])"
proof -
  have dir: "dir_rep fresh_vol (dir_of k header_new) [] [] \<and> unat (space_len k header_new) = 0" for k
    using dir_rep_new [of fresh_vol]
    by (cases k; simp add: dir_of_def property_dir_def topology_dir_def header_new_def space_len_def)
  show ?thesis
    unfolding layout_def using fresh_vol_ok dir assms
    by (simp add: fresh_spaces_def) (simp add: fresh_vol_def)
qed

lemma fresh_space_rep: "db_rep db fresh_vol \<Longrightarrow> room < 2 ^ 32 - 1 \<Longrightarrow> space_rep db (fresh_spaces room)"
  unfolding space_rep_def using fresh_layout by blast

section \<open>Properties\<close>

text \<open>
  Allocating a topology page. Whatever the three spaces hold, allocating a node or an edge page
  returns the next logical number of that space and the new page reads back as written; every page
  of the three spaces that existed before, property pages included, still reads as it did: no
  directory page, header update or new page ever lands on a page in use.
\<close>

theorem alloc_topology_page_is_append:
  fixes kind :: topology_kind
  assumes "space_rep db S" "2 \<le> sp_room S" "length d = PAGE_SIZE"
  defines "n \<equiv> length (sp_pages S (space_of kind))"
  shows "\<exists>db1. alloc_topology_page kind d db = (Ok n, db1) \<and>
    (\<exists>db2. read_topology_page kind n db1 = (Ok d, db2)) \<and>
    (\<forall>kind' i. i < length (sp_pages S (space_of kind')) \<longrightarrow>
      (\<exists>db2. read_topology_page kind' i db1 = (Ok (sp_pages S (space_of kind') ! i), db2))) \<and>
    (\<forall>i. i < length (sp_pages S PropertyS) \<longrightarrow>
      (\<exists>db2. read_property_page i db1 = (Ok (sp_pages S PropertyS ! i), db2)))"
proof -
  let ?k = "space_of kind"
  let ?S = "sp_add ?k d S"
  obtain db1 where db1: "alloc_topology_page kind d db = (Ok n, db1)" "space_rep db1 ?S"
    using alloc_in_does [OF assms(2,3), of ?k] assms(1) unfolding does_def space_ops n_def by blast
  have read: "\<exists>db2. read_in k i db1 = (Ok (sp_pages ?S k ! i), db2)" if "i < length (sp_pages ?S k)" for k i
    using read_in_does [OF that] db1(2) unfolding does_def by blast
  have old: "sp_pages ?S k ! i = sp_pages S k ! i \<and> i < length (sp_pages ?S k)" if "i < length (sp_pages S k)" for k i
    using that by (auto simp: nth_append)
  have "\<exists>db2. read_in ?k n db1 = (Ok d, db2)" using read [of n ?k] by (simp add: n_def)
  then show ?thesis
    using db1(1) read old by (intro exI [of _ db1]) (simp add: space_ops del: sp_add_simps, metis)
qed

lemma memory_spaces: "space_rep create_in_memory (fresh_spaces 1000)"
  by (rule fresh_space_rep [OF create_in_memory_rep]) simp

theorem alloc_topology_page_is_append_witness:
  "\<exists>db1. alloc_topology_page Edge (replicate PAGE_SIZE 3) create_in_memory = (Ok 0, db1) \<and>
    (\<exists>db2. read_topology_page Edge 0 db1 = (Ok (replicate PAGE_SIZE 3), db2))"
  using alloc_topology_page_is_append [OF memory_spaces, of "replicate PAGE_SIZE 3" Edge]
  by (auto simp: fresh_spaces_def)

text \<open>
  Freed property pages are reused, last freed first, and nothing else changes. Freeing a page and
  then allocating one returns the freed number, with the new content in it; the number of pages and
  every other property page are as before, no page is appended, and the free list is the old one.
\<close>

theorem freed_property_page_is_reused:
  assumes "space_rep db S" "free_pages S xs" "i < length (sp_pages S PropertyS)" "i \<notin> set xs" "i < 2 ^ 32 - 1"
    and "length d = PAGE_SIZE"
  shows "\<exists>db1 db2 S'. free_property_page i db = (Ok (), db1) \<and> alloc_property_page d db1 = (Ok i, db2) \<and>
    space_rep db2 S' \<and> free_pages S' xs \<and>
    sp_pages S' = (sp_pages S)(PropertyS := (sp_pages S PropertyS)[i := d]) \<and> sp_room S' = sp_room S"
proof -
  let ?img = "free_page_image (property_free_list_head (sp_hdr S))"
  let ?S1 = "sp_free_head (of_nat i) (sp_set PropertyS i ?img S)"
  let ?S2 = "sp_set PropertyS i d (sp_free_head (get32 4 (sp_pages ?S1 PropertyS ! i)) ?S1)"
  obtain db1 where db1: "free_property_page i db = (Ok (), db1)" "space_rep db1 ?S1"
    using free_property_does [OF assms(3)] assms(1) unfolding does_def by blast
  have list1: "free_pages ?S1 (i # xs)" using free_pages_free [OF assms(2,3,5,4)] .
  obtain db2 where db2: "alloc_property_page d db1 = (Ok i, db2)" "space_rep db2 ?S2"
    using alloc_property_reuse [OF list1 assms(6)] db1(2) unfolding does_def by blast
  have "free_pages ?S2 xs" using free_pages_reuse [OF list1] .
  moreover have "sp_pages ?S2 = (sp_pages S)(PropertyS := (sp_pages S PropertyS)[i := d])" "sp_room ?S2 = sp_room S"
    by simp_all
  ultimately show ?thesis using db1(1) db2 by blast
qed

theorem freed_property_page_is_reused_witness:
  "\<exists>db0 db1 db2. alloc_property_page (replicate PAGE_SIZE 1) create_in_memory = (Ok 0, db0) \<and>
    free_property_page 0 db0 = (Ok (), db1) \<and> alloc_property_page (replicate PAGE_SIZE 2) db1 = (Ok 0, db2)"
proof -
  have empty: "free_pages (fresh_spaces 1000) []"
    by (simp add: fresh_spaces_def hide_roots_def header_new_def)
  obtain db0 where db0: "alloc_property_page (replicate PAGE_SIZE 1) create_in_memory = (Ok 0, db0)"
      "space_rep db0 (sp_add PropertyS (replicate PAGE_SIZE 1) (fresh_spaces 1000))"
    using alloc_property_grow [OF empty, of "replicate PAGE_SIZE 1"] memory_spaces
    unfolding does_def by (fastforce simp: fresh_spaces_def)
  have "free_pages (sp_add PropertyS (replicate PAGE_SIZE 1) (fresh_spaces 1000)) []"
    by (simp add: fresh_spaces_def hide_roots_def header_new_def set_space_len_def)
  from freed_property_page_is_reused [OF db0(2) this, of 0 "replicate PAGE_SIZE 2"] db0(1) show ?thesis
    by (auto simp: fresh_spaces_def)
qed

text \<open>
  The spaces survive a crash. If the process dies at any point between two operations on the
  spaces of a file database, with nothing flushed, reopening gives the same spaces: the same pages
  under the same logical numbers, the same free list and hints.
\<close>

theorem spaces_survive_crash:
  assumes "can_create real p opts w" "create_with_options real p opts w = (Ok db0, w0)" "db_since db0 db" "space_rep db S"
    and "opts' < 2 ^ 64"
  shows "\<exists>db' w'. open_with_options real p opts' (crash real db w0) = (Ok db', w') \<and> space_rep db' S"
proof -
  have "handle_ok p db0" using create_fresh [OF assms(1)] assms(2) by auto
  then have "handle_ok p db" using since_handle_ok assms(3) by blast
  moreover have "separate real p" using assms(1) by (simp add: can_create_def)
  ultimately show ?thesis using space_reopen [OF assms(4)] assms(5) by blast
qed

theorem spaces_survive_crash_witness:
  "\<exists>db0 w0 db db' w' db''. create_with_options id demo_path 4096 empty_world = (Ok db0, w0) \<and>
    alloc_topology_page Node (replicate PAGE_SIZE 3) db0 = (Ok 0, db) \<and>
    open_with_options id demo_path 8192 (crash id db w0) = (Ok db', w') \<and>
    read_topology_page Node 0 db' = (Ok (replicate PAGE_SIZE 3), db'')"
proof -
  obtain db0 w0 where c: "create_with_options id demo_path 4096 empty_world = (Ok db0, w0)" "db_rep db0 fresh_vol"
    using create_fresh [OF can_create_demo] by blast
  have rep0: "space_rep db0 (fresh_spaces 1000)" by (rule fresh_space_rep [OF c(2)]) simp
  let ?S = "sp_add NodeS (replicate PAGE_SIZE 3) (fresh_spaces 1000)"
  obtain db where db: "alloc_topology_page Node (replicate PAGE_SIZE 3) db0 = (Ok 0, db)" "space_rep db ?S" "db_since db0 db"
    using alloc_in_does [of "fresh_spaces 1000" "replicate PAGE_SIZE 3" NodeS] rep0
    unfolding does_def by (fastforce simp: space_ops space_of_def fresh_spaces_def)
  obtain db' w' where o: "open_with_options id demo_path 8192 (crash id db w0) = (Ok db', w')" "space_rep db' ?S"
    using spaces_survive_crash [OF can_create_demo c(1) db(3,2), of 8192] by auto
  have "\<exists>db''. read_topology_page Node 0 db' = (Ok (replicate PAGE_SIZE 3), db'')"
    using node_pages.read_law [of 0 ?S] o(2) unfolding does_def by (auto simp: fresh_spaces_def)
  then show ?thesis using c(1) db(1) o(1) by blast
qed

end
