(* ===== verification/Property_Store.thy ===== *)
theory Property_Store
  imports Page_Spaces Blob_Chain
begin

text \<open>
  The property store of \<^verbatim>\<open>storage/value.rs\<close>: values that fit share slotted pages, found by a
  scan from the free-slot hint; longer values go to a chain of pages linked by logical page number;
  freeing returns pages to the free-page list. The serialisers (MessagePack) that turn a property map
  into the bytes stored here are outside the repository and appear in no definition.

  The invariant (\<open>slotted_ok\<close>) is that every property page that passes the store's validity check is
  a well-formed slotted page in use. Under it, writing a value returns a fresh record id that reads
  back as the value and disturbs no other, whatever the hint says. The last section shows that
  chain pages can break the invariant, and what then happens.
\<close>

section \<open>The operations\<close>

definition CHAIN_HEAD_SLOT :: u16 where
  "CHAIN_HEAD_SLOT = 0xFFFF"

definition HINT_FULL_THRESHOLD :: nat where
  "HINT_FULL_THRESHOLD = 64"

definition page_is_free_marked :: "bytes \<Rightarrow> bool" where
  "page_is_free_marked page \<longleftrightarrow> get16 0 page = FREE_PAGE_MARKER"

definition back_off_property_hint :: "nat \<Rightarrow> (database_file, unit) op" where
  "back_off_property_hint freed_logical =
     (\<lambda>db. (if freed_logical < property_first_free_hint (header db)
            then set_property_first_free_hint freed_logical else ret ()) db)"

text \<open>
  The scan over the pages from the hint: the record id if a page took the value, and the hint and its
  frozen flag as the scan leaves them.
\<close>

fun scan_pages :: "bytes \<Rightarrow> nat \<Rightarrow> nat list \<Rightarrow> nat \<Rightarrow> bool \<Rightarrow> (database_file, record_id option \<times> nat \<times> bool) op" where
  "scan_pages value start [] new_hint frozen = ret (None, new_hint, frozen)"
| "scan_pages value start (logical # rest) new_hint frozen =
     bnd (read_property_page logical) (\<lambda>raw.
       let usable = sp_is_valid raw in
       case (if usable then write_property value raw else (Err (StorageCorrupted 0), raw)) of
         (Inr slot, spage) \<Rightarrow>
           bnd (write_property_page logical spage) (\<lambda>_.
           bnd (if \<not> frozen \<and> new_hint \<noteq> start then set_property_first_free_hint new_hint else ret ()) (\<lambda>_.
           ret (Some (rid_new (of_nat logical) slot), new_hint, frozen)))
       | (Inl Panicked, spage) \<Rightarrow> fail Panicked
       | (Inl _, spage) \<Rightarrow>
           if frozen then scan_pages value start rest new_hint frozen
           else
             bnd (if usable then lift_res (free_space spage) else ret 0) (\<lambda>free.
             if usable \<and> free \<ge> HINT_FULL_THRESHOLD
             then scan_pages value start rest new_hint True
             else scan_pages value start rest (logical + 1) False))"

text \<open>No scanned page has room: a fresh page with the value, and the hint at the first open page.\<close>

definition write_fresh :: "bytes \<Rightarrow> nat \<Rightarrow> bool \<Rightarrow> (database_file, record_id) op" where
  "write_fresh value new_hint hint_frozen =
     (case write_property value slotted_new of
        (Inl Panicked, _) \<Rightarrow> fail Panicked
      | (Inl _, _) \<Rightarrow> err (StorageCorrupted 0)
      | (Inr slot, spage) \<Rightarrow>
          bnd (alloc_property_page spage) (\<lambda>logical.
          let candidate = (if hint_frozen then new_hint else logical);
              final_hint = min candidate logical
          in bnd (set_property_first_free_hint final_hint) (\<lambda>_.
             ret (rid_new (of_nat logical) slot))))"

definition write_slotted_from :: "bytes \<Rightarrow> nat \<Rightarrow> nat \<Rightarrow> (database_file, record_id) op" where
  "write_slotted_from value logical_count start =
     bnd (scan_pages value start [start..<logical_count] start False) (\<lambda>(found, new_hint, hint_frozen).
       case found of
         Some rid \<Rightarrow> ret rid
       | None \<Rightarrow> write_fresh value new_hint hint_frozen)"

definition write_slotted :: "bytes \<Rightarrow> (database_file, record_id) op" where
  "write_slotted value =
     (\<lambda>db. write_slotted_from value (property_page_count (header db)) (property_first_free_hint (header db)) db)"

fun alloc_chain :: "bytes list \<Rightarrow> (database_file, nat list) op" where
  "alloc_chain [] = ret []"
| "alloc_chain (page # pages) =
     bnd (alloc_property_page page) (\<lambda>logical.
     bnd (alloc_chain pages) (\<lambda>logicals. ret (logical # logicals)))"

fun relink_chain_to_logical :: "nat list \<Rightarrow> (database_file, unit) op" where
  "relink_chain_to_logical [] = ret ()"
| "relink_chain_to_logical (logical # rest) =
     bnd (read_property_page logical) (\<lambda>page.
     let next = (case rest of l # _ \<Rightarrow> of_nat l | [] \<Rightarrow> NO_NEXT_PAGE) in
     bnd (write_property_page logical (put32 0 next page)) (\<lambda>_.
     relink_chain_to_logical rest))"

definition write_blob :: "bytes \<Rightarrow> (database_file, record_id) op" where
  "write_blob value =
     (let needed = pages_needed (length value) in
      case write_blob_chain (replicate needed (replicate PAGE_SIZE 0)) value of
        (Inl e, _) \<Rightarrow> fail e
      | (Inr _, pages) \<Rightarrow>
          bnd (alloc_chain pages) (\<lambda>logicals.
          let first_logical = (case logicals of [] \<Rightarrow> 0 | l # _ \<Rightarrow> l) in
          bnd (relink_chain_to_logical logicals) (\<lambda>_.
          ret (rid_new (of_nat first_logical) CHAIN_HEAD_SLOT))))"

definition write_property_bytes :: "bytes \<Rightarrow> (database_file, record_id) op" where
  "write_property_bytes value =
     (if length value + 6 \<le> PAGE_SIZE then write_slotted value else write_blob value)"

text \<open>
  The loop that follows a chain, with the logical numbers; \<open>left\<close> is the number of links it may
  still follow (\<open>limit - pages.len()\<close> before a push).
\<close>

fun follow_chain :: "nat \<Rightarrow> nat \<Rightarrow> (database_file, (nat \<times> bytes) list) op" where
  "follow_chain left logical =
     bnd (read_property_page logical) (\<lambda>page.
       let next = get32 0 page in
       if next = NO_NEXT_PAGE then ret [(logical, page)]
       else
         case left of
           0 \<Rightarrow> err (StorageCorrupted next)
         | Suc left' \<Rightarrow> bnd (follow_chain left' (unat next)) (\<lambda>rest. ret ((logical, page) # rest)))"

declare follow_chain.simps [simp del]

fun read_dense_loop :: "nat \<Rightarrow> bytes list \<Rightarrow> bytes \<Rightarrow> bytes res" where
  "read_dense_loop idx [] result = Ok result"
| "read_dense_loop idx (page # pages) result =
     (let chunk_len = unat (get32 4 page) in
      if CHAIN_HEADER_SIZE + chunk_len > PAGE_SIZE then Err (StorageCorrupted (of_nat idx))
      else read_dense_loop (idx + 1) pages (result @ get_bytes CHAIN_HEADER_SIZE chunk_len page))"

definition read_blob_chain_dense :: "bytes list \<Rightarrow> bytes res" where
  "read_blob_chain_dense pages = read_dense_loop 0 pages []"

definition read_property_bytes :: "record_id \<Rightarrow> (database_file, bytes) op" where
  "read_property_bytes rid =
     (if slot_id rid = CHAIN_HEAD_SLOT then
        (\<lambda>db. let limit = property_page_count (header db) in
          bnd (follow_chain limit (unat (page_id rid))) (\<lambda>pages.
            lift_res (read_blob_chain_dense (map snd pages))) db)
      else
        bnd (read_property_page (unat (page_id rid))) (\<lambda>raw. lift_res (read_property raw (slot_id rid))))"

fun free_chain :: "nat list \<Rightarrow> (database_file, unit) op" where
  "free_chain [] = ret ()"
| "free_chain (logical # rest) =
     bnd (free_property_page logical) (\<lambda>_.
     bnd (back_off_property_hint logical) (\<lambda>_.
     free_chain rest))"

definition free_property_bytes :: "record_id \<Rightarrow> (database_file, unit) op" where
  "free_property_bytes rid =
     (let logical = unat (page_id rid) in
      if slot_id rid = CHAIN_HEAD_SLOT then
        bnd (read_property_page logical) (\<lambda>head.
          if page_is_free_marked head then ret ()
          else
            (\<lambda>db. let limit = property_page_count (header db) in
              bnd (follow_chain limit logical) (\<lambda>pages. free_chain (map fst pages)) db))
      else
        bnd (read_property_page logical) (\<lambda>raw.
          if page_is_free_marked raw then ret ()
          else
            case sp_free_slot (slot_id rid) raw of
              (Inl e, _) \<Rightarrow> fail e
            | (Inr _, spage) \<Rightarrow>
                bnd (if sp_live_count spage = 0 then free_property_page logical
                     else write_property_page logical spage) (\<lambda>_.
                back_off_property_hint logical)))"

definition write_raw :: "bytes \<Rightarrow> (database_file, record_id) op" where
  "write_raw value = write_property_bytes value"

definition read_raw :: "record_id \<Rightarrow> (database_file, bytes) op" where
  "read_raw rid = read_property_bytes rid"

definition free_property :: "record_id \<Rightarrow> (database_file, unit) op" where
  "free_property rid = free_property_bytes rid"

section \<open>The invariant and the values\<close>

definition slotted_ok :: "bytes list \<Rightarrow> bool" where
  "slotted_ok pages \<longleftrightarrow> (\<forall>p \<in> set pages. length p = PAGE_SIZE \<and> (sp_is_valid p \<longrightarrow> sp_inv p \<and> in_use p))"

text \<open>The value of slot \<open>s\<close> of page \<open>l\<close>, if the page is a slotted page and the slot is live.\<close>

definition prop_value :: "bytes list \<Rightarrow> nat \<Rightarrow> nat \<Rightarrow> bytes option" where
  "prop_value pages l s = (if l < length pages \<and> sp_is_valid (pages ! l) then slot_value (pages ! l) s else None)"

lemma sp_inv_valid: "sp_inv p \<Longrightarrow> sp_is_valid p"
proof -
  assume inv: "sp_inv p"
  have d: "dir_offset (unat (sp_slot_count p)) \<le> PAGE_SIZE" using sp_invD(2) [OF inv] .
  then have "unat (sp_slot_count p) \<noteq> unat FREE_PAGE_MARKER"
    by (auto simp: dir_offset_def sp_consts FREE_PAGE_MARKER_def)
  moreover have "entry_off p i = TOMBSTONE_OFF \<or> unat (entry_off p i) + unat (entry_len p i) \<le> PAGE_SIZE"
    if "i < unat (sp_slot_count p)" for i
    using sp_invD(5) [OF inv, of i] that by (auto simp: live_slots_def)
  ultimately show ?thesis
    using d by (simp add: sp_is_valid_def Let_def list_all_iff dir_offset_def)
qed

lemma marked_not_valid: "get16 0 p = FREE_PAGE_MARKER \<Longrightarrow> \<not> sp_is_valid p"
  by (simp add: sp_is_valid_def sp_slot_count_def)

lemma slotted_ok_nth: "slotted_ok pages \<Longrightarrow> l < length pages \<Longrightarrow> sp_is_valid (pages ! l) \<Longrightarrow>
    sp_inv (pages ! l) \<and> in_use (pages ! l)"
  by (simp add: slotted_ok_def)

lemma slotted_ok_update: "slotted_ok pages \<Longrightarrow> length p = PAGE_SIZE \<Longrightarrow> sp_is_valid p \<longrightarrow> sp_inv p \<and> in_use p \<Longrightarrow>
    slotted_ok (pages[i := p])"
  by (auto simp: slotted_ok_def dest!: set_update_subset_insert [THEN subsetD])

lemma slotted_ok_append: "slotted_ok (pages @ [p]) \<longleftrightarrow> slotted_ok pages \<and> length p = PAGE_SIZE \<and>
    (sp_is_valid p \<longrightarrow> sp_inv p \<and> in_use p)"
  by (auto simp: slotted_ok_def)

section \<open>Writing a value that fits\<close>

definition sp_hint :: "u32 \<Rightarrow> spaces \<Rightarrow> spaces" where
  "sp_hint h S = S\<lparr>sp_hdr := (sp_hdr S)\<lparr>property_first_free_page := h\<rparr>\<rparr>"

lemma sp_hint_simps [simp]:
  "sp_pages (sp_hint h S) = sp_pages S" "sp_room (sp_hint h S) = sp_room S" "sp_other (sp_hint h S) = sp_other S"
  "property_free_list_head (sp_hdr (sp_hint h S)) = property_free_list_head (sp_hdr S)"
  "sp_hint (property_first_free_page (sp_hdr S)) S = S"
  by (simp_all add: sp_hint_def)

lemma sp_hint_rest [simp]:
  "same_rest S (sp_hint h S') = same_rest S S'" "only_props S (sp_hint h S') = only_props S S'"
  by (simp_all add: sp_hint_def same_rest_def only_props_def)

lemma set_hint_does': "space_does (set_property_first_free_hint n) S (Ok ()) (sp_hint (of_nat n) S)"
  using set_hint_does(1) [of n S] by (simp add: sp_hint_def)

lemma hint_hide [simp]:
  "property_first_free_hint (hide_roots h) = property_first_free_hint h"
  "property_page_count (hide_roots h) = property_page_count h"
  by (simp_all add: property_first_free_hint_def property_page_count_def hide_roots_def)

lemma free_space_Ok: "sp_inv p \<Longrightarrow> in_use p \<Longrightarrow> \<exists>n. free_space p = Ok n"
  using data_end_ok [of p] by (auto simp: free_space_def Let_def)

text \<open>The outcome of a scan: nothing changed, or one page took the value and the hint may have moved.\<close>

definition scan_result :: "bytes \<Rightarrow> nat list \<Rightarrow> spaces \<Rightarrow> record_id option \<Rightarrow> spaces \<Rightarrow> bool" where
  "scan_result value ls S found S' \<longleftrightarrow>
     (case found of
        None \<Rightarrow> S' = S
      | Some rid \<Rightarrow> \<exists>l s p' h. l \<in> set ls \<and> sp_is_valid (sp_pages S PropertyS ! l) \<and>
          write_property value (sp_pages S PropertyS ! l) = (Inr s, p') \<and> rid = rid_new (of_nat l) s \<and>
          S' = sp_hint h (sp_set PropertyS l p' S))"

lemma scan_result_later: "scan_result value rest S found S' \<Longrightarrow> scan_result value (l # rest) S found S'"
  unfolding scan_result_def by (cases found) (simp, fastforce)

lemma scan_pages_does:
  assumes "slotted_ok (sp_pages S PropertyS)" "\<forall>l \<in> set ls. l < length (sp_pages S PropertyS)"
  shows "\<exists>found nh fz S'. space_does (scan_pages value start ls new_hint frozen) S (Ok (found, nh, fz)) S' \<and>
    scan_result value ls S found S'"
  using assms(2)
proof (induction ls arbitrary: new_hint frozen)
  case Nil
  show ?case
    by (intro exI [of _ None] exI [of _ new_hint] exI [of _ frozen] exI [of _ S]) (simp add: scan_result_def)
next
  case (Cons l rest)
  let ?raw = "sp_pages S PropertyS ! l"
  have l: "l < length (sp_pages S PropertyS)" using Cons.prems by simp
  have IH: "\<exists>found nh fz S'. space_does (scan_pages value start rest n f) S (Ok (found, nh, fz)) S' \<and>
      scan_result value (l # rest) S found S'" for n f
    using Cons.IH [of n f] Cons.prems scan_result_later by (metis list.set_intros(2))
  show ?case
  proof (cases "sp_is_valid ?raw")
    case False
    show ?thesis
    proof (cases frozen)
      case True
      obtain found nh fz S' where "space_does (scan_pages value start rest new_hint True) S (Ok (found, nh, fz)) S'"
          "scan_result value (l # rest) S found S'" using IH by blast
      then show ?thesis
        using False True
        by (intro exI [of _ found] exI [of _ nh] exI [of _ fz] exI [of _ S'] conjI)
          (simp_all add: property_pages.read_then [OF l])
    next
      case nfrozen: False
      obtain found nh fz S' where "space_does (scan_pages value start rest (l + 1) False) S (Ok (found, nh, fz)) S'"
          "scan_result value (l # rest) S found S'" using IH by blast
      then show ?thesis
        using False nfrozen
        by (intro exI [of _ found] exI [of _ nh] exI [of _ fz] exI [of _ S'] conjI)
          (simp_all add: property_pages.read_then [OF l])
    qed
  next
    case True
    then have inv: "sp_inv ?raw" "in_use ?raw" using slotted_ok_nth [OF assms(1) l] by simp_all
    obtain r p' where wp: "write_property value ?raw = (r, p')" by force
    from write_property_cases [OF inv wp] show ?thesis
    proof
      assume full: "r = Inl (Failed (StorageCorrupted 0)) \<and> p' = ?raw"
      obtain n where free: "free_space ?raw = Ok n" using free_space_Ok [OF inv] by blast
      let ?f = "frozen \<or> HINT_FULL_THRESHOLD \<le> n" and ?n = "if frozen \<or> HINT_FULL_THRESHOLD \<le> n then new_hint else l + 1"
      obtain found nh fz S' where "space_does (scan_pages value start rest ?n ?f) S (Ok (found, nh, fz)) S'"
          "scan_result value (l # rest) S found S'" using IH by blast
      then show ?thesis
        using True wp full free
        by (intro exI [of _ found] exI [of _ nh] exI [of _ fz] exI [of _ S'] conjI)
          (auto intro!: property_pages.read_then [OF l] split: if_splits)
    next
      assume "\<exists>s. r = Inr s \<and> unat s = unat (sp_slot_count ?raw) \<and> sp_inv p' \<and> in_use p' \<and>
        slot_value p' = (slot_value ?raw)(unat (sp_slot_count ?raw) \<mapsto> value) \<and>
        unat (sp_slot_count p') = Suc (unat (sp_slot_count ?raw))"
      then obtain s where s: "r = Inr s" "sp_inv p'" by blast
      then have len: "length p' = PAGE_SIZE" using sp_invD(1) by blast
      let ?S1 = "sp_set PropertyS l p' S"
      let ?h = "if \<not> frozen \<and> new_hint \<noteq> start then of_nat new_hint else property_first_free_page (sp_hdr ?S1)"
      let ?rid = "rid_new (of_nat l) s"
      have hint: "space_does (bnd (if \<not> frozen \<and> new_hint \<noteq> start then set_property_first_free_hint new_hint else ret ())
          (\<lambda>_. ret (Some ?rid, new_hint, frozen))) ?S1 (Ok (Some ?rid, new_hint, frozen)) (sp_hint ?h ?S1)"
        by (rule space_does_bnd [of _ _ "()" "sp_hint ?h ?S1"])
          (auto simp del: sp_set_simps intro: set_hint_does')
      have "space_does (scan_pages value start (l # rest) new_hint frozen) S (Ok (Some ?rid, new_hint, frozen)) (sp_hint ?h ?S1)"
        unfolding scan_pages.simps
        by (rule property_pages.read_then [OF l]) (simp add: True wp s(1) property_pages.store_then [OF l len hint])
      moreover have "scan_result value (l # rest) S (Some ?rid) (sp_hint ?h ?S1)"
        using True wp s(1) by (auto simp: scan_result_def)
      ultimately show ?thesis by blast
    qed
  qed
qed


text \<open>The values of the store, and its invariant: every valid property page is a well-formed slotted page.\<close>

definition vals :: "spaces \<Rightarrow> record_id \<Rightarrow> bytes option" where
  "vals S rid = (if slot_id rid = CHAIN_HEAD_SLOT then None
     else prop_value (sp_pages S PropertyS) (unat (page_id rid)) (unat (slot_id rid)))"

definition store_inv :: "spaces \<Rightarrow> bool" where
  "store_inv S \<longleftrightarrow> slotted_ok (sp_pages S PropertyS) \<and> (\<exists>xs. free_pages S xs)"

lemma store_inv_hint [simp]: "store_inv (sp_hint h S) = store_inv S"
  by (simp add: store_inv_def)

lemma vals_hint [simp]: "vals (sp_hint h S) = vals S"
  by (simp add: vals_def fun_eq_iff)

lemma slot_value_less: "slot_value p s = Some v \<Longrightarrow> s < unat (sp_slot_count p)"
  by (auto simp: slot_value_def live_slots_def split: if_splits)

lemma slot_count_less_marker:
  assumes "sp_is_valid p"
  shows "unat (sp_slot_count p) < unat CHAIN_HEAD_SLOT"
  using assms unfolding sp_is_valid_def Let_def by (simp add: sp_consts CHAIN_HEAD_SLOT_def split: if_splits)

lemma free_list_marked: "free_list pages head xs \<Longrightarrow> x \<in> set xs \<Longrightarrow> get16 0 (pages ! x) = FREE_PAGE_MARKER"
  by (induction xs arbitrary: head) auto

lemma free_not_valid: "free_list pages head xs \<Longrightarrow> x \<in> set xs \<Longrightarrow> \<not> sp_is_valid (pages ! x)"
  using free_list_marked marked_not_valid by blast

text \<open>A page takes one more value in a fresh slot: the values gain one entry.\<close>

lemma vals_page_update:
  assumes "l < length (sp_pages S PropertyS)" "l < 2 ^ 32" "sp_is_valid p'" "unat s < unat (sp_slot_count p')"
    and "\<And>t. slot_value p' t = (if t = unat s then w else prop_value (sp_pages S PropertyS) l t)"
  shows "vals (sp_set PropertyS l p' S) = (vals S)(rid_new (of_nat l) s := w)"
proof (rule ext)
  fix rid :: record_id
  have s: "s \<noteq> CHAIN_HEAD_SLOT" using slot_count_less_marker [OF assms(3)] assms(4) by auto
  have l: "unat (page_id rid) = l \<longleftrightarrow> page_id rid = of_nat l"
    using unat_of_nat_small [OF assms(2)] by (auto simp: word_unat_eq_iff)
  show "vals (sp_set PropertyS l p' S) rid = ((vals S)(rid_new (of_nat l) s := w)) rid"
  proof (cases "page_id rid = of_nat l")
    case True
    then show ?thesis
      using l s assms(1,3,5) by (cases "slot_id rid = s") (auto simp: vals_def prop_value_def word_unat_eq_iff)
  next
    case False
    then have "unat (page_id rid) \<noteq> l" using l by simp
    then show ?thesis using False by (auto simp: vals_def prop_value_def)
  qed
qed

lemma write_keeps_inv:
  assumes "store_inv S" "l < length (sp_pages S PropertyS)" "sp_is_valid (sp_pages S PropertyS ! l)"
    and "length p' = PAGE_SIZE" "sp_is_valid p' \<longrightarrow> sp_inv p' \<and> in_use p'"
  shows "store_inv (sp_set PropertyS l p' S)"
proof -
  obtain xs where xs: "free_pages S xs" using assms(1) by (auto simp: store_inv_def)
  then have "l \<notin> set xs" using free_not_valid assms(3) by blast
  then have "free_pages (sp_set PropertyS l p' S) xs" using xs free_list_update by simp
  moreover have "slotted_ok (sp_pages S PropertyS)" using assms(1) by (simp add: store_inv_def)
  ultimately show ?thesis
    using slotted_ok_update [OF _ assms(4,5)] by (auto simp: store_inv_def)
qed

lemma page_write_vals:
  assumes inv: "store_inv S" and wf: "sp_wf S" and l: "l < length (sp_pages S PropertyS)"
    and valid: "sp_is_valid (sp_pages S PropertyS ! l)"
    and wp: "write_property value (sp_pages S PropertyS ! l) = (Inr s, p')"
  shows "store_inv (sp_set PropertyS l p' S)" "vals S (rid_new (of_nat l) s) = None"
    "vals (sp_set PropertyS l p' S) = (vals S)(rid_new (of_nat l) s \<mapsto> value)"
proof -
  let ?p = "sp_pages S PropertyS ! l"
  have p: "sp_inv ?p" "in_use ?p" using inv slotted_ok_nth [OF _ l valid] by (auto simp: store_inv_def)
  have w: "unat s = unat (sp_slot_count ?p)" "sp_inv p'" "in_use p'"
      "slot_value p' = (slot_value ?p)(unat (sp_slot_count ?p) \<mapsto> value)"
      "unat (sp_slot_count p') = Suc (unat (sp_slot_count ?p))"
    using write_property_cases [OF p wp] by auto
  have small: "l < 2 ^ 32" using sp_wfD(3) [OF wf, of PropertyS] l by simp
  show "store_inv (sp_set PropertyS l p' S)"
    using write_keeps_inv [OF inv l valid] w(2,3) sp_invD(1) by blast
  have "slot_value ?p (unat s) = None" using slot_value_less [of ?p "unat s"] w(1) by (cases "slot_value ?p (unat s)") auto
  then show "vals S (rid_new (of_nat l) s) = None"
    using l valid unat_of_nat_small [OF small] by (simp add: vals_def prop_value_def)
  show "vals (sp_set PropertyS l p' S) = (vals S)(rid_new (of_nat l) s \<mapsto> value)"
    by (rule vals_page_update [OF l small sp_inv_valid [OF w(2)]]) (use w l valid in \<open>auto simp: prop_value_def\<close>)
qed

text \<open>A fresh page with one value.\<close>

lemma fresh_page_write:
  assumes "length v \<le> 4088"
  defines "p \<equiv> written PAGE_SIZE v slotted_new"
  shows "write_property v slotted_new = (Inr 0, p)" "sp_inv p" "in_use p" "slot_value p = [0 \<mapsto> v]"
    "unat (sp_slot_count p) = 1" "length p = PAGE_SIZE"
proof -
  show wp: "write_property v slotted_new = (Inr 0, p)" unfolding p_def by (rule small_write_slotted_new [OF assms(1)])
  have z: "slot_value slotted_new = (\<lambda>_. None)" by (simp add: fun_eq_iff slot_value_def slotted_new_inv)
  have u: "in_use slotted_new" by (simp add: in_use_def slotted_new_inv)
  show "sp_inv p" "in_use p" "slot_value p = [0 \<mapsto> v]" "unat (sp_slot_count p) = 1"
    using write_property_cases [OF slotted_new_inv(1) u wp] by (auto simp: slotted_new_inv z)
  then show "length p = PAGE_SIZE" using sp_invD(1) by blast
qed

text \<open>Allocating a page: the next number or a reused one; the pages in use are kept.\<close>

definition alloc_result :: "bytes \<Rightarrow> spaces \<Rightarrow> nat \<Rightarrow> spaces \<Rightarrow> bool" where
  "alloc_result d S l S' \<longleftrightarrow>
     (\<exists>xs. free_pages S xs \<and>
       (case xs of
          [] \<Rightarrow> l = length (sp_pages S PropertyS) \<and> S' = sp_add PropertyS d S
        | x # _ \<Rightarrow> l = x \<and> S' = sp_set PropertyS x d (sp_free_head (get32 4 (sp_pages S PropertyS ! x)) S)))"

lemma alloc_property_does:
  assumes "free_pages S xs" "2 \<le> sp_room S" "length d = PAGE_SIZE"
  shows "\<exists>l S'. space_does (alloc_property_page d) S (Ok l) S' \<and> alloc_result d S l S'"
proof (cases xs)
  case Nil
  then show ?thesis
    using alloc_property_grow [of S d] assms unfolding alloc_result_def
    by (intro exI [of _ "length (sp_pages S PropertyS)"] exI [of _ "sp_add PropertyS d S"])
      (auto intro!: exI [of _ "[]"])
next
  case (Cons x ys)
  then show ?thesis
    using alloc_property_reuse [of S x ys d] assms unfolding alloc_result_def
    by (intro exI [of _ x] exI [of _ "sp_set PropertyS x d (sp_free_head (get32 4 (sp_pages S PropertyS ! x)) S)"])
      (auto intro!: exI [of _ xs])
qed

lemma free_head_set_len [simp]:
  "property_free_list_head (set_space_len k n h) = property_free_list_head h"
  by (cases k; simp add: set_space_len_def)

lemma alloc_resultD:
  assumes "alloc_result d S l S'"
  shows "l < length (sp_pages S' PropertyS)" "sp_pages S' PropertyS ! l = d"
    "\<exists>ys. free_pages S' ys \<and> l \<notin> set ys" "sp_room S - 2 \<le> sp_room S'"
    "l < length (sp_pages S PropertyS) \<longrightarrow> get16 0 (sp_pages S PropertyS ! l) = FREE_PAGE_MARKER"
    "length (sp_pages S PropertyS) \<le> length (sp_pages S' PropertyS)"
    "i < length (sp_pages S' PropertyS) \<Longrightarrow> i \<noteq> l \<Longrightarrow>
      i < length (sp_pages S PropertyS) \<and> sp_pages S' PropertyS ! i = sp_pages S PropertyS ! i"
    "sp_pages S' NodeS = sp_pages S NodeS" "sp_pages S' EdgeS = sp_pages S EdgeS"
    "\<exists>m. sp_pages S' PropertyS = (sp_pages S PropertyS @ m)[l := d]" "only_props S S'"
proof -
  obtain xs where xs: "free_pages S xs"
      "case xs of [] \<Rightarrow> l = length (sp_pages S PropertyS) \<and> S' = sp_add PropertyS d S
        | x # _ \<Rightarrow> l = x \<and> S' = sp_set PropertyS x d (sp_free_head (get32 4 (sp_pages S PropertyS ! x)) S)"
    using assms by (auto simp: alloc_result_def)
  show "\<exists>ys. free_pages S' ys \<and> l \<notin> set ys"
  proof (cases xs)
    case Nil
    then show ?thesis using xs by (intro exI [of _ "[]"]) simp
  next
    case (Cons x ys)
    then show ?thesis using xs free_pages_reuse [of S x ys d] by (intro exI [of _ ys]) auto
  qed
  show "l < length (sp_pages S' PropertyS)" "sp_pages S' PropertyS ! l = d" "sp_room S - 2 \<le> sp_room S'"
      "l < length (sp_pages S PropertyS) \<longrightarrow> get16 0 (sp_pages S PropertyS ! l) = FREE_PAGE_MARKER"
      "length (sp_pages S PropertyS) \<le> length (sp_pages S' PropertyS)"
      "sp_pages S' NodeS = sp_pages S NodeS" "sp_pages S' EdgeS = sp_pages S EdgeS"
      "\<exists>m. sp_pages S' PropertyS = (sp_pages S PropertyS @ m)[l := d]" "only_props S S'"
    using xs by (auto split: list.splits intro: exI [of _ "[d]"] exI [of _ "[]"])
  show "i < length (sp_pages S PropertyS) \<and> sp_pages S' PropertyS ! i = sp_pages S PropertyS ! i"
    if "i < length (sp_pages S' PropertyS)" "i \<noteq> l"
    using xs that by (auto simp: nth_append nth_list_update split: list.splits if_splits)
qed

lemma alloc_prop_value:
  assumes "alloc_result d S l S'"
  shows "prop_value (sp_pages S PropertyS) l t = None"
    "prop_value (sp_pages S' PropertyS) i t =
      (if i = l then (if sp_is_valid d then slot_value d t else None) else prop_value (sp_pages S PropertyS) i t)"
proof -
  note D = alloc_resultD [OF assms]
  show "prop_value (sp_pages S PropertyS) l t = None"
    using D(5) marked_not_valid by (auto simp: prop_value_def)
  show "prop_value (sp_pages S' PropertyS) i t =
      (if i = l then (if sp_is_valid d then slot_value d t else None) else prop_value (sp_pages S PropertyS) i t)"
    using D(1,2,6) D(7) [of i] by (auto simp: prop_value_def)
qed

lemma alloc_slotted_ok:
  assumes "alloc_result d S l S'" "slotted_ok (sp_pages S PropertyS)" "length d = PAGE_SIZE" "sp_is_valid d \<longrightarrow> sp_inv d \<and> in_use d"
  shows "slotted_ok (sp_pages S' PropertyS)"
proof -
  have "length p = PAGE_SIZE \<and> (sp_is_valid p \<longrightarrow> sp_inv p \<and> in_use p)" if p: "p \<in> set (sp_pages S' PropertyS)" for p
  proof -
    obtain i where i: "i < length (sp_pages S' PropertyS)" "p = sp_pages S' PropertyS ! i"
      using p by (auto simp: in_set_conv_nth)
    show ?thesis
    proof (cases "i = l")
      case True
      then show ?thesis using i(2) alloc_resultD(2) [OF assms(1)] assms(3,4) by simp
    next
      case False
      then have "i < length (sp_pages S PropertyS) \<and> p = sp_pages S PropertyS ! i"
        using alloc_resultD(7) [OF assms(1) i(1)] i(2) by simp
      then show ?thesis using assms(2) by (auto simp: slotted_ok_def)
    qed
  qed
  then show ?thesis by (simp add: slotted_ok_def)
qed

lemma alloc_result_small: "alloc_result d S l S' \<Longrightarrow> sp_wf S \<Longrightarrow> l < 2 ^ 32"
  using sp_wfD(3) [of S PropertyS]
  by (auto simp: alloc_result_def neq_Nil_conv split: list.splits dest: less_trans)

text \<open>
  What a write of a short value does: a fresh record id, the value under it, every other value kept,
  whatever the hint says.
\<close>

definition write_result :: "bytes \<Rightarrow> spaces \<Rightarrow> record_id \<Rightarrow> spaces \<Rightarrow> bool" where
  "write_result value S rid S' \<longleftrightarrow>
     store_inv S' \<and> slot_id rid \<noteq> CHAIN_HEAD_SLOT \<and> vals S rid = None \<and> vals S' = (vals S)(rid \<mapsto> value) \<and>
     sp_room S - 2 \<le> sp_room S' \<and> sp_pages S' NodeS = sp_pages S NodeS \<and> sp_pages S' EdgeS = sp_pages S EdgeS \<and>
     only_props S S'"

lemma write_result_hint: "write_result value S rid S' \<Longrightarrow> write_result value S rid (sp_hint h S')"
  by (simp add: write_result_def)

lemma vals_slot: "vals S rid = Some v \<Longrightarrow> slot_id rid \<noteq> CHAIN_HEAD_SLOT"
  by (auto simp: vals_def)

lemma scan_write_result:
  assumes "store_inv S" "sp_wf S" "scan_result value ls S (Some rid) S'" "\<forall>l\<in>set ls. l < length (sp_pages S PropertyS)"
  shows "write_result value S rid S'"
proof -
  obtain l s p' h where l: "l \<in> set ls" "sp_is_valid (sp_pages S PropertyS ! l)"
      "write_property value (sp_pages S PropertyS ! l) = (Inr s, p')" "rid = rid_new (of_nat l) s"
      "S' = sp_hint h (sp_set PropertyS l p' S)"
    using assms(3) by (auto simp: scan_result_def)
  have len: "l < length (sp_pages S PropertyS)" using assms(4) l(1) by blast
  note w = page_write_vals [OF assms(1,2) len l(2,3)]
  have "vals (sp_set PropertyS l p' S) rid = Some value" using w(3) l(4) by simp
  then have "slot_id rid \<noteq> CHAIN_HEAD_SLOT" by (rule vals_slot)
  then have "write_result value S rid (sp_set PropertyS l p' S)"
    using w l(4) by (simp add: write_result_def)
  then show ?thesis unfolding l(5) by (rule write_result_hint)
qed

lemma alloc_write_result:
  assumes "store_inv S" "sp_wf S" "length value \<le> 4088"
    and a: "alloc_result (written PAGE_SIZE value slotted_new) S l S'"
  shows "write_result value S (rid_new (of_nat l) 0) S'"
proof -
  let ?p = "written PAGE_SIZE value slotted_new"
  note f = fresh_page_write [OF assms(3)] and D = alloc_resultD [OF a]
  have small: "l < 2 ^ 32" using alloc_result_small [OF a assms(2)] .
  have valid: "sp_is_valid ?p" using sp_inv_valid [OF f(2)] .
  have "store_inv S'"
    using alloc_slotted_ok [OF a _ f(6)] f(2,3) D(3) assms(1) by (auto simp: store_inv_def)
  moreover have "vals S (rid_new (of_nat l) 0) = None"
    using alloc_prop_value(1) [OF a, of 0] unat_of_nat_small [OF small] by (simp add: vals_def)
  moreover have "vals S' = (vals S)(rid_new (of_nat l) 0 \<mapsto> value)"
  proof (rule ext)
    fix rid :: record_id
    have l: "unat (page_id rid) = l \<longleftrightarrow> page_id rid = of_nat l"
      using unat_of_nat_small [OF small] by (auto simp: word_unat_eq_iff)
    have s: "unat (slot_id rid) = 0 \<longleftrightarrow> slot_id rid = 0" by (simp add: unat_eq_zero)
    show "vals S' rid = ((vals S)(rid_new (of_nat l) 0 \<mapsto> value)) rid"
      using l s f(4) valid by (auto simp: vals_def CHAIN_HEAD_SLOT_def alloc_prop_value [OF a])
  qed
  ultimately show ?thesis
    using D(4,8,9,11) by (simp add: write_result_def CHAIN_HEAD_SLOT_def)
qed

lemma write_fresh_does:
  assumes inv: "store_inv S" and wf: "sp_wf S" and len: "length value \<le> 4088" and room: "2 \<le> sp_room S"
  shows "\<exists>rid S'. space_does (write_fresh value nh fz) S (Ok rid) S' \<and> write_result value S rid S'"
proof -
  obtain xs where xs: "free_pages S xs" using inv by (auto simp: store_inv_def)
  let ?p = "written PAGE_SIZE value slotted_new"
  obtain l S2 where a: "space_does (alloc_property_page ?p) S (Ok l) S2" "alloc_result ?p S l S2"
    using alloc_property_does [OF xs room fresh_page_write(6) [OF len]] by blast
  let ?hint = "min (if fz then nh else l) l"
  have hint: "space_does (bnd (set_property_first_free_hint ?hint) (\<lambda>_. ret (rid_new (of_nat l) 0)))
      S2 (Ok (rid_new (of_nat l) 0)) (sp_hint (of_nat ?hint) S2)"
    by (rule space_does_bnd [OF set_hint_does']) simp
  have "space_does (write_fresh value nh fz) S (Ok (rid_new (of_nat l) 0)) (sp_hint (of_nat ?hint) S2)"
    unfolding write_fresh_def fresh_page_write(1) [OF len] prod.case sum.case Let_def
    by (rule space_does_bnd [OF a(1)]) (rule hint)
  then show ?thesis
    using write_result_hint [OF alloc_write_result [OF inv wf len a(2)]] by blast
qed

lemma write_slotted_does:
  assumes inv: "store_inv S" and wf: "sp_wf S" and len: "length value \<le> 4088" and room: "2 \<le> sp_room S"
  shows "\<exists>rid S'. space_does (write_slotted value) S (Ok rid) S' \<and> write_result value S rid S'"
proof -
  let ?start = "property_first_free_hint (sp_hdr S)"
  let ?ls = "[?start..<length (sp_pages S PropertyS)]"
  have ls: "\<forall>l\<in>set ?ls. l < length (sp_pages S PropertyS)" by simp
  have ok: "slotted_ok (sp_pages S PropertyS)" using inv by (simp add: store_inv_def)
  obtain found nh fz S1 where scan: "space_does (scan_pages value ?start ?ls ?start False) S (Ok (found, nh, fz)) S1"
      "scan_result value ?ls S found S1"
    using scan_pages_does [OF ok ls] by blast
  have "\<exists>rid S'. space_does (case found of Some rid \<Rightarrow> ret rid | None \<Rightarrow> write_fresh value nh fz) S1 (Ok rid) S' \<and>
      write_result value S rid S'"
  proof (cases found)
    case (Some rid)
    then have "write_result value S rid S1" using scan_write_result [OF inv wf _ ls] scan(2) by simp
    then show ?thesis using Some by (intro exI [of _ rid] exI [of _ S1]) simp
  next
    case None
    then have "S1 = S" using scan(2) by (simp add: scan_result_def)
    then show ?thesis using None write_fresh_does [OF inv wf len room] by simp
  qed
  then obtain rid S' where k: "space_does (case found of Some rid \<Rightarrow> ret rid | None \<Rightarrow> write_fresh value nh fz) S1 (Ok rid) S'"
      "write_result value S rid S'" by blast
  have "space_does (write_slotted_from value (length (sp_pages S PropertyS)) ?start) S (Ok rid) S'"
    unfolding write_slotted_from_def by (rule space_does_bnd [OF scan(1)]) (simp add: k(1))
  then have "space_does (write_slotted value) S (Ok rid) S'"
    unfolding write_slotted_def
    by (intro space_does_header [where k = "\<lambda>h. write_slotted_from value (property_page_count h) (property_first_free_hint h)"])
      (simp_all add: sp_wfD(1) [OF wf])
  then show ?thesis using k(2) by blast
qed

section \<open>Reading and freeing\<close>

lemma read_slotted_does:
  assumes inv: "store_inv S" and v: "vals S rid = Some v"
  shows "space_does (read_property_bytes rid) S (Ok v) S"
proof -
  let ?l = "unat (page_id rid)"
  have slot: "slot_id rid \<noteq> CHAIN_HEAD_SLOT" using v by (rule vals_slot)
  have l: "?l < length (sp_pages S PropertyS)" "sp_is_valid (sp_pages S PropertyS ! ?l)"
      "slot_value (sp_pages S PropertyS ! ?l) (unat (slot_id rid)) = Some v"
    using v slot by (auto simp: vals_def prop_value_def split: if_splits)
  have "sp_inv (sp_pages S PropertyS ! ?l)" using inv slotted_ok_nth l(1,2) by (auto simp: store_inv_def)
  then have "read_property (sp_pages S PropertyS ! ?l) (slot_id rid) = Ok v"
    using l(3) by (simp add: read_property_value)
  then show ?thesis
    unfolding read_property_bytes_def using slot
    by (simp only: if_False) (rule property_pages.read_then [OF l(1)], simp add: lift_res_def)
qed

lemma back_off_does: "\<exists>h. space_does (back_off_property_hint l) S (Ok ()) (sp_hint h S)"
proof -
  let ?k = "\<lambda>h. if l < property_first_free_hint h then set_property_first_free_hint l else ret ()"
  have "\<exists>h. space_does (?k (sp_hdr S)) S (Ok ()) (sp_hint h S)"
    using set_hint_does' [of l S] sp_hint_simps(5) [of S] by (metis space_does_ret)
  then obtain h where h: "space_does (?k (sp_hdr S)) S (Ok ()) (sp_hint h S)" by blast
  have "space_does (back_off_property_hint l) S (Ok ()) (sp_hint h S)"
    unfolding back_off_property_hint_def by (rule space_does_header [where k = ?k]) (simp_all add: h)
  then show ?thesis by blast
qed

text \<open>The page after a free, kept or returned to the free list.\<close>

definition free_result :: "record_id \<Rightarrow> spaces \<Rightarrow> spaces \<Rightarrow> bool" where
  "free_result rid S S' \<longleftrightarrow> store_inv S' \<and> vals S' = (vals S)(rid := None) \<and> sp_room S' = sp_room S \<and>
     sp_pages S' NodeS = sp_pages S NodeS \<and> sp_pages S' EdgeS = sp_pages S EdgeS \<and> only_props S S'"

lemma free_page_vals:
  assumes inv: "store_inv S" and l: "l < length (sp_pages S PropertyS)" "l < 2 ^ 32 - 1"
    and valid: "sp_is_valid (sp_pages S PropertyS ! l)"
    and only: "live_slots (sp_pages S PropertyS ! l) = {unat s}"
  defines "S' \<equiv> sp_free_head (of_nat l) (sp_set PropertyS l (free_page_image (property_free_list_head (sp_hdr S))) S)"
  shows "free_result (rid_new (of_nat l) s) S S'"
proof -
  let ?img = "free_page_image (property_free_list_head (sp_hdr S))"
  obtain xs where xs: "free_pages S xs" using inv by (auto simp: store_inv_def)
  then have "l \<notin> set xs" using free_not_valid valid by blast
  then have free: "free_pages S' (l # xs)" unfolding S'_def using free_pages_free [OF xs l] by blast
  have img: "\<not> sp_is_valid ?img" using marked_not_valid free_page_image_fields(1) .
  have "slotted_ok (sp_pages S' PropertyS)"
    using inv slotted_ok_update [of "sp_pages S PropertyS" ?img l] img by (simp add: store_inv_def S'_def)
  then have "store_inv S'" using free unfolding store_inv_def by blast
  moreover have "vals S' = (vals S)(rid_new (of_nat l) s := None)"
  proof (rule ext)
    fix rid :: record_id
    have u: "unat (page_id rid) = l \<longleftrightarrow> page_id rid = of_nat l"
      using unat_of_nat_small [of l] l(2) by (auto simp: word_unat_eq_iff)
    have old: "slot_value (sp_pages S PropertyS ! l) t = None" if "t \<noteq> unat s" for t
      using only that by (simp add: slot_value_def)
    have "vals S rid = None" if "page_id rid = of_nat l" "slot_id rid \<noteq> s"
      using old [of "unat (slot_id rid)"] u that by (auto simp: vals_def prop_value_def word_unat_eq_iff)
    moreover have "vals S' rid = None" if "page_id rid = of_nat l"
      using u that img l(1) by (simp add: vals_def prop_value_def S'_def)
    moreover have "vals S' rid = vals S rid" if "page_id rid \<noteq> of_nat l"
      using u that by (simp add: vals_def prop_value_def S'_def)
    ultimately show "vals S' rid = ((vals S)(rid_new (of_nat l) s := None)) rid"
      by (cases "rid_new (of_nat l) s = rid"; cases "page_id rid = of_nat l") auto
  qed
  ultimately show ?thesis by (simp add: free_result_def S'_def)
qed

lemma free_slot_vals:
  assumes inv: "store_inv S" and wf: "sp_wf S" and l: "l < length (sp_pages S PropertyS)"
    and valid: "sp_is_valid (sp_pages S PropertyS ! l)" and live: "unat s \<in> live_slots (sp_pages S PropertyS ! l)"
    and some: "live_slots (sp_pages S PropertyS ! l) \<noteq> {unat s}"
  shows "free_result (rid_new (of_nat l) s) S (sp_set PropertyS l (freed (unat s) (sp_pages S PropertyS ! l)) S)"
proof -
  let ?p = "sp_pages S PropertyS ! l"
  have p: "sp_inv ?p" using inv slotted_ok_nth [OF _ l valid] by (auto simp: store_inv_def)
  note f = freed_ok [OF p live]
  have use: "in_use (freed (unat s) ?p)" using some f(3) live by (auto simp: in_use_def)
  have len: "length (freed (unat s) ?p) = PAGE_SIZE" using sp_invD(1) [OF f(1)] .
  have count: "sp_slot_count (freed (unat s) ?p) = sp_slot_count ?p"
    using freed_fields(2) [OF p live_slots_less [OF live]] .
  have small: "l < 2 ^ 32" using sp_wfD(3) [OF wf, of PropertyS] l by simp
  have "vals (sp_set PropertyS l (freed (unat s) ?p) S) = (vals S)(rid_new (of_nat l) s := None)"
    using live_slots_less [OF live] count valid l f(2)
    by (intro vals_page_update [OF l small sp_inv_valid [OF f(1)]]) (auto simp: prop_value_def)
  then show ?thesis
    using write_keeps_inv [OF inv l valid len] f(1) use by (simp add: free_result_def)
qed

lemma free_result_hint: "free_result rid S S' \<Longrightarrow> free_result rid S (sp_hint h S')"
  by (simp add: free_result_def)

lemma free_slotted_does:
  assumes inv: "store_inv S" and wf: "sp_wf S" and v: "vals S rid = Some v"
  shows "\<exists>S'. space_does (free_property_bytes rid) S (Ok ()) S' \<and> free_result rid S S'"
proof -
  let ?l = "unat (page_id rid)" and ?s = "unat (slot_id rid)"
  let ?p = "sp_pages S PropertyS ! ?l"
  have slot: "slot_id rid \<noteq> CHAIN_HEAD_SLOT" using v by (rule vals_slot)
  have l: "?l < length (sp_pages S PropertyS)" "sp_is_valid ?p" "?s \<in> live_slots ?p"
    using v slot by (auto simp: vals_def prop_value_def slot_value_def split: if_splits)
  have p: "sp_inv ?p" using inv slotted_ok_nth l(1,2) by (auto simp: store_inv_def)
  have unmarked: "\<not> page_is_free_marked ?p" using l(2) marked_not_valid by (auto simp: page_is_free_marked_def)
  have rid: "rid_new (of_nat ?l) (slot_id rid) = rid" by simp
  have step: "sp_free_slot (slot_id rid) ?p = (Inr (), freed ?s ?p)"
    using sp_free_slot_eq [OF p live_slots_less [OF l(3)]] l(3) by simp
  note f = freed_ok [OF p l(3)]
  have zero: "sp_live_count (freed ?s ?p) = 0 \<longleftrightarrow> live_slots ?p = {?s}"
  proof -
    have "sp_live_count (freed ?s ?p) = 0 \<longleftrightarrow> live_slots ?p - {?s} = {}"
      using sp_invD(3) [OF f(1)] by (simp add: f(3) unat_eq_zero [symmetric])
    then show ?thesis using l(3) by blast
  qed
  obtain S1 where S1: "space_does (if sp_live_count (freed ?s ?p) = 0 then free_property_page ?l
      else write_property_page ?l (freed ?s ?p)) S (Ok ()) S1" "free_result rid S S1"
  proof (cases "live_slots ?p = {?s}")
    case True
    have "?l < 2 ^ 32 - 1" using sp_wfD(3) [OF wf, of PropertyS] l(1) by simp
    from free_page_vals [OF inv l(1) this l(2) True] free_property_does [OF l(1)] show ?thesis
      using that zero True unfolding rid by simp
  next
    case False
    from free_slot_vals [OF inv wf l(1,2,3) False] property_pages.store_law [OF l(1) sp_invD(1) [OF f(1)]] show ?thesis
      using that zero False unfolding rid by simp
  qed
  obtain h where h: "space_does (back_off_property_hint ?l) S1 (Ok ()) (sp_hint h S1)" using back_off_does by blast
  have "space_does (free_property_bytes rid) S (Ok ()) (sp_hint h S1)"
    unfolding free_property_bytes_def Let_def if_not_P [OF slot]
    by (rule property_pages.read_then [OF l(1)], unfold if_not_P [OF unmarked] step prod.case sum.case)
      (rule space_does_bnd [OF S1(1)], rule h)
  then show ?thesis using free_result_hint [OF S1(2)] by blast
qed

text \<open>
  The lengths 4089 and 4090: the test that chooses between a page and a chain admits them to a page, and
  no page takes them.
\<close>

lemma write_property_too_long:
  assumes "sp_inv p" "in_use p" "4088 < length v"
  shows "\<exists>e. write_property v p = (Err (StorageCorrupted 0), p)"
proof -
  obtain de where de: "data_end p = Inr de" "de \<le> PAGE_SIZE" using data_end_ok [OF assms(1,2)] by blast
  have "\<not> dir_offset (unat (sp_slot_count p)) + 4 + length v \<le> de"
    using de(2) dir_offset_ge [of "unat (sp_slot_count p)"] assms(3) unfolding PAGE_SIZE_def by linarith
  then show ?thesis using write_property_eq [OF assms(1,2) de(1)] by simp
qed

lemma write_gap_does:
  assumes inv: "store_inv S" and wf: "sp_wf S" and len: "length v = 4089 \<or> length v = 4090"
  shows "space_does (write_property_bytes v) S (Err (StorageCorrupted 0)) S"
proof -
  let ?start = "property_first_free_hint (sp_hdr S)"
  let ?ls = "[?start..<length (sp_pages S PropertyS)]"
  have ls: "\<forall>l\<in>set ?ls. l < length (sp_pages S PropertyS)" by simp
  have ok: "slotted_ok (sp_pages S PropertyS)" using inv by (simp add: store_inv_def)
  obtain found nh fz S1 where scan: "space_does (scan_pages v ?start ?ls ?start False) S (Ok (found, nh, fz)) S1"
      "scan_result v ?ls S found S1"
    using scan_pages_does [OF ok ls] by blast
  have "found = None"
  proof (rule ccontr)
    assume "found \<noteq> None"
    then obtain l s p' where l: "l \<in> set ?ls" "sp_is_valid (sp_pages S PropertyS ! l)"
        "write_property v (sp_pages S PropertyS ! l) = (Inr s, p')"
      using scan(2) by (auto simp: scan_result_def)
    then have "sp_inv (sp_pages S PropertyS ! l)" "in_use (sp_pages S PropertyS ! l)"
      using slotted_ok_nth [OF ok] ls by blast+
    from write_property_too_long [OF this, of v] show False using l(3) len by auto
  qed
  then have S1: "S1 = S" "found = None" using scan(2) by (simp_all add: scan_result_def)
  have "write_property v slotted_new = (Err (StorageCorrupted 0), slotted_new)"
    using write_property_too_long [of slotted_new v] len by (auto simp: slotted_new_inv in_use_def)
  then have "space_does (write_slotted_from v (length (sp_pages S PropertyS)) ?start) S (Err (StorageCorrupted 0)) S"
    unfolding write_slotted_from_def
    by (intro space_does_bnd [OF scan(1)]) (simp add: S1 write_fresh_def)
  then have "space_does (write_slotted v) S (Err (StorageCorrupted 0)) S"
    unfolding write_slotted_def
    by (intro space_does_header [where k = "\<lambda>h. write_slotted_from v (property_page_count h) (property_first_free_hint h)"])
      (simp_all add: sp_wfD(1) [OF wf])
  moreover have "write_property_bytes v = write_slotted v"
    using len by (auto simp: write_property_bytes_def PAGE_SIZE_def)
  ultimately show ?thesis by simp
qed

section \<open>The store of short values as an interface\<close>

definition short_value :: "bytes \<Rightarrow> bool" where
  "short_value v \<longleftrightarrow> length v \<le> 4088"

locale byte_store =
  fixes inv :: "spaces \<Rightarrow> bool"
    and vals :: "spaces \<Rightarrow> record_id \<Rightarrow> bytes option"
    and fits :: "bytes \<Rightarrow> bool"
    and store :: "bytes \<Rightarrow> (database_file, record_id) op"
    and fetch :: "record_id \<Rightarrow> (database_file, bytes) op"
    and release :: "record_id \<Rightarrow> (database_file, unit) op"
  assumes store_law: "inv S \<Longrightarrow> sp_wf S \<Longrightarrow> fits v \<Longrightarrow> 2 \<le> sp_room S \<Longrightarrow>
      \<exists>rid S'. space_does (store v) S (Ok rid) S' \<and> inv S' \<and> vals S rid = None \<and> vals S' = (vals S)(rid \<mapsto> v) \<and>
        sp_room S - 2 \<le> sp_room S'"
    and fetch_law: "inv S \<Longrightarrow> vals S rid = Some v \<Longrightarrow> space_does (fetch rid) S (Ok v) S"
    and release_law: "inv S \<Longrightarrow> sp_wf S \<Longrightarrow> vals S rid = Some v \<Longrightarrow>
      \<exists>S'. space_does (release rid) S (Ok ()) S' \<and> inv S' \<and> vals S' = (vals S)(rid := None) \<and> sp_room S \<le> sp_room S'"
begin

text \<open>On a concrete store: what the operations return, and the store they leave.\<close>

lemma store_step:
  assumes "space_rep db S" "inv S" "fits v" "2 \<le> sp_room S"
  obtains rid db' S' where "store v db = (Ok rid, db')" "space_rep db' S'" "inv S'" "vals S rid = None"
    "vals S' = (vals S)(rid \<mapsto> v)" "sp_room S - 2 \<le> sp_room S'"
  using store_law [OF assms(2) space_rep_wf [OF assms(1)] assms(3,4)] assms(1) unfolding does_def by blast

lemma fetch_step:
  assumes "space_rep db S" "inv S" "vals S rid = Some v"
  obtains db' where "fetch rid db = (Ok v, db')" "space_rep db' S"
  using fetch_law [OF assms(2,3)] assms(1) unfolding does_def by blast

lemma release_step:
  assumes "space_rep db S" "inv S" "vals S rid = Some v"
  obtains db' S' where "release rid db = (Ok (), db')" "space_rep db' S'" "inv S'" "vals S' = (vals S)(rid := None)"
    "sp_room S \<le> sp_room S'"
  using release_law [OF assms(2) space_rep_wf [OF assms(1)] assms(3)] assms(1) unfolding does_def by blast

text \<open>Replacing a value: the new one is stored first, then the old one is freed.\<close>

lemma replace_step:
  assumes "space_rep db S" "inv S" "fits v" "2 \<le> sp_room S" "vals S old = Some w"
  shows "\<exists>rid db1 db2 S'. store v db = (Ok rid, db1) \<and> release old db1 = (Ok (), db2) \<and> space_rep db2 S' \<and> inv S' \<and>
    vals S rid = None \<and> vals S' = ((vals S)(old := None))(rid \<mapsto> v)"
proof -
  obtain rid db1 S1 where 1: "store v db = (Ok rid, db1)" "space_rep db1 S1" "inv S1" "vals S rid = None"
      "vals S1 = (vals S)(rid \<mapsto> v)"
    using store_step [OF assms(1-4)] by blast
  have old: "old \<noteq> rid" using 1(4) assms(5) by auto
  then have "vals S1 old = Some w" using 1(5) assms(5) by simp
  then obtain db2 S2 where "release old db1 = (Ok (), db2)" "space_rep db2 S2" "inv S2" "vals S2 = (vals S1)(old := None)"
    using release_step [OF 1(2,3)] by blast
  then show ?thesis using 1 old by (auto simp: fun_upd_twist)
qed

end

lemma write_short: "short_value v \<Longrightarrow> write_property_bytes v = write_slotted v"
  by (simp add: write_property_bytes_def short_value_def PAGE_SIZE_def)

interpretation property_store: byte_store store_inv vals short_value write_property_bytes read_property_bytes free_property_bytes
proof
  fix S v
  assume "store_inv S" "sp_wf S" "short_value v" "2 \<le> sp_room S"
  then show "\<exists>rid S'. space_does (write_property_bytes v) S (Ok rid) S' \<and> store_inv S' \<and> vals S rid = None \<and>
      vals S' = (vals S)(rid \<mapsto> v) \<and> sp_room S - 2 \<le> sp_room S'"
    using write_slotted_does [of S v] unfolding write_result_def by (auto simp: write_short short_value_def)
next
  fix S and rid :: record_id and v
  assume "store_inv S" "sp_wf S" "vals S rid = Some v"
  then show "\<exists>S'. space_does (free_property_bytes rid) S (Ok ()) S' \<and> store_inv S' \<and> vals S' = (vals S)(rid := None) \<and>
      sp_room S \<le> sp_room S'"
    using free_slotted_does [of S rid v] unfolding free_result_def by fastforce
qed (rule read_slotted_does)

text \<open>The freshly created store.\<close>

lemma fresh_store_inv: "store_inv (fresh_spaces n)" "vals (fresh_spaces n) = (\<lambda>_. None)"
  by (auto simp: store_inv_def fresh_spaces_def slotted_ok_def hide_roots_def header_new_def vals_def prop_value_def
      intro!: exI [of _ "[]"])

section \<open>Traces of calls\<close>

datatype store_call = Write bytes | Read record_id | Free record_id
datatype store_reply = Wrote "record_id res" | GotBytes "bytes res" | Freed "unit res"

fun call_step :: "store_call \<Rightarrow> database_file \<Rightarrow> store_reply \<times> database_file" where
  "call_step (Write v) db = (case write_raw v db of (r, db') \<Rightarrow> (Wrote r, db'))"
| "call_step (Read rid) db = (case read_raw rid db of (r, db') \<Rightarrow> (GotBytes r, db'))"
| "call_step (Free rid) db = (case free_property rid db of (r, db') \<Rightarrow> (Freed r, db'))"

fun run_store :: "store_call list \<Rightarrow> database_file \<Rightarrow> store_reply list \<times> database_file" where
  "run_store [] db = ([], db)"
| "run_store (c # cs) db =
     (case call_step c db of (r, db') \<Rightarrow> (case run_store cs db' of (rs, db'') \<Rightarrow> (r # rs, db'')))"

text \<open>
  The specification: a finite map from record ids to values. A write of a value of at most 4088 bytes
  binds a record id that was not bound, one of 4089 or 4090 bytes is refused; a read returns the value of
  a bound id; a free unbinds one. Nothing is promised from the first call on that writes a longer value,
  whose chain a later write may destroy, or that names an id that is not bound.
\<close>

fun legal :: "(record_id \<Rightarrow> bytes option) \<Rightarrow> store_call \<Rightarrow> bool" where
  "legal m (Write v) = (length v \<le> 4090)"
| "legal m (Read rid) = (m rid \<noteq> None)"
| "legal m (Free rid) = (m rid \<noteq> None)"

fun map_reply :: "(record_id \<Rightarrow> bytes option) \<Rightarrow> store_call \<Rightarrow> store_reply \<Rightarrow> (record_id \<Rightarrow> bytes option) \<Rightarrow> bool" where
  "map_reply m (Write v) r m' \<longleftrightarrow>
     (if short_value v then \<exists>rid. r = Wrote (Ok rid) \<and> m rid = None \<and> m' = m(rid \<mapsto> v)
      else r = Wrote (Err (StorageCorrupted 0)) \<and> m' = m)"
| "map_reply m (Read rid) r m' \<longleftrightarrow> m rid \<noteq> None \<and> r = GotBytes (Ok (the (m rid))) \<and> m' = m"
| "map_reply m (Free rid) r m' \<longleftrightarrow> r = Freed (Ok ()) \<and> m' = m(rid := None)"

inductive map_trace :: "(record_id \<Rightarrow> bytes option) \<Rightarrow> store_call list \<Rightarrow> store_reply list \<Rightarrow> bool" where
  trace_end: "map_trace m [] []"
| trace_illegal: "\<not> legal m c \<Longrightarrow> map_trace m (c # cs) rs"
| trace_step: "legal m c \<Longrightarrow> map_reply m c r m' \<Longrightarrow> map_trace m' cs rs \<Longrightarrow> map_trace m (c # cs) (r # rs)"

inductive_simps map_trace_Nil: "map_trace m [] rs"
inductive_cases map_trace_ConsE: "map_trace m (c # cs) rs"

lemma call_refines:
  assumes "space_rep db S" "store_inv S" "legal (vals S) c" "2 \<le> sp_room S"
  shows "\<exists>r db' S'. call_step c db = (r, db') \<and> map_reply (vals S) c r (vals S') \<and> space_rep db' S' \<and> store_inv S' \<and>
    sp_room S - 2 \<le> sp_room S'"
proof (cases c)
  case (Write v)
  show ?thesis
  proof (cases "short_value v")
    case True
    then obtain rid db' S' where "write_property_bytes v db = (Ok rid, db')" "space_rep db' S'" "store_inv S'" "vals S rid = None"
        "vals S' = (vals S)(rid \<mapsto> v)" "sp_room S - 2 \<le> sp_room S'"
      using property_store.store_step [OF assms(1,2) _ assms(4)] by blast
    then show ?thesis
      by (intro exI [of _ "Wrote (Ok rid)"] exI [of _ db'] exI [of _ S']) (simp add: Write write_raw_def True)
  next
    case False
    then have "length v = 4089 \<or> length v = 4090" using assms(3) by (auto simp: Write short_value_def)
    from write_gap_does [OF assms(2) space_rep_wf [OF assms(1)] this] obtain db' where
        "write_property_bytes v db = (Err (StorageCorrupted 0), db')" "space_rep db' S"
      using assms(1) unfolding does_def by blast
    then show ?thesis using assms(2)
      by (intro exI [of _ "Wrote (Err (StorageCorrupted 0))"] exI [of _ db'] exI [of _ S]) (simp add: Write write_raw_def False)
  qed
next
  case (Read rid)
  then obtain v where v: "vals S rid = Some v" using assms(3) by auto
  obtain db' where "read_property_bytes rid db = (Ok v, db')" "space_rep db' S"
    using property_store.fetch_step [OF assms(1,2) v] by blast
  then show ?thesis using v assms(2)
    by (intro exI [of _ "GotBytes (Ok v)"] exI [of _ db'] exI [of _ S]) (simp add: Read read_raw_def)
next
  case (Free rid)
  then obtain v where v: "vals S rid = Some v" using assms(3) by auto
  obtain db' S' where "free_property_bytes rid db = (Ok (), db')" "space_rep db' S'" "store_inv S'"
      "vals S' = (vals S)(rid := None)" "sp_room S \<le> sp_room S'"
    using property_store.release_step [OF assms(1,2) v] by blast
  then show ?thesis
    by (intro exI [of _ "Freed (Ok ())"] exI [of _ db'] exI [of _ S']) (simp add: Free free_property_def)
qed

lemma run_store_refines:
  assumes "space_rep db S" "store_inv S" "2 * length cs \<le> sp_room S"
  shows "map_trace (vals S) cs (fst (run_store cs db))"
  using assms
proof (induction cs arbitrary: db S)
  case Nil
  then show ?case by (simp add: trace_end)
next
  case (Cons c cs)
  show ?case
  proof (cases "legal (vals S) c")
    case False
    then show ?thesis by (rule trace_illegal)
  next
    case True
    obtain r db' S' where s: "call_step c db = (r, db')" "map_reply (vals S) c r (vals S')" "space_rep db' S'"
        "store_inv S'" "sp_room S - 2 \<le> sp_room S'"
      using call_refines [OF Cons.prems(1,2) True] Cons.prems(3) by auto
    have "map_trace (vals S') cs (fst (run_store cs db'))"
      using Cons.IH [OF s(3,4)] s(5) Cons.prems(3) by simp
    then show ?thesis
      using trace_step [OF True s(2)] s(1) by (simp add: split_beta)
  qed
qed

section \<open>Properties\<close>

text \<open>
  C19: for values of up to 4090 bytes the property store implements a finite map from record ids to
  values, on every sequence of writes, and of reads and frees of ids in use, whatever the free-slot hint
  says: a write of at most 4088 bytes returns a record id that is not in use and binds it, one of 4089
  or 4090 bytes is refused and changes nothing, a read returns the value last bound, a free unbinds it
  and nothing else. None of these calls disturbs another such value, also when slots, pages and freed
  pages are reused. Longer values are outside of this: a later write can destroy the chain that holds one.
\<close>

theorem property_store_is_finite_map:
  assumes "space_rep db S" "store_inv S" "2 * length cs \<le> sp_room S"
  shows "map_trace (vals S) cs (fst (run_store cs db))"
  using run_store_refines [OF assms] .

theorem property_store_is_finite_map_witness:
  "\<exists>r1 r2. r1 \<noteq> r2 \<and> fst (run_store [Write [1, 2, 3], Write (replicate 4090 5), Write [4]] create_in_memory) =
     [Wrote (Ok r1), Wrote (Err (StorageCorrupted 0)), Wrote (Ok r2)]"
proof -
  let ?cs = "[Write [1, 2, 3], Write (replicate 4090 5), Write [4]]"
  have "map_trace (\<lambda>_. None) ?cs (fst (run_store ?cs create_in_memory))"
    using property_store_is_finite_map [OF memory_spaces fresh_store_inv(1), of ?cs]
    by (simp add: fresh_store_inv) (simp add: fresh_spaces_def)
  then show ?thesis
    by (auto elim!: map_trace_ConsE simp: short_value_def map_trace_Nil split: if_splits)
qed

end
