(* ===== verification/Property_Chains.thy ===== *)
theory Property_Chains
  imports Property_Store
begin

text \<open>
  Values longer than a page in the property store of \<^verbatim>\<open>storage/value.rs\<close>: the chain of logical
  pages they are split over, written through the allocator and read back through the links; what the
  store does with lengths between those a page and a chain accept; and how a chain page that looks
  like a slotted page is overwritten.
\<close>

section \<open>Allocating a chain\<close>

text \<open>The numbers the allocator hands out: the free list first, then fresh ones.\<close>

definition chain_numbers :: "nat \<Rightarrow> nat list \<Rightarrow> nat \<Rightarrow> nat list" where
  "chain_numbers n xs N = take n xs @ [N..<N + (n - length xs)]"

lemma chain_numbers_simps [simp]:
  "chain_numbers 0 xs N = []"
  "chain_numbers (Suc n) (x # xs) N = x # chain_numbers n xs N"
  "chain_numbers (Suc n) [] N = N # chain_numbers n [] (Suc N)"
  by (simp_all add: chain_numbers_def upt_conv_Cons del: upt_Suc)

lemma length_chain_numbers [simp]: "length (chain_numbers n xs N) = n"
  by (simp add: chain_numbers_def)

lemma chain_numbers_distinct: "distinct xs \<Longrightarrow> \<forall>x\<in>set xs. x < N \<Longrightarrow> distinct (chain_numbers n xs N)"
  by (fastforce simp: chain_numbers_def dest: in_set_takeD)

lemma chain_numbers_fresh: "l \<in> set (chain_numbers n xs N) \<Longrightarrow> l \<in> set xs \<or> N \<le> l"
  by (auto simp: chain_numbers_def dest: in_set_takeD)

lemma alloc_next:
  assumes "free_pages S xs" "2 \<le> sp_room S" "length d = PAGE_SIZE"
  defines "N \<equiv> length (sp_pages S PropertyS)"
  shows "\<exists>S'. space_does (alloc_property_page d) S (Ok (case xs of [] \<Rightarrow> N | x # _ \<Rightarrow> x)) S' \<and> free_pages S' (tl xs) \<and>
    sp_pages S' = (sp_pages S)(PropertyS := (case xs of [] \<Rightarrow> sp_pages S PropertyS @ [d] | x # _ \<Rightarrow> (sp_pages S PropertyS)[x := d])) \<and>
    sp_room S - 2 \<le> sp_room S' \<and> property_first_free_page (sp_hdr S') = property_first_free_page (sp_hdr S)"
proof (cases xs)
  case Nil
  then show ?thesis
    using alloc_property_grow [of S d] assms
    by (intro exI [of _ "sp_add PropertyS d S"]) (simp add: set_space_len_def)
next
  case (Cons x ys)
  then show ?thesis
    using alloc_property_reuse [of S x ys d] free_pages_reuse [of S x ys d] assms
    by (intro exI [of _ "sp_set PropertyS x d (sp_free_head (get32 4 (sp_pages S PropertyS ! x)) S)"]) simp
qed

lemma alloc_chain_does:
  assumes "free_pages S xs" "2 * length ps \<le> sp_room S" "\<forall>p\<in>set ps. length p = PAGE_SIZE"
  defines "ls \<equiv> chain_numbers (length ps) xs (length (sp_pages S PropertyS))"
  shows "\<exists>S'. space_does (alloc_chain ps) S (Ok ls) S' \<and> free_pages S' (drop (length ps) xs) \<and>
    (\<forall>i < length ls. ls ! i < length (sp_pages S' PropertyS) \<and> sp_pages S' PropertyS ! (ls ! i) = ps ! i) \<and>
    (\<forall>i < length (sp_pages S PropertyS). i \<notin> set ls \<longrightarrow> sp_pages S' PropertyS ! i = sp_pages S PropertyS ! i) \<and>
    length (sp_pages S' PropertyS) = length (sp_pages S PropertyS) + (length ps - length xs) \<and>
    sp_pages S' NodeS = sp_pages S NodeS \<and> sp_pages S' EdgeS = sp_pages S EdgeS \<and>
    property_first_free_page (sp_hdr S') = property_first_free_page (sp_hdr S)"
  using assms(1-3) unfolding ls_def
proof (induction ps arbitrary: S xs)
  case Nil
  then show ?case by (intro exI [of _ S]) simp
next
  case (Cons p ps)
  let ?N = "length (sp_pages S PropertyS)"
  let ?l = "case xs of [] \<Rightarrow> ?N | x # _ \<Rightarrow> x"
  obtain S1 where S1: "space_does (alloc_property_page p) S (Ok ?l) S1" "free_pages S1 (tl xs)"
      "sp_pages S1 = (sp_pages S)(PropertyS := (case xs of [] \<Rightarrow> sp_pages S PropertyS @ [p] | x # _ \<Rightarrow> (sp_pages S PropertyS)[x := p]))"
      "sp_room S - 2 \<le> sp_room S1" "property_first_free_page (sp_hdr S1) = property_first_free_page (sp_hdr S)"
    using alloc_next [OF Cons.prems(1), of p] Cons.prems(2,3) by auto
  let ?N1 = "length (sp_pages S1 PropertyS)"
  let ?ls = "chain_numbers (length ps) (tl xs) ?N1"
  have "2 * length ps \<le> sp_room S1" using S1(4) Cons.prems(2) by simp
  from Cons.IH [OF S1(2) this] Cons.prems(3)
  obtain S2 where S2: "space_does (alloc_chain ps) S1 (Ok ?ls) S2" "free_pages S2 (drop (length ps) (tl xs))"
      "\<forall>i < length ?ls. ?ls ! i < length (sp_pages S2 PropertyS) \<and> sp_pages S2 PropertyS ! (?ls ! i) = ps ! i"
      "\<forall>i < ?N1. i \<notin> set ?ls \<longrightarrow> sp_pages S2 PropertyS ! i = sp_pages S1 PropertyS ! i"
      "length (sp_pages S2 PropertyS) = ?N1 + (length ps - length (tl xs))"
      "sp_pages S2 NodeS = sp_pages S1 NodeS" "sp_pages S2 EdgeS = sp_pages S1 EdgeS"
      "property_first_free_page (sp_hdr S2) = property_first_free_page (sp_hdr S1)"
    by auto
  have bound: "x < ?N" if "x \<in> set xs" for x using Cons.prems(1) free_list_bound that by blast
  have l: "?l < ?N1" "sp_pages S1 PropertyS ! ?l = p" using bound S1(3) by (auto split: list.splits)
  have lnew: "?l \<notin> set ?ls"
    using Cons.prems(1) l(1) by (auto dest!: chain_numbers_fresh split: list.splits)
  have ls: "chain_numbers (length (p # ps)) xs ?N = ?l # ?ls"
    using S1(3) by (cases xs) auto
  have run: "space_does (alloc_chain (p # ps)) S (Ok (?l # ?ls)) S2"
    unfolding alloc_chain.simps
    by (rule space_does_bnd [OF S1(1)], rule space_does_bnd [OF S2(1)]) simp
  have keep: "sp_pages S2 PropertyS ! i = sp_pages S PropertyS ! i" if "i < ?N" "i \<notin> set (?l # ?ls)" for i
    using that S2(4) S1(3) by (auto simp: nth_append split: list.splits)
  have vals: "(?l # ?ls) ! i < length (sp_pages S2 PropertyS) \<and> sp_pages S2 PropertyS ! ((?l # ?ls) ! i) = (p # ps) ! i"
    if "i < length (?l # ?ls)" for i
  proof (cases i)
    case 0
    then show ?thesis using S2(4,5) l lnew by auto
  next
    case (Suc j)
    then show ?thesis using S2(3) that by simp
  qed
  have free: "free_pages S2 (drop (length (p # ps)) xs)" using S2(2) by (cases xs) auto
  have len: "length (sp_pages S2 PropertyS) = ?N + (length (p # ps) - length xs)"
    using S2(5) S1(3) by (cases xs) auto
  show ?case
    unfolding ls by (intro exI [of _ S2] conjI run free len) (use vals keep S2(6,7,8) S1(3,5) in auto)
qed

section \<open>Chains in the page array\<close>

definition chain_link :: "nat list \<Rightarrow> u32" where
  "chain_link ls = (case ls of [] \<Rightarrow> NO_NEXT_PAGE | l # _ \<Rightarrow> of_nat l)"

definition holds_chunk :: "bytes \<Rightarrow> bytes \<Rightarrow> bool" where
  "holds_chunk p c \<longleftrightarrow> length p = PAGE_SIZE \<and> length c \<le> CHAIN_DATA_PER_PAGE \<and> unat (get32 4 p) = length c \<and>
     get_bytes CHAIN_HEADER_SIZE (length c) p = c"

fun chain_at :: "bytes list \<Rightarrow> nat list \<Rightarrow> bytes list \<Rightarrow> bool" where
  "chain_at P [] cs \<longleftrightarrow> cs = []"
| "chain_at P (l # ls) [] \<longleftrightarrow> False"
| "chain_at P (l # ls) (c # cs) \<longleftrightarrow> l < length P \<and> holds_chunk (P ! l) c \<and> get32 0 (P ! l) = chain_link ls \<and> chain_at P ls cs"

lemma holds_chunk_relink:
  assumes "holds_chunk p c"
  shows "holds_chunk (put32 0 w p) c" "get32 0 (put32 0 w p) = w"
  using assms by (simp_all add: holds_chunk_def slice_simps chain_consts)

lemma chain_at_cong:
  assumes "chain_at P ls cs" "\<And>l. l \<in> set ls \<Longrightarrow> l < length P' \<and> P' ! l = P ! l"
  shows "chain_at P' ls cs"
  using assms by (induction P ls cs rule: chain_at.induct) auto

text \<open>Relinking turns allocated chunk pages into a chain.\<close>

lemma relink_does:
  assumes "distinct ls" "length ls = length cs"
    and "\<forall>i < length ls. ls ! i < length (sp_pages S PropertyS) \<and> holds_chunk (sp_pages S PropertyS ! (ls ! i)) (cs ! i)"
  shows "\<exists>S'. space_does (relink_chain_to_logical ls) S (Ok ()) S' \<and> chain_at (sp_pages S' PropertyS) ls cs \<and>
    (\<forall>i. i \<notin> set ls \<longrightarrow> sp_pages S' PropertyS ! i = sp_pages S PropertyS ! i) \<and>
    length (sp_pages S' PropertyS) = length (sp_pages S PropertyS) \<and> sp_pages S' NodeS = sp_pages S NodeS \<and>
    sp_pages S' EdgeS = sp_pages S EdgeS \<and> sp_hdr S' = sp_hdr S"
  using assms
proof (induction ls arbitrary: cs S)
  case Nil
  then show ?case by (intro exI [of _ S]) simp
next
  case (Cons l ls)
  obtain c cs' where cs: "cs = c # cs'" using Cons.prems(2) by (cases cs) auto
  let ?p = "sp_pages S PropertyS ! l"
  let ?q = "put32 0 (chain_link ls) ?p"
  have l: "l < length (sp_pages S PropertyS)" "holds_chunk ?p c"
    using Cons.prems(3) [rule_format, of 0] by (simp_all add: cs)
  have q: "holds_chunk ?q c" "get32 0 ?q = chain_link ls" using holds_chunk_relink [OF l(2)] by simp_all
  then have len: "length ?q = PAGE_SIZE" by (simp add: holds_chunk_def)
  let ?S1 = "sp_set PropertyS l ?q S"
  have rest: "\<forall>i < length ls. ls ! i < length (sp_pages ?S1 PropertyS) \<and> holds_chunk (sp_pages ?S1 PropertyS ! (ls ! i)) (cs' ! i)"
  proof (intro allI impI)
    fix i assume i: "i < length ls"
    then have "ls ! i \<noteq> l" using Cons.prems(1) by (auto dest: nth_mem)
    then show "ls ! i < length (sp_pages ?S1 PropertyS) \<and> holds_chunk (sp_pages ?S1 PropertyS ! (ls ! i)) (cs' ! i)"
      using Cons.prems(3) [rule_format, of "Suc i"] i by (simp add: cs)
  qed
  obtain S2 where S2: "space_does (relink_chain_to_logical ls) ?S1 (Ok ()) S2" "chain_at (sp_pages S2 PropertyS) ls cs'"
      "\<forall>i. i \<notin> set ls \<longrightarrow> sp_pages S2 PropertyS ! i = sp_pages ?S1 PropertyS ! i"
      "length (sp_pages S2 PropertyS) = length (sp_pages ?S1 PropertyS)" "sp_pages S2 NodeS = sp_pages ?S1 NodeS"
      "sp_pages S2 EdgeS = sp_pages ?S1 EdgeS" "sp_hdr S2 = sp_hdr ?S1"
    using Cons.IH [OF _ _ rest] Cons.prems(1,2) cs by auto
  have run: "space_does (relink_chain_to_logical (l # ls)) S (Ok ()) S2"
    unfolding relink_chain_to_logical.simps Let_def chain_link_def [symmetric]
    by (rule property_pages.read_then [OF l(1)], rule property_pages.store_then [OF l(1) len S2(1)])
  have "sp_pages S2 PropertyS ! l = ?q" using S2(3) Cons.prems(1) l(1) by simp
  then have "chain_at (sp_pages S2 PropertyS) (l # ls) cs" using S2(2,4) q l(1) by (simp add: cs)
  moreover have "sp_pages S2 PropertyS ! i = sp_pages S PropertyS ! i" if "i \<notin> set (l # ls)" for i
    using that S2(3) by simp
  ultimately show ?case using run S2(4-7) by (intro exI [of _ S2]) simp
qed

text \<open>Reading a chain back.\<close>

lemma follow_chain_does:
  assumes "chain_at (sp_pages S PropertyS) (l # ls) cs" "\<forall>i\<in>set ls. i < 2 ^ 32 - 1" "length ls \<le> left"
  shows "space_does (follow_chain left l) S (Ok (map (\<lambda>i. (i, sp_pages S PropertyS ! i)) (l # ls))) S"
  using assms
proof (induction ls arbitrary: l cs left)
  case Nil
  then obtain c where "l < length (sp_pages S PropertyS)" "get32 0 (sp_pages S PropertyS ! l) = NO_NEXT_PAGE"
    by (cases cs) (auto simp: chain_link_def)
  then show ?case
    by (subst follow_chain.simps) (rule property_pages.read_then, simp_all)
next
  case (Cons l' ls)
  then obtain c cs' where cs: "cs = c # cs'" by (cases cs) auto
  then have l: "l < length (sp_pages S PropertyS)" "get32 0 (sp_pages S PropertyS ! l) = of_nat l'"
      "chain_at (sp_pages S PropertyS) (l' # ls) cs'"
    using Cons.prems(1) by (simp_all add: chain_link_def)
  have u: "unat (of_nat l' :: u32) = l'" using Cons.prems(2) by (intro unat_of_nat_small) simp
  then have ne: "(of_nat l' :: u32) \<noteq> NO_NEXT_PAGE" using Cons.prems(2) by (auto simp: NO_NEXT_PAGE_def)
  obtain left' where left: "left = Suc left'" using Cons.prems(3) by (cases left) auto
  have rest: "space_does (follow_chain left' l') S (Ok (map (\<lambda>i. (i, sp_pages S PropertyS ! i)) (l' # ls))) S"
    using Cons.IH [OF l(3)] Cons.prems(2,3) left by simp
  have "space_does (bnd (follow_chain left' l') (\<lambda>rest. ret ((l, sp_pages S PropertyS ! l) # rest))) S
      (Ok (map (\<lambda>i. (i, sp_pages S PropertyS ! i)) (l # l' # ls))) S"
    by (rule space_does_bnd [OF rest]) simp
  then show ?case
    by (subst follow_chain.simps, intro property_pages.read_then [OF l(1)])
      (simp add: l(2) ne u left)
qed

lemma read_dense_chain:
  "chain_at P ls cs \<Longrightarrow> read_dense_loop idx (map (\<lambda>i. P ! i) ls) acc = Ok (acc @ concat cs)"
proof (induction P ls cs arbitrary: idx acc rule: chain_at.induct)
  case (3 P l ls c cs)
  then have c: "unat (get32 4 (P ! l)) = length c" "get_bytes CHAIN_HEADER_SIZE (length c) (P ! l) = c"
      "length c \<le> CHAIN_DATA_PER_PAGE" "chain_at P ls cs"
    by (simp_all add: holds_chunk_def)
  have "\<not> CHAIN_HEADER_SIZE + length c > PAGE_SIZE" using c(3) by (simp add: chain_consts)
  then show ?case using c(1,2) "3.IH" [OF c(4)] by (simp add: Let_def)
qed simp_all

lemma chain_at_bound: "chain_at P ls cs \<Longrightarrow> l \<in> set ls \<Longrightarrow> l < length P"
  by (induction P ls cs rule: chain_at.induct) auto

lemma read_chain_does:
  assumes wf: "sp_wf S" and chain: "chain_at (sp_pages S PropertyS) (l # ls) cs" and "distinct (l # ls)"
  shows "space_does (read_property_bytes (rid_new (of_nat l) CHAIN_HEAD_SLOT)) S (Ok (concat cs)) S"
proof -
  let ?P = "sp_pages S PropertyS"
  have bound: "i < length ?P" if "i \<in> set (l # ls)" for i using chain_at_bound [OF chain that] .
  have small: "length ?P < 2 ^ 32" using sp_wfD(3) [OF wf] .
  have "card (set (l # ls)) \<le> card {..<length ?P}" using bound by (intro card_mono) auto
  then have limit: "length ls \<le> length ?P" using distinct_card [OF assms(3)] by simp
  have u: "unat (of_nat l :: u32) = l" using bound [of l] small by (intro unat_of_nat_small) simp
  have "\<forall>i\<in>set ls. i < 2 ^ 32 - 1" using bound small by fastforce
  then have f: "space_does (follow_chain (length ?P) l) S (Ok (map (\<lambda>i. (i, ?P ! i)) (l # ls))) S"
    by (rule follow_chain_does [OF chain _ limit])
  let ?k = "\<lambda>h. bnd (follow_chain (property_page_count h) l) (\<lambda>pages. lift_res (read_blob_chain_dense (map snd pages)))"
  have "read_blob_chain_dense (map snd (map (\<lambda>i. (i, ?P ! i)) (l # ls))) = Ok (concat cs)"
    using read_dense_chain [OF chain, of 0 "[]"] by (simp add: read_blob_chain_dense_def o_def)
  then have "space_does (?k (sp_hdr S)) S (Ok (concat cs)) S"
    unfolding sp_wfD(1) [OF wf] by (intro space_does_bnd [OF f]) (simp add: lift_res_def)
  then have "space_does (\<lambda>db. ?k (header db) db) S (Ok (concat cs)) S"
    by (intro space_does_header [where k = ?k]) simp_all
  then show ?thesis by (simp add: read_property_bytes_def u Let_def)
qed

section \<open>Writing a long value\<close>

definition chunks :: "nat \<Rightarrow> bytes \<Rightarrow> bytes list" where
  "chunks n d = map (\<lambda>k. take CHAIN_DATA_PER_PAGE (drop (k * CHAIN_DATA_PER_PAGE) d)) [0..<n]"

lemma concat_chunks: "concat (chunks n d) = take (n * CHAIN_DATA_PER_PAGE) d"
proof (induction n)
  case (Suc n)
  have "take (Suc n * CHAIN_DATA_PER_PAGE) d =
      take (n * CHAIN_DATA_PER_PAGE) d @ take CHAIN_DATA_PER_PAGE (drop (n * CHAIN_DATA_PER_PAGE) d)"
    using take_add [of "n * CHAIN_DATA_PER_PAGE" CHAIN_DATA_PER_PAGE d] by (simp only: mult_Suc add.commute)
  then show ?case using Suc.IH by (simp add: chunks_def)
qed (simp add: chunks_def)

lemma concat_chunks_needed: "concat (chunks (pages_needed (length d)) d) = d"
  using pages_needed_bounds(2) [of "length d"] by (simp add: concat_chunks)

lemma write_blob_pages:
  assumes "n = pages_needed (length d)"
  obtains ps where "write_blob_chain (replicate n (replicate PAGE_SIZE 0)) d = (Ok (), ps)" "length ps = n"
    "\<forall>i < n. holds_chunk (ps ! i) (chunks n d ! i)" "\<forall>p\<in>set ps. length p = PAGE_SIZE"
proof -
  let ?z = "replicate PAGE_SIZE (0 :: byte)"
  let ?ps = "write_chain_loop n d 0 0 (replicate n ?z)"
  have nth: "holds_chunk (?ps ! i) (chunks n d ! i)" if "i < n" for i
  proof -
    let ?c = "take CHAIN_DATA_PER_PAGE (drop (i * CHAIN_DATA_PER_PAGE) d)"
    have "?ps ! i = chain_page (chain_next n i) ?c ?z" "chunks n d ! i = ?c"
      using that write_chain_loop_nth [of 0 0 d i "replicate n ?z" n] by (simp_all add: chunks_def)
    then show ?thesis using chain_page_fields [of ?z ?c "chain_next n i"] by (simp add: holds_chunk_def)
  qed
  then have "\<forall>p\<in>set ?ps. length p = PAGE_SIZE" by (auto simp: in_set_conv_nth holds_chunk_def)
  moreover have "write_blob_chain (replicate n ?z) d = (Ok (), ?ps)"
    unfolding write_blob_chain_def Let_def assms [symmetric] by simp
  ultimately show thesis using nth by (intro that [of ?ps]) simp_all
qed

lemma write_blob_does:
  assumes wf: "sp_wf S" and xs: "free_pages S xs" and room: "2 * pages_needed (length d) \<le> sp_room S"
  defines "ls \<equiv> chain_numbers (pages_needed (length d)) xs (length (sp_pages S PropertyS))"
  shows "\<exists>S'. space_does (write_blob d) S (Ok (rid_new (of_nat (hd ls)) CHAIN_HEAD_SLOT)) S' \<and>
    chain_at (sp_pages S' PropertyS) ls (chunks (length ls) d) \<and> distinct ls \<and>
    (\<forall>i < length (sp_pages S PropertyS). i \<notin> set ls \<longrightarrow> sp_pages S' PropertyS ! i = sp_pages S PropertyS ! i) \<and>
    length (sp_pages S' PropertyS) = length (sp_pages S PropertyS) + (length ls - length xs) \<and>
    sp_pages S' NodeS = sp_pages S NodeS \<and> sp_pages S' EdgeS = sp_pages S EdgeS \<and>
    property_first_free_page (sp_hdr S') = property_first_free_page (sp_hdr S)"
proof -
  let ?n = "pages_needed (length d)"
  obtain ps where ps: "write_blob_chain (replicate ?n (replicate PAGE_SIZE 0)) d = (Ok (), ps)" "length ps = ?n"
      "\<forall>i < ?n. holds_chunk (ps ! i) (chunks ?n d ! i)" "\<forall>p\<in>set ps. length p = PAGE_SIZE"
    by (rule write_blob_pages [OF refl])
  have ls: "ls = chain_numbers (length ps) xs (length (sp_pages S PropertyS))" "length ls = ?n"
    using ps(2) by (simp_all add: ls_def)
  have "2 * length ps \<le> sp_room S" using room ps(2) by simp
  from alloc_chain_does [OF xs this ps(4), folded ls(1)] obtain S1 where S1:
      "space_does (alloc_chain ps) S (Ok ls) S1"
      "\<forall>i < length ls. ls ! i < length (sp_pages S1 PropertyS) \<and> sp_pages S1 PropertyS ! (ls ! i) = ps ! i"
      "\<forall>i < length (sp_pages S PropertyS). i \<notin> set ls \<longrightarrow> sp_pages S1 PropertyS ! i = sp_pages S PropertyS ! i"
      "length (sp_pages S1 PropertyS) = length (sp_pages S PropertyS) + (length ps - length xs)"
      "sp_pages S1 NodeS = sp_pages S NodeS" "sp_pages S1 EdgeS = sp_pages S EdgeS"
      "property_first_free_page (sp_hdr S1) = property_first_free_page (sp_hdr S)"
    by blast
  have dist: "distinct ls"
    unfolding ls(1) using xs free_list_bound by (intro chain_numbers_distinct) blast+
  have cs: "length ls = length (chunks ?n d)" using ls(2) by (simp add: chunks_def)
  have hold: "\<forall>i < length ls. ls ! i < length (sp_pages S1 PropertyS) \<and>
      holds_chunk (sp_pages S1 PropertyS ! (ls ! i)) (chunks ?n d ! i)"
    using S1(2) ps(3) ls(2) by simp
  obtain S2 where S2: "space_does (relink_chain_to_logical ls) S1 (Ok ()) S2"
      "chain_at (sp_pages S2 PropertyS) ls (chunks ?n d)"
      "\<forall>i. i \<notin> set ls \<longrightarrow> sp_pages S2 PropertyS ! i = sp_pages S1 PropertyS ! i"
      "length (sp_pages S2 PropertyS) = length (sp_pages S1 PropertyS)" "sp_pages S2 NodeS = sp_pages S1 NodeS"
      "sp_pages S2 EdgeS = sp_pages S1 EdgeS" "sp_hdr S2 = sp_hdr S1"
    using relink_does [OF dist cs hold] by blast
  have hd: "(case ls of [] \<Rightarrow> 0 | l # _ \<Rightarrow> l) = hd ls"
    using pages_needed_bounds(1) [of "length d"] ls(2) by (cases ls) auto
  have "space_does (write_blob d) S (Ok (rid_new (of_nat (hd ls)) CHAIN_HEAD_SLOT)) S2"
    unfolding write_blob_def Let_def ps(1) prod.case sum.case
    by (rule space_does_bnd [OF S1(1)], unfold hd, rule space_does_bnd [OF S2(1)]) simp
  then show ?thesis using S2 S1 dist ls(2) ps(2) by (intro exI [of _ S2]) simp
qed

lemma write_long: "4091 \<le> length v \<Longrightarrow> write_property_bytes v = write_blob v"
  by (simp add: write_property_bytes_def PAGE_SIZE_def)

lemma blob_keeps_vals:
  assumes xs: "free_pages S xs" and keep: "\<forall>i < length (sp_pages S PropertyS). i \<notin> set ls \<longrightarrow> P ! i = sp_pages S PropertyS ! i"
    and len: "length (sp_pages S PropertyS) \<le> length P" and ls: "ls = chain_numbers n xs (length (sp_pages S PropertyS))"
    and v: "prop_value (sp_pages S PropertyS) l s = Some v"
  shows "prop_value P l s = Some v"
proof -
  have l: "l < length (sp_pages S PropertyS)" "sp_is_valid (sp_pages S PropertyS ! l)"
    using v by (auto simp: prop_value_def split: if_splits)
  have "l \<notin> set xs" using free_not_valid xs l(2) by blast
  then have "l \<notin> set ls" using chain_numbers_fresh [of l n xs "length (sp_pages S PropertyS)"] l(1) by (auto simp: ls)
  then show ?thesis using keep l len v by (simp add: prop_value_def)
qed

section \<open>Properties\<close>

text \<open>
  C32: a value longer than a page can hold, of any length from 4091 bytes on, is written over as many
  pages as it needs, reused ones first, and its record id reads back the value byte for byte, whatever
  order the pages were allocated in; every short value of the store still has its value.
\<close>

theorem long_value_roundtrip:
  assumes "space_rep db S" "free_pages S xs" "4091 \<le> length d" "2 * pages_needed (length d) \<le> sp_room S"
  shows "\<exists>rid db1 db2 S'. write_raw d db = (Ok rid, db1) \<and> space_rep db1 S' \<and> read_raw rid db1 = (Ok d, db2) \<and>
    (\<forall>r v. vals S r = Some v \<longrightarrow> vals S' r = Some v)"
proof -
  let ?ls = "chain_numbers (pages_needed (length d)) xs (length (sp_pages S PropertyS))"
  let ?rid = "rid_new (of_nat (hd ?ls)) CHAIN_HEAD_SLOT"
  obtain S' where S': "space_does (write_blob d) S (Ok ?rid) S'"
      "chain_at (sp_pages S' PropertyS) ?ls (chunks (length ?ls) d)" "distinct ?ls"
      "\<forall>i < length (sp_pages S PropertyS). i \<notin> set ?ls \<longrightarrow> sp_pages S' PropertyS ! i = sp_pages S PropertyS ! i"
      "length (sp_pages S' PropertyS) = length (sp_pages S PropertyS) + (length ?ls - length xs)"
    using write_blob_does [OF space_rep_wf [OF assms(1)] assms(2,4)] by blast
  obtain db1 where db1: "write_blob d db = (Ok ?rid, db1)" "space_rep db1 S'"
    using S'(1) assms(1) unfolding does_def by blast
  have "?ls \<noteq> []" using pages_needed_bounds(1) [of "length d"] length_chain_numbers by (metis less_irrefl list.size(3))
  then have ls: "?ls = hd ?ls # tl ?ls" by simp
  have "space_does (read_property_bytes ?rid) S' (Ok (concat (chunks (length ?ls) d))) S'"
    by (rule read_chain_does [where ls = "tl ?ls", OF space_rep_wf [OF db1(2)]]) (use S'(2,3) ls in simp_all)
  then obtain db2 where "read_property_bytes ?rid db1 = (Ok d, db2)"
    using db1(2) concat_chunks_needed [of d] unfolding does_def by auto
  moreover have "vals S' r = Some v" if "vals S r = Some v" for r v
    using blob_keeps_vals [OF assms(2) S'(4) _ refl] S'(5) that by (auto simp: vals_def split: if_splits)
  ultimately show ?thesis
    using db1 write_long [OF assms(3)]
    by (intro exI [of _ ?rid] exI [of _ db1] exI [of _ db2] exI [of _ S']) (simp add: write_raw_def read_raw_def)
qed

lemma fresh_free_pages: "free_pages (fresh_spaces n) []"
  by (simp add: fresh_spaces_def hide_roots_def header_new_def)

theorem long_value_roundtrip_witness:
  "\<exists>rid db1 db2. write_raw (replicate 9000 7) create_in_memory = (Ok rid, db1) \<and> read_raw rid db1 = (Ok (replicate 9000 7), db2)"
  using long_value_roundtrip [OF memory_spaces fresh_free_pages, of "replicate 9000 7"]
  by (auto simp: pages_needed_def chain_consts) (auto simp: fresh_spaces_def)

section \<open>Lengths between a page and a chain\<close>

text \<open>
  C34: which values the store accepts. Given room in the file, a write succeeds for every length up to
  4088 and from 4091 on; values of 4089 and 4090 bytes are refused as a corrupt store, because the
  test that chooses between a page and a chain reserves two bytes less than a fresh page needs.
\<close>

theorem accepted_lengths:
  assumes "space_rep db S" "store_inv S" "2 * pages_needed (length v) \<le> sp_room S"
  shows "if length v \<in> {4089, 4090} then \<exists>db'. write_raw v db = (Err (StorageCorrupted 0), db')
    else \<exists>rid db'. write_raw v db = (Ok rid, db')"
proof (cases "length v = 4089 \<or> length v = 4090")
  case True
  then show ?thesis
    using write_gap_does [OF assms(2) space_rep_wf [OF assms(1)]] assms(1) unfolding does_def write_raw_def by auto
next
  case False
  have room: "2 \<le> sp_room S" using assms(3) pages_needed_bounds(1) [of "length v"] by linarith
  obtain xs where xs: "free_pages S xs" using assms(2) by (auto simp: store_inv_def)
  have "\<exists>rid db'. write_raw v db = (Ok rid, db')"
  proof (cases "length v \<le> 4088")
    case True
    then have "short_value v" by (simp add: short_value_def)
    then show ?thesis
      using property_store.store_step [OF assms(1,2) _ room] unfolding write_raw_def by metis
  next
    case long: False
    then have "write_property_bytes v = write_blob v" using False by (intro write_long) simp
    then show ?thesis
      using write_blob_does [OF space_rep_wf [OF assms(1)] xs assms(3)] assms(1) unfolding does_def write_raw_def by metis
  qed
  then show ?thesis using False by simp
qed

theorem accepted_lengths_witness:
  "(\<exists>db'. write_raw (replicate 4090 1) create_in_memory = (Err (StorageCorrupted 0), db')) \<and>
   (\<exists>rid db'. write_raw (replicate 4091 1) create_in_memory = (Ok rid, db'))"
proof -
  have "2 * pages_needed (length (replicate n (1 :: byte))) \<le> sp_room (fresh_spaces 1000)" if "n \<le> 4091" for n
    using that by (simp add: pages_needed_def chain_consts fresh_spaces_def div_le_mono) 
  then show ?thesis
    using accepted_lengths [OF memory_spaces fresh_store_inv(1), of "replicate 4090 1"]
      accepted_lengths [OF memory_spaces fresh_store_inv(1), of "replicate 4091 1"]
    by simp
qed

section \<open>Where a chain page is taken for a slotted page\<close>

lemma halves:
  assumes "o' + 4 \<le> length p" "get32 o' p = w"
  shows "get16 o' p = from_le (take 2 (le32 w))" "h = o' + 2 \<Longrightarrow> get16 h p = from_le (drop 2 (le32 w))"
proof -
  have w: "get_bytes o' 4 p = le32 w"
    using to_from_le [of "get_bytes o' 4 p", where ?'a = 32] assms by simp
  have "get_bytes o' 2 p = take 2 (get_bytes o' 4 p)" "get_bytes (o' + 2) 2 p = drop 2 (get_bytes o' 4 p)"
    by (simp_all add: get_bytes_def drop_take add.commute)
  then show "get16 o' p = from_le (take 2 (le32 w))" "h = o' + 2 \<Longrightarrow> get16 h p = from_le (drop 2 (le32 w))"
    by (simp_all add: w)
qed

lemma head_halves:
  "from_le (take 2 (le32 1)) = (1 :: u16)" "from_le (drop 2 (le32 1)) = (0 :: u16)"
  "from_le (take 2 (le32 4088)) = (4088 :: u16)" "from_le (drop 2 (le32 4088)) = (0 :: u16)"
  by code_simp+

text \<open>The head of a chain of two fresh pages, as the slotted-page code reads it.\<close>

lemma chain_head_fields:
  assumes "length p = PAGE_SIZE" "get32 0 p = 1" "get32 4 p = 4088"
  shows "sp_slot_count p = 1" "sp_live_count p = 0" "entry_off p 0 = 4088" "entry_len p 0 = 0" "sp_is_valid p"
proof -
  show f: "sp_slot_count p = 1" "sp_live_count p = 0" "entry_off p 0 = 4088" "entry_len p 0 = 0"
    using halves(1) [of 0 p 1] halves(2) [of 0 p 1 2] halves(1) [of 4 p 4088] halves(2) [of 4 p 4088 6] assms
    by (simp_all add: sp_slot_count_def sp_live_count_def entry_off_def entry_len_def dir_offset_def sp_consts head_halves)
  show "sp_is_valid p"
    unfolding sp_is_valid_def Let_def by (simp add: f sp_consts FREE_PAGE_MARKER_def)
qed

text \<open>A one-byte value written to that page: the link of the chain becomes the page's counters.\<close>

lemma chain_head_overwritten:
  assumes len: "length p = PAGE_SIZE" and h: "get32 0 p = 1" "get32 4 p = 4088"
  shows "\<exists>p'. write_property [b] p = (Ok 1, p') \<and> length p' = PAGE_SIZE \<and> get32 0 p' = 65538"
proof -
  note f = chain_head_fields [OF assms]
  have de: "data_end p = Ok 4088" using f by (simp add: data_end_def sp_consts)
  let ?p1 = "put16 10 1 (put16 8 4087 (put_bytes 4087 [b] p))"
  let ?p2 = "set_slot_count 2 ?p1"
  let ?p3 = "set_live_count 1 ?p2"
  have live: "sp_live_count ?p2 = 0"
    using f(2) len by (simp add: sp_live_count_def set_slot_count_def slice_simps PAGE_SIZE_def)
  have w: "write_property [b] p = (Ok 1, ?p3)"
    using live by (simp add: write_property_def Let_def de f(1) dir_offset_def sp_consts)
  have "get_bytes 0 4 ?p3 = take 2 (drop 0 ?p3) @ take 2 (drop 2 ?p3)"
    using take_add [of 2 2 ?p3] by (simp add: get_bytes_def)
  also have "\<dots> = get_bytes 0 2 ?p3 @ get_bytes 2 2 ?p3" by (simp add: get_bytes_def)
  also have "\<dots> = le16 2 @ le16 1"
    using len by (simp add: set_live_count_def set_slot_count_def slice_simps PAGE_SIZE_def)
  finally have "get32 0 ?p3 = from_le (le16 2 @ le16 1)" by simp
  also have "(from_le (le16 2 @ le16 1) :: u32) = 65538" by code_simp
  finally have "get32 0 ?p3 = 65538" .
  moreover have "length ?p3 = PAGE_SIZE" using len by (simp add: set_live_count_def set_slot_count_def PAGE_SIZE_def)
  ultimately show ?thesis using w by blast
qed

lemma two_page_chain:
  assumes "length d = 5000"
  shows "\<exists>S. space_does (write_property_bytes d) (fresh_spaces 1000) (Ok (rid_new 0 CHAIN_HEAD_SLOT)) S \<and>
    chain_at (sp_pages S PropertyS) [0, 1] (chunks 2 d) \<and> length (sp_pages S PropertyS) = 2 \<and>
    property_first_free_page (sp_hdr S) = 0"
proof -
  have n: "pages_needed (length d) = 2" using assms by (simp add: pages_needed_def chain_consts)
  have ls: "chain_numbers 2 [] (length (sp_pages (fresh_spaces 1000) PropertyS)) = [0, 1]"
    by (simp add: fresh_spaces_def chain_numbers_def upt_rec)
  have wf: "sp_wf (fresh_spaces 1000)" using space_rep_wf [OF memory_spaces] .
  have "2 * pages_needed (length d) \<le> sp_room (fresh_spaces 1000)" by (simp add: n fresh_spaces_def)
  from write_blob_does [OF wf fresh_free_pages this] obtain S where S:
      "space_does (write_blob d) (fresh_spaces 1000) (Ok (rid_new (of_nat (hd [0, 1])) CHAIN_HEAD_SLOT)) S"
      "chain_at (sp_pages S PropertyS) [0, 1] (chunks (length [0 :: nat, 1]) d)"
      "length (sp_pages S PropertyS) = length (sp_pages (fresh_spaces 1000) PropertyS) + (length [0 :: nat, 1] - length ([] :: nat list))"
      "property_first_free_page (sp_hdr S) = property_first_free_page (sp_hdr (fresh_spaces 1000))"
    unfolding n ls by blast
  have fresh: "sp_pages (fresh_spaces 1000) PropertyS = []" "property_first_free_page (sp_hdr (fresh_spaces 1000)) = 0"
    by (simp_all add: fresh_spaces_def hide_roots_def header_new_def)
  have "length [0 :: nat, 1] = 2" by simp
  then show ?thesis
    using S write_long [of d] assms unfolding fresh by (intro exI [of _ S]) (simp only: list.size, simp)
qed

text \<open>
  C35: a live chain can be destroyed by a later write. In a new database, a value that takes two pages
  is written, and then a value of one byte: the validity check accepts the head page of the chain as
  a slotted page (its link reads as a slot count of one, its chunk length as an empty slot), the byte
  is written into it, and from then on reading the first value fails.
\<close>

theorem chain_head_is_overwritten:
  "\<exists>rid db1 db2 db3 db4. write_raw (replicate 5000 a) create_in_memory = (Ok rid, db1) \<and>
    read_raw rid db1 = (Ok (replicate 5000 a), db2) \<and>
    write_raw [b] db2 = (Ok (rid_new 0 1), db3) \<and> read_raw rid db3 = (Err (StorageCorrupted 65538), db4)"
proof -
  define d where "d = replicate 5000 a"
  then have len: "length d = 5000" by simp
  let ?rid = "rid_new 0 CHAIN_HEAD_SLOT"
  obtain S where S: "space_does (write_property_bytes d) (fresh_spaces 1000) (Ok ?rid) S"
      "chain_at (sp_pages S PropertyS) [0, 1] (chunks 2 d)" "length (sp_pages S PropertyS) = 2"
      "property_first_free_page (sp_hdr S) = 0"
    using two_page_chain [OF len] by blast
  obtain db1 where db1: "write_property_bytes d create_in_memory = (Ok ?rid, db1)" "space_rep db1 S"
    using S(1) memory_spaces unfolding does_def by blast
  have wf: "sp_wf S" using space_rep_wf [OF db1(2)] .
  have "space_does (read_property_bytes (rid_new (of_nat 0) CHAIN_HEAD_SLOT)) S (Ok (concat (chunks 2 d))) S"
    by (rule read_chain_does [OF wf S(2)]) simp
  moreover have "concat (chunks 2 d) = d" using len by (simp add: concat_chunks chain_consts)
  ultimately obtain db2 where db2: "read_property_bytes ?rid db1 = (Ok d, db2)" "space_rep db2 S"
    using db1(2) unfolding does_def by auto
  let ?p = "sp_pages S PropertyS ! 0"
  obtain c cs where c: "chunks 2 d = c # cs" "length c = 4088"
    using len by (auto simp: chunks_def upt_rec chain_consts)
  have "holds_chunk ?p c" "get32 0 ?p = 1" using S(2) c(1) by (simp_all add: chain_link_def)
  then have p: "length ?p = PAGE_SIZE" "get32 0 ?p = 1" "get32 4 ?p = 4088"
    using c(2) by (simp_all add: holds_chunk_def word_unat_eq_iff)
  obtain p' where p': "write_property [b] ?p = (Ok 1, p')" "length p' = PAGE_SIZE" "get32 0 p' = 65538"
    using chain_head_overwritten [OF p] by blast
  let ?S = "sp_set PropertyS 0 p' S"
  have l: "0 < length (sp_pages S PropertyS)" "0 < length (sp_pages ?S PropertyS)" using S(3) by simp_all
  have hint: "property_first_free_hint (sp_hdr S) = 0" using S(4) by (simp add: property_first_free_hint_def)
  have count: "property_page_count (sp_hdr S) = 2" "property_page_count (sp_hdr ?S) = 2"
    using sp_wfD(1) [OF wf] S(3) by simp_all
  have scan: "space_does (scan_pages [b] 0 [0..<2] 0 False) S (Ok (Some (rid_new 0 1), 0, False)) ?S"
    by (subst upt_rec, simp, rule property_pages.read_then [OF l(1)])
      (simp add: chain_head_fields(5) [OF p] p'(1) property_pages.store_then [OF l(1) p'(2)])
  have "space_does (write_slotted_from [b] 2 0) S (Ok (rid_new 0 1)) ?S"
    unfolding write_slotted_from_def by (rule space_does_bnd [OF scan]) simp
  then have "space_does (write_slotted [b]) S (Ok (rid_new 0 1)) ?S"
    unfolding write_slotted_def
    by (intro space_does_header [where k = "\<lambda>h. write_slotted_from [b] (property_page_count h) (property_first_free_hint h)"])
      (simp_all add: count hint)
  then obtain db4 where db4: "write_property_bytes [b] db2 = (Ok (rid_new 0 1), db4)" "space_rep db4 ?S"
    using db2(2) write_short [of "[b]"] unfolding does_def by (auto simp: short_value_def)
  have follow: "space_does (follow_chain 2 0) ?S (Err (StorageCorrupted 65538)) ?S"
  proof -
    have beyond: "space_does (follow_chain n 65538) ?S (Err (StorageCorrupted 65538)) ?S" for n
      using property_pages.read_beyond_then [of 65538 ?S] S(3) by (subst follow_chain.simps) simp
    have p0: "sp_pages ?S PropertyS ! 0 = p'" using l by simp
    have nx: "(65538 :: u32) \<noteq> NO_NEXT_PAGE" "unat (65538 :: u32) = 65538" by (simp_all add: NO_NEXT_PAGE_def)
    have "space_does (follow_chain (Suc 1) 0) ?S (Err (StorageCorrupted 65538)) ?S"
      by (subst follow_chain.simps, rule property_pages.read_then [OF l(2)],
          unfold p0 p'(3) Let_def if_not_P [OF nx(1)] nat.case nx(2)) (rule space_does_bnd_Inl [OF beyond])
    then show ?thesis by (simp add: numeral_2_eq_2)
  qed
  let ?k = "\<lambda>h. bnd (follow_chain (property_page_count h) 0) (\<lambda>pages. lift_res (read_blob_chain_dense (map snd pages)))"
  have "space_does (\<lambda>db. ?k (header db) db) ?S (Err (StorageCorrupted 65538)) ?S"
    by (rule space_does_header [where k = ?k]) (use count follow in \<open>simp_all add: space_does_bnd_Inl del: sp_set_simps\<close>)
  then have "space_does (read_property_bytes ?rid) ?S (Err (StorageCorrupted 65538)) ?S"
    by (simp add: read_property_bytes_def Let_def)
  then obtain db5 where "read_property_bytes ?rid db4 = (Err (StorageCorrupted 65538), db5)"
    using db4(2) unfolding does_def by blast
  then show ?thesis
    using db1(1) db2(1) db4(1)
    by (intro exI [of _ ?rid] exI [of _ db1] exI [of _ db2] exI [of _ db4] exI [of _ db5])
      (simp add: write_raw_def read_raw_def d_def)
qed

end
