(* ===== verification/Topology.thy ===== *)
theory Topology
  imports Page_Spaces Record_Format
begin

text \<open>
  The record level of \<^verbatim>\<open>storage/topology.rs\<close>: node and edge records in the slots of the
  node and edge pages, allocated by a scan from the free-slot hint and freed through the page bitmap.
  \<open>TopologyStore\<close> has no state of its own, so its methods are operations on the database file.

  The abstract state of a kind of record is a map from the record ids in use to their 64 bytes
  (\<open>cells\<close>). The invariant \<open>hint_ok\<close> says that every page below the hint is full; with it, allocation
  appends a page only when no slot of the space is free.
\<close>

section \<open>Operations\<close>

definition record_size :: "topology_kind \<Rightarrow> nat" where
  "record_size kind = (case kind of Node \<Rightarrow> NODE_RECORD_SIZE | Edge \<Rightarrow> EDGE_RECORD_SIZE)"

definition load_node_page :: "nat \<Rightarrow> (database_file, rpage) op" where
  "load_node_page logical =
     bnd (read_topology_page Node logical) (\<lambda>bytes. lift_res (page_from_bytes bytes NODE_RECORD_SIZE))"

definition load_edge_page :: "nat \<Rightarrow> (database_file, rpage) op" where
  "load_edge_page logical =
     bnd (read_topology_page Edge logical) (\<lambda>bytes. lift_res (page_from_bytes bytes EDGE_RECORD_SIZE))"

definition topo_node_page_count :: "file_header \<Rightarrow> nat" where
  "topo_node_page_count h = unat (node_page_count h)"

definition topo_edge_page_count :: "file_header \<Rightarrow> nat" where
  "topo_edge_page_count h = unat (edge_page_count h)"

definition topo_node_page :: "nat \<Rightarrow> (database_file, rpage) op" where
  "topo_node_page idx = load_node_page idx"

definition topo_edge_page :: "nat \<Rightarrow> (database_file, rpage) op" where
  "topo_edge_page idx = load_edge_page idx"

text \<open>The slots in use of one page, and the loop over the pages.\<close>

definition live_in_page :: "rpage \<Rightarrow> nat \<Rightarrow> record_id list" where
  "live_in_page page logical =
     map (\<lambda>slot_idx. rid_new (of_nat logical) (of_nat slot_idx))
       (filter (\<lambda>slot_idx. is_used page (of_nat slot_idx)) [0..<pg_slot_count page])"

fun live_rids_loop :: "(nat \<Rightarrow> (database_file, rpage) op) \<Rightarrow> nat list \<Rightarrow> (database_file, record_id list) op" where
  "live_rids_loop load [] = ret []"
| "live_rids_loop load (logical # rest) =
     bnd (load logical) (\<lambda>page.
     bnd (live_rids_loop load rest) (\<lambda>rids. ret (live_in_page page logical @ rids)))"

definition live_node_rids :: "(database_file, record_id list) op" where
  "live_node_rids = (\<lambda>file. live_rids_loop load_node_page [0..<topo_node_page_count (header file)] file)"

definition live_edge_rids :: "(database_file, record_id list) op" where
  "live_edge_rids = (\<lambda>file. live_rids_loop load_edge_page [0..<topo_edge_page_count (header file)] file)"

text \<open>\<open>.map(..).unwrap_or(false)\<close>: an error counts as \<open>false\<close>, a panic does not.\<close>

definition or_false :: "(database_file, bool) op \<Rightarrow> (database_file, bool) op" where
  "or_false m = (\<lambda>file. case m file of (Inl (Failed e), file') \<Rightarrow> (Ok False, file') | r \<Rightarrow> r)"

definition node_slot_used :: "record_id \<Rightarrow> (database_file, bool) op" where
  "node_slot_used rid =
     (\<lambda>file. let logical = unat (page_id rid) in
       (if logical \<ge> topo_node_page_count (header file) then ret False
        else or_false (bnd (load_node_page logical) (\<lambda>p. ret (is_used p (slot_id rid))))) file)"

definition edge_slot_used :: "record_id \<Rightarrow> (database_file, bool) op" where
  "edge_slot_used rid =
     (\<lambda>file. let logical = unat (page_id rid) in
       (if logical \<ge> topo_edge_page_count (header file) then ret False
        else or_false (bnd (load_edge_page logical) (\<lambda>p. ret (is_used p (slot_id rid))))) file)"

definition read_node :: "record_id \<Rightarrow> (database_file, node_record) op" where
  "read_node rid =
     (\<lambda>file. let logical = unat (page_id rid) in
       (if logical \<ge> topo_node_page_count (header file) then err (StorageCorrupted (page_id rid))
        else bnd (load_node_page logical) (\<lambda>page.
             bnd (lift_res (read_slot page (slot_id rid))) (\<lambda>bytes.
             lift_res (node_deserialize bytes)))) file)"

definition write_node :: "node_record \<Rightarrow> (database_file, unit) op" where
  "write_node node =
     (\<lambda>file. let logical = unat (page_id (n_id node)) in
       (if logical \<ge> topo_node_page_count (header file) then err (StorageCorrupted (page_id (n_id node)))
        else bnd (load_node_page logical) (\<lambda>page.
             case write_slot (slot_id (n_id node)) (node_serialize node) page of
               (Inl e, _) \<Rightarrow> fail e
             | (Inr _, page) \<Rightarrow> write_topology_page Node logical (pg_data page))) file)"

definition read_edge :: "record_id \<Rightarrow> (database_file, edge_record) op" where
  "read_edge rid =
     (\<lambda>file. let logical = unat (page_id rid) in
       (if logical \<ge> topo_edge_page_count (header file) then err (StorageCorrupted (page_id rid))
        else bnd (load_edge_page logical) (\<lambda>page.
             bnd (lift_res (read_slot page (slot_id rid))) (\<lambda>bytes.
             lift_res (edge_deserialize bytes)))) file)"

definition write_edge :: "edge_record \<Rightarrow> (database_file, unit) op" where
  "write_edge edge =
     (\<lambda>file. let logical = unat (page_id (e_id edge)) in
       (if logical \<ge> topo_edge_page_count (header file) then err (StorageCorrupted (page_id (e_id edge)))
        else bnd (load_edge_page logical) (\<lambda>page.
             case write_slot (slot_id (e_id edge)) (edge_serialize edge) page of
               (Inl e, _) \<Rightarrow> fail e
             | (Inr _, page) \<Rightarrow> write_topology_page Edge logical (pg_data page))) file)"

text \<open>The slot allocator shared by both kinds.\<close>

definition load_topology_page :: "topology_kind \<Rightarrow> nat \<Rightarrow> (database_file, rpage) op" where
  "load_topology_page kind logical = (case kind of Node \<Rightarrow> load_node_page logical | Edge \<Rightarrow> load_edge_page logical)"

definition topology_count :: "topology_kind \<Rightarrow> file_header \<Rightarrow> nat" where
  "topology_count kind h = (case kind of Node \<Rightarrow> topo_node_page_count h | Edge \<Rightarrow> topo_edge_page_count h)"

fun scan_slots :: "topology_kind \<Rightarrow> nat \<Rightarrow> nat list \<Rightarrow> (database_file, (nat \<times> u16) option) op" where
  "scan_slots kind start [] = ret None"
| "scan_slots kind start (logical # rest) =
     bnd (load_topology_page kind logical) (\<lambda>page.
       case alloc_slot page of
         (Some slot, page') \<Rightarrow>
           bnd (write_topology_page kind logical (pg_data page')) (\<lambda>_.
           bnd (if logical \<noteq> start then set_topology_first_free_hint kind logical else ret ()) (\<lambda>_.
           ret (Some (logical, slot))))
       | (None, _) \<Rightarrow> scan_slots kind start rest)"

definition fresh_slot :: "topology_kind \<Rightarrow> nat \<Rightarrow> (database_file, nat \<times> u16) op" where
  "fresh_slot kind rsize =
     bnd (lift_res (page_new rsize)) (\<lambda>page.
       case alloc_slot page of
         (None, _) \<Rightarrow> err (StorageCorrupted 0)
       | (Some slot, page') \<Rightarrow>
           bnd (alloc_topology_page kind (pg_data page')) (\<lambda>logical.
           bnd (set_topology_first_free_hint kind logical) (\<lambda>_.
           ret (logical, slot))))"

definition scan_or_fresh :: "topology_kind \<Rightarrow> nat \<Rightarrow> nat \<Rightarrow> nat \<Rightarrow> (database_file, nat \<times> u16) op" where
  "scan_or_fresh kind rsize start cnt =
     bnd (scan_slots kind start [start..<cnt]) (\<lambda>found.
       case found of Some r \<Rightarrow> ret r | None \<Rightarrow> fresh_slot kind rsize)"

definition alloc_topology_slot :: "topology_kind \<Rightarrow> nat \<Rightarrow> (database_file, nat \<times> u16) op" where
  "alloc_topology_slot kind rsize =
     (\<lambda>file. scan_or_fresh kind rsize (topology_first_free_hint kind (header file)) (topology_count kind (header file)) file)"

definition alloc_node_slot :: "(database_file, nat \<times> u16) op" where
  "alloc_node_slot = alloc_topology_slot Node NODE_RECORD_SIZE"

definition alloc_edge_slot :: "(database_file, nat \<times> u16) op" where
  "alloc_edge_slot = alloc_topology_slot Edge EDGE_RECORD_SIZE"

definition new_node :: "record_id \<Rightarrow> u16 \<Rightarrow> node_record" where
  "new_node rid t = \<lparr>n_id = rid, node_type_id = t, first_out_edge = None, first_in_edge = None,
     n_property_ref = None, n_label_ref = None, n_flags = 0\<rparr>"

definition alloc_node :: "u16 \<Rightarrow> (database_file, record_id) op" where
  "alloc_node t =
     bnd alloc_node_slot (\<lambda>(logical, slot).
     let rid = rid_new (of_nat logical) slot in
     bnd (write_node (new_node rid t)) (\<lambda>_. ret rid))"

definition new_edge :: "record_id \<Rightarrow> u16 \<Rightarrow> record_id \<Rightarrow> record_id \<Rightarrow> edge_record" where
  "new_edge rid t from to = \<lparr>e_id = rid, edge_type_id = t, from_node = from, to_node = to,
     next_out_edge = None, next_in_edge = None, e_property_ref = None, e_flags = 0, e_label_ref = None\<rparr>"

definition alloc_edge :: "u16 \<Rightarrow> record_id \<Rightarrow> record_id \<Rightarrow> (database_file, record_id) op" where
  "alloc_edge t from to =
     bnd alloc_edge_slot (\<lambda>(logical, slot).
     let rid = rid_new (of_nat logical) slot in
     bnd (write_edge (new_edge rid t from to)) (\<lambda>_. ret rid))"

definition back_off_topology_hint :: "topology_kind \<Rightarrow> nat \<Rightarrow> (database_file, unit) op" where
  "back_off_topology_hint kind logical =
     (\<lambda>file. (if logical < topology_first_free_hint kind (header file)
              then set_topology_first_free_hint kind logical else ret ()) file)"

definition free_node :: "record_id \<Rightarrow> (database_file, unit) op" where
  "free_node rid =
     (let logical = unat (page_id rid) in
      bnd (load_node_page logical) (\<lambda>page.
        case free_slot (slot_id rid) page of
          (Inl e, _) \<Rightarrow> fail e
        | (Inr _, page) \<Rightarrow>
            bnd (write_topology_page Node logical (pg_data page)) (\<lambda>_.
            back_off_topology_hint Node logical)))"

text \<open>The last part of \<open>delete_edge\<close>, which frees the slot of the edge.\<close>

definition free_edge_slot :: "record_id \<Rightarrow> (database_file, unit) op" where
  "free_edge_slot rid =
     (let logical = unat (page_id rid) in
      bnd (load_edge_page logical) (\<lambda>page.
        case free_slot (slot_id rid) page of
          (Inl e, _) \<Rightarrow> fail e
        | (Inr _, page) \<Rightarrow>
            bnd (write_topology_page Edge logical (pg_data page)) (\<lambda>_.
            back_off_topology_hint Edge logical)))"

section \<open>Pages of records\<close>

definition page_of :: "bytes \<Rightarrow> rpage" where
  "page_of bs = \<lparr>pg_data = bs, pg_slot_size = 64, pg_slot_count = 63\<rparr>"

lemma page_of_sel [simp]: "pg_data (page_of bs) = bs" "pg_slot_size (page_of bs) = 64" "pg_slot_count (page_of bs) = 63"
  by (simp_all add: page_of_def)

lemma page_of_ok: "length bs = PAGE_SIZE \<Longrightarrow> page_ok (page_of bs)"
  by (simp add: page_ok_def compute_slot_count_64)

lemma page_of_data: "pg_slot_size p = 64 \<Longrightarrow> pg_slot_count p = 63 \<Longrightarrow> page_of (pg_data p) = p"
  by (cases p) (simp add: page_of_def)

lemma page_from_bytes_64: "page_from_bytes bs 64 = Ok (page_of bs)"
  by (simp add: page_from_bytes_def page_of_def compute_slot_count_64)

interpretation topo_pages: logical_pages "\<lambda>S. sp_pages S (space_of kind)" "sp_set (space_of kind)"
  "read_topology_page kind" "write_topology_page kind" for kind
  by unfold_locales (simp_all add: space_ops read_in_does read_in_beyond write_in_does)

lemma load_topology_page_eq:
  "load_topology_page kind l = bnd (read_topology_page kind l) (\<lambda>bs. ret (page_of bs))"
  by (cases kind) (simp_all add: load_topology_page_def load_node_page_def load_edge_page_def NODE_RECORD_SIZE_def
      EDGE_RECORD_SIZE_def page_from_bytes_64 lift_res_def ret_def)

lemma load_then:
  assumes "l < length (sp_pages S (space_of kind))" "space_does (k (page_of (sp_pages S (space_of kind) ! l))) S r S'"
  shows "space_does (bnd (load_topology_page kind l) k) S r S'"
  unfolding load_topology_page_eq bnd_assoc bnd_ret
  by (rule topo_pages.read_then [OF assms(1)]) (rule assms(2))

lemma load_kinds:
  "load_node_page = load_topology_page Node" "load_edge_page = load_topology_page Edge"
  by (simp_all add: load_topology_page_def fun_eq_iff)

lemma topology_count_wf: "sp_wf S \<Longrightarrow> topology_count kind (sp_hdr S) = length (sp_pages S (space_of kind))"
  by (cases kind; simp add: sp_wf_def topology_count_def topo_node_page_count_def topo_edge_page_count_def space_of_def
      space_len_def) (auto dest: spec [of _ NodeS] spec [of _ EdgeS])

lemma topology_count_hide [simp]: "topology_count kind (hide_roots h) = topology_count kind h"
  by (cases kind; simp add: topology_count_def topo_node_page_count_def topo_edge_page_count_def hide_roots_def)

lemma topology_hint_hide [simp]: "topology_first_free_hint kind (hide_roots h) = topology_first_free_hint kind h"
  by (cases kind; simp add: topology_first_free_hint_def hide_roots_def)

section \<open>The records in use\<close>

definition page_cell :: "rpage \<Rightarrow> u16 \<Rightarrow> bytes option" where
  "page_cell p s = (if unat s \<in> used_slots p then Some (slot_bytes p (unat s)) else None)"

definition pages_cells :: "bytes list \<Rightarrow> record_id \<Rightarrow> bytes option" where
  "pages_cells ps rid =
     (let l = unat (page_id rid) in if l < length ps then page_cell (page_of (ps ! l)) (slot_id rid) else None)"

definition cells :: "spaces \<Rightarrow> topology_kind \<Rightarrow> record_id \<Rightarrow> bytes option" where
  "cells S kind = pages_cells (sp_pages S (space_of kind))"

definition full_page :: "rpage \<Rightarrow> bool" where
  "full_page p \<longleftrightarrow> used_slots p = {..<pg_slot_count p}"

definition hint_ok :: "spaces \<Rightarrow> topology_kind \<Rightarrow> bool" where
  "hint_ok S kind \<longleftrightarrow> (\<forall>l < topology_first_free_hint kind (sp_hdr S). l < length (sp_pages S (space_of kind)) \<longrightarrow>
     full_page (page_of (sp_pages S (space_of kind) ! l)))"

text \<open>What an operation on one kind leaves alone.\<close>

definition topo_frame :: "topology_kind \<Rightarrow> spaces \<Rightarrow> spaces \<Rightarrow> bool" where
  "topo_frame kind S S' \<longleftrightarrow>
     (\<forall>k. k \<noteq> space_of kind \<longrightarrow> sp_pages S' k = sp_pages S k) \<and> sp_room S - 2 \<le> sp_room S' \<and>
     length (sp_pages S (space_of kind)) \<le> length (sp_pages S' (space_of kind)) \<and>
     property_free_list_head (sp_hdr S') = property_free_list_head (sp_hdr S) \<and> same_rest S S' \<and>
     (\<forall>kind'. kind' \<noteq> kind \<longrightarrow> topology_first_free_hint kind' (sp_hdr S') = topology_first_free_hint kind' (sp_hdr S))"

lemma topo_frame_refl [simp]: "topo_frame kind S S"
  by (simp add: topo_frame_def)

lemma topo_frame_set [simp]: "topo_frame kind S (sp_set (space_of kind) l d S)"
  by (simp add: topo_frame_def)

lemma space_of_inj [simp]: "space_of k = space_of k' \<longleftrightarrow> k = k'" "space_of k \<noteq> PropertyS" "PropertyS \<noteq> space_of k"
  by (cases k; cases k'; simp add: space_of_def)+

lemma topo_frame_cells:
  assumes "topo_frame kind S S'" "kind' \<noteq> kind"
  shows "cells S' kind' = cells S kind'" "hint_ok S' kind' = hint_ok S kind'"
  using assms by (simp_all add: topo_frame_def cells_def hint_ok_def)

definition sp_thint :: "topology_kind \<Rightarrow> nat \<Rightarrow> spaces \<Rightarrow> spaces" where
  "sp_thint kind n S = S\<lparr>sp_hdr := (case kind of
     Node \<Rightarrow> (sp_hdr S)\<lparr>node_first_free_page := of_nat n\<rparr> | Edge \<Rightarrow> (sp_hdr S)\<lparr>edge_first_free_page := of_nat n\<rparr>)\<rparr>"

lemma sp_thint_simps [simp]:
  "sp_pages (sp_thint kind n S) = sp_pages S" "sp_room (sp_thint kind n S) = sp_room S"
  "cells (sp_thint kind n S) = cells S"
  by (simp_all add: sp_thint_def cells_def fun_eq_iff)

lemma sp_thint_rest [simp]: "same_rest S (sp_thint kind n S') = same_rest S S'"
  by (cases kind; simp add: sp_thint_def same_rest_def)

lemma sp_thint_hint:
  assumes "sp_wf S" "n \<le> length (sp_pages S (space_of kind))"
  shows "topology_first_free_hint kind (sp_hdr (sp_thint kind n S)) = n"
proof -
  have len: "unat (space_len k (sp_hdr S)) = length (sp_pages S k)" "length (sp_pages S k) < 2 ^ 32" for k
    using assms(1) sp_wfD(3) by (auto simp: sp_wf_def)
  have n: "unat (of_nat n :: u32) = n" using assms(2) len(2) [of "space_of kind"] by (intro unat_of_nat_small) simp
  show ?thesis
    using n assms(2) len(1) [of "space_of kind"]
    by (cases kind) (auto simp: topology_first_free_hint_def sp_thint_def space_of_def space_len_def min_def word_le_nat_alt)
qed

lemma set_thint_does: "space_does (set_topology_first_free_hint kind n) S (Ok ()) (sp_thint kind n S)"
  using set_hint_does(3,4) [of n S] by (cases kind; simp add: sp_thint_def)

lemma sp_thint_frame: "topo_frame kind S S' \<Longrightarrow> topo_frame kind S (sp_thint kind n S')"
  by (cases kind; simp add: topo_frame_def sp_thint_def topology_first_free_hint_def same_rest_def)
    (auto split: topology_kind.splits)

lemma sp_wf_thint [simp]: "sp_wf (sp_thint kind n S) = sp_wf S"
  by (cases kind; simp add: sp_wf_def sp_thint_def space_len_def split: space.splits)

lemma sp_wf_set: "sp_wf S \<Longrightarrow> length d = PAGE_SIZE \<Longrightarrow> sp_wf (sp_set k l d S)"
  by (auto simp: sp_wf_def dest!: set_update_subset_insert [THEN subsetD])

lemma hint_set [simp]: "topology_first_free_hint kind (sp_hdr (sp_set k l d S)) = topology_first_free_hint kind (sp_hdr S)"
  by simp

text \<open>A page of the kind is replaced.\<close>

lemma cells_set:
  assumes "l < length (sp_pages S (space_of kind))"
  shows "cells (sp_set (space_of kind) l d S) kind rid =
    (if unat (page_id rid) = l then page_cell (page_of d) (slot_id rid) else cells S kind rid)"
  using assms by (simp add: cells_def pages_cells_def Let_def)

lemma cells_at: "l < length (sp_pages S (space_of kind)) \<Longrightarrow> l < 2 ^ 32 \<Longrightarrow>
    cells S kind (rid_new (of_nat l) s) = page_cell (page_of (sp_pages S (space_of kind) ! l)) s"
  by (simp add: cells_def pages_cells_def unat_of_nat_small)

lemma cells_set_upd:
  assumes "l < length (sp_pages S (space_of kind))" "l < 2 ^ 32"
    and "page_cell (page_of d) = (page_cell (page_of (sp_pages S (space_of kind) ! l)))(s := w)"
  shows "cells (sp_set (space_of kind) l d S) kind = (cells S kind)(rid_new (of_nat l) s := w)"
proof (rule ext)
  fix rid :: record_id
  have "unat (page_id rid) = l \<longleftrightarrow> page_id rid = of_nat l"
    using unat_of_nat_small [OF assms(2)] by (auto simp: word_unat_eq_iff)
  then show "cells (sp_set (space_of kind) l d S) kind rid = ((cells S kind)(rid_new (of_nat l) s := w)) rid"
    using assms(1) unfolding cells_set [OF assms(1)] assms(3)
    by (cases "rid_new (of_nat l) s = rid") (auto simp: cells_def pages_cells_def Let_def)
qed

text \<open>The page operations on the slots in use.\<close>

lemma page_alloc_cell:
  assumes "page_ok p" "alloc_slot p = (Some s, p')"
  shows "page_cell p s = None" "page_cell p' = (page_cell p)(s \<mapsto> slot_bytes p (unat s))" "page_ok p'"
    "pg_slot_size p' = pg_slot_size p" "pg_slot_count p' = pg_slot_count p" "unat s < pg_slot_count p"
    "length (slot_bytes p (unat s)) = pg_slot_size p"
proof -
  note a = pg.alloc_slot [OF assms]
  show "page_cell p s = None" "page_ok p'" "pg_slot_size p' = pg_slot_size p" "pg_slot_count p' = pg_slot_count p"
      "unat s < pg_slot_count p"
    using a by (simp_all add: page_cell_def)
  show "page_cell p' = (page_cell p)(s \<mapsto> slot_bytes p (unat s))"
    using a pg.used_cap [OF assms(1)] by (auto simp: page_cell_def fun_eq_iff word_unat_eq_iff)
  show "length (slot_bytes p (unat s)) = pg_slot_size p"
    using slot_offset_bound [OF assms(1), of "unat s"] page_okD(1) [OF assms(1)] a by (simp add: slot_bytes_def)
qed

lemma page_free_cell:
  assumes "page_ok p" "unat s < pg_slot_count p"
  obtains p' where "free_slot s p = (Inr (), p')" "page_cell p' = (page_cell p)(s := None)" "page_ok p'"
    "pg_slot_size p' = pg_slot_size p" "pg_slot_count p' = pg_slot_count p"
proof -
  obtain p' where p': "free_slot s p = (Inr (), p')" "page_ok p'" "pg_slot_count p' = pg_slot_count p"
      "pg_slot_size p' = pg_slot_size p" "used_slots p' = used_slots p - {unat s}"
      "\<forall>j<pg_slot_count p. slot_bytes p' j = slot_bytes p j"
    using pg.release_slot [OF assms] by blast
  have "page_cell p' t = ((page_cell p)(s := None)) t" for t
    using p'(5,6) pg.used_cap [OF assms(1)] by (auto simp: page_cell_def word_unat_eq_iff)
  then show thesis using that [of p'] p' by blast
qed

lemma page_write_cell:
  assumes "page_ok p" "unat s \<in> used_slots p" "length d = pg_slot_size p"
  obtains p' where "write_slot s d p = (Inr (), p')" "page_cell p' = (page_cell p)(s \<mapsto> d)" "page_ok p'"
    "pg_slot_size p' = pg_slot_size p" "pg_slot_count p' = pg_slot_count p" "used_slots p' = used_slots p"
proof -
  have s: "unat s < pg_slot_count p" using pg.used_cap [OF assms(1)] assms(2) by auto
  obtain p' where p': "write_slot s d p = (Inr (), p')" "page_ok p'" "pg_slot_count p' = pg_slot_count p"
      "pg_slot_size p' = pg_slot_size p" "used_slots p' = used_slots p"
      "\<forall>j<pg_slot_count p. slot_bytes p' j = (if j = unat s then d else slot_bytes p j)"
    using pg.write_slot [OF assms(1) s assms(3)] by blast
  have "page_cell p' t = ((page_cell p)(s \<mapsto> d)) t" for t
    using p'(5,6) pg.used_cap [OF assms(1)] assms(2) by (auto simp: page_cell_def word_unat_eq_iff)
  then show thesis using that [of p'] p' by blast
qed

section \<open>Reading and writing a record\<close>

lemma cells_usedD:
  assumes "cells S kind rid = Some b"
  shows "unat (page_id rid) < length (sp_pages S (space_of kind))"
    "unat (slot_id rid) \<in> used_slots (page_of (sp_pages S (space_of kind) ! unat (page_id rid)))"
    "b = slot_bytes (page_of (sp_pages S (space_of kind) ! unat (page_id rid))) (unat (slot_id rid))"
  using assms by (auto simp: cells_def pages_cells_def page_cell_def Let_def split: if_splits)

definition read_record :: "topology_kind \<Rightarrow> record_id \<Rightarrow> (database_file, bytes) op" where
  "read_record kind rid =
     (\<lambda>file. let logical = unat (page_id rid) in
       (if logical \<ge> topology_count kind (header file) then err (StorageCorrupted (page_id rid))
        else bnd (load_topology_page kind logical) (\<lambda>page. lift_res (read_slot page (slot_id rid)))) file)"

definition write_record :: "topology_kind \<Rightarrow> record_id \<Rightarrow> bytes \<Rightarrow> (database_file, unit) op" where
  "write_record kind rid d =
     (\<lambda>file. let logical = unat (page_id rid) in
       (if logical \<ge> topology_count kind (header file) then err (StorageCorrupted (page_id rid))
        else bnd (load_topology_page kind logical) (\<lambda>page.
             case write_slot (slot_id rid) d page of
               (Inl e, _) \<Rightarrow> fail e
             | (Inr _, page) \<Rightarrow> write_topology_page kind logical (pg_data page))) file)"

lemma bnd_if_err: "bnd (if b then err e else m) k = (if b then err e else bnd m k)"
  by simp

lemma op_eta: "(\<lambda>file. m file) = m"
  by simp

lemma read_node_record: "read_node rid = bnd (read_record Node rid) (\<lambda>bs. lift_res (node_deserialize bs))"
  by (rule ext) (simp add: read_node_def read_record_def bnd_def topology_count_def load_kinds Let_def split: prod.splits sum.splits)

lemma read_edge_record: "read_edge rid = bnd (read_record Edge rid) (\<lambda>bs. lift_res (edge_deserialize bs))"
  by (rule ext) (simp add: read_edge_def read_record_def bnd_def topology_count_def load_kinds Let_def split: prod.splits sum.splits)

lemma write_node_record: "write_node n = write_record Node (n_id n) (node_serialize n)"
  by (simp add: write_node_def write_record_def topology_count_def load_kinds cong: if_cong)

lemma write_edge_record: "write_edge e = write_record Edge (e_id e) (edge_serialize e)"
  by (simp add: write_edge_def write_record_def topology_count_def load_kinds cong: if_cong)

lemma read_record_does:
  assumes wf: "sp_wf S" and b: "cells S kind rid = Some b"
  shows "space_does (read_record kind rid) S (Ok b) S"
proof -
  note d = cells_usedD [OF b]
  let ?p = "page_of (sp_pages S (space_of kind) ! unat (page_id rid))"
  have ok: "page_ok ?p" using sp_wfD(2) [OF wf d(1)] by (rule page_of_ok)
  have "read_slot ?p (slot_id rid) = Ok b" using pg.read_slot [OF ok] pg.used_cap [OF ok] d(2,3) by auto
  then have "space_does (bnd (load_topology_page kind (unat (page_id rid))) (\<lambda>page. lift_res (read_slot page (slot_id rid)))) S (Ok b) S"
    by (intro load_then [OF d(1)]) (simp add: lift_res_def)
  then show ?thesis
    unfolding read_record_def Let_def
    by (intro space_does_header [where k = "\<lambda>h. if topology_count kind h \<le> unat (page_id rid) then err (StorageCorrupted (page_id rid))
        else bnd (load_topology_page kind (unat (page_id rid))) (\<lambda>page. lift_res (read_slot page (slot_id rid)))"])
      (use d(1) in \<open>simp_all add: topology_count_wf [OF wf]\<close>)
qed

lemma read_record_error:
  assumes wf: "sp_wf S" and out: "length (sp_pages S (space_of kind)) \<le> unat (page_id rid) \<or> 63 \<le> unat (slot_id rid)"
  shows "\<exists>e. space_does (read_record kind rid) S (Err (StorageCorrupted e)) S"
proof -
  let ?k = "\<lambda>h. if topology_count kind h \<le> unat (page_id rid) then err (StorageCorrupted (page_id rid))
        else bnd (load_topology_page kind (unat (page_id rid))) (\<lambda>page. lift_res (read_slot page (slot_id rid)))"
  have "\<exists>e. space_does (?k (sp_hdr S)) S (Err (StorageCorrupted e)) S"
  proof (cases "length (sp_pages S (space_of kind)) \<le> unat (page_id rid)")
    case True
    then show ?thesis by (intro exI [of _ "page_id rid"]) (simp add: topology_count_wf [OF wf])
  next
    case False
    then have l: "unat (page_id rid) < length (sp_pages S (space_of kind))" by simp
    have "read_slot (page_of (sp_pages S (space_of kind) ! unat (page_id rid))) (slot_id rid) = Err (StorageCorrupted 0)"
      using False out by (simp add: read_slot_def)
    then show ?thesis
      using False by (intro exI [of _ 0]) (simp add: topology_count_wf [OF wf] load_then [OF l] lift_res_def)
  qed
  then obtain e where e: "space_does (?k (sp_hdr S)) S (Err (StorageCorrupted e)) S" by blast
  have "space_does (read_record kind rid) S (Err (StorageCorrupted e)) S"
    unfolding read_record_def Let_def by (rule space_does_header [where k = ?k]) (simp_all add: e)
  then show ?thesis by blast
qed

text \<open>Writing a record in use replaces its bytes.\<close>

definition topo_update :: "topology_kind \<Rightarrow> spaces \<Rightarrow> spaces \<Rightarrow> bool" where
  "topo_update kind S S' \<longleftrightarrow> topo_frame kind S S' \<and> (hint_ok S kind \<longrightarrow> hint_ok S' kind) \<and> sp_room S' = sp_room S \<and>
     length (sp_pages S' (space_of kind)) = length (sp_pages S (space_of kind))"

definition cell_result :: "topology_kind \<Rightarrow> record_id \<Rightarrow> bytes option \<Rightarrow> spaces \<Rightarrow> spaces \<Rightarrow> bool" where
  "cell_result kind rid w S S' \<longleftrightarrow> cells S' kind = (cells S kind)(rid := w) \<and> topo_update kind S S'"

lemma write_record_does:
  assumes wf: "sp_wf S" and b: "cells S kind rid = Some b" and d: "length d = 64"
  shows "\<exists>S'. space_does (write_record kind rid d) S (Ok ()) S' \<and> cell_result kind rid (Some d) S S'"
proof -
  note u = cells_usedD [OF b]
  let ?l = "unat (page_id rid)"
  let ?p = "page_of (sp_pages S (space_of kind) ! ?l)"
  have ok: "page_ok ?p" using sp_wfD(2) [OF wf u(1)] by (rule page_of_ok)
  obtain p' where p': "write_slot (slot_id rid) d ?p = (Inr (), p')" "page_cell p' = (page_cell ?p)(slot_id rid \<mapsto> d)" "page_ok p'"
      "pg_slot_size p' = 64" "pg_slot_count p' = 63" "used_slots p' = used_slots ?p"
    using page_write_cell [OF ok u(2), of d] d by auto
  have data: "page_of (pg_data p') = p'" using p'(4,5) by (rule page_of_data)
  have len: "length (pg_data p') = PAGE_SIZE" using page_okD(1) [OF p'(3)] .
  let ?S' = "sp_set (space_of kind) ?l (pg_data p') S"
  have small: "?l < 2 ^ 32" using sp_wfD(3) [OF wf, of "space_of kind"] u(1) by simp
  have rid: "rid_new (of_nat ?l) (slot_id rid) = rid" by simp
  have "cells ?S' kind = (cells S kind)(rid_new (of_nat ?l) (slot_id rid) := Some d)"
    by (rule cells_set_upd [OF u(1) small]) (simp add: data p'(2))
  then have "cells ?S' kind = (cells S kind)(rid \<mapsto> d)" unfolding rid .
  moreover have "hint_ok ?S' kind" if "hint_ok S kind"
    using that u(1) p'(6) by (auto simp: hint_ok_def nth_list_update full_page_def data p'(5))
  ultimately have res: "cell_result kind rid (Some d) S ?S'" by (simp add: cell_result_def topo_update_def)
  let ?k = "\<lambda>h. if topology_count kind h \<le> ?l then err (StorageCorrupted (page_id rid))
        else bnd (load_topology_page kind ?l) (\<lambda>page. case write_slot (slot_id rid) d page of
               (Inl e, _) \<Rightarrow> fail e | (Inr _, page) \<Rightarrow> write_topology_page kind ?l (pg_data page))"
  have "space_does (?k (sp_hdr S)) S (Ok ()) ?S'"
    using u(1) by (simp add: topology_count_wf [OF wf] load_then [OF u(1)] p'(1) topo_pages.store_law [OF u(1) len])
  then have "space_does (write_record kind rid d) S (Ok ()) ?S'"
    unfolding write_record_def Let_def by (intro space_does_header [where k = ?k]) simp_all
  then show ?thesis using res by blast
qed

section \<open>Allocating and freeing a slot\<close>

text \<open>States that some database file represents.\<close>

definition live :: "spaces \<Rightarrow> bool" where
  "live S \<longleftrightarrow> (\<exists>db. space_rep db S)"

lemma live_wf: "live S \<Longrightarrow> sp_wf S"
  using space_rep_wf by (auto simp: live_def)

lemma live_does: "space_does m S r S' \<Longrightarrow> live S \<Longrightarrow> live S'"
  unfolding live_def does_def by blast

definition slot_found :: "topology_kind \<Rightarrow> nat \<Rightarrow> nat list \<Rightarrow> spaces \<Rightarrow> (nat \<times> u16) option \<Rightarrow> spaces \<Rightarrow> bool" where
  "slot_found kind start ls S found S' \<longleftrightarrow>
     (case found of
        None \<Rightarrow> S' = S \<and> (\<forall>l\<in>set ls. full_page (page_of (sp_pages S (space_of kind) ! l)))
      | Some (l, s) \<Rightarrow> \<exists>i p'. i < length ls \<and> ls ! i = l \<and>
          (\<forall>j<i. full_page (page_of (sp_pages S (space_of kind) ! (ls ! j)))) \<and>
          alloc_slot (page_of (sp_pages S (space_of kind) ! l)) = (Some s, p') \<and>
          S' = (if l \<noteq> start then sp_thint kind l else id) (sp_set (space_of kind) l (pg_data p') S))"

lemma slot_found_Cons:
  assumes "full_page (page_of (sp_pages S (space_of kind) ! l))" "slot_found kind start ls S found S'"
  shows "slot_found kind start (l # ls) S found S'"
proof (cases found)
  case None
  then show ?thesis using assms by (simp add: slot_found_def)
next
  case (Some r)
  obtain k s where r: "r = (k, s)" by (cases r)
  then obtain i p' where i: "i < length ls" "ls ! i = k" "\<forall>j<i. full_page (page_of (sp_pages S (space_of kind) ! (ls ! j)))"
      "alloc_slot (page_of (sp_pages S (space_of kind) ! k)) = (Some s, p')"
      "S' = (if k \<noteq> start then sp_thint kind k else id) (sp_set (space_of kind) k (pg_data p') S)"
    using assms(2) Some by (auto simp: slot_found_def)
  have "\<forall>j<Suc i. full_page (page_of (sp_pages S (space_of kind) ! ((l # ls) ! j)))"
    using assms(1) i(3) by (auto simp: less_Suc_eq_0_disj)
  then show ?thesis
    using i unfolding slot_found_def Some r option.case prod.case
    by (intro exI [of _ "Suc i"] exI [of _ p']) simp
qed

lemma scan_slots_does:
  assumes wf: "sp_wf S" and "\<forall>l\<in>set ls. l < length (sp_pages S (space_of kind))"
  shows "\<exists>found S'. space_does (scan_slots kind start ls) S (Ok found) S' \<and> slot_found kind start ls S found S'"
  using assms(2)
proof (induction ls)
  case Nil
  show ?case by (intro exI [of _ None] exI [of _ S]) (simp add: slot_found_def)
next
  case (Cons l ls)
  let ?p = "page_of (sp_pages S (space_of kind) ! l)"
  have l: "l < length (sp_pages S (space_of kind))" using Cons.prems by simp
  have ok: "page_ok ?p" using sp_wfD(2) [OF wf l] by (rule page_of_ok)
  show ?case
  proof (cases "alloc_slot ?p")
    case (Pair so p')
    show ?thesis
    proof (cases so)
      case None
      then have full: "full_page ?p" using alloc_slot_None [OF ok] Pair by (auto simp: full_page_def)
      obtain found S' where "space_does (scan_slots kind start ls) S (Ok found) S'" "slot_found kind start ls S found S'"
        using Cons by auto
      then have "slot_found kind start (l # ls) S found S'"
        using full by (intro slot_found_Cons)
      moreover have "space_does (scan_slots kind start (l # ls)) S (Ok found) S'"
        unfolding scan_slots.simps
        by (rule load_then [OF l]) (simp add: Pair None \<open>space_does (scan_slots kind start ls) S (Ok found) S'\<close>)
      ultimately show ?thesis by blast
    next
      case (Some s)
      have a: "alloc_slot ?p = (Some s, p')" using Pair Some by simp
      have len: "length (pg_data p') = PAGE_SIZE" using page_okD(1) [OF page_alloc_cell(3) [OF ok a]] .
      let ?S1 = "sp_set (space_of kind) l (pg_data p') S"
      let ?S' = "(if l \<noteq> start then sp_thint kind l else id) ?S1"
      have hint: "space_does (bnd (if l \<noteq> start then set_topology_first_free_hint kind l else ret ()) (\<lambda>_. ret (Some (l, s))))
          ?S1 (Ok (Some (l, s))) ?S'"
        by (rule space_does_bnd [of _ _ "()" ?S']) (auto intro: set_thint_does)
      have "space_does (scan_slots kind start (l # ls)) S (Ok (Some (l, s))) ?S'"
        unfolding scan_slots.simps
        by (rule load_then [OF l]) (simp add: a topo_pages.store_then [OF l len hint])
      moreover have "slot_found kind start (l # ls) S (Some (l, s)) ?S'"
        using a by (auto simp: slot_found_def intro!: exI [of _ "0 :: nat"])
      ultimately show ?thesis by blast
    qed
  qed
qed

text \<open>What allocating a slot does.\<close>

definition slot_result :: "topology_kind \<Rightarrow> spaces \<Rightarrow> nat \<times> u16 \<Rightarrow> spaces \<Rightarrow> bool" where
  "slot_result kind S r S' \<longleftrightarrow>
     (case r of (l, s) \<Rightarrow>
       cells S kind (rid_new (of_nat l) s) = None \<and>
       (\<exists>b. length b = 64 \<and> cells S' kind = (cells S kind)(rid_new (of_nat l) s \<mapsto> b)) \<and> topo_frame kind S S' \<and>
       (hint_ok S kind \<longrightarrow> hint_ok S' kind) \<and>
       (hint_ok S kind \<longrightarrow> length (sp_pages S' (space_of kind)) \<noteq> length (sp_pages S (space_of kind)) \<longrightarrow>
          (\<forall>l < length (sp_pages S (space_of kind)). full_page (page_of (sp_pages S (space_of kind) ! l)))))"

lemma slot_found_result:
  assumes lv: "live S" and f: "slot_found kind start [start..<length (sp_pages S (space_of kind))] S (Some (l, s)) S'"
    and start: "start = topology_first_free_hint kind (sp_hdr S)"
  shows "slot_result kind S (l, s) S'"
proof -
  have wf: "sp_wf S" using lv by (rule live_wf)
  let ?P = "sp_pages S (space_of kind)"
  obtain i p' where p': "i < length [start..<length ?P]" "[start..<length ?P] ! i = l"
      "\<forall>j<i. full_page (page_of (?P ! ([start..<length ?P] ! j)))" "alloc_slot (page_of (?P ! l)) = (Some s, p')"
      "S' = (if l \<noteq> start then sp_thint kind l else id) (sp_set (space_of kind) l (pg_data p') S)"
    using f by (auto simp: slot_found_def)
  have l: "start \<le> l" "l < length ?P" and i: "l = start + i" using p'(1,2) by auto
  have scanned: "full_page (page_of (?P ! k))" if "start \<le> k" "k < l" for k
    using p'(3) [rule_format, of "k - start"] p'(1) that by (simp add: i)
  have ok: "page_ok (page_of (?P ! l))" using sp_wfD(2) [OF wf l(2)] by (rule page_of_ok)
  note a = page_alloc_cell [OF ok p'(4)]
  have data: "page_of (pg_data p') = p'" using a(4,5) by (intro page_of_data) simp_all
  have small: "l < 2 ^ 32" using sp_wfD(3) [OF wf, of "space_of kind"] l(2) by simp
  let ?b = "slot_bytes (page_of (?P ! l)) (unat s)"
  let ?S1 = "sp_set (space_of kind) l (pg_data p') S"
  have len: "length (pg_data p') = PAGE_SIZE" using page_okD(1) [OF a(3)] .
  have "cells ?S1 kind = (cells S kind)(rid_new (of_nat l) s \<mapsto> ?b)"
    by (rule cells_set_upd [OF l(2) small]) (simp add: data a(2))
  moreover have "cells S' kind = cells ?S1 kind" by (simp add: p'(5))
  moreover have "topo_frame kind S S'" by (simp add: p'(5) sp_thint_frame)
  moreover have "cells S kind (rid_new (of_nat l) s) = None" using cells_at [OF l(2) small] a(1) by simp
  moreover have "hint_ok S' kind" if h: "hint_ok S kind"
  proof -
    have full: "full_page (page_of (?P ! i))" if "i < l" for i
      using that h l(2) scanned [of i] unfolding start hint_ok_def
      by (cases "i < topology_first_free_hint kind (sp_hdr S)") auto
    have "topology_first_free_hint kind (sp_hdr S') \<le> l"
      using l(1,2) sp_thint_hint [of ?S1 l kind] sp_wf_set [OF wf len] by (auto simp: p'(5) start)
    then show ?thesis using full by (auto simp: hint_ok_def p'(5) nth_list_update)
  qed
  ultimately show ?thesis using a(7) by (auto simp: slot_result_def p'(5))
qed

lemma alloc_topology_does:
  assumes "2 \<le> sp_room S" "length d = PAGE_SIZE"
  shows "space_does (alloc_topology_page kind d) S (Ok (length (sp_pages S (space_of kind)))) (sp_add (space_of kind) d S)"
  using alloc_in_does [OF assms, of "space_of kind"] unfolding space_ops .

lemma sp_add_frame: "topo_frame kind S (sp_add (space_of kind) d S)"
  by (cases kind; simp add: topo_frame_def set_space_len_def space_of_def topology_first_free_hint_def split: topology_kind.splits)

lemma cells_add:
  "cells (sp_add (space_of kind) d S) kind rid =
    (if unat (page_id rid) = length (sp_pages S (space_of kind)) then page_cell (page_of d) (slot_id rid) else cells S kind rid)"
  by (simp add: cells_def pages_cells_def Let_def nth_append)

lemma fresh_slot_does:
  assumes lv: "live S" and room: "2 \<le> sp_room S"
    and full: "hint_ok S kind \<longrightarrow> (\<forall>l < length (sp_pages S (space_of kind)). full_page (page_of (sp_pages S (space_of kind) ! l)))"
  shows "\<exists>r S'. space_does (fresh_slot kind 64) S (Ok r) S' \<and> slot_result kind S r S'"
proof -
  let ?n = "length (sp_pages S (space_of kind))"
  obtain so p' where ap: "alloc_slot blank_page = (so, p')" by (cases "alloc_slot blank_page")
  have "so \<noteq> None"
  proof
    assume "so = None"
    then have "used_slots blank_page = {..<pg_slot_count blank_page}"
      using alloc_slot_None [OF blank_page_ok] ap by auto
    then show False unfolding blank_page_unused
      by (simp add: blank_page_def) (metis empty_iff lessThan_iff zero_less_numeral)
  qed
  then obtain s where a: "alloc_slot blank_page = (Some s, p')" using ap by auto
  note c = page_alloc_cell [OF blank_page_ok a]
  have data: "page_of (pg_data p') = p'" using c(4,5) by (intro page_of_data) (simp_all add: blank_page_def)
  have len: "length (pg_data p') = PAGE_SIZE" using page_okD(1) [OF c(3)] .
  have blank: "page_cell blank_page t = None" for t by (simp add: page_cell_def blank_page_unused)
  let ?S1 = "sp_add (space_of kind) (pg_data p') S"
  have alloc: "space_does (alloc_topology_page kind (pg_data p')) S (Ok ?n) ?S1" by (rule alloc_topology_does [OF room len])
  have lv1: "live ?S1" using live_does [OF alloc lv] .
  have wf: "sp_wf S" "sp_wf ?S1" using live_wf lv lv1 by auto
  have small: "?n < 2 ^ 32" using sp_wfD(3) [OF wf(1)] .
  let ?S' = "sp_thint kind ?n ?S1"
  have run: "space_does (fresh_slot kind 64) S (Ok (?n, s)) ?S'"
    unfolding fresh_slot_def blank_page_new bnd_lift_Ok a prod.case option.case
    by (rule space_does_bnd [OF alloc], rule space_does_bnd [OF set_thint_does]) simp
  have out: "cells S kind rid = None" if "unat (page_id rid) = ?n" for rid
    using that by (simp add: cells_def pages_cells_def)
  have cells: "cells ?S' kind = (cells S kind)(rid_new (of_nat ?n) s \<mapsto> slot_bytes blank_page (unat s))"
  proof (rule ext)
    fix rid :: record_id
    have "unat (page_id rid) = ?n \<longleftrightarrow> page_id rid = of_nat ?n"
      using unat_of_nat_small [OF small] by (auto simp: word_unat_eq_iff)
    then show "cells ?S' kind rid = ((cells S kind)(rid_new (of_nat ?n) s \<mapsto> slot_bytes blank_page (unat s))) rid"
      using out [of rid] by (cases "rid_new (of_nat ?n) s = rid") (auto simp: cells_add data c(2) blank)
  qed
  have "hint_ok ?S' kind" if "hint_ok S kind"
    using that full sp_thint_hint [OF wf(2), of ?n kind] by (simp add: hint_ok_def nth_append)
  moreover have "cells S kind (rid_new (of_nat ?n) s) = None"
    using out unat_of_nat_small [OF small] by simp
  moreover have "length (slot_bytes blank_page (unat s)) = 64" using c(7) by (simp add: blank_page_def)
  ultimately have "slot_result kind S (?n, s) ?S'"
    using cells sp_thint_frame [OF sp_add_frame] full by (auto simp: slot_result_def simp del: sp_add_simps)
  then show ?thesis using run by blast
qed

lemma alloc_slot_does:
  assumes lv: "live S" and room: "2 \<le> sp_room S"
  shows "\<exists>r S'. space_does (alloc_topology_slot kind 64) S (Ok r) S' \<and> slot_result kind S r S'"
proof -
  have wf: "sp_wf S" using lv by (rule live_wf)
  let ?P = "sp_pages S (space_of kind)"
  let ?start = "topology_first_free_hint kind (sp_hdr S)"
  obtain found S1 where f: "space_does (scan_slots kind ?start [?start..<length ?P]) S (Ok found) S1"
      "slot_found kind ?start [?start..<length ?P] S found S1"
    using scan_slots_does [OF wf, of "[?start..<length ?P]"] by fastforce
  have "\<exists>r S'. space_does (case found of Some r \<Rightarrow> ret r | None \<Rightarrow> fresh_slot kind 64) S1 (Ok r) S' \<and> slot_result kind S r S'"
  proof (cases found)
    case None
    then have S1: "S1 = S" and full: "\<forall>l\<in>set [?start..<length ?P]. full_page (page_of (?P ! l))"
      using f(2) by (simp_all add: slot_found_def)
    have "hint_ok S kind \<longrightarrow> (\<forall>l < length ?P. full_page (page_of (?P ! l)))"
      using full by (auto simp: hint_ok_def)
    then show ?thesis using fresh_slot_does [OF lv room] by (simp add: None S1)
  next
    case (Some r)
    obtain l s where r: "r = (l, s)" by (cases r)
    have "slot_result kind S r S1" using slot_found_result [OF lv _ refl] f(2) unfolding Some r by blast
    then show ?thesis by (intro exI [of _ r] exI [of _ S1]) (simp add: Some)
  qed
  then obtain r S' where r: "space_does (case found of Some r \<Rightarrow> ret r | None \<Rightarrow> fresh_slot kind 64) S1 (Ok r) S'" "slot_result kind S r S'"
    by blast
  have "space_does (scan_or_fresh kind 64 ?start (length ?P)) S (Ok r) S'"
    unfolding scan_or_fresh_def by (rule space_does_bnd [OF f(1)]) (rule r(1))
  then have "space_does (alloc_topology_slot kind 64) S (Ok r) S'"
    unfolding alloc_topology_slot_def
    by (intro space_does_header [where k = "\<lambda>h. scan_or_fresh kind 64 (topology_first_free_hint kind h) (topology_count kind h)"])
      (simp_all add: topology_count_wf [OF wf])
  then show ?thesis using r(2) by blast
qed

text \<open>Freeing a slot in use, with the hint moved back.\<close>

definition free_record :: "topology_kind \<Rightarrow> record_id \<Rightarrow> (database_file, unit) op" where
  "free_record kind rid =
     (let logical = unat (page_id rid) in
      bnd (load_topology_page kind logical) (\<lambda>page.
        case free_slot (slot_id rid) page of
          (Inl e, _) \<Rightarrow> fail e
        | (Inr _, page) \<Rightarrow>
            bnd (write_topology_page kind logical (pg_data page)) (\<lambda>_.
            back_off_topology_hint kind logical)))"

lemma free_node_record: "free_node rid = free_record Node rid" and free_edge_record: "free_edge_slot rid = free_record Edge rid"
  by (simp_all add: free_node_def free_edge_slot_def free_record_def load_kinds)

lemma free_record_does:
  assumes lv: "live S" and b: "cells S kind rid = Some b"
  shows "\<exists>S'. space_does (free_record kind rid) S (Ok ()) S' \<and> cell_result kind rid None S S'"
proof -
  have wf: "sp_wf S" using lv by (rule live_wf)
  note u = cells_usedD [OF b]
  let ?l = "unat (page_id rid)" and ?P = "sp_pages S (space_of kind)"
  have ok: "page_ok (page_of (?P ! ?l))" using sp_wfD(2) [OF wf u(1)] by (rule page_of_ok)
  have s: "unat (slot_id rid) < pg_slot_count (page_of (?P ! ?l))" using pg.used_cap [OF ok] u(2) by auto
  obtain p' where p': "free_slot (slot_id rid) (page_of (?P ! ?l)) = (Inr (), p')"
      "page_cell p' = (page_cell (page_of (?P ! ?l)))(slot_id rid := None)" "page_ok p'" "pg_slot_size p' = 64" "pg_slot_count p' = 63"
    using page_free_cell [OF ok s] by auto
  have data: "page_of (pg_data p') = p'" using p'(4,5) by (rule page_of_data)
  have len: "length (pg_data p') = PAGE_SIZE" using page_okD(1) [OF p'(3)] .
  have small: "?l < 2 ^ 32" using sp_wfD(3) [OF wf, of "space_of kind"] u(1) by simp
  let ?S1 = "sp_set (space_of kind) ?l (pg_data p') S"
  let ?below = "?l < topology_first_free_hint kind (sp_hdr S)"
  let ?S' = "(if ?below then sp_thint kind ?l else id) ?S1"
  have rid: "rid_new (of_nat ?l) (slot_id rid) = rid" by simp
  have c1: "cells ?S1 kind = (cells S kind)(rid_new (of_nat ?l) (slot_id rid) := None)"
    by (rule cells_set_upd [OF u(1) small]) (simp add: data p'(2))
  have wf1: "sp_wf ?S1" using sp_wf_set [OF wf len] .
  let ?k = "\<lambda>h. if ?l < topology_first_free_hint kind h then set_topology_first_free_hint kind ?l else ret ()"
  have "space_does (?k (sp_hdr ?S1)) ?S1 (Ok ()) ?S'" by (auto intro: set_thint_does)
  then have retreat: "space_does (back_off_topology_hint kind ?l) ?S1 (Ok ()) ?S'"
    unfolding back_off_topology_hint_def by (intro space_does_header [where k = ?k]) simp_all
  have "space_does (free_record kind rid) S (Ok ()) ?S'"
    unfolding free_record_def Let_def
    by (rule load_then [OF u(1)], unfold p'(1) prod.case sum.case) (rule topo_pages.store_then [OF u(1) len retreat])
  moreover have "cells ?S' kind = (cells S kind)(rid := None)" using c1 unfolding rid by simp
  moreover have "topo_frame kind S ?S'" by (simp add: sp_thint_frame)
  moreover have "hint_ok ?S' kind" if "hint_ok S kind"
    using that sp_thint_hint [OF wf1, of ?l kind] u(1) by (auto simp: hint_ok_def nth_list_update)
  moreover have "sp_room ?S' = sp_room S" "length (sp_pages ?S' (space_of kind)) = length (sp_pages S (space_of kind))" by simp_all
  ultimately show ?thesis unfolding cell_result_def topo_update_def by blast
qed

section \<open>Stores of node and edge records\<close>

definition node_of :: "bytes \<Rightarrow> node_record" where
  "node_of bs = (case node_deserialize bs of Inr n \<Rightarrow> n)"

definition edge_of :: "bytes \<Rightarrow> edge_record" where
  "edge_of bs = (case edge_deserialize bs of Inr e \<Rightarrow> e)"

definition nodes :: "spaces \<Rightarrow> record_id \<Rightarrow> node_record option" where
  "nodes S rid = map_option node_of (cells S Node rid)"

definition edges :: "spaces \<Rightarrow> record_id \<Rightarrow> edge_record option" where
  "edges S rid = map_option edge_of (cells S Edge rid)"

lemma node_of_ok: "node_deserialize bs = Ok (node_of bs)" "node_of (node_serialize n) = n"
  using node_deserialize_serialize [of n] by (simp_all add: node_of_def node_deserialize_def)

lemma edge_of_ok: "edge_deserialize bs = Ok (edge_of bs)" "edge_of (edge_serialize e) = e"
  using edge_deserialize_serialize [of e] by (simp_all add: edge_of_def edge_deserialize_def)

definition topo_inv :: "spaces \<Rightarrow> bool" where
  "topo_inv S \<longleftrightarrow> hint_ok S Node \<and> hint_ok S Edge"

lemma topo_inv_frame:
  assumes "topo_frame kind S S'" "hint_ok S kind \<longrightarrow> hint_ok S' kind" "topo_inv S"
  shows "topo_inv S'"
  using assms topo_frame_cells(2) [OF assms(1)] by (cases kind) (auto simp: topo_inv_def)

lemma topo_updateD:
  assumes "topo_update kind S S'"
  shows "topo_frame kind S S'" "topo_inv S \<Longrightarrow> topo_inv S'" "sp_room S' = sp_room S"
    "length (sp_pages S' (space_of kind')) = length (sp_pages S (space_of kind'))"
  using assms topo_inv_frame by (cases "kind' = kind"; auto simp: topo_update_def topo_frame_def)+

lemma other_records:
  "topo_frame Node S S' \<Longrightarrow> edges S' = edges S" "topo_frame Edge S S' \<Longrightarrow> nodes S' = nodes S"
  by (simp_all add: fun_eq_iff nodes_def edges_def topo_frame_cells)

text \<open>What the adjacency lists rely on: a store of records addressed by the id they carry.\<close>

locale record_store =
  fixes recs :: "spaces \<Rightarrow> record_id \<Rightarrow> 'r option"
    and id_of :: "'r \<Rightarrow> record_id"
    and read :: "record_id \<Rightarrow> (database_file, 'r) op"
    and store :: "'r \<Rightarrow> (database_file, unit) op"
    and kind :: topology_kind
  assumes read_law: "live S \<Longrightarrow> recs S rid = Some r \<Longrightarrow> space_does (read rid) S (Ok r) S"
    and store_law: "live S \<Longrightarrow> recs S (id_of r) \<noteq> None \<Longrightarrow>
      \<exists>S'. space_does (store r) S (Ok ()) S' \<and> recs S' = (recs S)(id_of r \<mapsto> r) \<and> topo_update kind S S'"
begin

lemma read_then:
  assumes "live S" "recs S rid = Some r" "space_does (k r) S res S'"
  shows "space_does (bnd (read rid) k) S res S'"
  by (rule space_does_bnd [OF read_law [OF assms(1,2)]]) (rule assms(3))

lemma store_step:
  assumes "live S" "recs S (id_of r) \<noteq> None"
  obtains S' where "space_does (store r) S (Ok ()) S'" "live S'" "recs S' = (recs S)(id_of r \<mapsto> r)" "topo_update kind S S'"
  using store_law [OF assms] live_does [OF _ assms(1)] by metis

end

interpretation node_store: record_store nodes n_id read_node write_node Node
proof
  fix S rid and n :: node_record
  assume lv: "live S" and "nodes S rid = Some n"
  then obtain b where b: "cells S Node rid = Some b" "n = node_of b" by (auto simp: nodes_def)
  show "space_does (read_node rid) S (Ok n) S"
    unfolding read_node_record
    by (rule space_does_bnd [OF read_record_does [OF live_wf [OF lv] b(1)]]) (simp add: node_of_ok b(2) lift_res_def)
next
  fix S and n :: node_record
  assume lv: "live S" and "nodes S (n_id n) \<noteq> None"
  then obtain b where b: "cells S Node (n_id n) = Some b" by (auto simp: nodes_def)
  obtain S' where S': "space_does (write_node n) S (Ok ()) S'" "cell_result Node (n_id n) (Some (node_serialize n)) S S'"
    using write_record_does [OF live_wf [OF lv] b, of "node_serialize n"]
    unfolding write_node_record by (auto simp: NODE_RECORD_SIZE_def)
  then have "nodes S' = (nodes S)(n_id n \<mapsto> n)" by (auto simp: fun_eq_iff nodes_def cell_result_def node_of_ok)
  then show "\<exists>S'. space_does (write_node n) S (Ok ()) S' \<and> nodes S' = (nodes S)(n_id n \<mapsto> n) \<and> topo_update Node S S'"
    using S' by (auto simp: cell_result_def)
qed

interpretation edge_store: record_store edges e_id read_edge write_edge Edge
proof
  fix S rid and e :: edge_record
  assume lv: "live S" and "edges S rid = Some e"
  then obtain b where b: "cells S Edge rid = Some b" "e = edge_of b" by (auto simp: edges_def)
  show "space_does (read_edge rid) S (Ok e) S"
    unfolding read_edge_record
    by (rule space_does_bnd [OF read_record_does [OF live_wf [OF lv] b(1)]]) (simp add: edge_of_ok b(2) lift_res_def)
next
  fix S and e :: edge_record
  assume lv: "live S" and "edges S (e_id e) \<noteq> None"
  then obtain b where b: "cells S Edge (e_id e) = Some b" by (auto simp: edges_def)
  obtain S' where S': "space_does (write_edge e) S (Ok ()) S'" "cell_result Edge (e_id e) (Some (edge_serialize e)) S S'"
    using write_record_does [OF live_wf [OF lv] b, of "edge_serialize e"]
    unfolding write_edge_record by (auto simp: EDGE_RECORD_SIZE_def)
  then have "edges S' = (edges S)(e_id e \<mapsto> e)" by (auto simp: fun_eq_iff edges_def cell_result_def edge_of_ok)
  then show "\<exists>S'. space_does (write_edge e) S (Ok ()) S' \<and> edges S' = (edges S)(e_id e \<mapsto> e) \<and> topo_update Edge S S'"
    using S' by (auto simp: cell_result_def)
qed

section \<open>Allocating and freeing records\<close>

text \<open>A slot was allocated in \<open>S\<close>: no page was added unless every slot of the space was in use.\<close>

definition reuses_slots :: "topology_kind \<Rightarrow> spaces \<Rightarrow> spaces \<Rightarrow> bool" where
  "reuses_slots kind S S' \<longleftrightarrow>
     length (sp_pages S' (space_of kind)) = length (sp_pages S (space_of kind)) \<or>
     (\<forall>l < length (sp_pages S (space_of kind)). full_page (page_of (sp_pages S (space_of kind) ! l)))"

definition alloc_result_of :: "topology_kind \<Rightarrow> spaces \<Rightarrow> spaces \<Rightarrow> bool" where
  "alloc_result_of kind S S' \<longleftrightarrow> topo_frame kind S S' \<and> (topo_inv S \<longrightarrow> topo_inv S' \<and> reuses_slots kind S S')"

lemma slot_resultD:
  assumes "slot_result kind S (l, s) S'"
  shows "cells S kind (rid_new (of_nat l) s) = None"
    "\<exists>b. cells S' kind = (cells S kind)(rid_new (of_nat l) s \<mapsto> b)" "alloc_result_of kind S S'"
proof -
  have "hint_ok S kind" if "topo_inv S" using that by (cases kind) (auto simp: topo_inv_def)
  then show "cells S kind (rid_new (of_nat l) s) = None"
      "\<exists>b. cells S' kind = (cells S kind)(rid_new (of_nat l) s \<mapsto> b)" "alloc_result_of kind S S'"
    using assms topo_inv_frame [of kind S S'] unfolding slot_result_def alloc_result_of_def reuses_slots_def by auto
qed

lemma alloc_result_update:
  assumes "alloc_result_of kind S S1" "topo_update kind S1 S2"
  shows "alloc_result_of kind S S2"
  using assms topo_inv_frame [of kind S1 S2]
  by (auto simp: alloc_result_of_def topo_update_def topo_frame_def reuses_slots_def elim: same_rest_trans)

lemma alloc_node_does:
  assumes lv: "live S" and room: "2 \<le> sp_room S"
  shows "\<exists>rid S'. space_does (alloc_node t) S (Ok rid) S' \<and> nodes S rid = None \<and>
    nodes S' = (nodes S)(rid \<mapsto> new_node rid t) \<and> edges S' = edges S \<and> alloc_result_of Node S S'"
proof -
  obtain l s S1 where a: "space_does (alloc_topology_slot Node 64) S (Ok (l, s)) S1" "slot_result Node S (l, s) S1"
    using alloc_slot_does [OF lv room] by (metis surj_pair)
  let ?rid = "rid_new (of_nat l) s"
  note r = slot_resultD [OF a(2)]
  obtain b where b: "cells S1 Node = (cells S Node)(?rid \<mapsto> b)" using r(2) by blast
  have n1: "nodes S1 = (nodes S)(?rid \<mapsto> node_of b)" by (auto simp: fun_eq_iff nodes_def b)
  have idr: "n_id (new_node ?rid t) = ?rid" by (simp add: new_node_def)
  have "nodes S1 (n_id (new_node ?rid t)) \<noteq> None" unfolding idr n1 by simp
  from node_store.store_step [OF live_does [OF a(1) lv] this, unfolded idr]
  obtain S2 where S2: "space_does (write_node (new_node ?rid t)) S1 (Ok ()) S2"
      "nodes S2 = (nodes S1)(?rid \<mapsto> new_node ?rid t)" "topo_update Node S1 S2"
    by blast
  have "space_does (alloc_node t) S (Ok ?rid) S2"
    unfolding alloc_node_def alloc_node_slot_def NODE_RECORD_SIZE_def Let_def
    by (rule space_does_bnd [OF a(1)], unfold prod.case, rule space_does_bnd [OF S2(1)]) simp
  moreover have "nodes S ?rid = None" using r(1) by (simp add: nodes_def)
  moreover have "nodes S2 = (nodes S)(?rid \<mapsto> new_node ?rid t)" by (simp add: S2(2) n1)
  moreover have "alloc_result_of Node S S2" using alloc_result_update [OF r(3) S2(3)] .
  ultimately show ?thesis using other_records(1) unfolding alloc_result_of_def by blast
qed

lemma alloc_edge_does:
  assumes lv: "live S" and room: "2 \<le> sp_room S"
  shows "\<exists>rid S'. space_does (alloc_edge t from to) S (Ok rid) S' \<and> edges S rid = None \<and>
    edges S' = (edges S)(rid \<mapsto> new_edge rid t from to) \<and> nodes S' = nodes S \<and> alloc_result_of Edge S S'"
proof -
  obtain l s S1 where a: "space_does (alloc_topology_slot Edge 64) S (Ok (l, s)) S1" "slot_result Edge S (l, s) S1"
    using alloc_slot_does [OF lv room] by (metis surj_pair)
  let ?rid = "rid_new (of_nat l) s"
  note r = slot_resultD [OF a(2)]
  obtain b where b: "cells S1 Edge = (cells S Edge)(?rid \<mapsto> b)" using r(2) by blast
  have n1: "edges S1 = (edges S)(?rid \<mapsto> edge_of b)" by (auto simp: fun_eq_iff edges_def b)
  have idr: "e_id (new_edge ?rid t from to) = ?rid" by (simp add: new_edge_def)
  have "edges S1 (e_id (new_edge ?rid t from to)) \<noteq> None" unfolding idr n1 by simp
  from edge_store.store_step [OF live_does [OF a(1) lv] this, unfolded idr]
  obtain S2 where S2: "space_does (write_edge (new_edge ?rid t from to)) S1 (Ok ()) S2"
      "edges S2 = (edges S1)(?rid \<mapsto> new_edge ?rid t from to)" "topo_update Edge S1 S2"
    by blast
  have "space_does (alloc_edge t from to) S (Ok ?rid) S2"
    unfolding alloc_edge_def alloc_edge_slot_def EDGE_RECORD_SIZE_def Let_def
    by (rule space_does_bnd [OF a(1)], unfold prod.case, rule space_does_bnd [OF S2(1)]) simp
  moreover have "edges S ?rid = None" using r(1) by (simp add: edges_def)
  moreover have "edges S2 = (edges S)(?rid \<mapsto> new_edge ?rid t from to)" by (simp add: S2(2) n1)
  moreover have "alloc_result_of Edge S S2" using alloc_result_update [OF r(3) S2(3)] .
  ultimately show ?thesis using other_records(2) unfolding alloc_result_of_def by blast
qed

lemma free_node_does:
  assumes lv: "live S" and n: "nodes S rid = Some n"
  shows "\<exists>S'. space_does (free_node rid) S (Ok ()) S' \<and> nodes S' = (nodes S)(rid := None) \<and> edges S' = edges S \<and> topo_update Node S S'"
proof -
  obtain b where b: "cells S Node rid = Some b" using n by (auto simp: nodes_def)
  obtain S' where S': "space_does (free_node rid) S (Ok ()) S'" "cell_result Node rid None S S'"
    using free_record_does [OF lv b] unfolding free_node_record by blast
  then have "edges S' = edges S" using other_records(1) topo_updateD(1) by (simp add: cell_result_def)
  then show ?thesis using S' by (intro exI [of _ S']) (auto simp: cell_result_def nodes_def fun_eq_iff)
qed

lemma free_edge_does:
  assumes lv: "live S" and n: "edges S rid = Some n"
  shows "\<exists>S'. space_does (free_edge_slot rid) S (Ok ()) S' \<and> edges S' = (edges S)(rid := None) \<and> nodes S' = nodes S \<and> topo_update Edge S S'"
proof -
  obtain b where b: "cells S Edge rid = Some b" using n by (auto simp: edges_def)
  obtain S' where S': "space_does (free_edge_slot rid) S (Ok ()) S'" "cell_result Edge rid None S S'"
    using free_record_does [OF lv b] unfolding free_edge_record by blast
  then have "nodes S' = nodes S" using other_records(2) topo_updateD(1) by (simp add: cell_result_def)
  then show ?thesis using S' by (intro exI [of _ S']) (auto simp: cell_result_def edges_def fun_eq_iff)
qed

section \<open>Listing the records in use\<close>

lemma live_in_page_set:
  assumes "page_ok p" "l < 2 ^ 32"
  shows "distinct (live_in_page p l)"
    "set (live_in_page p l) = {rid. unat (page_id rid) = l \<and> unat (slot_id rid) \<in> used_slots p}"
proof -
  have cnt: "i < 65536" if "i < pg_slot_count p" for i using page_okD(3) [OF assms(1)] that by simp
  have u: "unat (of_nat l :: u32) = l" using assms(2) by (rule unat_of_nat_small)
  have "inj_on (\<lambda>i. rid_new (of_nat l) (of_nat i)) {i. i < pg_slot_count p}"
  proof (rule inj_onI)
    fix i j assume ij: "i \<in> {i. i < pg_slot_count p}" "j \<in> {i. i < pg_slot_count p}"
      and "rid_new (of_nat l) (of_nat i) = rid_new (of_nat l) (of_nat j)"
    then have "unat (of_nat i :: u16) = unat (of_nat j :: u16)" by (metis rid_new_sel(2))
    then show "i = j" using ij cnt by simp
  qed
  then show "distinct (live_in_page p l)"
    by (auto simp: live_in_page_def distinct_map intro: inj_on_subset)
  show "set (live_in_page p l) = {rid. unat (page_id rid) = l \<and> unat (slot_id rid) \<in> used_slots p}"
  proof (intro set_eqI iffI)
    fix rid assume "rid \<in> set (live_in_page p l)"
    then obtain i where "i < pg_slot_count p" "is_used p (of_nat i)" "rid = rid_new (of_nat l) (of_nat i)"
      by (auto simp: live_in_page_def)
    then show "rid \<in> {rid. unat (page_id rid) = l \<and> unat (slot_id rid) \<in> used_slots p}"
      using cnt u by (simp add: used_slots_def)
  next
    fix rid :: record_id assume rid: "rid \<in> {rid. unat (page_id rid) = l \<and> unat (slot_id rid) \<in> used_slots p}"
    have "page_id rid = of_nat l" using rid u by (auto simp: word_unat_eq_iff)
    then have "rid = rid_new (of_nat l) (of_nat (unat (slot_id rid)))" by (cases rid) (simp add: rid_new_def)
    then show "rid \<in> set (live_in_page p l)"
      using rid unfolding live_in_page_def used_slots_def by (force intro!: image_eqI [of _ _ "unat (slot_id rid)"])
  qed
qed

lemma live_rids_does:
  assumes wf: "sp_wf S" and "\<forall>l\<in>set ls. l < length (sp_pages S (space_of kind))" "distinct ls"
  shows "\<exists>rids. space_does (live_rids_loop (load_topology_page kind) ls) S (Ok rids) S \<and> distinct rids \<and>
    set rids = {rid. unat (page_id rid) \<in> set ls \<and> cells S kind rid \<noteq> None}"
  using assms(2,3)
proof (induction ls)
  case Nil
  show ?case by (intro exI [of _ "[]"]) simp
next
  case (Cons l ls)
  let ?p = "page_of (sp_pages S (space_of kind) ! l)"
  have l: "l < length (sp_pages S (space_of kind))" using Cons.prems by simp
  have ok: "page_ok ?p" using sp_wfD(2) [OF wf l] by (rule page_of_ok)
  have small: "l < 2 ^ 32" using sp_wfD(3) [OF wf, of "space_of kind"] l by simp
  obtain rids where rids: "space_does (live_rids_loop (load_topology_page kind) ls) S (Ok rids) S" "distinct rids"
      "set rids = {rid. unat (page_id rid) \<in> set ls \<and> cells S kind rid \<noteq> None}"
    using Cons by auto
  note pg = live_in_page_set [OF ok small]
  have here: "cells S kind rid \<noteq> None \<longleftrightarrow> unat (slot_id rid) \<in> used_slots ?p" if "unat (page_id rid) = l" for rid :: record_id
    using that l by (simp add: cells_def pages_cells_def page_cell_def)
  have "space_does (live_rids_loop (load_topology_page kind) (l # ls)) S (Ok (live_in_page ?p l @ rids)) S"
    unfolding live_rids_loop.simps by (rule load_then [OF l], rule space_does_bnd [OF rids(1)]) simp
  moreover have "distinct (live_in_page ?p l @ rids)" using pg rids(2,3) Cons.prems(2) by auto
  moreover have "set (live_in_page ?p l @ rids) = {rid. unat (page_id rid) \<in> set (l # ls) \<and> cells S kind rid \<noteq> None}"
    using pg(2) rids(3) here by auto
  ultimately show ?case by blast
qed

lemma live_all_does:
  assumes wf: "sp_wf S"
  shows "\<exists>rids. space_does (\<lambda>file. live_rids_loop (load_topology_page kind) [0..<topology_count kind (header file)] file) S (Ok rids) S \<and>
    distinct rids \<and> set rids = {rid. cells S kind rid \<noteq> None}"
proof -
  let ?n = "length (sp_pages S (space_of kind))"
  obtain rids where r: "space_does (live_rids_loop (load_topology_page kind) [0..<?n]) S (Ok rids) S" "distinct rids"
      "set rids = {rid. unat (page_id rid) \<in> set [0..<?n] \<and> cells S kind rid \<noteq> None}"
    using live_rids_does [OF wf, of "[0..<?n]" kind] by auto
  have "set rids = {rid. cells S kind rid \<noteq> None}" using r(3) cells_usedD(1) by fastforce
  moreover have "space_does (\<lambda>file. live_rids_loop (load_topology_page kind) [0..<topology_count kind (header file)] file) S (Ok rids) S"
    by (rule space_does_header [where k = "\<lambda>h. live_rids_loop (load_topology_page kind) [0..<topology_count kind h]"])
      (simp_all add: topology_count_wf [OF wf] r(1))
  ultimately show ?thesis using r(2) by blast
qed

section \<open>Properties\<close>

text \<open>
  Allocating a node returns a record id that is not in use, with an empty record under it; every
  other node record, every edge record and every property page is as before, and the node space grows
  only if all its slots are in use: a freed slot is found again, wherever the hint points.
\<close>

theorem alloc_node_is_fresh:
  assumes "space_rep db S" "topo_inv S" "2 \<le> sp_room S"
  shows "\<exists>rid db' S'. alloc_node t db = (Ok rid, db') \<and> space_rep db' S' \<and> topo_inv S' \<and> nodes S rid = None \<and>
    nodes S' = (nodes S)(rid \<mapsto> new_node rid t) \<and> edges S' = edges S \<and> sp_pages S' PropertyS = sp_pages S PropertyS \<and>
    (length (sp_pages S' NodeS) \<noteq> length (sp_pages S NodeS) \<longrightarrow>
      (\<forall>l < length (sp_pages S NodeS). \<forall>s < 63. nodes S (rid_new (of_nat l) (of_nat s)) \<noteq> None))"
proof -
  have lv: "live S" using assms(1) by (auto simp: live_def)
  obtain rid S' where r: "space_does (alloc_node t) S (Ok rid) S'" "nodes S rid = None" "nodes S' = (nodes S)(rid \<mapsto> new_node rid t)"
      "edges S' = edges S" "alloc_result_of Node S S'"
    using alloc_node_does [OF lv assms(3)] by blast
  obtain db' where db': "alloc_node t db = (Ok rid, db')" "space_rep db' S'"
    using r(1) assms(1) unfolding does_def by blast
  have inv: "topo_inv S'" "reuses_slots Node S S'" and frame: "topo_frame Node S S'"
    using r(5) assms(2) by (auto simp: alloc_result_of_def)
  have "nodes S (rid_new (of_nat l) (of_nat s)) \<noteq> None"
    if "length (sp_pages S' NodeS) \<noteq> length (sp_pages S NodeS)" "l < length (sp_pages S NodeS)" "s < 63" for l s
  proof -
    have full: "full_page (page_of (sp_pages S NodeS ! l))" using inv(2) that by (auto simp: reuses_slots_def space_of_def)
    have "l < 2 ^ 32" using sp_wfD(3) [OF live_wf [OF lv], of NodeS] that(2) by simp
    then have "cells S Node (rid_new (of_nat l) (of_nat s)) = page_cell (page_of (sp_pages S NodeS ! l)) (of_nat s)"
      using cells_at [of l S Node "of_nat s"] that(2) by (simp add: space_of_def)
    then show ?thesis using full that(3) by (simp add: nodes_def page_cell_def full_page_def)
  qed
  moreover have "sp_pages S' PropertyS = sp_pages S PropertyS" using frame by (simp add: topo_frame_def)
  ultimately show ?thesis using db' r inv(1) by blast
qed

lemma fresh_topo_inv: "topo_inv (fresh_spaces n)"
  by (auto simp: topo_inv_def hint_ok_def fresh_spaces_def)

theorem alloc_node_is_fresh_witness:
  "\<exists>rid db'. alloc_node 7 create_in_memory = (Ok rid, db')"
  using alloc_node_is_fresh [OF memory_spaces fresh_topo_inv, of 7] by (simp add: fresh_spaces_def) blast

text \<open>
  The scan for live nodes (and that for live edges) lists every record id in use, each once, and
  no other.
\<close>

theorem live_rids_are_the_records:
  assumes "space_rep db S"
  shows "\<exists>ns es db1 db2. live_node_rids db = (Ok ns, db1) \<and> distinct ns \<and> set ns = dom (nodes S) \<and>
    live_edge_rids db = (Ok es, db2) \<and> distinct es \<and> set es = dom (edges S)"
proof -
  have wf: "sp_wf S" using space_rep_wf [OF assms] .
  obtain ns where ns: "space_does live_node_rids S (Ok ns) S" "distinct ns" "set ns = {rid. cells S Node rid \<noteq> None}"
    using live_all_does [OF wf, of Node] by (auto simp: live_node_rids_def load_kinds topology_count_def)
  obtain es where es: "space_does live_edge_rids S (Ok es) S" "distinct es" "set es = {rid. cells S Edge rid \<noteq> None}"
    using live_all_does [OF wf, of Edge] by (auto simp: live_edge_rids_def load_kinds topology_count_def)
  have "set ns = dom (nodes S)" "set es = dom (edges S)" using ns(3) es(3) by (auto simp: nodes_def edges_def dom_def)
  moreover obtain db1 db2 where "live_node_rids db = (Ok ns, db1)" "live_edge_rids db = (Ok es, db2)"
    using ns(1) es(1) assms unfolding does_def by blast
  ultimately show ?thesis using ns(2) es(2) by blast
qed

theorem live_rids_are_the_records_witness:
  "\<exists>db1. live_node_rids create_in_memory = (Ok [], db1)"
proof -
  have "nodes (fresh_spaces 1000) = Map.empty"
    by (rule ext) (simp add: nodes_def cells_def pages_cells_def fresh_spaces_def)
  then show ?thesis using live_rids_are_the_records [OF memory_spaces] by auto
qed

end
