(* ===== verification/Adjacency.thy ===== *)
theory Adjacency
  imports Topology
begin

text \<open>
  The adjacency lists of \<^verbatim>\<open>storage/topology.rs\<close>: each node points to its first outgoing
  and its first incoming edge, each edge to the next one of both lists. The walks of
  \<^verbatim>\<open>collect_edge_chain\<close> and of the removals have no step bound in the code; a walk that
  follows more links than there are record ids (\<open>MAX_LINKS\<close>) never ends, so the model gives it the
  outcome \<open>Diverged\<close>.

  The abstract state (\<open>graph\<close>) is, for each direction, a map from nodes to the list of their edges.
  Appending, deleting and collecting edges are shown to act on it as insertion at the head, removal
  and lookup; in particular every walk ends.
\<close>

section \<open>Operations\<close>

datatype edge_direction = Out | In

definition MAX_LINKS :: nat where
  "MAX_LINKS = 2 ^ 48"

definition append_out_edge :: "record_id \<Rightarrow> record_id \<Rightarrow> (database_file, unit) op" where
  "append_out_edge node_rid edge_rid =
     bnd (read_node node_rid) (\<lambda>node.
     bnd (read_edge edge_rid) (\<lambda>edge.
     let edge = edge\<lparr>next_out_edge := first_out_edge node\<rparr>;
         node = node\<lparr>first_out_edge := Some edge_rid\<rparr>
     in bnd (write_edge edge) (\<lambda>_. write_node node)))"

definition append_in_edge :: "record_id \<Rightarrow> record_id \<Rightarrow> (database_file, unit) op" where
  "append_in_edge node_rid edge_rid =
     bnd (read_node node_rid) (\<lambda>node.
     bnd (read_edge edge_rid) (\<lambda>edge.
     let edge = edge\<lparr>next_in_edge := first_in_edge node\<rparr>;
         node = node\<lparr>first_in_edge := Some edge_rid\<rparr>
     in bnd (write_edge edge) (\<lambda>_. write_node node)))"

fun unlink_out_loop :: "nat \<Rightarrow> record_id option \<Rightarrow> record_id \<Rightarrow> record_id option \<Rightarrow> (database_file, unit) op" where
  "unlink_out_loop left None target target_next = ret ()"
| "unlink_out_loop 0 (Some cur) target target_next = fail Diverged"
| "unlink_out_loop (Suc left) (Some cur) target target_next =
     bnd (read_edge cur) (\<lambda>edge.
       if next_out_edge edge = Some target then write_edge (edge\<lparr>next_out_edge := target_next\<rparr>)
       else unlink_out_loop left (next_out_edge edge) target target_next)"

definition remove_from_out_list :: "record_id \<Rightarrow> record_id \<Rightarrow> record_id option \<Rightarrow> (database_file, unit) op" where
  "remove_from_out_list node_rid target target_next =
     bnd (read_node node_rid) (\<lambda>node.
       if first_out_edge node = Some target then write_node (node\<lparr>first_out_edge := target_next\<rparr>)
       else unlink_out_loop MAX_LINKS (first_out_edge node) target target_next)"

fun unlink_in_loop :: "nat \<Rightarrow> record_id option \<Rightarrow> record_id \<Rightarrow> record_id option \<Rightarrow> (database_file, unit) op" where
  "unlink_in_loop left None target target_next = ret ()"
| "unlink_in_loop 0 (Some cur) target target_next = fail Diverged"
| "unlink_in_loop (Suc left) (Some cur) target target_next =
     bnd (read_edge cur) (\<lambda>edge.
       if next_in_edge edge = Some target then write_edge (edge\<lparr>next_in_edge := target_next\<rparr>)
       else unlink_in_loop left (next_in_edge edge) target target_next)"

definition remove_from_in_list :: "record_id \<Rightarrow> record_id \<Rightarrow> record_id option \<Rightarrow> (database_file, unit) op" where
  "remove_from_in_list node_rid target target_next =
     bnd (read_node node_rid) (\<lambda>node.
       if first_in_edge node = Some target then write_node (node\<lparr>first_in_edge := target_next\<rparr>)
       else unlink_in_loop MAX_LINKS (first_in_edge node) target target_next)"

definition delete_edge :: "record_id \<Rightarrow> (database_file, unit) op" where
  "delete_edge edge_rid =
     bnd (read_edge edge_rid) (\<lambda>edge.
     let next_out = next_out_edge edge; next_in = next_in_edge edge; from = from_node edge; to = to_node edge in
     bnd (remove_from_out_list from edge_rid next_out) (\<lambda>_.
     bnd (remove_from_in_list to edge_rid next_in) (\<lambda>_.
     free_edge_slot edge_rid)))"

fun collect_loop :: "nat \<Rightarrow> record_id option \<Rightarrow> edge_direction \<Rightarrow> (database_file, edge_record list) op" where
  "collect_loop left None direction = ret []"
| "collect_loop 0 (Some rid) direction = fail Diverged"
| "collect_loop (Suc left) (Some rid) direction =
     bnd (read_edge rid) (\<lambda>edge.
     bnd (collect_loop left (case direction of Out \<Rightarrow> next_out_edge edge | In \<Rightarrow> next_in_edge edge) direction) (\<lambda>out.
     ret (edge # out)))"

definition collect_edge_chain :: "record_id \<Rightarrow> edge_direction \<Rightarrow> (database_file, edge_record list) op" where
  "collect_edge_chain node_rid direction =
     bnd (read_node node_rid) (\<lambda>node.
       collect_loop MAX_LINKS (case direction of Out \<Rightarrow> first_out_edge node | In \<Rightarrow> first_in_edge node) direction)"

definition collect_out_edges :: "record_id \<Rightarrow> (database_file, edge_record list) op" where
  "collect_out_edges node_rid = collect_edge_chain node_rid Out"

definition collect_in_edges :: "record_id \<Rightarrow> (database_file, edge_record list) op" where
  "collect_in_edges node_rid = collect_edge_chain node_rid In"

section \<open>One definition for both directions\<close>

definition first_edge :: "edge_direction \<Rightarrow> node_record \<Rightarrow> record_id option" where
  "first_edge d n = (case d of Out \<Rightarrow> first_out_edge n | In \<Rightarrow> first_in_edge n)"

definition next_edge :: "edge_direction \<Rightarrow> edge_record \<Rightarrow> record_id option" where
  "next_edge d e = (case d of Out \<Rightarrow> next_out_edge e | In \<Rightarrow> next_in_edge e)"

definition end_of :: "edge_direction \<Rightarrow> edge_record \<Rightarrow> record_id" where
  "end_of d e = (case d of Out \<Rightarrow> from_node e | In \<Rightarrow> to_node e)"

definition with_first :: "edge_direction \<Rightarrow> record_id option \<Rightarrow> node_record \<Rightarrow> node_record" where
  "with_first d v n = (case d of Out \<Rightarrow> n\<lparr>first_out_edge := v\<rparr> | In \<Rightarrow> n\<lparr>first_in_edge := v\<rparr>)"

definition with_next :: "edge_direction \<Rightarrow> record_id option \<Rightarrow> edge_record \<Rightarrow> edge_record" where
  "with_next d v e = (case d of Out \<Rightarrow> e\<lparr>next_out_edge := v\<rparr> | In \<Rightarrow> e\<lparr>next_in_edge := v\<rparr>)"

lemma with_first_sel [simp]:
  "first_edge d (with_first d' v n) = (if d = d' then v else first_edge d n)" "n_id (with_first d v n) = n_id n"
  by (cases d; cases d'; simp add: first_edge_def with_first_def) (cases d; simp add: with_first_def)

lemma with_next_sel [simp]:
  "next_edge d (with_next d' v e) = (if d = d' then v else next_edge d e)" "e_id (with_next d v e) = e_id e"
  "end_of d (with_next d' v e) = end_of d e"
proof -
  show "next_edge d (with_next d' v e) = (if d = d' then v else next_edge d e)" "end_of d (with_next d' v e) = end_of d e"
    by (cases d; cases d'; simp add: next_edge_def with_next_def end_of_def)+
  show "e_id (with_next d v e) = e_id e" by (cases d; simp add: with_next_def)
qed

definition append_edge :: "edge_direction \<Rightarrow> record_id \<Rightarrow> record_id \<Rightarrow> (database_file, unit) op" where
  "append_edge d node_rid edge_rid =
     bnd (read_node node_rid) (\<lambda>node.
     bnd (read_edge edge_rid) (\<lambda>edge.
     bnd (write_edge (with_next d (first_edge d node) edge)) (\<lambda>_.
     write_node (with_first d (Some edge_rid) node))))"

fun unlink_loop :: "edge_direction \<Rightarrow> nat \<Rightarrow> record_id option \<Rightarrow> record_id \<Rightarrow> record_id option \<Rightarrow> (database_file, unit) op" where
  "unlink_loop d left None target target_next = ret ()"
| "unlink_loop d 0 (Some cur) target target_next = fail Diverged"
| "unlink_loop d (Suc left) (Some cur) target target_next =
     bnd (read_edge cur) (\<lambda>edge.
       if next_edge d edge = Some target then write_edge (with_next d target_next edge)
       else unlink_loop d left (next_edge d edge) target target_next)"

definition remove_from_list :: "edge_direction \<Rightarrow> record_id \<Rightarrow> record_id \<Rightarrow> record_id option \<Rightarrow> (database_file, unit) op" where
  "remove_from_list d node_rid target target_next =
     bnd (read_node node_rid) (\<lambda>node.
       if first_edge d node = Some target then write_node (with_first d target_next node)
       else unlink_loop d MAX_LINKS (first_edge d node) target target_next)"

lemma append_edge_eqs: "append_out_edge = append_edge Out" "append_in_edge = append_edge In"
  by (simp_all add: fun_eq_iff append_out_edge_def append_in_edge_def append_edge_def with_next_def with_first_def first_edge_def)

lemma unlink_loop_eqs:
  "unlink_out_loop left cur t tn = unlink_loop Out left cur t tn" "unlink_in_loop left cur t tn = unlink_loop In left cur t tn"
proof -
  show "unlink_out_loop left cur t tn = unlink_loop Out left cur t tn"
    by (induction left cur t tn rule: unlink_out_loop.induct)
      (simp_all add: next_edge_def with_next_def cong: if_cong)
  show "unlink_in_loop left cur t tn = unlink_loop In left cur t tn"
    by (induction left cur t tn rule: unlink_in_loop.induct)
      (simp_all add: next_edge_def with_next_def cong: if_cong)
qed

lemma remove_from_list_eqs: "remove_from_out_list = remove_from_list Out" "remove_from_in_list = remove_from_list In"
  by (simp_all add: fun_eq_iff remove_from_out_list_def remove_from_in_list_def remove_from_list_def unlink_loop_eqs
      with_first_def first_edge_def cong: if_cong)

section \<open>Linked lists as functions\<close>

fun chain :: "('a \<Rightarrow> 'a option option) \<Rightarrow> 'a option \<Rightarrow> 'a list \<Rightarrow> bool" where
  "chain nx start [] \<longleftrightarrow> start = None"
| "chain nx start (r # rs) \<longleftrightarrow> start = Some r \<and> (\<exists>n. nx r = Some n \<and> chain nx n rs)"

lemma chain_cong: "chain nx start rs \<Longrightarrow> (\<And>r. r \<in> set rs \<Longrightarrow> nx' r = nx r) \<Longrightarrow> chain nx' start rs"
  by (induction rs arbitrary: start) auto

lemma chain_append: "chain nx start (as @ r # rs) \<Longrightarrow> \<exists>n. nx r = Some n \<and> chain nx n rs"
  by (induction as arbitrary: start) auto

text \<open>Unlinking the element behind the head, or one further on.\<close>

lemma chain_unlink:
  assumes "chain nx start (as @ p # t # rs)" "nx t = Some n" "distinct (as @ p # t # rs)"
  shows "chain (nx(p \<mapsto> n)) start (as @ p # rs)"
  using assms
proof (induction as arbitrary: start)
  case Nil
  then have "chain nx n rs" "p \<notin> set rs" by auto
  then have "chain (nx(p \<mapsto> n)) n rs" by (auto intro: chain_cong)
  then show ?case using Nil by (simp add: fun_upd_def)
qed auto

text \<open>
  The lists of all nodes in one direction: the heads, the links between edges, the node each edge ends
  at, and the list of each node.
\<close>

definition lists :: "('a \<Rightarrow> 'b option option) \<Rightarrow> ('b \<Rightarrow> 'b option option) \<Rightarrow> ('b \<Rightarrow> 'a option) \<Rightarrow> ('a \<Rightarrow> 'b list) \<Rightarrow> bool" where
  "lists hs nx en L \<longleftrightarrow>
     (\<forall>v. case hs v of
            None \<Rightarrow> L v = []
          | Some h \<Rightarrow> chain nx h (L v) \<and> distinct (L v) \<and> (\<forall>r\<in>set (L v). en r = Some v))"

lemma listsD:
  assumes "lists hs nx en L" "hs v = Some h"
  shows "chain nx h (L v)" "distinct (L v)" "r \<in> set (L v) \<Longrightarrow> en r = Some v"
  using assms by (auto simp: lists_def dest!: spec [of _ v])

lemma lists_none: "lists hs nx en L \<Longrightarrow> hs v = None \<Longrightarrow> L v = []"
  by (auto simp: lists_def dest!: spec [of _ v])

lemma lists_end: "lists hs nx en L \<Longrightarrow> r \<in> set (L v) \<Longrightarrow> en r = Some v"
  using lists_none [of hs nx en L v] listsD(3) [of hs nx en L v] by (cases "hs v") auto

lemma listsI:
  assumes "\<And>v h. hs v = Some h \<Longrightarrow> chain nx h (L v) \<and> distinct (L v) \<and> (\<forall>r\<in>set (L v). en r = Some v)"
    and "\<And>v. hs v = None \<Longrightarrow> L v = []"
  shows "lists hs nx en L"
  using assms by (auto simp: lists_def split: option.split)

lemma lists_push:
  assumes "lists hs nx en L" "hs v = Some h" "en r = Some v" "r \<notin> set (L v)"
  shows "lists (hs(v \<mapsto> Some r)) (nx(r \<mapsto> h)) en (L(v := r # L v))"
proof (rule listsI)
  fix u k assume u: "(hs(v \<mapsto> Some r)) u = Some k"
  show "chain (nx(r \<mapsto> h)) k ((L(v := r # L v)) u) \<and> distinct ((L(v := r # L v)) u) \<and>
      (\<forall>q\<in>set ((L(v := r # L v)) u). en q = Some u)"
  proof (cases "u = v")
    case True
    have "chain (nx(r \<mapsto> h)) h (L v)" using listsD(1) [OF assms(1,2)] assms(4) by (auto intro: chain_cong)
    then show ?thesis using True u assms listsD [OF assms(1,2)] by (auto simp del: fun_upd_apply) (auto simp: fun_upd_def)
  next
    case False
    then have "hs u = Some k" using u by simp
    moreover have "r \<notin> set (L u)" using lists_end [OF assms(1), of r u] assms(3) False by auto
    ultimately show ?thesis using False listsD [OF assms(1), of u k] by (auto intro: chain_cong)
  qed
qed (use lists_none [OF assms(1)] in \<open>auto split: if_splits\<close>)

lemma lists_pop:
  assumes "lists hs nx en L" "hs v = Some h" "L v = t # rs" "nx t = Some n"
  shows "lists (hs(v \<mapsto> n)) nx en (L(v := rs))"
proof (rule listsI)
  fix u k assume u: "(hs(v \<mapsto> n)) u = Some k"
  show "chain nx k ((L(v := rs)) u) \<and> distinct ((L(v := rs)) u) \<and> (\<forall>q\<in>set ((L(v := rs)) u). en q = Some u)"
    using u listsD [OF assms(1,2)] assms(3,4) listsD [OF assms(1), of u k] by (cases "u = v") auto
qed (use lists_none [OF assms(1)] in \<open>auto split: if_splits\<close>)

lemma lists_unlink:
  assumes "lists hs nx en L" "hs v = Some h" "L v = as @ p # t # rs" "nx t = Some n"
  shows "lists hs (nx(p \<mapsto> n)) en (L(v := as @ p # rs))"
proof (rule listsI)
  fix u k assume u: "hs u = Some k"
  show "chain (nx(p \<mapsto> n)) k ((L(v := as @ p # rs)) u) \<and> distinct ((L(v := as @ p # rs)) u) \<and>
      (\<forall>q\<in>set ((L(v := as @ p # rs)) u). en q = Some u)"
  proof (cases "u = v")
    case True
    have "chain (nx(p \<mapsto> n)) h (as @ p # rs)"
      using chain_unlink [of nx h as p t rs n] listsD [OF assms(1,2)] assms(3,4) by simp
    then show ?thesis using True u assms listsD [OF assms(1,2)] by simp
  next
    case False
    have "p \<notin> set (L u)"
      using lists_end [OF assms(1), of p u] lists_end [OF assms(1), of p v] assms(3) False by auto
    then show ?thesis using False listsD [OF assms(1) u] by (auto intro: chain_cong)
  qed
qed (use lists_none [OF assms(1)] assms(2) in auto)

text \<open>An edge that is in no list comes or goes, and so does a node without edges.\<close>

lemma lists_edge_change:
  assumes "lists hs nx en L" "\<And>u. r \<notin> set (L u)"
  shows "lists hs (nx(r := x)) (en(r := y)) L"
proof (rule listsI)
  fix u k assume u: "hs u = Some k"
  show "chain (nx(r := x)) k (L u) \<and> distinct (L u) \<and> (\<forall>q\<in>set (L u). (en(r := y)) q = Some u)"
    using listsD [OF assms(1) u] assms(2) [of u] by (auto intro: chain_cong)
qed (use lists_none [OF assms(1)] in auto)

lemma lists_new_node: "lists hs nx en L \<Longrightarrow> hs v = None \<Longrightarrow> lists (hs(v \<mapsto> None)) nx en L"
  using lists_none [of hs nx en L v] by (auto simp: lists_def split: option.splits)

lemma lists_free_node: "lists hs nx en L \<Longrightarrow> L v = [] \<Longrightarrow> lists (hs(v := None)) nx en L"
  by (auto simp: lists_def split: option.splits)

section \<open>The graph in the store\<close>

definition heads :: "spaces \<Rightarrow> edge_direction \<Rightarrow> record_id \<Rightarrow> record_id option option" where
  "heads S d v = map_option (first_edge d) (nodes S v)"

definition links :: "spaces \<Rightarrow> edge_direction \<Rightarrow> record_id \<Rightarrow> record_id option option" where
  "links S d r = map_option (next_edge d) (edges S r)"

definition ends :: "spaces \<Rightarrow> edge_direction \<Rightarrow> record_id \<Rightarrow> record_id option" where
  "ends S d r = map_option (end_of d) (edges S r)"

definition ids_ok :: "spaces \<Rightarrow> bool" where
  "ids_ok S \<longleftrightarrow> (\<forall>rid n. nodes S rid = Some n \<longrightarrow> n_id n = rid) \<and> (\<forall>rid e. edges S rid = Some e \<longrightarrow> e_id e = rid)"

type_synonym adjacency = "edge_direction \<Rightarrow> record_id \<Rightarrow> record_id list"

definition graph :: "spaces \<Rightarrow> adjacency \<Rightarrow> bool" where
  "graph S L \<longleftrightarrow> ids_ok S \<and> topo_inv S \<and> (\<forall>d. lists (heads S d) (links S d) (ends S d) (L d))"

lemma graphD:
  assumes "graph S L"
  shows "ids_ok S" "topo_inv S" "lists (heads S d) (links S d) (ends S d) (L d)"
  using assms by (simp_all add: graph_def)

text \<open>The two kinds of record update.\<close>

text \<open>What a record holds besides its links, and what every operation on the topology keeps.\<close>

definition node_data :: "node_record \<Rightarrow> node_record" where
  "node_data n = n\<lparr>first_out_edge := None, first_in_edge := None\<rparr>"

definition edge_data :: "edge_record \<Rightarrow> edge_record" where
  "edge_data e = e\<lparr>next_out_edge := None, next_in_edge := None\<rparr>"

definition node_payload :: "spaces \<Rightarrow> record_id \<Rightarrow> node_record option" where
  "node_payload S rid = map_option node_data (nodes S rid)"

definition edge_payload :: "spaces \<Rightarrow> record_id \<Rightarrow> edge_record option" where
  "edge_payload S rid = map_option edge_data (edges S rid)"

definition keeps_props :: "spaces \<Rightarrow> spaces \<Rightarrow> bool" where
  "keeps_props S S' \<longleftrightarrow> same_rest S S' \<and> sp_pages S' PropertyS = sp_pages S PropertyS \<and>
     property_free_list_head (sp_hdr S') = property_free_list_head (sp_hdr S)"

lemma with_data [simp]: "node_data (with_first d h n) = node_data n" "edge_data (with_next d h e) = edge_data e"
  by (cases d; simp add: node_data_def edge_data_def with_first_def with_next_def)+

lemma keeps_props_refl [simp]: "keeps_props S S"
  by (simp add: keeps_props_def)

lemma keeps_props_trans: "keeps_props S S' \<Longrightarrow> keeps_props S' S'' \<Longrightarrow> keeps_props S S''"
  by (auto simp: keeps_props_def elim: same_rest_trans)

lemma topo_frame_keeps: "topo_frame kind S S' \<Longrightarrow> keeps_props S S'"
  by (simp add: topo_frame_def keeps_props_def)

definition link_update :: "spaces \<Rightarrow> spaces \<Rightarrow> bool" where
  "link_update S S' \<longleftrightarrow> ids_ok S' \<and> topo_inv S' \<and> sp_room S' = sp_room S \<and>
     (\<forall>k. length (sp_pages S' k) = length (sp_pages S k)) \<and> keeps_props S S' \<and>
     node_payload S' = node_payload S \<and> edge_payload S' = edge_payload S"

lemma topo_update_lengths:
  assumes "topo_update kind S S'"
  shows "length (sp_pages S' k) = length (sp_pages S k)"
proof -
  have "sp_pages S' PropertyS = sp_pages S PropertyS" using topo_updateD(1) [OF assms] by (simp add: topo_frame_def)
  then show ?thesis
    using topo_updateD(4) [OF assms, of Node] topo_updateD(4) [OF assms, of Edge] by (cases k) (simp_all add: space_of_def)
qed

lemma write_node_graph:
  assumes lv: "live S" and ids: "ids_ok S" "topo_inv S" and n: "nodes S v = Some n"
  obtains S' where "space_does (write_node (with_first d h n)) S (Ok ()) S'" "live S'" "link_update S S'"
    "nodes S' = (nodes S)(v \<mapsto> with_first d h n)" "edges S' = edges S"
    "heads S' d = (heads S d)(v \<mapsto> h)" "\<And>d'. d' \<noteq> d \<Longrightarrow> heads S' d' = heads S d'"
    "\<And>d'. links S' d' = links S d'" "\<And>d'. ends S' d' = ends S d'"
proof -
  have id: "n_id (with_first d h n) = v" using ids(1) n by (simp add: ids_ok_def)
  have "nodes S (n_id (with_first d h n)) \<noteq> None" unfolding id using n by simp
  from node_store.store_step [OF lv this, unfolded id] obtain S' where S':
      "space_does (write_node (with_first d h n)) S (Ok ()) S'" "live S'" "nodes S' = (nodes S)(v \<mapsto> with_first d h n)"
      "topo_update Node S S'" by blast
  have e: "edges S' = edges S" using other_records(1) topo_updateD(1) [OF S'(4)] .
  have "node_payload S' = node_payload S" "edge_payload S' = edge_payload S"
    using S'(3) e n by (simp_all add: fun_eq_iff node_payload_def edge_payload_def)
  then have "link_update S S'"
    using ids id S'(3) e topo_updateD [OF S'(4)] topo_update_lengths [OF S'(4)] topo_frame_keeps
    by (auto simp: link_update_def ids_ok_def)
  then show thesis
    using S' e n by (intro that [of S']) (auto simp: heads_def links_def ends_def fun_eq_iff)
qed

lemma write_edge_graph:
  assumes lv: "live S" and ids: "ids_ok S" "topo_inv S" and e: "edges S r = Some e"
  obtains S' where "space_does (write_edge (with_next d h e)) S (Ok ()) S'" "live S'" "link_update S S'"
    "edges S' = (edges S)(r \<mapsto> with_next d h e)" "nodes S' = nodes S"
    "links S' d = (links S d)(r \<mapsto> h)" "\<And>d'. d' \<noteq> d \<Longrightarrow> links S' d' = links S d'"
    "\<And>d'. heads S' d' = heads S d'" "\<And>d'. ends S' d' = ends S d'"
proof -
  have id: "e_id (with_next d h e) = r" using ids(1) e by (simp add: ids_ok_def)
  have "edges S (e_id (with_next d h e)) \<noteq> None" unfolding id using e by simp
  from edge_store.store_step [OF lv this, unfolded id] obtain S' where S':
      "space_does (write_edge (with_next d h e)) S (Ok ()) S'" "live S'" "edges S' = (edges S)(r \<mapsto> with_next d h e)"
      "topo_update Edge S S'" by blast
  have n: "nodes S' = nodes S" using other_records(2) topo_updateD(1) [OF S'(4)] .
  have "node_payload S' = node_payload S" "edge_payload S' = edge_payload S"
    using S'(3) e n by (simp_all add: fun_eq_iff node_payload_def edge_payload_def)
  then have "link_update S S'"
    using ids id S'(3) n topo_updateD [OF S'(4)] topo_update_lengths [OF S'(4)] topo_frame_keeps
    by (auto simp: link_update_def ids_ok_def)
  then show thesis
    using S' n e by (intro that [of S']) (auto simp: heads_def links_def ends_def fun_eq_iff)
qed

lemma link_updateD:
  assumes "link_update S S'"
  shows "ids_ok S'" "topo_inv S'" "sp_room S' = sp_room S" "keeps_props S S'"
    "node_payload S' = node_payload S" "edge_payload S' = edge_payload S"
  using assms by (simp_all add: link_update_def)

lemma link_update_trans: "link_update S S' \<Longrightarrow> link_update S' S'' \<Longrightarrow> link_update S S''"
  by (auto simp: link_update_def elim: keeps_props_trans)

section \<open>What the operations do to the graph\<close>

lemma append_edge_does:
  assumes lv: "live S" and g: "graph S L" and n: "nodes S v = Some n" and e: "edges S r = Some e"
    and "end_of d e = v" "r \<notin> set (L d v)"
  shows "\<exists>S'. space_does (append_edge d v r) S (Ok ()) S' \<and> graph S' (L(d := (L d)(v := r # L d v))) \<and> link_update S S' \<and>
    nodes S' = (nodes S)(v \<mapsto> with_first d (Some r) n) \<and> edges S' = (edges S)(r \<mapsto> with_next d (first_edge d n) e)"
proof -
  note G = graphD [OF g]
  obtain S1 where S1: "space_does (write_edge (with_next d (first_edge d n) e)) S (Ok ()) S1" "live S1" "link_update S S1"
      "edges S1 = (edges S)(r \<mapsto> with_next d (first_edge d n) e)" "nodes S1 = nodes S"
      "links S1 d = (links S d)(r \<mapsto> first_edge d n)" "\<And>d'. d' \<noteq> d \<Longrightarrow> links S1 d' = links S d'"
      "\<And>d'. heads S1 d' = heads S d'" "\<And>d'. ends S1 d' = ends S d'"
    using write_edge_graph [OF lv G(1,2) e] by blast
  have n1: "nodes S1 v = Some n" using n S1(5) by simp
  obtain S2 where S2: "space_does (write_node (with_first d (Some r) n)) S1 (Ok ()) S2" "live S2" "link_update S1 S2"
      "nodes S2 = (nodes S1)(v \<mapsto> with_first d (Some r) n)" "edges S2 = edges S1"
      "heads S2 d = (heads S1 d)(v \<mapsto> Some r)" "\<And>d'. d' \<noteq> d \<Longrightarrow> heads S2 d' = heads S1 d'"
      "\<And>d'. links S2 d' = links S1 d'" "\<And>d'. ends S2 d' = ends S1 d'"
    using write_node_graph [OF S1(2) link_updateD(1,2) [OF S1(3)] n1] by blast
  have run: "space_does (append_edge d v r) S (Ok ()) S2"
    unfolding append_edge_def
    by (rule node_store.read_then [OF lv n], rule edge_store.read_then [OF lv e], rule space_does_bnd [OF S1(1)]) (rule S2(1))
  have hd: "heads S d v = Some (first_edge d n)" "ends S d r = Some v" using n e assms(5) by (simp_all add: heads_def ends_def)
  have "lists (heads S2 k) (links S2 k) (ends S2 k) ((L(d := (L d)(v := r # L d v))) k)" for k
  proof (cases "k = d")
    case True
    then show ?thesis
      using lists_push [OF G(3) hd assms(6)] by (simp add: S2(6,8,9) S1(6,8,9))
  next
    case False
    then show ?thesis using G(3) [of k] by (simp add: S2(7,8,9) S1(7,8,9))
  qed
  then have "graph S2 (L(d := (L d)(v := r # L d v)))"
    using link_updateD(1,2) [OF S2(3)] by (simp add: graph_def)
  then show ?thesis
    using run link_update_trans [OF S1(3) S2(3)] S2(4,5) S1(4,5) by (intro exI [of _ S2]) simp
qed

text \<open>The loop that looks for the predecessor.\<close>

lemma unlink_loop_does:
  assumes lv: "live S" and ids: "ids_ok S" "topo_inv S" and "chain (links S d) start (as @ p # t # rs)" "length as < left" "distinct (as @ p # t # rs)"
  shows "\<exists>ep S'. edges S p = Some ep \<and> space_does (unlink_loop d left start t tn) S (Ok ()) S' \<and> live S' \<and> link_update S S' \<and>
    edges S' = (edges S)(p \<mapsto> with_next d tn ep) \<and> nodes S' = nodes S"
  using assms(4-6)
proof (induction as arbitrary: start left)
  case Nil
  obtain left' where left: "left = Suc left'" using Nil.prems(2) by (cases left) auto
  obtain ep where ep: "edges S p = Some ep" "next_edge d ep = Some t" and start: "start = Some p"
    using Nil.prems(1) by (auto simp: links_def)
  obtain S1 where S1: "space_does (write_edge (with_next d tn ep)) S (Ok ()) S1" "live S1" "link_update S S1"
      "edges S1 = (edges S)(p \<mapsto> with_next d tn ep)" "nodes S1 = nodes S"
    by (rule write_edge_graph [OF lv ids ep(1), where d = d and h = tn]) (rule that, assumption+)
  have "space_does (unlink_loop d left start t tn) S (Ok ()) S1"
    unfolding left start unlink_loop.simps
    by (rule edge_store.read_then [OF lv ep(1)]) (simp add: ep(2) S1(1))
  then show ?case using S1 ep by blast
next
  case (Cons a as)
  obtain left' where left: "left = Suc left'" using Cons.prems(2) by (cases left) auto
  obtain x where x: "links S d a = Some x" "chain (links S d) x (as @ p # t # rs)" and start: "start = Some a"
    using Cons.prems(1) by auto
  then obtain ea where ea: "edges S a = Some ea" "chain (links S d) (next_edge d ea) (as @ p # t # rs)"
    by (auto simp: links_def [of S d a])
  have ne: "next_edge d ea \<noteq> Some t"
    using ea(2) Cons.prems(3) by (cases as) auto
  have less: "length as < left'" and dist: "distinct (as @ p # t # rs)" using Cons.prems(2,3) left by simp_all
  obtain ep S' where S': "edges S p = Some ep" "space_does (unlink_loop d left' (next_edge d ea) t tn) S (Ok ()) S'" "live S'"
      "link_update S S'" "edges S' = (edges S)(p \<mapsto> with_next d tn ep)" "nodes S' = nodes S"
    using Cons.IH [OF ea(2) less dist] by blast
  have "space_does (unlink_loop d left start t tn) S (Ok ()) S'"
    unfolding left start unlink_loop.simps
    by (rule edge_store.read_then [OF lv ea(1)]) (simp add: ne S'(2))
  then show ?case using S' by blast
qed

text \<open>A list of edges in use is shorter than the walk bound.\<close>

lemma record_id_card: "finite (UNIV :: record_id set)" "card (UNIV :: record_id set) \<le> MAX_LINKS"
proof -
  let ?f = "\<lambda>(p, s). rid_new p s"
  have surj: "(UNIV :: record_id set) = ?f ` (UNIV :: (u32 \<times> u16) set)"
  proof -
    have "rid = ?f (page_id rid, slot_id rid)" for rid :: record_id by (cases rid) (simp add: rid_new_def)
    then show ?thesis by (metis UNIV_eq_I rangeI)
  qed
  have fin: "finite (UNIV :: (u32 \<times> u16) set)" by simp
  then show "finite (UNIV :: record_id set)" unfolding surj by (rule finite_imageI)
  have "card (UNIV :: record_id set) \<le> card (UNIV :: (u32 \<times> u16) set)" unfolding surj by (rule card_image_le [OF fin])
  also have "\<dots> = CARD(u32) * CARD(u16)" by (rule card_prod)
  also have "\<dots> = MAX_LINKS" by (simp add: card_word MAX_LINKS_def)
  finally show "card (UNIV :: record_id set) \<le> MAX_LINKS" .
qed

lemma distinct_rids: "distinct (rs :: record_id list) \<Longrightarrow> length rs \<le> MAX_LINKS"
  using card_mono [OF record_id_card(1), of "set rs"] record_id_card(2) by (simp add: distinct_card)

lemma remove_from_list_does:
  assumes lv: "live S" and g: "graph S L" and n: "nodes S v = Some n" and t: "t \<in> set (L d v)" and e: "edges S t = Some e"
  shows "\<exists>S'. space_does (remove_from_list d v t (next_edge d e)) S (Ok ()) S' \<and> live S' \<and>
    graph S' (L(d := (L d)(v := remove1 t (L d v)))) \<and> link_update S S' \<and>
    dom (nodes S') = dom (nodes S) \<and> edges S' t = Some e \<and>
    (\<forall>d' r. d' \<noteq> d \<longrightarrow> links S' d' r = links S d' r) \<and> (\<forall>d'. ends S' d' = ends S d')"
proof -
  note G = graphD [OF g]
  have hd: "heads S d v = Some (first_edge d n)" using n by (simp add: heads_def)
  note D = listsD [OF G(3) hd]
  have nt: "links S d t = Some (next_edge d e)" using e by (simp add: links_def)
  have goal_of: ?thesis
    if S': "space_does (remove_from_list d v t (next_edge d e)) S (Ok ()) S'" "live S'" "link_update S S'"
      "lists (heads S' d) (links S' d) (ends S' d) ((L d)(v := remove1 t (L d v)))"
      "\<And>d'. d' \<noteq> d \<Longrightarrow> heads S' d' = heads S d'" "\<And>d'. d' \<noteq> d \<Longrightarrow> links S' d' = links S d'"
      "\<And>d'. ends S' d' = ends S d'" "dom (nodes S') = dom (nodes S)" "edges S' t = Some e" for S'
  proof -
    have "lists (heads S' k) (links S' k) (ends S' k) ((L(d := (L d)(v := remove1 t (L d v)))) k)" for k
      using S'(4-7) G(3) [of k] by (cases "k = d") simp_all
    then have "graph S' (L(d := (L d)(v := remove1 t (L d v))))"
      using link_updateD(1,2) [OF S'(3)] by (simp add: graph_def)
    then show ?thesis using S'(1,2,3,6-9) by (intro exI [of _ S']) simp
  qed
  obtain as rs where split: "L d v = as @ t # rs" "t \<notin> set as" using t by (metis in_set_conv_decomp_first)
  have removed: "remove1 t (L d v) = as @ rs" using split by (simp add: remove1_append)
  show ?thesis
  proof (cases as rule: rev_cases)
    case Nil
    then have start: "first_edge d n = Some t" using D(1) split(1) by simp
    obtain S1 where S1: "space_does (write_node (with_first d (next_edge d e) n)) S (Ok ()) S1" "live S1" "link_update S S1"
        "nodes S1 = (nodes S)(v \<mapsto> with_first d (next_edge d e) n)" "edges S1 = edges S"
        "heads S1 d = (heads S d)(v \<mapsto> next_edge d e)" "\<And>d'. d' \<noteq> d \<Longrightarrow> heads S1 d' = heads S d'"
        "\<And>d'. links S1 d' = links S d'" "\<And>d'. ends S1 d' = ends S d'"
      using write_node_graph [OF lv G(1,2) n] by blast
    have run: "space_does (remove_from_list d v t (next_edge d e)) S (Ok ()) S1"
      unfolding remove_from_list_def by (rule node_store.read_then [OF lv n]) (simp add: start S1(1))
    have "L d v = t # rs" using split Nil by simp
    from lists_pop [OF G(3) hd this nt] have "lists (heads S1 d) (links S1 d) (ends S1 d) ((L d)(v := remove1 t (L d v)))"
      using removed Nil by (simp add: S1(6,8,9))
    then show ?thesis
      using n by (intro goal_of [OF run S1(2,3)]) (auto simp: S1(4,5,7,8,9) e)
  next
    case (snoc bs p)
    then have lv_split: "L d v = bs @ p # t # rs" using split by simp
    have dist: "distinct (bs @ p # t # rs)" using D(2) lv_split by simp
    have start: "first_edge d n \<noteq> Some t" using D(1) lv_split dist by (cases bs) auto
    have "length bs < MAX_LINKS" using distinct_rids [OF D(2)] lv_split by simp
    then obtain ep S1 where S1: "edges S p = Some ep"
        "space_does (unlink_loop d MAX_LINKS (first_edge d n) t (next_edge d e)) S (Ok ()) S1" "live S1" "link_update S S1"
        "edges S1 = (edges S)(p \<mapsto> with_next d (next_edge d e) ep)" "nodes S1 = nodes S"
      using unlink_loop_does [OF lv G(1,2), of d "first_edge d n" bs p t rs MAX_LINKS "next_edge d e"] D(1) lv_split dist
      by auto
    have run: "space_does (remove_from_list d v t (next_edge d e)) S (Ok ()) S1"
      unfolding remove_from_list_def by (rule node_store.read_then [OF lv n]) (simp add: start S1(2))
    have upd: "heads S1 d' = heads S d'" "ends S1 d' = ends S d'"
        "links S1 d' = (if d' = d then (links S d)(p \<mapsto> next_edge d e) else links S d')" for d'
      using S1(1,5,6) by (auto simp: heads_def ends_def links_def fun_eq_iff)
    have "lists (heads S1 d) (links S1 d) (ends S1 d) ((L d)(v := remove1 t (L d v)))"
      using lists_unlink [OF G(3) hd lv_split nt] removed snoc by (simp add: upd)
    moreover have "p \<noteq> t" using dist by auto
    ultimately show ?thesis
      by (intro goal_of [OF run S1(3,4)]) (auto simp: S1(5,6) upd e)
  qed
qed

lemma dom_obtain: "dom f = dom g \<Longrightarrow> g x = Some y \<Longrightarrow> \<exists>z. f x = Some z"
  by (metis domD domI)

text \<open>Deleting an edge that is in both of its lists.\<close>

definition delete_lists :: "record_id \<Rightarrow> edge_record \<Rightarrow> adjacency \<Rightarrow> adjacency" where
  "delete_lists r e L = (\<lambda>d. (L d)(end_of d e := remove1 r (L d (end_of d e))))"

lemma delete_edge_does:
  assumes lv: "live S" and g: "graph S L" and e: "edges S r = Some e"
    and n: "\<And>d. nodes S (end_of d e) \<noteq> None" and linked: "\<And>d. r \<in> set (L d (end_of d e))"
  shows "\<exists>S'. space_does (delete_edge r) S (Ok ()) S' \<and> graph S' (delete_lists r e L) \<and> edges S' r = None \<and>
    dom (nodes S') = dom (nodes S) \<and> dom (edges S') = dom (edges S) - {r} \<and> (\<forall>d q. q \<noteq> r \<longrightarrow> ends S' d q = ends S d q) \<and>
    sp_room S' = sp_room S \<and> keeps_props S S' \<and> node_payload S' = node_payload S \<and>
    edge_payload S' = (edge_payload S)(r := None)"
proof -
  obtain nf where nf: "nodes S (end_of Out e) = Some nf" using n by blast
  obtain S1 where S1: "space_does (remove_from_list Out (end_of Out e) r (next_edge Out e)) S (Ok ()) S1" "live S1"
      "graph S1 (L(Out := (L Out)(end_of Out e := remove1 r (L Out (end_of Out e)))))" "link_update S S1"
      "dom (nodes S1) = dom (nodes S)" "edges S1 r = Some e"
      "\<forall>d' q. d' \<noteq> Out \<longrightarrow> links S1 d' q = links S d' q" "\<forall>d'. ends S1 d' = ends S d'"
    using remove_from_list_does [OF lv g nf linked e] by blast
  let ?L1 = "L(Out := (L Out)(end_of Out e := remove1 r (L Out (end_of Out e))))"
  obtain nt where nt: "nodes S1 (end_of In e) = Some nt" using n [of In] dom_obtain [OF S1(5)] by blast
  have linked1: "r \<in> set (?L1 In (end_of In e))" using linked [of In] by simp
  obtain S2 where S2: "space_does (remove_from_list In (end_of In e) r (next_edge In e)) S1 (Ok ()) S2" "live S2"
      "graph S2 (?L1(In := (?L1 In)(end_of In e := remove1 r (?L1 In (end_of In e)))))" "link_update S1 S2"
      "dom (nodes S2) = dom (nodes S1)" "edges S2 r = Some e"
      "\<forall>d' q. d' \<noteq> In \<longrightarrow> links S2 d' q = links S1 d' q" "\<forall>d'. ends S2 d' = ends S1 d'"
    using remove_from_list_does [OF S1(2,3) nt linked1 S1(6)] by blast
  let ?L2 = "?L1(In := (?L1 In)(end_of In e := remove1 r (?L1 In (end_of In e))))"
  have L2: "?L2 = delete_lists r e L"
  proof (rule ext)
    fix d show "?L2 d = delete_lists r e L d" by (cases d) (simp_all add: delete_lists_def)
  qed
  obtain S3 where S3: "space_does (free_edge_slot r) S2 (Ok ()) S3" "edges S3 = (edges S2)(r := None)" "nodes S3 = nodes S2"
      "topo_update Edge S2 S3"
    using free_edge_does [OF S2(2,6)] by blast
  have run: "space_does (delete_edge r) S (Ok ()) S3"
    unfolding delete_edge_def remove_from_list_eqs Let_def
    using S1(1) S2(1) S3(1) unfolding end_of_def next_edge_def edge_direction.case
    by (intro edge_store.read_then [OF lv e] space_does_bnd [where k = "\<lambda>_. _"])
  note G2 = graphD [OF S2(3)]
  have gone: "r \<notin> set (delete_lists r e L d u)" for d u
  proof (cases "u = end_of d e")
    case True
    obtain m where "nodes S u = Some m" using n True by blast
    then have "distinct (L d u)" using listsD(2) [OF graphD(3) [OF g]] by (simp add: heads_def)
    then show ?thesis using True by (simp add: delete_lists_def)
  next
    case False
    have "ends S d r = Some (end_of d e)" using e by (simp add: ends_def)
    then have "r \<notin> set (L d u)" using lists_end [OF graphD(3) [OF g], of r d u] False by auto
    then show ?thesis using False by (simp add: delete_lists_def)
  qed
  have upd: "heads S3 d = heads S2 d" "links S3 d = (links S2 d)(r := None)" "ends S3 d = (ends S2 d)(r := None)" for d
    using S3(2,3) by (auto simp: heads_def links_def ends_def fun_eq_iff)
  have "lists (heads S3 d) (links S3 d) (ends S3 d) (delete_lists r e L d)" for d
    unfolding upd using lists_edge_change [of _ _ _ "delete_lists r e L d" r] G2(3) [of d] gone unfolding L2 by blast
  moreover have "ids_ok S3" using G2(1) S3(2,3) by (auto simp: ids_ok_def split: if_splits)
  moreover have "topo_inv S3" using topo_updateD(2) [OF S3(4)] G2(2) by blast
  ultimately have "graph S3 (delete_lists r e L)" by (simp add: graph_def)
  moreover have "dom (edges S3) = dom (edges S) - {r}"
  proof -
    have "dom (edges S') = dom (ends S' Out)" for S' by (auto simp: ends_def dom_def)
    then show ?thesis using upd(3) S2(8) S1(8) by auto
  qed
  moreover have "ends S3 d q = ends S d q" if "q \<noteq> r" for d q using that upd(3) S2(8) S1(8) by simp
  moreover have "keeps_props S S3"
    using keeps_props_trans [OF keeps_props_trans [OF link_updateD(4) [OF S1(4)] link_updateD(4) [OF S2(4)]]]
      topo_frame_keeps [OF topo_updateD(1) [OF S3(4)]] by blast
  moreover have "node_payload S3 = node_payload S" "edge_payload S3 = (edge_payload S)(r := None)"
    using link_updateD(5,6) [OF S1(4)] link_updateD(5,6) [OF S2(4)] S3(2,3)
    by (simp_all add: node_payload_def edge_payload_def fun_eq_iff)
  ultimately show ?thesis
    using run S3(2,3) S2(5) S1(5) topo_updateD(3) [OF S3(4)] link_updateD(3) [OF S2(4)] link_updateD(3) [OF S1(4)]
    by (intro exI [of _ S3]) simp
qed

text \<open>Collecting the edges of a node.\<close>

lemma collect_loop_does:
  assumes lv: "live S" and "chain (links S d) start rs" "length rs \<le> left"
  shows "space_does (collect_loop left start d) S (Ok (map (\<lambda>r. the (edges S r)) rs)) S"
  using assms(2,3)
proof (induction rs arbitrary: start left)
  case (Cons r rs)
  obtain left' where left: "left = Suc left'" using Cons.prems(2) by (cases left) auto
  obtain x where x: "links S d r = Some x" "chain (links S d) x rs" and start: "start = Some r" using Cons.prems(1) by auto
  then obtain e where e: "edges S r = Some e" "chain (links S d) (next_edge d e) rs"
    by (auto simp: links_def [of S d r])
  have rest: "space_does (collect_loop left' (next_edge d e) d) S (Ok (map (\<lambda>r. the (edges S r)) rs)) S"
    using Cons.IH [OF e(2)] Cons.prems(2) left by simp
  show ?case
    unfolding left start collect_loop.simps next_edge_def [symmetric]
    by (rule edge_store.read_then [OF lv e(1)], rule space_does_bnd [OF rest]) (simp add: e(1))
qed simp

lemma collect_does:
  assumes lv: "live S" and g: "graph S L" and n: "nodes S v = Some n"
  shows "space_does (collect_edge_chain v d) S (Ok (map (\<lambda>r. the (edges S r)) (L d v))) S"
proof -
  have hd: "heads S d v = Some (first_edge d n)" using n by (simp add: heads_def)
  note D = listsD [OF graphD(3) [OF g] hd]
  show ?thesis
    unfolding collect_edge_chain_def first_edge_def [symmetric]
    by (rule node_store.read_then [OF lv n], rule collect_loop_does [OF lv D(1) distinct_rids [OF D(2)]])
qed

section \<open>Whole edges\<close>

text \<open>
  The steps of \<open>Database::insert_edge\<close> (\<^verbatim>\<open>db.rs\<close>) that concern the topology: the edge record,
  then the outgoing list of its source, then the incoming list of its target.
\<close>

definition link_new_edge :: "u16 \<Rightarrow> record_id \<Rightarrow> record_id \<Rightarrow> (database_file, record_id) op" where
  "link_new_edge t from to =
     bnd (alloc_edge t from to) (\<lambda>eid.
     bnd (append_out_edge from eid) (\<lambda>_.
     bnd (append_in_edge to eid) (\<lambda>_.
     ret eid)))"

text \<open>The graph: its nodes, its edges with their end points, and the order of the lists.\<close>

record agraph =
  verts :: "record_id set"
  arcs :: "record_id \<Rightarrow> (record_id \<times> record_id) option"
  lists_of :: adjacency

definition endpoint :: "edge_direction \<Rightarrow> record_id \<times> record_id \<Rightarrow> record_id" where
  "endpoint d ft = (case d of Out \<Rightarrow> fst ft | In \<Rightarrow> snd ft)"

definition graph_rep :: "spaces \<Rightarrow> agraph \<Rightarrow> bool" where
  "graph_rep S G \<longleftrightarrow> graph S (lists_of G) \<and> verts G = dom (nodes S) \<and>
     (\<forall>r. arcs G r = map_option (\<lambda>e. (from_node e, to_node e)) (edges S r)) \<and>
     (\<forall>r ft d. arcs G r = Some ft \<longrightarrow> endpoint d ft \<in> verts G \<and> r \<in> set (lists_of G d (endpoint d ft)))"

definition add_arc :: "record_id \<Rightarrow> record_id \<times> record_id \<Rightarrow> agraph \<Rightarrow> agraph" where
  "add_arc r ft G = G\<lparr>arcs := (arcs G)(r \<mapsto> ft),
     lists_of := (\<lambda>d. (lists_of G d)(endpoint d ft := r # lists_of G d (endpoint d ft)))\<rparr>"

definition del_arc :: "record_id \<Rightarrow> agraph \<Rightarrow> agraph" where
  "del_arc r G = (case arcs G r of
      None \<Rightarrow> G
    | Some ft \<Rightarrow> G\<lparr>arcs := (arcs G)(r := None),
        lists_of := (\<lambda>d. (lists_of G d)(endpoint d ft := remove1 r (lists_of G d (endpoint d ft))))\<rparr>)"

lemma endpoint_end: "endpoint d (from_node e, to_node e) = end_of d e"
  by (cases d) (simp_all add: endpoint_def end_of_def)

lemma graph_repD:
  assumes "graph_rep S G"
  shows "graph S (lists_of G)" "verts G = dom (nodes S)" "arcs G r = map_option (\<lambda>e. (from_node e, to_node e)) (edges S r)"
    "arcs G r = Some ft \<Longrightarrow> endpoint d ft \<in> verts G" "arcs G r = Some ft \<Longrightarrow> r \<in> set (lists_of G d (endpoint d ft))"
  using assms unfolding graph_rep_def by blast+

lemma graph_rep_list:
  assumes "graph_rep S G" "r \<in> set (lists_of G d v)"
  shows "\<exists>ft. arcs G r = Some ft \<and> endpoint d ft = v"
proof -
  have "ends S d r = Some v" using lists_end [OF graphD(3) [OF graph_repD(1) [OF assms(1)]] assms(2)] .
  then obtain e where "edges S r = Some e" "end_of d e = v" by (auto simp: ends_def)
  then show ?thesis using graph_repD(3) [OF assms(1), of r] by (auto simp: endpoint_end)
qed

lemma new_node_rep:
  assumes lv: "live S" and rep: "graph_rep S G" and room: "2 \<le> sp_room S"
  shows "\<exists>rid S'. space_does (alloc_node t) S (Ok rid) S' \<and> rid \<notin> verts G \<and>
    graph_rep S' (G\<lparr>verts := insert rid (verts G)\<rparr>) \<and> sp_room S - 2 \<le> sp_room S'"
proof -
  note R = graph_repD [OF rep]
  note D = graphD [OF R(1)]
  obtain rid S' where S': "space_does (alloc_node t) S (Ok rid) S'" "nodes S rid = None" "nodes S' = (nodes S)(rid \<mapsto> new_node rid t)"
      "edges S' = edges S" "alloc_result_of Node S S'"
    using alloc_node_does [OF lv room] by blast
  have new: "heads S' d = (heads S d)(rid \<mapsto> None)" "links S' d = links S d" "ends S' d = ends S d" for d
    using S'(3,4) by (auto simp: heads_def links_def ends_def fun_eq_iff new_node_def first_edge_def split: edge_direction.split)
  have "lists (heads S' d) (links S' d) (ends S' d) (lists_of G d)" for d
    unfolding new by (rule lists_new_node [OF D(3)]) (simp add: heads_def S'(2))
  moreover have "ids_ok S'" using D(1) S'(3,4) by (auto simp: ids_ok_def new_node_def)
  moreover have "topo_inv S'" "sp_room S - 2 \<le> sp_room S'" using S'(5) D(2) by (auto simp: alloc_result_of_def topo_frame_def)
  ultimately have "graph_rep S' (G\<lparr>verts := insert rid (verts G)\<rparr>)" "sp_room S - 2 \<le> sp_room S'"
    using R(2-5) S'(3,4) by (auto simp: graph_rep_def graph_def)
  moreover have "rid \<notin> verts G" using R(2) S'(2) by auto
  ultimately show ?thesis using S'(1) by blast
qed

lemma link_new_edge_rep:
  assumes lv: "live S" and rep: "graph_rep S G" and room: "2 \<le> sp_room S" and ft: "f \<in> verts G" "t \<in> verts G"
  shows "\<exists>r S'. space_does (link_new_edge ty f t) S (Ok r) S' \<and> arcs G r = None \<and> graph_rep S' (add_arc r (f, t) G) \<and>
    sp_room S - 2 \<le> sp_room S'"
proof -
  note R = graph_repD [OF rep]
  note D = graphD [OF R(1)]
  let ?L = "lists_of G"
  obtain r S1 where S1: "space_does (alloc_edge ty f t) S (Ok r) S1" "edges S r = None"
      "edges S1 = (edges S)(r \<mapsto> new_edge r ty f t)" "nodes S1 = nodes S" "alloc_result_of Edge S S1"
    using alloc_edge_does [OF lv room] by blast
  let ?e = "new_edge r ty f t"
  have lv1: "live S1" using live_does [OF S1(1) lv] .
  have notin: "r \<notin> set (?L d u)" for d u using graph_rep_list [OF rep, of r d u] R(3) [of r] S1(2) by auto
  have new: "heads S1 d = heads S d" "links S1 d = (links S d)(r := Some None)" "ends S1 d = (ends S d)(r := Some (endpoint d (f, t)))" for d
    using S1(3,4) by (auto simp: heads_def links_def ends_def fun_eq_iff new_edge_def next_edge_def end_of_def endpoint_def
        split: edge_direction.split)
  have "lists (heads S1 d) (links S1 d) (ends S1 d) (?L d)" for d
    unfolding new by (rule lists_edge_change [OF D(3) notin])
  moreover have "ids_ok S1" using D(1) S1(3,4) by (auto simp: ids_ok_def new_edge_def)
  moreover have "topo_inv S1" using S1(5) D(2) by (auto simp: alloc_result_of_def)
  ultimately have g1: "graph S1 ?L" by (simp add: graph_def)
  obtain nf where nf: "nodes S1 f = Some nf" using ft(1) R(2) S1(4) by auto
  have e1: "edges S1 r = Some ?e" "end_of Out ?e = f" "end_of In ?e = t" by (simp_all add: S1(3) new_edge_def end_of_def)
  obtain S2 where S2: "space_does (append_edge Out f r) S1 (Ok ()) S2" "graph S2 (?L(Out := (?L Out)(f := r # ?L Out f)))"
      "link_update S1 S2" "nodes S2 = (nodes S1)(f \<mapsto> with_first Out (Some r) nf)"
      "edges S2 = (edges S1)(r \<mapsto> with_next Out (first_edge Out nf) ?e)"
    using append_edge_does [OF lv1 g1 nf e1(1,2) notin] by blast
  let ?e2 = "with_next Out (first_edge Out nf) ?e"
  have lv2: "live S2" using live_does [OF S2(1) lv1] .
  obtain nt where nt: "nodes S2 t = Some nt" using ft(2) R(2) S1(4) S2(4) by (cases "t = f") auto
  have e2: "edges S2 r = Some ?e2" "end_of In ?e2 = t" using e1(3) by (simp_all add: S2(5))
  let ?L2 = "?L(Out := (?L Out)(f := r # ?L Out f))"
  have "r \<notin> set (?L2 In t)" using notin [of In t] by simp
  from append_edge_does [OF lv2 S2(2) nt e2 this] obtain S3 where S3: "space_does (append_edge In t r) S2 (Ok ()) S3"
      "graph S3 (?L2(In := (?L2 In)(t := r # ?L2 In t)))" "link_update S2 S3"
      "nodes S3 = (nodes S2)(t \<mapsto> with_first In (Some r) nt)" "edges S3 = (edges S2)(r \<mapsto> with_next In (first_edge In nt) ?e2)"
    by blast
  have run: "space_does (link_new_edge ty f t) S (Ok r) S3"
    unfolding link_new_edge_def append_edge_eqs
    by (rule space_does_bnd [OF S1(1)], rule space_does_bnd [OF S2(1)], rule space_does_bnd [OF S3(1)]) simp
  have L3: "?L2(In := (?L2 In)(t := r # ?L2 In t)) = lists_of (add_arc r (f, t) G)"
  proof (rule ext)
    fix d show "(?L2(In := (?L2 In)(t := r # ?L2 In t))) d = lists_of (add_arc r (f, t) G) d"
      by (cases d) (simp_all add: add_arc_def endpoint_def)
  qed
  have "graph_rep S3 (add_arc r (f, t) G)"
    unfolding graph_rep_def
  proof (intro conjI allI impI)
    show "graph S3 (lists_of (add_arc r (f, t) G))" using S3(2) unfolding L3 .
    show "verts (add_arc r (f, t) G) = dom (nodes S3)"
      using R(2) nf ft(2) S1(4) by (auto simp: add_arc_def S3(4) S2(4))
    fix q
    have "from_node (with_next d v e) = from_node e" "to_node (with_next d v e) = to_node e" for d v e
      by (cases d; simp add: with_next_def)+
    then show "arcs (add_arc r (f, t) G) q = map_option (\<lambda>e. (from_node e, to_node e)) (edges S3 q)"
      using R(3) [of q] by (simp add: add_arc_def S3(5) S2(5) S1(3)) (simp add: new_edge_def)
    fix ft d assume "arcs (add_arc r (f, t) G) q = Some ft"
    then have q: "(q = r \<and> ft = (f, t)) \<or> (q \<noteq> r \<and> arcs G q = Some ft)" by (auto simp: add_arc_def split: if_splits)
    then show "endpoint d ft \<in> verts (add_arc r (f, t) G)"
      using ft R(4) [of q ft d] by (cases d) (auto simp: add_arc_def endpoint_def)
    show "q \<in> set (lists_of (add_arc r (f, t) G) d (endpoint d ft))"
      using q R(5) [of q ft d] by (auto simp: add_arc_def)
  qed
  moreover have "sp_room S - 2 \<le> sp_room S3"
    using S1(5) link_updateD(3) [OF S2(3)] link_updateD(3) [OF S3(3)] by (simp add: alloc_result_of_def topo_frame_def)
  moreover have "arcs G r = None" using R(3) [of r] S1(2) by simp
  ultimately show ?thesis using run by blast
qed

lemma delete_edge_rep:
  assumes lv: "live S" and rep: "graph_rep S G" and r: "arcs G r = Some ft"
  shows "\<exists>S'. space_does (delete_edge r) S (Ok ()) S' \<and> graph_rep S' (del_arc r G) \<and> sp_room S' = sp_room S"
proof -
  note R = graph_repD [OF rep]
  obtain e where e: "edges S r = Some e" "ft = (from_node e, to_node e)" using R(3) [of r] r by (cases "edges S r") auto
  have end_eq: "endpoint d ft = end_of d e" for d by (simp add: e(2) endpoint_end)
  have n: "nodes S (end_of d e) \<noteq> None" for d using R(2) R(4) [OF r, of d] by (auto simp: end_eq)
  have linked: "r \<in> set (lists_of G d (end_of d e))" for d using R(5) [OF r, of d] by (simp add: end_eq)
  obtain S' where S': "space_does (delete_edge r) S (Ok ()) S'" "graph S' (delete_lists r e (lists_of G))" "edges S' r = None"
      "dom (nodes S') = dom (nodes S)" "dom (edges S') = dom (edges S) - {r}" "\<forall>d q. q \<noteq> r \<longrightarrow> ends S' d q = ends S d q" "sp_room S' = sp_room S"
    using delete_edge_does [OF lv R(1) e(1) n linked] by blast
  have lists: "lists_of (del_arc r G) = delete_lists r e (lists_of G)"
    by (simp add: del_arc_def r delete_lists_def end_eq)
  have arc: "arcs G q = map_option (\<lambda>e. (from_node e, to_node e)) (edges S' q)" if "q \<noteq> r" for q
  proof -
    have "ends S' Out q = ends S Out q" "ends S' In q = ends S In q" using S'(6) that by blast+
    then show ?thesis using R(3) [of q] by (cases "edges S q"; cases "edges S' q") (auto simp: ends_def end_of_def)
  qed
  have "graph_rep S' (del_arc r G)"
    unfolding graph_rep_def
  proof (intro conjI allI impI)
    show "graph S' (lists_of (del_arc r G))" using S'(2) unfolding lists .
    show "verts (del_arc r G) = dom (nodes S')" using R(2) S'(4) by (simp add: del_arc_def r)
    show "arcs (del_arc r G) q = map_option (\<lambda>e. (from_node e, to_node e)) (edges S' q)" for q
      using arc [of q] S'(3) by (simp add: del_arc_def r)
    fix q ft' d assume q: "arcs (del_arc r G) q = Some ft'"
    then have "q \<noteq> r" "arcs G q = Some ft'" by (auto simp: del_arc_def r split: if_splits)
    then show "endpoint d ft' \<in> verts (del_arc r G)" "q \<in> set (lists_of (del_arc r G) d (endpoint d ft'))"
      using R(4) [of q ft' d] R(5) [of q ft' d] by (auto simp: del_arc_def r)
  qed
  then show ?thesis using S'(1,7) by blast
qed

lemma free_node_rep:
  assumes lv: "live S" and rep: "graph_rep S G" and v: "v \<in> verts G" and none: "\<And>d. lists_of G d v = []"
  shows "\<exists>S'. space_does (free_node v) S (Ok ()) S' \<and> graph_rep S' (G\<lparr>verts := verts G - {v}\<rparr>) \<and> sp_room S' = sp_room S"
proof -
  note R = graph_repD [OF rep]
  note D = graphD [OF R(1)]
  obtain n where n: "nodes S v = Some n" using v R(2) by auto
  obtain S' where S': "space_does (free_node v) S (Ok ()) S'" "nodes S' = (nodes S)(v := None)" "edges S' = edges S" "topo_update Node S S'"
    using free_node_does [OF lv n] by blast
  have new: "heads S' d = (heads S d)(v := None)" "links S' d = links S d" "ends S' d = ends S d" for d
    using S'(2,3) by (auto simp: heads_def links_def ends_def fun_eq_iff)
  have "lists (heads S' d) (links S' d) (ends S' d) (lists_of G d)" for d
    unfolding new by (rule lists_free_node [OF D(3) none])
  moreover have "ids_ok S'" using D(1) S'(2,3) by (auto simp: ids_ok_def)
  moreover have "topo_inv S'" using topo_updateD(2) [OF S'(4) D(2)] .
  ultimately have g: "graph S' (lists_of G)" by (simp add: graph_def)
  have "endpoint d ft \<noteq> v" if "arcs G r = Some ft" for r ft d
    using R(5) [OF that, of d] none [of d] by auto
  then have "graph_rep S' (G\<lparr>verts := verts G - {v}\<rparr>)"
    using g R(2-5) S'(2,3) by (auto simp: graph_rep_def)
  then show ?thesis using S'(1) topo_updateD(3) [OF S'(4)] by blast
qed

lemma collect_rep:
  assumes lv: "live S" and rep: "graph_rep S G" and v: "v \<in> verts G"
  shows "\<exists>es. space_does (collect_edge_chain v d) S (Ok es) S \<and> map e_id es = lists_of G d v \<and>
    (\<forall>e\<in>set es. arcs G (e_id e) = Some (from_node e, to_node e) \<and> end_of d e = v)"
proof -
  note R = graph_repD [OF rep]
  obtain n where n: "nodes S v = Some n" using v R(2) by auto
  let ?es = "map (\<lambda>r. the (edges S r)) (lists_of G d v)"
  have e: "\<exists>e. edges S r = Some e \<and> e_id e = r \<and> end_of d e = v" if r: "r \<in> set (lists_of G d v)" for r
  proof -
    have "ends S d r = Some v" using lists_end [OF graphD(3) [OF R(1)] r] .
    then obtain e where "edges S r = Some e" "end_of d e = v" by (auto simp: ends_def)
    then show ?thesis using graphD(1) [OF R(1)] by (auto simp: ids_ok_def)
  qed
  have "map e_id ?es = map (\<lambda>r. r) (lists_of G d v)"
    unfolding map_map by (rule map_cong [OF refl]) (use e in force)
  then have ids: "map e_id ?es = lists_of G d v" by simp
  have arc: "\<forall>e\<in>set ?es. arcs G (e_id e) = Some (from_node e, to_node e) \<and> end_of d e = v"
    using e R(3) by force
  show ?thesis
    by (rule exI [of _ ?es], intro conjI collect_does [OF lv R(1) n] ids arc)
qed

section \<open>Traces of calls\<close>

datatype graph_call =
  NewNode u16 | NewEdge u16 record_id record_id | DropEdge record_id | DropNode record_id | ListEdges edge_direction record_id

datatype graph_reply = Made "record_id res" | Dropped "unit res" | Listed "edge_record list res"

fun graph_step :: "graph_call \<Rightarrow> database_file \<Rightarrow> graph_reply \<times> database_file" where
  "graph_step (NewNode t) db = (case alloc_node t db of (r, db') \<Rightarrow> (Made r, db'))"
| "graph_step (NewEdge t f u) db = (case link_new_edge t f u db of (r, db') \<Rightarrow> (Made r, db'))"
| "graph_step (DropEdge e) db = (case delete_edge e db of (r, db') \<Rightarrow> (Dropped r, db'))"
| "graph_step (DropNode v) db = (case free_node v db of (r, db') \<Rightarrow> (Dropped r, db'))"
| "graph_step (ListEdges Out v) db = (case collect_out_edges v db of (r, db') \<Rightarrow> (Listed r, db'))"
| "graph_step (ListEdges In v) db = (case collect_in_edges v db of (r, db') \<Rightarrow> (Listed r, db'))"

fun run_graph :: "graph_call list \<Rightarrow> database_file \<Rightarrow> graph_reply list \<times> database_file" where
  "run_graph [] db = ([], db)"
| "run_graph (c # cs) db =
     (case graph_step c db of (r, db') \<Rightarrow> (case run_graph cs db' of (rs, db'') \<Rightarrow> (r # rs, db'')))"

text \<open>
  The specification. Edges are made between nodes of the graph, edges of the graph are dropped, and a
  node is dropped when it has no edges (\<open>Database::delete_node\<close> drops them first). Nothing is promised
  from the first other call on.
\<close>

fun graph_legal :: "agraph \<Rightarrow> graph_call \<Rightarrow> bool" where
  "graph_legal G (NewNode t) \<longleftrightarrow> True"
| "graph_legal G (NewEdge t f u) \<longleftrightarrow> f \<in> verts G \<and> u \<in> verts G"
| "graph_legal G (DropEdge e) \<longleftrightarrow> arcs G e \<noteq> None"
| "graph_legal G (DropNode v) \<longleftrightarrow> v \<in> verts G \<and> lists_of G Out v = [] \<and> lists_of G In v = []"
| "graph_legal G (ListEdges d v) \<longleftrightarrow> v \<in> verts G"

fun graph_answer :: "agraph \<Rightarrow> graph_call \<Rightarrow> graph_reply \<Rightarrow> agraph \<Rightarrow> bool" where
  "graph_answer G (NewNode t) r G' \<longleftrightarrow> (\<exists>v. r = Made (Ok v) \<and> v \<notin> verts G \<and> G' = G\<lparr>verts := insert v (verts G)\<rparr>)"
| "graph_answer G (NewEdge t f u) r G' \<longleftrightarrow> (\<exists>e. r = Made (Ok e) \<and> arcs G e = None \<and> G' = add_arc e (f, u) G)"
| "graph_answer G (DropEdge e) r G' \<longleftrightarrow> r = Dropped (Ok ()) \<and> G' = del_arc e G"
| "graph_answer G (DropNode v) r G' \<longleftrightarrow> r = Dropped (Ok ()) \<and> G' = G\<lparr>verts := verts G - {v}\<rparr>"
| "graph_answer G (ListEdges d v) r G' \<longleftrightarrow>
     (\<exists>es. r = Listed (Ok es) \<and> map e_id es = lists_of G d v \<and>
       (\<forall>e\<in>set es. arcs G (e_id e) = Some (from_node e, to_node e) \<and> end_of d e = v)) \<and> G' = G"

inductive graph_trace :: "agraph \<Rightarrow> graph_call list \<Rightarrow> graph_reply list \<Rightarrow> bool" where
  graph_end: "graph_trace G [] []"
| graph_illegal: "\<not> graph_legal G c \<Longrightarrow> graph_trace G (c # cs) rs"
| graph_step: "graph_legal G c \<Longrightarrow> graph_answer G c r G' \<Longrightarrow> graph_trace G' cs rs \<Longrightarrow> graph_trace G (c # cs) (r # rs)"

inductive_simps graph_trace_Nil: "graph_trace G [] rs"
inductive_cases graph_trace_ConsE: "graph_trace G (c # cs) rs"

lemma does_run: "space_does m S r S' \<Longrightarrow> space_rep db S \<Longrightarrow> \<exists>db'. m db = (r, db') \<and> space_rep db' S'"
  unfolding does_def by blast

lemma graph_step_refines:
  assumes rep: "space_rep db S" and g: "graph_rep S G" and legal: "graph_legal G c" and room: "2 \<le> sp_room S"
  shows "\<exists>r db' S' G'. graph_step c db = (r, db') \<and> graph_answer G c r G' \<and> space_rep db' S' \<and> graph_rep S' G' \<and>
    sp_room S - 2 \<le> sp_room S'"
proof -
  have lv: "live S" using rep by (auto simp: live_def)
  show ?thesis
  proof (cases c)
    case (NewNode t)
    from new_node_rep [OF lv g room, of t] obtain v S' where v: "space_does (alloc_node t) S (Ok v) S'" "v \<notin> verts G"
        "graph_rep S' (G\<lparr>verts := insert v (verts G)\<rparr>)" "sp_room S - 2 \<le> sp_room S'" by blast
    obtain db' where "alloc_node t db = (Ok v, db')" "space_rep db' S'" using does_run [OF v(1) rep] by blast
    then show ?thesis using v
      by (intro exI [of _ "Made (Ok v)"] exI [of _ db'] exI [of _ S'] exI [of _ "G\<lparr>verts := insert v (verts G)\<rparr>"]) (simp add: NewNode)
  next
    case (NewEdge t f u)
    from link_new_edge_rep [OF lv g room, of f u t] legal obtain e S' where e: "space_does (link_new_edge t f u) S (Ok e) S'"
        "arcs G e = None" "graph_rep S' (add_arc e (f, u) G)" "sp_room S - 2 \<le> sp_room S'" by (auto simp: NewEdge)
    obtain db' where "link_new_edge t f u db = (Ok e, db')" "space_rep db' S'" using does_run [OF e(1) rep] by blast
    then show ?thesis using e
      by (intro exI [of _ "Made (Ok e)"] exI [of _ db'] exI [of _ S'] exI [of _ "add_arc e (f, u) G"]) (simp add: NewEdge)
  next
    case (DropEdge e)
    then obtain ft where "arcs G e = Some ft" using legal by auto
    from delete_edge_rep [OF lv g this] obtain S' where S': "space_does (delete_edge e) S (Ok ()) S'"
        "graph_rep S' (del_arc e G)" "sp_room S' = sp_room S" by (elim exE conjE) (rule that, assumption+)
    obtain db' where "delete_edge e db = (Ok (), db')" "space_rep db' S'" using does_run [OF S'(1) rep] by blast
    then show ?thesis using S'
      by (intro exI [of _ "Dropped (Ok ())"] exI [of _ db'] exI [of _ S'] exI [of _ "del_arc e G"]) (simp add: DropEdge)
  next
    case (DropNode v)
    have "lists_of G d v = []" for d using legal by (cases d) (simp_all add: DropNode)
    moreover have "v \<in> verts G" using legal by (simp add: DropNode)
    ultimately obtain S' where S': "space_does (free_node v) S (Ok ()) S'"
        "graph_rep S' (G\<lparr>verts := verts G - {v}\<rparr>)" "sp_room S' = sp_room S" using free_node_rep [OF lv g] by metis
    obtain db' where "free_node v db = (Ok (), db')" "space_rep db' S'" using does_run [OF S'(1) rep] by blast
    then show ?thesis using S'
      by (intro exI [of _ "Dropped (Ok ())"] exI [of _ db'] exI [of _ S'] exI [of _ "G\<lparr>verts := verts G - {v}\<rparr>"]) (simp add: DropNode)
  next
    case (ListEdges d v)
    from collect_rep [OF lv g, of v d] legal obtain es where es: "space_does (collect_edge_chain v d) S (Ok es) S"
        "map e_id es = lists_of G d v" "\<forall>e\<in>set es. arcs G (e_id e) = Some (from_node e, to_node e) \<and> end_of d e = v"
      by (auto simp: ListEdges)
    obtain db' where db': "collect_edge_chain v d db = (Ok es, db')" "space_rep db' S" using does_run [OF es(1) rep] by blast
    have "graph_step c db = (Listed (Ok es), db')"
      using db'(1) by (cases d) (simp_all add: ListEdges collect_out_edges_def collect_in_edges_def)
    moreover have "graph_answer G c (Listed (Ok es)) G" using es(2,3) by (simp add: ListEdges)
    ultimately show ?thesis using db'(2) g by (metis diff_le_self)
  qed
qed

lemma run_graph_refines:
  assumes "space_rep db S" "graph_rep S G" "2 * length cs \<le> sp_room S"
  shows "graph_trace G cs (fst (run_graph cs db))"
  using assms
proof (induction cs arbitrary: db S G)
  case Nil
  then show ?case by (simp add: graph_end)
next
  case (Cons c cs)
  show ?case
  proof (cases "graph_legal G c")
    case False
    then show ?thesis by (rule graph_illegal)
  next
    case True
    obtain r db' S' G' where s: "graph_step c db = (r, db')" "graph_answer G c r G'" "space_rep db' S'" "graph_rep S' G'"
        "sp_room S - 2 \<le> sp_room S'"
      using graph_step_refines [OF Cons.prems(1,2) True] Cons.prems(3) by auto
    have "graph_trace G' cs (fst (run_graph cs db'))" using Cons.IH [OF s(3,4)] s(5) Cons.prems(3) by simp
    then show ?thesis using graph_trace.graph_step [OF True s(2)] s(1) by (simp add: split_beta)
  qed
qed

definition empty_graph :: agraph where
  "empty_graph = \<lparr>verts = {}, arcs = Map.empty, lists_of = (\<lambda>_ _. [])\<rparr>"

lemma fresh_graph: "graph_rep (fresh_spaces n) empty_graph"
proof -
  have "nodes (fresh_spaces n) = Map.empty" "edges (fresh_spaces n) = Map.empty"
    by (simp_all add: fun_eq_iff nodes_def edges_def cells_def pages_cells_def fresh_spaces_def)
  then show ?thesis
    using fresh_topo_inv [of n] by (simp add: graph_rep_def graph_def empty_graph_def ids_ok_def lists_def heads_def)
qed

section \<open>Properties\<close>

text \<open>
  C18: the adjacency structure implements a directed multigraph, on every sequence of calls. A new
  node has an id not in use and no edges; a new edge has an id not in use and stands at the head of
  the outgoing list of its source and of the incoming list of its target (self loops included);
  deleting an edge takes it out of both lists and leaves every other edge, and the order of the lists,
  alone; listing the edges of a node returns exactly its list, with the right end points. Every walk
  along the pointers ends, and no error is returned.
\<close>

theorem topology_is_multigraph:
  assumes "space_rep db S" "graph_rep S G" "2 * length cs \<le> sp_room S"
  shows "graph_trace G cs (fst (run_graph cs db))"
  using run_graph_refines [OF assms] .

theorem topology_is_multigraph_witness:
  "\<exists>a b. a \<noteq> b \<and> fst (run_graph [NewNode 1, NewNode 2] create_in_memory) = [Made (Ok a), Made (Ok b)]"
proof -
  have "graph_trace empty_graph [NewNode 1, NewNode 2] (fst (run_graph [NewNode 1, NewNode 2] create_in_memory))"
    by (rule topology_is_multigraph [OF memory_spaces fresh_graph]) (simp add: fresh_spaces_def)
  then show ?thesis
    by (auto elim!: graph_trace_ConsE simp: graph_trace_Nil)
qed

text \<open>
  C31: deleting an edge. In any graph, deleting an edge succeeds; afterwards its id is free, every
  other edge keeps its end points, and each adjacency list is the old one without that edge, in the
  same order.
\<close>

theorem delete_edge_unlinks:
  assumes "space_rep db S" "graph_rep S G" "arcs G r = Some ft"
  shows "\<exists>db' S' G'. delete_edge r db = (Ok (), db') \<and> space_rep db' S' \<and> graph_rep S' G' \<and>
    verts G' = verts G \<and> arcs G' = (arcs G)(r := None) \<and> (\<forall>d v. lists_of G' d v = filter (\<lambda>e. e \<noteq> r) (lists_of G d v))"
proof -
  have lv: "live S" using assms(1) by (auto simp: live_def)
  obtain S' where S': "space_does (delete_edge r) S (Ok ()) S'" "graph_rep S' (del_arc r G)"
    using delete_edge_rep [OF lv assms(2,3)] by blast
  obtain db' where db': "delete_edge r db = (Ok (), db')" "space_rep db' S'" using does_run [OF S'(1) assms(1)] by blast
  have "lists_of (del_arc r G) d v = filter (\<lambda>e. e \<noteq> r) (lists_of G d v)" for d v
  proof (cases "v = endpoint d ft")
    case True
    obtain n where "nodes S v = Some n" using graph_repD(2,4) [OF assms(2)] assms(3) True by blast
    then have "distinct (lists_of G d v)"
      using listsD(2) [OF graphD(3) [OF graph_repD(1) [OF assms(2)]]] by (simp add: heads_def)
    then have "remove1 r (lists_of G d v) = filter (\<lambda>e. e \<noteq> r) (lists_of G d v)"
      by (simp add: distinct_remove1_removeAll removeAll_filter_not_eq) (metis (mono_tags))
    then show ?thesis using True by (simp add: del_arc_def assms(3))
  next
    case False
    then have "r \<notin> set (lists_of G d v)" using graph_rep_list [OF assms(2), of r d v] assms(3) by auto
    then have "filter (\<lambda>e. e \<noteq> r) (lists_of G d v) = lists_of G d v" by (auto simp: filter_id_conv)
    then show ?thesis using False by (simp add: del_arc_def assms(3))
  qed
  then show ?thesis
    using db' S'(2) assms(3) by (intro exI [of _ db'] exI [of _ S'] exI [of _ "del_arc r G"]) (simp add: del_arc_def)
qed

theorem delete_edge_unlinks_witness:
  "\<exists>v db1 r db2 db3. alloc_node 1 create_in_memory = (Ok v, db1) \<and> link_new_edge 2 v v db1 = (Ok r, db2) \<and>
    delete_edge r db2 = (Ok (), db3)"
proof -
  have lv: "live (fresh_spaces 1000)" using memory_spaces by (auto simp: live_def)
  have room: "2 \<le> sp_room (fresh_spaces 1000)" "sp_room (fresh_spaces 1000) = 1000" by (simp_all add: fresh_spaces_def)
  obtain v S1 where v: "space_does (alloc_node 1) (fresh_spaces 1000) (Ok v) S1"
      "graph_rep S1 (empty_graph\<lparr>verts := insert v (verts empty_graph)\<rparr>)" "sp_room (fresh_spaces 1000) - 2 \<le> sp_room S1"
    using new_node_rep [OF lv fresh_graph room(1)] by blast
  obtain db1 where db1: "alloc_node 1 create_in_memory = (Ok v, db1)" "space_rep db1 S1"
    using does_run [OF v(1) memory_spaces] by blast
  have lv1: "live S1" using db1(2) by (auto simp: live_def)
  have "2 \<le> sp_room S1" using v(3) room(2) by simp
  from link_new_edge_rep [OF lv1 v(2) this, of v v 2] obtain r S2 where
      r: "space_does (link_new_edge 2 v v) S1 (Ok r) S2"
      "graph_rep S2 (add_arc r (v, v) (empty_graph\<lparr>verts := insert v (verts empty_graph)\<rparr>))" by auto
  obtain db2 where db2: "link_new_edge 2 v v db1 = (Ok r, db2)" "space_rep db2 S2" using does_run [OF r(1) db1(2)] by blast
  have "arcs (add_arc r (v, v) (empty_graph\<lparr>verts := insert v (verts empty_graph)\<rparr>)) r = Some (v, v)" by (simp add: add_arc_def)
  from delete_edge_unlinks [OF db2(2) r(2) this] show ?thesis using db1(1) db2(1) by blast
qed

text \<open>
  A cycle in a list is not reported: the walk along it never ends. (The comment on
  \<^verbatim>\<open>collect_out_edges\<close> says that a broken pointer chain surfaces as an error.)
\<close>

lemma cyclic_list_hangs:
  assumes "live S" "edges S r = Some e" "next_edge d e = Some r"
  shows "space_does (collect_loop left (Some r) d) S (Inl Diverged) S"
proof (induction left)
  case (Suc left)
  show ?case
    unfolding collect_loop.simps next_edge_def [symmetric] assms(3)
    by (rule edge_store.read_then [OF assms(1,2)], unfold assms(3), rule space_does_bnd_Inl [OF Suc])
qed simp

end
