(* ===== verification/Pathfinding.thy ===== *)
theory Pathfinding
  imports Adjacency
begin

text \<open>
  The breadth-first search of \<^verbatim>\<open>pathfinding/mod.rs\<close> over the adjacency lists: the queue of
  nodes with their depths, the map of visited nodes with the edge and the node each was reached by,
  and the reconstruction of the path from that map.

  The model's loops carry a bound. The search visits each record id at most once, and the
  reconstruction walks along visited nodes, so \<open>MAX_LINKS\<close> (the number of record ids) is enough; the
  properties state results and no \<open>Diverged\<close>. A \<open>HashSet\<close> whose elements are collected in an
  unspecified order is a set.
\<close>

section \<open>Options and results\<close>

datatype path_direction = Outgoing | Incoming | Both

record path_options =
  max_depth :: nat
  direction :: path_direction
  edge_type_ids :: "u16 list option"

definition path_options_default :: path_options where
  "path_options_default = \<lparr>max_depth = 10, direction = Both, edge_type_ids = None\<rparr>"

record path_result =
  node_rids :: "record_id list"
  edge_rids :: "record_id list"

record connecting =
  sub_nodes :: "record_id set"
  sub_edges :: "record_id set"

section \<open>The search\<close>

definition edge_matches :: "u16 \<Rightarrow> path_options \<Rightarrow> bool" where
  "edge_matches type_id options =
     (case edge_type_ids options of None \<Rightarrow> True | Some ids \<Rightarrow> type_id \<in> set ids)"

definition neighbors :: "record_id \<Rightarrow> path_options \<Rightarrow> (database_file, (record_id \<times> record_id) list) op" where
  "neighbors node options =
     bnd (if direction options = Outgoing \<or> direction options = Both then
            bnd (collect_out_edges node) (\<lambda>es.
              ret (map (\<lambda>edge. (e_id edge, to_node edge)) (filter (\<lambda>edge. edge_matches (edge_type_id edge) options) es)))
          else ret []) (\<lambda>outgoing.
     bnd (if direction options = Incoming \<or> direction options = Both then
            bnd (collect_in_edges node) (\<lambda>es.
              ret (map (\<lambda>edge. (e_id edge, from_node edge)) (filter (\<lambda>edge. edge_matches (edge_type_id edge) options) es)))
          else ret []) (\<lambda>incoming.
     ret (outgoing @ incoming)))"

type_synonym ('v, 'e) visited_map = "'v \<Rightarrow> ('e option \<times> 'v option) option"

text \<open>The loop over the neighbours of \<open>current\<close>: it stops when the target is reached.\<close>

fun visit_neighbors :: "'v \<Rightarrow> nat \<Rightarrow> 'v \<Rightarrow> ('e \<times> 'v) list \<Rightarrow> ('v, 'e) visited_map \<Rightarrow> ('v \<times> nat) list \<Rightarrow>
    bool \<times> ('v, 'e) visited_map \<times> ('v \<times> nat) list" where
  "visit_neighbors current depth to [] visited queue = (False, visited, queue)"
| "visit_neighbors current depth to ((edge_rid, next_node) # rest) visited queue =
     (if visited next_node \<noteq> None then visit_neighbors current depth to rest visited queue
      else
        let visited' = visited(next_node \<mapsto> (Some edge_rid, Some current)) in
        if next_node = to then (True, visited', queue)
        else visit_neighbors current depth to rest visited' (queue @ [(next_node, depth + 1)]))"

text \<open>The loop of \<open>reconstruct_path\<close>; \<open>visited[&current]\<close> panics for a node that is not in the map.\<close>

fun reconstruct_loop :: "nat \<Rightarrow> 'v \<Rightarrow> ('v, 'e) visited_map \<Rightarrow> 'v \<Rightarrow> ('v list \<times> 'e list) res" where
  "reconstruct_loop left start visited current =
     (case visited current of
        None \<Rightarrow> Panic
      | Some (Some eid, Some prev) \<Rightarrow>
          if prev = start then Ok ([current, start], [eid])
          else (case left of
                  0 \<Rightarrow> Inl Diverged
                | Suc left' \<Rightarrow>
                    try_res (reconstruct_loop left' start visited prev) (\<lambda>(ns, es). Ok (current # ns, eid # es)))
      | Some _ \<Rightarrow> Ok ([current], []))"

declare reconstruct_loop.simps [simp del]

definition reconstruct_path :: "record_id \<Rightarrow> record_id \<Rightarrow> (record_id, record_id) visited_map \<Rightarrow> path_result res" where
  "reconstruct_path start end_node visited =
     try_res (reconstruct_loop MAX_LINKS start visited end_node) (\<lambda>(ns, es).
       Ok \<lparr>node_rids = rev ns, edge_rids = rev es\<rparr>)"

fun search_loop :: "nat \<Rightarrow> record_id \<Rightarrow> record_id \<Rightarrow> path_options \<Rightarrow> (record_id, record_id) visited_map \<Rightarrow>
    (record_id \<times> nat) list \<Rightarrow> (database_file, path_result option) op" where
  "search_loop left from to options visited [] = ret None"
| "search_loop 0 from to options visited (entry # queue) = fail Diverged"
| "search_loop (Suc left) from to options visited ((current, depth) # queue) =
     (if depth \<ge> max_depth options then search_loop left from to options visited queue
      else
        bnd (neighbors current options) (\<lambda>neighbors.
          case visit_neighbors current depth to neighbors visited queue of
            (True, visited', _) \<Rightarrow> bnd (lift_res (reconstruct_path from to visited')) (\<lambda>p. ret (Some p))
          | (False, visited', queue') \<Rightarrow> search_loop left from to options visited' queue'))"

definition shortest_path :: "record_id \<Rightarrow> record_id \<Rightarrow> path_options \<Rightarrow> (database_file, path_result option) op" where
  "shortest_path from to options =
     (if from = to then ret (Some \<lparr>node_rids = [from], edge_rids = []\<rparr>)
      else search_loop MAX_LINKS from to options [from \<mapsto> (None, None)] [(from, 0)])"

text \<open>The two nested loops over the pairs of nodes.\<close>

fun connect_from :: "record_id \<Rightarrow> record_id list \<Rightarrow> path_options \<Rightarrow> record_id set \<times> record_id set \<Rightarrow>
    (database_file, record_id set \<times> record_id set) op" where
  "connect_from a [] options acc = ret acc"
| "connect_from a (b # rest) options acc =
     bnd (shortest_path a b options) (\<lambda>found.
       connect_from a rest options
         (case found of
            Some path \<Rightarrow> (fst acc \<union> set (node_rids path), snd acc \<union> set (edge_rids path))
          | None \<Rightarrow> acc))"

fun connect_all :: "record_id list \<Rightarrow> path_options \<Rightarrow> record_id set \<times> record_id set \<Rightarrow>
    (database_file, record_id set \<times> record_id set) op" where
  "connect_all [] options acc = ret acc"
| "connect_all (a # rest) options acc =
     bnd (connect_from a rest options acc) (\<lambda>acc'.
       connect_all rest options (insert a (fst acc'), snd acc'))"

definition connecting_subgraph :: "record_id list \<Rightarrow> path_options \<Rightarrow> (database_file, connecting) op" where
  "connecting_subgraph rids options =
     bnd (connect_all rids options ({}, {})) (\<lambda>(ns, es). ret \<lparr>sub_nodes = ns, sub_edges = es\<rparr>)"

section \<open>Paths and distances\<close>

text \<open>A path of \<open>n\<close> steps in a graph given by the neighbours of each node, with its edges.\<close>

fun path :: "('v \<Rightarrow> ('e \<times> 'v) list) \<Rightarrow> 'v \<Rightarrow> 'v list \<Rightarrow> 'e list \<Rightarrow> 'v \<Rightarrow> bool" where
  "path nb u [] [] v \<longleftrightarrow> False"
| "path nb u [w] [] v \<longleftrightarrow> u = w \<and> w = v"
| "path nb u (w # w' # ws) (e # es) v \<longleftrightarrow> u = w \<and> (e, w') \<in> set (nb w) \<and> path nb w' (w' # ws) es v"
| "path nb u _ _ v \<longleftrightarrow> False"

inductive walk :: "('v \<Rightarrow> ('e \<times> 'v) list) \<Rightarrow> 'v \<Rightarrow> nat \<Rightarrow> 'v \<Rightarrow> bool" for nb s where
  walk_0: "walk nb s 0 s"
| walk_Suc: "walk nb s n u \<Longrightarrow> (e, v) \<in> set (nb u) \<Longrightarrow> walk nb s (Suc n) v"

inductive_cases walk_SucE: "walk nb s (Suc n) v"
inductive_simps walk_0_iff: "walk nb s 0 v"

lemma path_snoc: "path nb u ws es v \<Longrightarrow> (e, w) \<in> set (nb v) \<Longrightarrow> path nb u (ws @ [w]) (es @ [e]) w"
  by (induction nb u ws es v rule: path.induct) auto

lemma path_length: "path nb u ws es v \<Longrightarrow> length ws = Suc (length es)"
  by (induction nb u ws es v rule: path.induct) auto

definition distance :: "('v \<Rightarrow> ('e \<times> 'v) list) \<Rightarrow> 'v \<Rightarrow> 'v \<Rightarrow> nat \<Rightarrow> bool" where
  "distance nb s v n \<longleftrightarrow> walk nb s n v \<and> (\<forall>m<n. \<not> walk nb s m v)"

lemma distance_unique: "distance nb s v n \<Longrightarrow> distance nb s v m \<Longrightarrow> m = n"
  unfolding distance_def by (meson linorder_neqE_nat)

lemma walk_distance:
  assumes "walk nb s n v"
  shows "\<exists>m\<le>n. distance nb s v m"
  unfolding distance_def
  by (rule exI [of _ "LEAST m. walk nb s m v"]) (use assms in \<open>auto intro: LeastI Least_le dest: not_less_Least\<close>)

lemma distance_le: "distance nb s v d \<Longrightarrow> walk nb s n v \<Longrightarrow> d \<le> n"
  unfolding distance_def by (meson not_le)

section \<open>The search visits nodes at their distance\<close>

text \<open>Every visited node but the start was reached from a visited node one step nearer.\<close>

definition tree :: "('v \<Rightarrow> ('e \<times> 'v) list) \<Rightarrow> 'v \<Rightarrow> ('v, 'e) visited_map \<Rightarrow> bool" where
  "tree nb s M \<longleftrightarrow> M s = Some (None, None) \<and>
     (\<forall>v p. M v = Some p \<and> v \<noteq> s \<longrightarrow>
       (\<exists>e u d. p = (Some e, Some u) \<and> M u \<noteq> None \<and> (e, v) \<in> set (nb u) \<and> distance nb s u d \<and> distance nb s v (Suc d)))"

lemma treeD:
  assumes "tree nb s M"
  shows "M s = Some (None, None)"
    "M v = Some p \<Longrightarrow> v \<noteq> s \<Longrightarrow>
      \<exists>e u d. p = (Some e, Some u) \<and> M u \<noteq> None \<and> (e, v) \<in> set (nb u) \<and> distance nb s u d \<and> distance nb s v (Suc d)"
  using assms unfolding tree_def by blast+

lemma tree_add:
  assumes "tree nb s M" "M v = None" "M u \<noteq> None" "(e, v) \<in> set (nb u)" "distance nb s u d" "distance nb s v (Suc d)"
  shows "tree nb s (M(v \<mapsto> (Some e, Some u)))"
  unfolding tree_def
proof (intro conjI allI impI)
  show "(M(v \<mapsto> (Some e, Some u))) s = Some (None, None)" using treeD(1) [OF assms(1)] assms(2) by auto
  fix w p assume w: "(M(v \<mapsto> (Some e, Some u))) w = Some p \<and> w \<noteq> s"
  show "\<exists>e' u' d'. p = (Some e', Some u') \<and> (M(v \<mapsto> (Some e, Some u))) u' \<noteq> None \<and> (e', w) \<in> set (nb u') \<and>
      distance nb s u' d' \<and> distance nb s w (Suc d')"
  proof (cases "w = v")
    case True
    moreover have "u \<noteq> v" using assms(2,3) by auto
    ultimately show ?thesis using w assms by (intro exI [of _ e] exI [of _ u] exI [of _ d]) auto
  next
    case False
    then obtain e' u' d' where "p = (Some e', Some u')" "M u' \<noteq> None" "(e', w) \<in> set (nb u')" "distance nb s u' d'"
        "distance nb s w (Suc d')"
      using treeD(2) [OF assms(1), of w p] w by auto
    then show ?thesis by auto
  qed
qed

text \<open>A visited node is settled when the search need not look at it again.\<close>

definition settled :: "('v \<Rightarrow> ('e \<times> 'v) list) \<Rightarrow> 'v \<Rightarrow> nat \<Rightarrow> ('v, 'e) visited_map \<Rightarrow> 'v \<Rightarrow> bool" where
  "settled nb s mx M u \<longleftrightarrow> (\<exists>d\<ge>mx. distance nb s u d) \<or> (\<forall>(e, v)\<in>set (nb u). M v \<noteq> None)"

lemma settled_mono: "settled nb s mx M u \<Longrightarrow> (\<And>v. M v \<noteq> None \<Longrightarrow> M' v \<noteq> None) \<Longrightarrow> settled nb s mx M' u"
  by (auto simp: settled_def)

lemma unvisited_far:
  assumes "M s \<noteq> None" "\<And>u. M u \<noteq> None \<Longrightarrow> (\<exists>k\<ge>d. distance nb s u k) \<or> settled nb s mx M u" "d < mx"
  shows "walk nb s n w \<Longrightarrow> M w = None \<Longrightarrow> Suc d \<le> n"
proof (induction n arbitrary: w)
  case 0
  then show ?case using assms(1) by (auto simp: walk_0_iff)
next
  case (Suc n)
  then obtain u e where u: "walk nb s n u" "(e, w) \<in> set (nb u)" by (auto elim: walk_SucE)
  show ?case
  proof (cases "M u = None")
    case True
    then show ?thesis using Suc.IH [OF u(1)] by simp
  next
    case False
    then consider k where "d \<le> k" "distance nb s u k" | k where "mx \<le> k" "distance nb s u k" | "\<forall>(e, v)\<in>set (nb u). M v \<noteq> None"
      using assms(2) [OF False] by (auto simp: settled_def)
    then show ?thesis
    proof cases
      case 1
      then show ?thesis using distance_le [OF 1(2) u(1)] by simp
    next
      case 2
      then show ?thesis using distance_le [OF 2(2) u(1)] assms(3) by simp
    next
      case 3
      then show ?thesis using u(2) Suc.prems(2) by auto
    qed
  qed
qed

text \<open>The state while the neighbours of \<open>c\<close>, at distance \<open>d\<close>, are visited; \<open>rest\<close> are still to come.\<close>

definition visiting :: "('v \<Rightarrow> ('e \<times> 'v) list) \<Rightarrow> 'v \<Rightarrow> nat \<Rightarrow> 'v \<Rightarrow> 'v \<Rightarrow> nat \<Rightarrow> ('e \<times> 'v) list \<Rightarrow> ('v, 'e) visited_map \<Rightarrow>
    ('v \<times> nat) list \<Rightarrow> bool" where
  "visiting nb s mx t c d rest M Q \<longleftrightarrow>
     tree nb s M \<and> M t = None \<and> M c \<noteq> None \<and> distance nb s c d \<and> d < mx \<and>
     (\<forall>(v, k)\<in>set Q. M v \<noteq> None \<and> distance nb s v k \<and> d \<le> k \<and> k \<le> Suc d) \<and> sorted (map snd Q) \<and>
     (\<forall>u. M u \<noteq> None \<longrightarrow> u = c \<or> u \<in> fst ` set Q \<or> settled nb s mx M u) \<and>
     set rest \<subseteq> set (nb c) \<and> (\<forall>(e, v)\<in>set (nb c). (e, v) \<in> set rest \<or> M v \<noteq> None)"

lemma visit_step:
  assumes v: "visiting nb s mx t c d ((e, w) # rest) M Q" and new: "M w = None"
  shows "distance nb s w (Suc d)" "tree nb s (M(w \<mapsto> (Some e, Some c)))"
    "w \<noteq> t \<Longrightarrow> visiting nb s mx t c d rest (M(w \<mapsto> (Some e, Some c))) (Q @ [(w, d + 1)])"
proof -
  have A: "tree nb s M" "M t = None" "M c \<noteq> None" "distance nb s c d" "d < mx"
      "\<forall>(v, k)\<in>set Q. M v \<noteq> None \<and> distance nb s v k \<and> d \<le> k \<and> k \<le> Suc d" "sorted (map snd Q)"
      "\<forall>u. M u \<noteq> None \<longrightarrow> u = c \<or> u \<in> fst ` set Q \<or> settled nb s mx M u" "(e, w) \<in> set (nb c)" "set rest \<subseteq> set (nb c)"
      "\<forall>(e', v)\<in>set (nb c). (e', v) \<in> set ((e, w) # rest) \<or> M v \<noteq> None"
    using v unfolding visiting_def by simp_all
  have near: "(\<exists>k\<ge>d. distance nb s u k) \<or> settled nb s mx M u" if "M u \<noteq> None" for u
    using A(8) [rule_format, OF that] A(4,6) by fastforce
  have start: "M s \<noteq> None" using treeD(1) [OF A(1)] by simp
  have "walk nb s (Suc d) w" using A(4,9) walk_Suc by (auto simp: distance_def)
  moreover have "\<not> walk nb s m w" if "m < Suc d" for m
    using unvisited_far [OF start near A(5) _ new, of m] that by auto
  ultimately show dw: "distance nb s w (Suc d)" by (simp add: distance_def)
  show tr: "tree nb s (M(w \<mapsto> (Some e, Some c)))" using tree_add [OF A(1) new A(3,9,4) dw] .
  show "visiting nb s mx t c d rest (M(w \<mapsto> (Some e, Some c))) (Q @ [(w, d + 1)])" if "w \<noteq> t"
  proof -
    have "u = c \<or> u \<in> fst ` set (Q @ [(w, d + 1)]) \<or> settled nb s mx (M(w \<mapsto> (Some e, Some c))) u"
      if "(M(w \<mapsto> (Some e, Some c))) u \<noteq> None" for u
    proof (cases "u = w")
      case False
      then have "M u \<noteq> None" using that by simp
      with A(8) consider "u = c" | "u \<in> fst ` set Q" | "settled nb s mx M u" by blast
      then show ?thesis
      proof cases
        case 3
        then have "settled nb s mx (M(w \<mapsto> (Some e, Some c))) u" by (rule settled_mono) auto
        then show ?thesis by blast
      qed auto
    qed simp
    moreover have "sorted (map snd (Q @ [(w, d + 1)]))" using A(6,7) by (auto simp: sorted_append)
    ultimately show ?thesis
      unfolding visiting_def using tr A that dw by auto
  qed
qed

lemma visit_neighbors_ok:
  assumes "visiting nb s mx t c d rest M Q" "finite (dom M)"
  shows "case visit_neighbors c d t rest M Q of
      (True, M', Q') \<Rightarrow> tree nb s M' \<and> M' t \<noteq> None \<and> distance nb s t (Suc d)
    | (False, M', Q') \<Rightarrow> visiting nb s mx t c d [] M' Q' \<and> finite (dom M') \<and>
        card (dom M') + length Q = card (dom M) + length Q'"
  using assms
proof (induction rest arbitrary: M Q)
  case Nil
  then show ?case by simp
next
  case (Cons x rest)
  obtain e w where x: "x = (e, w)" by (cases x)
  show ?case
  proof (cases "M w = None")
    case False
    have "visiting nb s mx t c d rest M Q"
      using Cons.prems(1) False unfolding visiting_def x by fastforce
    then show ?thesis using Cons.IH [OF _ Cons.prems(2)] False by (simp add: x)
  next
    case True
    note st = visit_step [OF Cons.prems(1) [unfolded x] True]
    show ?thesis
    proof (cases "w = t")
      case True
      then show ?thesis using st(1,2) \<open>M w = None\<close> by (simp add: x)
    next
      case False
      have fin: "finite (dom (M(w \<mapsto> (Some e, Some c))))" using Cons.prems(2) by simp
      have card: "card (dom (M(w \<mapsto> (Some e, Some c)))) = Suc (card (dom M))"
        using True Cons.prems(2) by (simp add: card_insert_if domIff)
      obtain b M' Q' where r: "visit_neighbors c d t rest (M(w \<mapsto> (Some e, Some c))) (Q @ [(w, d + 1)]) = (b, M', Q')"
        by (metis prod_cases3)
      have step: "visit_neighbors c d t (x # rest) M Q = (b, M', Q')" using True False r by (simp add: x)
      show ?thesis
        using Cons.IH [OF st(3) [OF False] fin] card unfolding r step by (cases b) (simp_all del: fun_upd_apply)
    qed
  qed
qed

lemma visit_neighbors_queue:
  "visit_neighbors c d t rest M Q = (b, M', Q') \<Longrightarrow> fst ` set Q' \<subseteq> fst ` set Q \<union> snd ` set rest"
proof (induction rest arbitrary: M Q)
  case Nil
  then show ?case by simp
next
  case (Cons x rest)
  obtain e w where x: "x = (e, w)" by (cases x)
  consider "M w \<noteq> None" | "M w = None" "w = t" | "M w = None" "w \<noteq> t" by blast
  then show ?case
  proof cases
    case 1
    then show ?thesis using Cons.IH [of M Q] Cons.prems by (auto simp: x)
  next
    case 2
    then show ?thesis using Cons.prems by (auto simp: x)
  next
    case 3
    then have "visit_neighbors c d t rest (M(w \<mapsto> (Some e, Some c))) (Q @ [(w, d + 1)]) = (b, M', Q')"
      using Cons.prems by (simp add: x)
    then show ?thesis using Cons.IH by (force simp: x)
  qed
qed

section \<open>The whole search\<close>

definition searching :: "('v \<Rightarrow> ('e \<times> 'v) list) \<Rightarrow> 'v \<Rightarrow> nat \<Rightarrow> 'v \<Rightarrow> ('v, 'e) visited_map \<Rightarrow> ('v \<times> nat) list \<Rightarrow> bool" where
  "searching nb s mx t M Q \<longleftrightarrow>
     tree nb s M \<and> M t = None \<and> (\<forall>(v, k)\<in>set Q. M v \<noteq> None \<and> distance nb s v k) \<and> sorted (map snd Q) \<and>
     (\<forall>x\<in>set Q. snd x \<le> Suc (snd (hd Q))) \<and> (\<forall>u. M u \<noteq> None \<longrightarrow> u \<in> fst ` set Q \<or> settled nb s mx M u)"

lemma searching_start: "s \<noteq> t \<Longrightarrow> searching nb s mx t [s \<mapsto> (None, None)] [(s, 0)]"
  by (auto simp: searching_def tree_def distance_def walk_0)

lemma searching_pop:
  assumes "searching nb s mx t M ((c, d) # Q)"
  shows "mx \<le> d \<Longrightarrow> searching nb s mx t M Q" "d < mx \<Longrightarrow> visiting nb s mx t c d (nb c) M Q" "distance nb s c d"
proof -
  have A: "tree nb s M" "M t = None" "M c \<noteq> None" "distance nb s c d" "\<forall>(v, k)\<in>set Q. M v \<noteq> None \<and> distance nb s v k"
      "sorted (map snd Q)" "\<forall>x\<in>set Q. d \<le> snd x" "\<forall>x\<in>set Q. snd x \<le> Suc d"
      "\<forall>u. M u \<noteq> None \<longrightarrow> u = c \<or> u \<in> fst ` set Q \<or> settled nb s mx M u"
    using assms unfolding searching_def by auto
  show "distance nb s c d" by fact
  show "searching nb s mx t M Q" if "mx \<le> d"
  proof -
    have c: "settled nb s mx M c" using A(4) that by (auto simp: settled_def)
    have u: "u \<in> fst ` set Q \<or> settled nb s mx M u" if "M u \<noteq> None" for u
      using A(9) [rule_format, OF that] c by blast
    have "\<forall>x\<in>set Q. snd x \<le> Suc (snd (hd Q))"
    proof
      fix x assume x: "x \<in> set Q"
      then have "hd Q \<in> set Q" by (cases Q) auto
      then have "d \<le> snd (hd Q)" using A(7) by blast
      moreover have "snd x \<le> Suc d" using A(8) x by blast
      ultimately show "snd x \<le> Suc (snd (hd Q))" by simp
    qed
    then show ?thesis unfolding searching_def using A(1,2,5,6) u by blast
  qed
  show "visiting nb s mx t c d (nb c) M Q" if "d < mx"
  proof -
    have "\<forall>(v, k)\<in>set Q. M v \<noteq> None \<and> distance nb s v k \<and> d \<le> k \<and> k \<le> Suc d"
      using A(5,7,8) by (simp add: case_prod_unfold)
    then show ?thesis unfolding visiting_def using A(1-4,6,9) that by blast
  qed
qed

lemma visiting_done:
  assumes "visiting nb s mx t c d [] M Q"
  shows "searching nb s mx t M Q"
proof -
  have A: "tree nb s M" "M t = None" "\<forall>(v, k)\<in>set Q. M v \<noteq> None \<and> distance nb s v k \<and> d \<le> k \<and> k \<le> Suc d"
      "sorted (map snd Q)" "\<forall>u. M u \<noteq> None \<longrightarrow> u = c \<or> u \<in> fst ` set Q \<or> settled nb s mx M u" "settled nb s mx M c"
    using assms unfolding visiting_def settled_def by auto
  have "\<forall>x\<in>set Q. snd x \<le> Suc (snd (hd Q))"
  proof
    fix x assume x: "x \<in> set Q"
    then have "hd Q \<in> set Q" by (cases Q) auto
    then have "d \<le> snd (hd Q)" "snd x \<le> Suc d" using A(3) x by (auto simp: case_prod_unfold)
    then show "snd x \<le> Suc (snd (hd Q))" by simp
  qed
  moreover have "u \<in> fst ` set Q \<or> settled nb s mx M u" if "M u \<noteq> None" for u
    using A(5) [rule_format, OF that] A(6) by blast
  moreover have "\<forall>(v, k)\<in>set Q. M v \<noteq> None \<and> distance nb s v k" using A(3) by blast
  ultimately show ?thesis unfolding searching_def using A(1,2,4) by blast
qed

lemma searching_empty:
  assumes "searching nb s mx t M []" "n \<le> mx"
  shows "\<not> walk nb s n t"
proof -
  have A: "tree nb s M" "M t = None" "\<And>u. M u \<noteq> None \<Longrightarrow> settled nb s mx M u" using assms(1) unfolding searching_def by auto
  have "mx < n" if "walk nb s n w" "M w = None" for n w
    using that
  proof (induction n arbitrary: w)
    case 0
    then show ?case using treeD(1) [OF A(1)] by (auto simp: walk_0_iff)
  next
    case (Suc n)
    then obtain u e where u: "walk nb s n u" "(e, w) \<in> set (nb u)" by (auto elim: walk_SucE)
    show ?case
    proof (cases "M u = None")
      case True
      then show ?thesis using Suc.IH [OF u(1)] by simp
    next
      case False
      then consider k where "mx \<le> k" "distance nb s u k" | "\<forall>(e, v)\<in>set (nb u). M v \<noteq> None"
        using A(3) [OF False] unfolding settled_def by blast
      then show ?thesis
      proof cases
        case 1
        then show ?thesis using distance_le [OF 1(2) u(1)] by simp
      next
        case 2
        then show ?thesis using u(2) Suc.prems(2) by auto
      qed
    qed
  qed
  then show ?thesis using A(2) assms(2) by fastforce
qed

text \<open>The visited nodes up to a distance are at least as many as the distance.\<close>

lemma tree_card:
  assumes tr: "tree nb s M" and fin: "finite (dom M)"
  shows "M v \<noteq> None \<Longrightarrow> distance nb s v n \<Longrightarrow> Suc n \<le> card {w \<in> dom M. \<exists>k\<le>n. distance nb s w k}"
proof (induction n arbitrary: v)
  case 0
  have "finite {w \<in> dom M. \<exists>k\<le>0. distance nb s w k}" using fin by simp
  then show ?case using 0 by (auto simp: Suc_le_eq card_gt_0_iff)
next
  case (Suc n)
  have "v \<noteq> s" using Suc.prems(2) by (auto simp: distance_def walk_0)
  then obtain u d where u: "M u \<noteq> None" "distance nb s u d" "distance nb s v (Suc d)"
    using treeD(2) [OF tr] Suc.prems(1) by blast
  then have d: "d = n" using distance_unique [OF Suc.prems(2) u(3)] by simp
  let ?A = "\<lambda>n. {w \<in> dom M. \<exists>k\<le>n. distance nb s w k}"
  have "\<not> distance nb s v k" if "k \<le> n" for k using distance_unique [OF Suc.prems(2), of k] that by auto
  then have "v \<notin> ?A n" by blast
  moreover have "insert v (?A n) \<subseteq> ?A (Suc n)" using Suc.prems by (auto intro: le_SucI)
  moreover have "finite (?A k)" for k using fin by simp
  ultimately have "Suc (card (?A n)) \<le> card (?A (Suc n))"
    using card_mono [of "?A (Suc n)" "insert v (?A n)"] by simp
  then show ?case using Suc.IH [OF u(1)] u(2) d by simp
qed

lemma reconstruct_loop_ok:
  assumes tr: "tree nb s M"
  shows "M v \<noteq> None \<Longrightarrow> distance nb s v (Suc n) \<Longrightarrow> n \<le> left \<Longrightarrow>
    \<exists>ns es. reconstruct_loop left s M v = Ok (ns, es) \<and> path nb s (rev ns) (rev es) v \<and> length es = Suc n"
proof (induction n arbitrary: v left)
  case (0 v)
  have "v \<noteq> s" using 0(2) by (auto simp: distance_def walk_0)
  then obtain e u d where u: "M v = Some (Some e, Some u)" "M u \<noteq> None" "(e, v) \<in> set (nb u)" "distance nb s u d" "distance nb s v (Suc d)"
    using treeD(2) [OF tr] 0(1) by blast
  have "d = 0" using distance_unique [OF 0(2) u(5)] by simp
  then have "u = s" using u(4) by (simp add: distance_def walk_0_iff)
  then show ?case using u(1,3) by (subst reconstruct_loop.simps) simp
next
  case (Suc n v)
  have "v \<noteq> s" using Suc.prems(2) by (auto simp: distance_def walk_0)
  then obtain e u d where u: "M v = Some (Some e, Some u)" "M u \<noteq> None" "(e, v) \<in> set (nb u)" "distance nb s u d" "distance nb s v (Suc d)"
    using treeD(2) [OF tr] Suc.prems(1) by blast
  have d: "d = Suc n" using distance_unique [OF Suc.prems(2) u(5)] by simp
  then have us: "u \<noteq> s" using u(4) by (auto simp: distance_def walk_0)
  obtain left' where left: "left = Suc left'" using Suc.prems(3) by (cases left) auto
  obtain ns es where r: "reconstruct_loop left' s M u = Ok (ns, es)" "path nb s (rev ns) (rev es) u" "length es = Suc n"
    using Suc.IH [OF u(2) u(4) [unfolded d], of left'] Suc.prems(3) left by auto
  have "reconstruct_loop left s M v = Ok (v # ns, e # es)"
    using u(1) us r(1) left by (subst reconstruct_loop.simps) simp
  moreover have "path nb s (rev (v # ns)) (rev (e # es)) v" using path_snoc [OF r(2) u(3)] by simp
  ultimately show ?case using r(3) by simp
qed

text \<open>What the search promises.\<close>

definition shortest :: "(record_id \<Rightarrow> (record_id \<times> record_id) list) \<Rightarrow> record_id \<Rightarrow> nat \<Rightarrow> record_id \<Rightarrow> path_result option \<Rightarrow> bool" where
  "shortest nb s mx t res \<longleftrightarrow>
     (case res of
        None \<Rightarrow> \<forall>n\<le>mx. \<not> walk nb s n t
      | Some p \<Rightarrow> path nb s (node_rids p) (edge_rids p) t \<and> distance nb s t (length (edge_rids p)) \<and> (s \<noteq> t \<longrightarrow> length (edge_rids p) \<le> mx))"

lemma reconstruct_path_ok:
  assumes "tree nb s M" "M t \<noteq> None" "distance nb s t (Suc d)" "d < mx"
  shows "\<exists>p. reconstruct_path s t M = Ok p \<and> shortest nb s mx t (Some p)"
proof -
  have fin: "finite (dom M)" by (rule finite_subset [OF subset_UNIV record_id_card(1)])
  have "Suc (Suc d) \<le> card {w \<in> dom M. \<exists>k\<le>Suc d. distance nb s w k}" using tree_card [OF assms(1) fin assms(2,3)] .
  also have "\<dots> \<le> card (UNIV :: record_id set)" by (rule card_mono [OF record_id_card(1) subset_UNIV])
  finally have "d \<le> MAX_LINKS" using record_id_card(2) by simp
  then obtain ns es where "reconstruct_loop MAX_LINKS s M t = Ok (ns, es)" "path nb s (rev ns) (rev es) t" "length es = Suc d"
    using reconstruct_loop_ok [OF assms(1-3)] by blast
  then show ?thesis using assms(3,4) by (auto simp: reconstruct_path_def shortest_def)
qed

lemma search_loop_does:
  fixes nb :: "record_id \<Rightarrow> (record_id \<times> record_id) list"
  assumes nb: "\<And>u. u \<in> V \<Longrightarrow> space_does (neighbors u options) S (Ok (nb u)) S"
    and closed: "\<And>u. u \<in> V \<Longrightarrow> snd ` set (nb u) \<subseteq> V"
  shows "searching nb from (max_depth options) to M Q \<Longrightarrow> fst ` set Q \<subseteq> V \<Longrightarrow>
    card (UNIV :: record_id set) + length Q \<le> left + card (dom M) \<Longrightarrow>
    \<exists>res. space_does (search_loop left from to options M Q) S (Ok res) S \<and> shortest nb from (max_depth options) to res"
proof (induction left arbitrary: M Q)
  case 0
  have "card (dom M) \<le> card (UNIV :: record_id set)" by (rule card_mono [OF record_id_card(1) subset_UNIV])
  then have "length Q = 0" using 0(3) by linarith
  then have "Q = []" by simp
  then show ?case using searching_empty [OF 0(1) [unfolded \<open>Q = []\<close>]]
    by (intro exI [of _ None]) (auto simp: shortest_def)
next
  case (Suc left)
  show ?case
  proof (cases Q)
    case Nil
    then show ?thesis using searching_empty [OF Suc.prems(1) [unfolded Nil]]
      by (intro exI [of _ None]) (auto simp: shortest_def)
  next
    case (Cons x Q')
    obtain c d where x: "x = (c, d)" by (cases x)
    have s: "searching nb from (max_depth options) to M ((c, d) # Q')" using Suc.prems(1) Cons x by simp
    have V: "c \<in> V" "fst ` set Q' \<subseteq> V" using Suc.prems(2) Cons x by auto
    show ?thesis
    proof (cases "max_depth options \<le> d")
      case True
      have "card (UNIV :: record_id set) + length Q' \<le> left + card (dom M)" using Suc.prems(3) Cons by simp
      from Suc.IH [OF searching_pop(1) [OF s True] V(2) this] show ?thesis by (simp add: Cons x True)
    next
      case False
      then have "visiting nb from (max_depth options) to c d (nb c) M Q'" using searching_pop(2) [OF s] by simp
      note vis = visit_neighbors_ok [OF this finite_subset [OF subset_UNIV record_id_card(1)]]
      obtain b M' Q'' where r: "visit_neighbors c d to (nb c) M Q' = (b, M', Q'')" by (metis prod_cases3)
      have k: "\<exists>res. space_does (case (b, M', Q'') of
            (True, visited', _) \<Rightarrow> bnd (lift_res (reconstruct_path from to visited')) (\<lambda>p. ret (Some p))
          | (False, visited', queue') \<Rightarrow> search_loop left from to options visited' queue') S (Ok res) S \<and>
          shortest nb from (max_depth options) to res"
      proof (cases b)
        case True
        then have "tree nb from M'" "M' to \<noteq> None" "distance nb from to (Suc d)" using vis r by simp_all
        then obtain p where "reconstruct_path from to M' = Ok p" "shortest nb from (max_depth options) to (Some p)"
          using reconstruct_path_ok False by (metis not_le)
        then show ?thesis using True by (intro exI [of _ "Some p"]) simp
      next
        case bF: False
        then have v: "visiting nb from (max_depth options) to c d [] M' Q''" "card (dom M') + length Q' = card (dom M) + length Q''"
          using vis r by simp_all
        have "fst ` set Q'' \<subseteq> V" using visit_neighbors_queue [OF r] V closed [OF V(1)] by blast
        moreover have "card (UNIV :: record_id set) + length Q'' \<le> left + card (dom M')"
          using Suc.prems(3) v(2) Cons by simp
        ultimately show ?thesis using Suc.IH [OF visiting_done [OF v(1)]] bF by simp
      qed
      then obtain res where res: "space_does (case (b, M', Q'') of
            (True, visited', _) \<Rightarrow> bnd (lift_res (reconstruct_path from to visited')) (\<lambda>p. ret (Some p))
          | (False, visited', queue') \<Rightarrow> search_loop left from to options visited' queue') S (Ok res) S"
          "shortest nb from (max_depth options) to res" by blast
      have "space_does (search_loop (Suc left) from to options M Q) S (Ok res) S"
        unfolding Cons x search_loop.simps if_not_P [OF False]
        by (rule space_does_bnd [OF nb [OF V(1)]], unfold r) (rule res(1))
      then show ?thesis using res(2) by blast
    qed
  qed
qed

section \<open>Routes in the graph\<close>

text \<open>An edge that the options let the search cross from \<open>u\<close> to \<open>w\<close>.\<close>

definition crosses :: "spaces \<Rightarrow> path_options \<Rightarrow> record_id \<Rightarrow> record_id \<Rightarrow> record_id \<Rightarrow> bool" where
  "crosses S options u r w \<longleftrightarrow>
     (\<exists>e. edges S r = Some e \<and> edge_matches (edge_type_id e) options \<and>
       (direction options \<noteq> Incoming \<and> from_node e = u \<and> to_node e = w \<or>
        direction options \<noteq> Outgoing \<and> to_node e = u \<and> from_node e = w))"

text \<open>A route: its nodes, from the first to the last, and the edges crossed between them.\<close>

fun route :: "('v \<Rightarrow> 'e \<Rightarrow> 'v \<Rightarrow> bool) \<Rightarrow> 'v \<Rightarrow> 'v list \<Rightarrow> 'e list \<Rightarrow> 'v \<Rightarrow> bool" where
  "route step u [w] [] v \<longleftrightarrow> u = w \<and> w = v"
| "route step u (w # w' # ws) (e # es) v \<longleftrightarrow> u = w \<and> step w e w' \<and> route step w' (w' # ws) es v"
| "route step u _ _ v \<longleftrightarrow> False"

definition best_route :: "spaces \<Rightarrow> path_options \<Rightarrow> record_id \<Rightarrow> record_id \<Rightarrow> path_result option \<Rightarrow> bool" where
  "best_route S options from to res \<longleftrightarrow>
     (case res of
        None \<Rightarrow> \<forall>ns es. route (crosses S options) from ns es to \<longrightarrow> max_depth options < length es
      | Some p \<Rightarrow> route (crosses S options) from (node_rids p) (edge_rids p) to \<and>
          (from \<noteq> to \<longrightarrow> length (edge_rids p) \<le> max_depth options) \<and>
          (\<forall>ns es. route (crosses S options) from ns es to \<longrightarrow> length (edge_rids p) \<le> length es))"

lemma route_length: "route step u ws es v \<Longrightarrow> length ws = Suc (length es)"
  by (induction step u ws es v rule: route.induct) auto

lemma path_route:
  assumes "\<And>w e w'. (e, w') \<in> set (nb w) \<longleftrightarrow> step w e w'"
  shows "path nb u ws es v \<longleftrightarrow> route step u ws es v"
  using assms by (induction nb u ws es v rule: path.induct) auto

lemma walk_path: "walk nb s n v \<Longrightarrow> \<exists>ws es. path nb s ws es v \<and> length es = n"
proof (induction rule: walk.induct)
  case walk_0
  then show ?case by (intro exI [of _ "[s]"] exI [of _ "[]"]) simp
next
  case (walk_Suc n u e v)
  then obtain ws es where "path nb s ws es u" "length es = n" by blast
  then show ?case using path_snoc [of nb s ws es u e v] walk_Suc.hyps(2)
    by (intro exI [of _ "ws @ [v]"] exI [of _ "es @ [e]"]) simp
qed

lemma walk_trans: "walk nb u n v \<Longrightarrow> (e, u) \<in> set (nb s) \<Longrightarrow> walk nb s (Suc n) v"
proof (induction rule: walk.induct)
  case walk_0
  then show ?case using walk.walk_Suc [OF walk.walk_0] by metis
next
  case (walk_Suc n w e' v)
  then show ?case using walk.walk_Suc by metis
qed

lemma path_walk: "path nb u ws es v \<Longrightarrow> walk nb u (length es) v"
proof (induction nb u ws es v rule: path.induct)
  case (2 nb u w v)
  then show ?case by (simp add: walk_0)
next
  case (3 nb u w w' ws e es v)
  then show ?case using walk_trans [of nb w' "length es" v e w] by simp
qed simp_all

lemma shortest_best:
  assumes nb: "\<And>w e w'. (e, w') \<in> set (nb w) \<longleftrightarrow> crosses S options w e w'" and s: "shortest nb from (max_depth options) to res"
  shows "best_route S options from to res"
proof (cases res)
  case None
  have "max_depth options < length es" if "route (crosses S options) from ns es to" for ns es
    using path_walk [of nb "from" ns es to] s that unfolding None shortest_def path_route [OF nb]
    by (auto simp: not_le [symmetric])
  then show ?thesis by (auto simp: best_route_def None)
next
  case (Some p)
  have p: "path nb from (node_rids p) (edge_rids p) to" "distance nb from to (length (edge_rids p))"
      "from \<noteq> to \<longrightarrow> length (edge_rids p) \<le> max_depth options"
    using s by (auto simp: Some shortest_def)
  have "length (edge_rids p) \<le> length es" if "route (crosses S options) from ns es to" for ns es
    using path_walk [of nb "from" ns es to] distance_le [OF p(2)] that unfolding path_route [OF nb] by blast
  then show ?thesis using p(1,3) unfolding best_route_def Some path_route [OF nb] by auto
qed

text \<open>The neighbours the search reads.\<close>

definition graph_neighbors :: "spaces \<Rightarrow> agraph \<Rightarrow> path_options \<Rightarrow> record_id \<Rightarrow> (record_id \<times> record_id) list" where
  "graph_neighbors S G options u =
     (if direction options \<noteq> Incoming then
        map (\<lambda>edge. (e_id edge, to_node edge)) (filter (\<lambda>edge. edge_matches (edge_type_id edge) options)
          (map (\<lambda>r. the (edges S r)) (lists_of G Out u))) else []) @
     (if direction options \<noteq> Outgoing then
        map (\<lambda>edge. (e_id edge, from_node edge)) (filter (\<lambda>edge. edge_matches (edge_type_id edge) options)
          (map (\<lambda>r. the (edges S r)) (lists_of G In u))) else [])"

lemma listed_edge:
  assumes rep: "graph_rep S G"
  shows "r \<in> set (lists_of G d u) \<longleftrightarrow> (\<exists>e. edges S r = Some e \<and> e_id e = r \<and> end_of d e = u)"
proof
  note R = graph_repD [OF rep]
  have ids: "e_id e = r" if "edges S r = Some e" for e using graphD(1) [OF R(1)] that by (simp add: ids_ok_def)
  show "\<exists>e. edges S r = Some e \<and> e_id e = r \<and> end_of d e = u" if r: "r \<in> set (lists_of G d u)"
  proof -
    have "ends S d r = Some u" using lists_end [OF graphD(3) [OF R(1)] r] .
    then obtain e where "edges S r = Some e" "end_of d e = u" by (auto simp: ends_def)
    then show ?thesis using ids by blast
  qed
  show "r \<in> set (lists_of G d u)" if "\<exists>e. edges S r = Some e \<and> e_id e = r \<and> end_of d e = u"
  proof -
    from that obtain e where e: "edges S r = Some e" "end_of d e = u" by (elim exE conjE)
    then have "arcs G r = Some (from_node e, to_node e)" using R(3) by simp
    from R(5) [OF this, of d] show ?thesis using e(2) by (simp add: endpoint_end)
  qed
qed

lemma listed_pairs:
  assumes rep: "graph_rep S G"
  shows "(r, w) \<in> set (map (\<lambda>edge. (e_id edge, h edge)) (filter P (map (\<lambda>r. the (edges S r)) (lists_of G d u)))) \<longleftrightarrow>
    (\<exists>e. edges S r = Some e \<and> P e \<and> end_of d e = u \<and> h e = w)" (is "?l \<longleftrightarrow> ?r")
proof
  assume ?l
  then obtain r' where r': "r' \<in> set (lists_of G d u)" "P (the (edges S r'))" "e_id (the (edges S r')) = r" "h (the (edges S r')) = w"
    by auto
  obtain e where e: "edges S r' = Some e" "e_id e = r'" "end_of d e = u" using r'(1) unfolding listed_edge [OF rep] by (elim exE conjE)
  then show ?r using r'(2-4) by (intro exI [of _ e]) auto
next
  assume ?r
  then obtain e where e: "edges S r = Some e" "P e" "end_of d e = u" "h e = w" by (elim exE conjE)
  have id: "e_id e = r" using graphD(1) [OF graph_repD(1) [OF rep]] e(1) by (simp add: ids_ok_def)
  then have "r \<in> set (lists_of G d u)" unfolding listed_edge [OF rep] using e by (intro exI [of _ e]) simp
  then show ?l using e id by (auto simp: image_iff intro!: bexI [of _ r])
qed

lemma graph_neighbors_crosses:
  assumes rep: "graph_rep S G"
  shows "(r, w) \<in> set (graph_neighbors S G options u) \<longleftrightarrow> crosses S options u r w"
  unfolding graph_neighbors_def set_append Un_iff if_distrib [of set] if_distrib [of "\<lambda>A. (r, w) \<in> A"] listed_pairs [OF rep] crosses_def end_of_def
  by auto

lemma neighbors_does:
  assumes lv: "live S" and rep: "graph_rep S G" and u: "u \<in> verts G"
  shows "space_does (neighbors u options) S (Ok (graph_neighbors S G options u)) S"
proof -
  note R = graph_repD [OF rep]
  obtain n where n: "nodes S u = Some n" using u R(2) by auto
  note c = collect_does [OF lv R(1) n]
  have o1: "space_does (if direction options = Outgoing \<or> direction options = Both then bnd (collect_out_edges u) (\<lambda>es. ret (f es)) else ret z) S
      (Ok (if direction options \<noteq> Incoming then f (map (\<lambda>r. the (edges S r)) (lists_of G Out u)) else z)) S" for f :: "edge_record list \<Rightarrow> 'c" and z
    unfolding collect_out_edges_def
    by (cases "direction options") (simp_all add: space_does_bnd [OF c])
  have i1: "space_does (if direction options = Incoming \<or> direction options = Both then bnd (collect_in_edges u) (\<lambda>es. ret (f es)) else ret z) S
      (Ok (if direction options \<noteq> Outgoing then f (map (\<lambda>r. the (edges S r)) (lists_of G In u)) else z)) S" for f :: "edge_record list \<Rightarrow> 'c" and z
    unfolding collect_in_edges_def
    by (cases "direction options") (simp_all add: space_does_bnd [OF c])
  show ?thesis
    unfolding neighbors_def graph_neighbors_def
    by (rule space_does_bnd [OF o1], rule space_does_bnd [OF i1], simp)
qed

lemma shortest_path_does:
  assumes lv: "live S" and rep: "graph_rep S G" and v: "from \<in> verts G"
  shows "\<exists>res. space_does (shortest_path from to options) S (Ok res) S \<and> best_route S options from to res"
proof (cases "from = to")
  case True
  have "best_route S options from to (Some \<lparr>node_rids = [from], edge_rids = []\<rparr>)" by (simp add: best_route_def True)
  moreover have "space_does (shortest_path from to options) S (Ok (Some \<lparr>node_rids = [from], edge_rids = []\<rparr>)) S"
    by (simp add: shortest_path_def True)
  ultimately show ?thesis by blast
next
  case False
  have closed: "snd ` set (graph_neighbors S G options u) \<subseteq> verts G" for u
  proof
    fix w assume "w \<in> snd ` set (graph_neighbors S G options u)"
    then obtain r where "crosses S options u r w" by (auto simp: graph_neighbors_crosses [OF rep])
    then obtain e where e: "edges S r = Some e" "from_node e = w \<or> to_node e = w" unfolding crosses_def by blast
    then have "arcs G r = Some (from_node e, to_node e)" using graph_repD(3) [OF rep] by simp
    from graph_repD(4) [OF rep this, of Out] graph_repD(4) [OF rep this, of In] show "w \<in> verts G"
      using e(2) by (auto simp: endpoint_def)
  qed
  have "card (UNIV :: record_id set) + length [(from, 0::nat)] \<le> MAX_LINKS + card (dom [from \<mapsto> (None :: record_id option, None :: record_id option)])"
    using record_id_card(2) by simp
  from search_loop_does [OF neighbors_does [OF lv rep] closed searching_start [OF False] _ this]
  obtain res where res: "space_does (search_loop MAX_LINKS from to options [from \<mapsto> (None, None)] [(from, 0)]) S (Ok res) S"
      "shortest (graph_neighbors S G options) from (max_depth options) to res" using v by auto
  have "best_route S options from to res" by (rule shortest_best [OF graph_neighbors_crosses [OF rep] res(2)])
  then show ?thesis using res(1) False by (auto simp: shortest_path_def)
qed

section \<open>The connecting subgraph\<close>

fun pairs :: "'a list \<Rightarrow> ('a \<times> 'a) list" where
  "pairs [] = []"
| "pairs (a # rest) = map (Pair a) rest @ pairs rest"

definition route_nodes :: "path_result option \<Rightarrow> record_id set" where
  "route_nodes res = (case res of None \<Rightarrow> {} | Some p \<Rightarrow> set (node_rids p))"

definition route_edges :: "path_result option \<Rightarrow> record_id set" where
  "route_edges res = (case res of None \<Rightarrow> {} | Some p \<Rightarrow> set (edge_rids p))"

lemma connect_from_does:
  assumes "\<And>b. space_does (shortest_path a b options) S (Ok (f a b)) S"
  shows "space_does (connect_from a rest options acc) S
    (Ok (fst acc \<union> (\<Union>b\<in>set rest. route_nodes (f a b)), snd acc \<union> (\<Union>b\<in>set rest. route_edges (f a b)))) S"
proof (induction rest arbitrary: acc)
  case (Cons b rest)
  have acc: "(case f a b of Some p \<Rightarrow> (fst acc \<union> set (node_rids p), snd acc \<union> set (edge_rids p)) | None \<Rightarrow> acc) =
      (fst acc \<union> route_nodes (f a b), snd acc \<union> route_edges (f a b))"
    by (simp add: route_nodes_def route_edges_def split: option.split)
  show ?case
    unfolding connect_from.simps
    by (rule space_does_bnd [OF assms], unfold acc) (use Cons [of "(fst acc \<union> route_nodes (f a b), snd acc \<union> route_edges (f a b))"] in \<open>simp add: Un_assoc\<close>)
qed simp

lemma connect_all_does:
  assumes "\<And>a b. a \<in> set rids \<Longrightarrow> space_does (shortest_path a b options) S (Ok (f a b)) S"
  shows "space_does (connect_all rids options acc) S
    (Ok (fst acc \<union> set rids \<union> (\<Union>(a, b)\<in>set (pairs rids). route_nodes (f a b)),
      snd acc \<union> (\<Union>(a, b)\<in>set (pairs rids). route_edges (f a b)))) S"
  using assms
proof (induction rids arbitrary: acc)
  case (Cons a rest)
  let ?N = "fst acc \<union> (\<Union>b\<in>set rest. route_nodes (f a b))" and ?E = "snd acc \<union> (\<Union>b\<in>set rest. route_edges (f a b))"
  have 1: "space_does (connect_from a rest options acc) S (Ok (?N, ?E)) S"
    by (rule connect_from_does) (rule Cons.prems, simp)
  have 2: "space_does (connect_all rest options (insert a ?N, ?E)) S
    (Ok (fst (insert a ?N, ?E) \<union> set rest \<union> (\<Union>(a, b)\<in>set (pairs rest). route_nodes (f a b)),
      snd (insert a ?N, ?E) \<union> (\<Union>(a, b)\<in>set (pairs rest). route_edges (f a b)))) S"
    by (rule Cons.IH) (rule Cons.prems, simp)
  have e1: "fst (insert a ?N, ?E) \<union> set rest \<union> (\<Union>(a, b)\<in>set (pairs rest). route_nodes (f a b)) =
      fst acc \<union> set (a # rest) \<union> (\<Union>(a, b)\<in>set (pairs (a # rest)). route_nodes (f a b))" by auto
  have e2: "snd (insert a ?N, ?E) \<union> (\<Union>(a, b)\<in>set (pairs rest). route_edges (f a b)) =
      snd acc \<union> (\<Union>(a, b)\<in>set (pairs (a # rest)). route_edges (f a b))" by auto
  note 3 = 2 [unfolded e1 e2]
  show ?case
    unfolding connect_all.simps by (rule space_does_bnd [OF 1], unfold fst_conv snd_conv) (rule 3)
qed simp

section \<open>Properties\<close>

text \<open>
  C30: the search finds shortest routes. From any node of the graph, to any id, \<open>shortest_path\<close>
  ends without an error and without touching the database: it answers a route whose steps are edges of
  the graph that the options allow (direction and edge types), no longer than \<open>max_depth\<close> and no longer
  than any other such route; it answers that there is none exactly when every allowed route is longer
  than \<open>max_depth\<close>. Cycles, self loops and parallel edges make no difference.
\<close>

theorem shortest_path_is_shortest:
  assumes "space_rep db S" "graph_rep S G" "from \<in> verts G"
  shows "\<exists>res db'. shortest_path from to options db = (Ok res, db') \<and> space_rep db' S \<and> best_route S options from to res"
proof -
  have "live S" using assms(1) by (auto simp: live_def)
  from shortest_path_does [OF this assms(2,3), of to options] show ?thesis using does_run [OF _ assms(1)] by blast
qed

lemma one_edge_graph:
  "\<exists>v w r db S G. v \<noteq> w \<and> space_rep db S \<and> graph_rep S G \<and> verts G = {v, w} \<and> arcs G = [r \<mapsto> (v, w)]"
proof -
  have lv: "live (fresh_spaces 1000)" using memory_spaces by (auto simp: live_def)
  have room: "2 \<le> sp_room (fresh_spaces 1000)" "sp_room (fresh_spaces 1000) = 1000" by (simp_all add: fresh_spaces_def)
  let ?G0 = empty_graph
  obtain v S1 where v: "space_does (alloc_node 1) (fresh_spaces 1000) (Ok v) S1"
      "graph_rep S1 (?G0\<lparr>verts := insert v (verts ?G0)\<rparr>)" "sp_room (fresh_spaces 1000) - 2 \<le> sp_room S1"
    using new_node_rep [OF lv fresh_graph room(1)] by blast
  let ?G1 = "?G0\<lparr>verts := insert v (verts ?G0)\<rparr>"
  obtain db1 where db1: "space_rep db1 S1" using does_run [OF v(1) memory_spaces] by blast
  have lv1: "live S1" using db1 by (auto simp: live_def)
  have room1: "998 \<le> sp_room S1" using v(3) room(2) by simp
  then have "2 \<le> sp_room S1" by simp
  from new_node_rep [OF lv1 v(2) this] obtain w S2 where w: "space_does (alloc_node 1) S1 (Ok w) S2" "w \<notin> verts ?G1"
      "graph_rep S2 (?G1\<lparr>verts := insert w (verts ?G1)\<rparr>)" "sp_room S1 - 2 \<le> sp_room S2" by blast
  let ?G2 = "?G1\<lparr>verts := insert w (verts ?G1)\<rparr>"
  obtain db2 where db2: "space_rep db2 S2" using does_run [OF w(1) db1] by blast
  have lv2: "live S2" using db2 by (auto simp: live_def)
  have "2 \<le> sp_room S2" using w(4) room1 by simp
  from link_new_edge_rep [OF lv2 w(3) this, of v w 2] obtain r S3 where r: "space_does (link_new_edge 2 v w) S2 (Ok r) S3"
      "graph_rep S3 (add_arc r (v, w) ?G2)" by auto
  obtain db3 where db3: "space_rep db3 S3" using does_run [OF r(1) db2] by blast
  have "verts (add_arc r (v, w) ?G2) = {v, w}" "arcs (add_arc r (v, w) ?G2) = [r \<mapsto> (v, w)]"
    by (auto simp: add_arc_def empty_graph_def)
  moreover have "v \<noteq> w" using w(2) by auto
  ultimately show ?thesis using db3 r(2) by blast
qed

theorem shortest_path_is_shortest_witness:
  "\<exists>v w r db db'. v \<noteq> w \<and>
    shortest_path v w path_options_default db = (Ok (Some \<lparr>node_rids = [v, w], edge_rids = [r]\<rparr>), db')"
proof -
  obtain v w r db S G where ex: "v \<noteq> w" "space_rep db S" "graph_rep S G" "verts G = {v, w}" "arcs G = [r \<mapsto> (v, w)]"
    using one_edge_graph by blast
  have step: "crosses S path_options_default a r' b \<longleftrightarrow> r' = r \<and> (a = v \<and> b = w \<or> a = w \<and> b = v)" for a r' b
    using graph_repD(3) [OF ex(3), of r'] unfolding ex(5)
    by (cases "edges S r'") (auto simp: crosses_def path_options_default_def edge_matches_def split: if_splits)
  obtain res db' where res: "shortest_path v w path_options_default db = (Ok res, db')" "best_route S path_options_default v w res"
    using shortest_path_is_shortest [OF ex(2,3), of v w path_options_default] ex(4) by blast
  have one: "route (crosses S path_options_default) v [v, w] [r] w" by (simp add: step)
  have depth: "max_depth path_options_default = 10" by (simp add: path_options_default_def)
  have "res \<noteq> None"
  proof
    assume "res = None"
    then have "\<forall>ns es. route (crosses S path_options_default) v ns es w \<longrightarrow> 10 < length es"
      using res(2) depth by (simp add: best_route_def)
    then have "10 < length [r]" using one by blast
    then show False by simp
  qed
  then obtain p where p: "res = Some p" by blast
  have "length (edge_rids p) \<le> length [r]" using res(2) one unfolding best_route_def p option.case by blast
  then have p: "res = Some p" "route (crosses S path_options_default) v (node_rids p) (edge_rids p) w" "length (edge_rids p) \<le> 1"
    using res(2) p by (simp_all add: best_route_def)
  have "node_rids p = [v, w] \<and> edge_rids p = [r]"
    using p(2,3) route_length [OF p(2)] ex(1) by (cases "(crosses S path_options_default, v, node_rids p, edge_rids p, w)" rule: route.cases) (auto simp: step)
  then have "p = \<lparr>node_rids = [v, w], edge_rids = [r]\<rparr>" by simp
  then show ?thesis using ex(1) res(1) p(1) by blast
qed

text \<open>
  C33: the connecting subgraph of a list of nodes of the graph is exactly those nodes together with
  the nodes and the edges of one shortest allowed route for each pair of them (an earlier node to a
  later one), where there is one; computing it ends without an error and leaves the database as it was.
\<close>

theorem connecting_subgraph_joins_pairs:
  assumes "space_rep db S" "graph_rep S G" "set rids \<subseteq> verts G"
  shows "\<exists>f sub db'. connecting_subgraph rids options db = (Ok sub, db') \<and> space_rep db' S \<and>
    (\<forall>(a, b)\<in>set (pairs rids). best_route S options a b (f a b)) \<and>
    sub_nodes sub = set rids \<union> (\<Union>(a, b)\<in>set (pairs rids). route_nodes (f a b)) \<and>
    sub_edges sub = (\<Union>(a, b)\<in>set (pairs rids). route_edges (f a b))"
proof -
  have lv: "live S" using assms(1) by (auto simp: live_def)
  obtain f where f: "\<And>a b. a \<in> verts G \<Longrightarrow> space_does (shortest_path a b options) S (Ok (f a b)) S \<and> best_route S options a b (f a b)"
    using shortest_path_does [OF lv assms(2), where options = options] by metis
  let ?N = "set rids \<union> (\<Union>(a, b)\<in>set (pairs rids). route_nodes (f a b))" and ?E = "\<Union>(a, b)\<in>set (pairs rids). route_edges (f a b)"
  have "space_does (connect_all rids options ({}, {})) S (Ok (?N, ?E)) S"
    using connect_all_does [of rids options S f "({}, {})"] f assms(3) by (simp add: subset_iff)
  then have "space_does (connecting_subgraph rids options) S (Ok \<lparr>sub_nodes = ?N, sub_edges = ?E\<rparr>) S"
    unfolding connecting_subgraph_def by (rule space_does_bnd) simp
  from does_run [OF this assms(1)] obtain db' where
    "connecting_subgraph rids options db = (Ok \<lparr>sub_nodes = ?N, sub_edges = ?E\<rparr>, db')" "space_rep db' S" by blast
  moreover have "fst x \<in> set rids" if "x \<in> set (pairs rids)" for x using that by (induction rids rule: pairs.induct) auto
  then have "\<forall>(a, b)\<in>set (pairs rids). best_route S options a b (f a b)" using f assms(3) by fastforce
  ultimately show ?thesis
    by (intro exI [of _ f] exI [of _ "\<lparr>sub_nodes = ?N, sub_edges = ?E\<rparr>"] exI [of _ db']) simp
qed

theorem connecting_subgraph_joins_pairs_witness:
  "\<exists>v w db sub db'. v \<noteq> w \<and> connecting_subgraph [v, w] path_options_default db = (Ok sub, db') \<and> {v, w} \<subseteq> sub_nodes sub"
proof -
  obtain v w r db S G where ex: "v \<noteq> w" "space_rep db S" "graph_rep S G" "verts G = {v, w}" "arcs G = [r \<mapsto> (v, w)]"
    using one_edge_graph by blast
  have "set [v, w] \<subseteq> verts G" by (simp add: ex(4))
  from connecting_subgraph_joins_pairs [OF ex(2,3) this, of path_options_default] show ?thesis using ex(1) by fastforce
qed

end
