(* ===== verification/Page_Chain.thy ===== *)
theory Page_Chain
  imports Database_File Record_Format "HOL-Library.Multiset"
begin

text \<open>
  What the two on-disk indexes share: pages with a link and a count in front of an array of cells
  (\<^verbatim>\<open>storage/label_index.rs\<close> and \<^verbatim>\<open>storage/property_index.rs\<close> carry
  the same helpers), chains of such pages, and the loop that walks along a chain.

  Both files spell the walk out wherever they need it, with the same counter \<open>steps\<close> and the same
  test against the number of pages of the file; the model has the loop once, with what is done at a
  page as a parameter. \<open>left\<close> is \<open>limit - steps\<close>, the number of links that may still be followed.
\<close>

section \<open>Page header and walk\<close>

definition NO_ROOT :: u32 where
  "NO_ROOT = 0xFFFFFFFF"

definition HEADER :: nat where
  "HEADER = 8"

definition read_next :: "bytes \<Rightarrow> u32" where
  "read_next page = get32 0 page"

definition write_next :: "u32 \<Rightarrow> bytes \<Rightarrow> bytes" where
  "write_next pid page = put32 0 pid page"

definition write_count :: "nat \<Rightarrow> bytes \<Rightarrow> bytes" where
  "write_count c page = put32 4 (of_nat c) page"

definition append_empty_page :: "(database_file, u32) op" where
  "append_empty_page = append_page (write_count 0 (write_next NO_ROOT (replicate PAGE_SIZE 0)))"

text \<open>
  At each page \<open>visit\<close> either ends the loop, with what is left to do, or goes on with a new value of
  the loop's variables; \<open>finish\<close> is what is done at the last page if no visit ended the loop.
\<close>

fun walk_chain :: "nat \<Rightarrow> (u32 \<Rightarrow> bytes \<Rightarrow> 'b \<Rightarrow> (database_file, 'r) op + 'b) \<Rightarrow> (u32 \<Rightarrow> bytes \<Rightarrow> 'b \<Rightarrow> (database_file, 'r) op) \<Rightarrow>
    u32 \<Rightarrow> 'b \<Rightarrow> (database_file, 'r) op" where
  "walk_chain left visit finish pid acc =
     bnd (read_page pid) (\<lambda>page.
       case visit pid page acc of
         Inl action \<Rightarrow> action
       | Inr acc' \<Rightarrow>
           let next = read_next page in
           if next = NO_ROOT then finish pid page acc'
           else
             case left of
               0 \<Rightarrow> err (StorageCorrupted pid)
             | Suc left' \<Rightarrow> walk_chain left' visit finish next acc')"

declare walk_chain.simps [simp del]

lemma page_length_simps [simp]:
  "length page = PAGE_SIZE \<Longrightarrow> length (write_next p page) = PAGE_SIZE"
  "length page = PAGE_SIZE \<Longrightarrow> length (write_count c page) = PAGE_SIZE"
  by (simp_all add: write_next_def write_count_def PAGE_SIZE_def)

lemma page_header_simps [simp]:
  assumes "length page = PAGE_SIZE"
  shows "read_next (write_next p page) = p" "read_next (write_count c page) = read_next page"
    "get32 4 (write_next p page) = get32 4 page" "get32 4 (write_count c page) = of_nat c"
  using assms by (simp_all add: read_next_def write_next_def write_count_def slice_simps PAGE_SIZE_def)

section \<open>Arrays of cells\<close>

lemma put_bytes_join:
  "off + length xs + length ys \<le> length p \<Longrightarrow>
   put_bytes (off + length xs) ys (put_bytes off xs p) = put_bytes off (xs @ ys) p"
  by (auto simp: put_bytes_def add_ac)

text \<open>The live cells of a page: as many as its count says, but never more than fit.\<close>

definition live_count :: "nat \<Rightarrow> bytes \<Rightarrow> nat" where
  "live_count cap page = min (unat (get32 4 page)) cap"

definition cell_list :: "(nat \<Rightarrow> bytes \<Rightarrow> 'a) \<Rightarrow> nat \<Rightarrow> bytes \<Rightarrow> 'a list" where
  "cell_list rd cap page = map (\<lambda>i. rd i page) [0..<live_count cap page]"

lemma live_count_header [simp]:
  "length page = PAGE_SIZE \<Longrightarrow> live_count cap (write_next p page) = live_count cap page"
  "length page = PAGE_SIZE \<Longrightarrow> cap < 2 ^ 32 \<Longrightarrow> c \<le> cap \<Longrightarrow> live_count cap (write_count c page) = c"
  by (simp_all add: live_count_def unat_of_nat_small)

lemma length_cell_list [simp]: "length (cell_list rd cap page) = live_count cap page"
  by (simp add: cell_list_def)

lemma live_count_le: "live_count cap page \<le> cap"
  by (simp add: live_count_def)

lemma nth_cell_list [simp]: "i < live_count cap page \<Longrightarrow> cell_list rd cap page ! i = rd i page"
  by (simp add: cell_list_def)

lemma in_cell_list: "x \<in> set (cell_list rd cap page) \<longleftrightarrow> (\<exists>i<live_count cap page. rd i page = x)"
  by (auto simp: cell_list_def)

text \<open>What a format of cells promises; each page format of the indexes is one.\<close>

locale page_cells =
  fixes rd :: "nat \<Rightarrow> bytes \<Rightarrow> 'a" and wr :: "nat \<Rightarrow> 'a \<Rightarrow> bytes \<Rightarrow> bytes" and cap :: nat
  assumes cap_small: "cap < 2 ^ 32"
    and wr_length: "length page = PAGE_SIZE \<Longrightarrow> i < cap \<Longrightarrow> length (wr i x page) = PAGE_SIZE"
    and rd_wr: "length page = PAGE_SIZE \<Longrightarrow> i < cap \<Longrightarrow> j < cap \<Longrightarrow> rd j (wr i x page) = (if j = i then x else rd j page)"
    and next_wr: "length page = PAGE_SIZE \<Longrightarrow> i < cap \<Longrightarrow> read_next (wr i x page) = read_next page"
    and count_wr: "length page = PAGE_SIZE \<Longrightarrow> i < cap \<Longrightarrow> get32 4 (wr i x page) = get32 4 page"
    and rd_next: "length page = PAGE_SIZE \<Longrightarrow> i < cap \<Longrightarrow> rd i (write_next p page) = rd i page"
    and rd_count: "length page = PAGE_SIZE \<Longrightarrow> i < cap \<Longrightarrow> rd i (write_count c page) = rd i page"
begin

abbreviation cells_of :: "bytes \<Rightarrow> 'a list" where
  "cells_of \<equiv> cell_list rd cap"

lemma cells_next: "length page = PAGE_SIZE \<Longrightarrow> cells_of (write_next p page) = cells_of page"
  by (intro nth_equalityI) (auto simp: rd_next less_le_trans [OF _ live_count_le])

lemma live_count_wr: "length page = PAGE_SIZE \<Longrightarrow> i < cap \<Longrightarrow> live_count cap (wr i x page) = live_count cap page"
  by (simp add: live_count_def count_wr)

lemma cells_wr: "length page = PAGE_SIZE \<Longrightarrow> i < cap \<Longrightarrow> cells_of (wr i x page) = (cells_of page)[i := x]"
  by (intro nth_equalityI) (auto simp: live_count_wr rd_wr less_le_trans [OF _ live_count_le] nth_list_update)

lemma cells_shrink: "length page = PAGE_SIZE \<Longrightarrow> c \<le> live_count cap page \<Longrightarrow> cells_of (write_count c page) = take c (cells_of page)"
  using cap_small live_count_le [of cap page]
  by (intro nth_equalityI) (auto simp: rd_count less_le_trans [OF _ live_count_le])

lemma cells_clear: "length page = PAGE_SIZE \<Longrightarrow> cells_of (write_count 0 page) = []"
  using cells_shrink [of page 0] by simp

lemma cells_push:
  assumes "length page = PAGE_SIZE" "live_count cap page < cap"
  shows "cells_of (write_count (live_count cap page + 1) (wr (live_count cap page) x page)) = cells_of page @ [x]"
proof -
  let ?c = "live_count cap page"
  have len: "length (wr ?c x page) = PAGE_SIZE" using assms by (rule wr_length)
  have n: "live_count cap (write_count (?c + 1) (wr ?c x page)) = ?c + 1"
    using len cap_small assms(2) by simp
  show ?thesis
  proof (rule nth_equalityI)
    show "length (cells_of (write_count (?c + 1) (wr ?c x page))) = length (cells_of page @ [x])"
      unfolding length_cell_list n by simp
    fix i assume "i < length (cells_of (write_count (?c + 1) (wr ?c x page)))"
    then have i: "i < ?c + 1" unfolding length_cell_list n .
    then have "cells_of (write_count (?c + 1) (wr ?c x page)) ! i = rd i (wr ?c x page)"
      using rd_count [OF len] assms(2) n by (subst nth_cell_list) simp_all
    also have "\<dots> = (cells_of page @ [x]) ! i"
      using i assms rd_wr by (auto simp: nth_append)
    finally show "cells_of (write_count (?c + 1) (wr ?c x page)) ! i = (cells_of page @ [x]) ! i" .
  qed
qed

lemma cells_first:
  assumes "length page = PAGE_SIZE" "0 < cap"
  shows "cells_of (write_count 1 (wr 0 x page)) = [x]"
proof -
  have "length (wr 0 x page) = PAGE_SIZE" using assms by (rule wr_length)
  then show ?thesis
    using assms cap_small rd_count [of "wr 0 x page" 0] rd_wr [OF assms(1,2,2)]
    by (intro nth_equalityI) auto
qed

end

text \<open>Removing an entry by moving the last one into its place.\<close>

lemma mset_swap_remove:
  assumes "i < length xs"
  shows "mset (take (length xs - 1) (xs[i := last xs])) = mset xs - {#xs ! i#}"
proof -
  obtain ys l where xs: "xs = ys @ [l]" using assms by (cases xs rule: rev_cases) auto
  show ?thesis
  proof (cases "i = length ys")
    case True
    then show ?thesis by (simp add: xs)
  next
    case False
    then have i: "i < length ys" using assms xs by simp
    then have "xs[i := last xs] = ys[i := l] @ [l]" by (simp add: xs list_update_append1)
    then show ?thesis using i by (simp add: xs mset_update nth_append add_mset_commute)
  qed
qed

section \<open>Chains of pages\<close>

text \<open>The pages \<open>ps\<close> are linked from \<open>p\<close> on, and the last links to \<open>e\<close>.\<close>

fun seg :: "(u32 \<Rightarrow> u32) \<Rightarrow> u32 \<Rightarrow> u32 list \<Rightarrow> u32 \<Rightarrow> bool" where
  "seg nx p [] e \<longleftrightarrow> p = e"
| "seg nx p (q # qs) e \<longleftrightarrow> p = q \<and> seg nx (nx q) qs e"

lemma seg_append: "seg nx p (as @ bs) e \<longleftrightarrow> (\<exists>m. seg nx p as m \<and> seg nx m bs e)"
  by (induction as arbitrary: p) auto

lemma seg_snoc: "seg nx p (as @ [q]) e \<longleftrightarrow> seg nx p as q \<and> nx q = e"
  by (simp add: seg_append)

lemma seg_cong: "seg nx p ps e \<Longrightarrow> (\<And>q. q \<in> set ps \<Longrightarrow> nx' q = nx q) \<Longrightarrow> seg nx' p ps e"
  by (induction ps arbitrary: p) auto

lemma seg_cong_iff: "(\<And>q. q \<in> set ps \<Longrightarrow> nx' q = nx q) \<Longrightarrow> seg nx' p ps e \<longleftrightarrow> seg nx p ps e"
  by (induction ps arbitrary: p) auto

lemma seg_start: "seg nx p ps e \<Longrightarrow> ps \<noteq> [] \<Longrightarrow> p = hd ps"
  by (cases ps) auto

abbreviation next_in :: "vol \<Rightarrow> u32 \<Rightarrow> u32" where
  "next_in v p \<equiv> read_next (vpage v p)"

lemma mapped_not_NO_ROOT: "vol_ok v \<Longrightarrow> mapped v p \<Longrightarrow> p \<noteq> NO_ROOT"
  by (auto simp: vol_ok_def NO_ROOT_def)

lemma distinct_mapped_length:
  assumes "distinct ps" "\<And>p. p \<in> set ps \<Longrightarrow> mapped v p"
  shows "length ps \<le> vcount v"
proof -
  have "inj_on unat (set ps)" by (rule inj_onI) (simp add: word_unat_eq_iff)
  then have "card (unat ` set ps) = length ps" using assms(1) by (simp add: card_image distinct_card)
  moreover have "unat ` set ps \<subseteq> {..<vcount v}" using assms(2) by auto
  then have "card (unat ` set ps) \<le> vcount v" using card_mono [of "{..<vcount v}" "unat ` set ps"] by simp
  ultimately show ?thesis by simp
qed

text \<open>The walk over the pages in front of the one where it ends.\<close>

fun visits :: "(u32 \<Rightarrow> bytes \<Rightarrow> 'b \<Rightarrow> 'c + 'b) \<Rightarrow> vol \<Rightarrow> u32 list \<Rightarrow> 'b \<Rightarrow> 'b option" where
  "visits visit v [] acc = Some acc"
| "visits visit v (p # ps) acc = (case visit p (vpage v p) acc of Inl _ \<Rightarrow> None | Inr acc' \<Rightarrow> visits visit v ps acc')"

lemma walk_skips:
  assumes ok: "vol_ok v" and last: "\<And>left. db_does (walk_chain left visit finish p acc') v r w"
  shows "seg (next_in v) pid as p \<Longrightarrow> \<forall>q\<in>set as. mapped v q \<Longrightarrow> mapped v p \<Longrightarrow> length as \<le> left \<Longrightarrow>
    visits visit v as acc = Some acc' \<Longrightarrow> db_does (walk_chain left visit finish pid acc) v r w"
proof (induction as arbitrary: pid left acc)
  case Nil
  then show ?case using last by simp
next
  case (Cons q qs)
  obtain left' where left: "left = Suc left'" using Cons.prems(4) by (cases left) auto
  obtain acc1 where acc1: "visit q (vpage v q) acc = Inr acc1" "visits visit v qs acc1 = Some acc'"
    using Cons.prems(5) by (auto split: sum.splits)
  have seg: "pid = q" "seg (next_in v) (next_in v q) qs p" using Cons.prems(1) by auto
  have q: "mapped v q" using Cons.prems(2) by simp
  have "mapped v (next_in v q)" using seg(2) Cons.prems(2,3) by (cases qs) auto
  then have more: "next_in v q \<noteq> NO_ROOT" using mapped_not_NO_ROOT [OF ok] by blast
  have "db_does (walk_chain left' visit finish (next_in v q) acc1) v r w"
    using Cons.IH [OF seg(2) _ Cons.prems(3) _ acc1(2)] Cons.prems(2,4) left by simp
  then show ?case
    unfolding walk_chain.simps [of left] seg(1)
    by (intro db.does_bnd [OF db.does_read [OF q]]) (simp add: acc1(1) more left)
qed

lemma walk_stops:
  assumes "vol_ok v" "seg (next_in v) pid (as @ p # bs) e" "\<forall>q\<in>set (as @ [p]). mapped v q" "length as \<le> left"
    and "visits visit v as acc = Some acc'" "visit p (vpage v p) acc' = Inl act" "db_does act v r w"
  shows "db_does (walk_chain left visit finish pid acc) v r w"
proof (rule walk_skips [OF assms(1) _ _ _ _ assms(4,5)])
  show "seg (next_in v) pid as p" using assms(2) by (auto simp: seg_append)
  show p: "mapped v p" "\<forall>q\<in>set as. mapped v q" using assms(3) by auto
  fix left show "db_does (walk_chain left visit finish p acc') v r w"
    unfolding walk_chain.simps [of left]
    by (rule db.does_bnd [OF db.does_read [OF p(1)]]) (simp add: assms(6,7))
qed

lemma walk_ends:
  assumes "vol_ok v" "seg (next_in v) pid (as @ [p]) NO_ROOT" "\<forall>q\<in>set (as @ [p]). mapped v q" "length as \<le> left"
    and "visits visit v (as @ [p]) acc = Some acc''" "db_does (finish p (vpage v p) acc'') v r w"
  shows "db_does (walk_chain left visit finish pid acc) v r w"
proof -
  have split: "\<exists>acc'. visits visit v as acc = Some acc' \<and> visit p (vpage v p) acc' = Inr acc''"
    if "visits visit v (as @ [p]) acc = Some acc''" for acc
    using that by (induction as arbitrary: acc) (auto split: sum.splits)
  then obtain acc' where acc': "visits visit v as acc = Some acc'" "visit p (vpage v p) acc' = Inr acc''"
    using assms(5) by blast
  have seg: "seg (next_in v) pid as p" "next_in v p = NO_ROOT" using assms(2) by (simp_all add: seg_append)
  have p: "mapped v p" "\<forall>q\<in>set as. mapped v q" using assms(3) by auto
  show ?thesis
  proof (rule walk_skips [OF assms(1) _ seg(1) p(2,1) assms(4) acc'(1)])
    fix left show "db_does (walk_chain left visit finish p acc') v r w"
      unfolding walk_chain.simps [of left]
      by (rule db.does_bnd [OF db.does_read [OF p(1)]]) (simp add: acc'(2) seg(2) assms(6))
  qed
qed

lemma does_page_count: "db_does page_count v (Ok (of_nat (vcount v))) v"
  unfolding does_def page_count_def gets_def
  by (auto simp: db_rep_def db_since_def backend_since_refl word_unat_eq_iff unat_of_nat_small vol_ok_def)

lemma unat_page_count: "vol_ok v \<Longrightarrow> unat (of_nat (vcount v) :: u32) = vcount v"
  by (simp add: unat_of_nat_small vol_ok_def)

section \<open>What an index may change\<close>

text \<open>
  An operation on an index whose pages are \<open>own\<close> appends at most \<open>k\<close> pages, keeps every other page
  but the header page, takes only appended pages, and leaves on the header page the header in memory
  if it was there.
\<close>

definition synced :: "vol \<Rightarrow> bool" where
  "synced v \<longleftrightarrow> 0 < vcount v \<and> vpage v 0 = header_serialize (vhdr v)"

lemma synced_vput [simp]: "p \<noteq> 0 \<Longrightarrow> synced (vput p d v) = synced v"
  by (simp add: synced_def)

lemma synced_save: "0 < vcount v \<Longrightarrow> synced (vsave_header h v)"
  by (simp add: synced_def vsave_header_def)

lemma synced_append: "synced v \<Longrightarrow> vcount v < 2 ^ 32 \<Longrightarrow> synced (vappend d v)"
  using fresh_page [of v 0] by (auto simp: synced_def)

lemma synced_mapped: "synced v \<Longrightarrow> mapped v 0"
  by (simp add: synced_def)

definition own_frame :: "nat \<Rightarrow> vol \<Rightarrow> u32 set \<Rightarrow> vol \<Rightarrow> u32 set \<Rightarrow> bool" where
  "own_frame k v own v' own' \<longleftrightarrow> vcount v \<le> vcount v' \<and> vcount v' \<le> vcount v + k \<and>
     (\<forall>p. mapped v p \<and> p \<noteq> 0 \<and> p \<notin> own \<longrightarrow> vpage v' p = vpage v p) \<and>
     (\<forall>p. p \<in> own' \<longrightarrow> p \<in> own \<or> \<not> mapped v p) \<and>
     (synced v \<and> 0 \<notin> own \<longrightarrow> synced v')"

lemma own_frame_refl [simp]: "own_frame k v own v own"
  by (simp add: own_frame_def)

lemma own_frame_trans:
  assumes "own_frame k v own v' own'" "own_frame j v' own' v'' own''"
  shows "own_frame (k + j) v own v'' own''"
proof -
  have m: "mapped v' p" if "mapped v p" for p using assms(1) that by (simp add: own_frame_def)
  have own: "p \<in> own' \<Longrightarrow> p \<in> own \<or> \<not> mapped v p" "p \<in> own'' \<Longrightarrow> p \<in> own' \<or> \<not> mapped v' p" for p
    using assms unfolding own_frame_def by blast+
  have keep: "mapped v p \<Longrightarrow> p \<noteq> 0 \<Longrightarrow> p \<notin> own \<Longrightarrow> vpage v' p = vpage v p"
      "mapped v' p \<Longrightarrow> p \<noteq> 0 \<Longrightarrow> p \<notin> own' \<Longrightarrow> vpage v'' p = vpage v' p" for p
    using assms unfolding own_frame_def by blast+
  have "vpage v'' p = vpage v p" if "mapped v p" "p \<noteq> 0" "p \<notin> own" for p
    using keep(1) [OF that] keep(2) [OF m [OF that(1)] that(2)] own(1) [of p] that by metis
  moreover have "p \<in> own \<or> \<not> mapped v p" if "p \<in> own''" for p
    using own(2) [OF that] own(1) [of p] m by blast
  moreover have "vcount v \<le> vcount v''" "vcount v'' \<le> vcount v + (k + j)" using assms by (auto simp: own_frame_def)
  moreover have "synced v''" if "synced v" "0 \<notin> own"
  proof -
    have "0 \<notin> own'" using own(1) [of 0] that synced_mapped by blast
    then show ?thesis using assms that unfolding own_frame_def by blast
  qed
  ultimately show ?thesis unfolding own_frame_def by blast
qed

lemma own_frame_mono: "own_frame k v own v' own' \<Longrightarrow> k \<le> j \<Longrightarrow> own_frame j v own v' own'"
  by (auto simp: own_frame_def)

lemma own_frame_union: "own_frame k v own v' own' \<Longrightarrow> own_frame k v (own \<union> X) v' (own' \<union> X)"
  by (auto simp: own_frame_def)

text \<open>How a change is shown to be one: it keeps the header, or it has just saved it.\<close>

lemma own_frameI:
  assumes "vcount v \<le> vcount v'" "vcount v' \<le> vcount v + k" "vhdr v' = vhdr v"
    and keep: "\<And>p. mapped v p \<Longrightarrow> p \<notin> own \<Longrightarrow> vpage v' p = vpage v p"
    and take: "\<And>p. p \<in> own' \<Longrightarrow> p \<in> own \<or> \<not> mapped v p"
  shows "own_frame k v own v' own'"
proof -
  have "synced v'" if "synced v" "0 \<notin> own"
    using that keep [of 0] assms(1,3) synced_mapped [OF that(1)] by (simp add: synced_def)
  then show ?thesis using assms unfolding own_frame_def by blast
qed

lemma own_frame_savedI:
  assumes "vcount v \<le> vcount v'" "vcount v' \<le> vcount v + k" "synced v'"
    and keep: "\<And>p. mapped v p \<Longrightarrow> p \<noteq> 0 \<Longrightarrow> p \<notin> own \<Longrightarrow> vpage v' p = vpage v p"
    and take: "\<And>p. p \<in> own' \<Longrightarrow> p \<in> own \<or> \<not> mapped v p"
  shows "own_frame k v own v' own'"
  using assms unfolding own_frame_def by blast

lemma own_frame_put: "p \<in> own \<Longrightarrow> own_frame k v own (vput p d v) own"
  by (cases "p = 0") (auto simp: own_frame_def)

end
