(* ===== verification/Property_Index.thy ===== *)
theory Property_Index
  imports Page_Chain "HOL-Library.Multiset"
begin

text \<open>
  The tier-2 property index of \<^verbatim>\<open>storage/property_index.rs\<close>: fixed-size entries
  \<open>(type, path hash, value hash, record id)\<close> in 256 hash buckets, each a chain of pages whose head is
  found in a directory page.

  The abstract index is a set of pairs of a key and a record id. The lemmas show that adding,
  removing and looking up implement it on chains of any length, and touch no other page of the file.
\<close>

section \<open>Keys\<close>

record index_key =
  type_id :: u16
  path_hash :: u64
  value_hash :: u64

definition BUCKET_COUNT :: nat where
  "BUCKET_COUNT = 256"

definition PI_ENTRY_SIZE :: nat where
  "PI_ENTRY_SIZE = 24"

definition PI_ENTRIES_PER_PAGE :: nat where
  "PI_ENTRIES_PER_PAGE = (PAGE_SIZE - HEADER) div PI_ENTRY_SIZE"

definition DIR_SLOTS_PER_PAGE :: nat where
  "DIR_SLOTS_PER_PAGE = (PAGE_SIZE - HEADER) div 4"

definition fnv1a :: "bytes \<Rightarrow> u64" where
  "fnv1a bs = fold (\<lambda>b hash. (hash XOR ucast b) * 0x00000100000001b3) bs 0xcbf29ce484222325"

definition hash_bytes :: "bytes \<Rightarrow> u64" where
  "hash_bytes bs = fnv1a bs"

definition index_key_new :: "u16 \<Rightarrow> bytes \<Rightarrow> bytes \<Rightarrow> index_key" where
  "index_key_new t path_display value_bytes =
     \<lparr>type_id = t, path_hash = hash_bytes path_display, value_hash = hash_bytes value_bytes\<rparr>"

definition bucket :: "index_key \<Rightarrow> nat" where
  "bucket key =
     unat (fnv1a (write_fields [(0, le16 (type_id key)), (2, le64 (path_hash key)), (10, le64 (value_hash key))]
       (replicate 18 0))) mod BUCKET_COUNT"

definition key_matches :: "index_key \<Rightarrow> u16 \<Rightarrow> u64 \<Rightarrow> u64 \<Rightarrow> bool" where
  "key_matches key t ph vh \<longleftrightarrow> type_id key = t \<and> path_hash key = ph \<and> value_hash key = vh"

section \<open>Bytes\<close>

type_synonym index_entry = "u16 \<times> u64 \<times> u64 \<times> record_id"

definition pi_read_count :: "bytes \<Rightarrow> nat" where
  "pi_read_count page = min (unat (get32 4 page)) PI_ENTRIES_PER_PAGE"

definition read_dir_slot :: "nat \<Rightarrow> bytes \<Rightarrow> u32" where
  "read_dir_slot slot page = get32 (HEADER + slot * 4) page"

definition write_dir_slot :: "nat \<Rightarrow> u32 \<Rightarrow> bytes \<Rightarrow> bytes" where
  "write_dir_slot slot pid page = put32 (HEADER + slot * 4) pid page"

definition pi_read_entry :: "nat \<Rightarrow> bytes \<Rightarrow> index_entry" where
  "pi_read_entry idx page =
     (let off = HEADER + idx * PI_ENTRY_SIZE in
      (get16 off page, get64 (off + 2) page, get64 (off + 10) page,
       decode_record_id_6 (get_bytes (off + 18) 6 page)))"

definition write_entry_raw :: "nat \<Rightarrow> index_entry \<Rightarrow> bytes \<Rightarrow> bytes" where
  "write_entry_raw idx e page =
     (case e of (t, ph, vh, rid) \<Rightarrow>
        let off = HEADER + idx * PI_ENTRY_SIZE in
        put_bytes (off + 18) (encode_record_id_6 rid)
          (put64 (off + 10) vh (put64 (off + 2) ph (put16 off t page))))"

definition pi_write_entry :: "nat \<Rightarrow> index_key \<Rightarrow> record_id \<Rightarrow> bytes \<Rightarrow> bytes" where
  "pi_write_entry idx key rid page = write_entry_raw idx (type_id key, path_hash key, value_hash key, rid) page"

definition append_empty_dir_page :: "(database_file, u32) op" where
  "append_empty_dir_page =
     append_page (fold (\<lambda>slot. write_dir_slot slot NO_ROOT) [0..<DIR_SLOTS_PER_PAGE]
       (write_count 0 (write_next NO_ROOT (replicate PAGE_SIZE 0))))"

section \<open>The bucket directory\<close>

definition dir_location :: "nat \<Rightarrow> nat \<times> nat" where
  "dir_location b = (b div DIR_SLOTS_PER_PAGE, b mod DIR_SLOTS_PER_PAGE)"

fun bucket_dir_loop :: "nat \<Rightarrow> u32 \<Rightarrow> (database_file, u32 option) op" where
  "bucket_dir_loop 0 pid = ret (Some pid)"
| "bucket_dir_loop (Suc k) pid =
     bnd (read_page pid) (\<lambda>page.
       let next = read_next page in
       if next = NO_ROOT then ret None else bucket_dir_loop k next)"

definition bucket_head :: "nat \<Rightarrow> (database_file, u32 option) op" where
  "bucket_head b = (\<lambda>db.
     let root = property_index_root (header db) in
     if root = NO_ROOT then ret None db
     else
       case dir_location b of (dir_pid, slot) \<Rightarrow>
         bnd (bucket_dir_loop dir_pid root) (\<lambda>found.
           case found of
             None \<Rightarrow> ret None
           | Some pid \<Rightarrow>
               bnd (read_page pid) (\<lambda>page.
                 let head = read_dir_slot slot page in
                 ret (if head = NO_ROOT then None else Some head))) db)"

fun bucket_dir_ensure :: "nat \<Rightarrow> u32 \<Rightarrow> (database_file, u32) op" where
  "bucket_dir_ensure 0 pid = ret pid"
| "bucket_dir_ensure (Suc k) pid =
     bnd (read_page pid) (\<lambda>page.
       let next = read_next page in
       if next \<noteq> NO_ROOT then bucket_dir_ensure k next
       else
         bnd append_empty_dir_page (\<lambda>new_pid.
         bnd (write_page pid (write_next new_pid page)) (\<lambda>_.
         bucket_dir_ensure k new_pid)))"

definition ensure_index_root :: "(database_file, unit) op" where
  "ensure_index_root = (\<lambda>db.
     if property_index_root (header db) = NO_ROOT then
       bnd append_empty_dir_page (\<lambda>pid.
       bnd (modify (\<lambda>db. db\<lparr>header := (header db)\<lparr>property_index_root := pid\<rparr>\<rparr>)) (\<lambda>_. write_header)) db
     else ret () db)"

definition bucket_head_ensure :: "nat \<Rightarrow> (database_file, u32) op" where
  "bucket_head_ensure b =
     bnd (bucket_head b) (\<lambda>found.
       case found of
         Some pid \<Rightarrow> ret pid
       | None \<Rightarrow>
           bnd ensure_index_root (\<lambda>_.
           case dir_location b of (dir_pid, slot) \<Rightarrow>
             bnd (\<lambda>db. bucket_dir_ensure dir_pid (property_index_root (header db)) db) (\<lambda>pid.
             bnd append_empty_page (\<lambda>head.
             bnd (read_page pid) (\<lambda>page.
             let page = write_dir_slot slot head page;
                 c = max (pi_read_count page) (slot + 1);
                 page = write_count c page
             in bnd (write_page pid page) (\<lambda>_. ret head))))))"

section \<open>Operations\<close>

definition entry_at :: "index_key \<Rightarrow> record_id \<Rightarrow> index_entry \<Rightarrow> bool" where
  "entry_at key rid e = (case e of (t, ph, vh, r) \<Rightarrow> key_matches key t ph vh \<and> r = rid)"

definition link_tail :: "u32 \<Rightarrow> u32 \<Rightarrow> (database_file, unit) op" where
  "link_tail head new_pid =
     bnd page_count (\<lambda>limit.
     walk_chain (unat limit) (\<lambda>pid page _. Inr ())
       (\<lambda>pid page _. write_page pid (write_next new_pid page)) head ())"

definition pi_add_entry :: "u32 \<Rightarrow> index_key \<Rightarrow> record_id \<Rightarrow> u32 option \<Rightarrow> (database_file, unit) op" where
  "pi_add_entry head key rid first_free =
     (case first_free of
        Some free_pid \<Rightarrow>
          bnd (read_page free_pid) (\<lambda>page.
          let c = pi_read_count page in
          write_page free_pid (write_count (c + 1) (pi_write_entry c key rid page)))
      | None \<Rightarrow>
          bnd append_empty_page (\<lambda>new_pid.
          bnd (read_page new_pid) (\<lambda>new_page.
          bnd (write_page new_pid (write_count 1 (pi_write_entry 0 key rid new_page))) (\<lambda>_.
          link_tail head new_pid))))"

definition pi_add_visit :: "index_key \<Rightarrow> record_id \<Rightarrow> u32 \<Rightarrow> bytes \<Rightarrow> u32 option \<Rightarrow> (database_file, unit) op + u32 option" where
  "pi_add_visit key rid pid page first_free =
     (let c = pi_read_count page in
      if \<exists>i\<in>set [0..<c]. entry_at key rid (pi_read_entry i page) then Inl (ret ())
      else Inr (if c < PI_ENTRIES_PER_PAGE \<and> first_free = None then Some pid else first_free))"

definition pi_add :: "index_key \<Rightarrow> record_id \<Rightarrow> (database_file, unit) op" where
  "pi_add key rid =
     bnd (bucket_head_ensure (bucket key)) (\<lambda>head.
     bnd page_count (\<lambda>limit.
     walk_chain (unat limit) (pi_add_visit key rid)
       (\<lambda>pid page first_free. pi_add_entry head key rid first_free)
       head None))"

definition pi_remove :: "index_key \<Rightarrow> record_id \<Rightarrow> (database_file, unit) op" where
  "pi_remove key rid =
     bnd (bucket_head (bucket key)) (\<lambda>found.
       case found of
         None \<Rightarrow> ret ()
       | Some head \<Rightarrow>
           bnd page_count (\<lambda>limit.
           walk_chain (unat limit)
             (\<lambda>pid page _.
                let c = pi_read_count page in
                case find (\<lambda>i. entry_at key rid (pi_read_entry i page)) [0..<c] of
                  Some i \<Rightarrow>
                    let last = pi_read_entry (c - 1) page in
                    Inl (write_page pid (write_count (c - 1) (write_entry_raw i last page)))
                | None \<Rightarrow> Inr ())
             (\<lambda>pid page _. ret ())
             head ()))"

definition candidates :: "index_key \<Rightarrow> (database_file, record_id list) op" where
  "candidates key =
     bnd (bucket_head (bucket key)) (\<lambda>found.
       case found of
         None \<Rightarrow> ret []
       | Some head \<Rightarrow>
           bnd page_count (\<lambda>limit.
           walk_chain (unat limit)
             (\<lambda>pid page out.
                Inr (out @ [r. (t, ph, vh, r) \<leftarrow> map (\<lambda>i. pi_read_entry i page) [0..<pi_read_count page],
                  key_matches key t ph vh]))
             (\<lambda>pid page out. ret out)
             head []))"

section \<open>Pages of entries\<close>

lemma pi_sizes: "PI_ENTRIES_PER_PAGE = 170" "DIR_SLOTS_PER_PAGE = 1022" "HEADER = 8"
  by (simp_all add: PI_ENTRIES_PER_PAGE_def DIR_SLOTS_PER_PAGE_def HEADER_def PI_ENTRY_SIZE_def PAGE_SIZE_def)

lemma pi_read_count_live: "pi_read_count = live_count PI_ENTRIES_PER_PAGE"
  by (simp add: fun_eq_iff pi_read_count_def live_count_def)

text \<open>An entry is one slice of 24 bytes.\<close>

definition entry_bytes :: "index_entry \<Rightarrow> bytes" where
  "entry_bytes e = (case e of (t, ph, vh, rid) \<Rightarrow> le16 t @ le64 ph @ le64 vh @ encode_record_id_6 rid)"

lemma length_entry_bytes [simp]: "length (entry_bytes e) = 24"
  by (cases e) (simp add: entry_bytes_def)

lemma write_entry_raw_slice:
  assumes "length page = PAGE_SIZE" "idx < PI_ENTRIES_PER_PAGE"
  shows "write_entry_raw idx e page = put_bytes (HEADER + idx * PI_ENTRY_SIZE) (entry_bytes e) page"
proof -
  obtain t ph vh rid where e: "e = (t, ph, vh, rid)" by (cases e)
  let ?o = "HEADER + idx * PI_ENTRY_SIZE"
  have fits: "?o + 24 \<le> length page"
    using assms by (simp add: pi_sizes PI_ENTRY_SIZE_def PAGE_SIZE_def)
  have 1: "put64 (?o + 2) ph (put16 ?o t page) = put_bytes ?o (le16 t @ le64 ph) page"
    using put_bytes_join [of ?o "le16 t" "le64 ph" page] fits by simp
  have 2: "put64 (?o + 10) vh (put_bytes ?o (le16 t @ le64 ph) page) = put_bytes ?o (le16 t @ le64 ph @ le64 vh) page"
    using put_bytes_join [of ?o "le16 t @ le64 ph" "le64 vh" page] fits by simp
  have 3: "put_bytes (?o + 18) (encode_record_id_6 rid) (put_bytes ?o (le16 t @ le64 ph @ le64 vh) page) =
      put_bytes ?o (le16 t @ le64 ph @ le64 vh @ encode_record_id_6 rid) page"
    using put_bytes_join [of ?o "le16 t @ le64 ph @ le64 vh" "encode_record_id_6 rid" page] fits by simp
  show ?thesis by (simp only: write_entry_raw_def e prod.case Let_def 1 2 3 entry_bytes_def)
qed

lemma read_entry_slice:
  assumes "length page = PAGE_SIZE" "idx < PI_ENTRIES_PER_PAGE" "get_bytes (HEADER + idx * PI_ENTRY_SIZE) 24 page = entry_bytes e"
  shows "pi_read_entry idx page = e"
proof -
  obtain t ph vh rid where e: "e = (t, ph, vh, rid)" by (cases e)
  have sub: "get_bytes (HEADER + idx * PI_ENTRY_SIZE + k) n page = get_bytes k n (entry_bytes e)" if "k + n \<le> 24" for k n
    using that by (simp add: assms(3) [symmetric] get_bytes_def drop_take min_def add.commute)
  have "get_bytes 0 2 (entry_bytes e) = le16 t" "get_bytes 2 8 (entry_bytes e) = le64 ph"
      "get_bytes 10 8 (entry_bytes e) = le64 vh" "get_bytes 18 6 (entry_bytes e) = encode_record_id_6 rid"
    by (simp_all add: e entry_bytes_def get_bytes_def)
  then show ?thesis
    using sub [of 0 2] sub [of 2 8] sub [of 10 8] sub [of 18 6] by (simp add: pi_read_entry_def e)
qed

lemma entry_offsets: "i < PI_ENTRIES_PER_PAGE \<Longrightarrow> HEADER + i * PI_ENTRY_SIZE + 24 \<le> PAGE_SIZE"
  by (simp add: pi_sizes PI_ENTRY_SIZE_def PAGE_SIZE_def)

lemma pi_read_entry_cong:
  assumes "get_bytes (HEADER + idx * PI_ENTRY_SIZE) 24 page = get_bytes (HEADER + idx * PI_ENTRY_SIZE) 24 page'"
  shows "pi_read_entry idx page = pi_read_entry idx page'"
proof -
  have sub: "get_bytes (HEADER + idx * PI_ENTRY_SIZE + k) n page = get_bytes (HEADER + idx * PI_ENTRY_SIZE + k) n page'" if "k + n \<le> 24" for k n
  proof -
    have "get_bytes (HEADER + idx * PI_ENTRY_SIZE + k) n p = get_bytes k n (get_bytes (HEADER + idx * PI_ENTRY_SIZE) 24 p)" for p
      using that by (simp add: get_bytes_def drop_take min_def add.commute)
    then show ?thesis using assms by simp
  qed
  show ?thesis using sub [of 0 2] sub [of 2 8] sub [of 10 8] sub [of 18 6] by (simp add: pi_read_entry_def)
qed

interpretation entries: page_cells pi_read_entry write_entry_raw PI_ENTRIES_PER_PAGE
proof
  show "PI_ENTRIES_PER_PAGE < 2 ^ 32" by (simp add: pi_sizes)
  fix page :: bytes and i j :: nat and x :: index_entry and p :: u32 and c :: nat
  assume len: "length page = PAGE_SIZE" and i: "i < PI_ENTRIES_PER_PAGE"
  note o = entry_offsets [OF i]
  note w = write_entry_raw_slice [OF len i, of x]
  show "length (write_entry_raw i x page) = PAGE_SIZE" using o len by (simp add: w)
  then have wlen: "length (write_entry_raw i x page) = PAGE_SIZE" .
  show "read_next (write_entry_raw i x page) = read_next page"
    using o len by (simp add: w read_next_def slice_simps pi_sizes)
  show "get32 4 (write_entry_raw i x page) = get32 4 page"
    using o len by (simp add: w slice_simps pi_sizes)
  show "pi_read_entry i (write_next p page) = pi_read_entry i page"
    by (rule pi_read_entry_cong) (use o len in \<open>simp add: write_next_def slice_simps pi_sizes\<close>)
  show "pi_read_entry i (write_count c page) = pi_read_entry i page"
    by (rule pi_read_entry_cong) (use o len in \<open>simp add: write_count_def slice_simps pi_sizes\<close>)
  show "pi_read_entry j (write_entry_raw i x page) = (if j = i then x else pi_read_entry j page)" if j: "j < PI_ENTRIES_PER_PAGE"
  proof (cases "j = i")
    case True
    have "get_bytes (HEADER + i * PI_ENTRY_SIZE) 24 (write_entry_raw i x page) = entry_bytes x"
      using o len by (simp add: w slice_simps)
    then show ?thesis using read_entry_slice [OF wlen i] True by simp
  next
    case False
    have apart: "HEADER + j * PI_ENTRY_SIZE + 24 \<le> HEADER + i * PI_ENTRY_SIZE \<or> HEADER + i * PI_ENTRY_SIZE + 24 \<le> HEADER + j * PI_ENTRY_SIZE"
      using False by (cases i j rule: linorder_cases) (auto simp: PI_ENTRY_SIZE_def)
    have "pi_read_entry j (write_entry_raw i x page) = pi_read_entry j page"
      by (rule pi_read_entry_cong) (use o entry_offsets [OF j] len apart in \<open>simp add: w get_put_disjoint\<close>)
    then show ?thesis using False by simp
  qed
qed

lemma dir_slot_offsets: "i < DIR_SLOTS_PER_PAGE \<Longrightarrow> HEADER + i * 4 + 4 \<le> PAGE_SIZE"
  by (simp add: pi_sizes PAGE_SIZE_def)

interpretation dirs: page_cells read_dir_slot write_dir_slot DIR_SLOTS_PER_PAGE
proof
  show "DIR_SLOTS_PER_PAGE < 2 ^ 32" by (simp add: pi_sizes)
  fix page :: bytes and i j :: nat and x p :: u32 and c :: nat
  assume len: "length page = PAGE_SIZE" and i: "i < DIR_SLOTS_PER_PAGE"
  note o = dir_slot_offsets [OF i]
  show "length (write_dir_slot i x page) = PAGE_SIZE" using o len by (simp add: write_dir_slot_def)
  show "read_next (write_dir_slot i x page) = read_next page"
    using o len by (simp add: write_dir_slot_def read_next_def slice_simps pi_sizes)
  show "get32 4 (write_dir_slot i x page) = get32 4 page"
    using o len by (simp add: write_dir_slot_def slice_simps pi_sizes)
  show "read_dir_slot i (write_next p page) = read_dir_slot i page"
    using o len by (simp add: read_dir_slot_def write_next_def slice_simps pi_sizes)
  show "read_dir_slot i (write_count c page) = read_dir_slot i page"
    using o len by (simp add: read_dir_slot_def write_count_def slice_simps pi_sizes)
  show "read_dir_slot j (write_dir_slot i x page) = (if j = i then x else read_dir_slot j page)" if j: "j < DIR_SLOTS_PER_PAGE"
    using o dir_slot_offsets [OF j] len
    by (cases i j rule: linorder_cases) (auto simp: read_dir_slot_def write_dir_slot_def slice_simps)
qed

definition empty_dir_page :: bytes where
  "empty_dir_page = fold (\<lambda>slot. write_dir_slot slot NO_ROOT) [0..<DIR_SLOTS_PER_PAGE]
     (write_count 0 (write_next NO_ROOT (replicate PAGE_SIZE 0)))"

definition empty_page :: bytes where
  "empty_page = write_count 0 (write_next NO_ROOT (replicate PAGE_SIZE 0))"

lemma empty_page_simps [simp]:
  "length empty_page = PAGE_SIZE" "read_next empty_page = NO_ROOT" "live_count cap empty_page = 0"
  by (simp_all add: empty_page_def live_count_def)

lemma empty_page_cells [simp]: "cell_list rd cap empty_page = []"
  by (simp add: cell_list_def)

lemma empty_dir_page_simps:
  "length empty_dir_page = PAGE_SIZE" "b < DIR_SLOTS_PER_PAGE \<Longrightarrow> read_dir_slot b empty_dir_page = NO_ROOT"
proof -
  have fill: "length (fold (\<lambda>slot. write_dir_slot slot NO_ROOT) xs page) = PAGE_SIZE \<and>
      (\<forall>b<DIR_SLOTS_PER_PAGE. b \<in> set xs \<or> read_dir_slot b page = NO_ROOT \<longrightarrow>
        read_dir_slot b (fold (\<lambda>slot. write_dir_slot slot NO_ROOT) xs page) = NO_ROOT)"
    if "length page = PAGE_SIZE" "\<forall>x\<in>set xs. x < DIR_SLOTS_PER_PAGE" for xs page
    using that
  proof (induction xs arbitrary: page)
    case (Cons x xs)
    have x: "x < DIR_SLOTS_PER_PAGE" using Cons.prems(2) by simp
    show ?case
      using Cons.IH [OF dirs.wr_length [OF Cons.prems(1) x, of NO_ROOT]] Cons.prems(2) dirs.rd_wr [OF Cons.prems(1) x, of _ NO_ROOT]
      by auto
  qed simp
  show "length empty_dir_page = PAGE_SIZE" "b < DIR_SLOTS_PER_PAGE \<Longrightarrow> read_dir_slot b empty_dir_page = NO_ROOT"
    unfolding empty_dir_page_def
    using fill [of "write_count 0 (write_next NO_ROOT (replicate PAGE_SIZE 0))" "[0..<DIR_SLOTS_PER_PAGE]"] by simp_all
qed

section \<open>The index on disk\<close>

abbreviation pi_root :: "vol \<Rightarrow> u32" where
  "pi_root v \<equiv> property_index_root (vhdr v)"

text \<open>\<open>B b\<close> are the pages of bucket \<open>b\<close>, in their order.\<close>

definition pi_shape :: "vol \<Rightarrow> (nat \<Rightarrow> u32 list) \<Rightarrow> bool" where
  "pi_shape v B \<longleftrightarrow> vol_ok v \<and> 0 < vcount v \<and> (\<forall>b. B b \<noteq> [] \<longrightarrow> b < BUCKET_COUNT \<and> pi_root v \<noteq> NO_ROOT) \<and>
     (pi_root v \<noteq> NO_ROOT \<longrightarrow> mapped v (pi_root v) \<and> pi_root v \<noteq> 0 \<and>
       (\<forall>b<BUCKET_COUNT. seg (next_in v) (read_dir_slot b (vpage v (pi_root v))) (B b) NO_ROOT)) \<and>
     (\<forall>b. \<forall>p\<in>set (B b). mapped v p \<and> p \<noteq> 0 \<and> p \<noteq> pi_root v) \<and>
     (\<forall>b. distinct (B b)) \<and> (\<forall>b c. b \<noteq> c \<longrightarrow> set (B b) \<inter> set (B c) = {})"

definition pi_own :: "vol \<Rightarrow> (nat \<Rightarrow> u32 list) \<Rightarrow> u32 set" where
  "pi_own v B = {p. pi_root v \<noteq> NO_ROOT \<and> p = pi_root v} \<union> (\<Union>b. set (B b))"

lemma pi_ownI: "p \<in> set (B b) \<Longrightarrow> p \<in> pi_own v B" "pi_root v \<noteq> NO_ROOT \<Longrightarrow> pi_root v \<in> pi_own v B"
  by (auto simp: pi_own_def)

definition bucket_entries :: "vol \<Rightarrow> u32 list \<Rightarrow> index_entry list" where
  "bucket_entries v ps = concat (map (\<lambda>p. entries.cells_of (vpage v p)) ps)"

lemma pi_shapeD:
  assumes "pi_shape v B"
  shows "vol_ok v" "0 < vcount v" "B b \<noteq> [] \<Longrightarrow> b < BUCKET_COUNT" "B b \<noteq> [] \<Longrightarrow> pi_root v \<noteq> NO_ROOT"
    "pi_root v \<noteq> NO_ROOT \<Longrightarrow> mapped v (pi_root v)" "pi_root v \<noteq> NO_ROOT \<Longrightarrow> pi_root v \<noteq> 0"
    "pi_root v \<noteq> NO_ROOT \<Longrightarrow> b < BUCKET_COUNT \<Longrightarrow> seg (next_in v) (read_dir_slot b (vpage v (pi_root v))) (B b) NO_ROOT"
    "p \<in> set (B b) \<Longrightarrow> mapped v p" "p \<in> set (B b) \<Longrightarrow> p \<noteq> 0" "p \<in> set (B b) \<Longrightarrow> p \<noteq> pi_root v"
    "distinct (B b)" "p \<in> set (B b) \<Longrightarrow> b \<noteq> c \<Longrightarrow> p \<notin> set (B c)"
  using assms unfolding pi_shape_def by blast+

lemma pi_shapeI:
  assumes "vol_ok v" "0 < vcount v" "\<And>b. B b \<noteq> [] \<Longrightarrow> b < BUCKET_COUNT \<and> pi_root v \<noteq> NO_ROOT"
    "pi_root v \<noteq> NO_ROOT \<Longrightarrow> mapped v (pi_root v) \<and> pi_root v \<noteq> 0"
    "\<And>b. pi_root v \<noteq> NO_ROOT \<Longrightarrow> b < BUCKET_COUNT \<Longrightarrow> seg (next_in v) (read_dir_slot b (vpage v (pi_root v))) (B b) NO_ROOT"
    "\<And>p b. p \<in> set (B b) \<Longrightarrow> mapped v p \<and> p \<noteq> 0 \<and> p \<noteq> pi_root v"
    "\<And>b. distinct (B b)" "\<And>p b c. b \<noteq> c \<Longrightarrow> p \<in> set (B b) \<Longrightarrow> p \<notin> set (B c)"
  shows "pi_shape v B"
  unfolding pi_shape_def by (intro conjI allI impI ballI) (use assms in blast)+

lemma bucket_entries_cong: "(\<And>p. p \<in> set ps \<Longrightarrow> vpage v' p = vpage v p) \<Longrightarrow> bucket_entries v' ps = bucket_entries v ps"
  by (simp add: bucket_entries_def cong: map_cong)

lemma bucket_entries_append: "bucket_entries v (ps @ qs) = bucket_entries v ps @ bucket_entries v qs"
  by (simp add: bucket_entries_def)

lemma pi_shape_cong:
  assumes "pi_shape v B" "vol_ok v'" "0 < vcount v'" "pi_root v' = pi_root v"
    and "\<And>p. p \<in> pi_own v B \<Longrightarrow> mapped v' p \<and> vpage v' p = vpage v p"
  shows "pi_shape v' B"
proof -
  have seg: "seg (next_in v') (read_dir_slot b (vpage v' (pi_root v'))) (B b) NO_ROOT"
    if "pi_root v \<noteq> NO_ROOT" "b < BUCKET_COUNT" for b
  proof -
    have "seg (next_in v') (read_dir_slot b (vpage v (pi_root v))) (B b) NO_ROOT"
      by (rule seg_cong [OF pi_shapeD(7) [OF assms(1) that]]) (simp add: assms(5) [OF pi_ownI(1)])
    then show ?thesis using assms(4) assms(5) [OF pi_ownI(2)] that(1) by simp
  qed
  note D = pi_shapeD [OF assms(1)]
  have m: "mapped v' p" if "p \<in> set (B b)" for p b using assms(5) [OF pi_ownI(1) [of p B b, OF that]] by simp
  show ?thesis
  proof (rule pi_shapeI [OF assms(2,3)])
    show "B b \<noteq> [] \<Longrightarrow> b < BUCKET_COUNT \<and> pi_root v' \<noteq> NO_ROOT" for b using D(3,4) [of b] assms(4) by simp
    show "pi_root v' \<noteq> NO_ROOT \<Longrightarrow> mapped v' (pi_root v') \<and> pi_root v' \<noteq> 0"
      using assms(5) [OF pi_ownI(2)] D(6) unfolding assms(4) by blast
    show "pi_root v' \<noteq> NO_ROOT \<Longrightarrow> b < BUCKET_COUNT \<Longrightarrow> seg (next_in v') (read_dir_slot b (vpage v' (pi_root v'))) (B b) NO_ROOT" for b
      using seg by (simp add: assms(4))
    show "p \<in> set (B b) \<Longrightarrow> mapped v' p \<and> p \<noteq> 0 \<and> p \<noteq> pi_root v'" for p b
      using m [of p b] D(9,10) [of p b] by (simp add: assms(4))
    show "distinct (B b)" for b by (rule D(11))
    show "b \<noteq> c \<Longrightarrow> p \<in> set (B b) \<Longrightarrow> p \<notin> set (B c)" for p b c using D(12) by blast
  qed
qed

text \<open>Overwriting a page of a bucket, its link kept.\<close>

lemma pi_write_shape:
  assumes "pi_shape v B" "p \<in> set (B b)" "length d = PAGE_SIZE" "read_next d = next_in v p"
  shows "pi_shape (vput p d v) B" "c \<noteq> b \<Longrightarrow> bucket_entries (vput p d v) (B c) = bucket_entries v (B c)"
proof -
  note D = pi_shapeD [OF assms(1)]
  have root: "pi_root v \<noteq> p" using D(10) [OF assms(2)] by simp
  have "seg (next_in (vput p d v)) x (B c) NO_ROOT" if "seg (next_in v) x (B c) NO_ROOT" for x c
    by (rule seg_cong [OF that]) (simp add: assms(4))
  then show "pi_shape (vput p d v) B"
    using assms(1,3) root vol_ok_vput [of v d p] unfolding pi_shape_def vput_simps by (simp add: fun_upd_def)
  show "c \<noteq> b \<Longrightarrow> bucket_entries (vput p d v) (B c) = bucket_entries v (B c)"
    by (rule bucket_entries_cong) (use D(12) [OF assms(2)] in auto)
qed

definition pi_frame :: "nat \<Rightarrow> vol \<Rightarrow> (nat \<Rightarrow> u32 list) \<Rightarrow> vol \<Rightarrow> (nat \<Rightarrow> u32 list) \<Rightarrow> bool" where
  "pi_frame k v B v' B' \<longleftrightarrow>
     (\<exists>r. vhdr v' = (vhdr v)\<lparr>property_index_root := r\<rparr>) \<and> own_frame k v (pi_own v B) v' (pi_own v' B')"

lemma pi_frame_refl: "pi_frame k v B v B"
  by (auto simp: pi_frame_def own_frame_def intro: exI [of _ "property_index_root (vhdr v)"])

lemma pi_frame_trans:
  assumes "pi_frame k v B v' B'" "pi_frame j v' B' v'' B''"
  shows "pi_frame (k + j) v B v'' B''"
proof -
  obtain r where r: "vhdr v' = (vhdr v)\<lparr>property_index_root := r\<rparr>" using assms(1) unfolding pi_frame_def by blast
  obtain s where "vhdr v'' = (vhdr v')\<lparr>property_index_root := s\<rparr>" using assms(2) unfolding pi_frame_def by blast
  then have "\<exists>r. vhdr v'' = (vhdr v)\<lparr>property_index_root := r\<rparr>"
    by (intro exI [of _ s]) (simp add: r)
  moreover have "own_frame (k + j) v (pi_own v B) v'' (pi_own v'' B'')"
    using assms own_frame_trans unfolding pi_frame_def by blast
  ultimately show ?thesis unfolding pi_frame_def by blast
qed

lemma pi_frame_vput: "p \<in> pi_own v B \<Longrightarrow> pi_frame k v B (vput p d v) B"
  unfolding pi_frame_def
  by (auto simp: pi_own_def split: if_splits intro!: own_frameI exI [of _ "property_index_root (vhdr v)"])

section \<open>Finding and making a bucket\<close>

lemma dir_location_small: "b < BUCKET_COUNT \<Longrightarrow> dir_location b = (0, b)"
  by (simp add: dir_location_def BUCKET_COUNT_def pi_sizes)

definition bucket_head_in :: "nat \<Rightarrow> u32 \<Rightarrow> (database_file, u32 option) op" where
  "bucket_head_in b root =
     (if root = NO_ROOT then ret None
      else bnd (read_page root) (\<lambda>page.
        let head = read_dir_slot b page in ret (if head = NO_ROOT then None else Some head)))"

lemma bucket_head_small: "b < BUCKET_COUNT \<Longrightarrow> bucket_head b = (\<lambda>db. bucket_head_in b (property_index_root (header db)) db)"
  by (simp add: bucket_head_def bucket_head_in_def dir_location_small fun_eq_iff)

abbreviation head_option :: "u32 list \<Rightarrow> u32 option" where
  "head_option ps \<equiv> (case ps of [] \<Rightarrow> None | p # _ \<Rightarrow> Some p)"

lemma seg_head:
  assumes "vol_ok v" "seg (next_in v) x ps NO_ROOT" "\<forall>p\<in>set ps. mapped v p"
  shows "(if x = NO_ROOT then None else Some x) = head_option ps"
  using assms mapped_not_NO_ROOT by (cases ps) auto

lemma bucket_head_does:
  assumes sh: "pi_shape v B" and b: "b < BUCKET_COUNT"
  shows "db_does (bucket_head b) v (Ok (head_option (B b))) v"
proof -
  note D = pi_shapeD [OF sh]
  have "db_does (bucket_head_in b (pi_root v)) v (Ok (head_option (B b))) v"
  proof (cases "pi_root v = NO_ROOT")
    case True
    then have "B b = []" using D(4) by blast
    then show ?thesis by (simp add: bucket_head_in_def True)
  next
    case False
    have h: "(if read_dir_slot b (vpage v (pi_root v)) = NO_ROOT then None else Some (read_dir_slot b (vpage v (pi_root v)))) = head_option (B b)"
      by (rule seg_head [OF D(1) D(7) [OF False b]]) (use D(8) in blast)
    show ?thesis
      unfolding bucket_head_in_def if_not_P [OF False] Let_def
      by (rule db.does_bnd [OF db.does_read [OF D(5) [OF False]]]) (simp only: h db.does_ret)
  qed
  then show ?thesis
    unfolding bucket_head_small [OF b]
    by (rule db.does_gets_with [where k = "\<lambda>h. bucket_head_in b (property_index_root h)"])
qed

text \<open>Appending a page.\<close>

lemma append_does:
  assumes "pi_shape v B" "Suc (vcount v) < 2 ^ 32" "length d = PAGE_SIZE"
  shows "db_does (append_page d) v (Ok (of_nat (vcount v))) (vappend d v)" "pi_shape (vappend d v) B"
    "bucket_entries (vappend d v) (B b) = bucket_entries v (B b)" "pi_frame 1 v B (vappend d v) B"
    "\<not> mapped v (of_nat (vcount v))" "mapped (vappend d v) (of_nat (vcount v))" "of_nat (vcount v) \<noteq> (0 :: u32)"
    "of_nat (vcount v) \<notin> pi_own v B"
proof -
  note D = pi_shapeD [OF assms(1)]
  let ?n = "of_nat (vcount v) :: u32"
  have n: "unat ?n = vcount v" using assms(2) by (simp add: unat_of_nat_small)
  show "db_does (append_page d) v (Ok ?n) (vappend d v)" by (rule db.does_append [OF assms(2,3)])
  have own: "mapped v p" if "p \<in> pi_own v B" for p using that D(5,8) by (auto simp: pi_own_def)
  show new: "\<not> mapped v ?n" "mapped (vappend d v) ?n" using n by simp_all
  show "?n \<notin> pi_own v B" using own new by blast
  show "?n \<noteq> 0" using n D(2) by (metis unat_0 neq0_conv)
  have keep: "vpage (vappend d v) p = vpage v p" if "mapped v p" for p using that new by auto
  show "pi_shape (vappend d v) B"
    by (rule pi_shape_cong [OF assms(1) vol_ok_vappend [OF D(1) assms(2,3)]]) (use own keep in \<open>auto simp: less_SucI\<close>)
  show "bucket_entries (vappend d v) (B b) = bucket_entries v (B b)"
    by (rule bucket_entries_cong) (use D(8) keep in blast)
  show "pi_frame 1 v B (vappend d v) B"
    unfolding pi_frame_def using keep by (auto simp: pi_own_def intro!: own_frameI exI [of _ "property_index_root (vhdr v)"])
qed

lemma ensure_root_does:
  assumes sh: "pi_shape v B" and room: "Suc (vcount v) < 2 ^ 32"
  shows "\<exists>v'. db_does ensure_index_root v (Ok ()) v' \<and> pi_shape v' B \<and> pi_root v' \<noteq> NO_ROOT \<and>
    (\<forall>b. bucket_entries v' (B b) = bucket_entries v (B b)) \<and> pi_frame 1 v B v' B"
proof -
  note D = pi_shapeD [OF sh]
  define step where "step h = (if property_index_root h = NO_ROOT then
       bnd append_empty_dir_page (\<lambda>pid.
       bnd (modify (\<lambda>db. db\<lparr>header := (header db)\<lparr>property_index_root := pid\<rparr>\<rparr>)) (\<lambda>_. write_header))
     else ret ())" for h :: file_header
  have "db_does ensure_index_root v r v'" if "db_does (step (vhdr v)) v r v'" for r v'
  proof -
    have "ensure_index_root = (\<lambda>db. step (header db) db)"
      unfolding ensure_index_root_def step_def by (rule ext) simp
    then show ?thesis using db.does_gets_with [where k = step, OF that] by simp
  qed
  note run = this
  show ?thesis
  proof (cases "pi_root v = NO_ROOT")
    case False
    then have "db_does ensure_index_root v (Ok ()) v" by (intro run) (simp add: step_def)
    then show ?thesis using sh False pi_frame_refl by blast
  next
    case True
    note A = append_does [OF sh room empty_dir_page_simps(1)]
    let ?n = "of_nat (vcount v) :: u32"
    let ?v1 = "vappend empty_dir_page v"
    let ?v' = "vsave_header ((vhdr ?v1)\<lparr>property_index_root := ?n\<rparr>) ?v1"
    have B: "B b = []" for b using D(4) True by blast
    have "db_does (step (vhdr v)) v (Ok ()) ?v'"
      unfolding step_def if_P [OF True] append_empty_dir_page_def empty_dir_page_def [symmetric]
      by (rule db.does_bnd [OF A(1)])
        (rule does_save_header [where g = "\<lambda>h. h\<lparr>property_index_root := ?n\<rparr>"], simp)
    then have does: "db_does ensure_index_root v (Ok ()) ?v'" by (rule run)
    have ok: "vol_ok ?v'"
      unfolding vsave_header_def using pi_shapeD(1) [OF A(2)] by (intro vol_ok_vput) (simp_all add: vol_ok_hdr)
    have root: "pi_root ?v' = ?n" by (simp add: vsave_header_def)
    have n: "?n \<noteq> NO_ROOT" using mapped_not_NO_ROOT [OF pi_shapeD(1) [OF A(2)] A(6)] .
    have page: "vpage ?v' ?n = empty_dir_page" using A(7) by (simp add: vsave_header_def)
    have "read_dir_slot b empty_dir_page = NO_ROOT" if "b < BUCKET_COUNT" for b
      using empty_dir_page_simps(2) [of b] that by (simp add: BUCKET_COUNT_def pi_sizes)
    then have "pi_shape ?v' B"
      unfolding pi_shape_def root page using ok A(6,7) B n by (simp add: vsave_header_def)
    moreover have "pi_frame 1 v B ?v' B"
      unfolding pi_frame_def pi_own_def root using A(5) A(6) n
      by (auto simp: vsave_header_def B synced_def split: if_splits intro!: own_frame_savedI)
    ultimately show ?thesis using does root n B by (intro exI [of _ ?v']) (simp add: bucket_entries_def)
  qed
qed

text \<open>A new bucket: an appended empty page, entered in the directory.\<close>

lemma new_bucket_does:
  assumes sh: "pi_shape v B" and root: "pi_root v \<noteq> NO_ROOT" and b: "b < BUCKET_COUNT" "B b = []"
    and room: "Suc (vcount v) < 2 ^ 32"
  defines "n \<equiv> of_nat (vcount v) :: u32"
  defines "page \<equiv> vpage v (pi_root v)"
  defines "v' \<equiv> vput (pi_root v) (write_count (max (pi_read_count (write_dir_slot b n page)) (b + 1)) (write_dir_slot b n page)) (vappend empty_page v)"
  shows "db_does (bnd append_empty_page (\<lambda>head. bnd (read_page (pi_root v)) (\<lambda>page.
      let page = write_dir_slot b head page; c = max (pi_read_count page) (b + 1); page = write_count c page
      in bnd (write_page (pi_root v) page) (\<lambda>_. ret head)))) v (Ok n) v'"
    "pi_shape v' (B(b := [n]))" "bucket_entries v' ((B(b := [n])) c) = bucket_entries v (B c)" "pi_frame 1 v B v' (B(b := [n]))"
proof -
  note D = pi_shapeD [OF sh]
  note A = append_does [OF sh room empty_page_simps(1)]
  note A' = pi_shapeD [OF A(2)]
  have rm: "mapped v (pi_root v)" "pi_root v \<noteq> n" using D(5) [OF root] A(5) by (auto simp: n_def)
  have len: "length page = PAGE_SIZE" using D(1) rm(1) by (simp add: vol_ok_def page_def)
  have slot: "c < DIR_SLOTS_PER_PAGE" if "c < BUCKET_COUNT" for c using that by (simp add: BUCKET_COUNT_def pi_sizes)
  let ?d = "write_count (max (pi_read_count (write_dir_slot b n page)) (b + 1)) (write_dir_slot b n page)"
  note w = dirs.wr_length [OF len slot [OF b(1)], of n]
  have d: "length ?d = PAGE_SIZE" "c < BUCKET_COUNT \<Longrightarrow> read_dir_slot c ?d = (if c = b then n else read_dir_slot c page)" for c
    using w dirs.rd_count [OF w slot] dirs.rd_wr [OF len slot [OF b(1)] slot, of c n] by auto
  show "db_does (bnd append_empty_page (\<lambda>head. bnd (read_page (pi_root v)) (\<lambda>page.
      let page = write_dir_slot b head page; c = max (pi_read_count page) (b + 1); page = write_count c page
      in bnd (write_page (pi_root v) page) (\<lambda>_. ret head)))) v (Ok n) v'"
    unfolding append_empty_page_def empty_page_def [symmetric] Let_def
    apply (rule db.does_bnd [OF A(1)])
    apply (rule db.does_bnd [OF db.does_read])
    subgoal using rm(1) by simp
    apply (rule db.does_bnd [OF db.does_write])
    using rm d(1) by (simp_all add: v'_def n_def page_def)
  have mapd: "mapped v' p" if "mapped v p \<or> p = n" for p
    using that A(6) by (auto simp: v'_def n_def less_SucI)
  have keep: "vpage v' p = vpage v p" if "mapped v p" "p \<noteq> pi_root v" for p
    using that A(5) by (auto simp: v'_def n_def)
  have new: "vpage v' n = empty_page" "vpage v' (pi_root v) = ?d" using rm by (simp_all add: v'_def n_def)
  have hdr: "vhdr v' = vhdr v" "vcount v' = Suc (vcount v)" by (simp_all add: v'_def)
  have n: "n \<noteq> 0" "n \<notin> set (B c)" for c using A(7,8) pi_ownI(1) [of n B c v] by (auto simp: n_def)
  have inB: "mapped v p" "p \<noteq> pi_root v" if "p \<in> set (B c)" for p c using D(8,10) [OF that] by simp_all
  show "pi_shape v' (B(b := [n]))"
  proof (rule pi_shapeI)
    show "vol_ok v'" unfolding v'_def using vol_ok_vappend [OF D(1) room empty_page_simps(1)] d(1) by (rule vol_ok_vput)
    show "0 < vcount v'" by (simp add: hdr)
    show "(B(b := [n])) c \<noteq> [] \<Longrightarrow> c < BUCKET_COUNT \<and> pi_root v' \<noteq> NO_ROOT" for c
      using b(1) root D(3) [of c] by (auto simp: hdr split: if_splits)
    show "mapped v' (pi_root v') \<and> pi_root v' \<noteq> 0" using mapd rm(1) D(6) [OF root] by (simp add: hdr)
    show "seg (next_in v') (read_dir_slot c (vpage v' (pi_root v'))) ((B(b := [n])) c) NO_ROOT" if c: "c < BUCKET_COUNT" for c
    proof (cases "c = b")
      case True
      then show ?thesis using d(2) [OF c] new by (simp add: hdr)
    next
      case False
      have "seg (next_in v') (read_dir_slot c page) (B c) NO_ROOT"
        unfolding page_def by (rule seg_cong [OF D(7) [OF root c]]) (use inB keep in simp)
      then show ?thesis using False d(2) [OF c] new by (simp add: hdr)
    qed
    show "mapped v' p \<and> p \<noteq> 0 \<and> p \<noteq> pi_root v'" if "p \<in> set ((B(b := [n])) c)" for p c
    proof (cases "c = b")
      case True
      then show ?thesis using that mapd rm(2) n(1) by (auto simp: hdr)
    next
      case False
      then have "p \<in> set (B c)" using that by simp
      then show ?thesis using mapd D(8-10) [of p c] by (auto simp: hdr)
    qed
    show "distinct ((B(b := [n])) c)" for c using D(11) [of c] by simp
    show "c \<noteq> c' \<Longrightarrow> p \<in> set ((B(b := [n])) c) \<Longrightarrow> p \<notin> set ((B(b := [n])) c')" for p c c'
      using D(12) [of p c c'] n(2) by (auto split: if_splits)
  qed
  show "bucket_entries v' ((B(b := [n])) c) = bucket_entries v (B c)"
  proof (cases "c = b")
    case True
    then show ?thesis using b(2) new by (simp add: bucket_entries_def)
  next
    case False
    then show ?thesis using bucket_entries_cong [of "B c" v' v] inB keep by simp
  qed
  have "p \<in> pi_own v B \<or> \<not> mapped v p" if "p \<in> pi_own v' (B(b := [n]))" for p
    using that A(5) by (auto simp: pi_own_def hdr n_def split: if_splits)
  moreover have "vpage v' p = vpage v p" if "mapped v p" "p \<notin> pi_own v B" for p
    using keep [OF that(1)] that(2) pi_ownI(2) [OF root] by metis
  ultimately show "pi_frame 1 v B v' (B(b := [n]))"
    unfolding pi_frame_def by (auto simp: hdr intro!: own_frameI exI [of _ "property_index_root (vhdr v)"])
qed

lemma bucket_head_ensure_does:
  assumes sh: "pi_shape v B" and b: "b < BUCKET_COUNT" and room: "vcount v + 2 < 2 ^ 32"
  shows "\<exists>v' B'. db_does (bucket_head_ensure b) v (Ok (hd (B' b))) v' \<and> pi_shape v' B' \<and> B' b \<noteq> [] \<and>
    (\<forall>c. bucket_entries v' (B' c) = bucket_entries v (B c)) \<and> pi_frame 2 v B v' B'"
proof (cases "B b")
  case (Cons p ps)
  have "db_does (bucket_head_ensure b) v (Ok p) v"
    unfolding bucket_head_ensure_def by (rule db.does_bnd [OF bucket_head_does [OF sh b]]) (simp add: Cons)
  then show ?thesis using sh Cons pi_frame_refl by (intro exI [of _ v] exI [of _ B]) simp
next
  case Nil
  have "Suc (vcount v) < 2 ^ 32" using room by simp
  from ensure_root_does [OF sh this] obtain v1 where v1: "db_does ensure_index_root v (Ok ()) v1" "pi_shape v1 B"
      "pi_root v1 \<noteq> NO_ROOT" "\<forall>b. bucket_entries v1 (B b) = bucket_entries v (B b)" "pi_frame 1 v B v1 B"
    by (elim exE conjE) (rule that)
  have "vcount v1 \<le> vcount v + 1" using v1(5) by (simp add: pi_frame_def own_frame_def)
  then have room1: "Suc (vcount v1) < 2 ^ 32" using room by simp
  obtain v2 n where v2: "db_does (bnd append_empty_page (\<lambda>head. bnd (read_page (pi_root v1)) (\<lambda>page.
        let page = write_dir_slot b head page; c = max (pi_read_count page) (b + 1); page = write_count c page
        in bnd (write_page (pi_root v1) page) (\<lambda>_. ret head)))) v1 (Ok n) v2"
      "pi_shape v2 (B(b := [n]))" "\<And>c. bucket_entries v2 ((B(b := [n])) c) = bucket_entries v1 (B c)" "pi_frame 1 v1 B v2 (B(b := [n]))"
    by (rule that [OF new_bucket_does [OF v1(2,3) b Nil room1]])
  have "db_does (bucket_dir_ensure 0 (pi_root v1)) v1 (Ok (pi_root v1)) v1" by simp
  then have dir: "db_does (\<lambda>db. bucket_dir_ensure 0 (property_index_root (header db)) db) v1 (Ok (pi_root v1)) v1"
    by (rule db.does_gets_with [where k = "\<lambda>h. bucket_dir_ensure 0 (property_index_root h)"])
  have "db_does (bucket_head_ensure b) v (Ok n) v2"
    unfolding bucket_head_ensure_def
    apply (rule db.does_bnd [OF bucket_head_does [OF sh b]])
    unfolding Nil list.case option.case dir_location_small [OF b] prod.case
    by (rule db.does_bnd [OF v1(1)], rule db.does_bnd [OF dir], rule v2(1))
  moreover have "pi_frame 2 v B v2 (B(b := [n]))" using pi_frame_trans [OF v1(5) v2(4)] by (simp add: numeral_2_eq_2)
  moreover have "\<forall>c. bucket_entries v2 ((B(b := [n])) c) = bucket_entries v (B c)" using v2(3) v1(4) by simp
  ultimately show ?thesis using v2(2) by (intro exI [of _ v2] exI [of _ "B(b := [n])"]) simp
qed

section \<open>Looking up\<close>

definition bucket_of :: "index_entry \<Rightarrow> nat" where
  "bucket_of e = (case e of (t, ph, vh, _) \<Rightarrow> bucket \<lparr>type_id = t, path_hash = ph, value_hash = vh\<rparr>)"

definition entry_of :: "index_key \<Rightarrow> record_id \<Rightarrow> index_entry" where
  "entry_of key rid = (type_id key, path_hash key, value_hash key, rid)"

lemma entry_at_iff: "entry_at key rid e \<longleftrightarrow> e = entry_of key rid"
  by (cases e) (auto simp: entry_at_def key_matches_def entry_of_def)

lemma bucket_of_entry_of: "bucket_of (entry_of key rid) = bucket key"
  by (cases key) (simp add: bucket_of_def entry_of_def bucket_def)

lemma bucket_small: "bucket key < BUCKET_COUNT"
  by (simp add: bucket_def BUCKET_COUNT_def)

definition matching :: "index_key \<Rightarrow> index_entry list \<Rightarrow> record_id list" where
  "matching key es = [r. (t, ph, vh, r) \<leftarrow> es, key_matches key t ph vh]"

lemma matching_append: "matching key (es @ fs) = matching key es @ matching key fs"
  by (simp add: matching_def)

lemma set_matching: "set (matching key es) = {r. entry_of key r \<in> set es}"
  by (force simp: matching_def entry_of_def key_matches_def)

lemma distinct_matching: "distinct es \<Longrightarrow> distinct (matching key es)"
proof (induction es)
  case (Cons e es)
  have one: "matching key (e # es) = matching key [e] @ matching key es" using matching_append [of key "[e]" es] by simp
  have "matching key [e] = [] \<or> (\<exists>r. matching key [e] = [r] \<and> e = entry_of key r)"
    by (cases e) (auto simp: matching_def entry_of_def key_matches_def)
  then show ?case using Cons set_matching [of key es] unfolding one by auto
qed (simp add: matching_def)

lemma bucket_limit:
  assumes "pi_shape v B"
  shows "length (B b) \<le> vcount v"
  using distinct_mapped_length pi_shapeD(8,11) [OF assms] by blast

lemma bucket_segment:
  assumes "pi_shape v B" "B b \<noteq> []"
  shows "seg (next_in v) (hd (B b)) (B b) NO_ROOT" "head_option (B b) = Some (hd (B b))"
    "b < BUCKET_COUNT" "pi_root v \<noteq> NO_ROOT"
proof -
  note D = pi_shapeD [OF assms(1)]
  show "pi_root v \<noteq> NO_ROOT" "b < BUCKET_COUNT" using D(3,4) assms(2) by simp_all
  from D(7) [OF this] show "seg (next_in v) (hd (B b)) (B b) NO_ROOT" using seg_start assms(2) by metis
  show "head_option (B b) = Some (hd (B b))" using assms(2) by (cases "B b") simp_all
qed

text \<open>A walk over a whole bucket, and one that ends at one of its pages.\<close>

lemma bucket_walk_ends:
  assumes sh: "pi_shape v B" and b: "B b = as @ [z]"
    and "visits visit v (B b) acc = Some acc'" "db_does (finish z (vpage v z) acc') v r w"
  shows "db_does (walk_chain (vcount v) visit finish (hd (B b)) acc) v r w"
proof (rule walk_ends)
  show "vol_ok v" using pi_shapeD(1) [OF sh] .
  show "seg (next_in v) (hd (B b)) (as @ [z]) NO_ROOT" using bucket_segment(1) [OF sh, of b] b by simp
  show "\<forall>q\<in>set (as @ [z]). mapped v q" using pi_shapeD(8) [OF sh, of _ b] b by simp
  show "length as \<le> vcount v" using bucket_limit [OF sh, of b] b by simp
  show "visits visit v (as @ [z]) acc = Some acc'" using assms(3) b by simp
qed (rule assms(4))

lemma bucket_walk_stops:
  assumes sh: "pi_shape v B" and b: "B b = as @ p # bs"
    and "visits visit v as acc = Some acc'" "visit p (vpage v p) acc' = Inl act" "db_does act v r w"
  shows "db_does (walk_chain (vcount v) visit finish (hd (B b)) acc) v r w"
proof (rule walk_stops)
  show "vol_ok v" using pi_shapeD(1) [OF sh] .
  show "seg (next_in v) (hd (B b)) (as @ p # bs) NO_ROOT" using bucket_segment(1) [OF sh, of b] b by simp
  show "\<forall>q\<in>set (as @ [p]). mapped v q" using pi_shapeD(8) [OF sh, of _ b] b by simp
  show "length as \<le> vcount v" using bucket_limit [OF sh, of b] b by simp
qed (use assms in simp_all)

lemma page_in_bucket:
  assumes "pi_shape v B" "p \<in> set (B b)"
  shows "length (vpage v p) = PAGE_SIZE" "mapped v p"
  using pi_shapeD(1,8) [OF assms(1)] assms(2) by (auto simp: vol_ok_def)

lemma candidates_does:
  assumes sh: "pi_shape v B"
  shows "db_does (candidates key) v (Ok (matching key (bucket_entries v (B (bucket key))))) v"
proof (cases "B (bucket key)" rule: rev_cases)
  case Nil
  show ?thesis
    unfolding candidates_def by (rule db.does_bnd [OF bucket_head_does [OF sh bucket_small]])
      (simp add: Nil bucket_entries_def matching_def)
next
  case (snoc as p)
  let ?visit = "\<lambda>pid page out. Inr (out @ [r. (t, ph, vh, r) \<leftarrow> map (\<lambda>i. pi_read_entry i page) [0..<pi_read_count page],
                  key_matches key t ph vh]) :: (database_file, record_id list) op + record_id list"
  have vis: "visits ?visit v qs acc = Some (acc @ matching key (bucket_entries v qs))" for qs acc
    by (induction qs arbitrary: acc)
      (simp_all add: matching_def bucket_entries_def cell_list_def pi_read_count_live)
  have "B (bucket key) \<noteq> []" using snoc by simp
  note h = bucket_segment(2) [OF sh this]
  show ?thesis
    unfolding candidates_def
    apply (rule db.does_bnd [OF bucket_head_does [OF sh bucket_small]])
    unfolding h option.case
    apply (rule db.does_bnd [OF does_page_count])
    unfolding unat_page_count [OF pi_shapeD(1) [OF sh]]
    by (rule bucket_walk_ends [OF sh snoc vis]) simp
qed

section \<open>Removing\<close>

text \<open>The entries of a bucket when one of its pages is overwritten.\<close>

lemma bucket_entries_put:
  assumes "pi_shape v B" "B b = as @ p # bs"
  shows "bucket_entries (vput p d v) (B b) = bucket_entries v as @ entries.cells_of d @ bucket_entries v bs"
    "bucket_entries v (B b) = bucket_entries v as @ entries.cells_of (vpage v p) @ bucket_entries v bs"
proof -
  have "p \<notin> set as" "p \<notin> set bs" using pi_shapeD(11) [OF assms(1), of b] assms(2) by auto
  then have "bucket_entries (vput p d v) as = bucket_entries v as" "bucket_entries (vput p d v) bs = bucket_entries v bs"
    by (auto intro: bucket_entries_cong)
  then show "bucket_entries (vput p d v) (B b) = bucket_entries v as @ entries.cells_of d @ bucket_entries v bs"
    by (simp add: assms(2) bucket_entries_append) (simp add: bucket_entries_def)
  show "bucket_entries v (B b) = bucket_entries v as @ entries.cells_of (vpage v p) @ bucket_entries v bs"
    by (simp add: assms(2) bucket_entries_append) (simp add: bucket_entries_def)
qed

lemma find_entry:
  "(case find (\<lambda>i. entry_at key rid (pi_read_entry i page)) [0..<live_count PI_ENTRIES_PER_PAGE page] of
      None \<Rightarrow> entry_of key rid \<notin> set (entries.cells_of page)
    | Some i \<Rightarrow> i < live_count PI_ENTRIES_PER_PAGE page \<and> entries.cells_of page ! i = entry_of key rid)"
proof (cases "find (\<lambda>i. entry_at key rid (pi_read_entry i page)) [0..<live_count PI_ENTRIES_PER_PAGE page]")
  case None
  then have "entry_of key rid \<notin> set (entries.cells_of page)"
    by (auto simp: find_None_iff entry_at_iff in_cell_list)
  then show ?thesis unfolding None by simp
next
  case (Some i)
  then have "i < live_count PI_ENTRIES_PER_PAGE page \<and> entries.cells_of page ! i = entry_of key rid"
    by (auto simp: find_Some_iff entry_at_iff)
  then show ?thesis unfolding Some by simp
qed

lemma first_page_with:
  assumes "e \<in> set (bucket_entries v ps)"
  shows "\<exists>as p bs. ps = as @ p # bs \<and> e \<in> set (entries.cells_of (vpage v p)) \<and> e \<notin> set (bucket_entries v as)"
proof -
  have "\<exists>p\<in>set ps. e \<in> set (entries.cells_of (vpage v p))" using assms by (auto simp: bucket_entries_def)
  from split_list_first_prop [OF this] show ?thesis by (auto simp: bucket_entries_def)
qed

lemma swap_remove_page:
  assumes "length page = PAGE_SIZE" "i < live_count PI_ENTRIES_PER_PAGE page"
  defines "d \<equiv> write_count (live_count PI_ENTRIES_PER_PAGE page - 1)
    (write_entry_raw i (pi_read_entry (live_count PI_ENTRIES_PER_PAGE page - 1) page) page)"
  shows "length d = PAGE_SIZE" "read_next d = read_next page"
    "mset (entries.cells_of d) = mset (entries.cells_of page) - {#entries.cells_of page ! i#}"
proof -
  let ?c = "live_count PI_ENTRIES_PER_PAGE page"
  have i: "i < PI_ENTRIES_PER_PAGE" using assms(2) live_count_le by (rule less_le_trans)
  have last: "pi_read_entry (?c - 1) page = last (entries.cells_of page)"
    using assms(2) by (subst last_conv_nth) (auto simp flip: length_0_conv)
  note w = entries.wr_length [OF assms(1) i] entries.cells_wr [OF assms(1) i] entries.live_count_wr [OF assms(1) i]
  show "length d = PAGE_SIZE" using w(1) by (simp add: d_def)
  show "read_next d = read_next page" using w(1) entries.next_wr [OF assms(1) i] by (simp add: d_def)
  have "entries.cells_of d = take (?c - 1) ((entries.cells_of page)[i := last (entries.cells_of page)])"
    unfolding d_def last by (subst entries.cells_shrink) (simp_all add: w)
  then show "mset (entries.cells_of d) = mset (entries.cells_of page) - {#entries.cells_of page ! i#}"
    using mset_swap_remove [of i "entries.cells_of page"] assms(2) by simp
qed

lemma pi_remove_does:
  assumes sh: "pi_shape v B"
  shows "\<exists>v'. db_does (pi_remove key rid) v (Ok ()) v' \<and> pi_shape v' B \<and>
    mset (bucket_entries v' (B (bucket key))) = mset (bucket_entries v (B (bucket key))) - {#entry_of key rid#} \<and>
    (\<forall>c. c \<noteq> bucket key \<longrightarrow> bucket_entries v' (B c) = bucket_entries v (B c)) \<and> pi_frame 0 v B v' B"
proof (cases "B (bucket key) = []")
  case True
  have "db_does (pi_remove key rid) v (Ok ()) v"
    unfolding pi_remove_def by (rule db.does_bnd [OF bucket_head_does [OF sh bucket_small]]) (simp add: True)
  then show ?thesis using sh True pi_frame_refl by (intro exI [of _ v]) (simp add: bucket_entries_def)
next
  case False
  note h = bucket_segment(2) [OF sh False]
  let ?b = "bucket key" and ?e = "entry_of key rid"
  let ?visit = "\<lambda>pid page (_ :: unit). let c = pi_read_count page in
      case find (\<lambda>i. entry_at key rid (pi_read_entry i page)) [0..<c] of
        Some i \<Rightarrow> let last = pi_read_entry (c - 1) page in Inl (write_page pid (write_count (c - 1) (write_entry_raw i last page)))
      | None \<Rightarrow> Inr ()"
  have run: "db_does (pi_remove key rid) v (Ok ()) w"
    if "db_does (walk_chain (vcount v) ?visit (\<lambda>_ _ _. ret ()) (hd (B ?b)) ()) v (Ok ()) w" for w
    unfolding pi_remove_def
    apply (rule db.does_bnd [OF bucket_head_does [OF sh bucket_small]])
    unfolding h option.case
    apply (rule db.does_bnd [OF does_page_count])
    unfolding unat_page_count [OF pi_shapeD(1) [OF sh]] by (rule that)
  have skip: "visits ?visit v ps () = Some ()" if "?e \<notin> set (bucket_entries v ps)" for ps
    using that
  proof (induction ps)
    case (Cons p ps)
    have "find (\<lambda>i. entry_at key rid (pi_read_entry i (vpage v p))) [0..<pi_read_count (vpage v p)] = None"
      using Cons.prems unfolding pi_read_count_live find_None_iff entry_at_iff
      by (auto simp: bucket_entries_def in_cell_list)
    then show ?case using Cons by (simp add: bucket_entries_def)
  qed simp
  show ?thesis
  proof (cases "?e \<in> set (bucket_entries v (B ?b))")
    case absent: False
    obtain as z where z: "B ?b = as @ [z]" using False by (cases "B ?b" rule: rev_cases) auto
    have "db_does (pi_remove key rid) v (Ok ()) v"
      by (rule run, rule bucket_walk_ends [OF sh z skip [OF absent]]) simp
    then show ?thesis using sh absent pi_frame_refl by (intro exI [of _ v]) simp
  next
    case True
    obtain as p bs where p: "B ?b = as @ p # bs" "?e \<in> set (entries.cells_of (vpage v p))" "?e \<notin> set (bucket_entries v as)"
      using first_page_with [OF True] by blast
    let ?page = "vpage v p"
    obtain i where i: "find (\<lambda>i. entry_at key rid (pi_read_entry i ?page)) [0..<pi_read_count ?page] = Some i"
        "i < live_count PI_ENTRIES_PER_PAGE ?page" "entries.cells_of ?page ! i = ?e"
      using find_entry [of key rid ?page] p(2) by (auto simp: pi_read_count_live split: option.splits)
    have pb: "p \<in> set (B ?b)" using p(1) by simp
    note S = swap_remove_page [OF page_in_bucket(1) [OF sh pb] i(2)]
    let ?d = "write_count (live_count PI_ENTRIES_PER_PAGE ?page - 1)
      (write_entry_raw i (pi_read_entry (live_count PI_ENTRIES_PER_PAGE ?page - 1) ?page) ?page)"
    have "db_does (pi_remove key rid) v (Ok ()) (vput p ?d v)"
      by (rule run, rule bucket_walk_stops [OF sh p(1) skip [OF p(3)]])
        (use i(1) db.does_write [OF page_in_bucket(2) [OF sh pb] S(1)] in \<open>simp_all add: Let_def pi_read_count_live\<close>)
    moreover note pi_write_shape [OF sh pb S(1,2)]
    moreover have "mset (bucket_entries (vput p ?d v) (B ?b)) = mset (bucket_entries v (B ?b)) - {#?e#}"
      using p(2) S(3) unfolding bucket_entries_put [OF sh p(1)] i(3) by (simp add: union_mset_add_mset_left [symmetric])
    moreover have "pi_frame 0 v B (vput p ?d v) B" using pi_frame_vput pi_ownI(1) [of p B "bucket key", OF pb] by blast
    ultimately show ?thesis by blast
  qed
qed

section \<open>Adding\<close>

lemma pi_extend:
  assumes sh: "pi_shape v B" and b: "B b = as @ [z]"
    and n: "mapped v n" "n \<noteq> 0" "n \<notin> pi_own v B" "next_in v n = NO_ROOT"
  defines "v' \<equiv> vput z (write_next n (vpage v z)) v"
  shows "pi_shape v' (B(b := B b @ [n]))"
    "bucket_entries v' ((B(b := B b @ [n])) c) = bucket_entries v (B c) @ (if c = b then entries.cells_of (vpage v n) else [])"
    "\<And>p. p \<notin> pi_own v B \<Longrightarrow> vpage v' p = vpage v p"
proof -
  note D = pi_shapeD [OF sh]
  have z: "z \<in> set (B b)" using b by simp
  note zp = page_in_bucket [OF sh z]
  have ne: "B b \<noteq> []" using b by simp
  note g = bucket_segment [OF sh ne]
  have zn: "z \<noteq> n" using n(3) pi_ownI(1) [of z B b, OF z] by blast
  have notin: "n \<notin> set (B c)" for c using n(3) pi_ownI(1) [of n B c] by blast
  have nroot: "n \<noteq> pi_root v" using n(3) pi_ownI(2) [OF g(4)] by auto
  have page: "vpage v' p = (if p = z then write_next n (vpage v z) else vpage v p)" for p by (simp add: v'_def)
  have hdr: "vhdr v' = vhdr v" "vcount v' = vcount v" by (simp_all add: v'_def)
  have other: "z \<notin> set (B c)" if "c \<noteq> b" for c using D(12) [OF z, of c] that by simp
  have root: "vpage v' (pi_root v) = vpage v (pi_root v)" using D(10) [OF z] page by simp
  show keep: "\<And>p. p \<notin> pi_own v B \<Longrightarrow> vpage v' p = vpage v p" using pi_ownI(1) [of z B b, OF z] page by auto
  show "pi_shape v' (B(b := B b @ [n]))"
  proof (rule pi_shapeI)
    show "vol_ok v'" unfolding v'_def using D(1) zp(1) by (intro vol_ok_vput) simp_all
    show "0 < vcount v'" using D(2) by (simp add: hdr)
    show "(B(b := B b @ [n])) c \<noteq> [] \<Longrightarrow> c < BUCKET_COUNT \<and> pi_root v' \<noteq> NO_ROOT" for c
      using g(3,4) D(3) [of c] by (auto simp: hdr split: if_splits)
    show "mapped v' (pi_root v') \<and> pi_root v' \<noteq> 0" using D(5,6) [OF g(4)] by (simp add: hdr)
    show "seg (next_in v') (read_dir_slot c (vpage v' (pi_root v'))) ((B(b := B b @ [n])) c) NO_ROOT" if c: "c < BUCKET_COUNT" for c
    proof (cases "c = b")
      case True
      have old: "seg (next_in v) (read_dir_slot b (vpage v (pi_root v))) (as @ [z]) NO_ROOT"
        using D(7) [OF g(4) g(3)] b by simp
      have za: "z \<notin> set as" using D(11) [of b] b by simp
      have same: "next_in v' q = next_in v q" if "q \<in> set as" for q
      proof -
        have "q \<noteq> z" using that za by blast
        then show ?thesis using page [of q] by simp
      qed
      have "seg (next_in v) (read_dir_slot b (vpage v (pi_root v))) as z" using old unfolding seg_snoc by (rule conjunct1)
      then have 1: "seg (next_in v') (read_dir_slot b (vpage v (pi_root v))) as z"
        by (rule seg_cong) (rule same)
      have 2: "next_in v' z = n" "next_in v' n = NO_ROOT" using zn n(4) zp(1) page [of z] page [of n] by simp_all
      have 3: "seg (next_in v') (read_dir_slot b (vpage v (pi_root v))) ((as @ [z]) @ [n]) NO_ROOT"
        unfolding seg_snoc using 1 2 by (intro conjI)
      have "(B(b := B b @ [n])) c = (as @ [z]) @ [n]" using b by (simp add: True)
      then show ?thesis using 3 unfolding hdr root True by simp
    next
      case False
      have "seg (next_in v') (read_dir_slot c (vpage v (pi_root v))) (B c) NO_ROOT"
        by (rule seg_cong [OF D(7) [OF g(4) c]]) (use other [OF False] page in auto)
      then show ?thesis using False root by (simp add: hdr)
    qed
    show "mapped v' p \<and> p \<noteq> 0 \<and> p \<noteq> pi_root v'" if "p \<in> set ((B(b := B b @ [n])) c)" for p c
      using that n(1,2) nroot D(8-10) [of p c] D(8-10) [of p b] by (auto simp: hdr split: if_splits)
    show "distinct ((B(b := B b @ [n])) c)" for c using D(11) [of c] D(11) [of b] notin by simp
    have old: "p \<in> set ((B(b := B b @ [n])) c) \<Longrightarrow> p \<noteq> n \<Longrightarrow> p \<in> set (B c)"
        "n \<in> set ((B(b := B b @ [n])) c) \<Longrightarrow> c = b" for p c
      using notin [of c] by (simp_all split: if_splits)
    show "c \<noteq> c' \<Longrightarrow> p \<in> set ((B(b := B b @ [n])) c) \<Longrightarrow> p \<notin> set ((B(b := B b @ [n])) c')" for p c c'
      using D(12) [of p c c'] old(1) [of p c] old(1) [of p c'] old(2) [of c] old(2) [of c'] by metis
  qed
  have "entries.cells_of (vpage v' p) = entries.cells_of (vpage v p)" for p
    using entries.cells_next [OF zp(1)] page by simp
  then have "bucket_entries v' ps = bucket_entries v ps" for ps by (simp add: bucket_entries_def)
  then show "bucket_entries v' ((B(b := B b @ [n])) c) = bucket_entries v (B c) @ (if c = b then entries.cells_of (vpage v n) else [])"
    by (simp add: bucket_entries_append) (simp add: bucket_entries_def)
qed

lemma add_fresh_does:
  assumes sh: "pi_shape v B" and ne: "B b \<noteq> []" and room: "Suc (vcount v) < 2 ^ 32"
  shows "\<exists>v' n. db_does (pi_add_entry (hd (B b)) key rid None) v (Ok ()) v' \<and> pi_shape v' (B(b := B b @ [n])) \<and>
    (\<forall>c. bucket_entries v' ((B(b := B b @ [n])) c) = bucket_entries v (B c) @ (if c = b then [entry_of key rid] else [])) \<and>
    pi_frame 1 v B v' (B(b := B b @ [n]))"
proof -
  let ?n = "of_nat (vcount v) :: u32"
  note A = append_does [OF sh room empty_page_simps(1)]
  let ?v1 = "vappend empty_page v"
  let ?d = "write_count 1 (pi_write_entry 0 key rid empty_page)"
  have cap: "0 < PI_ENTRIES_PER_PAGE" by (simp add: pi_sizes)
  have w: "pi_write_entry 0 key rid empty_page = write_entry_raw 0 (entry_of key rid) empty_page"
    by (simp add: pi_write_entry_def entry_of_def)
  have d: "length ?d = PAGE_SIZE" "read_next ?d = NO_ROOT" "entries.cells_of ?d = [entry_of key rid]"
    using entries.wr_length [OF empty_page_simps(1) cap] entries.next_wr [OF empty_page_simps(1) cap]
      entries.cells_first [OF empty_page_simps(1) cap] by (simp_all add: w)
  let ?v2 = "vput ?n ?d ?v1"
  have own: "pi_own ?v2 B = pi_own v B" by (simp add: pi_own_def)
  have same: "vpage ?v2 p = vpage v p" if "p \<noteq> ?n" for p using that by simp
  have sh2: "pi_shape ?v2 B"
  proof (rule pi_shape_cong [OF A(2)])
    show "vol_ok ?v2" using pi_shapeD(1) [OF A(2)] d(1) by (rule vol_ok_vput)
    show "0 < vcount ?v2" by simp
    show "pi_root ?v2 = pi_root ?v1" by simp
    fix p assume p: "p \<in> pi_own ?v1 B"
    then have "p \<in> pi_own v B" by (simp add: pi_own_def)
    then have "p \<noteq> ?n" using A(8) by blast
    moreover have "mapped ?v1 p" using p pi_shapeD(5,8) [OF A(2)] by (auto simp: pi_own_def)
    ultimately show "mapped ?v2 p \<and> vpage ?v2 p = vpage ?v1 p" by simp
  qed
  have ents2: "bucket_entries ?v2 (B c) = bucket_entries v (B c)" for c
    by (rule bucket_entries_cong) (use A(8) pi_ownI(1) same in metis)
  obtain as z where z: "B b = as @ [z]" using ne by (cases "B b" rule: rev_cases) auto
  have n2: "mapped ?v2 ?n" "?n \<noteq> 0" "?n \<notin> pi_own ?v2 B" "next_in ?v2 ?n = NO_ROOT" "vpage ?v2 ?n = ?d"
    using A(6-8) d own by simp_all
  note E = pi_extend [OF sh2 z n2(1-4)]
  let ?v3 = "vput z (write_next ?n (vpage ?v2 z)) ?v2"
  have zm: "mapped ?v2 z" "length (vpage ?v2 z) = PAGE_SIZE" using page_in_bucket [OF sh2, of z b] z by simp_all
  have vis: "visits (\<lambda>_ _ _. Inr () :: (database_file, unit) op + unit) v ps () = Some ()" for v ps by (induction ps) simp_all
  have tail: "db_does (link_tail (hd (B b)) ?n) ?v2 (Ok ()) ?v3"
    unfolding link_tail_def
    apply (rule db.does_bnd [OF does_page_count])
    unfolding unat_page_count [OF pi_shapeD(1) [OF sh2]]
    by (rule bucket_walk_ends [OF sh2 z vis], rule db.does_write [OF zm(1)]) (use zm(2) in simp)
  have "db_does (pi_add_entry (hd (B b)) key rid None) v (Ok ()) ?v3"
    unfolding pi_add_entry_def option.case append_empty_page_def empty_page_def [symmetric]
    apply (rule db.does_bnd [OF A(1)])
    apply (rule db.does_bnd [OF db.does_read [OF A(6)]])
    apply (rule db.does_bnd [where ?v1.0 = ?v2])
    subgoal using db.does_write [OF A(6) d(1)] by simp
    by (rule tail)
  moreover have "bucket_entries ?v3 ((B(b := B b @ [?n])) c) = bucket_entries v (B c) @ (if c = b then [entry_of key rid] else [])" for c
    using E(2) [of c] d(3) unfolding ents2 n2(5) by simp
  moreover have "pi_frame 1 v B ?v3 (B(b := B b @ [?n]))"
  proof -
    have "vpage ?v3 p = vpage v p" if "mapped v p" "p \<notin> pi_own v B" for p
      using E(3) [of p] same [of p] that A(5) unfolding own by metis
    moreover have "p \<in> pi_own v B \<or> \<not> mapped v p" if "p \<in> pi_own ?v3 (B(b := B b @ [?n]))" for p
      using that A(5) by (auto simp: pi_own_def split: if_splits)
    ultimately have "own_frame 1 v (pi_own v B) ?v3 (pi_own ?v3 (B(b := B b @ [?n])))"
      by (intro own_frameI) (simp_all del: vput_simps(1) vappend_simps(1))
    then show ?thesis unfolding pi_frame_def by (auto intro!: exI [of _ "property_index_root (vhdr v)"])
  qed
  ultimately show ?thesis using E(1) by blast
qed

lemma add_in_page_does:
  assumes sh: "pi_shape v B" and q: "q \<in> set (B b)" and free: "live_count PI_ENTRIES_PER_PAGE (vpage v q) < PI_ENTRIES_PER_PAGE"
  shows "\<exists>v'. db_does (pi_add_entry head key rid (Some q)) v (Ok ()) v' \<and> pi_shape v' B \<and>
    mset (bucket_entries v' (B b)) = add_mset (entry_of key rid) (mset (bucket_entries v (B b))) \<and>
    (\<forall>c. c \<noteq> b \<longrightarrow> bucket_entries v' (B c) = bucket_entries v (B c)) \<and> pi_frame 0 v B v' B"
proof -
  obtain as bs where p: "B b = as @ q # bs" using split_list [OF q] by blast
  note P = page_in_bucket [OF sh q]
  let ?page = "vpage v q" and ?c = "live_count PI_ENTRIES_PER_PAGE (vpage v q)"
  let ?d = "write_count (?c + 1) (write_entry_raw ?c (entry_of key rid) ?page)"
  have d: "length ?d = PAGE_SIZE" "read_next ?d = next_in v q"
    using entries.wr_length [OF P(1) free] entries.next_wr [OF P(1) free] by simp_all
  note c = entries.cells_push [OF P(1) free, of "entry_of key rid"]
  have "db_does (pi_add_entry head key rid (Some q)) v (Ok ()) (vput q ?d v)"
    unfolding pi_add_entry_def option.case
    by (rule db.does_bnd [OF db.does_read [OF P(2)]])
      (use db.does_write [OF P(2) d(1)] in \<open>simp add: pi_read_count_live pi_write_entry_def entry_of_def Let_def\<close>)
  moreover note pi_write_shape [OF sh q d]
  moreover have "mset (bucket_entries (vput q ?d v) (B b)) = add_mset (entry_of key rid) (mset (bucket_entries v (B b)))"
    unfolding bucket_entries_put [OF sh p] c by simp
  moreover have "pi_frame 0 v B (vput q ?d v) B" using pi_frame_vput pi_ownI(1) [of q B b, OF q] by blast
  ultimately show ?thesis by blast
qed

definition free_page_in :: "vol \<Rightarrow> u32 list \<Rightarrow> u32 option \<Rightarrow> bool" where
  "free_page_in v ps free \<longleftrightarrow> (\<forall>q. free = Some q \<longrightarrow> q \<in> set ps \<and> live_count PI_ENTRIES_PER_PAGE (vpage v q) < PI_ENTRIES_PER_PAGE)"

lemma pi_add_does:
  assumes sh: "pi_shape v B" and room: "vcount v + 3 < 2 ^ 32"
  shows "\<exists>v' B'. db_does (pi_add key rid) v (Ok ()) v' \<and> pi_shape v' B' \<and>
    (let e = entry_of key rid; es = mset (bucket_entries v (B (bucket key))) in
      mset (bucket_entries v' (B' (bucket key))) = (if e \<in># es then es else add_mset e es)) \<and>
    (\<forall>c. c \<noteq> bucket key \<longrightarrow> bucket_entries v' (B' c) = bucket_entries v (B c)) \<and> pi_frame 3 v B v' B'"
proof -
  let ?b = "bucket key" and ?e = "entry_of key rid"
  let ?visit = "pi_add_visit key rid"
  have "vcount v + 2 < 2 ^ 32" using room by simp
  from bucket_head_ensure_does [OF sh bucket_small this, of key] obtain v1 B1 where
      v1: "db_does (bucket_head_ensure ?b) v (Ok (hd (B1 ?b))) v1" "pi_shape v1 B1" "B1 ?b \<noteq> []"
        "\<forall>c. bucket_entries v1 (B1 c) = bucket_entries v (B c)" "pi_frame 2 v B v1 B1"
    by (elim exE conjE) (rule that)
  have room1: "Suc (vcount v1) < 2 ^ 32" using v1(5) room by (simp add: pi_frame_def own_frame_def)
  have found: "(\<exists>i\<in>set [0..<pi_read_count page]. entry_at key rid (pi_read_entry i page)) \<longleftrightarrow> ?e \<in> set (entries.cells_of page)" for page
    by (auto simp: entry_at_iff in_cell_list pi_read_count_live)
  have run: "db_does (pi_add key rid) v (Ok ()) w"
    if "db_does (walk_chain (vcount v1) ?visit (\<lambda>_ _ first_free. pi_add_entry (hd (B1 ?b)) key rid first_free) (hd (B1 ?b)) None) v1 (Ok ()) w" for w
    unfolding pi_add_def
    apply (rule db.does_bnd [OF v1(1)])
    apply (rule db.does_bnd [OF does_page_count])
    unfolding unat_page_count [OF pi_shapeD(1) [OF v1(2)]] by (rule that)
  have skip: "\<exists>free'. visits ?visit v1 ps free = Some free' \<and> (free' = free \<or> free_page_in v1 ps free')"
    if "?e \<notin> set (bucket_entries v1 ps)" for ps free
    using that
  proof (induction ps arbitrary: free)
    case (Cons p ps)
    let ?free = "if pi_read_count (vpage v1 p) < PI_ENTRIES_PER_PAGE \<and> free = None then Some p else free"
    have "?e \<notin> set (bucket_entries v1 ps)" using Cons.prems by (simp add: bucket_entries_def)
    from Cons.IH [OF this, of ?free]
    obtain free' where f: "visits ?visit v1 ps ?free = Some free'" "free' = ?free \<or> free_page_in v1 ps free'"
      by (elim exE conjE) (rule that)
    have "?visit p (vpage v1 p) free = Inr ?free"
      using Cons.prems unfolding pi_add_visit_def Let_def found by (simp add: bucket_entries_def)
    then have "visits ?visit v1 (p # ps) free = Some free'" using f(1) by simp
    moreover have "free' = free \<or> free_page_in v1 (p # ps) free'"
      using f(2) by (auto simp: free_page_in_def pi_read_count_live split: if_splits)
    ultimately show ?case by blast
  qed simp
  show ?thesis
  proof (cases "?e \<in> set (bucket_entries v1 (B1 ?b))")
    case True
    obtain as p bs where p: "B1 ?b = as @ p # bs" "?e \<in> set (entries.cells_of (vpage v1 p))" "?e \<notin> set (bucket_entries v1 as)"
      using first_page_with [OF True] by blast
    obtain free' where f: "visits ?visit v1 as None = Some free'" using skip [OF p(3)] by blast
    have "?visit p (vpage v1 p) free' = Inl (ret ())" unfolding pi_add_visit_def Let_def found by (simp add: p(2))
    from run [OF bucket_walk_stops [OF v1(2) p(1) f this]] have "db_does (pi_add key rid) v (Ok ()) v1" by simp
    moreover have "pi_frame 3 v B v1 B1" using pi_frame_trans [OF v1(5) pi_frame_refl [of 1]] by simp
    ultimately show ?thesis using v1(2,4) True by (intro exI [of _ v1] exI [of _ B1]) simp
  next
    case False
    obtain as z where z: "B1 ?b = as @ [z]" using v1(3) by (cases "B1 ?b" rule: rev_cases) auto
    obtain free where f: "visits ?visit v1 (B1 ?b) None = Some free" "free = None \<or> free_page_in v1 (B1 ?b) free"
      using skip [OF False] by blast
    have go: "db_does (pi_add key rid) v (Ok ()) w"
      if "db_does (pi_add_entry (hd (B1 ?b)) key rid free) v1 (Ok ()) w" for w
      by (rule run, rule bucket_walk_ends [OF v1(2) z f(1)], rule that)
    have absent: "?e \<notin># mset (bucket_entries v (B ?b))" using False v1(4) by simp
    show ?thesis
    proof (cases free)
      case None
      from add_fresh_does [OF v1(2,3) room1, of key rid] obtain v2 n where v2:
          "db_does (pi_add_entry (hd (B1 ?b)) key rid None) v1 (Ok ()) v2" "pi_shape v2 (B1(?b := B1 ?b @ [n]))"
          "\<forall>c. bucket_entries v2 ((B1(?b := B1 ?b @ [n])) c) = bucket_entries v1 (B1 c) @ (if c = ?b then [?e] else [])"
          "pi_frame 1 v1 B1 v2 (B1(?b := B1 ?b @ [n]))" by (elim exE conjE) (rule that)
      let ?B2 = "B1(?b := B1 ?b @ [n])"
      have ents: "bucket_entries v2 (?B2 c) = bucket_entries v (B c) @ (if c = ?b then [?e] else [])" for c
        using v2(3) [rule_format, of c] v1(4) by simp
      have "db_does (pi_add key rid) v (Ok ()) v2" using go v2(1) None by simp
      moreover have "pi_frame 3 v B v2 ?B2" using pi_frame_trans [OF v1(5) v2(4)] by simp
      moreover have "mset (bucket_entries v2 (?B2 ?b)) = add_mset ?e (mset (bucket_entries v (B ?b)))"
        unfolding ents by simp
      moreover have "\<forall>c. c \<noteq> ?b \<longrightarrow> bucket_entries v2 (?B2 c) = bucket_entries v (B c)" unfolding ents by simp
      ultimately show ?thesis
        using v2(2) absent by (intro exI [of _ v2] exI [of _ ?B2]) (simp only: Let_def if_False simp_thms)
    next
      case (Some q)
      then have q: "q \<in> set (B1 ?b)" "live_count PI_ENTRIES_PER_PAGE (vpage v1 q) < PI_ENTRIES_PER_PAGE"
        using f(2) by (auto simp: free_page_in_def)
      from add_in_page_does [OF v1(2) q, of "hd (B1 ?b)" key rid] obtain v2 where v2:
          "db_does (pi_add_entry (hd (B1 ?b)) key rid (Some q)) v1 (Ok ()) v2" "pi_shape v2 B1"
          "mset (bucket_entries v2 (B1 ?b)) = add_mset ?e (mset (bucket_entries v1 (B1 ?b)))"
          "\<forall>c. c \<noteq> ?b \<longrightarrow> bucket_entries v2 (B1 c) = bucket_entries v1 (B1 c)" "pi_frame 0 v1 B1 v2 B1"
        by (elim exE conjE) (rule that)
      have "db_does (pi_add key rid) v (Ok ()) v2" using go v2(1) Some by simp
      moreover have "pi_frame 3 v B v2 B1"
        using pi_frame_trans [OF pi_frame_trans [OF v1(5) v2(5)] pi_frame_refl [of 1]] by simp
      ultimately show ?thesis
        using v2(2-4) v1(4) absent by (intro exI [of _ v2] exI [of _ B1]) (simp add: Let_def)
    qed
  qed
qed

section \<open>The index as a set\<close>

text \<open>The index holds the pairs \<open>E\<close>, each once and in its own bucket.\<close>

definition index_rep :: "vol \<Rightarrow> (nat \<Rightarrow> u32 list) \<Rightarrow> index_entry set \<Rightarrow> bool" where
  "index_rep v B E \<longleftrightarrow> pi_shape v B \<and>
     (\<forall>b. distinct (bucket_entries v (B b)) \<and> set (bucket_entries v (B b)) = {e \<in> E. bucket_of e = b})"

lemma index_repD:
  assumes "index_rep v B E"
  shows "pi_shape v B" "distinct (bucket_entries v (B b))" "set (bucket_entries v (B b)) = {e \<in> E. bucket_of e = b}"
  using assms unfolding index_rep_def by blast+

lemma mset_distinct_set: "mset xs = mset ys \<Longrightarrow> distinct xs = distinct ys \<and> set xs = set ys"
  by (metis mset_eq_imp_distinct_iff mset_eq_setD)

lemma distinct_mset_add: "mset xs = add_mset e (mset ys) \<Longrightarrow> distinct ys \<Longrightarrow> e \<notin> set ys \<Longrightarrow> distinct xs \<and> set xs = insert e (set ys)"
  using mset_distinct_set [of xs "e # ys"] by simp

lemma distinct_mset_remove: "mset xs = mset ys - {#e#} \<Longrightarrow> distinct ys \<Longrightarrow> distinct xs \<and> set xs = set ys - {e}"
  using mset_distinct_set [of xs "remove1 e ys"] by (simp add: set_remove1_eq)

lemma index_add_rep:
  assumes rep: "index_rep v B E" and room: "vcount v + 3 < 2 ^ 32"
  shows "\<exists>v' B'. db_does (pi_add key rid) v (Ok ()) v' \<and> index_rep v' B' (insert (entry_of key rid) E) \<and> pi_frame 3 v B v' B'"
proof -
  note R = index_repD [OF rep]
  let ?e = "entry_of key rid" and ?b = "bucket key"
  from pi_add_does [OF R(1) room, of key rid] obtain v' B' where d: "db_does (pi_add key rid) v (Ok ()) v'" "pi_shape v' B'"
      "let e = ?e; es = mset (bucket_entries v (B ?b)) in
        mset (bucket_entries v' (B' ?b)) = (if e \<in># es then es else add_mset e es)"
      "\<forall>c. c \<noteq> ?b \<longrightarrow> bucket_entries v' (B' c) = bucket_entries v (B c)" "pi_frame 3 v B v' B'"
    by (elim exE conjE) (rule that)
  have own: "distinct (bucket_entries v' (B' ?b)) \<and> set (bucket_entries v' (B' ?b)) = insert ?e (set (bucket_entries v (B ?b)))"
  proof (cases "?e \<in> set (bucket_entries v (B ?b))")
    case True
    then have "mset (bucket_entries v' (B' ?b)) = mset (bucket_entries v (B ?b))" using d(3) by (simp add: Let_def)
    from mset_distinct_set [OF this] show ?thesis using R(2) True by auto
  next
    case False
    then have "mset (bucket_entries v' (B' ?b)) = add_mset ?e (mset (bucket_entries v (B ?b)))" using d(3) by (simp add: Let_def)
    from distinct_mset_add [OF this R(2) False] show ?thesis .
  qed
  have "distinct (bucket_entries v' (B' c)) \<and> set (bucket_entries v' (B' c)) = {e \<in> insert ?e E. bucket_of e = c}" for c
  proof (cases "c = ?b")
    case True
    then show ?thesis using own R(3) [of ?b] bucket_of_entry_of [of key rid] by auto
  next
    case False
    then have "{e \<in> insert ?e E. bucket_of e = c} = {e \<in> E. bucket_of e = c}" using bucket_of_entry_of [of key rid] by auto
    then show ?thesis using False d(4) R(2,3) by simp
  qed
  then show ?thesis using d(1,2,5) unfolding index_rep_def by blast
qed

lemma index_remove_rep:
  assumes rep: "index_rep v B E"
  shows "\<exists>v'. db_does (pi_remove key rid) v (Ok ()) v' \<and> index_rep v' B (E - {entry_of key rid}) \<and> pi_frame 0 v B v' B"
proof -
  note R = index_repD [OF rep]
  let ?e = "entry_of key rid" and ?b = "bucket key"
  from pi_remove_does [OF R(1), of key rid] obtain v' where d: "db_does (pi_remove key rid) v (Ok ()) v'" "pi_shape v' B"
      "mset (bucket_entries v' (B ?b)) = mset (bucket_entries v (B ?b)) - {#?e#}"
      "\<forall>c. c \<noteq> ?b \<longrightarrow> bucket_entries v' (B c) = bucket_entries v (B c)" "pi_frame 0 v B v' B"
    by (elim exE conjE) (rule that)
  note own = distinct_mset_remove [OF d(3) R(2)]
  have "distinct (bucket_entries v' (B c)) \<and> set (bucket_entries v' (B c)) = {e \<in> E - {?e}. bucket_of e = c}" for c
  proof (cases "c = ?b")
    case True
    then show ?thesis using own R(3) [of ?b] by auto
  next
    case False
    then have "{e \<in> E - {?e}. bucket_of e = c} = {e \<in> E. bucket_of e = c}" using bucket_of_entry_of [of key rid] by auto
    then show ?thesis using False d(4) R(2,3) by simp
  qed
  then show ?thesis using d(1,2,5) unfolding index_rep_def by blast
qed

lemma index_candidates_rep:
  assumes rep: "index_rep v B E"
  shows "\<exists>rs. db_does (candidates key) v (Ok rs) v \<and> distinct rs \<and> set rs = {r. entry_of key r \<in> E}"
proof -
  note R = index_repD [OF rep]
  have "set (matching key (bucket_entries v (B (bucket key)))) = {r. entry_of key r \<in> E}"
    unfolding set_matching R(3) using bucket_of_entry_of [of key] by auto
  then show ?thesis using candidates_does [OF R(1)] distinct_matching [OF R(2)] by blast
qed

section \<open>Traces\<close>

datatype index_call = IndexAdd index_key record_id | IndexRemove index_key record_id | IndexFind index_key

datatype index_reply = Changed "unit res" | Found "record_id list res"

fun index_step :: "index_call \<Rightarrow> database_file \<Rightarrow> index_reply \<times> database_file" where
  "index_step (IndexAdd key rid) db = (case pi_add key rid db of (r, db') \<Rightarrow> (Changed r, db'))"
| "index_step (IndexRemove key rid) db = (case pi_remove key rid db of (r, db') \<Rightarrow> (Changed r, db'))"
| "index_step (IndexFind key) db = (case candidates key db of (r, db') \<Rightarrow> (Found r, db'))"

fun run_index :: "index_call list \<Rightarrow> database_file \<Rightarrow> index_reply list \<times> database_file" where
  "run_index [] db = ([], db)"
| "run_index (c # cs) db =
     (case index_step c db of (r, db') \<Rightarrow> (case run_index cs db' of (rs, db'') \<Rightarrow> (r # rs, db'')))"

text \<open>The specification: a set of entries.\<close>

fun index_after :: "index_call \<Rightarrow> index_entry set \<Rightarrow> index_entry set" where
  "index_after (IndexAdd key rid) E = insert (entry_of key rid) E"
| "index_after (IndexRemove key rid) E = E - {entry_of key rid}"
| "index_after (IndexFind key) E = E"

fun index_answer :: "index_entry set \<Rightarrow> index_call \<Rightarrow> index_reply \<Rightarrow> bool" where
  "index_answer E (IndexFind key) r \<longleftrightarrow> (\<exists>rs. r = Found (Ok rs) \<and> distinct rs \<and> set rs = {rid. entry_of key rid \<in> E})"
| "index_answer E _ r \<longleftrightarrow> r = Changed (Ok ())"

fun index_answers :: "index_entry set \<Rightarrow> index_call list \<Rightarrow> index_reply list \<Rightarrow> bool" where
  "index_answers E [] rs \<longleftrightarrow> rs = []"
| "index_answers E (c # cs) rs \<longleftrightarrow> (\<exists>r rs'. rs = r # rs' \<and> index_answer E c r \<and> index_answers (index_after c E) cs rs')"

lemma index_step_rep:
  assumes db: "db_rep db v" and rep: "index_rep v B E" and room: "vcount v + 3 < 2 ^ 32"
  shows "\<exists>r db' v' B'. index_step c db = (r, db') \<and> index_answer E c r \<and> db_rep db' v' \<and>
    index_rep v' B' (index_after c E) \<and> pi_frame 3 v B v' B'"
proof -
  have up: "pi_frame 3 v B v' B'" if "pi_frame 0 v B v' B'" for v' B'
    using pi_frame_trans [OF that pi_frame_refl [of 3]] by simp
  show ?thesis
  proof (cases c)
    case (IndexAdd key rid)
    from index_add_rep [OF rep room, of key rid] obtain v' B' where d: "db_does (pi_add key rid) v (Ok ()) v'"
        "index_rep v' B' (insert (entry_of key rid) E)" "pi_frame 3 v B v' B'" by (elim exE conjE) (rule that)
    obtain db' where "pi_add key rid db = (Ok (), db')" "db_rep db' v'" using d(1) db unfolding does_def by blast
    then show ?thesis using d(2,3) IndexAdd
      by (intro exI [of _ "Changed (Ok ())"] exI [of _ db'] exI [of _ v'] exI [of _ B']) simp
  next
    case (IndexRemove key rid)
    from index_remove_rep [OF rep, of key rid] obtain v' where d: "db_does (pi_remove key rid) v (Ok ()) v'"
        "index_rep v' B (E - {entry_of key rid})" "pi_frame 0 v B v' B" by (elim exE conjE) (rule that)
    obtain db' where "pi_remove key rid db = (Ok (), db')" "db_rep db' v'" using d(1) db unfolding does_def by blast
    then show ?thesis using d(2) up [OF d(3)] IndexRemove
      by (intro exI [of _ "Changed (Ok ())"] exI [of _ db'] exI [of _ v'] exI [of _ B]) simp
  next
    case (IndexFind key)
    obtain rs where d: "db_does (candidates key) v (Ok rs) v" "distinct rs" "set rs = {r. entry_of key r \<in> E}"
      using index_candidates_rep [OF rep] by blast
    obtain db' where "candidates key db = (Ok rs, db')" "db_rep db' v" using d(1) db unfolding does_def by blast
    then show ?thesis using d(2,3) rep pi_frame_refl IndexFind
      by (intro exI [of _ "Found (Ok rs)"] exI [of _ db'] exI [of _ v] exI [of _ B]) simp
  qed
qed

lemma run_index_rep:
  assumes "db_rep db v" "index_rep v B E" "vcount v + 3 * length cs < 2 ^ 32"
  shows "\<exists>rs db' v' B'. run_index cs db = (rs, db') \<and> index_answers E cs rs \<and> db_rep db' v' \<and>
    index_rep v' B' (fold index_after cs E) \<and> pi_frame (3 * length cs) v B v' B'"
  using assms
proof (induction cs arbitrary: db v B E)
  case Nil
  then show ?case by (intro exI [of _ "[]"] exI [of _ db] exI [of _ v] exI [of _ B]) (simp add: pi_frame_refl)
next
  case (Cons c cs)
  have "vcount v + 3 < 2 ^ 32" using Cons.prems(3) by simp
  from index_step_rep [OF Cons.prems(1,2) this, of c] obtain r db1 v1 B1 where s: "index_step c db = (r, db1)"
      "index_answer E c r" "db_rep db1 v1" "index_rep v1 B1 (index_after c E)" "pi_frame 3 v B v1 B1"
    by (elim exE conjE) (rule that)
  have "vcount v1 + 3 * length cs < 2 ^ 32" using s(5) Cons.prems(3) by (simp add: pi_frame_def own_frame_def)
  from Cons.IH [OF s(3,4) this] obtain rs db' v' B' where t: "run_index cs db1 = (rs, db')"
      "index_answers (index_after c E) cs rs" "db_rep db' v'" "index_rep v' B' (fold index_after cs (index_after c E))"
      "pi_frame (3 * length cs) v1 B1 v' B'" by (elim exE conjE) (rule that)
  have "pi_frame (3 * length (c # cs)) v B v' B'" using pi_frame_trans [OF s(5) t(5)] by simp
  then show ?case using s(1,2) t by (intro exI [of _ "r # rs"] exI [of _ db'] exI [of _ v'] exI [of _ B']) simp
qed

section \<open>Properties\<close>

text \<open>
  C21: the property index implements a set of pairs of a key and a record id, on every sequence of
  calls, whatever buckets the keys hash to and however long the chains grow: adding is idempotent,
  removing takes out exactly the one pair, and a lookup returns exactly the record ids stored under the
  key, each once. No call fails, and no page of the file outside the index changes but the header page.
\<close>

theorem property_index_is_set:
  assumes "db_rep db v" "index_rep v B E" "vcount v + 3 * length cs < 2 ^ 32"
  shows "\<exists>rs db' v' B'. run_index cs db = (rs, db') \<and> index_answers E cs rs \<and> db_rep db' v' \<and>
    index_rep v' B' (fold index_after cs E) \<and>
    (\<forall>p. mapped v p \<and> p \<noteq> 0 \<and> p \<notin> pi_own v B \<longrightarrow> vpage v' p = vpage v p)"
  using run_index_rep [OF assms] unfolding pi_frame_def own_frame_def by metis

lemma fresh_index: "index_rep fresh_vol (\<lambda>_. []) {}"
  using fresh_vol_ok
  by (simp add: index_rep_def pi_shape_def bucket_entries_def fresh_vol_def header_new_def NO_DIR_ROOT_def NO_ROOT_def)

theorem property_index_is_set_witness:
  "\<exists>db'. run_index [IndexAdd (index_key_new 1 [110] [2]) (rid_new 7 0), IndexAdd (index_key_new 1 [110] [2]) (rid_new 7 0), IndexFind (index_key_new 1 [110] [2])] create_in_memory =
    ([Changed (Ok ()), Changed (Ok ()), Found (Ok [rid_new 7 0])], db')"
proof -
  have "vcount fresh_vol + 3 * length [IndexAdd (index_key_new 1 [110] [2]) (rid_new 7 0), IndexAdd (index_key_new 1 [110] [2]) (rid_new 7 0), IndexFind (index_key_new 1 [110] [2])] < 2 ^ 32" by (simp add: fresh_vol_def)
  from property_index_is_set [OF create_in_memory_rep fresh_index this]
  obtain rs db' where "run_index [IndexAdd (index_key_new 1 [110] [2]) (rid_new 7 0), IndexAdd (index_key_new 1 [110] [2]) (rid_new 7 0), IndexFind (index_key_new 1 [110] [2])] create_in_memory = (rs, db')"
      "index_answers {} [IndexAdd (index_key_new 1 [110] [2]) (rid_new 7 0), IndexAdd (index_key_new 1 [110] [2]) (rid_new 7 0), IndexFind (index_key_new 1 [110] [2])] rs" by blast
  moreover have "xs = [rid_new 7 0]" if "distinct xs" "set xs = {x. entry_of (index_key_new 1 [110] [2]) x = entry_of (index_key_new 1 [110] [2]) (rid_new 7 0)}" for xs
  proof -
    have "set xs = {rid_new 7 0}" using that(2) by (auto simp: entry_of_def)
    then show ?thesis using that(1) by (cases xs; cases "tl xs") auto
  qed
  ultimately show ?thesis by auto
qed

end
