(* ===== verification/Label_Index.thy ===== *)
theory Label_Index
  imports Page_Chain "HOL-Library.Multiset"
begin

text \<open>
  The tier-1 label index of \<^verbatim>\<open>storage/label_index.rs\<close>: for each type a chain of pages of
  record ids, found through a chain of root pages. Adds fill the head page of a chain, removals fill
  their hole from the head; pages that run empty stay in the chain as spares behind the head and are
  taken again before the file grows. The first spare records where the run of spares ends.

  The abstract index gives each type a multiset of record ids (a set, as long as \<open>add_new\<close> is only
  called for absent ids). The lemmas show that the operations implement it, keep the order of the
  chain, and extend the file only when every page of the chain is full.
\<close>

section \<open>Bytes\<close>

definition ROOT_SLOT_SIZE :: nat where
  "ROOT_SLOT_SIZE = 6"

definition ROOT_SLOTS_PER_PAGE :: nat where
  "ROOT_SLOTS_PER_PAGE = (PAGE_SIZE - HEADER) div ROOT_SLOT_SIZE"

definition ENTRY_SIZE :: nat where
  "ENTRY_SIZE = 6"

definition ENTRIES_PER_PAGE :: nat where
  "ENTRIES_PER_PAGE = (PAGE_SIZE - HEADER) div ENTRY_SIZE"

definition SPARE_MARKER :: bytes where
  "SPARE_MARKER = replicate ENTRY_SIZE 0xFF"

definition li_read_count :: "bytes \<Rightarrow> nat" where
  "li_read_count page = min (unat (get32 4 page)) (max ENTRIES_PER_PAGE ROOT_SLOTS_PER_PAGE)"

definition li_read_entry :: "nat \<Rightarrow> bytes \<Rightarrow> record_id" where
  "li_read_entry idx page = decode_record_id_6 (get_bytes (HEADER + idx * ENTRY_SIZE) ENTRY_SIZE page)"

definition li_write_entry :: "nat \<Rightarrow> record_id \<Rightarrow> bytes \<Rightarrow> bytes" where
  "li_write_entry idx rid page = put_bytes (HEADER + idx * ENTRY_SIZE) (encode_record_id_6 rid) page"

definition read_spare_tail :: "bytes \<Rightarrow> u32 option" where
  "read_spare_tail page =
     (if li_read_count page \<noteq> 0 \<or> get_bytes HEADER ENTRY_SIZE page \<noteq> SPARE_MARKER then None
      else let tail = get32 (HEADER + ENTRY_SIZE) page in if tail \<noteq> NO_ROOT then Some tail else None)"

definition write_spare_tail :: "u32 \<Rightarrow> bytes \<Rightarrow> bytes" where
  "write_spare_tail tail page = put32 (HEADER + ENTRY_SIZE) tail (put_bytes HEADER SPARE_MARKER page)"

definition read_root_slot :: "nat \<Rightarrow> bytes \<Rightarrow> u16 \<times> u32" where
  "read_root_slot idx page =
     (let off = HEADER + idx * ROOT_SLOT_SIZE in (get16 off page, get32 (off + 2) page))"

definition write_root_slot :: "nat \<Rightarrow> u16 \<times> u32 \<Rightarrow> bytes \<Rightarrow> bytes" where
  "write_root_slot idx slot page =
     (case slot of (type_id, head) \<Rightarrow>
        let off = HEADER + idx * ROOT_SLOT_SIZE in put32 (off + 2) head (put16 off type_id page))"

section \<open>The root map\<close>

definition find_slot :: "u16 \<Rightarrow> bytes \<Rightarrow> nat option" where
  "find_slot type_id page = find (\<lambda>i. fst (read_root_slot i page) = type_id) [0..<li_read_count page]"

definition head_of_visit :: "u16 \<Rightarrow> u32 \<Rightarrow> bytes \<Rightarrow> unit \<Rightarrow> (database_file, u32 option) op + unit" where
  "head_of_visit type_id pid page _ =
     (case find_slot type_id page of
        Some i \<Rightarrow> Inl (ret (Some (snd (read_root_slot i page))))
      | None \<Rightarrow> Inr ())"

definition head_of :: "u16 \<Rightarrow> (database_file, u32 option) op" where
  "head_of type_id = (\<lambda>db.
     let pid = label_index_root (header db) in
     if pid = NO_ROOT then ret None db
     else bnd page_count (\<lambda>limit. walk_chain (unat limit) (head_of_visit type_id) (\<lambda>_ _ _. ret None) pid ()) db)"

definition set_head_visit :: "u16 \<Rightarrow> u32 \<Rightarrow> u32 \<Rightarrow> bytes \<Rightarrow> unit \<Rightarrow> (database_file, unit) op + unit" where
  "set_head_visit type_id head pid page _ =
     (case find_slot type_id page of
        Some i \<Rightarrow> Inl (write_page pid (write_root_slot i (type_id, head) page))
      | None \<Rightarrow>
          let c = li_read_count page in
          if c < ROOT_SLOTS_PER_PAGE
          then Inl (write_page pid (write_count (c + 1) (write_root_slot c (type_id, head) page)))
          else Inr ())"

definition new_root_page :: "u16 \<Rightarrow> u32 \<Rightarrow> u32 \<Rightarrow> bytes \<Rightarrow> (database_file, unit) op" where
  "new_root_page type_id head pid page =
     bnd append_empty_page (\<lambda>new_pid.
     bnd (read_page new_pid) (\<lambda>new_page.
     bnd (write_page new_pid (write_count 1 (write_root_slot 0 (type_id, head) new_page))) (\<lambda>_.
     write_page pid (write_next new_pid page))))"

definition ensure_label_root :: "(database_file, unit) op" where
  "ensure_label_root = (\<lambda>db.
     if label_index_root (header db) = NO_ROOT then
       bnd append_empty_page (\<lambda>pid.
       bnd (modify (\<lambda>db. db\<lparr>header := (header db)\<lparr>label_index_root := pid\<rparr>\<rparr>)) (\<lambda>_. write_header)) db
     else ret () db)"

definition set_head :: "u16 \<Rightarrow> u32 \<Rightarrow> (database_file, unit) op" where
  "set_head type_id head =
     bnd ensure_label_root (\<lambda>_.
     bnd (gets (\<lambda>db. label_index_root (header db))) (\<lambda>root.
     bnd page_count (\<lambda>limit.
     walk_chain (unat limit) (set_head_visit type_id head) (\<lambda>pid page _. new_root_page type_id head pid page) root ())))"

section \<open>Operations\<close>

definition usable_tail :: "u32 \<Rightarrow> u32 \<Rightarrow> bytes \<Rightarrow> (database_file, u32) op" where
  "usable_tail head s1 s1_page =
     (case read_spare_tail s1_page of
        None \<Rightarrow> ret s1
      | Some t \<Rightarrow>
          if t \<noteq> s1 \<and> t \<noteq> head
          then bnd (read_page t) (\<lambda>page. ret (if li_read_count page = 0 then t else s1))
          else ret s1)"

definition promote_spare :: "u32 \<Rightarrow> (database_file, u32 option) op" where
  "promote_spare head =
     bnd (read_page head) (\<lambda>head_page.
     let s1 = read_next head_page in
     if s1 = NO_ROOT then ret None
     else
       bnd (read_page s1) (\<lambda>s1_page.
       if li_read_count s1_page \<noteq> 0 then ret None
       else
         let s2 = read_next s1_page in
         bnd (usable_tail head s1 s1_page) (\<lambda>tail.
         if tail = s1 then
           bnd (write_page head (write_next s2 head_page)) (\<lambda>_.
           bnd (write_page s1 (write_next head s1_page)) (\<lambda>_.
           ret (Some s1)))
         else
           bnd (read_page tail) (\<lambda>tail_page.
           bnd (write_page head (write_next (read_next tail_page) head_page)) (\<lambda>_.
           bnd (write_page tail (write_next head tail_page)) (\<lambda>_.
           bnd (read_page s2) (\<lambda>s2_page.
           bnd (if li_read_count s2_page = 0 then write_page s2 (write_spare_tail tail s2_page) else ret ()) (\<lambda>_.
           ret (Some s1)))))))))"

definition first_entry_page :: "record_id \<Rightarrow> bytes" where
  "first_entry_page rid = write_count 1 (li_write_entry 0 rid (replicate PAGE_SIZE 0))"

definition li_add_new :: "u16 \<Rightarrow> record_id \<Rightarrow> (database_file, unit) op" where
  "li_add_new type_id rid =
     bnd (head_of type_id) (\<lambda>found.
       case found of
         None \<Rightarrow>
           bnd (append_page (write_next NO_ROOT (first_entry_page rid))) (\<lambda>new_pid. set_head type_id new_pid)
       | Some head \<Rightarrow>
           bnd (read_page head) (\<lambda>page.
           let c = li_read_count page in
           if c < ENTRIES_PER_PAGE then
             write_page head (write_count (c + 1) (li_write_entry c rid page))
           else
             bnd (promote_spare head) (\<lambda>promoted.
               case promoted of
                 Some spare \<Rightarrow>
                   bnd (read_page spare) (\<lambda>spare_page.
                   bnd (write_page spare (write_count 1 (li_write_entry 0 rid spare_page))) (\<lambda>_.
                   set_head type_id spare))
               | None \<Rightarrow>
                   bnd (append_page (write_next head (first_entry_page rid))) (\<lambda>new_pid. set_head type_id new_pid))))"

definition has_entry :: "record_id \<Rightarrow> u32 \<Rightarrow> bytes \<Rightarrow> unit \<Rightarrow> (database_file, unit) op + unit" where
  "has_entry rid pid page _ =
     (if \<exists>i\<in>set [0..<li_read_count page]. li_read_entry i page = rid then Inl (ret ()) else Inr ())"

definition li_add :: "u16 \<Rightarrow> record_id \<Rightarrow> (database_file, unit) op" where
  "li_add type_id rid =
     bnd (head_of type_id) (\<lambda>found.
       case found of
         None \<Rightarrow> li_add_new type_id rid
       | Some pid \<Rightarrow>
           bnd page_count (\<lambda>limit.
           walk_chain (unat limit) (has_entry rid) (\<lambda>_ _ _. li_add_new type_id rid) pid ()))"

definition end_of_spare_run :: "u32 \<Rightarrow> bytes \<Rightarrow> (database_file, (u32 \<times> u32) option) op" where
  "end_of_spare_run first first_page =
     (case read_spare_tail first_page of
        None \<Rightarrow> ret None
      | Some tail \<Rightarrow>
          bnd (if tail = first then ret first_page else read_page tail) (\<lambda>tail_page.
          let d = read_next tail_page in
          if li_read_count tail_page \<noteq> 0 \<or> d = NO_ROOT then ret None
          else bnd (read_page d) (\<lambda>d_page. ret (if li_read_count d_page = 0 then None else Some (tail, d)))))"

fun first_non_empty_loop :: "nat \<Rightarrow> u32 \<Rightarrow> u32 \<Rightarrow> (database_file, u32 \<times> u32) op" where
  "first_non_empty_loop 0 last_empty d = err (StorageCorrupted last_empty)"
| "first_non_empty_loop (Suc left) last_empty d =
     (if d = NO_ROOT then err (StorageCorrupted last_empty)
      else
        bnd (read_page d) (\<lambda>page.
          if li_read_count page \<noteq> 0 then ret (last_empty, d)
          else first_non_empty_loop left d (read_next page)))"

definition find_non_empty :: "u32 \<Rightarrow> u32 \<Rightarrow> (database_file, u32 \<times> u32) op" where
  "find_non_empty head first =
     bnd (read_page first) (\<lambda>first_page.
       if li_read_count first_page \<noteq> 0 then ret (head, first)
       else
         bnd (end_of_spare_run first first_page) (\<lambda>run.
           case run of
             Some found \<Rightarrow> ret found
           | None \<Rightarrow> bnd page_count (\<lambda>limit. first_non_empty_loop (unat limit) first (read_next first_page))))"

definition promote_first_non_empty :: "u16 \<Rightarrow> u32 \<Rightarrow> (database_file, u32) op" where
  "promote_first_non_empty type_id head =
     bnd (read_page head) (\<lambda>head_page.
     let first = read_next head_page in
     if first = NO_ROOT then err (StorageCorrupted head)
     else
       bnd (find_non_empty head first) (\<lambda>(last_empty, d).
       bnd (read_page d) (\<lambda>d_page.
       let rest = read_next d_page in
       bnd (write_page d (write_next head d_page)) (\<lambda>_.
       bnd (set_head type_id d) (\<lambda>_.
       bnd (if last_empty \<noteq> head
            then bnd (read_page last_empty) (\<lambda>last_page. write_page last_empty (write_next rest last_page))
            else ret ()) (\<lambda>_.
       bnd (read_page head) (\<lambda>head_page.
       let head_page = (if last_empty = head then write_next rest head_page else head_page) in
       bnd (write_page head (write_spare_tail last_empty head_page)) (\<lambda>_.
       ret d))))))))"

definition move_last_entry :: "u32 \<Rightarrow> nat \<Rightarrow> u32 \<Rightarrow> bytes \<Rightarrow> (database_file, unit) op" where
  "move_last_entry pid idx donor_pid donor =
     (let donor_count = li_read_count donor in
      if donor_count = 0 then err (StorageCorrupted donor_pid)
      else
        let last = li_read_entry (donor_count - 1) donor;
            donor = write_count (donor_count - 1) donor in
        if pid = donor_pid then write_page donor_pid (li_write_entry idx last donor)
        else
          bnd (write_page donor_pid donor) (\<lambda>_.
          bnd (read_page pid) (\<lambda>page.
          write_page pid (li_write_entry idx last page))))"

definition fill_hole_from_head :: "u16 \<Rightarrow> u32 \<Rightarrow> u32 \<Rightarrow> nat \<Rightarrow> (database_file, unit) op" where
  "fill_hole_from_head type_id head pid idx =
     bnd (read_page head) (\<lambda>donor.
       if li_read_count donor = 0 then
         bnd (promote_first_non_empty type_id head) (\<lambda>donor_pid.
         bnd (read_page donor_pid) (\<lambda>donor. move_last_entry pid idx donor_pid donor))
       else move_last_entry pid idx head donor)"

definition li_remove_visit :: "u16 \<Rightarrow> u32 \<Rightarrow> record_id \<Rightarrow> u32 \<Rightarrow> bytes \<Rightarrow> unit \<Rightarrow> (database_file, unit) op + unit" where
  "li_remove_visit type_id head rid pid page _ =
     (case find (\<lambda>i. li_read_entry i page = rid) [0..<li_read_count page] of
        Some i \<Rightarrow> Inl (fill_hole_from_head type_id head pid i)
      | None \<Rightarrow> Inr ())"

definition li_remove :: "u16 \<Rightarrow> record_id \<Rightarrow> (database_file, unit) op" where
  "li_remove type_id rid =
     bnd (head_of type_id) (\<lambda>found.
       case found of
         None \<Rightarrow> ret ()
       | Some head \<Rightarrow>
           bnd page_count (\<lambda>limit.
           walk_chain (unat limit) (li_remove_visit type_id head rid) (\<lambda>_ _ _. ret ()) head ()))"

definition li_get_visit :: "u32 \<Rightarrow> bytes \<Rightarrow> record_id list \<Rightarrow> (database_file, record_id list) op + record_id list" where
  "li_get_visit pid page out = Inr (out @ map (\<lambda>i. li_read_entry i page) [0..<li_read_count page])"

definition li_get :: "u16 \<Rightarrow> (database_file, record_id list) op" where
  "li_get type_id =
     bnd (head_of type_id) (\<lambda>found.
       case found of
         None \<Rightarrow> ret []
       | Some pid \<Rightarrow>
           bnd page_count (\<lambda>limit. walk_chain (unat limit) li_get_visit (\<lambda>_ _ out. ret out) pid []))"

definition li_count_visit :: "u32 \<Rightarrow> bytes \<Rightarrow> u64 \<Rightarrow> (database_file, u64) op + u64" where
  "li_count_visit pid page total_count = Inr (total_count + of_nat (li_read_count page))"

definition li_count :: "u16 \<Rightarrow> (database_file, u64) op" where
  "li_count type_id =
     bnd (head_of type_id) (\<lambda>found.
       case found of
         None \<Rightarrow> ret 0
       | Some pid \<Rightarrow>
           bnd page_count (\<lambda>limit. walk_chain (unat limit) li_count_visit (\<lambda>_ _ total_count. ret total_count) pid 0))"

section \<open>The formats of the pages\<close>

lemma li_sizes: "ENTRIES_PER_PAGE = 681" "ROOT_SLOTS_PER_PAGE = 681" "HEADER = 8" "ENTRY_SIZE = 6" "ROOT_SLOT_SIZE = 6"
  by (simp_all add: ENTRIES_PER_PAGE_def ROOT_SLOTS_PER_PAGE_def HEADER_def ENTRY_SIZE_def ROOT_SLOT_SIZE_def PAGE_SIZE_def)

lemma li_read_count_live: "li_read_count = live_count ENTRIES_PER_PAGE" "li_read_count = live_count ROOT_SLOTS_PER_PAGE"
  by (simp_all add: fun_eq_iff li_read_count_def live_count_def li_sizes)

lemma rid_offsets: "i < ENTRIES_PER_PAGE \<Longrightarrow> HEADER + i * ENTRY_SIZE + ENTRY_SIZE \<le> PAGE_SIZE"
  by (simp add: li_sizes PAGE_SIZE_def)

interpretation rids: page_cells li_read_entry li_write_entry ENTRIES_PER_PAGE
proof
  show "ENTRIES_PER_PAGE < 2 ^ 32" by (simp add: li_sizes)
  fix page :: bytes and i j :: nat and x :: record_id and p :: u32 and c :: nat
  assume len: "length page = PAGE_SIZE" and i: "i < ENTRIES_PER_PAGE"
  note o = rid_offsets [OF i]
  show "length (li_write_entry i x page) = PAGE_SIZE" using o len by (simp add: li_write_entry_def li_sizes)
  show "read_next (li_write_entry i x page) = read_next page"
    using o len by (simp add: li_write_entry_def read_next_def slice_simps li_sizes)
  show "get32 4 (li_write_entry i x page) = get32 4 page"
    using o len by (simp add: li_write_entry_def slice_simps li_sizes)
  show "li_read_entry i (write_next p page) = li_read_entry i page"
    using o len by (simp add: li_read_entry_def write_next_def slice_simps li_sizes)
  show "li_read_entry i (write_count c page) = li_read_entry i page"
    using o len by (simp add: li_read_entry_def write_count_def slice_simps li_sizes)
  show "li_read_entry j (li_write_entry i x page) = (if j = i then x else li_read_entry j page)" if j: "j < ENTRIES_PER_PAGE"
    using o rid_offsets [OF j] len
    by (cases i j rule: linorder_cases) (auto simp: li_read_entry_def li_write_entry_def slice_simps li_sizes)
qed

lemma write_root_slot_slice:
  assumes "length page = PAGE_SIZE" "idx < ROOT_SLOTS_PER_PAGE"
  shows "write_root_slot idx (t, h) page = put_bytes (HEADER + idx * ROOT_SLOT_SIZE) (le16 t @ le32 h) page"
  using assms put_bytes_join [of "HEADER + idx * ROOT_SLOT_SIZE" "le16 t" "le32 h" page]
  by (simp add: write_root_slot_def Let_def li_sizes PAGE_SIZE_def)

lemma root_offsets: "i < ROOT_SLOTS_PER_PAGE \<Longrightarrow> HEADER + i * ROOT_SLOT_SIZE + 6 \<le> PAGE_SIZE"
  by (simp add: li_sizes PAGE_SIZE_def)

interpretation roots: page_cells read_root_slot write_root_slot ROOT_SLOTS_PER_PAGE
proof
  show "ROOT_SLOTS_PER_PAGE < 2 ^ 32" by (simp add: li_sizes)
  fix page :: bytes and i j :: nat and x :: "u16 \<times> u32" and p :: u32 and c :: nat
  assume len: "length page = PAGE_SIZE" and i: "i < ROOT_SLOTS_PER_PAGE"
  obtain t h where x: "x = (t, h)" by (cases x)
  note o = root_offsets [OF i]
  note w = write_root_slot_slice [OF len i, of t h, folded x]
  show "length (write_root_slot i x page) = PAGE_SIZE" using o len by (simp add: w)
  show "read_next (write_root_slot i x page) = read_next page"
    using o len by (simp add: w read_next_def slice_simps li_sizes)
  show "get32 4 (write_root_slot i x page) = get32 4 page"
    using o len by (simp add: w slice_simps li_sizes)
  show "read_root_slot i (write_next p page) = read_root_slot i page"
    using o len by (simp add: read_root_slot_def write_next_def slice_simps li_sizes)
  show "read_root_slot i (write_count c page) = read_root_slot i page"
    using o len by (simp add: read_root_slot_def write_count_def slice_simps li_sizes)
  show "read_root_slot j (write_root_slot i x page) = (if j = i then x else read_root_slot j page)" if j: "j < ROOT_SLOTS_PER_PAGE"
  proof (cases "j = i")
    case True
    have "get_bytes (HEADER + i * ROOT_SLOT_SIZE) 2 (put_bytes (HEADER + i * ROOT_SLOT_SIZE) (le16 t @ le32 h) page) = le16 t"
      using o len by (subst get_bytes_put_sub) (simp_all add: get_bytes_def li_sizes)
    moreover have "get_bytes (HEADER + i * ROOT_SLOT_SIZE + 2) 4 (put_bytes (HEADER + i * ROOT_SLOT_SIZE) (le16 t @ le32 h) page) = le32 h"
      using o len by (subst get_bytes_put_sub) (simp_all add: get_bytes_def li_sizes)
    ultimately show ?thesis unfolding True read_root_slot_def w Let_def by (simp add: x)
  next
    case False
    have apart: "HEADER + j * ROOT_SLOT_SIZE + 6 \<le> HEADER + i * ROOT_SLOT_SIZE \<or> HEADER + i * ROOT_SLOT_SIZE + 6 \<le> HEADER + j * ROOT_SLOT_SIZE"
      using False by (cases i j rule: linorder_cases) (auto simp: li_sizes)
    then show ?thesis using False o root_offsets [OF j] len by (auto simp: w read_root_slot_def get_put_disjoint)
  qed
qed

lemma spare_simps [simp]:
  assumes "length page = PAGE_SIZE"
  shows "length (write_spare_tail t page) = PAGE_SIZE" "read_next (write_spare_tail t page) = read_next page"
    "live_count cap (write_spare_tail t page) = live_count cap page"
    "t \<noteq> NO_ROOT \<Longrightarrow> live_count ENTRIES_PER_PAGE page = 0 \<Longrightarrow> read_spare_tail (write_spare_tail t page) = Some t"
    "read_spare_tail (write_next p page) = read_spare_tail page"
proof -
  have m: "length SPARE_MARKER = 6" by (simp add: SPARE_MARKER_def li_sizes)
  show "length (write_spare_tail t page) = PAGE_SIZE" using assms m by (simp add: write_spare_tail_def li_sizes PAGE_SIZE_def)
  show "read_next (write_spare_tail t page) = read_next page"
    using assms m by (simp add: write_spare_tail_def read_next_def slice_simps li_sizes PAGE_SIZE_def)
  show c: "live_count cap (write_spare_tail t page) = live_count cap page" for cap
    using assms m by (simp add: write_spare_tail_def live_count_def slice_simps li_sizes PAGE_SIZE_def)
  show "t \<noteq> NO_ROOT \<Longrightarrow> live_count ENTRIES_PER_PAGE page = 0 \<Longrightarrow> read_spare_tail (write_spare_tail t page) = Some t"
    using assms m c unfolding read_spare_tail_def li_read_count_live(1)
    by (simp add: write_spare_tail_def slice_simps li_sizes PAGE_SIZE_def)
  show "read_spare_tail (write_next p page) = read_spare_tail page"
    using assms unfolding read_spare_tail_def li_read_count_live(1)
    by (simp add: write_next_def slice_simps li_sizes PAGE_SIZE_def live_count_def)
qed

section \<open>The root map on disk\<close>

abbreviation label_root :: "vol \<Rightarrow> u32" where
  "label_root v \<equiv> label_index_root (vhdr v)"

definition root_slots :: "vol \<Rightarrow> u32 list \<Rightarrow> (u16 \<times> u32) list" where
  "root_slots v R = concat (map (\<lambda>p. roots.cells_of (vpage v p)) R)"

definition roots_rep :: "vol \<Rightarrow> u32 list \<Rightarrow> (u16 \<Rightarrow> u32 option) \<Rightarrow> bool" where
  "roots_rep v R M \<longleftrightarrow> seg (next_in v) (label_root v) R NO_ROOT \<and> distinct R \<and> (\<forall>p\<in>set R. mapped v p \<and> p \<noteq> 0) \<and>
     (\<forall>p\<in>set (butlast R). live_count ROOT_SLOTS_PER_PAGE (vpage v p) = ROOT_SLOTS_PER_PAGE) \<and>
     distinct (map fst (root_slots v R)) \<and> M = map_of (root_slots v R)"

lemma roots_repD:
  assumes "roots_rep v R M"
  shows "seg (next_in v) (label_root v) R NO_ROOT" "distinct R" "p \<in> set R \<Longrightarrow> mapped v p" "p \<in> set R \<Longrightarrow> p \<noteq> 0"
    "p \<in> set (butlast R) \<Longrightarrow> live_count ROOT_SLOTS_PER_PAGE (vpage v p) = ROOT_SLOTS_PER_PAGE"
    "distinct (map fst (root_slots v R))" "M = map_of (root_slots v R)"
  using assms unfolding roots_rep_def by blast+

lemma root_slots_cong: "(\<And>p. p \<in> set R \<Longrightarrow> vpage v' p = vpage v p) \<Longrightarrow> root_slots v' R = root_slots v R"
  by (simp add: root_slots_def cong: map_cong)

lemma root_slots_append: "root_slots v (R @ S) = root_slots v R @ root_slots v S"
  by (simp add: root_slots_def)

lemma roots_rep_cong:
  assumes rep: "roots_rep v R M" and "label_root v' = label_root v"
    and same: "\<And>p. p \<in> set R \<Longrightarrow> mapped v' p \<and> vpage v' p = vpage v p"
  shows "roots_rep v' R M"
proof -
  note D = roots_repD [OF rep]
  have "seg (next_in v') (label_root v') R NO_ROOT"
    unfolding assms(2) by (rule seg_cong [OF D(1)]) (simp add: same)
  moreover have "p \<in> set R" if "p \<in> set (butlast R)" for p using in_set_butlastD that .
  ultimately show ?thesis
    using D(2,4-7) same root_slots_cong [of R v' v] unfolding roots_rep_def by simp
qed

lemma roots_chain:
  assumes "vol_ok v" "roots_rep v R M"
  shows "label_root v = NO_ROOT \<longleftrightarrow> R = []" "length R \<le> vcount v"
    "p \<in> set R \<Longrightarrow> length (vpage v p) = PAGE_SIZE"
proof -
  note D = roots_repD [OF assms(2)]
  show "label_root v = NO_ROOT \<longleftrightarrow> R = []"
    using D(1,3) mapped_not_NO_ROOT [OF assms(1)] by (cases R) auto
  show "length R \<le> vcount v" using distinct_mapped_length [OF D(2)] D(3) by blast
  show "p \<in> set R \<Longrightarrow> length (vpage v p) = PAGE_SIZE" using D(3) [of p] assms(1) by (simp add: vol_ok_def)
qed

lemma find_slot:
  "(case find_slot t page of
      None \<Rightarrow> t \<notin> fst ` set (roots.cells_of page)
    | Some i \<Rightarrow> i < live_count ROOT_SLOTS_PER_PAGE page \<and> fst (roots.cells_of page ! i) = t)"
proof (cases "find_slot t page")
  case None
  then have "t \<notin> fst ` set (roots.cells_of page)"
    unfolding find_slot_def li_read_count_live(2) find_None_iff by (force simp: in_cell_list)
  then show ?thesis unfolding None by simp
next
  case (Some i)
  then have "i < live_count ROOT_SLOTS_PER_PAGE page \<and> fst (roots.cells_of page ! i) = t"
    unfolding find_slot_def li_read_count_live(2) find_Some_iff by auto
  then show ?thesis unfolding Some option.case .
qed

text \<open>Where a type is found.\<close>

lemma slot_page:
  assumes "t \<in> fst ` set (root_slots v R)"
  shows "\<exists>as p bs i. R = as @ p # bs \<and> t \<notin> fst ` set (root_slots v as) \<and> find_slot t (vpage v p) = Some i \<and>
    i < live_count ROOT_SLOTS_PER_PAGE (vpage v p) \<and> fst (roots.cells_of (vpage v p) ! i) = t"
proof -
  have "\<exists>p\<in>set R. t \<in> fst ` set (roots.cells_of (vpage v p))" using assms by (auto simp: root_slots_def image_UN)
  from split_list_first_prop [OF this] obtain as p bs where p: "R = as @ p # bs" "t \<in> fst ` set (roots.cells_of (vpage v p))"
      "\<forall>q\<in>set as. t \<notin> fst ` set (roots.cells_of (vpage v q))" by blast
  have "t \<notin> fst ` set (root_slots v as)" using p(3) by (force simp: root_slots_def)
  moreover obtain i where "find_slot t (vpage v p) = Some i" "i < live_count ROOT_SLOTS_PER_PAGE (vpage v p)"
      "fst (roots.cells_of (vpage v p) ! i) = t"
    using find_slot [of t "vpage v p"] p(2) by (auto split: option.splits)
  ultimately show ?thesis using p(1) by blast
qed

lemma absent_slot: "t \<notin> fst ` set (root_slots v ps) \<Longrightarrow> p \<in> set ps \<Longrightarrow> find_slot t (vpage v p) = None"
  using find_slot [of t "vpage v p"] nth_mem [of _ "roots.cells_of (vpage v p)"]
  by (force simp: root_slots_def split: option.splits)

lemma head_of_skip: "t \<notin> fst ` set (root_slots v ps) \<Longrightarrow> visits (head_of_visit t) v ps () = Some ()"
  using absent_slot [of t v ps]
  by (induction ps) (auto simp: head_of_visit_def root_slots_def)

lemma head_of_does:
  assumes ok: "vol_ok v" and rep: "roots_rep v R M"
  shows "db_does (head_of t) v (Ok (M t)) v"
proof -
  note D = roots_repD [OF rep]
  note C = roots_chain [OF ok rep]
  define step where "step h = (let pid = label_index_root h in if pid = NO_ROOT then ret None
     else bnd page_count (\<lambda>limit. walk_chain (unat limit) (head_of_visit t) (\<lambda>_ _ _. ret None) pid ()))" for h :: file_header
  have "db_does (step (vhdr v)) v (Ok (M t)) v"
  proof (cases "R = []")
    case True
    then show ?thesis using C(1) D(7) by (simp add: step_def root_slots_def)
  next
    case False
    have root: "label_root v \<noteq> NO_ROOT" using C(1) False by simp
    have "db_does (walk_chain (vcount v) (head_of_visit t) (\<lambda>_ _ _. ret None) (label_root v) ()) v (Ok (M t)) v"
    proof (cases "t \<in> fst ` set (root_slots v R)")
      case True
      obtain as p bs i where p: "R = as @ p # bs" "t \<notin> fst ` set (root_slots v as)" "find_slot t (vpage v p) = Some i"
          "i < live_count ROOT_SLOTS_PER_PAGE (vpage v p)" "fst (roots.cells_of (vpage v p) ! i) = t"
        using slot_page [OF True] by blast
      have "(t, snd (roots.cells_of (vpage v p) ! i)) = roots.cells_of (vpage v p) ! i" using p(5) by (simp add: prod_eq_iff)
      then have "(t, snd (roots.cells_of (vpage v p) ! i)) \<in> set (root_slots v R)"
        using p(1,4) nth_mem [of i "roots.cells_of (vpage v p)"] by (force simp: root_slots_def)
      then have M: "M t = Some (snd (roots.cells_of (vpage v p) ! i))" using D(6,7) by simp
      show ?thesis
      proof (rule walk_stops [OF ok D(1) [unfolded p(1)] _ _ head_of_skip [OF p(2)]])
        show "head_of_visit t p (vpage v p) () = Inl (ret (M t))" using p(3,4) M by (simp add: head_of_visit_def)
      qed (use D(3) C(2) p(1) in auto)
    next
      case absent: False
      obtain as z where z: "R = as @ [z]" using False by (cases R rule: rev_cases) auto
      have M: "M t = None" using absent D(7) by (simp add: map_of_eq_None_iff)
      show ?thesis
        by (rule walk_ends [OF ok D(1) [unfolded z] _ _ head_of_skip [OF absent, unfolded z]])
          (use D(3) C(2) z M in auto)
    qed
    then show ?thesis
      unfolding step_def Let_def if_not_P [OF root]
      by (intro db.does_bnd [OF does_page_count]) (simp only: unat_page_count [OF ok])
  qed
  moreover have "head_of t = (\<lambda>db. step (header db) db)" unfolding head_of_def step_def by (rule ext) (simp add: Let_def)
  ultimately show ?thesis using db.does_gets_with [where k = step] by simp
qed

section \<open>Setting a head\<close>

lemma map_of_replace:
  assumes "distinct (map fst (L @ (t, x) # K))"
  shows "map_of (L @ (t, h) # K) = (map_of (L @ (t, x) # K))(t \<mapsto> h)" "distinct (map fst (L @ (t, h) # K))"
proof -
  have "t \<notin> fst ` set L" using assms by auto
  then have "map_of L t = None" by (simp add: map_of_eq_None_iff)
  then show "map_of (L @ (t, h) # K) = (map_of (L @ (t, x) # K))(t \<mapsto> h)"
    by (auto simp: fun_eq_iff map_add_def split: option.split)
qed (use assms in simp)

lemma map_of_snoc:
  assumes "t \<notin> fst ` set L"
  shows "map_of (L @ [(t, h)]) = (map_of L)(t \<mapsto> h)"
proof -
  have "map_of L t = None" using assms by (simp add: map_of_eq_None_iff)
  then show ?thesis by (auto simp: fun_eq_iff map_add_def split: option.split)
qed

lemma set_head_skip:
  assumes "t \<notin> fst ` set (root_slots v ps)" "\<forall>p\<in>set ps. live_count ROOT_SLOTS_PER_PAGE (vpage v p) = ROOT_SLOTS_PER_PAGE"
  shows "visits (set_head_visit t h) v ps () = Some ()"
  using assms absent_slot [of t v ps]
  by (induction ps) (auto simp: set_head_visit_def root_slots_def li_read_count_live(2))

lemma set_head_walk:
  assumes ok: "vol_ok v" and rep: "roots_rep v R M" and ne: "R \<noteq> []"
    and walk: "db_does (walk_chain (vcount v) (set_head_visit t h) (\<lambda>pid page _. new_root_page t h pid page) (label_root v) ()) v (Ok ()) w"
  shows "db_does (set_head t h) v (Ok ()) w"
proof -
  have root: "label_root v \<noteq> NO_ROOT" using roots_chain(1) [OF ok rep] ne by simp
  define step where "step hdr = (if label_index_root hdr = NO_ROOT then
       bnd append_empty_page (\<lambda>pid.
       bnd (modify (\<lambda>db. db\<lparr>header := (header db)\<lparr>label_index_root := pid\<rparr>\<rparr>)) (\<lambda>_. write_header))
     else ret ())" for hdr :: file_header
  have "ensure_label_root = (\<lambda>db. step (header db) db)" unfolding ensure_label_root_def step_def by (rule ext) simp
  moreover have "db_does (step (vhdr v)) v (Ok ()) v" using root by (simp add: step_def)
  ultimately have e: "db_does ensure_label_root v (Ok ()) v" using db.does_gets_with [where k = step] by simp
  have g: "db_does (gets (\<lambda>db. label_index_root (header db))) v (Ok (label_root v)) v"
    using db.does_gets_with [where k = "\<lambda>hdr. ret (label_index_root hdr)" and v = v and r = "Ok (label_root v)" and v' = v]
    by (simp add: gets_def ret_def)
  show ?thesis
    unfolding set_head_def
    apply (rule db.does_bnd [OF e])
    apply (rule db.does_bnd [OF g])
    apply (rule db.does_bnd [OF does_page_count])
    unfolding unat_page_count [OF ok] by (rule walk)
qed

text \<open>Overwriting a root page, its link kept.\<close>

lemma roots_put:
  assumes ok: "vol_ok v" and rep: "roots_rep v (as @ p # bs) M"
    and d: "length d = PAGE_SIZE" "read_next d = next_in v p"
    and slots: "distinct (map fst (root_slots v as @ roots.cells_of d @ root_slots v bs))"
      "M' = map_of (root_slots v as @ roots.cells_of d @ root_slots v bs)"
    and full: "bs \<noteq> [] \<Longrightarrow> live_count ROOT_SLOTS_PER_PAGE d = ROOT_SLOTS_PER_PAGE"
  shows "roots_rep (vput p d v) (as @ p # bs) M'" "vol_ok (vput p d v)"
proof -
  note D = roots_repD [OF rep]
  show "vol_ok (vput p d v)" using ok d(1) by (rule vol_ok_vput)
  have p: "p \<notin> set as" "p \<notin> set bs" using D(2) by auto
  have "root_slots (vput p d v) as = root_slots v as" "root_slots (vput p d v) bs = root_slots v bs"
    using p by (auto intro: root_slots_cong)
  moreover have "root_slots (vput p d v) (p # bs) = roots.cells_of d @ root_slots (vput p d v) bs"
    by (simp add: root_slots_def)
  ultimately have s: "root_slots (vput p d v) (as @ p # bs) = root_slots v as @ roots.cells_of d @ root_slots v bs"
    by (simp add: root_slots_append)
  have "seg (next_in (vput p d v)) (label_root v) (as @ p # bs) NO_ROOT"
    by (rule seg_cong [OF D(1)]) (simp add: d(2))
  moreover have "\<forall>q\<in>set (butlast (as @ p # bs)). live_count ROOT_SLOTS_PER_PAGE (vpage (vput p d v) q) = ROOT_SLOTS_PER_PAGE"
  proof
    fix q assume q: "q \<in> set (butlast (as @ p # bs))"
    show "live_count ROOT_SLOTS_PER_PAGE (vpage (vput p d v) q) = ROOT_SLOTS_PER_PAGE"
    proof (cases "q = p")
      case True
      have "bs \<noteq> []" using q True p by (auto simp: butlast_append)
      then show ?thesis using full True by simp
    next
      case False
      then show ?thesis using D(5) [OF q] by simp
    qed
  qed
  ultimately show "roots_rep (vput p d v) (as @ p # bs) M'"
    using D(2-4) slots unfolding roots_rep_def s by simp
qed

lemma set_head_known:
  assumes ok: "vol_ok v" and rep: "roots_rep v R M" and t: "t \<in> dom M"
  shows "\<exists>v'. db_does (set_head t h) v (Ok ()) v' \<and> roots_rep v' R (M(t \<mapsto> h)) \<and> vol_ok v' \<and>
    vhdr v' = vhdr v \<and> vcount v' = vcount v \<and> (\<forall>p. p \<notin> set R \<longrightarrow> vpage v' p = vpage v p)"
proof -
  note D = roots_repD [OF rep]
  have "t \<in> fst ` set (root_slots v R)" using t D(7) by (auto simp: dom_map_of_conv_image_fst)
  then obtain as p bs i where p: "R = as @ p # bs" "t \<notin> fst ` set (root_slots v as)" "find_slot t (vpage v p) = Some i"
      "i < live_count ROOT_SLOTS_PER_PAGE (vpage v p)" "fst (roots.cells_of (vpage v p) ! i) = t"
    using slot_page by blast
  let ?page = "vpage v p"
  have i: "i < ROOT_SLOTS_PER_PAGE" using p(4) live_count_le by (rule less_le_trans)
  have len: "length ?page = PAGE_SIZE" "mapped v p" using roots_chain(3) [OF ok rep] D(3) p(1) by simp_all
  let ?d = "write_root_slot i (t, h) ?page"
  have d: "length ?d = PAGE_SIZE" "read_next ?d = read_next ?page" "live_count ROOT_SLOTS_PER_PAGE ?d = live_count ROOT_SLOTS_PER_PAGE ?page"
    using roots.wr_length [OF len(1) i] roots.next_wr [OF len(1) i] roots.live_count_wr [OF len(1) i] by simp_all
  let ?c = "roots.cells_of ?page"
  have split: "?c = take i ?c @ (t, snd (?c ! i)) # drop (Suc i) ?c"
    using p(4,5) by (metis id_take_nth_drop length_cell_list prod.collapse)
  have cells: "roots.cells_of ?d = take i ?c @ (t, h) # drop (Suc i) ?c"
    using roots.cells_wr [OF len(1) i, of "(t, h)"] p(4) by (simp add: upd_conv_take_nth_drop)
  have old: "root_slots v R = (root_slots v as @ take i ?c) @ (t, snd (?c ! i)) # (drop (Suc i) ?c @ root_slots v bs)"
    unfolding p(1) root_slots_append using split by (simp add: root_slots_def)
  have new: "root_slots v as @ roots.cells_of ?d @ root_slots v bs = (root_slots v as @ take i ?c) @ (t, h) # (drop (Suc i) ?c @ root_slots v bs)"
    unfolding cells by simp
  note mo = map_of_replace [OF D(6) [unfolded old], of h]
  note P = roots_put [OF ok rep [unfolded p(1)] d(1,2), of "M(t \<mapsto> h)", unfolded new]
  have roots: "roots_rep (vput p ?d v) R (M(t \<mapsto> h))" "vol_ok (vput p ?d v)"
  proof -
    have "bs \<noteq> [] \<Longrightarrow> p \<in> set (butlast R)" using p(1) by (simp add: butlast_append)
    then have full: "bs \<noteq> [] \<Longrightarrow> live_count ROOT_SLOTS_PER_PAGE ?d = ROOT_SLOTS_PER_PAGE" using D(5) d(3) by simp
    have M: "M(t \<mapsto> h) = map_of ((root_slots v as @ take i ?c) @ (t, h) # (drop (Suc i) ?c @ root_slots v bs))"
      unfolding mo(1) D(7) old ..
    show "roots_rep (vput p ?d v) R (M(t \<mapsto> h))" unfolding p(1) by (rule P(1) [OF mo(2) M full])
    show "vol_ok (vput p ?d v)" by (rule P(2) [OF mo(2) M full])
  qed
  have "\<forall>q\<in>set as. live_count ROOT_SLOTS_PER_PAGE (vpage v q) = ROOT_SLOTS_PER_PAGE"
    using D(5) p(1) by (simp add: butlast_append)
  note skip = set_head_skip [OF p(2) this, of h]
  have "db_does (walk_chain (vcount v) (set_head_visit t h) (\<lambda>pid page _. new_root_page t h pid page) (label_root v) ()) v (Ok ()) (vput p ?d v)"
  proof (rule walk_stops [OF ok D(1) [unfolded p(1)] _ _ skip])
    show "set_head_visit t h p ?page () = Inl (write_page p ?d)" using p(3) by (simp add: set_head_visit_def)
    show "db_does (write_page p ?d) v (Ok ()) (vput p ?d v)" by (rule db.does_write [OF len(2) d(1)])
  qed (use D(3) roots_chain(2) [OF ok rep] p(1) in auto)
  then have "db_does (set_head t h) v (Ok ()) (vput p ?d v)" using set_head_walk [OF ok rep] p(1) by simp
  then show ?thesis using roots p(1) by (intro exI [of _ "vput p ?d v"]) auto
qed

text \<open>A type that is not in the map yet goes to the last root page, or to a new one behind it.\<close>

lemma set_head_last:
  assumes ok: "vol_ok v" and rep: "roots_rep v (as @ [z]) M" and t: "t \<notin> dom M" and room: "Suc (vcount v) < 2 ^ 32"
  shows "\<exists>v' R'. db_does (set_head t h) v (Ok ()) v' \<and> roots_rep v' R' (M(t \<mapsto> h)) \<and> vol_ok v' \<and>
    vhdr v' = vhdr v \<and> own_frame 1 v (set (as @ [z])) v' (set R')"
proof -
  note D = roots_repD [OF rep]
  have absent: "t \<notin> fst ` set (root_slots v (as @ [z]))" using t D(7) by (simp add: dom_map_of_conv_image_fst)
  have z: "length (vpage v z) = PAGE_SIZE" "mapped v z" using roots_chain(3) [OF ok rep] D(3) by simp_all
  have lim: "length as \<le> vcount v" using roots_chain(2) [OF ok rep] by simp
  have mapd: "\<forall>q\<in>set (as @ [z]). mapped v q" using D(3) by blast
  have fullas: "\<forall>q\<in>set as. live_count ROOT_SLOTS_PER_PAGE (vpage v q) = ROOT_SLOTS_PER_PAGE" using D(5) by simp
  let ?c = "live_count ROOT_SLOTS_PER_PAGE (vpage v z)"
  have run: "db_does (set_head t h) v (Ok ()) w"
    if "db_does (walk_chain (vcount v) (set_head_visit t h) (\<lambda>pid page _. new_root_page t h pid page) (label_root v) ()) v (Ok ()) w" for w
    using set_head_walk [OF ok rep _ that] by simp
  have noslot: "find_slot t (vpage v z) = None" by (rule absent_slot [OF absent]) simp
  have slots: "root_slots v (as @ [z]) = root_slots v as @ roots.cells_of (vpage v z)" by (simp add: root_slots_append) (simp add: root_slots_def)
  have dist: "distinct (map fst (root_slots v (as @ [z]) @ [(t, h)]))" using D(6) absent by auto
  have M: "M(t \<mapsto> h) = map_of (root_slots v (as @ [z]) @ [(t, h)])" unfolding map_of_snoc [OF absent] D(7) ..
  show ?thesis
  proof (cases "?c < ROOT_SLOTS_PER_PAGE")
    case True
    let ?d = "write_count (?c + 1) (write_root_slot ?c (t, h) (vpage v z))"
    note w = roots.wr_length [OF z(1) True, of "(t, h)"] roots.next_wr [OF z(1) True, of "(t, h)"]
    have d: "length ?d = PAGE_SIZE" "read_next ?d = next_in v z" using w by simp_all
    note cells = roots.cells_push [OF z(1) True, of "(t, h)"]
    have s: "root_slots v as @ roots.cells_of ?d @ root_slots v [] = root_slots v (as @ [z]) @ [(t, h)]"
      unfolding slots cells by (simp add: root_slots_def)
    note P = roots_put [OF ok rep d, unfolded s, OF dist M]
    have P1: "roots_rep (vput z ?d v) (as @ [z]) (M(t \<mapsto> h))" by (rule P(1)) simp
    have P2: "vol_ok (vput z ?d v)" by (rule P(2)) simp
    have "t \<notin> fst ` set (root_slots v as)" using absent slots by auto
    note skip = set_head_skip [OF this fullas, of h]
    have "db_does (set_head t h) v (Ok ()) (vput z ?d v)"
    proof (rule run, rule walk_stops [OF ok D(1) mapd lim skip])
      show "set_head_visit t h z (vpage v z) () = Inl (write_page z ?d)"
        using noslot True by (simp add: set_head_visit_def li_read_count_live(2) Let_def)
      show "db_does (write_page z ?d) v (Ok ()) (vput z ?d v)" by (rule db.does_write [OF z(2) d(1)])
    qed
    moreover have "own_frame 1 v (set (as @ [z])) (vput z ?d v) (set (as @ [z]))" by (rule own_frame_put) simp
    ultimately show ?thesis using P1 P2 by (intro exI [of _ "vput z ?d v"] exI [of _ "as @ [z]"]) simp
  next
    case False
    then have full: "?c = ROOT_SLOTS_PER_PAGE" using live_count_le [of ROOT_SLOTS_PER_PAGE "vpage v z"] by simp
    let ?n = "of_nat (vcount v) :: u32"
    let ?blank = "write_count 0 (write_next NO_ROOT (replicate PAGE_SIZE 0))"
    let ?e = "write_count 1 (write_root_slot 0 (t, h) ?blank)"
    let ?v1 = "vappend ?blank v"
    let ?v2 = "vput ?n ?e ?v1"
    let ?v3 = "vput z (write_next ?n (vpage v z)) ?v2"
    have blank: "length ?blank = PAGE_SIZE" by simp
    have cap: "0 < ROOT_SLOTS_PER_PAGE" by (simp add: li_sizes)
    have e: "length ?e = PAGE_SIZE" "read_next ?e = NO_ROOT" "roots.cells_of ?e = [(t, h)]"
      using roots.wr_length [OF blank cap] roots.next_wr [OF blank cap] roots.cells_first [OF blank cap] by simp_all
    have n: "\<not> mapped v ?n" "mapped ?v1 ?n" using room by (simp_all add: unat_of_nat_small)
    have zn: "z \<noteq> ?n" using n(1) z(2) by metis
    have own: "q \<noteq> ?n" if "q \<in> set (as @ [z])" for q using n(1) mapd that by metis
    have zas: "z \<notin> set as" using D(2) by simp
    have d: "length (write_next ?n (vpage v z)) = PAGE_SIZE" using z(1) by simp
    have ok3: "vol_ok ?v3"
      by (rule vol_ok_vput [OF vol_ok_vput [OF vol_ok_vappend [OF ok room blank] e(1)] d])
    have new: "db_does (new_root_page t h z (vpage v z)) v (Ok ()) ?v3"
      unfolding new_root_page_def append_empty_page_def
      apply (rule db.does_bnd [OF db.does_append [OF room blank]])
      apply (rule db.does_bnd [OF db.does_read [OF n(2)]])
      apply (rule db.does_bnd [where ?v1.0 = ?v2])
      subgoal using db.does_write [OF n(2) e(1)] by simp
      by (rule db.does_write) (use z(2) d in simp_all)
    have vis: "visits (set_head_visit t h) v (as @ [z]) () = Some ()"
      by (rule set_head_skip [OF absent]) (use fullas full in auto)
    have does: "db_does (set_head t h) v (Ok ()) ?v3"
      by (rule run, rule walk_ends [OF ok D(1) mapd lim vis], rule new)
    have page: "vpage ?v3 q = (if q = z then write_next ?n (vpage v z) else if q = ?n then ?e else vpage v q)" for q
      using zn by simp
    have n0: "?n \<noteq> 0"
    proof
      assume "?n = 0"
      then have "unat ?n = 0" by simp
      then have "vcount v = 0" using room by (simp add: unat_of_nat_small)
      then show False using z(2) by simp
    qed
    have "seg (next_in ?v3) (label_root v) (as @ [z] @ [?n]) NO_ROOT"
    proof -
      have "seg (next_in v) (label_root v) as z" using D(1) by (simp add: seg_snoc)
      then have "seg (next_in ?v3) (label_root v) as z"
        by (rule seg_cong) (use zas own page in auto)
      moreover have "next_in ?v3 z = ?n" "next_in ?v3 ?n = NO_ROOT" using page [of z] page [of ?n] z(1) e(2) zn by simp_all
      ultimately have "seg (next_in ?v3) (label_root v) ((as @ [z]) @ [?n]) NO_ROOT" unfolding seg_snoc by (intro conjI)
      then show ?thesis by simp
    qed
    moreover have "root_slots ?v3 (as @ [z, ?n]) = root_slots v (as @ [z]) @ [(t, h)]"
    proof -
      have "root_slots ?v3 as = root_slots v as" by (rule root_slots_cong) (use zas own page in auto)
      moreover have "root_slots ?v3 [z, ?n] = roots.cells_of (vpage v z) @ [(t, h)]"
        using page [of z] page [of ?n] zn e(3) roots.cells_next [OF z(1), of ?n] by (simp add: root_slots_def del: vput_simps)
      moreover have "root_slots ?v3 (as @ [z, ?n]) = root_slots ?v3 as @ root_slots ?v3 [z, ?n]" by (rule root_slots_append)
      ultimately show ?thesis unfolding slots by simp
    qed
    moreover have "live_count ROOT_SLOTS_PER_PAGE (vpage ?v3 q) = ROOT_SLOTS_PER_PAGE" if "q \<in> set (as @ [z])" for q
      using that fullas full own [OF that] page [of q] z(1) by (auto split: if_splits)
    moreover have "distinct (as @ [z, ?n])" using D(2) own by auto
    moreover have "mapped ?v3 q \<and> q \<noteq> 0" if "q \<in> set (as @ [z, ?n])" for q
      using that mapd D(4) n0 n(2) by (auto simp: less_SucI)
    ultimately have rep3: "roots_rep ?v3 (as @ [z, ?n]) (M(t \<mapsto> h))"
      unfolding roots_rep_def using dist M by (simp add: butlast_append)
    have "own_frame 1 v (set (as @ [z])) ?v3 (set (as @ [z, ?n]))"
      using n(1) page by (auto split: if_splits intro!: own_frameI)
    then show ?thesis using does rep3 ok3 by (intro exI [of _ ?v3] exI [of _ "as @ [z, ?n]"]) simp
  qed
qed

lemma set_head_first:
  assumes ok: "vol_ok v" "0 < vcount v" and rep: "roots_rep v [] M" and room: "vcount v + 2 < 2 ^ 32"
  shows "\<exists>v' R' r. db_does (set_head t h) v (Ok ()) v' \<and> roots_rep v' R' (M(t \<mapsto> h)) \<and> vol_ok v' \<and>
    vhdr v' = (vhdr v)\<lparr>label_index_root := r\<rparr> \<and> own_frame 2 v {} v' (set R')"
proof -
  note D = roots_repD [OF rep]
  have root: "label_root v = NO_ROOT" using D(1) by simp
  have M: "M = Map.empty" using D(7) by (simp add: root_slots_def)
  have room1: "Suc (vcount v) < 2 ^ 32" using room by simp
  let ?n = "of_nat (vcount v) :: u32"
  let ?blank = "write_count 0 (write_next NO_ROOT (replicate PAGE_SIZE 0))"
  let ?v0 = "vappend ?blank v"
  let ?v1 = "vsave_header ((vhdr ?v0)\<lparr>label_index_root := ?n\<rparr>) ?v0"
  have n: "\<not> mapped v ?n" "mapped ?v0 ?n" using room1 by (simp_all add: unat_of_nat_small)
  have n0: "?n \<noteq> 0" using n(1) ok(2) by (metis unat_0)
  define rest where "rest =
     bnd (gets (\<lambda>db. label_index_root (header db))) (\<lambda>root.
     bnd page_count (\<lambda>limit.
     walk_chain (unat limit) (set_head_visit t h) (\<lambda>pid page _. new_root_page t h pid page) root ()))"
  have sh: "set_head t h = bnd ensure_label_root (\<lambda>_. rest)" by (simp add: set_head_def rest_def)
  define step where "step hdr = (if label_index_root hdr = NO_ROOT then
       bnd append_empty_page (\<lambda>pid.
       bnd (modify (\<lambda>db. db\<lparr>header := (header db)\<lparr>label_index_root := pid\<rparr>\<rparr>)) (\<lambda>_. write_header))
     else ret ())" for hdr :: file_header
  have ens: "ensure_label_root = (\<lambda>db. step (header db) db)" unfolding ensure_label_root_def step_def by (rule ext) simp
  have "db_does (step (vhdr v)) v (Ok ()) ?v1"
    unfolding step_def if_P [OF root] append_empty_page_def
    by (rule db.does_bnd [OF db.does_append [OF room1]], simp)
      (rule does_save_header [where g = "\<lambda>hdr. hdr\<lparr>label_index_root := ?n\<rparr>"], simp)
  then have e: "db_does ensure_label_root v (Ok ()) ?v1"
    unfolding ens by (rule db.does_gets_with [where k = step])
  have ok1: "vol_ok ?v1"
    unfolding vsave_header_def using vol_ok_vappend [OF ok(1) room1, of ?blank]
    by (intro vol_ok_vput) (simp_all add: vol_ok_hdr)
  have root1: "label_root ?v1 = ?n" by (simp add: vsave_header_def)
  have nn: "?n \<noteq> NO_ROOT" using mapped_not_NO_ROOT [OF vol_ok_vappend [OF ok(1) room1, of ?blank] n(2)] by simp
  have page: "vpage ?v1 ?n = ?blank" using n0 by (simp add: vsave_header_def)
  have cells: "roots.cells_of ?blank = []" by (rule roots.cells_clear) simp
  have rep1: "roots_rep ?v1 ([] @ [?n]) Map.empty"
    unfolding roots_rep_def root1 root_slots_def using page cells n(2) n0 by (simp add: vsave_header_def)
  have "Suc (vcount ?v1) < 2 ^ 32" using room by (simp add: vsave_header_def)
  from set_head_last [OF ok1 rep1 _ this, of t h] obtain v' R' where v': "db_does (set_head t h) ?v1 (Ok ()) v'"
      "roots_rep v' R' (Map.empty(t \<mapsto> h))" "vol_ok v'" "vhdr v' = vhdr ?v1" "own_frame 1 ?v1 {?n} v' (set R')"
    by auto
  have "db_does rest ?v1 (Ok ()) v'"
    unfolding does_def
  proof (intro allI impI)
    fix f assume f: "db_rep f ?v1"
    have "header f = vhdr ?v1" using f by (simp add: db_rep_def)
    then have "ensure_label_root f = (Ok (), f)" using root1 nn by (simp add: ens step_def)
    then have "set_head t h f = rest f" unfolding sh by (simp add: bnd_Ok)
    then show "\<exists>f'. rest f = (Ok (), f') \<and> db_rep f' v' \<and> db_since f f'" using v'(1) f unfolding does_def by metis
  qed
  then have does: "db_does (set_head t h) v (Ok ()) v'" unfolding sh by (rule db.does_bnd [OF e])
  have f1: "own_frame 1 v {} ?v1 {?n}" using n(1) n0 by (auto simp: vsave_header_def synced_def intro!: own_frame_savedI)
  have "own_frame 2 v {} v' (set R')" using own_frame_trans [OF f1 v'(5)] by (simp add: numeral_2_eq_2)
  moreover have "vhdr v' = (vhdr v)\<lparr>label_index_root := ?n\<rparr>" using v'(4) by (simp add: vsave_header_def)
  ultimately show ?thesis using does v'(2,3) unfolding M by blast
qed

lemma set_head_new:
  assumes ok: "vol_ok v" "0 < vcount v" and rep: "roots_rep v R M" and t: "t \<notin> dom M" and room: "vcount v + 2 < 2 ^ 32"
  shows "\<exists>v' R' r. db_does (set_head t h) v (Ok ()) v' \<and> roots_rep v' R' (M(t \<mapsto> h)) \<and> vol_ok v' \<and>
    vhdr v' = (vhdr v)\<lparr>label_index_root := r\<rparr> \<and> own_frame 2 v (set R) v' (set R')"
proof (cases R rule: rev_cases)
  case Nil
  then show ?thesis using set_head_first [OF ok _ room, of M t h] rep by simp
next
  case (snoc as z)
  have "Suc (vcount v) < 2 ^ 32" using room by simp
  from set_head_last [OF ok(1) rep [unfolded snoc] t this, of h] obtain v' R' where v': "db_does (set_head t h) v (Ok ()) v'"
      "roots_rep v' R' (M(t \<mapsto> h))" "vol_ok v'" "vhdr v' = vhdr v" "own_frame 1 v (set R) v' (set R')" unfolding snoc by blast
  have "vhdr v' = (vhdr v)\<lparr>label_index_root := label_root v\<rparr>" using v'(4) by simp
  moreover have "own_frame 2 v (set R) v' (set R')" using v'(5) by (rule own_frame_mono) simp
  ultimately show ?thesis using v'(1-3) by blast
qed

section \<open>Chains of record ids\<close>

definition li_entries :: "vol \<Rightarrow> u32 list \<Rightarrow> record_id list" where
  "li_entries v ps = concat (map (\<lambda>p. rids.cells_of (vpage v p)) ps)"

abbreviation cnt :: "vol \<Rightarrow> u32 \<Rightarrow> nat" where
  "cnt v p \<equiv> live_count ENTRIES_PER_PAGE (vpage v p)"

definition chain_rep :: "vol \<Rightarrow> u32 list \<Rightarrow> bool" where
  "chain_rep v ps \<longleftrightarrow> ps \<noteq> [] \<and> seg (next_in v) (hd ps) ps NO_ROOT \<and> distinct ps \<and> (\<forall>p\<in>set ps. mapped v p \<and> p \<noteq> 0)"

text \<open>The order of a chain: the head, the spares, the full pages; the first spare names the last.\<close>

definition ordered :: "vol \<Rightarrow> u32 \<Rightarrow> u32 list \<Rightarrow> u32 list \<Rightarrow> bool" where
  "ordered v h sp fs \<longleftrightarrow>
     (\<forall>p\<in>set sp. cnt v p = 0) \<and> (\<forall>p\<in>set fs. cnt v p = ENTRIES_PER_PAGE) \<and>
     (sp \<noteq> [] \<longrightarrow> read_spare_tail (vpage v (hd sp)) = Some (last sp))"

definition li_rep :: "vol \<Rightarrow> u32 list \<Rightarrow> (u16 \<Rightarrow> u32 list) \<Rightarrow> bool" where
  "li_rep v R C \<longleftrightarrow> vol_ok v \<and> 0 < vcount v \<and> roots_rep v R (\<lambda>t. case C t of [] \<Rightarrow> None | p # _ \<Rightarrow> Some p) \<and>
     (\<forall>t. C t \<noteq> [] \<longrightarrow> chain_rep v (C t) \<and> (\<exists>h sp fs. C t = h # sp @ fs \<and> ordered v h sp fs)) \<and>
     (\<forall>t. \<forall>p\<in>set (C t). p \<notin> set R) \<and> (\<forall>t u. t \<noteq> u \<longrightarrow> (\<forall>p\<in>set (C t). p \<notin> set (C u)))"

lemma li_repD:
  assumes "li_rep v R C"
  shows "vol_ok v" "0 < vcount v" "roots_rep v R (\<lambda>t. case C t of [] \<Rightarrow> None | p # _ \<Rightarrow> Some p)"
    "C t \<noteq> [] \<Longrightarrow> chain_rep v (C t)" "C t \<noteq> [] \<Longrightarrow> \<exists>h sp fs. C t = h # sp @ fs \<and> ordered v h sp fs"
    "p \<in> set (C t) \<Longrightarrow> p \<notin> set R" "t \<noteq> u \<Longrightarrow> p \<in> set (C t) \<Longrightarrow> p \<notin> set (C u)"
  using assms unfolding li_rep_def by blast+

lemma chain_repD:
  assumes "chain_rep v ps"
  shows "ps \<noteq> []" "seg (next_in v) (hd ps) ps NO_ROOT" "distinct ps" "p \<in> set ps \<Longrightarrow> mapped v p" "p \<in> set ps \<Longrightarrow> p \<noteq> 0"
  using assms unfolding chain_rep_def by blast+

lemma chain_repI:
  assumes "ps \<noteq> []" "seg (next_in v) (hd ps) ps NO_ROOT" "distinct ps" "\<And>p. p \<in> set ps \<Longrightarrow> mapped v p \<and> p \<noteq> 0"
  shows "chain_rep v ps"
  using assms unfolding chain_rep_def by blast

lemma li_entries_cong: "(\<And>p. p \<in> set ps \<Longrightarrow> rids.cells_of (vpage v' p) = rids.cells_of (vpage v p)) \<Longrightarrow> li_entries v' ps = li_entries v ps"
  by (simp add: li_entries_def cong: map_cong)

lemma li_entries_append: "li_entries v (ps @ qs) = li_entries v ps @ li_entries v qs"
  by (simp add: li_entries_def)

lemma li_entries_Cons: "li_entries v (p # ps) = rids.cells_of (vpage v p) @ li_entries v ps"
  by (simp add: li_entries_def)

lemma ordered_cong:
  assumes "ordered v h sp fs" "\<And>p. p \<in> set sp \<union> set fs \<Longrightarrow> vpage v' p = vpage v p"
  shows "ordered v' h sp fs"
proof -
  have "sp \<noteq> [] \<Longrightarrow> vpage v' (hd sp) = vpage v (hd sp)" using assms(2) by simp
  then show ?thesis using assms unfolding ordered_def by auto
qed

text \<open>One chain, and the root map with its head, replaced.\<close>

lemma li_rep_step:
  assumes rep: "li_rep v R C" and ok: "vol_ok v'"
    and roots: "roots_rep v' R' ((\<lambda>u. case C u of [] \<Rightarrow> None | p # _ \<Rightarrow> Some p)(t \<mapsto> hd ps'))"
    and chain: "chain_rep v' ps'" and ord: "\<exists>h sp fs. ps' = h # sp @ fs \<and> ordered v' h sp fs"
    and frame: "own_frame k v (set R \<union> set (C t)) v' (set R' \<union> set ps')" and apart: "\<And>p. p \<in> set ps' \<Longrightarrow> p \<notin> set R'"
  shows "li_rep v' R' (C(t := ps'))" "u \<noteq> t \<Longrightarrow> li_entries v' (C u) = li_entries v (C u)"
proof -
  note D = li_repD [OF rep]
  have mapd: "mapped v p" "p \<noteq> 0" if "p \<in> set (C u)" for p u
    using chain_repD(4,5) [OF D(4) [of u]] that by (cases "C u", auto)+
  have count: "vcount v \<le> vcount v'" using frame by (simp add: own_frame_def)
  have same: "vpage v' p = vpage v p" if "p \<in> set (C u)" "u \<noteq> t" for p u
    using frame mapd [OF that(1)] D(6) [OF that(1)] D(7) [OF that(2,1)] unfolding own_frame_def by blast
  have old: "p \<notin> set (C u)" if "p \<in> set R' \<union> set ps'" "u \<noteq> t" for p u
    using frame mapd(1) [of p u] D(6) [of p u] D(7) [OF that(2), of p] that(1) unfolding own_frame_def by blast
  show "u \<noteq> t \<Longrightarrow> li_entries v' (C u) = li_entries v (C u)" for u
    by (rule li_entries_cong) (use same in simp)
  have chains: "chain_rep v' ((C(t := ps')) u) \<and> (\<exists>h sp fs. (C(t := ps')) u = h # sp @ fs \<and> ordered v' h sp fs)"
    if ne: "(C(t := ps')) u \<noteq> []" for u
  proof (cases "u = t")
    case True
    then show ?thesis using chain ord by simp
  next
    case False
    then have ne': "C u \<noteq> []" using ne by simp
    note c = chain_repD [OF D(4) [OF ne']]
    have "chain_rep v' (C u)"
    proof (rule chain_repI [OF c(1) _ c(3)])
      show "seg (next_in v') (hd (C u)) (C u) NO_ROOT" by (rule seg_cong [OF c(2)]) (use same False in simp)
      show "mapped v' p \<and> p \<noteq> 0" if "p \<in> set (C u)" for p using mapd [OF that] count by simp
    qed
    moreover obtain h sp fs where o: "C u = h # sp @ fs" "ordered v h sp fs" using D(5) [OF ne'] by blast
    have "ordered v' h sp fs" by (rule ordered_cong [OF o(2)]) (use same [of _ u] False o(1) in auto)
    ultimately show ?thesis using False o(1) by auto
  qed
  have "(\<lambda>u. case (C(t := ps')) u of [] \<Rightarrow> None | p # _ \<Rightarrow> Some p) = (\<lambda>u. case C u of [] \<Rightarrow> None | p # _ \<Rightarrow> Some p)(t \<mapsto> hd ps')"
    using chain_repD(1) [OF chain] by (auto simp: fun_eq_iff split: list.splits)
  then have r: "roots_rep v' R' (\<lambda>u. case (C(t := ps')) u of [] \<Rightarrow> None | p # _ \<Rightarrow> Some p)" using roots by simp
  have "p \<notin> set R'" if "p \<in> set ((C(t := ps')) u)" for p u
    using that apart [of p] old [of p u] by (cases "u = t") auto
  moreover have "p \<notin> set ((C(t := ps')) u')" if "u \<noteq> u'" "p \<in> set ((C(t := ps')) u)" for p u u'
    using that D(7) [of u u' p] old [of p u] old [of p u'] by (cases "u = t"; cases "u' = t") auto
  ultimately show "li_rep v' R' (C(t := ps'))"
    using ok D(2) count r chains unfolding li_rep_def by auto
qed

lemma chain_page: "vol_ok v \<Longrightarrow> chain_rep v ps \<Longrightarrow> p \<in> set ps \<Longrightarrow> length (vpage v p) = PAGE_SIZE"
  using chain_repD(4) by (auto simp: vol_ok_def)

lemma chain_rep_cong:
  assumes "chain_rep v ps" "\<And>p. p \<in> set ps \<Longrightarrow> mapped v' p \<and> next_in v' p = next_in v p"
  shows "chain_rep v' ps"
proof -
  note c = chain_repD [OF assms(1)]
  have "seg (next_in v') (hd ps) ps NO_ROOT" by (rule seg_cong [OF c(2)]) (use assms(2) in simp)
  then show ?thesis using c(1,3,5) assms(2) by (intro chain_repI) simp_all
qed

lemma chain_limit: "chain_rep v ps \<Longrightarrow> length ps \<le> vcount v"
  by (rule distinct_mapped_length [OF chain_repD(3)]) (auto dest: chain_repD(4))

text \<open>A walk over a whole chain, and one that ends at one of its pages.\<close>

lemma chain_walk_ends:
  assumes ok: "vol_ok v" and c: "chain_rep v ps" and z: "ps = as @ [z]"
    and "visits visit v ps acc = Some acc'" "db_does (finish z (vpage v z) acc') v r w"
  shows "db_does (walk_chain (vcount v) visit finish (hd ps) acc) v r w"
proof (rule walk_ends [OF ok])
  show "seg (next_in v) (hd ps) (as @ [z]) NO_ROOT" using chain_repD(2) [OF c] z by simp
  show "\<forall>q\<in>set (as @ [z]). mapped v q" using chain_repD(4) [OF c] z by simp
  show "length as \<le> vcount v" using chain_limit [OF c] z by simp
  show "visits visit v (as @ [z]) acc = Some acc'" using assms(4) z by simp
qed (rule assms(5))

lemma chain_walk_stops:
  assumes ok: "vol_ok v" and c: "chain_rep v ps" and p: "ps = as @ p # bs"
    and "visits visit v as acc = Some acc'" "visit p (vpage v p) acc' = Inl act" "db_does act v r w"
  shows "db_does (walk_chain (vcount v) visit finish (hd ps) acc) v r w"
proof (rule walk_stops [OF ok])
  show "seg (next_in v) (hd ps) (as @ p # bs) NO_ROOT" using chain_repD(2) [OF c] p by simp
  show "\<forall>q\<in>set (as @ [p]). mapped v q" using chain_repD(4) [OF c] p by simp
  show "length as \<le> vcount v" using chain_limit [OF c] p by simp
qed (use assms in simp_all)

lemma head_of_chain:
  assumes rep: "li_rep v R C"
  shows "db_does (head_of t) v (Ok (case C t of [] \<Rightarrow> None | p # _ \<Rightarrow> Some p)) v"
  using head_of_does [OF li_repD(1,3) [OF rep], of t] .

lemma li_get_does:
  assumes rep: "li_rep v R C"
  shows "db_does (li_get t) v (Ok (li_entries v (C t))) v"
proof (cases "C t" rule: rev_cases)
  case Nil
  show ?thesis unfolding li_get_def by (rule db.does_bnd [OF head_of_chain [OF rep]]) (simp add: Nil li_entries_def)
next
  case (snoc as z)
  have ne: "C t \<noteq> []" using snoc by simp
  then obtain p ps where p: "C t = p # ps" by (cases "C t") auto
  have vis: "visits li_get_visit v qs acc = Some (acc @ li_entries v qs)" for qs acc
    by (induction qs arbitrary: acc) (simp_all add: li_get_visit_def li_entries_def cell_list_def li_read_count_live(1))
  show ?thesis
    unfolding li_get_def
    apply (rule db.does_bnd [OF head_of_chain [OF rep]])
    unfolding p list.case option.case
    apply (rule db.does_bnd [OF does_page_count])
    unfolding unat_page_count [OF li_repD(1) [OF rep]] p [symmetric]
    using chain_walk_ends [OF li_repD(1) [OF rep] li_repD(4) [OF rep ne] snoc vis [of "C t" "[]"], where finish = "\<lambda>_ _ out. ret out"] p
    by simp
qed

lemma li_count_does:
  assumes rep: "li_rep v R C"
  shows "db_does (li_count t) v (Ok (of_nat (length (li_entries v (C t))))) v"
proof (cases "C t" rule: rev_cases)
  case Nil
  show ?thesis unfolding li_count_def by (rule db.does_bnd [OF head_of_chain [OF rep]]) (simp add: Nil li_entries_def)
next
  case (snoc as z)
  have ne: "C t \<noteq> []" using snoc by simp
  then obtain p ps where p: "C t = p # ps" by (cases "C t") auto
  have vis: "visits li_count_visit v qs acc = Some (acc + of_nat (length (li_entries v qs)))" for qs acc
    by (induction qs arbitrary: acc) (simp_all add: li_count_visit_def li_entries_def li_read_count_live(1))
  show ?thesis
    unfolding li_count_def
    apply (rule db.does_bnd [OF head_of_chain [OF rep]])
    unfolding p list.case option.case
    apply (rule db.does_bnd [OF does_page_count])
    unfolding unat_page_count [OF li_repD(1) [OF rep]] p [symmetric]
    using chain_walk_ends [OF li_repD(1) [OF rep] li_repD(4) [OF rep ne] snoc vis [of "C t" 0], where finish = "\<lambda>_ _ n. ret n"] p
    by simp
qed

section \<open>Promoting a spare\<close>

lemma seg_Cons_next: "seg nx p (q # qs) e \<Longrightarrow> qs \<noteq> [] \<Longrightarrow> nx q = hd qs"
  by (cases qs) auto

lemma no_spare:
  assumes ok: "vol_ok v" and c: "chain_rep v (h # fs)" and o: "ordered v h [] fs"
  shows "db_does (promote_spare h) v (Ok None) v"
proof -
  note C = chain_repD [OF c]
  have h: "mapped v h" using C(4) by simp
  show ?thesis
  proof (cases fs)
    case Nil
    then have "next_in v h = NO_ROOT" using C(2) by simp
    then show ?thesis unfolding promote_spare_def by (intro db.does_bnd [OF db.does_read [OF h]]) simp
  next
    case (Cons f fs')
    then have f: "next_in v h = f" "mapped v f" using C(2,4) by simp_all
    have "cnt v f = ENTRIES_PER_PAGE" using o Cons by (simp add: ordered_def)
    then have "li_read_count (vpage v f) \<noteq> 0" by (simp add: li_read_count_live(1) li_sizes)
    moreover have "f \<noteq> NO_ROOT" using mapped_not_NO_ROOT [OF ok f(2)] .
    ultimately show ?thesis
      unfolding promote_spare_def
      by (intro db.does_bnd [OF db.does_read [OF h]]) (simp add: f(1) db.does_bnd [OF db.does_read [OF f(2)]])
  qed
qed

lemma usable_tail_does:
  assumes ok: "vol_ok v" and c: "chain_rep v (h # (s1 # sp) @ fs)" and o: "ordered v h (s1 # sp) fs"
  shows "db_does (usable_tail h s1 (vpage v s1)) v (Ok (last (s1 # sp))) v"
proof -
  have r: "read_spare_tail (vpage v s1) = Some (last (s1 # sp))" using o by (simp add: ordered_def)
  show ?thesis
  proof (cases "sp = []")
    case True
    then show ?thesis using r by (simp add: usable_tail_def)
  next
    case False
    have l: "last sp \<in> set sp" using False by simp
    have "s1 \<notin> set sp" "h \<notin> set sp" using chain_repD(3) [OF c] by auto
    then have ne: "last sp \<noteq> s1" "last sp \<noteq> h" using l by metis+
    have m: "mapped v (last sp)" using chain_repD(4) [OF c] l by simp
    have "cnt v (last sp) = 0" using o l by (simp add: ordered_def)
    then have "db_does (bnd (read_page (last sp)) (\<lambda>page. ret (if li_read_count page = 0 then last sp else s1))) v (Ok (last sp)) v"
      by (intro db.does_bnd [OF db.does_read [OF m]]) (simp add: li_read_count_live(1))
    then show ?thesis using r False ne by (simp add: usable_tail_def)
  qed
qed

text \<open>Moving the head behind the pages \<open>A\<close> that follow it, and moving \<open>f\<close> to the front.\<close>

lemma seg_rotate:
  assumes seg: "seg nx h (h # A @ fs) e" and A: "A \<noteq> []" and dist: "distinct (h # A @ fs)"
    and new: "nx' h = nx (last A)" "nx' (last A) = h" "\<And>p. p \<noteq> h \<Longrightarrow> p \<noteq> last A \<Longrightarrow> nx' p = nx p"
  shows "seg nx' (hd A) (A @ h # fs) e"
proof -
  obtain A0 l where A0: "A = A0 @ [l]" using A by (cases A rule: rev_cases) auto
  have "nx h = hd A" using seg_Cons_next [OF seg] A by simp
  then have "seg nx (hd A) (A0 @ [l] @ fs) e" using seg A0 by simp
  then have old: "seg nx (hd A) A0 l" "seg nx (nx l) fs e" by (auto simp: seg_append)
  have same: "nx' q = nx q" if "q \<in> set A0 \<union> set fs" for q
  proof (rule new(3))
    show "q \<noteq> h" "q \<noteq> last A" using that dist A0 by auto
  qed
  have 1: "seg nx' (hd A) A0 l" by (rule seg_cong [OF old(1)]) (simp add: same)
  have 2: "seg nx' (nx l) fs e" by (rule seg_cong [OF old(2)]) (simp add: same)
  have "seg nx' l (l # h # fs) e" using 2 new(1,2) A0 by simp
  then have "seg nx' (hd A) (A0 @ l # h # fs) e" using 1 by (subst seg_append) blast
  then show ?thesis by (simp add: A0)
qed

lemma seg_front:
  assumes seg: "seg nx h (h # sp @ f # fs) e" and dist: "distinct (h # sp @ f # fs)"
    and new: "nx' f = h" "nx' (last (h # sp)) = nx f" "\<And>p. p \<noteq> f \<Longrightarrow> p \<noteq> last (h # sp) \<Longrightarrow> nx' p = nx p"
  shows "seg nx' f (f # (h # sp) @ fs) e"
proof -
  obtain A0 l where A0: "h # sp = A0 @ [l]" by (cases "h # sp" rule: rev_cases) auto
  have dist': "distinct (A0 @ [l] @ f # fs)" using dist A0 by (metis append_Cons append_assoc)
  have "seg nx h ((h # sp) @ f # fs) e" using seg by simp
  then have "seg nx h (A0 @ [l] @ f # fs) e" unfolding A0 by simp
  then have old: "seg nx h A0 l" "seg nx (nx f) fs e" by (auto simp: seg_append)
  have l: "last (h # sp) = l" unfolding A0 by simp
  have same: "nx' q = nx q" if "q \<in> set A0 \<union> set fs" for q
  proof (rule new(3))
    show "q \<noteq> f" "q \<noteq> last (h # sp)" unfolding l using that dist' by auto
  qed
  have 1: "seg nx' h A0 l" by (rule seg_cong [OF old(1)]) (simp add: same)
  have 2: "seg nx' (nx f) fs e" by (rule seg_cong [OF old(2)]) (simp add: same)
  have "seg nx' h (A0 @ l # fs) e" using 1 2 new(2) l by (subst seg_append) auto
  then have "seg nx' h ((h # sp) @ fs) e" unfolding A0 by simp
  then show ?thesis using new(1) by simp
qed

lemma promote_spare_does:
  assumes ok: "vol_ok v" and c: "chain_rep v (h # (s1 # sp) @ fs)" and o: "ordered v h (s1 # sp) fs"
    and full: "cnt v h = ENTRIES_PER_PAGE"
  shows "\<exists>v'. db_does (promote_spare h) v (Ok (Some s1)) v' \<and> vol_ok v' \<and> vhdr v' = vhdr v \<and> vcount v' = vcount v \<and>
    (\<forall>p. p \<notin> set (h # (s1 # sp) @ fs) \<longrightarrow> vpage v' p = vpage v p) \<and> chain_rep v' (s1 # sp @ h # fs) \<and>
    ordered v' s1 sp (h # fs) \<and> (\<forall>p\<in>set (h # (s1 # sp) @ fs). rids.cells_of (vpage v' p) = rids.cells_of (vpage v p))"
proof -
  note C = chain_repD [OF c]
  let ?A = "s1 # sp" and ?all = "h # (s1 # sp) @ fs"
  define l where "l = last (s1 # sp)"
  have lA: "l \<in> set ?A" unfolding l_def by (rule last_in_set) simp
  have "h \<notin> set ?A" using C(3) by auto
  then have hl: "h \<noteq> l" using lA by metis
  have m: "mapped v p" "length (vpage v p) = PAGE_SIZE" if "p \<in> set ?all" for p
    using C(4) [OF that] chain_page [OF ok c that] by simp_all
  have mem: "h \<in> set ?all" "s1 \<in> set ?all" "l \<in> set ?all" using lA by auto
  note mh = m [OF mem(1)] and ms = m [OF mem(2)] and ml = m [OF mem(3)]
  have n: "next_in v h = s1" using seg_Cons_next [of "next_in v" "hd ?all" h ?all] C(2) by auto
  have s1: "s1 \<noteq> NO_ROOT" using mapped_not_NO_ROOT [OF ok ms(1)] .
  have empty: "li_read_count (vpage v s1) = 0" using o by (simp add: ordered_def li_read_count_live(1))
  note tail = usable_tail_does [OF ok c o, folded l_def]
  define v1 where "v1 = vput h (write_next (next_in v l) (vpage v h)) v"
  define v2 where "v2 = vput l (write_next h (vpage v l)) v1"
  have w1: "db_does (write_page h (write_next (next_in v l) (vpage v h))) v (Ok ()) v1"
    unfolding v1_def by (rule db.does_write) (use mh in simp_all)
  have w2: "db_does (write_page l (write_next h (vpage v l))) v1 (Ok ()) v2"
    unfolding v2_def by (rule db.does_write) (use ml in \<open>simp_all add: v1_def\<close>)
  have ok2: "vol_ok v2" unfolding v2_def v1_def by (intro vol_ok_vput ok) (use mh ml in simp_all)
  have hdr2: "vhdr v2 = vhdr v" "vcount v2 = vcount v" by (simp_all add: v2_def v1_def)
  have page2: "vpage v2 p = (if p = l then write_next h (vpage v l) else if p = h then write_next (next_in v l) (vpage v h) else vpage v p)" for p
    by (simp add: v2_def v1_def)
  have nx2: "next_in v2 h = next_in v l" "next_in v2 l = h" "p \<noteq> h \<Longrightarrow> p \<noteq> l \<Longrightarrow> next_in v2 p = next_in v p" for p
    using hl mh ml by (simp_all add: page2)
  have cells2: "rids.cells_of (vpage v2 p) = rids.cells_of (vpage v p)" "cnt v2 p = cnt v p"
      "read_spare_tail (vpage v2 p) = read_spare_tail (vpage v p)" for p
    using rids.cells_next mh ml by (simp_all add: page2)
  have seg2: "seg (next_in v2) s1 (?A @ h # fs) NO_ROOT"
    using seg_rotate [of "next_in v" h ?A fs NO_ROOT "next_in v2", folded l_def] C(2,3) nx2 by simp
  have keep2: "vpage v2 p = vpage v p" if "p \<notin> set ?all" for p
  proof -
    have "p \<noteq> h" "p \<noteq> l" using mem that by metis+
    then show ?thesis by (simp add: page2)
  qed
  have start: "db_does (promote_spare h) v r w"
    if "db_does (if l = s1 then
           bnd (write_page h (write_next (next_in v s1) (vpage v h))) (\<lambda>_.
           bnd (write_page s1 (write_next h (vpage v s1))) (\<lambda>_.
           ret (Some s1)))
         else
           bnd (read_page l) (\<lambda>tail_page.
           bnd (write_page h (write_next (read_next tail_page) (vpage v h))) (\<lambda>_.
           bnd (write_page l (write_next h tail_page)) (\<lambda>_.
           bnd (read_page (next_in v s1)) (\<lambda>s2_page.
           bnd (if li_read_count s2_page = 0 then write_page (next_in v s1) (write_spare_tail l s2_page) else ret ()) (\<lambda>_.
           ret (Some s1))))))) v r w" for r w
    unfolding promote_spare_def
    apply (rule db.does_bnd [OF db.does_read [OF mh(1)]])
    unfolding n Let_def if_not_P [OF s1]
    apply (rule db.does_bnd [OF db.does_read [OF ms(1)]])
    apply (simp only: empty simp_thms if_False)
    by (rule db.does_bnd [OF tail], rule that)
  show ?thesis
  proof (cases "sp = []")
    case True
    then have lt: "l = s1" by (simp add: l_def)
    have "db_does (promote_spare h) v (Ok (Some s1)) v2"
      apply (rule start)
      unfolding if_P [OF lt]
      by (rule db.does_bnd [OF w1 [unfolded lt]], rule db.does_bnd [OF w2 [unfolded lt]]) simp
    moreover have "chain_rep v2 (s1 # sp @ h # fs)"
      using seg2 C(3-5) True hdr2 by (intro chain_repI) auto
    moreover have "ordered v2 s1 sp (h # fs)" using o full True cells2(2) by (simp add: ordered_def)
    ultimately show ?thesis using ok2 cells2(1) hdr2 keep2 by blast
  next
    case False
    then obtain s2 sp' where sp: "sp = s2 # sp'" by (cases sp) auto
    have s2: "s2 \<in> set ?all" "next_in v s1 = s2" using C(2,3) by (auto simp: sp)
    have l1: "l \<noteq> s1" using C(3) sp by (auto simp: l_def dest: last_in_set)
    have s2m: "mapped v2 s2" "length (vpage v2 s2) = PAGE_SIZE"
      using ok2 m(1) [OF s2(1)] by (simp_all add: vol_ok_def hdr2)
    define v3 where "v3 = vput s2 (write_spare_tail l (vpage v2 s2)) v2"
    have cnt2: "cnt v2 s2 = 0" using o by (simp add: cells2(2) ordered_def sp)
    have w3: "db_does (write_page s2 (write_spare_tail l (vpage v2 s2))) v2 (Ok ()) v3"
      unfolding v3_def by (rule db.does_write [OF s2m(1)]) (simp add: s2m(2))
    have ok3: "vol_ok v3" unfolding v3_def by (rule vol_ok_vput [OF ok2 spare_simps(1) [OF s2m(2)]])
    have l: "l \<noteq> NO_ROOT" using mapped_not_NO_ROOT [OF ok ml(1)] .
    have page3: "vpage v3 p = (if p = s2 then write_spare_tail l (vpage v2 s2) else vpage v2 p)" for p by (simp add: v3_def)
    have hdr3: "vhdr v3 = vhdr v" "vcount v3 = vcount v" by (simp_all add: v3_def hdr2)
    have nx3: "next_in v3 p = next_in v2 p" for p unfolding page3 using s2m(2) by simp
    have cnt3: "cnt v3 p = cnt v p" for p using cells2(2) [of p] cells2(2) [of s2] s2m(2) unfolding page3 by simp
    have cells3: "rids.cells_of (vpage v3 p) = rids.cells_of (vpage v p)" for p
    proof (cases "p = s2")
      case True
      have "rids.cells_of (vpage v3 s2) = []" "rids.cells_of (vpage v2 s2) = []"
        using cnt3 [of s2] cells2(2) [of s2] cnt2 by (simp_all add: cell_list_def)
      then show ?thesis using cells2(1) [of s2] True by simp
    next
      case False
      then show ?thesis using cells2(1) [of p] page3 [of p] by simp
    qed
    have "db_does (promote_spare h) v (Ok (Some s1)) v3"
      apply (rule start)
      unfolding if_not_P [OF l1] s2(2)
      apply (rule db.does_bnd [OF db.does_read [OF ml(1)]])
      apply (rule db.does_bnd [OF w1])
      apply (rule db.does_bnd [OF w2])
      apply (rule db.does_bnd [OF db.does_read [OF s2m(1)]])
      unfolding li_read_count_live(1) if_P [OF cnt2]
      by (rule db.does_bnd [OF w3]) simp
    moreover have "chain_rep v3 (s1 # sp @ h # fs)"
    proof (rule chain_repI)
      have "seg (next_in v3) s1 (?A @ h # fs) NO_ROOT" by (rule seg_cong [OF seg2]) (rule nx3)
      then show "seg (next_in v3) (hd (s1 # sp @ h # fs)) (s1 # sp @ h # fs) NO_ROOT" by simp
    qed (use C(3-5) hdr3 in auto)
    moreover have "ordered v3 s1 sp (h # fs)"
    proof -
      have "read_spare_tail (vpage v3 s2) = Some l" using page3 [of s2] s2m(2) cnt2 l by simp
      then have "read_spare_tail (vpage v3 (hd sp)) = Some (last sp)" by (simp add: sp l_def)
      then show ?thesis using o full by (simp add: ordered_def cnt3)
    qed
    moreover have "vpage v3 p = vpage v p" if "p \<notin> set ?all" for p
    proof -
      have "p \<noteq> s2" using s2(1) that by metis
      then show ?thesis using page3 [of p] keep2 [OF that] by simp
    qed
    ultimately show ?thesis using ok3 cells3 hdr3 by blast
  qed
qed

section \<open>Promoting the first page with entries\<close>

lemma find_non_empty_does:
  assumes ok: "vol_ok v" and c: "chain_rep v (h # sp @ f # fs)" and o: "ordered v h sp (f # fs)"
  shows "db_does (find_non_empty h (next_in v h)) v (Ok (last (h # sp), f)) v"
proof -
  note C = chain_repD [OF c]
  have m: "mapped v p" if "p \<in> set (h # sp @ f # fs)" for p using C(4) [OF that] .
  have mf: "mapped v f" by (rule m) simp
  have cf: "li_read_count (vpage v f) \<noteq> 0" using o by (simp add: ordered_def li_read_count_live(1) li_sizes)
  have f: "f \<noteq> NO_ROOT" using mapped_not_NO_ROOT [OF ok mf] .
  show ?thesis
  proof (cases sp rule: rev_cases)
    case Nil
    then have "next_in v h = f" using C(2) by simp
    then show ?thesis
      unfolding find_non_empty_def using cf Nil by (simp add: db.does_bnd [OF db.does_read [OF mf]])
  next
    case (snoc sp0 l)
    have "sp \<noteq> []" using snoc by simp
    then obtain s1 sp' where sp: "sp = s1 # sp'" by (cases sp) simp_all
    have n: "next_in v h = s1" using C(2) by (simp add: sp)
    have ms: "mapped v s1" and ml: "mapped v l" by (rule m, simp add: sp) (rule m, simp add: snoc)
    have empty: "li_read_count (vpage v s1) = 0" "li_read_count (vpage v l) = 0"
      using o by (simp add: ordered_def sp li_read_count_live(1)) (use o snoc in \<open>simp add: ordered_def li_read_count_live(1)\<close>)
    have r: "read_spare_tail (vpage v s1) = Some l"
    proof -
      have "sp \<noteq> []" "hd sp = s1" by (simp_all add: sp)
      moreover have "last sp = l" using snoc by simp
      ultimately show ?thesis using o by (simp add: ordered_def)
    qed
    have nl: "next_in v l = f" using C(2) by (simp add: snoc seg_append)
    have tail_page: "db_does (if l = s1 then ret (vpage v s1) else read_page l) v (Ok (vpage v l)) v"
      using db.does_read [OF ml] by simp
    have last: "last (h # sp) = l" using snoc by simp
    have run: "db_does (end_of_spare_run s1 (vpage v s1)) v (Ok (Some (l, f))) v"
      unfolding end_of_spare_run_def r option.case
      by (rule db.does_bnd [OF tail_page])
        (simp add: nl empty f cf db.does_bnd [OF db.does_read [OF mf]])
    show ?thesis
      unfolding find_non_empty_def n last
      by (rule db.does_bnd [OF db.does_read [OF ms]]) (simp add: empty db.does_bnd [OF run])
  qed
qed

lemma promote_first_does:
  assumes ok: "vol_ok v" and c: "chain_rep v (h # sp @ f # fs)" and o: "ordered v h sp (f # fs)"
    and r: "roots_rep v R M" and t: "t \<in> dom M" and apart: "\<And>p. p \<in> set (h # sp @ f # fs) \<Longrightarrow> p \<notin> set R"
    and empty: "cnt v h = 0"
  shows "\<exists>v'. db_does (promote_first_non_empty t h) v (Ok f) v' \<and> vol_ok v' \<and> vhdr v' = vhdr v \<and> vcount v' = vcount v \<and>
    (\<forall>p. p \<notin> set (h # sp @ f # fs) \<longrightarrow> p \<notin> set R \<longrightarrow> vpage v' p = vpage v p) \<and> roots_rep v' R (M(t \<mapsto> f)) \<and>
    chain_rep v' (f # (h # sp) @ fs) \<and> ordered v' f (h # sp) fs \<and>
    (\<forall>p\<in>set (h # sp @ f # fs). rids.cells_of (vpage v' p) = rids.cells_of (vpage v p))"
proof -
  note C = chain_repD [OF c]
  let ?all = "h # sp @ f # fs"
  define le where "le = last (h # sp)"
  define rest where "rest = next_in v f"
  have lS: "le \<in> set (h # sp)" unfolding le_def by (rule last_in_set) simp
  have mem: "h \<in> set ?all" "f \<in> set ?all" "le \<in> set ?all" using lS by auto
  have m: "mapped v p" "length (vpage v p) = PAGE_SIZE" if "p \<in> set ?all" for p
    using C(4) [OF that] chain_page [OF ok c that] by simp_all
  note mh = m [OF mem(1)] and mf = m [OF mem(2)] and ml = m [OF mem(3)]
  have ne: "h \<noteq> f" "le \<noteq> f" using C(3) lS by auto
  have first: "next_in v h \<noteq> NO_ROOT"
  proof -
    have "next_in v h \<in> set ?all" using seg_Cons_next [of "next_in v" h h "sp @ f # fs"] C(2) by (cases sp) auto
    from mapped_not_NO_ROOT [OF ok m(1) [OF this]] show ?thesis .
  qed
  define v1 where "v1 = vput f (write_next h (vpage v f)) v"
  have w1: "db_does (write_page f (write_next h (vpage v f))) v (Ok ()) v1"
    unfolding v1_def by (rule db.does_write) (use mf in simp_all)
  have ok1: "vol_ok v1" unfolding v1_def by (rule vol_ok_vput [OF ok]) (use mf in simp)
  have "roots_rep v1 R M"
    by (rule roots_rep_cong [OF r]) (use apart [OF mem(2)] roots_repD(3) [OF r] in \<open>auto simp: v1_def\<close>)
  from set_head_known [OF ok1 this t, of f] obtain v2 where v2: "db_does (set_head t f) v1 (Ok ()) v2" "roots_rep v2 R (M(t \<mapsto> f))"
      "vol_ok v2" "vhdr v2 = vhdr v1" "vcount v2 = vcount v1" "\<forall>p. p \<notin> set R \<longrightarrow> vpage v2 p = vpage v1 p"
    by (elim exE conjE) (rule that)
  have hdr2: "vhdr v2 = vhdr v" "vcount v2 = vcount v" using v2(4,5) by (simp_all add: v1_def)
  have page2: "vpage v2 p = (if p = f then write_next h (vpage v f) else vpage v p)" if "p \<notin> set R" for p
    using v2(6) that by (simp add: v1_def)
  have mapped2: "mapped v2 p" if "p \<in> set ?all" for p using m(1) [OF that] by (simp add: hdr2)
  have pages2: "vpage v2 le = vpage v le" "vpage v2 h = vpage v h" using page2 apart mem ne by simp_all
  define v3 where "v3 = (if le \<noteq> h then vput le (write_next rest (vpage v le)) v2 else v2)"
  have w3: "db_does (if le \<noteq> h then bnd (read_page le) (\<lambda>last_page. write_page le (write_next rest last_page)) else ret ()) v2 (Ok ()) v3"
  proof (cases "le = h")
    case False
    have "db_does (write_page le (write_next rest (vpage v2 le))) v2 (Ok ()) v3"
      unfolding v3_def if_P [OF False] pages2(1) by (rule db.does_write [OF mapped2 [OF mem(3)]]) (use ml in simp)
    then show ?thesis using False db.does_bnd [OF db.does_read [OF mapped2 [OF mem(3)]]] by simp
  qed (simp add: v3_def)
  have ok3: "vol_ok v3" using v2(3) ml vol_ok_vput [of v2 "write_next rest (vpage v le)" le] by (simp add: v3_def)
  have hdr3: "vhdr v3 = vhdr v" "vcount v3 = vcount v" by (simp_all add: v3_def hdr2)
  have page_h: "vpage v3 h = vpage v h" using pages2 by (simp add: v3_def)
  define d where "d = write_spare_tail le (if le = h then write_next rest (vpage v h) else vpage v h)"
  define v4 where "v4 = vput h d v3"
  have len_d: "length d = PAGE_SIZE" using mh by (simp add: d_def)
  have mapped3: "mapped v3 h" using mh by (simp add: hdr3)
  have w4: "db_does (write_page h d) v3 (Ok ()) v4" unfolding v4_def by (rule db.does_write [OF mapped3 len_d])
  have does: "db_does (promote_first_non_empty t h) v (Ok f) v4"
    unfolding promote_first_non_empty_def
    apply (rule db.does_bnd [OF db.does_read [OF mh(1)]])
    unfolding Let_def if_not_P [OF first]
    apply (rule db.does_bnd [OF find_non_empty_does [OF ok c o, folded le_def]])
    unfolding prod.case
    apply (rule db.does_bnd [OF db.does_read [OF mf(1)]])
    apply (rule db.does_bnd [OF w1])
    apply (rule db.does_bnd [OF v2(1)])
    unfolding rest_def [symmetric]
    apply (rule db.does_bnd [OF w3])
    apply (rule db.does_bnd [OF db.does_read [OF mapped3]])
    unfolding page_h d_def [symmetric]
    by (rule db.does_bnd [OF w4]) simp
  have page4: "vpage v4 p = (if p = h then d else if p = le then write_next rest (vpage v le) else if p = f then write_next h (vpage v f) else vpage v p)"
    if "p \<notin> set R" for p
    using page2 [OF that] by (auto simp: v4_def v3_def)
  have ok4: "vol_ok v4" unfolding v4_def by (rule vol_ok_vput [OF ok3 len_d])
  have hdr4: "vhdr v4 = vhdr v" "vcount v4 = vcount v" by (simp_all add: v4_def hdr3)
  have inR: "p \<noteq> h" "p \<noteq> le" if "p \<in> set R" for p using apart mem that by metis+
  have roots4: "roots_rep v4 R (M(t \<mapsto> f))"
    by (rule roots_rep_cong [OF v2(2)]) (use inR roots_repD(3) [OF v2(2)] in \<open>auto simp: hdr4 hdr2 v4_def v3_def\<close>)
  define nx where "nx p = (if p \<in> set R then next_in v p else next_in v4 p)" for p
  have nx: "nx f = h" "nx le = rest" "p \<noteq> f \<Longrightarrow> p \<noteq> le \<Longrightarrow> nx p = next_in v p" for p
  proof -
    show "nx f = h" using apart [OF mem(2)] page4 [of f] ne mf by (simp add: nx_def)
    show "nx le = rest" using apart [OF mem(3)] page4 [of le] ml mh by (auto simp: nx_def d_def)
    show "p \<noteq> f \<Longrightarrow> p \<noteq> le \<Longrightarrow> nx p = next_in v p" using page4 [of p] mh by (auto simp: nx_def d_def)
  qed
  have "seg nx f (f # (h # sp) @ fs) NO_ROOT"
    by (rule seg_front [where nx = "next_in v"]) (use C(2,3) nx in \<open>auto simp: le_def rest_def\<close>)
  then have seg4: "seg (next_in v4) f (f # (h # sp) @ fs) NO_ROOT"
    by (rule seg_cong) (use apart in \<open>auto simp: nx_def\<close>)
  have cnt_d: "live_count ENTRIES_PER_PAGE d = 0" using mh empty by (simp add: d_def)
  have cells4: "rids.cells_of (vpage v4 p) = rids.cells_of (vpage v p)" if p: "p \<in> set ?all" for p
  proof -
    consider "p = h" | "p \<noteq> h" "p = le" | "p \<noteq> h" "p = f" | "p \<noteq> h" "p \<noteq> le" "p \<noteq> f" by blast
    then show ?thesis
    proof cases
      case 1
      then show ?thesis using page4 [OF apart [OF p]] cnt_d empty by (simp add: cell_list_def)
    qed (use page4 [OF apart [OF p]] ne ml mf rids.cells_next in auto)
  qed
  then have cnt4: "cnt v4 p = cnt v p" if "p \<in> set ?all" for p
    using that length_cell_list [of li_read_entry ENTRIES_PER_PAGE] by metis
  have "chain_rep v4 (f # (h # sp) @ fs)"
    by (rule chain_repI) (use seg4 C(3-5) in \<open>auto simp: hdr4\<close>)
  moreover have "ordered v4 f (h # sp) fs"
  proof -
    have "le \<noteq> NO_ROOT" using mapped_not_NO_ROOT [OF ok ml(1)] .
    then have "read_spare_tail (vpage v4 h) = Some le"
      using page4 [OF apart [OF mem(1)]] mh empty by (simp add: d_def)
    then show ?thesis using o empty cnt4 by (auto simp: ordered_def le_def)
  qed
  moreover have "vpage v4 p = vpage v p" if "p \<notin> set ?all" "p \<notin> set R" for p
  proof -
    have "p \<noteq> h" "p \<noteq> le" "p \<noteq> f" using mem that(1) by metis+
    then show ?thesis using page4 [OF that(2)] by simp
  qed
  ultimately show ?thesis using does ok4 hdr4 roots4 cells4 by blast
qed

section \<open>Removing\<close>

lemma li_entries_put:
  assumes "distinct (as @ p # bs)"
  shows "li_entries (vput p d v) (as @ p # bs) = li_entries v as @ rids.cells_of d @ li_entries v bs"
    "li_entries v (as @ p # bs) = li_entries v as @ rids.cells_of (vpage v p) @ li_entries v bs"
proof -
  have "p \<notin> set as" "p \<notin> set bs" using assms by auto
  then have "li_entries (vput p d v) as = li_entries v as" "li_entries (vput p d v) bs = li_entries v bs"
    by (auto intro: li_entries_cong)
  then show "li_entries (vput p d v) (as @ p # bs) = li_entries v as @ rids.cells_of d @ li_entries v bs"
    by (simp add: li_entries_append li_entries_Cons)
  show "li_entries v (as @ p # bs) = li_entries v as @ rids.cells_of (vpage v p) @ li_entries v bs"
    by (simp add: li_entries_append li_entries_Cons)
qed

lemma empty_entries: "\<forall>p\<in>set ps. cnt v p = 0 \<Longrightarrow> li_entries v ps = []"
  by (simp add: li_entries_def cell_list_def)

text \<open>Overwriting a page of the chain other than a spare, its link kept.\<close>

lemma chain_put:
  assumes c: "chain_rep v (h # sp @ fs)" and o: "ordered v h sp fs" and p: "p = h \<or> p \<in> set fs"
    and d: "read_next d = next_in v p" "p \<in> set fs \<Longrightarrow> live_count ENTRIES_PER_PAGE d = ENTRIES_PER_PAGE"
  shows "chain_rep (vput p d v) (h # sp @ fs)" "ordered (vput p d v) h sp fs"
proof -
  show "chain_rep (vput p d v) (h # sp @ fs)"
    by (rule chain_rep_cong [OF c]) (use chain_repD(4) [OF c] d(1) in auto)
  have "p \<notin> set sp" using p chain_repD(3) [OF c] by auto
  moreover from this have "sp \<noteq> [] \<Longrightarrow> hd sp \<noteq> p" by (metis list.set_sel(1))
  ultimately show "ordered (vput p d v) h sp fs" using o d(2) by (auto simp: ordered_def)
qed

lemma move_last_entry_does:
  assumes ok: "vol_ok v" and c: "chain_rep v (h # sp @ fs)" and o: "ordered v h sp fs" and ne: "cnt v h \<noteq> 0"
    and p: "p \<in> set (h # sp @ fs)" "i < cnt v p" "rids.cells_of (vpage v p) ! i = rid"
  shows "\<exists>v'. db_does (move_last_entry p i h (vpage v h)) v (Ok ()) v' \<and> vol_ok v' \<and> vhdr v' = vhdr v \<and> vcount v' = vcount v \<and>
    (\<forall>q. q \<notin> set (h # sp @ fs) \<longrightarrow> vpage v' q = vpage v q) \<and> chain_rep v' (h # sp @ fs) \<and> ordered v' h sp fs \<and>
    mset (li_entries v' (h # sp @ fs)) = mset (li_entries v (h # sp @ fs)) - {#rid#}"
proof -
  note C = chain_repD [OF c]
  have m: "mapped v q" "length (vpage v q) = PAGE_SIZE" if "q \<in> set (h # sp @ fs)" for q
    using C(4) [OF that] chain_page [OF ok c that] by simp_all
  have mem: "h \<in> set (h # sp @ fs)" by simp
  note mh = m [OF mem] and mp = m [OF p(1)]
  let ?xs = "rids.cells_of (vpage v h)" and ?c = "cnt v h"
  have len: "length ?xs = ?c" by simp
  have lst: "li_read_entry (?c - 1) (vpage v h) = last ?xs"
    using ne by (subst last_conv_nth) (auto simp flip: length_0_conv)
  have i: "i < ENTRIES_PER_PAGE" using p(2) live_count_le by (rule less_le_trans)
  let ?d = "write_count (?c - 1) (vpage v h)"
  have d: "length ?d = PAGE_SIZE" "read_next ?d = next_in v h" "rids.cells_of ?d = take (?c - 1) ?xs"
    using mh rids.cells_shrink [OF mh(2), of "?c - 1"] by simp_all
  show ?thesis
  proof (cases "p = h")
    case True
    let ?e = "li_write_entry i (last ?xs) ?d"
    have e: "length ?e = PAGE_SIZE" "read_next ?e = next_in v h" "rids.cells_of ?e = take (?c - 1) (?xs[i := last ?xs])"
      using rids.wr_length [OF d(1) i] rids.next_wr [OF d(1) i] rids.cells_wr [OF d(1) i, of "last ?xs"] d
      by (simp_all add: take_update_swap)
    have "db_does (move_last_entry p i h (vpage v h)) v (Ok ()) (vput h ?e v)"
      unfolding move_last_entry_def Let_def li_read_count_live(1) if_not_P [OF ne] lst if_P [OF True]
      by (rule db.does_write [OF mh(1) e(1)])
    moreover have hfs: "h \<notin> set fs" using C(3) by simp
    have "chain_rep (vput h ?e v) (h # sp @ fs)" "ordered (vput h ?e v) h sp fs"
      using chain_put [OF c o, of h ?e] e(2) hfs by simp_all
    moreover have "mset (li_entries (vput h ?e v) (h # sp @ fs)) = mset (li_entries v (h # sp @ fs)) - {#rid#}"
    proof -
      have x: "mset (take (?c - 1) (?xs[i := last ?xs])) = mset ?xs - {#rid#}"
        using mset_swap_remove [of i ?xs] p(2,3) True by simp
      have "rid \<in># mset ?xs" using p(2,3) True nth_mem [of i ?xs] by auto
      then show ?thesis
        using li_entries_put(1) [of "[]" h "sp @ fs" ?e v] li_entries_put(2) [of "[]" h "sp @ fs" v] C(3) e(3) x by (simp add: li_entries_def)
    qed
    moreover have "vol_ok (vput h ?e v)" by (rule vol_ok_vput [OF ok e(1)])
    ultimately show ?thesis by (intro exI [of _ "vput h ?e v"]) (use mem in simp)
  next
    case False
    have "p \<notin> set sp" using o p(2) by (auto simp: ordered_def)
    then have pfs: "p \<in> set fs" using p(1) False by simp
    obtain as bs where fs: "fs = as @ p # bs" using split_list [OF pfs] by blast
    let ?e = "li_write_entry i (last ?xs) (vpage v p)"
    have e: "length ?e = PAGE_SIZE" "read_next ?e = next_in v p" "rids.cells_of ?e = (rids.cells_of (vpage v p))[i := last ?xs]"
        "live_count ENTRIES_PER_PAGE ?e = cnt v p"
      using rids.wr_length [OF mp(2) i] rids.next_wr [OF mp(2) i] rids.cells_wr [OF mp(2) i] rids.live_count_wr [OF mp(2) i] by simp_all
    define v1 where "v1 = vput h ?d v"
    have hfs: "h \<notin> set fs" using C(3) by simp
    note c1 = chain_put [OF c o, of h ?d, folded v1_def, simplified d(2) hfs, simplified]
    have ok1: "vol_ok v1" unfolding v1_def by (rule vol_ok_vput [OF ok d(1)])
    have v1p: "vpage v1 p = vpage v p" "mapped v1 p" using False mp by (simp_all add: v1_def)
    have full: "live_count ENTRIES_PER_PAGE ?e = ENTRIES_PER_PAGE" using o pfs e(4) by (simp add: ordered_def)
    note c2 = chain_put [OF c1, of p ?e]
    have "db_does (move_last_entry p i h (vpage v h)) v (Ok ()) (vput p ?e v1)"
      unfolding move_last_entry_def Let_def li_read_count_live(1) if_not_P [OF ne] lst if_not_P [OF False]
      apply (rule db.does_bnd [OF db.does_write [OF mh(1) d(1)]])
      unfolding v1_def [symmetric]
      apply (rule db.does_bnd [OF db.does_read [OF v1p(2)]])
      unfolding v1p(1) by (rule db.does_write [OF v1p(2) e(1)])
    moreover have "chain_rep (vput p ?e v1) (h # sp @ fs)" "ordered (vput p ?e v1) h sp fs"
      using c2 pfs e(2) full v1p by simp_all
    moreover have "mset (li_entries (vput p ?e v1) (h # sp @ fs)) = mset (li_entries v (h # sp @ fs)) - {#rid#}"
    proof -
      have ps: "h # sp @ fs = (h # sp @ as) @ p # bs" by (simp add: fs)
      have dist: "distinct ((h # sp @ as) @ p # bs)" using C(3) unfolding ps .
      have E1: "li_entries (vput p ?e v1) (h # sp @ fs) = li_entries v1 (h # sp @ as) @ rids.cells_of ?e @ li_entries v1 bs"
        unfolding ps by (rule li_entries_put(1) [OF dist])
      have same: "li_entries v1 qs = li_entries v qs" if "h \<notin> set qs" for qs
        by (rule li_entries_cong) (use that in \<open>auto simp: v1_def\<close>)
      have hn: "h \<notin> set (sp @ as)" "h \<notin> set bs" using C(3) fs by auto
      have v1h: "rids.cells_of (vpage v1 h) = butlast ?xs" using d(3) by (simp add: v1_def butlast_conv_take)
      have xs: "mset ?xs = add_mset (last ?xs) (mset (butlast ?xs))"
      proof -
        have "?xs \<noteq> []"
        proof
          assume "?xs = []"
          then have "length ?xs = 0" unfolding length_0_conv .
          from this ne show False unfolding length_cell_list by (rule notE [rotated])
        qed
        then have "?xs = butlast ?xs @ [last ?xs]" by simp
        then have "mset ?xs = mset (butlast ?xs @ [last ?xs])" by (rule arg_cong)
        then show ?thesis by simp
      qed
      have ys: "mset ((rids.cells_of (vpage v p))[i := last ?xs]) = add_mset (last ?xs) (mset (rids.cells_of (vpage v p)) - {#rid#})"
        using p(2,3) by (simp add: mset_update)
      have "rid \<in># mset (rids.cells_of (vpage v p))" using p(2,3) nth_mem [of i "rids.cells_of (vpage v p)"] by auto
      moreover have "li_entries v (h # sp @ fs) = ?xs @ li_entries v (sp @ as) @ rids.cells_of (vpage v p) @ li_entries v bs"
        unfolding ps li_entries_put(2) [OF dist] by (simp add: li_entries_Cons)
      ultimately show ?thesis
        unfolding E1 unfolding e(3) append_Cons li_entries_Cons v1h same [OF hn(1)] same [OF hn(2)]
        by (simp add: ys xs)
    qed
    moreover have "vol_ok (vput p ?e v1)" by (rule vol_ok_vput [OF ok1 e(1)])
    moreover have "vpage (vput p ?e v1) q = vpage v q" if "q \<notin> set (h # sp @ fs)" for q
      using that p(1) by (auto simp: v1_def)
    ultimately show ?thesis by (intro exI [of _ "vput p ?e v1"]) (simp add: v1_def)
  qed
qed

end
