(* ===== verification/Label_Updates.thy ===== *)
theory Label_Updates
  imports Label_Index
begin

text \<open>
  The operations of the label index that change it, on the representation of \<open>Label_Index\<close>: removing
  fills the hole from the head of the chain, adding takes the head, then a spare, and only then a new
  page. The properties are stated for sequences of calls.
\<close>

section \<open>What a change keeps\<close>

definition li_own :: "u32 list \<Rightarrow> (u16 \<Rightarrow> u32 list) \<Rightarrow> u32 set" where
  "li_own R C = set R \<union> (\<Union>t. set (C t))"

abbreviation heads :: "(u16 \<Rightarrow> u32 list) \<Rightarrow> u16 \<Rightarrow> u32 option" where
  "heads C \<equiv> (\<lambda>u. case C u of [] \<Rightarrow> None | p # _ \<Rightarrow> Some p)"

text \<open>
  A change of the entries of one type to \<open>M\<close>: the representation is kept, the other types keep their
  entries and every page outside the index its bytes; at most \<open>k\<close> pages are appended.
\<close>

definition li_change :: "nat \<Rightarrow> vol \<Rightarrow> u32 list \<Rightarrow> (u16 \<Rightarrow> u32 list) \<Rightarrow> u16 \<Rightarrow> record_id multiset \<Rightarrow>
    vol \<Rightarrow> u32 list \<Rightarrow> u32 list \<Rightarrow> bool" where
  "li_change k v R C t M v' R' ps \<longleftrightarrow> li_rep v' R' (C(t := ps)) \<and> mset (li_entries v' ps) = M \<and>
     (\<forall>u. u \<noteq> t \<longrightarrow> li_entries v' (C u) = li_entries v (C u)) \<and>
     own_frame k v (set R \<union> set (C t)) v' (set R' \<union> set ps) \<and>
     (\<exists>r. vhdr v' = (vhdr v)\<lparr>label_index_root := r\<rparr>)"

lemma li_changeI:
  assumes rep: "li_rep v R C" and ok: "vol_ok v'"
    and roots: "roots_rep v' R' ((heads C)(t \<mapsto> hd ps))" and chain: "chain_rep v' ps"
    and ord: "ps = h # sp @ fs" "ordered v' h sp fs"
    and frame: "own_frame k v (set R \<union> set (C t)) v' (set R' \<union> set ps)" and apart: "\<And>p. p \<in> set ps \<Longrightarrow> p \<notin> set R'"
    and M: "mset (li_entries v' ps) = M" and hdr: "vhdr v' = (vhdr v)\<lparr>label_index_root := r\<rparr>"
  shows "li_change k v R C t M v' R' ps"
proof -
  have "\<exists>h sp fs. ps = h # sp @ fs \<and> ordered v' h sp fs" using ord by blast
  note step = li_rep_step [OF rep ok roots chain this frame apart]
  show ?thesis unfolding li_change_def using step(1) step(2) M frame hdr by blast
qed

text \<open>A change that stays on the pages of the index and writes the root map, if at all, through \<open>set_head\<close>.\<close>

lemma li_changeI_same:
  assumes rep: "li_rep v R C" and ok: "vol_ok v'"
    and roots: "roots_rep v' R ((heads C)(t \<mapsto> hd ps))" and chain: "chain_rep v' ps"
    and ord: "ps = h # sp @ fs" "ordered v' h sp fs"
    and same: "set ps = set (C t)" "vcount v' = vcount v" "vhdr v' = vhdr v"
    and keep: "\<And>p. p \<notin> set (C t) \<Longrightarrow> p \<notin> set R \<Longrightarrow> vpage v' p = vpage v p"
    and M: "mset (li_entries v' ps) = M"
  shows "li_change 0 v R C t M v' R ps"
proof (rule li_changeI [OF rep ok roots chain ord _ _ M])
  show "own_frame 0 v (set R \<union> set (C t)) v' (set R \<union> set ps)"
    using same keep by (auto intro!: own_frameI)
  show "p \<notin> set R" if "p \<in> set ps" for p using li_repD(6) [OF rep] that same(1) by blast
  show "vhdr v' = (vhdr v)\<lparr>label_index_root := label_root v\<rparr>" using same(3) by simp
qed

lemma li_change_own:
  assumes "li_change k v R C t M v' R' ps"
  shows "own_frame k v (li_own R C) v' (li_own R' (C(t := ps)))"
proof -
  let ?X = "\<Union>u\<in>-{t}. set (C u)"
  have "own_frame k v (set R \<union> set (C t)) v' (set R' \<union> set ps)" using assms by (simp add: li_change_def)
  then have "own_frame k v ((set R \<union> set (C t)) \<union> ?X) v' ((set R' \<union> set ps) \<union> ?X)" by (rule own_frame_union)
  moreover have "(set R \<union> set (C t)) \<union> ?X = li_own R C" by (auto simp: li_own_def)
  moreover have "(set R' \<union> set ps) \<union> ?X = li_own R' (C(t := ps))" by (auto simp: li_own_def split: if_splits)
  ultimately show ?thesis by simp
qed

lemma li_change_mono: "li_change k v R C t M v' R' ps \<Longrightarrow> k \<le> j \<Longrightarrow> li_change j v R C t M v' R' ps"
  unfolding li_change_def using own_frame_mono by blast

lemma heads_same: "C t = h # ps \<Longrightarrow> (heads C)(t \<mapsto> h) = heads C"
  by (auto simp: fun_eq_iff)

lemma li_change_none:
  assumes rep: "li_rep v R C"
  shows "li_change 0 v R C t (mset (li_entries v (C t))) v R (C t)"
  unfolding li_change_def
  using rep by (auto intro: exI [of _ "label_root v"])

section \<open>Removing an entry\<close>

lemma find_rid:
  "(case find (\<lambda>i. li_read_entry i page = rid) [0..<live_count ENTRIES_PER_PAGE page] of
      None \<Rightarrow> rid \<notin> set (rids.cells_of page)
    | Some i \<Rightarrow> i < live_count ENTRIES_PER_PAGE page \<and> rids.cells_of page ! i = rid)"
  (is "case ?f of None \<Rightarrow> ?N | Some i \<Rightarrow> ?S i")
proof (cases ?f)
  case None
  then have ?N by (auto simp: find_None_iff in_cell_list)
  then show ?thesis unfolding None by simp
next
  case (Some i)
  then have "?S i" by (auto simp: find_Some_iff)
  then show ?thesis unfolding Some by simp
qed

lemma fill_hole_does:
  assumes rep: "li_rep v R C" and ne: "C t \<noteq> []"
    and p: "p \<in> set (C t)" "i < cnt v p" "rids.cells_of (vpage v p) ! i = rid"
  shows "\<exists>v' ps. db_does (fill_hole_from_head t (hd (C t)) p i) v (Ok ()) v' \<and> length ps = length (C t) \<and>
    li_change 0 v R C t (mset (li_entries v (C t)) - {#rid#}) v' R ps"
proof -
  note D = li_repD [OF rep]
  obtain h sp fs where ct: "C t = h # sp @ fs" and o: "ordered v h sp fs" using D(5) [OF ne] by blast
  have c: "chain_rep v (h # sp @ fs)" using D(4) [OF ne] ct by simp
  have mh: "mapped v h" using chain_repD(4) [OF c] by simp
  have apart: "q \<notin> set R" if "q \<in> set (h # sp @ fs)" for q using D(6) [of q t] that ct by simp
  show ?thesis
  proof (cases "cnt v h = 0")
    case False
    obtain v' where v': "db_does (move_last_entry p i h (vpage v h)) v (Ok ()) v'" "vol_ok v'" "vhdr v' = vhdr v" "vcount v' = vcount v"
        "\<forall>q. q \<notin> set (h # sp @ fs) \<longrightarrow> vpage v' q = vpage v q" "chain_rep v' (h # sp @ fs)" "ordered v' h sp fs"
        "mset (li_entries v' (h # sp @ fs)) = mset (li_entries v (h # sp @ fs)) - {#rid#}"
      using move_last_entry_does [OF D(1) c o False p(1) [unfolded ct] p(2,3)] by (elim exE conjE) (rule that)
    have "db_does (fill_hole_from_head t h p i) v (Ok ()) v'"
      unfolding fill_hole_from_head_def
      by (rule db.does_bnd [OF db.does_read [OF mh]]) (simp add: li_read_count_live(1) False v'(1))
    moreover have "roots_rep v' R (heads C)"
      by (rule roots_rep_cong [OF D(3)]) (use v'(3-5) apart D(3) roots_repD(3) [OF D(3)] in auto)
    then have "li_change 0 v R C t (mset (li_entries v (C t)) - {#rid#}) v' R (h # sp @ fs)"
      by (intro li_changeI_same [OF rep v'(2) _ v'(6) refl v'(7)]) (use v'(3,4,5,8) ct heads_same [of C t] in simp_all)
    ultimately show ?thesis using ct by (intro exI [of _ v'] exI [of _ "C t"]) simp
  next
    case True
    have "p \<notin> set sp" "p \<noteq> h" using o p(2) True by (auto simp: ordered_def)
    then have pf: "p \<in> set fs" using p(1) ct by simp
    then obtain f fs' where fs: "fs = f # fs'" by (cases fs) auto
    have dom: "t \<in> dom (heads C)" using ct by auto
    have ap: "\<And>q. q \<in> set (h # sp @ f # fs') \<Longrightarrow> q \<notin> set R" using apart unfolding fs .
    obtain v1 where v1: "db_does (promote_first_non_empty t h) v (Ok f) v1" "vol_ok v1" "vhdr v1 = vhdr v" "vcount v1 = vcount v"
        "\<forall>q. q \<notin> set (h # sp @ f # fs') \<longrightarrow> q \<notin> set R \<longrightarrow> vpage v1 q = vpage v q" "roots_rep v1 R ((heads C)(t \<mapsto> f))"
        "chain_rep v1 (f # (h # sp) @ fs')" "ordered v1 f (h # sp) fs'"
        "\<forall>q\<in>set (h # sp @ f # fs'). rids.cells_of (vpage v1 q) = rids.cells_of (vpage v q)"
      using promote_first_does [OF D(1) c [unfolded fs] o [unfolded fs] D(3) dom ap True, simplified]
      by (elim exE conjE) (rule that, simp_all)
    let ?ps = "f # (h # sp) @ fs'"
    have set_ps: "set ?ps = set (C t)" unfolding ct fs by auto
    have cells: "rids.cells_of (vpage v1 q) = rids.cells_of (vpage v q)" if "q \<in> set (C t)" for q
      using v1(9) that unfolding ct fs by blast
    have counts: "cnt v1 q = cnt v q" if "q \<in> set (C t)" for q
      using arg_cong [OF cells [OF that], of length] by simp
    have perm: "mset (li_entries v1 ?ps) = mset (li_entries v (C t))"
    proof -
      have e: "li_entries v1 qs = li_entries v qs" if "set qs \<subseteq> set (C t)" for qs
        by (rule li_entries_cong) (use cells that in blast)
      have "li_entries v1 ?ps = li_entries v ?ps" by (rule e) (simp only: set_ps)
      then show ?thesis unfolding ct fs by (simp add: li_entries_append li_entries_Cons)
    qed
    have f: "f \<in> set (C t)" unfolding ct fs by simp
    have nf: "cnt v1 f \<noteq> 0" unfolding counts [OF f] using o fs by (simp add: ordered_def li_sizes)
    have mf: "mapped v1 f" using chain_repD(4) [OF v1(7)] by simp
    obtain v' where v': "db_does (move_last_entry p i f (vpage v1 f)) v1 (Ok ()) v'" "vol_ok v'" "vhdr v' = vhdr v1" "vcount v' = vcount v1"
        "\<forall>q. q \<notin> set ?ps \<longrightarrow> vpage v' q = vpage v1 q" "chain_rep v' ?ps" "ordered v' f (h # sp) fs'"
        "mset (li_entries v' ?ps) = mset (li_entries v1 ?ps) - {#rid#}"
      using move_last_entry_does [OF v1(2,7,8) nf p(1) [folded set_ps] p(2) [folded counts [OF p(1)]] p(3) [folded cells [OF p(1)]]]
      by (elim exE conjE) (rule that)
    have "db_does (fill_hole_from_head t h p i) v (Ok ()) v'"
      unfolding fill_hole_from_head_def
      apply (rule db.does_bnd [OF db.does_read [OF mh]])
      unfolding li_read_count_live(1) if_P [OF True]
      by (rule db.does_bnd [OF v1(1)], rule db.does_bnd [OF db.does_read [OF mf]], rule v'(1))
    moreover have "roots_rep v' R ((heads C)(t \<mapsto> f))"
      by (rule roots_rep_cong [OF v1(6)]) (use v'(3-5) v1(3,4) D(6) set_ps roots_repD(3) [OF v1(6)] in auto)
    then have "li_change 0 v R C t (mset (li_entries v (C t)) - {#rid#}) v' R ?ps"
      by (intro li_changeI_same [OF rep v'(2) _ v'(6) refl v'(7) set_ps])
        (use v'(3,4,5,8) v1(3,4,5) perm set_ps [unfolded ct fs] ct fs in auto)
    ultimately show ?thesis using ct fs by (intro exI [of _ v'] exI [of _ ?ps]) simp
  qed
qed

lemma no_rid_visits: "rid \<notin> set (li_entries v ps) \<Longrightarrow> visits (li_remove_visit t h rid) v ps () = Some ()"
proof (induction ps)
  case (Cons p ps)
  then have "rid \<notin> set (rids.cells_of (vpage v p))" "rid \<notin> set (li_entries v ps)" by (simp_all add: li_entries_Cons)
  then show ?case
    using Cons.IH find_rid [of rid "vpage v p"] nth_mem [of _ "rids.cells_of (vpage v p)"]
    by (auto simp: li_remove_visit_def li_read_count_live(1) split: option.splits)
qed simp

lemma first_page_with_rid:
  assumes "rid \<in> set (li_entries v ps)"
  shows "\<exists>as p bs. ps = as @ p # bs \<and> rid \<in> set (rids.cells_of (vpage v p)) \<and> rid \<notin> set (li_entries v as)"
proof -
  have "\<exists>p\<in>set ps. rid \<in> set (rids.cells_of (vpage v p))" using assms by (auto simp: li_entries_def)
  from split_list_first_prop [OF this] show ?thesis by (auto simp: li_entries_def)
qed

lemma li_remove_does:
  assumes rep: "li_rep v R C"
  shows "\<exists>v' ps. db_does (li_remove t rid) v (Ok ()) v' \<and> length ps = length (C t) \<and>
    li_change 0 v R C t (mset (li_entries v (C t)) - {#rid#}) v' R ps"
proof (cases "C t")
  case Nil
  have "db_does (li_remove t rid) v (Ok ()) v"
    unfolding li_remove_def by (rule db.does_bnd [OF head_of_chain [OF rep]]) (simp add: Nil)
  then show ?thesis using li_change_none [OF rep, of t] Nil
    by (intro exI [of _ v] exI [of _ "[]"]) (simp add: li_entries_def)
next
  case (Cons h qs)
  note D = li_repD [OF rep]
  have ne: "C t \<noteq> []" and h: "hd (C t) = h" using Cons by simp_all
  have run: "db_does (li_remove t rid) v (Ok ()) w"
    if "db_does (walk_chain (vcount v) (li_remove_visit t h rid) (\<lambda>_ _ _. ret ()) h ()) v (Ok ()) w" for w
    unfolding li_remove_def
    apply (rule db.does_bnd [OF head_of_chain [OF rep]])
    unfolding Cons list.case option.case
    by (rule db.does_bnd [OF does_page_count]) (simp only: unat_page_count [OF D(1)] that)
  show ?thesis
  proof (cases "rid \<in> set (li_entries v (C t))")
    case False
    obtain as z where z: "C t = as @ [z]" using ne by (cases "C t" rule: rev_cases) auto
    have "db_does (walk_chain (vcount v) (li_remove_visit t h rid) (\<lambda>_ _ _. ret ()) (hd (C t)) ()) v (Ok ()) v"
      by (rule chain_walk_ends [OF D(1) D(4) [OF ne] z no_rid_visits [OF False]]) simp
    then have "db_does (li_remove t rid) v (Ok ()) v" unfolding h by (rule run)
    moreover have "mset (li_entries v (C t)) - {#rid#} = mset (li_entries v (C t))" using False by (simp add: diff_single_trivial)
    ultimately show ?thesis using li_change_none [OF rep, of t] by (intro exI [of _ v] exI [of _ "C t"]) simp
  next
    case True
    obtain as p bs where p: "C t = as @ p # bs" "rid \<in> set (rids.cells_of (vpage v p))" "rid \<notin> set (li_entries v as)"
      using first_page_with_rid [OF True] by blast
    obtain i where i: "find (\<lambda>i. li_read_entry i (vpage v p) = rid) [0..<cnt v p] = Some i"
        "i < cnt v p" "rids.cells_of (vpage v p) ! i = rid"
      using find_rid [of rid "vpage v p"] p(2) by (auto split: option.splits)
    have mem: "p \<in> set (C t)" using p(1) by simp
    obtain v' ps where v': "db_does (fill_hole_from_head t h p i) v (Ok ()) v'" "length ps = length (C t)"
        "li_change 0 v R C t (mset (li_entries v (C t)) - {#rid#}) v' R ps"
      using fill_hole_does [OF rep ne mem i(2,3)] unfolding h by (elim exE conjE) (rule that)
    have "db_does (walk_chain (vcount v) (li_remove_visit t h rid) (\<lambda>_ _ _. ret ()) (hd (C t)) ()) v (Ok ()) v'"
      by (rule chain_walk_stops [OF D(1) D(4) [OF ne] p(1) no_rid_visits [OF p(3)] _ v'(1)])
        (simp add: li_remove_visit_def li_read_count_live(1) i(1))
    then have "db_does (li_remove t rid) v (Ok ()) v'" unfolding h by (rule run)
    then show ?thesis using v'(2,3) by (intro exI [of _ v'] exI [of _ ps]) simp
  qed
qed

section \<open>Adding an entry\<close>

lemma first_entry_page:
  "length (first_entry_page rid) = PAGE_SIZE" "rids.cells_of (write_next p (first_entry_page rid)) = [rid]"
proof -
  have cap: "0 < ENTRIES_PER_PAGE" by (simp add: li_sizes)
  have blank: "length (replicate PAGE_SIZE 0 :: bytes) = PAGE_SIZE" by simp
  show len: "length (first_entry_page rid) = PAGE_SIZE"
    unfolding first_entry_page_def using rids.wr_length [OF blank cap] by simp
  show "rids.cells_of (write_next p (first_entry_page rid)) = [rid]"
    unfolding rids.cells_next [OF len] unfolding first_entry_page_def by (rule rids.cells_first [OF blank cap])
qed

text \<open>The page appended in front of a chain, or as the first of a new one.\<close>

lemma chain_push:
  assumes ok: "vol_ok v" "0 < vcount v" and room: "Suc (vcount v) < 2 ^ 32"
    and ps: "ps \<noteq> [] \<Longrightarrow> chain_rep v ps" "nx = (case ps of [] \<Rightarrow> NO_ROOT | p # _ \<Rightarrow> p)"
    and full: "\<forall>p\<in>set ps. cnt v p = ENTRIES_PER_PAGE"
    and n_def: "n = of_nat (vcount v)" and v'_def: "v' = vappend (write_next nx (first_entry_page rid)) v"
  shows "db_does (append_page (write_next nx (first_entry_page rid))) v (Ok n) v'" "vol_ok v'" "\<not> mapped v n"
    "chain_rep v' (n # ps)" "ordered v' n [] ps" "li_entries v' (n # ps) = rid # li_entries v ps"
    "vhdr v' = vhdr v" "vcount v' = Suc (vcount v)" "\<And>p. p \<noteq> n \<Longrightarrow> vpage v' p = vpage v p"
proof -
  have len: "length (write_next nx (first_entry_page rid)) = PAGE_SIZE" using first_entry_page(1) by simp
  show does: "db_does (append_page (write_next nx (first_entry_page rid))) v (Ok n) v'"
    unfolding n_def v'_def by (rule db.does_append [OF room len])
  show "vol_ok v'" unfolding v'_def by (rule vol_ok_vappend [OF ok(1) room len])
  have un: "unat n = vcount v" using room by (simp add: n_def unat_of_nat_small)
  show n: "\<not> mapped v n" using un by simp
  have n': "mapped v' n" "n \<noteq> 0" using un ok(2) by (simp_all add: v'_def) (metis less_numeral_extra(3) unat_0)
  show "vhdr v' = vhdr v" "vcount v' = Suc (vcount v)" by (simp_all add: v'_def)
  show keep: "vpage v' p = vpage v p" if "p \<noteq> n" for p using that by (simp add: v'_def n_def)
  have new: "vpage v' n = write_next nx (first_entry_page rid)" by (simp add: v'_def n_def)
  have m: "mapped v p" "p \<noteq> 0" if "p \<in> set ps" for p
    using chain_repD(4,5) [OF ps(1)] that by fastforce+
  have old: "p \<noteq> n" if "p \<in> set ps" for p using m(1) [OF that] n by metis
  have "seg (next_in v') nx ps NO_ROOT"
  proof (cases ps)
    case (Cons q qs)
    then have "seg (next_in v) nx ps NO_ROOT" using chain_repD(2) [OF ps(1)] ps(2) by simp
    then show ?thesis by (rule seg_cong) (simp add: keep old)
  qed (simp add: ps(2))
  moreover have "distinct ps" using chain_repD(3) [OF ps(1)] by (cases ps) simp_all
  ultimately show "chain_rep v' (n # ps)"
    using new first_entry_page(1) n' m old by (intro chain_repI) (auto simp: v'_def less_SucI)
  show "ordered v' n [] ps" using full keep old by (simp add: ordered_def)
  have "li_entries v' ps = li_entries v ps" by (rule li_entries_cong) (simp add: keep old)
  then show "li_entries v' (n # ps) = rid # li_entries v ps" by (simp add: li_entries_Cons new first_entry_page(2))
qed

text \<open>A type without a chain.\<close>

lemma add_first_does:
  assumes rep: "li_rep v R C" and t: "C t = []" and room: "vcount v + 3 < 2 ^ 32"
  shows "\<exists>v' R' ps. db_does (li_add_new t rid) v (Ok ()) v' \<and> length ps = 1 \<and> li_change 3 v R C t {#rid#} v' R' ps"
proof -
  note D = li_repD [OF rep]
  define n where "n = (of_nat (vcount v) :: u32)"
  define v1 where "v1 = vappend (write_next NO_ROOT (first_entry_page rid)) v"
  have "Suc (vcount v) < 2 ^ 32" using room by simp
  note A = chain_push [OF D(1,2) this _ _ _ n_def v1_def, of "[]", simplified]
  have mR: "mapped v p" "p \<noteq> n" if "p \<in> set R" for p
    using roots_repD(3) [OF D(3) that] A(3) by metis+
  have roots1: "roots_rep v1 R (heads C)"
    by (rule roots_rep_cong [OF D(3)]) (use A(7,8,9) mR in \<open>auto simp: less_SucI\<close>)
  have absent: "t \<notin> dom (heads C)" using t by auto
  have room1: "vcount v1 + 2 < 2 ^ 32" "0 < vcount v1" using room A(8) by simp_all
  obtain v' R' r where v': "db_does (set_head t n) v1 (Ok ()) v'" "roots_rep v' R' ((heads C)(t \<mapsto> n))" "vol_ok v'"
      "vhdr v' = (vhdr v1)\<lparr>label_index_root := r\<rparr>" "own_frame 2 v1 (set R) v' (set R')"
    using set_head_new [OF A(2) room1(2) roots1 absent room1(1), of n] by (elim exE conjE) (rule that)
  have n: "mapped v1 n" "n \<noteq> 0" using chain_repD(4,5) [OF A(4)] by simp_all
  have nR: "n \<notin> set R" using mR(2) by blast
  have pn: "vpage v' n = vpage v1 n" "n \<notin> set R'" "mapped v' n"
    using v'(5) n nR unfolding own_frame_def by (blast, blast, linarith)
  have "li_change 3 v R C t {#rid#} v' R' [n]"
  proof (rule li_changeI [OF rep v'(3) _ _ _ _ _ _ _, where h = n and sp = "[]" and fs = "[]" and r = r])
    show "roots_rep v' R' ((heads C)(t \<mapsto> hd [n]))" using v'(2) by simp
    show "chain_rep v' [n]" by (rule chain_rep_cong [OF A(4)]) (use pn in simp)
    show "ordered v' n [] []" by (simp add: ordered_def)
    have "vpage v1 p = vpage v p" if "mapped v p" for p using A(3) that by (intro A(9)) metis
    then have "own_frame 1 v (set R) v1 (set R \<union> {n})" using A(3,7,8) by (auto intro!: own_frameI)
    moreover have "own_frame 2 v1 (set R \<union> {n}) v' (set R' \<union> {n})" using v'(5) by (rule own_frame_union)
    ultimately have "own_frame (1 + 2) v (set R) v' (set R' \<union> {n})" by (rule own_frame_trans)
    then show "own_frame 3 v (set R \<union> set (C t)) v' (set R' \<union> set [n])" by (simp add: t numeral_3_eq_3)
    show "p \<notin> set R'" if "p \<in> set [n]" for p using that pn(2) by simp
    have "li_entries v' [n] = li_entries v1 [n]" by (rule li_entries_cong) (simp add: pn(1))
    then show "mset (li_entries v' [n]) = {#rid#}" using A(6) by (simp add: li_entries_def)
    show "vhdr v' = (vhdr v)\<lparr>label_index_root := r\<rparr>" using v'(4) A(7) by simp
  qed simp
  moreover have "db_does (li_add_new t rid) v (Ok ()) v'"
    unfolding li_add_new_def
    apply (rule db.does_bnd [OF head_of_chain [OF rep]])
    unfolding t list.case option.case
    by (rule db.does_bnd [OF A(1)]) (rule v'(1))
  ultimately show ?thesis by (intro exI [of _ v'] exI [of _ R'] exI [of _ "[n]"]) simp
qed

text \<open>A chain with room in its head page.\<close>

lemma add_in_head_does:
  assumes rep: "li_rep v R C" and ct: "C t = h # sp @ fs" "ordered v h sp fs" and free: "cnt v h < ENTRIES_PER_PAGE"
  shows "\<exists>v'. db_does (li_add_new t rid) v (Ok ()) v' \<and> vcount v' = vcount v \<and>
    li_change 0 v R C t (add_mset rid (mset (li_entries v (C t)))) v' R (C t)"
proof -
  note D = li_repD [OF rep]
  have c: "chain_rep v (h # sp @ fs)" using D(4) [of t] ct(1) by simp
  have mh: "mapped v h" "length (vpage v h) = PAGE_SIZE" using chain_repD(4) [OF c] chain_page [OF D(1) c] by simp_all
  have hR: "h \<notin> set R" using D(6) [of h t] ct(1) by simp
  define d where "d = write_count (cnt v h + 1) (li_write_entry (cnt v h) rid (vpage v h))"
  have w: "length (li_write_entry (cnt v h) rid (vpage v h)) = PAGE_SIZE" by (rule rids.wr_length [OF mh(2) free])
  have d: "length d = PAGE_SIZE" "read_next d = next_in v h" "rids.cells_of d = rids.cells_of (vpage v h) @ [rid]"
    using w rids.next_wr [OF mh(2) free] rids.cells_push [OF mh(2) free] by (simp_all add: d_def)
  have hfs: "h \<notin> set fs" using chain_repD(3) [OF c] by simp
  define v' where "v' = vput h d v"
  have c': "chain_rep v' (h # sp @ fs)" and o': "ordered v' h sp fs"
    using chain_put [OF c ct(2), of h d] d(2) hfs by (simp_all add: v'_def)
  have "db_does (li_add_new t rid) v (Ok ()) v'"
    unfolding li_add_new_def
    apply (rule db.does_bnd [OF head_of_chain [OF rep]])
    unfolding ct(1) list.case option.case
    apply (rule db.does_bnd [OF db.does_read [OF mh(1)]])
    unfolding li_read_count_live(1) Let_def if_P [OF free] d_def [symmetric] v'_def
    by (rule db.does_write [OF mh(1) d(1)])
  moreover have "li_change 0 v R C t (add_mset rid (mset (li_entries v (C t)))) v' R (h # sp @ fs)"
  proof (rule li_changeI_same [OF rep _ _ c' refl o'])
    show "vol_ok v'" unfolding v'_def by (rule vol_ok_vput [OF D(1) d(1)])
    have "roots_rep v' R (heads C)"
      by (rule roots_rep_cong [OF D(3)]) (use hR roots_repD(3) [OF D(3)] in \<open>auto simp: v'_def\<close>)
    then show "roots_rep v' R ((heads C)(t \<mapsto> hd (h # sp @ fs)))" using heads_same [of C t] ct(1) by simp
    have "distinct ([] @ h # sp @ fs)" using chain_repD(3) [OF c] by simp
    from li_entries_put(1) [OF this, of d v] li_entries_put(2) [OF this, of v]
    show "mset (li_entries v' (h # sp @ fs)) = add_mset rid (mset (li_entries v (C t)))"
      unfolding ct(1) by (simp add: v'_def d(3) li_entries_def)
    show "vpage v' p = vpage v p" if "p \<notin> set (C t)" for p using that ct(1) by (auto simp: v'_def)
  qed (simp_all add: v'_def ct(1))
  ultimately show ?thesis using ct(1) by (intro exI [of _ v']) (simp add: v'_def)
qed

text \<open>The head is full: a spare, if there is one, becomes the head.\<close>

lemma add_in_spare_does:
  assumes rep: "li_rep v R C" and ct: "C t = h # (s1 # sp) @ fs" "ordered v h (s1 # sp) fs" and full: "cnt v h = ENTRIES_PER_PAGE"
  shows "\<exists>v'. db_does (li_add_new t rid) v (Ok ()) v' \<and> vcount v' = vcount v \<and>
    li_change 0 v R C t (add_mset rid (mset (li_entries v (C t)))) v' R (s1 # sp @ h # fs)"
proof -
  note D = li_repD [OF rep]
  let ?ps = "s1 # sp @ h # fs"
  have c: "chain_rep v (h # (s1 # sp) @ fs)" using D(4) [of t] ct(1) by simp
  have mh: "mapped v h" using chain_repD(4) [OF c] by simp
  have set_ps: "set ?ps = set (C t)" unfolding ct(1) by auto
  obtain v1 where v1: "db_does (promote_spare h) v (Ok (Some s1)) v1" "vol_ok v1" "vhdr v1 = vhdr v" "vcount v1 = vcount v"
      "\<forall>p. p \<notin> set (h # (s1 # sp) @ fs) \<longrightarrow> vpage v1 p = vpage v p" "chain_rep v1 ?ps" "ordered v1 s1 sp (h # fs)"
      "\<forall>p\<in>set (h # (s1 # sp) @ fs). rids.cells_of (vpage v1 p) = rids.cells_of (vpage v p)"
    using promote_spare_does [OF D(1) c ct(2) full] by (elim exE conjE) (rule that)
  have ms: "mapped v1 s1" "length (vpage v1 s1) = PAGE_SIZE"
    using chain_repD(4) [OF v1(6)] chain_page [OF v1(2,6)] by simp_all
  have cap: "0 < ENTRIES_PER_PAGE" by (simp add: li_sizes)
  define d where "d = write_count 1 (li_write_entry 0 rid (vpage v1 s1))"
  have d: "length d = PAGE_SIZE" "read_next d = next_in v1 s1" "rids.cells_of d = [rid]"
    using rids.wr_length [OF ms(2) cap] rids.next_wr [OF ms(2) cap] rids.cells_first [OF ms(2) cap] by (simp_all add: d_def)
  define v2 where "v2 = vput s1 d v1"
  have sn: "s1 \<notin> set (h # fs)" using chain_repD(3) [OF v1(6)] by simp
  have c2: "chain_rep v2 ?ps" and o2: "ordered v2 s1 sp (h # fs)"
    using chain_put [OF v1(6,7), of s1 d] d(2) sn by (simp_all add: v2_def)
  have ok2: "vol_ok v2" unfolding v2_def by (rule vol_ok_vput [OF v1(2) d(1)])
  have inR: "p \<notin> set (C t)" if "p \<in> set R" for p using D(6) [of p t] that by blast
  have keep2: "vpage v2 p = vpage v p" if "p \<notin> set (C t)" for p
    using v1(5) that unfolding ct(1) by (auto simp: v2_def)
  have r2: "roots_rep v2 R (heads C)"
    by (rule roots_rep_cong [OF D(3)]) (use inR keep2 v1(3,4) roots_repD(3) [OF D(3)] in \<open>auto simp: v2_def\<close>)
  have dom: "t \<in> dom (heads C)" using ct by auto
  obtain v' where v': "db_does (set_head t s1) v2 (Ok ()) v'" "roots_rep v' R ((heads C)(t \<mapsto> s1))" "vol_ok v'"
      "vhdr v' = vhdr v2" "vcount v' = vcount v2" "\<forall>p. p \<notin> set R \<longrightarrow> vpage v' p = vpage v2 p"
    using set_head_known [OF ok2 r2 dom, of s1] by (elim exE conjE) (rule that)
  have own: "vpage v' p = vpage v2 p" if "p \<in> set ?ps" for p using v'(6) inR that set_ps by blast
  have "db_does (li_add_new t rid) v (Ok ()) v'"
    unfolding li_add_new_def
    apply (rule db.does_bnd [OF head_of_chain [OF rep]])
    unfolding ct(1) list.case option.case
    apply (rule db.does_bnd [OF db.does_read [OF mh(1)]])
    unfolding li_read_count_live(1) Let_def full if_not_P [OF less_irrefl]
    apply (rule db.does_bnd [OF v1(1)])
    unfolding option.case
    apply (rule db.does_bnd [OF db.does_read [OF ms(1)]])
    unfolding d_def [symmetric]
    apply (rule db.does_bnd [OF db.does_write [OF ms(1) d(1)]])
    unfolding v2_def [symmetric] by (rule v'(1))
  moreover have "li_change 0 v R C t (add_mset rid (mset (li_entries v (C t)))) v' R ?ps"
  proof (rule li_changeI_same [OF rep v'(3) _ _ refl _ set_ps])
    show "roots_rep v' R ((heads C)(t \<mapsto> hd ?ps))" using v'(2) by simp
    show "chain_rep v' ?ps" by (rule chain_rep_cong [OF c2]) (use chain_repD(4) [OF c2] own v'(5) in auto)
    show "ordered v' s1 sp (h # fs)" by (rule ordered_cong [OF o2]) (use own in auto)
    have e: "li_entries v' ps = li_entries v ps" if "set ps \<subseteq> set (C t)" "s1 \<notin> set ps" for ps
      by (rule li_entries_cong) (use that own set_ps v1(8) ct(1) in \<open>auto simp: v2_def\<close>)
    have s1: "rids.cells_of (vpage v' s1) = [rid]" using own [of s1] d(3) by (simp add: v2_def)
    have old: "rids.cells_of (vpage v s1) = []" using ct(2) by (simp add: ordered_def cell_list_def)
    have "li_entries v' (sp @ h # fs) = li_entries v (sp @ h # fs)"
      by (rule e) (use set_ps chain_repD(3) [OF c] in auto)
    then show "mset (li_entries v' ?ps) = add_mset rid (mset (li_entries v (C t)))"
      unfolding ct(1) by (simp add: li_entries_append li_entries_Cons s1 old)
    show "vcount v' = vcount v" "vhdr v' = vhdr v" using v'(4,5) v1(3,4) by (simp_all add: v2_def)
    show "vpage v' p = vpage v p" if "p \<notin> set (C t)" "p \<notin> set R" for p using v'(6) that(2) keep2 [OF that(1)] by simp
  qed
  ultimately show ?thesis using v'(5) v1(4) by (intro exI [of _ v']) (simp add: v2_def)
qed

text \<open>Every page of the chain is full: the file grows by one page.\<close>

lemma add_in_new_page_does:
  assumes rep: "li_rep v R C" and ct: "C t = h # fs" "ordered v h [] fs" and full: "cnt v h = ENTRIES_PER_PAGE"
    and room: "Suc (vcount v) < 2 ^ 32"
  shows "\<exists>v' ps. db_does (li_add_new t rid) v (Ok ()) v' \<and> length ps = Suc (length (C t)) \<and>
    li_change 1 v R C t (add_mset rid (mset (li_entries v (C t)))) v' R ps"
proof -
  note D = li_repD [OF rep]
  have c: "chain_rep v (h # fs)" using D(4) [of t] ct(1) by simp
  have mh: "mapped v h" using chain_repD(4) [OF c] by simp
  define n where "n = (of_nat (vcount v) :: u32)"
  define v1 where "v1 = vappend (write_next h (first_entry_page rid)) v"
  have nx: "h = (case h # fs of [] \<Rightarrow> NO_ROOT | p # _ \<Rightarrow> p)" by simp
  have "\<forall>p\<in>set (h # fs). cnt v p = ENTRIES_PER_PAGE" using full ct(2) by (simp add: ordered_def)
  note A = chain_push [OF D(1,2) room c nx this n_def v1_def]
  have mR: "mapped v p" "p \<noteq> n" if "p \<in> set R" for p
    using roots_repD(3) [OF D(3) that] A(3) by metis+
  have roots1: "roots_rep v1 R (heads C)"
    by (rule roots_rep_cong [OF D(3)]) (use A(7,8,9) mR in \<open>auto simp: less_SucI\<close>)
  have dom: "t \<in> dom (heads C)" using ct by auto
  obtain v' where v': "db_does (set_head t n) v1 (Ok ()) v'" "roots_rep v' R ((heads C)(t \<mapsto> n))" "vol_ok v'"
      "vhdr v' = vhdr v1" "vcount v' = vcount v1" "\<forall>p. p \<notin> set R \<longrightarrow> vpage v' p = vpage v1 p"
    using set_head_known [OF A(2) roots1 dom, of n] by (elim exE conjE) (rule that)
  let ?ps = "n # h # fs"
  have psR: "p \<notin> set R" if "p \<in> set ?ps" for p using that mR(2) D(6) [of p t] ct(1) by auto
  have own: "vpage v' p = vpage v1 p" if "p \<in> set ?ps" for p using v'(6) psR [OF that] by blast
  have "db_does (li_add_new t rid) v (Ok ()) v'"
    unfolding li_add_new_def
    apply (rule db.does_bnd [OF head_of_chain [OF rep]])
    unfolding ct(1) list.case option.case
    apply (rule db.does_bnd [OF db.does_read [OF mh(1)]])
    unfolding li_read_count_live(1) Let_def full if_not_P [OF less_irrefl]
    apply (rule db.does_bnd [OF no_spare [OF D(1) c ct(2)]])
    unfolding option.case
    by (rule db.does_bnd [OF A(1)], rule v'(1))
  moreover have "li_change 1 v R C t (add_mset rid (mset (li_entries v (C t)))) v' R ?ps"
  proof (rule li_changeI [OF rep v'(3), where h = n and sp = "[]" and fs = "h # fs" and r = "label_root v"])
    show "roots_rep v' R ((heads C)(t \<mapsto> hd ?ps))" using v'(2) by simp
    show "chain_rep v' ?ps" by (rule chain_rep_cong [OF A(4)]) (use chain_repD(4) [OF A(4)] own v'(5) in auto)
    show "ordered v' n [] (h # fs)" by (rule ordered_cong [OF A(5)]) (use own in auto)
    show "mset (li_entries v' ?ps) = add_mset rid (mset (li_entries v (C t)))"
      using li_entries_cong [of ?ps v' v1] own A(6) ct(1) by simp
    have "vpage v' p = vpage v p" if "mapped v p" "p \<notin> set R" for p
    proof -
      have "p \<noteq> n" using A(3) that(1) by metis
      then show ?thesis using v'(6) that(2) A(9) by simp
    qed
    then show "own_frame 1 v (set R \<union> set (C t)) v' (set R \<union> set ?ps)"
      using A(3,7,8) v'(4,5) ct(1) by (auto intro!: own_frameI)
    show "vhdr v' = (vhdr v)\<lparr>label_index_root := label_root v\<rparr>" using v'(4) A(7) by simp
  qed (use psR in auto)
  ultimately show ?thesis using ct(1) by (intro exI [of _ v'] exI [of _ ?ps]) simp
qed

text \<open>All cases: the chain gets longer only when its pages are all full.\<close>

definition li_growth :: "vol \<Rightarrow> u32 list \<Rightarrow> vol \<Rightarrow> u32 list \<Rightarrow> bool" where
  "li_growth v ps v' ps' \<longleftrightarrow> length ps' = length ps \<and> vcount v' = vcount v \<or>
     length ps' = Suc (length ps) \<and> length (li_entries v ps) = ENTRIES_PER_PAGE * length ps \<and>
     length (li_entries v' ps') = Suc (length (li_entries v ps))"

lemma li_change_length: "li_change k v R C t M v' R' ps \<Longrightarrow> length (li_entries v' ps) = size M"
  by (auto simp: li_change_def)

lemma full_entries: "\<forall>p\<in>set ps. cnt v p = ENTRIES_PER_PAGE \<Longrightarrow> length (li_entries v ps) = ENTRIES_PER_PAGE * length ps"
  by (induction ps) (simp_all add: li_entries_def)

lemma li_add_new_does:
  assumes rep: "li_rep v R C" and room: "vcount v + 3 < 2 ^ 32"
  shows "\<exists>v' R' ps. db_does (li_add_new t rid) v (Ok ()) v' \<and> li_growth v (C t) v' ps \<and>
    li_change 3 v R C t (add_mset rid (mset (li_entries v (C t)))) v' R' ps"
proof (cases "C t = []")
  case True
  from add_first_does [OF rep True room, of rid] obtain v' R' ps where v': "db_does (li_add_new t rid) v (Ok ()) v'"
      "length ps = 1" "li_change 3 v R C t {#rid#} v' R' ps" by blast
  then show ?thesis using True by (intro exI [of _ v'] exI [of _ R'] exI [of _ ps])
    (use li_change_length [OF v'(3)] in \<open>simp add: li_growth_def, simp add: li_entries_def\<close>)
next
  case False
  obtain h sp fs where ct: "C t = h # sp @ fs" "ordered v h sp fs" using li_repD(5) [OF rep False] by blast
  consider "cnt v h < ENTRIES_PER_PAGE" | "cnt v h = ENTRIES_PER_PAGE" "sp = []" | s1 sp' where "cnt v h = ENTRIES_PER_PAGE" "sp = s1 # sp'"
    using live_count_le [of ENTRIES_PER_PAGE "vpage v h"] by (cases sp) (auto simp: le_less)
  then show ?thesis
  proof cases
    case 1
    from add_in_head_does [OF rep ct this, of rid] obtain v' where v': "db_does (li_add_new t rid) v (Ok ()) v'" "vcount v' = vcount v"
        "li_change 0 v R C t (add_mset rid (mset (li_entries v (C t)))) v' R (C t)" by blast
    then show ?thesis using li_change_mono [OF v'(3), of 3] by (intro exI [of _ v'] exI [of _ R] exI [of _ "C t"]) (simp add: li_growth_def)
  next
    case 2
    have ct': "C t = h # fs" "ordered v h [] fs" using ct 2(2) by simp_all
    have r: "Suc (vcount v) < 2 ^ 32" using room by simp
    from add_in_new_page_does [OF rep ct' 2(1) r, of rid] obtain v' ps where v': "db_does (li_add_new t rid) v (Ok ()) v'"
        "length ps = Suc (length (C t))" "li_change 1 v R C t (add_mset rid (mset (li_entries v (C t)))) v' R ps" by blast
    moreover have "length (li_entries v (C t)) = ENTRIES_PER_PAGE * length (C t)"
      by (rule full_entries) (use ct' 2(1) in \<open>simp add: ordered_def\<close>)
    ultimately show ?thesis using li_change_mono [OF v'(3), of 3] li_change_length [OF v'(3)] by (intro exI [of _ v'] exI [of _ R] exI [of _ ps]) (simp add: li_growth_def)
  next
    case 3
    from add_in_spare_does [OF rep ct [unfolded 3(2)] 3(1), of rid] obtain v' where v': "db_does (li_add_new t rid) v (Ok ()) v'" "vcount v' = vcount v"
        "li_change 0 v R C t (add_mset rid (mset (li_entries v (C t)))) v' R (s1 # sp' @ h # fs)" by blast
    then show ?thesis using li_change_mono [OF v'(3), of 3] ct(1) 3(2)
      by (intro exI [of _ v'] exI [of _ R] exI [of _ "s1 # sp' @ h # fs"]) (simp add: li_growth_def)
  qed
qed

lemma has_entry_visits: "rid \<notin> set (li_entries v ps) \<Longrightarrow> visits (has_entry rid) v ps () = Some ()"
proof (induction ps)
  case (Cons p ps)
  then have "rid \<notin> set (rids.cells_of (vpage v p))" "rid \<notin> set (li_entries v ps)" by (simp_all add: li_entries_Cons)
  then show ?case using Cons.IH by (auto simp: has_entry_def li_read_count_live(1) in_cell_list)
qed simp

lemma li_add_does:
  assumes rep: "li_rep v R C" and room: "vcount v + 3 < 2 ^ 32"
  shows "\<exists>v' R' ps. db_does (li_add t rid) v (Ok ()) v' \<and> li_growth v (C t) v' ps \<and>
    li_change 3 v R C t (if rid \<in> set (li_entries v (C t)) then mset (li_entries v (C t)) else add_mset rid (mset (li_entries v (C t)))) v' R' ps"
proof -
  note D = li_repD [OF rep]
  obtain v' R' ps where v': "db_does (li_add_new t rid) v (Ok ()) v'" "li_growth v (C t) v' ps"
      "li_change 3 v R C t (add_mset rid (mset (li_entries v (C t)))) v' R' ps"
    using li_add_new_does [OF rep room, of t rid] by (elim exE conjE) (rule that)
  have run: "db_does (li_add t rid) v (Ok ()) w"
    if "db_does (walk_chain (vcount v) (has_entry rid) (\<lambda>_ _ _. li_add_new t rid) (hd (C t)) ()) v (Ok ()) w" "C t \<noteq> []" for w
  proof -
    note walk = that
    obtain h hs where h: "C t = h # hs" using walk(2) by (cases "C t") auto
    show ?thesis
      unfolding li_add_def
      apply (rule db.does_bnd [OF head_of_chain [OF rep]])
      unfolding h list.case option.case
      by (rule db.does_bnd [OF does_page_count]) (use walk(1) h in \<open>simp add: unat_page_count [OF D(1)]\<close>)
  qed
  consider "C t = []" | "C t \<noteq> []" "rid \<in> set (li_entries v (C t))" | "C t \<noteq> []" "rid \<notin> set (li_entries v (C t))" by blast
  then show ?thesis
  proof cases
    case 1
    have "db_does (li_add t rid) v (Ok ()) v'"
      unfolding li_add_def
      apply (rule db.does_bnd [OF head_of_chain [OF rep]])
      unfolding 1 list.case option.case by (rule v'(1))
    then show ?thesis using v'(2,3) 1 by (intro exI [of _ v'] exI [of _ R'] exI [of _ ps]) (simp add: li_entries_def)
  next
    case 2
    obtain as p bs where p: "C t = as @ p # bs" "rid \<in> set (rids.cells_of (vpage v p))" "rid \<notin> set (li_entries v as)"
      using first_page_with_rid [OF 2(2)] by blast
    have "has_entry rid p (vpage v p) () = Inl (ret ())"
      using p(2) by (auto simp: has_entry_def li_read_count_live(1) in_cell_list)
    then have "db_does (walk_chain (vcount v) (has_entry rid) (\<lambda>_ _ _. li_add_new t rid) (hd (C t)) ()) v (Ok ()) v"
      by (rule chain_walk_stops [OF D(1) D(4) [OF 2(1)] p(1) has_entry_visits [OF p(3)]]) simp
    from run [OF this 2(1)] show ?thesis
      using li_change_mono [OF li_change_none [OF rep, of t], of 3] 2(2)
      by (intro exI [of _ v] exI [of _ R] exI [of _ "C t"]) (simp add: li_growth_def)
  next
    case 3
    obtain as z where z: "C t = as @ [z]" using 3(1) by (cases "C t" rule: rev_cases) auto
    have "db_does (walk_chain (vcount v) (has_entry rid) (\<lambda>_ _ _. li_add_new t rid) (hd (C t)) ()) v (Ok ()) v'"
      by (rule chain_walk_ends [OF D(1) D(4) [OF 3(1)] z has_entry_visits [OF 3(2)] v'(1)])
    from run [OF this 3(1)] show ?thesis
      using v'(2,3) 3(2) by (intro exI [of _ v'] exI [of _ R'] exI [of _ ps]) simp
  qed
qed

section \<open>Sequences of calls\<close>

datatype label_call = LabelAdd u16 record_id | LabelAddNew u16 record_id | LabelRemove u16 record_id
  | LabelGet u16 | LabelCount u16

datatype label_reply = LabelDone "unit res" | LabelIds "record_id list res" | LabelTotal "u64 res"

fun label_step :: "label_call \<Rightarrow> database_file \<Rightarrow> label_reply \<times> database_file" where
  "label_step (LabelAdd t rid) db = (case li_add t rid db of (r, db') \<Rightarrow> (LabelDone r, db'))"
| "label_step (LabelAddNew t rid) db = (case li_add_new t rid db of (r, db') \<Rightarrow> (LabelDone r, db'))"
| "label_step (LabelRemove t rid) db = (case li_remove t rid db of (r, db') \<Rightarrow> (LabelDone r, db'))"
| "label_step (LabelGet t) db = (case li_get t db of (r, db') \<Rightarrow> (LabelIds r, db'))"
| "label_step (LabelCount t) db = (case li_count t db of (r, db') \<Rightarrow> (LabelTotal r, db'))"

fun run_labels :: "label_call list \<Rightarrow> database_file \<Rightarrow> label_reply list \<times> database_file" where
  "run_labels [] db = ([], db)"
| "run_labels (c # cs) db =
     (case label_step c db of (r, db') \<Rightarrow> (case run_labels cs db' of (rs, db'') \<Rightarrow> (r # rs, db'')))"

text \<open>The specification: each type has a multiset of record ids.\<close>

type_synonym label_sets = "u16 \<Rightarrow> record_id multiset"

fun labels_after :: "label_call \<Rightarrow> label_sets \<Rightarrow> label_sets" where
  "labels_after (LabelAdd t rid) E = E(t := if rid \<in># E t then E t else add_mset rid (E t))"
| "labels_after (LabelAddNew t rid) E = E(t := add_mset rid (E t))"
| "labels_after (LabelRemove t rid) E = E(t := E t - {#rid#})"
| "labels_after (LabelGet t) E = E"
| "labels_after (LabelCount t) E = E"

fun label_answer :: "label_sets \<Rightarrow> label_call \<Rightarrow> label_reply \<Rightarrow> bool" where
  "label_answer E (LabelGet t) r \<longleftrightarrow> (\<exists>rs. r = LabelIds (Ok rs) \<and> mset rs = E t)"
| "label_answer E (LabelCount t) r \<longleftrightarrow> r = LabelTotal (Ok (of_nat (size (E t))))"
| "label_answer E _ r \<longleftrightarrow> r = LabelDone (Ok ())"

fun label_answers :: "label_sets \<Rightarrow> label_call list \<Rightarrow> label_reply list \<Rightarrow> bool" where
  "label_answers E [] rs \<longleftrightarrow> rs = []"
| "label_answers E (c # cs) rs \<longleftrightarrow> (\<exists>r rs'. rs = r # rs' \<and> label_answer E c r \<and> label_answers (labels_after c E) cs rs')"

text \<open>The index on disk, for the multisets \<open>E\<close>; no chain has more pages than \<open>most\<close> allows its type.\<close>

definition label_rep :: "vol \<Rightarrow> u32 list \<Rightarrow> (u16 \<Rightarrow> u32 list) \<Rightarrow> label_sets \<Rightarrow> bool" where
  "label_rep v R C E \<longleftrightarrow> li_rep v R C \<and> (\<forall>t. mset (li_entries v (C t)) = E t)"

lemma label_repD:
  assumes "label_rep v R C E"
  shows "li_rep v R C" "mset (li_entries v (C t)) = E t" "length (li_entries v (C t)) = size (E t)"
    "set (li_entries v (C t)) = set_mset (E t)"
proof -
  show 1: "li_rep v R C" "mset (li_entries v (C t)) = E t" using assms by (simp_all add: label_rep_def)
  show "length (li_entries v (C t)) = size (E t)" "set (li_entries v (C t)) = set_mset (E t)"
    unfolding 1(2) [symmetric] by simp_all
qed

lemma label_rep_change:
  assumes "label_rep v R C E" "li_change k v R C t M v' R' ps"
  shows "label_rep v' R' (C(t := ps)) (E(t := M))" "own_frame k v (li_own R C) v' (li_own R' (C(t := ps)))"
  using assms(1) li_change_own [OF assms(2)] assms(2) by (auto simp: label_rep_def li_change_def)

text \<open>
  One call: it is answered from the multisets, and a chain becomes longer only by one page, when every
  page of it was full.
\<close>

definition chains_grow :: "label_sets \<Rightarrow> label_sets \<Rightarrow> (u16 \<Rightarrow> u32 list) \<Rightarrow> (u16 \<Rightarrow> u32 list) \<Rightarrow> bool" where
  "chains_grow E E' C C' \<longleftrightarrow> (\<forall>t. length (C' t) = length (C t) \<or>
     length (C' t) = Suc (length (C t)) \<and> size (E t) = ENTRIES_PER_PAGE * length (C t) \<and> size (E' t) = Suc (size (E t)))"

lemma label_step_change:
  assumes rep: "label_rep v R C E" and ch: "li_change 3 v R C t M v' R' ps" and grow: "li_growth v (C t) v' ps"
    and E': "labels_after c E = E(t := M)"
  shows "\<exists>R' C'. label_rep v' R' C' (labels_after c E) \<and> own_frame 3 v (li_own R C) v' (li_own R' C') \<and>
    chains_grow E (labels_after c E) C C'"
  unfolding E'
  using label_rep_change [OF rep ch] grow label_repD(3) [OF rep, of t] li_change_length [OF ch]
  by (intro exI [of _ R'] exI [of _ "C(t := ps)"]) (auto simp: chains_grow_def li_growth_def)

lemma label_step_rep:
  assumes db: "db_rep db v" and rep: "label_rep v R C E" and room: "vcount v + 3 < 2 ^ 32"
  shows "\<exists>r db' v' R' C'. label_step c db = (r, db') \<and> label_answer E c r \<and> db_rep db' v' \<and>
    label_rep v' R' C' (labels_after c E) \<and> own_frame 3 v (li_own R C) v' (li_own R' C') \<and>
    chains_grow E (labels_after c E) C C'"
proof -
  note L = label_repD [OF rep]
  have same: "own_frame 3 v (li_own R C) v (li_own R C)" "chains_grow E E C C" by (simp_all add: chains_grow_def)
  show ?thesis
  proof (cases c)
    case (LabelAdd t rid)
    from li_add_does [OF L(1) room, of t rid] obtain v' R' ps where d: "db_does (li_add t rid) v (Ok ()) v'" "li_growth v (C t) v' ps"
        "li_change 3 v R C t (if rid \<in> set (li_entries v (C t)) then mset (li_entries v (C t)) else add_mset rid (mset (li_entries v (C t)))) v' R' ps"
      by (elim exE conjE) (rule that)
    obtain db' where "li_add t rid db = (Ok (), db')" "db_rep db' v'" using d(1) db unfolding does_def by blast
    then show ?thesis using label_step_change [OF rep d(3,2), of c] LabelAdd L(2,4) by fastforce
  next
    case (LabelAddNew t rid)
    from li_add_new_does [OF L(1) room, of t rid] obtain v' R' ps where d: "db_does (li_add_new t rid) v (Ok ()) v'" "li_growth v (C t) v' ps"
        "li_change 3 v R C t (add_mset rid (mset (li_entries v (C t)))) v' R' ps"
      by (elim exE conjE) (rule that)
    obtain db' where "li_add_new t rid db = (Ok (), db')" "db_rep db' v'" using d(1) db unfolding does_def by blast
    then show ?thesis using label_step_change [OF rep d(3,2), of c] LabelAddNew L(2) by fastforce
  next
    case (LabelRemove t rid)
    from li_remove_does [OF L(1), of t rid] obtain v' ps where d: "db_does (li_remove t rid) v (Ok ()) v'" "length ps = length (C t)"
        "li_change 0 v R C t (mset (li_entries v (C t)) - {#rid#}) v' R ps"
      by (elim exE conjE) (rule that)
    have "vcount v' = vcount v" using d(3) by (simp add: li_change_def own_frame_def)
    then have g: "li_growth v (C t) v' ps" using d(2) by (simp add: li_growth_def)
    obtain db' where "li_remove t rid db = (Ok (), db')" "db_rep db' v'" using d(1) db unfolding does_def by blast
    moreover have "li_change 3 v R C t (mset (li_entries v (C t)) - {#rid#}) v' R ps" by (rule li_change_mono [OF d(3)]) simp
    ultimately show ?thesis using label_step_change [OF rep _ g, of _ R c] LabelRemove L(2) by fastforce
  next
    case (LabelGet t)
    obtain db' where "li_get t db = (Ok (li_entries v (C t)), db')" "db_rep db' v"
      using li_get_does [OF L(1), of t] db unfolding does_def by blast
    then show ?thesis using LabelGet rep same L(2) by fastforce
  next
    case (LabelCount t)
    obtain db' where "li_count t db = (Ok (of_nat (length (li_entries v (C t)))), db')" "db_rep db' v"
      using li_count_does [OF L(1), of t] db unfolding does_def by blast
    then show ?thesis using LabelCount rep same L(3) by fastforce
  qed
qed

lemma run_labels_rep:
  assumes "db_rep db v" "label_rep v R C E" "vcount v + 3 * length cs < 2 ^ 32"
  shows "\<exists>rs db' v' R' C'. run_labels cs db = (rs, db') \<and> label_answers E cs rs \<and> db_rep db' v' \<and>
    label_rep v' R' C' (fold labels_after cs E) \<and> own_frame (3 * length cs) v (li_own R C) v' (li_own R' C')"
  using assms
proof (induction cs arbitrary: db v R C E)
  case Nil
  then show ?case by (intro exI [of _ "[]"] exI [of _ db] exI [of _ v] exI [of _ R] exI [of _ C]) simp
next
  case (Cons c cs)
  have "vcount v + 3 < 2 ^ 32" using Cons.prems(3) by simp
  from label_step_rep [OF Cons.prems(1,2) this, of c] obtain r db1 v1 R1 C1 where s: "label_step c db = (r, db1)"
      "label_answer E c r" "db_rep db1 v1" "label_rep v1 R1 C1 (labels_after c E)" "own_frame 3 v (li_own R C) v1 (li_own R1 C1)"
    by (elim exE conjE) (rule that)
  have "vcount v1 + 3 * length cs < 2 ^ 32" using s(5) Cons.prems(3) by (simp add: own_frame_def)
  from Cons.IH [OF s(3,4) this] obtain rs db' v' R' C' where t: "run_labels cs db1 = (rs, db')"
      "label_answers (labels_after c E) cs rs" "db_rep db' v'" "label_rep v' R' C' (fold labels_after cs (labels_after c E))"
      "own_frame (3 * length cs) v1 (li_own R1 C1) v' (li_own R' C')" by (elim exE conjE) (rule that)
  have "own_frame (3 * length (c # cs)) v (li_own R C) v' (li_own R' C')" using own_frame_trans [OF s(5) t(5)] by simp
  then show ?case using s(1,2) t by (intro exI [of _ "r # rs"] exI [of _ db'] exI [of _ v'] exI [of _ R'] exI [of _ C']) simp
qed

text \<open>The sizes of the multiset of a type during a sequence of calls.\<close>

fun sizes_below :: "nat \<Rightarrow> u16 \<Rightarrow> label_call list \<Rightarrow> label_sets \<Rightarrow> bool" where
  "sizes_below m t [] E \<longleftrightarrow> size (E t) \<le> m"
| "sizes_below m t (c # cs) E \<longleftrightarrow> size (E t) \<le> m \<and> sizes_below m t cs (labels_after c E)"

lemma sizes_below_now: "sizes_below m t cs E \<Longrightarrow> size (E t) \<le> m"
  by (cases cs) simp_all

lemma chains_grow_bound:
  assumes "chains_grow E E' C C'" "length (C t) \<le> n" "size (E' t) \<le> ENTRIES_PER_PAGE * n"
  shows "length (C' t) \<le> n"
proof (cases "length (C' t) = length (C t)")
  case False
  then have "length (C' t) = Suc (length (C t))" "Suc (ENTRIES_PER_PAGE * length (C t)) \<le> ENTRIES_PER_PAGE * n"
    using assms unfolding chains_grow_def by (metis, metis)
  then show ?thesis using mult_less_cancel1 [of ENTRIES_PER_PAGE "length (C t)" n] by linarith
qed (use assms(2) in simp)

lemma run_labels_bound:
  assumes "db_rep db v" "label_rep v R C E" "vcount v + 3 * length cs < 2 ^ 32" "length (C t) \<le> n"
    "sizes_below (ENTRIES_PER_PAGE * n) t cs E"
  shows "\<exists>rs db' v' R' C'. run_labels cs db = (rs, db') \<and> db_rep db' v' \<and>
    label_rep v' R' C' (fold labels_after cs E) \<and> length (C' t) \<le> n"
  using assms
proof (induction cs arbitrary: db v R C E)
  case Nil
  then show ?case by (intro exI [of _ "[]"] exI [of _ db] exI [of _ v] exI [of _ R] exI [of _ C]) simp
next
  case (Cons c cs)
  have "vcount v + 3 < 2 ^ 32" using Cons.prems(3) by simp
  from label_step_rep [OF Cons.prems(1,2) this, of c] obtain r db1 v1 R1 C1 where s: "label_step c db = (r, db1)"
      "db_rep db1 v1" "label_rep v1 R1 C1 (labels_after c E)" "own_frame 3 v (li_own R C) v1 (li_own R1 C1)"
      "chains_grow E (labels_after c E) C C1"
    by (elim exE conjE) (rule that)
  have "vcount v1 + 3 * length cs < 2 ^ 32" using s(4) Cons.prems(3) by (simp add: own_frame_def)
  moreover have below: "sizes_below (ENTRIES_PER_PAGE * n) t cs (labels_after c E)" using Cons.prems(5) by simp
  ultimately obtain rs db' v' R' C' where t: "run_labels cs db1 = (rs, db')" "db_rep db' v'"
      "label_rep v' R' C' (fold labels_after cs (labels_after c E))" "length (C' t) \<le> n"
    using Cons.IH [OF s(2,3) _ chains_grow_bound [OF s(5) Cons.prems(4) sizes_below_now [OF below]]] by blast
  then show ?case using s(1) by (intro exI [of _ "r # rs"] exI [of _ db'] exI [of _ v'] exI [of _ R'] exI [of _ C']) simp
qed

section \<open>Properties\<close>

text \<open>
  C20: the label index implements a multiset of record ids per type on every sequence of calls: adding
  puts in one entry (\<open>add\<close> only if it is absent), removing takes one out, \<open>get\<close> returns exactly
  the entries and \<open>count\<close> their number, however often removals empty pages, move the last entry of
  another page into the hole and turn pages into spares. No call fails, and no page of the file outside
  the index changes but the header page.
\<close>

theorem label_index_is_multiset:
  assumes "db_rep db v" "label_rep v R C E" "vcount v + 3 * length cs < 2 ^ 32"
  shows "\<exists>rs db' v' R' C'. run_labels cs db = (rs, db') \<and> label_answers E cs rs \<and> db_rep db' v' \<and>
    label_rep v' R' C' (fold labels_after cs E) \<and>
    (\<forall>p. mapped v p \<and> p \<noteq> 0 \<and> p \<notin> li_own R C \<longrightarrow> vpage v' p = vpage v p)"
  using run_labels_rep [OF assms] unfolding own_frame_def by metis

lemma fresh_labels: "label_rep fresh_vol [] (\<lambda>_. []) (\<lambda>_. {#})"
  using fresh_vol_ok
  by (simp add: label_rep_def li_rep_def roots_rep_def root_slots_def li_entries_def fresh_vol_def header_new_def NO_ROOT_def NO_DIR_ROOT_def)

theorem label_index_is_multiset_witness:
  "\<exists>db'. run_labels [LabelAdd 1 (rid_new 7 0), LabelAdd 1 (rid_new 7 0), LabelCount 1, LabelRemove 1 (rid_new 7 0), LabelGet 1] create_in_memory =
    ([LabelDone (Ok ()), LabelDone (Ok ()), LabelTotal (Ok 1), LabelDone (Ok ()), LabelIds (Ok [])], db')"
proof -
  let ?cs = "[LabelAdd 1 (rid_new 7 0), LabelAdd 1 (rid_new 7 0), LabelCount 1, LabelRemove 1 (rid_new 7 0), LabelGet 1]"
  have "vcount fresh_vol + 3 * length ?cs < 2 ^ 32" by (simp add: fresh_vol_def)
  from label_index_is_multiset [OF create_in_memory_rep fresh_labels this]
  obtain rs db' where "run_labels ?cs create_in_memory = (rs, db')" "label_answers (\<lambda>_. {#}) ?cs rs" by blast
  then show ?thesis by auto
qed

text \<open>
  C22: pages that ran empty are taken again before the file grows. A type whose entries never exceed what
  \<open>n\<close> pages hold during a sequence of calls, however many are added and removed in it, never has
  more than \<open>n\<close> pages.
\<close>

theorem label_index_reuses_pages:
  assumes "db_rep db v" "label_rep v R C E" "vcount v + 3 * length cs < 2 ^ 32" "length (C t) \<le> n"
    "sizes_below (ENTRIES_PER_PAGE * n) t cs E"
  shows "\<exists>rs db' v' R' C'. run_labels cs db = (rs, db') \<and> db_rep db' v' \<and>
    label_rep v' R' C' (fold labels_after cs E) \<and> length (C' t) \<le> n"
  using run_labels_bound [OF assms] .

theorem label_index_reuses_pages_witness:
  "\<exists>rs db' v' R' C'. run_labels [LabelAddNew 1 (rid_new 7 0), LabelRemove 1 (rid_new 7 0), LabelAddNew 1 (rid_new 7 1)] create_in_memory = (rs, db') \<and>
    db_rep db' v' \<and> label_rep v' R' C' ((\<lambda>_. {#})(1 := {#rid_new 7 1#})) \<and> length (C' 1) \<le> 1"
proof -
  let ?cs = "[LabelAddNew 1 (rid_new 7 0), LabelRemove 1 (rid_new 7 0), LabelAddNew 1 (rid_new 7 1)]"
  have "vcount fresh_vol + 3 * length ?cs < 2 ^ 32" by (simp add: fresh_vol_def)
  moreover have "sizes_below (ENTRIES_PER_PAGE * 1) 1 ?cs (\<lambda>_. {#})" by (simp add: li_sizes)
  moreover have "fold labels_after ?cs (\<lambda>_. {#}) = (\<lambda>_. {#})(1 := {#rid_new 7 1#})" by auto
  ultimately show ?thesis
    using label_index_reuses_pages [OF create_in_memory_rep fresh_labels, where cs = ?cs and t = 1 and n = 1] by simp
qed

end
