(* ===== verification/Values.thy ===== *)
theory Values
  imports Property_Store
begin

text \<open>
  The values of properties: the tagged encoding of \<^verbatim>\<open>storage/value.rs\<close> and the property maps
  on top of its byte layer.

  \<^verbatim>\<open>serde_json\<close> and \<^verbatim>\<open>rmp_serde\<close> are libraries. A JSON number is therefore a type
  parameter, and the calls on numbers and the MessagePack codecs are the fields of a record that the
  definitions take as an argument; what is relied on is stated where it is used. A Rust \<open>String\<close> is a
  HOL \<open>string\<close>, one character for each byte of its UTF-8 form; a \<open>HashMap\<close> is the list of its entries
  in iteration order, with distinct keys.
\<close>

section \<open>JSON values and the libraries\<close>

datatype 'n json =
    JNull
  | JBool bool
  | JNumber 'n
  | JString string
  | JArray "'n json list"
  | JObject "(string \<times> 'n json) list"

type_synonym 'n props = "(string \<times> 'n json) list"

record 'n lib =
  as_i64 :: "'n \<Rightarrow> u64 option"
  is_u64 :: "'n \<Rightarrow> bool"
  as_f64 :: "'n \<Rightarrow> u64 option"
  from_i64 :: "u64 \<Rightarrow> 'n"
  from_f64 :: "u64 \<Rightarrow> 'n option"
  value_to_vec :: "'n json \<Rightarrow> string + bytes"
  value_from_slice :: "bytes \<Rightarrow> string + 'n json"
  props_to_vec :: "'n props \<Rightarrow> string + bytes"
  props_from_slice :: "bytes \<Rightarrow> string + 'n props"
  labels_to_vec :: "u16 list \<Rightarrow> string + bytes"
  labels_from_slice :: "bytes \<Rightarrow> string + u16 list"
  value_to_string :: "'n json \<Rightarrow> string"
  num_repr :: "'n \<Rightarrow> 'n"

text \<open>
  The operator \<open>==\<close> of \<open>serde_json::Value\<close>. Its numbers implement \<open>Eq\<close>, so their \<open>==\<close> is an equivalence; the
  library gives it by a representative of each class, \<open>num_repr\<close>. It is coarser than identity: the floats
  \<open>0.0\<close> and \<open>-0.0\<close> are equal and have different bytes. Other values are equal when they have the same
  shape and equal numbers; an object is a \<open>BTreeMap\<close>, whose entries are in the order of its keys.
\<close>

definition json_eq :: "'n lib \<Rightarrow> 'n json \<Rightarrow> 'n json \<Rightarrow> bool" where
  "json_eq L a b \<longleftrightarrow> map_json (num_repr L) a = map_json (num_repr L) b"

lemma json_eq_refl [simp, intro]: "json_eq L a a"
  by (simp add: json_eq_def)

lemma json_eq_sym: "json_eq L a b \<Longrightarrow> json_eq L b a"
  by (simp add: json_eq_def)

lemma json_eq_trans: "json_eq L a b \<Longrightarrow> json_eq L b c \<Longrightarrow> json_eq L a c"
  by (simp add: json_eq_def)

text \<open>Values without numbers are equal only to themselves, in particular null.\<close>

lemma json_eq_simps [simp]:
  "json_eq L (JNumber m) (JNumber n) \<longleftrightarrow> num_repr L m = num_repr L n"
  "json_eq L (JString s) b \<longleftrightarrow> b = JString s" "json_eq L b (JString s) \<longleftrightarrow> b = JString s"
  "json_eq L (JBool t) b \<longleftrightarrow> b = JBool t" "json_eq L b (JBool t) \<longleftrightarrow> b = JBool t"
  "json_eq L JNull b \<longleftrightarrow> b = JNull" "json_eq L b JNull \<longleftrightarrow> b = JNull"
  by (cases b; auto simp: json_eq_def)+

definition some_eq :: "'n lib \<Rightarrow> 'n json option \<Rightarrow> 'n json \<Rightarrow> bool" where
  "some_eq L r value = (case r of None \<Rightarrow> False | Some stored \<Rightarrow> json_eq L stored value)"

lemma some_eq_simps [simp]: "\<not> some_eq L None value" "some_eq L (Some stored) value = json_eq L stored value"
  by (simp_all add: some_eq_def)

text \<open>\<open>map_err(|e| GraphError::SchemaError(e.to_string()))\<close>\<close>

definition schema_err :: "string + 'a \<Rightarrow> 'a res" where
  "schema_err r = (case r of Inl e \<Rightarrow> Err (SchemaError e) | Inr x \<Rightarrow> Ok x)"

lemma schema_err_simps [simp]:
  "schema_err (Inl e) = Err (SchemaError e)" "schema_err (Inr x) = Ok x"
  "schema_err r \<noteq> Inl Panicked" "schema_err r \<noteq> Inl Diverged"
  by (simp_all add: schema_err_def split: sum.splits)

section \<open>Strings as bytes\<close>

definition as_bytes :: "string \<Rightarrow> bytes" where
  "as_bytes s = map of_char s"

definition string_of :: "bytes \<Rightarrow> string" where
  "string_of bs = map (\<lambda>b. char_of (unat b)) bs"

lemma string_of_as_bytes [simp]: "string_of (as_bytes s) = s"
proof -
  have "char_of (unat (of_char c :: byte)) = c" for c :: char
  proof -
    have "unat (of_nat (of_char c :: nat) :: byte) = (of_char c :: nat)" by (simp add: unat_of_nat take_bit_nat_eq_self)
    then show ?thesis by (simp add: of_nat_of_char)
  qed
  then show ?thesis by (simp add: string_of_def as_bytes_def comp_def)
qed

lemma length_as_bytes [simp]: "length (as_bytes s) = length s"
  by (simp add: as_bytes_def)

text \<open>\<open>std::str::from_utf8\<close>: the byte sequences that Unicode calls well-formed.\<close>

definition continuation :: "byte \<Rightarrow> bool" where
  "continuation b \<longleftrightarrow> 0x80 \<le> b \<and> b \<le> 0xBF"

fun utf8_ok :: "bytes \<Rightarrow> bool" where
  "utf8_ok [] = True"
| "utf8_ok (b # bs) =
     (if b \<le> 0x7F then utf8_ok bs
      else if 0xC2 \<le> b \<and> b \<le> 0xDF then (case bs of c # cs \<Rightarrow> continuation c \<and> utf8_ok cs | _ \<Rightarrow> False)
      else if 0xE0 \<le> b \<and> b \<le> 0xEF then
        (case bs of
           c # d # ds \<Rightarrow>
             (if b = 0xE0 then 0xA0 \<le> c \<and> c \<le> 0xBF else if b = 0xED then 0x80 \<le> c \<and> c \<le> 0x9F else continuation c) \<and>
             continuation d \<and> utf8_ok ds
         | _ \<Rightarrow> False)
      else if 0xF0 \<le> b \<and> b \<le> 0xF4 then
        (case bs of
           c # d # e # es \<Rightarrow>
             (if b = 0xF0 then 0x90 \<le> c \<and> c \<le> 0xBF else if b = 0xF4 then 0x80 \<le> c \<and> c \<le> 0x8F else continuation c) \<and>
             continuation d \<and> continuation e \<and> utf8_ok es
         | _ \<Rightarrow> False)
      else False)"

definition from_utf8 :: "bytes \<Rightarrow> string option" where
  "from_utf8 bs = (if utf8_ok bs then Some (string_of bs) else None)"

section \<open>Encoding and decoding a value\<close>

definition TAG_NULL :: byte where "TAG_NULL = 0"
definition TAG_BOOL :: byte where "TAG_BOOL = 1"
definition TAG_INT :: byte where "TAG_INT = 2"
definition TAG_FLOAT :: byte where "TAG_FLOAT = 3"
definition TAG_STRING :: byte where "TAG_STRING = 4"
definition TAG_ARRAY :: byte where "TAG_ARRAY = 5"
definition TAG_OBJECT :: byte where "TAG_OBJECT = 6"

lemmas tags = TAG_NULL_def TAG_BOOL_def TAG_INT_def TAG_FLOAT_def TAG_STRING_def TAG_ARRAY_def TAG_OBJECT_def

definition encode_nested :: "'n lib \<Rightarrow> byte \<Rightarrow> 'n json \<Rightarrow> bytes res" where
  "encode_nested L tag v =
     try_res (schema_err (value_to_vec L v)) (\<lambda>mp. Ok ([tag] @ le32 (of_nat (length mp)) @ mp))"

definition encode_value :: "'n lib \<Rightarrow> 'n json \<Rightarrow> bytes res" where
  "encode_value L v =
     (case v of
        JNull \<Rightarrow> Ok [TAG_NULL]
      | JBool b \<Rightarrow> Ok [TAG_BOOL, if b then 1 else 0]
      | JNumber n \<Rightarrow>
          (case as_i64 L n of
             Some i \<Rightarrow> Ok ([TAG_INT] @ le64 i)
           | None \<Rightarrow> Ok ([TAG_FLOAT] @ le64 (case as_f64 L n of Some f \<Rightarrow> f | None \<Rightarrow> 0)))
      | JString s \<Rightarrow> Ok ([TAG_STRING] @ le32 (of_nat (length (as_bytes s))) @ as_bytes s)
      | JArray vs \<Rightarrow> encode_nested L TAG_ARRAY v
      | JObject kvs \<Rightarrow> encode_nested L TAG_OBJECT v)"

definition decode_value :: "'n lib \<Rightarrow> bytes \<Rightarrow> 'n json res" where
  "decode_value L bs =
     (case bs of
        [] \<Rightarrow> Err (StorageCorrupted 0)
      | tag # body \<Rightarrow>
          if tag = TAG_NULL then Ok JNull
          else if tag = TAG_BOOL then
            if body = [] then Err (StorageCorrupted 0)
            else try_res (slice_res 0 1 body) (\<lambda>b. Ok (JBool (b \<noteq> [0])))
          else if tag = TAG_INT then
            if length body < 8 then Err (StorageCorrupted 0)
            else try_res (slice_res 0 8 body) (\<lambda>b. Ok (JNumber (from_i64 L (from_le b))))
          else if tag = TAG_FLOAT then
            if length body < 8 then Err (StorageCorrupted 0)
            else
              try_res (slice_res 0 8 body) (\<lambda>b.
                case from_f64 L (from_le b) of
                  None \<Rightarrow> Err (StorageCorrupted 0)
                | Some n \<Rightarrow> Ok (JNumber n))
          else if tag = TAG_STRING then
            if length body < 4 then Err (StorageCorrupted 0)
            else
              try_res (slice_res 0 4 body) (\<lambda>l.
              let len = unat (from_le l :: u32) in
              if 4 + len > length body then Err (StorageCorrupted 0)
              else
                try_res (slice_res 4 (4 + len) body) (\<lambda>b.
                  case from_utf8 b of
                    None \<Rightarrow> Err (StorageCorrupted 0)
                  | Some s \<Rightarrow> Ok (JString s)))
          else if tag = TAG_ARRAY \<or> tag = TAG_OBJECT then
            if length body < 4 then Err (StorageCorrupted 0)
            else
              try_res (slice_res 0 4 body) (\<lambda>l.
              let len = unat (from_le l :: u32) in
              if 4 + len > length body then Err (StorageCorrupted 0)
              else try_res (slice_res 4 (4 + len) body) (\<lambda>b. schema_err (value_from_slice L b)))
          else Err (StorageCorrupted 0))"

definition encode_label_list :: "'n lib \<Rightarrow> u16 list \<Rightarrow> bytes res" where
  "encode_label_list L type_ids = schema_err (labels_to_vec L type_ids)"

definition decode_label_list :: "'n lib \<Rightarrow> bytes \<Rightarrow> u16 list res" where
  "decode_label_list L bs = schema_err (labels_from_slice L bs)"

section \<open>Property maps\<close>

definition store_write :: "'n lib \<Rightarrow> 'n props \<Rightarrow> (database_file, record_id) op" where
  "store_write L props = bnd (lift_res (schema_err (props_to_vec L props))) write_property_bytes"

definition store_read :: "'n lib \<Rightarrow> record_id \<Rightarrow> (database_file, 'n props) op" where
  "store_read L rid = bnd (read_property_bytes rid) (\<lambda>bs. lift_res (schema_err (props_from_slice L bs)))"

section \<open>Reading back what was encoded\<close>

text \<open>
  The values that the encoding keeps: an integer in the range of \<open>i64\<close>, or a number that is its own
  \<open>f64\<close>; a string shorter than 4 GiB; a nested value that the MessagePack codec keeps.
\<close>

definition encodable :: "'n lib \<Rightarrow> 'n json \<Rightarrow> bool" where
  "encodable L v \<longleftrightarrow>
     (case v of
        JNumber n \<Rightarrow>
          (case as_i64 L n of
             Some i \<Rightarrow> from_i64 L i = n
           | None \<Rightarrow> (case as_f64 L n of Some f \<Rightarrow> from_f64 L f = Some n | None \<Rightarrow> False))
      | JString s \<Rightarrow> length s < 2 ^ 32 \<and> utf8_ok (as_bytes s)
      | JArray vs \<Rightarrow> (\<exists>mp. value_to_vec L v = Inr mp \<and> value_from_slice L mp = Inr v \<and> length mp < 2 ^ 32)
      | JObject kvs \<Rightarrow> (\<exists>mp. value_to_vec L v = Inr mp \<and> value_from_slice L mp = Inr v \<and> length mp < 2 ^ 32)
      | _ \<Rightarrow> True)"

lemma to_le_Nil [simp]: "to_le n w = [] \<longleftrightarrow> n = 0"
  by (cases n) simp_all

lemma slice_front: "length xs = n \<Longrightarrow> slice_res 0 n (xs @ ys) = Ok xs"
  by (simp add: slice_res_def get_bytes_def)

lemma slice_behind: "length xs = a \<Longrightarrow> length ys = b - a \<Longrightarrow> a \<le> b \<Longrightarrow> slice_res a b (xs @ ys @ zs) = Ok ys"
  by (simp add: slice_res_def get_bytes_def)

lemma decode_nested:
  assumes "length mp < 2 ^ 32" "tag = TAG_ARRAY \<or> tag = TAG_OBJECT"
  shows "decode_value L (([tag] @ le32 (of_nat (length mp)) @ mp) @ rest) = schema_err (value_from_slice L mp)"
proof -
  have len: "unat (of_nat (length mp) :: u32) = length mp" using assms(1) by (rule unat_of_nat_small)
  have a: "slice_res 0 4 (le32 (of_nat (length mp)) @ mp @ rest) = Ok (le32 (of_nat (length mp)))"
    by (rule slice_front) simp
  have b: "slice_res 4 (4 + length mp) (le32 (of_nat (length mp)) @ mp @ rest) = Ok mp"
    by (rule slice_behind) simp_all
  show ?thesis using assms(2) by (auto simp: decode_value_def tags a b len)
qed

lemma decode_string:
  assumes "length s < 2 ^ 32" "utf8_ok (as_bytes s)"
  shows "decode_value L (([TAG_STRING] @ le32 (of_nat (length (as_bytes s))) @ as_bytes s) @ rest) = Ok (JString s)"
proof -
  have len: "unat (of_nat (length s) :: u32) = length s" using assms(1) by (rule unat_of_nat_small)
  have a: "slice_res 0 4 (le32 (of_nat (length s)) @ as_bytes s @ rest) = Ok (le32 (of_nat (length s)))"
    by (rule slice_front) simp
  have b: "slice_res 4 (4 + length s) (le32 (of_nat (length s)) @ as_bytes s @ rest) = Ok (as_bytes s)"
    by (rule slice_behind) simp_all
  show ?thesis using assms(2) by (simp add: decode_value_def tags a b len from_utf8_def)
qed

lemma decode_word:
  "decode_value L (([TAG_INT] @ le64 i) @ rest) = Ok (JNumber (from_i64 L i))"
  "from_f64 L f = Some n \<Longrightarrow> decode_value L (([TAG_FLOAT] @ le64 f) @ rest) = Ok (JNumber n)"
proof -
  have a: "slice_res 0 8 (le64 w @ rest) = Ok (le64 w)" for w by (rule slice_front) simp
  show "decode_value L (([TAG_INT] @ le64 i) @ rest) = Ok (JNumber (from_i64 L i))"
    by (simp add: decode_value_def tags a)
  show "from_f64 L f = Some n \<Longrightarrow> decode_value L (([TAG_FLOAT] @ le64 f) @ rest) = Ok (JNumber n)"
    by (simp add: decode_value_def tags a)
qed

section \<open>Properties\<close>

text \<open>
  C38: a value survives its encoding. Every encodable value is encoded, and decoding the bytes returns
  it, whatever follows them in the buffer; and decoding never panics, on any bytes at all: lengths that
  run past the payload, unknown tags, invalid UTF-8 and non-finite floats are all errors.
\<close>

theorem value_roundtrip:
  assumes "encodable L v"
  shows "\<exists>bs. encode_value L v = Ok bs \<and> (\<forall>rest. decode_value L (bs @ rest) = Ok v) \<and>
    (\<forall>any. decode_value L any \<noteq> Panic)"
proof -
  have total: "decode_value L any \<noteq> Panic" for any
    by (cases any) (simp_all add: decode_value_def slice_res_def Let_def Suc_le_eq split: option.split)
  have "\<exists>bs. encode_value L v = Ok bs \<and> (\<forall>rest. decode_value L (bs @ rest) = Ok v)"
  proof (cases v)
    case JNull
    then show ?thesis by (simp add: encode_value_def decode_value_def)
  next
    case (JBool b)
    then show ?thesis by (simp add: encode_value_def decode_value_def tags slice_res_def get_bytes_def)
  next
    case (JNumber n)
    then show ?thesis
      using assms decode_word [of L] by (auto simp: encode_value_def encodable_def split: option.splits)
  next
    case (JString s)
    then show ?thesis using assms decode_string [of s L] by (auto simp: encode_value_def encodable_def)
  next
    case (JArray vs)
    then obtain mp where "value_to_vec L v = Inr mp" "value_from_slice L mp = Inr v" "length mp < 2 ^ 32"
      using assms by (auto simp: encodable_def)
    then show ?thesis using JArray decode_nested [of mp TAG_ARRAY L] by (simp add: encode_value_def encode_nested_def)
  next
    case (JObject kvs)
    then obtain mp where "value_to_vec L v = Inr mp" "value_from_slice L mp = Inr v" "length mp < 2 ^ 32"
      using assms by (auto simp: encodable_def)
    then show ?thesis using JObject decode_nested [of mp TAG_OBJECT L] by (simp add: encode_value_def encode_nested_def)
  qed
  then show ?thesis using total by blast
qed

text \<open>Numbers as their integers, and a codec that knows one value: what the witnesses are run with.\<close>

definition demo_lib :: "int lib" where
  "demo_lib = \<lparr>as_i64 = (\<lambda>n. if - (2 ^ 63) \<le> n \<and> n < 2 ^ 63 then Some (of_int n) else None),
     is_u64 = (\<lambda>n. 0 \<le> n \<and> n < 2 ^ 64), as_f64 = (\<lambda>n. Some 0), from_i64 = sint, from_f64 = (\<lambda>f. None),
     value_to_vec = (\<lambda>v. if v = JArray [JBool True, JNull] then Inr [0x92, 0xC3, 0xC0] else Inl ''unsupported''),
     value_from_slice = (\<lambda>bs. if bs = [0x92, 0xC3, 0xC0] then Inr (JArray [JBool True, JNull]) else Inl ''unsupported''),
     props_to_vec = (\<lambda>m. if m = [(''age'', JNumber 42)] then Inr [0x81, 1] else Inl ''unsupported''),
     props_from_slice = (\<lambda>bs. if bs = [0x81, 1] then Inr [(''age'', JNumber 42)] else Inl ''unsupported''),
     labels_to_vec = (\<lambda>ls. if ls = [7] then Inr [0x91, 7] else Inl ''unsupported''),
     labels_from_slice = (\<lambda>bs. if bs = [0x91, 7] then Inr [7] else Inl ''unsupported''),
     value_to_string = (\<lambda>v. ''value''), num_repr = id\<rparr>"

theorem value_roundtrip_witness:
  "(\<exists>bs. encode_value demo_lib (JNumber (- 5)) = Ok bs \<and> decode_value demo_lib (bs @ [1, 2]) = Ok (JNumber (- 5))) \<and>
   (\<exists>bs. encode_value demo_lib (JString ''id'') = Ok bs \<and> decode_value demo_lib bs = Ok (JString ''id'')) \<and>
   (\<exists>bs. encode_value demo_lib (JArray [JBool True, JNull]) = Ok bs \<and> decode_value demo_lib bs = Ok (JArray [JBool True, JNull]))"
proof -
  have 1: "encodable demo_lib (JNumber (- 5))" by (simp add: encodable_def demo_lib_def)
  have 2: "encodable demo_lib (JString ''id'')" by (simp add: encodable_def as_bytes_def)
  have 3: "encodable demo_lib (JArray [JBool True, JNull])" by (simp add: encodable_def demo_lib_def)
  show ?thesis
    using value_roundtrip [OF 1] value_roundtrip [OF 2] value_roundtrip [OF 3] by (metis append_Nil2)
qed

end
