(* ===== verification/Schema.thy ===== *)
theory Schema
  imports Values
begin

text \<open>
  The schema: its syntax tree (\<^verbatim>\<open>schema/ast.rs\<close>), the registry of type ids
  (\<^verbatim>\<open>schema/registry.rs\<close>), the checks of a schema (\<^verbatim>\<open>schema/validator.rs\<close>), of property
  values against it (\<^verbatim>\<open>schema/validate_value.rs\<close>) and of a migration
  (\<^verbatim>\<open>schema/migration.rs\<close>).

  A \<open>HashMap\<close> or \<open>HashSet\<close> that the code iterates over is a list in insertion order; the order Rust
  visits it in is unspecified and only decides which of several errors is reported.
\<close>

section \<open>Syntax tree\<close>

datatype type_expr =
    TInt | TFloat | TBoolean | TDateTime | TString | TJson | TBlob
  | TVector u32
  | TList type_expr
  | TMap type_expr type_expr
  | TNodeRef string
  | TEdgeRef string
  | TNamed string

record field_def =
  fd_name :: string
  fd_type :: type_expr
  fd_indexed :: bool
  fd_unique :: bool

record bound_param =
  bp_name :: string
  bp_bound :: "string option"

record node_def =
  nd_name :: string
  nd_type_params :: "string list"
  nd_extends :: "string option"
  nd_fields :: "field_def list"

record edge_def =
  ed_name :: string
  ed_generic_params :: "bound_param list"
  ed_from :: type_expr
  ed_to :: type_expr
  ed_props :: "field_def list"

datatype schema_def = NodeD node_def | EdgeD edge_def

record schema_ast =
  sa_definitions :: "schema_def list"

definition node_defs :: "schema_ast \<Rightarrow> node_def list" where
  "node_defs ast = [n. NodeD n \<leftarrow> sa_definitions ast]"

definition edge_defs :: "schema_ast \<Rightarrow> edge_def list" where
  "edge_defs ast = [e. EdgeD e \<leftarrow> sa_definitions ast]"

section \<open>Registry\<close>

record schema_registry =
  node_name_to_id :: "string \<Rightarrow> u16 option"
  node_id_to_name :: "u16 \<Rightarrow> string option"
  edge_name_to_id :: "string \<Rightarrow> u16 option"
  edge_id_to_name :: "u16 \<Rightarrow> string option"

definition insert_all :: "('a \<times> 'b) list \<Rightarrow> ('a \<Rightarrow> 'b option) \<times> ('b \<Rightarrow> 'a option)" where
  "insert_all assignments =
     fold (\<lambda>(name, tid) (m, w). (m(name \<mapsto> tid), w(tid \<mapsto> name))) assignments (Map.empty, Map.empty)"

definition from_assignments :: "(string \<times> u16) list \<Rightarrow> (string \<times> u16) list \<Rightarrow> schema_registry" where
  "from_assignments node_assignments edge_assignments =
     (case insert_all node_assignments of (n_to_id, n_to_name) \<Rightarrow>
      case insert_all edge_assignments of (e_to_id, e_to_name) \<Rightarrow>
        \<lparr>node_name_to_id = n_to_id, node_id_to_name = n_to_name,
         edge_name_to_id = e_to_id, edge_id_to_name = e_to_name\<rparr>)"

definition node_type_id_of :: "string \<Rightarrow> schema_registry \<Rightarrow> u16 option" where
  "node_type_id_of name r = node_name_to_id r name"

definition edge_type_id_of :: "string \<Rightarrow> schema_registry \<Rightarrow> u16 option" where
  "edge_type_id_of name r = edge_name_to_id r name"

definition node_type_name :: "u16 \<Rightarrow> schema_registry \<Rightarrow> string option" where
  "node_type_name tid r = node_id_to_name r tid"

definition edge_type_name :: "u16 \<Rightarrow> schema_registry \<Rightarrow> string option" where
  "edge_type_name tid r = edge_id_to_name r tid"

section \<open>Values against types\<close>

fun decimal :: "nat \<Rightarrow> string" where
  "decimal n = (if n < 10 then [char_of (48 + n)] else decimal (n div 10) @ [char_of (48 + n mod 10)])"

declare decimal.simps [simp del]

fun value_matches_type :: "'n lib \<Rightarrow> 'n json \<Rightarrow> type_expr \<Rightarrow> bool" where
  "value_matches_type L JNull _ = True"
| "value_matches_type L _ TJson = True"
| "value_matches_type L (JNumber n) TInt = (as_i64 L n \<noteq> None \<or> is_u64 L n)"
| "value_matches_type L (JNumber _) TFloat = True"
| "value_matches_type L (JBool _) TBoolean = True"
| "value_matches_type L (JString _) TString = True"
| "value_matches_type L (JString _) TDateTime = True"
| "value_matches_type L (JString _) TBlob = True"
| "value_matches_type L (JArray _) TBlob = True"
| "value_matches_type L (JArray items) (TVector _) = list_all (\<lambda>v. case v of JNumber _ \<Rightarrow> True | _ \<Rightarrow> False) items"
| "value_matches_type L (JArray items) (TList inner) = list_all (\<lambda>v. value_matches_type L v inner) items"
| "value_matches_type L (JObject kvs) (TMap _ val_ty) = list_all (\<lambda>kv. value_matches_type L (snd kv) val_ty) kvs"
| "value_matches_type L (JString _) (TNodeRef _) = True"
| "value_matches_type L (JString _) (TEdgeRef _) = True"
| "value_matches_type L (JString _) (TNamed _) = True"
| "value_matches_type L _ _ = False"

fun describe_type :: "type_expr \<Rightarrow> string" where
  "describe_type TInt = ''Int''"
| "describe_type TFloat = ''Float''"
| "describe_type TBoolean = ''Boolean''"
| "describe_type TDateTime = ''DateTime''"
| "describe_type TString = ''String''"
| "describe_type TJson = ''Json''"
| "describe_type TBlob = ''Blob''"
| "describe_type (TVector n) = ''Vector('' @ decimal (unat n) @ '')''"
| "describe_type (TList inner) = ''List<'' @ describe_type inner @ ''>''"
| "describe_type (TMap k v) = ''Map<'' @ describe_type k @ '', '' @ describe_type v @ ''>''"
| "describe_type (TNodeRef s) = ''NodeRef<'' @ s @ ''>''"
| "describe_type (TEdgeRef s) = ''EdgeRef<'' @ s @ ''>''"
| "describe_type (TNamed s) = s"

definition describe_value :: "'n json \<Rightarrow> string" where
  "describe_value v =
     (case v of JNull \<Rightarrow> ''null'' | JBool _ \<Rightarrow> ''boolean'' | JNumber _ \<Rightarrow> ''number'' | JString _ \<Rightarrow> ''string''
      | JArray _ \<Rightarrow> ''array'' | JObject _ \<Rightarrow> ''object'')"

fun check_fields :: "'n lib \<Rightarrow> string \<Rightarrow> field_def list \<Rightarrow> 'n props \<Rightarrow> unit res" where
  "check_fields L type_label [] props = Ok ()"
| "check_fields L type_label (f # fs) props =
     (case map_of props (fd_name f) of
        Some v \<Rightarrow>
          if \<not> value_matches_type L v (fd_type f)
          then Err (ValidationError (type_label @ '': field '' @ [CHR 0x27] @ fd_name f @ [CHR 0x27] @ '' expected '' @
                 describe_type (fd_type f) @ '', got '' @ describe_value v))
          else check_fields L type_label fs props
      | None \<Rightarrow> check_fields L type_label fs props)"

definition validate_properties :: "'n lib \<Rightarrow> string \<Rightarrow> field_def list \<Rightarrow> 'n props \<Rightarrow> unit res" where
  "validate_properties L type_label decls props =
     (case find (\<lambda>key. \<not> (\<exists>f\<in>set decls. fd_name f = key)) (map fst props) of
        Some key \<Rightarrow> Err (ValidationError (type_label @ '': unknown field '' @ [CHR 0x27] @ key @ [CHR 0x27]))
      | None \<Rightarrow> check_fields L type_label decls props)"

section \<open>Checking a schema\<close>

definition quoted :: "string \<Rightarrow> string" where
  "quoted s = [CHR 0x27] @ s @ [CHR 0x27]"

definition is_indexable_scalar :: "type_expr \<Rightarrow> bool" where
  "is_indexable_scalar t \<longleftrightarrow> t \<in> {TInt, TFloat, TBoolean, TDateTime, TString}"

definition validate_edge_endpoint :: "string \<Rightarrow> string \<Rightarrow> type_expr \<Rightarrow> string list \<Rightarrow> string list \<Rightarrow> unit res" where
  "validate_edge_endpoint edge_name side t node_names param_names =
     (case t of
        TNamed name \<Rightarrow>
          if name \<notin> set param_names \<and> name \<notin> set node_names
          then Err (SchemaError (''edge '' @ quoted edge_name @ '' '' @ side @ '' references unknown node type '' @ quoted name))
          else Ok ()
      | TNodeRef name \<Rightarrow>
          if name \<notin> set node_names
          then Err (SchemaError (''edge '' @ quoted edge_name @ '' '' @ side @ '' NodeRef references unknown node type '' @ quoted name))
          else Ok ()
      | _ \<Rightarrow> Ok ())"

fun check_indexed :: "string \<Rightarrow> field_def list \<Rightarrow> unit res" where
  "check_indexed node_name [] = Ok ()"
| "check_indexed node_name (f # fs) =
     (if (fd_indexed f \<or> fd_unique f) \<and> \<not> is_indexable_scalar (fd_type f)
      then Err (SchemaError (''node '' @ quoted node_name @ '' field '' @ quoted (fd_name f) @
             '': @index/@unique requires a scalar type (Int/Float/Boolean/DateTime/String)''))
      else check_indexed node_name fs)"

fun check_bounds :: "string \<Rightarrow> string list \<Rightarrow> bound_param list \<Rightarrow> unit res" where
  "check_bounds edge_name node_names [] = Ok ()"
| "check_bounds edge_name node_names (p # ps) =
     (case bp_bound p of
        Some bound \<Rightarrow>
          if bound \<notin> set node_names
          then Err (SchemaError (''edge '' @ quoted edge_name @ '' generic bound '' @ quoted bound @ '' references unknown type''))
          else check_bounds edge_name node_names ps
      | None \<Rightarrow> check_bounds edge_name node_names ps)"

definition validate_def :: "string list \<Rightarrow> schema_def \<Rightarrow> unit res" where
  "validate_def node_names d =
     (case d of
        NodeD n \<Rightarrow>
          (case nd_extends n of
             Some base \<Rightarrow>
               if base \<notin> set node_names
               then Err (SchemaError (''node '' @ quoted (nd_name n) @ '' extends unknown type '' @ quoted base))
               else check_indexed (nd_name n) (nd_fields n)
           | None \<Rightarrow> check_indexed (nd_name n) (nd_fields n))
      | EdgeD e \<Rightarrow>
          try_res (check_bounds (ed_name e) node_names (ed_generic_params e)) (\<lambda>_.
          let param_names = map bp_name (ed_generic_params e) in
          try_res (validate_edge_endpoint (ed_name e) ''from'' (ed_from e) node_names param_names) (\<lambda>_.
          validate_edge_endpoint (ed_name e) ''to'' (ed_to e) node_names param_names)))"

fun validate_all :: "string list \<Rightarrow> schema_def list \<Rightarrow> unit res" where
  "validate_all node_names [] = Ok ()"
| "validate_all node_names (d # ds) = try_res (validate_def node_names d) (\<lambda>_. validate_all node_names ds)"

definition validate :: "schema_ast \<Rightarrow> unit res" where
  "validate ast = validate_all (map nd_name (node_defs ast)) (sa_definitions ast)"

section \<open>Checking a migration\<close>

text \<open>The discriminant of an enum value (\<^verbatim>\<open>std::mem::discriminant\<close>).\<close>

fun discriminant :: "type_expr \<Rightarrow> nat" where
  "discriminant TInt = 0"
| "discriminant TFloat = 1"
| "discriminant TBoolean = 2"
| "discriminant TDateTime = 3"
| "discriminant TString = 4"
| "discriminant TJson = 5"
| "discriminant TBlob = 6"
| "discriminant (TVector _) = 7"
| "discriminant (TList _) = 8"
| "discriminant (TMap _ _) = 9"
| "discriminant (TNodeRef _) = 10"
| "discriminant (TEdgeRef _) = 11"
| "discriminant (TNamed _) = 12"

fun type_compatible :: "type_expr \<Rightarrow> type_expr \<Rightarrow> bool" where
  "type_compatible (TVector a) new =
     (discriminant (TVector a) = discriminant new \<and> (case new of TVector b \<Rightarrow> a = b | _ \<Rightarrow> True))"
| "type_compatible (TList a) new =
     (discriminant (TList a) = discriminant new \<and> (case new of TList b \<Rightarrow> type_compatible a b | _ \<Rightarrow> True))"
| "type_compatible (TMap ak av) new =
     (discriminant (TMap ak av) = discriminant new \<and> (case new of TMap bk bv \<Rightarrow> type_compatible ak bk \<and> type_compatible av bv | _ \<Rightarrow> True))"
| "type_compatible (TNamed a) new =
     (discriminant (TNamed a) = discriminant new \<and> (case new of TNamed b \<Rightarrow> a = b | _ \<Rightarrow> True))"
| "type_compatible (TNodeRef a) new =
     (discriminant (TNodeRef a) = discriminant new \<and> (case new of TNodeRef b \<Rightarrow> a = b | _ \<Rightarrow> True))"
| "type_compatible (TEdgeRef a) new =
     (discriminant (TEdgeRef a) = discriminant new \<and> (case new of TEdgeRef b \<Rightarrow> a = b | _ \<Rightarrow> True))"
| "type_compatible old new = (discriminant old = discriminant new)"

fun type_kind_name :: "type_expr \<Rightarrow> string" where
  "type_kind_name TInt = ''Int''"
| "type_kind_name TFloat = ''Float''"
| "type_kind_name TBoolean = ''Boolean''"
| "type_kind_name TDateTime = ''DateTime''"
| "type_kind_name TString = ''String''"
| "type_kind_name TJson = ''Json''"
| "type_kind_name TBlob = ''Blob''"
| "type_kind_name (TVector _) = ''Vector''"
| "type_kind_name (TList _) = ''List''"
| "type_kind_name (TMap _ _) = ''Map''"
| "type_kind_name (TNodeRef _) = ''NodeRef''"
| "type_kind_name (TEdgeRef _) = ''EdgeRef''"
| "type_kind_name (TNamed _) = ''Named''"

text \<open>The maps of \<open>validate_migration\<close>: a later definition of a name replaces an earlier one.\<close>

definition field_types :: "field_def list \<Rightarrow> (string \<times> type_expr) list" where
  "field_types fs = map (\<lambda>f. (fd_name f, fd_type f)) fs"

definition node_map :: "schema_ast \<Rightarrow> (string \<times> (string \<times> type_expr) list) list" where
  "node_map ast = fold (\<lambda>n. AList.update (nd_name n) (field_types (nd_fields n))) (node_defs ast) []"

definition edge_map :: "schema_ast \<Rightarrow> (string \<times> type_expr \<times> type_expr \<times> (string \<times> type_expr) list) list" where
  "edge_map ast = fold (\<lambda>e. AList.update (ed_name e) (ed_from e, ed_to e, field_types (ed_props e))) (edge_defs ast) []"

fun check_field_changes :: "string \<Rightarrow> (string \<Rightarrow> type_expr option) \<Rightarrow> (string \<times> type_expr) list \<Rightarrow> unit res" where
  "check_field_changes prefix old_fields [] = Ok ()"
| "check_field_changes prefix old_fields ((field_name, new_type) # fs) =
     (case old_fields field_name of
        Some old_type \<Rightarrow>
          if \<not> type_compatible old_type new_type
          then Err (SchemaError (prefix @ quoted field_name @ '': type change is not allowed (was '' @
                 type_kind_name old_type @ '', now '' @ type_kind_name new_type @ '')''))
          else check_field_changes prefix old_fields fs
      | None \<Rightarrow> check_field_changes prefix old_fields fs)"

definition last_in_map :: "(string \<times> 'a) list \<Rightarrow> string \<Rightarrow> 'a option" where
  "last_in_map kvs = map_of (rev kvs)"

fun check_node_changes :: "(string \<times> (string \<times> type_expr) list) list \<Rightarrow> (string \<times> (string \<times> type_expr) list) list \<Rightarrow> unit res" where
  "check_node_changes old_nodes [] = Ok ()"
| "check_node_changes old_nodes ((name, new_def) # ns) =
     try_res
       (case map_of old_nodes name of
          Some old_def \<Rightarrow> check_field_changes (''node '' @ quoted name @ '' field '') (last_in_map old_def) new_def
        | None \<Rightarrow> Ok ())
       (\<lambda>_. check_node_changes old_nodes ns)"

fun check_edge_changes ::
  "(string \<times> type_expr \<times> type_expr \<times> (string \<times> type_expr) list) list \<Rightarrow>
   (string \<times> type_expr \<times> type_expr \<times> (string \<times> type_expr) list) list \<Rightarrow> unit res" where
  "check_edge_changes old_edges [] = Ok ()"
| "check_edge_changes old_edges ((name, new_from, new_to, new_props) # es) =
     try_res
       (case map_of old_edges name of
          Some (old_from, old_to, old_props) \<Rightarrow>
            if \<not> type_compatible old_from new_from
            then Err (SchemaError (''edge '' @ quoted name @ '': changing '' @ quoted ''from'' @ '' type is not allowed''))
            else if \<not> type_compatible old_to new_to
            then Err (SchemaError (''edge '' @ quoted name @ '': changing '' @ quoted ''to'' @ '' type is not allowed''))
            else check_field_changes (''edge '' @ quoted name @ '' prop '') (last_in_map old_props) new_props
        | None \<Rightarrow> Ok ())
       (\<lambda>_. check_edge_changes old_edges es)"

definition validate_migration :: "schema_ast \<Rightarrow> schema_ast \<Rightarrow> unit res" where
  "validate_migration old new =
     try_res (check_node_changes (node_map old) (node_map new)) (\<lambda>_.
     check_edge_changes (edge_map old) (edge_map new))"

section \<open>The typing of values\<close>

text \<open>The judgement that \<open>value_matches_type\<close> decides.\<close>

inductive has_type :: "'n lib \<Rightarrow> 'n json \<Rightarrow> type_expr \<Rightarrow> bool" for L where
  null: "has_type L JNull t"
| json: "has_type L v TJson"
| int: "as_i64 L n \<noteq> None \<or> is_u64 L n \<Longrightarrow> has_type L (JNumber n) TInt"
| float: "has_type L (JNumber n) TFloat"
| boolean: "has_type L (JBool b) TBoolean"
| string: "t \<in> {TString, TDateTime, TBlob} \<Longrightarrow> has_type L (JString s) t"
| reference: "t \<in> {TNodeRef r, TEdgeRef r, TNamed r} \<Longrightarrow> has_type L (JString s) t"
| blob: "has_type L (JArray vs) TBlob"
| vector: "set vs \<subseteq> range JNumber \<Longrightarrow> has_type L (JArray vs) (TVector d)"
| list: "\<forall>v\<in>set vs. has_type L v t \<Longrightarrow> has_type L (JArray vs) (TList t)"
| map: "\<forall>kv\<in>set kvs. has_type L (snd kv) t \<Longrightarrow> has_type L (JObject kvs) (TMap k t)"

inductive_simps has_type_simps:
  "has_type L JNull t" "has_type L v TJson" "has_type L (JBool b) t" "has_type L (JNumber n) t" "has_type L (JString s) t"
  "has_type L (JArray vs) t" "has_type L (JObject kvs) t"

lemma matches_iff_has_type: "value_matches_type L v t \<longleftrightarrow> has_type L v t"
  by (induction L v t rule: value_matches_type.induct)
    (auto simp: has_type_simps list_all_iff subset_iff image_iff split: json.splits)

definition conforms :: "'n lib \<Rightarrow> field_def list \<Rightarrow> 'n props \<Rightarrow> bool" where
  "conforms L decls props \<longleftrightarrow> (\<forall>k\<in>fst ` set props. k \<in> fd_name ` set decls) \<and>
     (\<forall>f\<in>set decls. \<forall>v. map_of props (fd_name f) = Some v \<longrightarrow> has_type L v (fd_type f))"

lemma check_fields_iff:
  "check_fields L lbl fs props = Ok () \<longleftrightarrow> (\<forall>f\<in>set fs. \<forall>v. map_of props (fd_name f) = Some v \<longrightarrow> has_type L v (fd_type f))"
  "check_fields L lbl fs props = Ok () \<or> (\<exists>msg. check_fields L lbl fs props = Err (ValidationError msg))"
  by (induction fs) (auto simp: matches_iff_has_type split: option.splits)

lemma validate_properties_iff:
  "validate_properties L lbl decls props = Ok () \<longleftrightarrow> conforms L decls props"
  "validate_properties L lbl decls props = Ok () \<or> (\<exists>msg. validate_properties L lbl decls props = Err (ValidationError msg))"
proof -
  let ?f = "find (\<lambda>key. \<not> (\<exists>f\<in>set decls. fd_name f = key)) (map fst props)"
  have "?f = None \<longleftrightarrow> (\<forall>k\<in>fst ` set props. k \<in> fd_name ` set decls)"
    by (force simp: find_None_iff image_iff)
  then show "validate_properties L lbl decls props = Ok () \<longleftrightarrow> conforms L decls props"
    using check_fields_iff(1) [of L lbl decls props] unfolding validate_properties_def conforms_def
    by (cases ?f) auto
  show "validate_properties L lbl decls props = Ok () \<or> (\<exists>msg. validate_properties L lbl decls props = Err (ValidationError msg))"
    using check_fields_iff(2) [of L lbl decls props] unfolding validate_properties_def by (cases ?f) auto
qed

section \<open>What a checked migration keeps\<close>

lemma type_compatible_iff: "type_compatible old new \<longleftrightarrow> old = new"
  by (induction old arbitrary: new) (case_tac new; auto)+

lemma check_field_changes_iff:
  "check_field_changes prefix old fs = Ok () \<longleftrightarrow> (\<forall>(name, t)\<in>set fs. \<forall>t'. old name = Some t' \<longrightarrow> t' = t)"
  by (induction prefix old fs rule: check_field_changes.induct) (auto simp: type_compatible_iff split: option.splits)

lemma check_node_changes_iff:
  "check_node_changes old ns = Ok () \<longleftrightarrow>
   (\<forall>(name, fs)\<in>set ns. \<forall>old_fs. map_of old name = Some old_fs \<longrightarrow>
      (\<forall>(field, t)\<in>set fs. \<forall>t'. last_in_map old_fs field = Some t' \<longrightarrow> t' = t))"
  by (induction old ns rule: check_node_changes.induct)
    (auto simp: check_field_changes_iff try_res_eq_Ok split: option.splits)

lemma check_edge_changes_iff:
  "check_edge_changes old es = Ok () \<longleftrightarrow>
   (\<forall>(name, src, dst, fs)\<in>set es. \<forall>old_src old_dst old_fs. map_of old name = Some (old_src, old_dst, old_fs) \<longrightarrow>
      old_src = src \<and> old_dst = dst \<and> (\<forall>(field, t)\<in>set fs. \<forall>t'. last_in_map old_fs field = Some t' \<longrightarrow> t' = t))"
  by (induction old es rule: check_edge_changes.induct)
    (auto simp: check_field_changes_iff type_compatible_iff try_res_eq_Ok split: option.splits if_splits)

lemma fold_update_distinct:
  assumes "distinct (map key xs)" "x \<in> set xs"
  shows "map_of (fold (\<lambda>x. AList.update (key x) (val x)) xs m) (key x) = Some (val x)"
proof -
  have keep: "map_of (fold (\<lambda>x. AList.update (key x) (val x)) ys m) k = map_of m k" if "k \<notin> key ` set ys" for ys m k
    using that by (induction ys arbitrary: m) (auto simp: update_conv')
  show ?thesis
    using assms by (induction xs arbitrary: m) (auto simp: update_conv' keep)
qed

lemma fold_update_keys: "distinct (map fst m) \<Longrightarrow> distinct (map fst (fold (\<lambda>x. AList.update (key x) (val x)) xs m))"
  by (induction xs arbitrary: m) (auto simp: distinct_update)

lemma in_maps:
  assumes "distinct (map nd_name (node_defs ast))" "n \<in> set (node_defs ast)"
  shows "map_of (node_map ast) (nd_name n) = Some (field_types (nd_fields n))" "(nd_name n, field_types (nd_fields n)) \<in> set (node_map ast)"
  using fold_update_distinct [OF assms, of "\<lambda>n. field_types (nd_fields n)" "[]"] map_of_SomeD by (fastforce simp: node_map_def)+

lemma in_edge_maps:
  assumes "distinct (map ed_name (edge_defs ast))" "e \<in> set (edge_defs ast)"
  shows "map_of (edge_map ast) (ed_name e) = Some (ed_from e, ed_to e, field_types (ed_props e))"
    "(ed_name e, ed_from e, ed_to e, field_types (ed_props e)) \<in> set (edge_map ast)"
  using fold_update_distinct [OF assms, of "\<lambda>e. (ed_from e, ed_to e, field_types (ed_props e))" "[]"] map_of_SomeD
  by (fastforce simp: edge_map_def)+

lemma last_in_map_fields:
  "last_in_map (field_types fs) k = Some t \<Longrightarrow> \<exists>f\<in>set fs. fd_name f = k \<and> fd_type f = t"
  "k \<in> fd_name ` set fs \<Longrightarrow> \<exists>t. last_in_map (field_types fs) k = Some t"
proof -
  show "last_in_map (field_types fs) k = Some t \<Longrightarrow> \<exists>f\<in>set fs. fd_name f = k \<and> fd_type f = t"
    by (auto simp: last_in_map_def field_types_def dest!: map_of_SomeD)
  assume "k \<in> fd_name ` set fs"
  then have "map_of (rev (field_types fs)) k \<noteq> None" by (simp add: map_of_eq_None_iff field_types_def image_image)
  then show "\<exists>t. last_in_map (field_types fs) k = Some t" by (auto simp: last_in_map_def)
qed

text \<open>The values that are kept when the fields of a type change from \<open>old\<close> to \<open>new\<close>.\<close>

definition kept_props :: "field_def list \<Rightarrow> field_def list \<Rightarrow> 'n props \<Rightarrow> 'n props" where
  "kept_props old new props = filter (\<lambda>(k, _). k \<in> fd_name ` set old \<and> k \<in> fd_name ` set new) props"

lemma kept_conforms:
  assumes c: "conforms L old props"
    and same: "\<forall>(field, t)\<in>set (field_types new). \<forall>t'. last_in_map (field_types old) field = Some t' \<longrightarrow> t' = t"
  shows "conforms L new (kept_props old new props)"
  unfolding conforms_def
proof (intro conjI ballI allI impI)
  show "k \<in> fd_name ` set new" if "k \<in> fst ` set (kept_props old new props)" for k
    using that by (auto simp: kept_props_def)
  fix f v assume f: "f \<in> set new" "map_of (kept_props old new props) (fd_name f) = Some v"
  have kept: "map_of (filter (\<lambda>(k, _). P k) kvs) k = (if P k then map_of kvs k else None)" for P kvs k
    by (induction kvs) auto
  have v: "map_of props (fd_name f) = Some v" "fd_name f \<in> fd_name ` set old"
    using f(2) kept [of "\<lambda>k. k \<in> fd_name ` set old \<and> k \<in> fd_name ` set new" props] by (auto simp: kept_props_def split: if_splits)
  obtain t' where t': "last_in_map (field_types old) (fd_name f) = Some t'" using last_in_map_fields(2) [OF v(2)] by blast
  have "t' = fd_type f" using same f(1) t' by (fastforce simp: field_types_def)
  then show "has_type L v (fd_type f)"
    using last_in_map_fields(1) [OF t'] c v(1) unfolding conforms_def by metis
qed

section \<open>Properties\<close>

text \<open>
  C37: checking the properties of a record is type checking. The check accepts a property map exactly if
  every key is a declared field and every value has the declared type by the typing rules of the schema
  language; otherwise it returns a validation error, and nothing else.
\<close>

theorem validation_is_typing:
  "(validate_properties L lbl decls props = Ok () \<longleftrightarrow> conforms L decls props) \<and>
   (\<not> conforms L decls props \<longrightarrow> (\<exists>msg. validate_properties L lbl decls props = Err (ValidationError msg)))"
  using validate_properties_iff by metis

theorem validation_is_typing_witness:
  "\<exists>msg. validate_properties demo_lib ''User'' [\<lparr>fd_name = ''age'', fd_type = TList TInt, fd_indexed = False, fd_unique = False\<rparr>]
    [(''age'', JArray [JNumber 1, JBool True])] = Err (ValidationError msg)"
proof -
  have "\<not> conforms demo_lib [\<lparr>fd_name = ''age'', fd_type = TList TInt, fd_indexed = False, fd_unique = False\<rparr>]
      [(''age'', JArray [JNumber 1, JBool True])]"
    by (simp add: conforms_def has_type_simps)
  then show ?thesis using validation_is_typing by blast
qed

text \<open>
  C36: a migration that the check permits keeps stored data valid. If the properties of a record conform
  to the old definition of its type, then what is kept of them (the fields declared before and after)
  conforms to the new definition; and the types of the ends of an edge are those it was created with.
\<close>

theorem migration_keeps_values_valid:
  assumes "validate_migration old new = Ok ()" "distinct (map nd_name (node_defs old))" "distinct (map nd_name (node_defs new))"
    "distinct (map ed_name (edge_defs old))" "distinct (map ed_name (edge_defs new))"
  shows "(\<forall>n n' props. n \<in> set (node_defs old) \<longrightarrow> n' \<in> set (node_defs new) \<longrightarrow> nd_name n' = nd_name n \<longrightarrow>
      validate_properties L lbl (nd_fields n) props = Ok () \<longrightarrow>
      validate_properties L lbl (nd_fields n') (kept_props (nd_fields n) (nd_fields n') props) = Ok ()) \<and>
    (\<forall>e e' props. e \<in> set (edge_defs old) \<longrightarrow> e' \<in> set (edge_defs new) \<longrightarrow> ed_name e' = ed_name e \<longrightarrow>
      ed_from e' = ed_from e \<and> ed_to e' = ed_to e \<and>
      (validate_properties L lbl (ed_props e) props = Ok () \<longrightarrow>
       validate_properties L lbl (ed_props e') (kept_props (ed_props e) (ed_props e') props) = Ok ()))"
proof (intro conjI allI impI)
  have ok: "check_node_changes (node_map old) (node_map new) = Ok ()" "check_edge_changes (edge_map old) (edge_map new) = Ok ()"
    using assms(1) by (auto simp: validate_migration_def try_res_eq_Ok)
  fix n n' and props :: "'a props"
  assume n: "n \<in> set (node_defs old)" "n' \<in> set (node_defs new)" "nd_name n' = nd_name n"
    and v: "validate_properties L lbl (nd_fields n) props = Ok ()"
  have "\<forall>(field, t)\<in>set (field_types (nd_fields n')). \<forall>t'. last_in_map (field_types (nd_fields n)) field = Some t' \<longrightarrow> t' = t"
    using ok(1) in_maps(2) [OF assms(3) n(2)] in_maps(1) [OF assms(2) n(1)] n(3) unfolding check_node_changes_iff by fastforce
  then show "validate_properties L lbl (nd_fields n') (kept_props (nd_fields n) (nd_fields n') props) = Ok ()"
    using kept_conforms v unfolding validate_properties_iff(1) by blast
next
  have ok: "check_edge_changes (edge_map old) (edge_map new) = Ok ()"
    using assms(1) by (auto simp: validate_migration_def try_res_eq_Ok)
  fix e e' and props :: "'a props"
  assume e: "e \<in> set (edge_defs old)" "e' \<in> set (edge_defs new)" "ed_name e' = ed_name e"
  have E: "ed_from e = ed_from e' \<and> ed_to e = ed_to e' \<and>
      (\<forall>(field, t)\<in>set (field_types (ed_props e')). \<forall>t'. last_in_map (field_types (ed_props e)) field = Some t' \<longrightarrow> t' = t)"
    using ok in_edge_maps(2) [OF assms(5) e(2)] in_edge_maps(1) [OF assms(4) e(1)] e(3) unfolding check_edge_changes_iff by fastforce
  then show "ed_from e' = ed_from e" "ed_to e' = ed_to e" by simp_all
  assume "validate_properties L lbl (ed_props e) props = Ok ()"
  then show "validate_properties L lbl (ed_props e') (kept_props (ed_props e) (ed_props e') props) = Ok ()"
    using kept_conforms E unfolding validate_properties_iff(1) by blast
qed

definition demo_user :: "field_def list \<Rightarrow> schema_ast" where
  "demo_user decls = \<lparr>sa_definitions = [NodeD \<lparr>nd_name = ''User'', nd_type_params = [], nd_extends = None, nd_fields = decls\<rparr>]\<rparr>"

definition demo_field :: "string \<Rightarrow> type_expr \<Rightarrow> field_def" where
  "demo_field name t = \<lparr>fd_name = name, fd_type = t, fd_indexed = False, fd_unique = False\<rparr>"

theorem migration_keeps_values_valid_witness:
  "validate_properties demo_lib ''User'' [demo_field ''age'' TInt, demo_field ''mail'' TString]
    (kept_props [demo_field ''age'' TInt, demo_field ''tag'' TJson] [demo_field ''age'' TInt, demo_field ''mail'' TString]
      [(''age'', JNumber 7), (''tag'', JNull)]) = Ok ()"
proof -
  let ?old = "[demo_field ''age'' TInt, demo_field ''tag'' TJson]" and ?new = "[demo_field ''age'' TInt, demo_field ''mail'' TString]"
  have m: "validate_migration (demo_user ?old) (demo_user ?new) = Ok ()"
    by (simp add: validate_migration_def node_map_def edge_map_def node_defs_def edge_defs_def demo_user_def field_types_def
        demo_field_def last_in_map_def type_compatible_iff)
  have "validate_properties demo_lib ''User'' ?old [(''age'', JNumber 7), (''tag'', JNull)] = Ok ()"
    by (simp add: validate_properties_def demo_field_def demo_lib_def)
  then show ?thesis
    using migration_keeps_values_valid [OF m, of demo_lib "''User''"]
    by (simp add: node_defs_def edge_defs_def demo_user_def)
qed

end
