(* ===== verification/Schema_Store.thy ===== *)
theory Schema_Store
  imports Schema Page_Chain
begin

text \<open>
  Keeping the schema in the database file (\<^verbatim>\<open>schema/store.rs\<close>): the mirror types that are
  serialised, the assignment of type ids, saving a schema to a chain of appended pages and loading it.

  \<^verbatim>\<open>serde_json\<close> is a library: the codec of the mirror type is a pair of functions that the
  operations take as an argument.
\<close>

section \<open>The serialised form\<close>

datatype type_dto =
    DInt | DFloat | DBoolean | DDateTime | DString | DJson | DBlob
  | DVector u32
  | DList type_dto
  | DMap type_dto type_dto
  | DNodeRef string
  | DEdgeRef string
  | DNamed string

record field_dto =
  fdt_name :: string
  fdt_type :: type_dto
  fdt_indexed :: bool
  fdt_unique :: bool

record bound_dto =
  bdt_name :: string
  bdt_bound :: "string option"

record node_dto =
  ndt_name :: string
  ndt_type_params :: "string list"
  ndt_extends :: "string option"
  ndt_fields :: "field_dto list"

record edge_dto =
  edt_name :: string
  edt_generic_params :: "bound_dto list"
  edt_from :: type_dto
  edt_to :: type_dto
  edt_props :: "field_dto list"

datatype def_dto = NodeT node_dto | EdgeT edge_dto

record schema_dto =
  sd_definitions :: "def_dto list"
  sd_node_type_ids :: "(string \<times> u16) list"
  sd_edge_type_ids :: "(string \<times> u16) list"
  sd_next_node_id :: u16
  sd_next_edge_id :: u16

record json_codec =
  to_vec :: "schema_dto \<Rightarrow> string + bytes"
  from_slice :: "bytes \<Rightarrow> string + schema_dto"

fun type_to_dto :: "type_expr \<Rightarrow> type_dto" where
  "type_to_dto TInt = DInt"
| "type_to_dto TFloat = DFloat"
| "type_to_dto TBoolean = DBoolean"
| "type_to_dto TDateTime = DDateTime"
| "type_to_dto TString = DString"
| "type_to_dto TJson = DJson"
| "type_to_dto TBlob = DBlob"
| "type_to_dto (TVector n) = DVector n"
| "type_to_dto (TList e) = DList (type_to_dto e)"
| "type_to_dto (TMap k v) = DMap (type_to_dto k) (type_to_dto v)"
| "type_to_dto (TNodeRef s) = DNodeRef s"
| "type_to_dto (TEdgeRef s) = DEdgeRef s"
| "type_to_dto (TNamed s) = DNamed s"

definition field_to_dto :: "field_def \<Rightarrow> field_dto" where
  "field_to_dto f = \<lparr>fdt_name = fd_name f, fdt_type = type_to_dto (fd_type f), fdt_indexed = fd_indexed f, fdt_unique = fd_unique f\<rparr>"

definition def_to_dto :: "schema_def \<Rightarrow> def_dto" where
  "def_to_dto d =
     (case d of
        NodeD n \<Rightarrow> NodeT \<lparr>ndt_name = nd_name n, ndt_type_params = nd_type_params n, ndt_extends = nd_extends n,
          ndt_fields = map field_to_dto (nd_fields n)\<rparr>
      | EdgeD e \<Rightarrow> EdgeT \<lparr>edt_name = ed_name e,
          edt_generic_params = map (\<lambda>p. \<lparr>bdt_name = bp_name p, bdt_bound = bp_bound p\<rparr>) (ed_generic_params e),
          edt_from = type_to_dto (ed_from e), edt_to = type_to_dto (ed_to e), edt_props = map field_to_dto (ed_props e)\<rparr>)"

definition ast_to_dto :: "schema_ast \<Rightarrow> schema_dto" where
  "ast_to_dto ast =
     \<lparr>sd_definitions = map def_to_dto (sa_definitions ast), sd_node_type_ids = [], sd_edge_type_ids = [],
      sd_next_node_id = 1, sd_next_edge_id = 1\<rparr>"

fun dto_to_type :: "type_dto \<Rightarrow> type_expr" where
  "dto_to_type DInt = TInt"
| "dto_to_type DFloat = TFloat"
| "dto_to_type DBoolean = TBoolean"
| "dto_to_type DDateTime = TDateTime"
| "dto_to_type DString = TString"
| "dto_to_type DJson = TJson"
| "dto_to_type DBlob = TBlob"
| "dto_to_type (DVector n) = TVector n"
| "dto_to_type (DList e) = TList (dto_to_type e)"
| "dto_to_type (DMap k v) = TMap (dto_to_type k) (dto_to_type v)"
| "dto_to_type (DNodeRef s) = TNodeRef s"
| "dto_to_type (DEdgeRef s) = TEdgeRef s"
| "dto_to_type (DNamed s) = TNamed s"

definition dto_to_field :: "field_dto \<Rightarrow> field_def" where
  "dto_to_field f = \<lparr>fd_name = fdt_name f, fd_type = dto_to_type (fdt_type f), fd_indexed = fdt_indexed f, fd_unique = fdt_unique f\<rparr>"

definition dto_to_def :: "def_dto \<Rightarrow> schema_def" where
  "dto_to_def d =
     (case d of
        NodeT n \<Rightarrow> NodeD \<lparr>nd_name = ndt_name n, nd_type_params = ndt_type_params n, nd_extends = ndt_extends n,
          nd_fields = map dto_to_field (ndt_fields n)\<rparr>
      | EdgeT e \<Rightarrow> EdgeD \<lparr>ed_name = edt_name e,
          ed_generic_params = map (\<lambda>p. \<lparr>bp_name = bdt_name p, bp_bound = bdt_bound p\<rparr>) (edt_generic_params e),
          ed_from = dto_to_type (edt_from e), ed_to = dto_to_type (edt_to e), ed_props = map dto_to_field (edt_props e)\<rparr>)"

definition dto_to_ast :: "schema_dto \<Rightarrow> schema_ast" where
  "dto_to_ast dto = \<lparr>sa_definitions = map dto_to_def (sd_definitions dto)\<rparr>"

section \<open>Type ids\<close>

text \<open>
  The loop of \<^verbatim>\<open>assign_type_ids\<close> over the definitions, with the ids given so far and the two
  counters; \<open>prev\<close> looks a name up in the assignments of the previous schema.
\<close>

record id_state =
  is_node_ids :: "(string \<times> u16) list"
  is_edge_ids :: "(string \<times> u16) list"
  is_next_node :: u16
  is_next_edge :: u16

definition take_id :: "(string \<Rightarrow> u16 option) \<Rightarrow> string \<Rightarrow> u16 \<Rightarrow> u16 \<times> u16" where
  "take_id prev name next_id = (case prev name of Some i \<Rightarrow> (i, next_id) | None \<Rightarrow> (next_id, next_id + 1))"

fun assign_loop :: "(string \<Rightarrow> u16 option) \<Rightarrow> (string \<Rightarrow> u16 option) \<Rightarrow> def_dto list \<Rightarrow> id_state \<Rightarrow> id_state" where
  "assign_loop prev_nodes prev_edges [] st = st"
| "assign_loop prev_nodes prev_edges (NodeT n # ds) st =
     (case take_id prev_nodes (ndt_name n) (is_next_node st) of (i, next_node) \<Rightarrow>
        assign_loop prev_nodes prev_edges ds
          (st\<lparr>is_node_ids := is_node_ids st @ [(ndt_name n, i)], is_next_node := next_node\<rparr>))"
| "assign_loop prev_nodes prev_edges (EdgeT e # ds) st =
     (case take_id prev_edges (edt_name e) (is_next_edge st) of (i, next_edge) \<Rightarrow>
        assign_loop prev_nodes prev_edges ds
          (st\<lparr>is_edge_ids := is_edge_ids st @ [(edt_name e, i)], is_next_edge := next_edge\<rparr>))"

definition keep_undefined :: "(string \<times> u16) list \<Rightarrow> (string \<times> u16) list \<Rightarrow> (string \<times> u16) list" where
  "keep_undefined ids previous = ids @ filter (\<lambda>(name, _). name \<notin> fst ` set ids) previous"

definition assign_type_ids :: "schema_dto \<Rightarrow> schema_dto option \<Rightarrow> schema_dto" where
  "assign_type_ids dto previous =
     (let (prev_nodes, prev_edges, next_node, next_edge) =
        (case previous of
           Some p \<Rightarrow> (map_of (rev (sd_node_type_ids p)), map_of (rev (sd_edge_type_ids p)),
                      max (sd_next_node_id p) 1, max (sd_next_edge_id p) 1)
         | None \<Rightarrow> (Map.empty, Map.empty, 1, 1));
        st = assign_loop prev_nodes prev_edges (sd_definitions dto)
          \<lparr>is_node_ids = [], is_edge_ids = [], is_next_node = next_node, is_next_edge = next_edge\<rparr>;
        (node_ids, edge_ids) =
          (case previous of
             Some p \<Rightarrow> (keep_undefined (is_node_ids st) (sd_node_type_ids p), keep_undefined (is_edge_ids st) (sd_edge_type_ids p))
           | None \<Rightarrow> (is_node_ids st, is_edge_ids st))
      in dto\<lparr>sd_node_type_ids := node_ids, sd_edge_type_ids := edge_ids,
             sd_next_node_id := is_next_node st, sd_next_edge_id := is_next_edge st\<rparr>)"

section \<open>Saving and loading\<close>

fun append_pages :: "bytes list \<Rightarrow> (database_file, unit) op" where
  "append_pages [] = ret ()"
| "append_pages (page # pages) = bnd (append_page page) (\<lambda>_. append_pages pages)"

definition write_schema_dto :: "json_codec \<Rightarrow> schema_dto \<Rightarrow> (database_file, unit) op" where
  "write_schema_dto J dto =
     bnd (lift_res (schema_err (to_vec J dto))) (\<lambda>bytes.
     case write_blob_chain (replicate (pages_needed (length bytes)) (replicate PAGE_SIZE 0)) bytes of
       (Inl e, _) \<Rightarrow> fail e
     | (Inr _, []) \<Rightarrow> fail Panicked
     | (Inr _, first # rest) \<Rightarrow>
         bnd (append_page first) (\<lambda>first_page_id.
         bnd (append_pages rest) (\<lambda>_.
         bnd (modify (\<lambda>db. db\<lparr>header := (header db)\<lparr>schema_root := first_page_id,
               schema_version := schema_version (header db) + 1\<rparr>\<rparr>)) (\<lambda>_.
         write_header))))"

text \<open>\<open>left\<close> is \<open>page_count - pages.len()\<close> before the page at hand is read.\<close>

fun read_schema_pages :: "nat \<Rightarrow> u32 \<Rightarrow> u32 \<Rightarrow> (database_file, bytes list) op" where
  "read_schema_pages left first_page_id pid =
     bnd (read_page pid) (\<lambda>page.
       let next = get32 0 page in
       if next = 0xFFFFFFFF then ret [page]
       else case left of
         0 \<Rightarrow> err (StorageCorrupted pid)
       | Suc left' \<Rightarrow>
           if unat first_page_id + unat next \<ge> 2 ^ 32 then err (StorageCorrupted pid)
           else bnd (read_schema_pages left' first_page_id (first_page_id + next)) (\<lambda>pages. ret (page # pages)))"

declare read_schema_pages.simps [simp del]

definition load_schema_dto :: "json_codec \<Rightarrow> (database_file, schema_dto) op" where
  "load_schema_dto J =
     (\<lambda>db. let first_page_id = schema_root (header db) in
       (if first_page_id = 0 then err (SchemaError ''no schema stored'')
        else
          bnd page_count (\<lambda>page_count.
          bnd (read_schema_pages (unat page_count) first_page_id first_page_id) (\<lambda>pages.
          bnd (lift_res (read_blob_chain pages)) (\<lambda>bytes.
          lift_res (schema_err (from_slice J bytes)))))) db)"

definition load_schema :: "json_codec \<Rightarrow> (database_file, schema_ast) op" where
  "load_schema J = bnd (load_schema_dto J) (\<lambda>dto. ret (dto_to_ast dto))"

definition load_type_assignments :: "json_codec \<Rightarrow> (database_file, (string \<times> u16) list \<times> (string \<times> u16) list) op" where
  "load_type_assignments J = bnd (load_schema_dto J) (\<lambda>dto. ret (sd_node_type_ids dto, sd_edge_type_ids dto))"

definition previous_schema :: "json_codec \<Rightarrow> schema_ast \<Rightarrow> bool \<Rightarrow> (database_file, schema_dto option) op" where
  "previous_schema J ast check_migration =
     (\<lambda>db. (if schema_root (header db) \<noteq> 0 then
         bnd (attempt (load_schema_dto J)) (\<lambda>r.
           case r of
             Inr old \<Rightarrow>
               bnd (if check_migration then lift_res (validate_migration (dto_to_ast old) ast) else ret ())
                 (\<lambda>_. ret (Some old))
           | Inl _ \<Rightarrow> ret None)
       else ret None) db)"

definition save_schema_with :: "json_codec \<Rightarrow> schema_ast \<Rightarrow> bool \<Rightarrow> (database_file, unit) op" where
  "save_schema_with J ast check_migration =
     bnd (previous_schema J ast check_migration) (\<lambda>previous.
     write_schema_dto J (assign_type_ids (ast_to_dto ast) previous))"

definition save_schema :: "json_codec \<Rightarrow> schema_ast \<Rightarrow> (database_file, unit) op" where
  "save_schema J ast = save_schema_with J ast True"

definition save_schema_unchecked :: "json_codec \<Rightarrow> schema_ast \<Rightarrow> (database_file, unit) op" where
  "save_schema_unchecked J ast = save_schema_with J ast False"

text \<open>Two databases are a pair of states.\<close>

definition copy_schema :: "json_codec \<Rightarrow> (database_file \<times> database_file, unit) op" where
  "copy_schema J =
     (\<lambda>(src, dst). case load_schema_dto J src of
        (Inl e, src) \<Rightarrow> (Inl e, (src, dst))
      | (Inr dto, src) \<Rightarrow> (case write_schema_dto J dto dst of (r, dst) \<Rightarrow> (r, (src, dst))))"

datatype dynamic_type_kind = DynNode | DynEdge

definition register_name :: "dynamic_type_kind \<Rightarrow> string \<Rightarrow> schema_dto \<Rightarrow> (u16 + u16 \<times> schema_dto) res" where
  "register_name kind name dto =
     (let (assignments, next_id) = (case kind of
           DynNode \<Rightarrow> (sd_node_type_ids dto, sd_next_node_id dto) | DynEdge \<Rightarrow> (sd_edge_type_ids dto, sd_next_edge_id dto))
      in case map_of assignments name of
           Some tid \<Rightarrow> Ok (Inl tid)
         | None \<Rightarrow>
             let tid = max next_id 1 in
             if unat tid + 1 \<ge> 2 ^ 16 then Err (SchemaError ''type id space exhausted (u16)'')
             else Ok (Inr (tid, (case kind of
                 DynNode \<Rightarrow> dto\<lparr>sd_next_node_id := tid + 1, sd_node_type_ids := sd_node_type_ids dto @ [(name, tid)]\<rparr>
               | DynEdge \<Rightarrow> dto\<lparr>sd_next_edge_id := tid + 1, sd_edge_type_ids := sd_edge_type_ids dto @ [(name, tid)]\<rparr>))))"

definition register_dynamic_type :: "json_codec \<Rightarrow> dynamic_type_kind \<Rightarrow> string \<Rightarrow> (database_file, u16 \<times> bool) op" where
  "register_dynamic_type J kind name =
     bnd (load_schema_dto J) (\<lambda>dto.
     bnd (lift_res (register_name kind name dto)) (\<lambda>r.
     case r of
       Inl tid \<Rightarrow> ret (tid, False)
     | Inr (tid, dto) \<Rightarrow> bnd (write_schema_dto J dto) (\<lambda>_. ret (tid, True))))"

section \<open>The conversions\<close>

lemma type_roundtrip [simp]: "dto_to_type (type_to_dto t) = t"
  by (induction t) simp_all

lemma field_roundtrip [simp]: "dto_to_field (field_to_dto f) = f"
  by (simp add: dto_to_field_def field_to_dto_def)

lemma def_roundtrip [simp]: "dto_to_def (def_to_dto d) = d"
proof -
  have "(\<lambda>p. \<lparr>bp_name = bp_name p, bp_bound = bp_bound p\<rparr>) = (\<lambda>p. p)" by (rule ext) simp
  then show ?thesis by (cases d) (simp_all add: dto_to_def_def def_to_dto_def comp_def)
qed

lemma ast_roundtrip [simp]: "dto_to_ast (ast_to_dto ast) = ast"
  by (simp add: dto_to_ast_def ast_to_dto_def comp_def)

lemma assign_definitions [simp]: "sd_definitions (assign_type_ids dto previous) = sd_definitions dto"
  by (simp add: assign_type_ids_def Let_def split: option.splits prod.splits)

lemma assigned_ast [simp]: "dto_to_ast (assign_type_ids (ast_to_dto ast) previous) = ast"
  using ast_roundtrip [of ast] by (simp add: dto_to_ast_def)

section \<open>The schema on its pages\<close>

definition schema_page :: "vol \<Rightarrow> nat \<Rightarrow> u32" where
  "schema_page v i = schema_root (vhdr v) + of_nat i"

definition schema_pages_at :: "vol \<Rightarrow> bytes list \<Rightarrow> bool" where
  "schema_pages_at v ps \<longleftrightarrow> schema_root (vhdr v) \<noteq> 0 \<and> ps \<noteq> [] \<and> unat (schema_root (vhdr v)) + length ps \<le> vcount v \<and>
     (\<forall>i<length ps. vpage v (schema_page v i) = ps ! i \<and> get32 0 (ps ! i) = chain_next (length ps) i)"

definition schema_own :: "vol \<Rightarrow> bytes list \<Rightarrow> u32 set" where
  "schema_own v ps = schema_page v ` {..<length ps}"

definition schema_at :: "json_codec \<Rightarrow> vol \<Rightarrow> bytes list \<Rightarrow> schema_dto \<Rightarrow> bool" where
  "schema_at J v ps dto \<longleftrightarrow> schema_pages_at v ps \<and>
     (\<exists>bytes. read_blob_chain ps = Ok bytes \<and> from_slice J bytes = Inr dto)"

lemma unat_schema_page:
  assumes "vol_ok v" "schema_pages_at v ps" "i < length ps"
  shows "unat (schema_page v i) = unat (schema_root (vhdr v)) + i" "mapped v (schema_page v i)"
proof -
  have b: "unat (schema_root (vhdr v)) + i < vcount v" "vcount v < 2 ^ 32"
    using assms by (auto simp: schema_pages_at_def vol_ok_def)
  have i: "unat (of_nat i :: u32) = i" using b by (intro unat_of_nat_small) simp
  show "unat (schema_page v i) = unat (schema_root (vhdr v)) + i"
    unfolding schema_page_def using b i by (subst unat_add_lem [THEN iffD1]) simp_all
  then show "mapped v (schema_page v i)" using b by simp
qed

lemma schema_own_mapped: "vol_ok v \<Longrightarrow> schema_pages_at v ps \<Longrightarrow> p \<in> schema_own v ps \<Longrightarrow> mapped v p \<and> p \<noteq> 0"
proof -
  assume a: "vol_ok v" "schema_pages_at v ps" "p \<in> schema_own v ps"
  then obtain i where i: "i < length ps" "p = schema_page v i" by (auto simp: schema_own_def)
  have "unat (schema_root (vhdr v)) \<noteq> 0" using a(2) by (simp add: schema_pages_at_def unat_eq_zero)
  then have "unat p \<noteq> 0" using unat_schema_page(1) [OF a(1,2) i(1)] i(2) by simp
  then show ?thesis using unat_schema_page(2) [OF a(1,2) i(1)] i(2) by auto
qed

lemma schema_at_cong:
  assumes "schema_at J v ps dto" "schema_root (vhdr v') = schema_root (vhdr v)" "vcount v \<le> vcount v'"
    and "\<And>p. p \<in> schema_own v ps \<Longrightarrow> vpage v' p = vpage v p"
  shows "schema_at J v' ps dto" "schema_own v' ps = schema_own v ps"
proof -
  have page: "schema_page v' = schema_page v" using assms(2) by (simp add: schema_page_def fun_eq_iff)
  then show "schema_own v' ps = schema_own v ps" by (simp add: schema_own_def)
  have "vpage v' (schema_page v i) = vpage v (schema_page v i)" if "i < length ps" for i
    using assms(4) that by (auto simp: schema_own_def)
  then show "schema_at J v' ps dto" using assms(1-3) page by (auto simp: schema_at_def schema_pages_at_def)
qed

section \<open>Loading\<close>

lemma read_schema_pages_does:
  assumes ok: "vol_ok v" and at: "schema_pages_at v ps"
  shows "i < length ps \<Longrightarrow> length ps \<le> left + i + 1 \<Longrightarrow>
    db_does (read_schema_pages left (schema_root (vhdr v)) (schema_page v i)) v (Ok (drop i ps)) v"
proof (induction left arbitrary: i)
  note A = at [unfolded schema_pages_at_def]
  have page: "vpage v (schema_page v i) = ps ! i" "get32 0 (ps ! i) = chain_next (length ps) i" if "i < length ps" for i
    using A that by blast+
  have last: "drop i ps = [ps ! i]" "chain_next (length ps) i = 0xFFFFFFFF" if "i < length ps" "length ps \<le> i + 1" for i
  proof -
    have "drop (Suc i) ps = []" using that by simp
    then show "drop i ps = [ps ! i]" using Cons_nth_drop_Suc [OF that(1)] by simp
    show "chain_next (length ps) i = 0xFFFFFFFF" using that by (simp add: chain_next_def NO_NEXT_PAGE_def)
  qed
  {
    case 0
    then show ?case
      using page [of i] last [of i]
      by (subst read_schema_pages.simps) (intro db.does_bnd [OF db.does_read [OF unat_schema_page(2) [OF ok at]]], auto)
  next
    case (Suc left)
    show ?case
    proof (cases "i + 1 < length ps")
      case False
      then show ?thesis
        using page [of i] last [of i] Suc.prems
        by (subst read_schema_pages.simps) (intro db.does_bnd [OF db.does_read [OF unat_schema_page(2) [OF ok at]]], auto)
    next
      case True
      have small: "unat (schema_root (vhdr v)) + (i + 1) < 2 ^ 32" using A True ok by (auto simp: vol_ok_def)
      have u: "unat (of_nat (i + 1) :: u32) = i + 1" using small by (intro unat_of_nat_small) simp
      have nx: "chain_next (length ps) i = of_nat (i + 1)" using True by (simp add: chain_next_def)
      have ne: "(of_nat (i + 1) :: u32) \<noteq> 0xFFFFFFFF"
      proof
        assume "(of_nat (i + 1) :: u32) = 0xFFFFFFFF"
        then have "i + 1 = unat (0xFFFFFFFF :: u32)" using u by simp
        moreover have "unat (schema_root (vhdr v)) \<noteq> 0" using A by (simp add: unat_eq_zero)
        ultimately show False using small by simp
      qed
      have "schema_page v (i + 1) = schema_root (vhdr v) + of_nat (i + 1)" by (simp only: schema_page_def)
      moreover have "db_does (read_schema_pages left (schema_root (vhdr v)) (schema_page v (i + 1))) v (Ok (drop (i + 1) ps)) v"
        using Suc.IH [of "i + 1"] Suc.prems True by simp
      moreover have "drop i ps = ps ! i # drop (i + 1) ps" using Cons_nth_drop_Suc [OF Suc.prems(1)] by simp
      ultimately show ?thesis
        unfolding read_schema_pages.simps [of "Suc left"]
        apply (intro db.does_bnd [OF db.does_read [OF unat_schema_page(2) [OF ok at Suc.prems(1)]]])
        unfolding page [OF Suc.prems(1)] nx Let_def if_not_P [OF ne] nat.case u
        using small by (auto simp del: of_nat_add of_nat_Suc intro: db.does_bnd)
    qed
  }
qed

lemma load_schema_dto_does:
  assumes ok: "vol_ok v" and at: "schema_at J v ps dto"
  shows "db_does (load_schema_dto J) v (Ok dto) v"
proof -
  have pages: "schema_pages_at v ps" using at by (simp add: schema_at_def)
  obtain bytes where b: "read_blob_chain ps = Ok bytes" "from_slice J bytes = Inr dto" using at by (auto simp: schema_at_def)
  have n: "0 < length ps" "length ps \<le> vcount v + 0 + 1" "schema_root (vhdr v) \<noteq> 0"
    using pages by (auto simp: schema_pages_at_def)
  have r: "db_does (read_schema_pages (unat (of_nat (vcount v) :: u32)) (schema_root (vhdr v)) (schema_root (vhdr v))) v (Ok ps) v"
    using read_schema_pages_does [OF ok pages n(1,2)] unat_page_count [OF ok] by (simp add: schema_page_def)
  have "db_does (bnd page_count (\<lambda>page_count.
          bnd (read_schema_pages (unat page_count) (schema_root (vhdr v)) (schema_root (vhdr v))) (\<lambda>pages.
          bnd (lift_res (read_blob_chain pages)) (\<lambda>bytes. lift_res (schema_err (from_slice J bytes)))))) v (Ok dto) v"
    by (rule db.does_bnd [OF does_page_count], rule db.does_bnd [OF r]) (simp add: b db.does_lift)
  then show ?thesis
    unfolding load_schema_dto_def Let_def
    by (intro db.does_gets_with [where k = "\<lambda>h. if schema_root h = 0 then err (SchemaError ''no schema stored'') else
        bnd page_count (\<lambda>page_count.
          bnd (read_schema_pages (unat page_count) (schema_root h) (schema_root h)) (\<lambda>pages.
          bnd (lift_res (read_blob_chain pages)) (\<lambda>bytes. lift_res (schema_err (from_slice J bytes)))))"]) (simp add: n(3))
qed

lemma load_no_schema: "schema_root (vhdr v) = 0 \<Longrightarrow> db_does (load_schema_dto J) v (Err (SchemaError ''no schema stored'')) v"
  unfolding load_schema_dto_def Let_def
  by (intro db.does_gets_with [where k = "\<lambda>h. if schema_root h = 0 then err (SchemaError ''no schema stored'') else
        bnd page_count (\<lambda>page_count.
          bnd (read_schema_pages (unat page_count) (schema_root h) (schema_root h)) (\<lambda>pages.
          bnd (lift_res (read_blob_chain pages)) (\<lambda>bytes. lift_res (schema_err (from_slice J bytes)))))"]) simp

section \<open>Writing\<close>

definition vappends :: "bytes list \<Rightarrow> vol \<Rightarrow> vol" where
  "vappends ps v = fold vappend ps v"

lemma vappends_simps [simp]: "vcount (vappends ps v) = vcount v + length ps" "vhdr (vappends ps v) = vhdr v"
  unfolding vappends_def by (induction ps arbitrary: v) simp_all

lemma vappends_old:
  "vcount v + length ps < 2 ^ 32 \<Longrightarrow> mapped v p \<Longrightarrow> vpage (vappends ps v) p = vpage v p"
proof (induction ps arbitrary: v)
  case (Cons d ps)
  have "p \<noteq> of_nat (vcount v)" using fresh_page [of v p] Cons.prems by simp
  moreover have "mapped (vappend d v) p" using Cons.prems by simp
  ultimately show ?case using Cons.IH [of "vappend d v"] Cons.prems by (simp add: vappends_def)
qed (simp add: vappends_def)

lemma vappends_new:
  "vcount v + length ps < 2 ^ 32 \<Longrightarrow> i < length ps \<Longrightarrow> vpage (vappends ps v) (of_nat (vcount v + i)) = ps ! i"
proof (induction ps arbitrary: v i)
  case (Cons d ps)
  show ?case
  proof (cases i)
    case 0
    have "unat (of_nat (vcount v) :: u32) = vcount v" using Cons.prems by (intro unat_of_nat_small) simp
    then have "mapped (vappend d v) (of_nat (vcount v))" by simp
    then have "vpage (vappends ps (vappend d v)) (of_nat (vcount v)) = d"
      using vappends_old [of "vappend d v" ps] Cons.prems by simp
    then show ?thesis using 0 by (simp add: vappends_def)
  next
    case (Suc j)
    then show ?thesis using Cons.IH [of "vappend d v" j] Cons.prems by (simp add: vappends_def)
  qed
qed simp

lemma append_pages_does:
  "vcount v + length ps < 2 ^ 32 \<Longrightarrow> \<forall>p\<in>set ps. length p = PAGE_SIZE \<Longrightarrow> db_does (append_pages ps) v (Ok ()) (vappends ps v)"
proof (induction ps arbitrary: v)
  case (Cons d ps)
  have "db_does (append_page d) v (Ok (of_nat (vcount v))) (vappend d v)" using Cons.prems by (intro db.does_append) simp_all
  moreover have "db_does (append_pages ps) (vappend d v) (Ok ()) (vappends ps (vappend d v))"
    using Cons.prems by (intro Cons.IH) simp_all
  ultimately show ?case by (simp add: vappends_def db.does_bnd)
qed (simp add: vappends_def)

lemma vappends_ok: "vol_ok v \<Longrightarrow> vcount v + length ps < 2 ^ 32 \<Longrightarrow> \<forall>p\<in>set ps. length p = PAGE_SIZE \<Longrightarrow> vol_ok (vappends ps v)"
proof (induction ps arbitrary: v)
  case (Cons d ps)
  have "vol_ok (vappend d v)" using Cons.prems by (intro vol_ok_vappend) simp_all
  then show ?case using Cons.IH [of "vappend d v"] Cons.prems by (simp add: vappends_def)
qed (simp add: vappends_def)

lemma written_chain:
  assumes "needed = pages_needed (length d)" "needed < 2 ^ 32 - 1"
  shows "\<exists>ps. write_blob_chain (replicate needed (replicate PAGE_SIZE 0)) d = (Ok (), ps) \<and> length ps = needed \<and>
    read_blob_chain ps = Ok d \<and> (\<forall>p\<in>set ps. length p = PAGE_SIZE) \<and> (\<forall>i<needed. get32 0 (ps ! i) = chain_next needed i)"
proof -
  let ?z = "replicate needed (replicate PAGE_SIZE 0) :: bytes list"
  let ?ps = "write_chain_loop needed d 0 0 ?z"
  have w: "write_blob_chain ?z d = (Ok (), ?ps)" using assms(1) by (simp add: write_blob_chain_def Let_def)
  moreover have "read_blob_chain ?ps = Ok d"
    using blob_chain_roundtrip [of ?z d] assms w by auto
  moreover have page: "?ps ! i = chain_page (chain_next needed i) (take CHAIN_DATA_PER_PAGE (drop (i * CHAIN_DATA_PER_PAGE) d))
      (replicate PAGE_SIZE 0)" if "i < needed" for i
    using write_chain_loop_nth [of 0 0 d i ?z needed] that by simp
  have f: "get32 0 (?ps ! i) = chain_next needed i" "length (?ps ! i) = PAGE_SIZE" if "i < needed" for i
    using chain_page_fields [of "replicate PAGE_SIZE 0" "take CHAIN_DATA_PER_PAGE (drop (i * CHAIN_DATA_PER_PAGE) d)"]
    unfolding page [OF that] by simp_all
  moreover have "\<forall>p\<in>set ?ps. length p = PAGE_SIZE" using f(2) by (auto simp: in_set_conv_nth)
  ultimately show ?thesis by (intro exI [of _ ?ps]) simp
qed

definition fits :: "json_codec \<Rightarrow> nat \<Rightarrow> schema_dto \<Rightarrow> nat \<Rightarrow> bool" where
  "fits J n dto n' \<longleftrightarrow> (\<exists>bytes. to_vec J dto = Inr bytes \<and> from_slice J bytes = Inr dto \<and>
     n' = n + pages_needed (length bytes) \<and> n' < 2 ^ 32)"

lemma write_schema_does:
  assumes ok: "vol_ok v" and v0: "0 < vcount v" and fits: "fits J (vcount v) dto n'"
  shows "\<exists>v' ps. db_does (write_schema_dto J dto) v (Ok ()) v' \<and> schema_at J v' ps dto \<and> vol_ok v' \<and> vcount v' = n' \<and>
    vhdr v' = (vhdr v)\<lparr>schema_root := of_nat (vcount v), schema_version := schema_version (vhdr v) + 1\<rparr> \<and>
    own_frame (length ps) v {} v' (schema_own v' ps)"
proof -
  obtain bytes where b: "to_vec J dto = Inr bytes" "from_slice J bytes = Inr dto"
      "n' = vcount v + pages_needed (length bytes)" "n' < 2 ^ 32"
    using fits by (auto simp: fits_def)
  let ?n = "pages_needed (length bytes)"
  have n: "?n < 2 ^ 32 - 1" "0 < ?n" using b v0 pages_needed_bounds(1) by simp_all
  obtain ps where ps: "write_blob_chain (replicate ?n (replicate PAGE_SIZE 0)) bytes = (Ok (), ps)" "length ps = ?n"
      "read_blob_chain ps = Ok bytes" "\<forall>p\<in>set ps. length p = PAGE_SIZE" "\<forall>i<?n. get32 0 (ps ! i) = chain_next ?n i"
    using written_chain [OF refl n(1)] by (elim exE conjE) (rule that)
  obtain first rest where fr: "ps = first # rest" using ps(2) n(2) by (cases ps) auto
  define h where "h = (vhdr v)\<lparr>schema_root := of_nat (vcount v), schema_version := schema_version (vhdr v) + 1\<rparr>"
  define v1 where "v1 = vappends ps v"
  define v' where "v' = vsave_header h v1"
  have room: "vcount v + length ps < 2 ^ 32" using b ps(2) by simp
  have v1: "vcount v1 = vcount v + length ps" "vhdr v1 = vhdr v" by (simp_all add: v1_def)
  have save: "db_does (bnd (modify (\<lambda>db. db\<lparr>header := (header db)\<lparr>schema_root := of_nat (vcount v),
        schema_version := schema_version (header db) + 1\<rparr>\<rparr>)) (\<lambda>_. write_header)) v1 (Ok ()) v'"
    using does_save_header [of v1 "\<lambda>h. h\<lparr>schema_root := of_nat (vcount v), schema_version := schema_version h + 1\<rparr>"] v0
    by (simp add: v'_def h_def v1)
  have "db_does (append_page first) v (Ok (of_nat (vcount v))) (vappend first v)"
    using room ps(4) fr by (intro db.does_append) simp_all
  moreover have "db_does (append_pages rest) (vappend first v) (Ok ()) v1"
    using append_pages_does [of "vappend first v" rest] room ps(4) fr by (simp add: v1_def vappends_def)
  ultimately have does: "db_does (write_schema_dto J dto) v (Ok ()) v'"
    unfolding write_schema_dto_def b(1) schema_err_simps bnd_lift_Ok ps(1) fr prod.case sum.case list.case
    using save by (blast intro: db.does_bnd)
  have page: "schema_page v' i = of_nat (vcount v + i)" for i by (simp add: schema_page_def v'_def vsave_header_def h_def)
  have u: "unat (of_nat (vcount v + i) :: u32) = vcount v + i" if "i < length ps" for i
    using that room by (intro unat_of_nat_small) simp
  have ne0: "(of_nat (vcount v + i) :: u32) \<noteq> 0" if "i < length ps" for i using u [OF that] v0 by (metis unat_0 add_is_0 neq0_conv)
  have ok1: "vol_ok v1" unfolding v1_def using vappends_ok [OF ok room ps(4)] .
  have ok': "vol_ok v'" unfolding v'_def vsave_header_def by (intro vol_ok_vput) (simp_all add: vol_ok_hdr ok1)
  have vp: "vpage v' p = (if p = 0 then header_serialize h else vpage v1 p)" for p by (simp add: v'_def vsave_header_def)
  have cnt: "vcount v' = n'" by (simp add: v'_def vsave_header_def v1 b(3) ps(2))
  have "vpage v' (schema_page v' i) = ps ! i" if "i < length ps" for i
    unfolding page vp v1_def using ne0 [OF that] vappends_new [OF room that] by simp
  moreover have "unat (schema_root (vhdr v')) = vcount v"
    using u [of 0] n(2) ps(2) by (simp add: v'_def vsave_header_def h_def)
  ultimately have "schema_at J v' ps dto"
    unfolding schema_at_def schema_pages_at_def
    using b(2) ps n(2) v0 cnt b(3) by (auto simp: unat_eq_zero [symmetric])
  moreover have "own_frame (length ps) v {} v' (schema_own v' ps)"
  proof (rule own_frame_savedI)
    show "vcount v \<le> vcount v'" "vcount v' \<le> vcount v + length ps" using cnt b(3) ps(2) by simp_all
    show "synced v'" unfolding v'_def using v0 v1 by (intro synced_save) simp
    show "vpage v' p = vpage v p" if "mapped v p" "p \<noteq> 0" "p \<notin> {}" for p
      using vp that vappends_old [OF room] by (simp add: v1_def)
    show "p \<in> {} \<or> \<not> mapped v p" if "p \<in> schema_own v' ps" for p
      using that u by (auto simp: schema_own_def page)
  qed
  moreover have "vhdr v' = h" by (simp add: v'_def vsave_header_def)
  ultimately show ?thesis using does ok' cnt unfolding h_def by blast
qed

section \<open>Calls and the machine they implement\<close>

datatype schema_call = SaveSchema schema_ast bool | RegisterType dynamic_type_kind string | LoadSchema

datatype schema_reply = Saved "unit res" | Registered "(u16 \<times> bool) res" | Loaded "schema_ast res"

fun schema_exec :: "json_codec \<Rightarrow> schema_call \<Rightarrow> database_file \<Rightarrow> schema_reply \<times> database_file" where
  "schema_exec J (SaveSchema ast chk) db = (case save_schema_with J ast chk db of (r, db') \<Rightarrow> (Saved r, db'))"
| "schema_exec J (RegisterType kind name) db = (case register_dynamic_type J kind name db of (r, db') \<Rightarrow> (Registered r, db'))"
| "schema_exec J LoadSchema db = (case load_schema J db of (r, db') \<Rightarrow> (Loaded r, db'))"

fun schema_run :: "json_codec \<Rightarrow> schema_call list \<Rightarrow> database_file \<Rightarrow> schema_reply list \<times> database_file" where
  "schema_run J [] db = ([], db)"
| "schema_run J (c # cs) db =
     (case schema_exec J c db of (r, db') \<Rightarrow> (case schema_run J cs db' of (rs, db'') \<Rightarrow> (r # rs, db'')))"

text \<open>
  What a call answers and what it writes, as a function of the schema that is stored. The second
  component is the schema the call writes, if it writes one.
\<close>

definition no_schema :: "'a res" where
  "no_schema = Err (SchemaError ''no schema stored'')"

fun schema_plan :: "schema_dto option \<Rightarrow> schema_call \<Rightarrow> schema_reply \<times> schema_dto option" where
  "schema_plan d (SaveSchema ast chk) =
     (case (case d of Some old \<Rightarrow> if chk then validate_migration (dto_to_ast old) ast else Ok () | None \<Rightarrow> Ok ()) of
        Inl e \<Rightarrow> (Saved (Inl e), None)
      | Inr _ \<Rightarrow> (Saved (Ok ()), Some (assign_type_ids (ast_to_dto ast) d)))"
| "schema_plan d (RegisterType kind name) =
     (case d of
        None \<Rightarrow> (Registered no_schema, None)
      | Some old \<Rightarrow> (case register_name kind name old of
            Inl e \<Rightarrow> (Registered (Inl e), None)
          | Inr (Inl tid) \<Rightarrow> (Registered (Ok (tid, False)), None)
          | Inr (Inr (tid, new)) \<Rightarrow> (Registered (Ok (tid, True)), Some new)))"
| "schema_plan d LoadSchema = (Loaded (case d of None \<Rightarrow> no_schema | Some old \<Rightarrow> Ok (dto_to_ast old)), None)"

definition schema_after :: "schema_dto option \<Rightarrow> schema_call \<Rightarrow> schema_dto option" where
  "schema_after d c = (case snd (schema_plan d c) of None \<Rightarrow> d | Some new \<Rightarrow> Some new)"

text \<open>
  The traces of the machine. \<open>n\<close> is the number of pages of the file; nothing is promised from a call
  on whose schema the codec cannot encode and decode again or that does not fit into the file.
\<close>

inductive schema_trace :: "json_codec \<Rightarrow> nat \<Rightarrow> schema_dto option \<Rightarrow> schema_call list \<Rightarrow> schema_reply list \<Rightarrow> bool" for J where
  schema_end: "schema_trace J n d [] []"
| schema_misfit: "snd (schema_plan d c) = Some new \<Longrightarrow> \<nexists>n'. fits J n new n' \<Longrightarrow> schema_trace J n d (c # cs) rs"
| schema_answer: "snd (schema_plan d c) = None \<Longrightarrow> schema_trace J n d cs rs \<Longrightarrow>
    schema_trace J n d (c # cs) (fst (schema_plan d c) # rs)"
| schema_write: "snd (schema_plan d c) = Some new \<Longrightarrow> fits J n new n' \<Longrightarrow> schema_trace J n' (Some new) cs rs \<Longrightarrow>
    schema_trace J n d (c # cs) (fst (schema_plan d c) # rs)"

inductive_cases schema_trace_ConsE: "schema_trace J n d (c # cs) rs"
inductive_simps schema_trace_Nil: "schema_trace J n d [] rs"

text \<open>A file that holds a schema, or none.\<close>

definition holds_schema :: "json_codec \<Rightarrow> vol \<Rightarrow> schema_dto option \<Rightarrow> bool" where
  "holds_schema J v d \<longleftrightarrow> vol_ok v \<and> 0 < vcount v \<and>
     (case d of None \<Rightarrow> schema_root (vhdr v) = 0 | Some dto \<Rightarrow> \<exists>ps. schema_at J v ps dto)"

lemma load_held:
  assumes "holds_schema J v d"
  shows "db_does (load_schema_dto J) v (case d of None \<Rightarrow> no_schema | Some dto \<Rightarrow> Ok dto) v"
  using assms load_schema_dto_does [of v J] load_no_schema [of v J]
  by (auto simp: holds_schema_def no_schema_def split: option.splits)

lemma does_attempt:
  "db_does m v (Ok x) v' \<Longrightarrow> db_does (attempt m) v (Ok (Inr x)) v'"
  "db_does m v (Err e) v' \<Longrightarrow> db_does (attempt m) v (Ok (Inl e)) v'"
  unfolding does_def attempt_def by fastforce+

lemma held_root: "holds_schema J v d \<Longrightarrow> schema_root (vhdr v) = 0 \<longleftrightarrow> d = None"
  by (auto simp: holds_schema_def schema_at_def schema_pages_at_def split: option.splits)

lemma previous_schema_does:
  assumes "holds_schema J v d"
  shows "db_does (previous_schema J ast chk) v
    (case (case d of Some old \<Rightarrow> if chk then validate_migration (dto_to_ast old) ast else Ok () | None \<Rightarrow> Ok ()) of
       Inl e \<Rightarrow> Inl e | Inr _ \<Rightarrow> Ok d) v"
proof -
  let ?k = "\<lambda>h. if schema_root h \<noteq> 0 then
         bnd (attempt (load_schema_dto J)) (\<lambda>r.
           case r of
             Inr old \<Rightarrow>
               bnd (if chk then lift_res (validate_migration (dto_to_ast old) ast) else ret ())
                 (\<lambda>_. ret (Some old))
           | Inl _ \<Rightarrow> ret None)
       else ret None"
  have "db_does (?k (vhdr v)) v
      (case (case d of Some old \<Rightarrow> if chk then validate_migration (dto_to_ast old) ast else Ok () | None \<Rightarrow> Ok ()) of
         Inl e \<Rightarrow> Inl e | Inr _ \<Rightarrow> Ok d) v"
  proof (cases d)
    case None
    then show ?thesis using held_root [OF assms] by simp
  next
    case (Some old)
    have l: "db_does (attempt (load_schema_dto J)) v (Ok (Inr old)) v"
      using does_attempt(1) load_held [OF assms] by (simp add: Some)
    have "db_does (bnd (if chk then lift_res (validate_migration (dto_to_ast old) ast) else ret ()) (\<lambda>_. ret (Some old))) v
        (case (if chk then validate_migration (dto_to_ast old) ast else Ok ()) of Inl e \<Rightarrow> Inl e | Inr _ \<Rightarrow> Ok d) v"
      by (cases "validate_migration (dto_to_ast old) ast") (simp_all add: Some)
    then show ?thesis using held_root [OF assms] l by (simp add: Some) (auto intro: db.does_bnd)
  qed
  then show ?thesis
    unfolding previous_schema_def by (intro db.does_gets_with [where k = ?k])
qed

lemma write_held:
  assumes held: "holds_schema J v d" and fits: "fits J (vcount v) new n'"
  shows "\<exists>v'. db_does (write_schema_dto J new) v (Ok ()) v' \<and> holds_schema J v' (Some new) \<and> vcount v' = n'"
proof -
  have v: "vol_ok v" "0 < vcount v" using held by (simp_all add: holds_schema_def)
  obtain v' ps where v': "db_does (write_schema_dto J new) v (Ok ()) v'" "schema_at J v' ps new" "vol_ok v'" "vcount v' = n'"
    using write_schema_does [OF v fits] by blast
  moreover have "0 < n'" using fits v(2) by (auto simp: fits_def)
  ultimately show ?thesis unfolding holds_schema_def by (intro exI [of _ v']) auto
qed

lemma schema_exec_rep:
  assumes rep: "db_rep db v" and held: "holds_schema J v d"
    and w: "\<And>new. snd (schema_plan d c) = Some new \<Longrightarrow> fits J (vcount v) new n'"
  shows "\<exists>db' v'. schema_exec J c db = (fst (schema_plan d c), db') \<and> db_rep db' v' \<and> holds_schema J v' (schema_after d c) \<and>
    vcount v' = (if snd (schema_plan d c) = None then vcount v else n')"
proof -
  have run: "\<exists>db'. m db = (r, db') \<and> db_rep db' v'" if "db_does m v r v'" for m v' and r :: "'x res"
    using that rep unfolding does_def by blast
  note load = load_held [OF held]
  show ?thesis
  proof (cases c)
    case (SaveSchema ast chk)
    note p = previous_schema_does [OF held, of ast chk]
    show ?thesis
    proof (cases "case d of Some old \<Rightarrow> if chk then validate_migration (dto_to_ast old) ast else Ok () | None \<Rightarrow> Ok ()")
      case (Inl e)
      then have "db_does (save_schema_with J ast chk) v (Inl e) v"
        unfolding save_schema_with_def using p by (intro db.does_bnd_Inl) simp
      from run [OF this] show ?thesis using held Inl by (auto simp: SaveSchema schema_after_def)
    next
      case (Inr u)
      let ?new = "assign_type_ids (ast_to_dto ast) d"
      have plan: "schema_plan d c = (Saved (Ok ()), Some ?new)" using Inr by (simp add: SaveSchema)
      obtain v' where v': "db_does (write_schema_dto J ?new) v (Ok ()) v'" "holds_schema J v' (Some ?new)" "vcount v' = n'"
        using write_held [OF held w] plan by auto
      have "db_does (save_schema_with J ast chk) v (Ok ()) v'"
        unfolding save_schema_with_def using p Inr v'(1) by (intro db.does_bnd [where x = d and ?v1.0 = v]) simp_all
      from run [OF this] show ?thesis using v'(2,3) plan by (auto simp: SaveSchema schema_after_def)
    qed
  next
    case (RegisterType kind name)
    show ?thesis
    proof (cases d)
      case None
      then have "db_does (register_dynamic_type J kind name) v no_schema v"
        unfolding register_dynamic_type_def using load by (simp add: no_schema_def db.does_bnd_Inl)
      from run [OF this] show ?thesis using held by (auto simp: RegisterType None schema_after_def)
    next
      case (Some old)
      have l: "db_does (load_schema_dto J) v (Ok old) v" using load by (simp add: Some)
      show ?thesis
      proof (cases "register_name kind name old")
        case (Inl e)
        then have "db_does (register_dynamic_type J kind name) v (Inl e) v"
          unfolding register_dynamic_type_def by (intro db.does_bnd [OF l]) simp
        from run [OF this] show ?thesis using held Inl by (auto simp: RegisterType Some schema_after_def)
      next
        case (Inr x)
        show ?thesis
        proof (cases x)
          case (Inl tid)
          then have "db_does (register_dynamic_type J kind name) v (Ok (tid, False)) v"
            unfolding register_dynamic_type_def using Inr by (intro db.does_bnd [OF l]) simp
          from run [OF this] show ?thesis using held Inl Inr by (auto simp: RegisterType Some schema_after_def)
        next
          case b: (Inr y)
          obtain tid new where y: "y = (tid, new)" by (cases y)
          have plan: "schema_plan d c = (Registered (Ok (tid, True)), Some new)" using Inr b y by (simp add: RegisterType Some)
          obtain v' where v': "db_does (write_schema_dto J new) v (Ok ()) v'" "holds_schema J v' (Some new)" "vcount v' = n'"
            using write_held [OF held w] plan by auto
          have "db_does (bnd (write_schema_dto J new) (\<lambda>_. ret (tid, True))) v (Ok (tid, True)) v'"
            by (rule db.does_bnd [OF v'(1)]) simp
          then have "db_does (register_dynamic_type J kind name) v (Ok (tid, True)) v'"
            unfolding register_dynamic_type_def using Inr b y by (intro db.does_bnd [OF l]) simp
          from run [OF this] show ?thesis using v'(2,3) plan by (auto simp: RegisterType schema_after_def)
        qed
      qed
    qed
  next
    case LoadSchema
    have "db_does (load_schema J) v (case d of None \<Rightarrow> no_schema | Some old \<Rightarrow> Ok (dto_to_ast old)) v"
      unfolding load_schema_def using load
      by (cases d) (auto simp: no_schema_def intro: db.does_bnd db.does_bnd_Inl)
    from run [OF this] show ?thesis using held by (auto simp: LoadSchema schema_after_def)
  qed
qed

lemma schema_run_rep:
  assumes "db_rep db v" "holds_schema J v d"
  shows "schema_trace J (vcount v) d cs (fst (schema_run J cs db))"
  using assms
proof (induction cs arbitrary: db v d)
  case (Cons c cs)
  show ?case
  proof (cases "snd (schema_plan d c)")
    case None
    obtain db' v' where s: "schema_exec J c db = (fst (schema_plan d c), db')" "db_rep db' v'" "holds_schema J v' (schema_after d c)"
        "vcount v' = vcount v"
      using schema_exec_rep [OF Cons.prems, of c 0] None by auto
    have "schema_after d c = d" using None by (simp add: schema_after_def)
    then have "schema_trace J (vcount v) d cs (fst (schema_run J cs db'))" using Cons.IH [OF s(2,3)] s(4) by simp
    then show ?thesis using schema_answer [OF None] s(1) by (simp add: split_beta)
  next
    case (Some new)
    show ?thesis
    proof (cases "\<exists>n'. fits J (vcount v) new n'")
      case False
      then show ?thesis by (rule schema_misfit [OF Some])
    next
      case True
      then obtain n' where n': "fits J (vcount v) new n'" ..
      obtain db' v' where s: "schema_exec J c db = (fst (schema_plan d c), db')" "db_rep db' v'" "holds_schema J v' (schema_after d c)"
          "vcount v' = n'"
        using schema_exec_rep [OF Cons.prems, of c n'] Some n' by auto
      have "schema_after d c = Some new" using Some by (simp add: schema_after_def)
      then have "schema_trace J n' (Some new) cs (fst (schema_run J cs db'))" using Cons.IH [OF s(2,3)] s(4) by simp
      then show ?thesis using schema_write [OF Some n'] s(1) by (simp add: split_beta)
    qed
  qed
qed (simp add: schema_end)

section \<open>Stability of the type ids\<close>

text \<open>The two halves of \<open>assign_loop\<close>: ids for the names of one kind of type.\<close>

fun give_ids :: "(string \<Rightarrow> u16 option) \<Rightarrow> string list \<Rightarrow> u16 \<Rightarrow> (string \<times> u16) list \<times> u16" where
  "give_ids prev [] next_id = ([], next_id)"
| "give_ids prev (name # names) next_id =
     (case take_id prev name next_id of (i, next_id') \<Rightarrow>
      case give_ids prev names next_id' of (ids, next_id'') \<Rightarrow> ((name, i) # ids, next_id''))"

definition node_names :: "def_dto list \<Rightarrow> string list" where
  "node_names ds = [ndt_name n. NodeT n \<leftarrow> ds]"

definition edge_names :: "def_dto list \<Rightarrow> string list" where
  "edge_names ds = [edt_name e. EdgeT e \<leftarrow> ds]"

lemma assign_loop_ids:
  "is_node_ids (assign_loop pn pe ds st) = is_node_ids st @ fst (give_ids pn (node_names ds) (is_next_node st))"
  "is_edge_ids (assign_loop pn pe ds st) = is_edge_ids st @ fst (give_ids pe (edge_names ds) (is_next_edge st))"
  "is_next_node (assign_loop pn pe ds st) = snd (give_ids pn (node_names ds) (is_next_node st))"
  "is_next_edge (assign_loop pn pe ds st) = snd (give_ids pe (edge_names ds) (is_next_edge st))"
  by (induction pn pe ds st rule: assign_loop.induct) (simp_all add: node_names_def edge_names_def split: prod.splits)

text \<open>
  The assignments of one kind: names and ids are unique, and the ids lie between 1 and the counter.
\<close>

definition ids_ok :: "(string \<times> u16) list \<Rightarrow> u16 \<Rightarrow> bool" where
  "ids_ok ids next_id \<longleftrightarrow> distinct (map fst ids) \<and> distinct (map snd ids) \<and>
     (\<forall>i\<in>snd ` set ids. 0 < unat i \<and> unat i < unat (max next_id 1))"

lemma take_id_cases:
  assumes "unat n + 1 < 2 ^ 16"
  obtains i where "prev name = Some i" "take_id prev name n = (i, n)"
  | "prev name = None" "take_id prev name n = (n, n + 1)" "unat (n + 1) = unat n + 1"
proof (cases "prev name")
  case None
  have "unat (n + 1) = unat n + 1"
    using assms unat_add_lem [of n 1, THEN iffD1] by simp
  then show ?thesis using that(2) None by (simp add: take_id_def)
qed (use that(1) in \<open>simp add: take_id_def\<close>)

lemma give_ids_facts:
  assumes "give_ids prev names n = (ids, m)" "unat n + length names < 2 ^ 16" "distinct names"
  shows "map fst ids = names" "unat n \<le> unat m" "unat m \<le> unat n + length names"
    "\<And>name i. (name, i) \<in> set ids \<Longrightarrow> prev name \<noteq> None \<Longrightarrow> prev name = Some i"
    "\<And>name i. (name, i) \<in> set ids \<Longrightarrow> prev name = None \<Longrightarrow> unat n \<le> unat i \<and> unat i < unat m"
    "\<And>name name' i. (name, i) \<in> set ids \<Longrightarrow> (name', i) \<in> set ids \<Longrightarrow> prev name = None \<Longrightarrow> prev name' = None \<Longrightarrow> name = name'"
proof -
  let ?G = "\<lambda>names n ids m. map fst ids = names \<and> unat n \<le> unat m \<and> unat m \<le> unat n + length names \<and>
    (\<forall>name i. (name, i) \<in> set ids \<longrightarrow> prev name \<noteq> None \<longrightarrow> prev name = Some i) \<and>
    (\<forall>name i. (name, i) \<in> set ids \<longrightarrow> prev name = None \<longrightarrow> unat n \<le> unat i \<and> unat i < unat m) \<and>
    (\<forall>name name' i. (name, i) \<in> set ids \<longrightarrow> (name', i) \<in> set ids \<longrightarrow> prev name = None \<longrightarrow> prev name' = None \<longrightarrow> name = name')"
  have "?G names n ids m"
    using assms
  proof (induction names arbitrary: n ids m)
    case (Cons name names)
    have room: "unat n + 1 < 2 ^ 16" using Cons.prems by simp
    show ?case
    proof (rule take_id_cases [OF room, of prev name])
      fix i assume t: "prev name = Some i" "take_id prev name n = (i, n)"
      then obtain ids' where g: "give_ids prev names n = (ids', m)" "ids = (name, i) # ids'"
        using Cons.prems(1) by (auto split: prod.splits)
      then have "?G names n ids' m" using Cons.IH [OF g(1)] Cons.prems(2,3) by simp
      then show ?thesis using t(1) g(2) by auto
    next
      assume t: "prev name = None" "take_id prev name n = (n, n + 1)" "unat (n + 1) = unat n + 1"
      then obtain ids' where g: "give_ids prev names (n + 1) = (ids', m)" "ids = (name, n) # ids'"
        using Cons.prems(1) by (auto split: prod.splits)
      then have G: "?G names (n + 1) ids' m" using Cons.IH [OF g(1)] Cons.prems(2,3) t(3) by simp
      then have "i \<noteq> n" if "(name', i) \<in> set ids'" "prev name' = None" for name' i
        using that t(3) by fastforce
      then show ?thesis using t(1,3) g(2) G by fastforce
    qed
  qed simp
  then show "map fst ids = names" "unat n \<le> unat m" "unat m \<le> unat n + length names"
    "\<And>name i. (name, i) \<in> set ids \<Longrightarrow> prev name \<noteq> None \<Longrightarrow> prev name = Some i"
    "\<And>name i. (name, i) \<in> set ids \<Longrightarrow> prev name = None \<Longrightarrow> unat n \<le> unat i \<and> unat i < unat m"
    "\<And>name name' i. (name, i) \<in> set ids \<Longrightarrow> (name', i) \<in> set ids \<Longrightarrow> prev name = None \<Longrightarrow> prev name' = None \<Longrightarrow> name = name'"
    by blast+
qed

text \<open>What one kind of assignments becomes when a schema with the types \<open>names\<close> is saved.\<close>

lemma save_ids:
  assumes ok: "ids_ok old n" and d: "distinct names" and room: "unat (max n 1) + length names < 2 ^ 16"
    and g: "give_ids (map_of (rev old)) names (max n 1) = (given, n')"
  defines "new \<equiv> keep_undefined given old"
  shows "ids_ok new n'" "map_of old \<subseteq>\<^sub>m map_of new" "set names \<subseteq> fst ` set new" "unat n' \<le> unat (max n 1) + length names"
    "unat (max n 1) \<le> unat n'"
proof -
  note G = give_ids_facts [OF g room d]
  have do: "distinct (map fst old)" "distinct (map snd old)" using ok by (simp_all add: ids_ok_def)
  have rev: "map_of (rev old) = map_of old"
    using do(1) by (intro map_of_eqI) (auto simp: map_of_eq_Some_iff rev_map [symmetric])
  have keys: "fst ` set given = set names" using arg_cong [OF G(1), of set] by simp
  have n1: "0 < unat (max n 1)" by (auto simp: max_def unat_gt_0)
  show n': "unat n' \<le> unat (max n 1) + length names" "unat (max n 1) \<le> unat n'" using G(2,3) by simp_all
  have "1 \<le> n'" using n'(2) n1 by (simp add: word_le_nat_alt)
  then have mx: "max n' 1 = n'" by (rule max_absorb1)
  have old_lt: "0 < unat i \<and> unat i < unat (max n 1)" if "(name, i) \<in> set old" for name i
    using ok that by (force simp: ids_ok_def)
  have given: "(name, i) \<in> set given \<Longrightarrow> (name, i) \<in> set old \<or> (name \<notin> fst ` set old \<and> unat (max n 1) \<le> unat i \<and> unat i < unat n')" for name i
    using G(4) [of name i] G(5) [of name i] do(1) by (cases "map_of old name") (auto simp: rev map_of_eq_None_iff dest: map_of_SomeD)
  have in_new: "(name, i) \<in> set new \<longleftrightarrow> (name, i) \<in> set given \<or> ((name, i) \<in> set old \<and> name \<notin> set names)" for name i
    by (auto simp: new_def keep_undefined_def keys)
  have names_new: "distinct (map fst new)"
    using d do(1) G(1) keys by (auto simp: new_def keep_undefined_def distinct_map_filter)
  have "name = name'" if "(name, i) \<in> set new" "(name', i) \<in> set new" for name name' i
  proof -
    have uniq: "(name, i) \<in> set old \<Longrightarrow> (name', i) \<in> set old \<Longrightarrow> name = name'"
      using do(2) unfolding distinct_map inj_on_def by (metis fst_conv snd_conv)
    have "(name, i) \<in> set old \<or> name \<notin> fst ` set old \<and> (name, i) \<in> set given \<and> unat (max n 1) \<le> unat i"
        "(name', i) \<in> set old \<or> name' \<notin> fst ` set old \<and> (name', i) \<in> set given \<and> unat (max n 1) \<le> unat i"
      using that given unfolding in_new by blast+
    then show ?thesis
      using uniq old_lt [of name i] old_lt [of name' i] G(6) [of name i name'] rev
      by (auto simp: map_of_eq_None_iff)
  qed
  then have inj: "distinct (map snd new)"
    using names_new distinct_map [of fst new] by (auto simp: distinct_map inj_on_def)
  have "0 < unat i \<and> unat i < unat n'" if "(name, i) \<in> set new" for name i
    using that given old_lt n'(2) n1 unfolding in_new by fastforce
  then show "ids_ok new n'" using names_new inj by (auto simp: ids_ok_def mx)
  show "set names \<subseteq> fst ` set new" using keys by (auto simp: new_def keep_undefined_def)
  show "map_of old \<subseteq>\<^sub>m map_of new"
  proof (unfold map_le_def, intro ballI)
    fix name assume "name \<in> dom (map_of old)"
    then obtain i where i: "map_of old name = Some i" by blast
    have "(name, i) \<in> set new"
    proof (cases "name \<in> set names")
      case True
      then have "name \<in> fst ` set given" using keys by simp
      then obtain j where j: "(name, j) \<in> set given" by auto
      then have "i = j" using G(4) [OF j] i by (simp add: rev)
      then show ?thesis using j in_new by blast
    next
      case False
      then show ?thesis using i in_new by (auto dest: map_of_SomeD)
    qed
    then show "map_of old name = map_of new name" using names_new i by simp
  qed
qed

definition assigned :: "dynamic_type_kind \<Rightarrow> schema_dto \<Rightarrow> (string \<times> u16) list" where
  "assigned kind dto = (case kind of DynNode \<Rightarrow> sd_node_type_ids dto | DynEdge \<Rightarrow> sd_edge_type_ids dto)"

definition next_id_of :: "dynamic_type_kind \<Rightarrow> schema_dto \<Rightarrow> u16" where
  "next_id_of kind dto = (case kind of DynNode \<Rightarrow> sd_next_node_id dto | DynEdge \<Rightarrow> sd_next_edge_id dto)"

definition type_names :: "dynamic_type_kind \<Rightarrow> schema_ast \<Rightarrow> string list" where
  "type_names kind ast = (case kind of DynNode \<Rightarrow> map nd_name (node_defs ast) | DynEdge \<Rightarrow> map ed_name (edge_defs ast))"

lemma dto_names:
  "node_names (sd_definitions (ast_to_dto ast)) = type_names DynNode ast"
  "edge_names (sd_definitions (ast_to_dto ast)) = type_names DynEdge ast"
proof -
  have "node_names (map def_to_dto ds) = map nd_name [n. NodeD n \<leftarrow> ds]" "edge_names (map def_to_dto ds) = map ed_name [e. EdgeD e \<leftarrow> ds]" for ds
    by (induction ds) (auto simp: node_names_def edge_names_def def_to_dto_def split: schema_def.splits)
  then show "node_names (sd_definitions (ast_to_dto ast)) = type_names DynNode ast"
      "edge_names (sd_definitions (ast_to_dto ast)) = type_names DynEdge ast"
    by (simp_all add: ast_to_dto_def type_names_def node_defs_def edge_defs_def)
qed

text \<open>The schema with no definitions and no assignments stands for the state before the first save.\<close>

definition no_dto :: schema_dto where
  "no_dto = \<lparr>sd_definitions = [], sd_node_type_ids = [], sd_edge_type_ids = [], sd_next_node_id = 1, sd_next_edge_id = 1\<rparr>"

abbreviation current :: "schema_dto option \<Rightarrow> schema_dto" where
  "current d \<equiv> (case d of None \<Rightarrow> no_dto | Some dto \<Rightarrow> dto)"

lemma assign_type_ids_alt:
  "(assigned kind (assign_type_ids (ast_to_dto ast) d), next_id_of kind (assign_type_ids (ast_to_dto ast) d)) =
   (case give_ids (map_of (rev (assigned kind (current d)))) (type_names kind ast) (max (next_id_of kind (current d)) 1) of
      (given, n') \<Rightarrow> (keep_undefined given (assigned kind (current d)), n'))"
  by (cases kind; cases d)
    (simp_all add: assigned_def next_id_of_def assign_type_ids_def Let_def assign_loop_ids dto_names no_dto_def keep_undefined_def split_beta
      del: assign_definitions)

definition registry_ok :: "schema_dto \<Rightarrow> bool" where
  "registry_ok dto \<longleftrightarrow> (\<forall>kind. ids_ok (assigned kind dto) (next_id_of kind dto))"

lemma registry_ok_none: "registry_ok no_dto"
  by (auto simp: registry_ok_def ids_ok_def assigned_def no_dto_def split: dynamic_type_kind.splits)

text \<open>How many ids of a kind a call can take, and that it names no type twice.\<close>

fun ids_taken :: "dynamic_type_kind \<Rightarrow> schema_call \<Rightarrow> nat" where
  "ids_taken kind (SaveSchema ast chk) = length (type_names kind ast)"
| "ids_taken kind (RegisterType k name) = 1"
| "ids_taken kind LoadSchema = 0"

fun no_duplicates :: "schema_call \<Rightarrow> bool" where
  "no_duplicates (SaveSchema ast chk) \<longleftrightarrow> (\<forall>kind. distinct (type_names kind ast))"
| "no_duplicates c \<longleftrightarrow> True"

lemma register_ids:
  assumes ok: "registry_ok dto" and r: "register_name k name dto = Ok (Inr (tid, new))"
  shows "registry_ok new" "map_of (assigned kind dto) \<subseteq>\<^sub>m map_of (assigned kind new)" "map_of (assigned k dto) name = None"
    "map_of (assigned k new) name = Some tid" "unat (max (next_id_of kind new) 1) \<le> unat (max (next_id_of kind dto) 1) + 1"
    "tid \<notin> snd ` set (assigned k dto)"
proof -
  let ?n = "max (next_id_of k dto) 1"
  have none: "map_of (assigned k dto) name = None" and tid: "tid = ?n" "unat ?n + 1 < 2 ^ 16"
    and new: "assigned k new = assigned k dto @ [(name, tid)]" "next_id_of k new = tid + 1"
      "\<And>k'. k' \<noteq> k \<Longrightarrow> assigned k' new = assigned k' dto \<and> next_id_of k' new = next_id_of k' dto"
    using r by (auto simp: register_name_def assigned_def next_id_of_def Let_def split: dynamic_type_kind.splits option.splits if_splits)
  have u: "unat (tid + 1) = unat ?n + 1" using tid unat_add_lem [of tid 1, THEN iffD1] by simp
  then have "1 \<le> tid + 1" by (simp add: word_le_nat_alt)
  then have mx: "max (tid + 1) 1 = tid + 1" by (rule max_absorb1)
  have lt: "unat i < unat ?n" if "i \<in> snd ` set (assigned k dto)" for i
    using ok that unfolding registry_ok_def ids_ok_def by blast
  show fresh: "tid \<notin> snd ` set (assigned k dto)" using lt [of tid] unfolding tid(1) by blast
  have pos: "0 < unat tid" using tid(1) by (auto simp: max_def unat_gt_0)
  have name: "name \<notin> fst ` set (assigned k dto)" using none by (simp add: map_of_eq_None_iff)
  have "ids_ok (assigned k' new) (next_id_of k' new)" for k'
  proof (cases "k' = k")
    case True
    have old: "ids_ok (assigned k dto) (next_id_of k dto)" using ok by (simp add: registry_ok_def)
    have "0 < unat i \<and> unat i < unat (tid + 1)" if "i \<in> snd ` set (assigned k dto @ [(name, tid)])" for i
      using that lt [of i] old pos u tid(1) by (auto simp: ids_ok_def)
    moreover have "distinct (map fst (assigned k dto @ [(name, tid)]))" "distinct (map snd (assigned k dto @ [(name, tid)]))"
      using old name fresh by (simp_all add: ids_ok_def)
    ultimately show ?thesis unfolding True new(1,2) ids_ok_def mx by blast
  next
    case False
    then show ?thesis using new(3) ok by (simp add: registry_ok_def)
  qed
  then show "registry_ok new" by (simp add: registry_ok_def)
  show "map_of (assigned kind dto) \<subseteq>\<^sub>m map_of (assigned kind new)"
    using new(1,3) none by (cases "kind = k") (auto simp: map_le_def map_add_def split: option.splits)
  show "map_of (assigned k dto) name = None" by (rule none)
  show "map_of (assigned k new) name = Some tid" using new(1) none by (simp add: map_add_def)
  show "unat (max (next_id_of kind new) 1) \<le> unat (max (next_id_of kind dto) 1) + 1"
    using new(2,3) u mx by (cases "kind = k") simp_all
qed

text \<open>The ids of a kind from one schema to a later one.\<close>

definition ids_grow :: "schema_dto option \<Rightarrow> schema_dto option \<Rightarrow> bool" where
  "ids_grow d d' \<longleftrightarrow> (\<forall>kind. map_of (assigned kind (current d)) \<subseteq>\<^sub>m map_of (assigned kind (current d')))"

definition id_count :: "dynamic_type_kind \<Rightarrow> schema_dto option \<Rightarrow> nat" where
  "id_count kind d = unat (max (next_id_of kind (current d)) 1)"

lemma schema_after_ids:
  assumes ok: "registry_ok (current d)" and dup: "no_duplicates c" and room: "\<forall>kind. id_count kind d + ids_taken kind c < 2 ^ 16"
  shows "registry_ok (current (schema_after d c))" "ids_grow d (schema_after d c)"
    "id_count kind (schema_after d c) \<le> id_count kind d + ids_taken kind c"
proof -
  have "registry_ok (current (schema_after d c)) \<and> ids_grow d (schema_after d c) \<and>
    (\<forall>kind. id_count kind (schema_after d c) \<le> id_count kind d + ids_taken kind c)"
  proof (cases "snd (schema_plan d c)")
    case None
    then show ?thesis using ok by (simp add: schema_after_def ids_grow_def)
  next
    case (Some new)
    then have after: "schema_after d c = Some new" by (simp add: schema_after_def)
    show ?thesis
    proof (cases c)
      case (SaveSchema ast chk)
      then have new: "new = assign_type_ids (ast_to_dto ast) d" using Some by (auto split: sum.splits)
      have k: "ids_ok (assigned kind new) (next_id_of kind new) \<and> map_of (assigned kind (current d)) \<subseteq>\<^sub>m map_of (assigned kind new) \<and>
          unat (max (next_id_of kind new) 1) \<le> id_count kind d + ids_taken kind c" for kind
      proof -
        obtain given n' where g: "give_ids (map_of (rev (assigned kind (current d)))) (type_names kind ast)
            (max (next_id_of kind (current d)) 1) = (given, n')" by fastforce
        have o: "ids_ok (assigned kind (current d)) (next_id_of kind (current d))" using ok by (simp add: registry_ok_def)
        have dn: "distinct (type_names kind ast)" using dup by (simp add: SaveSchema)
        have r: "unat (max (next_id_of kind (current d)) 1) + length (type_names kind ast) < 2 ^ 16"
          using room by (simp add: SaveSchema id_count_def)
        have n: "assigned kind new = keep_undefined given (assigned kind (current d))" "next_id_of kind new = n'"
          using assign_type_ids_alt [of kind ast d] g by (simp_all add: new)
        note S = save_ids [OF o dn r g]
        have "0 < unat (max (next_id_of kind (current d)) 1)" by (auto simp: max_def unat_gt_0)
        then have "1 \<le> n'" using S(5) by (simp add: word_le_nat_alt)
        then have "max n' 1 = n'" by (rule max_absorb1)
        then show ?thesis using S n by (simp add: SaveSchema id_count_def)
      qed
      then show ?thesis unfolding after by (simp add: registry_ok_def ids_grow_def id_count_def)
    next
      case (RegisterType k name)
      then obtain old tid where old: "d = Some old" "register_name k name old = Ok (Inr (tid, new))"
        using Some by (auto split: option.splits sum.splits)
      have ok': "registry_ok old" using ok by (simp add: old)
      note R = register_ids [OF ok' old(2)]
      show ?thesis unfolding after using R(1,2,5) by (simp add: ids_grow_def id_count_def old RegisterType)
    next
      case LoadSchema
      then show ?thesis using Some by simp
    qed
  qed
  then show "registry_ok (current (schema_after d c))" "ids_grow d (schema_after d c)"
    "id_count kind (schema_after d c) \<le> id_count kind d + ids_taken kind c" by simp_all
qed

lemma ids_grow_trans: "ids_grow d d' \<Longrightarrow> ids_grow d' d'' \<Longrightarrow> ids_grow d d''"
  unfolding ids_grow_def using map_le_trans by blast

lemma schema_run_ids:
  assumes "registry_ok (current d)" "\<forall>c\<in>set cs. no_duplicates c" "\<forall>kind. id_count kind d + sum_list (map (ids_taken kind) cs) < 2 ^ 16"
  shows "registry_ok (current (foldl schema_after d cs)) \<and> ids_grow d (foldl schema_after d cs)"
  using assms
proof (induction cs arbitrary: d)
  case Nil
  then show ?case by (simp add: ids_grow_def)
next
  case (Cons c cs)
  have room: "\<forall>kind. id_count kind d + ids_taken kind c < 2 ^ 16"
  proof
    fix kind
    have "id_count kind d + sum_list (map (ids_taken kind) (c # cs)) < 2 ^ 16" using Cons.prems(3) by blast
    then show "id_count kind d + ids_taken kind c < 2 ^ 16" by simp
  qed
  have dup: "no_duplicates c" using Cons.prems(2) by simp
  note S = schema_after_ids [OF Cons.prems(1) dup room]
  have room': "\<forall>kind. id_count kind (schema_after d c) + sum_list (map (ids_taken kind) cs) < 2 ^ 16"
  proof
    fix kind
    have "id_count kind d + sum_list (map (ids_taken kind) (c # cs)) < 2 ^ 16" using Cons.prems(3) by blast
    then show "id_count kind (schema_after d c) + sum_list (map (ids_taken kind) cs) < 2 ^ 16" using S(3) [of kind] by simp
  qed
  have dup': "\<forall>c\<in>set cs. no_duplicates c" using Cons.prems(2) by simp
  show ?case using Cons.IH [OF S(1) dup' room'] ids_grow_trans [OF S(2)] by simp
qed

text \<open>The registry of a consistent list of assignments is a bijection between its names and its ids.\<close>

lemma insert_all_maps:
  assumes "distinct (map fst ids)" "distinct (map snd ids)" "insert_all ids = (m, w)"
  shows "m = map_of ids" "w tid = Some name \<longleftrightarrow> (name, tid) \<in> set ids"
proof -
  have "insert_all (rev ids) = (map_of ids, map_of (map (\<lambda>(n, t). (t, n)) ids))" for ids :: "('a \<times> 'b) list"
    unfolding insert_all_def by (induction ids) auto
  from this [of "rev ids"] have e: "m = map_of (rev ids)" "w = map_of (map (\<lambda>(n, t). (t, n)) (rev ids))" using assms(3) by simp_all
  show "m = map_of ids" unfolding e using assms(1) by (intro map_of_eqI) (auto simp: map_of_eq_Some_iff rev_map [symmetric])
  have "map fst (map (\<lambda>(n, t). (t, n)) (rev ids)) = rev (map snd ids)" by (induction ids) auto
  then have "distinct (map fst (map (\<lambda>(n, t). (t, n)) (rev ids)))" using assms(2) by (simp only: distinct_rev)
  then show "w tid = Some name \<longleftrightarrow> (name, tid) \<in> set ids" unfolding e by (auto simp: map_of_eq_Some_iff)
qed

definition registry_of :: "schema_dto \<Rightarrow> schema_registry" where
  "registry_of dto = from_assignments (sd_node_type_ids dto) (sd_edge_type_ids dto)"

lemma registry_bijection:
  assumes "registry_ok dto"
  shows "node_type_id_of name (registry_of dto) = map_of (assigned DynNode dto) name"
    "edge_type_id_of name (registry_of dto) = map_of (assigned DynEdge dto) name"
    "node_type_name tid (registry_of dto) = Some name \<longleftrightarrow> node_type_id_of name (registry_of dto) = Some tid"
    "edge_type_name tid (registry_of dto) = Some name \<longleftrightarrow> edge_type_id_of name (registry_of dto) = Some tid"
proof -
  have d: "distinct (map fst (assigned k dto))" "distinct (map snd (assigned k dto))" for k
    using assms by (simp_all add: registry_ok_def ids_ok_def)
  obtain m w m' w' where i: "insert_all (sd_node_type_ids dto) = (m, w)" "insert_all (sd_edge_type_ids dto) = (m', w')" by fastforce
  note N = insert_all_maps [OF _ _ i(1)] and E = insert_all_maps [OF _ _ i(2)]
  show "node_type_id_of name (registry_of dto) = map_of (assigned DynNode dto) name"
    "edge_type_id_of name (registry_of dto) = map_of (assigned DynEdge dto) name"
    "node_type_name tid (registry_of dto) = Some name \<longleftrightarrow> node_type_id_of name (registry_of dto) = Some tid"
    "edge_type_name tid (registry_of dto) = Some name \<longleftrightarrow> edge_type_id_of name (registry_of dto) = Some tid"
    using d [of DynNode] d [of DynEdge] N E
    by (simp_all add: registry_of_def from_assignments_def i assigned_def node_type_id_of_def edge_type_id_of_def
        node_type_name_def edge_type_name_def)
qed

section \<open>Properties\<close>

text \<open>
  C23: the schema in the file behaves as one value. On every sequence of saving a schema, registering a
  type and loading, each call answers as a function of the last schema written: loading returns it, a
  save is refused exactly if the migration check refuses the change from it, and a save or a
  registration replaces it by itself with the type ids assigned; nothing is lost and nothing older
  comes back.
\<close>

theorem schema_store_keeps_schema:
  assumes "db_rep db v" "holds_schema J v d"
  shows "schema_trace J (vcount v) d cs (fst (schema_run J cs db))"
  using schema_run_rep [OF assms] .

definition demo_dto :: schema_dto where
  "demo_dto = assign_type_ids (ast_to_dto (demo_user [])) None"

definition demo_codec :: json_codec where
  "demo_codec = \<lparr>to_vec = (\<lambda>dto. if dto = demo_dto then Inr [1] else Inl ''not encodable''),
     from_slice = (\<lambda>bs. if bs = [1] then Inr demo_dto else Inl ''not decodable'')\<rparr>"

theorem schema_store_keeps_schema_witness:
  "fst (schema_run demo_codec [SaveSchema (demo_user []) True, LoadSchema] create_in_memory) =
    [Saved (Ok ()), Loaded (Ok (demo_user []))]"
proof -
  have held: "holds_schema demo_codec fresh_vol None"
    using fresh_vol_ok by (simp add: holds_schema_def fresh_vol_def header_new_def)
  have fit: "fits demo_codec (vcount fresh_vol) demo_dto 2"
    by (simp add: fits_def demo_codec_def fresh_vol_def pages_needed_def chain_consts)
  have "dto_to_ast demo_dto = demo_user []" by (simp add: demo_dto_def)
  then show ?thesis
    using schema_store_keeps_schema [OF create_in_memory_rep held, of "[SaveSchema (demo_user []) True, LoadSchema]"] fit
    by (auto elim!: schema_trace_ConsE simp: schema_trace_Nil demo_dto_def [symmetric])
qed

text \<open>
  C24: type ids never change and are never reused. Whatever schemas are saved and types registered, as
  long as no schema names a type twice and the 16-bit counters do not run out: a name keeps the id it
  was first given, also after its type has been removed from the schema, and names and ids stay in
  one-to-one correspondence, so that a record written under an id is never read as another type.
\<close>

theorem type_ids_are_stable:
  assumes "registry_ok (current d)" "\<forall>c\<in>set cs. no_duplicates c"
    "\<forall>kind. id_count kind d + sum_list (map (ids_taken kind) cs) < 2 ^ 16"
  shows "let r = registry_of (current d); r' = registry_of (current (foldl schema_after d cs)) in
    (\<forall>name tid. node_type_id_of name r = Some tid \<longrightarrow> node_type_id_of name r' = Some tid) \<and>
    (\<forall>name tid. edge_type_id_of name r = Some tid \<longrightarrow> edge_type_id_of name r' = Some tid) \<and>
    (\<forall>name tid. node_type_name tid r' = Some name \<longleftrightarrow> node_type_id_of name r' = Some tid) \<and>
    (\<forall>name tid. edge_type_name tid r' = Some name \<longleftrightarrow> edge_type_id_of name r' = Some tid)"
proof -
  have run: "registry_ok (current (foldl schema_after d cs))" "ids_grow d (foldl schema_after d cs)"
    using schema_run_ids [OF assms] by simp_all
  note R = registry_bijection [OF assms(1)] and R' = registry_bijection [OF run(1)]
  have "map_of (assigned kind (current (foldl schema_after d cs))) name = Some tid"
    if "map_of (assigned kind (current d)) name = Some tid" for kind name tid
    using run(2) that unfolding ids_grow_def map_le_def by (metis domI)
  then show ?thesis unfolding Let_def using R(1,2) R' by simp
qed

theorem type_ids_are_stable_witness:
  "let r' = registry_of (current (foldl schema_after (Some demo_dto) [RegisterType DynNode ''Tag'', SaveSchema \<lparr>sa_definitions = []\<rparr> True]))
   in node_type_id_of ''User'' r' = Some 1 \<and> node_type_name 1 r' = Some ''User''"
proof -
  have d: "assigned DynNode demo_dto = [(''User'', 1)]" "assigned DynEdge demo_dto = []" "next_id_of DynNode demo_dto = 2"
      "next_id_of DynEdge demo_dto = 1"
    by (simp_all add: demo_dto_def assigned_def next_id_of_def assign_type_ids_def ast_to_dto_def demo_user_def def_to_dto_def take_id_def)
  have ok: "registry_ok (current (Some demo_dto))"
    unfolding registry_ok_def ids_ok_def by (rule allI, rename_tac kind, case_tac kind) (simp_all add: d)
  have room: "\<forall>kind. id_count kind (Some demo_dto) +
      sum_list (map (ids_taken kind) [RegisterType DynNode ''Tag'', SaveSchema \<lparr>sa_definitions = []\<rparr> True]) < 2 ^ 16"
    by (rule allI, rename_tac kind, case_tac kind) (simp_all add: id_count_def d type_names_def node_defs_def edge_defs_def)
  have dup: "\<forall>c\<in>set [RegisterType DynNode ''Tag'', SaveSchema \<lparr>sa_definitions = []\<rparr> True]. no_duplicates c"
    by (auto simp: type_names_def node_defs_def edge_defs_def split: dynamic_type_kind.splits)
  have "node_type_id_of ''User'' (registry_of (current (Some demo_dto))) = Some 1"
    using registry_bijection(1) [OF ok, of "''User''"] d(1) by simp
  then show ?thesis using type_ids_are_stable [OF ok dup room] by (simp add: Let_def del: foldl_Cons)
qed

end
