(* ===== verification/Node_Lookup.thy ===== *)
theory Node_Lookup
  imports Values Schema_Store Label_Index Adjacency
begin

text \<open>
  Property paths (\<^verbatim>\<open>traversal/command.rs\<close>) and looking nodes up by scanning the topology or by
  the label index (\<^verbatim>\<open>storage/index.rs\<close>).
\<close>

section \<open>Property paths\<close>

datatype property_path = Flat string | Nested "string list"

fun walk_path :: "'n json \<Rightarrow> string list \<Rightarrow> 'n json option" where
  "walk_path v [] = Some v"
| "walk_path (JObject kvs) (segment # rest) =
     (case map_of kvs segment of None \<Rightarrow> None | Some v \<Rightarrow> walk_path v rest)"
| "walk_path _ (segment # rest) = None"

fun resolve :: "property_path \<Rightarrow> 'n props \<Rightarrow> 'n json option" where
  "resolve (Flat key) props = map_of props key"
| "resolve (Nested []) props = None"
| "resolve (Nested (first # rest)) props =
     (case map_of props first of None \<Rightarrow> None | Some v \<Rightarrow> walk_path v rest)"

fun join_dots :: "string list \<Rightarrow> string" where
  "join_dots [] = ''''"
| "join_dots [s] = s"
| "join_dots (s # ss) = s @ ''.'' @ join_dots ss"

fun display_name :: "property_path \<Rightarrow> string" where
  "display_name (Flat key) = key"
| "display_name (Nested path) = join_dots path"

section \<open>Lookup\<close>

definition props_match :: "'n lib \<Rightarrow> 'n props \<Rightarrow> property_path \<Rightarrow> 'n json \<Rightarrow> bool" where
  "props_match L props path value = some_eq L (resolve path props) value"

definition rids_of_type :: "u16 \<Rightarrow> (database_file, record_id list) op" where
  "rids_of_type tid = li_get tid"

text \<open>Whether the scan keeps a node; both scans share the body of the loop.\<close>

definition scan_matches :: "'n lib \<Rightarrow> u16 \<Rightarrow> property_path \<Rightarrow> 'n json \<Rightarrow> record_id \<Rightarrow> (database_file, bool) op" where
  "scan_matches L tid path value rid =
     bnd (read_node rid) (\<lambda>node.
       if node_type_id node \<noteq> tid then ret False
       else case n_property_ref node of
         None \<Rightarrow> ret False
       | Some pref \<Rightarrow> bnd (store_read L pref) (\<lambda>props. ret (props_match L props path value)))"

fun find_all_loop :: "'n lib \<Rightarrow> u16 \<Rightarrow> property_path \<Rightarrow> 'n json \<Rightarrow> record_id list \<Rightarrow> (database_file, record_id list) op" where
  "find_all_loop L tid path value [] = ret []"
| "find_all_loop L tid path value (rid # rids) =
     bnd (scan_matches L tid path value rid) (\<lambda>hit.
     bnd (find_all_loop L tid path value rids) (\<lambda>out. ret (if hit then rid # out else out)))"

definition find_all :: "'n lib \<Rightarrow> u16 \<Rightarrow> property_path \<Rightarrow> 'n json \<Rightarrow> (database_file, record_id list) op" where
  "find_all L tid path value = bnd live_node_rids (find_all_loop L tid path value)"

fun find_first_loop :: "'n lib \<Rightarrow> u16 \<Rightarrow> property_path \<Rightarrow> 'n json \<Rightarrow> record_id list \<Rightarrow> (database_file, record_id option) op" where
  "find_first_loop L tid path value [] = ret None"
| "find_first_loop L tid path value (rid # rids) =
     bnd (scan_matches L tid path value rid) (\<lambda>hit.
       if hit then ret (Some rid) else find_first_loop L tid path value rids)"

definition find_first :: "'n lib \<Rightarrow> u16 \<Rightarrow> property_path \<Rightarrow> 'n json \<Rightarrow> (database_file, record_id option) op" where
  "find_first L tid path value = bnd live_node_rids (find_first_loop L tid path value)"

end
