(* ===== verification/Database.thy ===== *)
theory Database
  imports Node_Lookup Property_Index Pathfinding
begin

text \<open>
  The operations of \<^verbatim>\<open>Database\<close> (\<^verbatim>\<open>db.rs\<close>) on nodes, edges, properties, labels and
  the property index. \<open>L\<close> is the value library, \<open>J\<close> the codec of the stored schema. The topology
  store has no state of its own, so a method that does not touch the cache of declared fields is an
  operation on the file.
\<close>

section \<open>Helpers\<close>

definition debug_rid :: "record_id \<Rightarrow> string" where
  "debug_rid rid = ''RecordId { page_id: PageId('' @ decimal (unat (page_id rid)) @ ''), slot_id: SlotId('' @
     decimal (unat (slot_id rid)) @ '') }''"

datatype index_op = OpAdd | OpRemove

definition is_indexable_value :: "'n json \<Rightarrow> bool" where
  "is_indexable_value v = (case v of JBool _ \<Rightarrow> True | JNumber _ \<Rightarrow> True | JString _ \<Rightarrow> True | _ \<Rightarrow> False)"

definition rid_to_id :: "record_id \<Rightarrow> u64" where
  "rid_to_id rid = push_bit 16 (ucast (page_id rid)) OR ucast (slot_id rid)"

definition id_to_rid :: "u64 \<Rightarrow> record_id" where
  "id_to_rid i = rid_new (ucast (drop_bit 16 i)) (ucast (i AND 0xFFFF))"

definition load_schema_registry :: "json_codec \<Rightarrow> (database_file, schema_registry) op" where
  "load_schema_registry J = bnd (load_type_assignments J) (\<lambda>(nodes, edges). ret (from_assignments nodes edges))"

definition find_node_def :: "string \<Rightarrow> schema_ast \<Rightarrow> node_def option" where
  "find_node_def name ast = find (\<lambda>n. nd_name n = name) (node_defs ast)"

definition find_edge_def :: "string \<Rightarrow> schema_ast \<Rightarrow> edge_def option" where
  "find_edge_def name ast = find (\<lambda>e. ed_name e = name) (edge_defs ast)"

text \<open>\<open>if properties.is_empty() { None } else { Some(PropertyStore::write(..)?) }\<close>\<close>

definition write_props :: "'n lib \<Rightarrow> 'n props \<Rightarrow> (database_file, record_id option) op" where
  "write_props L props = (if props = [] then ret None else bnd (store_write L props) (\<lambda>pref. ret (Some pref)))"

definition free_ref :: "record_id option \<Rightarrow> (database_file, unit) op" where
  "free_ref r = (case r of None \<Rightarrow> ret () | Some pref \<Rightarrow> free_property pref)"

definition get_node_properties_raw :: "'n lib \<Rightarrow> record_id \<Rightarrow> (database_file, 'n props) op" where
  "get_node_properties_raw L rid =
     bnd (read_node rid) (\<lambda>node.
       case n_property_ref node of None \<Rightarrow> ret [] | Some pref \<Rightarrow> store_read L pref)"

section \<open>The property index\<close>

definition indexed_paths_for_type :: "json_codec \<Rightarrow> u16 \<Rightarrow> (database_file, (property_path \<times> bool) list) op" where
  "indexed_paths_for_type J tid =
     bnd (attempt (load_schema J)) (\<lambda>r.
       case r of
         Inl _ \<Rightarrow> ret []
       | Inr ast \<Rightarrow>
           bnd (attempt (load_schema_registry J)) (\<lambda>r.
             case r of
               Inl _ \<Rightarrow> ret []
             | Inr reg \<Rightarrow>
                 ret (case node_type_name tid reg of
                        None \<Rightarrow> []
                      | Some type_name \<Rightarrow>
                          (case find_node_def type_name ast of
                             None \<Rightarrow> []
                           | Some n \<Rightarrow> map (\<lambda>f. (Flat (fd_name f), fd_unique f))
                               (filter (\<lambda>f. fd_indexed f \<or> fd_unique f) (nd_fields n))))))"

fun maintain_loop :: "'n lib \<Rightarrow> u16 \<Rightarrow> record_id \<Rightarrow> 'n props \<Rightarrow> index_op \<Rightarrow> (property_path \<times> bool) list \<Rightarrow> (database_file, unit) op" where
  "maintain_loop L tid rid props oper [] = ret ()"
| "maintain_loop L tid rid props oper ((pth, _) # ps) =
     (case resolve pth props of
        None \<Rightarrow> maintain_loop L tid rid props oper ps
      | Some v \<Rightarrow>
          if is_indexable_value v then
            bnd (lift_res (encode_value L v)) (\<lambda>value_bytes.
            let key = index_key_new tid (as_bytes (display_name pth)) value_bytes in
            bnd (case oper of OpAdd \<Rightarrow> pi_add key rid | OpRemove \<Rightarrow> pi_remove key rid) (\<lambda>_.
            maintain_loop L tid rid props oper ps))
          else maintain_loop L tid rid props oper ps)"

definition maintain_property_index ::
  "'n lib \<Rightarrow> json_codec \<Rightarrow> u16 \<Rightarrow> record_id \<Rightarrow> 'n props \<Rightarrow> index_op \<Rightarrow> (database_file, unit) op" where
  "maintain_property_index L J tid rid props oper =
     bnd (indexed_paths_for_type J tid) (\<lambda>ps. maintain_loop L tid rid props oper ps)"

definition is_path_indexed :: "json_codec \<Rightarrow> u16 \<Rightarrow> property_path \<Rightarrow> (database_file, bool) op" where
  "is_path_indexed J tid pth = bnd (indexed_paths_for_type J tid) (\<lambda>ps. ret (pth \<in> fst ` set ps))"

fun confirm_candidates :: "'n lib \<Rightarrow> property_path \<Rightarrow> 'n json \<Rightarrow> record_id list \<Rightarrow> (database_file, record_id list) op" where
  "confirm_candidates L pth value [] = ret []"
| "confirm_candidates L pth value (rid # rids) =
     bnd (get_node_properties_raw L rid) (\<lambda>props.
     bnd (confirm_candidates L pth value rids) (\<lambda>out.
     ret (if some_eq L (resolve pth props) value then rid # out else out)))"

definition find_all_nodes :: "'n lib \<Rightarrow> json_codec \<Rightarrow> u16 \<Rightarrow> property_path \<Rightarrow> 'n json \<Rightarrow> (database_file, record_id list) op" where
  "find_all_nodes L J tid pth value =
     bnd (is_path_indexed J tid pth) (\<lambda>indexed.
       if \<not> indexed then find_all L tid pth value
       else
         bnd (lift_res (encode_value L value)) (\<lambda>value_bytes.
         bnd (candidates (index_key_new tid (as_bytes (display_name pth)) value_bytes)) (\<lambda>rids.
         confirm_candidates L pth value rids)))"

definition find_node :: "'n lib \<Rightarrow> json_codec \<Rightarrow> u16 \<Rightarrow> property_path \<Rightarrow> 'n json \<Rightarrow> (database_file, record_id option) op" where
  "find_node L J tid pth value =
     bnd (is_path_indexed J tid pth) (\<lambda>indexed.
       if \<not> indexed then find_first L tid pth value
       else bnd (find_all_nodes L J tid pth value) (\<lambda>rids. ret (case rids of [] \<Rightarrow> None | rid # _ \<Rightarrow> Some rid)))"

fun check_unique_loop ::
  "'n lib \<Rightarrow> json_codec \<Rightarrow> u16 \<Rightarrow> 'n props \<Rightarrow> record_id option \<Rightarrow> property_path list \<Rightarrow> (database_file, unit) op" where
  "check_unique_loop L J tid props exclude [] = ret ()"
| "check_unique_loop L J tid props exclude (pth # ps) =
     (case resolve pth props of
        None \<Rightarrow> check_unique_loop L J tid props exclude ps
      | Some value \<Rightarrow>
          if is_indexable_value value then
            bnd (find_all_nodes L J tid pth value) (\<lambda>existing.
              if \<exists>rid\<in>set existing. Some rid \<noteq> exclude
              then err (UniqueViolation (display_name pth) (value_to_string L value))
              else check_unique_loop L J tid props exclude ps)
          else check_unique_loop L J tid props exclude ps)"

definition check_unique :: "'n lib \<Rightarrow> json_codec \<Rightarrow> u16 \<Rightarrow> 'n props \<Rightarrow> record_id option \<Rightarrow> (database_file, unit) op" where
  "check_unique L J tid props exclude =
     bnd (indexed_paths_for_type J tid) (\<lambda>ps.
       check_unique_loop L J tid props exclude (map fst (filter snd ps)))"

section \<open>Nodes\<close>

definition insert_node :: "'n lib \<Rightarrow> json_codec \<Rightarrow> u16 \<Rightarrow> 'n props \<Rightarrow> (database_file, record_id) op" where
  "insert_node L J tid props =
     bnd (check_unique L J tid props None) (\<lambda>_.
     bnd (write_props L props) (\<lambda>prop_ref.
     bnd (alloc_node tid) (\<lambda>rid.
     bnd (case prop_ref of
            None \<Rightarrow> ret ()
          | Some pref \<Rightarrow> bnd (read_node rid) (\<lambda>node. write_node (node\<lparr>n_property_ref := Some pref\<rparr>))) (\<lambda>_.
     bnd (li_add_new tid rid) (\<lambda>_.
     bnd (maintain_property_index L J tid rid props OpAdd) (\<lambda>_.
     ret rid))))))"

text \<open>The check of new properties against the definition of the node's type, if there is one.\<close>

definition check_node_props :: "'n lib \<Rightarrow> json_codec \<Rightarrow> u16 \<Rightarrow> 'n props \<Rightarrow> (database_file, unit) op" where
  "check_node_props L J tid props =
     bnd (attempt (load_schema J)) (\<lambda>r.
       case r of
         Inr ast \<Rightarrow>
           bnd (load_schema_registry J) (\<lambda>registry.
             case node_type_name tid registry of
               None \<Rightarrow> ret ()
             | Some type_name \<Rightarrow>
                 (case find_node_def type_name ast of
                    None \<Rightarrow> ret ()
                  | Some node_def \<Rightarrow> lift_res (validate_properties L type_name (nd_fields node_def) props)))
       | Inl (SchemaError _) \<Rightarrow> ret ()
       | Inl e \<Rightarrow> err e)"

definition update_node_properties :: "'n lib \<Rightarrow> json_codec \<Rightarrow> record_id \<Rightarrow> 'n props \<Rightarrow> (database_file, unit) op" where
  "update_node_properties L J rid props =
     bnd (node_slot_used rid) (\<lambda>used.
       if \<not> used then err (NodeNotFound (debug_rid rid))
       else
         bnd (read_node rid) (\<lambda>node.
         bnd (check_node_props L J (node_type_id node) props) (\<lambda>_.
         let tid = node_type_id node in
         bnd (get_node_properties_raw L rid) (\<lambda>old_props.
         bnd (check_unique L J tid props (Some rid)) (\<lambda>_.
         let old_pref = n_property_ref node in
         bnd (write_props L props) (\<lambda>new_pref.
         bnd (write_node (node\<lparr>n_property_ref := new_pref\<rparr>)) (\<lambda>_.
         bnd (maintain_property_index L J tid rid old_props OpRemove) (\<lambda>_.
         bnd (maintain_property_index L J tid rid props OpAdd) (\<lambda>_.
         free_ref old_pref)))))))))"

section \<open>Additional labels of nodes\<close>

definition get_additional_labels :: "'n lib \<Rightarrow> record_id \<Rightarrow> (database_file, u16 list) op" where
  "get_additional_labels L rid =
     bnd (read_node rid) (\<lambda>node.
       case n_label_ref node of
         None \<Rightarrow> ret []
       | Some lref \<Rightarrow> bnd (read_raw lref) (\<lambda>bytes. lift_res (decode_label_list L bytes)))"

definition get_node_type_ids :: "'n lib \<Rightarrow> record_id \<Rightarrow> (database_file, u16 list) op" where
  "get_node_type_ids L rid =
     bnd (read_node rid) (\<lambda>node.
     bnd (get_additional_labels L rid) (\<lambda>extra.
     ret (node_type_id node # extra)))"

fun normalize_labels :: "u16 \<Rightarrow> u16 list \<Rightarrow> u16 list \<Rightarrow> u16 list" where
  "normalize_labels primary [] normalized = normalized"
| "normalize_labels primary (l # ls) normalized =
     normalize_labels primary ls (if l \<noteq> primary \<and> l \<notin> set normalized then normalized @ [l] else normalized)"

text \<open>The two loops that update the label index, and the body of \<^verbatim>\<open>delete_node\<close>'s.\<close>

fun unlabel_all :: "record_id \<Rightarrow> u16 list \<Rightarrow> (database_file, unit) op" where
  "unlabel_all rid [] = ret ()"
| "unlabel_all rid (l # ls) = bnd (li_remove l rid) (\<lambda>_. unlabel_all rid ls)"

fun label_all :: "record_id \<Rightarrow> u16 list \<Rightarrow> (database_file, unit) op" where
  "label_all rid [] = ret ()"
| "label_all rid (l # ls) = bnd (li_add_new l rid) (\<lambda>_. label_all rid ls)"

definition write_labels :: "'n lib \<Rightarrow> u16 list \<Rightarrow> (database_file, record_id option) op" where
  "write_labels L labels =
     (if labels = [] then ret None
      else bnd (lift_res (encode_label_list L labels)) (\<lambda>bytes. bnd (write_raw bytes) (\<lambda>lref. ret (Some lref))))"

definition set_additional_labels :: "'n lib \<Rightarrow> record_id \<Rightarrow> u16 list \<Rightarrow> (database_file, unit) op" where
  "set_additional_labels L rid labels =
     bnd (read_node rid) (\<lambda>node.
     let normalized = normalize_labels (node_type_id node) labels [] in
     bnd (get_additional_labels L rid) (\<lambda>old.
     bnd (unlabel_all rid (filter (\<lambda>l. l \<notin> set normalized) old)) (\<lambda>_.
     bnd (label_all rid (filter (\<lambda>l. l \<notin> set old) normalized)) (\<lambda>_.
     let old_lref = n_label_ref node in
     bnd (write_labels L normalized) (\<lambda>lref.
     bnd (write_node (node\<lparr>n_label_ref := lref\<rparr>)) (\<lambda>_.
     free_ref old_lref))))))"

definition insert_node_with_labels :: "'n lib \<Rightarrow> json_codec \<Rightarrow> u16 \<Rightarrow> u16 list \<Rightarrow> 'n props \<Rightarrow> (database_file, record_id) op" where
  "insert_node_with_labels L J primary_type additional_labels props =
     bnd (insert_node L J primary_type props) (\<lambda>rid.
     bnd (if additional_labels \<noteq> [] then set_additional_labels L rid additional_labels else ret ()) (\<lambda>_.
     ret rid))"

definition add_node_label :: "'n lib \<Rightarrow> record_id \<Rightarrow> u16 \<Rightarrow> (database_file, unit) op" where
  "add_node_label L rid tid =
     bnd (get_additional_labels L rid) (\<lambda>labels.
       if tid \<notin> set labels then set_additional_labels L rid (labels @ [tid]) else ret ())"

definition remove_node_label :: "'n lib \<Rightarrow> record_id \<Rightarrow> u16 \<Rightarrow> (database_file, unit) op" where
  "remove_node_label L rid tid =
     bnd (get_additional_labels L rid) (\<lambda>labels. set_additional_labels L rid (filter (\<lambda>l. l \<noteq> tid) labels))"

section \<open>Deleting nodes\<close>

text \<open>The cascade: each edge once, with its property and label space.\<close>

fun delete_cascade :: "record_id list \<Rightarrow> record_id list \<Rightarrow> (database_file, unit) op" where
  "delete_cascade seen [] = ret ()"
| "delete_cascade seen (eid # eids) =
     (if eid \<in> set seen then delete_cascade seen eids
      else
        bnd (attempt (read_edge eid)) (\<lambda>r.
        bnd (case r of
               Inl _ \<Rightarrow> ret ()
             | Inr edge \<Rightarrow> bnd (free_ref (e_property_ref edge)) (\<lambda>_. free_ref (e_label_ref edge))) (\<lambda>_.
        bnd (delete_edge eid) (\<lambda>_.
        delete_cascade (eid # seen) eids))))"

definition delete_node :: "'n lib \<Rightarrow> json_codec \<Rightarrow> record_id \<Rightarrow> (database_file, unit) op" where
  "delete_node L J rid =
     bnd (node_slot_used rid) (\<lambda>used.
       if \<not> used then err (NodeNotFound (debug_rid rid))
       else
         bnd (collect_out_edges rid) (\<lambda>out_edges.
         bnd (collect_in_edges rid) (\<lambda>in_edges.
         bnd (delete_cascade [] (map e_id out_edges @ map e_id in_edges)) (\<lambda>_.
         bnd (read_node rid) (\<lambda>node.
         bnd (get_node_properties_raw L rid) (\<lambda>props.
         bnd (maintain_property_index L J (node_type_id node) rid props OpRemove) (\<lambda>_.
         bnd (get_node_type_ids L rid) (\<lambda>type_ids.
         bnd (unlabel_all rid type_ids) (\<lambda>_.
         bnd (free_ref (n_property_ref node)) (\<lambda>_.
         bnd (free_ref (n_label_ref node)) (\<lambda>_.
         free_node rid)))))))))))"

section \<open>Edges\<close>

definition insert_edge :: "'n lib \<Rightarrow> u16 \<Rightarrow> record_id \<Rightarrow> record_id \<Rightarrow> 'n props \<Rightarrow> (database_file, record_id) op" where
  "insert_edge L tid src dst props =
     bnd (node_slot_used src) (\<lambda>used.
       if \<not> used then err (NodeNotFound (''edge from '' @ debug_rid src))
       else
         bnd (node_slot_used dst) (\<lambda>used.
           if \<not> used then err (NodeNotFound (''edge to '' @ debug_rid dst))
           else
             bnd (write_props L props) (\<lambda>prop_ref.
             bnd (alloc_edge tid src dst) (\<lambda>eid.
             bnd (case prop_ref of
                    None \<Rightarrow> ret ()
                  | Some pref \<Rightarrow> bnd (read_edge eid) (\<lambda>edge. write_edge (edge\<lparr>e_property_ref := Some pref\<rparr>))) (\<lambda>_.
             bnd (append_out_edge src eid) (\<lambda>_.
             bnd (append_in_edge dst eid) (\<lambda>_.
             ret eid)))))))"

definition check_edge_props :: "'n lib \<Rightarrow> json_codec \<Rightarrow> u16 \<Rightarrow> 'n props \<Rightarrow> (database_file, unit) op" where
  "check_edge_props L J tid props =
     bnd (attempt (load_schema J)) (\<lambda>r.
       case r of
         Inr ast \<Rightarrow>
           bnd (load_schema_registry J) (\<lambda>registry.
             case edge_type_name tid registry of
               None \<Rightarrow> ret ()
             | Some type_name \<Rightarrow>
                 (case find_edge_def type_name ast of
                    None \<Rightarrow> ret ()
                  | Some edge_def \<Rightarrow> lift_res (validate_properties L type_name (ed_props edge_def) props)))
       | Inl (SchemaError _) \<Rightarrow> ret ()
       | Inl e \<Rightarrow> err e)"

definition update_edge_properties :: "'n lib \<Rightarrow> json_codec \<Rightarrow> record_id \<Rightarrow> 'n props \<Rightarrow> (database_file, unit) op" where
  "update_edge_properties L J rid props =
     bnd (edge_slot_used rid) (\<lambda>used.
       if \<not> used then err (EdgeNotFound (debug_rid rid))
       else
         bnd (read_edge rid) (\<lambda>edge.
         bnd (check_edge_props L J (edge_type_id edge) props) (\<lambda>_.
         bnd (write_props L props) (\<lambda>new_pref.
         bnd (read_edge rid) (\<lambda>edge.
         let old_pref = e_property_ref edge in
         bnd (write_edge (edge\<lparr>e_property_ref := new_pref\<rparr>)) (\<lambda>_.
         free_ref old_pref))))))"

definition db_delete_edge :: "record_id \<Rightarrow> (database_file, unit) op" where
  "db_delete_edge rid =
     bnd (edge_slot_used rid) (\<lambda>used.
       if \<not> used then err (EdgeNotFound (debug_rid rid))
       else
         bnd (read_edge rid) (\<lambda>edge.
         bnd (free_ref (e_property_ref edge)) (\<lambda>_.
         bnd (free_ref (e_label_ref edge)) (\<lambda>_.
         delete_edge rid))))"

definition get_edge_endpoints :: "record_id \<Rightarrow> (database_file, record_id \<times> record_id) op" where
  "get_edge_endpoints eid = bnd (read_edge eid) (\<lambda>edge. ret (from_node edge, to_node edge))"

definition node_exists :: "record_id \<Rightarrow> (database_file, bool) op" where
  "node_exists rid = node_slot_used rid"

definition edge_exists :: "record_id \<Rightarrow> (database_file, bool) op" where
  "edge_exists rid = edge_slot_used rid"

section \<open>Additional labels of edges\<close>

definition get_edge_additional_labels :: "'n lib \<Rightarrow> record_id \<Rightarrow> (database_file, u16 list) op" where
  "get_edge_additional_labels L rid =
     bnd (read_edge rid) (\<lambda>edge.
       case e_label_ref edge of
         None \<Rightarrow> ret []
       | Some lref \<Rightarrow> bnd (read_raw lref) (\<lambda>bytes. lift_res (decode_label_list L bytes)))"

definition get_edge_type_ids :: "'n lib \<Rightarrow> record_id \<Rightarrow> (database_file, u16 list) op" where
  "get_edge_type_ids L rid =
     bnd (read_edge rid) (\<lambda>edge.
     bnd (get_edge_additional_labels L rid) (\<lambda>extra.
     ret (edge_type_id edge # extra)))"

definition set_edge_additional_labels :: "'n lib \<Rightarrow> record_id \<Rightarrow> u16 list \<Rightarrow> (database_file, unit) op" where
  "set_edge_additional_labels L rid labels =
     bnd (read_edge rid) (\<lambda>edge.
     let normalized = normalize_labels (edge_type_id edge) labels [];
         old_lref = e_label_ref edge in
     bnd (write_labels L normalized) (\<lambda>lref.
     bnd (write_edge (edge\<lparr>e_label_ref := lref\<rparr>)) (\<lambda>_.
     free_ref old_lref)))"

definition insert_edge_with_labels ::
  "'n lib \<Rightarrow> u16 \<Rightarrow> record_id \<Rightarrow> record_id \<Rightarrow> u16 list \<Rightarrow> 'n props \<Rightarrow> (database_file, record_id) op" where
  "insert_edge_with_labels L primary_type src dst additional_labels props =
     bnd (insert_edge L primary_type src dst props) (\<lambda>eid.
     bnd (if additional_labels \<noteq> [] then set_edge_additional_labels L eid additional_labels else ret ()) (\<lambda>_.
     ret eid))"

definition add_edge_label :: "'n lib \<Rightarrow> record_id \<Rightarrow> u16 \<Rightarrow> (database_file, unit) op" where
  "add_edge_label L rid tid =
     bnd (get_edge_additional_labels L rid) (\<lambda>labels.
       if tid \<notin> set labels then set_edge_additional_labels L rid (labels @ [tid]) else ret ())"

definition remove_edge_label :: "'n lib \<Rightarrow> record_id \<Rightarrow> u16 \<Rightarrow> (database_file, unit) op" where
  "remove_edge_label L rid tid =
     bnd (get_edge_additional_labels L rid) (\<lambda>labels. set_edge_additional_labels L rid (filter (\<lambda>l. l \<noteq> tid) labels))"

section \<open>By name\<close>

definition unknown_node_type :: "string \<Rightarrow> graph_error" where
  "unknown_node_type name = SchemaError (''unknown node type: '' @ name)"

definition unknown_edge_type :: "string \<Rightarrow> graph_error" where
  "unknown_edge_type name = SchemaError (''unknown edge type: '' @ name)"

definition ok_or :: "graph_error \<Rightarrow> 'a option \<Rightarrow> 'a res" where
  "ok_or e x = (case x of None \<Rightarrow> Err e | Some y \<Rightarrow> Ok y)"

definition insert_node_by_name :: "'n lib \<Rightarrow> json_codec \<Rightarrow> string \<Rightarrow> 'n props \<Rightarrow> (database_file, record_id) op" where
  "insert_node_by_name L J type_name props =
     bnd (load_schema J) (\<lambda>ast.
     bnd (lift_res (ok_or (unknown_node_type type_name) (find_node_def type_name ast))) (\<lambda>node_def.
     bnd (lift_res (validate_properties L type_name (nd_fields node_def) props)) (\<lambda>_.
     bnd (load_schema_registry J) (\<lambda>registry.
     bnd (lift_res (ok_or (unknown_node_type type_name) (node_type_id_of type_name registry))) (\<lambda>tid.
     insert_node L J tid props)))))"

definition resolve_endpoint_type :: "type_expr \<Rightarrow> bound_param list \<Rightarrow> string option" where
  "resolve_endpoint_type t generic_params =
     (case t of
        TNamed name \<Rightarrow> (case find (\<lambda>p. bp_name p = name) generic_params of Some bp \<Rightarrow> bp_bound bp | None \<Rightarrow> Some name)
      | TNodeRef name \<Rightarrow> Some name
      | _ \<Rightarrow> None)"

definition check_endpoint :: "string \<Rightarrow> string \<Rightarrow> string option \<Rightarrow> u16 \<Rightarrow> schema_registry \<Rightarrow> unit res" where
  "check_endpoint type_name side required tid registry =
     (case required of
        None \<Rightarrow> Ok ()
      | Some required_type \<Rightarrow>
          let actual_type = (case node_type_name tid registry of None \<Rightarrow> '''' | Some name \<Rightarrow> name) in
          if actual_type \<noteq> required_type
          then Err (ValidationError (''edge '' @ type_name @ '': '' @ quoted side @ '' node must be type '' @
                 quoted required_type @ '', got '' @ quoted actual_type))
          else Ok ())"

definition insert_edge_by_name ::
  "'n lib \<Rightarrow> json_codec \<Rightarrow> string \<Rightarrow> record_id \<Rightarrow> record_id \<Rightarrow> 'n props \<Rightarrow> (database_file, record_id) op" where
  "insert_edge_by_name L J type_name src dst props =
     bnd (node_slot_used src) (\<lambda>used.
       if \<not> used then err (NodeNotFound (''from node '' @ debug_rid src))
       else
     bnd (node_slot_used dst) (\<lambda>used.
       if \<not> used then err (NodeNotFound (''to node '' @ debug_rid dst))
       else
     bnd (read_node src) (\<lambda>src_node.
     bnd (read_node dst) (\<lambda>dst_node.
     bnd (load_schema J) (\<lambda>ast.
     bnd (lift_res (ok_or (unknown_edge_type type_name) (find_edge_def type_name ast))) (\<lambda>edge_def.
     bnd (lift_res (validate_properties L type_name (ed_props edge_def) props)) (\<lambda>_.
     bnd (load_schema_registry J) (\<lambda>registry.
     bnd (lift_res (ok_or (unknown_edge_type type_name) (edge_type_id_of type_name registry))) (\<lambda>tid.
     bnd (lift_res (check_endpoint type_name ''from''
            (resolve_endpoint_type (ed_from edge_def) (ed_generic_params edge_def)) (node_type_id src_node) registry)) (\<lambda>_.
     bnd (lift_res (check_endpoint type_name ''to''
            (resolve_endpoint_type (ed_to edge_def) (ed_generic_params edge_def)) (node_type_id dst_node) registry)) (\<lambda>_.
     insert_edge L tid src dst props)))))))))))"

definition add_edge_label_by_name :: "'n lib \<Rightarrow> json_codec \<Rightarrow> record_id \<Rightarrow> string \<Rightarrow> (database_file, unit) op" where
  "add_edge_label_by_name L J rid type_name =
     bnd (load_schema_registry J) (\<lambda>registry.
     bnd (lift_res (ok_or (unknown_edge_type type_name) (edge_type_id_of type_name registry))) (\<lambda>tid.
     add_edge_label L rid tid))"

definition remove_edge_label_by_name :: "'n lib \<Rightarrow> json_codec \<Rightarrow> record_id \<Rightarrow> string \<Rightarrow> (database_file, unit) op" where
  "remove_edge_label_by_name L J rid type_name =
     bnd (load_schema_registry J) (\<lambda>registry.
     bnd (lift_res (ok_or (unknown_edge_type type_name) (edge_type_id_of type_name registry))) (\<lambda>tid.
     remove_edge_label L rid tid))"

definition add_node_label_by_name :: "'n lib \<Rightarrow> json_codec \<Rightarrow> record_id \<Rightarrow> string \<Rightarrow> (database_file, unit) op" where
  "add_node_label_by_name L J rid type_name =
     bnd (load_schema_registry J) (\<lambda>registry.
     bnd (lift_res (ok_or (unknown_node_type type_name) (node_type_id_of type_name registry))) (\<lambda>tid.
     add_node_label L rid tid))"

definition remove_node_label_by_name :: "'n lib \<Rightarrow> json_codec \<Rightarrow> record_id \<Rightarrow> string \<Rightarrow> (database_file, unit) op" where
  "remove_node_label_by_name L J rid type_name =
     bnd (load_schema_registry J) (\<lambda>registry.
     bnd (lift_res (ok_or (unknown_node_type type_name) (node_type_id_of type_name registry))) (\<lambda>tid.
     remove_node_label L rid tid))"

fun resolve_names :: "schema_registry \<Rightarrow> string list \<Rightarrow> u16 list res" where
  "resolve_names registry [] = Ok []"
| "resolve_names registry (name # names) =
     try_res (ok_or (unknown_node_type name) (node_type_id_of name registry)) (\<lambda>tid.
     try_res (resolve_names registry names) (\<lambda>tids. Ok (tid # tids)))"

definition insert_node_with_label_names ::
  "'n lib \<Rightarrow> json_codec \<Rightarrow> string \<Rightarrow> string list \<Rightarrow> 'n props \<Rightarrow> (database_file, record_id) op" where
  "insert_node_with_label_names L J primary_type_name additional_label_names props =
     bnd (load_schema_registry J) (\<lambda>registry.
     bnd (lift_res (ok_or (unknown_node_type primary_type_name) (node_type_id_of primary_type_name registry))) (\<lambda>primary_id.
     bnd (lift_res (resolve_names registry additional_label_names)) (\<lambda>additional_ids.
     insert_node_with_labels L J primary_id additional_ids props)))"

record label_assignment =
  la_id :: u16
  la_created :: bool

definition resolve_or_register_node_type :: "json_codec \<Rightarrow> string \<Rightarrow> (database_file, label_assignment) op" where
  "resolve_or_register_node_type J name =
     bnd (load_schema_registry J) (\<lambda>registry.
       case node_type_id_of name registry of
         Some i \<Rightarrow> ret \<lparr>la_id = i, la_created = False\<rparr>
       | None \<Rightarrow> bnd (register_dynamic_type J DynNode name) (\<lambda>(i, created). ret \<lparr>la_id = i, la_created = created\<rparr>))"

fun resolve_all :: "json_codec \<Rightarrow> string list \<Rightarrow> (database_file, (string \<times> label_assignment) list) op" where
  "resolve_all J [] = ret []"
| "resolve_all J (name # names) =
     bnd (resolve_or_register_node_type J name) (\<lambda>a.
     bnd (resolve_all J names) (\<lambda>rest. ret ((name, a) # rest)))"

definition insert_node_with_dynamic_labels ::
  "'n lib \<Rightarrow> json_codec \<Rightarrow> string \<Rightarrow> string list \<Rightarrow> 'n props \<Rightarrow>
   (database_file, record_id \<times> (string \<Rightarrow> label_assignment option)) op" where
  "insert_node_with_dynamic_labels L J primary_type_name additional_label_names props =
     bnd (resolve_or_register_node_type J primary_type_name) (\<lambda>primary.
     bnd (resolve_all J additional_label_names) (\<lambda>additional.
     bnd (insert_node_with_labels L J (la_id primary) (map (\<lambda>(_, a). la_id a) additional) props) (\<lambda>rid.
     ret (rid, fold (\<lambda>(name, a) m. m(name \<mapsto> a)) ((primary_type_name, primary) # additional) Map.empty))))"

definition add_node_label_dynamic :: "'n lib \<Rightarrow> json_codec \<Rightarrow> record_id \<Rightarrow> string \<Rightarrow> (database_file, label_assignment) op" where
  "add_node_label_dynamic L J rid type_name =
     bnd (resolve_or_register_node_type J type_name) (\<lambda>a.
     bnd (add_node_label L rid (la_id a)) (\<lambda>_. ret a))"

definition add_edge_label_dynamic :: "'n lib \<Rightarrow> json_codec \<Rightarrow> record_id \<Rightarrow> string \<Rightarrow> (database_file, label_assignment) op" where
  "add_edge_label_dynamic L J rid type_name =
     bnd (load_schema_registry J) (\<lambda>registry.
     bnd (case edge_type_id_of type_name registry of
            Some i \<Rightarrow> ret \<lparr>la_id = i, la_created = False\<rparr>
          | None \<Rightarrow> bnd (register_dynamic_type J DynEdge type_name) (\<lambda>(i, created). ret \<lparr>la_id = i, la_created = created\<rparr>)) (\<lambda>a.
     bnd (add_edge_label L rid (la_id a)) (\<lambda>_. ret a)))"

definition get_node_label_names :: "'n lib \<Rightarrow> json_codec \<Rightarrow> record_id \<Rightarrow> (database_file, string list) op" where
  "get_node_label_names L J rid =
     bnd (load_schema_registry J) (\<lambda>registry.
     bnd (get_node_type_ids L rid) (\<lambda>ids. ret (List.map_filter (\<lambda>i. node_type_name i registry) ids)))"

definition get_edge_label_names :: "'n lib \<Rightarrow> json_codec \<Rightarrow> record_id \<Rightarrow> (database_file, string list) op" where
  "get_edge_label_names L J rid =
     bnd (load_schema_registry J) (\<lambda>registry.
     bnd (get_edge_type_ids L rid) (\<lambda>ids. ret (List.map_filter (\<lambda>i. edge_type_name i registry) ids)))"

text \<open>\<open>load_schema_registry().ok()\<close>\<close>

definition registry_opt :: "json_codec \<Rightarrow> (database_file, schema_registry option) op" where
  "registry_opt J = bnd (attempt (load_schema_registry J)) (\<lambda>r. ret (case r of Inl _ \<Rightarrow> None | Inr reg \<Rightarrow> Some reg))"

definition get_node_type_name :: "json_codec \<Rightarrow> record_id \<Rightarrow> (database_file, string) op" where
  "get_node_type_name J rid =
     bnd (read_node rid) (\<lambda>node.
     bnd (registry_opt J) (\<lambda>registry.
     ret (case Option.bind registry (node_type_name (node_type_id node)) of
            Some name \<Rightarrow> name | None \<Rightarrow> decimal (unat (node_type_id node)))))"

definition get_edge_type_name :: "json_codec \<Rightarrow> record_id \<Rightarrow> (database_file, string) op" where
  "get_edge_type_name J eid =
     bnd (read_edge eid) (\<lambda>edge.
     bnd (registry_opt J) (\<lambda>registry.
     ret (case Option.bind registry (edge_type_name (edge_type_id edge)) of
            Some name \<Rightarrow> name | None \<Rightarrow> decimal (unat (edge_type_id edge)))))"

section \<open>Counting\<close>

definition count_nodes :: "json_codec \<Rightarrow> string option \<Rightarrow> (database_file, nat) op" where
  "count_nodes J type_name =
     (case type_name of
        Some name \<Rightarrow>
          bnd (registry_opt J) (\<lambda>registry.
            case Option.bind registry (node_type_id_of name) of
              Some tid \<Rightarrow> bnd (rids_of_type tid) (\<lambda>rids. ret (length rids))
            | None \<Rightarrow> ret 0)
      | None \<Rightarrow> bnd live_node_rids (\<lambda>rids. ret (length rids)))"

fun count_edges_loop :: "u16 option \<Rightarrow> record_id list \<Rightarrow> (database_file, nat) op" where
  "count_edges_loop filter_id [] = ret 0"
| "count_edges_loop filter_id (rid # rids) =
     bnd (case filter_id of
            None \<Rightarrow> ret True
          | Some tid \<Rightarrow> bnd (attempt (read_edge rid)) (\<lambda>r. ret (case r of Inr edge \<Rightarrow> edge_type_id edge = tid | Inl _ \<Rightarrow> True))) (\<lambda>counted.
     bnd (count_edges_loop filter_id rids) (\<lambda>c. ret (if counted then c + 1 else c)))"

definition count_edges :: "json_codec \<Rightarrow> string option \<Rightarrow> (database_file, nat) op" where
  "count_edges J type_name =
     (case type_name of
        Some name \<Rightarrow>
          bnd (registry_opt J) (\<lambda>registry.
            case Option.bind registry (edge_type_id_of name) of
              None \<Rightarrow> ret 0
            | Some tid \<Rightarrow> bnd live_edge_rids (count_edges_loop (Some tid)))
      | None \<Rightarrow> bnd live_edge_rids (count_edges_loop None))"

end
