(* ===== verification/Schema_Text.thy ===== *)
theory Schema_Text
  imports Schema
begin

text \<open>
  The text of a schema: the construction of a syntax tree from the pairs of the generated parser
  (\<^verbatim>\<open>schema/parser.rs\<close>) and the printer (\<^verbatim>\<open>schema/unparse.rs\<close>). The parser that pest generates
  from \<^verbatim>\<open>schema.pest\<close> is the parameter \<open>G\<close>: it gives for a rule and an input the error text
  or the matched pairs. A rule is its name.
\<close>

section \<open>Parser\<close>

datatype pair = Pair (as_rule: string) (as_str: string) (into_inner: "pair list")

type_synonym grammar = "string \<Rightarrow> string \<Rightarrow> string + pair list"

fun undouble :: "string \<Rightarrow> string" where
  "undouble (a # b # cs) = (if a = CHR ''`'' \<and> b = CHR ''`'' then a # undouble cs else a # undouble (b # cs))"
| "undouble cs = cs"

fun ident_name :: "pair \<Rightarrow> string res" where
  "ident_name (Pair rule str children) =
     (if rule = ''plain_ident'' then Ok str
      else if rule = ''quoted_body'' then Ok (undouble str)
      else case children of
             [] \<Rightarrow> Err (SchemaError (''expected an identifier, found '' @ rule))
           | c # _ \<Rightarrow> ident_name c)"

text \<open>A call of \<open>next\<close> on an iterator returns the head and leaves the tail.\<close>

definition next_ident_name :: "pair list \<Rightarrow> (string \<times> pair list) res" where
  "next_ident_name inner =
     (case inner of
        [] \<Rightarrow> Err (SchemaError ''expected an identifier'')
      | p # rest \<Rightarrow> try_res (ident_name p) (\<lambda>name. Ok (name, rest)))"

text \<open>\<open>inner.next().unwrap()\<close>\<close>

definition next_pair :: "pair list \<Rightarrow> (pair \<times> pair list) res" where
  "next_pair inner = (case inner of [] \<Rightarrow> Panic | p # rest \<Rightarrow> Ok (p, rest))"

definition parse_u32 :: "string \<Rightarrow> u32 res" where
  "parse_u32 s =
     (let n = foldl (\<lambda>n c. 10 * n + (of_char c - 48)) 0 s in
      if s = [] \<or> \<not> list_all (\<lambda>c. 48 \<le> (of_char c :: nat) \<and> (of_char c :: nat) \<le> 57) s \<or> n \<ge> (2 ^ 32 :: nat)
      then Panic else Ok (of_nat n))"

definition primitive_type :: "string \<Rightarrow> type_expr res" where
  "primitive_type s =
     (if s = ''Int'' then Ok TInt
      else if s = ''Float'' then Ok TFloat
      else if s = ''Boolean'' then Ok TBoolean
      else if s = ''DateTime'' then Ok TDateTime
      else if s = ''String'' then Ok TString
      else if s = ''Json'' then Ok TJson
      else if s = ''Blob'' then Ok TBlob
      else Err (SchemaError (''unknown primitive: '' @ s)))"

text \<open>The recursion descends the tree of pairs; \<open>left\<close> bounds it by its size.\<close>

fun parse_type_expr_at :: "nat \<Rightarrow> pair \<Rightarrow> type_expr res" where
  "parse_type_expr_at 0 p = Inl Diverged"
| "parse_type_expr_at (Suc left) p =
     try_res (next_pair (into_inner p)) (\<lambda>(inner, _).
     let rule = as_rule inner; children = into_inner inner in
     if rule = ''primitive_type'' then primitive_type (as_str inner)
     else if rule = ''vector_type'' then
       try_res (next_pair children) (\<lambda>(n, _). try_res (parse_u32 (as_str n)) (\<lambda>n. Ok (TVector n)))
     else if rule = ''list_type'' then
       try_res (next_pair children) (\<lambda>(e, _). try_res (parse_type_expr_at left e) (\<lambda>elem. Ok (TList elem)))
     else if rule = ''map_type'' then
       try_res (next_pair children) (\<lambda>(k, rest). try_res (parse_type_expr_at left k) (\<lambda>k.
       try_res (next_pair rest) (\<lambda>(v, _). try_res (parse_type_expr_at left v) (\<lambda>v. Ok (TMap k v)))))
     else if rule = ''node_ref_type'' then try_res (next_ident_name children) (\<lambda>(name, _). Ok (TNodeRef name))
     else if rule = ''edge_ref_type'' then try_res (next_ident_name children) (\<lambda>(name, _). Ok (TEdgeRef name))
     else if rule = ''ident'' then try_res (ident_name inner) (\<lambda>name. Ok (TNamed name))
     else Err (SchemaError (''unexpected type rule: '' @ rule)))"

definition parse_type_expr :: "pair \<Rightarrow> type_expr res" where
  "parse_type_expr p = parse_type_expr_at (size p) p"

fun parse_annotations :: "string \<Rightarrow> pair list \<Rightarrow> bool \<times> bool \<Rightarrow> (bool \<times> bool) res" where
  "parse_annotations name [] flags = Ok flags"
| "parse_annotations name (ann # anns) (indexed, uniq) =
     (if as_rule ann \<noteq> ''annotation'' then parse_annotations name anns (indexed, uniq)
      else try_res (next_pair (into_inner ann)) (\<lambda>(p, _).
        if as_str p = ''index'' then parse_annotations name anns (True, uniq)
        else if as_str p = ''unique'' then parse_annotations name anns (indexed, True)
        else Err (SchemaError (''unknown field annotation '' @ [CHR 0x27] @ ''@'' @ as_str p @ [CHR 0x27] @ '' on '' @ quoted name))))"

definition parse_field_def :: "pair \<Rightarrow> field_def res" where
  "parse_field_def p =
     try_res (next_ident_name (into_inner p)) (\<lambda>(name, inner).
     try_res (next_pair inner) (\<lambda>(t, inner).
     try_res (parse_type_expr t) (\<lambda>type_expr.
     try_res (parse_annotations name inner (False, False)) (\<lambda>(indexed, uniq).
     Ok \<lparr>fd_name = name, fd_type = type_expr, fd_indexed = indexed, fd_unique = uniq\<rparr>))))"

definition parse_bound_param :: "pair \<Rightarrow> bound_param res" where
  "parse_bound_param p =
     try_res (next_ident_name (into_inner p)) (\<lambda>(name, inner).
     case inner of
       [] \<Rightarrow> Ok \<lparr>bp_name = name, bp_bound = None\<rparr>
     | b # _ \<Rightarrow> try_res (ident_name b) (\<lambda>bound. Ok \<lparr>bp_name = name, bp_bound = Some bound\<rparr>))"

text \<open>The loops over the parts of a definition; \<open>collect_rule\<close> is their inner loops.\<close>

fun collect_rule :: "string \<Rightarrow> (pair \<Rightarrow> 'a res) \<Rightarrow> pair list \<Rightarrow> 'a list res" where
  "collect_rule rule f [] = Ok []"
| "collect_rule rule f (p # ps) =
     (if as_rule p = rule then try_res (f p) (\<lambda>x. try_res (collect_rule rule f ps) (\<lambda>xs. Ok (x # xs)))
      else collect_rule rule f ps)"

fun node_parts :: "pair list \<Rightarrow> node_def \<Rightarrow> node_def res" where
  "node_parts [] n = Ok n"
| "node_parts (part # parts) n =
     (let rule = as_rule part in
      if rule = ''type_params'' then
        try_res (collect_rule ''type_param'' ident_name (into_inner part)) (\<lambda>ps.
        node_parts parts (n\<lparr>nd_type_params := nd_type_params n @ ps\<rparr>))
      else if rule = ''extends_clause'' then
        try_res (next_ident_name (into_inner part)) (\<lambda>(e, _). node_parts parts (n\<lparr>nd_extends := Some e\<rparr>))
      else if rule = ''field_def'' then
        try_res (parse_field_def part) (\<lambda>f. node_parts parts (n\<lparr>nd_fields := nd_fields n @ [f]\<rparr>))
      else node_parts parts n)"

definition parse_node_def :: "pair \<Rightarrow> node_def res" where
  "parse_node_def p =
     try_res (next_ident_name (into_inner p)) (\<lambda>(name, parts).
     node_parts parts \<lparr>nd_name = name, nd_type_params = [], nd_extends = None, nd_fields = []\<rparr>)"

record edge_parts =
  ep_generic_params :: "bound_param list"
  ep_from :: "type_expr option"
  ep_to :: "type_expr option"
  ep_props :: "field_def list"

fun collect_edge_parts :: "pair list \<Rightarrow> edge_parts \<Rightarrow> edge_parts res" where
  "collect_edge_parts [] e = Ok e"
| "collect_edge_parts (part # parts) e =
     (let rule = as_rule part in
      if rule = ''generic_params'' then
        try_res (collect_rule ''bound_param'' parse_bound_param (into_inner part)) (\<lambda>ps.
        collect_edge_parts parts (e\<lparr>ep_generic_params := ep_generic_params e @ ps\<rparr>))
      else if rule = ''edge_from'' then
        try_res (next_pair (into_inner part)) (\<lambda>(t, _). try_res (parse_type_expr t) (\<lambda>t.
        collect_edge_parts parts (e\<lparr>ep_from := Some t\<rparr>)))
      else if rule = ''edge_to'' then
        try_res (next_pair (into_inner part)) (\<lambda>(t, _). try_res (parse_type_expr t) (\<lambda>t.
        collect_edge_parts parts (e\<lparr>ep_to := Some t\<rparr>)))
      else if rule = ''props_block'' then
        try_res (collect_rule ''field_def'' parse_field_def (into_inner part)) (\<lambda>fs.
        collect_edge_parts parts (e\<lparr>ep_props := ep_props e @ fs\<rparr>))
      else collect_edge_parts parts e)"

definition parse_edge_def :: "pair \<Rightarrow> edge_def res" where
  "parse_edge_def p =
     try_res (next_ident_name (into_inner p)) (\<lambda>(name, parts).
     try_res (collect_edge_parts parts \<lparr>ep_generic_params = [], ep_from = None, ep_to = None, ep_props = []\<rparr>) (\<lambda>e.
     case ep_from e of
       None \<Rightarrow> Err (SchemaError ''missing from'')
     | Some from_type \<Rightarrow>
         (case ep_to e of
            None \<Rightarrow> Err (SchemaError ''missing to'')
          | Some to_type \<Rightarrow> Ok \<lparr>ed_name = name, ed_generic_params = ep_generic_params e, ed_from = from_type,
              ed_to = to_type, ed_props = ep_props e\<rparr>)))"

definition parse_definition :: "pair \<Rightarrow> schema_def res" where
  "parse_definition p =
     try_res (next_pair (into_inner p)) (\<lambda>(inner, _).
       if as_rule inner = ''node_def'' then try_res (parse_node_def inner) (\<lambda>n. Ok (NodeD n))
       else if as_rule inner = ''edge_def'' then try_res (parse_edge_def inner) (\<lambda>e. Ok (EdgeD e))
       else Err (SchemaError (''unexpected rule: '' @ as_rule inner)))"

definition parse :: "grammar \<Rightarrow> string \<Rightarrow> schema_ast res" where
  "parse G input =
     (case G ''schema'' input of
        Inl e \<Rightarrow> Err (SchemaError e)
      | Inr pairs \<Rightarrow>
          try_res (collect_rule ''definition'' parse_definition
            (concat (map into_inner (filter (\<lambda>p. as_rule p = ''schema'') pairs)))) (\<lambda>ds.
          Ok \<lparr>sa_definitions = ds\<rparr>))"

definition is_bare_name :: "grammar \<Rightarrow> string \<Rightarrow> bool" where
  "is_bare_name G name = (case G ''bare_name'' name of Inl _ \<Rightarrow> False | Inr _ \<Rightarrow> True)"

section \<open>Printer\<close>

definition PRIMITIVE_TYPE_NAMES :: "string list" where
  "PRIMITIVE_TYPE_NAMES = [''Int'', ''Float'', ''Boolean'', ''DateTime'', ''String'', ''Json'', ''Blob'']"

definition quote :: "string \<Rightarrow> string" where
  "quote name = ''`'' @ concat (map (\<lambda>c. if c = CHR ''`'' then ''``'' else [c]) name) @ ''`''"

definition unparse_name :: "grammar \<Rightarrow> string \<Rightarrow> string" where
  "unparse_name G name = (if is_bare_name G name then name else quote name)"

definition unparse_type_name :: "grammar \<Rightarrow> string \<Rightarrow> string" where
  "unparse_type_name G name = (if name \<in> set PRIMITIVE_TYPE_NAMES then quote name else unparse_name G name)"

fun join_with :: "string \<Rightarrow> string list \<Rightarrow> string" where
  "join_with sep [] = ''''"
| "join_with sep [s] = s"
| "join_with sep (s # ss) = s @ sep @ join_with sep ss"

fun unparse_type_expr :: "grammar \<Rightarrow> type_expr \<Rightarrow> string" where
  "unparse_type_expr G TInt = ''Int''"
| "unparse_type_expr G TFloat = ''Float''"
| "unparse_type_expr G TBoolean = ''Boolean''"
| "unparse_type_expr G TDateTime = ''DateTime''"
| "unparse_type_expr G TString = ''String''"
| "unparse_type_expr G TJson = ''Json''"
| "unparse_type_expr G TBlob = ''Blob''"
| "unparse_type_expr G (TVector n) = ''Vector<'' @ decimal (unat n) @ ''>''"
| "unparse_type_expr G (TList inner) = ''List<'' @ unparse_type_expr G inner @ ''>''"
| "unparse_type_expr G (TMap k v) = ''Map<'' @ unparse_type_expr G k @ '', '' @ unparse_type_expr G v @ ''>''"
| "unparse_type_expr G (TNodeRef name) = ''NodeRef<'' @ unparse_name G name @ ''>''"
| "unparse_type_expr G (TEdgeRef name) = ''EdgeRef<'' @ unparse_name G name @ ''>''"
| "unparse_type_expr G (TNamed name) = unparse_type_name G name"

definition newline :: string where
  "newline = [CHR 0x0A]"

definition unparse_fields :: "grammar \<Rightarrow> field_def list \<Rightarrow> nat \<Rightarrow> string" where
  "unparse_fields G fs indent =
     (let pad = concat (replicate indent ''  '') in
      concat (map (\<lambda>f. pad @ unparse_name G (fd_name f) @ '': '' @ unparse_type_expr G (fd_type f) @
        (if fd_indexed f then '' @index'' else '''') @ (if fd_unique f then '' @unique'' else '''') @ newline) fs))"

definition unparse_bound_param :: "grammar \<Rightarrow> bound_param \<Rightarrow> string" where
  "unparse_bound_param G p =
     (case bp_bound p of
        Some bound \<Rightarrow> unparse_name G (bp_name p) @ '': '' @ unparse_name G bound
      | None \<Rightarrow> unparse_name G (bp_name p))"

definition unparse_node_def :: "grammar \<Rightarrow> node_def \<Rightarrow> string" where
  "unparse_node_def G n =
     (let head = ''node '' @ unparse_name G (nd_name n);
          head = (if nd_type_params n \<noteq> []
            then head @ ''<'' @ join_with '', '' (map (unparse_name G) (nd_type_params n)) @ ''>'' else head);
          head = (case nd_extends n of Some e \<Rightarrow> head @ '' extends '' @ unparse_name G e | None \<Rightarrow> head)
      in head @ '' {'' @ newline @ unparse_fields G (nd_fields n) 1 @ ''}'')"

definition unparse_edge_def :: "grammar \<Rightarrow> edge_def \<Rightarrow> string" where
  "unparse_edge_def G e =
     (let head = ''edge '' @ unparse_name G (ed_name e);
          head = (if ed_generic_params e \<noteq> []
            then head @ ''<'' @ join_with '', '' (map (unparse_bound_param G) (ed_generic_params e)) @ ''>'' else head);
          body = ''  from: '' @ unparse_type_expr G (ed_from e) @ newline @ ''  to: '' @ unparse_type_expr G (ed_to e) @ newline;
          body = (if ed_props e \<noteq> []
            then body @ ''  props: {'' @ newline @ unparse_fields G (ed_props e) 2 @ ''  }'' @ newline else body)
      in head @ '' {'' @ newline @ body @ ''}'')"

definition unparse_definition :: "grammar \<Rightarrow> schema_def \<Rightarrow> string" where
  "unparse_definition G d = (case d of NodeD n \<Rightarrow> unparse_node_def G n | EdgeD e \<Rightarrow> unparse_edge_def G e)"

definition unparse :: "grammar \<Rightarrow> schema_ast \<Rightarrow> string" where
  "unparse G ast = join_with (newline @ newline) (map (unparse_definition G) (sa_definitions ast)) @ newline"

end
