(* ===== verification/Value_Convert.thy ===== *)
theory Value_Convert
  imports Schema
begin

unbundle bit_operations_syntax

text \<open>
  The conversion of a stored value to another scalar type (\<^verbatim>\<open>schema/convert.rs\<close>), with what it
  uses of the standard library: \<open>str::trim\<close>, \<open>str::parse\<close> for \<open>i64\<close> and \<open>f64\<close>, and the casts between
  \<open>i64\<close> and \<open>f64\<close>. A string is the list of its UTF-8 bytes, an \<open>f64\<close> its 64 bits, an \<open>i64\<close> a 64-bit
  word.
\<close>

section \<open>Strings\<close>

text \<open>The encodings of the characters that \<open>char::is_whitespace\<close> accepts.\<close>

definition whitespace :: "nat list list" where
  "whitespace = [[9], [10], [11], [12], [13], [32], [0xC2, 0x85], [0xC2, 0xA0], [0xE1, 0x9A, 0x80],
     [0xE2, 0x80, 0x80], [0xE2, 0x80, 0x81], [0xE2, 0x80, 0x82], [0xE2, 0x80, 0x83], [0xE2, 0x80, 0x84],
     [0xE2, 0x80, 0x85], [0xE2, 0x80, 0x86], [0xE2, 0x80, 0x87], [0xE2, 0x80, 0x88], [0xE2, 0x80, 0x89],
     [0xE2, 0x80, 0x8A], [0xE2, 0x80, 0xA8], [0xE2, 0x80, 0xA9], [0xE2, 0x80, 0xAF], [0xE2, 0x81, 0x9F],
     [0xE3, 0x80, 0x80]]"

fun strip_one :: "nat list list \<Rightarrow> nat list \<Rightarrow> nat list option" where
  "strip_one [] s = None"
| "strip_one (w # ws) s = (if take (length w) s = w then Some (drop (length w) s) else strip_one ws s)"

fun strip_left :: "nat \<Rightarrow> nat list list \<Rightarrow> nat list \<Rightarrow> nat list" where
  "strip_left 0 ws s = s"
| "strip_left (Suc n) ws s = (case strip_one ws s of None \<Rightarrow> s | Some rest \<Rightarrow> strip_left n ws rest)"

definition trim :: "string \<Rightarrow> string" where
  "trim s =
     (let codes = map of_char s;
          front = strip_left (length codes) whitespace codes;
          back = rev (strip_left (length front) (map rev whitespace) (rev front))
      in map char_of back)"

definition is_digit :: "char \<Rightarrow> bool" where
  "is_digit c \<longleftrightarrow> 48 \<le> (of_char c :: nat) \<and> (of_char c :: nat) \<le> 57"

definition digits_value :: "string \<Rightarrow> nat" where
  "digits_value s = foldl (\<lambda>n c. 10 * n + (of_char c - 48)) 0 s"

definition parse_sign :: "string \<Rightarrow> bool \<times> string" where
  "parse_sign s = (case s of c # cs \<Rightarrow> if c = CHR ''-'' then (True, cs) else if c = CHR ''+'' then (False, cs) else (False, s) | [] \<Rightarrow> (False, s))"

definition parse_i64 :: "string \<Rightarrow> u64 option" where
  "parse_i64 s =
     (case parse_sign s of (negative, ds) \<Rightarrow>
       if ds = [] \<or> \<not> list_all is_digit ds then None
       else let n = int (digits_value ds); i = (if negative then - n else n) in
         if - (2 ^ 63) \<le> i \<and> i < 2 ^ 63 then Some (word_of_int i) else None)"

definition parse_u16 :: "string \<Rightarrow> u16 option" where
  "parse_u16 s =
     (let ds = (case s of c # cs \<Rightarrow> if c = CHR ''+'' then cs else s | [] \<Rightarrow> s) in
      if ds = [] \<or> \<not> list_all is_digit ds \<or> digits_value ds \<ge> 2 ^ 16 then None else Some (of_nat (digits_value ds)))"

section \<open>Binary floating point\<close>

definition f64_negative :: "u64 \<Rightarrow> bool" where
  "f64_negative f \<longleftrightarrow> bit f 63"

definition f64_exponent :: "u64 \<Rightarrow> nat" where
  "f64_exponent f = unat (drop_bit 52 f AND 0x7FF)"

definition f64_fraction :: "u64 \<Rightarrow> nat" where
  "f64_fraction f = unat (f AND 0xFFFFFFFFFFFFF)"

definition f64_is_finite :: "u64 \<Rightarrow> bool" where
  "f64_is_finite f \<longleftrightarrow> f64_exponent f < 2047"

text \<open>A finite \<open>f64\<close> has the magnitude \<open>f64_mantissa f * 2 ^ f64_scale f / 2 ^ 1074\<close>.\<close>

definition f64_mantissa :: "u64 \<Rightarrow> nat" where
  "f64_mantissa f = (if f64_exponent f = 0 then f64_fraction f else f64_fraction f + 2 ^ 52)"

definition f64_scale :: "u64 \<Rightarrow> nat" where
  "f64_scale f = f64_exponent f - 1"

definition f64_units :: "u64 \<Rightarrow> nat" where
  "f64_units f = f64_mantissa f * 2 ^ f64_scale f"

text \<open>\<open>f.fract() == 0.0\<close>, and the value of \<open>f as i128\<close> and of \<open>f as i64\<close> where it is in range.\<close>

definition f64_is_integral :: "u64 \<Rightarrow> bool" where
  "f64_is_integral f \<longleftrightarrow> f64_is_finite f \<and> f64_units f mod 2 ^ 1074 = 0"

definition f64_trunc :: "u64 \<Rightarrow> int" where
  "f64_trunc f = (let n = int (f64_units f div 2 ^ 1074) in if f64_negative f then - n else n)"

text \<open>
  The \<open>f64\<close> nearest to \<open>p / q\<close>, ties to even: the quotient is scaled to 53 bits, or to the
  smallest exponent, rounded, and a carry moves into the exponent field.
\<close>

fun bit_length :: "nat \<Rightarrow> nat" where
  "bit_length n = (if n = 0 then 0 else Suc (bit_length (n div 2)))"

declare bit_length.simps [simp del]

definition f64_shift :: "nat \<Rightarrow> nat \<Rightarrow> nat" where
  "f64_shift p q =
     (let l = int (bit_length p) - int (bit_length q) - 53;
          l = (if p * 2 ^ nat (- l) < q * 2 ^ 52 * 2 ^ nat l then l - 1
               else if p * 2 ^ nat (- l) \<ge> q * 2 ^ 53 * 2 ^ nat l then l + 1 else l)
      in nat (l + 1074))"

definition round_half_even :: "nat \<Rightarrow> nat \<Rightarrow> nat" where
  "round_half_even n d =
     (let m = n div d; r = n mod d in if 2 * r > d \<or> (2 * r = d \<and> odd m) then m + 1 else m)"

definition f64_round :: "nat \<Rightarrow> nat \<Rightarrow> nat" where
  "f64_round p q =
     (if p = 0 then 0
      else let s = f64_shift p q in
        min (2047 * 2 ^ 52) (s * 2 ^ 52 + round_half_even (p * 2 ^ 1074) (q * 2 ^ s)))"

definition f64_of :: "bool \<Rightarrow> nat \<Rightarrow> u64" where
  "f64_of negative magnitude = of_nat magnitude OR (if negative then push_bit 63 1 else 0)"

text \<open>\<open>i as f64\<close>\<close>

definition f64_of_i64 :: "u64 \<Rightarrow> u64" where
  "f64_of_i64 i = f64_of (sint i < 0) (f64_round (nat \<bar>sint i\<bar>) 1)"

text \<open>\<open>str::parse::<f64>\<close>\<close>

definition f64_infinity :: nat where
  "f64_infinity = 2047 * 2 ^ 52"

definition f64_nan :: nat where
  "f64_nan = 2047 * 2 ^ 52 + 2 ^ 51"

definition lower :: "string \<Rightarrow> string" where
  "lower s = map (\<lambda>c. if 65 \<le> (of_char c :: nat) \<and> (of_char c :: nat) \<le> 90 then char_of (of_char c + 32 :: nat) else c) s"

definition parse_exponent :: "string \<Rightarrow> int option" where
  "parse_exponent s =
     (case s of
        [] \<Rightarrow> Some 0
      | c # cs \<Rightarrow>
          if c = CHR ''e'' \<or> c = CHR ''E'' then
            (case parse_sign cs of (negative, ds) \<Rightarrow>
              if ds = [] \<or> \<not> list_all is_digit ds then None
              else Some (if negative then - int (digits_value ds) else int (digits_value ds)))
          else None)"

definition parse_number :: "string \<Rightarrow> nat option" where
  "parse_number s =
     (let whole = takeWhile is_digit s;
          rest = dropWhile is_digit s;
          (frac, rest) = (case rest of
             c # cs \<Rightarrow> if c = CHR ''.'' then (takeWhile is_digit cs, dropWhile is_digit cs) else ([], rest)
           | [] \<Rightarrow> ([], rest))
      in if whole = [] \<and> frac = [] then None
         else map_option
           (\<lambda>e. let d = digits_value (whole @ frac); k = e - int (length frac)
                in f64_round (d * 10 ^ nat k) (10 ^ nat (- k)))
           (parse_exponent rest))"

definition parse_f64 :: "string \<Rightarrow> u64 option" where
  "parse_f64 s =
     (case parse_sign s of (negative, body) \<Rightarrow>
       map_option (f64_of negative)
         (if lower body \<in> {''inf'', ''infinity''} then Some f64_infinity
          else if lower body = ''nan'' then Some f64_nan
          else parse_number body))"

section \<open>Conversion\<close>

fun scalar_type_from_name :: "string \<Rightarrow> type_expr option" where
  "scalar_type_from_name name =
     (if name = ''String'' then Some TString
      else if name = ''Int'' then Some TInt
      else if name = ''Float'' then Some TFloat
      else if name = ''Boolean'' then Some TBoolean
      else if name = ''DateTime'' then Some TDateTime
      else None)"

definition is_scalar_type :: "type_expr \<Rightarrow> bool" where
  "is_scalar_type t \<longleftrightarrow> t \<in> {TString, TInt, TFloat, TBoolean, TDateTime}"

definition conversion_supported :: "type_expr \<Rightarrow> type_expr \<Rightarrow> bool" where
  "conversion_supported from_type to_type \<longleftrightarrow>
     is_scalar_type from_type \<and> is_scalar_type to_type \<and>
     (from_type = TString \<or> to_type = TString \<or> (from_type = TInt \<and> to_type = TFloat) \<or>
      (from_type = TFloat \<and> to_type = TInt))"

definition float_to_int :: "'n lib \<Rightarrow> u64 \<Rightarrow> 'n json option" where
  "float_to_int L f =
     (if \<not> f64_is_integral f \<or> \<not> (- (2 ^ 63) \<le> f64_trunc f \<and> f64_trunc f < 2 ^ 63) then None
      else Some (JNumber (from_i64 L (word_of_int (f64_trunc f)))))"

definition int_to_float :: "'n lib \<Rightarrow> u64 \<Rightarrow> 'n json option" where
  "int_to_float L i =
     (let f = f64_of_i64 i in
      if f64_trunc f \<noteq> sint i then None else map_option JNumber (from_f64 L f))"

text \<open>\<open>is_i64\<close> holds where \<open>as_i64\<close> returns a value, \<open>is_f64\<close> where neither \<open>is_i64\<close> nor \<open>is_u64\<close> does.\<close>

definition is_f64 :: "'n lib \<Rightarrow> 'n \<Rightarrow> bool" where
  "is_f64 L n \<longleftrightarrow> as_i64 L n = None \<and> \<not> is_u64 L n"

definition convert_value :: "'n lib \<Rightarrow> 'n json \<Rightarrow> type_expr \<Rightarrow> 'n json option" where
  "convert_value L v to_type =
     (case to_type of
        TString \<Rightarrow>
          (case v of
             JString s \<Rightarrow> Some v
           | JNumber n \<Rightarrow> Some (JString (value_to_string L v))
           | JBool b \<Rightarrow> Some (JString (if b then ''true'' else ''false''))
           | _ \<Rightarrow> None)
      | TInt \<Rightarrow>
          (case v of
             JNumber n \<Rightarrow>
               if as_i64 L n \<noteq> None then Some v else Option.bind (as_f64 L n) (float_to_int L)
           | JString s \<Rightarrow> map_option (\<lambda>i. JNumber (from_i64 L i)) (parse_i64 (trim s))
           | _ \<Rightarrow> None)
      | TFloat \<Rightarrow>
          (case v of
             JNumber n \<Rightarrow>
               if is_f64 L n then Some v else Option.bind (as_i64 L n) (int_to_float L)
           | JString s \<Rightarrow> Option.bind (parse_f64 (trim s)) (\<lambda>f. map_option JNumber (from_f64 L f))
           | _ \<Rightarrow> None)
      | TBoolean \<Rightarrow>
          (case v of
             JBool b \<Rightarrow> Some v
           | JString s \<Rightarrow>
               if trim s = ''true'' then Some (JBool True)
               else if trim s = ''false'' then Some (JBool False) else None
           | _ \<Rightarrow> None)
      | TDateTime \<Rightarrow> (case v of JString s \<Rightarrow> Some v | _ \<Rightarrow> None)
      | _ \<Rightarrow> None)"

end
