(* ===== verification/Schema_Changes.thy ===== *)
theory Schema_Changes
  imports Database Schema_Text Value_Convert
begin

text \<open>
  The operations of \<^verbatim>\<open>Database\<close> (\<^verbatim>\<open>db.rs\<close>) that read or change the schema: the cache of
  declared fields and the reads it filters, \<^verbatim>\<open>apply_schema\<close> with the removal of dropped fields,
  renaming a field and changing its type. \<open>P\<close> is the parser of schema text and \<open>U\<close> its printer.
\<close>

section \<open>State\<close>

record declared_names =
  df_node :: "u16 \<Rightarrow> string set option"
  df_edge :: "u16 \<Rightarrow> string set option"

record declared_fields_cache =
  dc_version :: u32
  dc_root :: u32
  dc_fields :: declared_names

record database =
  db_file :: database_file
  db_declared :: "declared_fields_cache option"

text \<open>A method that only touches the file.\<close>

definition on_db :: "(database_file, 'a) op \<Rightarrow> (database, 'a) op" where
  "on_db m d = (case m (db_file d) of (r, f) \<Rightarrow> (r, d\<lparr>db_file := f\<rparr>))"

definition retain_declared :: "string set option \<Rightarrow> 'n props \<Rightarrow> 'n props" where
  "retain_declared declared props = (case declared of None \<Rightarrow> props | Some names \<Rightarrow> filter (\<lambda>(key, _). key \<in> names) props)"

record db_snapshot =
  snap_file :: file_snapshot

definition take_snapshot :: "database \<Rightarrow> db_snapshot" where
  "take_snapshot d = \<lparr>snap_file = snapshot (db_file d)\<rparr>"

definition restore_snapshot :: "db_snapshot \<Rightarrow> database \<Rightarrow> database" where
  "restore_snapshot snap d = d\<lparr>db_file := restore (snap_file snap) (db_file d), db_declared := None\<rparr>"

text \<open>\<open>let snapshot = ..; let result = m; if result.is_err() { restore }; result\<close>\<close>

definition or_restore :: "(database, 'a) op \<Rightarrow> (database, 'a) op" where
  "or_restore m d =
     (case m d of
        (Inl (Failed e), d') \<Rightarrow> (Err e, restore_snapshot (take_snapshot d) d')
      | r \<Rightarrow> r)"

section \<open>Declared fields\<close>

definition names_of :: "field_def list \<Rightarrow> string set" where
  "names_of fs = fd_name ` set fs"

definition declare_def :: "schema_registry \<Rightarrow> schema_def \<Rightarrow> declared_names \<Rightarrow> declared_names" where
  "declare_def registry d fs =
     (case d of
        NodeD n \<Rightarrow>
          (case node_type_id_of (nd_name n) registry of
             None \<Rightarrow> fs
           | Some i \<Rightarrow> fs\<lparr>df_node := (df_node fs)(i \<mapsto> names_of (nd_fields n))\<rparr>)
      | EdgeD e \<Rightarrow>
          (case edge_type_id_of (ed_name e) registry of
             None \<Rightarrow> fs
           | Some i \<Rightarrow> fs\<lparr>df_edge := (df_edge fs)(i \<mapsto> names_of (ed_props e))\<rparr>))"

definition no_declared :: declared_names where
  "no_declared = \<lparr>df_node = Map.empty, df_edge = Map.empty\<rparr>"

definition declared_of :: "schema_registry \<Rightarrow> schema_ast \<Rightarrow> declared_names" where
  "declared_of registry ast = fold (declare_def registry) (sa_definitions ast) no_declared"

definition cached_fields :: "u32 \<Rightarrow> u32 \<Rightarrow> declared_fields_cache option \<Rightarrow> declared_names option" where
  "cached_fields ver rt cache =
     (case cache of
        None \<Rightarrow> None
      | Some c \<Rightarrow> if dc_version c = ver \<and> dc_root c = rt then Some (dc_fields c) else None)"

definition declared_fields :: "json_codec \<Rightarrow> (database, declared_names option) op" where
  "declared_fields J =
     (\<lambda>d. let ver = schema_version (header (db_file d)); rt = schema_root (header (db_file d)) in
       if rt = 0 then (Ok None, d)
       else case cached_fields ver rt (db_declared d) of
         Some fs \<Rightarrow> (Ok (Some fs), d)
       | None \<Rightarrow>
           bnd (attempt (on_db (load_schema J))) (\<lambda>r.
             case r of
               Inl (SchemaError _) \<Rightarrow> ret None
             | Inl e \<Rightarrow> err e
             | Inr ast \<Rightarrow>
                 bnd (on_db (load_schema_registry J)) (\<lambda>registry.
                 let fs = declared_of registry ast in
                 bnd (modify (\<lambda>d. d\<lparr>db_declared := Some \<lparr>dc_version = ver, dc_root = rt, dc_fields = fs\<rparr>\<rparr>)) (\<lambda>_.
                 ret (Some fs)))) d)"

section \<open>Reading and listing\<close>

definition get_node_properties :: "'n lib \<Rightarrow> json_codec \<Rightarrow> record_id \<Rightarrow> (database, 'n props) op" where
  "get_node_properties L J rid =
     bnd (on_db (read_node rid)) (\<lambda>node.
       case n_property_ref node of
         None \<Rightarrow> ret []
       | Some pref \<Rightarrow>
           bnd (on_db (store_read L pref)) (\<lambda>props.
           bnd (declared_fields J) (\<lambda>declared.
           ret (case declared of None \<Rightarrow> props | Some fs \<Rightarrow> retain_declared (df_node fs (node_type_id node)) props))))"

definition get_edge_properties :: "'n lib \<Rightarrow> json_codec \<Rightarrow> record_id \<Rightarrow> (database, 'n props) op" where
  "get_edge_properties L J rid =
     bnd (on_db (read_edge rid)) (\<lambda>edge.
       case e_property_ref edge of
         None \<Rightarrow> ret []
       | Some pref \<Rightarrow>
           bnd (on_db (store_read L pref)) (\<lambda>props.
           bnd (declared_fields J) (\<lambda>declared.
           ret (case declared of None \<Rightarrow> props | Some fs \<Rightarrow> retain_declared (df_edge fs (edge_type_id edge)) props))))"

fun list_nodes_loop :: "'n lib \<Rightarrow> json_codec \<Rightarrow> record_id list \<Rightarrow> (database, (record_id \<times> 'n props) list) op" where
  "list_nodes_loop L J [] = ret []"
| "list_nodes_loop L J (rid # rids) =
     bnd (get_node_properties L J rid) (\<lambda>props.
     bnd (list_nodes_loop L J rids) (\<lambda>out. ret ((rid, props) # out)))"

definition list_nodes :: "'n lib \<Rightarrow> json_codec \<Rightarrow> string option \<Rightarrow> (database, (record_id \<times> 'n props) list) op" where
  "list_nodes L J type_name =
     bnd (case type_name of
            None \<Rightarrow> ret None
          | Some name \<Rightarrow> bnd (on_db (registry_opt J)) (\<lambda>registry. ret (Option.bind registry (node_type_id_of name)))) (\<lambda>tid.
     case tid of
       Some tid \<Rightarrow> bnd (on_db (rids_of_type tid)) (list_nodes_loop L J)
     | None \<Rightarrow> bnd (on_db live_node_rids) (list_nodes_loop L J))"

fun list_edges_loop ::
  "'n lib \<Rightarrow> json_codec \<Rightarrow> u16 option \<Rightarrow> record_id list \<Rightarrow> (database, (record_id \<times> u16 \<times> 'n props) list) op" where
  "list_edges_loop L J filter_id [] = ret []"
| "list_edges_loop L J filter_id (rid # rids) =
     bnd (on_db (read_edge rid)) (\<lambda>edge.
       if (case filter_id of None \<Rightarrow> False | Some tid \<Rightarrow> edge_type_id edge \<noteq> tid) then list_edges_loop L J filter_id rids
       else
         bnd (get_edge_properties L J rid) (\<lambda>props.
         bnd (list_edges_loop L J filter_id rids) (\<lambda>out. ret ((rid, edge_type_id edge, props) # out))))"

definition list_edges :: "'n lib \<Rightarrow> json_codec \<Rightarrow> string option \<Rightarrow> (database, (record_id \<times> u16 \<times> 'n props) list) op" where
  "list_edges L J type_name =
     bnd (on_db (registry_opt J)) (\<lambda>registry.
     let filter_id = Option.bind type_name (\<lambda>name. Option.bind registry (edge_type_id_of name)) in
     if type_name \<noteq> None \<and> filter_id = None then ret []
     else bnd (on_db live_edge_rids) (list_edges_loop L J filter_id))"

text \<open>\<open>props.insert(k, v)\<close> for each pair of the patch.\<close>

definition insert_prop :: "string \<Rightarrow> 'n json \<Rightarrow> 'n props \<Rightarrow> 'n props" where
  "insert_prop k v props = (k, v) # filter (\<lambda>(key, _). key \<noteq> k) props"

definition patch_node_properties :: "'n lib \<Rightarrow> json_codec \<Rightarrow> record_id \<Rightarrow> 'n props \<Rightarrow> (database, unit) op" where
  "patch_node_properties L J rid patch =
     bnd (get_node_properties L J rid) (\<lambda>props.
     on_db (update_node_properties L J rid (fold (\<lambda>(k, v). insert_prop k v) patch props)))"

definition patch_edge_properties :: "'n lib \<Rightarrow> json_codec \<Rightarrow> record_id \<Rightarrow> 'n props \<Rightarrow> (database, unit) op" where
  "patch_edge_properties L J rid patch =
     bnd (get_edge_properties L J rid) (\<lambda>props.
     on_db (update_edge_properties L J rid (fold (\<lambda>(k, v). insert_prop k v) patch props)))"

section \<open>Applying a schema\<close>

record field_purge =
  fp_type_id :: u16
  fp_keep :: "string set"
  fp_dropped_indexed :: "property_path list"

definition fields_of :: "schema_ast \<Rightarrow> string \<Rightarrow> bool \<Rightarrow> field_def list option" where
  "fields_of ast name is_node =
     (if is_node then map_option nd_fields (find_node_def name ast) else map_option ed_props (find_edge_def name ast))"

definition field_purge_of :: "schema_registry \<Rightarrow> schema_ast \<Rightarrow> string \<Rightarrow> field_def list \<Rightarrow> bool \<Rightarrow> field_purge option" where
  "field_purge_of registry new name old_fields is_node =
     (case fields_of new name is_node of
        None \<Rightarrow> None
      | Some new_fields \<Rightarrow>
          if names_of old_fields = names_of new_fields then None
          else case (if is_node then node_type_id_of name registry else edge_type_id_of name registry) of
            None \<Rightarrow> None
          | Some tid \<Rightarrow> Some
             \<lparr>fp_type_id = tid,
              fp_keep = names_of old_fields \<inter> names_of new_fields,
              fp_dropped_indexed = map (\<lambda>f. Flat (fd_name f))
                (filter (\<lambda>f. (fd_indexed f \<or> fd_unique f) \<and> fd_name f \<notin> names_of new_fields) old_fields)\<rparr>)"

definition plan_field_purges ::
  "json_codec \<Rightarrow> schema_ast \<Rightarrow> schema_ast \<Rightarrow> (database_file, field_purge list \<times> field_purge list) op" where
  "plan_field_purges J old new =
     bnd (load_schema_registry J) (\<lambda>registry.
     ret (List.map_filter (\<lambda>n. field_purge_of registry new (nd_name n) (nd_fields n) True) (node_defs old),
          List.map_filter (\<lambda>e. field_purge_of registry new (ed_name e) (ed_props e) False) (edge_defs old)))"

fun remove_index_entries :: "'n lib \<Rightarrow> u16 \<Rightarrow> record_id \<Rightarrow> 'n props \<Rightarrow> property_path list \<Rightarrow> (database_file, unit) op" where
  "remove_index_entries L tid rid props [] = ret ()"
| "remove_index_entries L tid rid props (pth # ps) =
     (case resolve pth props of
        None \<Rightarrow> remove_index_entries L tid rid props ps
      | Some v \<Rightarrow>
          if is_indexable_value v then
            bnd (lift_res (encode_value L v)) (\<lambda>value_bytes.
            bnd (pi_remove (index_key_new tid (as_bytes (display_name pth)) value_bytes) rid) (\<lambda>_.
            remove_index_entries L tid rid props ps))
          else remove_index_entries L tid rid props ps)"

definition keeps_all :: "field_purge \<Rightarrow> 'n props \<Rightarrow> bool" where
  "keeps_all purge props \<longleftrightarrow> (\<forall>(key, _)\<in>set props. key \<in> fp_keep purge)"

definition keep_fields :: "field_purge \<Rightarrow> 'n props \<Rightarrow> 'n props" where
  "keep_fields purge props = filter (\<lambda>(key, _). key \<in> fp_keep purge) props"

fun purge_nodes_loop :: "'n lib \<Rightarrow> field_purge \<Rightarrow> record_id list \<Rightarrow> (database_file, unit) op" where
  "purge_nodes_loop L purge [] = ret ()"
| "purge_nodes_loop L purge (rid # rids) =
     bnd (read_node rid) (\<lambda>node.
       case (if node_type_id node \<noteq> fp_type_id purge then None else n_property_ref node) of
         None \<Rightarrow> purge_nodes_loop L purge rids
       | Some old_pref \<Rightarrow>
           bnd (store_read L old_pref) (\<lambda>props.
             if keeps_all purge props then purge_nodes_loop L purge rids
             else
               bnd (remove_index_entries L (fp_type_id purge) rid props (fp_dropped_indexed purge)) (\<lambda>_.
               bnd (write_props L (keep_fields purge props)) (\<lambda>new_pref.
               bnd (write_node (node\<lparr>n_property_ref := new_pref\<rparr>)) (\<lambda>_.
               bnd (free_property old_pref) (\<lambda>_.
               purge_nodes_loop L purge rids))))))"

definition purge_node_fields :: "'n lib \<Rightarrow> field_purge \<Rightarrow> (database_file, unit) op" where
  "purge_node_fields L purge = bnd (rids_of_type (fp_type_id purge)) (purge_nodes_loop L purge)"

fun purge_edges_loop :: "'n lib \<Rightarrow> field_purge list \<Rightarrow> record_id list \<Rightarrow> (database_file, unit) op" where
  "purge_edges_loop L purges [] = ret ()"
| "purge_edges_loop L purges (rid # rids) =
     bnd (read_edge rid) (\<lambda>edge.
       case find (\<lambda>p. fp_type_id p = edge_type_id edge) purges of
         None \<Rightarrow> purge_edges_loop L purges rids
       | Some purge \<Rightarrow>
           (case e_property_ref edge of
              None \<Rightarrow> purge_edges_loop L purges rids
            | Some old_pref \<Rightarrow>
                bnd (store_read L old_pref) (\<lambda>props.
                  if keeps_all purge props then purge_edges_loop L purges rids
                  else
                    bnd (write_props L (keep_fields purge props)) (\<lambda>new_pref.
                    bnd (write_edge (edge\<lparr>e_property_ref := new_pref\<rparr>)) (\<lambda>_.
                    bnd (free_property old_pref) (\<lambda>_.
                    purge_edges_loop L purges rids))))))"

definition purge_edge_fields :: "'n lib \<Rightarrow> field_purge list \<Rightarrow> (database_file, unit) op" where
  "purge_edge_fields L purges = bnd live_edge_rids (purge_edges_loop L purges)"

fun purge_all_nodes :: "'n lib \<Rightarrow> field_purge list \<Rightarrow> (database_file, unit) op" where
  "purge_all_nodes L [] = ret ()"
| "purge_all_nodes L (p # ps) = bnd (purge_node_fields L p) (\<lambda>_. purge_all_nodes L ps)"

definition save_schema_and_purge ::
  "'n lib \<Rightarrow> json_codec \<Rightarrow> schema_ast \<Rightarrow> field_purge list \<Rightarrow> field_purge list \<Rightarrow> (database_file, unit) op" where
  "save_schema_and_purge L J ast node_purges edge_purges =
     bnd (save_schema J ast) (\<lambda>_.
     bnd (purge_all_nodes L node_purges) (\<lambda>_.
     if edge_purges \<noteq> [] then purge_edge_fields L edge_purges else ret ()))"

definition apply_schema :: "'n lib \<Rightarrow> json_codec \<Rightarrow> grammar \<Rightarrow> string \<Rightarrow> (database, unit) op" where
  "apply_schema L J G schema_text =
     bnd (lift_res (parse G schema_text)) (\<lambda>ast.
     bnd (lift_res (validate ast)) (\<lambda>_.
     bnd (attempt (on_db (load_schema J))) (\<lambda>r.
     bnd (case r of
            Inr old \<Rightarrow> on_db (plan_field_purges J old ast)
          | Inl (SchemaError _) \<Rightarrow> ret ([], [])
          | Inl e \<Rightarrow> err e) (\<lambda>(node_purges, edge_purges).
     if node_purges = [] \<and> edge_purges = [] then on_db (save_schema J ast)
     else or_restore (on_db (save_schema_and_purge L J ast node_purges edge_purges))))))"

section \<open>Renaming a field\<close>

datatype record_kind = KNode | KEdge

definition kind_label :: "record_kind \<Rightarrow> string" where
  "kind_label kind = (case kind of KNode \<Rightarrow> ''node'' | KEdge \<Rightarrow> ''edge'')"

text \<open>
  \<open>schema_fields_mut\<close> borrows the field list inside the syntax tree: here a lookup and an update
  of the first definition of that kind and name.
\<close>

definition unknown_type :: "record_kind \<Rightarrow> string \<Rightarrow> graph_error" where
  "unknown_type kind type_name = SchemaError (''unknown '' @ kind_label kind @ '' type: '' @ type_name)"

definition schema_fields :: "schema_ast \<Rightarrow> record_kind \<Rightarrow> string \<Rightarrow> field_def list res" where
  "schema_fields ast kind type_name = ok_or (unknown_type kind type_name) (fields_of ast type_name (kind = KNode))"

fun set_fields_in :: "record_kind \<Rightarrow> string \<Rightarrow> field_def list \<Rightarrow> schema_def list \<Rightarrow> schema_def list" where
  "set_fields_in kind name fs [] = []"
| "set_fields_in kind name fs (NodeD n # ds) =
     (if kind = KNode \<and> nd_name n = name then NodeD (n\<lparr>nd_fields := fs\<rparr>) # ds else NodeD n # set_fields_in kind name fs ds)"
| "set_fields_in kind name fs (EdgeD e # ds) =
     (if kind = KEdge \<and> ed_name e = name then EdgeD (e\<lparr>ed_props := fs\<rparr>) # ds else EdgeD e # set_fields_in kind name fs ds)"

definition set_schema_fields :: "record_kind \<Rightarrow> string \<Rightarrow> field_def list \<Rightarrow> schema_ast \<Rightarrow> schema_ast" where
  "set_schema_fields kind name fs ast = ast\<lparr>sa_definitions := set_fields_in kind name fs (sa_definitions ast)\<rparr>"

fun index_where :: "('a \<Rightarrow> bool) \<Rightarrow> 'a list \<Rightarrow> nat option" where
  "index_where p [] = None"
| "index_where p (x # xs) = (if p x then Some 0 else map_option Suc (index_where p xs))"

definition field_position :: "field_def list \<Rightarrow> record_kind \<Rightarrow> string \<Rightarrow> string \<Rightarrow> nat res" where
  "field_position fs kind type_name field_name =
     ok_or (SchemaError (kind_label kind @ '' '' @ quoted type_name @ '' has no field '' @ quoted field_name))
       (index_where (\<lambda>f. fd_name f = field_name) fs)"

definition schema_type_id :: "json_codec \<Rightarrow> record_kind \<Rightarrow> string \<Rightarrow> (database_file, u16) op" where
  "schema_type_id J kind type_name =
     bnd (load_schema_registry J) (\<lambda>registry.
     lift_res (ok_or (unknown_type kind type_name)
       (case kind of KNode \<Rightarrow> node_type_id_of type_name registry | KEdge \<Rightarrow> edge_type_id_of type_name registry)))"

definition rids_of_kind :: "record_kind \<Rightarrow> u16 \<Rightarrow> (database_file, record_id list) op" where
  "rids_of_kind kind tid = (case kind of KNode \<Rightarrow> rids_of_type tid | KEdge \<Rightarrow> live_edge_rids)"

definition raw_props_of_type :: "'n lib \<Rightarrow> record_kind \<Rightarrow> u16 \<Rightarrow> record_id \<Rightarrow> (database_file, 'n props option) op" where
  "raw_props_of_type L kind tid rid =
     bnd (case kind of
            KNode \<Rightarrow> bnd (read_node rid) (\<lambda>node. ret (node_type_id node, n_property_ref node))
          | KEdge \<Rightarrow> bnd (read_edge rid) (\<lambda>edge. ret (edge_type_id edge, e_property_ref edge))) (\<lambda>(record_type, pref).
     case pref of
       Some pref \<Rightarrow> if record_type = tid then bnd (store_read L pref) (\<lambda>props. ret (Some props)) else ret None
     | None \<Rightarrow> ret None)"

definition replace_raw_props :: "'n lib \<Rightarrow> record_kind \<Rightarrow> record_id \<Rightarrow> 'n props \<Rightarrow> (database_file, unit) op" where
  "replace_raw_props L kind rid props =
     bnd (write_props L props) (\<lambda>new_pref.
     bnd (case kind of
            KNode \<Rightarrow> bnd (read_node rid) (\<lambda>node.
              bnd (write_node (node\<lparr>n_property_ref := new_pref\<rparr>)) (\<lambda>_. ret (n_property_ref node)))
          | KEdge \<Rightarrow> bnd (read_edge rid) (\<lambda>edge.
              bnd (write_edge (edge\<lparr>e_property_ref := new_pref\<rparr>)) (\<lambda>_. ret (e_property_ref edge)))) (\<lambda>old_pref.
     free_ref old_pref))"

text \<open>\<open>props.remove(name)\<close>\<close>

definition remove_prop :: "string \<Rightarrow> 'n props \<Rightarrow> 'n props" where
  "remove_prop name props = filter (\<lambda>(key, _). key \<noteq> name) props"

definition index_key_of :: "u16 \<Rightarrow> string \<Rightarrow> bytes \<Rightarrow> index_key" where
  "index_key_of tid name value_bytes = index_key_new tid (as_bytes name) value_bytes"

fun rename_loop ::
  "'n lib \<Rightarrow> record_kind \<Rightarrow> u16 \<Rightarrow> string \<Rightarrow> string \<Rightarrow> bool \<Rightarrow> record_id list \<Rightarrow> (database_file, unit) op" where
  "rename_loop L kind tid old_name new_name indexed [] = ret ()"
| "rename_loop L kind tid old_name new_name indexed (rid # rids) =
     bnd (raw_props_of_type L kind tid rid) (\<lambda>r.
       case r of
         None \<Rightarrow> rename_loop L kind tid old_name new_name indexed rids
       | Some props \<Rightarrow>
           let leftover = map_of props new_name; props = remove_prop new_name props;
               value = map_of props old_name; props = remove_prop old_name props in
           if leftover = None \<and> value = None then rename_loop L kind tid old_name new_name indexed rids
           else
             bnd (case value of
                    None \<Rightarrow> ret props
                  | Some v \<Rightarrow>
                      bnd (if indexed \<and> kind = KNode \<and> is_indexable_value v then
                             bnd (lift_res (encode_value L v)) (\<lambda>bytes.
                             bnd (pi_remove (index_key_of tid old_name bytes) rid) (\<lambda>_.
                             pi_add (index_key_of tid new_name bytes) rid))
                           else ret ()) (\<lambda>_.
                      ret (insert_prop new_name v props))) (\<lambda>props.
             bnd (replace_raw_props L kind rid props) (\<lambda>_.
             rename_loop L kind tid old_name new_name indexed rids)))"

definition rename_field_records ::
  "'n lib \<Rightarrow> json_codec \<Rightarrow> schema_ast \<Rightarrow> record_kind \<Rightarrow> u16 \<Rightarrow> string \<Rightarrow> string \<Rightarrow> bool \<Rightarrow> (database_file, unit) op" where
  "rename_field_records L J ast kind tid old_name new_name indexed =
     bnd (save_schema_unchecked J ast) (\<lambda>_.
     bnd (rids_of_kind kind tid) (rename_loop L kind tid old_name new_name indexed))"

definition rename_field ::
  "'n lib \<Rightarrow> json_codec \<Rightarrow> grammar \<Rightarrow> record_kind \<Rightarrow> string \<Rightarrow> string \<Rightarrow> string \<Rightarrow> (database, unit) op" where
  "rename_field L J G kind type_name old_name new_name =
     bnd (on_db (load_schema J)) (\<lambda>ast.
     bnd (on_db (schema_type_id J kind type_name)) (\<lambda>tid.
     bnd (lift_res (schema_fields ast kind type_name)) (\<lambda>fs.
     bnd (lift_res (field_position fs kind type_name old_name)) (\<lambda>position.
     if old_name = new_name then ret ()
     else if \<exists>f\<in>set fs. fd_name f = new_name
     then err (SchemaError (kind_label kind @ '' '' @ quoted type_name @ '' already has a field '' @ quoted new_name))
     else
       let f = fs ! position;
           indexed = fd_indexed f \<or> fd_unique f;
           ast = set_schema_fields kind type_name (fs[position := f\<lparr>fd_name := new_name\<rparr>]) ast in
       bnd (lift_res (validate ast)) (\<lambda>_.
       bnd (lift_res (parse G (unparse G ast))) (\<lambda>reparsed.
       if reparsed \<noteq> ast then err (SchemaError (''invalid field name '' @ quoted new_name))
       else or_restore (on_db (rename_field_records L J ast kind tid old_name new_name indexed))))))))"

definition rename_node_field :: "'n lib \<Rightarrow> json_codec \<Rightarrow> grammar \<Rightarrow> string \<Rightarrow> string \<Rightarrow> string \<Rightarrow> (database, unit) op" where
  "rename_node_field L J G type_name old_name new_name = rename_field L J G KNode type_name old_name new_name"

definition rename_edge_field :: "'n lib \<Rightarrow> json_codec \<Rightarrow> grammar \<Rightarrow> string \<Rightarrow> string \<Rightarrow> string \<Rightarrow> (database, unit) op" where
  "rename_edge_field L J G type_name old_name new_name = rename_field L J G KEdge type_name old_name new_name"

section \<open>Changing the type of a field\<close>

datatype on_conversion_failure = Reject | SetNull

record field_type_change =
  fc_applied :: bool
  fc_converted :: nat
  fc_failed :: nat
  fc_failed_records :: "record_id list"

definition MAX_REPORTED_FAILURES :: nat where
  "MAX_REPORTED_FAILURES = 100"

fun find_failures ::
  "'n lib \<Rightarrow> record_kind \<Rightarrow> u16 \<Rightarrow> string \<Rightarrow> type_expr \<Rightarrow> record_id list \<Rightarrow> field_type_change \<Rightarrow> (database_file, field_type_change) op" where
  "find_failures L kind tid field_name to_type [] outcome = ret outcome"
| "find_failures L kind tid field_name to_type (rid # rids) outcome =
     bnd (raw_props_of_type L kind tid rid) (\<lambda>r.
       find_failures L kind tid field_name to_type rids
         (case Option.bind r (\<lambda>props. map_of props field_name) of
            None \<Rightarrow> outcome
          | Some v \<Rightarrow>
              if v = JNull \<or> convert_value L v to_type \<noteq> None then outcome
              else outcome\<lparr>fc_failed := fc_failed outcome + 1,
                fc_failed_records :=
                  (if length (fc_failed_records outcome) < MAX_REPORTED_FAILURES
                   then fc_failed_records outcome @ [rid] else fc_failed_records outcome)\<rparr>))"

fun check_converted_unique :: "'n lib \<Rightarrow> record_id \<Rightarrow> string \<Rightarrow> 'n json \<Rightarrow> record_id list \<Rightarrow> (database_file, unit) op" where
  "check_converted_unique L rid field_name new_value [] = ret ()"
| "check_converted_unique L rid field_name new_value (other # others) =
     (if other = rid then check_converted_unique L rid field_name new_value others
      else
        bnd (get_node_properties_raw L other) (\<lambda>other_props.
          if some_eq L (map_of other_props field_name) new_value
          then err (UniqueViolation field_name (value_to_string L new_value))
          else check_converted_unique L rid field_name new_value others))"

definition reindex_converted ::
  "'n lib \<Rightarrow> u16 \<Rightarrow> record_id \<Rightarrow> string \<Rightarrow> bool \<Rightarrow> 'n json \<Rightarrow> 'n json \<Rightarrow> (database_file, unit) op" where
  "reindex_converted L tid rid field_name uniq old_value new_value =
     bnd (if is_indexable_value old_value then
            bnd (lift_res (encode_value L old_value)) (\<lambda>bytes. pi_remove (index_key_of tid field_name bytes) rid)
          else ret ()) (\<lambda>_.
     if is_indexable_value new_value then
       bnd (lift_res (encode_value L new_value)) (\<lambda>bytes.
       let key = index_key_of tid field_name bytes in
       bnd (if uniq then bnd (candidates key) (check_converted_unique L rid field_name new_value) else ret ()) (\<lambda>_.
       pi_add key rid))
     else ret ())"

fun convert_loop ::
  "'n lib \<Rightarrow> record_kind \<Rightarrow> u16 \<Rightarrow> string \<Rightarrow> type_expr \<Rightarrow> bool \<Rightarrow> bool \<Rightarrow> record_id list \<Rightarrow> nat \<Rightarrow> (database_file, nat) op" where
  "convert_loop L kind tid field_name to_type indexed uniq [] converted = ret converted"
| "convert_loop L kind tid field_name to_type indexed uniq (rid # rids) converted =
     bnd (raw_props_of_type L kind tid rid) (\<lambda>r.
       case r of
         None \<Rightarrow> convert_loop L kind tid field_name to_type indexed uniq rids converted
       | Some props \<Rightarrow>
           (case (case map_of props field_name of None \<Rightarrow> JNull | Some v \<Rightarrow> v) of
              JNull \<Rightarrow> convert_loop L kind tid field_name to_type indexed uniq rids converted
            | old_value \<Rightarrow>
                let converted_value = convert_value L old_value to_type;
                    converted = (if converted_value \<noteq> None then converted + 1 else converted);
                    new_value = (case converted_value of None \<Rightarrow> JNull | Some v \<Rightarrow> v) in
                if json_eq L new_value old_value then convert_loop L kind tid field_name to_type indexed uniq rids converted
                else
                  bnd (if indexed then reindex_converted L tid rid field_name uniq old_value new_value else ret ()) (\<lambda>_.
                  bnd (replace_raw_props L kind rid (insert_prop field_name new_value props)) (\<lambda>_.
                  convert_loop L kind tid field_name to_type indexed uniq rids converted))))"

definition convert_field_records ::
  "'n lib \<Rightarrow> json_codec \<Rightarrow> schema_ast \<Rightarrow> record_kind \<Rightarrow> u16 \<Rightarrow> record_id list \<Rightarrow> string \<Rightarrow> type_expr \<Rightarrow> bool \<Rightarrow> bool \<Rightarrow>
   (database_file, nat) op" where
  "convert_field_records L J ast kind tid rids field_name to_type indexed uniq =
     bnd (save_schema_unchecked J ast) (\<lambda>_. convert_loop L kind tid field_name to_type indexed uniq rids 0)"

definition change_field_type ::
  "'n lib \<Rightarrow> json_codec \<Rightarrow> record_kind \<Rightarrow> string \<Rightarrow> string \<Rightarrow> string \<Rightarrow> on_conversion_failure \<Rightarrow>
   (database, field_type_change) op" where
  "change_field_type L J kind type_name field_name new_type on_failure =
     bnd (lift_res (ok_or (SchemaError (''cannot change a field to type '' @ quoted new_type @
            '': expected String, Int, Float, Boolean or DateTime'')) (scalar_type_from_name new_type))) (\<lambda>to_type.
     bnd (on_db (load_schema J)) (\<lambda>ast.
     bnd (on_db (schema_type_id J kind type_name)) (\<lambda>tid.
     bnd (lift_res (schema_fields ast kind type_name)) (\<lambda>fs.
     bnd (lift_res (field_position fs kind type_name field_name)) (\<lambda>position.
     let f = fs ! position;
         outcome = \<lparr>fc_applied = True, fc_converted = 0, fc_failed = 0, fc_failed_records = []\<rparr> in
     if fd_type f = to_type then ret outcome
     else if \<not> conversion_supported (fd_type f) to_type
     then err (SchemaError (kind_label kind @ '' '' @ quoted type_name @ '' field '' @ quoted field_name @
            '': changing the type to '' @ new_type @ '' is not supported''))
     else
       let indexed = (kind = KNode \<and> (fd_indexed f \<or> fd_unique f));
           uniq = (kind = KNode \<and> fd_unique f);
           ast = set_schema_fields kind type_name (fs[position := f\<lparr>fd_type := to_type\<rparr>]) ast in
       bnd (on_db (rids_of_kind kind tid)) (\<lambda>rids.
       bnd (on_db (find_failures L kind tid field_name to_type rids outcome)) (\<lambda>outcome.
       if fc_failed outcome > 0 \<and> on_failure = Reject then ret (outcome\<lparr>fc_applied := False\<rparr>)
       else
         bnd (or_restore (on_db (convert_field_records L J ast kind tid rids field_name to_type indexed uniq))) (\<lambda>converted.
         ret (outcome\<lparr>fc_converted := converted\<rparr>)))))))))"

definition change_node_field_type ::
  "'n lib \<Rightarrow> json_codec \<Rightarrow> string \<Rightarrow> string \<Rightarrow> string \<Rightarrow> on_conversion_failure \<Rightarrow> (database, field_type_change) op" where
  "change_node_field_type L J = change_field_type L J KNode"

definition change_edge_field_type ::
  "'n lib \<Rightarrow> json_codec \<Rightarrow> string \<Rightarrow> string \<Rightarrow> string \<Rightarrow> on_conversion_failure \<Rightarrow> (database, field_type_change) op" where
  "change_edge_field_type L J = change_field_type L J KEdge"

section \<open>Schema queries\<close>

definition get_schema_text :: "json_codec \<Rightarrow> grammar \<Rightarrow> (database_file, string) op" where
  "get_schema_text J G = bnd (load_schema J) (\<lambda>ast. ret (unparse G ast))"

definition node_type_names :: "json_codec \<Rightarrow> (database_file, string list) op" where
  "node_type_names J = bnd (load_schema J) (\<lambda>ast. ret (map nd_name (node_defs ast)))"

definition edge_type_names :: "json_codec \<Rightarrow> (database_file, string list) op" where
  "edge_type_names J = bnd (load_schema J) (\<lambda>ast. ret (map ed_name (edge_defs ast)))"


end
