(* ===== verification/Graph_View.thy ===== *)
theory Graph_View
  imports Schema_Changes Database_Open Pathfinding
begin

text \<open>
  The rest of \<^verbatim>\<open>Database\<close> (\<^verbatim>\<open>db.rs\<close>): creating and opening, the read view that the query
  engines work on (\<^verbatim>\<open>DatabaseGraphView\<close>), VACUUM, the integrity check and the queries of the
  schema.
\<close>

section \<open>Create and open\<close>

definition new_database :: "database_file \<Rightarrow> database" where
  "new_database f = \<lparr>db_file = f, db_declared = None\<rparr>"

definition db_create_with_options :: "(path \<Rightarrow> path) \<Rightarrow> path \<Rightarrow> nat \<Rightarrow> (world, database) op" where
  "db_create_with_options real p opts =
     bnd (create_with_options real p opts) (\<lambda>f w.
       case flush f of
         (Inr _, f) \<Rightarrow> (Ok (new_database f), w)
       | (Inl e, f) \<Rightarrow> (Inl e, drop_database real f w))"

definition db_create :: "(path \<Rightarrow> path) \<Rightarrow> path \<Rightarrow> (world, database) op" where
  "db_create real p = db_create_with_options real p DEFAULT_MAX_MEMORY_BYTES"

definition open_in_memory :: database where
  "open_in_memory = new_database create_in_memory"

definition db_open_with_options :: "(path \<Rightarrow> path) \<Rightarrow> path \<Rightarrow> nat \<Rightarrow> (world, database) op" where
  "db_open_with_options real p opts = bnd (open_with_options real p opts) (\<lambda>f. ret (new_database f))"

definition db_open :: "(path \<Rightarrow> path) \<Rightarrow> path \<Rightarrow> (world, database) op" where
  "db_open real p = db_open_with_options real p DEFAULT_MAX_MEMORY_BYTES"

definition db_flush :: "(database, unit) op" where
  "db_flush = on_db flush"

definition db_cache_stats :: "database \<Rightarrow> (nat \<times> nat) option" where
  "db_cache_stats d = cache_stats (db_file d)"

section \<open>The view of the query engines\<close>

record 'n graph_view =
  gv_db :: database
  gv_registry :: "schema_registry option"
  gv_node_props :: "u64 \<Rightarrow> 'n props option"
  gv_edge_props :: "u64 \<Rightarrow> 'n props option"

definition load_view :: "json_codec \<Rightarrow> database \<Rightarrow> 'n graph_view res \<times> database" where
  "load_view J d =
     (case on_db (registry_opt J) d of
        (Inl e, d) \<Rightarrow> (Inl e, d)
      | (Inr registry, d) \<Rightarrow> (Ok \<lparr>gv_db = d, gv_registry = registry, gv_node_props = Map.empty, gv_edge_props = Map.empty\<rparr>, d))"

definition on_view :: "(database, 'a) op \<Rightarrow> ('n graph_view, 'a) op" where
  "on_view m g = (case m (gv_db g) of (r, d) \<Rightarrow> (r, g\<lparr>gv_db := d\<rparr>))"

definition on_view_file :: "(database_file, 'a) op \<Rightarrow> ('n graph_view, 'a) op" where
  "on_view_file m = on_view (on_db m)"

text \<open>\<open>.ok()\<close> and \<open>.unwrap_or_default()\<close>\<close>

definition ok_opt :: "('s, 'a) op \<Rightarrow> ('s, 'a option) op" where
  "ok_opt m = bnd (attempt m) (\<lambda>r. ret (case r of Inl _ \<Rightarrow> None | Inr x \<Rightarrow> Some x))"

definition or_nil :: "('s, 'a list) op \<Rightarrow> ('s, 'a list) op" where
  "or_nil m = bnd (attempt m) (\<lambda>r. ret (case r of Inl _ \<Rightarrow> [] | Inr x \<Rightarrow> x))"

definition node_type_label :: "schema_registry option \<Rightarrow> u16 \<Rightarrow> string" where
  "node_type_label registry tid =
     (case Option.bind registry (node_type_name tid) of Some name \<Rightarrow> name | None \<Rightarrow> decimal (unat tid))"

definition edge_type_label :: "schema_registry option \<Rightarrow> u16 \<Rightarrow> string" where
  "edge_type_label registry tid =
     (case Option.bind registry (edge_type_name tid) of Some name \<Rightarrow> name | None \<Rightarrow> decimal (unat tid))"

text \<open>The list behind \<open>label_ref\<close>; a list that cannot be read counts as empty.\<close>

definition extra_labels :: "'n lib \<Rightarrow> record_id option \<Rightarrow> (database_file, u16 list) op" where
  "extra_labels L lref =
     (case lref of
        None \<Rightarrow> ret []
      | Some lref \<Rightarrow> or_nil (bnd (read_raw lref) (\<lambda>bytes. lift_res (decode_label_list L bytes))))"

definition read_node_all_labels :: "'n lib \<Rightarrow> u64 \<Rightarrow> ('n graph_view, string list) op" where
  "read_node_all_labels L i =
     bnd (on_view_file (ok_opt (read_node (id_to_rid i)))) (\<lambda>r.
       case r of
         None \<Rightarrow> ret []
       | Some node \<Rightarrow>
           bnd (on_view_file (extra_labels L (n_label_ref node))) (\<lambda>extra.
           bnd (gets gv_registry) (\<lambda>registry.
           ret (map (node_type_label registry) (node_type_id node # extra)))))"

definition read_edge_all_labels :: "'n lib \<Rightarrow> u64 \<Rightarrow> ('n graph_view, string list) op" where
  "read_edge_all_labels L i =
     bnd (on_view_file (ok_opt (read_edge (id_to_rid i)))) (\<lambda>r.
       case r of
         None \<Rightarrow> ret []
       | Some edge \<Rightarrow>
           bnd (on_view_file (extra_labels L (e_label_ref edge))) (\<lambda>extra.
           bnd (gets gv_registry) (\<lambda>registry.
           ret (map (edge_type_label registry) (edge_type_id edge # extra)))))"

definition find_node_by :: "'n lib \<Rightarrow> json_codec \<Rightarrow> string \<Rightarrow> string \<Rightarrow> 'n json \<Rightarrow> ('n graph_view, u64 option) op" where
  "find_node_by L J label key value =
     bnd (gets gv_registry) (\<lambda>registry.
     case (case Option.bind registry (node_type_id_of label) of Some tid \<Rightarrow> Some tid | None \<Rightarrow> parse_u16 label) of
       None \<Rightarrow> ret None
     | Some tid \<Rightarrow>
         bnd (on_view_file (ok_opt (find_node L J tid (Flat key) value))) (\<lambda>r.
         ret (map_option rid_to_id (Option.bind r id))))"

definition load_node_props :: "'n lib \<Rightarrow> json_codec \<Rightarrow> u64 \<Rightarrow> ('n graph_view, unit) op" where
  "load_node_props L J i =
     bnd (gets gv_node_props) (\<lambda>cache.
       if cache i \<noteq> None then ret ()
       else
         bnd (on_view (or_nil (get_node_properties L J (id_to_rid i)))) (\<lambda>props.
         modify (\<lambda>g. g\<lparr>gv_node_props := (gv_node_props g)(i \<mapsto> props)\<rparr>)))"

definition load_edge_props :: "'n lib \<Rightarrow> json_codec \<Rightarrow> u64 \<Rightarrow> ('n graph_view, unit) op" where
  "load_edge_props L J i =
     bnd (gets gv_edge_props) (\<lambda>cache.
       if cache i \<noteq> None then ret ()
       else
         bnd (on_view (or_nil (get_edge_properties L J (id_to_rid i)))) (\<lambda>props.
         modify (\<lambda>g. g\<lparr>gv_edge_props := (gv_edge_props g)(i \<mapsto> props)\<rparr>)))"

subsection \<open>\<open>impl GraphAccess\<close>\<close>

definition view_node_properties :: "'n lib \<Rightarrow> json_codec \<Rightarrow> u64 \<Rightarrow> ('n graph_view, 'n props option) op" where
  "view_node_properties L J i = bnd (load_node_props L J i) (\<lambda>_. gets (\<lambda>g. gv_node_props g i))"

definition view_edge_properties :: "'n lib \<Rightarrow> json_codec \<Rightarrow> u64 \<Rightarrow> ('n graph_view, 'n props option) op" where
  "view_edge_properties L J i = bnd (load_edge_props L J i) (\<lambda>_. gets (\<lambda>g. gv_edge_props g i))"

definition view_node_label :: "u64 \<Rightarrow> ('n graph_view, string option) op" where
  "view_node_label i =
     bnd (on_view_file (ok_opt (read_node (id_to_rid i)))) (\<lambda>r.
     bnd (gets gv_registry) (\<lambda>registry. ret (map_option (\<lambda>node. node_type_label registry (node_type_id node)) r)))"

definition view_edge_label :: "u64 \<Rightarrow> ('n graph_view, string option) op" where
  "view_edge_label i =
     bnd (on_view_file (ok_opt (read_edge (id_to_rid i)))) (\<lambda>r.
     bnd (gets gv_registry) (\<lambda>registry. ret (map_option (\<lambda>edge. edge_type_label registry (edge_type_id edge)) r)))"

text \<open>The filters over the labels of each element.\<close>

fun filter_labelled :: "(u64 \<Rightarrow> ('n graph_view, string list) op) \<Rightarrow> string option \<Rightarrow> u64 list \<Rightarrow> ('n graph_view, u64 list) op" where
  "filter_labelled labels_of label [] = ret []"
| "filter_labelled labels_of label (i # is) =
     bnd (case label of None \<Rightarrow> ret True | Some l \<Rightarrow> bnd (labels_of i) (\<lambda>ls. ret (l \<in> set ls))) (\<lambda>keep.
     bnd (filter_labelled labels_of label is) (\<lambda>out. ret (if keep then i # out else out)))"

definition all_nodes_of_label :: "'n lib \<Rightarrow> string \<Rightarrow> ('n graph_view, u64 list) op" where
  "all_nodes_of_label L label =
     bnd (on_view_file (or_nil live_node_rids)) (\<lambda>rids.
     filter_labelled (read_node_all_labels L) (if label = [] then None else Some label) (map rid_to_id rids))"

definition all_edges_of_label :: "'n lib \<Rightarrow> string \<Rightarrow> ('n graph_view, u64 list) op" where
  "all_edges_of_label L label =
     bnd (on_view_file (or_nil live_edge_rids)) (\<lambda>rids.
     filter_labelled (read_edge_all_labels L) (if label = [] then None else Some label) (map rid_to_id rids))"

definition view_node_labels :: "'n lib \<Rightarrow> u64 \<Rightarrow> ('n graph_view, string list) op" where
  "view_node_labels L i = read_node_all_labels L i"

definition view_out_edges :: "'n lib \<Rightarrow> u64 \<Rightarrow> string option \<Rightarrow> ('n graph_view, u64 list) op" where
  "view_out_edges L i label =
     bnd (on_view_file (or_nil (collect_out_edges (id_to_rid i)))) (\<lambda>edges.
     filter_labelled (read_edge_all_labels L) label (map (\<lambda>e. rid_to_id (e_id e)) edges))"

definition view_in_edges :: "'n lib \<Rightarrow> u64 \<Rightarrow> string option \<Rightarrow> ('n graph_view, u64 list) op" where
  "view_in_edges L i label =
     bnd (on_view_file (or_nil (collect_in_edges (id_to_rid i)))) (\<lambda>edges.
     filter_labelled (read_edge_all_labels L) label (map (\<lambda>e. rid_to_id (e_id e)) edges))"

definition edge_to_node :: "u64 \<Rightarrow> ('n graph_view, u64 option) op" where
  "edge_to_node i =
     bnd (on_view_file (ok_opt (read_edge (id_to_rid i)))) (\<lambda>r. ret (map_option (\<lambda>e. rid_to_id (to_node e)) r))"

definition edge_from_node :: "u64 \<Rightarrow> ('n graph_view, u64 option) op" where
  "edge_from_node i =
     bnd (on_view_file (ok_opt (read_edge (id_to_rid i)))) (\<lambda>r. ret (map_option (\<lambda>e. rid_to_id (from_node e)) r))"

section \<open>Vacuum\<close>

text \<open>Two databases are a pair of states.\<close>

definition on_src :: "('s, 'a) op \<Rightarrow> ('s \<times> 't, 'a) op" where
  "on_src m st = (case m (fst st) of (r, s) \<Rightarrow> (r, (s, snd st)))"

definition on_dst :: "('t, 'a) op \<Rightarrow> ('s \<times> 't, 'a) op" where
  "on_dst m st = (case m (snd st) of (r, t) \<Rightarrow> (r, (fst st, t)))"

definition copy_schema_db :: "json_codec \<Rightarrow> (database \<times> database, unit) op" where
  "copy_schema_db J st =
     (case copy_schema J (db_file (fst st), db_file (snd st)) of
        (r, (f, g)) \<Rightarrow> (r, ((fst st)\<lparr>db_file := f\<rparr>, (snd st)\<lparr>db_file := g\<rparr>)))"

fun copy_nodes :: "'n lib \<Rightarrow> json_codec \<Rightarrow> record_id list \<Rightarrow> (record_id \<Rightarrow> record_id option) \<Rightarrow>
    (database \<times> database, record_id \<Rightarrow> record_id option) op" where
  "copy_nodes L J [] rid_map = ret rid_map"
| "copy_nodes L J (old_rid # rids) rid_map =
     bnd (on_src (on_db (ok_opt (read_node old_rid)))) (\<lambda>r.
       case r of
         None \<Rightarrow> copy_nodes L J rids rid_map
       | Some node \<Rightarrow>
           bnd (on_src (or_nil (get_node_properties L J old_rid))) (\<lambda>props.
           bnd (on_src (on_db (get_additional_labels L old_rid))) (\<lambda>labels.
           bnd (on_dst (on_db (insert_node_with_labels L J (node_type_id node) labels props))) (\<lambda>new_rid.
           copy_nodes L J rids (rid_map(old_rid \<mapsto> new_rid))))))"

fun copy_edges :: "'n lib \<Rightarrow> json_codec \<Rightarrow> record_id list \<Rightarrow> (record_id \<Rightarrow> record_id option) \<Rightarrow>
    (database \<times> database, unit) op" where
  "copy_edges L J [] rid_map = ret ()"
| "copy_edges L J (old_eid # rids) rid_map =
     bnd (on_src (on_db (ok_opt (read_edge old_eid)))) (\<lambda>r.
       case r of
         None \<Rightarrow> copy_edges L J rids rid_map
       | Some edge \<Rightarrow>
           (case (rid_map (from_node edge), rid_map (to_node edge)) of
              (Some new_from, Some new_to) \<Rightarrow>
                bnd (on_src (or_nil (get_edge_properties L J old_eid))) (\<lambda>props.
                bnd (on_src (on_db (get_edge_additional_labels L old_eid))) (\<lambda>labels.
                bnd (on_dst (on_db (insert_edge_with_labels L (edge_type_id edge) new_from new_to labels props))) (\<lambda>_.
                copy_edges L J rids rid_map)))
            | _ \<Rightarrow> copy_edges L J rids rid_map))"

definition copy_live_contents_into :: "'n lib \<Rightarrow> json_codec \<Rightarrow> (database \<times> database, unit) op" where
  "copy_live_contents_into L J =
     bnd (\<lambda>st. (if schema_root (header (db_file (fst st))) \<noteq> 0 then copy_schema_db J else ret ()) st) (\<lambda>_.
     bnd (on_src (on_db live_node_rids)) (\<lambda>rids.
     bnd (copy_nodes L J rids Map.empty) (\<lambda>rid_map.
     bnd (on_src (on_db live_edge_rids)) (\<lambda>eids.
     copy_edges L J eids rid_map))))"

definition vacuum :: "'n lib \<Rightarrow> json_codec \<Rightarrow> (database, unit) op" where
  "vacuum L J d =
     (if \<not> is_in_memory (db_file d)
      then (Err (SchemaError ''vacuum for file-backed DB must be called via vacuum_file()''), d)
      else case copy_live_contents_into L J (d, open_in_memory) of
        (Inl e, (d, _)) \<Rightarrow> (Inl e, d)
      | (Inr _, (_, new_db)) \<Rightarrow> (Ok (), new_db))"

text \<open>\<open>path.with_extension("tdb.vacuum")\<close>: what follows the last dot is replaced, unless the dot is the first byte.\<close>

definition file_stem :: "string \<Rightarrow> string" where
  "file_stem n =
     (let ext = takeWhile (\<lambda>c. c \<noteq> CHR ''.'') (rev n); before = drop (length ext + 1) (rev n) in
      if length ext < length n \<and> before \<noteq> [] then rev before else n)"

definition vacuum_path :: "path \<Rightarrow> path" where
  "vacuum_path p = (case path_name p of None \<Rightarrow> p | Some n \<Rightarrow> p\<lparr>path_name := Some (file_stem n @ ''.tdb.vacuum'')\<rparr>)"

definition rename_file :: "path \<Rightarrow> path \<Rightarrow> (world, unit) op" where
  "rename_file src dst w =
     (case disk w src of
        None \<Rightarrow> (Err (IoError NotFound), w)
      | Some f \<Rightarrow> (Ok (), w\<lparr>disk := (disk w)(src := None, dst \<mapsto> f)\<rparr>))"

definition vacuum_file :: "'n lib \<Rightarrow> json_codec \<Rightarrow> (path \<Rightarrow> path) \<Rightarrow> path \<Rightarrow> (world, unit) op" where
  "vacuum_file L J real p =
     bnd (db_open real p) (\<lambda>d w.
       case db_create real (vacuum_path p) w of
         (Inl e, w) \<Rightarrow> (Inl e, drop_database real (db_file d) w)
       | (Inr new_db, w) \<Rightarrow>
           (case bnd (copy_live_contents_into L J) (\<lambda>_. on_dst db_flush) (d, new_db) of
              (r, (d, new_db)) \<Rightarrow>
                let w = drop_database real (db_file d) (drop_database real (db_file new_db) w) in
                (case r of Inl e \<Rightarrow> (Inl e, w) | Inr _ \<Rightarrow> rename_file (real (vacuum_path p)) (real p) w)))"

section \<open>Integrity check\<close>

fun check_edge_ends :: "record_id set \<Rightarrow> record_id list \<Rightarrow> (database_file, string list) op" where
  "check_edge_ends nds [] = ret []"
| "check_edge_ends nds (eid # eids) =
     bnd (ok_opt (read_edge eid)) (\<lambda>r.
     bnd (check_edge_ends nds eids) (\<lambda>warnings.
     ret (case r of
            None \<Rightarrow> warnings
          | Some edge \<Rightarrow>
              (if from_node edge \<notin> nds
               then [''edge '' @ debug_rid eid @ '': from_node '' @ debug_rid (from_node edge) @ '' does not exist''] else []) @
              (if to_node edge \<notin> nds
               then [''edge '' @ debug_rid eid @ '': to_node '' @ debug_rid (to_node edge) @ '' does not exist''] else []) @
              warnings)))"

text \<open>The walk along a chain stops at the first edge it meets again, so it takes at most \<open>MAX_LINKS\<close> steps.\<close>

fun chain_has_cycle :: "nat \<Rightarrow> edge_direction \<Rightarrow> record_id set \<Rightarrow> record_id option \<Rightarrow> (database_file, bool) op" where
  "chain_has_cycle left d visited None = ret False"
| "chain_has_cycle 0 d visited (Some eid) = fail Diverged"
| "chain_has_cycle (Suc left) d visited (Some eid) =
     (if eid \<in> visited then ret True
      else
        bnd (ok_opt (read_edge eid)) (\<lambda>r.
        chain_has_cycle left d (insert eid visited) (Option.bind r (next_edge d))))"

fun check_chains :: "record_id list \<Rightarrow> (database_file, string list) op" where
  "check_chains [] = ret []"
| "check_chains (nid # nids) =
     bnd (ok_opt (read_node nid)) (\<lambda>r.
     bnd (case r of
            None \<Rightarrow> ret []
          | Some node \<Rightarrow>
              bnd (chain_has_cycle (MAX_LINKS + 1) Out {} (first_out_edge node)) (\<lambda>c_out.
              bnd (chain_has_cycle (MAX_LINKS + 1) In {} (first_in_edge node)) (\<lambda>c_in.
              ret ((if c_out then [''node '' @ debug_rid nid @ '': cycle in out_edge chain''] else []) @
                   (if c_in then [''node '' @ debug_rid nid @ '': cycle in in_edge chain''] else []))))) (\<lambda>ws.
     bnd (check_chains nids) (\<lambda>warnings. ret (ws @ warnings))))"

definition verify :: "(database_file, string list) op" where
  "verify =
     bnd live_node_rids (\<lambda>nids.
     bnd live_edge_rids (\<lambda>eids.
     bnd (check_edge_ends (set nids) eids) (\<lambda>ws.
     bnd (check_chains (remdups nids)) (\<lambda>ws'. ret (ws @ ws')))))"

section \<open>Schema queries\<close>

text \<open>The \<open>Debug\<close> form of a type; \<open>dbg\<close> is that of a string, which escapes by Unicode tables.\<close>

fun debug_type :: "(string \<Rightarrow> string) \<Rightarrow> type_expr \<Rightarrow> string" where
  "debug_type dbg TInt = ''Int''"
| "debug_type dbg TFloat = ''Float''"
| "debug_type dbg TBoolean = ''Boolean''"
| "debug_type dbg TDateTime = ''DateTime''"
| "debug_type dbg TString = ''String''"
| "debug_type dbg TJson = ''Json''"
| "debug_type dbg TBlob = ''Blob''"
| "debug_type dbg (TVector n) = ''Vector('' @ decimal (unat n) @ '')''"
| "debug_type dbg (TList inner) = ''List('' @ debug_type dbg inner @ '')''"
| "debug_type dbg (TMap k v) = ''Map('' @ debug_type dbg k @ '', '' @ debug_type dbg v @ '')''"
| "debug_type dbg (TNodeRef s) = ''NodeRef('' @ dbg s @ '')''"
| "debug_type dbg (TEdgeRef s) = ''EdgeRef('' @ dbg s @ '')''"
| "debug_type dbg (TNamed s) = ''Named('' @ dbg s @ '')''"

record property_def =
  pd_name :: string
  pd_value_type :: string
  pd_nullable :: bool

definition from_field :: "(string \<Rightarrow> string) \<Rightarrow> field_def \<Rightarrow> property_def" where
  "from_field dbg f =
     \<lparr>pd_name = fd_name f,
      pd_value_type =
        (case fd_type f of
           TList inner \<Rightarrow> ''List<'' @ debug_type dbg inner @ ''>''
         | TMap k v \<Rightarrow> ''Map<'' @ debug_type dbg k @ '','' @ debug_type dbg v @ ''>''
         | TNodeRef n \<Rightarrow> ''NodeRef('' @ n @ '')''
         | TEdgeRef n \<Rightarrow> ''EdgeRef('' @ n @ '')''
         | TNamed n \<Rightarrow> n
         | t \<Rightarrow> debug_type dbg t),
      pd_nullable = False\<rparr>"

record type_schema =
  ts_name :: string
  ts_properties :: "property_def list"

definition node_type_schema :: "json_codec \<Rightarrow> (string \<Rightarrow> string) \<Rightarrow> string \<Rightarrow> (database_file, type_schema option) op" where
  "node_type_schema J dbg type_name =
     bnd (load_schema J) (\<lambda>ast.
     ret (map_option (\<lambda>n. \<lparr>ts_name = nd_name n, ts_properties = map (from_field dbg) (nd_fields n)\<rparr>) (find_node_def type_name ast)))"

definition edge_type_schema :: "json_codec \<Rightarrow> (string \<Rightarrow> string) \<Rightarrow> string \<Rightarrow> (database_file, type_schema option) op" where
  "edge_type_schema J dbg type_name =
     bnd (load_schema J) (\<lambda>ast.
     ret (map_option (\<lambda>e. \<lparr>ts_name = ed_name e, ts_properties = map (from_field dbg) (ed_props e)\<rparr>) (find_edge_def type_name ast)))"

section \<open>Paths\<close>

definition db_shortest_path :: "record_id \<Rightarrow> record_id \<Rightarrow> path_options \<Rightarrow> (database, path_result option) op" where
  "db_shortest_path src dst options = on_db (shortest_path src dst options)"

definition db_connecting_subgraph :: "record_id list \<Rightarrow> path_options \<Rightarrow> (database, connecting) op" where
  "db_connecting_subgraph rids options = on_db (connecting_subgraph rids options)"

end
