(* ===== verification/Graph_Store.thy ===== *)
theory Graph_Store
  imports Database Label_Updates
begin

text \<open>
  The components of an open database together: the topology, the property values, the label index, the
  property index and the schema lie on disjoint pages of one file. \<open>gstore\<close> is the state the operations
  of \<^verbatim>\<open>db.rs\<close> work on, \<open>gstore_rep\<close> relates it to the file, and \<open>gspec\<close> states what an operation does
  to it. Each operation of a component is lifted to this state once; \<^verbatim>\<open>db.rs\<close> is then reasoned about
  by composing these facts.
\<close>

section \<open>Congruence of the representations\<close>

lemma li_own_mapped: "li_rep v R C \<Longrightarrow> p \<in> li_own R C \<Longrightarrow> mapped v p \<and> p \<noteq> 0"
proof -
  assume rep: "li_rep v R C" and "p \<in> li_own R C"
  then consider "p \<in> set R" | t where "p \<in> set (C t)" by (auto simp: li_own_def)
  then show "mapped v p \<and> p \<noteq> 0"
  proof cases
    case 1
    then show ?thesis using roots_repD(3,4) [OF li_repD(3) [OF rep]] by blast
  next
    case 2
    then have "C t \<noteq> []" by auto
    from chain_repD(4,5) [OF li_repD(4) [OF rep this] 2] show ?thesis by blast
  qed
qed

lemma li_rep_cong:
  assumes rep: "li_rep v R C" and ok: "vol_ok v'" "0 < vcount v'" and root: "label_root v' = label_root v"
    and same: "\<And>p. p \<in> li_own R C \<Longrightarrow> mapped v' p \<and> vpage v' p = vpage v p"
  shows "li_rep v' R C" "li_entries v' (C t) = li_entries v (C t)"
proof -
  note D = li_repD [OF rep]
  have R: "mapped v' p \<and> vpage v' p = vpage v p" if "p \<in> set R" for p using same that by (simp add: li_own_def)
  have C: "mapped v' p \<and> vpage v' p = vpage v p" if "p \<in> set (C u)" for p u
    using same [of p] that by (auto simp: li_own_def)
  show "li_entries v' (C t) = li_entries v (C t)" by (rule li_entries_cong) (use C in simp)
  have chains: "chain_rep v' (C u) \<and> (\<exists>h sp fs. C u = h # sp @ fs \<and> ordered v' h sp fs)" if ne: "C u \<noteq> []" for u
  proof -
    have "chain_rep v' (C u)" by (rule chain_rep_cong [OF D(4) [OF ne]]) (use C in simp)
    moreover obtain h sp fs where o: "C u = h # sp @ fs" "ordered v h sp fs" using D(5) [OF ne] by blast
    have "ordered v' h sp fs" by (rule ordered_cong [OF o(2)]) (use C [of _ u] o(1) in auto)
    ultimately show ?thesis using o(1) by blast
  qed
  have "roots_rep v' R (\<lambda>t. case C t of [] \<Rightarrow> None | p # _ \<Rightarrow> Some p)"
    by (rule roots_rep_cong [OF D(3) root]) (rule R)
  then show "li_rep v' R C" using ok chains D(6,7) unfolding li_rep_def by blast
qed

lemma label_rep_cong:
  assumes "label_rep v R C E" "vol_ok v'" "0 < vcount v'" "label_root v' = label_root v"
    and "\<And>p. p \<in> li_own R C \<Longrightarrow> mapped v' p \<and> vpage v' p = vpage v p"
  shows "label_rep v' R C E"
  using assms li_rep_cong [of v R C v'] unfolding label_rep_def by simp

lemma pi_own_mapped: "pi_shape v B \<Longrightarrow> p \<in> pi_own v B \<Longrightarrow> mapped v p \<and> p \<noteq> 0"
  using pi_shapeD(5,6,8,9) [of v B] by (auto simp: pi_own_def)

lemma index_rep_cong:
  assumes "index_rep v B X" "vol_ok v'" "0 < vcount v'" "pi_root v' = pi_root v"
    and same: "\<And>p. p \<in> pi_own v B \<Longrightarrow> mapped v' p \<and> vpage v' p = vpage v p"
  shows "index_rep v' B X" "pi_own v' B = pi_own v B"
proof -
  show "pi_own v' B = pi_own v B" using assms(4) by (simp add: pi_own_def)
  have "bucket_entries v' (B b) = bucket_entries v (B b)" for b
    by (rule bucket_entries_cong) (use same pi_ownI(1) in blast)
  then show "index_rep v' B X"
    using pi_shape_cong [OF index_repD(1) [OF assms(1)] assms(2-4) same] assms(1) by (simp add: index_rep_def)
qed

text \<open>The stored schema, if there is one, with the pages it lies on.\<close>

definition schema_rep :: "json_codec \<Rightarrow> vol \<Rightarrow> bytes list \<Rightarrow> schema_dto option \<Rightarrow> bool" where
  "schema_rep J v ps D \<longleftrightarrow>
     (case D of None \<Rightarrow> schema_root (vhdr v) = 0 \<and> ps = [] | Some dto \<Rightarrow> schema_at J v ps dto)"

lemma schema_own_Nil [simp]: "schema_own v [] = {}"
  by (simp add: schema_own_def)

lemma schema_rep_pages: "schema_rep J v ps D \<Longrightarrow> D = None \<and> ps = [] \<or> schema_pages_at v ps"
  by (auto simp: schema_rep_def schema_at_def split: option.splits)

lemma schema_own_rep: "vol_ok v \<Longrightarrow> schema_rep J v ps D \<Longrightarrow> p \<in> schema_own v ps \<Longrightarrow> mapped v p \<and> p \<noteq> 0"
  using schema_own_mapped schema_rep_pages by fastforce

lemma schema_rep_cong:
  assumes "vol_ok v" "schema_rep J v ps D" "schema_root (vhdr v') = schema_root (vhdr v)"
    and same: "\<And>p. p \<in> schema_own v ps \<Longrightarrow> mapped v' p \<and> vpage v' p = vpage v p"
  shows "schema_rep J v' ps D" "schema_own v' ps = schema_own v ps"
proof -
  have page: "schema_page v' = schema_page v" using assms(3) by (simp add: schema_page_def fun_eq_iff)
  then show "schema_own v' ps = schema_own v ps" by (simp add: schema_own_def)
  show "schema_rep J v' ps D"
  proof (cases D)
    case None
    then show ?thesis using assms(2,3) by (simp add: schema_rep_def)
  next
    case (Some dto)
    then have at: "schema_at J v ps dto" using assms(2) by (simp add: schema_rep_def)
    then have P: "schema_pages_at v ps" by (simp add: schema_at_def)
    have same': "mapped v' (schema_page v i) \<and> vpage v' (schema_page v i) = vpage v (schema_page v i)" if "i < length ps" for i
      using same that by (auto simp: schema_own_def)
    obtain m where m: "length ps = Suc m" using P by (cases ps) (simp_all add: schema_pages_at_def)
    then have "unat (schema_root (vhdr v)) + length ps \<le> vcount v'"
      using same' [of m] unat_schema_page(1) [OF assms(1) P, of m] by simp
    then show ?thesis
      using at P same' assms(3) page by (auto simp: Some schema_rep_def schema_at_def schema_pages_at_def)
  qed
qed

section \<open>The pages that are not the spaces'\<close>

text \<open>The two indexes and the schema, on disjoint pages among those of \<open>other\<close>.\<close>

definition extras_at ::
  "json_codec \<Rightarrow> vol \<Rightarrow> u32 set \<Rightarrow> u32 list \<Rightarrow> (u16 \<Rightarrow> u32 list) \<Rightarrow> (nat \<Rightarrow> u32 list) \<Rightarrow> bytes list \<Rightarrow>
   label_sets \<Rightarrow> index_entry set \<Rightarrow> schema_dto option \<Rightarrow> bool" where
  "extras_at J v other R C B ps E X D \<longleftrightarrow>
     label_rep v R C E \<and> index_rep v B X \<and> schema_rep J v ps D \<and>
     li_own R C \<inter> pi_own v B = {} \<and> li_own R C \<inter> schema_own v ps = {} \<and> pi_own v B \<inter> schema_own v ps = {} \<and>
     li_own R C \<subseteq> other \<and> pi_own v B \<subseteq> other \<and> schema_own v ps \<subseteq> other"

definition extras :: "json_codec \<Rightarrow> vol \<Rightarrow> u32 set \<Rightarrow> label_sets \<Rightarrow> index_entry set \<Rightarrow> schema_dto option \<Rightarrow> bool" where
  "extras J v other E X D \<longleftrightarrow> (\<exists>R C B ps. extras_at J v other R C B ps E X D)"

lemma extrasE:
  assumes "extras J v other E X D"
  obtains R C B ps where "label_rep v R C E" "index_rep v B X" "schema_rep J v ps D"
    "li_own R C \<inter> pi_own v B = {}" "li_own R C \<inter> schema_own v ps = {}" "pi_own v B \<inter> schema_own v ps = {}"
    "li_own R C \<subseteq> other" "pi_own v B \<subseteq> other" "schema_own v ps \<subseteq> other"
  using assms unfolding extras_def extras_at_def by blast

lemma extrasI:
  assumes "label_rep v R C E" "index_rep v B X" "schema_rep J v ps D"
    "li_own R C \<inter> pi_own v B = {}" "li_own R C \<inter> schema_own v ps = {}" "pi_own v B \<inter> schema_own v ps = {}"
    "li_own R C \<subseteq> other" "pi_own v B \<subseteq> other" "schema_own v ps \<subseteq> other"
  shows "extras J v other E X D"
  using assms unfolding extras_def extras_at_def by blast

lemma index_partD:
  assumes "index_part h' = index_part h"
  shows "label_index_root h' = label_index_root h" "property_index_root h' = property_index_root h"
    "schema_root h' = schema_root h"
  using assms by (simp_all add: index_part_def)

lemma extras_cong:
  assumes ex: "extras J v other E X D" and ok: "vol_ok v" "vol_ok v'" "0 < vcount v'"
    and hdr: "index_part (vhdr v') = index_part (vhdr v)"
    and same: "\<And>p. p \<in> other \<Longrightarrow> mapped v' p \<and> vpage v' p = vpage v p"
  shows "extras J v' other E X D"
proof -
  obtain R C B ps where x: "label_rep v R C E" "index_rep v B X" "schema_rep J v ps D"
      "li_own R C \<inter> pi_own v B = {}" "li_own R C \<inter> schema_own v ps = {}" "pi_own v B \<inter> schema_own v ps = {}"
      "li_own R C \<subseteq> other" "pi_own v B \<subseteq> other" "schema_own v ps \<subseteq> other"
    using ex by (rule extrasE)
  note h = index_partD [OF hdr]
  have s: "mapped v' p \<and> vpage v' p = vpage v p" if "p \<in> Y" "Y \<subseteq> other" for p Y using same that by blast
  have l: "label_rep v' R C E" by (rule label_rep_cong [OF x(1) ok(2,3) h(1)]) (rule s [OF _ x(7)])
  note i = index_rep_cong [OF x(2) ok(2,3) h(2) s [OF _ x(8)]]
  note c = schema_rep_cong [OF ok(1) x(3) h(3) s [OF _ x(9)]]
  show ?thesis by (rule extrasI [OF l i(1) c(1)]) (use x i(2) c(2) in simp_all)
qed

section \<open>The state of an open database\<close>

record gstore =
  g_nodes :: "record_id \<Rightarrow> node_record option"
  g_edges :: "record_id \<Rightarrow> edge_record option"
  g_lists :: adjacency
  g_vals :: "record_id \<Rightarrow> bytes option"
  g_labels :: label_sets
  g_index :: "index_entry set"
  g_schema :: "schema_dto option"
  g_room :: nat

definition gstate :: "spaces \<Rightarrow> gstore \<Rightarrow> bool" where
  "gstate S G \<longleftrightarrow> graph S (g_lists G) \<and> store_inv S \<and> nodes S = g_nodes G \<and> edges S = g_edges G \<and>
     vals S = g_vals G \<and> g_room G \<le> sp_room S"

definition gstore_rep :: "json_codec \<Rightarrow> database_file \<Rightarrow> gstore \<Rightarrow> bool" where
  "gstore_rep J db G \<longleftrightarrow> (\<exists>v S own pids phys. db_rep db v \<and> layout v S own pids phys \<and> gstate S G \<and>
     extras J v (dom (sp_other S)) (g_labels G) (g_index G) (g_schema G))"

lemma gstateD:
  assumes "gstate S G"
  shows "graph S (g_lists G)" "store_inv S" "nodes S = g_nodes G" "edges S = g_edges G" "vals S = g_vals G"
    "g_room G \<le> sp_room S"
  using assms by (simp_all add: gstate_def)

lemma topo_hint_part: "topo_part h' = topo_part h \<Longrightarrow> topology_first_free_hint kind h' = topology_first_free_hint kind h"
  by (cases kind; simp add: topo_part_def topology_first_free_hint_def)

text \<open>The topology depends on its pages and hints only, the values on theirs.\<close>

lemma topology_cong:
  assumes "sp_pages S' NodeS = sp_pages S NodeS" "sp_pages S' EdgeS = sp_pages S EdgeS"
    "topo_part (sp_hdr S') = topo_part (sp_hdr S)"
  shows "nodes S' = nodes S" "edges S' = edges S" "graph S' L = graph S L"
proof -
  have sp: "sp_pages S' (space_of kind) = sp_pages S (space_of kind)" for kind
    using assms(1,2) by (cases kind) (simp_all add: space_of_def)
  then have c: "cells S' kind = cells S kind" for kind by (simp add: cells_def)
  show n: "nodes S' = nodes S" and e: "edges S' = edges S" by (simp_all add: fun_eq_iff nodes_def edges_def c)
  have h: "hint_ok S' kind = hint_ok S kind" for kind
    using topo_hint_part [OF assms(3)] by (simp add: hint_ok_def sp)
  have l: "Adjacency.heads S' d = Adjacency.heads S d" "Adjacency.links S' d = Adjacency.links S d"
      "Adjacency.ends S' d = Adjacency.ends S d" for d
    by (simp_all add: fun_eq_iff Adjacency.heads_def links_def ends_def n e)
  show "graph S' L = graph S L" by (simp add: graph_def ids_ok_def topo_inv_def l n e h)
qed

lemma values_cong:
  assumes "sp_pages S' PropertyS = sp_pages S PropertyS"
    "property_free_list_head (sp_hdr S') = property_free_list_head (sp_hdr S)"
  shows "store_inv S' = store_inv S" "vals S' = vals S"
  using assms by (simp_all add: store_inv_def vals_def fun_eq_iff)

section \<open>What an operation does\<close>

definition gspec :: "json_codec \<Rightarrow> (database_file, 'a) op \<Rightarrow> gstore \<Rightarrow> ('a res \<Rightarrow> gstore \<Rightarrow> bool) \<Rightarrow> bool" where
  "gspec J m G Q \<longleftrightarrow> (\<forall>db. gstore_rep J db G \<longrightarrow>
     (\<exists>r db' G'. m db = (r, db') \<and> gstore_rep J db' G' \<and> db_since db db' \<and> Q r G'))"

lemma gspecD:
  assumes "gspec J m G Q" "gstore_rep J db G"
  obtains r db' G' where "m db = (r, db')" "gstore_rep J db' G'" "db_since db db'" "Q r G'"
  using assms unfolding gspec_def by blast

lemma gspec_conseq: "gspec J m G P \<Longrightarrow> (\<And>r G'. P r G' \<Longrightarrow> Q r G') \<Longrightarrow> gspec J m G Q"
  unfolding gspec_def by blast

lemma gspec_lift: "Q r G \<Longrightarrow> gspec J (lift_res r) G Q"
  unfolding gspec_def by (simp add: db.R_refl) blast

lemma gspec_ret: "Q (Ok x) G \<Longrightarrow> gspec J (ret x) G Q"
  unfolding gspec_def by (simp add: db.R_refl) blast

lemma gspec_fail: "Q (Inl e) G \<Longrightarrow> gspec J (fail e) G Q"
  unfolding gspec_def by (simp add: db.R_refl) blast

lemma gspec_bnd:
  assumes m: "gspec J m G P" and k: "\<And>x G1. P (Ok x) G1 \<Longrightarrow> gspec J (k x) G1 Q" and e: "\<And>a G1. P (Inl a) G1 \<Longrightarrow> Q (Inl a) G1"
  shows "gspec J (bnd m k) G Q"
  unfolding gspec_def
proof (intro allI impI)
  fix db assume "gstore_rep J db G"
  from gspecD [OF m this] obtain r db1 G1 where 1: "m db = (r, db1)" "gstore_rep J db1 G1" "db_since db db1" "P r G1" by blast
  show "\<exists>r db' G'. bnd m k db = (r, db') \<and> gstore_rep J db' G' \<and> db_since db db' \<and> Q r G'"
  proof (cases r)
    case (Inl a)
    then show ?thesis using 1 e by (auto simp: bnd_def)
  next
    case (Inr x)
    have "gspec J (k x) G1 Q" using k 1(4) Inr by simp
    from gspecD [OF this 1(2)] obtain r' db' G' where 2: "k x db1 = (r', db')" "gstore_rep J db' G'" "db_since db1 db'" "Q r' G'" by blast
    then show ?thesis using 1 Inr db.R_trans [OF 1(3) 2(3)] by (auto simp: bnd_def)
  qed
qed

text \<open>An operation that returns a value.\<close>

abbreviation gok :: "json_codec \<Rightarrow> (database_file, 'a) op \<Rightarrow> gstore \<Rightarrow> ('a \<Rightarrow> gstore \<Rightarrow> bool) \<Rightarrow> bool" where
  "gok J m G P \<equiv> gspec J m G (\<lambda>r G'. \<exists>x. r = Ok x \<and> P x G')"

lemma gok_bnd: "gok J m G P \<Longrightarrow> (\<And>x G1. P x G1 \<Longrightarrow> gspec J (k x) G1 Q) \<Longrightarrow> gspec J (bnd m k) G Q"
  by (erule gspec_bnd) auto

lemma gok_ret: "P x G \<Longrightarrow> gok J (ret x) G P"
  by (rule gspec_ret) blast

lemma gok_conseq: "gok J m G P \<Longrightarrow> (\<And>x G'. P x G' \<Longrightarrow> P' x G') \<Longrightarrow> gok J m G P'"
  by (erule gspec_conseq) auto

lemma gok_attempt: "gok J m G P \<Longrightarrow> gok J (attempt m) G (\<lambda>x G'. \<exists>y. x = Inr y \<and> P y G')"
  unfolding gspec_def attempt_def by fastforce

lemma gerr_attempt: "gspec J m G (\<lambda>r G'. r = Err e \<and> P G') \<Longrightarrow> gok J (attempt m) G (\<lambda>x G'. x = Inl e \<and> P G')"
  unfolding gspec_def attempt_def by fastforce

section \<open>Lifting the operations of a component\<close>

text \<open>An operation on the spaces.\<close>

lemma lift_spaces:
  assumes "\<And>S. live S \<Longrightarrow> gstate S G \<Longrightarrow> \<exists>r S' G'. space_does m S r S' \<and> same_rest S S' \<and> gstate S' G' \<and>
      g_labels G' = g_labels G \<and> g_index G' = g_index G \<and> g_schema G' = g_schema G \<and> Q r G'"
  shows "gspec J m G Q"
  unfolding gspec_def
proof (intro allI impI)
  fix db assume "gstore_rep J db G"
  then obtain v S own pids phys where v: "db_rep db v" "layout v S own pids phys" "gstate S G"
      "extras J v (dom (sp_other S)) (g_labels G) (g_index G) (g_schema G)"
    unfolding gstore_rep_def by blast
  have rep: "space_rep db S" using v(1,2) unfolding space_rep_def by blast
  then have "live S" by (auto simp: live_def)
  from assms [OF this v(3)] obtain r S' G' where s: "space_does m S r S'" "same_rest S S'" "gstate S' G'"
      "g_labels G' = g_labels G" "g_index G' = g_index G" "g_schema G' = g_schema G" "Q r G'" by blast
  obtain db' where db': "m db = (r, db')" "space_rep db' S'" "db_since db db'"
    using s(1) rep unfolding does_def by blast
  obtain v' own' pids' phys' where v': "db_rep db' v'" "layout v' S' own' pids' phys'"
    using db'(2) unfolding space_rep_def by blast
  have rest: "sp_other S' = sp_other S" "index_part (sp_hdr S') = index_part (sp_hdr S)"
    using s(2) by (simp_all add: same_rest_def)
  have "extras J v' (dom (sp_other S)) (g_labels G) (g_index G) (g_schema G)"
  proof (rule extras_cong [OF v(4)])
    show "vol_ok v" "vol_ok v'" "0 < vcount v'" using layoutD(1,2) v(2) v'(2) by blast+
    show "index_part (vhdr v') = index_part (vhdr v)"
      using rest(2) layoutD(12) [OF v(2)] layoutD(12) [OF v'(2)] by simp
    show "mapped v' p \<and> vpage v' p = vpage v p" if "p \<in> dom (sp_other S)" for p
    proof -
      from that obtain d where d: "sp_other S p = Some d" by (auto simp: dom_def)
      then show ?thesis using layoutD(11) [OF v(2) d] layoutD(11) [OF v'(2), of p d] rest(1) by simp
    qed
  qed
  then have "gstore_rep J db' G'" unfolding gstore_rep_def using v' s(3-6) rest(1) by (metis (no_types))
  then show "\<exists>r db' G'. m db = (r, db') \<and> gstore_rep J db' G' \<and> db_since db db' \<and> Q r G'"
    using db' s(7) by blast
qed

text \<open>
  An operation on an index works on the pages \<open>X\<close> of the index and on pages it appends, and changes the
  header in the root of the index.
\<close>

definition index_header :: "(file_header \<Rightarrow> file_header) \<Rightarrow> bool" where
  "index_header g \<longleftrightarrow> keeps_dirs g \<and> (\<forall>h. topo_part (g h) = topo_part h \<and>
     property_free_list_head (g h) = property_free_list_head h)"

lemma index_headerI:
  "index_header (label_index_root_update f)" "index_header (property_index_root_update f)"
  by (auto simp: index_header_def topo_part_def keeps_dirs_def hide_roots_def dir_of_def property_dir_def
      topology_dir_def space_len_def split: space.splits)

definition index_moved :: "u32 set \<Rightarrow> vol \<Rightarrow> nat \<Rightarrow> (file_header \<Rightarrow> file_header) \<Rightarrow> spaces \<Rightarrow> spaces" where
  "index_moved X v k g S = S\<lparr>sp_hdr := g (sp_hdr S), sp_room := sp_room S - k,
     sp_other := (\<lambda>p. if p \<in> dom (sp_other S) \<union> X then Some (vpage v p) else None)\<rparr>"

lemma index_moved_simps [simp]:
  "sp_hdr (index_moved X v k g S) = g (sp_hdr S)" "sp_room (index_moved X v k g S) = sp_room S - k"
  "sp_pages (index_moved X v k g S) = sp_pages S" "dom (sp_other (index_moved X v k g S)) = dom (sp_other S) \<union> X"
  by (auto simp: index_moved_def split: if_splits)

lemma layout_index:
  assumes L: "layout v S own pids phys" and F: "own_frame k v X v' X'" and X: "X \<subseteq> dom (sp_other S)"
    and ok: "vol_ok v'" and X': "\<And>p. p \<in> X' \<Longrightarrow> mapped v' p"
    and hdr: "vhdr v' = g (vhdr v)" and g: "index_header g" and room: "k \<le> sp_room S"
  shows "layout v' (index_moved X' v' k g S) own pids phys"
proof -
  note D = layoutD [OF L]
  have gd: "keeps_dirs g" using g by (simp add: index_header_def)
  have other: "own p = None \<and> mapped v p" if "p \<in> dom (sp_other S)" for p using D(11) [of p] that by (auto simp: dom_def)
  have n0: "0 \<notin> X" using other [of 0] D(6) X by auto
  have up: "mapped v' p" if "mapped v p" for p using F that by (simp add: own_frame_def)
  have keep: "vpage v' p = vpage v p" if "mapped v p" "p \<noteq> 0" "p \<notin> X" for p using F that by (simp add: own_frame_def)
  have owned: "mapped v' p \<and> vpage v' p = vpage v p" if "own p \<noteq> None" "p \<noteq> 0" for p
  proof -
    have m: "mapped v p" by (rule D(9) [OF that(1)])
    have "p \<notin> X" using other [of p] that(1) X by (simp add: subset_iff) blast
    then show ?thesis using keep [OF m that(2)] up [OF m] by simp
  qed
  have not0: "0 \<notin> set (pids j)" "i < length (phys j) \<Longrightarrow> phys j ! i \<noteq> 0" for j i
    using D(6,7,8) by (metis option.inject owner.distinct(1,3))+
  have "synced v" using D(2,3) by (simp add: synced_def)
  then have s: "0 < vcount v'" "vpage v' 0 = header_serialize (vhdr v')" using F n0 by (auto simp: own_frame_def synced_def)
  have count: "vcount v \<le> vcount v'" "vcount v' \<le> vcount v + k" using F by (simp_all add: own_frame_def)
  have dirs: "dir_rep v' (dir_of j (vhdr v')) (pids j) (phys j)" for j
  proof -
    have "mapped v' q \<and> vpage v' q = vpage v q" if "q \<in> set (pids j)" for q
    proof (rule owned)
      show "own q \<noteq> None" using D(7) [OF that] by simp
      show "q \<noteq> 0" using not0(1) [of j] that by auto
    qed
    then have "dir_rep v' (dir_of j (vhdr v)) (pids j) (phys j)" by (rule dir_rep_cong [OF D(4)])
    then show ?thesis using gd hdr by (simp add: keeps_dirs_def)
  qed
  have lens: "unat (space_len j (vhdr v')) = length (phys j) \<and> length (phys j) < vcount v'" for j
    using D(5,15) [of j] count(1) gd hdr by (simp add: keeps_dirs_def)
  have pages: "sp_pages S j = map (vpage v') (phys j)" for j
    unfolding D(10) by (rule nth_equalityI) (use owned D(8) not0(2) in auto)
  have oth: "own p = None \<and> mapped v' p \<and> vpage v' p = d" if "sp_other (index_moved X' v' k g S) p = Some d" for p d
  proof -
    have p: "p \<in> dom (sp_other S) \<or> p \<in> X'" "d = vpage v' p" using that by (auto simp: index_moved_def split: if_splits)
    have "own p = None" if "p \<in> X'" "p \<notin> dom (sp_other S)"
    proof -
      have "\<not> mapped v p" using F that X by (auto simp: own_frame_def)
      then show ?thesis using D(9) [of p] by blast
    qed
    then show ?thesis using p other up X' by blast
  qed
  have hd: "version (vhdr v') = VERSION" "g (sp_hdr S) = hide_roots (vhdr v')"
    using gd hdr D(12,14) by (simp_all add: keeps_dirs_def)
  have m: "mapped v' p" if "own p \<noteq> None" for p using up D(9) [OF that] .
  have di: "own q = Some (DirPage j)" if "q \<in> set (pids j)" for q j using D(7) that .
  have da: "own (phys j ! i) = Some (DataPage j i)" if "i < length (phys j)" for i j using D(8) that .
  have r: "vcount v' + (sp_room S - k) < 2 ^ 32" using count(2) D(13) room by linarith
  show ?thesis
    unfolding layout_def index_moved_simps(1-3)
    using ok s(1) s(2) hd(1) dirs lens D(6) di da m pages oth hd(2) r by blast
qed

lemma gstate_index:
  assumes "gstate S G" "index_header g" "k \<le> g_room G"
  shows "gstate (index_moved X v k g S) (G\<lparr>g_room := g_room G - k\<rparr>)"
proof -
  note D = gstateD [OF assms(1)]
  let ?S = "index_moved X v k g S"
  have h: "topo_part (g (sp_hdr S)) = topo_part (sp_hdr S)" "property_free_list_head (g (sp_hdr S)) = property_free_list_head (sp_hdr S)"
    using assms(2) by (simp_all add: index_header_def)
  have t: "nodes ?S = nodes S" "edges ?S = edges S" "graph ?S L = graph S L" for L
    using topology_cong [of ?S S] h(1) by simp_all
  have u: "store_inv ?S = store_inv S" "vals ?S = vals S" using values_cong [of ?S S] h(2) by simp_all
  show ?thesis using D assms(3) by (simp add: gstate_def t u)
qed

lemma frame_keeps:
  assumes F: "own_frame k v X v' X'" and Y: "\<And>p. p \<in> Y \<Longrightarrow> mapped v p \<and> p \<noteq> 0" "X \<inter> Y = {}"
  shows "p \<in> Y \<Longrightarrow> mapped v' p \<and> vpage v' p = vpage v p" "X' \<inter> Y = {}"
proof -
  show "mapped v' p \<and> vpage v' p = vpage v p" if "p \<in> Y"
  proof -
    have "p \<notin> X" "mapped v p" "p \<noteq> 0" using Y that by blast+
    then show ?thesis using F by (simp add: own_frame_def)
  qed
  have "p \<in> X \<or> \<not> mapped v p" if "p \<in> X'" for p using F that by (simp add: own_frame_def)
  then show "X' \<inter> Y = {}" using Y by blast
qed

lemma label_rep_mapped: "label_rep v R C E \<Longrightarrow> p \<in> li_own R C \<Longrightarrow> mapped v p \<and> p \<noteq> 0"
  using li_own_mapped label_repD(1) by blast

lemma index_rep_mapped: "index_rep v B X \<Longrightarrow> p \<in> pi_own v B \<Longrightarrow> mapped v p \<and> p \<noteq> 0"
  using pi_own_mapped index_repD(1) by blast

definition with_labels :: "label_sets \<Rightarrow> nat \<Rightarrow> gstore \<Rightarrow> gstore" where
  "with_labels E k G = G\<lparr>g_labels := E, g_room := g_room G - k\<rparr>"

definition with_entries :: "index_entry set \<Rightarrow> nat \<Rightarrow> gstore \<Rightarrow> gstore" where
  "with_entries X k G = G\<lparr>g_index := X, g_room := g_room G - k\<rparr>"

lemma with_simps [simp]:
  "g_nodes (with_labels E k G) = g_nodes G" "g_edges (with_labels E k G) = g_edges G" "g_lists (with_labels E k G) = g_lists G"
  "g_vals (with_labels E k G) = g_vals G" "g_labels (with_labels E k G) = E" "g_index (with_labels E k G) = g_index G"
  "g_schema (with_labels E k G) = g_schema G" "g_room (with_labels E k G) = g_room G - k"
  "g_nodes (with_entries X k G) = g_nodes G" "g_edges (with_entries X k G) = g_edges G" "g_lists (with_entries X k G) = g_lists G"
  "g_vals (with_entries X k G) = g_vals G" "g_labels (with_entries X k G) = g_labels G" "g_index (with_entries X k G) = X"
  "g_schema (with_entries X k G) = g_schema G" "g_room (with_entries X k G) = g_room G - k"
  by (simp_all add: with_labels_def with_entries_def)

lemma gstate_with:
  assumes "gstate S (G\<lparr>g_room := g_room G - k\<rparr>)"
  shows "gstate S (with_labels E k G)" "gstate S (with_entries X k G)"
  using assms by (simp_all add: gstate_def with_labels_def with_entries_def)

lemma gstore_repE:
  assumes "gstore_rep J db G"
  obtains v S own pids phys where "db_rep db v" "layout v S own pids phys" "gstate S G"
    "extras J v (dom (sp_other S)) (g_labels G) (g_index G) (g_schema G)"
  using assms unfolding gstore_rep_def by blast

lemma gstore_repI:
  assumes "db_rep db v" "layout v S own pids phys" "gstate S G"
    "extras J v (dom (sp_other S)) (g_labels G) (g_index G) (g_schema G)"
  shows "gstore_rep J db G"
  using assms unfolding gstore_rep_def by blast

lemma gstate_room: "layout v S own pids phys \<Longrightarrow> gstate S G \<Longrightarrow> k \<le> g_room G \<Longrightarrow> vcount v + k < 2 ^ 32 \<and> k \<le> sp_room S"
  using layoutD(13) gstateD(6) by fastforce

lemma lift_labels:
  assumes k: "k \<le> g_room G"
    and m: "\<And>v R C. label_rep v R C (g_labels G) \<Longrightarrow> vcount v + k < 2 ^ 32 \<Longrightarrow>
      \<exists>r v' R' C' E' x. db_does m v r v' \<and> label_rep v' R' C' E' \<and> own_frame k v (li_own R C) v' (li_own R' C') \<and>
        vhdr v' = label_index_root_update (\<lambda>_. x) (vhdr v) \<and> Q r (with_labels E' k G)"
  shows "gspec J m G Q"
  unfolding gspec_def
proof (intro allI impI)
  fix db assume "gstore_rep J db G"
  then obtain v S own pids phys where v: "db_rep db v" "layout v S own pids phys" "gstate S G"
      "extras J v (dom (sp_other S)) (g_labels G) (g_index G) (g_schema G)" by (rule gstore_repE)
  from v(4) obtain R C B ps where x: "label_rep v R C (g_labels G)" "index_rep v B (g_index G)" "schema_rep J v ps (g_schema G)"
      "li_own R C \<inter> pi_own v B = {}" "li_own R C \<inter> schema_own v ps = {}" "pi_own v B \<inter> schema_own v ps = {}"
      "li_own R C \<subseteq> dom (sp_other S)" "pi_own v B \<subseteq> dom (sp_other S)" "schema_own v ps \<subseteq> dom (sp_other S)"
    by (rule extrasE)
  have room: "vcount v + k < 2 ^ 32" "k \<le> sp_room S" using gstate_room [OF v(2,3) k] by blast+
  from m [OF x(1) room(1)] obtain r v' R' C' E' y where d: "db_does m v r v'" "label_rep v' R' C' E'"
      "own_frame k v (li_own R C) v' (li_own R' C')" "vhdr v' = label_index_root_update (\<lambda>_. y) (vhdr v)" "Q r (with_labels E' k G)"
    by (elim exE conjE) (rule that)
  let ?S = "index_moved (li_own R' C') v' k (label_index_root_update (\<lambda>_. y)) S"
  have ok: "vol_ok v" "vol_ok v'" using layoutD(1) [OF v(2)] li_repD(1) [OF label_repD(1) [OF d(2)]] by blast+
  have L: "layout v' ?S own pids phys"
    by (rule layout_index [OF v(2) d(3) x(7) ok(2) _ d(4) index_headerI(1) room(2)])
      (use label_rep_mapped [OF d(2)] in blast)
  have pos: "0 < vcount v'" by (rule layoutD(2) [OF L])
  note ki = frame_keeps [OF d(3) index_rep_mapped [OF x(2)] x(4)]
    and ks = frame_keeps [OF d(3) schema_own_rep [OF ok(1) x(3)] x(5)]
  note i = index_rep_cong [OF x(2) ok(2) pos _ ki(1)] and c = schema_rep_cong [OF ok(1) x(3) _ ks(1)]
  have "extras J v' (dom (sp_other ?S)) E' (g_index G) (g_schema G)"
    by (rule extrasI [OF d(2) i(1) c(1)])
      (use d(4) i(2) c(2) ki(2) ks(2) x(6,8,9) in auto)
  then have "gstore_rep J (snd (m db)) (with_labels E' k G) \<and> m db = (r, snd (m db)) \<and> db_since db (snd (m db))"
  proof -
    obtain db' where db': "m db = (r, db')" "db_rep db' v'" "db_since db db'" using d(1) v(1) unfolding does_def by blast
    have "gstate ?S (with_labels E' k G)" by (rule gstate_with(1) [OF gstate_index [OF v(3) index_headerI(1) k]])
    then have "gstore_rep J db' (with_labels E' k G)"
      by (rule gstore_repI [OF db'(2) L]) (use \<open>extras J v' (dom (sp_other ?S)) E' (g_index G) (g_schema G)\<close> in simp)
    then show ?thesis using db' by simp
  qed
  then show "\<exists>r db' G'. m db = (r, db') \<and> gstore_rep J db' G' \<and> db_since db db' \<and> Q r G'" using d(5) by blast
qed

lemma lift_index:
  assumes k: "k \<le> g_room G"
    and m: "\<And>v B. index_rep v B (g_index G) \<Longrightarrow> vcount v + k < 2 ^ 32 \<Longrightarrow>
      \<exists>r v' B' X'. db_does m v r v' \<and> index_rep v' B' X' \<and> pi_frame k v B v' B' \<and> Q r (with_entries X' k G)"
  shows "gspec J m G Q"
  unfolding gspec_def
proof (intro allI impI)
  fix db assume "gstore_rep J db G"
  then obtain v S own pids phys where v: "db_rep db v" "layout v S own pids phys" "gstate S G"
      "extras J v (dom (sp_other S)) (g_labels G) (g_index G) (g_schema G)" by (rule gstore_repE)
  from v(4) obtain R C B ps where x: "label_rep v R C (g_labels G)" "index_rep v B (g_index G)" "schema_rep J v ps (g_schema G)"
      "li_own R C \<inter> pi_own v B = {}" "li_own R C \<inter> schema_own v ps = {}" "pi_own v B \<inter> schema_own v ps = {}"
      "li_own R C \<subseteq> dom (sp_other S)" "pi_own v B \<subseteq> dom (sp_other S)" "schema_own v ps \<subseteq> dom (sp_other S)"
    by (rule extrasE)
  have room: "vcount v + k < 2 ^ 32" "k \<le> sp_room S" using gstate_room [OF v(2,3) k] by blast+
  from m [OF x(2) room(1)] obtain r v' B' X' where d: "db_does m v r v'" "index_rep v' B' X'"
      "pi_frame k v B v' B'" "Q r (with_entries X' k G)" by (elim exE conjE) (rule that)
  from d(3) obtain y where f: "own_frame k v (pi_own v B) v' (pi_own v' B')"
      "vhdr v' = property_index_root_update (\<lambda>_. y) (vhdr v)" unfolding pi_frame_def by blast
  let ?S = "index_moved (pi_own v' B') v' k (property_index_root_update (\<lambda>_. y)) S"
  have ok: "vol_ok v" "vol_ok v'" using layoutD(1) [OF v(2)] pi_shapeD(1) [OF index_repD(1) [OF d(2)]] by blast+
  have L: "layout v' ?S own pids phys"
    by (rule layout_index [OF v(2) f(1) x(8) ok(2) _ f(2) index_headerI(2) room(2)])
      (use index_rep_mapped [OF d(2)] in blast)
  have pos: "0 < vcount v'" by (rule layoutD(2) [OF L])
  have disj: "pi_own v B \<inter> li_own R C = {}" using x(4) by blast
  note kl = frame_keeps [OF f(1) label_rep_mapped [OF x(1)] disj]
    and ks = frame_keeps [OF f(1) schema_own_rep [OF ok(1) x(3)] x(6)]
  note l = label_rep_cong [OF x(1) ok(2) pos _ kl(1)] and c = schema_rep_cong [OF ok(1) x(3) _ ks(1)]
  have e: "extras J v' (dom (sp_other ?S)) (g_labels G) X' (g_schema G)"
    by (rule extrasI [OF l d(2) c(1)])
      (use f(2) c(2) kl(2) ks(2) x(5,7,9) in auto)
  obtain db' where db': "m db = (r, db')" "db_rep db' v'" "db_since db db'" using d(1) v(1) unfolding does_def by blast
  have "gstate ?S (with_entries X' k G)" by (rule gstate_with(2) [OF gstate_index [OF v(3) index_headerI(2) k]])
  then have "gstore_rep J db' (with_entries X' k G)" by (rule gstore_repI [OF db'(2) L]) (use e in simp)
  then show "\<exists>r db' G'. m db = (r, db') \<and> gstore_rep J db' G' \<and> db_since db db' \<and> Q r G'"
    using db' d(4) by blast
qed

text \<open>An operation that only reads the file.\<close>

lemma lift_read:
  assumes "\<And>v other. extras J v other (g_labels G) (g_index G) (g_schema G) \<Longrightarrow> vol_ok v \<Longrightarrow> 0 < vcount v \<Longrightarrow>
      \<exists>r. db_does m v r v \<and> Q r G"
  shows "gspec J m G Q"
  unfolding gspec_def
proof (intro allI impI)
  fix db assume "gstore_rep J db G"
  then obtain v S own pids phys where v: "db_rep db v" "layout v S own pids phys" "gstate S G"
      "extras J v (dom (sp_other S)) (g_labels G) (g_index G) (g_schema G)" by (rule gstore_repE)
  from assms [OF v(4) layoutD(1,2) [OF v(2)]] obtain r where r: "db_does m v r v" "Q r G" by blast
  obtain db' where "m db = (r, db')" "db_rep db' v" "db_since db db'" using r(1) v(1) unfolding does_def by blast
  then show "\<exists>r db' G'. m db = (r, db') \<and> gstore_rep J db' G' \<and> db_since db db' \<and> Q r G'"
    using gstore_repI [OF _ v(2-4)] r(2) by blast
qed

section \<open>The operations of the components\<close>

text \<open>The label index.\<close>

lemma li_add_new_gok: "3 \<le> g_room G \<Longrightarrow>
  gok J (li_add_new t rid) G (\<lambda>_ G'. G' = with_labels ((g_labels G)(t := add_mset rid (g_labels G t))) 3 G)"
proof (erule lift_labels)
  fix v R C assume rep: "label_rep v R C (g_labels G)" and room: "vcount v + 3 < 2 ^ 32"
  from li_add_new_does [OF label_repD(1) [OF rep] room, of t rid] obtain v' R' ps where d: "db_does (li_add_new t rid) v (Ok ()) v'"
      "li_change 3 v R C t (add_mset rid (mset (li_entries v (C t)))) v' R' ps" by (elim exE conjE) (rule that)
  note ch = d(2) [unfolded label_repD(2) [OF rep]]
  obtain x where "vhdr v' = label_index_root_update (\<lambda>_. x) (vhdr v)" using ch unfolding li_change_def by blast
  then show "\<exists>r v' R' C' E' x. db_does (li_add_new t rid) v r v' \<and> label_rep v' R' C' E' \<and>
      own_frame 3 v (li_own R C) v' (li_own R' C') \<and> vhdr v' = label_index_root_update (\<lambda>_. x) (vhdr v) \<and>
      (\<exists>x. r = Ok x \<and> with_labels E' 3 G = with_labels ((g_labels G)(t := add_mset rid (g_labels G t))) 3 G)"
    using d(1) label_rep_change [OF rep ch] by blast
qed

lemma li_remove_gok:
  "gok J (li_remove t rid) G (\<lambda>_ G'. G' = with_labels ((g_labels G)(t := g_labels G t - {#rid#})) 0 G)"
proof (rule lift_labels [where k = 0])
  fix v R C assume rep: "label_rep v R C (g_labels G)"
  from li_remove_does [OF label_repD(1) [OF rep], of t rid] obtain v' ps where d: "db_does (li_remove t rid) v (Ok ()) v'"
      "li_change 0 v R C t (mset (li_entries v (C t)) - {#rid#}) v' R ps" by (elim exE conjE) (rule that)
  note ch = d(2) [unfolded label_repD(2) [OF rep]]
  obtain x where "vhdr v' = label_index_root_update (\<lambda>_. x) (vhdr v)" using ch unfolding li_change_def by blast
  then show "\<exists>r v' R' C' E' x. db_does (li_remove t rid) v r v' \<and> label_rep v' R' C' E' \<and>
      own_frame 0 v (li_own R C) v' (li_own R' C') \<and> vhdr v' = label_index_root_update (\<lambda>_. x) (vhdr v) \<and>
      (\<exists>x. r = Ok x \<and> with_labels E' 0 G = with_labels ((g_labels G)(t := g_labels G t - {#rid#})) 0 G)"
    using d(1) label_rep_change [OF rep ch] by blast
qed simp

lemma li_get_gok: "gok J (li_get t) G (\<lambda>rs G'. mset rs = g_labels G t \<and> G' = G)"
proof (rule lift_read)
  fix v other assume "extras J v other (g_labels G) (g_index G) (g_schema G)"
  then obtain R C where rep: "label_rep v R C (g_labels G)" by (rule extrasE)
  show "\<exists>r. db_does (li_get t) v r v \<and> (\<exists>x. r = Ok x \<and> mset x = g_labels G t \<and> G = G)"
    using li_get_does [OF label_repD(1) [OF rep]] label_repD(2) [OF rep] by blast
qed

lemma li_count_gok: "gok J (li_count t) G (\<lambda>n G'. n = of_nat (size (g_labels G t)) \<and> G' = G)"
proof (rule lift_read)
  fix v other assume "extras J v other (g_labels G) (g_index G) (g_schema G)"
  then obtain R C where rep: "label_rep v R C (g_labels G)" by (auto elim: extrasE)
  show "\<exists>r. db_does (li_count t) v r v \<and> (\<exists>x. r = Ok x \<and> x = of_nat (size (g_labels G t)) \<and> G = G)"
    using li_count_does [OF label_repD(1) [OF rep], of t] unfolding label_repD(3) [OF rep, of t] by blast
qed

text \<open>The property index.\<close>

lemma pi_add_gok: "3 \<le> g_room G \<Longrightarrow>
  gok J (pi_add key rid) G (\<lambda>_ G'. G' = with_entries (insert (entry_of key rid) (g_index G)) 3 G)"
proof (erule lift_index)
  fix v B assume "index_rep v B (g_index G)" "vcount v + 3 < 2 ^ 32"
  from index_add_rep [OF this, of key rid]
  show "\<exists>r v' B' X'. db_does (pi_add key rid) v r v' \<and> index_rep v' B' X' \<and> pi_frame 3 v B v' B' \<and>
      (\<exists>x. r = Ok x \<and> with_entries X' 3 G = with_entries (insert (entry_of key rid) (g_index G)) 3 G)" by blast
qed

lemma pi_remove_gok: "gok J (pi_remove key rid) G (\<lambda>_ G'. G' = with_entries (g_index G - {entry_of key rid}) 0 G)"
proof (rule lift_index [where k = 0])
  fix v B assume "index_rep v B (g_index G)"
  from index_remove_rep [OF this, of key rid]
  show "\<exists>r v' B' X'. db_does (pi_remove key rid) v r v' \<and> index_rep v' B' X' \<and> pi_frame 0 v B v' B' \<and>
      (\<exists>x. r = Ok x \<and> with_entries X' 0 G = with_entries (g_index G - {entry_of key rid}) 0 G)" by blast
qed simp

lemma candidates_gok: "gok J (candidates key) G (\<lambda>rs G'. distinct rs \<and> set rs = {r. entry_of key r \<in> g_index G} \<and> G' = G)"
proof (rule lift_read)
  fix v other assume "extras J v other (g_labels G) (g_index G) (g_schema G)"
  then obtain B where "index_rep v B (g_index G)" by (rule extrasE)
  from index_candidates_rep [OF this, of key]
  show "\<exists>r. db_does (candidates key) v r v \<and> (\<exists>x. r = Ok x \<and> distinct x \<and> set x = {r. entry_of key r \<in> g_index G} \<and> G = G)"
    by blast
qed

text \<open>The schema.\<close>

lemma schema_held:
  assumes "extras J v other E X D" "vol_ok v" "0 < vcount v"
  shows "holds_schema J v D"
proof -
  obtain ps where "schema_rep J v ps D" using assms(1) by (rule extrasE)
  then show ?thesis using assms(2,3) by (auto simp: schema_rep_def holds_schema_def split: option.splits)
qed

lemma load_schema_dto_gspec: "gspec J (load_schema_dto J) G (\<lambda>r G'. r = (case g_schema G of None \<Rightarrow> no_schema | Some dto \<Rightarrow> Ok dto) \<and> G' = G)"
  by (rule lift_read) (use load_held [OF schema_held] in blast)

end
