(* ===== verification/Graph_Records.thy ===== *)
theory Graph_Records
  imports Graph_Store
begin

text \<open>
  The operations on records and values, lifted to the state of an open database: reading and writing
  node and edge records, allocating and freeing them, linking an edge into the lists of its ends and
  deleting it, listing the records in use, and storing, reading and freeing a value.
\<close>

section \<open>What the state of an open database satisfies\<close>

definition gwf :: "gstore \<Rightarrow> bool" where
  "gwf G \<longleftrightarrow> (\<exists>S. gstate S G)"

lemma gspec_wf: "(gwf G \<Longrightarrow> gspec J m G Q) \<Longrightarrow> gspec J m G Q"
  unfolding gspec_def gwf_def by (meson gstore_repE)

lemma gwfE:
  assumes "gwf G"
  obtains S where "graph S (g_lists G)" "nodes S = g_nodes G" "edges S = g_edges G"
  using assms unfolding gwf_def gstate_def by blast

lemma gwf_ids: "gwf G \<Longrightarrow> g_nodes G rid = Some n \<Longrightarrow> n_id n = rid" "gwf G \<Longrightarrow> g_edges G rid = Some e \<Longrightarrow> e_id e = rid"
proof -
  show "n_id n = rid" if wf: "gwf G" and n: "g_nodes G rid = Some n"
  proof -
    obtain S where S: "graph S (g_lists G)" "nodes S = g_nodes G" using wf by (rule gwfE)
    then show ?thesis using graphD(1) [OF S(1)] n by (simp add: ids_ok_def)
  qed
  show "e_id e = rid" if wf: "gwf G" and e: "g_edges G rid = Some e"
  proof -
    obtain S where S: "graph S (g_lists G)" "edges S = g_edges G" using wf by (rule gwfE)
    then show ?thesis using graphD(1) [OF S(1)] e by (simp add: ids_ok_def)
  qed
qed

lemma gwf_listed:
  assumes "gwf G" "r \<in> set (g_lists G d v)"
  shows "\<exists>e n. g_edges G r = Some e \<and> end_of d e = v \<and> g_nodes G v = Some n"
proof -
  obtain S where S: "graph S (g_lists G)" "nodes S = g_nodes G" "edges S = g_edges G" using assms(1) by (rule gwfE)
  note l = graphD(3) [OF S(1), of d]
  have "ends S d r = Some v" using lists_end [OF l assms(2)] .
  moreover have "Adjacency.heads S d v \<noteq> None" using lists_none [OF l, of v] assms(2) by force
  ultimately show ?thesis using S(2,3) by (auto simp: ends_def Adjacency.heads_def)
qed

lemma gwf_distinct: "gwf G \<Longrightarrow> distinct (g_lists G d v)"
proof -
  assume "gwf G"
  then obtain S where S: "graph S (g_lists G)" by (rule gwfE)
  note l = graphD(3) [OF S, of d]
  show ?thesis
    using lists_none [OF l, of v] listsD(2) [OF l, of v] by (cases "Adjacency.heads S d v") auto
qed

section \<open>Lifting an operation on the records\<close>

lemma gstate_keeps:
  assumes "gstate S G" "keeps_props S S'" "graph S' L'" "g_room G - k \<le> sp_room S'"
  shows "gstate S' (G\<lparr>g_nodes := nodes S', g_edges := edges S', g_lists := L', g_room := g_room G - k\<rparr>)"
  using gstateD [OF assms(1)] assms(2-4) values_cong [of S' S] by (simp add: gstate_def keeps_props_def)

lemma lift_topology:
  assumes "\<And>S. live S \<Longrightarrow> graph S (g_lists G) \<Longrightarrow> nodes S = g_nodes G \<Longrightarrow> edges S = g_edges G \<Longrightarrow> g_room G \<le> sp_room S \<Longrightarrow>
    \<exists>r S' L'. space_does m S r S' \<and> keeps_props S S' \<and> graph S' L' \<and> g_room G - k \<le> sp_room S' \<and>
      Q r (G\<lparr>g_nodes := nodes S', g_edges := edges S', g_lists := L', g_room := g_room G - k\<rparr>)"
  shows "gspec J m G Q"
proof (rule lift_spaces)
  fix S assume lv: "live S" and st: "gstate S G"
  note D = gstateD [OF st]
  from assms [OF lv D(1,3,4,6)] obtain r S' L' where S': "space_does m S r S'" "keeps_props S S'" "graph S' L'"
      "g_room G - k \<le> sp_room S'" "Q r (G\<lparr>g_nodes := nodes S', g_edges := edges S', g_lists := L', g_room := g_room G - k\<rparr>)"
    by (elim exE conjE) (rule that)
  show "\<exists>r S' G'. space_does m S r S' \<and> same_rest S S' \<and> gstate S' G' \<and> g_labels G' = g_labels G \<and>
      g_index G' = g_index G \<and> g_schema G' = g_schema G \<and> Q r G'"
    using S'(1,2,5) gstate_keeps [OF st S'(2-4)]
    by (intro exI [of _ r] exI [of _ S'] exI [of _ "G\<lparr>g_nodes := nodes S', g_edges := edges S', g_lists := L', g_room := g_room G - k\<rparr>"])
      (simp add: keeps_props_def)
qed

text \<open>An operation that only reads the spaces.\<close>

lemma lift_space_read:
  assumes "\<And>S. live S \<Longrightarrow> gstate S G \<Longrightarrow> \<exists>r. space_does m S r S \<and> Q r G"
  shows "gspec J m G Q"
proof (rule lift_spaces)
  fix S assume "live S" "gstate S G"
  from assms [OF this] \<open>gstate S G\<close> show "\<exists>r S' G'. space_does m S r S' \<and> same_rest S S' \<and> gstate S' G' \<and>
      g_labels G' = g_labels G \<and> g_index G' = g_index G \<and> g_schema G' = g_schema G \<and> Q r G'"
    using same_rest_simps(1) [of S] by blast
qed

section \<open>Records\<close>

lemma read_node_gok: "g_nodes G rid = Some n \<Longrightarrow> gok J (read_node rid) G (\<lambda>x G'. x = n \<and> G' = G)"
  by (rule lift_space_read) (use node_store.read_law gstateD(3) in fastforce)

lemma read_edge_gok: "g_edges G rid = Some e \<Longrightarrow> gok J (read_edge rid) G (\<lambda>x G'. x = e \<and> G' = G)"
  by (rule lift_space_read) (use edge_store.read_law gstateD(4) in fastforce)

text \<open>A record is written without changing its links.\<close>

lemma write_node_gok:
  assumes n: "g_nodes G (n_id n') = Some n" and same: "\<And>d. first_edge d n' = first_edge d n"
  shows "gok J (write_node n') G (\<lambda>_ G'. G' = G\<lparr>g_nodes := (g_nodes G)(n_id n' \<mapsto> n')\<rparr>)"
proof (rule lift_topology [where k = 0])
  fix S assume lv: "live S" and g: "graph S (g_lists G)" and eq: "nodes S = g_nodes G" "edges S = g_edges G" "g_room G \<le> sp_room S"
  have "nodes S (n_id n') \<noteq> None" using n eq by simp
  from node_store.store_step [OF lv this] obtain S' where S': "space_does (write_node n') S (Ok ()) S'"
      "nodes S' = (nodes S)(n_id n' \<mapsto> n')" "topo_update Node S S'" by blast
  note u = topo_updateD [OF S'(3)]
  have e: "edges S' = edges S" using other_records(1) u(1) .
  have l: "Adjacency.heads S' d = Adjacency.heads S d" "Adjacency.links S' d = Adjacency.links S d" "ends S' d = ends S d" for d
    using n same eq(1) by (auto simp: fun_eq_iff Adjacency.heads_def links_def ends_def S'(2) e)
  have "ids_ok S'" using graphD(1) [OF g] by (auto simp: ids_ok_def S'(2) e)
  then have "graph S' (g_lists G)" using graphD(2,3) [OF g] u(2) by (simp add: graph_def l)
  then show "\<exists>r S' L'. space_does (write_node n') S r S' \<and> keeps_props S S' \<and> graph S' L' \<and> g_room G - 0 \<le> sp_room S' \<and>
      (\<exists>x. r = Ok x \<and> G\<lparr>g_nodes := nodes S', g_edges := edges S', g_lists := L', g_room := g_room G - 0\<rparr> =
        G\<lparr>g_nodes := (g_nodes G)(n_id n' \<mapsto> n')\<rparr>)"
    using S'(1,2) e eq u(3) topo_frame_keeps [OF u(1)]
    by (intro exI [of _ "Ok ()"] exI [of _ S'] exI [of _ "g_lists G"]) simp
qed

lemma write_edge_gok:
  assumes x: "g_edges G (e_id e') = Some e" and same: "\<And>d. next_edge d e' = next_edge d e" "\<And>d. end_of d e' = end_of d e"
  shows "gok J (write_edge e') G (\<lambda>_ G'. G' = G\<lparr>g_edges := (g_edges G)(e_id e' \<mapsto> e')\<rparr>)"
proof (rule lift_topology [where k = 0])
  fix S assume lv: "live S" and g: "graph S (g_lists G)" and eq: "nodes S = g_nodes G" "edges S = g_edges G" "g_room G \<le> sp_room S"
  have "edges S (e_id e') \<noteq> None" using x eq by simp
  from edge_store.store_step [OF lv this] obtain S' where S': "space_does (write_edge e') S (Ok ()) S'"
      "edges S' = (edges S)(e_id e' \<mapsto> e')" "topo_update Edge S S'" by blast
  note u = topo_updateD [OF S'(3)]
  have n: "nodes S' = nodes S" using other_records(2) u(1) .
  have l: "Adjacency.heads S' d = Adjacency.heads S d" "Adjacency.links S' d = Adjacency.links S d" "ends S' d = ends S d" for d
    using x same eq(2) by (auto simp: fun_eq_iff Adjacency.heads_def links_def ends_def S'(2) n)
  have "ids_ok S'" using graphD(1) [OF g] by (auto simp: ids_ok_def S'(2) n)
  then have "graph S' (g_lists G)" using graphD(2,3) [OF g] u(2) by (simp add: graph_def l)
  then show "\<exists>r S' L'. space_does (write_edge e') S r S' \<and> keeps_props S S' \<and> graph S' L' \<and> g_room G - 0 \<le> sp_room S' \<and>
      (\<exists>x. r = Ok x \<and> G\<lparr>g_nodes := nodes S', g_edges := edges S', g_lists := L', g_room := g_room G - 0\<rparr> =
        G\<lparr>g_edges := (g_edges G)(e_id e' \<mapsto> e')\<rparr>)"
    using S'(1,2) n eq u(3) topo_frame_keeps [OF u(1)]
    by (intro exI [of _ "Ok ()"] exI [of _ S'] exI [of _ "g_lists G"]) simp
qed

section \<open>Coming and going\<close>

definition with_node :: "record_id \<Rightarrow> node_record option \<Rightarrow> nat \<Rightarrow> gstore \<Rightarrow> gstore" where
  "with_node rid n k G = G\<lparr>g_nodes := (g_nodes G)(rid := n), g_room := g_room G - k\<rparr>"

definition with_edge :: "record_id \<Rightarrow> edge_record option \<Rightarrow> nat \<Rightarrow> gstore \<Rightarrow> gstore" where
  "with_edge rid e k G = G\<lparr>g_edges := (g_edges G)(rid := e), g_room := g_room G - k\<rparr>"

lemma with_record_simps [simp]:
  "g_nodes (with_node rid n k G) = (g_nodes G)(rid := n)" "g_edges (with_node rid n k G) = g_edges G" "g_lists (with_node rid n k G) = g_lists G"
  "g_vals (with_node rid n k G) = g_vals G" "g_labels (with_node rid n k G) = g_labels G" "g_index (with_node rid n k G) = g_index G"
  "g_schema (with_node rid n k G) = g_schema G" "g_room (with_node rid n k G) = g_room G - k"
  "g_nodes (with_edge rid e k G) = g_nodes G" "g_edges (with_edge rid e k G) = (g_edges G)(rid := e)" "g_lists (with_edge rid e k G) = g_lists G"
  "g_vals (with_edge rid e k G) = g_vals G" "g_labels (with_edge rid e k G) = g_labels G" "g_index (with_edge rid e k G) = g_index G"
  "g_schema (with_edge rid e k G) = g_schema G" "g_room (with_edge rid e k G) = g_room G - k"
  by (simp_all add: with_node_def with_edge_def)

lemma alloc_keeps: "alloc_result_of kind S S' \<Longrightarrow> topo_inv S \<Longrightarrow> keeps_props S S' \<and> topo_inv S' \<and> sp_room S - 2 \<le> sp_room S'"
  using topo_frame_keeps by (auto simp: alloc_result_of_def topo_frame_def)

lemma alloc_node_gok:
  assumes room: "2 \<le> g_room G"
  shows "gok J (alloc_node t) G (\<lambda>rid G'. g_nodes G rid = None \<and> G' = with_node rid (Some (new_node rid t)) 2 G)"
proof (rule lift_topology [where k = 2])
  fix S assume lv: "live S" and g: "graph S (g_lists G)" and eq: "nodes S = g_nodes G" "edges S = g_edges G" "g_room G \<le> sp_room S"
  note D = graphD [OF g]
  have "2 \<le> sp_room S" using room eq(3) by simp
  from alloc_node_does [OF lv this, of t] obtain rid S' where S': "space_does (alloc_node t) S (Ok rid) S'" "nodes S rid = None"
      "nodes S' = (nodes S)(rid \<mapsto> new_node rid t)" "edges S' = edges S" "alloc_result_of Node S S'" by blast
  have new: "Adjacency.heads S' d = (Adjacency.heads S d)(rid \<mapsto> None)" "Adjacency.links S' d = Adjacency.links S d" "ends S' d = ends S d" for d
    using S'(3,4) by (auto simp: Adjacency.heads_def links_def ends_def fun_eq_iff new_node_def first_edge_def split: edge_direction.split)
  have "Adjacency.lists (Adjacency.heads S' d) (Adjacency.links S' d) (ends S' d) (g_lists G d)" for d
    unfolding new by (rule lists_new_node [OF D(3)]) (simp add: Adjacency.heads_def S'(2))
  moreover have "ids_ok S'" using D(1) S'(3,4) by (auto simp: ids_ok_def new_node_def)
  moreover note k = alloc_keeps [OF S'(5) D(2)]
  ultimately have "graph S' (g_lists G)" by (simp add: graph_def)
  moreover have "g_room G - 2 \<le> sp_room S'" using k eq(3) by linarith
  ultimately show "\<exists>r S' L'. space_does (alloc_node t) S r S' \<and> keeps_props S S' \<and> graph S' L' \<and> g_room G - 2 \<le> sp_room S' \<and>
      (\<exists>x. r = Ok x \<and> g_nodes G x = None \<and>
        G\<lparr>g_nodes := nodes S', g_edges := edges S', g_lists := L', g_room := g_room G - 2\<rparr> = with_node x (Some (new_node x t)) 2 G)"
    using S' k eq by (intro exI [of _ "Ok rid"] exI [of _ S'] exI [of _ "g_lists G"]) (simp add: with_node_def)
qed

lemma alloc_edge_gok:
  assumes room: "2 \<le> g_room G"
  shows "gok J (alloc_edge t a b) G (\<lambda>rid G'. g_edges G rid = None \<and> G' = with_edge rid (Some (new_edge rid t a b)) 2 G)"
proof (rule lift_topology [where k = 2])
  fix S assume lv: "live S" and g: "graph S (g_lists G)" and eq: "nodes S = g_nodes G" "edges S = g_edges G" "g_room G \<le> sp_room S"
  note D = graphD [OF g]
  have "2 \<le> sp_room S" using room eq(3) by simp
  from alloc_edge_does [OF lv this, of t a b] obtain rid S' where S': "space_does (alloc_edge t a b) S (Ok rid) S'" "edges S rid = None"
      "edges S' = (edges S)(rid \<mapsto> new_edge rid t a b)" "nodes S' = nodes S" "alloc_result_of Edge S S'" by blast
  have notin: "rid \<notin> set (g_lists G d u)" for d u
    using lists_end [OF D(3), of rid d u] S'(2) by (auto simp: ends_def)
  have new: "Adjacency.heads S' d = Adjacency.heads S d" "Adjacency.links S' d = (Adjacency.links S d)(rid := Some None)"
      "ends S' d = (ends S d)(rid := Some (endpoint d (a, b)))" for d
    using S'(3,4) by (auto simp: Adjacency.heads_def links_def ends_def fun_eq_iff new_edge_def next_edge_def end_of_def endpoint_def
        split: edge_direction.split)
  have "Adjacency.lists (Adjacency.heads S' d) (Adjacency.links S' d) (ends S' d) (g_lists G d)" for d
    unfolding new by (rule lists_edge_change [OF D(3) notin])
  moreover have "ids_ok S'" using D(1) S'(3,4) by (auto simp: ids_ok_def new_edge_def)
  moreover note k = alloc_keeps [OF S'(5) D(2)]
  ultimately have "graph S' (g_lists G)" by (simp add: graph_def)
  moreover have "g_room G - 2 \<le> sp_room S'" using k eq(3) by linarith
  ultimately show "\<exists>r S' L'. space_does (alloc_edge t a b) S r S' \<and> keeps_props S S' \<and> graph S' L' \<and> g_room G - 2 \<le> sp_room S' \<and>
      (\<exists>x. r = Ok x \<and> g_edges G x = None \<and>
        G\<lparr>g_nodes := nodes S', g_edges := edges S', g_lists := L', g_room := g_room G - 2\<rparr> = with_edge x (Some (new_edge x t a b)) 2 G)"
    using S' k eq by (intro exI [of _ "Ok rid"] exI [of _ S'] exI [of _ "g_lists G"]) (simp add: with_edge_def)
qed

lemma free_node_gok:
  assumes n: "g_nodes G rid = Some n" and none: "\<And>d. g_lists G d rid = []"
  shows "gok J (free_node rid) G (\<lambda>_ G'. G' = with_node rid None 0 G)"
proof (rule lift_topology [where k = 0])
  fix S assume lv: "live S" and g: "graph S (g_lists G)" and eq: "nodes S = g_nodes G" "edges S = g_edges G" "g_room G \<le> sp_room S"
  note D = graphD [OF g]
  have "nodes S rid = Some n" using n eq by simp
  from free_node_does [OF lv this] obtain S' where S': "space_does (free_node rid) S (Ok ()) S'" "nodes S' = (nodes S)(rid := None)"
      "edges S' = edges S" "topo_update Node S S'" by blast
  note u = topo_updateD [OF S'(4)]
  have new: "Adjacency.heads S' d = (Adjacency.heads S d)(rid := None)" "Adjacency.links S' d = Adjacency.links S d" "ends S' d = ends S d" for d
    using S'(2,3) by (auto simp: Adjacency.heads_def links_def ends_def fun_eq_iff)
  have "Adjacency.lists (Adjacency.heads S' d) (Adjacency.links S' d) (ends S' d) (g_lists G d)" for d
    unfolding new by (rule lists_free_node [OF D(3) none])
  moreover have "ids_ok S'" using D(1) S'(2,3) by (auto simp: ids_ok_def)
  ultimately have "graph S' (g_lists G)" using u(2) D(2) by (simp add: graph_def)
  then show "\<exists>r S' L'. space_does (free_node rid) S r S' \<and> keeps_props S S' \<and> graph S' L' \<and> g_room G - 0 \<le> sp_room S' \<and>
      (\<exists>x. r = Ok x \<and> G\<lparr>g_nodes := nodes S', g_edges := edges S', g_lists := L', g_room := g_room G - 0\<rparr> = with_node rid None 0 G)"
    using S' eq u(3) topo_frame_keeps [OF u(1)]
    by (intro exI [of _ "Ok ()"] exI [of _ S'] exI [of _ "g_lists G"]) (simp add: with_node_def)
qed

section \<open>Linking and unlinking\<close>

definition linked_in :: "edge_direction \<Rightarrow> record_id \<Rightarrow> record_id \<Rightarrow> gstore \<Rightarrow> gstore" where
  "linked_in d v r G = G\<lparr>
     g_nodes := (g_nodes G)(v := map_option (with_first d (Some r)) (g_nodes G v)),
     g_edges := (g_edges G)(r := map_option (with_next d (Option.bind (g_nodes G v) (first_edge d))) (g_edges G r)),
     g_lists := (g_lists G)(d := (g_lists G d)(v := r # g_lists G d v))\<rparr>"

lemma append_edge_gok:
  assumes n: "g_nodes G v = Some n" and e: "g_edges G r = Some e" and v: "end_of d e = v" and new: "r \<notin> set (g_lists G d v)"
  shows "gok J (append_edge d v r) G (\<lambda>_ G'. G' = linked_in d v r G)"
proof (rule lift_topology [where k = 0])
  fix S assume lv: "live S" and g: "graph S (g_lists G)" and eq: "nodes S = g_nodes G" "edges S = g_edges G" "g_room G \<le> sp_room S"
  have ne: "nodes S v = Some n" "edges S r = Some e" using n e eq by simp_all
  from append_edge_does [OF lv g ne v new] obtain S' where S': "space_does (append_edge d v r) S (Ok ()) S'"
      "graph S' ((g_lists G)(d := (g_lists G d)(v := r # g_lists G d v)))" "link_update S S'"
      "nodes S' = (nodes S)(v \<mapsto> with_first d (Some r) n)" "edges S' = (edges S)(r \<mapsto> with_next d (first_edge d n) e)" by blast
  then show "\<exists>x S' L'. space_does (append_edge d v r) S x S' \<and> keeps_props S S' \<and> graph S' L' \<and> g_room G - 0 \<le> sp_room S' \<and>
      (\<exists>y. x = Ok y \<and> G\<lparr>g_nodes := nodes S', g_edges := edges S', g_lists := L', g_room := g_room G - 0\<rparr> = linked_in d v r G)"
    using eq n e link_updateD(3,4) [OF S'(3)]
    by (intro exI [of _ "Ok ()"] exI [of _ S'] exI [of _ "(g_lists G)(d := (g_lists G d)(v := r # g_lists G d v))"])
      (simp add: linked_in_def)
qed

text \<open>What the records hold besides their links.\<close>

definition gnode :: "gstore \<Rightarrow> record_id \<Rightarrow> node_record option" where
  "gnode G rid = map_option node_data (g_nodes G rid)"

definition gedge :: "gstore \<Rightarrow> record_id \<Rightarrow> edge_record option" where
  "gedge G rid = map_option edge_data (g_edges G rid)"

lemma linked_in_simps [simp]:
  "gnode (linked_in d v r G) = gnode G" "gedge (linked_in d v r G) = gedge G"
  "g_lists (linked_in d v r G) = (g_lists G)(d := (g_lists G d)(v := r # g_lists G d v))"
  "g_vals (linked_in d v r G) = g_vals G" "g_labels (linked_in d v r G) = g_labels G" "g_index (linked_in d v r G) = g_index G"
  "g_schema (linked_in d v r G) = g_schema G" "g_room (linked_in d v r G) = g_room G"
  by (auto simp: linked_in_def gnode_def gedge_def fun_eq_iff option.map_comp comp_def)

text \<open>The states that differ from \<open>G\<close> in the links of the records only, an edge apart.\<close>

definition unlinked :: "record_id \<Rightarrow> gstore \<Rightarrow> gstore \<Rightarrow> bool" where
  "unlinked r G G' \<longleftrightarrow> gnode G' = gnode G \<and> gedge G' = (gedge G)(r := None) \<and>
     g_lists G' = (case gedge G r of None \<Rightarrow> g_lists G | Some e \<Rightarrow> delete_lists r e (g_lists G)) \<and>
     g_vals G' = g_vals G \<and> g_labels G' = g_labels G \<and> g_index G' = g_index G \<and> g_schema G' = g_schema G \<and> g_room G' = g_room G"

lemma delete_lists_data [simp]: "delete_lists r (edge_data e) L = delete_lists r e L"
proof -
  have "end_of d (edge_data e) = end_of d e" for d by (cases d) (simp_all add: end_of_def edge_data_def)
  then show ?thesis by (simp add: delete_lists_def)
qed

lemma delete_edge_gok:
  assumes e: "g_edges G r = Some e" and n: "\<And>d. g_nodes G (end_of d e) \<noteq> None" and linked: "\<And>d. r \<in> set (g_lists G d (end_of d e))"
  shows "gok J (delete_edge r) G (\<lambda>_ G'. unlinked r G G')"
proof (rule lift_topology [where k = 0])
  fix S assume lv: "live S" and g: "graph S (g_lists G)" and eq: "nodes S = g_nodes G" "edges S = g_edges G" "g_room G \<le> sp_room S"
  have ne: "edges S r = Some e" "nodes S (end_of d e) \<noteq> None" for d using n [of d] e eq by simp_all
  from delete_edge_does [OF lv g ne linked] obtain S' where S': "space_does (delete_edge r) S (Ok ()) S'"
      "graph S' (delete_lists r e (g_lists G))" "sp_room S' = sp_room S" "keeps_props S S'" "node_payload S' = node_payload S"
      "edge_payload S' = (edge_payload S)(r := None)" by (elim exE conjE) (rule that)
  let ?G = "G\<lparr>g_nodes := nodes S', g_edges := edges S', g_lists := delete_lists r e (g_lists G), g_room := g_room G - 0\<rparr>"
  have "gnode ?G = gnode G" "gedge ?G = (gedge G)(r := None)"
    using S'(5,6) eq by (simp_all add: gnode_def gedge_def node_payload_def edge_payload_def fun_eq_iff)
  then have "unlinked r G ?G" by (simp add: unlinked_def gedge_def e)
  then show "\<exists>x S' L'. space_does (delete_edge r) S x S' \<and> keeps_props S S' \<and> graph S' L' \<and> g_room G - 0 \<le> sp_room S' \<and>
      (\<exists>y. x = Ok y \<and> unlinked r G (G\<lparr>g_nodes := nodes S', g_edges := edges S', g_lists := L', g_room := g_room G - 0\<rparr>))"
    using S'(1-4) eq(3) by (intro exI [of _ "Ok ()"] exI [of _ S'] exI [of _ "delete_lists r e (g_lists G)"]) simp
qed

section \<open>Reading the topology\<close>

lemma collect_gok:
  assumes n: "g_nodes G v = Some n"
  shows "gok J (collect_edge_chain v d) G (\<lambda>es G'. es = map (\<lambda>r. the (g_edges G r)) (g_lists G d v) \<and> G' = G)"
proof (rule lift_space_read)
  fix S assume lv: "live S" and st: "gstate S G"
  note D = gstateD [OF st]
  have "nodes S v = Some n" using n D(3) by simp
  from collect_does [OF lv D(1) this, of d]
  show "\<exists>r. space_does (collect_edge_chain v d) S r S \<and> (\<exists>x. r = Ok x \<and> x = map (\<lambda>r. the (g_edges G r)) (g_lists G d v) \<and> G = G)"
    unfolding D(4) by blast
qed

definition record_used :: "topology_kind \<Rightarrow> record_id \<Rightarrow> (database_file, bool) op" where
  "record_used kind rid =
     (\<lambda>file. let logical = unat (page_id rid) in
       (if logical \<ge> topology_count kind (header file) then ret False
        else or_false (bnd (load_topology_page kind logical) (\<lambda>p. ret (is_used p (slot_id rid))))) file)"

lemma slot_used_record: "node_slot_used rid = record_used Node rid" "edge_slot_used rid = record_used Edge rid"
  by (simp_all add: fun_eq_iff node_slot_used_def edge_slot_used_def record_used_def topology_count_def load_kinds cong: if_cong)

lemma or_false_does: "space_does m S (Ok b) S' \<Longrightarrow> space_does (or_false m) S (Ok b) S'"
  unfolding does_def or_false_def by fastforce

lemma record_used_does:
  assumes wf: "sp_wf S"
  shows "space_does (record_used kind rid) S (Ok (cells S kind rid \<noteq> None)) S"
proof -
  let ?l = "unat (page_id rid)"
  let ?k = "\<lambda>h. if ?l \<ge> topology_count kind h then ret False
        else or_false (bnd (load_topology_page kind ?l) (\<lambda>p. ret (is_used p (slot_id rid))))"
  have "space_does (?k (sp_hdr S)) S (Ok (cells S kind rid \<noteq> None)) S"
  proof (cases "?l < length (sp_pages S (space_of kind))")
    case True
    have ok: "page_ok (page_of (sp_pages S (space_of kind) ! ?l))" using sp_wfD(2) [OF wf True] by (rule page_of_ok)
    have "is_used (page_of (sp_pages S (space_of kind) ! ?l)) (slot_id rid) \<longleftrightarrow> cells S kind rid \<noteq> None"
      using True is_used_bit [of "page_of (sp_pages S (space_of kind) ! ?l)" "slot_id rid"]
      by (auto simp: cells_def pages_cells_def page_cell_def used_slots_def)
    then show ?thesis
      using True by (simp add: topology_count_wf [OF wf] or_false_does load_then [OF True])
  next
    case False
    then show ?thesis by (simp add: topology_count_wf [OF wf] cells_def pages_cells_def)
  qed
  then show ?thesis unfolding record_used_def Let_def by (intro space_does_header [where k = ?k]) simp_all
qed

lemma node_used_gok: "gok J (node_slot_used rid) G (\<lambda>b G'. b = (g_nodes G rid \<noteq> None) \<and> G' = G)"
proof (rule lift_space_read)
  fix S assume lv: "live S" and st: "gstate S G"
  have "(cells S Node rid \<noteq> None) = (g_nodes G rid \<noteq> None)" unfolding gstateD(3) [OF st, symmetric] by (simp add: nodes_def)
  then show "\<exists>r. space_does (node_slot_used rid) S r S \<and> (\<exists>x. r = Ok x \<and> x = (g_nodes G rid \<noteq> None) \<and> G = G)"
    using record_used_does [OF live_wf [OF lv], of Node rid] unfolding slot_used_record by auto
qed

lemma edge_used_gok: "gok J (edge_slot_used rid) G (\<lambda>b G'. b = (g_edges G rid \<noteq> None) \<and> G' = G)"
proof (rule lift_space_read)
  fix S assume lv: "live S" and st: "gstate S G"
  have "(cells S Edge rid \<noteq> None) = (g_edges G rid \<noteq> None)" unfolding gstateD(4) [OF st, symmetric] by (simp add: edges_def)
  then show "\<exists>r. space_does (edge_slot_used rid) S r S \<and> (\<exists>x. r = Ok x \<and> x = (g_edges G rid \<noteq> None) \<and> G = G)"
    using record_used_does [OF live_wf [OF lv], of Edge rid] unfolding slot_used_record by auto
qed

lemma live_nodes_gok: "gok J live_node_rids G (\<lambda>rids G'. distinct rids \<and> set rids = dom (g_nodes G) \<and> G' = G)"
proof (rule lift_space_read)
  fix S assume lv: "live S" and st: "gstate S G"
  obtain ns where ns: "space_does live_node_rids S (Ok ns) S" "distinct ns" "set ns = {rid. cells S Node rid \<noteq> None}"
    using live_all_does [OF live_wf [OF lv], of Node] by (auto simp: live_node_rids_def load_kinds topology_count_def)
  have "set ns = dom (g_nodes G)" unfolding ns(3) gstateD(3) [OF st, symmetric] by (auto simp: nodes_def dom_def)
  then show "\<exists>r. space_does live_node_rids S r S \<and> (\<exists>x. r = Ok x \<and> distinct x \<and> set x = dom (g_nodes G) \<and> G = G)"
    using ns(1,2) by blast
qed

lemma live_edges_gok: "gok J live_edge_rids G (\<lambda>rids G'. distinct rids \<and> set rids = dom (g_edges G) \<and> G' = G)"
proof (rule lift_space_read)
  fix S assume lv: "live S" and st: "gstate S G"
  obtain ns where ns: "space_does live_edge_rids S (Ok ns) S" "distinct ns" "set ns = {rid. cells S Edge rid \<noteq> None}"
    using live_all_does [OF live_wf [OF lv], of Edge] by (auto simp: live_edge_rids_def load_kinds topology_count_def)
  have "set ns = dom (g_edges G)" unfolding ns(3) gstateD(4) [OF st, symmetric] by (auto simp: edges_def dom_def)
  then show "\<exists>r. space_does live_edge_rids S r S \<and> (\<exists>x. r = Ok x \<and> distinct x \<and> set x = dom (g_edges G) \<and> G = G)"
    using ns(1,2) by blast
qed

section \<open>Values\<close>

definition with_value :: "record_id \<Rightarrow> bytes option \<Rightarrow> nat \<Rightarrow> gstore \<Rightarrow> gstore" where
  "with_value p b k G = G\<lparr>g_vals := (g_vals G)(p := b), g_room := g_room G - k\<rparr>"

lemma with_value_simps [simp]:
  "g_nodes (with_value p b k G) = g_nodes G" "g_edges (with_value p b k G) = g_edges G" "g_lists (with_value p b k G) = g_lists G"
  "g_vals (with_value p b k G) = (g_vals G)(p := b)" "g_labels (with_value p b k G) = g_labels G" "g_index (with_value p b k G) = g_index G"
  "g_schema (with_value p b k G) = g_schema G" "g_room (with_value p b k G) = g_room G - k"
  by (simp_all add: with_value_def)

lemma props_topology:
  assumes "only_props S S'" "sp_pages S' NodeS = sp_pages S NodeS" "sp_pages S' EdgeS = sp_pages S EdgeS"
  shows "nodes S' = nodes S" "edges S' = edges S" "graph S' L = graph S L"
  using topology_cong [OF assms(2,3)] assms(1) by (simp_all add: only_props_def)

lemma write_bytes_gok:
  assumes v: "short_value v" and room: "2 \<le> g_room G"
  shows "gok J (write_property_bytes v) G (\<lambda>p G'. g_vals G p = None \<and> G' = with_value p (Some v) 2 G)"
proof (rule lift_spaces)
  fix S assume lv: "live S" and st: "gstate S G"
  note D = gstateD [OF st]
  have "length v \<le> 4088" "2 \<le> sp_room S" using v room D(6) by (simp_all add: short_value_def)
  from write_slotted_does [OF D(2) live_wf [OF lv] this] obtain rid S' where S': "space_does (write_slotted v) S (Ok rid) S'"
      "write_result v S rid S'" by blast
  note w = S'(2) [unfolded write_result_def]
  have t: "nodes S' = nodes S" "edges S' = edges S" "graph S' L = graph S L" for L
    using props_topology [of S S'] w by blast+
  have "g_room G - 2 \<le> sp_room S'" using w D(6) by linarith
  then have "gstate S' (with_value rid (Some v) 2 G)" using D w by (simp add: gstate_def t)
  moreover have "same_rest S S'" using w by (simp add: only_props_def)
  ultimately show "\<exists>r S' G'. space_does (write_property_bytes v) S r S' \<and> same_rest S S' \<and> gstate S' G' \<and>
      g_labels G' = g_labels G \<and> g_index G' = g_index G \<and> g_schema G' = g_schema G \<and>
      (\<exists>x. r = Ok x \<and> g_vals G x = None \<and> G' = with_value x (Some v) 2 G)"
    using S'(1) w D(5) unfolding write_short [OF v]
    by (intro exI [of _ "Ok rid"] exI [of _ S'] exI [of _ "with_value rid (Some v) 2 G"]) simp
qed

lemma read_bytes_gok: "g_vals G p = Some v \<Longrightarrow> gok J (read_property_bytes p) G (\<lambda>x G'. x = v \<and> G' = G)"
  by (rule lift_space_read) (use read_slotted_does gstateD(2,5) in fastforce)

lemma free_bytes_gok:
  assumes v: "g_vals G p = Some v"
  shows "gok J (free_property_bytes p) G (\<lambda>_ G'. G' = with_value p None 0 G)"
proof (rule lift_spaces)
  fix S assume lv: "live S" and st: "gstate S G"
  note D = gstateD [OF st]
  have "vals S p = Some v" using v D(5) by simp
  from free_slotted_does [OF D(2) live_wf [OF lv] this] obtain S' where S': "space_does (free_property_bytes p) S (Ok ()) S'"
      "free_result p S S'" by blast
  note w = S'(2) [unfolded free_result_def]
  have t: "nodes S' = nodes S" "edges S' = edges S" "graph S' L = graph S L" for L
    using props_topology [of S S'] w by blast+
  have "gstate S' (with_value p None 0 G)" using D w by (simp add: gstate_def t)
  moreover have "same_rest S S'" using w by (simp add: only_props_def)
  ultimately show "\<exists>r S' G'. space_does (free_property_bytes p) S r S' \<and> same_rest S S' \<and> gstate S' G' \<and>
      g_labels G' = g_labels G \<and> g_index G' = g_index G \<and> g_schema G' = g_schema G \<and>
      (\<exists>x. r = Ok x \<and> G' = with_value p None 0 G)"
    using S'(1) by (intro exI [of _ "Ok ()"] exI [of _ S'] exI [of _ "with_value p None 0 G"]) simp
qed

end
