(* ===== verification/Property_Graph.thy ===== *)
theory Property_Graph
  imports Graph_Records
begin

text \<open>
  What the database promises: a property graph. A node has a type, additional labels and properties,
  an edge a type, labels, properties and two ends. \<open>pg_rep\<close> relates such a graph to the state of the
  open database: every stored value belongs to exactly one record, the label index holds the types of
  the nodes and the property index their indexed properties.
\<close>

section \<open>The graph\<close>

type_synonym 'n pmap = "string \<Rightarrow> 'n json option"

record 'n vertex =
  v_type :: u16
  v_labels :: "u16 list"
  v_props :: "'n pmap"

record 'n arc =
  a_type :: u16
  a_labels :: "u16 list"
  a_from :: record_id
  a_to :: record_id
  a_props :: "'n pmap"

record 'n pgraph =
  pg_nodes :: "record_id \<Rightarrow> 'n vertex option"
  pg_edges :: "record_id \<Rightarrow> 'n arc option"
  pg_adj :: adjacency

definition all_types :: "'n vertex \<Rightarrow> u16 list" where
  "all_types v = v_type v # v_labels v"

definition arc_types :: "'n arc \<Rightarrow> u16 list" where
  "arc_types a = a_type a # a_labels a"

text \<open>A property path looks at the properties as a map.\<close>

fun pmap_at :: "property_path \<Rightarrow> 'n pmap \<Rightarrow> 'n json option" where
  "pmap_at (Flat key) m = m key"
| "pmap_at (Nested []) m = None"
| "pmap_at (Nested (first # rest)) m = (case m first of None \<Rightarrow> None | Some v \<Rightarrow> walk_path v rest)"

lemma resolve_map: "resolve pth ps = pmap_at pth (map_of ps)"
  by (cases "(pth, map_of ps)" rule: pmap_at.cases) (auto split: option.split)

section \<open>What the stored schema says\<close>

definition registry_in :: "schema_dto \<Rightarrow> schema_registry" where
  "registry_in dto = from_assignments (sd_node_type_ids dto) (sd_edge_type_ids dto)"

definition node_def_in :: "schema_dto option \<Rightarrow> u16 \<Rightarrow> (string \<times> node_def) option" where
  "node_def_in D tid =
     Option.bind D (\<lambda>dto. Option.bind (node_type_name tid (registry_in dto)) (\<lambda>name.
       map_option (Pair name) (find_node_def name (dto_to_ast dto))))"

definition edge_def_in :: "schema_dto option \<Rightarrow> u16 \<Rightarrow> (string \<times> edge_def) option" where
  "edge_def_in D tid =
     Option.bind D (\<lambda>dto. Option.bind (edge_type_name tid (registry_in dto)) (\<lambda>name.
       map_option (Pair name) (find_edge_def name (dto_to_ast dto))))"

definition indexed_in :: "schema_dto option \<Rightarrow> u16 \<Rightarrow> (property_path \<times> bool) list" where
  "indexed_in D tid = (case node_def_in D tid of
      None \<Rightarrow> []
    | Some (_, n) \<Rightarrow> map (\<lambda>f. (Flat (fd_name f), fd_unique f)) (filter (\<lambda>f. fd_indexed f \<or> fd_unique f) (nd_fields n)))"

definition node_check_in :: "'n lib \<Rightarrow> schema_dto option \<Rightarrow> u16 \<Rightarrow> 'n props \<Rightarrow> unit res" where
  "node_check_in L D tid ps = (case node_def_in D tid of
      None \<Rightarrow> Ok () | Some (name, n) \<Rightarrow> validate_properties L name (nd_fields n) ps)"

definition edge_check_in :: "'n lib \<Rightarrow> schema_dto option \<Rightarrow> u16 \<Rightarrow> 'n props \<Rightarrow> unit res" where
  "edge_check_in L D tid ps = (case edge_def_in D tid of
      None \<Rightarrow> Ok () | Some (name, e) \<Rightarrow> validate_properties L name (ed_props e) ps)"

lemma gspec_pair: "Q r G \<Longrightarrow> gspec J (Pair r) G Q"
  unfolding gspec_def using db.R_refl by blast

lemma gspec_lift_eq: "gspec J (lift_res r) G (\<lambda>r' G'. r' = r \<and> G' = G)"
  by (rule gspec_lift) simp

lemma gspec_attempt:
  assumes "gspec J m G (\<lambda>r G'. r = res \<and> G' = G)" "\<And>p. res \<noteq> Inl Panicked \<and> res \<noteq> Inl Diverged"
  shows "gok J (attempt m) G (\<lambda>x G'. (case res of Inr y \<Rightarrow> x = Inr y | Inl (Failed e) \<Rightarrow> x = Inl e | _ \<Rightarrow> False) \<and> G' = G)"
  using assms unfolding gspec_def attempt_def by (fastforce split: sum.splits abort.splits)

lemma gspec_bnd_eq:
  assumes "gspec J m G (\<lambda>r G'. r = res \<and> G' = G)" "\<And>x. res = Ok x \<Longrightarrow> gspec J (k x) G Q" "\<And>a. res = Inl a \<Longrightarrow> Q (Inl a) G"
  shows "gspec J (bnd m k) G Q"
  by (rule gspec_bnd [OF assms(1)]) (use assms(2,3) in auto)

lemma load_schema_gspec:
  "gspec J (load_schema J) G (\<lambda>r G'. r = (case g_schema G of None \<Rightarrow> no_schema | Some dto \<Rightarrow> Ok (dto_to_ast dto)) \<and> G' = G)"
  unfolding load_schema_def
  by (rule gspec_bnd_eq [OF load_schema_dto_gspec])
    (auto simp: no_schema_def split: option.splits intro!: gspec_ret)

lemma load_registry_gspec:
  "gspec J (load_schema_registry J) G (\<lambda>r G'. r = (case g_schema G of None \<Rightarrow> no_schema | Some dto \<Rightarrow> Ok (registry_in dto)) \<and> G' = G)"
proof -
  have t: "gspec J (load_type_assignments J) G (\<lambda>r G'. r = (case g_schema G of None \<Rightarrow> no_schema
      | Some dto \<Rightarrow> Ok (sd_node_type_ids dto, sd_edge_type_ids dto)) \<and> G' = G)"
    unfolding load_type_assignments_def
    by (rule gspec_bnd_eq [OF load_schema_dto_gspec]) (auto simp: no_schema_def split: option.splits intro!: gspec_ret)
  show ?thesis
    unfolding load_schema_registry_def
    by (rule gspec_bnd_eq [OF t]) (auto simp: no_schema_def registry_in_def split: option.splits intro!: gspec_ret)
qed

lemma attempt_schema_gok:
  "gok J (attempt (load_schema J)) G (\<lambda>x G'. x = (case g_schema G of None \<Rightarrow> Inl (SchemaError ''no schema stored'') | Some dto \<Rightarrow> Inr (dto_to_ast dto)) \<and> G' = G)"
  by (rule gok_conseq [OF gspec_attempt [OF load_schema_gspec]]) (auto simp: no_schema_def split: option.splits)

lemma attempt_registry_gok:
  "gok J (attempt (load_schema_registry J)) G (\<lambda>x G'. x = (case g_schema G of None \<Rightarrow> Inl (SchemaError ''no schema stored'') | Some dto \<Rightarrow> Inr (registry_in dto)) \<and> G' = G)"
  by (rule gok_conseq [OF gspec_attempt [OF load_registry_gspec]]) (auto simp: no_schema_def split: option.splits)

lemma indexed_paths_gok: "gok J (indexed_paths_for_type J tid) G (\<lambda>ps G'. ps = indexed_in (g_schema G) tid \<and> G' = G)"
  unfolding indexed_paths_for_type_def
proof (rule gok_bnd [OF attempt_schema_gok], elim conjE, hypsubst)
  show "gok J (case case g_schema G of None \<Rightarrow> Inl (SchemaError ''no schema stored'') | Some dto \<Rightarrow> Inr (dto_to_ast dto) of
      Inl _ \<Rightarrow> ret [] | Inr ast \<Rightarrow> bnd (attempt (load_schema_registry J)) (\<lambda>r. case r of Inl _ \<Rightarrow> ret []
        | Inr reg \<Rightarrow> ret (case node_type_name tid reg of None \<Rightarrow> []
            | Some type_name \<Rightarrow> (case find_node_def type_name ast of None \<Rightarrow> []
               | Some n \<Rightarrow> map (\<lambda>f. (Flat (fd_name f), fd_unique f)) (filter (\<lambda>f. fd_indexed f \<or> fd_unique f) (nd_fields n))))))
     G (\<lambda>ps G'. ps = indexed_in (g_schema G) tid \<and> G' = G)"
  proof (cases "g_schema G")
    case None
    then show ?thesis by (auto simp: indexed_in_def node_def_in_def intro!: gspec_ret)
  next
    case (Some dto)
    show ?thesis
      unfolding Some option.case sum.case
      by (rule gok_bnd [OF attempt_registry_gok], elim conjE, hypsubst)
        (auto simp: Some indexed_in_def node_def_in_def split: option.splits intro!: gspec_ret)
  qed
qed

lemma check_props_gspec:
  "gspec J (check_node_props L J tid ps) G (\<lambda>r G'. r = node_check_in L (g_schema G) tid ps \<and> G' = G)"
  "gspec J (check_edge_props L J tid ps) G (\<lambda>r G'. r = edge_check_in L (g_schema G) tid ps \<and> G' = G)"
proof -
  show "gspec J (check_node_props L J tid ps) G (\<lambda>r G'. r = node_check_in L (g_schema G) tid ps \<and> G' = G)"
    unfolding check_node_props_def
  proof (rule gok_bnd [OF attempt_schema_gok], elim conjE, hypsubst)
    show "gspec J (case case g_schema G of None \<Rightarrow> Inl (SchemaError ''no schema stored'') | Some dto \<Rightarrow> Inr (dto_to_ast dto) of
        Inr ast \<Rightarrow> bnd (load_schema_registry J) (\<lambda>registry. case node_type_name tid registry of None \<Rightarrow> ret ()
          | Some type_name \<Rightarrow> (case find_node_def type_name ast of None \<Rightarrow> ret ()
              | Some node_def \<Rightarrow> lift_res (validate_properties L type_name (nd_fields node_def) ps)))
      | Inl (SchemaError _) \<Rightarrow> ret () | Inl e \<Rightarrow> err e) G (\<lambda>r G'. r = node_check_in L (g_schema G) tid ps \<and> G' = G)"
    proof (cases "g_schema G")
      case None
      then show ?thesis by (auto simp: node_check_in_def node_def_in_def intro!: gspec_ret)
    next
      case (Some dto)
      show ?thesis
        unfolding Some option.case sum.case
        by (rule gspec_bnd_eq [OF load_registry_gspec])
          (auto simp: Some node_check_in_def node_def_in_def split: option.splits intro!: gspec_ret gspec_lift)
    qed
  qed
  show "gspec J (check_edge_props L J tid ps) G (\<lambda>r G'. r = edge_check_in L (g_schema G) tid ps \<and> G' = G)"
    unfolding check_edge_props_def
  proof (rule gok_bnd [OF attempt_schema_gok], elim conjE, hypsubst)
    show "gspec J (case case g_schema G of None \<Rightarrow> Inl (SchemaError ''no schema stored'') | Some dto \<Rightarrow> Inr (dto_to_ast dto) of
        Inr ast \<Rightarrow> bnd (load_schema_registry J) (\<lambda>registry. case edge_type_name tid registry of None \<Rightarrow> ret ()
          | Some type_name \<Rightarrow> (case find_edge_def type_name ast of None \<Rightarrow> ret ()
              | Some edge_def \<Rightarrow> lift_res (validate_properties L type_name (ed_props edge_def) ps)))
      | Inl (SchemaError _) \<Rightarrow> ret () | Inl e \<Rightarrow> err e) G (\<lambda>r G'. r = edge_check_in L (g_schema G) tid ps \<and> G' = G)"
    proof (cases "g_schema G")
      case None
      then show ?thesis by (auto simp: edge_check_in_def edge_def_in_def intro!: gspec_ret)
    next
      case (Some dto)
      show ?thesis
        unfolding Some option.case sum.case
        by (rule gspec_bnd_eq [OF load_registry_gspec])
          (auto simp: Some edge_check_in_def edge_def_in_def split: option.splits intro!: gspec_ret gspec_lift)
    qed
  qed
qed

section \<open>Values and who holds them\<close>

datatype holder = NodeProps record_id | NodeLabels record_id | EdgeProps record_id | EdgeLabels record_id

fun ref_of :: "gstore \<Rightarrow> holder \<Rightarrow> record_id option" where
  "ref_of G (NodeProps rid) = Option.bind (g_nodes G rid) n_property_ref"
| "ref_of G (NodeLabels rid) = Option.bind (g_nodes G rid) n_label_ref"
| "ref_of G (EdgeProps rid) = Option.bind (g_edges G rid) e_property_ref"
| "ref_of G (EdgeLabels rid) = Option.bind (g_edges G rid) e_label_ref"

text \<open>Every value stored is referenced, and by one holder only.\<close>

definition owned :: "('h \<Rightarrow> 'p option) \<Rightarrow> ('p \<Rightarrow> 'b option) \<Rightarrow> bool" where
  "owned R V \<longleftrightarrow> (\<forall>h h' p. R h = Some p \<longrightarrow> R h' = Some p \<longrightarrow> h = h') \<and>
     (\<forall>p. V p \<noteq> None \<longleftrightarrow> (\<exists>h. R h = Some p))"

definition held :: "('h \<Rightarrow> 'p option) \<Rightarrow> ('p \<Rightarrow> 'b option) \<Rightarrow> 'h \<Rightarrow> 'b option" where
  "held R V h = Option.bind (R h) V"

abbreviation att :: "gstore \<Rightarrow> holder \<Rightarrow> bytes option" where
  "att G \<equiv> held (ref_of G) (g_vals G)"

definition dropped :: "'p option \<Rightarrow> ('p \<Rightarrow> 'b option) \<Rightarrow> ('p \<Rightarrow> 'b option)" where
  "dropped r V = (case r of None \<Rightarrow> V | Some p \<Rightarrow> V(p := None))"

definition stored_at :: "'p option \<Rightarrow> 'b option \<Rightarrow> ('p \<Rightarrow> 'b option) \<Rightarrow> ('p \<Rightarrow> 'b option)" where
  "stored_at r w V = (case r of None \<Rightarrow> V | Some p \<Rightarrow> V(p := w))"

definition fresh_ref :: "'p option \<Rightarrow> 'b option \<Rightarrow> ('p \<Rightarrow> 'b option) \<Rightarrow> bool" where
  "fresh_ref r w V \<longleftrightarrow> (r = None \<longleftrightarrow> w = None) \<and> (\<forall>p. r = Some p \<longrightarrow> V p = None)"

lemma owned_replace:
  assumes own: "owned R V" and fresh: "fresh_ref r w V"
  shows "owned (R(h := r)) (dropped (R h) (stored_at r w V))"
    "held (R(h := r)) (dropped (R h) (stored_at r w V)) = (held R V)(h := w)"
proof -
  have inj: "R h' = Some p \<Longrightarrow> R h'' = Some p \<Longrightarrow> h' = h''" and dom: "V p \<noteq> None \<longleftrightarrow> (\<exists>h. R h = Some p)" for h' h'' p
    using own unfolding owned_def by blast+
  have new: "r = Some p \<Longrightarrow> V p = None" for p using fresh unfolding fresh_ref_def by blast
  have rw: "r = None \<longleftrightarrow> w = None" using fresh unfolding fresh_ref_def by blast
  have nr: "r = Some p \<Longrightarrow> R h' \<noteq> Some p" for p h' using new dom by blast
  let ?v = "dropped (R h) (stored_at r w V)"
  have v: "?v p = (if r = Some p then w else if R h = Some p then None else V p)" for p
    using nr [of p h] by (auto simp: dropped_def stored_at_def split: option.splits)
  show "owned (R(h := r)) ?v"
    unfolding owned_def v
  proof (intro conjI allI impI)
    fix h1 h2 p assume "(R(h := r)) h1 = Some p" "(R(h := r)) h2 = Some p"
    then show "h1 = h2" using inj nr by (auto split: if_splits)
  next
    fix p
    show "((if r = Some p then w else if R h = Some p then None else V p) \<noteq> None) = (\<exists>h'. (R(h := r)) h' = Some p)"
    proof (cases "r = Some p")
      case True
      then show ?thesis using rw by (auto intro: exI [of _ h])
    next
      case False
      then show ?thesis using dom [of p] inj [of h p] by auto
    qed
  qed
  show "held (R(h := r)) ?v = (held R V)(h := w)"
  proof (rule ext)
    fix h'
    show "held (R(h := r)) ?v h' = ((held R V)(h := w)) h'"
    proof (cases "h' = h")
      case True
      show ?thesis
      proof (cases r)
        case None
        then show ?thesis using True rw by (simp add: held_def)
      next
        case (Some q)
        then have "?v q = w" using v [of q] by simp
        then show ?thesis using True Some by (simp add: held_def)
      qed
    next
      case False
      have "?v q = V q" if q: "R h' = Some q" for q
      proof -
        have "r \<noteq> Some q" using nr [of q h'] q by blast
        moreover have "R h \<noteq> Some q" using inj [OF q, of h] False by blast
        ultimately show ?thesis by (simp add: v)
      qed
      then show ?thesis using False by (cases "R h'") (simp_all add: held_def)
    qed
  qed
qed

lemma owned_None: "owned R V \<Longrightarrow> held R V h = None \<longleftrightarrow> R h = None"
  unfolding owned_def held_def by (cases "R h") auto

lemma fresh_none [simp]: "fresh_ref None None V"
  by (simp add: fresh_ref_def)

lemma stored_none [simp]: "stored_at None w V = V"
  by (simp add: stored_at_def)

section \<open>The representation\<close>

definition props_dec :: "'n lib \<Rightarrow> bytes option \<Rightarrow> 'n pmap \<Rightarrow> bool" where
  "props_dec L w m \<longleftrightarrow> (case w of None \<Rightarrow> m = Map.empty | Some b \<Rightarrow> \<exists>ps. props_from_slice L b = Inr ps \<and> map_of ps = m)"

definition labels_dec :: "'n lib \<Rightarrow> bytes option \<Rightarrow> u16 list \<Rightarrow> bool" where
  "labels_dec L w ls \<longleftrightarrow> (case w of None \<Rightarrow> ls = [] | Some b \<Rightarrow> labels_from_slice L b = Inr ls)"

definition node_at :: "'n lib \<Rightarrow> gstore \<Rightarrow> record_id \<Rightarrow> 'n vertex \<Rightarrow> bool" where
  "node_at L G rid v \<longleftrightarrow> (\<exists>n. g_nodes G rid = Some n \<and> node_type_id n = v_type v) \<and>
     props_dec L (att G (NodeProps rid)) (v_props v) \<and> labels_dec L (att G (NodeLabels rid)) (v_labels v) \<and>
     distinct (all_types v)"

definition edge_at :: "'n lib \<Rightarrow> gstore \<Rightarrow> record_id \<Rightarrow> 'n arc \<Rightarrow> bool" where
  "edge_at L G rid a \<longleftrightarrow>
     (\<exists>e. g_edges G rid = Some e \<and> edge_type_id e = a_type a \<and> from_node e = a_from a \<and> to_node e = a_to a) \<and>
     props_dec L (att G (EdgeProps rid)) (a_props a) \<and> labels_dec L (att G (EdgeLabels rid)) (a_labels a) \<and>
     distinct (arc_types a)"

definition arc_end :: "edge_direction \<Rightarrow> 'n arc \<Rightarrow> record_id" where
  "arc_end d a = (case d of Out \<Rightarrow> a_from a | In \<Rightarrow> a_to a)"

text \<open>The entries of a node in the property index, and the nodes of a type.\<close>

definition entries_for :: "'n lib \<Rightarrow> u16 \<Rightarrow> record_id \<Rightarrow> 'n pmap \<Rightarrow> (property_path \<times> bool) list \<Rightarrow> index_entry set" where
  "entries_for L tid rid m ps = {entry_of (index_key_new tid (as_bytes (display_name p)) b) rid | p x b.
     p \<in> fst ` set ps \<and> pmap_at p m = Some x \<and> is_indexable_value x \<and> encode_value L x = Ok b}"

definition node_entries :: "'n lib \<Rightarrow> schema_dto option \<Rightarrow> record_id \<Rightarrow> 'n vertex option \<Rightarrow> index_entry set" where
  "node_entries L D rid v = (case v of None \<Rightarrow> {} | Some v \<Rightarrow> entries_for L (v_type v) rid (v_props v) (indexed_in D (v_type v)))"

definition typed_nodes :: "(record_id \<Rightarrow> 'n vertex option) \<Rightarrow> u16 \<Rightarrow> record_id set" where
  "typed_nodes N t = {rid. \<exists>v. N rid = Some v \<and> t \<in> set (all_types v)}"

definition labels_ok :: "(record_id \<Rightarrow> 'n vertex option) \<Rightarrow> label_sets \<Rightarrow> bool" where
  "labels_ok N E \<longleftrightarrow> (\<forall>t. E t = mset_set (typed_nodes N t))"

definition index_ok :: "'n lib \<Rightarrow> schema_dto option \<Rightarrow> (record_id \<Rightarrow> 'n vertex option) \<Rightarrow> index_entry set \<Rightarrow> bool" where
  "index_ok L D N X \<longleftrightarrow> X = (\<Union>rid. node_entries L D rid (N rid))"

definition arcs_ok :: "'n pgraph \<Rightarrow> bool" where
  "arcs_ok A \<longleftrightarrow> (\<forall>r a d. pg_edges A r = Some a \<longrightarrow> pg_nodes A (arc_end d a) \<noteq> None \<and> r \<in> set (pg_adj A d (arc_end d a)))"

definition pg_rep :: "'n lib \<Rightarrow> schema_dto option \<Rightarrow> gstore \<Rightarrow> 'n pgraph \<Rightarrow> bool" where
  "pg_rep L D G A \<longleftrightarrow> g_schema G = D \<and> owned (ref_of G) (g_vals G) \<and> g_lists G = pg_adj A \<and>
     (\<forall>rid. case pg_nodes A rid of None \<Rightarrow> g_nodes G rid = None | Some v \<Rightarrow> node_at L G rid v) \<and>
     (\<forall>rid. case pg_edges A rid of None \<Rightarrow> g_edges G rid = None | Some a \<Rightarrow> edge_at L G rid a) \<and>
     arcs_ok A \<and> labels_ok (pg_nodes A) (g_labels G) \<and> index_ok L D (pg_nodes A) (g_index G)"

lemma pg_repD:
  assumes "pg_rep L D G A"
  shows "g_schema G = D" "owned (ref_of G) (g_vals G)" "g_lists G = pg_adj A"
    "pg_nodes A rid = Some v \<Longrightarrow> node_at L G rid v" "pg_nodes A rid = None \<longleftrightarrow> g_nodes G rid = None"
    "pg_edges A rid = Some a \<Longrightarrow> edge_at L G rid a" "pg_edges A rid = None \<longleftrightarrow> g_edges G rid = None"
    "arcs_ok A" "labels_ok (pg_nodes A) (g_labels G)" "index_ok L D (pg_nodes A) (g_index G)"
proof -
  note r = assms [unfolded pg_rep_def]
  show "g_schema G = D" "owned (ref_of G) (g_vals G)" "g_lists G = pg_adj A" "arcs_ok A"
      "labels_ok (pg_nodes A) (g_labels G)" "index_ok L D (pg_nodes A) (g_index G)" using r by - (elim conjE, assumption)+
  have n: "case pg_nodes A rid of None \<Rightarrow> g_nodes G rid = None | Some v \<Rightarrow> node_at L G rid v"
    and e: "case pg_edges A rid of None \<Rightarrow> g_edges G rid = None | Some a \<Rightarrow> edge_at L G rid a" using r by blast+
  show "pg_nodes A rid = Some v \<Longrightarrow> node_at L G rid v" "pg_edges A rid = Some a \<Longrightarrow> edge_at L G rid a" using n e by simp_all
  show "pg_nodes A rid = None \<longleftrightarrow> g_nodes G rid = None" using n by (auto simp: node_at_def split: option.splits)
  show "pg_edges A rid = None \<longleftrightarrow> g_edges G rid = None" using e by (auto simp: edge_at_def split: option.splits)
qed

lemma pg_repI:
  assumes "g_schema G = D" "owned (ref_of G) (g_vals G)" "g_lists G = pg_adj A"
    "\<And>rid v. pg_nodes A rid = Some v \<Longrightarrow> node_at L G rid v" "\<And>rid. pg_nodes A rid = None \<Longrightarrow> g_nodes G rid = None"
    "\<And>rid a. pg_edges A rid = Some a \<Longrightarrow> edge_at L G rid a" "\<And>rid. pg_edges A rid = None \<Longrightarrow> g_edges G rid = None"
    "arcs_ok A" "labels_ok (pg_nodes A) (g_labels G)" "index_ok L D (pg_nodes A) (g_index G)"
  shows "pg_rep L D G A"
  unfolding pg_rep_def using assms by (simp split: option.split)

text \<open>What the records of a node and of an edge hold depends on the data of the records and the values held.\<close>

lemma node_at_cong:
  assumes "node_at L G rid v" "gnode G' rid = gnode G rid" "att G' (NodeProps rid) = att G (NodeProps rid)"
    "att G' (NodeLabels rid) = att G (NodeLabels rid)"
  shows "node_at L G' rid v"
proof -
  have "(\<exists>n. g_nodes G' rid = Some n \<and> node_type_id n = v_type v) \<longleftrightarrow> (\<exists>n. gnode G' rid = Some n \<and> node_type_id n = v_type v)" for G'
    by (auto simp: gnode_def node_data_def)
  then show ?thesis using assms unfolding node_at_def by metis
qed

lemma edge_at_cong:
  assumes "edge_at L G rid a" "gedge G' rid = gedge G rid" "att G' (EdgeProps rid) = att G (EdgeProps rid)"
    "att G' (EdgeLabels rid) = att G (EdgeLabels rid)"
  shows "edge_at L G' rid a"
proof -
  have "(\<exists>e. g_edges G' rid = Some e \<and> edge_type_id e = a_type a \<and> from_node e = a_from a \<and> to_node e = a_to a) \<longleftrightarrow>
      (\<exists>e. gedge G' rid = Some e \<and> edge_type_id e = a_type a \<and> from_node e = a_from a \<and> to_node e = a_to a)" for G'
    by (auto simp: gedge_def edge_data_def)
  then show ?thesis using assms unfolding edge_at_def by metis
qed

text \<open>The references are a function of that data too.\<close>

lemma ref_of_data:
  "ref_of G (NodeProps rid) = Option.bind (gnode G rid) n_property_ref" "ref_of G (NodeLabels rid) = Option.bind (gnode G rid) n_label_ref"
  "ref_of G (EdgeProps rid) = Option.bind (gedge G rid) e_property_ref" "ref_of G (EdgeLabels rid) = Option.bind (gedge G rid) e_label_ref"
  by (cases "g_nodes G rid"; cases "g_edges G rid"; simp add: gnode_def gedge_def node_data_def edge_data_def)+

lemma ref_of_cong: "gnode G' = gnode G \<Longrightarrow> gedge G' = gedge G \<Longrightarrow> ref_of G' = ref_of G"
  by (rule ext, case_tac x) (simp_all only: ref_of_data)

section \<open>Values, labels and index entries of a record\<close>

lemma gstore_rep_room: "gstore_rep J db G \<Longrightarrow> gstore_rep J db (G\<lparr>g_room := g_room G - k\<rparr>)"
proof -
  assume "gstore_rep J db G"
  then obtain v S own pids phys where v: "db_rep db v" "layout v S own pids phys" "gstate S G"
      "extras J v (dom (sp_other S)) (g_labels G) (g_index G) (g_schema G)" by (rule gstore_repE)
  have "gstate S (G\<lparr>g_room := g_room G - k\<rparr>)" using v(3) unfolding gstate_def by (simp add: diff_le_self [THEN le_trans])
  then show ?thesis by (rule gstore_repI [OF v(1,2)]) (simp add: v(4))
qed

lemma gspec_spend: "gspec J m G P \<Longrightarrow> (\<And>r G'. P r G' \<Longrightarrow> \<exists>k. Q r (G'\<lparr>g_room := g_room G' - k\<rparr>)) \<Longrightarrow> gspec J m G Q"
proof -
  assume m: "gspec J m G P" and Q: "\<And>r G'. P r G' \<Longrightarrow> \<exists>k. Q r (G'\<lparr>g_room := g_room G' - k\<rparr>)"
  show "gspec J m G Q"
    unfolding gspec_def
  proof (intro allI impI)
    fix db assume "gstore_rep J db G"
    from gspecD [OF m this] obtain r db' G' where s: "m db = (r, db')" "gstore_rep J db' G'" "db_since db db'" "P r G'" by blast
    from Q [OF s(4)] obtain k where "Q r (G'\<lparr>g_room := g_room G' - k\<rparr>)" by blast
    then show "\<exists>r db' G'. m db = (r, db') \<and> gstore_rep J db' G' \<and> db_since db db' \<and> Q r G'"
      using s(1,3) gstore_rep_room [OF s(2), of k] by blast
  qed
qed

definition props_legal :: "'n lib \<Rightarrow> 'n props \<Rightarrow> bool" where
  "props_legal L ps \<longleftrightarrow> ps = [] \<or> (\<exists>b qs. props_to_vec L ps = Inr b \<and> short_value b \<and> props_from_slice L b = Inr qs \<and> map_of qs = map_of ps)"

definition labels_legal :: "'n lib \<Rightarrow> u16 list \<Rightarrow> bool" where
  "labels_legal L ls \<longleftrightarrow> ls = [] \<or> (\<exists>b. labels_to_vec L ls = Inr b \<and> short_value b \<and> labels_from_slice L b = Inr ls)"

definition put_value :: "record_id option \<Rightarrow> bytes option \<Rightarrow> gstore \<Rightarrow> gstore" where
  "put_value r w G = G\<lparr>g_vals := stored_at r w (g_vals G), g_room := g_room G - 2\<rparr>"

definition drop_value :: "record_id option \<Rightarrow> gstore \<Rightarrow> gstore" where
  "drop_value r G = G\<lparr>g_vals := dropped r (g_vals G)\<rparr>"

lemma value_simps [simp]:
  "g_nodes (put_value r w G) = g_nodes G" "g_edges (put_value r w G) = g_edges G" "g_lists (put_value r w G) = g_lists G"
  "g_vals (put_value r w G) = stored_at r w (g_vals G)" "g_labels (put_value r w G) = g_labels G" "g_index (put_value r w G) = g_index G"
  "g_schema (put_value r w G) = g_schema G" "g_room (put_value r w G) = g_room G - 2"
  "g_nodes (drop_value r G) = g_nodes G" "g_edges (drop_value r G) = g_edges G" "g_lists (drop_value r G) = g_lists G"
  "g_vals (drop_value r G) = dropped r (g_vals G)" "g_labels (drop_value r G) = g_labels G" "g_index (drop_value r G) = g_index G"
  "g_schema (drop_value r G) = g_schema G" "g_room (drop_value r G) = g_room G"
  by (simp_all add: put_value_def drop_value_def)

lemma write_some_gok:
  assumes "short_value b" "2 \<le> g_room G"
  shows "gok J (bnd (write_property_bytes b) (\<lambda>p. ret (Some p))) G
    (\<lambda>r G'. fresh_ref r (Some b) (g_vals G) \<and> G' = put_value r (Some b) G)"
  by (rule gok_bnd [OF write_bytes_gok [OF assms]])
    (auto simp: fresh_ref_def put_value_def with_value_def stored_at_def intro!: gok_ret)

lemma write_none_gok: "gok J (ret None) G (\<lambda>r G'. fresh_ref r (None :: bytes option) (g_vals G) \<and> G' = put_value r None G)"
  by (rule gspec_spend [OF gok_ret [where P = "\<lambda>x G'. x = None \<and> G' = G"]]) (auto simp: put_value_def intro!: exI [of _ 2])

lemma write_props_gok:
  assumes ok: "props_legal L ps" and room: "2 \<le> g_room G"
  shows "gok J (write_props L ps) G (\<lambda>r G'. \<exists>w. props_dec L w (map_of ps) \<and> fresh_ref r w (g_vals G) \<and> G' = put_value r w G)"
proof (cases "ps = []")
  case True
  then have "write_props L ps = ret None" by (simp add: write_props_def)
  then show ?thesis using True by (auto simp: props_dec_def intro!: gok_conseq [OF write_none_gok] exI [of _ None])
next
  case False
  then obtain b qs where b: "props_to_vec L ps = Inr b" "short_value b" "props_from_slice L b = Inr qs" "map_of qs = map_of ps"
    using ok unfolding props_legal_def by blast
  have "write_props L ps = bnd (write_property_bytes b) (\<lambda>p. ret (Some p))"
    using False by (simp add: write_props_def store_write_def b(1) fun_eq_iff bnd_def lift_res_def)
  then show ?thesis
    using b(3,4) by (auto simp: props_dec_def intro!: gok_conseq [OF write_some_gok [OF b(2) room]] exI [of _ "Some b"])
qed

lemma write_labels_gok:
  assumes ok: "labels_legal L ls" and room: "2 \<le> g_room G"
  shows "gok J (write_labels L ls) G (\<lambda>r G'. \<exists>w. labels_dec L w ls \<and> fresh_ref r w (g_vals G) \<and> G' = put_value r w G)"
proof (cases "ls = []")
  case True
  then have "write_labels L ls = ret None" by (simp add: write_labels_def)
  then show ?thesis using True by (auto simp: labels_dec_def intro!: gok_conseq [OF write_none_gok] exI [of _ None])
next
  case False
  then obtain b where b: "labels_to_vec L ls = Inr b" "short_value b" "labels_from_slice L b = Inr ls"
    using ok unfolding labels_legal_def by blast
  have "write_labels L ls = bnd (write_property_bytes b) (\<lambda>p. ret (Some p))"
    using False by (simp add: write_labels_def encode_label_list_def write_raw_def b(1) fun_eq_iff bnd_def lift_res_def)
  then show ?thesis
    using b(3) by (auto simp: labels_dec_def intro!: gok_conseq [OF write_some_gok [OF b(2) room]] exI [of _ "Some b"])
qed

lemma free_ref_gok:
  assumes "\<And>p. r = Some p \<Longrightarrow> g_vals G p \<noteq> None"
  shows "gok J (free_ref r) G (\<lambda>_ G'. G' = drop_value r G)"
proof (cases r)
  case None
  then show ?thesis by (auto simp: free_ref_def drop_value_def dropped_def intro!: gspec_ret)
next
  case (Some p)
  then obtain b where "g_vals G p = Some b" using assms by blast
  from free_bytes_gok [OF this] show ?thesis
    by (simp add: Some free_ref_def free_property_def drop_value_def dropped_def with_value_def)
qed

lemma owned_ref: "owned R V \<Longrightarrow> R h = Some p \<Longrightarrow> V p \<noteq> None"
  unfolding owned_def by blast

lemma held_ref: "owned R V \<Longrightarrow> R h = Some p \<Longrightarrow> \<exists>b. V p = Some b \<and> held R V h = Some b"
  using owned_ref [of R V h p] by (auto simp: held_def)

lemma get_value_gok:
  assumes own: "owned (ref_of G) (g_vals G)" and r: "ref_of G h = Some p"
  shows "gok J (read_property_bytes p) G (\<lambda>b G'. att G h = Some b \<and> G' = G)"
proof -
  obtain b where b: "g_vals G p = Some b" "att G h = Some b" using held_ref [OF own r] by blast
  show ?thesis by (rule gok_conseq [OF read_bytes_gok [OF b(1)]]) (simp add: b(2))
qed

lemma get_props_gok:
  assumes own: "owned (ref_of G) (g_vals G)" and v: "node_at L G rid v"
  shows "gok J (get_node_properties_raw L rid) G (\<lambda>ps G'. map_of ps = v_props v \<and> G' = G)"
proof -
  obtain n where n: "g_nodes G rid = Some n" using v unfolding node_at_def by blast
  have dec: "props_dec L (att G (NodeProps rid)) (v_props v)" using v unfolding node_at_def by blast
  show ?thesis
    unfolding get_node_properties_raw_def
  proof (rule gok_bnd [OF read_node_gok [OF n]], elim conjE, hypsubst)
    show "gok J (case n_property_ref n of None \<Rightarrow> ret [] | Some pref \<Rightarrow> store_read L pref) G (\<lambda>ps G'. map_of ps = v_props v \<and> G' = G)"
    proof (cases "n_property_ref n")
      case None
      then have "att G (NodeProps rid) = None" by (simp add: held_def n)
      then show ?thesis using dec None by (auto simp: props_dec_def intro!: gspec_ret)
    next
      case (Some p)
      then have r: "ref_of G (NodeProps rid) = Some p" by (simp add: n)
      show ?thesis
        unfolding Some option.case store_read_def
        by (rule gok_bnd [OF get_value_gok [OF own r]]) (use dec in \<open>auto simp: props_dec_def intro!: gspec_lift\<close>)
    qed
  qed
qed

lemma get_labels_gok:
  assumes own: "owned (ref_of G) (g_vals G)" and v: "node_at L G rid v"
  shows "gok J (get_additional_labels L rid) G (\<lambda>ls G'. ls = v_labels v \<and> G' = G)"
proof -
  obtain n where n: "g_nodes G rid = Some n" using v unfolding node_at_def by blast
  have dec: "labels_dec L (att G (NodeLabels rid)) (v_labels v)" using v unfolding node_at_def by blast
  show ?thesis
    unfolding get_additional_labels_def
  proof (rule gok_bnd [OF read_node_gok [OF n]], elim conjE, hypsubst)
    show "gok J (case n_label_ref n of None \<Rightarrow> ret [] | Some lref \<Rightarrow> bnd (read_raw lref) (\<lambda>bytes. lift_res (decode_label_list L bytes))) G
        (\<lambda>ls G'. ls = v_labels v \<and> G' = G)"
    proof (cases "n_label_ref n")
      case None
      then have "att G (NodeLabels rid) = None" by (simp add: held_def n)
      then show ?thesis using dec None by (auto simp: labels_dec_def intro!: gspec_ret)
    next
      case (Some p)
      then have r: "ref_of G (NodeLabels rid) = Some p" by (simp add: n)
      show ?thesis
        unfolding Some option.case read_raw_def
        by (rule gok_bnd [OF get_value_gok [OF own r]]) (use dec in \<open>auto simp: labels_dec_def decode_label_list_def intro!: gspec_lift\<close>)
    qed
  qed
qed

lemma get_edge_labels_gok:
  assumes own: "owned (ref_of G) (g_vals G)" and a: "edge_at L G rid a"
  shows "gok J (get_edge_additional_labels L rid) G (\<lambda>ls G'. ls = a_labels a \<and> G' = G)"
proof -
  obtain e where e: "g_edges G rid = Some e" using a unfolding edge_at_def by blast
  have dec: "labels_dec L (att G (EdgeLabels rid)) (a_labels a)" using a unfolding edge_at_def by blast
  show ?thesis
    unfolding get_edge_additional_labels_def
  proof (rule gok_bnd [OF read_edge_gok [OF e]], elim conjE, hypsubst)
    show "gok J (case e_label_ref e of None \<Rightarrow> ret [] | Some lref \<Rightarrow> bnd (read_raw lref) (\<lambda>bytes. lift_res (decode_label_list L bytes))) G
        (\<lambda>ls G'. ls = a_labels a \<and> G' = G)"
    proof (cases "e_label_ref e")
      case None
      then have "att G (EdgeLabels rid) = None" by (simp add: held_def e)
      then show ?thesis using dec None by (auto simp: labels_dec_def intro!: gspec_ret)
    next
      case (Some p)
      then have r: "ref_of G (EdgeLabels rid) = Some p" by (simp add: e)
      show ?thesis
        unfolding Some option.case read_raw_def
        by (rule gok_bnd [OF get_value_gok [OF own r]]) (use dec in \<open>auto simp: labels_dec_def decode_label_list_def intro!: gspec_lift\<close>)
    qed
  qed
qed

section \<open>The two indexes\<close>

definition labelled :: "record_id \<Rightarrow> u16 list \<Rightarrow> label_sets \<Rightarrow> label_sets" where
  "labelled rid ls E = (\<lambda>t. if t \<in> set ls then add_mset rid (E t) else E t)"

definition unlabelled :: "record_id \<Rightarrow> u16 list \<Rightarrow> label_sets \<Rightarrow> label_sets" where
  "unlabelled rid ls E = (\<lambda>t. if t \<in> set ls then E t - {#rid#} else E t)"

lemma label_all_gok:
  "distinct ls \<Longrightarrow> 3 * length ls \<le> g_room G \<Longrightarrow>
   gok J (label_all rid ls) G (\<lambda>_ G'. G' = with_labels (labelled rid ls (g_labels G)) (3 * length ls) G)"
proof (induction ls arbitrary: G)
  case Nil
  then show ?case by (auto simp: labelled_def with_labels_def intro!: gspec_pair)
next
  case (Cons l ls)
  let ?G = "with_labels ((g_labels G)(l := add_mset rid (g_labels G l))) 3 G"
  have room: "3 \<le> g_room G" "3 * length ls \<le> g_room ?G" using Cons.prems(2) by simp_all
  have eq: "labelled rid ls ((g_labels G)(l := add_mset rid (g_labels G l))) = labelled rid (l # ls) (g_labels G)"
    using Cons.prems(1) by (auto simp: labelled_def fun_eq_iff)
  have "gok J (label_all rid ls) ?G (\<lambda>_ G'. G' = with_labels (labelled rid (l # ls) (g_labels G)) (3 * length (l # ls)) G)"
    by (rule gok_conseq [OF Cons.IH [OF _ room(2)]]) (use Cons.prems(1) eq eq [unfolded fun_upd_def] in \<open>simp_all add: with_labels_def\<close>)
  then show ?case unfolding label_all.simps by (intro gok_bnd [OF li_add_new_gok [OF room(1)]]) simp
qed

lemma unlabel_all_gok:
  "distinct ls \<Longrightarrow> gok J (unlabel_all rid ls) G (\<lambda>_ G'. G' = with_labels (unlabelled rid ls (g_labels G)) 0 G)"
proof (induction ls arbitrary: G)
  case Nil
  then show ?case by (auto simp: unlabelled_def with_labels_def intro!: gspec_pair)
next
  case (Cons l ls)
  let ?G = "with_labels ((g_labels G)(l := g_labels G l - {#rid#})) 0 G"
  have eq: "unlabelled rid ls ((g_labels G)(l := g_labels G l - {#rid#})) = unlabelled rid (l # ls) (g_labels G)"
    using Cons.prems(1) by (auto simp: unlabelled_def fun_eq_iff)
  have "gok J (unlabel_all rid ls) ?G (\<lambda>_ G'. G' = with_labels (unlabelled rid (l # ls) (g_labels G)) 0 G)"
    by (rule gok_conseq [OF Cons.IH]) (use Cons.prems(1) eq eq [unfolded fun_upd_def] in \<open>simp_all add: with_labels_def\<close>)
  then show ?case unfolding unlabel_all.simps by (intro gok_bnd [OF li_remove_gok]) simp
qed

text \<open>A scalar always has an encoding.\<close>

lemma encode_scalar: "is_indexable_value x \<Longrightarrow> \<exists>b. encode_value L x = Ok b"
  by (cases x) (auto simp: is_indexable_value_def encode_value_def split: option.splits)

lemma entries_for_Nil [simp]: "entries_for L tid rid m [] = {}"
  by (simp add: entries_for_def)

lemma entries_for_Cons:
  "entries_for L tid rid m ((p, u) # ps) = entries_for L tid rid m ps \<union>
     (case pmap_at p m of
        None \<Rightarrow> {}
      | Some x \<Rightarrow> if is_indexable_value x
          then {entry_of (index_key_new tid (as_bytes (display_name p)) b) rid | b. encode_value L x = Ok b} else {})"
  by (auto simp: entries_for_def split: option.splits)

lemma maintain_skip:
  "pmap_at p (map_of props) = None \<Longrightarrow> maintain_loop L tid rid props oper ((p, u) # ps) = maintain_loop L tid rid props oper ps"
  "pmap_at p (map_of props) = Some x \<Longrightarrow> \<not> is_indexable_value x \<Longrightarrow>
     maintain_loop L tid rid props oper ((p, u) # ps) = maintain_loop L tid rid props oper ps"
  by (simp_all add: resolve_map)

lemma maintain_step:
  assumes "pmap_at p (map_of props) = Some x" "is_indexable_value x" "encode_value L x = Ok b"
  shows "maintain_loop L tid rid props oper ((p, u) # ps) =
     bnd (case oper of OpAdd \<Rightarrow> pi_add (index_key_new tid (as_bytes (display_name p)) b) rid
                     | OpRemove \<Rightarrow> pi_remove (index_key_new tid (as_bytes (display_name p)) b) rid)
       (\<lambda>_. maintain_loop L tid rid props oper ps)"
  using assms by (simp add: resolve_map fun_eq_iff bnd_def lift_res_def Let_def)

lemma maintain_add_gok:
  "3 * length ps \<le> g_room G \<Longrightarrow> gok J (maintain_loop L tid rid props OpAdd ps) G
     (\<lambda>_ G'. G' = with_entries (g_index G \<union> entries_for L tid rid (map_of props) ps) (3 * length ps) G)"
proof (induction ps arbitrary: G)
  case Nil
  then show ?case by (auto simp: with_entries_def intro!: gspec_pair)
next
  case (Cons q ps)
  obtain p u where q: "q = (p, u)" by (cases q)
  have room: "3 \<le> g_room G" "3 * length ps \<le> g_room G" using Cons.prems by simp_all
  let ?Q = "\<lambda>(_ :: unit) G'. G' = with_entries (g_index G \<union> entries_for L tid rid (map_of props) (q # ps)) (3 * length (q # ps)) G"
  show ?case
  proof (cases "\<exists>x. pmap_at p (map_of props) = Some x \<and> is_indexable_value x")
    case True
    then obtain x b where x: "pmap_at p (map_of props) = Some x" "is_indexable_value x" "encode_value L x = Ok b"
      using encode_scalar by blast
    let ?key = "index_key_new tid (as_bytes (display_name p)) b"
    let ?G = "with_entries (insert (entry_of ?key rid) (g_index G)) 3 G"
    have eq: "entries_for L tid rid (map_of props) (q # ps) = insert (entry_of ?key rid) (entries_for L tid rid (map_of props) ps)"
      unfolding q entries_for_Cons using x by auto
    have room': "3 * length ps \<le> g_room ?G" using Cons.prems by simp
    have "gok J (maintain_loop L tid rid props OpAdd ps) ?G ?Q"
      by (rule gok_conseq [OF Cons.IH [OF room']]) (simp add: eq with_entries_def)
    then show ?thesis
      unfolding q maintain_step [OF x] index_op.case by (intro gok_bnd [OF pi_add_gok [OF room(1)]]) (simp add: q)
  next
    case False
    then have eq: "entries_for L tid rid (map_of props) (q # ps) = entries_for L tid rid (map_of props) ps"
      unfolding q entries_for_Cons by (auto split: option.splits)
    have skip: "maintain_loop L tid rid props OpAdd (q # ps) = maintain_loop L tid rid props OpAdd ps"
      unfolding q using False maintain_skip by (cases "pmap_at p (map_of props)") blast+
    show ?thesis
      unfolding skip eq by (rule gspec_spend [OF Cons.IH [OF room(2)]]) (auto simp: with_entries_def intro!: exI [of _ 3])
  qed
qed

lemma maintain_remove_gok:
  "gok J (maintain_loop L tid rid props OpRemove ps) G
     (\<lambda>_ G'. G' = with_entries (g_index G - entries_for L tid rid (map_of props) ps) 0 G)"
proof (induction ps arbitrary: G)
  case Nil
  then show ?case by (auto simp: with_entries_def intro!: gspec_pair)
next
  case (Cons q ps)
  obtain p u where q: "q = (p, u)" by (cases q)
  let ?Q = "\<lambda>(_ :: unit) G'. G' = with_entries (g_index G - entries_for L tid rid (map_of props) (q # ps)) 0 G"
  show ?case
  proof (cases "\<exists>x. pmap_at p (map_of props) = Some x \<and> is_indexable_value x")
    case True
    then obtain x b where x: "pmap_at p (map_of props) = Some x" "is_indexable_value x" "encode_value L x = Ok b"
      using encode_scalar by blast
    let ?key = "index_key_new tid (as_bytes (display_name p)) b"
    let ?G = "with_entries (g_index G - {entry_of ?key rid}) 0 G"
    have eq: "entries_for L tid rid (map_of props) (q # ps) = insert (entry_of ?key rid) (entries_for L tid rid (map_of props) ps)"
      unfolding q entries_for_Cons using x by auto
    have diff: "g_index G - entries_for L tid rid (map_of props) (q # ps) =
        g_index G - {entry_of ?key rid} - entries_for L tid rid (map_of props) ps"
      unfolding eq by blast
    have "gok J (maintain_loop L tid rid props OpRemove ps) ?G ?Q"
      by (rule gok_conseq [OF Cons.IH]) (simp add: diff with_entries_def)
    then show ?thesis
      unfolding q maintain_step [OF x] index_op.case by (intro gok_bnd [OF pi_remove_gok]) (simp add: q)
  next
    case False
    then have eq: "entries_for L tid rid (map_of props) (q # ps) = entries_for L tid rid (map_of props) ps"
      unfolding q entries_for_Cons by (auto split: option.splits)
    have skip: "maintain_loop L tid rid props OpRemove (q # ps) = maintain_loop L tid rid props OpRemove ps"
      unfolding q using False maintain_skip by (cases "pmap_at p (map_of props)") blast+
    show ?thesis unfolding skip eq by (rule Cons.IH)
  qed
qed

lemma maintain_gok:
  "3 * length (indexed_in (g_schema G) tid) \<le> g_room G \<Longrightarrow> gok J (maintain_property_index L J tid rid props OpAdd) G
     (\<lambda>_ G'. G' = with_entries (g_index G \<union> entries_for L tid rid (map_of props) (indexed_in (g_schema G) tid)) (3 * length (indexed_in (g_schema G) tid)) G)"
  "gok J (maintain_property_index L J tid rid props OpRemove) G
     (\<lambda>_ G'. G' = with_entries (g_index G - entries_for L tid rid (map_of props) (indexed_in (g_schema G) tid)) 0 G)"
proof -
  show "gok J (maintain_property_index L J tid rid props OpAdd) G
     (\<lambda>_ G'. G' = with_entries (g_index G \<union> entries_for L tid rid (map_of props) (indexed_in (g_schema G) tid)) (3 * length (indexed_in (g_schema G) tid)) G)"
    if room: "3 * length (indexed_in (g_schema G) tid) \<le> g_room G"
    unfolding maintain_property_index_def
  proof (rule gok_bnd [OF indexed_paths_gok])
    fix ps G1 assume "ps = indexed_in (g_schema G) tid \<and> G1 = G"
    then show "gok J (maintain_loop L tid rid props OpAdd ps) G1 (\<lambda>_ G'. G' = with_entries (g_index G \<union>
        entries_for L tid rid (map_of props) (indexed_in (g_schema G) tid)) (3 * length (indexed_in (g_schema G) tid)) G)"
      using maintain_add_gok [OF room] by blast
  qed
  show "gok J (maintain_property_index L J tid rid props OpRemove) G
     (\<lambda>_ G'. G' = with_entries (g_index G - entries_for L tid rid (map_of props) (indexed_in (g_schema G) tid)) 0 G)"
    unfolding maintain_property_index_def
  proof (rule gok_bnd [OF indexed_paths_gok])
    fix ps G1 assume "ps = indexed_in (g_schema G) tid \<and> G1 = G"
    then show "gok J (maintain_loop L tid rid props OpRemove ps) G1 (\<lambda>_ G'. G' = with_entries (g_index G -
        entries_for L tid rid (map_of props) (indexed_in (g_schema G) tid)) 0 G)"
      using maintain_remove_gok by blast
  qed
qed

end
