(* ===== verification/Database_Lookup.thy ===== *)
theory Database_Lookup
  imports Property_Graph
begin

text \<open>
  Reading the property graph: properties and labels of a node, the scan for nodes with a property, the
  lookup through the property index, which answers as the scan does, and the check of unique fields.
\<close>

lemmas gspec_rets = gspec_ret gspec_pair gok_ret

section \<open>How a change of one node changes the indexes\<close>

lemma entry_of_inj: "entry_of k r = entry_of k' r' \<longleftrightarrow> k = k' \<and> r = r'"
  by (cases k; cases k') (auto simp: entry_of_def)

lemma key_type [simp]: "type_id (index_key_new t p b) = t"
  by (simp add: index_key_new_def)

lemma entries_for_rid: "entry_of k r \<in> entries_for L tid rid m ps \<Longrightarrow> r = rid \<and> type_id k = tid"
  by (auto simp: entries_for_def entry_of_inj)

lemma node_entries_rid: "e \<in> node_entries L D rid v \<Longrightarrow> \<exists>k. e = entry_of k rid"
  by (auto simp: node_entries_def entries_for_def split: option.splits)

lemma node_entries_disjoint: "rid \<noteq> rid' \<Longrightarrow> node_entries L D rid v \<inter> node_entries L D rid' v' = {}"
proof -
  assume ne: "rid \<noteq> rid'"
  have "False" if "e \<in> node_entries L D rid v" "e \<in> node_entries L D rid' v'" for e
    using node_entries_rid [OF that(1)] node_entries_rid [OF that(2)] ne by (auto simp: entry_of_inj)
  then show ?thesis by blast
qed

lemma index_ok_change:
  assumes ok: "index_ok L D N X" and X': "X' = (X - node_entries L D rid (N rid)) \<union> node_entries L D rid v"
  shows "index_ok L D (N(rid := v)) X'"
proof -
  have X: "X = (\<Union>r. node_entries L D r (N r))" using ok by (simp add: index_ok_def)
  have "e \<in> X' \<longleftrightarrow> (\<exists>r. e \<in> node_entries L D r ((N(rid := v)) r))" for e
  proof
    assume "e \<in> X'"
    then consider "e \<in> node_entries L D rid v" | r where "e \<in> node_entries L D r (N r)" "e \<notin> node_entries L D rid (N rid)"
      unfolding X' X by blast
    then show "\<exists>r. e \<in> node_entries L D r ((N(rid := v)) r)"
    proof cases
      case 1
      then show ?thesis by (intro exI [of _ rid]) simp
    next
      case 2
      then have "r \<noteq> rid" by auto
      then show ?thesis using 2(1) by (intro exI [of _ r]) simp
    qed
  next
    assume "\<exists>r. e \<in> node_entries L D r ((N(rid := v)) r)"
    then obtain r where r: "e \<in> node_entries L D r ((N(rid := v)) r)" by blast
    show "e \<in> X'"
    proof (cases "r = rid")
      case True
      then show ?thesis using r by (simp add: X')
    next
      case False
      then have e: "e \<in> node_entries L D r (N r)" using r by simp
      then have "e \<notin> node_entries L D rid (N rid)" using node_entries_disjoint [OF False] by blast
      then show ?thesis using e unfolding X' X by blast
    qed
  qed
  then show ?thesis unfolding index_ok_def by blast
qed

definition types_at :: "'n vertex option \<Rightarrow> u16 set" where
  "types_at v = (case v of None \<Rightarrow> {} | Some v \<Rightarrow> set (all_types v))"

lemma typed_nodes_at: "typed_nodes N t = {rid. t \<in> types_at (N rid)}"
  by (auto simp: typed_nodes_def types_at_def split: option.splits)

lemma finite_rids: "finite (A :: record_id set)"
  using finite_subset [OF subset_UNIV record_id_card(1)] .

lemma labels_ok_change:
  assumes ok: "labels_ok N E"
    and E': "\<And>t. E' t = (if t \<in> types_at v - types_at (N rid) then add_mset rid (E t)
      else if t \<in> types_at (N rid) - types_at v then E t - {#rid#} else E t)"
  shows "labels_ok (N(rid := v)) E'"
  unfolding labels_ok_def
proof
  fix t
  have E: "E t = mset_set (typed_nodes N t)" using ok by (simp add: labels_ok_def)
  have new: "typed_nodes (N(rid := v)) t = (if t \<in> types_at v then insert rid (typed_nodes N t) else typed_nodes N t - {rid})"
    by (auto simp: typed_nodes_at)
  have old: "rid \<in> typed_nodes N t \<longleftrightarrow> t \<in> types_at (N rid)" by (simp add: typed_nodes_at)
  show "E' t = mset_set (typed_nodes (N(rid := v)) t)"
  proof (cases "t \<in> types_at v"; cases "t \<in> types_at (N rid)")
    assume a: "t \<in> types_at v" "t \<notin> types_at (N rid)"
    then show ?thesis using old by (simp add: E' E new finite_rids)
  next
    assume a: "t \<notin> types_at v" "t \<in> types_at (N rid)"
    then show ?thesis using old by (simp add: E' E new mset_set_Diff finite_rids)
  next
    assume a: "t \<in> types_at v" "t \<in> types_at (N rid)"
    then show ?thesis using old by (simp add: E' E new insert_absorb)
  next
    assume a: "t \<notin> types_at v" "t \<notin> types_at (N rid)"
    then show ?thesis using old by (simp add: E' E new)
  qed
qed

section \<open>Scanning\<close>

text \<open>The nodes of a type whose value equals the one looked for, in the sense of \<open>==\<close>: what a scan finds.\<close>

definition hits :: "'n lib \<Rightarrow> 'n pgraph \<Rightarrow> u16 \<Rightarrow> property_path \<Rightarrow> 'n json \<Rightarrow> record_id \<Rightarrow> bool" where
  "hits L A tid pth x rid \<longleftrightarrow> (\<exists>v. pg_nodes A rid = Some v \<and> v_type v = tid \<and> some_eq L (pmap_at pth (v_props v)) x)"

definition holds_at :: "'n lib \<Rightarrow> 'n pgraph \<Rightarrow> property_path \<Rightarrow> 'n json \<Rightarrow> record_id \<Rightarrow> bool" where
  "holds_at L A pth x rid \<longleftrightarrow> (\<exists>v. pg_nodes A rid = Some v \<and> some_eq L (pmap_at pth (v_props v)) x)"

lemma pmap_at_empty [simp]: "pmap_at p Map.empty = None"
  by (cases "(p, Map.empty :: string \<Rightarrow> 'n json option)" rule: pmap_at.cases) simp_all

lemma node_atD:
  assumes "node_at L G rid v"
  obtains n where "g_nodes G rid = Some n" "node_type_id n = v_type v"
  using assms unfolding node_at_def by blast

lemma scan_matches_gok:
  assumes rep: "pg_rep L D G A" and v: "pg_nodes A rid = Some v"
  shows "gok J (scan_matches L tid pth x rid) G (\<lambda>hit G'. hit = hits L A tid pth x rid \<and> G' = G)"
proof -
  note R = pg_repD [OF rep]
  have at: "node_at L G rid v" using R(4) v .
  obtain n where n: "g_nodes G rid = Some n" "node_type_id n = v_type v" using at by (rule node_atD)
  have dec: "props_dec L (att G (NodeProps rid)) (v_props v)" using at unfolding node_at_def by blast
  show ?thesis
    unfolding scan_matches_def
  proof (rule gok_bnd [OF read_node_gok [OF n(1)]], elim conjE, hypsubst)
    show "gok J (if node_type_id n \<noteq> tid then ret False else case n_property_ref n of None \<Rightarrow> ret False
        | Some pref \<Rightarrow> bnd (store_read L pref) (\<lambda>props. ret (props_match L props pth x))) G
        (\<lambda>hit G'. hit = hits L A tid pth x rid \<and> G' = G)"
    proof (cases "v_type v = tid")
      case False
      then show ?thesis using n v by (auto simp: hits_def intro!: gspec_rets)
    next
      case True
      show ?thesis
      proof (cases "n_property_ref n")
        case None
        then have "att G (NodeProps rid) = None" by (simp add: held_def n)
        then have "v_props v = Map.empty" using dec by (simp add: props_dec_def)
        then show ?thesis using None True n v by (auto simp: hits_def intro!: gspec_rets)
      next
        case (Some p)
        then have r: "ref_of G (NodeProps rid) = Some p" by (simp add: n)
        have read: "gok J (store_read L p) G (\<lambda>ps G'. map_of ps = v_props v \<and> G' = G)"
          unfolding store_read_def
          by (rule gok_bnd [OF get_value_gok [OF R(2) r]]) (use dec in \<open>auto simp: props_dec_def intro!: gspec_lift\<close>)
        show ?thesis
          unfolding Some option.case n(2) True using v True
          by (auto simp: hits_def props_match_def resolve_map split: option.splits intro!: gok_bnd [OF read] gspec_rets)
      qed
    qed
  qed
qed

lemma find_all_loop_gok:
  assumes rep: "pg_rep L D G A" and dom: "set rids \<subseteq> dom (pg_nodes A)"
  shows "gok J (find_all_loop L tid pth x rids) G (\<lambda>rs G'. rs = filter (hits L A tid pth x) rids \<and> G' = G)"
  using dom
proof (induction rids)
  case Nil
  then show ?case by (auto intro!: gspec_rets)
next
  case (Cons rid rids)
  then obtain v where v: "pg_nodes A rid = Some v" by auto
  have ih: "gok J (find_all_loop L tid pth x rids) G (\<lambda>rs G'. rs = filter (hits L A tid pth x) rids \<and> G' = G)" using Cons by simp
  show ?case
    unfolding find_all_loop.simps
    by (rule gok_bnd [OF scan_matches_gok [OF rep v]], elim conjE, hypsubst, rule gok_bnd [OF ih]) (auto intro!: gspec_rets)
qed

lemma pg_rep_dom: "pg_rep L D G A \<Longrightarrow> dom (g_nodes G) = dom (pg_nodes A) \<and> dom (g_edges G) = dom (pg_edges A)"
  using pg_repD(5,7) [of L D G A] by (auto simp: dom_def)

lemma find_all_gok:
  assumes rep: "pg_rep L D G A"
  shows "gok J (find_all L tid pth x) G (\<lambda>rs G'. distinct rs \<and> set rs = {rid. hits L A tid pth x rid} \<and> G' = G)"
  unfolding find_all_def
proof (rule gok_bnd [OF live_nodes_gok], elim conjE, hypsubst)
  fix rids assume rids: "distinct rids" "set rids = dom (g_nodes G)"
  then have dom: "set rids \<subseteq> dom (pg_nodes A)" using pg_rep_dom [OF rep] by simp
  have "hits L A tid pth x rid \<Longrightarrow> rid \<in> set rids" for rid using rids(2) pg_rep_dom [OF rep] by (auto simp: hits_def)
  then show "gok J (find_all_loop L tid pth x rids) G (\<lambda>rs G'. distinct rs \<and> set rs = {rid. hits L A tid pth x rid} \<and> G' = G)"
    using rids(1) by (auto intro!: gok_conseq [OF find_all_loop_gok [OF rep dom]])
qed

section \<open>Looking up through the index\<close>

lemma confirm_gok:
  assumes rep: "pg_rep L D G A" and dom: "set rids \<subseteq> dom (pg_nodes A)"
  shows "gok J (confirm_candidates L pth x rids) G (\<lambda>rs G'. rs = filter (holds_at L A pth x) rids \<and> G' = G)"
  using dom
proof (induction rids)
  case Nil
  then show ?case by (auto intro!: gspec_rets)
next
  case (Cons rid rids)
  then obtain v where v: "pg_nodes A rid = Some v" by auto
  have ih: "gok J (confirm_candidates L pth x rids) G (\<lambda>rs G'. rs = filter (holds_at L A pth x) rids \<and> G' = G)" using Cons by simp
  note get = get_props_gok [OF pg_repD(2) [OF rep] pg_repD(4) [OF rep v]]
  have here: "holds_at L A pth x rid \<longleftrightarrow> some_eq L (pmap_at pth (v_props v)) x" by (simp add: holds_at_def v)
  show ?case
    unfolding confirm_candidates.simps
    by (rule gok_bnd [OF get], elim conjE, hypsubst, rule gok_bnd [OF ih])
      (auto simp: resolve_map here intro!: gspec_rets)
qed

lemma is_path_indexed_gok:
  "gok J (is_path_indexed J tid pth) G (\<lambda>b G'. b = (pth \<in> fst ` set (indexed_in (g_schema G) tid)) \<and> G' = G)"
  unfolding is_path_indexed_def by (rule gok_bnd [OF indexed_paths_gok]) (auto intro!: gspec_rets)

text \<open>
  What a lookup finds. Through the index a node must also have an entry under the key of the value
  looked for, which a node with the same value has, and a node with an equal value that is encoded
  differently only if the hashes collide.
\<close>

definition finds :: "'n lib \<Rightarrow> schema_dto option \<Rightarrow> 'n pgraph \<Rightarrow> u16 \<Rightarrow> property_path \<Rightarrow> 'n json \<Rightarrow> record_id \<Rightarrow> bool" where
  "finds L D A tid pth x rid \<longleftrightarrow> hits L A tid pth x rid \<and>
     (pth \<in> fst ` set (indexed_in D tid) \<longrightarrow>
       (\<exists>b. encode_value L x = Ok b \<and>
         entry_of (index_key_new tid (as_bytes (display_name pth)) b) rid \<in> node_entries L D rid (pg_nodes A rid)))"

text \<open>Values that only values with the same bytes are equal to: all but the two floating-point zeros.\<close>

definition plain :: "'n lib \<Rightarrow> 'n json \<Rightarrow> bool" where
  "plain L x \<longleftrightarrow> (\<forall>y. json_eq L y x \<longrightarrow> encode_value L y = encode_value L x)"

lemma json_eq_indexable: "json_eq L y x \<Longrightarrow> is_indexable_value y = is_indexable_value x"
  by (cases x; cases y) (auto simp: is_indexable_value_def json_eq_def)

lemma finds_own:
  assumes "pg_nodes A rid = Some v" "v_type v = tid" "pmap_at pth (v_props v) = Some y" "json_eq L y x"
    "is_indexable_value x" "encode_value L y = encode_value L x"
  shows "finds L D A tid pth x rid"
proof -
  obtain b where b: "encode_value L x = Ok b" using encode_scalar [OF assms(5)] by blast
  have "entry_of (index_key_new tid (as_bytes (display_name pth)) b) rid \<in> node_entries L D rid (pg_nodes A rid)"
    if "pth \<in> fst ` set (indexed_in D tid)"
    using that assms b json_eq_indexable [OF assms(4)] unfolding node_entries_def entries_for_def by auto
  then show ?thesis using assms b by (auto simp: finds_def hits_def)
qed

lemma finds_plain:
  assumes "plain L x" "is_indexable_value x"
  shows "finds L D A tid pth x rid = hits L A tid pth x rid"
proof
  assume "hits L A tid pth x rid"
  then obtain v y where v: "pg_nodes A rid = Some v" "v_type v = tid" "pmap_at pth (v_props v) = Some y" "json_eq L y x"
    by (auto simp: hits_def some_eq_def split: option.splits)
  have "encode_value L y = encode_value L x" using assms(1) v(4) unfolding plain_def by blast
  then show "finds L D A tid pth x rid" by (rule finds_own [OF v assms(2)])
qed (simp add: finds_def)

lemma candidates_hit:
  assumes rep: "pg_rep L D G A" and idx: "pth \<in> fst ` set (indexed_in D tid)" and x: "encode_value L x = Ok b"
    and rids: "set rids = {r. entry_of (index_key_new tid (as_bytes (display_name pth)) b) r \<in> g_index G}"
  shows "set rids \<subseteq> dom (pg_nodes A)" "{rid \<in> set rids. holds_at L A pth x rid} = {rid. finds L D A tid pth x rid}"
proof -
  let ?k = "index_key_new tid (as_bytes (display_name pth)) b"
  have X: "g_index G = (\<Union>rid. node_entries L D rid (pg_nodes A rid))" using pg_repD(10) [OF rep] by (simp add: index_ok_def)
  have own: "r \<in> set rids \<longleftrightarrow> entry_of ?k r \<in> node_entries L D r (pg_nodes A r)" for r
  proof
    assume "r \<in> set rids"
    then obtain rid where rid: "entry_of ?k r \<in> node_entries L D rid (pg_nodes A rid)" unfolding rids X by blast
    moreover have "rid = r" using node_entries_rid [OF rid] by (auto simp: entry_of_inj)
    ultimately show "entry_of ?k r \<in> node_entries L D r (pg_nodes A r)" by simp
  next
    assume "entry_of ?k r \<in> node_entries L D r (pg_nodes A r)"
    then show "r \<in> set rids" unfolding rids X by blast
  qed
  have in_node: "\<exists>v. pg_nodes A r = Some v \<and> v_type v = tid" if "r \<in> set rids" for r
  proof -
    have e: "entry_of ?k r \<in> node_entries L D r (pg_nodes A r)" using that own by blast
    show ?thesis
    proof (cases "pg_nodes A r")
      case None
      then show ?thesis using e by (simp add: node_entries_def)
    next
      case (Some v)
      then have "entry_of ?k r \<in> entries_for L (v_type v) r (v_props v) (indexed_in D (v_type v))" using e by (simp add: node_entries_def)
      from entries_for_rid [OF this] Some show ?thesis by simp
    qed
  qed
  then show "set rids \<subseteq> dom (pg_nodes A)" by blast
  show "{rid \<in> set rids. holds_at L A pth x rid} = {rid. finds L D A tid pth x rid}"
  proof (rule Collect_cong)
    fix r
    have "holds_at L A pth x r \<longleftrightarrow> hits L A tid pth x r" if "r \<in> set rids"
      using in_node [OF that] by (auto simp: holds_at_def hits_def)
    then show "r \<in> set rids \<and> holds_at L A pth x r \<longleftrightarrow> finds L D A tid pth x r" using idx x own [of r] by (auto simp: finds_def)
  qed
qed

lemma find_all_nodes_gok:
  assumes rep: "pg_rep L D G A" and x: "is_indexable_value x"
  shows "gok J (find_all_nodes L J tid pth x) G (\<lambda>rs G'. distinct rs \<and> set rs = {rid. finds L D A tid pth x rid} \<and> G' = G)"
  unfolding find_all_nodes_def
proof (rule gok_bnd [OF is_path_indexed_gok], elim conjE, hypsubst)
  note D = pg_repD(1) [OF rep]
  obtain b where b: "encode_value L x = Ok b" using encode_scalar [OF x] by blast
  let ?key = "index_key_new tid (as_bytes (display_name pth)) b"
  show "gok J (if pth \<notin> fst ` set (indexed_in (g_schema G) tid) then find_all L tid pth x
      else bnd (lift_res (encode_value L x)) (\<lambda>value_bytes.
        bnd (candidates (index_key_new tid (as_bytes (display_name pth)) value_bytes)) (\<lambda>rids. confirm_candidates L pth x rids))) G
      (\<lambda>rs G'. distinct rs \<and> set rs = {rid. finds L D A tid pth x rid} \<and> G' = G)"
  proof (cases "pth \<in> fst ` set (indexed_in D tid)")
    case False
    then show ?thesis using find_all_gok [OF rep] by (simp add: D finds_def)
  next
    case True
    have "gok J (bnd (candidates ?key) (\<lambda>rids. confirm_candidates L pth x rids)) G
        (\<lambda>rs G'. distinct rs \<and> set rs = {rid. finds L D A tid pth x rid} \<and> G' = G)"
    proof (rule gok_bnd [OF candidates_gok], elim conjE, hypsubst)
      fix rids assume rids: "distinct rids" "set rids = {r. entry_of ?key r \<in> g_index G}"
      note c = candidates_hit [OF rep True b rids(2)]
      have "set (filter (holds_at L A pth x) rids) = {rid. finds L D A tid pth x rid}" using c(2) by simp
      then show "gok J (confirm_candidates L pth x rids) G (\<lambda>rs G'. distinct rs \<and> set rs = {rid. finds L D A tid pth x rid} \<and> G' = G)"
        using rids(1) by (auto intro!: gok_conseq [OF confirm_gok [OF rep c(1)]])
    qed
    then show ?thesis using True by (simp add: D b fun_eq_iff bnd_def lift_res_def)
  qed
qed

section \<open>Unique fields\<close>

text \<open>The first unique field whose value another node of the type already has.\<close>

definition taken :: "'n lib \<Rightarrow> schema_dto option \<Rightarrow> 'n pgraph \<Rightarrow> u16 \<Rightarrow> record_id option \<Rightarrow> property_path \<Rightarrow> 'n json \<Rightarrow> bool" where
  "taken L D A tid exclude pth x \<longleftrightarrow> (\<exists>rid. finds L D A tid pth x rid \<and> Some rid \<noteq> exclude)"

fun unique_in :: "'n lib \<Rightarrow> schema_dto option \<Rightarrow> 'n pgraph \<Rightarrow> u16 \<Rightarrow> 'n pmap \<Rightarrow> record_id option \<Rightarrow> property_path list \<Rightarrow> unit res" where
  "unique_in L D A tid m exclude [] = Ok ()"
| "unique_in L D A tid m exclude (pth # ps) =
     (case pmap_at pth m of
        None \<Rightarrow> unique_in L D A tid m exclude ps
      | Some x \<Rightarrow>
          if is_indexable_value x \<and> taken L D A tid exclude pth x then Err (UniqueViolation (display_name pth) (value_to_string L x))
          else unique_in L D A tid m exclude ps)"

definition unique_paths :: "schema_dto option \<Rightarrow> u16 \<Rightarrow> property_path list" where
  "unique_paths D tid = map fst (filter snd (indexed_in D tid))"

lemma check_unique_loop_gspec:
  assumes rep: "pg_rep L D G A"
  shows "gspec J (check_unique_loop L J tid props exclude ps) G (\<lambda>r G'. r = unique_in L D A tid (map_of props) exclude ps \<and> G' = G)"
proof (induction ps)
  case Nil
  then show ?case by (auto intro!: gspec_rets)
next
  case (Cons pth ps)
  show ?case
  proof (cases "\<exists>x. pmap_at pth (map_of props) = Some x \<and> is_indexable_value x")
    case False
    have "check_unique_loop L J tid props exclude (pth # ps) = check_unique_loop L J tid props exclude ps"
      using False by (auto simp: resolve_map split: option.split)
    moreover have "unique_in L D A tid (map_of props) exclude (pth # ps) = unique_in L D A tid (map_of props) exclude ps"
      using False by (auto split: option.split)
    ultimately show ?thesis using Cons.IH by simp
  next
    case True
    then obtain x where x: "pmap_at pth (map_of props) = Some x" "is_indexable_value x" by blast
    have step: "check_unique_loop L J tid props exclude (pth # ps) =
        bnd (find_all_nodes L J tid pth x) (\<lambda>existing. if \<exists>rid\<in>set existing. Some rid \<noteq> exclude
          then err (UniqueViolation (display_name pth) (value_to_string L x)) else check_unique_loop L J tid props exclude ps)"
      using x by (simp add: resolve_map)
    show ?thesis
      unfolding step
    proof (rule gok_bnd [OF find_all_nodes_gok [OF rep x(2)]], elim conjE, hypsubst)
      fix existing assume e: "set existing = {rid. finds L D A tid pth x rid}"
      have t: "(\<exists>rid\<in>set existing. Some rid \<noteq> exclude) \<longleftrightarrow> taken L D A tid exclude pth x" unfolding e taken_def by blast
      show "gspec J (if \<exists>rid\<in>set existing. Some rid \<noteq> exclude then err (UniqueViolation (display_name pth) (value_to_string L x))
          else check_unique_loop L J tid props exclude ps) G
          (\<lambda>r G'. r = unique_in L D A tid (map_of props) exclude (pth # ps) \<and> G' = G)"
        unfolding t using x Cons.IH by (auto intro!: gspec_fail)
    qed
  qed
qed

lemma check_unique_gspec:
  assumes rep: "pg_rep L D G A"
  shows "gspec J (check_unique L J tid props exclude) G (\<lambda>r G'. r = unique_in L D A tid (map_of props) exclude (unique_paths D tid) \<and> G' = G)"
  unfolding check_unique_def
  by (rule gok_bnd [OF indexed_paths_gok], elim conjE, hypsubst)
    (simp add: unique_paths_def pg_repD(1) [OF rep] check_unique_loop_gspec [OF rep])

lemma unique_in_cases: "unique_in L D A tid m exclude ps = Ok () \<or> (\<exists>p s. unique_in L D A tid m exclude ps = Err (UniqueViolation p s))"
  by (induction ps) (auto split: option.split)

lemma unique_in_ok: "unique_in L D A tid m exclude ps = Ok () \<longleftrightarrow>
    (\<forall>p\<in>set ps. \<forall>x. pmap_at p m = Some x \<longrightarrow> is_indexable_value x \<longrightarrow> \<not> taken L D A tid exclude p x)"
  by (induction ps) (auto split: option.split)

end
