(* ===== verification/Database_Updates.thy ===== *)
theory Database_Updates
  imports Database_Lookup
begin

text \<open>
  The operations of \<^verbatim>\<open>db.rs\<close> that change the graph: each makes the change its name says to
  the property graph, keeps every stored value with its owner and both indexes in step with the
  nodes, or refuses and changes nothing.
\<close>

section \<open>Changing one record\<close>

definition set_vertex :: "record_id \<Rightarrow> 'n vertex option \<Rightarrow> 'n pgraph \<Rightarrow> 'n pgraph" where
  "set_vertex rid v A = A\<lparr>pg_nodes := (pg_nodes A)(rid := v)\<rparr>"

definition set_arc :: "record_id \<Rightarrow> 'n arc option \<Rightarrow> 'n pgraph \<Rightarrow> 'n pgraph" where
  "set_arc rid a A = A\<lparr>pg_edges := (pg_edges A)(rid := a)\<rparr>"

lemma set_record_simps [simp]:
  "pg_nodes (set_vertex rid v A) = (pg_nodes A)(rid := v)" "pg_edges (set_vertex rid v A) = pg_edges A" "pg_adj (set_vertex rid v A) = pg_adj A"
  "pg_nodes (set_arc rid a A) = pg_nodes A" "pg_edges (set_arc rid a A) = (pg_edges A)(rid := a)" "pg_adj (set_arc rid a A) = pg_adj A"
  by (simp_all add: set_vertex_def set_arc_def)

text \<open>A node record changes, or comes: its values, its labels and its index entries with it.\<close>

lemma pg_rep_vertex:
  assumes rep: "pg_rep L D G A"
    and same: "g_schema G' = g_schema G" "g_lists G' = g_lists G" "gedge G' = gedge G" "\<And>r. r \<noteq> rid \<Longrightarrow> gnode G' r = gnode G r"
    and own: "owned (ref_of G') (g_vals G')"
    and att: "\<And>h. h \<noteq> NodeProps rid \<Longrightarrow> h \<noteq> NodeLabels rid \<Longrightarrow> att G' h = att G h"
    and at: "node_at L G' rid v"
    and lab: "\<And>t. g_labels G' t = (if t \<in> types_at (Some v) - types_at (pg_nodes A rid) then add_mset rid (g_labels G t)
      else if t \<in> types_at (pg_nodes A rid) - types_at (Some v) then g_labels G t - {#rid#} else g_labels G t)"
    and idx: "g_index G' = (g_index G - node_entries L D rid (pg_nodes A rid)) \<union> node_entries L D rid (Some v)"
  shows "pg_rep L D G' (set_vertex rid (Some v) A)"
proof (rule pg_repI)
  note R = pg_repD [OF rep]
  have gn: "gnode G r = None \<longleftrightarrow> g_nodes G r = None" for G r by (simp add: gnode_def)
  have ge: "gedge G r = None \<longleftrightarrow> g_edges G r = None" for G r by (simp add: gedge_def)
  show "g_schema G' = D" "g_lists G' = pg_adj (set_vertex rid (Some v) A)" "owned (ref_of G') (g_vals G')"
    using R(1,3) same(1,2) own by simp_all
  show "node_at L G' r u" if "pg_nodes (set_vertex rid (Some v) A) r = Some u" for r u
  proof (cases "r = rid")
    case True
    then show ?thesis using at that by simp
  next
    case False
    then have "node_at L G r u" using R(4) that by simp
    then show ?thesis by (rule node_at_cong) (simp_all add: same(4) att False)
  qed
  show "g_nodes G' r = None" if "pg_nodes (set_vertex rid (Some v) A) r = None" for r
  proof -
    have "r \<noteq> rid" "pg_nodes A r = None" using that by (auto split: if_splits)
    then show ?thesis using R(5) [of r] same(4) [of r] gn by metis
  qed
  show "edge_at L G' r a" if "pg_edges (set_vertex rid (Some v) A) r = Some a" for r a
  proof -
    have "edge_at L G r a" using R(6) that by simp
    then show ?thesis by (rule edge_at_cong) (simp_all add: same(3) att)
  qed
  show "g_edges G' r = None" if "pg_edges (set_vertex rid (Some v) A) r = None" for r
    using R(7) [of r] that same(3) ge [of G r] ge [of G' r] by simp
  show "arcs_ok (set_vertex rid (Some v) A)" using R(8) by (auto simp: arcs_ok_def)
  show "labels_ok (pg_nodes (set_vertex rid (Some v) A)) (g_labels G')"
    unfolding set_record_simps by (rule labels_ok_change [OF R(9) lab])
  show "index_ok L D (pg_nodes (set_vertex rid (Some v) A)) (g_index G')"
    unfolding set_record_simps by (rule index_ok_change [OF R(10) idx])
qed

lemma pg_rep_arc:
  assumes rep: "pg_rep L D G A"
    and same: "g_schema G' = g_schema G" "g_lists G' = pg_adj A'" "gnode G' = gnode G" "\<And>r. r \<noteq> rid \<Longrightarrow> gedge G' r = gedge G r"
      "g_labels G' = g_labels G" "g_index G' = g_index G"
    and A': "pg_nodes A' = pg_nodes A" "pg_edges A' = (pg_edges A)(rid := oa)" "arcs_ok A'"
    and own: "owned (ref_of G') (g_vals G')"
    and att: "\<And>h. h \<noteq> EdgeProps rid \<Longrightarrow> h \<noteq> EdgeLabels rid \<Longrightarrow> att G' h = att G h"
    and at: "\<And>a. oa = Some a \<Longrightarrow> edge_at L G' rid a" "oa = None \<Longrightarrow> g_edges G' rid = None"
  shows "pg_rep L D G' A'"
proof (rule pg_repI)
  note R = pg_repD [OF rep]
  have gn: "gnode G r = None \<longleftrightarrow> g_nodes G r = None" for G r by (simp add: gnode_def)
  have ge: "gedge G r = None \<longleftrightarrow> g_edges G r = None" for G r by (simp add: gedge_def)
  show "g_schema G' = D" "g_lists G' = pg_adj A'" "owned (ref_of G') (g_vals G')" "arcs_ok A'"
    using R(1) same(1,2) own A'(3) by simp_all
  show "node_at L G' r u" if "pg_nodes A' r = Some u" for r u
  proof -
    have "node_at L G r u" using R(4) that A'(1) by simp
    then show ?thesis by (rule node_at_cong) (simp_all add: same(3) att)
  qed
  show "g_nodes G' r = None" if "pg_nodes A' r = None" for r
    using R(5) [of r] that A'(1) same(3) gn [of G r] gn [of G' r] by simp
  show "edge_at L G' r a" if "pg_edges A' r = Some a" for r a
  proof (cases "r = rid")
    case True
    then show ?thesis using at(1) that A'(2) by simp
  next
    case False
    then have "edge_at L G r a" using R(6) that A'(2) by simp
    then show ?thesis by (rule edge_at_cong) (simp_all add: same(4) att False)
  qed
  show "g_edges G' r = None" if "pg_edges A' r = None" for r
  proof (cases "r = rid")
    case True
    then show ?thesis using at(2) that A'(2) by simp
  next
    case False
    then show ?thesis using R(7) [of r] that A'(2) same(4) [of r] ge [of G r] ge [of G' r] by simp
  qed
  show "labels_ok (pg_nodes A') (g_labels G')" "index_ok L D (pg_nodes A') (g_index G')"
    using R(9,10) by (simp_all add: A'(1) same(5,6))
qed

text \<open>The value at a holder is replaced: a new value is stored, the record is written, the old value freed.\<close>

lemma replace_held:
  assumes own: "owned (ref_of G) (g_vals G)" and ref: "ref_of G' = (ref_of G)(h := r)"
    and vals: "g_vals G' = dropped (ref_of G h) (stored_at r w (g_vals G))" and fresh: "fresh_ref r w (g_vals G)"
  shows "owned (ref_of G') (g_vals G')" "att G' = (att G)(h := w)"
  using owned_replace [OF own fresh, of h] ref vals by simp_all

lemma ref_of_node:
  "g_edges G' = g_edges G \<Longrightarrow> g_nodes G rid = Some n \<Longrightarrow> g_nodes G' = (g_nodes G)(rid \<mapsto> n\<lparr>n_property_ref := r\<rparr>) \<Longrightarrow>
    ref_of G' = (ref_of G)(NodeProps rid := r)"
  "g_edges G' = g_edges G \<Longrightarrow> g_nodes G rid = Some n \<Longrightarrow> g_nodes G' = (g_nodes G)(rid \<mapsto> n\<lparr>n_label_ref := r\<rparr>) \<Longrightarrow>
    ref_of G' = (ref_of G)(NodeLabels rid := r)"
  by (rule ext, case_tac x; auto)+

lemma ref_of_edge:
  "g_nodes G' = g_nodes G \<Longrightarrow> g_edges G rid = Some e \<Longrightarrow> g_edges G' = (g_edges G)(rid \<mapsto> e\<lparr>e_property_ref := r\<rparr>) \<Longrightarrow>
    ref_of G' = (ref_of G)(EdgeProps rid := r)"
  "g_nodes G' = g_nodes G \<Longrightarrow> g_edges G rid = Some e \<Longrightarrow> g_edges G' = (g_edges G)(rid \<mapsto> e\<lparr>e_label_ref := r\<rparr>) \<Longrightarrow>
    ref_of G' = (ref_of G)(EdgeLabels rid := r)"
  by (rule ext, case_tac x; auto)+

lemma ref_of_new:
  "g_nodes G rid = None \<Longrightarrow> g_edges G' = g_edges G \<Longrightarrow> g_nodes G' = (g_nodes G)(rid \<mapsto> (new_node rid t)\<lparr>n_property_ref := r\<rparr>) \<Longrightarrow>
    ref_of G' = (ref_of G)(NodeProps rid := r)"
  "g_edges G rid = None \<Longrightarrow> g_nodes G' = g_nodes G \<Longrightarrow> g_edges G' = (g_edges G)(rid \<mapsto> (new_edge rid t a b)\<lparr>e_property_ref := r\<rparr>) \<Longrightarrow>
    ref_of G' = (ref_of G)(EdgeProps rid := r)"
  by (rule ext, case_tac x; auto simp: new_node_def new_edge_def)+

section \<open>Inserting a node\<close>

definition node_cost :: "schema_dto option \<Rightarrow> u16 \<Rightarrow> nat" where
  "node_cost D tid = 7 + 3 * length (indexed_in D tid)"

definition insert_node_spec :: "'n lib \<Rightarrow> schema_dto option \<Rightarrow> 'n pgraph \<Rightarrow> u16 \<Rightarrow> 'n props \<Rightarrow> record_id res \<Rightarrow> 'n pgraph \<Rightarrow> bool" where
  "insert_node_spec L D A tid ps r A' \<longleftrightarrow>
     (case unique_in L D A tid (map_of ps) None (unique_paths D tid) of
        Inl e \<Rightarrow> r = Inl e \<and> A' = A
      | Inr _ \<Rightarrow> \<exists>rid. r = Ok rid \<and> pg_nodes A rid = None \<and>
          A' = set_vertex rid (Some \<lparr>v_type = tid, v_labels = [], v_props = map_of ps\<rparr>) A)"

lemma set_node_ref_gok:
  assumes n: "g_nodes G rid = Some n" "n_id n = rid" "n_property_ref n = None"
  shows "gok J (case r of None \<Rightarrow> ret () | Some pref \<Rightarrow> bnd (read_node rid) (\<lambda>node. write_node (node\<lparr>n_property_ref := Some pref\<rparr>))) G
    (\<lambda>_ G'. G' = G\<lparr>g_nodes := (g_nodes G)(rid \<mapsto> n\<lparr>n_property_ref := r\<rparr>)\<rparr>)"
proof (cases r)
  case None
  have "n\<lparr>n_property_ref := None\<rparr> = n" using n(3) by (cases n) simp
  then have "(g_nodes G)(rid \<mapsto> n\<lparr>n_property_ref := None\<rparr>) = g_nodes G" using n(1) by (simp add: fun_upd_idem)
  then show ?thesis unfolding None by (simp only: option.case) (rule gok_ret, simp)
next
  case (Some p)
  let ?n = "n\<lparr>n_property_ref := Some p\<rparr>"
  have w: "gok J (write_node ?n) G (\<lambda>_ G'. G' = G\<lparr>g_nodes := (g_nodes G)(n_id ?n \<mapsto> ?n)\<rparr>)"
    by (rule write_node_gok [where n = n]) (use n in \<open>simp_all add: first_edge_def split: edge_direction.split\<close>)
  show ?thesis
    unfolding Some option.case
    by (rule gok_bnd [OF read_node_gok [OF n(1)]], elim conjE, hypsubst) (use w n(2) in simp)
qed

lemma inserted_rep:
  assumes rep: "pg_rep L D G A" and new: "g_nodes G rid = None" and w: "props_dec L w (map_of ps)" "fresh_ref r w (g_vals G)"
    and G': "g_schema G' = g_schema G" "g_lists G' = g_lists G" "g_edges G' = g_edges G"
      "g_nodes G' = (g_nodes G)(rid \<mapsto> (new_node rid tid)\<lparr>n_property_ref := r\<rparr>)" "g_vals G' = stored_at r w (g_vals G)"
      "g_labels G' = (g_labels G)(tid := add_mset rid (g_labels G tid))"
      "g_index G' = g_index G \<union> entries_for L tid rid (map_of ps) (indexed_in D tid)"
  shows "pg_nodes A rid = None" "pg_rep L D G' (set_vertex rid (Some \<lparr>v_type = tid, v_labels = [], v_props = map_of ps\<rparr>) A)"
proof -
  note R = pg_repD [OF rep]
  let ?v = "\<lparr>v_type = tid, v_labels = [], v_props = map_of ps\<rparr>"
  show none: "pg_nodes A rid = None" using R(5) new by simp
  have ref: "ref_of G' = (ref_of G)(NodeProps rid := r)" by (rule ref_of_new(1) [OF new G'(3,4)])
  have vals: "g_vals G' = dropped (ref_of G (NodeProps rid)) (stored_at r w (g_vals G))" using new G'(5) by (simp add: dropped_def)
  note h = replace_held [OF R(2) ref vals w(2)]
  have "ref_of G' (NodeLabels rid) = None" by (simp add: G'(4) new_node_def)
  then have lbl: "att G' (NodeLabels rid) = None" by (simp add: held_def)
  have at: "node_at L G' rid ?v"
    unfolding node_at_def using G'(4) lbl w(1) h(2) by (simp add: new_node_def labels_dec_def all_types_def)
  show "pg_rep L D G' (set_vertex rid (Some ?v) A)"
  proof (rule pg_rep_vertex [OF rep G'(1,2) _ _ h(1) _ at])
    show "gedge G' = gedge G" using G'(3) by (simp add: gedge_def fun_eq_iff)
    show "gnode G' s = gnode G s" if "s \<noteq> rid" for s using that G'(4) by (simp add: gnode_def)
    show "att G' k = att G k" if "k \<noteq> NodeProps rid" for k using h(2) that by simp
    show "g_labels G' t = (if t \<in> types_at (Some ?v) - types_at (pg_nodes A rid) then add_mset rid (g_labels G t)
      else if t \<in> types_at (pg_nodes A rid) - types_at (Some ?v) then g_labels G t - {#rid#} else g_labels G t)" for t
      by (simp add: G'(6) none types_at_def all_types_def)
    show "g_index G' = (g_index G - node_entries L D rid (pg_nodes A rid)) \<union> node_entries L D rid (Some ?v)"
      by (simp add: G'(7) none node_entries_def)
  qed
qed

lemma insert_node_gspec:
  assumes rep: "pg_rep L D G A" and ps: "props_legal L ps" and room: "node_cost D tid \<le> g_room G"
  shows "gspec J (insert_node L J tid ps) G (\<lambda>r G'. \<exists>A'. pg_rep L D G' A' \<and> insert_node_spec L D A tid ps r A' \<and>
    g_room G - node_cost D tid \<le> g_room G')"
  unfolding insert_node_def
proof (rule gspec_bnd_eq [OF check_unique_gspec [OF rep]])
  fix a assume "unique_in L D A tid (map_of ps) None (unique_paths D tid) = Inl a"
  then show "\<exists>A'. pg_rep L D G A' \<and> insert_node_spec L D A tid ps (Inl a) A' \<and> g_room G - node_cost D tid \<le> g_room G"
    using rep by (intro exI [of _ A]) (simp add: insert_node_spec_def)
next
  fix x :: unit
  assume uq: "unique_in L D A tid (map_of ps) None (unique_paths D tid) = Ok x"
  let ?k = "3 * length (indexed_in D tid)"
  let ?Q = "\<lambda>r G'. \<exists>A'. pg_rep L D G' A' \<and> insert_node_spec L D A tid ps r A' \<and> g_room G - node_cost D tid \<le> g_room G'"
  have r2: "2 \<le> g_room G" using room by (simp add: node_cost_def)
  show "gspec J (bnd (write_props L ps) (\<lambda>prop_ref. bnd (alloc_node tid) (\<lambda>rid.
     bnd (case prop_ref of None \<Rightarrow> ret () | Some pref \<Rightarrow> bnd (read_node rid) (\<lambda>node. write_node (node\<lparr>n_property_ref := Some pref\<rparr>))) (\<lambda>_.
     bnd (li_add_new tid rid) (\<lambda>_. bnd (maintain_property_index L J tid rid ps OpAdd) (\<lambda>_. ret rid)))))) G ?Q"
  proof (rule gok_bnd [OF write_props_gok [OF ps r2]], elim exE conjE, hypsubst)
    fix r w assume w: "props_dec L w (map_of ps)" "fresh_ref r w (g_vals G)"
    let ?G1 = "put_value r w G"
    have r3: "2 \<le> g_room ?G1" using room by (simp add: node_cost_def)
    show "gspec J (bnd (alloc_node tid) (\<lambda>rid.
       bnd (case r of None \<Rightarrow> ret () | Some pref \<Rightarrow> bnd (read_node rid) (\<lambda>node. write_node (node\<lparr>n_property_ref := Some pref\<rparr>))) (\<lambda>_.
       bnd (li_add_new tid rid) (\<lambda>_. bnd (maintain_property_index L J tid rid ps OpAdd) (\<lambda>_. ret rid))))) ?G1 ?Q"
    proof (rule gok_bnd [OF alloc_node_gok [OF r3]], elim conjE, hypsubst)
      fix rid assume new: "g_nodes ?G1 rid = None"
      let ?G2 = "with_node rid (Some (new_node rid tid)) 2 ?G1"
      let ?G3 = "?G2\<lparr>g_nodes := (g_nodes ?G2)(rid \<mapsto> (new_node rid tid)\<lparr>n_property_ref := r\<rparr>)\<rparr>"
      let ?G4 = "with_labels ((g_labels ?G3)(tid := add_mset rid (g_labels ?G3 tid))) 3 ?G3"
      let ?G5 = "with_entries (g_index ?G4 \<union> entries_for L tid rid (map_of ps) (indexed_in (g_schema ?G4) tid)) (3 * length (indexed_in (g_schema ?G4) tid)) ?G4"
      have n: "g_nodes ?G2 rid = Some (new_node rid tid)" "n_id (new_node rid tid) = rid" "n_property_ref (new_node rid tid) = None"
        by (simp_all add: new_node_def)
      have D: "g_schema ?G4 = D" using pg_repD(1) [OF rep] by simp
      have r4: "3 \<le> g_room ?G3" and r5: "3 * length (indexed_in (g_schema ?G4) tid) \<le> g_room ?G4"
        using room unfolding D by (simp_all add: node_cost_def)
      have none: "g_nodes G rid = None" using new by simp
      note ins = inserted_rep [OF rep none w, of ?G5 tid]
      have fin: "pg_nodes A rid = None" "pg_rep L D ?G5 (set_vertex rid (Some \<lparr>v_type = tid, v_labels = [], v_props = map_of ps\<rparr>) A)"
        by (rule ins; use D in simp)+
      have "?Q (Ok rid) ?G5"
        using fin uq D by (intro exI [of _ "set_vertex rid (Some \<lparr>v_type = tid, v_labels = [], v_props = map_of ps\<rparr>) A"])
          (simp add: insert_node_spec_def node_cost_def)
      then show "gspec J (bnd (case r of None \<Rightarrow> ret () | Some pref \<Rightarrow> bnd (read_node rid) (\<lambda>node. write_node (node\<lparr>n_property_ref := Some pref\<rparr>))) (\<lambda>_.
         bnd (li_add_new tid rid) (\<lambda>_. bnd (maintain_property_index L J tid rid ps OpAdd) (\<lambda>_. ret rid)))) ?G2 ?Q"
        by (intro gok_bnd [OF set_node_ref_gok [OF n]], hypsubst, intro gok_bnd [OF li_add_new_gok [OF r4]], hypsubst,
            intro gok_bnd [OF maintain_gok(1) [OF r5]], hypsubst, intro gspec_ret)
    qed
  qed
qed

section \<open>Replacing the properties of a node\<close>

definition update_node_spec :: "'n lib \<Rightarrow> schema_dto option \<Rightarrow> 'n pgraph \<Rightarrow> record_id \<Rightarrow> 'n props \<Rightarrow> unit res \<Rightarrow> 'n pgraph \<Rightarrow> bool" where
  "update_node_spec L D A rid ps r A' \<longleftrightarrow>
     (case pg_nodes A rid of
        None \<Rightarrow> r = Err (NodeNotFound (debug_rid rid)) \<and> A' = A
      | Some v \<Rightarrow>
          (case node_check_in L D (v_type v) ps of
             Inl e \<Rightarrow> r = Inl e \<and> A' = A
           | Inr _ \<Rightarrow>
               (case unique_in L D A (v_type v) (map_of ps) (Some rid) (unique_paths D (v_type v)) of
                  Inl e \<Rightarrow> r = Inl e \<and> A' = A
                | Inr _ \<Rightarrow> r = Ok () \<and> A' = set_vertex rid (Some (v\<lparr>v_props := map_of ps\<rparr>)) A)))"

lemma stored_keep: "fresh_ref r w V \<Longrightarrow> V p \<noteq> None \<Longrightarrow> stored_at r w V p = V p"
  by (auto simp: fresh_ref_def stored_at_def split: option.splits)

lemma updated_rep:
  assumes rep: "pg_rep L D G A" and v: "pg_nodes A rid = Some v" and n: "g_nodes G rid = Some n"
    and w: "props_dec L w (map_of ps)" "fresh_ref r w (g_vals G)"
    and G': "g_schema G' = g_schema G" "g_lists G' = g_lists G" "g_edges G' = g_edges G" "g_labels G' = g_labels G"
      "g_nodes G' = (g_nodes G)(rid \<mapsto> n\<lparr>n_property_ref := r\<rparr>)" "g_vals G' = dropped (n_property_ref n) (stored_at r w (g_vals G))"
      "g_index G' = (g_index G - entries_for L (v_type v) rid (v_props v) (indexed_in D (v_type v))) \<union>
         entries_for L (v_type v) rid (map_of ps) (indexed_in D (v_type v))"
  shows "pg_rep L D G' (set_vertex rid (Some (v\<lparr>v_props := map_of ps\<rparr>)) A)"
proof -
  note R = pg_repD [OF rep]
  have ref: "ref_of G' = (ref_of G)(NodeProps rid := r)" by (rule ref_of_node(1) [OF G'(3) n G'(5)])
  have vals: "g_vals G' = dropped (ref_of G (NodeProps rid)) (stored_at r w (g_vals G))" using n G'(6) by simp
  note h = replace_held [OF R(2) ref vals w(2)]
  have at0: "node_at L G rid v" using R(4) v .
  have at: "node_at L G' rid (v\<lparr>v_props := map_of ps\<rparr>)"
    using at0 n h(2) w(1) unfolding node_at_def by (simp add: G'(5) all_types_def)
  show ?thesis
  proof (rule pg_rep_vertex [OF rep G'(1,2) _ _ h(1) _ at])
    show "gedge G' = gedge G" using G'(3) by (simp add: gedge_def fun_eq_iff)
    show "gnode G' s = gnode G s" if "s \<noteq> rid" for s using that G'(5) by (simp add: gnode_def)
    show "att G' k = att G k" if "k \<noteq> NodeProps rid" for k using h(2) that by simp
    show "g_labels G' t = (if t \<in> types_at (Some (v\<lparr>v_props := map_of ps\<rparr>)) - types_at (pg_nodes A rid) then add_mset rid (g_labels G t)
      else if t \<in> types_at (pg_nodes A rid) - types_at (Some (v\<lparr>v_props := map_of ps\<rparr>)) then g_labels G t - {#rid#} else g_labels G t)" for t
      by (simp add: G'(4) v types_at_def all_types_def)
    show "g_index G' = (g_index G - node_entries L D rid (pg_nodes A rid)) \<union> node_entries L D rid (Some (v\<lparr>v_props := map_of ps\<rparr>))"
      by (simp add: G'(7) v node_entries_def)
  qed
qed

text \<open>What follows the checks: the new value, the record, the index and the old value.\<close>

lemma store_node_props_gok:
  assumes rep: "pg_rep L D G A" and ps: "props_legal L ps" and v: "pg_nodes A rid = Some v" and n: "g_nodes G rid = Some n" "n_id n = rid"
    and old: "map_of old_props = v_props v" and room: "node_cost D (v_type v) \<le> g_room G"
  shows "gok J (bnd (write_props L ps) (\<lambda>new_pref. bnd (write_node (n\<lparr>n_property_ref := new_pref\<rparr>)) (\<lambda>_.
      bnd (maintain_property_index L J (v_type v) rid old_props OpRemove) (\<lambda>_.
      bnd (maintain_property_index L J (v_type v) rid ps OpAdd) (\<lambda>_. free_ref (n_property_ref n)))))) G
    (\<lambda>_ G'. pg_rep L D G' (set_vertex rid (Some (v\<lparr>v_props := map_of ps\<rparr>)) A) \<and> g_room G - node_cost D (v_type v) \<le> g_room G')"
proof -
  note R = pg_repD [OF rep]
  let ?t = "v_type v"
  have "2 \<le> g_room G" using room by (simp add: node_cost_def)
  note wp = write_props_gok [OF ps this]
  show ?thesis
  proof (rule gok_bnd [OF wp], elim exE conjE, hypsubst)
    fix r w assume w: "props_dec L w (map_of ps)" "fresh_ref r w (g_vals G)"
    let ?n = "n\<lparr>n_property_ref := r\<rparr>"
    let ?G1 = "put_value r w G"
    let ?G2 = "?G1\<lparr>g_nodes := (g_nodes ?G1)(n_id ?n \<mapsto> ?n)\<rparr>"
    let ?G3 = "with_entries (g_index ?G2 - entries_for L ?t rid (map_of old_props) (indexed_in (g_schema ?G2) ?t)) 0 ?G2"
    let ?G4 = "with_entries (g_index ?G3 \<union> entries_for L ?t rid (map_of ps) (indexed_in (g_schema ?G3) ?t)) (3 * length (indexed_in (g_schema ?G3) ?t)) ?G3"
    let ?G5 = "drop_value (n_property_ref n) ?G4"
    have D: "g_schema ?G3 = D" "g_schema ?G2 = D" using R(1) by simp_all
    have r4: "3 * length (indexed_in (g_schema ?G3) ?t) \<le> g_room ?G3" using room R(1) by (simp add: node_cost_def)
    have wr: "gok J (write_node ?n) ?G1 (\<lambda>_ G'. G' = ?G2)"
      by (rule write_node_gok [where n = n]) (use n in \<open>simp_all add: first_edge_def split: edge_direction.split\<close>)
    have fr: "gok J (free_ref (n_property_ref n)) ?G4 (\<lambda>_ G'. G' = ?G5)"
    proof (rule free_ref_gok)
      fix p assume "n_property_ref n = Some p"
      then have "g_vals G p \<noteq> None" using owned_ref [OF R(2), of "NodeProps rid" p] n(1) by simp
      then show "g_vals ?G4 p \<noteq> None" using stored_keep [OF w(2)] by simp
    qed
    have "pg_rep L D ?G5 (set_vertex rid (Some (v\<lparr>v_props := map_of ps\<rparr>)) A)"
      by (rule updated_rep [OF rep v n(1) w]) (use D n(2) old in simp_all)
    moreover have "g_room G - node_cost D ?t \<le> g_room ?G5" using R(1) by (simp add: node_cost_def)
    ultimately show "gok J (bnd (write_node ?n) (\<lambda>_. bnd (maintain_property_index L J ?t rid old_props OpRemove) (\<lambda>_.
        bnd (maintain_property_index L J ?t rid ps OpAdd) (\<lambda>_. free_ref (n_property_ref n))))) ?G1
        (\<lambda>_ G'. pg_rep L D G' (set_vertex rid (Some (v\<lparr>v_props := map_of ps\<rparr>)) A) \<and> g_room G - node_cost D ?t \<le> g_room G')"
      by (intro gok_bnd [OF wr], hypsubst, intro gok_bnd [OF maintain_gok(2)], hypsubst,
          intro gok_bnd [OF maintain_gok(1) [OF r4]], hypsubst, intro gok_conseq [OF fr]) auto
  qed
qed

lemma update_node_gspec:
  assumes rep: "pg_rep L D G A" and ps: "props_legal L ps"
    and room: "\<And>v. pg_nodes A rid = Some v \<Longrightarrow> node_cost D (v_type v) \<le> g_room G"
  shows "gspec J (update_node_properties L J rid ps) G (\<lambda>r G'. \<exists>A'. pg_rep L D G' A' \<and> update_node_spec L D A rid ps r A' \<and>
    (case pg_nodes A rid of None \<Rightarrow> G' = G | Some v \<Rightarrow> g_room G - node_cost D (v_type v) \<le> g_room G'))"
proof (cases "pg_nodes A rid")
  case None
  then have "g_nodes G rid = None" using pg_repD(5) [OF rep] by simp
  then show ?thesis
    unfolding update_node_properties_def
    by (intro gok_bnd [OF node_used_gok]) (use rep None in \<open>auto simp: update_node_spec_def intro!: gspec_fail\<close>)
next
  case (Some v)
  note R = pg_repD [OF rep]
  have at: "node_at L G rid v" using R(4) Some .
  obtain n where n: "g_nodes G rid = Some n" "node_type_id n = v_type v" using at by (rule node_atD)
  let ?t = "v_type v"
  let ?Q = "\<lambda>r G'. \<exists>A'. pg_rep L D G' A' \<and> update_node_spec L D A rid ps r A' \<and> g_room G - node_cost D ?t \<le> g_room G'"
  have refuse: "?Q (Inl a) G" if "update_node_spec L D A rid ps (Inl a) A" for a using that rep by auto
  have "gspec J (update_node_properties L J rid ps) G ?Q"
    unfolding update_node_properties_def
  proof (rule gspec_wf, rule gok_bnd [OF node_used_gok], elim conjE, hypsubst, unfold n(1), simp only: option.distinct not_True_eq_False if_False simp_thms,
      rule gok_bnd [OF read_node_gok [OF n(1)]], elim conjE, hypsubst, unfold n(2) Let_def,
      rule gspec_bnd_eq [OF check_props_gspec(1)])
    fix a assume "node_check_in L (g_schema G) ?t ps = Inl a"
    then show "?Q (Inl a) G" by (intro refuse) (simp add: update_node_spec_def Some R(1))
  next
    fix y :: unit
    assume wf: "gwf G" and chk: "node_check_in L (g_schema G) ?t ps = Ok y"
    have id: "n_id n = rid" by (rule gwf_ids(1) [OF wf n(1)])
    show "gspec J (bnd (get_node_properties_raw L rid) (\<lambda>old_props.
      bnd (check_unique L J ?t ps (Some rid)) (\<lambda>_. bnd (write_props L ps) (\<lambda>new_pref.
      bnd (write_node (n\<lparr>n_property_ref := new_pref\<rparr>)) (\<lambda>_. bnd (maintain_property_index L J ?t rid old_props OpRemove) (\<lambda>_.
      bnd (maintain_property_index L J ?t rid ps OpAdd) (\<lambda>_. free_ref (n_property_ref n)))))))) G ?Q"
    proof (rule gok_bnd [OF get_props_gok [OF R(2) at]], elim conjE, hypsubst, rule gspec_bnd_eq [OF check_unique_gspec [OF rep]])
      fix a assume "unique_in L D A ?t (map_of ps) (Some rid) (unique_paths D ?t) = Inl a"
      then show "?Q (Inl a) G" using chk by (intro refuse) (simp add: update_node_spec_def Some R(1))
    next
      fix old_props and y' :: unit
      assume old: "map_of old_props = v_props v" and uq: "unique_in L D A ?t (map_of ps) (Some rid) (unique_paths D ?t) = Ok y'"
      show "gspec J (bnd (write_props L ps) (\<lambda>new_pref.
        bnd (write_node (n\<lparr>n_property_ref := new_pref\<rparr>)) (\<lambda>_. bnd (maintain_property_index L J ?t rid old_props OpRemove) (\<lambda>_.
        bnd (maintain_property_index L J ?t rid ps OpAdd) (\<lambda>_. free_ref (n_property_ref n)))))) G ?Q"
        by (rule gspec_conseq [OF store_node_props_gok [OF rep ps Some n(1) id old room [OF Some]]])
          (use chk uq R(1) in \<open>auto simp: update_node_spec_def Some\<close>)
    qed
  qed
  then show ?thesis by (simp add: Some)
qed

section \<open>Additional labels\<close>

lemma normalize_labels_set:
  "distinct acc \<Longrightarrow> p \<notin> set acc \<Longrightarrow> distinct (normalize_labels p ls acc) \<and> p \<notin> set (normalize_labels p ls acc) \<and>
    set (normalize_labels p ls acc) = set acc \<union> (set ls - {p})"
proof (induction ls arbitrary: acc)
  case (Cons l ls)
  show ?case
  proof (cases "l \<noteq> p \<and> l \<notin> set acc")
    case True
    then have "distinct (acc @ [l])" "p \<notin> set (acc @ [l])" using Cons.prems by auto
    from Cons.IH [OF this] show ?thesis using True by auto
  next
    case False
    then show ?thesis using Cons.IH [OF Cons.prems] by (auto simp: )
  qed
qed simp

lemma normalize_id: "distinct (p # acc @ ls) \<Longrightarrow> normalize_labels p ls acc = acc @ ls"
proof (induction ls arbitrary: acc)
  case (Cons l ls)
  have "distinct (p # (acc @ [l]) @ ls)" using Cons.prems by simp
  from Cons.IH [OF this] show ?case using Cons.prems by auto
qed simp

lemma normalize_snoc_primary: "distinct (p # ls) \<Longrightarrow> normalize_labels p (ls @ [p]) [] = ls"
proof -
  have "normalize_labels p (xs @ ys) acc = normalize_labels p ys (normalize_labels p xs acc)" for xs ys acc
    by (induction xs arbitrary: acc) auto
  moreover assume "distinct (p # ls)"
  ultimately show ?thesis using normalize_id [of p "[]" ls] by simp
qed

lemma relabelled_rep:
  assumes rep: "pg_rep L D G A" and v: "pg_nodes A rid = Some v" and n: "g_nodes G rid = Some n"
    and ls: "distinct (v_type v # ls)" and w: "labels_dec L w ls" "fresh_ref r w (g_vals G)"
    and G': "g_schema G' = g_schema G" "g_lists G' = g_lists G" "g_edges G' = g_edges G" "g_index G' = g_index G"
      "g_nodes G' = (g_nodes G)(rid \<mapsto> n\<lparr>n_label_ref := r\<rparr>)" "g_vals G' = dropped (n_label_ref n) (stored_at r w (g_vals G))"
      "g_labels G' = labelled rid (filter (\<lambda>l. l \<notin> set (v_labels v)) ls)
         (unlabelled rid (filter (\<lambda>l. l \<notin> set ls) (v_labels v)) (g_labels G))"
  shows "pg_rep L D G' (set_vertex rid (Some (v\<lparr>v_labels := ls\<rparr>)) A)"
proof -
  note R = pg_repD [OF rep]
  have ref: "ref_of G' = (ref_of G)(NodeLabels rid := r)" by (rule ref_of_node(2) [OF G'(3) n G'(5)])
  have vals: "g_vals G' = dropped (ref_of G (NodeLabels rid)) (stored_at r w (g_vals G))" using n G'(6) by simp
  note h = replace_held [OF R(2) ref vals w(2)]
  have at0: "node_at L G rid v" using R(4) v .
  then have d0: "distinct (all_types v)" unfolding node_at_def by blast
  have at: "node_at L G' rid (v\<lparr>v_labels := ls\<rparr>)"
    using at0 n h(2) w(1) ls unfolding node_at_def by (simp add: G'(5) all_types_def)
  show ?thesis
  proof (rule pg_rep_vertex [OF rep G'(1,2) _ _ h(1) _ at])
    show "gedge G' = gedge G" using G'(3) by (simp add: gedge_def fun_eq_iff)
    show "gnode G' s = gnode G s" if "s \<noteq> rid" for s using that G'(5) by (simp add: gnode_def)
    show "att G' k = att G k" if "k \<noteq> NodeLabels rid" for k using h(2) that by simp
    show "g_labels G' t = (if t \<in> types_at (Some (v\<lparr>v_labels := ls\<rparr>)) - types_at (pg_nodes A rid) then add_mset rid (g_labels G t)
      else if t \<in> types_at (pg_nodes A rid) - types_at (Some (v\<lparr>v_labels := ls\<rparr>)) then g_labels G t - {#rid#} else g_labels G t)" for t
      using ls d0 by (auto simp: G'(7) v types_at_def all_types_def labelled_def unlabelled_def)
    show "g_index G' = (g_index G - node_entries L D rid (pg_nodes A rid)) \<union> node_entries L D rid (Some (v\<lparr>v_labels := ls\<rparr>))"
    proof -
      have "node_entries L D rid (Some v) \<subseteq> g_index G" using R(10) v unfolding index_ok_def by (metis UNIV_I UN_upper)
      moreover have "node_entries L D rid (Some (v\<lparr>v_labels := ls\<rparr>)) = node_entries L D rid (Some v)" by (simp add: node_entries_def)
      ultimately show ?thesis by (simp add: G'(4) v) blast
    qed
  qed
qed

lemma set_labels_gok:
  assumes rep: "pg_rep L D G A" and v: "pg_nodes A rid = Some v" and norm: "normalize_labels (v_type v) labels [] = ls"
    and legal: "labels_legal L ls" and room: "3 * length (filter (\<lambda>l. l \<notin> set (v_labels v)) ls) + 2 \<le> g_room G"
  shows "gok J (set_additional_labels L rid labels) G (\<lambda>_ G'. pg_rep L D G' (set_vertex rid (Some (v\<lparr>v_labels := ls\<rparr>)) A) \<and>
    g_room G - (3 * length (filter (\<lambda>l. l \<notin> set (v_labels v)) ls) + 2) \<le> g_room G')"
proof -
  note R = pg_repD [OF rep]
  have at: "node_at L G rid v" using R(4) v .
  obtain n where n: "g_nodes G rid = Some n" "node_type_id n = v_type v" using at by (rule node_atD)
  let ?new = "filter (\<lambda>l. l \<notin> set (v_labels v)) ls" and ?gone = "filter (\<lambda>l. l \<notin> set ls) (v_labels v)"
  have ls: "distinct (v_type v # ls)" using normalize_labels_set [of "[]" "v_type v" labels] norm by auto
  have dist: "distinct ?new" "distinct ?gone" using ls at by (auto simp: node_at_def all_types_def)
  let ?P = "\<lambda>G'. pg_rep L D G' (set_vertex rid (Some (v\<lparr>v_labels := ls\<rparr>)) A) \<and> g_room G - (3 * length ?new + 2) \<le> g_room G'"
  show ?thesis
    unfolding set_additional_labels_def
  proof (rule gspec_wf, rule gok_bnd [OF read_node_gok [OF n(1)]], elim conjE, hypsubst, unfold n(2) norm Let_def,
      rule gok_bnd [OF get_labels_gok [OF R(2) at]], elim conjE, hypsubst)
    assume wf: "gwf G"
    have id: "n_id n = rid" by (rule gwf_ids(1) [OF wf n(1)])
    let ?G1 = "with_labels (unlabelled rid ?gone (g_labels G)) 0 G"
    let ?G2 = "with_labels (labelled rid ?new (g_labels ?G1)) (3 * length ?new) ?G1"
    have r2: "3 * length ?new \<le> g_room ?G1" and r3: "2 \<le> g_room ?G2" using room by simp_all
    show "gok J (bnd (unlabel_all rid ?gone) (\<lambda>_. bnd (label_all rid ?new) (\<lambda>_. bnd (write_labels L ls) (\<lambda>lref.
        bnd (write_node (n\<lparr>n_label_ref := lref\<rparr>)) (\<lambda>_. free_ref (n_label_ref n)))))) G (\<lambda>_. ?P)"
    proof (rule gok_bnd [OF unlabel_all_gok [OF dist(2)]], hypsubst, rule gok_bnd [OF label_all_gok [OF dist(1) r2]], hypsubst,
        rule gok_bnd [OF write_labels_gok [OF legal r3]], elim exE conjE, hypsubst)
      fix r w assume w: "labels_dec L w ls" "fresh_ref r w (g_vals ?G2)"
      let ?n = "n\<lparr>n_label_ref := r\<rparr>"
      let ?G3 = "put_value r w ?G2"
      let ?G4 = "?G3\<lparr>g_nodes := (g_nodes ?G3)(n_id ?n \<mapsto> ?n)\<rparr>"
      let ?G5 = "drop_value (n_label_ref n) ?G4"
      have fresh: "fresh_ref r w (g_vals G)" using w(2) by simp
      have wr: "gok J (write_node ?n) ?G3 (\<lambda>_ G'. G' = ?G4)"
        by (rule write_node_gok [where n = n]) (use n(1) id in \<open>simp_all add: first_edge_def split: edge_direction.split\<close>)
      have fr: "gok J (free_ref (n_label_ref n)) ?G4 (\<lambda>_ G'. G' = ?G5)"
      proof (rule free_ref_gok)
        fix p assume "n_label_ref n = Some p"
        then have "g_vals G p \<noteq> None" using owned_ref [OF R(2), of "NodeLabels rid" p] n(1) by simp
        then show "g_vals ?G4 p \<noteq> None" using stored_keep [OF fresh] by simp
      qed
      have "pg_rep L D ?G5 (set_vertex rid (Some (v\<lparr>v_labels := ls\<rparr>)) A)"
        by (rule relabelled_rep [OF rep v n(1) ls w(1) fresh]) (use id in simp_all)
      then show "gok J (bnd (write_node ?n) (\<lambda>_. free_ref (n_label_ref n))) ?G3 (\<lambda>_. ?P)"
        by (intro gok_bnd [OF wr], hypsubst, intro gok_conseq [OF fr]) auto
    qed
  qed
qed

definition add_label :: "u16 \<Rightarrow> 'n vertex \<Rightarrow> 'n vertex" where
  "add_label t v = (if t \<in> set (all_types v) then v else v\<lparr>v_labels := v_labels v @ [t]\<rparr>)"

definition remove_label :: "u16 \<Rightarrow> 'n vertex \<Rightarrow> 'n vertex" where
  "remove_label t v = v\<lparr>v_labels := filter (\<lambda>l. l \<noteq> t) (v_labels v)\<rparr>"

lemma pg_rep_distinct: "pg_rep L D G A \<Longrightarrow> pg_nodes A rid = Some v \<Longrightarrow> distinct (all_types v)"
  using pg_repD(4) unfolding node_at_def by blast

lemma set_vertex_same: "pg_nodes A rid = Some v \<Longrightarrow> set_vertex rid (Some v) A = A"
  by (simp add: set_vertex_def fun_upd_idem)

lemma add_label_gok:
  assumes rep: "pg_rep L D G A" and v: "pg_nodes A rid = Some v" and legal: "labels_legal L (v_labels (add_label t v))" and room: "5 \<le> g_room G"
  shows "gok J (add_node_label L rid t) G (\<lambda>_ G'. pg_rep L D G' (set_vertex rid (Some (add_label t v)) A) \<and> g_room G - 5 \<le> g_room G')"
  unfolding add_node_label_def
proof (rule gok_bnd [OF get_labels_gok [OF pg_repD(2) [OF rep] pg_repD(4) [OF rep v]]], elim conjE, hypsubst)
  let ?ls = "v_labels (add_label t v)"
  have d: "distinct (v_type v # v_labels v)" using pg_rep_distinct [OF rep v] by (simp add: all_types_def)
  show "gok J (if t \<notin> set (v_labels v) then set_additional_labels L rid (v_labels v @ [t]) else ret ()) G
      (\<lambda>_ G'. pg_rep L D G' (set_vertex rid (Some (add_label t v)) A) \<and> g_room G - 5 \<le> g_room G')"
  proof (cases "t \<in> set (v_labels v)")
    case True
    then have "add_label t v = v" by (simp add: add_label_def all_types_def)
    then show ?thesis using True rep set_vertex_same [OF v] by (auto intro!: gspec_rets)
  next
    case False
    have norm: "normalize_labels (v_type v) (v_labels v @ [t]) [] = ?ls"
    proof (cases "t = v_type v")
      case True
      then show ?thesis using normalize_snoc_primary [OF d] by (simp add: add_label_def all_types_def)
    next
      case ne: False
      then have "distinct (v_type v # [] @ v_labels v @ [t])" using d False by auto
      from normalize_id [OF this] show ?thesis using ne False by (simp add: add_label_def all_types_def)
    qed
    have len: "length (filter (\<lambda>l. l \<notin> set (v_labels v)) ?ls) \<le> 1" by (simp add: add_label_def)
    have eq: "v\<lparr>v_labels := ?ls\<rparr> = add_label t v" by (simp add: add_label_def)
    have r: "3 * length (filter (\<lambda>l. l \<notin> set (v_labels v)) ?ls) + 2 \<le> g_room G" using len room by linarith
    have "gok J (set_additional_labels L rid (v_labels v @ [t])) G
        (\<lambda>_ G'. pg_rep L D G' (set_vertex rid (Some (add_label t v)) A) \<and> g_room G - 5 \<le> g_room G')"
      by (rule gok_conseq [OF set_labels_gok [OF rep v norm legal r]]) (use len in \<open>auto simp: eq\<close>)
    then show ?thesis using False by simp
  qed
qed

lemma remove_label_gok:
  assumes rep: "pg_rep L D G A" and v: "pg_nodes A rid = Some v" and legal: "labels_legal L (v_labels (remove_label t v))" and room: "2 \<le> g_room G"
  shows "gok J (remove_node_label L rid t) G (\<lambda>_ G'. pg_rep L D G' (set_vertex rid (Some (remove_label t v)) A) \<and> g_room G - 2 \<le> g_room G')"
  unfolding remove_node_label_def
proof (rule gok_bnd [OF get_labels_gok [OF pg_repD(2) [OF rep] pg_repD(4) [OF rep v]]], elim conjE, hypsubst)
  let ?ls = "v_labels (remove_label t v)"
  have "distinct (v_type v # [] @ ?ls)" using pg_rep_distinct [OF rep v] by (auto simp: all_types_def remove_label_def)
  from normalize_id [OF this] have norm: "normalize_labels (v_type v) (filter (\<lambda>l. l \<noteq> t) (v_labels v)) [] = ?ls"
    by (simp add: remove_label_def)
  have none: "filter (\<lambda>l. l \<notin> set (v_labels v)) ?ls = []" by (auto simp: remove_label_def filter_empty_conv)
  have eq: "v\<lparr>v_labels := ?ls\<rparr> = remove_label t v" by (simp add: remove_label_def)
  have r: "3 * length (filter (\<lambda>l. l \<notin> set (v_labels v)) ?ls) + 2 \<le> g_room G" using none room by simp
  show "gok J (set_additional_labels L rid (filter (\<lambda>l. l \<noteq> t) (v_labels v))) G
      (\<lambda>_ G'. pg_rep L D G' (set_vertex rid (Some (remove_label t v)) A) \<and> g_room G - 2 \<le> g_room G')"
    by (rule gok_conseq [OF set_labels_gok [OF rep v norm legal r]]) (auto simp: eq none)
qed

end
