(* ===== verification/Database_Edges.thy ===== *)
theory Database_Edges
  imports Database_Updates
begin

text \<open>
  The operations of \<^verbatim>\<open>db.rs\<close> on edges, and the deletion of a node, which deletes its edges first.
\<close>

section \<open>Inserting an edge\<close>

definition link_arc :: "record_id \<Rightarrow> 'n arc \<Rightarrow> 'n pgraph \<Rightarrow> 'n pgraph" where
  "link_arc rid a A = A\<lparr>pg_edges := (pg_edges A)(rid \<mapsto> a),
     pg_adj := (\<lambda>d. (pg_adj A d)(arc_end d a := rid # pg_adj A d (arc_end d a)))\<rparr>"

definition unlink_arc :: "record_id \<Rightarrow> 'n pgraph \<Rightarrow> 'n pgraph" where
  "unlink_arc rid A = A\<lparr>pg_edges := (pg_edges A)(rid := None), pg_adj := (\<lambda>d v. filter (\<lambda>r. r \<noteq> rid) (pg_adj A d v))\<rparr>"

lemma arc_simps [simp]:
  "pg_nodes (link_arc rid a A) = pg_nodes A" "pg_edges (link_arc rid a A) = (pg_edges A)(rid \<mapsto> a)"
  "pg_adj (link_arc rid a A) = (\<lambda>d. (pg_adj A d)(arc_end d a := rid # pg_adj A d (arc_end d a)))"
  "pg_nodes (unlink_arc rid A) = pg_nodes A" "pg_edges (unlink_arc rid A) = (pg_edges A)(rid := None)"
  "pg_adj (unlink_arc rid A) d v = filter (\<lambda>r. r \<noteq> rid) (pg_adj A d v)"
  by (simp_all add: link_arc_def unlink_arc_def)

lemma arcs_okD: "arcs_ok A \<Longrightarrow> pg_edges A r = Some a \<Longrightarrow> pg_nodes A (arc_end d a) \<noteq> None \<and> r \<in> set (pg_adj A d (arc_end d a))"
  unfolding arcs_ok_def by blast

lemma edge_atD:
  assumes "edge_at L G rid a"
  obtains e where "g_edges G rid = Some e" "edge_type_id e = a_type a" "\<And>d. end_of d e = arc_end d a"
proof -
  obtain e where e: "g_edges G rid = Some e" "edge_type_id e = a_type a" "from_node e = a_from a" "to_node e = a_to a"
    using assms unfolding edge_at_def by blast
  have "end_of d e = arc_end d a" for d using e(3,4) by (cases d) (simp_all add: end_of_def arc_end_def)
  then show ?thesis using that e by blast
qed

text \<open>The lists hold the edges that end at their node, each once.\<close>

definition adj_ok :: "'n pgraph \<Rightarrow> bool" where
  "adj_ok A \<longleftrightarrow> (\<forall>d v. distinct (pg_adj A d v) \<and> (\<forall>r\<in>set (pg_adj A d v). \<exists>a. pg_edges A r = Some a \<and> arc_end d a = v))"

lemma adj_okD:
  assumes "adj_ok A"
  shows "distinct (pg_adj A d v)" "r \<in> set (pg_adj A d v) \<Longrightarrow> \<exists>a. pg_edges A r = Some a \<and> arc_end d a = v"
  using assms unfolding adj_ok_def by blast+

lemma gwf_adj_ok:
  assumes wf: "gwf G" and rep: "pg_rep L D G A"
  shows "adj_ok A"
  unfolding adj_ok_def
proof (intro allI conjI ballI)
  fix d v
  note R = pg_repD [OF rep]
  show "distinct (pg_adj A d v)" using gwf_distinct [OF wf] by (simp add: R(3) [symmetric])
  fix r assume "r \<in> set (pg_adj A d v)"
  then have "r \<in> set (g_lists G d v)" by (simp add: R(3))
  from gwf_listed [OF wf this] obtain e where e: "g_edges G r = Some e" "end_of d e = v" by blast
  then obtain a where a: "pg_edges A r = Some a" using R(7) [of r] by auto
  obtain e' where "g_edges G r = Some e'" "\<And>d. end_of d e' = arc_end d a" using R(6) [OF a] by (elim edge_atD) blast
  then show "\<exists>a. pg_edges A r = Some a \<and> arc_end d a = v" using a e by auto
qed

lemma linked_rep:
  assumes rep: "pg_rep L D G A" and new: "g_edges G rid = None" and w: "props_dec L w (map_of ps)" "fresh_ref r w (g_vals G)"
    and ends: "pg_nodes A src \<noteq> None" "pg_nodes A dst \<noteq> None"
    and G1: "g_nodes G1 = g_nodes G" "g_vals G1 = stored_at r w (g_vals G)"
      "g_edges G1 = (g_edges G)(rid \<mapsto> (new_edge rid tid src dst)\<lparr>e_property_ref := r\<rparr>)"
    and G': "g_schema G' = g_schema G" "g_vals G' = g_vals G1" "gnode G' = gnode G1" "gedge G' = gedge G1"
      "g_labels G' = g_labels G" "g_index G' = g_index G" "g_lists G' = pg_adj (link_arc rid a A)"
    and a: "a = \<lparr>a_type = tid, a_labels = [], a_from = src, a_to = dst, a_props = map_of ps\<rparr>"
  shows "pg_edges A rid = None" "pg_rep L D G' (link_arc rid a A)"
proof -
  note R = pg_repD [OF rep]
  show none: "pg_edges A rid = None" using R(7) new by simp
  have ref1: "ref_of G1 = (ref_of G)(EdgeProps rid := r)" by (rule ref_of_new(2) [OF new G1(1,3)])
  have vals1: "g_vals G1 = dropped (ref_of G (EdgeProps rid)) (stored_at r w (g_vals G))" using new G1(2) by (simp add: dropped_def)
  note h = replace_held [OF R(2) ref1 vals1 w(2)]
  have ref: "ref_of G' = ref_of G1" by (rule ref_of_cong [OF G'(3,4)])
  have att: "att G' = (att G)(EdgeProps rid := w)" using h(2) by (simp add: ref G'(2))
  have "ref_of G' (EdgeLabels rid) = None" by (simp add: ref G1(3) new_edge_def)
  then have lbl: "att G' (EdgeLabels rid) = None" by (simp add: held_def)
  have at1: "edge_at L G1 rid a"
    unfolding edge_at_def using lbl w(1) h(2) a by (simp add: G1(3) new_edge_def labels_dec_def arc_types_def ref G'(2))
  have at: "edge_at L G' rid a" by (rule edge_at_cong [OF at1]) (simp_all add: G'(4) ref G'(2))
  show "pg_rep L D G' (link_arc rid a A)"
  proof (rule pg_rep_arc [OF rep G'(1,7) _ _ G'(5,6), where oa = "Some a"])
    show "gnode G' = gnode G" using G'(3) G1(1) by (simp add: gnode_def fun_eq_iff)
    show "gedge G' s = gedge G s" if "s \<noteq> rid" for s using that by (simp add: G'(4) G1(3) gedge_def)
    show "owned (ref_of G') (g_vals G')" using h(1) by (simp add: ref G'(2))
    show "att G' k = att G k" if "k \<noteq> EdgeProps rid" for k using att that by simp
    show "edge_at L G' rid b" if "Some a = Some b" for b using at that by simp
    show "arcs_ok (link_arc rid a A)"
      unfolding arcs_ok_def
    proof (intro allI impI)
      fix q b d assume q: "pg_edges (link_arc rid a A) q = Some b"
      show "pg_nodes (link_arc rid a A) (arc_end d b) \<noteq> None \<and> q \<in> set (pg_adj (link_arc rid a A) d (arc_end d b))"
      proof (cases "q = rid")
        case True
        then show ?thesis using q ends a by (cases d) (auto simp: arc_end_def)
      next
        case False
        then have "pg_edges A q = Some b" using q by simp
        from arcs_okD [OF R(8) this, of d] show ?thesis by auto
      qed
    qed
  qed simp_all
qed

lemma set_edge_ref_gok:
  assumes n: "g_edges G rid = Some e" "e_id e = rid" "e_property_ref e = None"
  shows "gok J (case r of None \<Rightarrow> ret () | Some pref \<Rightarrow> bnd (read_edge rid) (\<lambda>edge. write_edge (edge\<lparr>e_property_ref := Some pref\<rparr>))) G
    (\<lambda>_ G'. G' = G\<lparr>g_edges := (g_edges G)(rid \<mapsto> e\<lparr>e_property_ref := r\<rparr>)\<rparr>)"
proof (cases r)
  case None
  have "e\<lparr>e_property_ref := None\<rparr> = e" using n(3) by (cases e) simp
  then have "(g_edges G)(rid \<mapsto> e\<lparr>e_property_ref := None\<rparr>) = g_edges G" using n(1) by (simp add: fun_upd_idem)
  then show ?thesis unfolding None by (simp only: option.case) (rule gok_ret, simp)
next
  case (Some p)
  let ?e = "e\<lparr>e_property_ref := Some p\<rparr>"
  have w: "gok J (write_edge ?e) G (\<lambda>_ G'. G' = G\<lparr>g_edges := (g_edges G)(e_id ?e \<mapsto> ?e)\<rparr>)"
    by (rule write_edge_gok [where e = e]) (use n in \<open>simp_all add: next_edge_def end_of_def split: edge_direction.split\<close>)
  show ?thesis
    unfolding Some option.case
    by (rule gok_bnd [OF read_edge_gok [OF n(1)]], elim conjE, hypsubst) (use w n(2) in simp)
qed

text \<open>The edge record is made, then linked into the lists of its two ends.\<close>

lemma link_edge_gok:
  assumes wf: "gwf G" and e: "g_edges G rid = None" and n: "g_nodes G1 src \<noteq> None" "g_nodes G1 dst \<noteq> None"
    and G1: "g_edges G1 rid = Some x" "from_node x = src" "to_node x = dst" "g_lists G1 = g_lists G"
  shows "gok J (bnd (append_out_edge src rid) (\<lambda>_. bnd (append_in_edge dst rid) (\<lambda>_. ret rid))) G1
    (\<lambda>y G'. y = rid \<and> G' = linked_in In dst rid (linked_in Out src rid G1))"
proof -
  have notin: "rid \<notin> set (g_lists G d v)" for d v using gwf_listed [OF wf, of rid d v] e by auto
  obtain n1 where n1: "g_nodes G1 src = Some n1" using n(1) by blast
  let ?G2 = "linked_in Out src rid G1"
  have ends: "end_of Out x = src" "end_of In x = dst" using G1(2,3) by (simp_all add: end_of_def)
  have "rid \<notin> set (g_lists G1 Out src)" using notin G1(4) by simp
  note out = append_edge_gok [OF n1 G1(1) ends(1) this]
  obtain n2 where n2: "g_nodes ?G2 dst = Some n2" using n(2) n1 by (cases "dst = src") (auto simp: linked_in_def)
  have e2: "g_edges ?G2 rid = Some (with_next Out (first_edge Out n1) x)" by (simp add: linked_in_def n1 G1(1))
  have end2: "end_of In (with_next Out (first_edge Out n1) x) = dst" using ends by simp
  have new2: "rid \<notin> set (g_lists ?G2 In dst)" using notin G1(4) by simp
  note inn = append_edge_gok [OF n2 e2 end2 new2]
  show ?thesis
    unfolding append_edge_eqs by (intro gok_bnd [OF out], hypsubst, intro gok_bnd [OF inn], hypsubst) (auto intro!: gspec_rets)
qed

definition insert_edge_spec :: "'n pgraph \<Rightarrow> u16 \<Rightarrow> record_id \<Rightarrow> record_id \<Rightarrow> 'n props \<Rightarrow> record_id res \<Rightarrow> 'n pgraph \<Rightarrow> bool" where
  "insert_edge_spec A tid src dst ps r A' \<longleftrightarrow>
     (if pg_nodes A src = None then r = Err (NodeNotFound (''edge from '' @ debug_rid src)) \<and> A' = A
      else if pg_nodes A dst = None then r = Err (NodeNotFound (''edge to '' @ debug_rid dst)) \<and> A' = A
      else \<exists>rid. r = Ok rid \<and> pg_edges A rid = None \<and>
        A' = link_arc rid \<lparr>a_type = tid, a_labels = [], a_from = src, a_to = dst, a_props = map_of ps\<rparr> A)"

lemma insert_edge_gspec:
  assumes rep: "pg_rep L D G A" and ps: "props_legal L ps" and room: "4 \<le> g_room G"
  shows "gspec J (insert_edge L tid src dst ps) G (\<lambda>r G'. \<exists>A'. pg_rep L D G' A' \<and> insert_edge_spec A tid src dst ps r A' \<and>
    g_room G - 4 \<le> g_room G')"
proof (cases "pg_nodes A src = None \<or> pg_nodes A dst = None")
  case True
  note R = pg_repD [OF rep]
  show ?thesis
    unfolding insert_edge_def
  proof (rule gok_bnd [OF node_used_gok], elim conjE, hypsubst)
    show "gspec J (if \<not> (g_nodes G src \<noteq> None) then err (NodeNotFound (''edge from '' @ debug_rid src))
      else bnd (node_slot_used dst) (\<lambda>used. if \<not> used then err (NodeNotFound (''edge to '' @ debug_rid dst))
        else bnd (write_props L ps) (\<lambda>prop_ref. bnd (alloc_edge tid src dst) (\<lambda>eid.
          bnd (case prop_ref of None \<Rightarrow> ret () | Some pref \<Rightarrow> bnd (read_edge eid) (\<lambda>edge. write_edge (edge\<lparr>e_property_ref := Some pref\<rparr>))) (\<lambda>_.
          bnd (append_out_edge src eid) (\<lambda>_. bnd (append_in_edge dst eid) (\<lambda>_. ret eid))))))) G
      (\<lambda>r G'. \<exists>A'. pg_rep L D G' A' \<and> insert_edge_spec A tid src dst ps r A' \<and> g_room G - 4 \<le> g_room G')"
    proof (cases "g_nodes G src = None")
      case True
      then show ?thesis using rep R(5) [of src] by (auto simp: insert_edge_spec_def intro!: gspec_fail exI [of _ A])
    next
      case False
      then have n: "pg_nodes A src \<noteq> None" "pg_nodes A dst = None" "g_nodes G dst = None"
        using True R(5) [of src] R(5) [of dst] by metis+
      have spec: "insert_edge_spec A tid src dst ps (Err (NodeNotFound (''edge to '' @ debug_rid dst))) A"
        using n by (simp add: insert_edge_spec_def)
      show ?thesis
        unfolding if_not_P [OF iffD2 [OF not_not False]]
      proof (rule gok_bnd [OF node_used_gok], elim conjE, hypsubst, unfold n(3), simp only: simp_thms if_True, rule gspec_fail)
        show "\<exists>A'. pg_rep L D G A' \<and> insert_edge_spec A tid src dst ps (Err (NodeNotFound (''edge to '' @ debug_rid dst))) A' \<and>
            g_room G - 4 \<le> g_room G"
          using rep spec diff_le_self by blast
      qed
    qed
  qed
next
  case False
  note R = pg_repD [OF rep]
  have n: "g_nodes G src \<noteq> None" "g_nodes G dst \<noteq> None" using False R(5) [of src] R(5) [of dst] by metis+
  have r2: "2 \<le> g_room G" using room by simp
  let ?a = "\<lparr>a_type = tid, a_labels = [], a_from = src, a_to = dst, a_props = map_of ps\<rparr>"
  let ?Q = "\<lambda>r G'. \<exists>A'. pg_rep L D G' A' \<and> insert_edge_spec A tid src dst ps r A' \<and> g_room G - 4 \<le> g_room G'"
  show ?thesis
    unfolding insert_edge_def
  proof (rule gspec_wf, rule gok_bnd [OF node_used_gok], elim conjE, hypsubst, simp only: n simp_thms if_False,
      rule gok_bnd [OF node_used_gok], elim conjE, hypsubst, simp only: n simp_thms if_False,
      rule gok_bnd [OF write_props_gok [OF ps r2]], elim exE conjE, hypsubst)
    fix r w assume wf: "gwf G" and w: "props_dec L w (map_of ps)" "fresh_ref r w (g_vals G)"
    let ?G1 = "put_value r w G"
    have r3: "2 \<le> g_room ?G1" using room by simp
    show "gspec J (bnd (alloc_edge tid src dst) (\<lambda>eid.
          bnd (case r of None \<Rightarrow> ret () | Some pref \<Rightarrow> bnd (read_edge eid) (\<lambda>edge. write_edge (edge\<lparr>e_property_ref := Some pref\<rparr>))) (\<lambda>_.
          bnd (append_out_edge src eid) (\<lambda>_. bnd (append_in_edge dst eid) (\<lambda>_. ret eid))))) ?G1 ?Q"
    proof (rule gok_bnd [OF alloc_edge_gok [OF r3]], elim conjE, hypsubst)
      fix rid assume new: "g_edges ?G1 rid = None"
      let ?e = "new_edge rid tid src dst"
      let ?G2 = "with_edge rid (Some ?e) 2 ?G1"
      let ?G3 = "?G2\<lparr>g_edges := (g_edges ?G2)(rid \<mapsto> ?e\<lparr>e_property_ref := r\<rparr>)\<rparr>"
      let ?G4 = "linked_in In dst rid (linked_in Out src rid ?G3)"
      have e: "g_edges ?G2 rid = Some ?e" "e_id ?e = rid" "e_property_ref ?e = None" by (simp_all add: new_edge_def)
      have none: "g_edges G rid = None" using new by simp
      have link: "gok J (bnd (append_out_edge src rid) (\<lambda>_. bnd (append_in_edge dst rid) (\<lambda>_. ret rid))) ?G3
          (\<lambda>y G'. y = rid \<and> G' = ?G4)"
        by (rule link_edge_gok [OF wf none, where x = "?e\<lparr>e_property_ref := r\<rparr>"]) (use n in \<open>simp_all add: new_edge_def\<close>)
      have adj: "g_lists ?G4 = pg_adj (link_arc rid ?a A)"
      proof (rule ext)
        fix d show "g_lists ?G4 d = pg_adj (link_arc rid ?a A) d" by (cases d) (simp_all add: R(3) arc_end_def)
      qed
      have "pg_edges A rid = None" "pg_rep L D ?G4 (link_arc rid ?a A)"
        by (rule linked_rep [OF rep none w, where ?G1.0 = ?G3 and G' = ?G4 and a = ?a]; use False adj in \<open>simp add: R(1)\<close>)+
      then have Q: "?Q (Ok rid) ?G4" using False by (intro exI [of _ "link_arc rid ?a A"]) (auto simp: insert_edge_spec_def)
      show "gspec J (bnd (case r of None \<Rightarrow> ret () | Some pref \<Rightarrow> bnd (read_edge rid) (\<lambda>edge. write_edge (edge\<lparr>e_property_ref := Some pref\<rparr>))) (\<lambda>_.
          bnd (append_out_edge src rid) (\<lambda>_. bnd (append_in_edge dst rid) (\<lambda>_. ret rid)))) ?G2 ?Q"
        by (intro gok_bnd [OF set_edge_ref_gok [OF e]], hypsubst, rule gspec_conseq [OF link]) (use Q in blast)
    qed
  qed
qed

section \<open>Replacing the properties and the labels of an edge\<close>

lemma rewritten_rep:
  assumes rep: "pg_rep L D G A" and a: "pg_edges A rid = Some a" and own: "owned (ref_of G') (g_vals G')"
    and att: "\<And>h. h \<noteq> EdgeProps rid \<Longrightarrow> h \<noteq> EdgeLabels rid \<Longrightarrow> att G' h = att G h" and at: "edge_at L G' rid a'"
    and ends: "\<And>d. arc_end d a' = arc_end d a"
    and G': "g_schema G' = g_schema G" "g_lists G' = g_lists G" "g_nodes G' = g_nodes G" "g_labels G' = g_labels G"
      "g_index G' = g_index G" "\<And>r. r \<noteq> rid \<Longrightarrow> g_edges G' r = g_edges G r"
  shows "pg_rep L D G' (set_arc rid (Some a') A)"
proof (rule pg_rep_arc [OF rep G'(1) _ _ _ G'(4,5), where oa = "Some a'"])
  note R = pg_repD [OF rep]
  show "g_lists G' = pg_adj (set_arc rid (Some a') A)" using G'(2) R(3) by simp
  show "gnode G' = gnode G" using G'(3) by (simp add: gnode_def fun_eq_iff)
  show "gedge G' r = gedge G r" if "r \<noteq> rid" for r using G'(6) [OF that] by (simp add: gedge_def)
  show "arcs_ok (set_arc rid (Some a') A)"
    unfolding arcs_ok_def
  proof (intro allI impI)
    fix q b d assume q: "pg_edges (set_arc rid (Some a') A) q = Some b"
    show "pg_nodes (set_arc rid (Some a') A) (arc_end d b) \<noteq> None \<and> q \<in> set (pg_adj (set_arc rid (Some a') A) d (arc_end d b))"
      using q arcs_okD [OF R(8), of q _ d] a ends by (cases "q = rid") auto
  qed
qed (use own att at in simp_all)

lemma set_edge_props_gok:
  assumes rep: "pg_rep L D G A" and a: "pg_edges A rid = Some a" and ps: "props_legal L ps" and room: "2 \<le> g_room G"
  shows "gok J (bnd (write_props L ps) (\<lambda>new_pref. bnd (read_edge rid) (\<lambda>edge. let old_pref = e_property_ref edge in
      bnd (write_edge (edge\<lparr>e_property_ref := new_pref\<rparr>)) (\<lambda>_. free_ref old_pref)))) G
    (\<lambda>_ G'. pg_rep L D G' (set_arc rid (Some (a\<lparr>a_props := map_of ps\<rparr>)) A) \<and> g_room G - 2 \<le> g_room G')"
proof (rule gspec_wf, rule gok_bnd [OF write_props_gok [OF ps room]], elim exE conjE, hypsubst)
  fix r w assume wf: "gwf G" and w: "props_dec L w (map_of ps)" "fresh_ref r w (g_vals G)"
  note R = pg_repD [OF rep]
  have at: "edge_at L G rid a" using R(6) a .
  then obtain e where e: "g_edges G rid = Some e" by (rule edge_atD)
  have id: "e_id e = rid" by (rule gwf_ids(2) [OF wf e])
  let ?e = "e\<lparr>e_property_ref := r\<rparr>"
  let ?G1 = "put_value r w G"
  let ?G2 = "?G1\<lparr>g_edges := (g_edges ?G1)(e_id ?e \<mapsto> ?e)\<rparr>"
  let ?G3 = "drop_value (e_property_ref e) ?G2"
  have e1: "g_edges ?G1 rid = Some e" using e by simp
  have wr: "gok J (write_edge ?e) ?G1 (\<lambda>_ G'. G' = ?G2)"
    by (rule write_edge_gok [where e = e]) (use e id in \<open>simp_all add: next_edge_def end_of_def split: edge_direction.split\<close>)
  have fr: "gok J (free_ref (e_property_ref e)) ?G2 (\<lambda>_ G'. G' = ?G3)"
  proof (rule free_ref_gok)
    fix p assume "e_property_ref e = Some p"
    then have "g_vals G p \<noteq> None" using owned_ref [OF R(2), of "EdgeProps rid" p] e by simp
    then show "g_vals ?G2 p \<noteq> None" using stored_keep [OF w(2)] by simp
  qed
  have ref: "ref_of ?G3 = (ref_of G)(EdgeProps rid := r)" by (rule ref_of_edge(1) [OF _ e]) (use id in simp_all)
  have vals: "g_vals ?G3 = dropped (ref_of G (EdgeProps rid)) (stored_at r w (g_vals G))" using e by simp
  note h = replace_held [OF R(2) ref vals w(2)]
  have at': "edge_at L ?G3 rid (a\<lparr>a_props := map_of ps\<rparr>)"
    using at e h(2) w(1) id unfolding edge_at_def by (simp add: arc_types_def)
  have "pg_rep L D ?G3 (set_arc rid (Some (a\<lparr>a_props := map_of ps\<rparr>)) A)"
    by (rule rewritten_rep [OF rep a h(1) _ at']) (use h(2) id in \<open>auto simp: arc_end_def split: edge_direction.split\<close>)
  then show "gok J (bnd (read_edge rid) (\<lambda>edge. let old_pref = e_property_ref edge in
      bnd (write_edge (edge\<lparr>e_property_ref := r\<rparr>)) (\<lambda>_. free_ref old_pref))) ?G1
    (\<lambda>_ G'. pg_rep L D G' (set_arc rid (Some (a\<lparr>a_props := map_of ps\<rparr>)) A) \<and> g_room G - 2 \<le> g_room G')"
    by (intro gok_bnd [OF read_edge_gok [OF e1]], elim conjE, hypsubst, unfold Let_def, intro gok_bnd [OF wr], hypsubst,
        intro gok_conseq [OF fr]) auto
qed

definition update_edge_spec :: "'n lib \<Rightarrow> schema_dto option \<Rightarrow> 'n pgraph \<Rightarrow> record_id \<Rightarrow> 'n props \<Rightarrow> unit res \<Rightarrow> 'n pgraph \<Rightarrow> bool" where
  "update_edge_spec L D A rid ps r A' \<longleftrightarrow>
     (case pg_edges A rid of
        None \<Rightarrow> r = Err (EdgeNotFound (debug_rid rid)) \<and> A' = A
      | Some a \<Rightarrow>
          (case edge_check_in L D (a_type a) ps of
             Inl e \<Rightarrow> r = Inl e \<and> A' = A
           | Inr _ \<Rightarrow> r = Ok () \<and> A' = set_arc rid (Some (a\<lparr>a_props := map_of ps\<rparr>)) A))"

lemma update_edge_gspec:
  assumes rep: "pg_rep L D G A" and ps: "props_legal L ps" and room: "2 \<le> g_room G"
  shows "gspec J (update_edge_properties L J rid ps) G (\<lambda>r G'. \<exists>A'. pg_rep L D G' A' \<and> update_edge_spec L D A rid ps r A' \<and>
    g_room G - 2 \<le> g_room G')"
proof (cases "pg_edges A rid")
  case None
  then have "g_edges G rid = None" using pg_repD(7) [OF rep] by simp
  then show ?thesis
    unfolding update_edge_properties_def
    by (intro gok_bnd [OF edge_used_gok]) (use rep None in \<open>auto simp: update_edge_spec_def intro!: gspec_fail\<close>)
next
  case (Some a)
  note R = pg_repD [OF rep]
  obtain e where e: "g_edges G rid = Some e" "edge_type_id e = a_type a" using R(6) [OF Some] by (rule edge_atD)
  let ?Q = "\<lambda>r G'. \<exists>A'. pg_rep L D G' A' \<and> update_edge_spec L D A rid ps r A' \<and> g_room G - 2 \<le> g_room G'"
  show ?thesis
    unfolding update_edge_properties_def
  proof (rule gok_bnd [OF edge_used_gok], elim conjE, hypsubst, unfold e(1), simp only: option.distinct not_True_eq_False if_False simp_thms,
      rule gok_bnd [OF read_edge_gok [OF e(1)]], elim conjE, hypsubst, unfold e(2), rule gspec_bnd_eq [OF check_props_gspec(2)])
    fix b assume "edge_check_in L (g_schema G) (a_type a) ps = Inl b"
    then show "?Q (Inl b) G" using rep by (intro exI [of _ A]) (simp add: update_edge_spec_def Some R(1))
  next
    fix y :: unit assume chk: "edge_check_in L (g_schema G) (a_type a) ps = Ok y"
    show "gspec J (bnd (write_props L ps) (\<lambda>new_pref. bnd (read_edge rid) (\<lambda>edge. let old_pref = e_property_ref edge in
      bnd (write_edge (edge\<lparr>e_property_ref := new_pref\<rparr>)) (\<lambda>_. free_ref old_pref)))) G ?Q"
      by (rule gspec_conseq [OF set_edge_props_gok [OF rep Some ps room]])
        (use chk R(1) in \<open>auto simp: update_edge_spec_def Some\<close>)
  qed
qed

section \<open>Additional labels of an edge\<close>

lemma set_edge_labels_gok:
  assumes rep: "pg_rep L D G A" and a: "pg_edges A rid = Some a" and norm: "normalize_labels (a_type a) labels [] = ls"
    and legal: "labels_legal L ls" and room: "2 \<le> g_room G"
  shows "gok J (set_edge_additional_labels L rid labels) G
    (\<lambda>_ G'. pg_rep L D G' (set_arc rid (Some (a\<lparr>a_labels := ls\<rparr>)) A) \<and> g_room G - 2 \<le> g_room G')"
proof -
  note R = pg_repD [OF rep]
  have at: "edge_at L G rid a" using R(6) a .
  then obtain e where e: "g_edges G rid = Some e" "edge_type_id e = a_type a" by (rule edge_atD)
  show ?thesis
    unfolding set_edge_additional_labels_def
  proof (rule gspec_wf, rule gok_bnd [OF read_edge_gok [OF e(1)]], elim conjE, hypsubst, unfold e(2) norm Let_def,
      rule gok_bnd [OF write_labels_gok [OF legal room]], elim exE conjE, hypsubst)
    fix r w assume wf: "gwf G" and w: "labels_dec L w ls" "fresh_ref r w (g_vals G)"
    have id: "e_id e = rid" by (rule gwf_ids(2) [OF wf e(1)])
    let ?e = "e\<lparr>e_label_ref := r\<rparr>"
    let ?G1 = "put_value r w G"
    let ?G2 = "?G1\<lparr>g_edges := (g_edges ?G1)(e_id ?e \<mapsto> ?e)\<rparr>"
    let ?G3 = "drop_value (e_label_ref e) ?G2"
    have wr: "gok J (write_edge ?e) ?G1 (\<lambda>_ G'. G' = ?G2)"
      by (rule write_edge_gok [where e = e]) (use e id in \<open>simp_all add: next_edge_def end_of_def split: edge_direction.split\<close>)
    have fr: "gok J (free_ref (e_label_ref e)) ?G2 (\<lambda>_ G'. G' = ?G3)"
    proof (rule free_ref_gok)
      fix p assume "e_label_ref e = Some p"
      then have "g_vals G p \<noteq> None" using owned_ref [OF R(2), of "EdgeLabels rid" p] e by simp
      then show "g_vals ?G2 p \<noteq> None" using stored_keep [OF w(2)] by simp
    qed
    have ref: "ref_of ?G3 = (ref_of G)(EdgeLabels rid := r)" by (rule ref_of_edge(2) [OF _ e(1)]) (use id in simp_all)
    have vals: "g_vals ?G3 = dropped (ref_of G (EdgeLabels rid)) (stored_at r w (g_vals G))" using e by simp
    note h = replace_held [OF R(2) ref vals w(2)]
    have d: "distinct (a_type a # ls)" using normalize_labels_set [of "[]" "a_type a" labels] norm by auto
    have at': "edge_at L ?G3 rid (a\<lparr>a_labels := ls\<rparr>)"
      using at e h(2) w(1) id d unfolding edge_at_def by (simp add: arc_types_def)
    have "pg_rep L D ?G3 (set_arc rid (Some (a\<lparr>a_labels := ls\<rparr>)) A)"
      by (rule rewritten_rep [OF rep a h(1) _ at']) (use h(2) id in \<open>auto simp: arc_end_def split: edge_direction.split\<close>)
    then show "gok J (bnd (write_edge ?e) (\<lambda>_. free_ref (e_label_ref e))) ?G1
        (\<lambda>_ G'. pg_rep L D G' (set_arc rid (Some (a\<lparr>a_labels := ls\<rparr>)) A) \<and> g_room G - 2 \<le> g_room G')"
      by (intro gok_bnd [OF wr], hypsubst, intro gok_conseq [OF fr]) auto
  qed
qed

definition add_arc_label :: "u16 \<Rightarrow> 'n arc \<Rightarrow> 'n arc" where
  "add_arc_label t a = (if t \<in> set (arc_types a) then a else a\<lparr>a_labels := a_labels a @ [t]\<rparr>)"

definition remove_arc_label :: "u16 \<Rightarrow> 'n arc \<Rightarrow> 'n arc" where
  "remove_arc_label t a = a\<lparr>a_labels := filter (\<lambda>l. l \<noteq> t) (a_labels a)\<rparr>"

lemma set_arc_same: "pg_edges A rid = Some a \<Longrightarrow> set_arc rid (Some a) A = A"
  by (simp add: set_arc_def fun_upd_idem)

lemma pg_rep_arc_distinct: "pg_rep L D G A \<Longrightarrow> pg_edges A rid = Some a \<Longrightarrow> distinct (arc_types a)"
  using pg_repD(6) unfolding edge_at_def by blast

lemma add_edge_label_gok:
  assumes rep: "pg_rep L D G A" and a: "pg_edges A rid = Some a" and legal: "labels_legal L (a_labels (add_arc_label t a))" and room: "2 \<le> g_room G"
  shows "gok J (add_edge_label L rid t) G (\<lambda>_ G'. pg_rep L D G' (set_arc rid (Some (add_arc_label t a)) A) \<and> g_room G - 2 \<le> g_room G')"
  unfolding add_edge_label_def
proof (rule gok_bnd [OF get_edge_labels_gok [OF pg_repD(2) [OF rep] pg_repD(6) [OF rep a]]], elim conjE, hypsubst)
  let ?ls = "a_labels (add_arc_label t a)"
  have d: "distinct (a_type a # a_labels a)" using pg_rep_arc_distinct [OF rep a] by (simp add: arc_types_def)
  show "gok J (if t \<notin> set (a_labels a) then set_edge_additional_labels L rid (a_labels a @ [t]) else ret ()) G
      (\<lambda>_ G'. pg_rep L D G' (set_arc rid (Some (add_arc_label t a)) A) \<and> g_room G - 2 \<le> g_room G')"
  proof (cases "t \<in> set (a_labels a)")
    case True
    then have "add_arc_label t a = a" by (simp add: add_arc_label_def arc_types_def)
    then show ?thesis using True rep set_arc_same [OF a] by (auto intro!: gspec_rets)
  next
    case False
    have norm: "normalize_labels (a_type a) (a_labels a @ [t]) [] = ?ls"
    proof (cases "t = a_type a")
      case True
      then show ?thesis using normalize_snoc_primary [OF d] by (simp add: add_arc_label_def arc_types_def)
    next
      case ne: False
      then have "distinct (a_type a # [] @ a_labels a @ [t])" using d False by auto
      from normalize_id [OF this] show ?thesis using ne False by (simp add: add_arc_label_def arc_types_def)
    qed
    have eq: "a\<lparr>a_labels := ?ls\<rparr> = add_arc_label t a" by (simp add: add_arc_label_def)
    show ?thesis using False set_edge_labels_gok [OF rep a norm legal room, of J] by (simp add: eq)
  qed
qed

lemma remove_edge_label_gok:
  assumes rep: "pg_rep L D G A" and a: "pg_edges A rid = Some a" and legal: "labels_legal L (a_labels (remove_arc_label t a))" and room: "2 \<le> g_room G"
  shows "gok J (remove_edge_label L rid t) G (\<lambda>_ G'. pg_rep L D G' (set_arc rid (Some (remove_arc_label t a)) A) \<and> g_room G - 2 \<le> g_room G')"
  unfolding remove_edge_label_def
proof (rule gok_bnd [OF get_edge_labels_gok [OF pg_repD(2) [OF rep] pg_repD(6) [OF rep a]]], elim conjE, hypsubst)
  let ?ls = "a_labels (remove_arc_label t a)"
  have "distinct (a_type a # [] @ ?ls)" using pg_rep_arc_distinct [OF rep a] by (auto simp: arc_types_def remove_arc_label_def)
  from normalize_id [OF this] have norm: "normalize_labels (a_type a) (filter (\<lambda>l. l \<noteq> t) (a_labels a)) [] = ?ls"
    by (simp add: remove_arc_label_def)
  have eq: "a\<lparr>a_labels := ?ls\<rparr> = remove_arc_label t a" by (simp add: remove_arc_label_def)
  show "gok J (set_edge_additional_labels L rid (filter (\<lambda>l. l \<noteq> t) (a_labels a))) G
      (\<lambda>_ G'. pg_rep L D G' (set_arc rid (Some (remove_arc_label t a)) A) \<and> g_room G - 2 \<le> g_room G')"
    using set_edge_labels_gok [OF rep a norm legal room, of J] by (simp add: eq)
qed

section \<open>Deleting an edge\<close>

text \<open>Both values of a record are freed.\<close>

lemma drop_two:
  assumes own: "owned R V" and ne: "h \<noteq> h'"
  shows "owned (R(h := None, h' := None)) (dropped (R h') (dropped (R h) V))"
    "held (R(h := None, h' := None)) (dropped (R h') (dropped (R h) V)) = (held R V)(h := None, h' := None)"
    "R h' = Some p \<Longrightarrow> dropped (R h) V p \<noteq> None"
proof -
  note 1 = owned_replace [OF own fresh_none, of h, unfolded stored_none]
  have r: "(R(h := None)) h' = R h'" using ne by simp
  note 2 = owned_replace [OF 1(1) fresh_none, of h', unfolded stored_none r]
  show "owned (R(h := None, h' := None)) (dropped (R h') (dropped (R h) V))" by (rule 2(1))
  show "held (R(h := None, h' := None)) (dropped (R h') (dropped (R h) V)) = (held R V)(h := None, h' := None)"
    by (simp only: 2(2) 1(2))
  show "dropped (R h) V p \<noteq> None" if "R h' = Some p" using owned_ref [OF 1(1), of h' p] that r by simp
qed

lemma free_two_gok:
  assumes own: "owned (ref_of G) (g_vals G)" and ne: "h \<noteq> h'"
  shows "gok J (bnd (free_ref (ref_of G h)) (\<lambda>_. free_ref (ref_of G h'))) G (\<lambda>_ G'. G' = drop_value (ref_of G h') (drop_value (ref_of G h) G))"
proof (rule gok_bnd [OF free_ref_gok], erule owned_ref [OF own], hypsubst, rule free_ref_gok)
  fix p assume "ref_of G h' = Some p"
  from drop_two(3) [OF own ne this] show "g_vals (drop_value (ref_of G h) G) p \<noteq> None" by simp
qed

lemma delete_lists_adj:
  assumes ok: "adj_ok A" and a: "pg_edges A rid = Some a" and e: "\<And>d. end_of d e = arc_end d a"
  shows "delete_lists rid e (pg_adj A) = pg_adj (unlink_arc rid A)"
proof (intro ext)
  fix d v
  show "delete_lists rid e (pg_adj A) d v = pg_adj (unlink_arc rid A) d v"
  proof (cases "v = arc_end d a")
    case True
    then show ?thesis using adj_okD(1) [OF ok, of d v] by (simp add: delete_lists_def e distinct_remove1_removeAll removeAll_filter_not_eq eq_commute)
  next
    case False
    have "rid \<notin> set (pg_adj A d v)" using adj_okD(2) [OF ok, of rid d v] a False by auto
    then have "filter (\<lambda>r. r \<noteq> rid) (pg_adj A d v) = pg_adj A d v" by (auto simp: filter_id_conv)
    then show ?thesis using False by (simp add: delete_lists_def e)
  qed
qed

lemma unlinked_arc_rep:
  assumes rep: "pg_rep L D G A" and ok: "adj_ok A" and a: "pg_edges A rid = Some a"
    and G': "unlinked rid (drop_value (ref_of G (EdgeLabels rid)) (drop_value (ref_of G (EdgeProps rid)) G)) G'"
  shows "pg_rep L D G' (unlink_arc rid A)"
proof -
  note R = pg_repD [OF rep]
  obtain e where e: "g_edges G rid = Some e" "\<And>d. end_of d e = arc_end d a" using R(6) [OF a] by (elim edge_atD) blast
  let ?G1 = "drop_value (ref_of G (EdgeLabels rid)) (drop_value (ref_of G (EdgeProps rid)) G)"
  have "EdgeProps rid \<noteq> EdgeLabels rid" by simp
  note two = drop_two [OF R(2) this]
  have g1: "gnode ?G1 = gnode G" "gedge ?G1 = gedge G" by (simp_all add: gnode_def gedge_def fun_eq_iff)
  have u: "gnode G' = gnode G" "gedge G' = (gedge G)(rid := None)" "g_lists G' = delete_lists rid e (pg_adj A)"
      "g_vals G' = dropped (ref_of G (EdgeLabels rid)) (dropped (ref_of G (EdgeProps rid)) (g_vals G))"
      "g_labels G' = g_labels G" "g_index G' = g_index G" "g_schema G' = g_schema G"
    using G' unfolding unlinked_def g1 by (simp_all add: gedge_def e R(3))
  have ref: "ref_of G' = (ref_of G)(EdgeProps rid := None, EdgeLabels rid := None)"
  proof (rule ext)
    fix h show "ref_of G' h = ((ref_of G)(EdgeProps rid := None, EdgeLabels rid := None)) h"
      by (cases h) (auto simp only: ref_of_data u(1,2) fun_upd_apply holder.inject holder.distinct if_False if_True bind.bind_lzero
        split: if_splits)
  qed
  show ?thesis
  proof (rule pg_rep_arc [OF rep u(7) _ u(1) _ u(5,6), where oa = None])
    show "g_lists G' = pg_adj (unlink_arc rid A)" unfolding u(3) by (rule delete_lists_adj [OF ok a e(2)])
    show "gedge G' r = gedge G r" if "r \<noteq> rid" for r using that by (simp add: u(2))
    show "owned (ref_of G') (g_vals G')" unfolding ref u(4) by (rule two(1))
    show "att G' h = att G h" if "h \<noteq> EdgeProps rid" "h \<noteq> EdgeLabels rid" for h unfolding ref u(4) two(2) using that by simp
    show "g_edges G' rid = None" using fun_cong [OF u(2), of rid] by (simp add: gedge_def)
    show "arcs_ok (unlink_arc rid A)" using R(8) by (auto simp: arcs_ok_def)
  qed simp_all
qed

lemma drop_edge_gok:
  assumes rep: "pg_rep L D G A" and a: "pg_edges A rid = Some a" and e: "g_edges G rid = Some e"
  shows "gok J (bnd (bnd (free_ref (e_property_ref e)) (\<lambda>_. free_ref (e_label_ref e))) (\<lambda>_. delete_edge rid)) G
    (\<lambda>_ G'. pg_rep L D G' (unlink_arc rid A) \<and> g_room G' = g_room G)"
proof (rule gspec_wf)
  assume wf: "gwf G"
  note R = pg_repD [OF rep] and ok = gwf_adj_ok [OF wf rep]
  have end_eq: "end_of d e = arc_end d a" for d using R(6) [OF a] e by (elim edge_atD) auto
  have refs: "ref_of G (EdgeProps rid) = e_property_ref e" "ref_of G (EdgeLabels rid) = e_label_ref e" by (simp_all add: e)
  have ne: "EdgeProps rid \<noteq> EdgeLabels rid" by simp
  let ?G1 = "drop_value (ref_of G (EdgeLabels rid)) (drop_value (ref_of G (EdgeProps rid)) G)"
  note two = free_two_gok [OF R(2) ne, of J, unfolded refs]
  have e1: "g_edges ?G1 rid = Some e" by (simp add: e)
  have ends: "g_nodes ?G1 (end_of d e) \<noteq> None" "rid \<in> set (g_lists ?G1 d (end_of d e))" for d
    using arcs_okD [OF R(8) a, of d] R(5) [of "arc_end d a"] by (simp_all add: end_eq R(3))
  note del = delete_edge_gok [OF e1 ends, of J]
  show "gok J (bnd (bnd (free_ref (e_property_ref e)) (\<lambda>_. free_ref (e_label_ref e))) (\<lambda>_. delete_edge rid)) G
      (\<lambda>_ G'. pg_rep L D G' (unlink_arc rid A) \<and> g_room G' = g_room G)"
  proof (rule gok_bnd [OF two], unfold refs [symmetric], hypsubst, rule gok_conseq [OF del])
    fix G' assume u: "unlinked rid ?G1 G'"
    then have "g_room G' = g_room G" by (simp add: unlinked_def)
    then show "pg_rep L D G' (unlink_arc rid A) \<and> g_room G' = g_room G" using unlinked_arc_rep [OF rep ok a u] by blast
  qed
qed

definition delete_edge_spec :: "'n pgraph \<Rightarrow> record_id \<Rightarrow> unit res \<Rightarrow> 'n pgraph \<Rightarrow> bool" where
  "delete_edge_spec A rid r A' \<longleftrightarrow>
     (if pg_edges A rid = None then r = Err (EdgeNotFound (debug_rid rid)) \<and> A' = A else r = Ok () \<and> A' = unlink_arc rid A)"

lemma delete_edge_gspec:
  assumes rep: "pg_rep L D G A"
  shows "gspec J (db_delete_edge rid) G (\<lambda>r G'. \<exists>A'. pg_rep L D G' A' \<and> delete_edge_spec A rid r A' \<and> g_room G' = g_room G)"
proof (cases "pg_edges A rid")
  case None
  then have "g_edges G rid = None" using pg_repD(7) [OF rep] by simp
  then show ?thesis
    unfolding db_delete_edge_def
    by (intro gok_bnd [OF edge_used_gok]) (use rep None in \<open>auto simp: delete_edge_spec_def intro!: gspec_fail\<close>)
next
  case (Some a)
  obtain e where e: "g_edges G rid = Some e" using pg_repD(6) [OF rep Some] by (rule edge_atD)
  note drop = drop_edge_gok [OF rep Some e, of J, unfolded bnd_assoc]
  show ?thesis
    unfolding db_delete_edge_def
    by (rule gok_bnd [OF edge_used_gok], elim conjE, hypsubst, unfold e(1), simp only: option.distinct not_True_eq_False if_False simp_thms,
      rule gok_bnd [OF read_edge_gok [OF e(1)]], elim conjE, hypsubst, rule gspec_conseq [OF drop])
      (auto simp: delete_edge_spec_def Some)
qed

section \<open>Deleting a node\<close>

fun drop_arcs :: "record_id list \<Rightarrow> record_id list \<Rightarrow> 'n pgraph \<Rightarrow> 'n pgraph" where
  "drop_arcs seen [] A = A"
| "drop_arcs seen (e # es) A = (if e \<in> set seen then drop_arcs seen es A else drop_arcs (e # seen) es (unlink_arc e A))"

lemma drop_arcs_nodes [simp]: "pg_nodes (drop_arcs seen es A) = pg_nodes A"
  by (induction seen es A rule: drop_arcs.induct) simp_all

lemma drop_arcs_edges: "pg_edges (drop_arcs seen es A) = (\<lambda>r. if r \<in> set es - set seen then None else pg_edges A r)"
  by (induction seen es A rule: drop_arcs.induct) (auto simp: fun_eq_iff)

lemma drop_arcs_adj: "pg_adj (drop_arcs seen es A) = (\<lambda>d v. filter (\<lambda>r. r \<notin> set es - set seen) (pg_adj A d v))"
  by (induction seen es A rule: drop_arcs.induct) (auto simp: fun_eq_iff intro!: filter_cong)

lemma cascade_gok:
  assumes "pg_rep L D G A" "\<And>e. e \<in> set es \<Longrightarrow> e \<in> set seen \<or> pg_edges A e \<noteq> None"
  shows "gok J (delete_cascade seen es) G (\<lambda>_ G'. pg_rep L D G' (drop_arcs seen es A) \<and> g_room G' = g_room G)"
  using assms
proof (induction seen es A arbitrary: G rule: drop_arcs.induct)
  case (1 seen A)
  then show ?case by (auto intro!: gspec_rets)
next
  case (2 seen eid es A)
  show ?case
  proof (cases "eid \<in> set seen")
    case True
    then show ?thesis using "2.IH"(1) [OF True "2.prems"(1)] "2.prems"(2) by simp
  next
    case False
    then obtain a where a: "pg_edges A eid = Some a" using "2.prems"(2) [of eid] by auto
    obtain e where e: "g_edges G eid = Some e" using pg_repD(6) [OF "2.prems"(1) a] by (rule edge_atD)
    note drop = drop_edge_gok [OF "2.prems"(1) a e, of J]
    have left: "x \<in> set (eid # seen) \<or> pg_edges (unlink_arc eid A) x \<noteq> None" if "x \<in> set es" for x
      using "2.prems"(2) [of x] that by auto
    have step: "gok J (bnd (bnd (bnd (free_ref (e_property_ref e)) (\<lambda>_. free_ref (e_label_ref e))) (\<lambda>_. delete_edge eid))
        (\<lambda>_. delete_cascade (eid # seen) es)) G (\<lambda>_ G'. pg_rep L D G' (drop_arcs seen (eid # es) A) \<and> g_room G' = g_room G)"
    proof (rule gok_bnd [OF drop], elim conjE)
      fix G1 assume g: "pg_rep L D G1 (unlink_arc eid A)" "g_room G1 = g_room G"
      show "gok J (delete_cascade (eid # seen) es) G1 (\<lambda>_ G'. pg_rep L D G' (drop_arcs seen (eid # es) A) \<and> g_room G' = g_room G)"
        by (rule gok_conseq [OF "2.IH"(2) [OF False g(1) left]]) (use False g(2) in auto)
    qed
    show ?thesis
      unfolding delete_cascade.simps if_not_P [OF False]
      by (rule gok_bnd [OF gok_attempt [OF read_edge_gok [OF e]]], elim exE conjE, hypsubst)
        (use step in \<open>simp add: bnd_assoc\<close>)
  qed
qed

definition incident :: "'n pgraph \<Rightarrow> record_id \<Rightarrow> record_id \<Rightarrow> bool" where
  "incident A rid r \<longleftrightarrow> (\<exists>a. pg_edges A r = Some a \<and> (a_from a = rid \<or> a_to a = rid))"

definition delete_vertex :: "record_id \<Rightarrow> 'n pgraph \<Rightarrow> 'n pgraph" where
  "delete_vertex rid A = A\<lparr>pg_nodes := (pg_nodes A)(rid := None),
     pg_edges := (\<lambda>r. if incident A rid r then None else pg_edges A r),
     pg_adj := (\<lambda>d v. filter (\<lambda>r. \<not> incident A rid r) (pg_adj A d v))\<rparr>"

lemma incident_listed:
  assumes ok: "adj_ok A" and arcs: "arcs_ok A"
  shows "incident A rid r \<longleftrightarrow> r \<in> set (pg_adj A Out rid @ pg_adj A In rid)"
proof
  assume "incident A rid r"
  then obtain a where a: "pg_edges A r = Some a" "arc_end Out a = rid \<or> arc_end In a = rid"
    by (auto simp: incident_def arc_end_def)
  then show "r \<in> set (pg_adj A Out rid @ pg_adj A In rid)" using arcs_okD [OF arcs a(1)] by auto
next
  assume "r \<in> set (pg_adj A Out rid @ pg_adj A In rid)"
  then obtain d where "r \<in> set (pg_adj A d rid)" by auto
  from adj_okD(2) [OF ok this] show "incident A rid r" by (cases d) (auto simp: incident_def arc_end_def)
qed

lemma delete_vertex_eq:
  assumes ok: "adj_ok A" and arcs: "arcs_ok A"
  shows "set_vertex rid None (drop_arcs [] (pg_adj A Out rid @ pg_adj A In rid) A) = delete_vertex rid A"
proof -
  have i: "incident A rid = (\<lambda>r. r \<in> set (pg_adj A Out rid @ pg_adj A In rid))"
    by (rule ext) (rule incident_listed [OF ok arcs])
  let ?A = "set_vertex rid None (drop_arcs [] (pg_adj A Out rid @ pg_adj A In rid) A)"
  have "pg_nodes ?A = pg_nodes (delete_vertex rid A)" "pg_edges ?A = pg_edges (delete_vertex rid A)"
      "pg_adj ?A = pg_adj (delete_vertex rid A)"
    unfolding delete_vertex_def i by (simp_all add: drop_arcs_edges drop_arcs_adj fun_eq_iff)
  then show ?thesis by simp
qed

lemma removed_vertex_rep:
  assumes rep: "pg_rep L D G A" and v: "pg_nodes A rid = Some v" and none: "\<And>d. pg_adj A d rid = []"
    and G': "g_schema G' = g_schema G" "g_lists G' = g_lists G" "g_edges G' = g_edges G" "g_nodes G' = (g_nodes G)(rid := None)"
      "g_vals G' = dropped (ref_of G (NodeLabels rid)) (dropped (ref_of G (NodeProps rid)) (g_vals G))"
      "g_labels G' = unlabelled rid (all_types v) (g_labels G)"
      "g_index G' = g_index G - entries_for L (v_type v) rid (v_props v) (indexed_in D (v_type v))"
  shows "pg_rep L D G' (set_vertex rid None A)"
proof (rule pg_repI)
  note R = pg_repD [OF rep]
  have ne: "NodeProps rid \<noteq> NodeLabels rid" by simp
  note two = drop_two [OF R(2) ne]
  have ref: "ref_of G' = (ref_of G)(NodeProps rid := None, NodeLabels rid := None)"
  proof (rule ext)
    fix h show "ref_of G' h = ((ref_of G)(NodeProps rid := None, NodeLabels rid := None)) h"
      by (cases h) (auto simp: G'(3,4))
  qed
  have att: "att G' h = att G h" if "h \<noteq> NodeProps rid" "h \<noteq> NodeLabels rid" for h
    unfolding ref G'(5) two(2) using that by simp
  show "g_schema G' = D" "g_lists G' = pg_adj (set_vertex rid None A)" using R(1,3) G'(1,2) by simp_all
  show "owned (ref_of G') (g_vals G')" unfolding ref G'(5) by (rule two(1))
  show "node_at L G' r u" if "pg_nodes (set_vertex rid None A) r = Some u" for r u
  proof -
    have r: "r \<noteq> rid" "pg_nodes A r = Some u" using that by (auto split: if_splits)
    have "node_at L G r u" using R(4) r(2) .
    then show ?thesis by (rule node_at_cong) (simp_all add: gnode_def G'(4) att r(1))
  qed
  show "g_nodes G' r = None" if "pg_nodes (set_vertex rid None A) r = None" for r
    using that R(5) [of r] by (auto simp: G'(4) split: if_splits)
  show "edge_at L G' r a" if "pg_edges (set_vertex rid None A) r = Some a" for r a
  proof -
    have "edge_at L G r a" using R(6) that by simp
    then show ?thesis by (rule edge_at_cong) (simp_all add: gedge_def G'(3) att)
  qed
  show "g_edges G' r = None" if "pg_edges (set_vertex rid None A) r = None" for r using that R(7) [of r] by (simp add: G'(3))
  show "arcs_ok (set_vertex rid None A)"
    unfolding arcs_ok_def
  proof (intro allI impI)
    fix q b d assume "pg_edges (set_vertex rid None A) q = Some b"
    then have q: "pg_nodes A (arc_end d b) \<noteq> None" "q \<in> set (pg_adj A d (arc_end d b))" using arcs_okD [OF R(8), of q b d] by simp_all
    then have "arc_end d b \<noteq> rid" using none [of d] by auto
    then show "pg_nodes (set_vertex rid None A) (arc_end d b) \<noteq> None \<and> q \<in> set (pg_adj (set_vertex rid None A) d (arc_end d b))"
      using q by simp
  qed
  show "labels_ok (pg_nodes (set_vertex rid None A)) (g_labels G')"
    unfolding set_record_simps by (rule labels_ok_change [OF R(9)]) (simp add: G'(6) types_at_def v unlabelled_def)
  show "index_ok L D (pg_nodes (set_vertex rid None A)) (g_index G')"
    unfolding set_record_simps by (rule index_ok_change [OF R(10)]) (simp add: G'(7) node_entries_def v)
qed

lemma get_node_types_gok:
  assumes own: "owned (ref_of G) (g_vals G)" and v: "node_at L G rid v"
  shows "gok J (get_node_type_ids L rid) G (\<lambda>ts G'. ts = all_types v \<and> G' = G)"
proof -
  obtain n where n: "g_nodes G rid = Some n" "node_type_id n = v_type v" using v by (rule node_atD)
  show ?thesis
    unfolding get_node_type_ids_def
    by (rule gok_bnd [OF read_node_gok [OF n(1)]], elim conjE, hypsubst, rule gok_bnd [OF get_labels_gok [OF own v]])
      (auto simp: n(2) all_types_def intro!: gspec_rets)
qed

text \<open>What follows the cascade, on a node without edges.\<close>

lemma remove_node_gok:
  assumes rep: "pg_rep L D G A" and v: "pg_nodes A rid = Some v" and none: "\<And>d. pg_adj A d rid = []"
  shows "gok J (bnd (read_node rid) (\<lambda>node. bnd (get_node_properties_raw L rid) (\<lambda>props.
      bnd (maintain_property_index L J (node_type_id node) rid props OpRemove) (\<lambda>_. bnd (get_node_type_ids L rid) (\<lambda>type_ids.
      bnd (unlabel_all rid type_ids) (\<lambda>_. bnd (free_ref (n_property_ref node)) (\<lambda>_. bnd (free_ref (n_label_ref node)) (\<lambda>_.
      free_node rid)))))))) G
    (\<lambda>_ G'. pg_rep L D G' (set_vertex rid None A) \<and> g_room G' = g_room G)"
proof -
  note R = pg_repD [OF rep]
  have at: "node_at L G rid v" using R(4) v .
  obtain n where n: "g_nodes G rid = Some n" "node_type_id n = v_type v" using at by (rule node_atD)
  have d: "distinct (all_types v)" using at unfolding node_at_def by blast
  have refs: "ref_of G (NodeProps rid) = n_property_ref n" "ref_of G (NodeLabels rid) = n_label_ref n" by (simp_all add: n)
  have ne: "NodeProps rid \<noteq> NodeLabels rid" by simp
  show ?thesis
  proof (rule gok_bnd [OF read_node_gok [OF n(1)]], elim conjE, hypsubst, unfold n(2), rule gok_bnd [OF get_props_gok [OF R(2) at]],
      elim conjE, hypsubst, rule gok_bnd [OF maintain_gok(2)], hypsubst)
    fix props assume p: "map_of props = v_props v"
    let ?G1 = "with_entries (g_index G - entries_for L (v_type v) rid (map_of props) (indexed_in (g_schema G) (v_type v))) 0 G"
    let ?G2 = "with_labels (unlabelled rid (all_types v) (g_labels ?G1)) 0 ?G1"
    let ?G3 = "drop_value (n_label_ref n) (drop_value (n_property_ref n) ?G2)"
    let ?G4 = "with_node rid None 0 ?G3"
    have ref1: "ref_of ?G1 = ref_of G" and ref2: "ref_of ?G2 = ref_of G" by (rule ref_of_cong; simp add: gnode_def gedge_def fun_eq_iff)+
    have own1: "owned (ref_of ?G1) (g_vals ?G1)" and own2: "owned (ref_of ?G2) (g_vals ?G2)"
      using R(2) unfolding ref1 ref2 by simp_all
    have at1: "node_at L ?G1 rid v" by (rule node_at_cong [OF at]) (simp_all add: gnode_def ref1)
    note two = free_two_gok [OF own2 ne, of J, unfolded ref2 refs]
    have n3: "g_nodes ?G3 rid = Some n" "g_lists ?G3 d rid = []" for d using n none by (simp_all add: R(3))
    have fin: "pg_rep L D ?G4 (set_vertex rid None A)"
      by (rule removed_vertex_rep [OF rep v none]) (simp_all add: n p R(1))
    have "gok J (bnd (bnd (free_ref (n_property_ref n)) (\<lambda>_. free_ref (n_label_ref n))) (\<lambda>_. free_node rid)) ?G2
        (\<lambda>_ G'. pg_rep L D G' (set_vertex rid None A) \<and> g_room G' = g_room G)"
      by (rule gok_bnd [OF two], hypsubst, rule gok_conseq [OF free_node_gok [OF n3]]) (use fin in auto)
    then show "gok J (bnd (get_node_type_ids L rid) (\<lambda>type_ids. bnd (unlabel_all rid type_ids) (\<lambda>_.
        bnd (free_ref (n_property_ref n)) (\<lambda>_. bnd (free_ref (n_label_ref n)) (\<lambda>_. free_node rid))))) ?G1
        (\<lambda>_ G'. pg_rep L D G' (set_vertex rid None A) \<and> g_room G' = g_room G)"
      unfolding bnd_assoc
      by (intro gok_bnd [OF get_node_types_gok [OF own1 at1]], elim conjE, hypsubst, intro gok_bnd [OF unlabel_all_gok [OF d]], hypsubst)
  qed
qed

definition delete_node_spec :: "'n pgraph \<Rightarrow> record_id \<Rightarrow> unit res \<Rightarrow> 'n pgraph \<Rightarrow> bool" where
  "delete_node_spec A rid r A' \<longleftrightarrow>
     (if pg_nodes A rid = None then r = Err (NodeNotFound (debug_rid rid)) \<and> A' = A else r = Ok () \<and> A' = delete_vertex rid A)"

lemma delete_node_gspec:
  assumes rep: "pg_rep L D G A"
  shows "gspec J (delete_node L J rid) G (\<lambda>r G'. \<exists>A'. pg_rep L D G' A' \<and> delete_node_spec A rid r A' \<and> g_room G' = g_room G)"
proof (cases "pg_nodes A rid")
  case None
  then have "g_nodes G rid = None" using pg_repD(5) [OF rep] by simp
  then show ?thesis
    unfolding delete_node_def
    by (intro gok_bnd [OF node_used_gok]) (use rep None in \<open>auto simp: delete_node_spec_def intro!: gspec_fail\<close>)
next
  case (Some v)
  note R = pg_repD [OF rep]
  obtain n where n: "g_nodes G rid = Some n" using R(4) [OF Some] by (rule node_atD)
  let ?es = "pg_adj A Out rid @ pg_adj A In rid"
  let ?A = "drop_arcs [] ?es A"
  show ?thesis
  proof (rule gspec_wf)
    assume wf: "gwf G"
    note ok = gwf_adj_ok [OF wf rep]
    have ids: "map e_id (map (\<lambda>r. the (g_edges G r)) (g_lists G d rid)) = pg_adj A d rid" for d
    proof -
      have "map e_id (map (\<lambda>r. the (g_edges G r)) (g_lists G d rid)) = map (\<lambda>r. r) (g_lists G d rid)"
        unfolding map_map comp_def
        by (rule map_cong [OF refl]) (use gwf_listed [OF wf] gwf_ids(2) [OF wf] in fastforce)
      then show ?thesis by (simp add: R(3))
    qed
    have live: "e \<in> set [] \<or> pg_edges A e \<noteq> None" if "e \<in> set ?es" for e
      using adj_okD(2) [OF ok, of e Out rid] adj_okD(2) [OF ok, of e In rid] that by auto
    have none: "pg_adj ?A d rid = []" for d by (cases d) (simp_all add: drop_arcs_adj filter_empty_conv)
    have v: "pg_nodes ?A rid = Some v" using Some by simp
    show "gspec J (delete_node L J rid) G (\<lambda>r G'. \<exists>A'. pg_rep L D G' A' \<and> delete_node_spec A rid r A' \<and> g_room G' = g_room G)"
      unfolding delete_node_def collect_out_edges_def collect_in_edges_def
    proof (rule gok_bnd [OF node_used_gok], elim conjE, hypsubst, unfold n, simp only: option.distinct not_True_eq_False if_False simp_thms,
        rule gok_bnd [OF collect_gok [OF n]], elim conjE, hypsubst, rule gok_bnd [OF collect_gok [OF n]], elim conjE, hypsubst, unfold ids,
        rule gok_bnd [OF cascade_gok [OF rep live]], assumption, elim conjE)
      fix G1 assume g: "pg_rep L D G1 ?A" "g_room G1 = g_room G"
      show "gspec J (bnd (read_node rid) (\<lambda>node. bnd (get_node_properties_raw L rid) (\<lambda>props.
          bnd (maintain_property_index L J (node_type_id node) rid props OpRemove) (\<lambda>_. bnd (get_node_type_ids L rid) (\<lambda>type_ids.
          bnd (unlabel_all rid type_ids) (\<lambda>_. bnd (free_ref (n_property_ref node)) (\<lambda>_. bnd (free_ref (n_label_ref node)) (\<lambda>_.
          free_node rid)))))))) G1 (\<lambda>r G'. \<exists>A'. pg_rep L D G' A' \<and> delete_node_spec A rid r A' \<and> g_room G' = g_room G)"
        by (rule gspec_conseq [OF remove_node_gok [OF g(1) v none]])
          (use g(2) in \<open>auto simp: delete_node_spec_def Some delete_vertex_eq [OF ok R(8)]\<close>)
    qed
  qed
qed

end
