(* ===== verification/Graph_Schema.thy ===== *)
theory Graph_Schema
  imports Graph_Store
begin

text \<open>
  The operations on the stored schema, lifted to the state of an open database: a schema is written on
  fresh pages, next to the records, the values and the indexes, and none of these changes.
\<close>

section \<open>Writing a schema\<close>

text \<open>The codec returns what it was given, and the encoding takes \<open>k\<close> pages.\<close>

definition encodes_to :: "json_codec \<Rightarrow> schema_dto \<Rightarrow> nat \<Rightarrow> bool" where
  "encodes_to J dto k \<longleftrightarrow> (\<exists>bytes. to_vec J dto = Inr bytes \<and> from_slice J bytes = Inr dto \<and> k = pages_needed (length bytes))"

definition with_schema :: "schema_dto \<Rightarrow> nat \<Rightarrow> gstore \<Rightarrow> gstore" where
  "with_schema dto k G = G\<lparr>g_schema := Some dto, g_room := g_room G - k\<rparr>"

lemma with_schema_simps [simp]:
  "g_nodes (with_schema dto k G) = g_nodes G" "g_edges (with_schema dto k G) = g_edges G" "g_lists (with_schema dto k G) = g_lists G"
  "g_vals (with_schema dto k G) = g_vals G" "g_labels (with_schema dto k G) = g_labels G" "g_index (with_schema dto k G) = g_index G"
  "g_schema (with_schema dto k G) = Some dto" "g_room (with_schema dto k G) = g_room G - k"
  by (simp_all add: with_schema_def)

lemma index_header_schema: "index_header (\<lambda>h. h\<lparr>schema_root := r, schema_version := schema_version h + 1\<rparr>)"
  by (auto simp: index_header_def topo_part_def keeps_dirs_def hide_roots_def dir_of_def property_dir_def
      topology_dir_def space_len_def split: space.splits)

lemma write_schema_gok:
  assumes enc: "encodes_to J dto k" and room: "k \<le> g_room G"
  shows "gok J (write_schema_dto J dto) G (\<lambda>_ G'. G' = with_schema dto k G)"
  unfolding gspec_def
proof (intro allI impI)
  fix db assume "gstore_rep J db G"
  then obtain v S own pids phys where v: "db_rep db v" "layout v S own pids phys" "gstate S G"
      "extras J v (dom (sp_other S)) (g_labels G) (g_index G) (g_schema G)" by (rule gstore_repE)
  from v(4) obtain R C B ps0 where x: "label_rep v R C (g_labels G)" "index_rep v B (g_index G)" "schema_rep J v ps0 (g_schema G)"
      "li_own R C \<inter> pi_own v B = {}" "li_own R C \<inter> schema_own v ps0 = {}" "pi_own v B \<inter> schema_own v ps0 = {}"
      "li_own R C \<subseteq> dom (sp_other S)" "pi_own v B \<subseteq> dom (sp_other S)" "schema_own v ps0 \<subseteq> dom (sp_other S)"
    by (rule extrasE)
  have r: "vcount v + k < 2 ^ 32" "k \<le> sp_room S" using gstate_room [OF v(2,3) room] by blast+
  note ok = layoutD(1,2) [OF v(2)]
  have fit: "fits J (vcount v) dto (vcount v + k)" using enc r(1) by (auto simp: encodes_to_def fits_def)
  obtain v' ps where w: "db_does (write_schema_dto J dto) v (Ok ()) v'" "schema_at J v' ps dto" "vol_ok v'" "vcount v' = vcount v + k"
      "vhdr v' = (vhdr v)\<lparr>schema_root := of_nat (vcount v), schema_version := schema_version (vhdr v) + 1\<rparr>"
      "own_frame (length ps) v {} v' (schema_own v' ps)"
    using write_schema_does [OF ok fit] by blast
  have f: "own_frame k v {} v' (schema_own v' ps)" using w(4,6) by (simp add: own_frame_def)
  let ?g = "\<lambda>h. h\<lparr>schema_root := of_nat (vcount v), schema_version := schema_version h + 1\<rparr>"
  let ?S = "index_moved (schema_own v' ps) v' k ?g S"
  have at: "schema_pages_at v' ps" using w(2) by (simp add: schema_at_def)
  have L: "layout v' ?S own pids phys"
    by (rule layout_index [OF v(2) f _ w(3) _ w(5) index_header_schema r(2)])
      (use schema_own_mapped [OF w(3) at] in auto)
  have pos: "0 < vcount v'" by (rule layoutD(2) [OF L])
  note kl = frame_keeps [OF f label_rep_mapped [OF x(1)] Int_empty_left]
    and ki = frame_keeps [OF f index_rep_mapped [OF x(2)] Int_empty_left]
  note l = label_rep_cong [OF x(1) w(3) pos _ kl(1)] and i = index_rep_cong [OF x(2) w(3) pos _ ki(1)]
  have s: "schema_rep J v' ps (Some dto)" using w(2) by (simp add: schema_rep_def)
  have roots: "label_root v' = label_root v" "pi_root v' = pi_root v" using w(5) by simp_all
  have own: "pi_own v' B = pi_own v B" by (rule i(2) [OF roots(2)])
  have "extras J v' (dom (sp_other ?S)) (g_labels G) (g_index G) (Some dto)"
    by (rule extrasI [OF l [OF roots(1)] i(1) [OF roots(2)] s]) (use own kl(2) ki(2) x(4,7,8) in auto)
  moreover obtain db' where db': "write_schema_dto J dto db = (Ok (), db')" "db_rep db' v'" "db_since db db'"
    using w(1) v(1) unfolding does_def by blast
  moreover have "gstate ?S (with_schema dto k G)"
    using gstate_index [OF v(3) index_header_schema room] by (simp add: gstate_def)
  ultimately have "gstore_rep J db' (with_schema dto k G)" by (intro gstore_repI [OF db'(2) L]) simp_all
  then show "\<exists>r db' G'. write_schema_dto J dto db = (r, db') \<and> gstore_rep J db' G' \<and> db_since db db' \<and>
      (\<exists>x. r = Ok x \<and> G' = with_schema dto k G)"
    using db' by blast
qed

section \<open>The calls\<close>

text \<open>What a call does to the state: nothing, or it replaces the schema.\<close>

definition schema_moved :: "schema_dto option \<Rightarrow> nat \<Rightarrow> gstore \<Rightarrow> gstore" where
  "schema_moved new k G = (case new of None \<Rightarrow> G | Some dto \<Rightarrow> with_schema dto k G)"

definition writable :: "json_codec \<Rightarrow> nat \<Rightarrow> schema_dto option \<Rightarrow> bool" where
  "writable J k new \<longleftrightarrow> (\<forall>dto. new = Some dto \<longrightarrow> encodes_to J dto k)"

lemma previous_gspec:
  "gspec J (previous_schema J ast chk) G (\<lambda>r G'. r =
     (case (case g_schema G of Some old \<Rightarrow> if chk then validate_migration (dto_to_ast old) ast else Ok () | None \<Rightarrow> Ok ()) of
       Inl e \<Rightarrow> Inl e | Inr _ \<Rightarrow> Ok (g_schema G)) \<and> G' = G)"
  by (rule lift_read) (use previous_schema_does [OF schema_held] in blast)

definition schema_does ::
  "json_codec \<Rightarrow> nat \<Rightarrow> schema_call \<Rightarrow> gstore \<Rightarrow> ('a res \<Rightarrow> schema_reply) \<Rightarrow> (database_file, 'a) op \<Rightarrow> bool" where
  "schema_does J k c G f m \<longleftrightarrow> gspec J m G (\<lambda>r G'. f r = fst (schema_plan (g_schema G) c) \<and>
     G' = schema_moved (snd (schema_plan (g_schema G) c)) k G)"

lemma save_schema_does:
  assumes w: "writable J k (snd (schema_plan (g_schema G) (SaveSchema ast chk)))" and room: "k \<le> g_room G"
  shows "schema_does J k (SaveSchema ast chk) G Saved (save_schema_with J ast chk)"
  unfolding schema_does_def save_schema_with_def
proof (rule gspec_bnd [OF previous_gspec], elim conjE)
  let ?r = "case g_schema G of Some old \<Rightarrow> if chk then validate_migration (dto_to_ast old) ast else Ok () | None \<Rightarrow> Ok ()"
  let ?new = "assign_type_ids (ast_to_dto ast) (g_schema G)"
  fix x G1 assume x: "Ok x = (case ?r of Inl e \<Rightarrow> Inl e | Inr _ \<Rightarrow> Ok (g_schema G))" "G1 = G"
  obtain u where u: "?r = Inr u" and xe: "x = g_schema G" using x(1) by (cases ?r) auto
  have plan: "schema_plan (g_schema G) (SaveSchema ast chk) = (Saved (Ok ()), Some ?new)" using u by simp
  have "encodes_to J ?new k" using w unfolding plan writable_def by simp
  from write_schema_gok [OF this room]
  show "gspec J (write_schema_dto J (assign_type_ids (ast_to_dto ast) x)) G1
     (\<lambda>r G'. Saved r = fst (schema_plan (g_schema G) (SaveSchema ast chk)) \<and>
       G' = schema_moved (snd (schema_plan (g_schema G) (SaveSchema ast chk))) k G)"
    unfolding plan x(2) xe by (rule gspec_conseq) (auto simp: schema_moved_def)
next
  let ?r = "case g_schema G of Some old \<Rightarrow> if chk then validate_migration (dto_to_ast old) ast else Ok () | None \<Rightarrow> Ok ()"
  fix a G1 assume "Inl a = (case ?r of Inl e \<Rightarrow> Inl e | Inr _ \<Rightarrow> Ok (g_schema G)) \<and> G1 = G"
  then have "?r = Inl a" "G1 = G" by (auto split: sum.splits)
  then show "Saved (Inl a) = fst (schema_plan (g_schema G) (SaveSchema ast chk)) \<and>
      G1 = schema_moved (snd (schema_plan (g_schema G) (SaveSchema ast chk))) k G"
    by (simp add: schema_moved_def)
qed

lemma register_type_does:
  assumes w: "writable J k (snd (schema_plan (g_schema G) (RegisterType kind name)))" and room: "k \<le> g_room G"
  shows "schema_does J k (RegisterType kind name) G Registered (register_dynamic_type J kind name)"
  unfolding schema_does_def register_dynamic_type_def
proof (rule gspec_bnd [OF load_schema_dto_gspec], elim conjE)
  fix dto G1 assume d: "Ok dto = (case g_schema G of None \<Rightarrow> no_schema | Some dto \<Rightarrow> Ok dto)" "G1 = G"
  then have s: "g_schema G = Some dto" by (auto simp: no_schema_def split: option.splits)
  let ?Q = "\<lambda>r G'. Registered r = fst (schema_plan (g_schema G) (RegisterType kind name)) \<and>
     G' = schema_moved (snd (schema_plan (g_schema G) (RegisterType kind name))) k G"
  let ?k = "\<lambda>r. case r of Inl tid \<Rightarrow> ret (tid, False) | Inr (tid, dto) \<Rightarrow> bnd (write_schema_dto J dto) (\<lambda>_. ret (tid, True))"
  have k: "gspec J (?k x) G ?Q" if x: "register_name kind name dto = Ok x" for x
  proof (cases x)
    case (Inl tid)
    then show ?thesis using x s by (auto simp: schema_moved_def intro!: gspec_ret)
  next
    case (Inr y)
    obtain tid new where y: "y = (tid, new)" by (cases y)
    have plan: "schema_plan (g_schema G) (RegisterType kind name) = (Registered (Ok (tid, True)), Some new)"
      using x s Inr y by simp
    have "encodes_to J new k" using w unfolding plan writable_def by simp
    from write_schema_gok [OF this room] have "gspec J (bnd (write_schema_dto J new) (\<lambda>_. ret (tid, True))) G ?Q"
      by (rule gok_bnd) (auto simp: plan schema_moved_def simp del: schema_plan.simps intro!: gspec_ret)
    then show ?thesis by (simp add: Inr y)
  qed
  show "gspec J (bnd (lift_res (register_name kind name dto)) ?k) G1 ?Q"
    unfolding d(2)
  proof (rule gspec_bnd [OF gspec_lift [where Q = "\<lambda>r G'. r = register_name kind name dto \<and> G' = G"]])
    show "register_name kind name dto = register_name kind name dto \<and> G = G" by simp
    show "Ok x = register_name kind name dto \<and> G1 = G \<Longrightarrow> gspec J (?k x) G1 ?Q" for x G1 using k by auto
    show "Inl a = register_name kind name dto \<and> G1 = G \<Longrightarrow> ?Q (Inl a) G1" for a G1 using s by (auto simp: schema_moved_def split: sum.splits)
  qed
next
  fix a G1 assume "Inl a = (case g_schema G of None \<Rightarrow> no_schema | Some dto \<Rightarrow> Ok dto) \<and> G1 = G"
  then have "g_schema G = None" "Inl a = (no_schema :: (u16 \<times> bool) res)" "G1 = G" by (auto simp: no_schema_def split: option.splits)
  then show "Registered (Inl a) = fst (schema_plan (g_schema G) (RegisterType kind name)) \<and>
      G1 = schema_moved (snd (schema_plan (g_schema G) (RegisterType kind name))) k G"
    by (simp add: schema_moved_def)
qed

lemma load_schema_does: "schema_does J k LoadSchema G Loaded (load_schema J)"
  unfolding schema_does_def load_schema_def
  by (rule gspec_bnd [OF load_schema_dto_gspec])
    (auto simp: no_schema_def schema_moved_def split: option.splits intro!: gspec_ret)

lemma schema_exec_does:
  assumes rep: "gstore_rep J db G" and w: "writable J k (snd (schema_plan (g_schema G) c))" and room: "k \<le> g_room G"
  shows "\<exists>db'. schema_exec J c db = (fst (schema_plan (g_schema G) c), db') \<and>
    gstore_rep J db' (schema_moved (snd (schema_plan (g_schema G) c)) k G) \<and> db_since db db'"
proof -
  have run: "\<exists>r db'. m db = (r, db') \<and> f r = fst (schema_plan (g_schema G) c) \<and>
      gstore_rep J db' (schema_moved (snd (schema_plan (g_schema G) c)) k G) \<and> db_since db db'"
    if "schema_does J k c G f m" for m :: "(database_file, 'x) op" and f
    using that rep unfolding schema_does_def gspec_def by blast
  show ?thesis
  proof (cases c)
    case (SaveSchema ast chk)
    from run [OF save_schema_does [OF w [unfolded SaveSchema] room, folded SaveSchema]] show ?thesis
      unfolding SaveSchema schema_exec.simps by (elim exE conjE) simp
  next
    case (RegisterType kind name)
    from run [OF register_type_does [OF w [unfolded RegisterType] room, folded RegisterType]] show ?thesis
      unfolding RegisterType schema_exec.simps by (elim exE conjE) simp
  next
    case LoadSchema
    from run [OF load_schema_does [of J k G, folded LoadSchema]] show ?thesis
      unfolding LoadSchema schema_exec.simps by (elim exE conjE) simp
  qed
qed

end
