(* ===== verification/Graph_Database.thy ===== *)
theory Graph_Database
  imports Database_Edges Graph_Schema
begin

text \<open>
  The database as a whole: on every sequence of calls of \<^verbatim>\<open>db.rs\<close> the open file behaves as a property
  graph. The specification of each call is one equation of \<open>db_answer\<close>; \<open>db_trace\<close> composes them, and
  the representation facts of the calls are the steps of the refinement.
\<close>

section \<open>Calls and replies\<close>

datatype 'n db_call =
    InsertNode u16 "'n props" | UpdateNode record_id "'n props" | DeleteNode record_id
  | AddLabel record_id u16 | RemoveLabel record_id u16
  | InsertEdge u16 record_id record_id "'n props" | UpdateEdge record_id "'n props" | DeleteEdge record_id
  | AddEdgeLabel record_id u16 | RemoveEdgeLabel record_id u16
  | NodeExists record_id | EdgeExists record_id | Endpoints record_id | EdgesOf edge_direction record_id
  | Properties record_id | NodeTypes record_id | NodesOfType u16 | AllNodes | AllEdges
  | FindNodes u16 property_path "'n json" | SchemaCall schema_call

datatype 'n db_reply =
    Made "record_id res" | Done "unit res" | Truth "bool res" | Ends "(record_id \<times> record_id) res"
  | Edges "edge_record list res" | Props "'n props res" | Types "u16 list res" | Records "record_id list res"
  | SchemaReply schema_reply

definition reply_by :: "('a res \<Rightarrow> 'n db_reply) \<Rightarrow> (database_file, 'a) op \<Rightarrow> database_file \<Rightarrow> 'n db_reply \<times> database_file" where
  "reply_by f m db = (case m db of (r, db') \<Rightarrow> (f r, db'))"

fun db_step :: "'n lib \<Rightarrow> json_codec \<Rightarrow> 'n db_call \<Rightarrow> database_file \<Rightarrow> 'n db_reply \<times> database_file" where
  "db_step L J (InsertNode t ps) = reply_by Made (insert_node L J t ps)"
| "db_step L J (UpdateNode r ps) = reply_by Done (update_node_properties L J r ps)"
| "db_step L J (DeleteNode r) = reply_by Done (delete_node L J r)"
| "db_step L J (AddLabel r t) = reply_by Done (add_node_label L r t)"
| "db_step L J (RemoveLabel r t) = reply_by Done (remove_node_label L r t)"
| "db_step L J (InsertEdge t src dst ps) = reply_by Made (insert_edge L t src dst ps)"
| "db_step L J (UpdateEdge r ps) = reply_by Done (update_edge_properties L J r ps)"
| "db_step L J (DeleteEdge r) = reply_by Done (db_delete_edge r)"
| "db_step L J (AddEdgeLabel r t) = reply_by Done (add_edge_label L r t)"
| "db_step L J (RemoveEdgeLabel r t) = reply_by Done (remove_edge_label L r t)"
| "db_step L J (NodeExists r) = reply_by Truth (node_exists r)"
| "db_step L J (EdgeExists r) = reply_by Truth (edge_exists r)"
| "db_step L J (Endpoints r) = reply_by Ends (get_edge_endpoints r)"
| "db_step L J (EdgesOf Out r) = reply_by Edges (collect_out_edges r)"
| "db_step L J (EdgesOf In r) = reply_by Edges (collect_in_edges r)"
| "db_step L J (Properties r) = reply_by Props (get_node_properties_raw L r)"
| "db_step L J (NodeTypes r) = reply_by Types (get_node_type_ids L r)"
| "db_step L J (NodesOfType t) = reply_by Records (rids_of_type t)"
| "db_step L J AllNodes = reply_by Records live_node_rids"
| "db_step L J AllEdges = reply_by Records live_edge_rids"
| "db_step L J (FindNodes t pth x) = reply_by Records (find_all_nodes L J t pth x)"
| "db_step L J (SchemaCall c) = (\<lambda>db. case schema_exec J c db of (r, db') \<Rightarrow> (SchemaReply r, db'))"

fun run_db :: "'n lib \<Rightarrow> json_codec \<Rightarrow> 'n db_call list \<Rightarrow> database_file \<Rightarrow> 'n db_reply list \<times> database_file" where
  "run_db L J [] db = ([], db)"
| "run_db L J (c # cs) db =
     (case db_step L J c db of (r, db') \<Rightarrow> (case run_db L J cs db' of (rs, db'') \<Rightarrow> (r # rs, db'')))"

section \<open>The specification\<close>

text \<open>
  What a call may append is bounded by \<open>b\<close> pages: for an insertion or update the pages of the value, of
  the label list and of the index entries, for a change of the schema the pages of its encoding.
\<close>

definition indexes_bounded :: "schema_dto option \<Rightarrow> nat \<Rightarrow> bool" where
  "indexes_bounded D b \<longleftrightarrow> (\<forall>tid. node_cost D tid \<le> b)"

text \<open>A change of the schema that leaves the indexed properties of the nodes that exist.\<close>

definition keeps_entries :: "'n lib \<Rightarrow> schema_dto option \<Rightarrow> schema_dto option \<Rightarrow> 'n pgraph \<Rightarrow> bool" where
  "keeps_entries L D D' A \<longleftrightarrow> (\<forall>rid. node_entries L D' rid (pg_nodes A rid) = node_entries L D rid (pg_nodes A rid))"

text \<open>
  A call is legal when the codec round-trips what it stores in at most 4088 bytes (\<open>props_legal\<close>,
  \<open>labels_legal\<close>), the records whose labels, lists or properties it reads or whose labels it changes
  exist, and the value looked for is a scalar. \<open>insert_node\<close>, the updates, the
  deletions and \<open>insert_edge\<close> are legal on records that do not exist: the code answers with an error.
  A new schema must not index a property that existing nodes have (\<open>save_schema\<close> does not build the
  index for them) or stop indexing one.
\<close>

fun db_legal :: "'n lib \<Rightarrow> json_codec \<Rightarrow> nat \<Rightarrow> schema_dto option \<Rightarrow> 'n pgraph \<Rightarrow> 'n db_call \<Rightarrow> bool" where
  "db_legal L J b D A (InsertNode t ps) \<longleftrightarrow> props_legal L ps"
| "db_legal L J b D A (UpdateNode r ps) \<longleftrightarrow> props_legal L ps"
| "db_legal L J b D A (AddLabel r t) \<longleftrightarrow> (\<exists>v. pg_nodes A r = Some v \<and> labels_legal L (v_labels (add_label t v)))"
| "db_legal L J b D A (RemoveLabel r t) \<longleftrightarrow> (\<exists>v. pg_nodes A r = Some v \<and> labels_legal L (v_labels (remove_label t v)))"
| "db_legal L J b D A (InsertEdge t src dst ps) \<longleftrightarrow> props_legal L ps"
| "db_legal L J b D A (UpdateEdge r ps) \<longleftrightarrow> props_legal L ps"
| "db_legal L J b D A (AddEdgeLabel r t) \<longleftrightarrow> (\<exists>a. pg_edges A r = Some a \<and> labels_legal L (a_labels (add_arc_label t a)))"
| "db_legal L J b D A (RemoveEdgeLabel r t) \<longleftrightarrow> (\<exists>a. pg_edges A r = Some a \<and> labels_legal L (a_labels (remove_arc_label t a)))"
| "db_legal L J b D A (Endpoints r) \<longleftrightarrow> pg_edges A r \<noteq> None"
| "db_legal L J b D A (EdgesOf d r) \<longleftrightarrow> pg_nodes A r \<noteq> None"
| "db_legal L J b D A (Properties r) \<longleftrightarrow> pg_nodes A r \<noteq> None"
| "db_legal L J b D A (NodeTypes r) \<longleftrightarrow> pg_nodes A r \<noteq> None"
| "db_legal L J b D A (FindNodes t pth x) \<longleftrightarrow> is_indexable_value x"
| "db_legal L J b D A (SchemaCall c) \<longleftrightarrow> (\<forall>new. snd (schema_plan D c) = Some new \<longrightarrow>
     (\<exists>k\<le>b. encodes_to J new k) \<and> indexes_bounded (Some new) b \<and> keeps_entries L D (Some new) A)"
| "db_legal L J b D A _ \<longleftrightarrow> True"

definition the_records :: "record_id set \<Rightarrow> 'n db_reply \<Rightarrow> bool" where
  "the_records R r \<longleftrightarrow> (\<exists>rs. r = Records (Ok rs) \<and> distinct rs \<and> set rs = R)"

fun db_answer :: "'n lib \<Rightarrow> schema_dto option \<Rightarrow> 'n pgraph \<Rightarrow> 'n db_call \<Rightarrow> 'n db_reply \<Rightarrow> 'n pgraph \<Rightarrow> bool" where
  "db_answer L D A (InsertNode t ps) r A' \<longleftrightarrow> (\<exists>x. r = Made x \<and> insert_node_spec L D A t ps x A')"
| "db_answer L D A (UpdateNode rid ps) r A' \<longleftrightarrow> (\<exists>x. r = Done x \<and> update_node_spec L D A rid ps x A')"
| "db_answer L D A (DeleteNode rid) r A' \<longleftrightarrow> (\<exists>x. r = Done x \<and> delete_node_spec A rid x A')"
| "db_answer L D A (AddLabel rid t) r A' \<longleftrightarrow>
     r = Done (Ok ()) \<and> (\<exists>v. pg_nodes A rid = Some v \<and> A' = set_vertex rid (Some (add_label t v)) A)"
| "db_answer L D A (RemoveLabel rid t) r A' \<longleftrightarrow>
     r = Done (Ok ()) \<and> (\<exists>v. pg_nodes A rid = Some v \<and> A' = set_vertex rid (Some (remove_label t v)) A)"
| "db_answer L D A (InsertEdge t src dst ps) r A' \<longleftrightarrow> (\<exists>x. r = Made x \<and> insert_edge_spec A t src dst ps x A')"
| "db_answer L D A (UpdateEdge rid ps) r A' \<longleftrightarrow> (\<exists>x. r = Done x \<and> update_edge_spec L D A rid ps x A')"
| "db_answer L D A (DeleteEdge rid) r A' \<longleftrightarrow> (\<exists>x. r = Done x \<and> delete_edge_spec A rid x A')"
| "db_answer L D A (AddEdgeLabel rid t) r A' \<longleftrightarrow>
     r = Done (Ok ()) \<and> (\<exists>a. pg_edges A rid = Some a \<and> A' = set_arc rid (Some (add_arc_label t a)) A)"
| "db_answer L D A (RemoveEdgeLabel rid t) r A' \<longleftrightarrow>
     r = Done (Ok ()) \<and> (\<exists>a. pg_edges A rid = Some a \<and> A' = set_arc rid (Some (remove_arc_label t a)) A)"
| "db_answer L D A (NodeExists rid) r A' \<longleftrightarrow> r = Truth (Ok (pg_nodes A rid \<noteq> None)) \<and> A' = A"
| "db_answer L D A (EdgeExists rid) r A' \<longleftrightarrow> r = Truth (Ok (pg_edges A rid \<noteq> None)) \<and> A' = A"
| "db_answer L D A (Endpoints rid) r A' \<longleftrightarrow> (\<exists>a. pg_edges A rid = Some a \<and> r = Ends (Ok (a_from a, a_to a))) \<and> A' = A"
| "db_answer L D A (EdgesOf d rid) r A' \<longleftrightarrow> (\<exists>es. r = Edges (Ok es) \<and> map e_id es = pg_adj A d rid) \<and> A' = A"
| "db_answer L D A (Properties rid) r A' \<longleftrightarrow>
     (\<exists>ps v. r = Props (Ok ps) \<and> pg_nodes A rid = Some v \<and> map_of ps = v_props v) \<and> A' = A"
| "db_answer L D A (NodeTypes rid) r A' \<longleftrightarrow> (\<exists>v. pg_nodes A rid = Some v \<and> r = Types (Ok (all_types v))) \<and> A' = A"
| "db_answer L D A (NodesOfType t) r A' \<longleftrightarrow> the_records (typed_nodes (pg_nodes A) t) r \<and> A' = A"
| "db_answer L D A AllNodes r A' \<longleftrightarrow> the_records (dom (pg_nodes A)) r \<and> A' = A"
| "db_answer L D A AllEdges r A' \<longleftrightarrow> the_records (dom (pg_edges A)) r \<and> A' = A"
| "db_answer L D A (FindNodes t pth x) r A' \<longleftrightarrow> the_records {rid. finds L D A t pth x rid} r \<and> A' = A"
| "db_answer L D A (SchemaCall c) r A' \<longleftrightarrow> r = SchemaReply (fst (schema_plan D c)) \<and> A' = A"

definition schema_next :: "schema_dto option \<Rightarrow> 'n db_call \<Rightarrow> schema_dto option" where
  "schema_next D c = (case c of SchemaCall s \<Rightarrow> schema_after D s | _ \<Rightarrow> D)"

inductive db_trace :: "'n lib \<Rightarrow> json_codec \<Rightarrow> nat \<Rightarrow> schema_dto option \<Rightarrow> 'n pgraph \<Rightarrow> 'n db_call list \<Rightarrow> 'n db_reply list \<Rightarrow> bool"
  for L J b where
  db_end: "db_trace L J b D A [] []"
| db_illegal: "\<not> db_legal L J b D A c \<Longrightarrow> db_trace L J b D A (c # cs) rs"
| db_call: "db_legal L J b D A c \<Longrightarrow> db_answer L D A c r A' \<Longrightarrow> db_trace L J b (schema_next D c) A' cs rs \<Longrightarrow>
    db_trace L J b D A (c # cs) (r # rs)"

inductive_simps db_trace_Nil: "db_trace L J b D A [] rs"
inductive_cases db_trace_ConsE: "db_trace L J b D A (c # cs) rs"

section \<open>Every call does what it promises\<close>

definition answers ::
  "'n lib \<Rightarrow> json_codec \<Rightarrow> schema_dto option \<Rightarrow> 'n pgraph \<Rightarrow> gstore \<Rightarrow> nat \<Rightarrow> 'n db_call \<Rightarrow> ('a res \<Rightarrow> 'n db_reply) \<Rightarrow>
   (database_file, 'a) op \<Rightarrow> bool" where
  "answers L J D A G k c f m \<longleftrightarrow>
     gspec J m G (\<lambda>r G'. \<exists>A'. pg_rep L D G' A' \<and> db_answer L D A c (f r) A' \<and> g_room G - k \<le> g_room G')"

lemma answers_read:
  assumes "pg_rep L D G A" "gok J m G (\<lambda>x G'. P x \<and> G' = G)" "\<And>x. P x \<Longrightarrow> db_answer L D A c (f (Ok x)) A"
  shows "answers L J D A G k c f m"
  unfolding answers_def by (rule gspec_conseq [OF assms(2)]) (use assms(1,3) in auto)

lemma answers_write:
  assumes "gspec J m G (\<lambda>r G'. \<exists>A'. pg_rep L D G' A' \<and> Q r A' \<and> g_room G - j \<le> g_room G')" "j \<le> k"
    "\<And>r A'. Q r A' \<Longrightarrow> db_answer L D A c (f r) A'"
  shows "answers L J D A G k c f m"
  unfolding answers_def
proof (rule gspec_conseq [OF assms(1)], elim exE conjE)
  fix r G' A' assume *: "pg_rep L D G' A'" "Q r A'" "g_room G - j \<le> g_room G'"
  have "g_room G - k \<le> g_room G'" using *(3) assms(2) by linarith
  then show "\<exists>A'. pg_rep L D G' A' \<and> db_answer L D A c (f r) A' \<and> g_room G - k \<le> g_room G'" using * assms(3) by blast
qed

lemma answers_free:
  assumes "gspec J m G (\<lambda>r G'. \<exists>A'. pg_rep L D G' A' \<and> Q r A' \<and> g_room G' = g_room G)"
    "\<And>r A'. Q r A' \<Longrightarrow> db_answer L D A c (f r) A'"
  shows "answers L J D A G k c f m"
  by (rule answers_write [OF gspec_conseq [OF assms(1)], where j = 0]) (use assms(2) in auto)

lemma answers_label:
  assumes "gok J m G (\<lambda>_ G'. pg_rep L D G' A' \<and> g_room G - j \<le> g_room G')" "j \<le> k" "db_answer L D A c (f (Ok ())) A'"
  shows "answers L J D A G k c f m"
  by (rule answers_write [where Q = "\<lambda>r A''. r = Ok () \<and> A'' = A'", OF gspec_conseq [OF assms(1)] assms(2)]) (use assms(3) in auto)

lemma answers_runs:
  assumes "answers L J D A G k c f m" "gstore_rep J db G"
  shows "\<exists>r db' G' A'. reply_by f m db = (r, db') \<and> gstore_rep J db' G' \<and> pg_rep L D G' A' \<and> db_answer L D A c r A' \<and>
    g_room G - k \<le> g_room G' \<and> db_since db db'"
  using gspecD [OF assms(1) [unfolded answers_def] assms(2)] unfolding reply_by_def by (metis (mono_tags, lifting) case_prod_conv)

text \<open>The edges of a node, as records, and the nodes of a type, as a set.\<close>

lemma edge_records_gok:
  assumes rep: "pg_rep L D G A" and v: "pg_nodes A rid \<noteq> None"
  shows "gok J (collect_edge_chain rid d) G (\<lambda>es G'. map e_id es = pg_adj A d rid \<and> G' = G)"
proof (rule gspec_wf)
  assume wf: "gwf G"
  obtain n where n: "g_nodes G rid = Some n" using pg_repD(5) [OF rep, of rid] v by auto
  have "e_id (the (g_edges G r)) = r" if "r \<in> set (g_lists G d rid)" for r
    using gwf_listed [OF wf that] gwf_ids(2) [OF wf] by fastforce
  then have "map e_id (map (\<lambda>r. the (g_edges G r)) (g_lists G d rid)) = pg_adj A d rid"
    unfolding pg_repD(3) [OF rep, symmetric] by (simp add: map_idI)
  then show ?thesis by (intro gok_conseq [OF collect_gok [OF n]]) auto
qed

lemma of_type_gok:
  assumes rep: "pg_rep L D G A"
  shows "gok J (rids_of_type t) G (\<lambda>rs G'. (distinct rs \<and> set rs = typed_nodes (pg_nodes A) t) \<and> G' = G)"
proof -
  have E: "g_labels G t = mset_set (typed_nodes (pg_nodes A) t)" using pg_repD(9) [OF rep] by (simp add: labels_ok_def)
  have fin: "finite (typed_nodes (pg_nodes A) t)" by (rule finite_rids)
  have "distinct rs \<and> set rs = typed_nodes (pg_nodes A) t" if "mset rs = g_labels G t" for rs
  proof -
    have ms: "mset rs = mset_set (typed_nodes (pg_nodes A) t)" using that E by simp
    then have "set rs = typed_nodes (pg_nodes A) t" using fin by (metis finite_set_mset_mset_set set_mset_mset)
    moreover have "distinct rs" using ms calculation by (metis card_distinct size_mset size_mset_set)
    ultimately show ?thesis by simp
  qed
  then show ?thesis unfolding rids_of_type_def by (intro gok_conseq [OF li_get_gok]) auto
qed

lemma bound7: "indexes_bounded D b \<Longrightarrow> 7 \<le> b"
  unfolding indexes_bounded_def node_cost_def by (metis add_leD1)

lemma node_calls:
  assumes rep: "pg_rep L D G A" and m: "indexes_bounded D b" and room: "b \<le> g_room G"
  shows "props_legal L ps \<Longrightarrow> answers L J D A G b (InsertNode t ps) Made (insert_node L J t ps)"
    "props_legal L ps \<Longrightarrow> answers L J D A G b (UpdateNode rid ps) Done (update_node_properties L J rid ps)"
    "answers L J D A G b (DeleteNode rid) Done (delete_node L J rid)"
proof -
  have cost: "node_cost D tid \<le> g_room G" for tid using m [unfolded indexes_bounded_def, rule_format, of tid] room by simp
  show "answers L J D A G b (InsertNode t ps) Made (insert_node L J t ps)" if "props_legal L ps"
    by (rule answers_write [OF insert_node_gspec [OF rep that cost] m [unfolded indexes_bounded_def, rule_format]]) auto
  show "answers L J D A G b (UpdateNode rid ps) Done (update_node_properties L J rid ps)" if ps: "props_legal L ps"
  proof (rule answers_write [OF gspec_conseq [OF update_node_gspec [OF rep ps cost]] order_refl,
        where Q = "update_node_spec L D A rid ps"])
    fix r G' assume "\<exists>A'. pg_rep L D G' A' \<and> update_node_spec L D A rid ps r A' \<and>
      (case pg_nodes A rid of None \<Rightarrow> G' = G | Some v \<Rightarrow> g_room G - node_cost D (v_type v) \<le> g_room G')"
    then obtain A' where A': "pg_rep L D G' A'" "update_node_spec L D A rid ps r A'"
        "case pg_nodes A rid of None \<Rightarrow> G' = G | Some v \<Rightarrow> g_room G - node_cost D (v_type v) \<le> g_room G'" by blast
    have "g_room G - b \<le> g_room G'"
      using A'(3) m [unfolded indexes_bounded_def, rule_format] by (cases "pg_nodes A rid") (auto intro: diff_le_mono2 [THEN le_trans])
    then show "\<exists>A'. pg_rep L D G' A' \<and> update_node_spec L D A rid ps r A' \<and> g_room G - b \<le> g_room G'" using A' by blast
  qed auto
  show "answers L J D A G b (DeleteNode rid) Done (delete_node L J rid)"
    by (rule answers_free [OF delete_node_gspec [OF rep]]) auto
qed

lemma edge_calls:
  assumes rep: "pg_rep L D G A" and b: "7 \<le> b" and room: "b \<le> g_room G"
  shows "props_legal L ps \<Longrightarrow> answers L J D A G b (InsertEdge t src dst ps) Made (insert_edge L t src dst ps)"
    "props_legal L ps \<Longrightarrow> answers L J D A G b (UpdateEdge rid ps) Done (update_edge_properties L J rid ps)"
    "answers L J D A G b (DeleteEdge rid) Done (db_delete_edge rid)"
proof -
  have 4: "4 \<le> g_room G" "4 \<le> b" and 2: "2 \<le> g_room G" "2 \<le> b" using b room by simp_all
  show "answers L J D A G b (InsertEdge t src dst ps) Made (insert_edge L t src dst ps)" if "props_legal L ps"
    by (rule answers_write [OF insert_edge_gspec [OF rep that 4(1)] 4(2)]) auto
  show "answers L J D A G b (UpdateEdge rid ps) Done (update_edge_properties L J rid ps)" if "props_legal L ps"
    by (rule answers_write [OF update_edge_gspec [OF rep that 2(1)] 2(2)]) auto
  show "answers L J D A G b (DeleteEdge rid) Done (db_delete_edge rid)"
    by (rule answers_free [OF delete_edge_gspec [OF rep]]) auto
qed

lemma label_calls:
  assumes rep: "pg_rep L D G A" and b: "7 \<le> b" and room: "b \<le> g_room G"
  shows "db_legal L J b D A (AddLabel rid t) \<Longrightarrow> answers L J D A G b (AddLabel rid t) Done (add_node_label L rid t)"
    "db_legal L J b D A (RemoveLabel rid t) \<Longrightarrow> answers L J D A G b (RemoveLabel rid t) Done (remove_node_label L rid t)"
    "db_legal L J b D A (AddEdgeLabel rid t) \<Longrightarrow> answers L J D A G b (AddEdgeLabel rid t) Done (add_edge_label L rid t)"
    "db_legal L J b D A (RemoveEdgeLabel rid t) \<Longrightarrow> answers L J D A G b (RemoveEdgeLabel rid t) Done (remove_edge_label L rid t)"
proof -
  have 5: "5 \<le> g_room G" "5 \<le> b" and 2: "2 \<le> g_room G" "2 \<le> b" using b room by simp_all
  show "answers L J D A G b (AddLabel rid t) Done (add_node_label L rid t)" if legal: "db_legal L J b D A (AddLabel rid t)"
  proof -
    from legal obtain v where v: "pg_nodes A rid = Some v" "labels_legal L (v_labels (add_label t v))" by auto
    show ?thesis by (rule answers_label [OF add_label_gok [OF rep v 5(1)] 5(2)]) (use v(1) in simp)
  qed
  show "answers L J D A G b (RemoveLabel rid t) Done (remove_node_label L rid t)" if legal: "db_legal L J b D A (RemoveLabel rid t)"
  proof -
    from legal obtain v where v: "pg_nodes A rid = Some v" "labels_legal L (v_labels (remove_label t v))" by auto
    show ?thesis by (rule answers_label [OF remove_label_gok [OF rep v 2(1)] 2(2)]) (use v(1) in simp)
  qed
  show "answers L J D A G b (AddEdgeLabel rid t) Done (add_edge_label L rid t)" if legal: "db_legal L J b D A (AddEdgeLabel rid t)"
  proof -
    from legal obtain a where a: "pg_edges A rid = Some a" "labels_legal L (a_labels (add_arc_label t a))" by auto
    show ?thesis by (rule answers_label [OF add_edge_label_gok [OF rep a 2(1)] 2(2)]) (use a(1) in simp)
  qed
  show "answers L J D A G b (RemoveEdgeLabel rid t) Done (remove_edge_label L rid t)" if legal: "db_legal L J b D A (RemoveEdgeLabel rid t)"
  proof -
    from legal obtain a where a: "pg_edges A rid = Some a" "labels_legal L (a_labels (remove_arc_label t a))" by auto
    show ?thesis by (rule answers_label [OF remove_edge_label_gok [OF rep a 2(1)] 2(2)]) (use a(1) in simp)
  qed
qed

lemma read_calls:
  assumes rep: "pg_rep L D G A"
  shows "answers L J D A G k (NodeExists rid) Truth (node_exists rid)"
    "answers L J D A G k (EdgeExists rid) Truth (edge_exists rid)"
    "pg_edges A rid \<noteq> None \<Longrightarrow> answers L J D A G k (Endpoints rid) Ends (get_edge_endpoints rid)"
    "pg_nodes A rid \<noteq> None \<Longrightarrow> answers L J D A G k (EdgesOf d rid) Edges (collect_edge_chain rid d)"
    "pg_nodes A rid \<noteq> None \<Longrightarrow> answers L J D A G k (Properties rid) Props (get_node_properties_raw L rid)"
    "pg_nodes A rid \<noteq> None \<Longrightarrow> answers L J D A G k (NodeTypes rid) Types (get_node_type_ids L rid)"
    "answers L J D A G k (NodesOfType t) Records (rids_of_type t)"
    "answers L J D A G k AllNodes Records live_node_rids" "answers L J D A G k AllEdges Records live_edge_rids"
    "is_indexable_value x \<Longrightarrow> answers L J D A G k (FindNodes t pth x) Records (find_all_nodes L J t pth x)"
proof -
  note R = pg_repD [OF rep]
  show "answers L J D A G k (NodeExists rid) Truth (node_exists rid)" unfolding node_exists_def
    by (rule answers_read [OF rep node_used_gok]) (use R(5) [of rid] in simp)
  show "answers L J D A G k (EdgeExists rid) Truth (edge_exists rid)" unfolding edge_exists_def
    by (rule answers_read [OF rep edge_used_gok]) (use R(7) [of rid] in simp)
  show "answers L J D A G k (Endpoints rid) Ends (get_edge_endpoints rid)" if a: "pg_edges A rid \<noteq> None"
  proof -
    obtain a where a: "pg_edges A rid = Some a" using a by auto
    then obtain e where e: "g_edges G rid = Some e" "from_node e = a_from a" "to_node e = a_to a" using R(6) by (auto simp: edge_at_def)
    have "gok J (get_edge_endpoints rid) G (\<lambda>x G'. x = (a_from a, a_to a) \<and> G' = G)"
      unfolding get_edge_endpoints_def by (rule gok_bnd [OF read_edge_gok [OF e(1)]]) (use e(2,3) in \<open>auto intro!: gspec_rets\<close>)
    then show ?thesis by (rule answers_read [OF rep]) (use a in simp)
  qed
  show "answers L J D A G k (EdgesOf d rid) Edges (collect_edge_chain rid d)" if "pg_nodes A rid \<noteq> None"
    by (rule answers_read [OF rep edge_records_gok [OF rep that]]) simp
  show "answers L J D A G k (Properties rid) Props (get_node_properties_raw L rid)" if v: "pg_nodes A rid \<noteq> None"
  proof -
    obtain v where v: "pg_nodes A rid = Some v" using v by auto
    show ?thesis by (rule answers_read [OF rep get_props_gok [OF R(2) R(4) [OF v]]]) (use v in simp)
  qed
  show "answers L J D A G k (NodeTypes rid) Types (get_node_type_ids L rid)" if v: "pg_nodes A rid \<noteq> None"
  proof -
    obtain v where v: "pg_nodes A rid = Some v" using v by auto
    show ?thesis by (rule answers_read [OF rep get_node_types_gok [OF R(2) R(4) [OF v]]]) (use v in simp)
  qed
  show "answers L J D A G k (NodesOfType t) Records (rids_of_type t)"
    by (rule answers_read [OF rep of_type_gok [OF rep]]) (simp add: the_records_def)
  show "answers L J D A G k AllNodes Records live_node_rids"
    by (rule answers_read [where P = "\<lambda>rs. distinct rs \<and> set rs = dom (pg_nodes A)", OF rep gok_conseq [OF live_nodes_gok]])
      (use pg_rep_dom [OF rep] in \<open>auto simp: the_records_def\<close>)
  show "answers L J D A G k AllEdges Records live_edge_rids"
    by (rule answers_read [where P = "\<lambda>rs. distinct rs \<and> set rs = dom (pg_edges A)", OF rep gok_conseq [OF live_edges_gok]])
      (use pg_rep_dom [OF rep] in \<open>auto simp: the_records_def\<close>)
  show "answers L J D A G k (FindNodes t pth x) Records (find_all_nodes L J t pth x)" if "is_indexable_value x"
    by (rule answers_read [where P = "\<lambda>rs. distinct rs \<and> set rs = {rid. finds L D A t pth x rid}",
          OF rep gok_conseq [OF find_all_nodes_gok [OF rep that]]]) (auto simp: the_records_def)
qed

text \<open>A change of the schema that keeps the entries of the property index.\<close>

lemma pg_rep_schema:
  assumes rep: "pg_rep L D G A" and keep: "keeps_entries L D (Some new) A"
  shows "pg_rep L (Some new) (with_schema new k G) A"
proof -
  note R = pg_repD [OF rep]
  let ?G = "with_schema new k G"
  have ref: "ref_of ?G = ref_of G" by (rule ref_of_cong) (simp_all add: gnode_def gedge_def fun_eq_iff)
  have n: "gnode ?G = gnode G" "gedge ?G = gedge G" by (simp_all add: gnode_def gedge_def fun_eq_iff)
  show ?thesis
  proof (rule pg_repI)
    show "node_at L ?G rid v" if "pg_nodes A rid = Some v" for rid v
      by (rule node_at_cong [OF R(4) [OF that]]) (simp_all add: n ref)
    show "edge_at L ?G rid a" if "pg_edges A rid = Some a" for rid a
      by (rule edge_at_cong [OF R(6) [OF that]]) (simp_all add: n ref)
    show "index_ok L (Some new) (pg_nodes A) (g_index ?G)"
      using R(10) keep by (simp add: index_ok_def keeps_entries_def)
  qed (use R ref in simp_all)
qed

lemma schema_call_answers:
  assumes rep: "gstore_rep J db G" "pg_rep L D G A" and room: "b \<le> g_room G" and legal: "db_legal L J b D A (SchemaCall c)"
  shows "\<exists>r db' G' A'. db_step L J (SchemaCall c) db = (r, db') \<and> gstore_rep J db' G' \<and> pg_rep L (schema_after D c) G' A' \<and>
    db_answer L D A (SchemaCall c) r A' \<and> g_room G - b \<le> g_room G' \<and> db_since db db'"
proof -
  have D: "g_schema G = D" by (rule pg_repD(1) [OF rep(2)])
  obtain k where k: "k \<le> b" "writable J k (snd (schema_plan D c))"
    using legal by (cases "snd (schema_plan D c)") (auto simp: writable_def)
  let ?G = "schema_moved (snd (schema_plan D c)) k G"
  obtain db' where db': "schema_exec J c db = (fst (schema_plan D c), db')" "gstore_rep J db' ?G" "db_since db db'"
    using schema_exec_does [OF rep(1), of k c] k room by (auto simp: D)
  have "pg_rep L (schema_after D c) ?G A \<and> g_room G - b \<le> g_room ?G"
  proof (cases "snd (schema_plan D c)")
    case None
    then show ?thesis using rep(2) by (simp add: schema_moved_def schema_after_def)
  next
    case (Some new)
    have "keeps_entries L D (Some new) A" using legal Some by simp
    from pg_rep_schema [OF rep(2) this, of k] show ?thesis using Some k(1) by (simp add: schema_moved_def schema_after_def)
  qed
  then show ?thesis using db' by auto
qed

lemma db_step_answers:
  assumes rep: "gstore_rep J db G" "pg_rep L D G A" and m: "indexes_bounded D b" and room: "b \<le> g_room G"
    and legal: "db_legal L J b D A c"
  shows "\<exists>r db' G' A'. db_step L J c db = (r, db') \<and> gstore_rep J db' G' \<and> pg_rep L (schema_next D c) G' A' \<and>
    db_answer L D A c r A' \<and> g_room G - b \<le> g_room G' \<and> db_since db db'"
proof (cases "\<exists>s. c = SchemaCall s")
  case True
  then obtain s where c: "c = SchemaCall s" by blast
  show ?thesis using schema_call_answers [OF rep room legal [unfolded c]] unfolding c schema_next_def by simp
next
  case False
  have D: "schema_next D c = D" using False by (cases c) (simp_all add: schema_next_def)
  have b: "7 \<le> b" by (rule bound7 [OF m])
  have "\<exists>r db' G' A'. db_step L J c db = (r, db') \<and> gstore_rep J db' G' \<and> pg_rep L D G' A' \<and>
    db_answer L D A c r A' \<and> g_room G - b \<le> g_room G' \<and> db_since db db'"
  proof (cases c)
    case (InsertNode t ps)
    with legal show ?thesis using answers_runs [OF node_calls(1) [OF rep(2) m room] rep(1)] by simp
  next
    case (UpdateNode rid ps)
    with legal show ?thesis using answers_runs [OF node_calls(2) [OF rep(2) m room] rep(1)] by simp
  next
    case (DeleteNode rid)
    then show ?thesis using answers_runs [OF node_calls(3) [OF rep(2) m room] rep(1)] by simp
  next
    case (AddLabel rid t)
    then show ?thesis using answers_runs [OF label_calls(1) [OF rep(2) b room legal [unfolded AddLabel]] rep(1)] by simp
  next
    case (RemoveLabel rid t)
    then show ?thesis using answers_runs [OF label_calls(2) [OF rep(2) b room legal [unfolded RemoveLabel]] rep(1)] by simp
  next
    case (InsertEdge t src dst ps)
    with legal show ?thesis using answers_runs [OF edge_calls(1) [OF rep(2) b room] rep(1)] by simp
  next
    case (UpdateEdge rid ps)
    with legal show ?thesis using answers_runs [OF edge_calls(2) [OF rep(2) b room] rep(1)] by simp
  next
    case (DeleteEdge rid)
    then show ?thesis using answers_runs [OF edge_calls(3) [OF rep(2) b room] rep(1)] by simp
  next
    case (AddEdgeLabel rid t)
    then show ?thesis using answers_runs [OF label_calls(3) [OF rep(2) b room legal [unfolded AddEdgeLabel]] rep(1)] by simp
  next
    case (RemoveEdgeLabel rid t)
    then show ?thesis using answers_runs [OF label_calls(4) [OF rep(2) b room legal [unfolded RemoveEdgeLabel]] rep(1)] by simp
  next
    case (NodeExists rid)
    then show ?thesis using answers_runs [OF read_calls(1) [OF rep(2)] rep(1)] by simp
  next
    case (EdgeExists rid)
    then show ?thesis using answers_runs [OF read_calls(2) [OF rep(2)] rep(1)] by simp
  next
    case (Endpoints rid)
    with legal have "pg_edges A rid \<noteq> None" by simp
    from answers_runs [OF read_calls(3) [OF rep(2) this] rep(1)] show ?thesis unfolding Endpoints by simp
  next
    case (EdgesOf d rid)
    with legal have v: "pg_nodes A rid \<noteq> None" by simp
    have step: "db_step L J c = reply_by Edges (collect_edge_chain rid d)"
      by (cases d) (simp_all add: EdgesOf collect_out_edges_def collect_in_edges_def)
    show ?thesis unfolding step using answers_runs [OF read_calls(4) [OF rep(2) v] rep(1)] unfolding EdgesOf .
  next
    case (Properties rid)
    with legal have "pg_nodes A rid \<noteq> None" by simp
    from answers_runs [OF read_calls(5) [OF rep(2) this] rep(1)] show ?thesis unfolding Properties by simp
  next
    case (NodeTypes rid)
    with legal have "pg_nodes A rid \<noteq> None" by simp
    from answers_runs [OF read_calls(6) [OF rep(2) this] rep(1)] show ?thesis unfolding NodeTypes by simp
  next
    case (NodesOfType t)
    then show ?thesis using answers_runs [OF read_calls(7) [OF rep(2)] rep(1)] by simp
  next
    case AllNodes
    then show ?thesis using answers_runs [OF read_calls(8) [OF rep(2)] rep(1)] by simp
  next
    case AllEdges
    then show ?thesis using answers_runs [OF read_calls(9) [OF rep(2)] rep(1)] by simp
  next
    case (FindNodes t pth x)
    with legal show ?thesis using answers_runs [OF read_calls(10) [OF rep(2)] rep(1)] by simp
  next
    case (SchemaCall s)
    with False show ?thesis by blast
  qed
  then show ?thesis unfolding D .
qed

lemma next_bounded: "indexes_bounded D b \<Longrightarrow> db_legal L J b D A c \<Longrightarrow> indexes_bounded (schema_next D c) b"
  by (cases c) (auto simp: schema_next_def schema_after_def split: option.splits)

lemma run_db_refines:
  assumes "gstore_rep J db G" "pg_rep L D G A" "indexes_bounded D b" "b * length cs \<le> g_room G"
  shows "db_trace L J b D A cs (fst (run_db L J cs db))"
  using assms
proof (induction cs arbitrary: db G D A)
  case Nil
  then show ?case by (simp add: db_end)
next
  case (Cons c cs)
  show ?case
  proof (cases "db_legal L J b D A c")
    case False
    then show ?thesis by (rule db_illegal)
  next
    case True
    have "b \<le> g_room G" using Cons.prems(4) by simp
    from db_step_answers [OF Cons.prems(1-3) this True]
    obtain r db' G' A' where s: "db_step L J c db = (r, db')" "gstore_rep J db' G'" "pg_rep L (schema_next D c) G' A'" "db_answer L D A c r A'"
        "g_room G - b \<le> g_room G'" by blast
    have "db_trace L J b (schema_next D c) A' cs (fst (run_db L J cs db'))"
      using Cons.IH [OF s(2,3) next_bounded [OF Cons.prems(3) True]] s(5) Cons.prems(4) by simp
    then show ?thesis using db_call [OF True s(4)] s(1) by (simp add: split_beta)
  qed
qed

section \<open>A new database\<close>

definition empty_pgraph :: "'n pgraph" where
  "empty_pgraph = \<lparr>pg_nodes = Map.empty, pg_edges = Map.empty, pg_adj = (\<lambda>_ _. [])\<rparr>"

definition empty_gstore :: "nat \<Rightarrow> gstore" where
  "empty_gstore room = \<lparr>g_nodes = Map.empty, g_edges = Map.empty, g_lists = (\<lambda>_ _. []), g_vals = Map.empty,
     g_labels = (\<lambda>_. {#}), g_index = {}, g_schema = None, g_room = room\<rparr>"

lemma empty_ref: "ref_of (empty_gstore room) h = None"
  by (cases h) (simp_all add: empty_gstore_def)

lemma empty_pg_rep: "pg_rep L None (empty_gstore room) empty_pgraph"
proof (rule pg_repI)
  show "owned (ref_of (empty_gstore room)) (g_vals (empty_gstore room))"
    by (simp add: owned_def empty_ref) (simp add: empty_gstore_def)
qed (simp_all add: empty_gstore_def empty_pgraph_def arcs_ok_def labels_ok_def index_ok_def typed_nodes_def node_entries_def)

lemma empty_gstore_rep:
  assumes "db_rep db fresh_vol" "room < 2 ^ 32 - 1"
  shows "gstore_rep J db (empty_gstore room)"
proof (rule gstore_repI [OF assms(1) fresh_layout [OF assms(2)]])
  have e: "nodes (fresh_spaces room) = Map.empty" "edges (fresh_spaces room) = Map.empty"
    by (simp_all add: fun_eq_iff nodes_def edges_def cells_def pages_cells_def fresh_spaces_def)
  show "gstate (fresh_spaces room) (empty_gstore room)"
    using fresh_graph [of room] fresh_store_inv [of room] e unfolding gstate_def graph_rep_def empty_gstore_def empty_graph_def
    by (simp add: fresh_spaces_def)
  have s: "schema_rep J fresh_vol [] None" by (simp add: schema_rep_def fresh_vol_def header_new_def)
  have o: "li_own [] (\<lambda>_. []) = {}" "pi_own fresh_vol (\<lambda>_. []) = {}"
    by (simp_all add: li_own_def pi_own_def fresh_vol_def header_new_def NO_DIR_ROOT_def NO_ROOT_def)
  show "extras J fresh_vol (dom (sp_other (fresh_spaces room))) (g_labels (empty_gstore room)) (g_index (empty_gstore room)) (g_schema (empty_gstore room))"
    unfolding empty_gstore_def gstore.simps
    by (rule extrasI [OF fresh_labels fresh_index s]) (simp_all add: o)
qed

lemma no_schema_bound: "7 \<le> b \<Longrightarrow> indexes_bounded None b"
  by (simp add: indexes_bounded_def node_cost_def indexed_in_def node_def_in_def)

lemma memory_gstore: "room < 2 ^ 32 - 1 \<Longrightarrow> gstore_rep J create_in_memory (empty_gstore room)"
  by (rule empty_gstore_rep [OF create_in_memory_rep])

section \<open>Properties\<close>

text \<open>
  C1: the open database implements a property graph, on every sequence of legal calls: property maps and
  label lists are written that take at most 4088 bytes and that the codec round-trips, labels, ends,
  lists, types and properties are asked for or changed of records that exist, scalars are looked up, and
  a new schema keeps the index entries of the nodes that exist. Inserting a node or an edge gives an id
  not in use; an update replaces the properties of one record and changes nothing else; labels are sets
  in the order they were added; deleting a node takes exactly its incident edges with it; a violated
  unique constraint, a failed type check and a missing record are errors that change nothing; every read
  returns what the graph holds, a lookup by type the nodes with that type or label, and a lookup by
  property the nodes that have an equal value, of which an index leaves out those that have no entry
  under the bytes of the value looked for (\<open>finds\<close>). No legal call panics or runs for ever, as long as
  the file has room for the pages the calls append. From the first call that is not legal on, nothing is
  promised: longer values can be destroyed by a later write, and a label set on a freed id is not noticed.
\<close>

theorem database_is_property_graph:
  assumes "gstore_rep J db G" "pg_rep L D G A" "indexes_bounded D b" "b * length cs \<le> g_room G"
  shows "db_trace L J b D A cs (fst (run_db L J cs db))"
  using run_db_refines [OF assms] .

lemma the_records_single: "the_records {a} r \<longleftrightarrow> r = Records (Ok [a])"
proof
  assume "the_records {a} r"
  then obtain rs where rs: "r = Records (Ok rs)" "distinct rs" "set rs = {a}" unfolding the_records_def by blast
  then have "length rs = 1" by (simp flip: distinct_card)
  then show "r = Records (Ok [a])" using rs by (cases rs) auto
qed (simp add: the_records_def)

lemma demo_props_legal: "props_legal demo_lib [(''age'', JNumber 42)]" "props_legal demo_lib []"
  by (simp_all add: props_legal_def demo_lib_def short_value_def)

theorem database_is_property_graph_witness:
  "\<exists>a. fst (run_db demo_lib demo_codec [InsertNode 1 [(''age'', JNumber 42)], NodesOfType 1, FindNodes 1 (Flat ''age'') (JNumber 42)]
       create_in_memory) = [Made (Ok a), Records (Ok [a]), Records (Ok [a])]"
proof -
  let ?cs = "[InsertNode 1 [(''age'', JNumber 42)], NodesOfType 1, FindNodes 1 (Flat ''age'') (JNumber 42)]"
  have t: "db_trace demo_lib demo_codec 7 None empty_pgraph ?cs (fst (run_db demo_lib demo_codec ?cs create_in_memory))"
    by (rule database_is_property_graph [OF memory_gstore [of 1000] empty_pg_rep no_schema_bound]) (simp_all add: empty_gstore_def)
  have u: "unique_paths None 1 = []" by (simp add: unique_paths_def indexed_in_def node_def_in_def)
  have n: "pg_nodes empty_pgraph = Map.empty" by (simp add: empty_pgraph_def)
  have "json_eq demo_lib y x = (y = x)" for y x by (simp add: json_eq_def demo_lib_def json.map_id)
  then have h: "Collect (finds demo_lib None (set_vertex a (Some v) empty_pgraph) tid pth x) =
      (if v_type v = tid \<and> pmap_at pth (v_props v) = Some x then {a} else {})" for a v tid pth and x :: "int json"
    by (auto simp: finds_def indexed_in_def node_def_in_def hits_def some_eq_def n split: if_splits option.splits)
  show ?thesis
    using t by (elim db_trace_ConsE)
      (auto simp: schema_next_def demo_props_legal is_indexable_value_def insert_node_spec_def u db_trace_Nil typed_nodes_def n h
        all_types_def the_records_single split: if_splits)
qed

end
