(* ===== verification/Database_Properties.thy ===== *)
theory Database_Properties
  imports Graph_Database Database_Open
begin

text \<open>
  What holds of the database after any sequence of legal calls: the refinement of \<open>Graph_Database\<close> read
  as an invariant of the reachable states, and its consequences for crashes, unique constraints, stored
  values, errors, lookups and deletions.
\<close>

section \<open>Runs of legal calls\<close>

inductive legal_run ::
  "'n lib \<Rightarrow> json_codec \<Rightarrow> nat \<Rightarrow> schema_dto option \<Rightarrow> 'n pgraph \<Rightarrow> database_file \<Rightarrow> 'n db_call list \<Rightarrow>
   schema_dto option \<Rightarrow> 'n pgraph \<Rightarrow> database_file \<Rightarrow> bool" for L J b where
  run_end: "legal_run L J b D A db [] D A db"
| run_call: "db_legal L J b D A c \<Longrightarrow> db_step L J c db = (r, db1) \<Longrightarrow> db_answer L D A c r A1 \<Longrightarrow>
    legal_run L J b (schema_next D c) A1 db1 cs D' A' db' \<Longrightarrow> legal_run L J b D A db (c # cs) D' A' db'"

inductive_cases legal_run_NilE: "legal_run L J b D A db [] D' A' db'"
inductive_cases legal_run_ConsE: "legal_run L J b D A db (c # cs) D' A' db'"

text \<open>A reply determines the graph after the call.\<close>

lemma insert_node_det: "insert_node_spec L D A t ps x A1 \<Longrightarrow> insert_node_spec L D A t ps x A2 \<Longrightarrow> A1 = A2"
  by (auto simp: insert_node_spec_def split: sum.splits)

lemma insert_edge_det: "insert_edge_spec A t src dst ps x A1 \<Longrightarrow> insert_edge_spec A t src dst ps x A2 \<Longrightarrow> A1 = A2"
  by (auto simp: insert_edge_spec_def split: if_splits)

lemma update_node_det: "update_node_spec L D A rid ps x A1 \<Longrightarrow> update_node_spec L D A rid ps x A2 \<Longrightarrow> A1 = A2"
proof (cases "pg_nodes A rid")
  case (Some v)
  show "update_node_spec L D A rid ps x A1 \<Longrightarrow> update_node_spec L D A rid ps x A2 \<Longrightarrow> A1 = A2"
    by (cases "node_check_in L D (v_type v) ps"; cases "unique_in L D A (v_type v) (map_of ps) (Some rid) (unique_paths D (v_type v))")
      (simp_all add: update_node_spec_def Some)
qed (simp add: update_node_spec_def)

lemma update_edge_det: "update_edge_spec L D A rid ps x A1 \<Longrightarrow> update_edge_spec L D A rid ps x A2 \<Longrightarrow> A1 = A2"
proof (cases "pg_edges A rid")
  case (Some a)
  show "update_edge_spec L D A rid ps x A1 \<Longrightarrow> update_edge_spec L D A rid ps x A2 \<Longrightarrow> A1 = A2"
    by (cases "edge_check_in L D (a_type a) ps") (simp_all add: update_edge_spec_def Some)
qed (simp add: update_edge_spec_def)

lemma delete_det:
  "delete_node_spec A rid x A1 \<Longrightarrow> delete_node_spec A rid x A2 \<Longrightarrow> A1 = A2"
  "delete_edge_spec A rid x A1 \<Longrightarrow> delete_edge_spec A rid x A2 \<Longrightarrow> A1 = A2"
  by (auto simp: delete_node_spec_def delete_edge_spec_def split: if_splits)

lemma db_answer_det: "db_answer L D A c r A1 \<Longrightarrow> db_answer L D A c r A2 \<Longrightarrow> A1 = A2"
  by (cases c) (auto dest: insert_node_det insert_edge_det update_node_det update_edge_det delete_det)

definition represents :: "'n lib \<Rightarrow> json_codec \<Rightarrow> nat \<Rightarrow> database_file \<Rightarrow> schema_dto option \<Rightarrow> 'n pgraph \<Rightarrow> nat \<Rightarrow> bool" where
  "represents L J b db D A room \<longleftrightarrow>
     indexes_bounded D b \<and> (\<exists>G. gstore_rep J db G \<and> pg_rep L D G A \<and> room \<le> g_room G)"

lemma representsE:
  assumes "represents L J b db D A room"
  obtains G where "gstore_rep J db G" "pg_rep L D G A" "room \<le> g_room G" "indexes_bounded D b"
  using assms unfolding represents_def by blast

lemma run_represents:
  assumes "legal_run L J b D A db cs D' A' db'" "represents L J b db D A room" "b * length cs \<le> room"
  shows "represents L J b db' D' A' (room - b * length cs) \<and> db_since db db'"
  using assms
proof (induction arbitrary: room rule: legal_run.induct)
  case (run_end D A db)
  then show ?case by (simp add: db.R_refl)
next
  case (run_call D A c db r db1 A1 cs D' A' db')
  from run_call.prems(1) obtain G where G: "gstore_rep J db G" "pg_rep L D G A" "room \<le> g_room G" "indexes_bounded D b"
    by (rule representsE)
  have room: "b \<le> g_room G" using run_call.prems(2) G(3) by simp
  from db_step_answers [OF G(1,2,4) room run_call.hyps(1)] obtain G' A'' where s: "gstore_rep J db1 G'" "pg_rep L (schema_next D c) G' A''"
      "db_answer L D A c r A''" "g_room G - b \<le> g_room G'" "db_since db db1"
    using run_call.hyps(2) by auto
  have "A'' = A1" by (rule db_answer_det [OF s(3) run_call.hyps(3)])
  then have "represents L J b db1 (schema_next D c) A1 (room - b)"
    unfolding represents_def using next_bounded [OF G(4) run_call.hyps(1)] s(1,2,4) G(3) by (intro conjI exI [of _ G']) auto
  from run_call.IH [OF this] run_call.prems(2) have "represents L J b db' D' A' (room - b - b * length cs) \<and> db_since db1 db'" by simp
  then show ?case using db.R_trans [OF s(5)] by (simp add: algebra_simps)
qed

text \<open>A new database stands for the empty graph.\<close>

lemma new_represents:
  assumes "db_rep db fresh_vol" "room < 2 ^ 32 - 1" "7 \<le> b"
  shows "represents L J b db None empty_pgraph room"
  unfolding represents_def
  using no_schema_bound [OF assms(3)] empty_gstore_rep [OF assms(1,2), of J] empty_pg_rep [of L room]
  by (intro conjI exI [of _ "empty_gstore room"]) (simp_all add: empty_gstore_def)

section \<open>Reopening\<close>

lemma gstore_reopen:
  assumes "gstore_rep J db G" "handle_ok p db" "separate real p" "opts < 2 ^ 64"
  shows "\<exists>db' w'. open_with_options real p opts (crash real db w) = (Ok db', w') \<and> gstore_rep J db' G"
proof -
  from assms(1) obtain v S own pids phys where v: "db_rep db v" "layout v S own pids phys" "gstate S G"
      "extras J v (dom (sp_other S)) (g_labels G) (g_index G) (g_schema G)" by (rule gstore_repE)
  obtain fb where fb: "backend db = FileB fb" "fb_path fb = p" using assms(2) by (auto simp: handle_ok_def)
  note d = dropped_disk [OF fb assms(3), of w]
  have "\<exists>db' w'. open_with_options real p opts (crash real db w) = (Ok db', w') \<and> db_rep db' v"
    using d fb(1) by (intro reopen_rep [OF v(1) assms(2) layout_header_saved [OF v(2)] assms(3,4)]) (auto simp: crash_def)
  then show ?thesis using gstore_repI [OF _ v(2-4)] by blast
qed

section \<open>Unique constraints\<close>

definition has_value :: "'n pgraph \<Rightarrow> u16 \<Rightarrow> property_path \<Rightarrow> 'n json \<Rightarrow> record_id \<Rightarrow> bool" where
  "has_value A t pth x r \<longleftrightarrow> (\<exists>v. pg_nodes A r = Some v \<and> v_type v = t \<and> pmap_at pth (v_props v) = Some x)"

text \<open>No two nodes of a type have the same value of a unique property.\<close>

definition unique_ok :: "schema_dto option \<Rightarrow> 'n pgraph \<Rightarrow> bool" where
  "unique_ok D A \<longleftrightarrow> (\<forall>t. \<forall>pth\<in>set (unique_paths D t). \<forall>x. is_indexable_value x \<longrightarrow>
     (\<forall>r r'. has_value A t pth x r \<longrightarrow> has_value A t pth x r' \<longrightarrow> r = r'))"

lemma unique_ok_mono:
  assumes "unique_ok D A" "\<And>t pth x r. has_value A' t pth x r \<Longrightarrow> has_value A t pth x r"
  shows "unique_ok D A'"
  using assms unfolding unique_ok_def by blast

lemma has_value_vertex:
  "has_value (set_vertex rid (Some v) A) t pth x r \<longleftrightarrow>
     (if r = rid then v_type v = t \<and> pmap_at pth (v_props v) = Some x else has_value A t pth x r)"
  by (auto simp: has_value_def)

lemma has_value_finds: "has_value A t pth x r \<Longrightarrow> is_indexable_value x \<Longrightarrow> finds L D A t pth x r"
  unfolding has_value_def by (elim exE conjE) (erule (2) finds_own, simp_all)

text \<open>A record that passed the check does not share a value with another.\<close>

lemma unique_ok_write:
  assumes ok: "unique_ok D A" and free: "unique_in L D A (v_type v) (v_props v) exclude (unique_paths D (v_type v)) = Ok ()"
    and ex: "\<And>r. r \<noteq> rid \<Longrightarrow> Some r \<noteq> exclude"
  shows "unique_ok D (set_vertex rid (Some v) A)"
proof -
  have other: "\<not> has_value A t pth x r" if "t = v_type v" "pth \<in> set (unique_paths D t)" "is_indexable_value x"
      "pmap_at pth (v_props v) = Some x" "r \<noteq> rid" for t pth x r
    using free that ex [OF that(5)] has_value_finds [OF _ that(3)] unfolding unique_in_ok taken_def by blast
  show ?thesis
    using ok other unfolding unique_ok_def has_value_vertex by (metis (mono_tags, lifting))
qed

lemma unique_ok_nodes: "unique_ok D A \<Longrightarrow> pg_nodes A' = pg_nodes A \<Longrightarrow> unique_ok D A'"
  by (rule unique_ok_mono) (simp_all add: has_value_def)

lemma unique_ok_label:
  assumes "unique_ok D A" "pg_nodes A rid = Some v" "v_type v' = v_type v" "v_props v' = v_props v"
  shows "unique_ok D (set_vertex rid (Some v') A)"
  by (rule unique_ok_mono [OF assms(1)]) (use assms(2-4) in \<open>auto simp: has_value_vertex has_value_def split: if_splits\<close>)

lemma label_keeps: "v_type (add_label t v) = v_type v" "v_props (add_label t v) = v_props v"
  "v_type (remove_label t v) = v_type v" "v_props (remove_label t v) = v_props v"
  by (simp_all add: add_label_def remove_label_def)

lemma unique_ok_insert:
  assumes ok: "unique_ok D A" and spec: "insert_node_spec L D A t ps x A'"
  shows "unique_ok D A'"
proof (cases "unique_in L D A t (map_of ps) None (unique_paths D t)")
  case (Inl e)
  then show ?thesis using assms by (simp add: insert_node_spec_def)
next
  case (Inr u)
  then obtain rid where A': "A' = set_vertex rid (Some \<lparr>v_type = t, v_labels = [], v_props = map_of ps\<rparr>) A"
    using spec by (auto simp: insert_node_spec_def)
  show ?thesis unfolding A' by (rule unique_ok_write [OF ok, where L = L and exclude = None]) (use Inr in simp_all)
qed

lemma unique_ok_update:
  assumes ok: "unique_ok D A" and spec: "update_node_spec L D A rid ps x A'"
  shows "unique_ok D A'"
proof (cases "pg_nodes A rid")
  case None
  then show ?thesis using assms by (simp add: update_node_spec_def)
next
  case (Some v)
  show ?thesis
  proof (cases "A' = A")
    case False
    let ?u = "unique_in L D A (v_type v) (map_of ps) (Some rid) (unique_paths D (v_type v))"
    have u: "?u = Ok ()" "A' = set_vertex rid (Some (v\<lparr>v_props := map_of ps\<rparr>)) A"
      using spec Some False by (cases "node_check_in L D (v_type v) ps"; cases ?u; simp add: update_node_spec_def)+
    show ?thesis unfolding u(2)
      by (rule unique_ok_write [OF ok, where L = L and exclude = "Some rid"]) (use u(1) in simp_all)
  qed (use ok in simp)
qed

lemma unique_ok_delete:
  assumes "unique_ok D A" "delete_node_spec A rid x A'"
  shows "unique_ok D A'"
  by (rule unique_ok_mono [OF assms(1)])
    (use assms(2) in \<open>auto simp: delete_node_spec_def delete_vertex_def has_value_def split: if_splits\<close>)

lemma edge_specs_nodes:
  "insert_edge_spec A t src dst ps x A' \<Longrightarrow> pg_nodes A' = pg_nodes A"
  "delete_edge_spec A rid y A' \<Longrightarrow> pg_nodes A' = pg_nodes A"
  "update_edge_spec L D A rid ps y A' \<Longrightarrow> pg_nodes A' = pg_nodes A"
proof -
  show "insert_edge_spec A t src dst ps x A' \<Longrightarrow> pg_nodes A' = pg_nodes A" "delete_edge_spec A rid y A' \<Longrightarrow> pg_nodes A' = pg_nodes A"
    by (auto simp: insert_edge_spec_def delete_edge_spec_def split: if_splits)
  show "pg_nodes A' = pg_nodes A" if u: "update_edge_spec L D A rid ps y A'"
  proof (cases "pg_edges A rid")
    case (Some a)
    with u show ?thesis by (cases "edge_check_in L D (a_type a) ps") (simp_all add: update_edge_spec_def)
  qed (use u in \<open>simp add: update_edge_spec_def\<close>)
qed

lemma unique_ok_step:
  assumes ok: "unique_ok D A" and ans: "db_answer L D A c r A'" and keep: "\<forall>s. c \<noteq> SchemaCall s"
  shows "unique_ok D A'"
proof (cases c)
  case (InsertNode t ps)
  then show ?thesis using ans unique_ok_insert [OF ok] by auto
next
  case (UpdateNode rid ps)
  then show ?thesis using ans unique_ok_update [OF ok] by auto
next
  case (DeleteNode rid)
  then show ?thesis using ans unique_ok_delete [OF ok] by auto
next
  case (AddLabel rid t)
  then show ?thesis using ans unique_ok_label [OF ok _ label_keeps(1,2)] by auto
next
  case (RemoveLabel rid t)
  then show ?thesis using ans unique_ok_label [OF ok _ label_keeps(3,4)] by auto
qed (use ans in \<open>auto intro: ok unique_ok_nodes [OF ok] dest: edge_specs_nodes\<close>)

text \<open>
  A change of the schema that declares a property of a type unique comes before the first node of the
  type: no check looks at the values that existing nodes have.
\<close>

definition declares_early :: "schema_dto option \<Rightarrow> schema_dto option \<Rightarrow> 'n pgraph \<Rightarrow> bool" where
  "declares_early D D' A \<longleftrightarrow> (\<forall>t. set (unique_paths D' t) \<subseteq> set (unique_paths D t) \<or>
     (\<forall>r v. pg_nodes A r = Some v \<longrightarrow> v_type v \<noteq> t))"

definition schema_calls_early :: "'n lib \<Rightarrow> json_codec \<Rightarrow> nat \<Rightarrow> schema_dto option \<Rightarrow> 'n pgraph \<Rightarrow> database_file \<Rightarrow> 'n db_call list \<Rightarrow> bool" where
  "schema_calls_early L J b D A db cs \<longleftrightarrow> (\<forall>cs1 c cs2 D1 A1 db1. cs = cs1 @ SchemaCall c # cs2 \<longrightarrow>
     legal_run L J b D A db cs1 D1 A1 db1 \<longrightarrow> declares_early D1 (schema_after D1 c) A1)"

lemma unique_ok_schema: "unique_ok D A \<Longrightarrow> declares_early D D' A \<Longrightarrow> unique_ok D' A"
proof -
  assume ok: "unique_ok D A" and early: "declares_early D D' A"
  have "r = r'" if pth: "pth \<in> set (unique_paths D' t)" and x: "is_indexable_value x"
      and h: "has_value A t pth x r" "has_value A t pth x r'" for t pth x r r'
  proof (cases "set (unique_paths D' t) \<subseteq> set (unique_paths D t)")
    case True
    then show ?thesis using ok pth x h unfolding unique_ok_def by blast
  next
    case False
    then show ?thesis using early h(1) unfolding declares_early_def has_value_def by blast
  qed
  then show "unique_ok D' A" unfolding unique_ok_def by blast
qed

lemma run_unique:
  assumes "legal_run L J b D A db cs D' A' db'" "unique_ok D A" "schema_calls_early L J b D A db cs"
  shows "unique_ok D' A'"
  using assms
proof (induction rule: legal_run.induct)
  case (run_call D A c db r db1 A1 cs D' A' db')
  have "unique_ok (schema_next D c) A1"
  proof (cases "\<exists>s. c = SchemaCall s")
    case True
    then obtain s where c: "c = SchemaCall s" by blast
    have "declares_early D (schema_after D s) A"
      using run_call.prems(2) run_end [of L J b D A db] unfolding schema_calls_early_def c by (metis append_Nil)
    then show ?thesis using unique_ok_schema [OF run_call.prems(1)] run_call.hyps(3) by (simp add: c schema_next_def)
  next
    case False
    then show ?thesis using unique_ok_step [OF run_call.prems(1) run_call.hyps(3)] by (cases c) (simp_all add: schema_next_def)
  qed
  moreover have "schema_calls_early L J b (schema_next D c) A1 db1 cs"
    using run_call.prems(2) legal_run.run_call [OF run_call.hyps(1-3)] unfolding schema_calls_early_def
    by (metis append_Cons)
  ultimately show ?case using run_call.IH by blast
qed simp

lemma empty_unique: "unique_ok D empty_pgraph"
  by (simp add: unique_ok_def has_value_def empty_pgraph_def)

section \<open>Errors\<close>

definition error_in :: "'a res \<Rightarrow> abort option" where
  "error_in r = (case r of Inl a \<Rightarrow> Some a | Inr _ \<Rightarrow> None)"

fun schema_error :: "schema_reply \<Rightarrow> abort option" where
  "schema_error (Saved r) = error_in r"
| "schema_error (Registered r) = error_in r"
| "schema_error (Loaded r) = error_in r"

fun reply_error :: "'n db_reply \<Rightarrow> abort option" where
  "reply_error (Made r) = error_in r"
| "reply_error (Done r) = error_in r"
| "reply_error (Truth r) = error_in r"
| "reply_error (Ends r) = error_in r"
| "reply_error (Edges r) = error_in r"
| "reply_error (Props r) = error_in r"
| "reply_error (Types r) = error_in r"
| "reply_error (Records r) = error_in r"
| "reply_error (SchemaReply r) = schema_error r"

lemma error_in_simps [simp]: "error_in (Inl a) = Some a" "error_in (Inr x) = None"
  by (simp_all add: error_in_def)

lemma migration_errors: "validate_migration old new = Inl a \<Longrightarrow> \<exists>e. a = Failed e"
proof -
  have f: "check_field_changes pre flds fs = Inl a \<Longrightarrow> \<exists>e. a = Failed e" for pre flds fs a
    by (induction pre flds fs rule: check_field_changes.induct) (auto split: option.splits if_splits)
  have n: "check_node_changes ons ns = Inl a \<Longrightarrow> \<exists>e. a = Failed e" for ons ns a
  proof (induction ons ns rule: check_node_changes.induct)
    case (2 ons name new_def ns)
    then show ?case using f by (auto simp: try_res_def split: option.splits sum.splits)
  qed simp
  have e: "check_edge_changes oes es = Inl a \<Longrightarrow> \<exists>e. a = Failed e" for oes es a
  proof (induction oes es rule: check_edge_changes.induct)
    case (2 oes name new_from new_to new_props es)
    then show ?case using f by (auto simp: try_res_def split: option.splits sum.splits if_splits)
  qed simp
  show "validate_migration old new = Inl a \<Longrightarrow> \<exists>e. a = Failed e"
    using n e by (auto simp: validate_migration_def try_res_def split: sum.splits)
qed

lemma schema_plan_error:
  assumes "schema_error (fst (schema_plan D c)) = Some a"
  shows "snd (schema_plan D c) = None \<and> (\<exists>e. a = Failed e)"
proof (cases c)
  case (SaveSchema ast chk)
  then show ?thesis using assms migration_errors by (auto split: option.splits sum.splits if_splits)
next
  case (RegisterType kind name)
  have "register_name kind name old = Inl a' \<Longrightarrow> \<exists>e. a' = Failed e" for old a'
    by (auto simp: register_name_def Let_def split: prod.splits option.splits if_splits)
  then show ?thesis using assms RegisterType by (auto simp: no_schema_def split: option.splits sum.splits)
next
  case LoadSchema
  then show ?thesis using assms by (auto simp: no_schema_def split: option.splits)
qed

lemma check_in_error: "node_check_in L D t ps = Inl a \<Longrightarrow> \<exists>e. a = Failed e" "edge_check_in L D t ps = Inl a \<Longrightarrow> \<exists>e. a = Failed e"
proof -
  have v: "validate_properties L lbl fs ps = Inl a \<Longrightarrow> \<exists>e. a = Failed e" for lbl fs
    using validate_properties_iff(2) [of L lbl fs ps] by auto
  show "node_check_in L D t ps = Inl a \<Longrightarrow> \<exists>e. a = Failed e" "edge_check_in L D t ps = Inl a \<Longrightarrow> \<exists>e. a = Failed e"
    using v by (auto simp: node_check_in_def edge_check_in_def split: option.splits)
qed

lemma unique_in_error: "unique_in L D A t m ex ps = Inl a \<Longrightarrow> \<exists>e. a = Failed e"
  using unique_in_cases [of L D A t m ex ps] by auto

lemma node_spec_errors:
  "insert_node_spec L D A t ps (Inl a) A' \<Longrightarrow> A' = A \<and> (\<exists>e. a = Failed e)"
  "delete_node_spec A rid (Inl a) A' \<Longrightarrow> A' = A \<and> (\<exists>e. a = Failed e)"
  "update_node_spec L D A rid ps (Inl a) A' \<Longrightarrow> A' = A \<and> (\<exists>e. a = Failed e)"
proof -
  show "insert_node_spec L D A t ps (Inl a) A' \<Longrightarrow> A' = A \<and> (\<exists>e. a = Failed e)"
    using unique_in_error by (auto simp: insert_node_spec_def split: sum.splits)
  show "delete_node_spec A rid (Inl a) A' \<Longrightarrow> A' = A \<and> (\<exists>e. a = Failed e)"
    by (auto simp: delete_node_spec_def split: if_splits)
  show "A' = A \<and> (\<exists>e. a = Failed e)" if u: "update_node_spec L D A rid ps (Inl a) A'"
  proof (cases "pg_nodes A rid")
    case (Some v)
    show ?thesis
      using u check_in_error(1) [of L D "v_type v" ps] unique_in_error [of L D A "v_type v" "map_of ps" "Some rid" "unique_paths D (v_type v)"]
      by (cases "node_check_in L D (v_type v) ps"; cases "unique_in L D A (v_type v) (map_of ps) (Some rid) (unique_paths D (v_type v))")
        (auto simp: update_node_spec_def Some)
  qed (use u in \<open>simp add: update_node_spec_def\<close>)
qed

lemma edge_spec_errors:
  "insert_edge_spec A t src dst ps (Inl a) A' \<Longrightarrow> A' = A \<and> (\<exists>e. a = Failed e)"
  "delete_edge_spec A rid (Inl a) A' \<Longrightarrow> A' = A \<and> (\<exists>e. a = Failed e)"
  "update_edge_spec L D A rid ps (Inl a) A' \<Longrightarrow> A' = A \<and> (\<exists>e. a = Failed e)"
proof -
  show "insert_edge_spec A t src dst ps (Inl a) A' \<Longrightarrow> A' = A \<and> (\<exists>e. a = Failed e)"
      "delete_edge_spec A rid (Inl a) A' \<Longrightarrow> A' = A \<and> (\<exists>e. a = Failed e)"
    by (auto simp: insert_edge_spec_def delete_edge_spec_def split: if_splits)
  show "A' = A \<and> (\<exists>e. a = Failed e)" if u: "update_edge_spec L D A rid ps (Inl a) A'"
  proof (cases "pg_edges A rid")
    case (Some v)
    show ?thesis
      using u check_in_error(2) [of L D "a_type v" ps]
      by (cases "edge_check_in L D (a_type v) ps") (auto simp: update_edge_spec_def Some)
  qed (use u in \<open>simp add: update_edge_spec_def\<close>)
qed

lemma answer_error:
  assumes ans: "db_answer L D A c r A'" and err: "reply_error r = Some a"
  shows "A' = A \<and> schema_next D c = D \<and> (\<exists>e. a = Failed e)"
proof (cases "\<exists>s. c = SchemaCall s")
  case True
  then show ?thesis using ans err schema_plan_error by (auto simp: schema_next_def schema_after_def)
next
  case False
  have r: "reply_error r = Some a \<Longrightarrow> r = Made x \<Longrightarrow> x = Inl a" "reply_error r = Some a \<Longrightarrow> r = Done y \<Longrightarrow> y = Inl a" for x y
    by (auto simp: error_in_def split: sum.splits)
  have "schema_next D c = D" using False by (cases c) (simp_all add: schema_next_def)
  moreover have "A' = A \<and> (\<exists>e. a = Failed e)"
    using ans err r [OF err] False
    by (cases c) (auto simp: the_records_def dest: node_spec_errors edge_spec_errors)
  ultimately show ?thesis by blast
qed

lemma legal_step:
  assumes rep: "represents L J b db D A room" and legal: "db_legal L J b D A c" and room: "b \<le> room"
  shows "\<exists>r db' A'. db_step L J c db = (r, db') \<and> db_answer L D A c r A' \<and>
    represents L J b db' (schema_next D c) A' (room - b) \<and> db_since db db'"
proof -
  from rep obtain G where G: "gstore_rep J db G" "pg_rep L D G A" "room \<le> g_room G" "indexes_bounded D b" by (rule representsE)
  have "b \<le> g_room G" using G(3) room by simp
  from db_step_answers [OF G(1,2,4) this legal] obtain r db' G' A' where s: "db_step L J c db = (r, db')" "gstore_rep J db' G'"
      "pg_rep L (schema_next D c) G' A'" "db_answer L D A c r A'" "g_room G - b \<le> g_room G'" "db_since db db'" by blast
  have "represents L J b db' (schema_next D c) A' (room - b)"
    unfolding represents_def using s(2,3,5) G(3) next_bounded [OF G(4) legal] by (intro conjI exI [of _ G']) auto
  then show ?thesis using s by blast
qed

section \<open>A database with a unique property\<close>

definition unique_user :: schema_ast where
  "unique_user = demo_user [\<lparr>fd_name = ''age'', fd_type = TInt, fd_indexed = False, fd_unique = True\<rparr>]"

definition unique_dto :: schema_dto where
  "unique_dto = assign_type_ids (ast_to_dto unique_user) None"

definition unique_codec :: json_codec where
  "unique_codec = \<lparr>to_vec = (\<lambda>dto. if dto = unique_dto then Inr [1] else Inl ''not encodable''),
     from_slice = (\<lambda>bs. if bs = [1] then Inr unique_dto else Inl ''not decodable'')\<rparr>"

lemma unique_encodes: "encodes_to unique_codec unique_dto 1"
  by (simp add: encodes_to_def unique_codec_def pages_needed_def chain_consts)

lemma unique_registry: "registry_in unique_dto = from_assignments [(''User'', 1)] []"
  by (simp add: registry_in_def unique_dto_def unique_user_def demo_user_def assign_type_ids_def ast_to_dto_def def_to_dto_def
      take_id_def keep_undefined_def Let_def)

lemma unique_indexed: "indexed_in (Some unique_dto) t = (if t = 1 then [(Flat ''age'', True)] else [])"
proof -
  have "node_type_name t (registry_in unique_dto) = (if t = 1 then Some ''User'' else None)"
    by (simp add: unique_registry node_type_name_def from_assignments_def insert_all_def)
  moreover have "dto_to_ast unique_dto = unique_user" by (simp add: unique_dto_def)
  ultimately show ?thesis
    by (simp add: indexed_in_def node_def_in_def unique_user_def demo_user_def find_node_def_def node_defs_def)
qed

lemma unique_bounded: "10 \<le> b \<Longrightarrow> indexes_bounded (Some unique_dto) b"
  by (simp add: indexes_bounded_def node_cost_def unique_indexed)

lemma unique_path: "unique_paths (Some unique_dto) t = (if t = 1 then [Flat ''age''] else [])"
  by (simp add: unique_paths_def unique_indexed)

lemma unique_save_legal: "10 \<le> b \<Longrightarrow> db_legal L unique_codec b None empty_pgraph (SchemaCall (SaveSchema unique_user chk))"
  using unique_encodes unique_bounded
  by (auto simp: unique_dto_def [symmetric] keeps_entries_def empty_pgraph_def node_entries_def intro!: exI [of _ 1])

lemma unique_save_next: "schema_next None (SchemaCall (SaveSchema unique_user chk)) = Some unique_dto"
  by (simp add: schema_next_def schema_after_def unique_dto_def)

abbreviation age42 :: "int props" where
  "age42 \<equiv> [(''age'', JNumber 42)]"

abbreviation demo_calls :: "int db_call list" where
  "demo_calls \<equiv> [SchemaCall (SaveSchema unique_user True), InsertNode 1 age42]"

definition demo_graph :: "record_id \<Rightarrow> int pgraph" where
  "demo_graph a = set_vertex a (Some \<lparr>v_type = 1, v_labels = [], v_props = map_of age42\<rparr>) empty_pgraph"

lemma no_finds [simp]: "\<not> finds L D empty_pgraph t pth x r" "\<not> has_value empty_pgraph t pth x r"
  by (simp_all add: finds_def hits_def has_value_def empty_pgraph_def)

lemma demo_eq [simp]: "json_eq demo_lib x y \<longleftrightarrow> x = y"
  by (simp add: json_eq_def demo_lib_def json.map_id)

lemma demo_plain: "plain demo_lib x"
  by (simp add: plain_def)

lemma demo_hits: "{r. finds demo_lib D (demo_graph a) 1 (Flat ''age'') (JNumber 42) r} = {a}"
  using finds_plain [OF demo_plain, of "JNumber 42"]
  by (auto simp: hits_def demo_graph_def empty_pgraph_def is_indexable_value_def split: if_splits)

lemma demo_run:
  assumes "represents demo_lib unique_codec 10 db None empty_pgraph room" "20 \<le> room"
  obtains a db1 where "legal_run demo_lib unique_codec 10 None empty_pgraph db demo_calls (Some unique_dto) (demo_graph a) db1"
    "run_db demo_lib unique_codec demo_calls db = ([SchemaReply (Saved (Ok ())), Made (Ok a)], db1)"
    "represents demo_lib unique_codec 10 db1 (Some unique_dto) (demo_graph a) (room - 20)"
proof -
  let ?c = "SchemaCall (SaveSchema unique_user True) :: int db_call"
  have room: "10 \<le> room" "10 \<le> room - 10" using assms(2) by simp_all
  have l1: "db_legal demo_lib unique_codec 10 None empty_pgraph ?c" by (rule unique_save_legal) simp
  obtain r db1 A1 where s1: "db_step demo_lib unique_codec ?c db = (r, db1)" "db_answer demo_lib None empty_pgraph ?c r A1"
      "represents demo_lib unique_codec 10 db1 (schema_next None ?c) A1 (room - 10)"
    using legal_step [OF assms(1) l1 room(1)] by blast
  have A1: "A1 = empty_pgraph" "r = SchemaReply (Saved (Ok ()))" using s1(2) by simp_all
  note rep1 = s1(3) [unfolded unique_save_next A1(1)]
  have l2: "db_legal demo_lib unique_codec 10 (Some unique_dto) empty_pgraph (InsertNode 1 age42)" by (simp add: demo_props_legal)
  obtain r2 db2 A2 where s2: "db_step demo_lib unique_codec (InsertNode 1 age42) db1 = (r2, db2)"
      "db_answer demo_lib (Some unique_dto) empty_pgraph (InsertNode 1 age42) r2 A2"
      "represents demo_lib unique_codec 10 db2 (schema_next (Some unique_dto) (InsertNode 1 age42)) A2 (room - 10 - 10)"
    using legal_step [OF rep1 l2 room(2)] by blast
  obtain a where a: "r2 = Made (Ok a)" "A2 = demo_graph a"
    using s2(2) by (auto simp: insert_node_spec_def unique_path taken_def demo_graph_def)
  have D: "schema_next (Some unique_dto) (InsertNode 1 age42 :: int db_call) = Some unique_dto" by (simp add: schema_next_def)
  show ?thesis
  proof (rule that)
    show "legal_run demo_lib unique_codec 10 None empty_pgraph db demo_calls (Some unique_dto) (demo_graph a) db2"
      by (rule run_call [OF l1 s1(1,2)], unfold unique_save_next A1(1), rule run_call [OF l2 s2(1,2)], unfold D a(2), rule run_end)
    show "run_db demo_lib unique_codec demo_calls db = ([SchemaReply (Saved (Ok ())), Made (Ok a)], db2)"
      using s1(1) s2(1) A1(2) a(1) by simp
    show "represents demo_lib unique_codec 10 db2 (Some unique_dto) (demo_graph a) (room - 20)" using s2(3) D a(2) by simp
  qed
qed

lemma demo_memory:
  obtains a db where "legal_run demo_lib unique_codec 10 None empty_pgraph create_in_memory demo_calls (Some unique_dto) (demo_graph a) db"
    "run_db demo_lib unique_codec demo_calls create_in_memory = ([SchemaReply (Saved (Ok ())), Made (Ok a)], db)"
    "represents demo_lib unique_codec 10 db (Some unique_dto) (demo_graph a) 980"
proof -
  have "represents demo_lib unique_codec 10 create_in_memory None empty_pgraph 1000"
    by (rule new_represents [OF create_in_memory_rep]) simp_all
  then show ?thesis by (rule demo_run) (use that in simp_all)
qed

lemma demo_unique: "unique_in demo_lib (Some unique_dto) (demo_graph a) 1 [''age'' \<mapsto> JNumber 42] None [Flat ''age''] = Err (UniqueViolation ''age'' ''value'')"
proof -
  have "taken demo_lib (Some unique_dto) (demo_graph a) 1 None (Flat ''age'') (JNumber 42)" using demo_hits [of "Some unique_dto" a] by (auto simp: taken_def)
  then show ?thesis by (simp add: is_indexable_value_def demo_lib_def)
qed

text \<open>A run in which a second node with the same value is refused, and one without the property is not.\<close>

lemma legal_run_append:
  "legal_run L J b D A db cs D1 A1 db1 \<Longrightarrow> legal_run L J b D1 A1 db1 cs' D' A' db' \<Longrightarrow> legal_run L J b D A db (cs @ cs') D' A' db'"
  by (induction rule: legal_run.induct) (auto intro: legal_run.intros)

lemma run_db_append: "run_db L J (cs @ cs') db = (fst (run_db L J cs db) @ fst (run_db L J cs' (snd (run_db L J cs db))),
    snd (run_db L J cs' (snd (run_db L J cs db))))"
  by (induction cs arbitrary: db) (simp_all add: split_beta)

abbreviation unique_calls :: "int db_call list" where
  "unique_calls \<equiv> demo_calls @ [InsertNode 1 age42, InsertNode 1 []]"

lemma unique_run:
  obtains a b db A where "a \<noteq> b"
    "legal_run demo_lib unique_codec 10 None empty_pgraph create_in_memory unique_calls (Some unique_dto) A db"
    "run_db demo_lib unique_codec unique_calls create_in_memory =
      ([SchemaReply (Saved (Ok ())), Made (Ok a), Made (Err (UniqueViolation ''age'' ''value'')), Made (Ok b)], db)"
proof (rule demo_memory)
  fix a db
  assume run: "legal_run demo_lib unique_codec 10 None empty_pgraph create_in_memory demo_calls (Some unique_dto) (demo_graph a) db"
    "run_db demo_lib unique_codec demo_calls create_in_memory = ([SchemaReply (Saved (Ok ())), Made (Ok a)], db)"
    and rep: "represents demo_lib unique_codec 10 db (Some unique_dto) (demo_graph a) 980"
  let ?i = "InsertNode 1 age42" and ?j = "InsertNode 1 [] :: int db_call"
  have D: "schema_next (Some unique_dto) ?i = Some unique_dto" "schema_next (Some unique_dto) ?j = Some unique_dto"
    by (simp_all add: schema_next_def)
  have l: "db_legal demo_lib unique_codec 10 (Some unique_dto) (demo_graph a) ?i"
    "db_legal demo_lib unique_codec 10 (Some unique_dto) (demo_graph a) ?j" by (simp_all add: demo_props_legal)
  obtain r1 db1 A1 where s1: "db_step demo_lib unique_codec ?i db = (r1, db1)"
      "db_answer demo_lib (Some unique_dto) (demo_graph a) ?i r1 A1" "represents demo_lib unique_codec 10 db1 (Some unique_dto) A1 970"
    using legal_step [OF rep l(1)] D(1) by auto
  have A1: "r1 = Made (Err (UniqueViolation ''age'' ''value''))" "A1 = demo_graph a"
    using s1(2) by (auto simp del: unique_in.simps simp: insert_node_spec_def unique_path demo_unique)
  obtain r2 db2 A2 where s2: "db_step demo_lib unique_codec ?j db1 = (r2, db2)"
      "db_answer demo_lib (Some unique_dto) (demo_graph a) ?j r2 A2"
    using legal_step [OF s1(3) [unfolded A1(2)] l(2)] by auto
  obtain b where b: "r2 = Made (Ok b)" "pg_nodes (demo_graph a) b = None"
    using s2(2) by (auto simp: insert_node_spec_def unique_path)
  have "legal_run demo_lib unique_codec 10 (Some unique_dto) (demo_graph a) db [?i, ?j] (Some unique_dto) A2 db2"
    by (rule run_call [OF l(1) s1(1,2)], unfold D(1) A1(2), rule run_call [OF l(2) s2(1,2)], unfold D(2), rule run_end)
  from legal_run_append [OF run(1) this] have "legal_run demo_lib unique_codec 10 None empty_pgraph create_in_memory unique_calls (Some unique_dto) A2 db2" .
  moreover have "a \<noteq> b" using b(2) by (auto simp: demo_graph_def)
  moreover have "run_db demo_lib unique_codec unique_calls create_in_memory =
      ([SchemaReply (Saved (Ok ())), Made (Ok a), Made (Err (UniqueViolation ''age'' ''value'')), Made (Ok b)], db2)"
    using s1(1) s2(1) A1(1) b(1) by (simp only: run_db_append run(2)) simp
  ultimately show ?thesis using that by blast
qed

section \<open>Properties\<close>

text \<open>
  C2: the graph survives a crash. After any run of legal calls on a new database file, with nothing
  flushed, the process may die; opening the file again succeeds, and from then on every sequence of
  calls is answered as by the graph the run had built: no node, edge, property, label, index entry,
  adjacency list or schema is lost or comes back.
\<close>

theorem database_survives_crash:
  assumes "can_create real p opts w" "create_with_options real p opts w = (Ok db0, w0)"
    and "legal_run L J b None empty_pgraph db0 cs D A db" "7 \<le> b" "b * (length cs + length cs') < 2 ^ 32 - 1" "opts' < 2 ^ 64"
  shows "\<exists>db' w'. open_with_options real p opts' (crash real db w0) = (Ok db', w') \<and>
    db_trace L J b D A cs' (fst (run_db L J cs' db'))"
proof -
  have c: "db_rep db0 fresh_vol" "handle_ok p db0" using create_fresh [OF assms(1)] assms(2) by auto
  let ?room = "b * (length cs + length cs')"
  have "b * length cs \<le> ?room" by simp
  from run_represents [OF assms(3) new_represents [OF c(1) assms(5,4)] this]
  have r: "represents L J b db D A (?room - b * length cs)" "db_since db0 db" by blast+
  from r(1) obtain G where G: "gstore_rep J db G" "pg_rep L D G A" "?room - b * length cs \<le> g_room G" "indexes_bounded D b"
    by (rule representsE)
  have "handle_ok p db" by (rule since_handle_ok [OF c(2) r(2)])
  moreover have "separate real p" using assms(1) by (simp add: can_create_def)
  ultimately obtain db' w' where o: "open_with_options real p opts' (crash real db w0) = (Ok db', w')" "gstore_rep J db' G"
    using gstore_reopen [OF G(1) _ _ assms(6)] by blast
  have "b * length cs' \<le> g_room G" using G(3) by (simp add: distrib_left)
  from run_db_refines [OF o(2) G(2,4) this] show ?thesis using o(1) by blast
qed

theorem database_survives_crash_witness:
  "\<exists>db0 w0 a db db' w'. create_with_options id demo_path 4096 empty_world = (Ok db0, w0) \<and>
    run_db demo_lib unique_codec demo_calls db0 = ([SchemaReply (Saved (Ok ())), Made (Ok a)], db) \<and>
    open_with_options id demo_path 8192 (crash id db w0) = (Ok db', w') \<and>
    fst (run_db demo_lib unique_codec [FindNodes 1 (Flat ''age'') (JNumber 42), InsertNode 1 age42] db') =
      [Records (Ok [a]), Made (Err (UniqueViolation ''age'' ''value''))]"
proof -
  obtain db0 w0 where c: "create_with_options id demo_path 4096 empty_world = (Ok db0, w0)" "db_rep db0 fresh_vol"
    using create_fresh [OF can_create_demo] by blast
  have "represents demo_lib unique_codec 10 db0 None empty_pgraph 1000" by (rule new_represents [OF c(2)]) simp_all
  then obtain a db where run: "legal_run demo_lib unique_codec 10 None empty_pgraph db0 demo_calls (Some unique_dto) (demo_graph a) db"
      "run_db demo_lib unique_codec demo_calls db0 = ([SchemaReply (Saved (Ok ())), Made (Ok a)], db)"
    by (rule demo_run) simp
  let ?cs = "[FindNodes 1 (Flat ''age'') (JNumber 42), InsertNode 1 age42]"
  obtain db' w' where o: "open_with_options id demo_path 8192 (crash id db w0) = (Ok db', w')"
      "db_trace demo_lib unique_codec 10 (Some unique_dto) (demo_graph a) ?cs (fst (run_db demo_lib unique_codec ?cs db'))"
    using database_survives_crash [OF can_create_demo c(1) run(1), of ?cs 8192] by auto
  have "fst (run_db demo_lib unique_codec ?cs db') = [Records (Ok [a]), Made (Err (UniqueViolation ''age'' ''value''))]"
    using o(2) by (elim db_trace_ConsE)
      (auto simp del: unique_in.simps simp: schema_next_def demo_hits the_records_single demo_props_legal is_indexable_value_def
        insert_node_spec_def unique_path demo_unique db_trace_Nil)
  then show ?thesis using c(1) run(2) o(1) by blast
qed

text \<open>
  C4: unique constraints hold. On every run of legal calls (insertions, updates, label changes,
  deletions, reads and changes of the schema, in any order) in which a property is declared unique before
  its type has nodes, no two nodes of a type come to have the same value of a unique property, and a
  lookup of a value that is equal to no other finds at most one node. The same value means the same
  bytes: the check does not see that the floats \<open>0.0\<close> and \<open>-0.0\<close> are equal.
\<close>

theorem unique_constraints_are_kept:
  assumes "legal_run L J b D A db cs D' A' db'" "unique_ok D A" "schema_calls_early L J b D A db cs"
    and "represents L J b db D A room" "b * length cs \<le> room"
    and "pth \<in> set (unique_paths D' t)" "is_indexable_value x"
  shows "(\<forall>r r'. has_value A' t pth x r \<longrightarrow> has_value A' t pth x r' \<longrightarrow> r = r') \<and>
    ((\<forall>y. json_eq L y x \<longrightarrow> y = x) \<longrightarrow> (\<exists>rs db''. find_all_nodes L J t pth x db' = (Ok rs, db'') \<and> length rs \<le> 1))"
proof (intro conjI impI)
  have u: "unique_ok D' A'" by (rule run_unique [OF assms(1-3)])
  then have same: "r = r'" if "has_value A' t pth x r" "has_value A' t pth x r'" for r r'
    using assms(6,7) that unfolding unique_ok_def by blast
  then show "\<forall>r r'. has_value A' t pth x r \<longrightarrow> has_value A' t pth x r' \<longrightarrow> r = r'" by blast
  obtain G where G: "gstore_rep J db' G" "pg_rep L D' G A'" using run_represents [OF assms(1,4,5)] by (auto elim: representsE)
  obtain rs db'' where rs: "find_all_nodes L J t pth x db' = (Ok rs, db'')" "distinct rs" "set rs = {rid. finds L D' A' t pth x rid}"
    using find_all_nodes_gok [OF G(2) assms(7), of J t pth] G(1) unfolding gspec_def by blast
  assume one: "\<forall>y. json_eq L y x \<longrightarrow> y = x"
  have "has_value A' t pth x r" if "r \<in> set rs" for r
    using that one unfolding rs(3) by (auto simp: finds_def hits_def has_value_def some_eq_def split: option.splits)
  then have "card (set rs) \<le> 1" using same by (metis card_le_Suc0_iff_eq One_nat_def List.finite_set)
  then have "length rs \<le> 1" using distinct_card [OF rs(2)] by simp
  then show "\<exists>rs db''. find_all_nodes L J t pth x db' = (Ok rs, db'') \<and> length rs \<le> 1" using rs(1) by blast
qed

theorem unique_constraints_are_kept_witness:
  "\<exists>a b db rs db'. a \<noteq> b \<and> run_db demo_lib unique_codec unique_calls create_in_memory =
      ([SchemaReply (Saved (Ok ())), Made (Ok a), Made (Err (UniqueViolation ''age'' ''value'')), Made (Ok b)], db) \<and>
    find_all_nodes demo_lib unique_codec 1 (Flat ''age'') (JNumber 42) db = (Ok rs, db') \<and> length rs \<le> 1"
proof (rule unique_run)
  fix a b db A
  assume run: "a \<noteq> b" "legal_run demo_lib unique_codec 10 None empty_pgraph create_in_memory unique_calls (Some unique_dto) A db"
    "run_db demo_lib unique_codec unique_calls create_in_memory =
      ([SchemaReply (Saved (Ok ())), Made (Ok a), Made (Err (UniqueViolation ''age'' ''value'')), Made (Ok b)], db)"
  have rep: "represents demo_lib unique_codec 10 create_in_memory None empty_pgraph 1000"
    by (rule new_represents [OF create_in_memory_rep]) simp_all
  have "pg_nodes A1 = Map.empty" if "unique_calls = cs1 @ SchemaCall c # cs2"
      "legal_run demo_lib unique_codec 10 None empty_pgraph create_in_memory cs1 D1 A1 db1" for cs1 c cs2 D1 A1 db1
    using that by (cases cs1) (auto elim!: legal_run_NilE simp: empty_pgraph_def append_eq_Cons_conv Cons_eq_append_conv)
  then have early: "schema_calls_early demo_lib unique_codec 10 None empty_pgraph create_in_memory unique_calls"
    unfolding schema_calls_early_def declares_early_def by fastforce
  from unique_constraints_are_kept [OF run(2) empty_unique early rep, of "Flat ''age''" 1 "JNumber 42"] run(1,3)
  show ?thesis by (auto simp: unique_path is_indexable_value_def)
qed

text \<open>
  C3: a lookup through the property index returns what the scan it replaces returns. For every type, path
  and scalar value, whether the path is indexed or not, \<open>find_all_nodes\<close> returns, each once, nodes that
  \<open>find_all\<close> finds by reading every node of the database, and all of them if the values equal to the one
  looked for are encoded alike. Only the floats \<open>0.0\<close> and \<open>-0.0\<close> are equal and encoded differently: a
  lookup of one misses a node that has the other, which the scan returns.
\<close>

theorem index_lookup_is_scan:
  assumes "represents L J b db D A room" "is_indexable_value x"
  shows "\<exists>rs db1 rs' db2. find_all_nodes L J t pth x db = (Ok rs, db1) \<and> find_all L t pth x db = (Ok rs', db2) \<and>
    distinct rs \<and> distinct rs' \<and> set rs \<subseteq> set rs' \<and>
    ((\<forall>y. json_eq L y x \<longrightarrow> encode_value L y = encode_value L x) \<longrightarrow> mset rs = mset rs')"
proof -
  from assms(1) obtain G where G: "gstore_rep J db G" "pg_rep L D G A" by (rule representsE)
  obtain rs db1 where rs: "find_all_nodes L J t pth x db = (Ok rs, db1)" "distinct rs" "set rs = {rid. finds L D A t pth x rid}"
    using find_all_nodes_gok [OF G(2) assms(2), of J t pth] G(1) unfolding gspec_def by blast
  obtain rs' db2 where rs': "find_all L t pth x db = (Ok rs', db2)" "distinct rs'" "set rs' = {rid. hits L A t pth x rid}"
    using find_all_gok [OF G(2), of J t pth x] G(1) unfolding gspec_def by blast
  have "set rs \<subseteq> set rs'" unfolding rs(3) rs'(3) by (auto simp: finds_def)
  moreover have "mset rs = mset rs'" if "\<forall>y. json_eq L y x \<longrightarrow> encode_value L y = encode_value L x"
  proof -
    have "finds L D A t pth x r = hits L A t pth x r" for r
      by (rule finds_plain [OF _ assms(2)], unfold plain_def, rule that)
    then have "set rs = set rs'" unfolding rs(3) rs'(3) by blast
    then show ?thesis using rs(2) rs'(2) set_eq_iff_mset_eq_distinct by blast
  qed
  ultimately show ?thesis using rs(1,2) rs'(1,2) by blast
qed

theorem index_lookup_is_scan_witness:
  "\<exists>a db rs db1 rs' db2. run_db demo_lib unique_codec demo_calls create_in_memory = ([SchemaReply (Saved (Ok ())), Made (Ok a)], db) \<and>
    find_all_nodes demo_lib unique_codec 1 (Flat ''age'') (JNumber 42) db = (Ok rs, db1) \<and>
    find_all demo_lib 1 (Flat ''age'') (JNumber 42) db = (Ok rs', db2) \<and> mset rs = mset rs'"
proof (rule demo_memory)
  fix a db
  assume run: "run_db demo_lib unique_codec demo_calls create_in_memory = ([SchemaReply (Saved (Ok ())), Made (Ok a)], db)"
    and rep: "represents demo_lib unique_codec 10 db (Some unique_dto) (demo_graph a) 980"
  have "is_indexable_value (JNumber 42 :: int json)" by (simp add: is_indexable_value_def)
  from index_lookup_is_scan [OF rep this, of 1 "Flat ''age''"] run show ?thesis by auto
qed

text \<open>
  The exception: a node whose value equals the one looked for, but has other bytes, is found by the scan
  and missed by the index. In the code these are \<open>0.0\<close> and \<open>-0.0\<close>.
\<close>

lemma index_misses_equal_value:
  assumes rep: "represents L J b db D A room" and x: "is_indexable_value x" and idx: "indexed_in D t = [(pth, u)]"
    and node: "pg_nodes A a = Some v" "v_type v = t" "pmap_at pth (v_props v) = Some y" "json_eq L y x"
    and bytes: "encode_value L y = Ok c" "encode_value L x = Ok c'"
      "index_key_new t (as_bytes (display_name pth)) c \<noteq> index_key_new t (as_bytes (display_name pth)) c'"
  shows "\<exists>rs db1 rs' db2. find_all_nodes L J t pth x db = (Ok rs, db1) \<and> find_all L t pth x db = (Ok rs', db2) \<and>
    a \<notin> set rs \<and> a \<in> set rs'"
proof -
  from rep obtain G where G: "gstore_rep J db G" "pg_rep L D G A" by (rule representsE)
  obtain rs db1 where rs: "find_all_nodes L J t pth x db = (Ok rs, db1)" "set rs = {rid. finds L D A t pth x rid}"
    using find_all_nodes_gok [OF G(2) x, of J t pth] G(1) unfolding gspec_def by blast
  obtain rs' db2 where rs': "find_all L t pth x db = (Ok rs', db2)" "set rs' = {rid. hits L A t pth x rid}"
    using find_all_gok [OF G(2), of J t pth x] G(1) unfolding gspec_def by blast
  have "\<not> finds L D A t pth x a"
    using bytes idx node(1,2,3) by (auto simp: finds_def node_entries_def entries_for_def entry_of_inj)
  moreover have "hits L A t pth x a" using node by (auto simp: hits_def)
  ultimately show ?thesis using rs rs' by blast
qed

text \<open>
  C5: deleting a node. It takes exactly the node and its incident edges, in either direction and self
  loops included: every other node and edge, and the order of the remaining adjacency lists, stay; the
  label index and the property index no longer name the node, and its stored values and those of the
  edges are freed.
\<close>

theorem delete_node_cascades:
  assumes "gstore_rep J db G" "pg_rep L D G A" "pg_nodes A rid = Some v"
  shows "\<exists>db' G' A'. delete_node L J rid db = (Ok (), db') \<and> gstore_rep J db' G' \<and> pg_rep L D G' A' \<and>
    pg_nodes A' = (pg_nodes A)(rid := None) \<and>
    (\<forall>r. pg_edges A' r = (if incident A rid r then None else pg_edges A r)) \<and>
    (\<forall>d u. pg_adj A' d u = filter (\<lambda>r. \<not> incident A rid r) (pg_adj A d u)) \<and>
    (\<forall>t. rid \<notin># g_labels G' t) \<and> (\<forall>k. entry_of k rid \<notin> g_index G') \<and>
    (\<forall>p. g_vals G' p \<noteq> None \<longleftrightarrow> (\<exists>h. ref_of G' h = Some p))"
proof -
  obtain r db' G' A' where d: "delete_node L J rid db = (r, db')" "gstore_rep J db' G'" "pg_rep L D G' A'" "delete_node_spec A rid r A'"
    using delete_node_gspec [OF assms(2), of J rid] assms(1) unfolding gspec_def by blast
  have A': "r = Ok ()" "A' = delete_vertex rid A" using d(4) assms(3) by (simp_all add: delete_node_spec_def)
  note R = pg_repD [OF d(3)]
  have none: "pg_nodes A' rid = None" by (simp add: A'(2) delete_vertex_def)
  have "rid \<notin># g_labels G' t" for t
    using R(9) none finite_rids [of "typed_nodes (pg_nodes A') t"] by (auto simp: labels_ok_def typed_nodes_def)
  moreover have "entry_of k rid \<notin> g_index G'" for k
  proof
    assume "entry_of k rid \<in> g_index G'"
    then obtain r' where r': "entry_of k rid \<in> node_entries L D r' (pg_nodes A' r')" using R(10) unfolding index_ok_def by blast
    then have "r' = rid" using node_entries_rid [OF r'] by (auto simp: entry_of_inj)
    then show False using r' none by (simp add: node_entries_def)
  qed
  moreover have "g_vals G' p \<noteq> None \<longleftrightarrow> (\<exists>h. ref_of G' h = Some p)" for p using R(2) unfolding owned_def by blast
  ultimately show ?thesis
    using d(1-3) A' by (intro exI [of _ db'] exI [of _ G'] exI [of _ A']) (simp add: delete_vertex_def)
qed

theorem delete_node_cascades_witness:
  "\<exists>a db db'. run_db demo_lib unique_codec demo_calls create_in_memory = ([SchemaReply (Saved (Ok ())), Made (Ok a)], db) \<and>
    delete_node demo_lib unique_codec a db = (Ok (), db')"
proof (rule demo_memory)
  fix a db
  assume run: "run_db demo_lib unique_codec demo_calls create_in_memory = ([SchemaReply (Saved (Ok ())), Made (Ok a)], db)"
    and rep: "represents demo_lib unique_codec 10 db (Some unique_dto) (demo_graph a) 980"
  from rep obtain G where G: "gstore_rep unique_codec db G" "pg_rep demo_lib (Some unique_dto) G (demo_graph a)" by (rule representsE)
  have "pg_nodes (demo_graph a) a = Some \<lparr>v_type = 1, v_labels = [], v_props = map_of age42\<rparr>" by (simp add: demo_graph_def)
  from delete_node_cascades [OF G this] run show ?thesis by blast
qed

text \<open>
  C6: no stored value leaks and none is shared. After any run of legal calls on a new database (the
  properties and the label list of a record take at most 4088 bytes each, and labels are written to
  records that exist) every value in the property store is referenced by exactly one record, as its
  properties or as its labels, and every reference leads to a stored value: updates and deletions free
  what they replace, and free nothing else.
\<close>

theorem stored_values_are_owned:
  assumes "legal_run L J b None empty_pgraph create_in_memory cs D A db" "7 \<le> b" "b * length cs < 2 ^ 32 - 1"
  shows "\<exists>G. gstore_rep J db G \<and> (\<forall>p. g_vals G p \<noteq> None \<longrightarrow> (\<exists>!h. ref_of G h = Some p)) \<and>
    (\<forall>h p. ref_of G h = Some p \<longrightarrow> g_vals G p \<noteq> None)"
proof -
  have "represents L J b db D A (b * length cs - b * length cs)"
    using run_represents [OF assms(1) new_represents [OF create_in_memory_rep assms(3,2)]] by simp
  then obtain G where G: "gstore_rep J db G" "pg_rep L D G A" by (rule representsE)
  then show ?thesis using pg_repD(2) [OF G(2)] unfolding owned_def by blast
qed

theorem stored_values_are_owned_witness:
  "\<exists>a db G. run_db demo_lib unique_codec demo_calls create_in_memory = ([SchemaReply (Saved (Ok ())), Made (Ok a)], db) \<and>
    gstore_rep unique_codec db G \<and> (\<forall>h p. ref_of G h = Some p \<longrightarrow> g_vals G p \<noteq> None)"
proof (rule demo_memory)
  fix a db
  assume run: "legal_run demo_lib unique_codec 10 None empty_pgraph create_in_memory demo_calls (Some unique_dto) (demo_graph a) db"
    "run_db demo_lib unique_codec demo_calls create_in_memory = ([SchemaReply (Saved (Ok ())), Made (Ok a)], db)"
  have "\<exists>G. gstore_rep unique_codec db G \<and> (\<forall>p. g_vals G p \<noteq> None \<longrightarrow> (\<exists>!h. ref_of G h = Some p)) \<and>
      (\<forall>h p. ref_of G h = Some p \<longrightarrow> g_vals G p \<noteq> None)"
    by (rule stored_values_are_owned [OF run(1)]) simp_all
  then show ?thesis using run(2) by blast
qed

text \<open>
  C7: a call that fails has no effect. Whatever legal call answers with an error (a missing record, a
  value of the wrong type, a violated unique constraint, a refused schema change), the error is one the
  code returns, never a panic or a call that does not end, and the database stands for the same graph
  and schema as before.
\<close>

theorem failed_calls_change_nothing:
  assumes "represents L J b db D A room" "db_legal L J b D A c" "b \<le> room" "db_step L J c db = (r, db')" "reply_error r = Some a"
  shows "(\<exists>e. a = Failed e) \<and> represents L J b db' D A (room - b)"
proof -
  obtain A' where s: "db_answer L D A c r A'" "represents L J b db' (schema_next D c) A' (room - b)"
    using legal_step [OF assms(1-3)] assms(4) by (metis Pair_inject)
  then show ?thesis using answer_error [OF s(1) assms(5)] by simp
qed

theorem failed_calls_change_nothing_witness:
  "\<exists>a db db' r. run_db demo_lib unique_codec demo_calls create_in_memory = ([SchemaReply (Saved (Ok ())), Made (Ok a)], db) \<and>
    db_step demo_lib unique_codec (InsertNode 1 age42) db = (Made (Err (UniqueViolation ''age'' ''value'')), db') \<and>
    represents demo_lib unique_codec 10 db' (Some unique_dto) (demo_graph a) 970"
proof (rule demo_memory)
  fix a db
  assume run: "run_db demo_lib unique_codec demo_calls create_in_memory = ([SchemaReply (Saved (Ok ())), Made (Ok a)], db)"
    and rep: "represents demo_lib unique_codec 10 db (Some unique_dto) (demo_graph a) 980"
  have l: "db_legal demo_lib unique_codec 10 (Some unique_dto) (demo_graph a) (InsertNode 1 age42)" by (simp add: demo_props_legal)
  have le: "(10 :: nat) \<le> 980" by simp
  obtain r db' A' where s: "db_step demo_lib unique_codec (InsertNode 1 age42) db = (r, db')"
      "db_answer demo_lib (Some unique_dto) (demo_graph a) (InsertNode 1 age42) r A'"
    using legal_step [OF rep l le] by blast
  have r: "r = Made (Err (UniqueViolation ''age'' ''value''))"
    using s(2) by (auto simp del: unique_in.simps simp: insert_node_spec_def unique_path demo_unique)
  have "reply_error r = Some (Failed (UniqueViolation ''age'' ''value''))" by (simp add: r)
  from failed_calls_change_nothing [OF rep l _ s(1) this] show ?thesis using run s(1) r by auto
qed

text \<open>
  C29: an inserted node is read back: it has the properties and the type it was inserted with, it is
  listed under its type, and a lookup of each of its scalar properties finds it.
\<close>

theorem inserted_node_is_read_back:
  assumes "represents L J b db D A room" "props_legal L ps" "b \<le> room" "insert_node L J t ps db = (Ok rid, db1)"
  shows "(\<exists>qs db2. get_node_properties_raw L rid db1 = (Ok qs, db2) \<and> map_of qs = map_of ps) \<and>
    (\<exists>db2. get_node_type_ids L rid db1 = (Ok [t], db2)) \<and>
    (\<exists>rs db2. rids_of_type t db1 = (Ok rs, db2) \<and> rid \<in> set rs) \<and>
    (\<forall>pth x. pmap_at pth (map_of ps) = Some x \<and> is_indexable_value x \<longrightarrow>
      (\<exists>rs db2. find_all_nodes L J t pth x db1 = (Ok rs, db2) \<and> rid \<in> set rs))"
proof -
  let ?v = "\<lparr>v_type = t, v_labels = [], v_props = map_of ps\<rparr>"
  have step: "db_step L J (InsertNode t ps) db = (Made (Ok rid), db1)" using assms(4) by (simp add: reply_by_def)
  have "db_legal L J b D A (InsertNode t ps)" using assms(2) by simp
  from legal_step [OF assms(1) this assms(3)] step obtain A' where A': "db_answer L D A (InsertNode t ps) (Made (Ok rid)) A'"
      "represents L J b db1 (schema_next D (InsertNode t ps)) A' (room - b)" by (metis Pair_inject)
  have D: "schema_next D (InsertNode t ps) = D" by (simp add: schema_next_def)
  from A'(2) obtain G where G: "gstore_rep J db1 G" "pg_rep L D G A'" unfolding D by (rule representsE)
  have v: "pg_nodes A' rid = Some ?v" using A'(1) by (auto simp: insert_node_spec_def split: sum.splits)
  note R = pg_repD [OF G(2)]
  have 1: "\<exists>qs db2. get_node_properties_raw L rid db1 = (Ok qs, db2) \<and> map_of qs = map_of ps"
    using get_props_gok [OF R(2) R(4) [OF v], of J] G(1) unfolding gspec_def by fastforce
  have 2: "\<exists>db2. get_node_type_ids L rid db1 = (Ok [t], db2)"
    using get_node_types_gok [OF R(2) R(4) [OF v], of J] G(1) unfolding gspec_def by (fastforce simp: all_types_def)
  have "rid \<in> typed_nodes (pg_nodes A') t" using v by (simp add: typed_nodes_def all_types_def)
  then have 3: "\<exists>rs db2. rids_of_type t db1 = (Ok rs, db2) \<and> rid \<in> set rs"
    using of_type_gok [OF G(2), of J t] G(1) unfolding gspec_def by blast
  have 4: "\<exists>rs db2. find_all_nodes L J t pth x db1 = (Ok rs, db2) \<and> rid \<in> set rs"
    if "pmap_at pth (map_of ps) = Some x" "is_indexable_value x" for pth x
  proof -
    have "rid \<in> {r. finds L D A' t pth x r}" using finds_own [OF v, where y = x and x = x] that by simp
    then show ?thesis using find_all_nodes_gok [OF G(2) that(2), of J t pth] G(1) unfolding gspec_def by blast
  qed
  show ?thesis using 1 2 3 4 by blast
qed

theorem inserted_node_is_read_back_witness:
  "\<exists>a db db2. insert_node demo_lib unique_codec 1 age42 create_in_memory = (Ok a, db) \<and>
    get_node_type_ids demo_lib a db = (Ok [1], db2)"
proof -
  have rep: "represents demo_lib unique_codec 10 create_in_memory None empty_pgraph 1000"
    by (rule new_represents [OF create_in_memory_rep]) simp_all
  have l: "db_legal demo_lib unique_codec 10 None empty_pgraph (InsertNode 1 age42)" by (simp add: demo_props_legal)
  have le: "(10 :: nat) \<le> 1000" by simp
  obtain r db A' where s: "db_step demo_lib unique_codec (InsertNode 1 age42) create_in_memory = (r, db)"
      "db_answer demo_lib None empty_pgraph (InsertNode 1 age42) r A'"
    using legal_step [OF rep l le] by blast
  have "unique_paths None 1 = []" by (simp add: unique_paths_def indexed_in_def node_def_in_def)
  then obtain a where "r = Made (Ok a)" using s(2) by (auto simp: insert_node_spec_def)
  then have i: "insert_node demo_lib unique_codec 1 age42 create_in_memory = (Ok a, db)"
    using s(1) by (simp add: reply_by_def split: prod.splits)
  from inserted_node_is_read_back [OF rep demo_props_legal(1) _ i] show ?thesis using i by auto
qed

end
