(* ===== verification/Traversal_Command.thy ===== *)
theory Traversal_Command
  imports Database Value_Convert
begin

text \<open>
  Traversal commands (\<^verbatim>\<open>traversal/command.rs\<close>): a start, steps and what to collect. The
  deserialisation of commands from JSON is generated by serde and is not modelled.
\<close>

section \<open>Filters\<close>

type_synonym 'n bindings = "'n props"

datatype 'n filter_value = Binding string | PropertyRef property_path | Literal "'n json"

fun fv_resolve :: "'n filter_value \<Rightarrow> 'n props option \<Rightarrow> 'n bindings \<Rightarrow> 'n json option" where
  "fv_resolve (Literal v) props bindings = Some v"
| "fv_resolve (PropertyRef key) props bindings = Option.bind props (resolve key)"
| "fv_resolve (Binding name) props bindings = map_of bindings name"

text \<open>\<open>resolve_binding\<close>: a value of the form \<open>{"$bind": key}\<close> stands for the binding of the key, if there is one.\<close>

definition resolve_binding :: "'n json \<Rightarrow> 'n bindings \<Rightarrow> 'n json" where
  "resolve_binding v bindings =
     (case v of
        JObject [(name, JString key)] \<Rightarrow>
          if name = ''$bind'' then (case map_of bindings key of Some w \<Rightarrow> w | None \<Rightarrow> v) else v
      | _ \<Rightarrow> v)"

datatype filter_operator =
    Equals | NotEquals | GreaterThan | LessThan | GreaterThanOrEquals | LessThanOrEquals | Contains | StartsWith | EndsWith
  | Exists | IsNull | Matches | PropertyEquals | PropertyGreaterThan | PropertyLessThan

record 'n prop_filter =
  pf_property :: property_path
  pf_operator :: filter_operator
  pf_value :: "'n filter_value"

datatype 'n filter_expr = Simple "'n prop_filter" | Compound "'n compound_filter"
and 'n compound_filter = And "'n filter_expr list" | Or "'n filter_expr list" | Not "'n filter_expr"

section \<open>Steps\<close>

datatype traversal_action =
    OutEdges | InEdges | BothEdges | OutNodes | InNodes | BothNodes | Filter | HasLabel | Dedup | Limit | Skip | OrderBy | Repeat

datatype sort_direction = Asc | Desc

record order_by_spec =
  ob_key :: property_path
  ob_direction :: sort_direction

datatype 'n traversal_step = TraversalStep
  (ts_action: traversal_action) (ts_label: "string option") (ts_labels: "string list option")
  (ts_filter: "'n prop_filter option") (ts_compound_filter: "'n compound_filter option")
  (ts_count: "nat option") (ts_skip: "nat option") (ts_order_by: "order_by_spec option")
  (ts_repeat_steps: "'n traversal_step list option") (ts_max_depth: "nat option")
  (ts_custom_filter: "string option") (ts_any_key_contains: "string option")

text \<open>\<open>TraversalStep::default\<close> with an action and a label.\<close>

definition default_step :: "traversal_action \<Rightarrow> string option \<Rightarrow> 'n traversal_step" where
  "default_step action label = TraversalStep action label None None None None None None None None None None"

section \<open>What is collected\<close>

datatype aggregate_fn = CountFn | SumFn | AvgFn | MinFn | MaxFn

fun aggregate_name :: "aggregate_fn \<Rightarrow> string" where
  "aggregate_name CountFn = ''count''"
| "aggregate_name SumFn = ''sum''"
| "aggregate_name AvgFn = ''avg''"
| "aggregate_name MinFn = ''min''"
| "aggregate_name MaxFn = ''max''"

record aggregate_function =
  af_func :: aggregate_fn
  af_property :: "property_path option"
  af_alias :: "string option"

definition output_key :: "aggregate_function \<Rightarrow> string" where
  "output_key f =
     (case af_alias f of
        Some alias \<Rightarrow> alias
      | None \<Rightarrow>
          (case af_property f of
             Some p \<Rightarrow> aggregate_name (af_func f) @ ''_'' @ display_name p
           | None \<Rightarrow> aggregate_name (af_func f)))"

datatype group_by_key = ByNode property_path | ByEdge property_path

record edge_collect_spec =
  ec_label :: "string option"
  ec_properties :: "string list"

record path_node_spec =
  pn_label :: string
  pn_properties :: "string list"

datatype collect_spec =
    CollectNodes "string list" "edge_collect_spec option"
  | CollectEdges "string list"
  | CollectCount
  | CollectExists
  | CollectPath "path_node_spec list"
  | CollectAggregate "aggregate_function list"
  | CollectGroupBy group_by_key "aggregate_function list"

datatype 'n collect_result =
    Rows "'n props list" | Count nat | ExistsResult bool | AggregateResult "'n props" | Groups "'n props list" | PathResult "'n props list list"

record 'n start_spec =
  ss_kind :: string
  ss_label :: string
  ss_key :: string
  ss_value :: "'n json"

record 'n traversal_command =
  tc_bindings :: "'n bindings"
  tc_start :: "'n start_spec"
  tc_steps :: "'n traversal_step list"
  tc_collect :: collect_spec

section \<open>Comparison of values\<close>

datatype ordering = Less | Equal | Greater

fun reverse_ordering :: "ordering \<Rightarrow> ordering" where
  "reverse_ordering Less = Greater"
| "reverse_ordering Equal = Equal"
| "reverse_ordering Greater = Less"

definition ordering_of :: "'a::linorder \<Rightarrow> 'a \<Rightarrow> ordering" where
  "ordering_of x y = (if x < y then Less else if x = y then Equal else Greater)"

text \<open>\<open>f64::partial_cmp\<close>: the value of a number that is not a NaN, on the scale of the smallest subnormal.\<close>

definition f64_is_nan :: "u64 \<Rightarrow> bool" where
  "f64_is_nan f \<longleftrightarrow> f64_exponent f = 2047 \<and> f64_fraction f \<noteq> 0"

definition f64_key :: "u64 \<Rightarrow> int" where
  "f64_key f = (if f64_negative f then - int (f64_units f) else int (f64_units f))"

definition f64_partial_cmp :: "u64 \<Rightarrow> u64 \<Rightarrow> ordering option" where
  "f64_partial_cmp x y = (if f64_is_nan x \<or> f64_is_nan y then None else Some (ordering_of (f64_key x) (f64_key y)))"

text \<open>\<open>str::cmp\<close>: byte by byte.\<close>

fun string_cmp :: "string \<Rightarrow> string \<Rightarrow> ordering" where
  "string_cmp [] [] = Equal"
| "string_cmp [] (_ # _) = Less"
| "string_cmp (_ # _) [] = Greater"
| "string_cmp (a # as) (b # bs) =
     (case ordering_of (of_char a :: nat) (of_char b) of Equal \<Rightarrow> string_cmp as bs | r \<Rightarrow> r)"

fun cmp_values :: "'n lib \<Rightarrow> 'n json \<Rightarrow> 'n json \<Rightarrow> ordering option" where
  "cmp_values L (JNumber x) (JNumber y) =
     Option.bind (as_f64 L x) (\<lambda>a. Option.bind (as_f64 L y) (f64_partial_cmp a))"
| "cmp_values L (JString x) (JString y) = Some (string_cmp x y)"
| "cmp_values L _ _ = None"

fun cmp_option_values :: "'n lib \<Rightarrow> 'n json option \<Rightarrow> 'n json option \<Rightarrow> ordering" where
  "cmp_option_values L None None = Equal"
| "cmp_option_values L None (Some _) = Less"
| "cmp_option_values L (Some _) None = Greater"
| "cmp_option_values L (Some a) (Some b) = (case cmp_values L a b of None \<Rightarrow> Equal | Some r \<Rightarrow> r)"

section \<open>Floating-point sums\<close>

definition f64_is_infinite :: "u64 \<Rightarrow> bool" where
  "f64_is_infinite f \<longleftrightarrow> f64_exponent f = 2047 \<and> f64_fraction f = 0"

definition f64_add :: "u64 \<Rightarrow> u64 \<Rightarrow> u64" where
  "f64_add x y =
     (if f64_is_nan x \<or> f64_is_nan y then of_nat f64_nan
      else if f64_is_infinite x then
        (if f64_is_infinite y \<and> f64_negative x \<noteq> f64_negative y then of_nat f64_nan else x)
      else if f64_is_infinite y then y
      else let s = f64_key x + f64_key y in
        if s = 0 then f64_of (f64_negative x \<and> f64_negative y) 0
        else f64_of (s < 0) (f64_round (nat \<bar>s\<bar>) (2 ^ 1074)))"

text \<open>\<open>x / n as f64\<close> for a length \<open>n > 0\<close>.\<close>

definition f64_div_len :: "u64 \<Rightarrow> nat \<Rightarrow> u64" where
  "f64_div_len x n =
     (if f64_is_nan x then of_nat f64_nan
      else if f64_is_infinite x then x
      else f64_of (f64_negative x) (f64_round (f64_units x) (f64_units (f64_of False (f64_round n 1)))))"

end
