(* ===== verification/Traversal.thy ===== *)
theory Traversal
  imports Traversal_Command
begin

text \<open>
  The traversal executor (\<^verbatim>\<open>traversal/executor.rs\<close>). The graph is reached through the trait
  \<open>GraphAccess\<close>, here a record of its methods; the regular expressions and the Unicode lower-case
  mapping are parameters of \<open>env\<close>.
\<close>

section \<open>The graph and the environment\<close>

record 'n graph_access =
  ga_find_node :: "string \<Rightarrow> string \<Rightarrow> 'n json \<Rightarrow> u64 option"
  ga_all_nodes_of_label :: "string \<Rightarrow> u64 list"
  ga_all_edges_of_label :: "string \<Rightarrow> u64 list"
  ga_node_properties :: "u64 \<Rightarrow> 'n props option"
  ga_node_label :: "u64 \<Rightarrow> string option"
  ga_node_labels :: "u64 \<Rightarrow> string list"
  ga_out_edges :: "u64 \<Rightarrow> string option \<Rightarrow> u64 list"
  ga_in_edges :: "u64 \<Rightarrow> string option \<Rightarrow> u64 list"
  ga_edge_to_node :: "u64 \<Rightarrow> u64 option"
  ga_edge_from_node :: "u64 \<Rightarrow> u64 option"
  ga_edge_label :: "u64 \<Rightarrow> string option"
  ga_edge_properties :: "u64 \<Rightarrow> 'n props option"
  ga_apply_custom_filter :: "string \<Rightarrow> (u64 \<times> 'n props) list \<Rightarrow> u64 list"

text \<open>
  \<open>env_regex p s\<close>: \<open>Regex::new(p).is_ok_and(|re| re.is_match(s))\<close>. \<open>env_zero\<close> is the value the
  standard library starts a sum of \<open>f64\<close> with, \<open>0.0\<close> or, in newer versions, \<open>-0.0\<close>.
\<close>

record 'n env =
  env_lib :: "'n lib"
  env_regex :: "string \<Rightarrow> string \<Rightarrow> bool"
  env_lowercase :: "string \<Rightarrow> string"
  env_zero :: u64

datatype cursor = Nodes "u64 list" | Edges "u64 list"

definition require_nodes :: "cursor \<Rightarrow> u64 list res" where
  "require_nodes c = (case c of Nodes ns \<Rightarrow> Ok ns | Edges _ \<Rightarrow> Err (InvalidCommand ''expected node cursor, got edge cursor''))"

definition require_edges :: "cursor \<Rightarrow> u64 list res" where
  "require_edges c = (case c of Edges es \<Rightarrow> Ok es | Nodes _ \<Rightarrow> Err (InvalidCommand ''expected edge cursor, got node cursor''))"

section \<open>Filters\<close>

text \<open>\<open>str::contains\<close>, \<open>starts_with\<close>, \<open>ends_with\<close> on the bytes.\<close>

fun is_prefix :: "string \<Rightarrow> string \<Rightarrow> bool" where
  "is_prefix [] s = True"
| "is_prefix (_ # _) [] = False"
| "is_prefix (a # as) (b # bs) = (a = b \<and> is_prefix as bs)"

fun str_contains :: "string \<Rightarrow> string \<Rightarrow> bool" where
  "str_contains [] e = (e = [])"
| "str_contains (c # cs) e = (is_prefix e (c # cs) \<or> str_contains cs e)"

definition str_ends_with :: "string \<Rightarrow> string \<Rightarrow> bool" where
  "str_ends_with s e = is_prefix (rev e) (rev s)"

definition on_strings :: "(string \<Rightarrow> string \<Rightarrow> bool) \<Rightarrow> 'n json \<Rightarrow> 'n json \<Rightarrow> bool" where
  "on_strings f actual expected = (case (actual, expected) of (JString a, JString e) \<Rightarrow> f a e | _ \<Rightarrow> False)"

fun eval_filter :: "'n env \<Rightarrow> 'n json \<Rightarrow> filter_operator \<Rightarrow> 'n json \<Rightarrow> bool" where
  "eval_filter E actual Equals expected = json_eq (env_lib E) actual expected"
| "eval_filter E actual PropertyEquals expected = json_eq (env_lib E) actual expected"
| "eval_filter E actual NotEquals expected = (\<not> json_eq (env_lib E) actual expected)"
| "eval_filter E actual Contains expected = on_strings str_contains actual expected"
| "eval_filter E actual StartsWith expected = on_strings (\<lambda>a e. is_prefix e a) actual expected"
| "eval_filter E actual EndsWith expected = on_strings str_ends_with actual expected"
| "eval_filter E actual Matches expected = on_strings (\<lambda>a pattern. env_regex E pattern a) actual expected"
| "eval_filter E actual GreaterThan expected = (cmp_values (env_lib E) actual expected = Some Greater)"
| "eval_filter E actual PropertyGreaterThan expected = (cmp_values (env_lib E) actual expected = Some Greater)"
| "eval_filter E actual LessThan expected = (cmp_values (env_lib E) actual expected = Some Less)"
| "eval_filter E actual PropertyLessThan expected = (cmp_values (env_lib E) actual expected = Some Less)"
| "eval_filter E actual GreaterThanOrEquals expected =
     (cmp_values (env_lib E) actual expected \<in> {Some Greater, Some Equal})"
| "eval_filter E actual LessThanOrEquals expected =
     (cmp_values (env_lib E) actual expected \<in> {Some Less, Some Equal})"
| "eval_filter E actual Exists expected = (actual \<noteq> JNull)"
| "eval_filter E actual IsNull expected = (actual = JNull)"

definition eval_filter_on_props :: "'n env \<Rightarrow> 'n bindings \<Rightarrow> 'n prop_filter \<Rightarrow> 'n props option \<Rightarrow> bool" where
  "eval_filter_on_props E bindings f props =
     (let actual = Option.bind props (resolve (pf_property f)) in
      case pf_operator f of
        Exists \<Rightarrow> (case actual of None \<Rightarrow> False | Some v \<Rightarrow> v \<noteq> JNull)
      | IsNull \<Rightarrow> (case actual of None \<Rightarrow> True | Some v \<Rightarrow> v = JNull)
      | op \<Rightarrow>
          (case (actual, fv_resolve (pf_value f) props bindings) of
             (Some a, Some e) \<Rightarrow> eval_filter E a op e
           | _ \<Rightarrow> False))"

text \<open>The properties of an element of the cursor.\<close>

definition item_props :: "'n graph_access \<Rightarrow> bool \<Rightarrow> u64 \<Rightarrow> 'n props option" where
  "item_props g is_node i = (if is_node then ga_node_properties g i else ga_edge_properties g i)"

fun eval_filter_expr :: "'n env \<Rightarrow> 'n graph_access \<Rightarrow> 'n bindings \<Rightarrow> bool \<Rightarrow> u64 \<Rightarrow> 'n filter_expr \<Rightarrow> bool"
and eval_compound :: "'n env \<Rightarrow> 'n graph_access \<Rightarrow> 'n bindings \<Rightarrow> bool \<Rightarrow> u64 \<Rightarrow> 'n compound_filter \<Rightarrow> bool" where
  "eval_filter_expr E g bindings is_node i (Simple f) = eval_filter_on_props E bindings f (item_props g is_node i)"
| "eval_filter_expr E g bindings is_node i (Compound cf) = eval_compound E g bindings is_node i cf"
| "eval_compound E g bindings is_node i (And filters) = list_all (eval_filter_expr E g bindings is_node i) filters"
| "eval_compound E g bindings is_node i (Or filters) = list_ex (eval_filter_expr E g bindings is_node i) filters"
| "eval_compound E g bindings is_node i (Not f) = (\<not> eval_filter_expr E g bindings is_node i f)"

fun value_contains_string :: "'n env \<Rightarrow> 'n json \<Rightarrow> string \<Rightarrow> bool" where
  "value_contains_string E (JString s) substr = str_contains (env_lowercase E s) substr"
| "value_contains_string E (JArray items) substr = list_ex (\<lambda>item. value_contains_string E item substr) items"
| "value_contains_string E (JObject members) substr = list_ex (\<lambda>kv. value_contains_string E (snd kv) substr) members"
| "value_contains_string E _ substr = False"

text \<open>A filter keeps the elements that pass, in their order.\<close>

definition keep_items :: "(bool \<Rightarrow> u64 \<Rightarrow> bool) \<Rightarrow> cursor \<Rightarrow> cursor" where
  "keep_items P c = (case c of Nodes ns \<Rightarrow> Nodes (filter (P True) ns) | Edges es \<Rightarrow> Edges (filter (P False) es))"

definition apply_filter :: "'n env \<Rightarrow> 'n graph_access \<Rightarrow> 'n bindings \<Rightarrow> 'n prop_filter \<Rightarrow> cursor \<Rightarrow> cursor" where
  "apply_filter E g bindings f = keep_items (\<lambda>is_node i. eval_filter_on_props E bindings f (item_props g is_node i))"

definition apply_compound_filter :: "'n env \<Rightarrow> 'n graph_access \<Rightarrow> 'n bindings \<Rightarrow> 'n compound_filter \<Rightarrow> cursor \<Rightarrow> cursor" where
  "apply_compound_filter E g bindings cf = keep_items (\<lambda>is_node i. eval_compound E g bindings is_node i cf)"

definition apply_any_key_contains :: "'n env \<Rightarrow> 'n graph_access \<Rightarrow> string \<Rightarrow> cursor \<Rightarrow> cursor" where
  "apply_any_key_contains E g substr = keep_items (\<lambda>is_node i. case item_props g is_node i of
       None \<Rightarrow> False
     | Some props \<Rightarrow> list_ex (\<lambda>kv. value_contains_string E (snd kv) (env_lowercase E substr)) props)"

definition apply_custom_filter :: "'n graph_access \<Rightarrow> string \<Rightarrow> cursor \<Rightarrow> cursor res" where
  "apply_custom_filter g callback_id c =
     (case c of
        Nodes ns \<Rightarrow>
          let candidates = map (\<lambda>n. (n, case ga_node_properties g n of None \<Rightarrow> [] | Some props \<Rightarrow> props)) ns;
              passed = ga_apply_custom_filter g callback_id candidates
          in Ok (Nodes (filter (\<lambda>n. n \<in> set passed) ns))
      | Edges _ \<Rightarrow> Err (InvalidCommand ''custom_filter is only supported for Nodes cursor''))"

section \<open>Sorting and duplicates\<close>

text \<open>
  \<open>sort_by\<close> is a stable sort when the comparison is a total preorder on the elements; otherwise the
  standard library leaves the order open and allows a panic, which is taken here.
\<close>

fun insert_by :: "('a \<Rightarrow> 'a \<Rightarrow> ordering) \<Rightarrow> 'a \<Rightarrow> 'a list \<Rightarrow> 'a list" where
  "insert_by cmp x [] = [x]"
| "insert_by cmp x (y # ys) = (if cmp x y = Greater then y # insert_by cmp x ys else x # y # ys)"

definition total_preorder_on :: "('a \<Rightarrow> 'a \<Rightarrow> ordering) \<Rightarrow> 'a list \<Rightarrow> bool" where
  "total_preorder_on cmp xs \<longleftrightarrow>
     (\<forall>x\<in>set xs. \<forall>y\<in>set xs. cmp y x = reverse_ordering (cmp x y)) \<and>
     (\<forall>x\<in>set xs. \<forall>y\<in>set xs. \<forall>z\<in>set xs. cmp x y \<noteq> Greater \<longrightarrow> cmp y z \<noteq> Greater \<longrightarrow> cmp x z \<noteq> Greater)"

definition sort_by :: "('a \<Rightarrow> 'a \<Rightarrow> ordering) \<Rightarrow> 'a list \<Rightarrow> 'a list res" where
  "sort_by cmp xs = (if total_preorder_on cmp xs then Ok (foldr (insert_by cmp) xs []) else Panic)"

definition order_cmp :: "'n env \<Rightarrow> 'n graph_access \<Rightarrow> order_by_spec \<Rightarrow> bool \<Rightarrow> u64 \<Rightarrow> u64 \<Rightarrow> ordering" where
  "order_cmp E g spec is_node a b =
     (let key = (\<lambda>i. Option.bind (item_props g is_node i) (resolve (ob_key spec)));
          r = cmp_option_values (env_lib E) (key a) (key b)
      in if ob_direction spec = Asc then r else reverse_ordering r)"

definition apply_order_by :: "'n env \<Rightarrow> 'n graph_access \<Rightarrow> order_by_spec \<Rightarrow> cursor \<Rightarrow> cursor res" where
  "apply_order_by E g spec c =
     (case c of
        Nodes ns \<Rightarrow> try_res (sort_by (order_cmp E g spec True) ns) (\<lambda>ns. Ok (Nodes ns))
      | Edges es \<Rightarrow> try_res (sort_by (order_cmp E g spec False) es) (\<lambda>es. Ok (Edges es)))"

text \<open>\<open>filter(|n| seen.insert(*n))\<close>: the first occurrence of each element.\<close>

fun first_seen :: "'a set \<Rightarrow> 'a list \<Rightarrow> 'a list" where
  "first_seen seen [] = []"
| "first_seen seen (x # xs) = (if x \<in> seen then first_seen seen xs else x # first_seen (insert x seen) xs)"

definition map_cursor :: "(u64 list \<Rightarrow> u64 list) \<Rightarrow> cursor \<Rightarrow> cursor" where
  "map_cursor f c = (case c of Nodes ns \<Rightarrow> Nodes (f ns) | Edges es \<Rightarrow> Edges (f es))"

section \<open>Steps\<close>

definition has_node_label :: "'n graph_access \<Rightarrow> string option \<Rightarrow> u64 \<Rightarrow> bool" where
  "has_node_label g label n = (case label of None \<Rightarrow> True | Some l \<Rightarrow> ga_node_label g n = Some l)"

text \<open>The edges of a node and the ends of an edge that an action leads to.\<close>

fun edges_of :: "'n graph_access \<Rightarrow> traversal_action \<Rightarrow> string option \<Rightarrow> u64 \<Rightarrow> u64 list" where
  "edges_of g OutEdges label n = ga_out_edges g n label"
| "edges_of g InEdges label n = ga_in_edges g n label"
| "edges_of g BothEdges label n = ga_out_edges g n label @ ga_in_edges g n label"
| "edges_of g _ label n = []"

fun ends_of :: "'n graph_access \<Rightarrow> traversal_action \<Rightarrow> u64 \<Rightarrow> u64 list" where
  "ends_of g OutNodes e = (case ga_edge_to_node g e of None \<Rightarrow> [] | Some n \<Rightarrow> [n])"
| "ends_of g InNodes e = (case ga_edge_from_node g e of None \<Rightarrow> [] | Some n \<Rightarrow> [n])"
| "ends_of g BothNodes e =
     (case ga_edge_to_node g e of None \<Rightarrow> [] | Some n \<Rightarrow> [n]) @ (case ga_edge_from_node g e of None \<Rightarrow> [] | Some n \<Rightarrow> [n])"
| "ends_of g _ e = []"

definition to_edges :: "'n graph_access \<Rightarrow> traversal_action \<Rightarrow> string option \<Rightarrow> cursor \<Rightarrow> cursor res" where
  "to_edges g action label c = try_res (require_nodes c) (\<lambda>ns. Ok (Edges (concat (map (edges_of g action label) ns))))"

definition to_nodes :: "'n graph_access \<Rightarrow> traversal_action \<Rightarrow> string option \<Rightarrow> cursor \<Rightarrow> cursor res" where
  "to_nodes g action label c =
     try_res (require_edges c) (\<lambda>es. Ok (Nodes (filter (has_node_label g label) (concat (map (ends_of g action) es)))))"

definition with_label :: "'n graph_access \<Rightarrow> string list \<Rightarrow> u64 \<Rightarrow> bool" where
  "with_label g targets n = list_ex (\<lambda>tl. tl \<in> set (ga_node_labels g n)) targets"

definition usize_max :: nat where
  "usize_max = 2 ^ 64 - 1"

text \<open>The filters a step applies to what its action produced.\<close>

definition step_filters :: "'n env \<Rightarrow> 'n graph_access \<Rightarrow> 'n bindings \<Rightarrow> 'n traversal_step \<Rightarrow> cursor \<Rightarrow> cursor res" where
  "step_filters E g bindings step c =
     (let c = (case ts_filter step of None \<Rightarrow> c | Some f \<Rightarrow> apply_filter E g bindings f c);
          c = (case ts_compound_filter step of None \<Rightarrow> c | Some cf \<Rightarrow> apply_compound_filter E g bindings cf c)
      in try_res (case ts_custom_filter step of None \<Rightarrow> Ok c | Some callback_id \<Rightarrow> apply_custom_filter g callback_id c) (\<lambda>c.
         Ok (case ts_any_key_contains step of None \<Rightarrow> c | Some substr \<Rightarrow> apply_any_key_contains E g substr c)))"

text \<open>The actions that do not run other steps.\<close>

fun simple_action :: "'n env \<Rightarrow> 'n graph_access \<Rightarrow> 'n traversal_step \<Rightarrow> cursor \<Rightarrow> cursor res" where
  "simple_action E g step c =
     (case ts_action step of
        OutEdges \<Rightarrow> to_edges g OutEdges (ts_label step) c
      | InEdges \<Rightarrow> to_edges g InEdges (ts_label step) c
      | BothEdges \<Rightarrow> to_edges g BothEdges (ts_label step) c
      | OutNodes \<Rightarrow> to_nodes g OutNodes (ts_label step) c
      | InNodes \<Rightarrow> to_nodes g InNodes (ts_label step) c
      | BothNodes \<Rightarrow> to_nodes g BothNodes (ts_label step) c
      | Filter \<Rightarrow> Ok c
      | HasLabel \<Rightarrow> try_res (require_nodes c) (\<lambda>ns.
          Ok (Nodes (filter (with_label g (case ts_labels step of None \<Rightarrow> [] | Some ls \<Rightarrow> ls)) ns)))
      | Dedup \<Rightarrow> Ok (map_cursor (first_seen {}) c)
      | Limit \<Rightarrow> Ok (map_cursor (take (case ts_count step of None \<Rightarrow> usize_max | Some n \<Rightarrow> n)) c)
      | Skip \<Rightarrow> Ok (map_cursor (drop (case ts_skip step of None \<Rightarrow> 0 | Some n \<Rightarrow> n)) c)
      | OrderBy \<Rightarrow> (case ts_order_by step of
            None \<Rightarrow> Err (InvalidCommand ''OrderBy requires order_by spec'')
          | Some spec \<Rightarrow> apply_order_by E g spec c)
      | Repeat \<Rightarrow> Ok c)"

lemma try_res_cong [fundef_cong]: "r = r' \<Longrightarrow> (\<And>x. r' = Inr x \<Longrightarrow> f x = f' x) \<Longrightarrow> try_res r f = try_res r' f'"
  by (cases r') simp_all

text \<open>
  \<open>apply_step\<close> with \<open>apply_repeat\<close>, whose loop \<open>repeat_loop\<close> applies the inner steps up to \<open>max_depth\<close>
  times. \<open>acc\<close> is what has been reached.
\<close>

lemma repeat_steps_size: "ts_repeat_steps step = Some inner \<Longrightarrow> size_list size inner < size step"
  by (cases step) simp

function apply_step :: "'n env \<Rightarrow> 'n graph_access \<Rightarrow> 'n bindings \<Rightarrow> 'n traversal_step \<Rightarrow> cursor \<Rightarrow> cursor res"
and apply_steps :: "'n env \<Rightarrow> 'n graph_access \<Rightarrow> 'n bindings \<Rightarrow> 'n traversal_step list \<Rightarrow> cursor \<Rightarrow> cursor res"
and repeat_loop :: "'n env \<Rightarrow> 'n graph_access \<Rightarrow> 'n bindings \<Rightarrow> 'n traversal_step list \<Rightarrow> nat \<Rightarrow> cursor \<Rightarrow> u64 list \<Rightarrow> u64 list res" where
  "apply_step E g bindings step c =
     try_res
       (if ts_action step = Repeat then
          (case ts_repeat_steps step of
             None \<Rightarrow> Err (InvalidCommand ''Repeat requires repeat_steps'')
           | Some inner \<Rightarrow>
               (case c of
                  Edges _ \<Rightarrow> Err (InvalidCommand ''Repeat must start from a Nodes cursor'')
                | Nodes ns \<Rightarrow>
                    try_res (repeat_loop E g bindings inner (case ts_max_depth step of None \<Rightarrow> 1 | Some m \<Rightarrow> m) c ns) (\<lambda>acc.
                    Ok (Nodes (first_seen {} acc)))))
        else simple_action E g step c)
       (step_filters E g bindings step)"
| "apply_steps E g bindings [] c = Ok c"
| "apply_steps E g bindings (step # steps) c = try_res (apply_step E g bindings step c) (apply_steps E g bindings steps)"
| "repeat_loop E g bindings inner 0 frontier acc = Ok acc"
| "repeat_loop E g bindings inner (Suc depth) frontier acc =
     try_res (apply_steps E g bindings inner frontier) (\<lambda>nxt.
       case nxt of
         Edges _ \<Rightarrow> Ok acc
       | Nodes ns \<Rightarrow> if ns = [] then Ok acc else repeat_loop E g bindings inner depth (Nodes ns) (acc @ ns))"
  by pat_completeness auto

termination
  by (relation "measures [\<lambda>x. case x of Inl (_, _, _, step, _) \<Rightarrow> size step | Inr (Inl (_, _, _, steps, _)) \<Rightarrow> size_list size steps
        | Inr (Inr (_, _, _, inner, _)) \<Rightarrow> size_list size inner,
      \<lambda>x. case x of Inr (Inr (_, _, _, _, depth, _)) \<Rightarrow> Suc depth | _ \<Rightarrow> 0]")
    (auto simp: repeat_steps_size)

declare apply_step.simps [simp del]

section \<open>Collecting\<close>

text \<open>A map is a list of pairs with distinct keys; \<open>put\<close> is \<open>HashMap::insert\<close>.\<close>

definition put :: "string \<Rightarrow> 'v \<Rightarrow> (string \<times> 'v) list \<Rightarrow> (string \<times> 'v) list" where
  "put k v m = (k, v) # filter (\<lambda>(k', _). k' \<noteq> k) m"

definition pick_properties :: "'n props \<Rightarrow> string list \<Rightarrow> 'n props" where
  "pick_properties props keys =
     (if keys = [] then props
      else foldl (\<lambda>m k. case map_of props k of None \<Rightarrow> m | Some v \<Rightarrow> put k v m) [] keys)"

definition cursor_to_node_ids :: "'n graph_access \<Rightarrow> cursor \<Rightarrow> u64 list" where
  "cursor_to_node_ids g c = (case c of Nodes ns \<Rightarrow> ns | Edges es \<Rightarrow> List.map_filter (ga_edge_to_node g) es)"

text \<open>The row of a node, and the row of an edge's target with the properties of the edge.\<close>

definition node_row :: "'n graph_access \<Rightarrow> string list \<Rightarrow> u64 \<Rightarrow> 'n props option" where
  "node_row g keys n = map_option (\<lambda>props. pick_properties props keys) (ga_node_properties g n)"

definition edge_row :: "'n graph_access \<Rightarrow> string list \<Rightarrow> edge_collect_spec option \<Rightarrow> u64 \<Rightarrow> 'n props option" where
  "edge_row g keys with_edges e =
     Option.bind (Option.bind (ga_edge_to_node g e) (node_row g keys)) (\<lambda>row.
       case with_edges of
         None \<Rightarrow> Some row
       | Some spec \<Rightarrow>
           if (case ec_label spec of None \<Rightarrow> False | Some l \<Rightarrow> ga_edge_label g e \<noteq> Some l) then Some row
           else (case ga_edge_properties g e of
              None \<Rightarrow> Some row
            | Some eprops \<Rightarrow> Some (foldl (\<lambda>row (k, v). put (''edge_'' @ k) v row) row (pick_properties eprops (ec_properties spec)))))"

definition collect_nodes :: "'n graph_access \<Rightarrow> cursor \<Rightarrow> string list \<Rightarrow> edge_collect_spec option \<Rightarrow> 'n collect_result" where
  "collect_nodes g c keys with_edges =
     Rows (case c of
        Nodes ns \<Rightarrow> List.map_filter (node_row g keys) ns
      | Edges es \<Rightarrow> List.map_filter (edge_row g keys with_edges) es)"

definition collect_edges :: "'n graph_access \<Rightarrow> cursor \<Rightarrow> string list \<Rightarrow> 'n collect_result" where
  "collect_edges g c keys =
     Rows (case c of
        Edges es \<Rightarrow> List.map_filter (\<lambda>e. map_option (\<lambda>props. pick_properties props keys) (ga_edge_properties g e)) es
      | Nodes _ \<Rightarrow> [])"

definition collect_path :: "'n graph_access \<Rightarrow> cursor \<Rightarrow> path_node_spec list \<Rightarrow> 'n collect_result" where
  "collect_path g c specs =
     PathResult (List.map_filter (\<lambda>n. map_option (\<lambda>props.
         let label = (case ga_node_label g n of None \<Rightarrow> '''' | Some l \<Rightarrow> l);
             keys = (case find (\<lambda>s. pn_label s = label) specs of None \<Rightarrow> [] | Some s \<Rightarrow> pn_properties s)
         in [pick_properties props keys]) (ga_node_properties g n))
       (cursor_to_node_ids g c))"

section \<open>Aggregates\<close>

definition json_number :: "'n lib \<Rightarrow> u64 \<Rightarrow> 'n json" where
  "json_number L f = (case from_f64 L f of None \<Rightarrow> JNull | Some n \<Rightarrow> JNumber n)"

definition value_as_f64 :: "'n lib \<Rightarrow> 'n json \<Rightarrow> u64 option" where
  "value_as_f64 L v = (case v of JNumber n \<Rightarrow> as_f64 L n | _ \<Rightarrow> None)"

definition resolve_on :: "'n graph_access \<Rightarrow> aggregate_function \<Rightarrow> u64 \<Rightarrow> 'n json option" where
  "resolve_on g f n =
     Option.bind (af_property f) (\<lambda>prop. Option.bind (ga_node_properties g n) (resolve prop))"

definition sum_f64 :: "'n env \<Rightarrow> u64 list \<Rightarrow> u64" where
  "sum_f64 E xs = foldl f64_add (env_zero E) xs"

definition value_cmp :: "'n lib \<Rightarrow> 'n json \<Rightarrow> 'n json \<Rightarrow> ordering" where
  "value_cmp L a b = (case cmp_values L a b of None \<Rightarrow> Equal | Some r \<Rightarrow> r)"

text \<open>\<open>min_by\<close> keeps the first of equal elements, \<open>max_by\<close> the last.\<close>

definition min_by :: "('a \<Rightarrow> 'a \<Rightarrow> ordering) \<Rightarrow> 'a list \<Rightarrow> 'a option" where
  "min_by cmp xs = (case xs of [] \<Rightarrow> None | y # ys \<Rightarrow> Some (foldl (\<lambda>m x. if cmp m x = Greater then x else m) y ys))"

definition max_by :: "('a \<Rightarrow> 'a \<Rightarrow> ordering) \<Rightarrow> 'a list \<Rightarrow> 'a option" where
  "max_by cmp xs = (case xs of [] \<Rightarrow> None | y # ys \<Rightarrow> Some (foldl (\<lambda>m x. if cmp m x = Greater then m else x) y ys))"

definition aggregate_value :: "'n env \<Rightarrow> 'n graph_access \<Rightarrow> u64 list \<Rightarrow> aggregate_function \<Rightarrow> 'n json" where
  "aggregate_value E g ids f =
     (let L = env_lib E;
          found = List.map_filter (resolve_on g f) ids;
          numbers = List.map_filter (value_as_f64 L) found
      in case af_func f of
           CountFn \<Rightarrow> JNumber (from_i64 L (of_nat (length ids)))
         | SumFn \<Rightarrow> json_number L (sum_f64 E numbers)
         | AvgFn \<Rightarrow> if numbers = [] then JNull else json_number L (f64_div_len (sum_f64 E numbers) (length numbers))
         | MinFn \<Rightarrow> (case min_by (value_cmp L) found of None \<Rightarrow> JNull | Some v \<Rightarrow> v)
         | MaxFn \<Rightarrow> (case max_by (value_cmp L) found of None \<Rightarrow> JNull | Some v \<Rightarrow> v))"

definition compute_aggregates :: "'n env \<Rightarrow> 'n graph_access \<Rightarrow> u64 list \<Rightarrow> aggregate_function list \<Rightarrow> 'n props" where
  "compute_aggregates E g ids functions = foldl (\<lambda>m f. put (output_key f) (aggregate_value E g ids f) m) [] functions"

section \<open>Groups\<close>

definition value_to_group_key :: "'n lib \<Rightarrow> 'n json \<Rightarrow> string" where
  "value_to_group_key L v =
     (case v of
        JString s \<Rightarrow> s
      | JBool b \<Rightarrow> if b then ''true'' else ''false''
      | JNull \<Rightarrow> ''null''
      | _ \<Rightarrow> value_to_string L v)"

definition group_value :: "'n env \<Rightarrow> 'n graph_access \<Rightarrow> group_by_key \<Rightarrow> u64 \<Rightarrow> string" where
  "group_value E g key n =
     (case key of
        ByNode p \<Rightarrow>
          (case Option.bind (ga_node_properties g n) (resolve p) of None \<Rightarrow> ''null'' | Some v \<Rightarrow> value_to_group_key (env_lib E) v)
      | ByEdge _ \<Rightarrow> ''null'')"

text \<open>\<open>groups.entry(k).or_default().push(n)\<close> on a \<open>BTreeMap\<close>, a list ordered by its keys.\<close>

fun push_group :: "string \<Rightarrow> 'a \<Rightarrow> (string \<times> 'a list) list \<Rightarrow> (string \<times> 'a list) list" where
  "push_group k x [] = [(k, [x])]"
| "push_group k x ((k', xs) # gs) =
     (case string_cmp k k' of
        Less \<Rightarrow> (k, [x]) # (k', xs) # gs
      | Equal \<Rightarrow> (k', xs @ [x]) # gs
      | Greater \<Rightarrow> (k', xs) # push_group k x gs)"

definition group_nodes :: "'n env \<Rightarrow> 'n graph_access \<Rightarrow> group_by_key \<Rightarrow> u64 list \<Rightarrow> (string \<times> u64 list) list" where
  "group_nodes E g key ids = foldl (\<lambda>gs n. push_group (group_value E g key n) n gs) [] ids"

definition group_row :: "'n env \<Rightarrow> 'n graph_access \<Rightarrow> aggregate_function list \<Rightarrow> string \<times> u64 list \<Rightarrow> 'n props" where
  "group_row E g functions kv =
     foldr (\<lambda>(k, v) row. put k v row) (compute_aggregates E g (snd kv) functions) (put ''_group'' (JString (fst kv)) [])"

definition collect_group_by :: "'n env \<Rightarrow> 'n graph_access \<Rightarrow> cursor \<Rightarrow> group_by_key \<Rightarrow> aggregate_function list \<Rightarrow> 'n collect_result" where
  "collect_group_by E g c key functions =
     Groups (map (group_row E g functions) (group_nodes E g key (cursor_to_node_ids g c)))"

definition cursor_ids :: "cursor \<Rightarrow> u64 list" where
  "cursor_ids c = (case c of Nodes ns \<Rightarrow> ns | Edges es \<Rightarrow> es)"

definition collect :: "'n env \<Rightarrow> 'n graph_access \<Rightarrow> cursor \<Rightarrow> collect_spec \<Rightarrow> 'n collect_result" where
  "collect E g c spec =
     (case spec of
        CollectCount \<Rightarrow> Count (length (cursor_ids c))
      | CollectExists \<Rightarrow> ExistsResult (cursor_ids c \<noteq> [])
      | CollectNodes keys with_edges \<Rightarrow> collect_nodes g c keys with_edges
      | CollectEdges keys \<Rightarrow> collect_edges g c keys
      | CollectAggregate functions \<Rightarrow> AggregateResult (compute_aggregates E g (cursor_to_node_ids g c) functions)
      | CollectGroupBy key functions \<Rightarrow> collect_group_by E g c key functions
      | CollectPath specs \<Rightarrow> collect_path g c specs)"

section \<open>Commands\<close>

definition start_cursor :: "'n env \<Rightarrow> 'n graph_access \<Rightarrow> 'n traversal_command \<Rightarrow> cursor res" where
  "start_cursor E g cmd =
     (let st = tc_start cmd; v = resolve_binding (ss_value st) (tc_bindings cmd) in
      if ss_kind st = ''AllEdges'' then Ok (Edges (ga_all_edges_of_label g (ss_label st)))
      else if ss_kind st = ''AllNodes'' then Ok (Nodes (ga_all_nodes_of_label g (ss_label st)))
      else (case ga_find_node g (ss_label st) (ss_key st) v of
          None \<Rightarrow> Err (NodeNotFound (value_to_string (env_lib E) v))
        | Some n \<Rightarrow> Ok (Nodes [n])))"

definition execute :: "'n env \<Rightarrow> 'n graph_access \<Rightarrow> 'n traversal_command \<Rightarrow> 'n collect_result res" where
  "execute E g cmd =
     try_res (start_cursor E g cmd) (\<lambda>c.
     try_res (apply_steps E g (tc_bindings cmd) (tc_steps cmd) c) (\<lambda>c.
     Ok (collect E g c (tc_collect cmd))))"

section \<open>The graph in memory\<close>

record 'n memory_node =
  nd_id :: u64
  nd_label :: string
  nd_extra_labels :: "string list"
  nd_properties :: "'n props"

record 'n memory_edge =
  ed_id :: u64
  ed_label :: string
  ed_from_node :: u64
  ed_to_node :: u64
  ed_properties :: "'n props"

text \<open>The two hash maps, as lists in the order of their iteration.\<close>

record 'n in_memory_graph =
  im_nodes :: "(u64 \<times> 'n memory_node) list"
  im_edges :: "(u64 \<times> 'n memory_edge) list"
  im_next_node :: u64
  im_next_edge :: u64

definition in_memory_new :: "'n in_memory_graph" where
  "in_memory_new = \<lparr>im_nodes = [], im_edges = [], im_next_node = 0, im_next_edge = 0\<rparr>"

definition im_add_node_with_labels :: "string \<Rightarrow> string list \<Rightarrow> 'n props \<Rightarrow> 'n in_memory_graph \<Rightarrow> u64 \<times> 'n in_memory_graph" where
  "im_add_node_with_labels label extra props m =
     (let i = im_next_node m in
      (i, m\<lparr>im_next_node := i + 1,
         im_nodes := (i, \<lparr>nd_id = i, nd_label = label, nd_extra_labels = extra, nd_properties = props\<rparr>) # filter (\<lambda>(j, _). j \<noteq> i) (im_nodes m)\<rparr>))"

definition im_add_node :: "string \<Rightarrow> 'n props \<Rightarrow> 'n in_memory_graph \<Rightarrow> u64 \<times> 'n in_memory_graph" where
  "im_add_node label props m = im_add_node_with_labels label [] props m"

definition im_add_edge :: "string \<Rightarrow> u64 \<Rightarrow> u64 \<Rightarrow> 'n props \<Rightarrow> 'n in_memory_graph \<Rightarrow> u64 \<times> 'n in_memory_graph" where
  "im_add_edge label src dst props m =
     (let i = im_next_edge m in
      (i, m\<lparr>im_next_edge := i + 1,
         im_edges := (i, \<lparr>ed_id = i, ed_label = label, ed_from_node = src, ed_to_node = dst, ed_properties = props\<rparr>)
           # filter (\<lambda>(j, _). j \<noteq> i) (im_edges m)\<rparr>))"

definition edge_label_is :: "string option \<Rightarrow> 'n memory_edge \<Rightarrow> bool" where
  "edge_label_is label e = (case label of None \<Rightarrow> True | Some l \<Rightarrow> ed_label e = l)"

definition im_find_node :: "'n lib \<Rightarrow> 'n in_memory_graph \<Rightarrow> string \<Rightarrow> string \<Rightarrow> 'n json \<Rightarrow> u64 option" where
  "im_find_node L m label key v =
     map_option nd_id (find (\<lambda>n. nd_label n = label \<and> some_eq L (map_of (nd_properties n) key) v) (map snd (im_nodes m)))"

definition im_all_nodes_of_label :: "'n in_memory_graph \<Rightarrow> string \<Rightarrow> u64 list" where
  "im_all_nodes_of_label m label =
     (if label = '''' then map fst (im_nodes m)
      else map nd_id (filter (\<lambda>n. nd_label n = label \<or> label \<in> set (nd_extra_labels n)) (map snd (im_nodes m))))"

definition im_all_edges_of_label :: "'n in_memory_graph \<Rightarrow> string \<Rightarrow> u64 list" where
  "im_all_edges_of_label m label =
     (if label = '''' then map fst (im_edges m)
      else map ed_id (filter (\<lambda>e. ed_label e = label) (map snd (im_edges m))))"

definition im_out_edges :: "'n in_memory_graph \<Rightarrow> u64 \<Rightarrow> string option \<Rightarrow> u64 list" where
  "im_out_edges m n label = map ed_id (filter (\<lambda>e. ed_from_node e = n \<and> edge_label_is label e) (map snd (im_edges m)))"

definition im_in_edges :: "'n in_memory_graph \<Rightarrow> u64 \<Rightarrow> string option \<Rightarrow> u64 list" where
  "im_in_edges m n label = map ed_id (filter (\<lambda>e. ed_to_node e = n \<and> edge_label_is label e) (map snd (im_edges m)))"

definition im_access :: "'n lib \<Rightarrow> 'n in_memory_graph \<Rightarrow> 'n graph_access" where
  "im_access L m =
     \<lparr>ga_find_node = im_find_node L m,
      ga_all_nodes_of_label = im_all_nodes_of_label m,
      ga_all_edges_of_label = im_all_edges_of_label m,
      ga_node_properties = (\<lambda>n. map_option nd_properties (map_of (im_nodes m) n)),
      ga_node_label = (\<lambda>n. map_option nd_label (map_of (im_nodes m) n)),
      ga_node_labels = (\<lambda>n. case map_of (im_nodes m) n of None \<Rightarrow> [] | Some d \<Rightarrow> nd_label d # nd_extra_labels d),
      ga_out_edges = im_out_edges m,
      ga_in_edges = im_in_edges m,
      ga_edge_to_node = (\<lambda>e. map_option ed_to_node (map_of (im_edges m) e)),
      ga_edge_from_node = (\<lambda>e. map_option ed_from_node (map_of (im_edges m) e)),
      ga_edge_label = (\<lambda>e. map_option ed_label (map_of (im_edges m) e)),
      ga_edge_properties = (\<lambda>e. map_option ed_properties (map_of (im_edges m) e)),
      ga_apply_custom_filter = (\<lambda>_ candidates. map fst candidates)\<rparr>"

end
