(* ===== verification/Traversal_Properties.thy ===== *)
theory Traversal_Properties
  imports Traversal
begin

text \<open>
  What a traversal computes: steps that move, filter and test labels act on each element of the cursor
  by itself; a repeated traversal reaches the nodes within a number of rounds; grouping partitions the
  nodes; a command returns, with an error of its own or a result.
\<close>

section \<open>Steps that act on each element\<close>

text \<open>The kind of the cursor after a step: \<open>True\<close> for nodes.\<close>

fun action_kind :: "traversal_action \<Rightarrow> bool \<Rightarrow> bool option" where
  "action_kind OutEdges True = Some False"
| "action_kind InEdges True = Some False"
| "action_kind BothEdges True = Some False"
| "action_kind OutNodes False = Some True"
| "action_kind InNodes False = Some True"
| "action_kind BothNodes False = Some True"
| "action_kind Filter k = Some k"
| "action_kind HasLabel True = Some True"
| "action_kind _ _ = None"

definition step_kind :: "'n traversal_step \<Rightarrow> bool \<Rightarrow> bool option" where
  "step_kind s k = (if ts_custom_filter s = None then action_kind (ts_action s) k else None)"

fun steps_kind :: "'n traversal_step list \<Rightarrow> bool \<Rightarrow> bool option" where
  "steps_kind [] k = Some k"
| "steps_kind (s # ss) k = Option.bind (step_kind s k) (steps_kind ss)"

definition mk_cursor :: "bool \<Rightarrow> u64 list \<Rightarrow> cursor" where
  "mk_cursor k xs = (if k then Nodes xs else Edges xs)"

lemma mk_cursor_simps [simp]: "mk_cursor True xs = Nodes xs" "mk_cursor False xs = Edges xs"
  by (simp_all add: mk_cursor_def)

text \<open>What an action leads to from one element, and what the filters of a step let pass.\<close>

definition spread :: "'n graph_access \<Rightarrow> 'n traversal_step \<Rightarrow> u64 \<Rightarrow> u64 list" where
  "spread g s i =
     (case ts_action s of
        Filter \<Rightarrow> [i]
      | HasLabel \<Rightarrow> if with_label g (case ts_labels s of None \<Rightarrow> [] | Some ls \<Rightarrow> ls) i then [i] else []
      | action \<Rightarrow> if action \<in> {OutNodes, InNodes, BothNodes} then filter (has_node_label g (ts_label s)) (ends_of g action i)
          else edges_of g action (ts_label s) i)"

definition passes :: "'n env \<Rightarrow> 'n graph_access \<Rightarrow> 'n bindings \<Rightarrow> 'n traversal_step \<Rightarrow> bool \<Rightarrow> u64 \<Rightarrow> bool" where
  "passes E g bindings s k i \<longleftrightarrow>
     (case ts_filter s of None \<Rightarrow> True | Some f \<Rightarrow> eval_filter_on_props E bindings f (item_props g k i)) \<and>
     (case ts_compound_filter s of None \<Rightarrow> True | Some cf \<Rightarrow> eval_compound E g bindings k i cf) \<and>
     (case ts_any_key_contains s of
        None \<Rightarrow> True
      | Some substr \<Rightarrow> (case item_props g k i of
            None \<Rightarrow> False
          | Some props \<Rightarrow> list_ex (\<lambda>kv. value_contains_string E (snd kv) (env_lowercase E substr)) props))"

definition step_image :: "'n env \<Rightarrow> 'n graph_access \<Rightarrow> 'n bindings \<Rightarrow> 'n traversal_step \<Rightarrow> bool \<Rightarrow> u64 \<Rightarrow> u64 list" where
  "step_image E g bindings s k' i = filter (passes E g bindings s k') (spread g s i)"

fun steps_image :: "'n env \<Rightarrow> 'n graph_access \<Rightarrow> 'n bindings \<Rightarrow> 'n traversal_step list \<Rightarrow> bool \<Rightarrow> u64 \<Rightarrow> u64 list" where
  "steps_image E g bindings [] k i = [i]"
| "steps_image E g bindings (s # ss) k i =
     (case step_kind s k of
        None \<Rightarrow> []
      | Some k' \<Rightarrow> concat (map (steps_image E g bindings ss k') (step_image E g bindings s k' i)))"

lemma step_filters_pointwise:
  "ts_custom_filter s = None \<Longrightarrow> step_filters E g bindings s (mk_cursor k xs) = Ok (mk_cursor k (filter (passes E g bindings s k) xs))"
  by (cases k; cases "ts_filter s"; cases "ts_compound_filter s"; cases "ts_any_key_contains s")
    (simp_all add: step_filters_def passes_def [abs_def] apply_filter_def apply_compound_filter_def apply_any_key_contains_def keep_items_def Let_def conj_ac)

lemma filter_concat_map: "filter P (concat (map f xs)) = concat (map (\<lambda>x. filter P (f x)) xs)"
  by (induction xs) simp_all

lemma filter_as_concat: "filter P xs = concat (map (\<lambda>x. if P x then [x] else []) xs)"
  by (induction xs) simp_all

lemma concat_singletons: "concat (map (\<lambda>x. [x]) xs) = xs"
  by (induction xs) simp_all

lemma label_filter_concat: "filter (with_label g ls) xs = concat (map (\<lambda>i. if with_label g ls i then [i] else []) xs)"
  by (rule filter_as_concat)

lemma edges_pointwise:
  "action \<in> {OutEdges, InEdges, BothEdges} \<Longrightarrow> ts_action s = action \<Longrightarrow>
   concat (map (edges_of g action (ts_label s)) xs) = concat (map (spread g s) xs)"
  by (rule arg_cong [of _ _ concat], rule map_cong) (auto simp: spread_def)

lemma nodes_pointwise:
  "action \<in> {OutNodes, InNodes, BothNodes} \<Longrightarrow> ts_action s = action \<Longrightarrow>
   filter (has_node_label g (ts_label s)) (concat (map (ends_of g action) xs)) = concat (map (spread g s) xs)"
  unfolding filter_concat_map by (rule arg_cong [of _ _ concat], rule map_cong) (auto simp: spread_def)

lemma keep_pointwise:
  "ts_action s = Filter \<Longrightarrow> xs = concat (map (spread g s) xs)"
  "ts_action s = HasLabel \<Longrightarrow> filter (with_label g (case ts_labels s of None \<Rightarrow> [] | Some ls \<Rightarrow> ls)) xs = concat (map (spread g s) xs)"
  by (induction xs) (simp_all add: spread_def)

lemma simple_action_pointwise:
  assumes "action_kind (ts_action s) k = Some k'"
  shows "simple_action E g s (mk_cursor k xs) = Ok (mk_cursor k' (concat (map (spread g s) xs)))"
  using assms
  by (cases "(ts_action s, k)" rule: action_kind.cases)
    (simp_all add: to_edges_def to_nodes_def require_nodes_def require_edges_def edges_pointwise nodes_pointwise keep_pointwise(2)
      keep_pointwise(1) [symmetric])

lemma pointwise_not_repeat: "action_kind (ts_action s) k = Some k' \<Longrightarrow> ts_action s \<noteq> Repeat"
  by (cases k) auto

lemma apply_step_pointwise:
  assumes "step_kind s k = Some k'"
  shows "apply_step E g bindings s (mk_cursor k xs) = Ok (mk_cursor k' (concat (map (step_image E g bindings s k') xs)))"
proof -
  have s: "ts_custom_filter s = None" "action_kind (ts_action s) k = Some k'" using assms by (auto simp: step_kind_def split: if_splits)
  show ?thesis
    using simple_action_pointwise [OF s(2), where E = E and g = g and xs = xs] pointwise_not_repeat [OF s(2)] step_filters_pointwise [OF s(1)]
    by (simp add: apply_step.simps filter_concat_map step_image_def [abs_def])
qed

lemma concat_concat_map: "concat (map f (concat (map h xs))) = concat (map (\<lambda>x. concat (map f (h x))) xs)"
  by (induction xs) simp_all

lemma apply_steps_pointwise:
  "steps_kind ss k = Some k' \<Longrightarrow>
   apply_steps E g bindings ss (mk_cursor k xs) = Ok (mk_cursor k' (concat (map (steps_image E g bindings ss k) xs)))"
proof (induction ss arbitrary: k xs)
  case (Cons s ss)
  then obtain k1 where k1: "step_kind s k = Some k1" "steps_kind ss k1 = Some k'" by (auto simp: bind_eq_Some_conv)
  show ?case
    by (simp add: apply_step_pointwise [OF k1(1)] Cons.IH [OF k1(2)] k1(1) concat_concat_map)
next
  case Nil
  have "steps_image E g bindings [] k = (\<lambda>i. [i])" by (simp add: fun_eq_iff)
  then show ?case using Nil by (simp add: concat_singletons)
qed

section \<open>Repeated steps\<close>

definition round_rel :: "'n env \<Rightarrow> 'n graph_access \<Rightarrow> 'n bindings \<Rightarrow> 'n traversal_step list \<Rightarrow> (u64 \<times> u64) set" where
  "round_rel E g bindings inner = {(n, m). m \<in> set (steps_image E g bindings inner True n)}"

lemma repeat_loop_reaches:
  assumes inner: "steps_kind inner True = Some True"
  shows "\<exists>rs. repeat_loop E g bindings inner depth (Nodes fs) acc = Ok rs \<and>
    set rs = set acc \<union> {m. \<exists>n\<in>set fs. \<exists>k. 0 < k \<and> k \<le> depth \<and> (n, m) \<in> round_rel E g bindings inner ^^ k}"
proof (induction depth arbitrary: fs acc)
  case (Suc depth)
  let ?R = "round_rel E g bindings inner"
  let ?ns = "concat (map (steps_image E g bindings inner True) fs)"
  have run: "apply_steps E g bindings inner (Nodes fs) = Ok (Nodes ?ns)" using apply_steps_pointwise [OF inner] by simp
  have ns: "set ?ns = {m. \<exists>n\<in>set fs. (n, m) \<in> ?R}" by (auto simp: round_rel_def)
  have split: "(\<exists>k. 0 < k \<and> k \<le> Suc depth \<and> (n, m) \<in> ?R ^^ k) \<longleftrightarrow>
      (\<exists>z. (n, z) \<in> ?R \<and> (z = m \<or> (\<exists>k. 0 < k \<and> k \<le> depth \<and> (z, m) \<in> ?R ^^ k)))" for n m
  proof
    assume "\<exists>k. 0 < k \<and> k \<le> Suc depth \<and> (n, m) \<in> ?R ^^ k"
    then obtain k where k: "k \<le> depth" "(n, m) \<in> ?R ^^ Suc k" by (metis Suc_le_mono Suc_pred)
    then obtain z where z: "(n, z) \<in> ?R" "(z, m) \<in> ?R ^^ k" by (metis relpow_Suc_D2)
    then show "\<exists>z. (n, z) \<in> ?R \<and> (z = m \<or> (\<exists>k. 0 < k \<and> k \<le> depth \<and> (z, m) \<in> ?R ^^ k))"
      using k(1) by (cases "k = 0") (auto intro!: exI [of _ z] exI [of _ k])
  next
    assume "\<exists>z. (n, z) \<in> ?R \<and> (z = m \<or> (\<exists>k. 0 < k \<and> k \<le> depth \<and> (z, m) \<in> ?R ^^ k))"
    then obtain z k where z: "(n, z) \<in> ?R" "k \<le> depth" "(z, m) \<in> ?R ^^ k" by (metis le0 relpow_0_I)
    then have "(n, m) \<in> ?R ^^ Suc k" by (metis relpow_Suc_I2)
    then show "\<exists>k. 0 < k \<and> k \<le> Suc depth \<and> (n, m) \<in> ?R ^^ k" using z(2) by (intro exI [of _ "Suc k"]) simp
  qed
  show ?case
  proof (cases "?ns = []")
    case True
    then have "(n, z) \<notin> ?R" if "n \<in> set fs" for n z using ns that by auto
    then show ?thesis using True by (auto simp: run split)
  next
    case False
    obtain rs where rs: "repeat_loop E g bindings inner depth (Nodes ?ns) (acc @ ?ns) = Ok rs"
        "set rs = set (acc @ ?ns) \<union> {m. \<exists>n\<in>set ?ns. \<exists>k. 0 < k \<and> k \<le> depth \<and> (n, m) \<in> ?R ^^ k}"
      using Suc.IH [of ?ns "acc @ ?ns"] by blast
    have "set rs = set acc \<union> {m. \<exists>n\<in>set fs. \<exists>k. 0 < k \<and> k \<le> Suc depth \<and> (n, m) \<in> ?R ^^ k}"
      unfolding rs(2) split set_append ns by blast
    moreover have "repeat_loop E g bindings inner (Suc depth) (Nodes fs) acc = Ok rs"
      using rs(1) False by (simp add: run del: concat_eq_Nil_conv)
    ultimately show ?thesis by blast
  qed
qed auto

lemma first_seen_set: "set (first_seen seen xs) = set xs - seen" "distinct (first_seen seen xs)"
  by (induction xs arbitrary: seen) auto

section \<open>Groups\<close>

lemma string_cmp_Equal: "string_cmp a b = Equal \<longleftrightarrow> a = b"
proof (induction a b rule: string_cmp.induct)
  case (4 a as b bs)
  have "(of_char a :: nat) = of_char b \<longleftrightarrow> a = b" by simp
  then show ?case using 4 by (auto simp: ordering_of_def split: ordering.splits)
qed simp_all

lemma string_cmp_reverse: "string_cmp b a = reverse_ordering (string_cmp a b)"
  by (induction a b rule: string_cmp.induct) (auto simp: ordering_of_def)

lemma string_cmp_trans: "string_cmp a b \<noteq> Greater \<Longrightarrow> string_cmp b c \<noteq> Greater \<Longrightarrow> string_cmp a c \<noteq> Greater"
proof (induction a b arbitrary: c rule: string_cmp.induct)
  case (4 a as b bs)
  show ?case
  proof (cases c)
    case (Cons d ds)
    then show ?thesis using 4 by (auto simp: ordering_of_def split: if_splits)
  qed (use 4 in simp)
next
  case 1
  then show ?case by simp
next
  case (2 b bs)
  then show ?case by (cases c) simp_all
next
  case (3 a as)
  then show ?case by simp
qed

lemma string_cmp_Less_trans: "string_cmp a b = Less \<Longrightarrow> string_cmp b c = Less \<Longrightarrow> string_cmp a c = Less"
  using string_cmp_trans [of a b c] string_cmp_Equal string_cmp_reverse
  by (metis ordering.distinct(1,3,5) ordering.exhaust reverse_ordering.simps)

definition ordered_groups :: "(string \<times> 'a list) list \<Rightarrow> bool" where
  "ordered_groups gs \<longleftrightarrow> sorted_wrt (\<lambda>a b. string_cmp a b = Less) (map fst gs)"

lemma push_group_keys: "fst ` set (push_group k x gs) = insert k (fst ` set gs)"
  by (induction k x gs rule: push_group.induct) (auto simp: string_cmp_Equal split: ordering.splits)

lemma push_group_ordered: "ordered_groups gs \<Longrightarrow> ordered_groups (push_group k x gs)"
proof (induction k x gs rule: push_group.induct)
  case (2 k x k' xs gs)
  have tail: "ordered_groups gs" "\<forall>j\<in>fst ` set gs. string_cmp k' j = Less" using "2.prems" by (auto simp: ordered_groups_def)
  show ?case
  proof (cases "string_cmp k k'")
    case Less
    then show ?thesis using "2.prems" string_cmp_Less_trans [OF Less] by (auto simp: ordered_groups_def)
  next
    case Equal
    then show ?thesis using "2.prems" by (simp add: ordered_groups_def)
  next
    case Greater
    then have "string_cmp k' k = Less" using string_cmp_reverse [of k' k] by simp
    moreover have "ordered_groups (push_group k x gs)" using "2.IH" [OF Greater tail(1)] .
    ultimately show ?thesis
      using tail(2) push_group_keys [of k x gs] Greater by (auto simp: ordered_groups_def image_iff)
  qed
qed (simp add: ordered_groups_def)

lemma push_group_lookup:
  "ordered_groups gs \<Longrightarrow> map_of (push_group k x gs) =
     (map_of gs)(k \<mapsto> (case map_of gs k of None \<Rightarrow> [] | Some xs \<Rightarrow> xs) @ [x])"
proof (induction k x gs rule: push_group.induct)
  case (2 k x k' xs gs)
  have tail: "ordered_groups gs" "\<forall>j\<in>fst ` set gs. string_cmp k' j = Less" using "2.prems" by (auto simp: ordered_groups_def)
  show ?case
  proof (cases "string_cmp k k'")
    case Less
    then have "k \<noteq> k'" using string_cmp_Equal [of k k'] by auto
    moreover have "k \<notin> fst ` set gs"
      using tail(2) Less string_cmp_Less_trans [OF Less] string_cmp_Equal [of k k] by fastforce
    then have "map_of gs k = None" by (simp add: map_of_eq_None_iff)
    ultimately show ?thesis using Less by (auto simp: fun_eq_iff)
  next
    case Equal
    then show ?thesis using string_cmp_Equal [of k k'] by (auto simp: fun_eq_iff)
  next
    case Greater
    then have "k \<noteq> k'" using string_cmp_Equal [of k k'] by auto
    then show ?thesis using "2.IH" [OF Greater tail(1)] Greater by (auto simp: fun_eq_iff)
  qed
qed simp

lemma group_nodes_snoc: "group_nodes E g key (ids @ [n]) = push_group (group_value E g key n) n (group_nodes E g key ids)"
  by (simp add: group_nodes_def)

lemma group_nodes_spec:
  "ordered_groups (group_nodes E g key ids) \<and> (\<forall>k. map_of (group_nodes E g key ids) k =
     (let ns = filter (\<lambda>n. group_value E g key n = k) ids in if ns = [] then None else Some ns))"
proof (induction ids rule: rev_induct)
  case Nil
  then show ?case by (simp add: group_nodes_def ordered_groups_def)
next
  case (snoc n ids)
  then show ?case
    by (auto simp: group_nodes_snoc push_group_ordered push_group_lookup Let_def)
qed

text \<open>The key under which a value is grouped, and the rows of the groups.\<close>

fun shown :: "'n lib \<Rightarrow> 'n json option \<Rightarrow> string" where
  "shown L None = ''null''"
| "shown L (Some JNull) = ''null''"
| "shown L (Some (JBool b)) = (if b then ''true'' else ''false'')"
| "shown L (Some (JString s)) = s"
| "shown L (Some v) = value_to_string L v"

lemma group_value_shown: "group_value E g (ByNode p) n = shown (env_lib E) (Option.bind (ga_node_properties g n) (resolve p))"
  by (cases "Option.bind (ga_node_properties g n) (resolve p)")
    (simp_all add: group_value_def value_to_group_key_def split: json.split)

lemma map_of_put: "map_of (put k v m) = (map_of m)(k \<mapsto> v)"
proof -
  have "map_of (filter (\<lambda>(k', _). k' \<noteq> k) m) = (map_of m)(k := None)" by (induction m) (auto simp: fun_eq_iff)
  then show ?thesis by (simp add: put_def)
qed

lemma put_keys: "fst ` set (put k v m) \<subseteq> insert k (fst ` set m)"
  by (auto simp: put_def)

lemma aggregate_keys: "fst ` set (compute_aggregates E g ids fns) \<subseteq> output_key ` set fns"
proof -
  have "fst ` set (foldl (\<lambda>m f. put (output_key f) (h f) m) m fns) \<subseteq> fst ` set m \<union> output_key ` set fns"
    for m :: "(string \<times> 'b) list" and h
  proof (induction fns arbitrary: m)
    case (Cons f fns)
    show ?case using Cons.IH [of "put (output_key f) (h f) m"] put_keys [of "output_key f" "h f" m] by auto
  qed simp
  from this [of _ "[]"] show ?thesis by (simp add: compute_aggregates_def)
qed

lemma map_of_puts: "k \<notin> fst ` set m \<Longrightarrow> map_of (foldr (\<lambda>(k, v) row. put k v row) m row) k = map_of row k"
  by (induction m) (auto simp: map_of_put)

lemma group_row_key:
  assumes "''_group'' \<notin> output_key ` set fns"
  shows "map_of (group_row E g fns (k, ns)) ''_group'' = Some (JString k)"
proof -
  have "''_group'' \<notin> fst ` set (compute_aggregates E g ns fns)" using aggregate_keys [of E g ns fns] assms by blast
  then show ?thesis by (simp add: group_row_def map_of_puts map_of_put)
qed

section \<open>Sorting\<close>

lemma reverse_reverse [simp]: "reverse_ordering (reverse_ordering r) = r"
  by (cases r) simp_all

lemma reverse_Greater: "reverse_ordering r = Greater \<longleftrightarrow> r = Less" "reverse_ordering r = Equal \<longleftrightarrow> r = Equal"
  by (cases r; simp)+

lemma insert_by_mset [simp]: "mset (insert_by cmp x ys) = add_mset x (mset ys)"
  by (induction ys) auto

lemma sort_mset: "mset (foldr (insert_by cmp) xs []) = mset xs"
  by (induction xs) simp_all

lemma sort_set: "set (foldr (insert_by cmp) xs []) = set xs"
  using sort_mset [of cmp xs] by (metis set_mset_mset)

lemma preorderD:
  assumes "total_preorder_on cmp xs" "x \<in> set xs" "y \<in> set xs"
  shows "cmp y x = reverse_ordering (cmp x y)"
    "z \<in> set xs \<Longrightarrow> cmp x y \<noteq> Greater \<Longrightarrow> cmp y z \<noteq> Greater \<Longrightarrow> cmp x z \<noteq> Greater"
  using assms unfolding total_preorder_on_def by blast+

lemma total_preorder_tail: "total_preorder_on cmp (x # xs) \<Longrightarrow> total_preorder_on cmp xs"
  unfolding total_preorder_on_def set_simps by blast

lemma total_preorderI:
  assumes "\<And>x y. x \<in> set xs \<Longrightarrow> y \<in> set xs \<Longrightarrow> cmp y x = reverse_ordering (cmp x y)"
    "\<And>x y z. x \<in> set xs \<Longrightarrow> y \<in> set xs \<Longrightarrow> z \<in> set xs \<Longrightarrow> cmp x y \<noteq> Greater \<Longrightarrow> cmp y z \<noteq> Greater \<Longrightarrow> cmp x z \<noteq> Greater"
  shows "total_preorder_on cmp xs"
  unfolding total_preorder_on_def using assms by blast

lemma insert_by_sorted:
  assumes "total_preorder_on cmp zs" "set (x # ys) \<subseteq> set zs" "sorted_wrt (\<lambda>a b. cmp a b \<noteq> Greater) ys"
  shows "sorted_wrt (\<lambda>a b. cmp a b \<noteq> Greater) (insert_by cmp x ys)"
  using assms
proof (induction ys)
  case (Cons y ys)
  have m: "x \<in> set zs" "y \<in> set zs" using Cons.prems(2) by auto
  have s: "sorted_wrt (\<lambda>a b. cmp a b \<noteq> Greater) (insert_by cmp x ys)" using Cons by simp
  have set: "set (insert_by cmp x ys) = insert x (set ys)" using insert_by_mset [of cmp x ys] by (metis set_mset_add_mset_insert set_mset_mset)
  show ?case
  proof (cases "cmp x y = Greater")
    case True
    then have "cmp y x \<noteq> Greater" using preorderD(1) [OF Cons.prems(1) m] by simp
    then show ?thesis using True s set Cons.prems(3) by simp
  next
    case False
    have "cmp x z \<noteq> Greater" if "z \<in> set ys" for z
      using preorderD(2) [OF Cons.prems(1) m _ False] Cons.prems(2,3) that by auto
    then show ?thesis using False Cons.prems(3) by simp
  qed
qed simp

lemma sort_sorted: "total_preorder_on cmp xs \<Longrightarrow> sorted_wrt (\<lambda>a b. cmp a b \<noteq> Greater) (foldr (insert_by cmp) xs [])"
proof (induction xs)
  case (Cons x xs)
  have "set (x # foldr (insert_by cmp) xs []) \<subseteq> set (x # xs)" by (simp add: sort_set)
  from insert_by_sorted [OF Cons.prems this Cons.IH [OF total_preorder_tail [OF Cons.prems]]] show ?case by simp
qed simp

lemma insert_by_stable:
  assumes "\<And>y. y \<in> set ys \<Longrightarrow> P x \<Longrightarrow> P y \<Longrightarrow> cmp x y \<noteq> Greater"
  shows "filter P (insert_by cmp x ys) = filter P (x # ys)"
  using assms by (induction ys) auto

lemma sort_stable:
  assumes "total_preorder_on cmp xs" "z \<in> set xs"
  shows "filter (\<lambda>y. cmp z y = Equal) (foldr (insert_by cmp) xs []) = filter (\<lambda>y. cmp z y = Equal) xs"
proof -
  have "filter (\<lambda>y. cmp z y = Equal) (foldr (insert_by cmp) ys []) = filter (\<lambda>y. cmp z y = Equal) ys" if "set ys \<subseteq> set xs" for ys
    using that
  proof (induction ys)
    case (Cons x ys)
    have "cmp x y \<noteq> Greater" if y: "y \<in> set (foldr (insert_by cmp) ys [])" "cmp z x = Equal" "cmp z y = Equal" for y
    proof -
      have m: "x \<in> set xs" "y \<in> set xs" using y(1) Cons.prems by (auto simp: sort_set)
      have "cmp x z = Equal" using preorderD(1) [OF assms m(1)] y(2) by simp
      then show ?thesis using preorderD(2) [OF assms(1) m(1) assms(2) m(2)] y(3) by simp
    qed
    from insert_by_stable [where P = "\<lambda>y. cmp z y = Equal" and cmp = cmp and x = x and ys = "foldr (insert_by cmp) ys []", OF this]
    have "filter (\<lambda>y. cmp z y = Equal) (insert_by cmp x (foldr (insert_by cmp) ys []))
        = filter (\<lambda>y. cmp z y = Equal) (x # foldr (insert_by cmp) ys [])" .
    also have "\<dots> = filter (\<lambda>y. cmp z y = Equal) (x # ys)" using Cons.IH Cons.prems by simp
    finally show ?case unfolding foldr.simps o_apply .
  qed simp
  then show ?thesis by blast
qed

text \<open>Keys that are strings or missing, and keys that are numbers or missing.\<close>

definition string_key :: "'n json option \<Rightarrow> bool" where
  "string_key v \<longleftrightarrow> v = None \<or> (\<exists>s. v = Some (JString s))"

definition number_key :: "'n lib \<Rightarrow> 'n json option \<Rightarrow> bool" where
  "number_key L v \<longleftrightarrow> v = None \<or> (\<exists>n f. v = Some (JNumber n) \<and> as_f64 L n = Some f \<and> \<not> f64_is_nan f)"

text \<open>The values of a key are all strings, or all numbers that can be compared.\<close>

definition uniform_key :: "'n env \<Rightarrow> 'n graph_access \<Rightarrow> property_path \<Rightarrow> bool \<Rightarrow> u64 set \<Rightarrow> bool" where
  "uniform_key E g p k I \<longleftrightarrow>
     (\<forall>i\<in>I. string_key (Option.bind (item_props g k i) (resolve p))) \<or>
     (\<forall>i\<in>I. number_key (env_lib E) (Option.bind (item_props g k i) (resolve p)))"

text \<open>
  The order of keys by itself: a missing key comes first, strings are in the lexicographic order of their
  bytes, numbers in the order of their values.
\<close>

definition bytes_less :: "string \<Rightarrow> string \<Rightarrow> bool" where
  "bytes_less s t \<longleftrightarrow> (map of_char s, map of_char t) \<in> lexord {(x, y). x < (y :: nat)}"

fun key_le :: "'n lib \<Rightarrow> 'n json option \<Rightarrow> 'n json option \<Rightarrow> bool" where
  "key_le L None k = True"
| "key_le L (Some (JString s)) (Some (JString t)) = (s = t \<or> bytes_less s t)"
| "key_le L (Some (JNumber m)) (Some (JNumber n)) =
     (case (as_f64 L m, as_f64 L n) of (Some x, Some y) \<Rightarrow> f64_key x \<le> f64_key y | _ \<Rightarrow> False)"
| "key_le L _ _ = False"

definition sort_key :: "'n graph_access \<Rightarrow> property_path \<Rightarrow> bool \<Rightarrow> u64 \<Rightarrow> 'n json option" where
  "sort_key g p is_node i = Option.bind (if is_node then ga_node_properties g i else ga_edge_properties g i) (resolve p)"

definition in_order :: "'n lib \<Rightarrow> sort_direction \<Rightarrow> 'n json option \<Rightarrow> 'n json option \<Rightarrow> bool" where
  "in_order L dir a b = (case dir of Asc \<Rightarrow> key_le L a b | Desc \<Rightarrow> key_le L b a)"

lemma string_cmp_bytes: "string_cmp s t = Less \<longleftrightarrow> bytes_less s t"
  by (induction s t rule: string_cmp.induct) (auto simp: bytes_less_def ordering_of_def split: if_splits)

lemma string_cmp_le: "string_cmp s t \<noteq> Greater \<longleftrightarrow> s = t \<or> bytes_less s t"
  unfolding string_cmp_bytes [symmetric] string_cmp_Equal [symmetric] by (cases "string_cmp s t") simp_all

lemma string_cmp_Greater: "string_cmp s t = Greater \<longleftrightarrow> \<not> (s = t \<or> bytes_less s t)"
  using string_cmp_le by blast

lemma ordering_of_reverse: "ordering_of y x = reverse_ordering (ordering_of x y)"
  by (auto simp: ordering_of_def)

lemma ordering_of_Greater: "ordering_of x y = Greater \<longleftrightarrow> y < x"
  by (auto simp: ordering_of_def)

lemma string_keys_ordered:
  assumes "string_key a" "string_key b"
  shows "cmp_option_values L b a = reverse_ordering (cmp_option_values L a b)"
    "string_key c \<Longrightarrow> cmp_option_values L a b \<noteq> Greater \<Longrightarrow> cmp_option_values L b c \<noteq> Greater \<Longrightarrow> cmp_option_values L a c \<noteq> Greater"
proof -
  show "cmp_option_values L b a = reverse_ordering (cmp_option_values L a b)"
    using assms unfolding string_key_def by (elim disjE exE) (simp_all add: string_cmp_reverse [symmetric])
  show "cmp_option_values L a c \<noteq> Greater"
    if "string_key c" "cmp_option_values L a b \<noteq> Greater" "cmp_option_values L b c \<noteq> Greater"
    using assms that string_cmp_trans unfolding string_key_def by (elim disjE exE) simp_all
qed

lemma number_keys_ordered:
  assumes "number_key L a" "number_key L b"
  shows "cmp_option_values L b a = reverse_ordering (cmp_option_values L a b)"
    "number_key L c \<Longrightarrow> cmp_option_values L a b \<noteq> Greater \<Longrightarrow> cmp_option_values L b c \<noteq> Greater \<Longrightarrow> cmp_option_values L a c \<noteq> Greater"
proof -
  show "cmp_option_values L b a = reverse_ordering (cmp_option_values L a b)"
    using assms unfolding number_key_def by (elim disjE exE conjE) (simp_all add: f64_partial_cmp_def ordering_of_reverse [symmetric])
  show "cmp_option_values L a c \<noteq> Greater"
    if "number_key L c" "cmp_option_values L a b \<noteq> Greater" "cmp_option_values L b c \<noteq> Greater"
    using assms that unfolding number_key_def by (elim disjE exE conjE) (simp_all add: f64_partial_cmp_def ordering_of_Greater)
qed

lemma key_le_cmp:
  assumes "string_key a \<and> string_key b \<or> number_key L a \<and> number_key L b"
  shows "cmp_option_values L a b \<noteq> Greater \<longleftrightarrow> key_le L a b"
  using assms
  by (cases a; cases b) (auto simp: string_key_def number_key_def string_cmp_Greater f64_partial_cmp_def ordering_of_Greater not_less)

lemma order_cmp_in_order:
  assumes "uniform_key E g (ob_key spec) k I" "i \<in> I" "j \<in> I"
  shows "order_cmp E g spec k i j \<noteq> Greater \<longleftrightarrow>
      in_order (env_lib E) (ob_direction spec) (sort_key g (ob_key spec) k i) (sort_key g (ob_key spec) k j)"
proof -
  let ?L = "env_lib E" and ?key = "\<lambda>i. Option.bind (item_props g k i) (resolve (ob_key spec))"
  have key: "sort_key g (ob_key spec) k i = ?key i" for i by (simp add: sort_key_def item_props_def)
  have u: "string_key (?key x) \<and> string_key (?key y) \<or> number_key ?L (?key x) \<and> number_key ?L (?key y)" if "x \<in> I" "y \<in> I" for x y
    using assms(1) that unfolding uniform_key_def by blast
  have rev: "cmp_option_values ?L (?key j) (?key i) = reverse_ordering (cmp_option_values ?L (?key i) (?key j))"
    using u [OF assms(2,3)] string_keys_ordered(1) number_keys_ordered(1) by blast
  show ?thesis
  proof (cases "ob_direction spec")
    case Asc
    then show ?thesis using key_le_cmp [OF u [OF assms(2,3)]] by (simp add: order_cmp_def in_order_def key)
  next
    case Desc
    then show ?thesis using key_le_cmp [OF u [OF assms(3,2)]] rev by (simp add: order_cmp_def in_order_def key)
  qed
qed

lemma uniform_preorder:
  assumes "uniform_key E g p k (set xs)"
  shows "total_preorder_on (\<lambda>a b. cmp_option_values (env_lib E) (Option.bind (item_props g k a) (resolve p)) (Option.bind (item_props g k b) (resolve p))) xs"
proof -
  let ?key = "\<lambda>i. Option.bind (item_props g k i) (resolve p)"
  from assms consider (str) "\<And>i. i \<in> set xs \<Longrightarrow> string_key (?key i)" | (num) "\<And>i. i \<in> set xs \<Longrightarrow> number_key (env_lib E) (?key i)"
    unfolding uniform_key_def by blast
  then show ?thesis
  proof cases
    case str
    show ?thesis by (rule total_preorderI) (use str string_keys_ordered in blast)+
  next
    case num
    show ?thesis by (rule total_preorderI) (use num number_keys_ordered in blast)+
  qed
qed

lemma reverse_preorder:
  assumes "total_preorder_on cmp xs"
  shows "total_preorder_on (\<lambda>a b. reverse_ordering (cmp a b)) xs"
proof (rule total_preorderI)
  note r = preorderD(1) [OF assms]
  show "reverse_ordering (cmp y x) = reverse_ordering (reverse_ordering (cmp x y))" if "x \<in> set xs" "y \<in> set xs" for x y
    using r [OF that] by simp
  show "reverse_ordering (cmp x z) \<noteq> Greater"
    if m: "x \<in> set xs" "y \<in> set xs" "z \<in> set xs" and c: "reverse_ordering (cmp x y) \<noteq> Greater" "reverse_ordering (cmp y z) \<noteq> Greater" for x y z
    using preorderD(2) [OF assms m(3,2,1)] c unfolding r [OF m(1,2)] r [OF m(2,3)] r [OF m(1,3)] by simp
qed

lemma order_cmp_preorder: "uniform_key E g (ob_key spec) k (set xs) \<Longrightarrow> total_preorder_on (order_cmp E g spec k) xs"
  using uniform_preorder [of E g "ob_key spec" k xs] reverse_preorder
  by (cases "ob_direction spec") (fastforce simp: order_cmp_def [abs_def] Let_def)+

lemma uniform_subset: "uniform_key E g p k I \<Longrightarrow> I' \<subseteq> I \<Longrightarrow> uniform_key E g p k I'"
  unfolding uniform_key_def by blast

text \<open>The sorted cursor: a permutation, in the order of the keys, in which elements with equal keys keep their order.\<close>

lemma apply_order_by_sorts:
  fixes E :: "'n env" and g :: "'n graph_access"
  assumes uni: "uniform_key E g (ob_key spec) k (set xs)"
  defines "le \<equiv> \<lambda>i j. in_order (env_lib E) (ob_direction spec) (sort_key g (ob_key spec) k i) (sort_key g (ob_key spec) k j)"
  shows "\<exists>rs. apply_order_by E g spec (mk_cursor k xs) = Ok (mk_cursor k rs) \<and> mset rs = mset xs \<and> sorted_wrt le rs \<and>
    (\<forall>z\<in>set xs. filter (\<lambda>y. le y z \<and> le z y) rs = filter (\<lambda>y. le y z \<and> le z y) xs)"
proof -
  let ?cmp = "order_cmp E g spec k" and ?rs = "foldr (insert_by (order_cmp E g spec k)) xs []"
  note pre = order_cmp_preorder [OF uni]
  have le: "?cmp i j \<noteq> Greater \<longleftrightarrow> le i j" if "i \<in> set xs" "j \<in> set xs" for i j
    unfolding le_def by (rule order_cmp_in_order [OF uni that])
  have eq: "?cmp z y = Equal \<longleftrightarrow> le y z \<and> le z y" if "z \<in> set xs" "y \<in> set xs" for z y
    using le [OF that] le [OF that(2,1)] preorderD(1) [OF pre that] by (cases "?cmp z y") auto
  have "sorted_wrt le ?rs"
    by (rule sorted_wrt_mono_rel [OF _ sort_sorted [OF pre]]) (simp add: sort_set le)
  moreover have "filter (\<lambda>y. le y z \<and> le z y) ?rs = filter (\<lambda>y. le y z \<and> le z y) xs" if z: "z \<in> set xs" for z
  proof -
    have same: "filter (\<lambda>y. le y z \<and> le z y) ys = filter (\<lambda>y. ?cmp z y = Equal) ys" if "set ys = set xs" for ys
      by (rule filter_cong [OF refl]) (use eq [OF z] that in blast)
    show ?thesis unfolding same [OF sort_set] same [OF refl] by (rule sort_stable [OF pre z])
  qed
  ultimately show ?thesis
    by (intro exI [of _ ?rs]) (cases k; use pre in \<open>simp add: apply_order_by_def sort_by_def sort_mset\<close>)
qed

lemma apply_order_by_returns:
  assumes "\<And>k. uniform_key E g (ob_key spec) k UNIV"
  shows "\<exists>c'. apply_order_by E g spec c = Ok c'"
proof -
  have "total_preorder_on (order_cmp E g spec k) xs" for k xs
    by (rule order_cmp_preorder [OF uniform_subset [OF assms]]) simp
  then show ?thesis by (cases c) (simp_all add: apply_order_by_def sort_by_def)
qed

section \<open>Errors\<close>

text \<open>The sort keys of a step, and of the steps it repeats, are uniform in the graph.\<close>

fun sortable :: "'n env \<Rightarrow> 'n graph_access \<Rightarrow> 'n traversal_step \<Rightarrow> bool" where
  "sortable E g (TraversalStep action label labels f cf n sk ob inner depth custom any_key) =
     ((case ob of None \<Rightarrow> True | Some spec \<Rightarrow> \<forall>k. uniform_key E g (ob_key spec) k UNIV) \<and>
      (case inner of None \<Rightarrow> True | Some ss \<Rightarrow> list_all (sortable E g) ss))"

lemma sortable_parts:
  assumes "sortable E g s"
  shows "ts_order_by s = Some spec \<Longrightarrow> uniform_key E g (ob_key spec) k UNIV"
    "ts_repeat_steps s = Some ss \<Longrightarrow> list_all (sortable E g) ss"
  using assms by (cases s; simp)+

definition rejects :: "'a res \<Rightarrow> bool" where
  "rejects r \<longleftrightarrow> (\<exists>x. r = Ok x) \<or> (\<exists>m. r = Err (InvalidCommand m))"

lemma rejects_simps [simp]: "rejects (Ok x)" "rejects (Err (InvalidCommand m))"
  by (auto simp: rejects_def)

lemma rejects_try: "rejects r \<Longrightarrow> (\<And>x. r = Ok x \<Longrightarrow> rejects (f x)) \<Longrightarrow> rejects (try_res r f)"
  by (auto simp: rejects_def)

lemma require_rejects [simp]: "rejects (require_nodes c)" "rejects (require_edges c)"
  by (cases c; simp add: require_nodes_def require_edges_def)+

lemma step_filters_rejects: "rejects (step_filters E g bindings s c)"
  unfolding step_filters_def Let_def by (intro rejects_try) (auto simp: apply_custom_filter_def Let_def split: option.split cursor.split)

lemma simple_action_rejects:
  assumes "\<And>spec. ts_order_by s = Some spec \<Longrightarrow> \<exists>c'. apply_order_by E g spec c = Ok c'"
  shows "rejects (simple_action E g s c)"
proof (cases "ts_action s = OrderBy")
  case True
  then show ?thesis using assms by (cases "ts_order_by s") fastforce+
next
  case False
  then show ?thesis
    by (cases "ts_action s") (auto simp: to_edges_def to_nodes_def intro!: rejects_try)
qed

lemma apply_returns:
  "sortable E g s \<Longrightarrow> rejects (apply_step E g bindings s c)"
  "list_all (sortable E g) ss \<Longrightarrow> rejects (apply_steps E g bindings ss c)"
  "list_all (sortable E g) inner \<Longrightarrow> rejects (repeat_loop E g bindings inner depth frontier acc)"
proof (induction E g bindings s c and E g bindings ss c and E g bindings inner depth frontier acc
    rule: apply_step_apply_steps_repeat_loop.induct)
  case (1 E g bindings s c)
  have "rejects (simple_action E g s c)"
    by (rule simple_action_rejects) (rule apply_order_by_returns, rule sortable_parts(1) [OF "1.prems"])
  moreover have "rejects (case ts_repeat_steps s of None \<Rightarrow> Err (InvalidCommand ''Repeat requires repeat_steps'') | Some inner \<Rightarrow>
      (case c of Edges _ \<Rightarrow> Err (InvalidCommand ''Repeat must start from a Nodes cursor'')
       | Nodes ns \<Rightarrow> try_res (repeat_loop E g bindings inner (case ts_max_depth s of None \<Rightarrow> 1 | Some m \<Rightarrow> m) c ns) (\<lambda>acc.
           Ok (Nodes (first_seen {} acc)))))" if "ts_action s = Repeat"
    using "1.IH" [OF that] sortable_parts(2) [OF "1.prems"]
    by (auto split: option.split cursor.split intro!: rejects_try simp del: repeat_loop.simps)
  ultimately show ?case
    unfolding apply_step.simps [of E g bindings s c] by (intro rejects_try step_filters_rejects) simp
next
  case (3 E g bindings step steps c)
  then show ?case by (auto intro!: rejects_try)
next
  case (5 E g bindings inner depth frontier acc)
  then show ?case by (auto intro!: rejects_try split: cursor.split)
qed simp_all

lemma apply_repeat:
  assumes s: "ts_action s = Repeat" "ts_repeat_steps s = Some inner" "ts_custom_filter s = None" and inner: "steps_kind inner True = Some True"
  shows "\<exists>rs. apply_step E g bindings s (Nodes ns) = Ok (Nodes rs) \<and> distinct rs \<and>
    set rs = {m. passes E g bindings s True m \<and>
      (\<exists>n\<in>set ns. \<exists>k\<le>(case ts_max_depth s of None \<Rightarrow> 1 | Some d \<Rightarrow> d). (n, m) \<in> round_rel E g bindings inner ^^ k)}"
proof -
  let ?d = "case ts_max_depth s of None \<Rightarrow> 1 | Some d \<Rightarrow> d" and ?R = "round_rel E g bindings inner"
  obtain rs where rs: "repeat_loop E g bindings inner ?d (Nodes ns) ns = Ok rs"
      "set rs = set ns \<union> {m. \<exists>n\<in>set ns. \<exists>k. 0 < k \<and> k \<le> ?d \<and> (n, m) \<in> ?R ^^ k}"
    using repeat_loop_reaches [OF inner, of E g bindings ?d ns ns] by blast
  have reach: "m \<in> set rs \<longleftrightarrow> (\<exists>n\<in>set ns. \<exists>k\<le>?d. (n, m) \<in> ?R ^^ k)" for m
  proof
    assume "m \<in> set rs"
    then consider "m \<in> set ns" | n k where "n \<in> set ns" "0 < k" "k \<le> ?d" "(n, m) \<in> ?R ^^ k" unfolding rs(2) by blast
    then show "\<exists>n\<in>set ns. \<exists>k\<le>?d. (n, m) \<in> ?R ^^ k" 
    proof cases
      case 1
      then show ?thesis by (intro bexI [of _ m] exI [of _ 0]) auto
    qed blast
  next
    assume "\<exists>n\<in>set ns. \<exists>k\<le>?d. (n, m) \<in> ?R ^^ k"
    then obtain n k where k: "n \<in> set ns" "k \<le> ?d" "(n, m) \<in> ?R ^^ k" by blast
    then show "m \<in> set rs" unfolding rs(2) by (cases "k = 0") auto
  qed
  have "apply_step E g bindings s (Nodes ns) = Ok (Nodes (filter (passes E g bindings s True) (first_seen {} rs)))"
    using step_filters_pointwise [OF s(3), of E g bindings True] by (simp add: apply_step.simps [of E g bindings s] s(1,2) rs(1) del: repeat_loop.simps)
  then show ?thesis
    using first_seen_set [of "{}" rs] reach by (intro exI [of _ "filter (passes E g bindings s True) (first_seen {} rs)"]) auto
qed

text \<open>A step that repeats others.\<close>

definition repeat_step :: "'n traversal_step list \<Rightarrow> nat \<Rightarrow> 'n traversal_step" where
  "repeat_step inner d = TraversalStep Repeat None None None None None None None (Some inner) (Some d) None None"

lemma repeat_step_parts [simp]:
  "ts_action (repeat_step inner d) = Repeat" "ts_repeat_steps (repeat_step inner d) = Some inner"
  "ts_custom_filter (repeat_step inner d) = None" "ts_max_depth (repeat_step inner d) = Some d"
  "passes E g bindings (repeat_step inner d) k i"
  by (simp_all add: repeat_step_def passes_def)

section \<open>The contract of a graph\<close>

text \<open>
  What the trait \<open>GraphAccess\<close> promises of the nodes \<open>V\<close> and edges \<open>W\<close> in use: the outgoing edges of
  a node are the edges that start at it, and the incoming edges are those that end at it, with the label
  that was asked for; edges join nodes in use.
\<close>

locale graph_contract =
  fixes g :: "'n graph_access" and carries :: "u64 \<Rightarrow> string \<Rightarrow> bool" and V W :: "u64 set"
  assumes out_edges: "n \<in> V \<Longrightarrow> e \<in> set (ga_out_edges g n l) \<longleftrightarrow>
      e \<in> W \<and> ga_edge_from_node g e = Some n \<and> (\<forall>lb. l = Some lb \<longrightarrow> carries e lb)"
    and in_edges: "n \<in> V \<Longrightarrow> e \<in> set (ga_in_edges g n l) \<longleftrightarrow>
      e \<in> W \<and> ga_edge_to_node g e = Some n \<and> (\<forall>lb. l = Some lb \<longrightarrow> carries e lb)"
    and from_live: "e \<in> W \<Longrightarrow> ga_edge_from_node g e = Some n \<Longrightarrow> n \<in> V"
    and to_live: "e \<in> W \<Longrightarrow> ga_edge_to_node g e = Some n \<Longrightarrow> n \<in> V"

definition hop_out :: "string option \<Rightarrow> 'n traversal_step list" where
  "hop_out l = [default_step OutEdges l, default_step OutNodes None]"

definition hop_in :: "string option \<Rightarrow> 'n traversal_step list" where
  "hop_in l = [default_step InEdges l, default_step InNodes None]"

lemma passes_default [simp]: "passes E g bindings (default_step a l) k i"
  by (simp add: passes_def default_step_def)

lemma hop_kinds: "steps_kind (hop_out l) True = Some True" "steps_kind (hop_in l) True = Some True"
  by (simp_all add: hop_out_def hop_in_def step_kind_def default_step_def)

lemma hop_images:
  "set (steps_image E g bindings (hop_out l) True n) = {m. \<exists>e\<in>set (ga_out_edges g n l). ga_edge_to_node g e = Some m}"
  "set (steps_image E g bindings (hop_in l) True n) = {m. \<exists>e\<in>set (ga_in_edges g n l). ga_edge_from_node g e = Some m}"
proof -
  have k: "step_kind (default_step OutEdges l :: 'a traversal_step) True = Some False" "step_kind (default_step OutNodes None :: 'a traversal_step) False = Some True"
      "step_kind (default_step InEdges l :: 'a traversal_step) True = Some False" "step_kind (default_step InNodes None :: 'a traversal_step) False = Some True"
    by (simp_all add: step_kind_def default_step_def)
  have s: "step_image E g bindings (default_step a l') k' i = spread g (default_step a l') i" for a l' k' i
    by (simp add: step_image_def)
  have d: "ts_action (default_step a l') = a" "ts_label (default_step a l') = l'" for a l' by (simp_all add: default_step_def)
  show "set (steps_image E g bindings (hop_out l) True n) = {m. \<exists>e\<in>set (ga_out_edges g n l). ga_edge_to_node g e = Some m}"
    by (auto simp: hop_out_def k s spread_def d has_node_label_def split: option.splits)
  show "set (steps_image E g bindings (hop_in l) True n) = {m. \<exists>e\<in>set (ga_in_edges g n l). ga_edge_from_node g e = Some m}"
    by (auto simp: hop_in_def k s spread_def d has_node_label_def split: option.splits)
qed

lemma converse_power: "(a, b) \<in> ((R :: ('a \<times> 'a) set)\<inverse>) ^^ k \<longleftrightarrow> (b, a) \<in> R ^^ k"
proof (induction k arbitrary: a b)
  case (Suc k)
  have "(b, a) \<in> R ^^ Suc k \<longleftrightarrow> (b, a) \<in> R O R ^^ k" by (simp add: relpow_commute)
  then show ?case using Suc by auto
qed auto

lemma closed_power:
  assumes "\<And>a b. a \<in> V \<Longrightarrow> (a, b) \<in> R \<Longrightarrow> b \<in> V" "a \<in> V"
  shows "(a, b) \<in> R ^^ k \<longleftrightarrow> (a, b) \<in> (R \<inter> V \<times> V) ^^ k"
proof
  show "(a, b) \<in> R ^^ k \<Longrightarrow> (a, b) \<in> (R \<inter> V \<times> V) ^^ k"
    using assms(2)
  proof (induction k arbitrary: a)
    case (Suc k)
    then obtain c where c: "(a, c) \<in> R" "(c, b) \<in> R ^^ k" by (metis relpow_Suc_D2)
    then have v: "c \<in> V" using assms(1) Suc.prems(2) by blast
    have "(a, c) \<in> R \<inter> V \<times> V" using c(1) v Suc.prems(2) by blast
    then show ?case using Suc.IH [OF c(2) v] by (metis relpow_Suc_I2)
  qed auto
  show "(a, b) \<in> (R \<inter> V \<times> V) ^^ k \<Longrightarrow> (a, b) \<in> R ^^ k"
    by (induction k arbitrary: b) auto
qed

context graph_contract begin

lemma hop_closed:
  "a \<in> V \<Longrightarrow> (a, b) \<in> round_rel E g bindings (hop_out l) \<Longrightarrow> b \<in> V"
  "a \<in> V \<Longrightarrow> (a, b) \<in> round_rel E g bindings (hop_in l) \<Longrightarrow> b \<in> V"
  unfolding round_rel_def hop_images using out_edges in_edges from_live to_live by auto

lemma hops_inverse:
  "round_rel E g bindings (hop_in l) \<inter> V \<times> V = (round_rel E g bindings (hop_out l) \<inter> V \<times> V)\<inverse>"
  unfolding round_rel_def hop_images by (auto simp: out_edges in_edges)

lemma hops_inverse_power:
  assumes "n \<in> V" "m \<in> V"
  shows "(m, n) \<in> round_rel E g bindings (hop_in l) ^^ k \<longleftrightarrow> (n, m) \<in> round_rel E g bindings (hop_out l) ^^ k"
  using closed_power [of V "round_rel E g bindings (hop_in l)" m n k] closed_power [of V "round_rel E g bindings (hop_out l)" n m k]
    hop_closed assms
  unfolding hops_inverse converse_power by blast

lemma inbound_inverts:
  assumes "x \<in> V" "y \<in> V"
  shows "\<exists>rs qs. apply_step E g bindings (repeat_step (hop_out l) d) (Nodes [x]) = Ok (Nodes rs) \<and>
     apply_step E g bindings (repeat_step (hop_in l) d) (Nodes [y]) = Ok (Nodes qs) \<and> (y \<in> set rs \<longleftrightarrow> x \<in> set qs)"
proof -
  from apply_repeat [of "repeat_step (hop_out l) d" "hop_out l", of E g bindings "[x]"] hop_kinds
  obtain rs where rs: "apply_step E g bindings (repeat_step (hop_out l) d) (Nodes [x]) = Ok (Nodes rs)"
      "set rs = {m. \<exists>k\<le>d. (x, m) \<in> round_rel E g bindings (hop_out l) ^^ k}" by auto
  from apply_repeat [of "repeat_step (hop_in l) d" "hop_in l", of E g bindings "[y]"] hop_kinds
  obtain qs where qs: "apply_step E g bindings (repeat_step (hop_in l) d) (Nodes [y]) = Ok (Nodes qs)"
      "set qs = {m. \<exists>k\<le>d. (y, m) \<in> round_rel E g bindings (hop_in l) ^^ k}" by auto
  show ?thesis using rs qs by (auto simp: hops_inverse_power [OF assms])
qed

end

text \<open>The graph in memory keeps the contract.\<close>

definition memory_ok :: "'n in_memory_graph \<Rightarrow> bool" where
  "memory_ok m \<longleftrightarrow>
     distinct (map fst (im_nodes m)) \<and> (\<forall>(i, d)\<in>set (im_nodes m). nd_id d = i) \<and>
     distinct (map fst (im_edges m)) \<and> (\<forall>(i, d)\<in>set (im_edges m). ed_id d = i)"

lemma distinct_fst_filter: "distinct (map fst xs) \<Longrightarrow> distinct (map fst (filter P xs))"
  by (induction xs) (auto simp: image_iff)

lemma memory_ok_new: "memory_ok in_memory_new"
  by (simp add: memory_ok_def in_memory_new_def)

lemma memory_ok_add:
  "memory_ok m \<Longrightarrow> memory_ok (snd (im_add_node_with_labels label extra props m))"
  "memory_ok m \<Longrightarrow> memory_ok (snd (im_add_edge label src dst props m))"
  by (auto simp: memory_ok_def im_add_node_with_labels_def im_add_edge_def Let_def distinct_fst_filter)

lemma filter_ids:
  assumes "distinct (map fst xs)" "\<forall>(i, d)\<in>set xs. key d = i"
  shows "i \<in> set (map key (filter P (map snd xs))) \<longleftrightarrow> (\<exists>d. map_of xs i = Some d \<and> P d)"
proof
  assume "i \<in> set (map key (filter P (map snd xs)))"
  then obtain j d where "(j, d) \<in> set xs" "P d" "key d = i" by auto
  moreover from this have "j = i" using assms(2) by auto
  ultimately show "\<exists>d. map_of xs i = Some d \<and> P d" using assms(1) by auto
next
  assume "\<exists>d. map_of xs i = Some d \<and> P d"
  then obtain d where "(i, d) \<in> set xs" "P d" by (auto dest: map_of_SomeD)
  then show "i \<in> set (map key (filter P (map snd xs)))" using assms(2) by force
qed

lemma memory_contract:
  assumes "memory_ok m"
  shows "graph_contract (im_access L m) (\<lambda>e lb. ga_edge_label (im_access L m) e = Some lb) UNIV (fst ` set (im_edges m))"
proof -
  have e: "distinct (map fst (im_edges m))" "\<forall>(i, d)\<in>set (im_edges m). ed_id d = i" using assms by (auto simp: memory_ok_def)
  have k: "i \<in> fst ` set (im_edges m)" if "map_of (im_edges m) i = Some d" for i d using map_of_SomeD [OF that] by force
  show ?thesis
    by unfold_locales
      (auto simp: im_access_def im_out_edges_def im_in_edges_def filter_ids [OF e, simplified] edge_label_is_def dest: k split: option.splits)
qed

text \<open>The graph that a list of additions builds.\<close>

datatype 'n addition = AddNode string "string list" "'n props" | AddEdge string u64 u64 "'n props"

fun build :: "'n addition list \<Rightarrow> 'n in_memory_graph" where
  "build [] = in_memory_new"
| "build (AddNode label extra props # as) = snd (im_add_node_with_labels label extra props (build as))"
| "build (AddEdge label src dst props # as) = snd (im_add_edge label src dst props (build as))"

lemma build_ok: "memory_ok (build as)"
  by (induction as rule: build.induct) (simp_all add: memory_ok_new memory_ok_add)

interpretation memory: graph_contract "im_access L (build as)" "\<lambda>e lb. ga_edge_label (im_access L (build as)) e = Some lb" UNIV "fst ` set (im_edges (build as))" for L as
  by (rule memory_contract [OF build_ok])

section \<open>Properties\<close>

text \<open>
  C14: A repeated step whose inner steps follow edges, filter by properties or test labels, from nodes to
  nodes, returns the nodes that are reached from the cursor in at most \<open>max_depth\<close> rounds of the inner
  steps, the start included, and that pass the filters of the step, each once.
\<close>

theorem repeat_reaches:
  assumes "ts_action s = Repeat" "ts_repeat_steps s = Some inner" "ts_custom_filter s = None" "steps_kind inner True = Some True"
  shows "\<exists>rs. apply_step E g bindings s (Nodes ns) = Ok (Nodes rs) \<and> distinct rs \<and>
    set rs = {m. passes E g bindings s True m \<and>
      (\<exists>n\<in>set ns. \<exists>k\<le>(case ts_max_depth s of None \<Rightarrow> 1 | Some d \<Rightarrow> d). (n, m) \<in> round_rel E g bindings inner ^^ k)}"
  by (rule apply_repeat [OF assms])

definition demo_env :: "int env" where
  "demo_env = \<lparr>env_lib = demo_lib, env_regex = (=), env_lowercase = id, env_zero = 0\<rparr>"

text \<open>A chain of three nodes with a loop at its end.\<close>

definition demo_memory :: "int in_memory_graph" where
  "demo_memory = build
     [AddEdge ''self'' 2 2 [], AddEdge ''next'' 1 2 [], AddEdge ''next'' 0 1 [],
      AddNode ''N'' [] [(''k'', JString ''b'')], AddNode ''N'' [] [(''k'', JString ''a'')], AddNode ''M'' [''N''] [(''k'', JString ''b'')]]"

theorem repeat_reaches_witness:
  "\<exists>rs. apply_step demo_env (im_access demo_lib demo_memory) [] (repeat_step (hop_out (Some ''next'')) 1) (Nodes [0]) = Ok (Nodes rs) \<and> distinct rs \<and>
    set rs = {m. \<exists>k\<le>1. (0, m) \<in> round_rel demo_env (im_access demo_lib demo_memory) [] (hop_out (Some ''next'')) ^^ k}"
  using repeat_reaches [of "repeat_step (hop_out (Some ''next'')) 1" "hop_out (Some ''next'')" demo_env "im_access demo_lib demo_memory" "[]" "[0]"]
  by (simp add: hop_kinds)

text \<open>
  In a graph in memory an inbound traversal inverts an outbound one: \<open>y\<close> is reached from \<open>x\<close> by at
  most \<open>d\<close> outgoing edges of a label exactly when \<open>x\<close> is reached from \<open>y\<close> by at most \<open>d\<close> incoming ones.
\<close>

theorem inbound_inverts_outbound:
  "\<exists>rs qs. apply_step E (im_access L (build as)) bindings (repeat_step (hop_out l) d) (Nodes [x]) = Ok (Nodes rs) \<and>
     apply_step E (im_access L (build as)) bindings (repeat_step (hop_in l) d) (Nodes [y]) = Ok (Nodes qs) \<and>
     (y \<in> set rs \<longleftrightarrow> x \<in> set qs)"
  by (rule memory.inbound_inverts) simp_all

text \<open>
  C16: Grouping by a property partitions the nodes of the cursor, for a cursor of edges their targets. The
  result has one row for each group, in the order of the bytes of the keys, and no key has two groups. The
  group of a key holds the nodes whose property is shown as the key, in the order of the cursor: a string
  is its own key, true and false are spelled out, a number, array or object is its JSON text, and a
  property that is missing or null has the key \<open>null\<close>. The row of a group names its key.
\<close>

theorem group_by_partitions:
  "\<exists>gs. collect E g c (CollectGroupBy (ByNode p) fns) = Groups (map (group_row E g fns) gs) \<and>
     sorted_wrt bytes_less (map fst gs) \<and>
     (\<forall>k. map_of gs k =
       (let ns = filter (\<lambda>n. shown (env_lib E) (Option.bind (ga_node_properties g n) (resolve p)) = k)
             (case c of Nodes ns \<Rightarrow> ns | Edges es \<Rightarrow> List.map_filter (ga_edge_to_node g) es)
        in if ns = [] then None else Some ns)) \<and>
     (''_group'' \<notin> output_key ` set fns \<longrightarrow> (\<forall>(k, ns)\<in>set gs. map_of (group_row E g fns (k, ns)) ''_group'' = Some (JString k)))"
  using group_nodes_spec [of E g "ByNode p" "cursor_to_node_ids g c"] group_row_key
  by (intro exI [of _ "group_nodes E g (ByNode p) (cursor_to_node_ids g c)"])
    (auto simp: collect_def collect_group_by_def cursor_to_node_ids_def ordered_groups_def string_cmp_bytes group_value_shown)

text \<open>A key on the connecting edge puts every node under \<open>null\<close>.\<close>

theorem edge_keys_are_ignored:
  "collect E g (Nodes (n # ns)) (CollectGroupBy (ByEdge p) fns) = Groups [group_row E g fns (''null'', n # ns)]"
proof -
  have "foldl (\<lambda>gs n. push_group ''null'' n gs) [(''null'', xs)] ns = [(''null'', xs @ ns)]" for xs :: "u64 list"
    by (induction ns arbitrary: xs) (simp_all add: ordering_of_def)
  then show ?thesis
    by (simp add: collect_def collect_group_by_def cursor_to_node_ids_def group_nodes_def group_value_def)
qed

text \<open>
  C15: Ordering nodes or edges by a key whose values are all strings, or all comparable numbers, returns a
  permutation of the cursor that is ascending or, if the direction is \<open>Desc\<close>, descending in the key, with
  a missing key below all others, strings in the order of their bytes and numbers in the order of their
  values; elements with equal keys keep their order.
\<close>

theorem order_by_sorts:
  assumes "uniform_key E g (ob_key spec) k (set xs)"
  shows "\<exists>rs. apply_order_by E g spec (if k then Nodes xs else Edges xs) = Ok (if k then Nodes rs else Edges rs) \<and> mset rs = mset xs \<and>
    sorted_wrt (\<lambda>i j. if ob_direction spec = Asc
        then key_le (env_lib E) (sort_key g (ob_key spec) k i) (sort_key g (ob_key spec) k j)
        else key_le (env_lib E) (sort_key g (ob_key spec) k j) (sort_key g (ob_key spec) k i)) rs \<and>
    (\<forall>z\<in>set xs. filter (\<lambda>y. key_le (env_lib E) (sort_key g (ob_key spec) k y) (sort_key g (ob_key spec) k z) \<and>
          key_le (env_lib E) (sort_key g (ob_key spec) k z) (sort_key g (ob_key spec) k y)) rs =
        filter (\<lambda>y. key_le (env_lib E) (sort_key g (ob_key spec) k y) (sort_key g (ob_key spec) k z) \<and>
          key_le (env_lib E) (sort_key g (ob_key spec) k z) (sort_key g (ob_key spec) k y)) xs)"
  using apply_order_by_sorts [OF assms]
  by (cases "ob_direction spec") (simp_all add: in_order_def mk_cursor_def conj_commute)

lemma demo_memory_values:
  "demo_memory = \<lparr>
     im_nodes = [(2, \<lparr>nd_id = 2, nd_label = ''N'', nd_extra_labels = [], nd_properties = [(''k'', JString ''b'')]\<rparr>),
       (1, \<lparr>nd_id = 1, nd_label = ''N'', nd_extra_labels = [], nd_properties = [(''k'', JString ''a'')]\<rparr>),
       (0, \<lparr>nd_id = 0, nd_label = ''M'', nd_extra_labels = [''N''], nd_properties = [(''k'', JString ''b'')]\<rparr>)],
     im_edges = [(2, \<lparr>ed_id = 2, ed_label = ''self'', ed_from_node = 2, ed_to_node = 2, ed_properties = []\<rparr>),
       (1, \<lparr>ed_id = 1, ed_label = ''next'', ed_from_node = 1, ed_to_node = 2, ed_properties = []\<rparr>),
       (0, \<lparr>ed_id = 0, ed_label = ''next'', ed_from_node = 0, ed_to_node = 1, ed_properties = []\<rparr>)],
     im_next_node = 3, im_next_edge = 3\<rparr>"
  by (simp add: demo_memory_def in_memory_new_def im_add_node_with_labels_def im_add_edge_def Let_def)

lemma demo_keys: "uniform_key demo_env (im_access demo_lib demo_memory) (Flat ''k'') k I"
  by (cases k) (auto simp: uniform_key_def string_key_def item_props_def im_access_def demo_memory_values)

lemma demo_sort_key:
  "sort_key (im_access demo_lib demo_memory) (Flat ''k'') True i =
     (if i = 0 \<or> i = 2 then Some (JString ''b'') else if i = 1 then Some (JString ''a'') else None)"
  by (simp add: sort_key_def im_access_def demo_memory_values)

lemma demo_bytes: "bytes_less ''a'' ''b''" "\<not> bytes_less ''b'' ''a''"
  by (simp_all add: bytes_less_def)

theorem group_by_partitions_witness:
  "collect demo_env (im_access demo_lib demo_memory) (Nodes [2, 0, 1]) (CollectGroupBy (ByNode (Flat ''k'')) []) =
     Groups [[(''_group'', JString ''a'')], [(''_group'', JString ''b'')]] \<and>
   (\<exists>gs. sorted_wrt bytes_less (map fst gs) \<and> map_of gs ''a'' = Some [1 :: u64] \<and> map_of gs ''b'' = Some [2, 0] \<and> map_of gs ''c'' = None)"
proof -
  let ?g = "im_access demo_lib demo_memory"
  have key: "Option.bind (ga_node_properties ?g n) (resolve (Flat ''k'')) = sort_key ?g (Flat ''k'') True n" for n
    by (simp add: sort_key_def)
  have L: "env_lib demo_env = demo_lib" by (simp add: demo_env_def)
  obtain gs where gs: "sorted_wrt bytes_less (map fst gs)"
      "\<forall>k. map_of gs k = (let ns = filter (\<lambda>n. shown demo_lib (sort_key ?g (Flat ''k'') True n) = k) [2, 0, 1] in if ns = [] then None else Some ns)"
    using group_by_partitions [of demo_env ?g "Nodes [2, 0, 1]" "Flat ''k''" "[]"] unfolding key L cursor.case by blast
  have "map_of gs ''a'' = Some [1]" "map_of gs ''b'' = Some [2, 0]" "map_of gs ''c'' = None"
    using gs(2) [rule_format, of "''a''"] gs(2) [rule_format, of "''b''"] gs(2) [rule_format, of "''c''"] by (simp_all add: demo_sort_key)
  with gs(1) have "\<exists>gs. sorted_wrt bytes_less (map fst gs) \<and> map_of gs ''a'' = Some [1 :: u64] \<and> map_of gs ''b'' = Some [2, 0] \<and> map_of gs ''c'' = None"
    by blast
  moreover have "group_value demo_env ?g (ByNode (Flat ''k'')) n = shown demo_lib (sort_key ?g (Flat ''k'') True n)" for n
    unfolding group_value_shown key by (simp add: demo_env_def)
  ultimately show ?thesis
    by (simp add: collect_def collect_group_by_def cursor_to_node_ids_def group_nodes_def demo_sort_key group_row_def
        compute_aggregates_def put_def ordering_of_def)
qed

lemma three_ids:
  assumes "mset rs = mset [2, 0, 1 :: u64]"
  shows "rs \<in> {[0, 1, 2], [0, 2, 1], [1, 0, 2], [1, 2, 0], [2, 0, 1], [2, 1, 0]}"
proof -
  have "length rs = 3" using mset_eq_length [OF assms] by simp
  then obtain x y z where rs: "rs = [x, y, z]" by (auto simp: length_Suc_conv numeral_3_eq_3)
  have "x \<in> {2, 0, 1}" "y \<in> {2, 0, 1}" "z \<in> {2, 0, 1}" using mset_eq_setD [OF assms] unfolding rs by auto
  moreover have "distinct [x, y, z]" using mset_eq_imp_distinct_iff [OF assms] unfolding rs by simp
  ultimately show ?thesis unfolding rs by (elim insertE emptyE) simp_all
qed

theorem order_by_sorts_witness:
  "apply_order_by demo_env (im_access demo_lib demo_memory) \<lparr>ob_key = Flat ''k'', ob_direction = Asc\<rparr> (Nodes [2, 0, 1]) = Ok (Nodes [1, 2, 0]) \<and>
   apply_order_by demo_env (im_access demo_lib demo_memory) \<lparr>ob_key = Flat ''k'', ob_direction = Desc\<rparr> (Nodes [2, 0, 1]) = Ok (Nodes [2, 0, 1])"
proof -
  let ?g = "im_access demo_lib demo_memory"
  have L: "env_lib demo_env = demo_lib" by (simp add: demo_env_def)
  have key: "sort_key ?g (Flat ''k'') True 0 = Some (JString ''b'')" "sort_key ?g (Flat ''k'') True 1 = Some (JString ''a'')"
      "sort_key ?g (Flat ''k'') True 2 = Some (JString ''b'')"
    by (simp_all add: demo_sort_key)
  note sorts = order_by_sorts [of demo_env ?g "\<lparr>ob_key = Flat ''k'', ob_direction = d\<rparr>" True "[2, 0, 1]" for d,
    unfolded L order_by_spec.simps if_True, OF demo_keys]
  obtain rs where rs: "apply_order_by demo_env ?g \<lparr>ob_key = Flat ''k'', ob_direction = Asc\<rparr> (Nodes [2, 0, 1]) = Ok (Nodes rs)" "mset rs = mset [2, 0, 1]"
      "sorted_wrt (\<lambda>i j. key_le demo_lib (sort_key ?g (Flat ''k'') True i) (sort_key ?g (Flat ''k'') True j)) rs"
      "\<forall>z\<in>set [2, 0, 1]. filter (\<lambda>y. key_le demo_lib (sort_key ?g (Flat ''k'') True y) (sort_key ?g (Flat ''k'') True z) \<and>
          key_le demo_lib (sort_key ?g (Flat ''k'') True z) (sort_key ?g (Flat ''k'') True y)) rs =
        filter (\<lambda>y. key_le demo_lib (sort_key ?g (Flat ''k'') True y) (sort_key ?g (Flat ''k'') True z) \<and>
          key_le demo_lib (sort_key ?g (Flat ''k'') True z) (sort_key ?g (Flat ''k'') True y)) [2, 0, 1]"
    using sorts [of Asc] by auto
  have "rs = [1, 2, 0]" using three_ids [OF rs(2)] rs(3) bspec [OF rs(4), of 2] by (elim insertE emptyE) (simp_all add: key demo_bytes)
  moreover obtain qs where qs: "apply_order_by demo_env ?g \<lparr>ob_key = Flat ''k'', ob_direction = Desc\<rparr> (Nodes [2, 0, 1]) = Ok (Nodes qs)" "mset qs = mset [2, 0, 1]"
      "sorted_wrt (\<lambda>i j. key_le demo_lib (sort_key ?g (Flat ''k'') True j) (sort_key ?g (Flat ''k'') True i)) qs"
      "\<forall>z\<in>set [2, 0, 1]. filter (\<lambda>y. key_le demo_lib (sort_key ?g (Flat ''k'') True y) (sort_key ?g (Flat ''k'') True z) \<and>
          key_le demo_lib (sort_key ?g (Flat ''k'') True z) (sort_key ?g (Flat ''k'') True y)) qs =
        filter (\<lambda>y. key_le demo_lib (sort_key ?g (Flat ''k'') True y) (sort_key ?g (Flat ''k'') True z) \<and>
          key_le demo_lib (sort_key ?g (Flat ''k'') True z) (sort_key ?g (Flat ''k'') True y)) [2, 0, 1]"
    using sorts [of Desc] by auto
  have "qs = [2, 0, 1]" using three_ids [OF qs(2)] qs(3) bspec [OF qs(4), of 2] by (elim insertE emptyE) (simp_all add: key demo_bytes)
  ultimately show ?thesis using rs(1) qs(1) by simp
qed

text \<open>
  C17: A command whose sort keys are uniform returns: it gives a result or one of two errors, a start
  node that is not found or a command that is not valid, and it neither panics nor runs forever.
\<close>

theorem commands_return:
  assumes "\<forall>s\<in>set (tc_steps cmd). sortable E g s"
  shows "(\<exists>r. execute E g cmd = Ok r) \<or> (\<exists>m. execute E g cmd = Err (InvalidCommand m)) \<or> (\<exists>m. execute E g cmd = Err (NodeNotFound m))"
proof -
  have steps: "rejects (apply_steps E g (tc_bindings cmd) (tc_steps cmd) c)" for c
    using apply_returns(2) assms by (simp add: list_all_iff)
  have start: "(\<exists>c. start_cursor E g cmd = Ok c) \<or> (\<exists>m. start_cursor E g cmd = Err (NodeNotFound m))"
    by (auto simp: start_cursor_def Let_def split: option.split)
  show ?thesis using start
  proof
    assume "\<exists>c. start_cursor E g cmd = Ok c"
    then obtain c where "start_cursor E g cmd = Ok c" by blast
    then show ?thesis using steps [of c] by (auto simp: execute_def rejects_def)
  qed (auto simp: execute_def)
qed

text \<open>The two first of all nodes, ordered by their key.\<close>

definition demo_command :: "int traversal_command" where
  "demo_command = \<lparr>tc_bindings = [], tc_start = \<lparr>ss_kind = ''AllNodes'', ss_label = ''N'', ss_key = '''', ss_value = JNull\<rparr>,
     tc_steps = [TraversalStep OrderBy None None None None None None (Some \<lparr>ob_key = Flat ''k'', ob_direction = Asc\<rparr>) None None None None,
       TraversalStep Limit None None None None (Some 2) None None None None None None],
     tc_collect = CollectNodes [''k''] None\<rparr>"

theorem commands_return_witness:
  "list_all (sortable demo_env (im_access demo_lib demo_memory)) (tc_steps demo_command) \<and>
   execute demo_env (im_access demo_lib demo_memory) demo_command = Ok (Rows [[(''k'', JString ''a'')], [(''k'', JString ''b'')]])"
proof -
  let ?g = "im_access demo_lib demo_memory" and ?o = "\<lparr>ob_key = Flat ''k'', ob_direction = Asc\<rparr>"
  have steps: "\<forall>s\<in>set (tc_steps demo_command). sortable demo_env ?g s" using demo_keys by (simp add: demo_command_def)
  have ns: "ga_all_nodes_of_label ?g ''N'' = [2, 1, 0]" by (simp add: im_access_def im_all_nodes_of_label_def demo_memory_values)
  have props: "ga_node_properties ?g 0 = Some [(''k'', JString ''b'')]" "ga_node_properties ?g 1 = Some [(''k'', JString ''a'')]"
      "ga_node_properties ?g 2 = Some [(''k'', JString ''b'')]"
    by (simp_all add: im_access_def demo_memory_values)
  have "order_cmp demo_env ?g ?o True 2 1 = Greater" "order_cmp demo_env ?g ?o True 2 0 = Equal" "order_cmp demo_env ?g ?o True 1 0 = Less"
    by (simp_all add: order_cmp_def item_props_def props ordering_of_def)
  then have "sort_by (order_cmp demo_env ?g ?o True) [2, 1, 0] = Ok [1, 2, 0]"
    using order_cmp_preorder [of demo_env ?g ?o True "[2, 1, 0]"] demo_keys by (simp add: sort_by_def)
  then have sorted: "apply_order_by demo_env ?g ?o (Nodes [2, 1, 0]) = Ok (Nodes [1, 2, 0])" by (simp add: apply_order_by_def)
  obtain r where "execute demo_env ?g demo_command = Ok r"
    using commands_return [OF steps] by (auto simp: execute_def demo_command_def start_cursor_def ns apply_step.simps sorted step_filters_def)
  then show ?thesis
    using steps by (auto simp: list_all_iff execute_def demo_command_def start_cursor_def ns apply_step.simps sorted step_filters_def
        collect_def collect_nodes_def props pick_properties_def map_cursor_def node_row_def map_filter_def put_def)
qed

text \<open>
  Keys of different types are all equal to the comparison, so that numbers on both sides of a string
  leave it without an order; the standard library allows the sort to panic then.
\<close>

theorem mixed_keys_have_no_order:
  assumes "cmp_values (env_lib E) (JNumber x) (JNumber y) = Some Greater"
    "resolve_key = (\<lambda>i. Option.bind (ga_node_properties g i) (resolve (ob_key spec)))"
    "resolve_key a = Some (JNumber x)" "resolve_key b = Some (JString t)" "resolve_key c = Some (JNumber y)" "ob_direction spec = Asc"
  shows "apply_order_by E g spec (Nodes [a, b, c]) = Panic"
proof -
  have o: "order_cmp E g spec True a b = Equal" "order_cmp E g spec True b c = Equal" "order_cmp E g spec True a c = Greater"
    using assms by (simp_all add: order_cmp_def item_props_def Let_def)
  have "\<not> total_preorder_on (order_cmp E g spec True) [a, b, c]"
  proof
    assume t: "total_preorder_on (order_cmp E g spec True) [a, b, c]"
    show False using preorderD(2) [OF t, of a b c] o by simp
  qed
  then show ?thesis by (simp add: apply_order_by_def sort_by_def)
qed

end
