(* ===== verification/Graph_Queries.thy ===== *)
theory Graph_Queries
  imports Graph_View Database_Properties Traversal_Properties
begin

text \<open>
  The read side of the open database. The integrity check finds nothing on a database that legal calls
  have built, and the view of the query engines navigates the graph that the database stands for, so
  that it keeps the contract of the trait \<open>GraphAccess\<close> on the nodes and edges in use.
\<close>

section \<open>The integrity check\<close>

lemma ok_opt_gok:
  assumes "gok J m G P"
  shows "gok J (ok_opt m) G (\<lambda>x G'. \<exists>y. x = Some y \<and> P y G')"
  unfolding ok_opt_def
  by (rule gok_bnd [OF gok_attempt [OF assms]]) (auto intro!: gok_ret)

lemma or_nil_gok:
  assumes "gok J m G P"
  shows "gok J (or_nil m) G P"
  unfolding or_nil_def
  by (rule gok_bnd [OF gok_attempt [OF assms]]) (auto intro!: gok_ret)

text \<open>The ends of every edge are nodes in use.\<close>

lemma check_edge_ends_gok:
  assumes rep: "pg_rep L D G A" and eids: "set eids \<subseteq> dom (g_edges G)"
  shows "gok J (check_edge_ends (dom (g_nodes G)) eids) G (\<lambda>ws G'. ws = [] \<and> G' = G)"
  using eids
proof (induction eids)
  case Nil
  show ?case unfolding check_edge_ends.simps by (rule gok_ret) simp
next
  case (Cons eid eids)
  obtain e where e: "g_edges G eid = Some e" using Cons.prems by auto
  then obtain a where a: "pg_edges A eid = Some a" using pg_repD(7) [OF rep, of eid] by auto
  have at: "edge_at L G eid a" by (rule pg_repD(6) [OF rep a])
  have live: "pg_nodes A (arc_end d a) \<noteq> None" for d using pg_repD(8) [OF rep] a unfolding arcs_ok_def by blast
  have "g_nodes G (from_node e) \<noteq> None" "g_nodes G (to_node e) \<noteq> None"
    using live [of Out] live [of In] at e pg_repD(5) [OF rep] by (auto simp: edge_at_def arc_end_def)
  then have m: "from_node e \<in> dom (g_nodes G)" "to_node e \<in> dom (g_nodes G)" by blast+
  show ?case
    unfolding check_edge_ends.simps
  proof (rule gok_bnd [OF ok_opt_gok [OF read_edge_gok [OF e]]], elim exE conjE, hypsubst)
    have tl: "set eids \<subseteq> dom (g_edges G)" using Cons.prems by simp
    show "gok J (bnd (check_edge_ends (dom (g_nodes G)) eids) (\<lambda>warnings. ret (case Some e of None \<Rightarrow> warnings
        | Some edge \<Rightarrow> (if from_node edge \<notin> dom (g_nodes G)
               then [''edge '' @ debug_rid eid @ '': from_node '' @ debug_rid (from_node edge) @ '' does not exist''] else []) @
              (if to_node edge \<notin> dom (g_nodes G)
               then [''edge '' @ debug_rid eid @ '': to_node '' @ debug_rid (to_node edge) @ '' does not exist''] else []) @
              warnings))) G (\<lambda>ws G'. ws = [] \<and> G' = G)"
      by (rule gok_bnd [OF Cons.IH [OF tl]], elim conjE, hypsubst, rule gok_ret) (simp add: m)
  qed
qed

text \<open>The walk over a list of distinct edges ends without meeting an edge again.\<close>

lemma chain_gok:
  assumes "chain (\<lambda>r. map_option (next_edge d) (g_edges G r)) start rs" "distinct rs" "set rs \<inter> visited = {}" "length rs \<le> left"
  shows "gok J (chain_has_cycle left d visited start) G (\<lambda>b G'. b = False \<and> G' = G)"
  using assms
proof (induction rs arbitrary: start left visited)
  case Nil
  then have "start = None" by simp
  then show ?case by (simp only: chain_has_cycle.simps) (rule gok_ret, simp)
next
  case (Cons r rs)
  obtain left' where left: "left = Suc left'" using Cons.prems(4) by (cases left) auto
  obtain e where e: "g_edges G r = Some e" "chain (\<lambda>r. map_option (next_edge d) (g_edges G r)) (next_edge d e) rs"
    and start: "start = Some r" using Cons.prems(1) by auto
  have new: "r \<notin> visited" using Cons.prems(3) by auto
  have p: "distinct rs" "set rs \<inter> insert r visited = {}" "length rs \<le> left'"
    using Cons.prems(2-4) left by auto
  have "gok J (bnd (ok_opt (read_edge r)) (\<lambda>x. chain_has_cycle left' d (insert r visited) (Option.bind x (next_edge d)))) G
      (\<lambda>b G'. b = False \<and> G' = G)"
  proof (rule gok_bnd [OF ok_opt_gok [OF read_edge_gok [OF e(1)]]], elim exE conjE, hypsubst)
    show "gok J (chain_has_cycle left' d (insert r visited) (Option.bind (Some e) (next_edge d))) G (\<lambda>b G'. b = False \<and> G' = G)"
      unfolding Option.bind.simps by (rule Cons.IH [OF e(2) p])
  qed
  then show ?case unfolding left start chain_has_cycle.simps using new by (simp only: if_False)
qed

lemma check_chains_gok:
  assumes wf: "gwf G" and "set nids \<subseteq> dom (g_nodes G)"
  shows "gok J (check_chains nids) G (\<lambda>ws G'. ws = [] \<and> G' = G)"
  using assms(2)
proof (induction nids)
  case Nil
  show ?case unfolding check_chains.simps by (rule gok_ret) simp
next
  case (Cons nid nids)
  obtain n where n: "g_nodes G nid = Some n" using Cons.prems by auto
  obtain S where S: "graph S (g_lists G)" "nodes S = g_nodes G" "edges S = g_edges G" using wf by (rule gwfE)
  have "Adjacency.heads S d nid = Some (first_edge d n)" for d using n S(2) by (simp add: Adjacency.heads_def)
  then have c: "chain (Adjacency.links S d) (first_edge d n) (g_lists G d nid)" "distinct (g_lists G d nid)" for d
    using listsD(1,2) [OF graphD(3) [OF S(1)]] by blast+
  have walk: "gok J (chain_has_cycle (MAX_LINKS + 1) d {} (first_edge d n)) G (\<lambda>b G'. b = False \<and> G' = G)" for d
    by (rule chain_gok [OF _ c(2) [of d]])
      (use c(1) [of d] distinct_rids [OF c(2) [of d]] in \<open>simp_all add: Adjacency.links_def [abs_def] S(3)\<close>)
  have w: "gok J (chain_has_cycle (MAX_LINKS + 1) Out {} (first_out_edge n)) G (\<lambda>b G'. b = False \<and> G' = G)"
      "gok J (chain_has_cycle (MAX_LINKS + 1) In {} (first_in_edge n)) G (\<lambda>b G'. b = False \<and> G' = G)"
    using walk [of Out] walk [of In] by (simp_all add: first_edge_def)
  have inner: "gok J (bnd (chain_has_cycle (MAX_LINKS + 1) Out {} (first_out_edge n)) (\<lambda>c_out.
      bnd (chain_has_cycle (MAX_LINKS + 1) In {} (first_in_edge n)) (\<lambda>c_in.
      ret ((if c_out then [''node '' @ debug_rid nid @ '': cycle in out_edge chain''] else []) @
           (if c_in then [''node '' @ debug_rid nid @ '': cycle in in_edge chain''] else []))))) G (\<lambda>ws G'. ws = [] \<and> G' = G)"
    by (rule gok_bnd [OF w(1)], elim conjE, hypsubst, rule gok_bnd [OF w(2)], elim conjE, hypsubst, rule gok_ret) simp
  have rest: "gok J (check_chains nids) G (\<lambda>ws G'. ws = [] \<and> G' = G)" using Cons by simp
  show ?case
    unfolding check_chains.simps
    by (rule gok_bnd [OF ok_opt_gok [OF read_node_gok [OF n]]], elim exE conjE, hypsubst, simp only: option.case,
        rule gok_bnd [OF inner], elim conjE, hypsubst, rule gok_bnd [OF rest], elim conjE, hypsubst, rule gok_ret) simp
qed

lemma verify_gok:
  assumes rep: "pg_rep L D G A"
  shows "gok J verify G (\<lambda>ws G'. ws = [] \<and> G' = G)"
proof (rule gspec_wf)
  assume wf: "gwf G"
  show ?thesis
    unfolding verify_def
  proof (rule gok_bnd [OF live_nodes_gok], elim conjE, hypsubst, rule gok_bnd [OF live_edges_gok], elim conjE, hypsubst)
    fix nids eids assume n: "set nids = dom (g_nodes G)" and e: "set eids = dom (g_edges G)"
    have c: "gok J (check_edge_ends (set nids) eids) G (\<lambda>ws G'. ws = [] \<and> G' = G)"
      using check_edge_ends_gok [OF rep, of eids] n e by simp
    have k: "gok J (check_chains (remdups nids)) G (\<lambda>ws G'. ws = [] \<and> G' = G)"
      by (rule check_chains_gok [OF wf]) (simp add: n)
    show "gok J (bnd (check_edge_ends (set nids) eids) (\<lambda>ws. bnd (check_chains (remdups nids)) (\<lambda>ws'. ret (ws @ ws')))) G
        (\<lambda>ws G'. ws = [] \<and> G' = G)"
      by (rule gok_bnd [OF c], elim conjE, hypsubst, rule gok_bnd [OF k], elim conjE, hypsubst, rule gok_ret) simp
  qed
qed

section \<open>The view\<close>

text \<open>A state of the view: its database is in the state \<open>G\<close>, and its registry is that of the schema.\<close>

definition view_at :: "json_codec \<Rightarrow> gstore \<Rightarrow> 'n graph_view \<Rightarrow> bool" where
  "view_at J G g \<longleftrightarrow> gstore_rep J (db_file (gv_db g)) G \<and> gv_registry g = map_option registry_in (g_schema G)"

definition view_rep :: "'n lib \<Rightarrow> json_codec \<Rightarrow> schema_dto option \<Rightarrow> 'n pgraph \<Rightarrow> 'n graph_view \<Rightarrow> bool" where
  "view_rep L J D A g \<longleftrightarrow> (\<exists>G. view_at J G g \<and> pg_rep L D G A)"

text \<open>A method of the view that reads: it returns a value and leaves the state.\<close>

definition reads :: "json_codec \<Rightarrow> gstore \<Rightarrow> ('n graph_view, 'a) op \<Rightarrow> ('a \<Rightarrow> bool) \<Rightarrow> bool" where
  "reads J G m P \<longleftrightarrow> (\<forall>g. view_at J G g \<longrightarrow> (\<exists>x g'. m g = (Ok x, g') \<and> view_at J G g' \<and> P x))"

lemma readsD:
  assumes "reads J G m P" "view_at J G g"
  obtains x g' where "m g = (Ok x, g')" "view_at J G g'" "P x"
  using assms unfolding reads_def by blast

lemma reads_ret: "P x \<Longrightarrow> reads J G (ret x) P"
  unfolding reads_def by (simp add: ret_def)

lemma reads_bnd:
  assumes "reads J G (m :: ('n graph_view, 'a) op) P" "\<And>x. P x \<Longrightarrow> reads J G (k x) Q"
  shows "reads J G (bnd m k) Q"
  unfolding reads_def
proof (intro allI impI)
  fix g :: "'n graph_view" assume "view_at J G g"
  from readsD [OF assms(1) this] obtain x g1 where 1: "m g = (Ok x, g1)" "view_at J G g1" "P x" .
  from readsD [OF assms(2) [OF 1(3)] 1(2)] obtain y g2 where "k x g1 = (Ok y, g2)" "view_at J G g2" "Q y" .
  then show "\<exists>y g'. bnd m k g = (Ok y, g') \<and> view_at J G g' \<and> Q y" using 1(1) by (auto simp: bnd_def)
qed

lemma reads_file:
  assumes "gok J m G (\<lambda>x G'. P x \<and> G' = G)"
  shows "reads J G (on_view_file m :: ('n graph_view, 'a) op) P"
  unfolding reads_def
proof (intro allI impI)
  fix g :: "'n graph_view" assume v: "view_at J G g"
  then have G: "gstore_rep J (db_file (gv_db g)) G" unfolding view_at_def by blast
  from gspecD [OF assms G] obtain x db' where m: "m (db_file (gv_db g)) = (Ok x, db')" "gstore_rep J db' G" "P x"
    by blast
  have "on_view_file m g = (Ok x, g\<lparr>gv_db := (gv_db g)\<lparr>db_file := db'\<rparr>\<rparr>)"
    by (simp add: on_view_file_def on_view_def on_db_def m(1))
  moreover have "view_at J G (g\<lparr>gv_db := (gv_db g)\<lparr>db_file := db'\<rparr>\<rparr>)"
    using v m(2) unfolding view_at_def by auto
  ultimately show "\<exists>x g'. on_view_file m g = (Ok x, g') \<and> view_at J G g' \<and> P x" using m(3) by blast
qed

lemma reads_registry: "reads J G (gets gv_registry) (\<lambda>r. r = map_option registry_in (g_schema G))"
  unfolding reads_def by (auto simp: view_at_def gets_def)

text \<open>The names of the types and labels of a node and of an edge.\<close>

definition node_names :: "schema_dto option \<Rightarrow> 'n vertex \<Rightarrow> string list" where
  "node_names D v = map (node_type_label (map_option registry_in D)) (all_types v)"

definition edge_names :: "schema_dto option \<Rightarrow> 'n arc \<Rightarrow> string list" where
  "edge_names D a = map (edge_type_label (map_option registry_in D)) (arc_types a)"

lemma extra_labels_gok:
  assumes own: "owned (ref_of G) (g_vals G)" and r: "ref_of G h = lref" and dec: "labels_dec L (att G h) ls"
  shows "gok J (extra_labels L lref) G (\<lambda>x G'. x = ls \<and> G' = G)"
proof (cases lref)
  case None
  then have "att G h = None" using r by (simp add: held_def)
  then show ?thesis using dec unfolding None extra_labels_def option.case by (intro gok_ret) (simp add: labels_dec_def)
next
  case (Some p)
  then have r: "ref_of G h = Some p" using r by simp
  show ?thesis
    unfolding Some extra_labels_def option.case read_raw_def
    by (rule or_nil_gok, rule gok_bnd [OF get_value_gok [OF own r]])
      (use dec in \<open>auto simp: labels_dec_def decode_label_list_def intro!: gspec_lift\<close>)
qed

lemma rid_id_inverse [simp]: "id_to_rid (rid_to_id rid) = rid"
proof -
  have "drop_bit 16 (rid_to_id rid) = (ucast (page_id rid) :: u64)"
    unfolding rid_to_id_def by (rule bit_word_eqI) (auto simp: bit_simps dest: bit_imp_le_length)
  moreover have "rid_to_id rid AND 0xFFFF = (ucast (slot_id rid) :: u64)"
  proof -
    have m: "(0xFFFF :: u64) = mask 16" by (simp add: mask_eq_exp_minus_1)
    show ?thesis unfolding rid_to_id_def m by (rule bit_word_eqI) (auto simp: bit_simps dest: bit_imp_le_length)
  qed
  moreover have "ucast (ucast p :: u64) = p" for p :: u32 by (rule bit_word_eqI) (auto simp: bit_simps)
  moreover have "ucast (ucast s :: u64) = s" for s :: u16 by (rule bit_word_eqI) (auto simp: bit_simps)
  ultimately show ?thesis unfolding id_to_rid_def by (simp add: rid_new_def)
qed

lemma rid_to_id_inj [simp]: "rid_to_id r = rid_to_id r' \<longleftrightarrow> r = r'"
  by (metis rid_id_inverse)

lemma read_vertex:
  assumes "pg_nodes A rid = Some v" "pg_rep L D G A"
  shows "\<exists>n. g_nodes G rid = Some n \<and> node_type_id n = v_type v \<and> owned (ref_of G) (g_vals G) \<and>
    ref_of G (NodeLabels rid) = n_label_ref n \<and> labels_dec L (att G (NodeLabels rid)) (v_labels v)"
proof -
  have at: "node_at L G rid v" by (rule pg_repD(4) [OF assms(2,1)])
  then obtain n where "g_nodes G rid = Some n" "node_type_id n = v_type v" unfolding node_at_def by blast
  then show ?thesis using at pg_repD(2) [OF assms(2)] unfolding node_at_def by auto
qed

lemma read_arc:
  assumes "pg_edges A rid = Some a" "pg_rep L D G A"
  shows "\<exists>e. g_edges G rid = Some e \<and> edge_type_id e = a_type a \<and> from_node e = a_from a \<and> to_node e = a_to a \<and> owned (ref_of G) (g_vals G) \<and>
    ref_of G (EdgeLabels rid) = e_label_ref e \<and> labels_dec L (att G (EdgeLabels rid)) (a_labels a)"
proof -
  have at: "edge_at L G rid a" by (rule pg_repD(6) [OF assms(2,1)])
  then obtain e where "g_edges G rid = Some e" "edge_type_id e = a_type a" "from_node e = a_from a" "to_node e = a_to a"
    unfolding edge_at_def by blast
  then show ?thesis using at pg_repD(2) [OF assms(2)] unfolding edge_at_def by auto
qed

text \<open>Reading the labels of a node and of an edge.\<close>

lemma reads_node:
  assumes "g_nodes G rid = Some n"
  shows "reads J G (on_view_file (ok_opt (read_node rid))) (\<lambda>r. r = Some n)"
  by (rule reads_file, rule gok_conseq [OF ok_opt_gok [OF read_node_gok [OF assms]]]) auto

lemma reads_edge:
  assumes "g_edges G rid = Some e"
  shows "reads J G (on_view_file (ok_opt (read_edge rid))) (\<lambda>r. r = Some e)"
  by (rule reads_file, rule gok_conseq [OF ok_opt_gok [OF read_edge_gok [OF assms]]]) auto

lemma reads_node_labels:
  assumes rep: "pg_rep L D G A" and v: "pg_nodes A rid = Some v"
  shows "reads J G (read_node_all_labels L (rid_to_id rid)) (\<lambda>ls. ls = node_names D v)"
proof -
  from read_vertex [OF v rep] obtain n where n: "g_nodes G rid = Some n" "node_type_id n = v_type v" "owned (ref_of G) (g_vals G)"
      "ref_of G (NodeLabels rid) = n_label_ref n" "labels_dec L (att G (NodeLabels rid)) (v_labels v)" by blast
  have l: "reads J G (on_view_file (extra_labels L (n_label_ref n))) (\<lambda>ls. ls = v_labels v)"
    by (rule reads_file [OF extra_labels_gok [OF n(3,4,5)]])
  have r: "map_option registry_in (g_schema G) = map_option registry_in D" using pg_repD(1) [OF rep] by simp
  show ?thesis
    unfolding read_node_all_labels_def rid_id_inverse
    by (rule reads_bnd [OF reads_node [OF n(1)]], hypsubst, simp only: option.case,
        rule reads_bnd [OF l], hypsubst, rule reads_bnd [OF reads_registry], hypsubst, rule reads_ret)
      (simp add: r n(2) node_names_def all_types_def)
qed

lemma reads_edge_labels:
  assumes rep: "pg_rep L D G A" and a: "pg_edges A rid = Some a"
  shows "reads J G (read_edge_all_labels L (rid_to_id rid)) (\<lambda>ls. ls = edge_names D a)"
proof -
  from read_arc [OF a rep] obtain e where e: "g_edges G rid = Some e" "edge_type_id e = a_type a" "owned (ref_of G) (g_vals G)"
      "ref_of G (EdgeLabels rid) = e_label_ref e" "labels_dec L (att G (EdgeLabels rid)) (a_labels a)" by blast
  have l: "reads J G (on_view_file (extra_labels L (e_label_ref e))) (\<lambda>ls. ls = a_labels a)"
    by (rule reads_file [OF extra_labels_gok [OF e(3,4,5)]])
  have r: "map_option registry_in (g_schema G) = map_option registry_in D" using pg_repD(1) [OF rep] by simp
  show ?thesis
    unfolding read_edge_all_labels_def rid_id_inverse
    by (rule reads_bnd [OF reads_edge [OF e(1)]], hypsubst, simp only: option.case,
        rule reads_bnd [OF l], hypsubst, rule reads_bnd [OF reads_registry], hypsubst, rule reads_ret)
      (simp add: r e(2) edge_names_def arc_types_def)
qed

text \<open>Filtering by a label.\<close>

definition named :: "(record_id \<Rightarrow> string list) \<Rightarrow> string option \<Rightarrow> record_id \<Rightarrow> bool" where
  "named names l rid \<longleftrightarrow> (case l of None \<Rightarrow> True | Some lb \<Rightarrow> lb \<in> set (names rid))"

lemma reads_filter:
  assumes "\<And>rid. rid \<in> set rids \<Longrightarrow> reads J G (labels_of (rid_to_id rid)) (\<lambda>ls. ls = names rid)"
  shows "reads J G (filter_labelled labels_of l (map rid_to_id rids)) (\<lambda>is. is = map rid_to_id (filter (named names l) rids))"
  using assms
proof (induction rids)
  case Nil
  show ?case unfolding list.map filter_labelled.simps by (rule reads_ret) simp
next
  case (Cons rid rids)
  have keep: "reads J G (case l of None \<Rightarrow> ret True | Some lb \<Rightarrow> bnd (labels_of (rid_to_id rid)) (\<lambda>ls. ret (lb \<in> set ls)))
      (\<lambda>b. b = named names l rid)"
  proof (cases l)
    case None
    show ?thesis unfolding None option.case by (rule reads_ret) (simp add: named_def)
  next
    case (Some lb)
    have "reads J G (labels_of (rid_to_id rid)) (\<lambda>ls. ls = names rid)" using Cons.prems by simp
    then show ?thesis unfolding Some option.case by (rule reads_bnd) (rule reads_ret, simp add: named_def)
  qed
  have rest: "reads J G (filter_labelled labels_of l (map rid_to_id rids)) (\<lambda>is. is = map rid_to_id (filter (named names l) rids))"
    using Cons by simp
  show ?case
    unfolding list.map filter_labelled.simps
    by (rule reads_bnd [OF keep], hypsubst, rule reads_bnd [OF rest], hypsubst, rule reads_ret) simp
qed

lemma reads_wf:
  assumes "gwf G \<Longrightarrow> reads J G m P"
  shows "reads J G m P"
  using assms unfolding reads_def view_at_def gwf_def by (meson gstore_repE)

text \<open>The listed edges of a node are edges in use that have the node as their end.\<close>

lemma adj_arc:
  assumes "gwf G" "pg_rep L D G A" "r \<in> set (pg_adj A d v)"
  shows "\<exists>a. pg_edges A r = Some a \<and> arc_end d a = v"
proof -
  have m: "r \<in> set (g_lists G d v)" using assms(3) pg_repD(3) [OF assms(2)] by simp
  obtain e where e: "g_edges G r = Some e" "end_of d e = v" using gwf_listed [OF assms(1) m] by blast
  then obtain a where a: "pg_edges A r = Some a" using pg_repD(7) [OF assms(2), of r] by auto
  from read_arc [OF a assms(2)] e show ?thesis using a by (cases d) (auto simp: arc_end_def end_of_def)
qed

definition names_of_edge :: "schema_dto option \<Rightarrow> 'n pgraph \<Rightarrow> record_id \<Rightarrow> string list" where
  "names_of_edge D A r = (case pg_edges A r of None \<Rightarrow> [] | Some a \<Rightarrow> edge_names D a)"

definition names_of_node :: "schema_dto option \<Rightarrow> 'n pgraph \<Rightarrow> record_id \<Rightarrow> string list" where
  "names_of_node D A r = (case pg_nodes A r of None \<Rightarrow> [] | Some v \<Rightarrow> node_names D v)"

lemma reads_chain:
  assumes wf: "gwf G" and rep: "pg_rep L D G A" and v: "pg_nodes A v \<noteq> None"
  shows "reads J G (bnd (on_view_file (or_nil (collect_edge_chain v d))) (\<lambda>edges.
      filter_labelled (read_edge_all_labels L) l (map (\<lambda>e. rid_to_id (e_id e)) edges)))
    (\<lambda>is. is = map rid_to_id (filter (named (names_of_edge D A) l) (pg_adj A d v)))"
proof (rule reads_bnd [OF reads_file [OF or_nil_gok [OF edge_records_gok [OF rep v]]]])
  fix es assume es: "map e_id es = pg_adj A d v"
  have "map (\<lambda>e. rid_to_id (e_id e)) es = map rid_to_id (map e_id es)" by simp
  then have m: "map (\<lambda>e. rid_to_id (e_id e)) es = map rid_to_id (pg_adj A d v)" unfolding es .
  show "reads J G (filter_labelled (read_edge_all_labels L) l (map (\<lambda>e. rid_to_id (e_id e)) es))
      (\<lambda>is. is = map rid_to_id (filter (named (names_of_edge D A) l) (pg_adj A d v)))"
    unfolding m
  proof (rule reads_filter)
    fix r assume "r \<in> set (pg_adj A d v)"
    then obtain a where a: "pg_edges A r = Some a" using adj_arc [OF wf rep] by blast
    show "reads J G (read_edge_all_labels L (rid_to_id r)) (\<lambda>ls. ls = names_of_edge D A r)"
      using reads_edge_labels [OF rep a] by (simp add: names_of_edge_def a)
  qed
qed

lemma reads_edges_of:
  assumes rep: "pg_rep L D G A" and v: "pg_nodes A v \<noteq> None"
  shows "reads J G (view_out_edges L (rid_to_id v) l) (\<lambda>is. is = map rid_to_id (filter (named (names_of_edge D A) l) (pg_adj A Out v)))"
    "reads J G (view_in_edges L (rid_to_id v) l) (\<lambda>is. is = map rid_to_id (filter (named (names_of_edge D A) l) (pg_adj A In v)))"
  unfolding view_out_edges_def view_in_edges_def collect_out_edges_def collect_in_edges_def rid_id_inverse
  by (rule reads_wf, erule reads_chain [OF _ rep v])+

lemma reads_ends:
  assumes rep: "pg_rep L D G A" and a: "pg_edges A r = Some a"
  shows "reads J G (edge_to_node (rid_to_id r)) (\<lambda>x. x = Some (rid_to_id (a_to a)))"
    "reads J G (edge_from_node (rid_to_id r)) (\<lambda>x. x = Some (rid_to_id (a_from a)))"
proof -
  from read_arc [OF a rep] obtain e where e: "g_edges G r = Some e" "from_node e = a_from a" "to_node e = a_to a" by blast
  show "reads J G (edge_to_node (rid_to_id r)) (\<lambda>x. x = Some (rid_to_id (a_to a)))"
    unfolding edge_to_node_def rid_id_inverse by (rule reads_bnd [OF reads_edge [OF e(1)]], hypsubst, rule reads_ret) (simp add: e(3))
  show "reads J G (edge_from_node (rid_to_id r)) (\<lambda>x. x = Some (rid_to_id (a_from a)))"
    unfolding edge_from_node_def rid_id_inverse by (rule reads_bnd [OF reads_edge [OF e(1)]], hypsubst, rule reads_ret) (simp add: e(2))
qed

lemma reads_primary_labels:
  assumes rep: "pg_rep L D G A"
  shows "pg_nodes A r = Some v \<Longrightarrow> reads J G (view_node_label (rid_to_id r)) (\<lambda>x. x = Some (hd (node_names D v)))"
    "pg_edges A r = Some a \<Longrightarrow> reads J G (view_edge_label (rid_to_id r)) (\<lambda>x. x = Some (hd (edge_names D a)))"
proof -
  have reg: "map_option registry_in (g_schema G) = map_option registry_in D" using pg_repD(1) [OF rep] by simp
  show "reads J G (view_node_label (rid_to_id r)) (\<lambda>x. x = Some (hd (node_names D v)))" if v: "pg_nodes A r = Some v"
  proof -
    from read_vertex [OF v rep] obtain n where n: "g_nodes G r = Some n" "node_type_id n = v_type v" by blast
    show ?thesis
      unfolding view_node_label_def rid_id_inverse
      by (rule reads_bnd [OF reads_node [OF n(1)]], hypsubst, rule reads_bnd [OF reads_registry], hypsubst, rule reads_ret)
        (simp add: n(2) reg node_names_def all_types_def)
  qed
  show "reads J G (view_edge_label (rid_to_id r)) (\<lambda>x. x = Some (hd (edge_names D a)))" if a: "pg_edges A r = Some a"
  proof -
    from read_arc [OF a rep] obtain e where e: "g_edges G r = Some e" "edge_type_id e = a_type a" by blast
    show ?thesis
      unfolding view_edge_label_def rid_id_inverse
      by (rule reads_bnd [OF reads_edge [OF e(1)]], hypsubst, rule reads_bnd [OF reads_registry], hypsubst, rule reads_ret)
        (simp add: e(2) reg edge_names_def arc_types_def)
  qed
qed

lemma reads_all_nodes:
  assumes rep: "pg_rep L D G A"
  shows "reads J G (all_nodes_of_label L label) (\<lambda>is. distinct is \<and>
    set is = {rid_to_id r | r. pg_nodes A r \<noteq> None \<and> (label = [] \<or> label \<in> set (names_of_node D A r))})"
  unfolding all_nodes_of_label_def
proof (rule reads_bnd [OF reads_file [OF or_nil_gok [OF gok_conseq [OF live_nodes_gok,
        where P' = "\<lambda>rs G'. (distinct rs \<and> set rs = dom (g_nodes G)) \<and> G' = G"]]]], blast, elim conjE)
  fix rids assume d: "distinct rids" and s: "set rids = dom (g_nodes G)"
  let ?l = "if label = [] then None else Some label"
  have "reads J G (filter_labelled (read_node_all_labels L) ?l (map rid_to_id rids)) (\<lambda>is. is = map rid_to_id (filter (named (names_of_node D A) ?l) rids))"
  proof (rule reads_filter)
    fix r assume "r \<in> set rids"
    then obtain v where v: "pg_nodes A r = Some v" using s pg_repD(5) [OF rep, of r] by auto
    show "reads J G (read_node_all_labels L (rid_to_id r)) (\<lambda>ls. ls = names_of_node D A r)"
      using reads_node_labels [OF rep v] by (simp add: names_of_node_def v)
  qed
  moreover have "inj_on rid_to_id (set (filter (named (names_of_node D A) ?l) rids))" by (rule inj_onI) simp
  then have "distinct (map rid_to_id (filter (named (names_of_node D A) ?l) rids))" using d by (simp add: distinct_map)
  moreover have "set (map rid_to_id (filter (named (names_of_node D A) ?l) rids)) =
      {rid_to_id r | r. pg_nodes A r \<noteq> None \<and> (label = [] \<or> label \<in> set (names_of_node D A r))}"
    using s pg_rep_dom [OF rep] by (auto simp: named_def)
  ultimately show "reads J G (filter_labelled (read_node_all_labels L) ?l (map rid_to_id rids)) (\<lambda>is. distinct is \<and>
      set is = {rid_to_id r | r. pg_nodes A r \<noteq> None \<and> (label = [] \<or> label \<in> set (names_of_node D A r))})"
    unfolding reads_def by (metis (no_types, lifting))
qed

section \<open>The contract\<close>

text \<open>\<open>replies m g x\<close>: the method \<open>m\<close> returns \<open>x\<close> and the view stands for the same graph.\<close>

definition replies :: "'n lib \<Rightarrow> json_codec \<Rightarrow> schema_dto option \<Rightarrow> 'n pgraph \<Rightarrow> ('n graph_view, 'a) op \<Rightarrow> 'n graph_view \<Rightarrow> 'a \<Rightarrow> bool" where
  "replies L J D A m g x \<longleftrightarrow> (\<exists>g'. m g = (Ok x, g') \<and> view_rep L J D A g')"

lemma reads_replies:
  assumes "view_rep L J D A g" "\<And>G. pg_rep L D G A \<Longrightarrow> reads J G m P"
  shows "\<exists>x. replies L J D A m g x \<and> P x"
proof -
  obtain G where G: "view_at J G g" "pg_rep L D G A" using assms(1) unfolding view_rep_def by blast
  from readsD [OF assms(2) [OF G(2)] G(1)] obtain x g' where "m g = (Ok x, g')" "view_at J G g'" "P x" .
  then show ?thesis using G(2) unfolding replies_def view_rep_def by blast
qed

lemma reads_reply: "view_rep L J D A g \<Longrightarrow> (\<And>G. pg_rep L D G A \<Longrightarrow> reads J G m (\<lambda>x. x = y)) \<Longrightarrow> replies L J D A m g y"
  using reads_replies [of L J D A g m "\<lambda>x. x = y"] by blast

text \<open>Loading the view.\<close>

lemma load_view_rep:
  assumes "gstore_rep J (db_file d) G" "pg_rep L D G A"
  shows "\<exists>g d'. load_view J d = (Ok g, d') \<and> view_rep L J D A g"
proof -
  have "gok J (registry_opt J) G (\<lambda>r G'. r = map_option registry_in (g_schema G) \<and> G' = G)"
    unfolding registry_opt_def
    by (rule gok_bnd [OF attempt_registry_gok], elim conjE, hypsubst, rule gok_ret) (simp split: option.split)
  from gspecD [OF this assms(1)] obtain db' where m: "registry_opt J (db_file d) = (Ok (map_option registry_in (g_schema G)), db')"
      "gstore_rep J db' G" by blast
  then show ?thesis using assms(2) by (auto simp: load_view_def on_db_def view_rep_def view_at_def)
qed

text \<open>
  The trait methods in a state of the view, as the record of methods that the executor of traversals
  takes. A method may leave other pages in the cache and other properties in the maps of the view, but
  the view goes on standing for the same graph. The methods turn the errors of the database into
  \<open>None\<close> or an empty list themselves; nothing is said of the reply of a method that panics.
\<close>

definition reply_of :: "('n graph_view, 'a) op \<Rightarrow> 'n graph_view \<Rightarrow> 'a" where
  "reply_of m g = projr (fst (m g))"

lemma reply_of_replies: "replies L J D A m g y \<Longrightarrow> reply_of m g = y"
  by (auto simp: replies_def reply_of_def)

definition view_access :: "'n lib \<Rightarrow> json_codec \<Rightarrow> 'n graph_view \<Rightarrow> 'n graph_access" where
  "view_access L J g =
     \<lparr>ga_find_node = (\<lambda>label key v. reply_of (find_node_by L J label key v) g),
      ga_all_nodes_of_label = (\<lambda>label. reply_of (all_nodes_of_label L label) g),
      ga_all_edges_of_label = (\<lambda>label. reply_of (all_edges_of_label L label) g),
      ga_node_properties = (\<lambda>i. reply_of (view_node_properties L J i) g),
      ga_node_label = (\<lambda>i. reply_of (view_node_label i) g),
      ga_node_labels = (\<lambda>i. reply_of (view_node_labels L i) g),
      ga_out_edges = (\<lambda>i label. reply_of (view_out_edges L i label) g),
      ga_in_edges = (\<lambda>i label. reply_of (view_in_edges L i label) g),
      ga_edge_to_node = (\<lambda>i. reply_of (edge_to_node i) g),
      ga_edge_from_node = (\<lambda>i. reply_of (edge_from_node i) g),
      ga_edge_label = (\<lambda>i. reply_of (view_edge_label i) g),
      ga_edge_properties = (\<lambda>i. reply_of (view_edge_properties L J i) g),
      ga_apply_custom_filter = (\<lambda>_ candidates. map fst candidates)\<rparr>"

definition edge_carries :: "schema_dto option \<Rightarrow> 'n pgraph \<Rightarrow> u64 \<Rightarrow> string \<Rightarrow> bool" where
  "edge_carries D A i lb \<longleftrightarrow> lb \<in> set (names_of_edge D A (id_to_rid i))"

lemma named_iff: "named names l r \<longleftrightarrow> (\<forall>lb. l = Some lb \<longrightarrow> lb \<in> set (names r))"
  by (simp add: named_def split: option.split)

lemma view_rep_wf:
  assumes "view_rep L J D A g"
  shows "r \<in> set (pg_adj A d v) \<longleftrightarrow> (\<exists>a. pg_edges A r = Some a \<and> arc_end d a = v)"
    "pg_edges A r = Some a \<Longrightarrow> pg_nodes A (arc_end d a) \<noteq> None"
proof -
  obtain G where G: "view_at J G g" "pg_rep L D G A" using assms unfolding view_rep_def by blast
  have wf: "gwf G" using G(1) unfolding view_at_def gwf_def by (meson gstore_repE)
  note ok = pg_repD(8) [OF G(2)]
  show "r \<in> set (pg_adj A d v) \<longleftrightarrow> (\<exists>a. pg_edges A r = Some a \<and> arc_end d a = v)"
    using adj_arc [OF wf G(2), of r d v] ok unfolding arcs_ok_def by blast
  show "pg_edges A r = Some a \<Longrightarrow> pg_nodes A (arc_end d a) \<noteq> None" using ok unfolding arcs_ok_def by blast
qed

lemma view_replies:
  assumes "view_rep L J D A g"
  shows "pg_nodes A v \<noteq> None \<Longrightarrow> replies L J D A (view_out_edges L (rid_to_id v) l) g (map rid_to_id (filter (named (names_of_edge D A) l) (pg_adj A Out v)))"
    "pg_nodes A v \<noteq> None \<Longrightarrow> replies L J D A (view_in_edges L (rid_to_id v) l) g (map rid_to_id (filter (named (names_of_edge D A) l) (pg_adj A In v)))"
    "pg_edges A r = Some a \<Longrightarrow> replies L J D A (edge_to_node (rid_to_id r)) g (Some (rid_to_id (a_to a)))"
    "pg_edges A r = Some a \<Longrightarrow> replies L J D A (edge_from_node (rid_to_id r)) g (Some (rid_to_id (a_from a)))"
    "pg_nodes A v = Some x \<Longrightarrow> replies L J D A (view_node_labels L (rid_to_id v)) g (node_names D x)"
    "pg_nodes A v = Some x \<Longrightarrow> replies L J D A (view_node_label (rid_to_id v)) g (Some (hd (node_names D x)))"
    "pg_edges A r = Some a \<Longrightarrow> replies L J D A (view_edge_label (rid_to_id r)) g (Some (hd (edge_names D a)))"
  unfolding view_node_labels_def
  by (rule reads_reply [OF assms], erule reads_edges_of reads_ends reads_node_labels reads_primary_labels, assumption)+

lemma view_contract:
  assumes "view_rep L J D A g"
  shows "graph_contract (view_access L J g) (edge_carries D A) (rid_to_id ` dom (pg_nodes A)) (rid_to_id ` dom (pg_edges A))"
proof -
  note R = view_replies [OF assms]
  have out: "ga_out_edges (view_access L J g) (rid_to_id v) l = map rid_to_id (filter (named (names_of_edge D A) l) (pg_adj A Out v))"
      "ga_in_edges (view_access L J g) (rid_to_id v) l = map rid_to_id (filter (named (names_of_edge D A) l) (pg_adj A In v))"
    if "pg_nodes A v \<noteq> None" for v l
    using reply_of_replies [OF R(1) [OF that]] reply_of_replies [OF R(2) [OF that]] by (simp_all add: view_access_def)
  have ends: "ga_edge_to_node (view_access L J g) (rid_to_id r) = Some (rid_to_id (a_to a))"
      "ga_edge_from_node (view_access L J g) (rid_to_id r) = Some (rid_to_id (a_from a))" if "pg_edges A r = Some a" for r a
    using reply_of_replies [OF R(3) [OF that]] reply_of_replies [OF R(4) [OF that]] by (simp_all add: view_access_def)
  note W = view_rep_wf [OF assms]
  show ?thesis
  proof unfold_locales
    fix n e l assume "n \<in> rid_to_id ` dom (pg_nodes A)"
    then obtain v where v: "n = rid_to_id v" "pg_nodes A v \<noteq> None" by auto
    show "e \<in> set (ga_out_edges (view_access L J g) n l) \<longleftrightarrow> e \<in> rid_to_id ` dom (pg_edges A) \<and>
        ga_edge_from_node (view_access L J g) e = Some n \<and> (\<forall>lb. l = Some lb \<longrightarrow> edge_carries D A e lb)"
      unfolding v(1) out(1) [OF v(2)] using W(1) [of _ Out v] ends(2)
      by (fastforce simp: named_iff edge_carries_def arc_end_def)
    show "e \<in> set (ga_in_edges (view_access L J g) n l) \<longleftrightarrow> e \<in> rid_to_id ` dom (pg_edges A) \<and>
        ga_edge_to_node (view_access L J g) e = Some n \<and> (\<forall>lb. l = Some lb \<longrightarrow> edge_carries D A e lb)"
      unfolding v(1) out(2) [OF v(2)] using W(1) [of _ In v] ends(1)
      by (fastforce simp: named_iff edge_carries_def arc_end_def)
  next
    fix e n assume "e \<in> rid_to_id ` dom (pg_edges A)"
    then obtain r a where r: "e = rid_to_id r" "pg_edges A r = Some a" by auto
    show "n \<in> rid_to_id ` dom (pg_nodes A)" if "ga_edge_from_node (view_access L J g) e = Some n"
      using that W(2) [OF r(2), of Out] unfolding r(1) ends(2) [OF r(2)] by (auto simp: arc_end_def)
    show "n \<in> rid_to_id ` dom (pg_nodes A)" if "ga_edge_to_node (view_access L J g) e = Some n"
      using that W(2) [OF r(2), of In] unfolding r(1) ends(1) [OF r(2)] by (auto simp: arc_end_def)
  qed
qed

section \<open>A database with an edge\<close>

lemma nine: "decimal 9 = ''9''"
  by (simp add: decimal.simps [of 9] char_of_def bit_0)

definition demo_edge_graph :: "record_id \<Rightarrow> record_id \<Rightarrow> int pgraph" where
  "demo_edge_graph a e = link_arc e \<lparr>a_type = 9, a_labels = [], a_from = a, a_to = a, a_props = map_of age42\<rparr> (demo_graph a)"

lemma demo_edge_run:
  obtains a e db where "represents demo_lib unique_codec 10 db (Some unique_dto) (demo_edge_graph a e) 970"
    "pg_nodes (demo_edge_graph a e) a = Some \<lparr>v_type = 1, v_labels = [], v_props = map_of age42\<rparr>"
    "run_db demo_lib unique_codec (demo_calls @ [InsertEdge 9 a a age42]) create_in_memory =
       ([SchemaReply (Saved (Ok ())), Made (Ok a), Made (Ok e)], db)"
proof (rule demo_memory)
  fix a db0
  assume run: "run_db demo_lib unique_codec demo_calls create_in_memory = ([SchemaReply (Saved (Ok ())), Made (Ok a)], db0)"
    and rep: "represents demo_lib unique_codec 10 db0 (Some unique_dto) (demo_graph a) 980"
  let ?c = "InsertEdge 9 a a age42 :: int db_call"
  have l: "db_legal demo_lib unique_codec 10 (Some unique_dto) (demo_graph a) ?c" by (simp add: demo_props_legal)
  have le: "(10 :: nat) \<le> 980" by simp
  obtain r db A where s: "db_step demo_lib unique_codec ?c db0 = (r, db)" "db_answer demo_lib (Some unique_dto) (demo_graph a) ?c r A"
      "represents demo_lib unique_codec 10 db (schema_next (Some unique_dto) ?c) A (980 - 10)"
    using legal_step [OF rep l le] by blast
  have D: "schema_next (Some unique_dto) ?c = Some unique_dto" by (simp add: schema_next_def)
  obtain e where e: "r = Made (Ok e)" "A = demo_edge_graph a e"
    using s(2) by (auto simp: insert_edge_spec_def demo_edge_graph_def demo_graph_def)
  have "represents demo_lib unique_codec 10 db (Some unique_dto) (demo_edge_graph a e) 970" using s(3) D e(2) by simp
  moreover have "pg_nodes (demo_edge_graph a e) a = Some \<lparr>v_type = 1, v_labels = [], v_props = map_of age42\<rparr>"
    by (simp add: demo_edge_graph_def demo_graph_def link_arc_def)
  moreover have "run_db demo_lib unique_codec (demo_calls @ [?c]) create_in_memory = ([SchemaReply (Saved (Ok ())), Made (Ok a), Made (Ok e)], db)"
    using run s(1) e(1) by (auto split: prod.splits)
  ultimately show ?thesis by (rule that)
qed

section \<open>Properties\<close>

text \<open>
  C12: the integrity check finds nothing. On a database that stands for a graph, which every run of legal
  calls keeps, \<open>verify\<close> returns the empty list: no edge has an end that does not exist and no list of
  edges runs into itself; it does not change what the database stands for.
\<close>

theorem verify_finds_nothing:
  assumes "represents L J b db D A room"
  shows "\<exists>db'. verify db = (Ok [], db') \<and> represents L J b db' D A room"
proof -
  from assms obtain G where G: "gstore_rep J db G" "pg_rep L D G A" "room \<le> g_room G" "indexes_bounded D b" by (rule representsE)
  from gspecD [OF verify_gok [OF G(2), of J] G(1)] obtain db' where v: "verify db = (Ok [], db')" "gstore_rep J db' G" by blast
  then show ?thesis unfolding represents_def using G by blast
qed

theorem verify_finds_nothing_witness:
  "\<exists>a e db db'. run_db demo_lib unique_codec (demo_calls @ [InsertEdge 9 a a age42]) create_in_memory =
      ([SchemaReply (Saved (Ok ())), Made (Ok a), Made (Ok e)], db) \<and> verify db = (Ok [], db')"
proof (rule demo_edge_run)
  fix a e db
  assume "represents demo_lib unique_codec 10 db (Some unique_dto) (demo_edge_graph a e) 970"
    and run: "run_db demo_lib unique_codec (demo_calls @ [InsertEdge 9 a a age42]) create_in_memory =
      ([SchemaReply (Saved (Ok ())), Made (Ok a), Made (Ok e)], db)"
  from verify_finds_nothing [OF this(1)] run show ?thesis by blast
qed

text \<open>
  C11: the view navigates the graph. For a node in use the outgoing and incoming edges are those of its
  adjacency lists that carry the label asked for, as their type or as an additional label, in the order
  of the lists; an edge in use leads to its two ends; the labels are the names of the type and of the
  additional labels; and the nodes of a label are exactly the nodes in use that carry it, each once.
  Whatever is asked, the view stands for the same graph afterwards.
\<close>

theorem view_navigates:
  assumes "view_rep L J D A g"
  shows "(pg_nodes A v = Some x \<longrightarrow>
      replies L J D A (view_out_edges L (rid_to_id v) l) g (map rid_to_id (filter (named (names_of_edge D A) l) (pg_adj A Out v))) \<and>
      replies L J D A (view_in_edges L (rid_to_id v) l) g (map rid_to_id (filter (named (names_of_edge D A) l) (pg_adj A In v))) \<and>
      replies L J D A (view_node_labels L (rid_to_id v)) g (node_names D x) \<and>
      replies L J D A (view_node_label (rid_to_id v)) g (Some (hd (node_names D x)))) \<and>
    (pg_edges A r = Some a \<longrightarrow>
      replies L J D A (edge_from_node (rid_to_id r)) g (Some (rid_to_id (a_from a))) \<and>
      replies L J D A (edge_to_node (rid_to_id r)) g (Some (rid_to_id (a_to a))) \<and>
      replies L J D A (view_edge_label (rid_to_id r)) g (Some (hd (edge_names D a)))) \<and>
    (\<exists>is. replies L J D A (all_nodes_of_label L label) g is \<and> distinct is \<and>
      set is = {rid_to_id u | u. pg_nodes A u \<noteq> None \<and> (label = [] \<or> label \<in> set (names_of_node D A u))})"
proof -
  have n: "pg_nodes A v = Some x \<Longrightarrow> pg_nodes A v \<noteq> None" by simp
  show ?thesis
    using view_replies(1,2) [OF assms n] view_replies(3-7) [OF assms] reads_replies [OF assms reads_all_nodes] by blast
qed

theorem view_navigates_witness:
  "\<exists>a e db g d'. run_db demo_lib unique_codec (demo_calls @ [InsertEdge 9 a a age42]) create_in_memory =
      ([SchemaReply (Saved (Ok ())), Made (Ok a), Made (Ok e)], db) \<and>
    load_view unique_codec (new_database db) = (Ok g, d') \<and>
    fst (view_out_edges demo_lib (rid_to_id a) (Some ''9'') g) = Ok [rid_to_id e] \<and>
    fst (view_node_labels demo_lib (rid_to_id a) g) = Ok [''User'']"
proof (rule demo_edge_run)
  fix a e db
  assume rep: "represents demo_lib unique_codec 10 db (Some unique_dto) (demo_edge_graph a e) 970"
    and node: "pg_nodes (demo_edge_graph a e) a = Some \<lparr>v_type = 1, v_labels = [], v_props = map_of age42\<rparr>"
    and run: "run_db demo_lib unique_codec (demo_calls @ [InsertEdge 9 a a age42]) create_in_memory =
      ([SchemaReply (Saved (Ok ())), Made (Ok a), Made (Ok e)], db)"
  from rep obtain G where G: "gstore_rep unique_codec db G" "pg_rep demo_lib (Some unique_dto) G (demo_edge_graph a e)" by (rule representsE)
  have "gstore_rep unique_codec (db_file (new_database db)) G" using G(1) by (simp add: new_database_def)
  from load_view_rep [OF this G(2)] obtain g d' where g: "load_view unique_codec (new_database db) = (Ok g, d')"
      "view_rep demo_lib unique_codec (Some unique_dto) (demo_edge_graph a e) g" by blast
  note V = view_navigates [OF g(2), of a "\<lparr>v_type = 1, v_labels = [], v_props = map_of age42\<rparr>" "Some ''9''", THEN conjunct1, rule_format, OF node]
  have adj: "pg_adj (demo_edge_graph a e) Out a = [e]"
    by (simp add: demo_edge_graph_def link_arc_def demo_graph_def empty_pgraph_def set_vertex_def arc_end_def)
  have names: "names_of_edge (Some unique_dto) (demo_edge_graph a e) e = [''9'']"
    by (simp add: names_of_edge_def demo_edge_graph_def link_arc_def edge_names_def arc_types_def edge_type_label_def unique_registry
      edge_type_name_def from_assignments_def insert_all_def nine)
  have "fst (view_out_edges demo_lib (rid_to_id a) (Some ''9'') g) = Ok [rid_to_id e]"
    using V by (auto simp: replies_def adj named_def names)
  moreover have "fst (view_node_labels demo_lib (rid_to_id a) g) = Ok [''User'']"
    using V by (auto simp: replies_def node_names_def all_types_def node_type_label_def unique_registry
        node_type_name_def from_assignments_def insert_all_def)
  ultimately show ?thesis using g(1) run by blast
qed

text \<open>
  C13: a traversal of the database can be turned around. On a view of a database that stands for a graph,
  for nodes \<open>x\<close> and \<open>y\<close> in use, \<open>y\<close> is reached from \<open>x\<close> by at most \<open>d\<close> outgoing edges of a label (a type
  or an additional label) exactly when \<open>x\<close> is reached from \<open>y\<close> by at most \<open>d\<close> incoming ones.
\<close>

theorem database_inbound_inverts_outbound:
  assumes "view_rep L J D A g" "pg_nodes A x \<noteq> None" "pg_nodes A y \<noteq> None"
  shows "\<exists>rs qs. apply_step E (view_access L J g) bindings (repeat_step (hop_out l) d) (Nodes [rid_to_id x]) = Ok (Nodes rs) \<and>
     apply_step E (view_access L J g) bindings (repeat_step (hop_in l) d) (Nodes [rid_to_id y]) = Ok (Nodes qs) \<and>
     (rid_to_id y \<in> set rs \<longleftrightarrow> rid_to_id x \<in> set qs)"
  by (rule graph_contract.inbound_inverts [OF view_contract [OF assms(1)]]) (use assms(2,3) in auto)

theorem database_inbound_inverts_outbound_witness:
  "\<exists>a e db g d' rs. run_db demo_lib unique_codec (demo_calls @ [InsertEdge 9 a a age42]) create_in_memory =
      ([SchemaReply (Saved (Ok ())), Made (Ok a), Made (Ok e)], db) \<and>
    load_view unique_codec (new_database db) = (Ok g, d') \<and>
    apply_step demo_env (view_access demo_lib unique_codec g) [] (repeat_step (hop_out (Some ''9'')) 3) (Nodes [rid_to_id a]) = Ok (Nodes rs)"
proof (rule demo_edge_run)
  fix a e db
  assume rep: "represents demo_lib unique_codec 10 db (Some unique_dto) (demo_edge_graph a e) 970"
    and node: "pg_nodes (demo_edge_graph a e) a = Some \<lparr>v_type = 1, v_labels = [], v_props = map_of age42\<rparr>"
    and run: "run_db demo_lib unique_codec (demo_calls @ [InsertEdge 9 a a age42]) create_in_memory =
      ([SchemaReply (Saved (Ok ())), Made (Ok a), Made (Ok e)], db)"
  from rep obtain G where G: "gstore_rep unique_codec db G" "pg_rep demo_lib (Some unique_dto) G (demo_edge_graph a e)" by (rule representsE)
  have "gstore_rep unique_codec (db_file (new_database db)) G" using G(1) by (simp add: new_database_def)
  from load_view_rep [OF this G(2)] obtain g d' where g: "load_view unique_codec (new_database db) = (Ok g, d')"
      "view_rep demo_lib unique_codec (Some unique_dto) (demo_edge_graph a e) g" by blast
  have n: "pg_nodes (demo_edge_graph a e) a \<noteq> None" using node by simp
  show ?thesis using database_inbound_inverts_outbound [OF g(2) n n, of demo_env "[]" "Some ''9''" 3] g(1) run by blast
qed

end
