(* ===== verification/Connection.thy ===== *)
theory Connection
  imports Graph_Queries
begin

text \<open>
  The API (\<^verbatim>\<open>api/mod.rs\<close>): a connection owns a database, until it is closed, and the snapshot of a
  pending transaction. Its methods parse their arguments, call the method of \<^verbatim>\<open>Database\<close> and turn
  errors into their messages. A request that is JSON text is parsed by \<open>from_str\<close>, which gives the
  message of the parse error or the value; a reply that is JSON text is given as the value that is
  printed.
\<close>

section \<open>Errors as messages\<close>

datatype api_abort = Message string | ApiPanicked | ApiDiverged

type_synonym ('s, 'a) api_op = "'s \<Rightarrow> (api_abort + 'a) \<times> 's"

text \<open>The messages of \<^verbatim>\<open>error.rs\<close>; \<open>io\<close> prints an error of the operating system.\<close>

fun error_text :: "(io_kind \<Rightarrow> string) \<Rightarrow> graph_error \<Rightarrow> string" where
  "error_text io (NodeNotFound s) = ''Node not found: '' @ s"
| "error_text io (EdgeNotFound s) = ''Edge not found: '' @ s"
| "error_text io (SchemaError s) = ''Schema error: '' @ s"
| "error_text io (StorageCorrupted p) = ''Storage corrupted at page '' @ decimal (unat p)"
| "error_text io PropertySlotFreed = ''Property slot has been freed''"
| "error_text io (UnsupportedVersion found supported) =
     ''Unsupported file format version: found '' @ decimal (unat found) @ '', supported '' @ decimal (unat supported)"
| "error_text io (InvalidCommand s) = ''Invalid traversal command: '' @ s"
| "error_text io (TypeMismatch expected actual) = ''Type mismatch: expected '' @ expected @ '', got '' @ actual"
| "error_text io (ValidationError s) = ''Validation error: '' @ s"
| "error_text io (UniqueViolation field value) =
     ''Unique constraint violation on '' @ [CHR 0x27] @ field @ [CHR 0x27] @ '': value '' @ value @ '' already exists''"
| "error_text io (IoError k) = ''IO error: '' @ io k"

definition map_err :: "(io_kind \<Rightarrow> string) \<Rightarrow> 'a res \<Rightarrow> api_abort + 'a" where
  "map_err io r =
     (case r of
        Inl (Failed e) \<Rightarrow> Inl (Message (error_text io e))
      | Inl Panicked \<Rightarrow> Inl ApiPanicked
      | Inl Diverged \<Rightarrow> Inl ApiDiverged
      | Inr x \<Rightarrow> Inr x)"

definition api_bnd :: "('s, 'a) api_op \<Rightarrow> ('a \<Rightarrow> ('s, 'b) api_op) \<Rightarrow> ('s, 'b) api_op" where
  "api_bnd m f s = (case m s of (Inl e, s) \<Rightarrow> (Inl e, s) | (Inr x, s) \<Rightarrow> f x s)"

definition api_ret :: "'a \<Rightarrow> ('s, 'a) api_op" where
  "api_ret x s = (Inr x, s)"

definition api_fail :: "string \<Rightarrow> ('s, 'a) api_op" where
  "api_fail message s = (Inl (Message message), s)"

text \<open>\<open>serde_json::from_str(..).map_err(..)?\<close>\<close>

definition parsed :: "string + 'a \<Rightarrow> ('a \<Rightarrow> ('s, 'b) api_op) \<Rightarrow> ('s, 'b) api_op" where
  "parsed r f = (case r of Inl message \<Rightarrow> api_fail message | Inr x \<Rightarrow> f x)"

section \<open>Connections\<close>

record connection =
  conn_inner :: "database option"
  conn_pending :: "db_snapshot option"

text \<open>\<open>self.db_mut()?.method(..).map_err(|e| e.to_string())\<close>\<close>

definition with_db :: "(io_kind \<Rightarrow> string) \<Rightarrow> (database, 'a) op \<Rightarrow> (connection, 'a) api_op" where
  "with_db io m c =
     (case conn_inner c of
        None \<Rightarrow> (Inl (Message ''connection is already closed''), c)
      | Some d \<Rightarrow> (case m d of (r, d') \<Rightarrow> (map_err io r, c\<lparr>conn_inner := Some d'\<rparr>)))"

definition with_file :: "(io_kind \<Rightarrow> string) \<Rightarrow> (database_file, 'a) op \<Rightarrow> (connection, 'a) api_op" where
  "with_file io m = with_db io (on_db m)"

definition connect :: "database \<Rightarrow> connection" where
  "connect d = \<lparr>conn_inner = Some d, conn_pending = None\<rparr>"

definition on_opened :: "(io_kind \<Rightarrow> string) \<Rightarrow> (world, database) op \<Rightarrow> (world, connection) api_op" where
  "on_opened io m w = (case m w of (r, w) \<Rightarrow> (case map_err io r of Inl e \<Rightarrow> (Inl e, w) | Inr d \<Rightarrow> (Inr (connect d), w)))"

definition conn_open :: "(io_kind \<Rightarrow> string) \<Rightarrow> (path \<Rightarrow> path) \<Rightarrow> path \<Rightarrow> (world, connection) api_op" where
  "conn_open io real p = on_opened io (db_open real p)"

definition conn_open_with_max_memory :: "(io_kind \<Rightarrow> string) \<Rightarrow> (path \<Rightarrow> path) \<Rightarrow> path \<Rightarrow> nat \<Rightarrow> (world, connection) api_op" where
  "conn_open_with_max_memory io real p max_memory_bytes = on_opened io (db_open_with_options real p max_memory_bytes)"

definition conn_create :: "(io_kind \<Rightarrow> string) \<Rightarrow> (path \<Rightarrow> path) \<Rightarrow> path \<Rightarrow> (world, connection) api_op" where
  "conn_create io real p = on_opened io (db_create real p)"

definition conn_create_with_max_memory :: "(io_kind \<Rightarrow> string) \<Rightarrow> (path \<Rightarrow> path) \<Rightarrow> path \<Rightarrow> nat \<Rightarrow> (world, connection) api_op" where
  "conn_create_with_max_memory io real p max_memory_bytes = on_opened io (db_create_with_options real p max_memory_bytes)"

definition conn_open_in_memory :: connection where
  "conn_open_in_memory = connect open_in_memory"

section \<open>Transactions\<close>

definition begin_transaction :: "(io_kind \<Rightarrow> string) \<Rightarrow> (connection, unit) api_op" where
  "begin_transaction io c =
     (if conn_pending c \<noteq> None then api_fail ''transaction already in progress'' c
      else api_bnd (with_db io (\<lambda>d. (Ok (take_snapshot d), d))) (\<lambda>snap c. (Inr (), c\<lparr>conn_pending := Some snap\<rparr>)) c)"

definition commit_transaction :: "(io_kind \<Rightarrow> string) \<Rightarrow> (connection, unit) api_op" where
  "commit_transaction io c =
     (if conn_pending c = None then api_fail ''no transaction in progress'' c
      else with_db io db_flush (c\<lparr>conn_pending := None\<rparr>))"

definition rollback_transaction :: "(io_kind \<Rightarrow> string) \<Rightarrow> (connection, unit) api_op" where
  "rollback_transaction io c =
     (case conn_pending c of
        None \<Rightarrow> api_fail ''no transaction in progress'' c
      | Some snap \<Rightarrow> with_db io (\<lambda>d. (Ok (), restore_snapshot snap d)) (c\<lparr>conn_pending := None\<rparr>))"

text \<open>\<open>drop\<close> of a \<open>Transaction\<close>, the guard over these methods; one that is committed has no snapshot left.\<close>

definition drop_transaction :: "(io_kind \<Rightarrow> string) \<Rightarrow> connection \<Rightarrow> connection" where
  "drop_transaction io c = snd (rollback_transaction io c)"

text \<open>Closing rolls a pending transaction back, flushes, and drops the database, flushed or not.\<close>

definition conn_close :: "(io_kind \<Rightarrow> string) \<Rightarrow> (path \<Rightarrow> path) \<Rightarrow> (world \<times> connection, unit) api_op" where
  "conn_close io real wc =
     (let w = fst wc; c = snd (rollback_transaction io (snd wc)) in
      case conn_inner c of
        None \<Rightarrow> (Inr (), (w, c))
      | Some d \<Rightarrow> (case db_flush d of (r, d) \<Rightarrow>
          (map_err io r, (drop_database real (db_file d) w, c\<lparr>conn_inner := None\<rparr>))))"

section \<open>Replies\<close>

definition rid_json :: "'n lib \<Rightarrow> record_id \<Rightarrow> 'n json" where
  "rid_json L rid =
     JObject [(''page'', JNumber (from_i64 L (ucast (page_id rid)))), (''slot'', JNumber (from_i64 L (ucast (slot_id rid))))]"

definition conversion_mode :: "bool \<Rightarrow> on_conversion_failure" where
  "conversion_mode null_on_failure = (if null_on_failure then SetNull else Reject)"

definition field_type_change_to_json :: "'n lib \<Rightarrow> field_type_change \<Rightarrow> 'n json" where
  "field_type_change_to_json L outcome =
     JObject
       [(''applied'', JBool (fc_applied outcome)), (''converted'', JNumber (from_i64 L (of_nat (fc_converted outcome)))),
        (''failed'', JNumber (from_i64 L (of_nat (fc_failed outcome)))),
        (''failed_records'', JArray (map (rid_json L) (fc_failed_records outcome)))]"

definition schema_to_json :: "string \<Rightarrow> property_def list \<Rightarrow> 'n json" where
  "schema_to_json name properties =
     JObject
       [(''name'', JString name),
        (''properties'', JArray (map (\<lambda>p. JObject [(''name'', JString (pd_name p)), (''value_type'', JString (pd_value_type p)),
           (''nullable'', JBool (pd_nullable p))]) properties))]"

definition path_result_to_json :: "'n lib \<Rightarrow> record_id list \<Rightarrow> record_id list \<Rightarrow> 'n json" where
  "path_result_to_json L nds eds = JObject [(''nodes'', JArray (map (rid_json L) nds)), (''edges'', JArray (map (rid_json L) eds))]"

definition label_assignment_json :: "'n lib \<Rightarrow> label_assignment \<Rightarrow> 'n json" where
  "label_assignment_json L a = JObject [(''id'', JNumber (from_i64 L (ucast (la_id a)))), (''created'', JBool (la_created a))]"

definition replying :: "('s, 'a) api_op \<Rightarrow> ('a \<Rightarrow> 'b) \<Rightarrow> ('s, 'b) api_op" where
  "replying m f = api_bnd m (\<lambda>x. api_ret (f x))"

section \<open>Nodes and edges\<close>

definition conn_insert_node ::
  "(io_kind \<Rightarrow> string) \<Rightarrow> 'n lib \<Rightarrow> json_codec \<Rightarrow> (string \<Rightarrow> string + 'n props) \<Rightarrow> string \<Rightarrow> string \<Rightarrow> (connection, record_id) api_op" where
  "conn_insert_node io L J from_str type_name props_json =
     parsed (from_str props_json) (\<lambda>props. with_file io (insert_node_by_name L J type_name props))"

definition conn_insert_edge ::
  "(io_kind \<Rightarrow> string) \<Rightarrow> 'n lib \<Rightarrow> json_codec \<Rightarrow> (string \<Rightarrow> string + 'n props) \<Rightarrow> string \<Rightarrow> record_id \<Rightarrow> record_id \<Rightarrow> string \<Rightarrow>
   (connection, record_id) api_op" where
  "conn_insert_edge io L J from_str type_name src dst props_json =
     parsed (from_str props_json) (\<lambda>props. with_file io (insert_edge_by_name L J type_name src dst props))"

definition conn_delete_node :: "(io_kind \<Rightarrow> string) \<Rightarrow> 'n lib \<Rightarrow> json_codec \<Rightarrow> record_id \<Rightarrow> (connection, unit) api_op" where
  "conn_delete_node io L J rid = with_file io (delete_node L J rid)"

definition conn_delete_edge :: "(io_kind \<Rightarrow> string) \<Rightarrow> record_id \<Rightarrow> (connection, unit) api_op" where
  "conn_delete_edge io rid = with_file io (db_delete_edge rid)"

definition conn_update_node_properties ::
  "(io_kind \<Rightarrow> string) \<Rightarrow> 'n lib \<Rightarrow> json_codec \<Rightarrow> (string \<Rightarrow> string + 'n props) \<Rightarrow> record_id \<Rightarrow> string \<Rightarrow> (connection, unit) api_op" where
  "conn_update_node_properties io L J from_str rid props_json =
     parsed (from_str props_json) (\<lambda>props. with_file io (update_node_properties L J rid props))"

definition conn_update_edge_properties ::
  "(io_kind \<Rightarrow> string) \<Rightarrow> 'n lib \<Rightarrow> json_codec \<Rightarrow> (string \<Rightarrow> string + 'n props) \<Rightarrow> record_id \<Rightarrow> string \<Rightarrow> (connection, unit) api_op" where
  "conn_update_edge_properties io L J from_str rid props_json =
     parsed (from_str props_json) (\<lambda>props. with_file io (update_edge_properties L J rid props))"

definition conn_patch_node_properties ::
  "(io_kind \<Rightarrow> string) \<Rightarrow> 'n lib \<Rightarrow> json_codec \<Rightarrow> (string \<Rightarrow> string + 'n props) \<Rightarrow> record_id \<Rightarrow> string \<Rightarrow> (connection, unit) api_op" where
  "conn_patch_node_properties io L J from_str rid patch_json =
     parsed (from_str patch_json) (\<lambda>patch. with_db io (patch_node_properties L J rid patch))"

definition conn_patch_edge_properties ::
  "(io_kind \<Rightarrow> string) \<Rightarrow> 'n lib \<Rightarrow> json_codec \<Rightarrow> (string \<Rightarrow> string + 'n props) \<Rightarrow> record_id \<Rightarrow> string \<Rightarrow> (connection, unit) api_op" where
  "conn_patch_edge_properties io L J from_str rid patch_json =
     parsed (from_str patch_json) (\<lambda>patch. with_db io (patch_edge_properties L J rid patch))"

definition conn_get_node_properties :: "(io_kind \<Rightarrow> string) \<Rightarrow> 'n lib \<Rightarrow> json_codec \<Rightarrow> record_id \<Rightarrow> (connection, 'n json) api_op" where
  "conn_get_node_properties io L J rid = replying (with_db io (get_node_properties L J rid)) JObject"

definition conn_get_edge_properties :: "(io_kind \<Rightarrow> string) \<Rightarrow> 'n lib \<Rightarrow> json_codec \<Rightarrow> record_id \<Rightarrow> (connection, 'n json) api_op" where
  "conn_get_edge_properties io L J rid = replying (with_db io (get_edge_properties L J rid)) JObject"

definition conn_list_nodes :: "(io_kind \<Rightarrow> string) \<Rightarrow> 'n lib \<Rightarrow> json_codec \<Rightarrow> string option \<Rightarrow> (connection, 'n json) api_op" where
  "conn_list_nodes io L J type_name =
     replying (with_db io (list_nodes L J type_name)) (\<lambda>nds.
       JArray (map (\<lambda>(rid, props). JObject [(''rid'', rid_json L rid), (''props'', JObject props)]) nds))"

text \<open>Each edge is read again for its ends; without a schema the type is null.\<close>

fun list_edge_items ::
  "(io_kind \<Rightarrow> string) \<Rightarrow> 'n lib \<Rightarrow> schema_registry option \<Rightarrow> (record_id \<times> u16 \<times> 'n props) list \<Rightarrow> (connection, 'n json list) api_op" where
  "list_edge_items io L registry [] = api_ret []"
| "list_edge_items io L registry ((rid, tid, props) # eds) =
     api_bnd (with_file io (get_edge_endpoints rid)) (\<lambda>(src, dst).
     api_bnd (list_edge_items io L registry eds) (\<lambda>items.
     api_ret (JObject
       [(''rid'', rid_json L rid), (''src_rid'', rid_json L src), (''dst_rid'', rid_json L dst),
        (''type'', case Option.bind registry (edge_type_name tid) of None \<Rightarrow> JNull | Some name \<Rightarrow> JString name),
        (''props'', JObject props)] # items)))"

definition conn_list_edges :: "(io_kind \<Rightarrow> string) \<Rightarrow> 'n lib \<Rightarrow> json_codec \<Rightarrow> string option \<Rightarrow> (connection, 'n json) api_op" where
  "conn_list_edges io L J type_name =
     api_bnd (with_db io (list_edges L J type_name)) (\<lambda>eds.
     api_bnd (with_file io (registry_opt J)) (\<lambda>registry.
     replying (list_edge_items io L registry eds) JArray))"

definition conn_get_edge_endpoints :: "(io_kind \<Rightarrow> string) \<Rightarrow> 'n lib \<Rightarrow> record_id \<Rightarrow> (connection, 'n json) api_op" where
  "conn_get_edge_endpoints io L rid =
     replying (with_file io (get_edge_endpoints rid)) (\<lambda>(src, dst). JObject [(''from'', rid_json L src), (''to'', rid_json L dst)])"

text \<open>\<open>self.db_mut().map(..).unwrap_or(false)\<close>\<close>

definition or_false_api :: "(connection, bool) api_op \<Rightarrow> (connection, bool) api_op" where
  "or_false_api m c = (case m c of (Inl (Message _), c) \<Rightarrow> (Inr False, c) | r \<Rightarrow> r)"

definition conn_node_exists :: "(io_kind \<Rightarrow> string) \<Rightarrow> record_id \<Rightarrow> (connection, bool) api_op" where
  "conn_node_exists io rid = or_false_api (with_file io (node_exists rid))"

definition conn_edge_exists :: "(io_kind \<Rightarrow> string) \<Rightarrow> record_id \<Rightarrow> (connection, bool) api_op" where
  "conn_edge_exists io rid = or_false_api (with_file io (edge_exists rid))"

definition conn_count_nodes :: "(io_kind \<Rightarrow> string) \<Rightarrow> json_codec \<Rightarrow> string option \<Rightarrow> (connection, nat) api_op" where
  "conn_count_nodes io J type_name = with_file io (count_nodes J type_name)"

definition conn_count_edges :: "(io_kind \<Rightarrow> string) \<Rightarrow> json_codec \<Rightarrow> string option \<Rightarrow> (connection, nat) api_op" where
  "conn_count_edges io J type_name = with_file io (count_edges J type_name)"

section \<open>Labels\<close>

definition conn_get_node_labels :: "(io_kind \<Rightarrow> string) \<Rightarrow> 'n lib \<Rightarrow> json_codec \<Rightarrow> record_id \<Rightarrow> (connection, 'n json) api_op" where
  "conn_get_node_labels io L J rid = replying (with_file io (get_node_label_names L J rid)) (\<lambda>ls. JArray (map JString ls))"

definition conn_get_edge_labels :: "(io_kind \<Rightarrow> string) \<Rightarrow> 'n lib \<Rightarrow> json_codec \<Rightarrow> record_id \<Rightarrow> (connection, 'n json) api_op" where
  "conn_get_edge_labels io L J rid = replying (with_file io (get_edge_label_names L J rid)) (\<lambda>ls. JArray (map JString ls))"

definition conn_add_node_label :: "(io_kind \<Rightarrow> string) \<Rightarrow> 'n lib \<Rightarrow> json_codec \<Rightarrow> record_id \<Rightarrow> string \<Rightarrow> (connection, unit) api_op" where
  "conn_add_node_label io L J rid type_name = with_file io (add_node_label_by_name L J rid type_name)"

definition conn_remove_node_label :: "(io_kind \<Rightarrow> string) \<Rightarrow> 'n lib \<Rightarrow> json_codec \<Rightarrow> record_id \<Rightarrow> string \<Rightarrow> (connection, unit) api_op" where
  "conn_remove_node_label io L J rid type_name = with_file io (remove_node_label_by_name L J rid type_name)"

definition conn_add_edge_label :: "(io_kind \<Rightarrow> string) \<Rightarrow> 'n lib \<Rightarrow> json_codec \<Rightarrow> record_id \<Rightarrow> string \<Rightarrow> (connection, unit) api_op" where
  "conn_add_edge_label io L J rid type_name = with_file io (add_edge_label_by_name L J rid type_name)"

definition conn_remove_edge_label :: "(io_kind \<Rightarrow> string) \<Rightarrow> 'n lib \<Rightarrow> json_codec \<Rightarrow> record_id \<Rightarrow> string \<Rightarrow> (connection, unit) api_op" where
  "conn_remove_edge_label io L J rid type_name = with_file io (remove_edge_label_by_name L J rid type_name)"

definition conn_insert_node_with_labels ::
  "(io_kind \<Rightarrow> string) \<Rightarrow> 'n lib \<Rightarrow> json_codec \<Rightarrow> (string \<Rightarrow> string + 'n props) \<Rightarrow> string \<Rightarrow> string list \<Rightarrow> string \<Rightarrow>
   (connection, record_id) api_op" where
  "conn_insert_node_with_labels io L J from_str primary_type additional_labels props_json =
     parsed (from_str props_json) (\<lambda>props. with_file io (insert_node_with_label_names L J primary_type additional_labels props))"

text \<open>The reply is the record id and, for each name, its assignment; the JSON object of the names is left as a map.\<close>

definition conn_insert_node_with_dynamic_labels ::
  "(io_kind \<Rightarrow> string) \<Rightarrow> 'n lib \<Rightarrow> json_codec \<Rightarrow> (string \<Rightarrow> string + 'n props) \<Rightarrow> string \<Rightarrow> string list \<Rightarrow> string \<Rightarrow>
   (connection, record_id \<times> (string \<Rightarrow> 'n json option)) api_op" where
  "conn_insert_node_with_dynamic_labels io L J from_str primary_type additional_labels props_json =
     parsed (from_str props_json) (\<lambda>props.
       replying (with_file io (insert_node_with_dynamic_labels L J primary_type additional_labels props)) (\<lambda>(rid, assignments).
         (rid, \<lambda>name. map_option (label_assignment_json L) (assignments name))))"

definition conn_add_node_label_dynamic :: "(io_kind \<Rightarrow> string) \<Rightarrow> 'n lib \<Rightarrow> json_codec \<Rightarrow> record_id \<Rightarrow> string \<Rightarrow> (connection, 'n json) api_op" where
  "conn_add_node_label_dynamic io L J rid type_name =
     replying (with_file io (add_node_label_dynamic L J rid type_name)) (label_assignment_json L)"

definition conn_add_edge_label_dynamic :: "(io_kind \<Rightarrow> string) \<Rightarrow> 'n lib \<Rightarrow> json_codec \<Rightarrow> record_id \<Rightarrow> string \<Rightarrow> (connection, 'n json) api_op" where
  "conn_add_edge_label_dynamic io L J rid type_name =
     replying (with_file io (add_edge_label_dynamic L J rid type_name)) (label_assignment_json L)"

definition conn_get_node_type_name :: "(io_kind \<Rightarrow> string) \<Rightarrow> json_codec \<Rightarrow> record_id \<Rightarrow> (connection, string) api_op" where
  "conn_get_node_type_name io J rid = with_file io (get_node_type_name J rid)"

definition conn_get_edge_type_name :: "(io_kind \<Rightarrow> string) \<Rightarrow> json_codec \<Rightarrow> record_id \<Rightarrow> (connection, string) api_op" where
  "conn_get_edge_type_name io J rid = with_file io (get_edge_type_name J rid)"

section \<open>The schema\<close>

definition conn_apply_schema :: "(io_kind \<Rightarrow> string) \<Rightarrow> 'n lib \<Rightarrow> json_codec \<Rightarrow> grammar \<Rightarrow> string \<Rightarrow> (connection, unit) api_op" where
  "conn_apply_schema io L J G schema_text = with_db io (apply_schema L J G schema_text)"

definition conn_rename_node_field ::
  "(io_kind \<Rightarrow> string) \<Rightarrow> 'n lib \<Rightarrow> json_codec \<Rightarrow> grammar \<Rightarrow> string \<Rightarrow> string \<Rightarrow> string \<Rightarrow> (connection, unit) api_op" where
  "conn_rename_node_field io L J G type_name old_name new_name = with_db io (rename_node_field L J G type_name old_name new_name)"

definition conn_rename_edge_field ::
  "(io_kind \<Rightarrow> string) \<Rightarrow> 'n lib \<Rightarrow> json_codec \<Rightarrow> grammar \<Rightarrow> string \<Rightarrow> string \<Rightarrow> string \<Rightarrow> (connection, unit) api_op" where
  "conn_rename_edge_field io L J G type_name old_name new_name = with_db io (rename_edge_field L J G type_name old_name new_name)"

definition conn_change_node_field_type ::
  "(io_kind \<Rightarrow> string) \<Rightarrow> 'n lib \<Rightarrow> json_codec \<Rightarrow> string \<Rightarrow> string \<Rightarrow> string \<Rightarrow> bool \<Rightarrow> (connection, 'n json) api_op" where
  "conn_change_node_field_type io L J type_name field_name new_type null_on_failure =
     replying (with_db io (change_node_field_type L J type_name field_name new_type (conversion_mode null_on_failure)))
       (field_type_change_to_json L)"

definition conn_change_edge_field_type ::
  "(io_kind \<Rightarrow> string) \<Rightarrow> 'n lib \<Rightarrow> json_codec \<Rightarrow> string \<Rightarrow> string \<Rightarrow> string \<Rightarrow> bool \<Rightarrow> (connection, 'n json) api_op" where
  "conn_change_edge_field_type io L J type_name field_name new_type null_on_failure =
     replying (with_db io (change_edge_field_type L J type_name field_name new_type (conversion_mode null_on_failure)))
       (field_type_change_to_json L)"

definition conn_get_schema_text :: "(io_kind \<Rightarrow> string) \<Rightarrow> json_codec \<Rightarrow> grammar \<Rightarrow> (connection, string) api_op" where
  "conn_get_schema_text io J G = with_file io (get_schema_text J G)"

definition conn_node_type_names :: "(io_kind \<Rightarrow> string) \<Rightarrow> json_codec \<Rightarrow> (connection, string list) api_op" where
  "conn_node_type_names io J = with_file io (node_type_names J)"

definition conn_edge_type_names :: "(io_kind \<Rightarrow> string) \<Rightarrow> json_codec \<Rightarrow> (connection, string list) api_op" where
  "conn_edge_type_names io J = with_file io (edge_type_names J)"

definition schema_reply :: "type_schema option \<Rightarrow> 'n json" where
  "schema_reply r = (case r of None \<Rightarrow> JNull | Some s \<Rightarrow> schema_to_json (ts_name s) (ts_properties s))"

definition conn_node_type_schema :: "(io_kind \<Rightarrow> string) \<Rightarrow> json_codec \<Rightarrow> (string \<Rightarrow> string) \<Rightarrow> string \<Rightarrow> (connection, 'n json) api_op" where
  "conn_node_type_schema io J dbg type_name = replying (with_file io (node_type_schema J dbg type_name)) schema_reply"

definition conn_edge_type_schema :: "(io_kind \<Rightarrow> string) \<Rightarrow> json_codec \<Rightarrow> (string \<Rightarrow> string) \<Rightarrow> string \<Rightarrow> (connection, 'n json) api_op" where
  "conn_edge_type_schema io J dbg type_name = replying (with_file io (edge_type_schema J dbg type_name)) schema_reply"

section \<open>Paths, vacuum and checks\<close>

definition parse_direction :: "string \<Rightarrow> string + path_direction" where
  "parse_direction s =
     (if s = ''Outgoing'' then Inr Outgoing
      else if s = ''Incoming'' then Inr Incoming
      else if s = ''Both'' then Inr Both
      else Inl (''unknown direction: '' @ [CHR 0x27] @ s @ [CHR 0x27] @ ''. Use Outgoing/Incoming/Both''))"

fun lookup_edge_types :: "schema_registry \<Rightarrow> string list \<Rightarrow> string + u16 list" where
  "lookup_edge_types registry [] = Inr []"
| "lookup_edge_types registry (name # names) =
     (case edge_type_id_of name registry of
        None \<Rightarrow> Inl (''unknown edge type: '' @ [CHR 0x27] @ name @ [CHR 0x27])
      | Some i \<Rightarrow> (case lookup_edge_types registry names of Inl e \<Rightarrow> Inl e | Inr ids \<Rightarrow> Inr (i # ids)))"

definition resolve_edge_type_ids :: "(io_kind \<Rightarrow> string) \<Rightarrow> json_codec \<Rightarrow> string list option \<Rightarrow> (connection, u16 list option) api_op" where
  "resolve_edge_type_ids io J edge_labels =
     api_bnd (with_db io (\<lambda>d. (Ok (), d))) (\<lambda>_.
       case edge_labels of
         None \<Rightarrow> api_ret None
       | Some labels \<Rightarrow>
           api_bnd (with_file io (load_schema_registry J)) (\<lambda>registry.
           parsed (lookup_edge_types registry labels) (\<lambda>ids. api_ret (Some ids))))"

definition conn_shortest_path ::
  "(io_kind \<Rightarrow> string) \<Rightarrow> 'n lib \<Rightarrow> json_codec \<Rightarrow> record_id \<Rightarrow> record_id \<Rightarrow> nat \<Rightarrow> string \<Rightarrow> string list option \<Rightarrow>
   (connection, 'n json option) api_op" where
  "conn_shortest_path io L J src dst depth dir_name edge_labels =
     parsed (parse_direction dir_name) (\<lambda>dir.
     api_bnd (resolve_edge_type_ids io J edge_labels) (\<lambda>ids.
     replying (with_db io (db_shortest_path src dst \<lparr>max_depth = depth, direction = dir, edge_type_ids = ids\<rparr>)) (\<lambda>r.
       map_option (\<lambda>p. path_result_to_json L (node_rids p) (edge_rids p)) r)))"

text \<open>The connecting subgraph is collected from hash sets in an unspecified order; the reply is the sets.\<close>

definition conn_connecting_subgraph ::
  "(io_kind \<Rightarrow> string) \<Rightarrow> json_codec \<Rightarrow> record_id list \<Rightarrow> nat \<Rightarrow> string \<Rightarrow> string list option \<Rightarrow> (connection, connecting) api_op" where
  "conn_connecting_subgraph io J rids depth dir_name edge_labels =
     parsed (parse_direction dir_name) (\<lambda>dir.
     api_bnd (resolve_edge_type_ids io J edge_labels) (\<lambda>ids.
     with_db io (db_connecting_subgraph rids \<lparr>max_depth = depth, direction = dir, edge_type_ids = ids\<rparr>)))"

definition conn_vacuum :: "(io_kind \<Rightarrow> string) \<Rightarrow> 'n lib \<Rightarrow> json_codec \<Rightarrow> (connection, unit) api_op" where
  "conn_vacuum io L J = with_db io (vacuum L J)"

definition conn_vacuum_file :: "(io_kind \<Rightarrow> string) \<Rightarrow> 'n lib \<Rightarrow> json_codec \<Rightarrow> (path \<Rightarrow> path) \<Rightarrow> path \<Rightarrow> (world, unit) api_op" where
  "conn_vacuum_file io L J real p w = (case vacuum_file L J real p w of (r, w) \<Rightarrow> (map_err io r, w))"

definition conn_verify :: "(io_kind \<Rightarrow> string) \<Rightarrow> (connection, string list) api_op" where
  "conn_verify io = with_file io verify"

section \<open>What a transaction does\<close>

text \<open>A run of calls of \<^verbatim>\<open>Database\<close> through the connection.\<close>

definition on_calls :: "'n lib \<Rightarrow> json_codec \<Rightarrow> 'n db_call list \<Rightarrow> connection \<Rightarrow> connection" where
  "on_calls L J cs c =
     (case conn_inner c of None \<Rightarrow> c | Some d \<Rightarrow> c\<lparr>conn_inner := Some (d\<lparr>db_file := snd (run_db L J cs (db_file d))\<rparr>)\<rparr>)"

lemma legal_run_db: "legal_run L J b D A db cs D' A' db' \<Longrightarrow> snd (run_db L J cs db) = db'"
  by (induction rule: legal_run.induct) (auto split: prod.splits)

lemma gstore_restore:
  assumes "gstore_rep J f G" "db_since f f'" "gstore_rep J f' G'"
  shows "gstore_rep J (restore (snapshot f) f') G"
proof -
  from assms(1) obtain v S own pids phys where v: "db_rep f v" "layout v S own pids phys" "gstate S G"
      "extras J v (dom (sp_other S)) (g_labels G) (g_index G) (g_schema G)" by (rule gstore_repE)
  from assms(3) obtain v' where "db_rep f' v'" by (rule gstore_repE) blast
  from restore_rep [OF v(1) assms(2) this] show ?thesis using v(2-4) by (rule gstore_repI)
qed

lemma gstore_flush:
  assumes "gstore_rep J f G"
  shows "\<exists>f'. flush f = (Ok (), f') \<and> gstore_rep J f' G"
proof -
  from assms obtain v S own pids phys where v: "db_rep f v" "layout v S own pids phys" "gstate S G"
      "extras J v (dom (sp_other S)) (g_labels G) (g_index G) (g_schema G)" by (rule gstore_repE)
  from flush_rep [OF v(1)] obtain f' where "flush f = (Ok (), f')" "db_rep f' v" by blast
  then show ?thesis using gstore_repI [OF _ v(2-4)] by blast
qed

lemma represents_restore:
  assumes "represents L J b f D A room" "db_since f f'" "represents L J b f' D' A' room'"
  shows "represents L J b (restore (snapshot f) f') D A room"
  using assms gstore_restore unfolding represents_def by blast

lemma represents_flush:
  assumes "represents L J b f D A room"
  shows "\<exists>f'. flush f = (Ok (), f') \<and> represents L J b f' D A room"
  using assms gstore_flush unfolding represents_def by blast

lemma truncated_tidy:
  assumes "wal_rep w log" "wal_rep w' (log @ later)"
  shows "wal_tidy (truncate_to (wal_current_len w) w')"
proof -
  have r: "wal_rep (truncate_to (wal_current_len w) w') log" by (rule wal_truncate_law [OF assms(2,1)])
  have "length (wal_bytes (truncate_to (wal_current_len w) w')) = wal_current_len w"
    by (simp add: truncate_to_def load_index_def file_set_len_def split: prod.split)
  moreover have "wal_len (truncate_to (wal_current_len w) w') = wal_current_len w"
    using r assms(1) by (simp add: wal_rep_def wal_current_len_def)
  ultimately show ?thesis by (simp add: wal_tidy_def)
qed

lemma restore_handle_ok:
  assumes "db_rep f v" "db_since f f'" "handle_ok p f'"
  shows "handle_ok p (restore (snapshot f) f')"
proof -
  obtain fb' where fb': "backend f' = FileB fb'" "fb_path fb' = p" using assms(3) by (auto simp: handle_ok_def)
  then obtain fb where fb: "backend f = FileB fb" "wal_extends (fb_wal fb) (fb_wal fb')"
    using assms(2) by (auto simp: db_since_def backend_since_def split: storage_backend.splits)
  obtain log where log: "wal_rep (fb_wal fb) log" using assms(1) fb(1) by (auto simp: db_rep_def backend_rep_def file_log_rep_def)
  then obtain later where "wal_rep (fb_wal fb') (log @ later)" using fb(2) unfolding wal_extends_def by blast
  from truncated_tidy [OF log this] show ?thesis
    using fb' fb(1) by (simp add: handle_ok_def restore_def snapshot_def Let_def)
qed

text \<open>Beginning, and then rolling back after a legal run.\<close>

lemma begin_ok:
  assumes "conn_inner c = Some d" "conn_pending c = None"
  shows "begin_transaction io c = (Inr (), c\<lparr>conn_pending := Some (take_snapshot d)\<rparr>)"
  using assms by (simp add: begin_transaction_def api_bnd_def with_db_def map_err_def)

lemma rollback_run:
  assumes c: "conn_inner c = Some d" and rep: "represents L J b (db_file d) D A room"
    and run: "legal_run L J b D A (db_file d) cs D' A' f" and room: "b * length cs \<le> room"
  shows "\<exists>c3 d3. rollback_transaction io (on_calls L J cs (c\<lparr>conn_pending := Some (take_snapshot d)\<rparr>)) = (Inr (), c3) \<and>
    conn_pending c3 = None \<and> conn_inner c3 = Some d3 \<and> db_file d3 = restore (snapshot (db_file d)) f \<and> db_declared d3 = None \<and>
    represents L J b (db_file d3) D A room \<and> db_since (db_file d) f"
proof -
  have f: "snd (run_db L J cs (db_file d)) = f" by (rule legal_run_db [OF run])
  from run_represents [OF run rep room] have r: "represents L J b f D' A' (room - b * length cs)" "db_since (db_file d) f" by blast+
  show ?thesis
    using represents_restore [OF rep r(2,1)] r(2)
    by (simp add: rollback_transaction_def on_calls_def c f with_db_def map_err_def restore_snapshot_def take_snapshot_def)
qed

text \<open>Reopening a file that was closed or left by a crash.\<close>

lemma represents_reopen:
  assumes "represents L J b f D A room" "handle_ok p f" "separate real p" "opts < 2 ^ 64"
  shows "\<exists>f' w'. open_with_options real p opts (crash real f w) = (Ok f', w') \<and> represents L J b f' D A room"
    "\<exists>f' w'. open_with_options real p opts (drop_database real f w) = (Ok f', w') \<and> represents L J b f' D A room"
proof -
  from assms(1) obtain G where G: "gstore_rep J f G" "pg_rep L D G A" "room \<le> g_room G" "indexes_bounded D b" by (rule representsE)
  have rep: "represents L J b f' D A room" if "gstore_rep J f' G" for f' unfolding represents_def using that G(2-4) by blast
  show "\<exists>f' w'. open_with_options real p opts (crash real f w) = (Ok f', w') \<and> represents L J b f' D A room"
    using gstore_reopen [OF G(1) assms(2-4)] rep by blast
  from G(1) obtain v S own pids phys where v: "db_rep f v" "layout v S own pids phys" "gstate S G"
      "extras J v (dom (sp_other S)) (g_labels G) (g_index G) (g_schema G)" by (rule gstore_repE)
  obtain fb where fb: "backend f = FileB fb" "fb_path fb = p" using assms(2) by (auto simp: handle_ok_def)
  note d = dropped_disk [OF fb assms(3), of w]
  have "\<exists>f' w'. open_with_options real p opts (drop_database real f w) = (Ok f', w') \<and> db_rep f' v"
    using d fb(1) by (intro reopen_rep [OF v(1) assms(2) layout_header_saved [OF v(2)] assms(3,4)]) auto
  then show "\<exists>f' w'. open_with_options real p opts (drop_database real f w) = (Ok f', w') \<and> represents L J b f' D A room"
    using gstore_repI [OF _ v(2-4)] rep by blast
qed

section \<open>Properties\<close>

text \<open>
  C8: a transaction that is rolled back never happened. After \<open>begin_transaction\<close>, any run of legal
  calls (insertions, updates, deletions, labels, schema changes) and \<open>rollback_transaction\<close>, or the drop
  of the guard, the connection is idle again and its database stands for the graph and the schema it had
  before, with the same room, for a file and in memory.
\<close>

theorem rollback_restores_graph:
  assumes "conn_inner c = Some d" "conn_pending c = None" "represents L J b (db_file d) D A room"
    and "legal_run L J b D A (db_file d) cs D' A' f" "b * length cs \<le> room"
  shows "\<exists>c1 c2 d2. begin_transaction io c = (Inr (), c1) \<and> rollback_transaction io (on_calls L J cs c1) = (Inr (), c2) \<and>
    drop_transaction io (on_calls L J cs c1) = c2 \<and> conn_pending c2 = None \<and> conn_inner c2 = Some d2 \<and>
    represents L J b (db_file d2) D A room"
  using rollback_run [OF assms(1,3,4,5), of io] begin_ok [OF assms(1,2), of io] unfolding drop_transaction_def by fastforce

definition demo_io :: "io_kind \<Rightarrow> string" where
  "demo_io k = ''io''"

theorem rollback_restores_graph_witness:
  "\<exists>c1 c2 d2. begin_transaction demo_io conn_open_in_memory = (Inr (), c1) \<and>
    rollback_transaction demo_io (on_calls demo_lib unique_codec demo_calls c1) = (Inr (), c2) \<and> conn_inner c2 = Some d2 \<and>
    represents demo_lib unique_codec 10 (db_file d2) None empty_pgraph 1000"
proof -
  have c: "conn_inner conn_open_in_memory = Some open_in_memory" "conn_pending conn_open_in_memory = None"
      "db_file open_in_memory = create_in_memory"
    by (simp_all add: conn_open_in_memory_def connect_def open_in_memory_def new_database_def)
  have rep: "represents demo_lib unique_codec 10 (db_file open_in_memory) None empty_pgraph 1000"
    unfolding c(3) by (rule new_represents [OF create_in_memory_rep]) simp_all
  obtain a f where run: "legal_run demo_lib unique_codec 10 None empty_pgraph (db_file open_in_memory) demo_calls (Some unique_dto) (demo_graph a) f"
    by (rule demo_memory) (use c(3) in auto)
  show ?thesis using rollback_restores_graph [OF c(1,2) rep run, of demo_io] by auto
qed

text \<open>
  C9: a committed transaction is durable. After \<open>begin_transaction\<close>, any run of legal calls and
  \<open>commit_transaction\<close> on a database file, the commit succeeds and the connection is idle; the process
  may die, and opening the file again succeeds with the graph and schema that the run has built.
\<close>

theorem commit_is_durable:
  assumes "conn_inner c = Some d" "conn_pending c = None" "represents L J b (db_file d) D A room"
    and "legal_run L J b D A (db_file d) cs D' A' f" "b * length cs \<le> room"
    and "handle_ok p (db_file d)" "separate real p" "opts < 2 ^ 64"
  shows "\<exists>c1 c2 d2. begin_transaction io c = (Inr (), c1) \<and> commit_transaction io (on_calls L J cs c1) = (Inr (), c2) \<and>
    conn_pending c2 = None \<and> conn_inner c2 = Some d2 \<and>
    (\<exists>f' w'. open_with_options real p opts (crash real (db_file d2) w) = (Ok f', w') \<and> represents L J b f' D' A' (room - b * length cs))"
proof -
  from run_represents [OF assms(4,3,5)] have r: "represents L J b f D' A' (room - b * length cs)" "db_since (db_file d) f" by blast+
  from represents_flush [OF r(1)] obtain f2 where f2: "flush f = (Ok (), f2)" "represents L J b f2 D' A' (room - b * length cs)" by blast
  have h: "handle_ok p f2" using handle_flush [OF since_handle_ok [OF assms(6) r(2)]] f2(1) by simp
  let ?c1 = "c\<lparr>conn_pending := Some (take_snapshot d)\<rparr>"
  have "commit_transaction io (on_calls L J cs ?c1) = (Inr (), c\<lparr>conn_pending := None, conn_inner := Some (d\<lparr>db_file := f2\<rparr>)\<rparr>)"
    by (simp add: commit_transaction_def on_calls_def assms(1) legal_run_db [OF assms(4)] with_db_def db_flush_def on_db_def f2(1) map_err_def)
  then show ?thesis
    using begin_ok [OF assms(1,2), of io] represents_reopen(1) [OF f2(2) h assms(7,8), of w] by fastforce
qed

lemma demo_file:
  obtains db w a f where "create_with_options id demo_path 4096 empty_world = (Ok db, w)"
    "represents demo_lib unique_codec 10 db None empty_pgraph 1000" "handle_ok demo_path db" "separate id demo_path"
    "legal_run demo_lib unique_codec 10 None empty_pgraph db demo_calls (Some unique_dto) (demo_graph a) f"
proof -
  obtain db w where c: "create_with_options id demo_path 4096 empty_world = (Ok db, w)" "db_rep db fresh_vol" "handle_ok demo_path db"
    using create_fresh [OF can_create_demo] by blast
  have rep: "represents demo_lib unique_codec 10 db None empty_pgraph 1000" by (rule new_represents [OF c(2)]) simp_all
  have sep: "separate id demo_path" using can_create_demo by (simp add: can_create_def)
  from rep obtain a f where "legal_run demo_lib unique_codec 10 None empty_pgraph db demo_calls (Some unique_dto) (demo_graph a) f"
    by (rule demo_run) auto
  then show ?thesis using that c rep sep by blast
qed

theorem commit_is_durable_witness:
  "\<exists>db w c1 c2 d2 f' w'. create_with_options id demo_path 4096 empty_world = (Ok db, w) \<and>
    begin_transaction demo_io (connect (new_database db)) = (Inr (), c1) \<and>
    commit_transaction demo_io (on_calls demo_lib unique_codec demo_calls c1) = (Inr (), c2) \<and> conn_inner c2 = Some d2 \<and>
    open_with_options id demo_path 8192 (crash id (db_file d2) w) = (Ok f', w')"
proof (rule demo_file)
  fix db w a f
  assume *: "create_with_options id demo_path 4096 empty_world = (Ok db, w)"
    "represents demo_lib unique_codec 10 db None empty_pgraph 1000" "handle_ok demo_path db" "separate id demo_path"
    "legal_run demo_lib unique_codec 10 None empty_pgraph db demo_calls (Some unique_dto) (demo_graph a) f"
  have c: "conn_inner (connect (new_database db)) = Some (new_database db)" "conn_pending (connect (new_database db)) = None"
      "db_file (new_database db) = db" by (simp_all add: connect_def new_database_def)
  show ?thesis
    using commit_is_durable [OF c(1,2), unfolded c(3), OF *(2,5) _ *(3,4), of 8192 demo_io w] *(1) by auto
qed

text \<open>
  C10: closing a connection in the middle of a transaction discards it. After \<open>begin_transaction\<close>, any run
  of legal calls and \<open>close\<close>, the connection holds no database and no snapshot any more; opening the file
  again succeeds with the graph and schema from before the transaction.
\<close>

theorem close_discards_transaction:
  assumes "conn_inner c = Some d" "conn_pending c = None" "represents L J b (db_file d) D A room"
    and "legal_run L J b D A (db_file d) cs D' A' f" "b * length cs \<le> room"
    and "handle_ok p (db_file d)" "separate real p" "opts < 2 ^ 64"
  shows "\<exists>c1 w1 c2. begin_transaction io c = (Inr (), c1) \<and> conn_close io real (w, on_calls L J cs c1) = (Inr (), (w1, c2)) \<and>
    conn_inner c2 = None \<and> conn_pending c2 = None \<and>
    (\<exists>f' w'. open_with_options real p opts w1 = (Ok f', w') \<and> represents L J b f' D A room)"
proof -
  let ?c1 = "c\<lparr>conn_pending := Some (take_snapshot d)\<rparr>"
  obtain c3 d3 where r: "rollback_transaction io (on_calls L J cs ?c1) = (Inr (), c3)" "conn_pending c3 = None" "conn_inner c3 = Some d3"
      "db_file d3 = restore (snapshot (db_file d)) f" "represents L J b (db_file d3) D A room" "db_since (db_file d) f"
    using rollback_run [OF assms(1,3,4,5), of io] by blast
  obtain v where v: "db_rep (db_file d) v" using assms(3) unfolding represents_def by (meson gstore_repE)
  have h3: "handle_ok p (db_file d3)"
    unfolding r(4) by (rule restore_handle_ok [OF v r(6) since_handle_ok [OF assms(6) r(6)]])
  obtain f4 where f4: "flush (db_file d3) = (Ok (), f4)" "represents L J b f4 D A room" using represents_flush [OF r(5)] by blast
  have h4: "handle_ok p f4" using handle_flush [OF h3] f4(1) by simp
  have "conn_close io real (w, on_calls L J cs ?c1) = (Inr (), (drop_database real f4 w, c3\<lparr>conn_inner := None\<rparr>))"
    by (simp add: conn_close_def r(1,3) db_flush_def on_db_def f4(1) map_err_def)
  then show ?thesis
    using begin_ok [OF assms(1,2), of io] r(2) represents_reopen(2) [OF f4(2) h4 assms(7,8), of w] by fastforce
qed

theorem close_discards_transaction_witness:
  "\<exists>db w c1 w1 c2 f' w'. create_with_options id demo_path 4096 empty_world = (Ok db, w) \<and>
    begin_transaction demo_io (connect (new_database db)) = (Inr (), c1) \<and>
    conn_close demo_io id (w, on_calls demo_lib unique_codec demo_calls c1) = (Inr (), (w1, c2)) \<and> conn_inner c2 = None \<and>
    open_with_options id demo_path 8192 w1 = (Ok f', w') \<and> represents demo_lib unique_codec 10 f' None empty_pgraph 1000"
proof (rule demo_file)
  fix db w a f
  assume *: "create_with_options id demo_path 4096 empty_world = (Ok db, w)"
    "represents demo_lib unique_codec 10 db None empty_pgraph 1000" "handle_ok demo_path db" "separate id demo_path"
    "legal_run demo_lib unique_codec 10 None empty_pgraph db demo_calls (Some unique_dto) (demo_graph a) f"
  have c: "conn_inner (connect (new_database db)) = Some (new_database db)" "conn_pending (connect (new_database db)) = None"
      "db_file (new_database db) = db" by (simp_all add: connect_def new_database_def)
  show ?thesis
    using close_discards_transaction [OF c(1,2), unfolded c(3), OF *(2,5) _ *(3,4), of 8192 demo_io w] *(1) by auto
qed

end
