(* ===== verification/Spec2Isabelle.thy ===== *)
theory Spec2Isabelle
  imports Page Record_Format Slotted_Page Blob_Chain Page_Cache Wal File_Header Paged_Store Database_File
    Database_Open Page_Directory Page_Spaces Property_Store Property_Chains Topology Adjacency Pathfinding
    Page_Chain Property_Index Label_Index Label_Updates Values Schema Schema_Store Node_Lookup Database
    Schema_Text Value_Convert Schema_Changes Graph_View Graph_Store Graph_Records Property_Graph
    Database_Lookup Database_Updates Database_Edges Graph_Schema Graph_Database Database_Properties Traversal_Properties Graph_Queries Connection
begin

text \<open>
  A verification of ChiffonDB, an embedded property-graph database in Rust. The sources are under
  \<^verbatim>\<open>src/chiffondb-core/src\<close>; paths below are relative to it.

  \<^bold>\<open>The program.\<close> A database is one file of 4096-byte pages, or a byte vector with the same layout.
  \<^verbatim>\<open>storage/file.rs\<close> (\<open>DatabaseFile\<close>) reads and writes pages through an LRU cache
  (\<^verbatim>\<open>storage/buffer.rs\<close>) and a write-ahead log (\<^verbatim>\<open>storage/wal.rs\<close>); the header is page 0. On top of
  it lie three logical page spaces, for property, node and edge pages, each behind a page directory
  (\<^verbatim>\<open>storage/page_directory.rs\<close>). The topology (\<^verbatim>\<open>storage/topology.rs\<close>) keeps node and edge records in
  fixed slots and threads each edge through two linked lists; the property store (\<^verbatim>\<open>storage/value.rs\<close>)
  keeps serialised property maps and label lists; a label index and a property index
  (\<^verbatim>\<open>storage/label_index.rs\<close>, \<^verbatim>\<open>storage/property_index.rs\<close>) and the schema (\<^verbatim>\<open>schema/store.rs\<close>) live on
  pages of their own. \<^verbatim>\<open>db.rs\<close> (\<open>Database\<close>) composes all of them. The queries are path searches
  (\<^verbatim>\<open>pathfinding/mod.rs\<close>) and traversal commands (\<^verbatim>\<open>traversal/\<close>) over a read view of the database.

  \<^bold>\<open>The theories\<close>, in the order in which they build on one another.

  \<^item> \<open>Prelude\<close>: machine integers as words, errors (\<^verbatim>\<open>error.rs\<close>) and outcomes, state-passing operations
    with \<open>bnd\<close>, \<open>ret\<close> and \<open>fail\<close>, arrays of bytes.
  \<^item> \<open>Page\<close>, \<open>Record_Format\<close>, \<open>Slotted_Page\<close>, \<open>Blob_Chain\<close>: the page and record formats
    (\<^verbatim>\<open>storage/page.rs\<close>, \<^verbatim>\<open>record.rs\<close>, \<^verbatim>\<open>property.rs\<close>). Bounds, round trips, and the maps that the pages
    implement.
  \<^item> \<open>Page_Cache\<close>, \<open>Wal\<close>, \<open>File_Header\<close>: each refines an abstract machine: an LRU list, the list of logged
    writes, the header record.
  \<^item> \<open>Paged_Store\<close> states what the layers above need of the file as the locale \<open>paged_store\<close>, over an
    abstract volume \<open>vol\<close> and the judgement \<open>does\<close>; \<open>Database_File\<close> interprets it on both backends and on
    \<open>DatabaseFile\<close>, with snapshots and rollback; \<open>Database_Open\<close> adds creating, opening, locking, closing,
    crashing and recovering (\<^verbatim>\<open>storage/file.rs\<close>).
  \<^item> \<open>Page_Directory\<close> and \<open>Page_Spaces\<close>: the logical spaces, their hints and the list of free property
    pages; the layout invariant keeps the pages of the components apart. \<open>Page_Chain\<close>: what the two indexes
    share.
  \<^item> \<open>Topology\<close> and \<open>Adjacency\<close>: records in use and the two lists of each node; the state is a directed
    multigraph with ordered lists. \<open>Property_Store\<close> and \<open>Property_Chains\<close>: a finite map from record ids to
    byte strings, in slotted pages and in chains of pages. \<open>Label_Index\<close>, \<open>Label_Updates\<close>: a multiset of
    records for each type. \<open>Property_Index\<close>: a set of pairs of a key and a record id. \<open>Pathfinding\<close>:
    breadth-first search and the subgraph that connects given nodes.
  \<^item> \<open>Values\<close> (values and their encoding), \<open>Schema\<close> (\<^verbatim>\<open>schema/ast.rs\<close>, \<^verbatim>\<open>registry.rs\<close>, \<^verbatim>\<open>validator.rs\<close>,
    \<^verbatim>\<open>validate_value.rs\<close>, \<^verbatim>\<open>migration.rs\<close>), \<open>Schema_Store\<close> (\<^verbatim>\<open>schema/store.rs\<close>), \<open>Schema_Text\<close>
    (\<^verbatim>\<open>schema/parser.rs\<close>, \<^verbatim>\<open>unparse.rs\<close>), \<open>Value_Convert\<close> (\<^verbatim>\<open>schema/convert.rs\<close>), \<open>Node_Lookup\<close>
    (\<^verbatim>\<open>storage/index.rs\<close>).
  \<^item> \<open>Database\<close>, \<open>Schema_Changes\<close>, \<open>Graph_View\<close>: the methods of \<^verbatim>\<open>db.rs\<close>: nodes, edges, labels, lookups;
    changes of the schema with the purge and conversion of stored values; opening, the read view, vacuum
    and the integrity check.
  \<^item> \<open>Graph_Store\<close> puts the components side by side on one file: \<open>gstore_rep\<close> relates a database file to a
    \<open>gstore\<close>, and \<open>gspec\<close> and \<open>gok\<close> say what an operation does to it. \<open>Graph_Records\<close> and \<open>Graph_Schema\<close>
    lift the operations of the components. \<open>Property_Graph\<close> defines the abstract property graph
    (\<open>pgraph\<close>) and its representation (\<open>pg_rep\<close>: every value has one owner, both indexes agree with the
    nodes). \<open>Database_Lookup\<close>, \<open>Database_Updates\<close>, \<open>Database_Edges\<close> prove each method of \<^verbatim>\<open>db.rs\<close>
    against it; \<open>Graph_Database\<close> composes them into a refinement of sequences of calls, and
    \<open>Database_Properties\<close> draws the consequences: crash safety, unique constraints, cascading deletion,
    ownership of values, calls that fail, lookups.
  \<^item> \<open>Traversal_Command\<close>, \<open>Traversal\<close>: the commands and their executor, with the graph in memory;
    \<open>Traversal_Properties\<close>: what steps, repeated steps, sorting and grouping compute, that commands return,
    and the locale \<open>graph_contract\<close>, the promise of the trait \<open>GraphAccess\<close>, interpreted on the graph in
    memory. \<open>Graph_Queries\<close>: the integrity check and the read view on a database that stands for a graph;
    the view keeps \<open>graph_contract\<close>.
  \<^item> \<open>Connection\<close>: \<^verbatim>\<open>api/mod.rs\<close>, a connection over a database with the snapshot of a pending transaction,
    and the messages of \<^verbatim>\<open>error.rs\<close>. A transaction that is rolled back leaves the graph as it was, one that
    is committed survives a crash, and closing a connection discards what is pending.

  \<^bold>\<open>How code and model correspond.\<close> A function keeps its name; a method that would clash is prefixed
  (\<open>db_delete_edge\<close>, \<open>view_out_edges\<close>, \<open>im_find_node\<close>). A method of \<open>&mut self\<close> is an operation of type
  \<open>'s \<Rightarrow> 'a res \<times> 's\<close>; \<open>?\<close> is \<open>bnd\<close>, an \<open>Err\<close> leaves the changes made before it in place, as in the code. A
  result is \<open>Ok\<close> of a value or an abort: an error of \<^verbatim>\<open>GraphError\<close>, \<open>Panicked\<close>, or \<open>Diverged\<close> for a loop
  that does not end. Arithmetic is that of a release build: fixed-width integers wrap around, \<open>as\<close>
  truncates. \<open>usize\<close> is \<open>nat\<close>, on a 64-bit target. A \<open>String\<close> is the list of its UTF-8 bytes. A \<open>HashMap\<close>
  or \<open>HashSet\<close> is a function, a set, or the list of its entries in the order of iteration; no property
  depends on that order.

  \<^bold>\<open>Bounds and fuel.\<close> A walk along a list of edges follows at most \<open>MAX_LINKS = 2 ^ 48\<close> links, the number
  of record ids (\<open>MAX_LINKS + 1\<close> in the integrity check, which looks at an edge before it stops): a longer
  walk repeats itself and never ends, and has the outcome \<open>Diverged\<close>; the properties show that it does
  not occur on a file that legal calls have built. The walks of the two indexes and of the schema pages
  carry the code's own counter of steps (\<open>left\<close>). \<open>parse_type_expr_at\<close> recurses on the size of the pairs.
  The rounds of a repeated step are bounded by the \<open>max_depth\<close> of the code. The file has at most
  \<open>2 ^ 32 - 1\<close> pages; \<open>sp_room\<close>, \<open>g_room\<close> and the \<open>room\<close> of a property are the pages that may still be
  appended, and \<open>b\<close> bounds what one call appends, so that the hypothesis \<open>b * length cs \<le> room\<close> says that
  the file does not overflow its page numbers.

  \<^bold>\<open>What is a parameter.\<close> The JSON numbers and MessagePack codecs (\<open>'n lib\<close>), the equality of JSON numbers
  (\<open>num_repr\<close>, a representative for each class of equal numbers: \<open>json_eq\<close> is the code's \<open>==\<close> on values,
  for which \<open>0.0\<close> and \<open>-0.0\<close> are equal while their encodings differ), the parsing of the JSON text of a
  request (\<open>from_str\<close>), the printing of an error of the operating system (\<open>io\<close>), the codec of the stored
  schema (\<open>json_codec\<close>), the parser that pest generates from the grammar (\<open>G\<close>), the \<open>Debug\<close> form of a
  string (\<open>dbg\<close>), the regular expressions, the lower-case mapping and the neutral element of floating-point
  sums (\<open>env\<close>), and the resolution of paths by the file system (\<open>real\<close>). What is relied on is a hypothesis
  of the property that uses it, above all that the codecs round-trip what is stored (\<open>props_legal\<close>,
  \<open>labels_legal\<close>, \<open>encodes_to\<close>); the witnesses instantiate it with concrete functions. The operating system
  does not fail except by end of file and missing files; a crash loses no write that reached the log.
  Sorting by a comparison that is not a total preorder is taken to panic, which the standard library
  allows.

  \<^bold>\<open>Legal calls.\<close> The properties of whole runs restrict the calls (\<open>db_legal\<close>), and promise nothing from the
  first call on that is not legal. The property map and the label list of a record take at most 4088 bytes
  once encoded (\<open>short_value\<close>, in \<open>props_legal\<close> and \<open>labels_legal\<close>): values of 4089 and 4090 bytes are refused
  by the code, and longer ones go to chains of pages, whose first page a later write can overwrite
  (\<open>chain_head_is_overwritten\<close>). The label, endpoint and list calls are made on records that exist, values
  looked up are scalars, and a new schema indexes no property that existing nodes have and drops no index.
  Outside of this the code misbehaves, as the findings of the manifest say. Within it, values are equal as
  the code compares them, and identical where it compares their bytes: \<open>finds\<close> says which of the nodes with
  an equal value an index knows. The view is verified for nodes and edges in use; its methods that return
  properties or search for a node are modelled and appear in \<open>view_access\<close>, without a property of their own.
  Modelled without a property are also vacuum, the changes of the schema that rewrite stored values,
  value conversion and the schema text.

  \<^bold>\<open>Not modelled.\<close> \<^verbatim>\<open>cypher/\<close> interprets the syntax tree of the crate \<^verbatim>\<open>decypher\<close>, which is not part of the
  repository. Of \<^verbatim>\<open>api/mod.rs\<close> this leaves out \<open>execute_cypher\<close>, and the JSON entry of
  \<open>execute_traversal\<close>; the text of JSON replies is left as the value printed. The command line, the bindings
  (\<^verbatim>\<open>chiffondb-ffi\<close>, \<^verbatim>\<open>chiffondb-uniffi\<close>), the generated code, the examples and the tests are left out. The deserialisation of traversal commands is generated
  by serde. Concurrency is not modelled: a \<open>Database\<close> is used through \<open>&mut\<close>.
\<close>

end
